(* ===== verification/OCF_Prelude.thy ===== *)
theory OCF_Prelude
  imports Main "HOL-Library.Word" "HOL-Library.Monad_Syntax"
begin

section \<open>Shared types, constants and automation\<close>

text \<open>
  The prelude of the development: the integer types of \<^verbatim>\<open>inc/ocf_types.h\<close>, the
  compile-time limits of \<^verbatim>\<open>inc/ocf_cfg.h\<close> and \<^verbatim>\<open>inc/ocf_def.h\<close>, the result type of code
  that may hit an assertion, and the lemma collections the component theories share.

  Code that runs into \<^verbatim>\<open>ENV_BUG_ON\<close> calls \<^verbatim>\<open>assert(0)\<close> (\<^verbatim>\<open>env/posix/ocf_env.h\<close>) and does
  not return. A model of such code has an option type; \<^const>\<open>None\<close> is the failed assertion,
  so that "the operation never trips an assertion" is a statement about the model.
\<close>

subsection \<open>Integer types\<close>

text \<open>
  Cache line indices (\<^verbatim>\<open>ocf_cache_line_t\<close>, 32 bit), core ids and partition ids (16 bit) and
  core lines (64 bit) are natural numbers: they are only compared, stored and used as
  indices. Where the code does arithmetic on them the reduction modulo the width is
  written out. Atomic counters are C \<^verbatim>\<open>int\<close>s.
\<close>

type_synonym cline = nat
type_synonym core_id = nat
type_synonym core_line = nat
type_synonym part_id = nat
type_synonym u64 = nat

abbreviation U8_MOD :: nat where "U8_MOD \<equiv> 256"
abbreviation U16_MOD :: nat where "U16_MOD \<equiv> 65536"
abbreviation U32_MOD :: nat where "U32_MOD \<equiv> 4294967296"
abbreviation U64_MOD :: nat where "U64_MOD \<equiv> 18446744073709551616"

definition ULLONG_MAX :: nat where
  "ULLONG_MAX = 18446744073709551615"

definition OCF_CORE_MAX :: nat where
  "OCF_CORE_MAX = 4096"

definition OCF_IO_CLASS_MAX :: nat where
  "OCF_IO_CLASS_MAX = 33"

definition OCF_IO_CLASS_PRIO_LOWEST :: int where
  "OCF_IO_CLASS_PRIO_LOWEST = 255"

definition OCF_IO_CLASS_PRIO_PINNED :: int where
  "OCF_IO_CLASS_PRIO_PINNED = -1"

definition PARTITION_DEFAULT :: part_id where
  "PARTITION_DEFAULT = 0"

definition PARTITION_INVALID :: part_id where
  "PARTITION_INVALID = 65535"

definition PARTITION_SIZE_MAX :: nat where
  "PARTITION_SIZE_MAX = 4294967295"

subsection \<open>Cache modes\<close>

text \<open>
  The two enumerations \<^verbatim>\<open>ocf_cache_mode_t\<close> (\<^verbatim>\<open>inc/ocf_def.h\<close>) and \<^verbatim>\<open>ocf_req_cache_mode_t\<close>
  (\<^verbatim>\<open>src/engine/cache_engine.h\<close>) are cast into each other, and \<^verbatim>\<open>ocf_cache_mode_max\<close> and
  \<^verbatim>\<open>ocf_req_cache_mode_fast\<close> have the same value, so that modes are kept as numbers.
\<close>

type_synonym cache_mode = int

definition ocf_cache_mode_wt :: cache_mode where "ocf_cache_mode_wt = 0"
definition ocf_cache_mode_wb :: cache_mode where "ocf_cache_mode_wb = 1"
definition ocf_cache_mode_wa :: cache_mode where "ocf_cache_mode_wa = 2"
definition ocf_cache_mode_pt :: cache_mode where "ocf_cache_mode_pt = 3"
definition ocf_cache_mode_wi :: cache_mode where "ocf_cache_mode_wi = 4"
definition ocf_cache_mode_wo :: cache_mode where "ocf_cache_mode_wo = 5"
definition ocf_cache_mode_mfwa :: cache_mode where "ocf_cache_mode_mfwa = 6"
definition ocf_cache_mode_mfwb :: cache_mode where "ocf_cache_mode_mfwb = 7"
definition ocf_cache_mode_mfwt :: cache_mode where "ocf_cache_mode_mfwt = 8"
definition ocf_cache_mode_max :: cache_mode where "ocf_cache_mode_max = 9"
definition ocf_cache_mode_none :: cache_mode where "ocf_cache_mode_none = -1"
definition ocf_req_cache_mode_fast :: cache_mode where "ocf_req_cache_mode_fast = 9"
definition ocf_req_cache_mode_d2c :: cache_mode where "ocf_req_cache_mode_d2c = 10"
definition ocf_req_cache_mode_max :: cache_mode where "ocf_req_cache_mode_max = 11"

lemmas cache_mode_defs =
  ocf_cache_mode_wt_def ocf_cache_mode_wb_def ocf_cache_mode_wa_def ocf_cache_mode_pt_def
  ocf_cache_mode_wi_def ocf_cache_mode_wo_def ocf_cache_mode_mfwa_def ocf_cache_mode_mfwb_def
  ocf_cache_mode_mfwt_def ocf_cache_mode_max_def ocf_cache_mode_none_def
  ocf_req_cache_mode_fast_def ocf_req_cache_mode_d2c_def ocf_req_cache_mode_max_def

subsection \<open>Assertions\<close>

definition bug_on :: "bool \<Rightarrow> unit option" where
  "bug_on b = (if b then None else Some ())"

lemma bug_on_simps [simp]:
  "bug_on True = None"
  "bug_on False = Some ()"
  "(bug_on b = None) = b"
  "(bug_on b = Some u) = (\<not> b)"
  by (auto simp: bug_on_def)

lemma bind_bug_on [simp]:
  "(bug_on b \<bind> f) = (if b then None else f ())"
  by (simp add: bug_on_def)

lemma if_None_eq_Some [simp]:
  "((if b then None else x) = Some y) = (\<not> b \<and> x = Some y)"
  "((if b then x else None) = Some y) = (b \<and> x = Some y)"
  by auto

text \<open>A left fold of an operation that may fail: the model of a \<^verbatim>\<open>for\<close> loop over indices.\<close>

fun fold_opt :: "('a \<Rightarrow> 's \<Rightarrow> 's option) \<Rightarrow> 'a list \<Rightarrow> 's \<Rightarrow> 's option" where
  "fold_opt f [] s = Some s"
| "fold_opt f (x # xs) s = f x s \<bind> fold_opt f xs"

lemma fold_opt_append:
  "fold_opt f (xs @ ys) s = fold_opt f xs s \<bind> fold_opt f ys"
  by (induction xs arbitrary: s) (auto split: Option.bind_split)

lemma fold_opt_invariant:
  assumes step: "\<And>x s s'. x \<in> set xs \<Longrightarrow> P s \<Longrightarrow> f x s = Some s' \<Longrightarrow> P s'"
    and "P s" and "fold_opt f xs s = Some s'"
  shows "P s'"
  using assms
proof (induction xs arbitrary: s)
  case Nil
  then show ?case by simp
next
  case (Cons x xs)
  from Cons.prems(3) obtain t where t: "f x s = Some t" and rest: "fold_opt f xs t = Some s'"
    by (auto simp: bind_eq_Some_conv)
  have "P t" by (rule Cons.prems(1) [of x s]) (use Cons.prems(2) t in auto)
  moreover have "\<And>y u u'. y \<in> set xs \<Longrightarrow> P u \<Longrightarrow> f y u = Some u' \<Longrightarrow> P u'"
    using Cons.prems(1) by (meson list.set_intros(2))
  ultimately show ?case using Cons.IH rest by blast
qed

lemma fold_opt_total:
  assumes step: "\<And>x s. x \<in> set xs \<Longrightarrow> P s \<Longrightarrow> \<exists>s'. f x s = Some s' \<and> P s'"
    and "P s"
  shows "\<exists>s'. fold_opt f xs s = Some s' \<and> P s'"
  using assms
proof (induction xs arbitrary: s)
  case Nil
  then show ?case by simp
next
  case (Cons x xs)
  from Cons.prems obtain t where t: "f x s = Some t" "P t" by (meson list.set_intros(1))
  have "\<And>y u. y \<in> set xs \<Longrightarrow> P u \<Longrightarrow> \<exists>u'. f y u = Some u' \<and> P u'"
    using Cons.prems(1) by (meson list.set_intros(2))
  with t Cons.IH [of t] show ?case by simp
qed

subsection \<open>Function updates\<close>

lemma inj_on_insert_upd:
  assumes "inj_on f A" and "x \<notin> A" and "k \<notin> f ` A"
  shows "inj_on (f(x := k)) (insert x A)"
  using assms by (auto simp: inj_on_fun_updI)

lemma inj_on_upd_notin: "x \<notin> A \<Longrightarrow> inj_on (f(x := k)) A = inj_on f A"
  by (rule inj_on_cong) auto

subsection \<open>Lemma collections\<close>

named_theorems ocf_defs \<open>definitions that are unfolded in component proofs\<close>
named_theorems ocf_frame \<open>what an operation leaves unchanged\<close>

end
