(* ===== verification/MetadataBits.thy ===== *)
theory MetadataBits
  imports OCF_Prelude
begin

unbundle bit_operations_syntax

section \<open>Valid and dirty bits of cache lines\<close>

text \<open>
  Model of \<^verbatim>\<open>src/metadata/metadata_bit.h\<close> and \<^verbatim>\<open>src/metadata/metadata_status.h\<close>. Every cache
  line has one valid bit and one dirty bit per 512-byte sector, stored in an integer type whose
  width is the number of sectors of a line (\<^verbatim>\<open>u8\<close> to \<^verbatim>\<open>u128\<close>). The macro
  \<^verbatim>\<open>ocf_metadata_bit_func(what, type)\<close> generates the operations for both kinds of bits and all
  five types; here the type is the word length \<open>'w\<close> and the kind is a value of \<open>what\<close>.
  The spin locks of \<^verbatim>\<open>OCF_METADATA_BITS_LOCK_RD/WR\<close> make each status operation atomic, so each
  is one step of the model.
\<close>

subsection \<open>Masks\<close>

definition get_mask :: "nat \<Rightarrow> nat \<Rightarrow> 64 word option" where
  "get_mask start stop = do {
     bug_on (start \<ge> 64);
     bug_on (stop \<ge> 64);
     bug_on (stop < start);
     let mask = NOT (0 :: 64 word);
         mask = drop_bit (start + (63 - stop)) mask;
         mask = push_bit start mask
     in Some mask }"

definition get_mask_u128 :: "nat \<Rightarrow> nat \<Rightarrow> 128 word option" where
  "get_mask_u128 start stop = do {
     bug_on (start \<ge> 128);
     bug_on (stop \<ge> 128);
     bug_on (stop < start);
     let mask = NOT (0 :: 128 word);
         mask = drop_bit (start + (127 - stop)) mask;
         mask = push_bit start mask
     in Some mask }"

text \<open>\<^verbatim>\<open>type mask = _get_mask_##type(start, stop)\<close>: the narrower types truncate the 64-bit mask.\<close>

definition get_mask_type :: "nat \<Rightarrow> nat \<Rightarrow> 'w::len word option" where
  "get_mask_type start stop =
     (if LENGTH('w) = 128 then map_option ucast (get_mask_u128 start stop)
      else map_option ucast (get_mask start stop))"

subsection \<open>Status arrays and the generated operations\<close>

record 'b status_map =
  sm_entries :: nat
  sector_start :: nat
  sector_end :: nat
  valid :: "nat \<Rightarrow> 'b"
  dirty :: "nat \<Rightarrow> 'b"

datatype what = Valid | Dirty

fun bits_of :: "what \<Rightarrow> 'w::len word status_map \<Rightarrow> nat \<Rightarrow> 'w word" where
  "bits_of Valid sm = valid sm"
| "bits_of Dirty sm = dirty sm"

fun put_bits :: "what \<Rightarrow> nat \<Rightarrow> 'w::len word \<Rightarrow> 'w word status_map \<Rightarrow> 'w word status_map" where
  "put_bits Valid line w sm = sm\<lparr>valid := (valid sm)(line := w)\<rparr>"
| "put_bits Dirty line w sm = sm\<lparr>dirty := (dirty sm)(line := w)\<rparr>"

definition raw_bug_on :: "'w::len word status_map \<Rightarrow> nat \<Rightarrow> unit option" where
  "raw_bug_on sm line = bug_on (line \<ge> sm_entries sm)"

definition ocf_metadata_test :: "what \<Rightarrow> 'w::len word status_map \<Rightarrow> nat \<Rightarrow> nat \<Rightarrow> nat \<Rightarrow> bool \<Rightarrow> bool option"
  where
  "ocf_metadata_test what sm line start stop all = do {
     mask \<leftarrow> get_mask_type start stop;
     raw_bug_on sm line;
     if all then Some (mask = (bits_of what sm line AND mask))
     else Some ((bits_of what sm line AND mask) \<noteq> 0) }"

definition ocf_metadata_test_out :: "what \<Rightarrow> 'w::len word status_map \<Rightarrow> nat \<Rightarrow> nat \<Rightarrow> nat \<Rightarrow> bool option"
  where
  "ocf_metadata_test_out what sm line start stop = do {
     mask \<leftarrow> get_mask_type start stop;
     raw_bug_on sm line;
     Some ((bits_of what sm line AND NOT mask) \<noteq> 0) }"

definition ocf_metadata_clear ::
  "what \<Rightarrow> 'w::len word status_map \<Rightarrow> nat \<Rightarrow> nat \<Rightarrow> nat \<Rightarrow> (bool \<times> 'w word status_map) option" where
  "ocf_metadata_clear what sm line start stop = do {
     mask \<leftarrow> get_mask_type start stop;
     raw_bug_on sm line;
     let sm' = put_bits what line (bits_of what sm line AND NOT mask) sm
     in Some (bits_of what sm' line \<noteq> 0, sm') }"

definition ocf_metadata_set ::
  "what \<Rightarrow> 'w::len word status_map \<Rightarrow> nat \<Rightarrow> nat \<Rightarrow> nat \<Rightarrow> (bool \<times> 'w word status_map) option" where
  "ocf_metadata_set what sm line start stop = do {
     mask \<leftarrow> get_mask_type start stop;
     raw_bug_on sm line;
     let result = (bits_of what sm line \<noteq> 0)
     in Some (result, put_bits what line (bits_of what sm line OR mask) sm) }"

definition ocf_metadata_test_and_set ::
  "what \<Rightarrow> 'w::len word status_map \<Rightarrow> nat \<Rightarrow> nat \<Rightarrow> nat \<Rightarrow> bool \<Rightarrow> (bool \<times> 'w word status_map) option" where
  "ocf_metadata_test_and_set what sm line start stop all = do {
     mask \<leftarrow> get_mask_type start stop;
     raw_bug_on sm line;
     let test = (if all then mask = (bits_of what sm line AND mask)
                 else (bits_of what sm line AND mask) \<noteq> 0)
     in Some (test, put_bits what line (bits_of what sm line OR mask) sm) }"

definition ocf_metadata_test_and_clear ::
  "what \<Rightarrow> 'w::len word status_map \<Rightarrow> nat \<Rightarrow> nat \<Rightarrow> nat \<Rightarrow> bool \<Rightarrow> (bool \<times> 'w word status_map) option" where
  "ocf_metadata_test_and_clear what sm line start stop all = do {
     mask \<leftarrow> get_mask_type start stop;
     raw_bug_on sm line;
     let test = (if all then mask = (bits_of what sm line AND mask)
                 else (bits_of what sm line AND mask) \<noteq> 0)
     in Some (test, put_bits what line (bits_of what sm line AND NOT mask) sm) }"

subsection \<open>Status operations: dirty bits\<close>

definition metadata_init_status_bits :: "'w::len word status_map \<Rightarrow> nat \<Rightarrow> 'w word status_map option" where
  "metadata_init_status_bits sm line = do {
     (_, sm) \<leftarrow> ocf_metadata_clear Dirty sm line (sector_start sm) (sector_end sm);
     (_, sm) \<leftarrow> ocf_metadata_clear Valid sm line (sector_start sm) (sector_end sm);
     Some sm }"

definition metadata_test_dirty_all :: "'w::len word status_map \<Rightarrow> nat \<Rightarrow> bool option" where
  "metadata_test_dirty_all sm line =
     ocf_metadata_test Dirty sm line (sector_start sm) (sector_end sm) True"

definition metadata_test_dirty :: "'w::len word status_map \<Rightarrow> nat \<Rightarrow> bool option" where
  "metadata_test_dirty sm line =
     ocf_metadata_test Dirty sm line (sector_start sm) (sector_end sm) False"

definition metadata_set_dirty :: "'w::len word status_map \<Rightarrow> nat \<Rightarrow> 'w word status_map option" where
  "metadata_set_dirty sm line =
     map_option snd (ocf_metadata_set Dirty sm line (sector_start sm) (sector_end sm))"

definition metadata_clear_dirty :: "'w::len word status_map \<Rightarrow> nat \<Rightarrow> 'w word status_map option" where
  "metadata_clear_dirty sm line =
     map_option snd (ocf_metadata_clear Dirty sm line (sector_start sm) (sector_end sm))"

definition metadata_test_and_clear_dirty ::
  "'w::len word status_map \<Rightarrow> nat \<Rightarrow> (bool \<times> 'w word status_map) option" where
  "metadata_test_and_clear_dirty sm line =
     ocf_metadata_test_and_clear Dirty sm line (sector_start sm) (sector_end sm) False"

definition metadata_test_and_set_dirty ::
  "'w::len word status_map \<Rightarrow> nat \<Rightarrow> (bool \<times> 'w word status_map) option" where
  "metadata_test_and_set_dirty sm line =
     ocf_metadata_test_and_set Dirty sm line (sector_start sm) (sector_end sm) False"

definition metadata_test_dirty_sec :: "'w::len word status_map \<Rightarrow> nat \<Rightarrow> nat \<Rightarrow> nat \<Rightarrow> bool option" where
  "metadata_test_dirty_sec sm line start stop = ocf_metadata_test Dirty sm line start stop False"

definition metadata_test_dirty_all_sec :: "'w::len word status_map \<Rightarrow> nat \<Rightarrow> nat \<Rightarrow> nat \<Rightarrow> bool option"
  where
  "metadata_test_dirty_all_sec sm line start stop = ocf_metadata_test Dirty sm line start stop True"

definition metadata_test_dirty_one :: "'w::len word status_map \<Rightarrow> nat \<Rightarrow> nat \<Rightarrow> bool option" where
  "metadata_test_dirty_one sm line pos = metadata_test_dirty_sec sm line pos pos"

definition metadata_test_dirty_out_sec :: "'w::len word status_map \<Rightarrow> nat \<Rightarrow> nat \<Rightarrow> nat \<Rightarrow> bool option"
  where
  "metadata_test_dirty_out_sec sm line start stop = ocf_metadata_test_out Dirty sm line start stop"

definition metadata_set_dirty_sec ::
  "'w::len word status_map \<Rightarrow> nat \<Rightarrow> nat \<Rightarrow> nat \<Rightarrow> 'w word status_map option" where
  "metadata_set_dirty_sec sm line start stop =
     map_option snd (ocf_metadata_set Dirty sm line start stop)"

definition metadata_clear_dirty_sec ::
  "'w::len word status_map \<Rightarrow> nat \<Rightarrow> nat \<Rightarrow> nat \<Rightarrow> 'w word status_map option" where
  "metadata_clear_dirty_sec sm line start stop =
     map_option snd (ocf_metadata_clear Dirty sm line start stop)"

definition metadata_set_dirty_sec_one :: "'w::len word status_map \<Rightarrow> nat \<Rightarrow> nat \<Rightarrow> 'w word status_map option"
  where
  "metadata_set_dirty_sec_one sm line pos =
     map_option snd (ocf_metadata_set Dirty sm line pos pos)"

definition metadata_clear_dirty_sec_one :: "'w::len word status_map \<Rightarrow> nat \<Rightarrow> nat \<Rightarrow> 'w word status_map option"
  where
  "metadata_clear_dirty_sec_one sm line pos =
     map_option snd (ocf_metadata_clear Dirty sm line pos pos)"

definition metadata_test_and_clear_dirty_sec ::
  "'w::len word status_map \<Rightarrow> nat \<Rightarrow> nat \<Rightarrow> nat \<Rightarrow> (bool \<times> 'w word status_map) option" where
  "metadata_test_and_clear_dirty_sec sm line start stop =
     ocf_metadata_test_and_clear Dirty sm line start stop False"

text \<open>The result is (\<open>sec_changed\<close>, \<open>line_is_clean\<close>, new state).\<close>

definition metadata_clear_dirty_sec_changed ::
  "'w::len word status_map \<Rightarrow> nat \<Rightarrow> nat \<Rightarrow> nat \<Rightarrow> (bool \<times> bool \<times> 'w word status_map) option" where
  "metadata_clear_dirty_sec_changed sm line start stop = do {
     sec_changed \<leftarrow> ocf_metadata_test Dirty sm line start stop False;
     (still_dirty, sm) \<leftarrow> ocf_metadata_clear Dirty sm line start stop;
     Some (sec_changed, \<not> still_dirty, sm) }"

text \<open>The result is (\<open>sec_changed\<close>, \<open>line_was_dirty\<close>, new state).\<close>

definition metadata_set_dirty_sec_changed ::
  "'w::len word status_map \<Rightarrow> nat \<Rightarrow> nat \<Rightarrow> nat \<Rightarrow> (bool \<times> bool \<times> 'w word status_map) option" where
  "metadata_set_dirty_sec_changed sm line start stop = do {
     all_dirty \<leftarrow> ocf_metadata_test Dirty sm line start stop True;
     (line_was_dirty, sm) \<leftarrow> ocf_metadata_set Dirty sm line start stop;
     Some (\<not> all_dirty, line_was_dirty, sm) }"

subsection \<open>Status operations: valid bits\<close>

definition metadata_test_valid_any :: "'w::len word status_map \<Rightarrow> nat \<Rightarrow> bool option" where
  "metadata_test_valid_any sm line =
     ocf_metadata_test Valid sm line (sector_start sm) (sector_end sm) False"

definition metadata_test_valid :: "'w::len word status_map \<Rightarrow> nat \<Rightarrow> bool option" where
  "metadata_test_valid sm line =
     ocf_metadata_test Valid sm line (sector_start sm) (sector_end sm) True"

definition metadata_set_valid :: "'w::len word status_map \<Rightarrow> nat \<Rightarrow> 'w word status_map option" where
  "metadata_set_valid sm line =
     map_option snd (ocf_metadata_set Valid sm line (sector_start sm) (sector_end sm))"

definition metadata_clear_valid :: "'w::len word status_map \<Rightarrow> nat \<Rightarrow> 'w word status_map option" where
  "metadata_clear_valid sm line =
     map_option snd (ocf_metadata_clear Valid sm line (sector_start sm) (sector_end sm))"

definition metadata_test_and_clear_valid ::
  "'w::len word status_map \<Rightarrow> nat \<Rightarrow> (bool \<times> 'w word status_map) option" where
  "metadata_test_and_clear_valid sm line =
     ocf_metadata_test_and_clear Valid sm line (sector_start sm) (sector_end sm) True"

definition metadata_test_and_set_valid ::
  "'w::len word status_map \<Rightarrow> nat \<Rightarrow> (bool \<times> 'w word status_map) option" where
  "metadata_test_and_set_valid sm line =
     ocf_metadata_test_and_set Valid sm line (sector_start sm) (sector_end sm) True"

definition metadata_test_valid_sec :: "'w::len word status_map \<Rightarrow> nat \<Rightarrow> nat \<Rightarrow> nat \<Rightarrow> bool option" where
  "metadata_test_valid_sec sm line start stop = ocf_metadata_test Valid sm line start stop True"

definition metadata_test_valid_any_out_sec ::
  "'w::len word status_map \<Rightarrow> nat \<Rightarrow> nat \<Rightarrow> nat \<Rightarrow> bool option" where
  "metadata_test_valid_any_out_sec sm line start stop =
     ocf_metadata_test_out Valid sm line start stop"

definition metadata_test_valid_one :: "'w::len word status_map \<Rightarrow> nat \<Rightarrow> nat \<Rightarrow> bool option" where
  "metadata_test_valid_one sm line pos = metadata_test_valid_sec sm line pos pos"

definition metadata_set_valid_sec_changed ::
  "'w::len word status_map \<Rightarrow> nat \<Rightarrow> nat \<Rightarrow> nat \<Rightarrow> (bool \<times> 'w word status_map) option" where
  "metadata_set_valid_sec_changed sm line start stop = do {
     (was_any_valid, sm) \<leftarrow> ocf_metadata_set Valid sm line start stop;
     Some (\<not> was_any_valid, sm) }"

definition metadata_clear_valid_sec ::
  "'w::len word status_map \<Rightarrow> nat \<Rightarrow> nat \<Rightarrow> nat \<Rightarrow> 'w word status_map option" where
  "metadata_clear_valid_sec sm line start stop =
     map_option snd (ocf_metadata_clear Valid sm line start stop)"

definition metadata_clear_valid_sec_one :: "'w::len word status_map \<Rightarrow> nat \<Rightarrow> nat \<Rightarrow> 'w word status_map option"
  where
  "metadata_clear_valid_sec_one sm line pos =
     map_option snd (ocf_metadata_clear Valid sm line pos pos)"

definition metadata_set_valid_sec_one :: "'w::len word status_map \<Rightarrow> nat \<Rightarrow> nat \<Rightarrow> 'w word status_map option"
  where
  "metadata_set_valid_sec_one sm line pos =
     map_option snd (ocf_metadata_set Valid sm line pos pos)"

text \<open>The result is (returned flag, \<open>is_valid\<close>, new state).\<close>

definition metadata_clear_valid_sec_changed ::
  "'w::len word status_map \<Rightarrow> nat \<Rightarrow> nat \<Rightarrow> nat \<Rightarrow> (bool \<times> bool \<times> 'w word status_map) option" where
  "metadata_clear_valid_sec_changed sm line start stop = do {
     was_any_valid \<leftarrow> ocf_metadata_test Valid sm line (sector_start sm) (sector_end sm) False;
     (is_valid, sm) \<leftarrow> ocf_metadata_clear Valid sm line start stop;
     Some (was_any_valid \<and> \<not> is_valid, is_valid, sm) }"

subsection \<open>Masks select a range of sectors\<close>

definition sectors :: "'w::len word \<Rightarrow> nat set" where
  "sectors w = {i. bit w i}"

lemma sectors_word_ops [simp]:
  fixes a b :: "'w::len word"
  shows "sectors (a OR b) = sectors a \<union> sectors b"
    and "sectors (a AND NOT b) = sectors a - sectors b"
    and "sectors (0 :: 'w word) = {}"
  by (auto simp: sectors_def bit_and_iff bit_or_iff bit_not_iff dest: bit_imp_le_length)

lemma sectors_and: "sectors (a AND b) = sectors a \<inter> sectors b"
  by (auto simp: sectors_def bit_and_iff)

lemma sectors_inject: "(sectors a = sectors b) = (a = b)"
  by (metis bit_word_eqI mem_Collect_eq sectors_def)

lemma sectors_empty [simp]: "(sectors a = {}) = (a = 0)"
  using sectors_inject [of a 0] by simp

lemma sectors_bound: "sectors (w :: 'w::len word) \<subseteq> {..<LENGTH('w)}"
  by (auto simp: sectors_def dest: bit_imp_le_length)

lemma get_mask_sectors:
  assumes "start \<le> stop" and "stop < 64"
  shows "\<exists>m. get_mask start stop = Some m \<and> sectors m = {start..stop}"
  using assms
  by (auto simp: get_mask_def Let_def sectors_def bit_push_bit_iff bit_drop_bit_eq bit_mask_iff
      dest: bit_imp_le_length)

lemma get_mask_u128_sectors:
  assumes "start \<le> stop" and "stop < 128"
  shows "\<exists>m. get_mask_u128 start stop = Some m \<and> sectors m = {start..stop}"
  using assms
  by (auto simp: get_mask_u128_def Let_def sectors_def bit_push_bit_iff bit_drop_bit_eq
      bit_mask_iff dest: bit_imp_le_length)

definition sec_width_ok :: "'w::len itself \<Rightarrow> bool" where
  "sec_width_ok w \<longleftrightarrow> LENGTH('w) \<le> 64 \<or> LENGTH('w) = 128"

lemma get_mask_type_sectors:
  assumes "start \<le> stop" and "stop < LENGTH('w::len)" and "sec_width_ok TYPE('w)"
  shows "\<exists>m. (get_mask_type start stop :: 'w word option) = Some m \<and> sectors m = {start..stop}"
proof (cases "LENGTH('w) = 128")
  case True
  with assms get_mask_u128_sectors obtain m where
    "get_mask_u128 start stop = Some m" "sectors m = {start..stop}" by metis
  with True assms show ?thesis
    by (auto simp: get_mask_type_def sectors_def bit_ucast_iff set_eq_iff)
next
  case False
  with assms have "stop < 64" by (auto simp: sec_width_ok_def)
  with assms get_mask_sectors obtain m where
    "get_mask start stop = Some m" "sectors m = {start..stop}" by metis
  with False assms show ?thesis
    by (auto simp: get_mask_type_def sectors_def bit_ucast_iff set_eq_iff)
qed

subsection \<open>The interface of a sector bitmap\<close>

text \<open>
  What \<^verbatim>\<open>cache->metadata.iface\<close> promises of \<^verbatim>\<open>test_*\<close>, \<^verbatim>\<open>set_*\<close> and \<^verbatim>\<open>clear_*\<close>: every line has a set
  of marked sectors; the operations read and update it on a range of sectors.
\<close>

locale sector_status =
  fixes test :: "'s \<Rightarrow> nat \<Rightarrow> nat \<Rightarrow> nat \<Rightarrow> bool \<Rightarrow> bool option"
    and set_range :: "'s \<Rightarrow> nat \<Rightarrow> nat \<Rightarrow> nat \<Rightarrow> (bool \<times> 's) option"
    and clear_range :: "'s \<Rightarrow> nat \<Rightarrow> nat \<Rightarrow> nat \<Rightarrow> (bool \<times> 's) option"
    and sects :: "'s \<Rightarrow> nat \<Rightarrow> nat set"
    and ok :: "'s \<Rightarrow> nat \<Rightarrow> nat \<Rightarrow> nat \<Rightarrow> bool"
  assumes test_law:
      "ok s l a b \<Longrightarrow> test s l a b all =
         Some (if all then {a..b} \<subseteq> sects s l else {a..b} \<inter> sects s l \<noteq> {})"
    and set_law:
      "ok s l a b \<Longrightarrow> \<exists>s'. set_range s l a b = Some (sects s l \<noteq> {}, s') \<and>
         sects s' = (sects s)(l := sects s l \<union> {a..b}) \<and> ok s' = ok s"
    and clear_law:
      "ok s l a b \<Longrightarrow> \<exists>s'. clear_range s l a b = Some (sects s l - {a..b} \<noteq> {}, s') \<and>
         sects s' = (sects s)(l := sects s l - {a..b}) \<and> ok s' = ok s"
begin

lemma test_after_set:
  assumes "ok s l a b" and "set_range s l a b = Some (r, s')"
  shows "test s' l a b True = Some True"
  using set_law [OF assms(1)] assms test_law [of s' l a b] by auto

lemma test_after_clear:
  assumes "ok s l a b" and "clear_range s l a b = Some (r, s')"
  shows "test s' l a b False = Some False"
  using clear_law [OF assms(1)] assms test_law [of s' l a b] by auto

lemma clear_after_set:
  assumes "ok s l a b" and "test s l a b False = Some False"
    and "set_range s l a b = Some (r, s')" and "clear_range s' l a b = Some (r', s'')"
  shows "sects s'' = sects s" and "r' = r"
proof -
  have disj: "{a..b} \<inter> sects s l = {}" using assms(1,2) test_law by simp
  have s': "r = (sects s l \<noteq> {})" "sects s' = (sects s)(l := sects s l \<union> {a..b})" "ok s' l a b"
    using set_law [OF assms(1)] assms(1,3) by auto
  have s'': "r' = (sects s' l - {a..b} \<noteq> {})" "sects s'' = (sects s')(l := sects s' l - {a..b})"
    using clear_law [OF s'(3)] assms(4) by auto
  have "sects s l - {a..b} = sects s l" using disj by auto
  with s' s'' show "sects s'' = sects s" and "r' = r" by (auto simp: Un_Diff)
qed

lemma other_lines:
  assumes "ok s l a b" and "l' \<noteq> l"
  shows "set_range s l a b = Some (r, s') \<Longrightarrow> sects s' l' = sects s l'"
    and "clear_range s l a b = Some (r, s') \<Longrightarrow> sects s' l' = sects s l'"
  using set_law [OF assms(1)] clear_law [OF assms(1)] assms(2) by auto

end

definition sec_ok :: "'w::len word status_map \<Rightarrow> nat \<Rightarrow> nat \<Rightarrow> nat \<Rightarrow> bool" where
  "sec_ok sm line start stop \<longleftrightarrow>
     line < sm_entries sm \<and> start \<le> stop \<and> stop < LENGTH('w) \<and> sec_width_ok TYPE('w)"

definition sec_set :: "what \<Rightarrow> 'w::len word status_map \<Rightarrow> nat \<Rightarrow> nat set" where
  "sec_set what sm line = sectors (bits_of what sm line)"

lemma put_bits_simps [simp]:
  "bits_of what (put_bits what line w sm) = (bits_of what sm)(line := w)"
  "what \<noteq> what' \<Longrightarrow> bits_of what (put_bits what' line w sm) = bits_of what sm"
  "sm_entries (put_bits what line w sm) = sm_entries sm"
  "sector_start (put_bits what line w sm) = sector_start sm"
  "sector_end (put_bits what line w sm) = sector_end sm"
  by (cases what; cases what'; simp)+

lemma sec_ok_put_bits [simp]: "sec_ok (put_bits what line w sm) = sec_ok sm"
  by (simp add: sec_ok_def fun_eq_iff)

lemma sec_mask:
  fixes sm :: "'w::len word status_map"
  assumes "sec_ok sm line start stop"
  obtains m :: "'w word" where "get_mask_type start stop = Some m" and "sectors m = {start..stop}"
    and "raw_bug_on sm line = Some ()"
  using assms get_mask_type_sectors [of start stop, where ?'w = 'w]
  by (auto simp: sec_ok_def raw_bug_on_def)

lemma word_test_all: "(m = (w AND m)) = (sectors m \<subseteq> sectors w)"
  using sectors_inject [of "w AND m" m] by (auto simp: sectors_and)

lemma word_test_any: "((w AND m) \<noteq> 0) = (sectors m \<inter> sectors w \<noteq> {})"
  using sectors_empty [of "w AND m"] by (auto simp: sectors_and)

lemma word_clear_any: "((w AND NOT m) \<noteq> 0) = (sectors w - sectors m \<noteq> {})"
  using sectors_empty [of "w AND NOT m"] by auto

lemma ocf_metadata_test_sem:
  assumes "sec_ok sm line start stop"
  shows "ocf_metadata_test what sm line start stop all =
    Some (if all then {start..stop} \<subseteq> sec_set what sm line
          else {start..stop} \<inter> sec_set what sm line \<noteq> {})"
  using assms
  by (auto elim!: sec_mask simp: ocf_metadata_test_def sec_set_def word_test_all word_test_any)

lemma ocf_metadata_test_out_sem:
  assumes "sec_ok sm line start stop"
  shows "ocf_metadata_test_out what sm line start stop =
    Some (sec_set what sm line - {start..stop} \<noteq> {})"
  using assms
  by (auto elim!: sec_mask simp: ocf_metadata_test_out_def sec_set_def word_clear_any)

lemma ocf_metadata_set_sem:
  assumes "sec_ok sm line start stop"
  shows "\<exists>sm'. ocf_metadata_set what sm line start stop = Some (sec_set what sm line \<noteq> {}, sm') \<and>
    sec_set what sm' = (sec_set what sm)(line := sec_set what sm line \<union> {start..stop}) \<and>
    sec_ok sm' = sec_ok sm"
  using assms
  by (auto elim!: sec_mask simp: ocf_metadata_set_def sec_set_def fun_eq_iff)

lemma ocf_metadata_clear_sem:
  assumes "sec_ok sm line start stop"
  shows "\<exists>sm'. ocf_metadata_clear what sm line start stop =
      Some (sec_set what sm line - {start..stop} \<noteq> {}, sm') \<and>
    sec_set what sm' = (sec_set what sm)(line := sec_set what sm line - {start..stop}) \<and>
    sec_ok sm' = sec_ok sm"
  using assms
  by (auto elim!: sec_mask simp: ocf_metadata_clear_def sec_set_def fun_eq_iff word_clear_any)

interpretation valid_bits: sector_status "ocf_metadata_test Valid" "ocf_metadata_set Valid"
  "ocf_metadata_clear Valid" "sec_set Valid" sec_ok
  by unfold_locales
     (rule ocf_metadata_test_sem ocf_metadata_set_sem ocf_metadata_clear_sem, assumption)+

interpretation dirty_bits: sector_status "ocf_metadata_test Dirty" "ocf_metadata_set Dirty"
  "ocf_metadata_clear Dirty" "sec_set Dirty" sec_ok
  by unfold_locales
     (rule ocf_metadata_test_sem ocf_metadata_set_sem ocf_metadata_clear_sem, assumption)+

text \<open>
  The combined test-and-set and test-and-clear operations are the test followed by the update.
\<close>

lemma test_and_set_split:
  "ocf_metadata_test_and_set what sm line start stop all = do {
     t \<leftarrow> ocf_metadata_test what sm line start stop all;
     (_, sm') \<leftarrow> ocf_metadata_set what sm line start stop;
     Some (t, sm') }"
  by (auto simp: ocf_metadata_test_and_set_def ocf_metadata_test_def ocf_metadata_set_def Let_def
      raw_bug_on_def split: Option.bind_split)

lemma test_and_clear_split:
  "ocf_metadata_test_and_clear what sm line start stop all = do {
     t \<leftarrow> ocf_metadata_test what sm line start stop all;
     (_, sm') \<leftarrow> ocf_metadata_clear what sm line start stop;
     Some (t, sm') }"
  by (auto simp: ocf_metadata_test_and_clear_def ocf_metadata_test_def ocf_metadata_clear_def
      Let_def raw_bug_on_def split: Option.bind_split)

subsection \<open>Whole lines\<close>

text \<open>The settings of \<^verbatim>\<open>ocf_metadata_init\<close>: sectors 0 to \<open>LENGTH('w) - 1\<close>.\<close>

definition status_wf :: "'w::len word status_map \<Rightarrow> bool" where
  "status_wf sm \<longleftrightarrow> sector_start sm = 0 \<and> sector_end sm = LENGTH('w) - 1 \<and> sec_width_ok TYPE('w)"

lemma status_wf_put_bits [simp]: "status_wf (put_bits what line w sm) = status_wf sm"
  by (simp add: status_wf_def)

lemma status_wf_line_ok:
  "status_wf sm \<Longrightarrow> line < sm_entries sm \<Longrightarrow> sec_ok sm line (sector_start sm) (sector_end sm)"
  for sm :: "'w::len word status_map"
  using len_gt_0 [where ?'a = 'w] by (simp add: status_wf_def sec_ok_def del: len_gt_0)

lemma status_wf_cover:
  "status_wf sm \<Longrightarrow> sec_set what sm line \<subseteq> {sector_start sm..sector_end sm}"
  for sm :: "'w::len word status_map"
  using sectors_bound [of "bits_of what sm line"] by (auto simp: status_wf_def sec_set_def)

lemma metadata_test_any_sem:
  assumes "status_wf sm" and "line < sm_entries sm"
  shows "metadata_test_dirty sm line = Some (sec_set Dirty sm line \<noteq> {})"
    and "metadata_test_valid_any sm line = Some (sec_set Valid sm line \<noteq> {})"
  using assms status_wf_cover [OF assms(1), of Dirty line] status_wf_cover [OF assms(1), of Valid line]
  by (auto simp: metadata_test_dirty_def metadata_test_valid_any_def
      ocf_metadata_test_sem [OF status_wf_line_ok])

subsection \<open>What the updates leave unchanged\<close>

lemma bits_update_frame:
  assumes "ocf_metadata_set what sm line start stop = Some (r, sm') \<or>
           ocf_metadata_clear what sm line start stop = Some (r, sm')"
  shows "what' \<noteq> what \<Longrightarrow> sec_set what' sm' = sec_set what' sm"
    and "status_wf sm' = status_wf sm" and "sm_entries sm' = sm_entries sm"
    and "sector_start sm' = sector_start sm" and "sector_end sm' = sector_end sm"
    and "sec_ok sm' = sec_ok sm"
    and "line' \<noteq> line \<Longrightarrow> bits_of what' sm' line' = bits_of what' sm line'"
  using assms
  by (cases "what' = what";
      auto simp: ocf_metadata_set_def ocf_metadata_clear_def Let_def raw_bug_on_def sec_set_def
        fun_eq_iff bind_eq_Some_conv)+

lemma metadata_set_valid_sec_changed_sem:
  assumes "sec_ok sm line start stop"
  shows "\<exists>sm'. metadata_set_valid_sec_changed sm line start stop =
           Some (sec_set Valid sm line = {}, sm') \<and>
         sec_set Valid sm' = (sec_set Valid sm)(line := sec_set Valid sm line \<union> {start..stop}) \<and>
         sec_set Dirty sm' = sec_set Dirty sm \<and> sm_entries sm' = sm_entries sm \<and>
         status_wf sm' = status_wf sm"
proof -
  from valid_bits.set_law [OF assms] obtain sm' where
    s: "ocf_metadata_set Valid sm line start stop = Some (sec_set Valid sm line \<noteq> {}, sm')" and
    v: "sec_set Valid sm' = (sec_set Valid sm)(line := sec_set Valid sm line \<union> {start..stop})"
    by blast
  note f = bits_update_frame [OF disjI1 [OF s]]
  show ?thesis
    using s v f(1) [of Dirty] f(2,3) by (auto simp: metadata_set_valid_sec_changed_def)
qed

lemma metadata_clear_valid_sec_changed_sem:
  assumes "status_wf sm" and "sec_ok sm line start stop"
  shows "\<exists>sm'. metadata_clear_valid_sec_changed sm line start stop =
           Some (sec_set Valid sm line \<noteq> {} \<and> sec_set Valid sm line \<subseteq> {start..stop},
                 \<not> sec_set Valid sm line \<subseteq> {start..stop}, sm') \<and>
         sec_set Valid sm' = (sec_set Valid sm)(line := sec_set Valid sm line - {start..stop}) \<and>
         sec_set Dirty sm' = sec_set Dirty sm \<and> sm_entries sm' = sm_entries sm \<and>
         status_wf sm' = status_wf sm"
proof -
  from valid_bits.clear_law [OF assms(2)] obtain sm' where
    s: "ocf_metadata_clear Valid sm line start stop =
          Some (sec_set Valid sm line - {start..stop} \<noteq> {}, sm')" and
    v: "sec_set Valid sm' = (sec_set Valid sm)(line := sec_set Valid sm line - {start..stop})"
    by blast
  have t: "ocf_metadata_test Valid sm line (sector_start sm) (sector_end sm) False =
             Some (sec_set Valid sm line \<noteq> {})"
    using metadata_test_any_sem(2) [OF assms(1), of line] assms(2)
    by (simp add: metadata_test_valid_any_def sec_ok_def)
  note f = bits_update_frame [OF disjI2 [OF s]]
  show ?thesis
    using s t v f(1) [of Dirty] f(2,3) by (auto simp: metadata_clear_valid_sec_changed_def)
qed

lemma metadata_set_dirty_sec_changed_sem:
  assumes "sec_ok sm line start stop"
  shows "\<exists>sm'. metadata_set_dirty_sec_changed sm line start stop =
           Some (\<not> {start..stop} \<subseteq> sec_set Dirty sm line, sec_set Dirty sm line \<noteq> {}, sm') \<and>
         sec_set Dirty sm' = (sec_set Dirty sm)(line := sec_set Dirty sm line \<union> {start..stop}) \<and>
         sec_set Valid sm' = sec_set Valid sm \<and> sm_entries sm' = sm_entries sm \<and>
         status_wf sm' = status_wf sm"
proof -
  from dirty_bits.set_law [OF assms] obtain sm' where
    s: "ocf_metadata_set Dirty sm line start stop = Some (sec_set Dirty sm line \<noteq> {}, sm')" and
    v: "sec_set Dirty sm' = (sec_set Dirty sm)(line := sec_set Dirty sm line \<union> {start..stop})"
    by blast
  note f = bits_update_frame [OF disjI1 [OF s]]
  show ?thesis
    using s v f(1) [of Valid] f(2,3) dirty_bits.test_law [OF assms, of True]
    by (simp add: metadata_set_dirty_sec_changed_def)
qed

lemma metadata_clear_dirty_sec_changed_sem:
  assumes "sec_ok sm line start stop"
  shows "\<exists>sm'. metadata_clear_dirty_sec_changed sm line start stop =
           Some ({start..stop} \<inter> sec_set Dirty sm line \<noteq> {},
                 sec_set Dirty sm line \<subseteq> {start..stop}, sm') \<and>
         sec_set Dirty sm' = (sec_set Dirty sm)(line := sec_set Dirty sm line - {start..stop}) \<and>
         sec_set Valid sm' = sec_set Valid sm \<and> sm_entries sm' = sm_entries sm \<and>
         status_wf sm' = status_wf sm"
proof -
  from dirty_bits.clear_law [OF assms] obtain sm' where
    s: "ocf_metadata_clear Dirty sm line start stop =
          Some (sec_set Dirty sm line - {start..stop} \<noteq> {}, sm')" and
    v: "sec_set Dirty sm' = (sec_set Dirty sm)(line := sec_set Dirty sm line - {start..stop})"
    by blast
  note f = bits_update_frame [OF disjI2 [OF s]]
  show ?thesis
    using s v f(1) [of Valid] f(2,3) dirty_bits.test_law [OF assms, of False]
    by (simp add: metadata_clear_dirty_sec_changed_def Diff_eq_empty_iff)
qed

subsection \<open>Properties\<close>

definition example_status :: "8 word status_map" where
  "example_status = \<lparr>sm_entries = 2, sector_start = 0, sector_end = 7,
     valid = (\<lambda>_. 0)(0 := 60), dirty = (\<lambda>_. 0)(0 := 12)\<rparr>"

lemma example_status_ok:
  "status_wf example_status" "sec_ok example_status 0 2 5"
  by (simp_all add: example_status_def status_wf_def sec_ok_def sec_width_ok_def)

text \<open>
  C21. For every status type and every range inside a line, the mask the code builds by two
  shifts is defined and its bits are exactly the sectors from \<open>start\<close> to \<open>stop\<close>.
\<close>

theorem mask_selects_range:
  assumes "start \<le> stop" and "stop < LENGTH('w::len)" and "sec_width_ok TYPE('w)"
  shows "\<exists>m. (get_mask_type start stop :: 'w word option) = Some m \<and>
             (\<forall>i. bit m i = (start \<le> i \<and> i \<le> stop))"
  using get_mask_type_sectors [OF assms] by (auto simp: sectors_def set_eq_iff)

theorem mask_selects_range_witness:
  "(2::nat) \<le> 5 \<and> (5::nat) < LENGTH(8) \<and> sec_width_ok TYPE(8) \<and>
   (\<exists>m. (get_mask_type 2 5 :: 8 word option) = Some m \<and>
        (\<forall>i. bit m i = (2 \<le> i \<and> i \<le> 5)))"
proof -
  have h: "(2::nat) \<le> 5" "(5::nat) < LENGTH(8)" "sec_width_ok TYPE(8)"
    by (simp_all add: sec_width_ok_def)
  show ?thesis using h mask_selects_range [OF h] by blast
qed

text \<open>
  Invalidating sectors reports a change exactly when the line had a valid sector and lost
  its last one; \<open>is_valid\<close> says whether a valid sector is left; only the valid bits of that line
  change.
\<close>

theorem clear_valid_sec_changed_spec:
  assumes "status_wf sm" and "sec_ok sm line start stop"
  shows "\<exists>sm'. metadata_clear_valid_sec_changed sm line start stop =
           Some (sec_set Valid sm line \<noteq> {} \<and> sec_set Valid sm line \<subseteq> {start..stop},
                 \<not> sec_set Valid sm line \<subseteq> {start..stop}, sm') \<and>
         sec_set Valid sm' = (sec_set Valid sm)(line := sec_set Valid sm line - {start..stop}) \<and>
         sec_set Dirty sm' = sec_set Dirty sm"
  using metadata_clear_valid_sec_changed_sem [OF assms] by blast

theorem clear_valid_sec_changed_spec_witness:
  "\<exists>sm'. metadata_clear_valid_sec_changed example_status 0 2 5 =
     Some (sec_set Valid example_status 0 \<noteq> {} \<and> sec_set Valid example_status 0 \<subseteq> {2..5},
           \<not> sec_set Valid example_status 0 \<subseteq> {2..5}, sm') \<and>
     sec_set Valid sm' = (sec_set Valid example_status)(0 := sec_set Valid example_status 0 - {2..5}) \<and>
     sec_set Dirty sm' = sec_set Dirty example_status"
  by (rule clear_valid_sec_changed_spec [OF example_status_ok])

text \<open>
  Marking sectors valid reports a change exactly when the line had no valid sector before:
  the flag is the negation of what the comment above the function says.
\<close>

theorem set_valid_sec_changed_spec:
  assumes "sec_ok sm line start stop"
  shows "\<exists>sm'. metadata_set_valid_sec_changed sm line start stop =
           Some (sec_set Valid sm line = {}, sm') \<and>
         sec_set Valid sm' = (sec_set Valid sm)(line := sec_set Valid sm line \<union> {start..stop}) \<and>
         sec_set Dirty sm' = sec_set Dirty sm"
  using metadata_set_valid_sec_changed_sem [OF assms] by blast

theorem set_valid_sec_changed_spec_witness:
  "\<exists>sm'. metadata_set_valid_sec_changed example_status 0 2 5 =
     Some (sec_set Valid example_status 0 = {}, sm') \<and>
     sec_set Valid sm' = (sec_set Valid example_status)(0 := sec_set Valid example_status 0 \<union> {2..5}) \<and>
     sec_set Dirty sm' = sec_set Dirty example_status"
  by (rule set_valid_sec_changed_spec [OF example_status_ok(2)])

end
