(* ===== verification/DList.thy ===== *)
theory DList
  imports OCF_Prelude
begin

section \<open>Index-linked doubly linked lists\<close>

text \<open>
  OCF keeps its collision lists, partition lists, free lists, LRU lists and ALRU lists in the
  same way: a node is a cache line index, the links are two arrays indexed by cache lines, and
  the number of cache lines (\<^verbatim>\<open>collision_table_entries\<close>) is the null link. This theory relates
  a pair of link arrays to the list of nodes it stores, and proves the three pointer updates
  all these components make: linking a node at the head, linking it at the tail, and
  unlinking a node from any position.
\<close>

subsection \<open>Segments\<close>

definition hd_or :: "nat \<Rightarrow> nat list \<Rightarrow> nat" where
  "hd_or q xs = (case xs of [] \<Rightarrow> q | y # _ \<Rightarrow> y)"

definition last_or :: "nat \<Rightarrow> nat list \<Rightarrow> nat" where
  "last_or p xs = (if xs = [] then p else last xs)"

lemma hd_or_simps [simp]:
  "hd_or q [] = q"
  "hd_or q (x # xs) = x"
  by (simp_all add: hd_or_def)

lemma last_or_simps [simp]:
  "last_or p [] = p"
  "last_or p (x # xs) = last_or x xs"
  "last_or p (xs @ [x]) = x"
  by (simp_all add: last_or_def)

lemma hd_or_conv: "xs \<noteq> [] \<Longrightarrow> hd_or q xs = hd xs"
  by (cases xs) auto

lemma last_or_conv: "xs \<noteq> [] \<Longrightarrow> last_or p xs = last xs"
  by (simp add: last_or_def)

lemma hd_or_append [simp]: "hd_or q (xs @ ys) = hd_or (hd_or q ys) xs"
  by (cases xs) auto

lemma last_or_append [simp]: "last_or p (xs @ ys) = last_or (last_or p xs) ys"
  by (simp add: last_or_def)

lemma hd_or_cases: "hd_or n xs \<in> set xs \<or> hd_or n xs = n"
  by (cases xs) auto

lemma last_or_cases: "last_or n xs \<in> set xs \<or> last_or n xs = n"
  by (simp add: last_or_def)

fun dseg :: "(nat \<Rightarrow> nat) \<Rightarrow> (nat \<Rightarrow> nat) \<Rightarrow> nat \<Rightarrow> nat list \<Rightarrow> nat \<Rightarrow> bool" where
  "dseg nx pv p [] q = True"
| "dseg nx pv p (x # xs) q = (pv x = p \<and> nx x = hd_or q xs \<and> dseg nx pv x xs q)"

lemma dseg_append:
  "dseg nx pv p (xs @ ys) q =
     (dseg nx pv p xs (hd_or q ys) \<and> dseg nx pv (last_or p xs) ys q)"
  by (induction xs arbitrary: p) auto

lemma dseg_cong:
  assumes "\<And>x. x \<in> set xs \<Longrightarrow> nx' x = nx x" and "\<And>x. x \<in> set xs \<Longrightarrow> pv' x = pv x"
  shows "dseg nx' pv' p xs q = dseg nx pv p xs q"
  using assms by (induction xs arbitrary: p) auto

lemma dseg_upd [simp]:
  "x \<notin> set xs \<Longrightarrow> dseg (nx(x := v)) pv p xs q = dseg nx pv p xs q"
  "x \<notin> set xs \<Longrightarrow> dseg nx (pv(x := v)) p xs q = dseg nx pv p xs q"
  by (rule dseg_cong; auto)+

text \<open>The links of a node in the middle of a segment are its neighbours.\<close>

lemma dseg_node:
  assumes "dseg nx pv p (as @ x # bs) q"
  shows "pv x = last_or p as" and "nx x = hd_or q bs"
  using assms by (simp_all add: dseg_append)

text \<open>Redirecting the last forward link of a segment changes only its end.\<close>

lemma dseg_relink_end:
  assumes "dseg nx pv p xs q" and "distinct xs"
    and "\<And>x. x \<in> set xs \<Longrightarrow> nx' x = (if x = last xs then q' else nx x)"
    and "\<And>x. x \<in> set xs \<Longrightarrow> pv' x = pv x"
  shows "dseg nx' pv' p xs q'"
proof (cases xs rule: rev_cases)
  case Nil
  then show ?thesis by simp
next
  case (snoc ys y)
  with assms(1) have ys: "dseg nx pv p ys y" and y: "pv y = last_or p ys"
    by (auto simp: dseg_append)
  have "dseg nx' pv' p ys y = dseg nx pv p ys y"
    using assms(2-4) snoc by (intro dseg_cong) auto
  with ys y assms snoc show ?thesis by (simp add: dseg_append)
qed

lemma dseg_relink_start:
  assumes "dseg nx pv p xs q" and "distinct xs"
    and "\<And>x. x \<in> set xs \<Longrightarrow> nx' x = nx x"
    and "\<And>x. x \<in> set xs \<Longrightarrow> pv' x = (if x = hd xs then p' else pv x)"
  shows "dseg nx' pv' p' xs q"
proof (cases xs)
  case Nil
  then show ?thesis by simp
next
  case (Cons y ys)
  have "dseg nx' pv' y ys q = dseg nx pv y ys q"
    using assms(2-4) Cons by (intro dseg_cong) auto
  with assms Cons show ?thesis by auto
qed

subsection \<open>Null-terminated lists\<close>

definition dlist :: "nat \<Rightarrow> (nat \<Rightarrow> nat) \<Rightarrow> (nat \<Rightarrow> nat) \<Rightarrow> nat list \<Rightarrow> bool" where
  "dlist n nx pv xs \<longleftrightarrow> distinct xs \<and> (\<forall>x \<in> set xs. x < n) \<and> dseg nx pv n xs n"

lemma dlist_Nil [simp]: "dlist n nx pv []"
  by (simp add: dlist_def)

lemma dlistD:
  assumes "dlist n nx pv xs"
  shows "distinct xs" and "x \<in> set xs \<Longrightarrow> x < n" and "dseg nx pv n xs n"
  using assms by (auto simp: dlist_def)

lemma dlist_hd_less: "dlist n nx pv xs \<Longrightarrow> xs \<noteq> [] \<Longrightarrow> hd_or n xs < n"
  by (cases xs) (auto simp: dlist_def)

lemma dlist_last_less: "dlist n nx pv xs \<Longrightarrow> xs \<noteq> [] \<Longrightarrow> last_or n xs < n"
  by (simp add: dlist_def last_or_def)

lemma dlist_hd_null [simp]: "dlist n nx pv xs \<Longrightarrow> (hd_or n xs = n) = (xs = [])"
  using dlist_hd_less by fastforce

lemma dlist_last_null [simp]: "dlist n nx pv xs \<Longrightarrow> (last_or n xs = n) = (xs = [])"
  using dlist_last_less by fastforce

lemma dlist_cong:
  assumes "\<And>x. x \<in> set xs \<Longrightarrow> nx' x = nx x" and "\<And>x. x \<in> set xs \<Longrightarrow> pv' x = pv x"
  shows "dlist n nx' pv' xs = dlist n nx pv xs"
  using dseg_cong [of xs nx' nx pv' pv] assms by (auto simp: dlist_def)

lemma dlist_upd [simp]:
  "x \<notin> set xs \<Longrightarrow> dlist n (nx(x := v)) pv xs = dlist n nx pv xs"
  "x \<notin> set xs \<Longrightarrow> dlist n nx (pv(x := v)) xs = dlist n nx pv xs"
  by (auto simp: dlist_def)

text \<open>A node of a list, with the links the code finds there.\<close>

lemma dlist_split:
  assumes "dlist n nx pv xs" and "x \<in> set xs"
  obtains as bs where "xs = as @ x # bs" and "x \<notin> set as" and "x \<notin> set bs"
    and "pv x = last_or n as" and "nx x = hd_or n bs"
    and "dlist n nx pv (as @ x # bs)"
proof -
  from assms(2) obtain as bs where xs: "xs = as @ x # bs" by (meson split_list)
  have "dseg nx pv n (as @ x # bs) n" using assms(1) xs by (simp add: dlist_def)
  note links = dseg_node [OF this]
  from assms(1) xs have "x \<notin> set as" "x \<notin> set bs" by (auto simp: dlist_def)
  with that xs links assms(1) show ?thesis by blast
qed

lemma dlist_links_null:
  assumes "dlist n nx pv (as @ x # bs)"
  shows "(pv x = n) = (as = [])" and "(nx x = n) = (bs = [])"
    and "as \<noteq> [] \<Longrightarrow> pv x < n" and "bs \<noteq> [] \<Longrightarrow> nx x < n"
proof -
  have seg: "dseg nx pv n (as @ x # bs) n" using assms by (simp add: dlist_def)
  note l = dseg_node [OF seg]
  have *: "\<forall>y \<in> set as \<union> set bs. y < n" using assms by (auto simp: dlist_def)
  show p: "as \<noteq> [] \<Longrightarrow> pv x < n" using l(1) * by (simp add: last_or_def)
  show q: "bs \<noteq> [] \<Longrightarrow> nx x < n" using l(2) * by (cases bs) auto
  show "(pv x = n) = (as = [])" using p l(1) by fastforce
  show "(nx x = n) = (bs = [])" using q l(2) by fastforce
qed

lemma dlist_links_neq:
  assumes "dlist n nx pv (as @ x # bs)"
  shows "nx x \<noteq> x" and "pv x \<noteq> x"
proof -
  note l = dseg_node [OF dlistD(3) [OF assms]]
  have x: "x < n" "x \<notin> set as" "x \<notin> set bs" using assms by (auto simp: dlist_def)
  show "nx x \<noteq> x" using l(2) x hd_or_cases [of n bs] by (metis less_irrefl)
  show "pv x \<noteq> x" using l(1) x last_or_cases [of n as] by (metis less_irrefl)
qed

subsection \<open>The three updates\<close>

lemma dlist_push_front:
  assumes "dlist n nx pv xs" and "x < n" and "x \<notin> set xs"
    and "nx' x = hd_or n xs" and "pv' x = n"
    and "\<And>y. y \<in> set xs \<Longrightarrow> nx' y = nx y"
    and "\<And>y. y \<in> set xs \<Longrightarrow> pv' y = (if y = hd xs then x else pv y)"
  shows "dlist n nx' pv' (x # xs)"
proof -
  have "dseg nx' pv' x xs n"
    by (rule dseg_relink_start [of nx pv n]) (use assms in \<open>auto simp: dlist_def\<close>)
  with assms show ?thesis by (auto simp: dlist_def)
qed

lemma dlist_push_back:
  assumes "dlist n nx pv xs" and "x < n" and "x \<notin> set xs"
    and "nx' x = n" and "pv' x = last_or n xs"
    and "\<And>y. y \<in> set xs \<Longrightarrow> nx' y = (if y = last xs then x else nx y)"
    and "\<And>y. y \<in> set xs \<Longrightarrow> pv' y = pv y"
  shows "dlist n nx' pv' (xs @ [x])"
proof -
  have "dseg nx' pv' n xs x"
    by (rule dseg_relink_end [of nx pv n xs n]) (use assms in \<open>auto simp: dlist_def\<close>)
  with assms show ?thesis by (auto simp: dlist_def dseg_append)
qed

lemma dlist_unlink:
  assumes "dlist n nx pv (as @ x # bs)"
    and "\<And>y. y \<in> set as \<Longrightarrow> nx' y = (if y = last as then hd_or n bs else nx y)"
    and "\<And>y. y \<in> set bs \<Longrightarrow> nx' y = nx y"
    and "\<And>y. y \<in> set as \<Longrightarrow> pv' y = pv y"
    and "\<And>y. y \<in> set bs \<Longrightarrow> pv' y = (if y = hd bs then last_or n as else pv y)"
  shows "dlist n nx' pv' (as @ bs)"
proof -
  have d: "distinct as" "distinct bs" "set as \<inter> set bs = {}"
    using assms(1) by (auto simp: dlist_def)
  have s: "dseg nx pv n as x" "dseg nx pv x bs n"
    using assms(1) by (auto simp: dlist_def dseg_append)
  have "dseg nx' pv' n as (hd_or n bs)"
    by (rule dseg_relink_end [OF s(1) d(1)]) (use assms in auto)
  moreover have "dseg nx' pv' (last_or n as) bs n"
    by (rule dseg_relink_start [OF s(2) d(2)]) (use assms in auto)
  ultimately show ?thesis using assms(1) by (auto simp: dlist_def dseg_append)
qed

text \<open>
  Unlinking in the form the code writes it: the neighbours are relinked when they exist, and
  the node's own links may become anything.
\<close>

lemma dlist_unlink_upd:
  assumes "dlist n nx pv (as @ x # bs)"
    and "nx' = (\<lambda>y. if y = x then u else if as \<noteq> [] \<and> y = pv x then nx x else nx y)"
    and "pv' = (\<lambda>y. if y = x then v else if bs \<noteq> [] \<and> y = nx x then pv x else pv y)"
  shows "dlist n nx' pv' (as @ bs)"
proof (rule dlist_unlink [OF assms(1)])
  have seg: "dseg nx pv n (as @ x # bs) n" and dist: "distinct (as @ x # bs)"
    using assms(1) by (auto simp: dlist_def)
  note l = dseg_node [OF seg]
  have last_notin: "as \<noteq> [] \<Longrightarrow> last as \<notin> set bs"
    using dist by (metis IntI distinct.simps(2) distinct_append empty_iff last_in_set list.set_intros(2))
  show "nx' y = (if y = last as then hd_or n bs else nx y)" if "y \<in> set as" for y
    using that dist l by (cases as) (auto simp: assms(2) last_or_def)
  show "nx' y = nx y" if "y \<in> set bs" for y
    using that dist l last_notin by (auto simp: assms(2) last_or_def)
  show "pv' y = pv y" if "y \<in> set as" for y
    using that dist l by (cases bs) (auto simp: assms(3))
  show "pv' y = (if y = hd bs then last_or n as else pv y)" if "y \<in> set bs" for y
    using that dist l by (cases bs) (auto simp: assms(3))
qed

text \<open>The same updates leave every list that shares no node with the changed one as it is.\<close>

lemma dlist_unlink_other:
  assumes dl: "dlist n nx pv (as @ x # bs)"
    and nx': "nx' = (\<lambda>y. if y = x then u else if as \<noteq> [] \<and> y = pv x then nx x else nx y)"
    and pv': "pv' = (\<lambda>y. if y = x then v else if bs \<noteq> [] \<and> y = nx x then pv x else pv y)"
    and disj: "set ys \<inter> set (as @ x # bs) = {}"
  shows "dlist n nx' pv' ys = dlist n nx pv ys"
proof (rule dlist_cong)
  note l = dseg_node [OF dlistD(3) [OF dl]]
  fix y
  assume y: "y \<in> set ys"
  have "as \<noteq> [] \<Longrightarrow> pv x \<in> set as" using l(1) by (simp add: last_or_def)
  moreover have "bs \<noteq> [] \<Longrightarrow> nx x \<in> set bs" using l(2) by (simp add: hd_or_conv)
  ultimately show "nx' y = nx y" and "pv' y = pv y" using y disj unfolding nx' pv' by auto
qed

text \<open>Both facts for the links as the code assigns them.\<close>

lemma unlink_fun:
  "(\<lambda>y. if y = x then u else if B \<and> y = p then q else f y) = (if B then f(p := q) else f)(x := u)"
  by auto

lemma dlist_unlink_code:
  assumes "dlist n nx pv (as @ x # bs)"
  shows "dlist n ((if as \<noteq> [] then nx(pv x := nx x) else nx)(x := u))
           ((if bs \<noteq> [] then pv(nx x := pv x) else pv)(x := v)) (as @ bs)"
  by (rule dlist_unlink_upd [OF assms]) (rule unlink_fun [symmetric])+

lemma dlist_unlink_other_code:
  assumes "dlist n nx pv (as @ x # bs)" and "set ys \<inter> set (as @ x # bs) = {}"
  shows "dlist n ((if as \<noteq> [] then nx(pv x := nx x) else nx)(x := u))
           ((if bs \<noteq> [] then pv(nx x := pv x) else pv)(x := v)) ys = dlist n nx pv ys"
  by (rule dlist_unlink_other [OF assms(1) _ _ assms(2)]) (rule unlink_fun [symmetric])+

lemma dlist_front_code:
  assumes "dlist n nx pv xs" and "x < n" and "x \<notin> set xs"
  shows "dlist n (nx(x := hd_or n xs)) (if xs = [] then pv(x := n) else (pv(x := n))(hd xs := x)) (x # xs)"
  by (rule dlist_push_front [OF assms]) (use assms(3) in \<open>auto dest: hd_in_set\<close>)

lemma dlist_front_other_code:
  assumes "set ys \<inter> insert x (set xs) = {}"
  shows "dlist n (nx(x := u)) (if xs = [] then pv(x := v) else (pv(x := v))(hd xs := w)) ys = dlist n nx pv ys"
proof -
  have "xs \<noteq> [] \<Longrightarrow> hd xs \<notin> set ys" using assms hd_in_set by blast
  with assms show ?thesis by simp
qed

subsection \<open>Walking a list\<close>

text \<open>
  \<open>walk n nx k h\<close> follows at most \<open>k\<close> forward links from \<open>h\<close>. Lists of cache lines have at
  most \<open>n\<close> nodes, so \<open>n\<close> steps see the whole list.
\<close>

fun walk :: "nat \<Rightarrow> (nat \<Rightarrow> nat) \<Rightarrow> nat \<Rightarrow> nat \<Rightarrow> nat list" where
  "walk n nx 0 h = []"
| "walk n nx (Suc k) h = (if h < n then h # walk n nx k (nx h) else [])"

lemma walk_dseg:
  assumes "dseg nx pv p xs n" and "\<forall>x \<in> set xs. x < n" and "length xs \<le> k"
  shows "walk n nx k (hd_or n xs) = xs"
  using assms
proof (induction xs arbitrary: p k)
  case Nil
  then show ?case by (cases k) auto
next
  case (Cons x xs)
  then show ?case by (cases k) auto
qed

lemma distinct_bounded_length: "distinct xs \<Longrightarrow> (\<forall>x \<in> set xs. x < n) \<Longrightarrow> length xs \<le> n"
proof -
  assume d: "distinct xs" and b: "\<forall>x \<in> set xs. x < n"
  have "card (set xs) \<le> card {..<n}" using b by (intro card_mono) auto
  with d show "length xs \<le> n" by (simp add: distinct_card)
qed

lemma dlist_length: "dlist n nx pv xs \<Longrightarrow> length xs \<le> n"
  by (simp add: dlist_def distinct_bounded_length)

lemma walk_dlist: "dlist n nx pv xs \<Longrightarrow> walk n nx n (hd_or n xs) = xs"
  using walk_dseg [of nx pv n xs n n] dlist_length by (auto simp: dlist_def)

lemma dlist_unique:
  "dlist n nx pv xs \<Longrightarrow> dlist n nx pv ys \<Longrightarrow> hd_or n xs = hd_or n ys \<Longrightarrow> xs = ys"
  using walk_dlist by metis

end
