(* ===== verification/PartLinks.thy ===== *)
theory PartLinks
  imports DList
begin

section \<open>Partition links\<close>

text \<open>
  The links \<^verbatim>\<open>partition_next\<close>, \<^verbatim>\<open>partition_prev\<close> and the \<^verbatim>\<open>partition_id\<close> of a cache line
  (\<^verbatim>\<open>struct ocf_metadata_list_info\<close>) with the accessors of \<^verbatim>\<open>src/metadata/metadata_partition.h\<close>
  and \<^verbatim>\<open>src/metadata/metadata_hash.c\<close>. Two components thread their lists through these links:
  the partition lists (theory \<open>Partition\<close>) and the free lists (theory \<open>Freelist\<close>). The partition
  id is an 8-bit field: a value that is stored is reduced modulo 256.
\<close>

record part_links =
  pl_entries :: nat
  part_next :: "cline \<Rightarrow> cline"
  part_prev :: "cline \<Rightarrow> cline"
  part_pid :: "cline \<Rightarrow> part_id"

definition ocf_metadata_get_partition_info :: "part_links \<Rightarrow> cline \<Rightarrow> (part_id \<times> cline \<times> cline) option" where
  "ocf_metadata_get_partition_info pl line = do {
     bug_on (line \<ge> pl_entries pl);
     Some (part_pid pl line, part_next pl line, part_prev pl line) }"

definition ocf_metadata_set_partition_next :: "part_links \<Rightarrow> cline \<Rightarrow> cline \<Rightarrow> part_links option" where
  "ocf_metadata_set_partition_next pl line next_line = do {
     bug_on (line \<ge> pl_entries pl);
     Some (pl\<lparr>part_next := (part_next pl)(line := next_line)\<rparr>) }"

definition ocf_metadata_set_partition_prev :: "part_links \<Rightarrow> cline \<Rightarrow> cline \<Rightarrow> part_links option" where
  "ocf_metadata_set_partition_prev pl line prev_line = do {
     bug_on (line \<ge> pl_entries pl);
     Some (pl\<lparr>part_prev := (part_prev pl)(line := prev_line)\<rparr>) }"

definition ocf_metadata_set_partition_info ::
  "part_links \<Rightarrow> cline \<Rightarrow> part_id \<Rightarrow> cline \<Rightarrow> cline \<Rightarrow> part_links option" where
  "ocf_metadata_set_partition_info pl line part_id next_line prev_line = do {
     bug_on (line \<ge> pl_entries pl);
     Some (pl\<lparr>part_pid := (part_pid pl)(line := part_id mod U8_MOD),
              part_next := (part_next pl)(line := next_line),
              part_prev := (part_prev pl)(line := prev_line)\<rparr>) }"

definition ocf_metadata_get_partition_id :: "part_links \<Rightarrow> cline \<Rightarrow> part_id option" where
  "ocf_metadata_get_partition_id pl line = map_option fst (ocf_metadata_get_partition_info pl line)"

definition ocf_metadata_get_partition_next :: "part_links \<Rightarrow> cline \<Rightarrow> cline option" where
  "ocf_metadata_get_partition_next pl line =
     map_option (\<lambda>(_, n, _). n) (ocf_metadata_get_partition_info pl line)"

definition ocf_metadata_get_partition_prev :: "part_links \<Rightarrow> cline \<Rightarrow> cline option" where
  "ocf_metadata_get_partition_prev pl line =
     map_option (\<lambda>(_, _, p). p) (ocf_metadata_get_partition_info pl line)"

lemmas part_access_defs [ocf_defs] =
  ocf_metadata_get_partition_info_def ocf_metadata_set_partition_next_def
  ocf_metadata_set_partition_prev_def ocf_metadata_set_partition_info_def
  ocf_metadata_get_partition_id_def ocf_metadata_get_partition_next_def
  ocf_metadata_get_partition_prev_def

abbreviation pl_list :: "part_links \<Rightarrow> cline list \<Rightarrow> bool" where
  "pl_list pl xs \<equiv> dlist (pl_entries pl) (part_next pl) (part_prev pl) xs"

text \<open>
  The links after a line has left its list: its neighbours are linked to each other and the line
  itself has null links. What the four cases of the two removal functions write is this.
\<close>

definition pl_unlinked :: "part_links \<Rightarrow> cline \<Rightarrow> part_links \<Rightarrow> bool" where
  "pl_unlinked pl x pl' \<longleftrightarrow> pl_entries pl' = pl_entries pl \<and>
     (\<forall>y. y \<noteq> x \<longrightarrow> part_pid pl' y = part_pid pl y) \<and>
     part_next pl' = (if part_prev pl x \<noteq> pl_entries pl then (part_next pl)(part_prev pl x := part_next pl x)
                      else part_next pl)(x := pl_entries pl) \<and>
     part_prev pl' = (if part_next pl x \<noteq> pl_entries pl then (part_prev pl)(part_next pl x := part_prev pl x)
                      else part_prev pl)(x := pl_entries pl)"

lemma pl_unlinked_lists:
  assumes u: "pl_unlinked pl x pl'" and xs: "pl_list pl xs" "x \<in> set xs"
  shows "pl_list pl' (remove1 x xs)"
    and "set ys \<inter> set xs = {} \<Longrightarrow> pl_list pl' ys = pl_list pl ys"
proof -
  obtain as bs where sp: "xs = as @ x # bs" "x \<notin> set as" "x \<notin> set bs"
    and dl: "pl_list pl (as @ x # bs)"
    by (rule dlist_split [OF xs])
  note null = dlist_links_null(1,2) [OF dl]
  have r: "remove1 x xs = as @ bs" using sp by (simp add: remove1_append)
  have nx: "part_next pl' = (if as \<noteq> [] then (part_next pl)(part_prev pl x := part_next pl x)
                      else part_next pl)(x := pl_entries pl)"
    and pv: "part_prev pl' = (if bs \<noteq> [] then (part_prev pl)(part_next pl x := part_prev pl x)
                      else part_prev pl)(x := pl_entries pl)"
    using u null by (simp_all add: pl_unlinked_def)
  have n: "pl_entries pl' = pl_entries pl" using u by (simp add: pl_unlinked_def)
  show "pl_list pl' (remove1 x xs)"
    unfolding n nx pv r by (rule dlist_unlink_code [OF dl])
  show "pl_list pl' ys = pl_list pl ys" if "set ys \<inter> set xs = {}"
    unfolding n nx pv using that sp by (intro dlist_unlink_other_code [OF dl]) auto
qed

text \<open>A line put in front of a list, and a line put behind it.\<close>

definition pl_linked_front :: "part_links \<Rightarrow> cline \<Rightarrow> cline list \<Rightarrow> part_links \<Rightarrow> bool" where
  "pl_linked_front pl x xs pl' \<longleftrightarrow> pl_entries pl' = pl_entries pl \<and>
     (\<forall>y. y \<noteq> x \<longrightarrow> part_pid pl' y = part_pid pl y) \<and>
     part_next pl' = (part_next pl)(x := hd_or (pl_entries pl) xs) \<and>
     part_prev pl' = (if xs = [] then (part_prev pl)(x := pl_entries pl)
                      else ((part_prev pl)(x := pl_entries pl))(hd xs := x))"

definition pl_linked_back :: "part_links \<Rightarrow> cline \<Rightarrow> cline list \<Rightarrow> part_links \<Rightarrow> bool" where
  "pl_linked_back pl x xs pl' \<longleftrightarrow> pl_entries pl' = pl_entries pl \<and>
     (\<forall>y. y \<noteq> x \<longrightarrow> part_pid pl' y = part_pid pl y) \<and>
     part_prev pl' = (part_prev pl)(x := last_or (pl_entries pl) xs) \<and>
     part_next pl' = (if xs = [] then (part_next pl)(x := pl_entries pl)
                      else ((part_next pl)(x := pl_entries pl))(last xs := x))"

lemma pl_linked_front_lists:
  assumes l: "pl_linked_front pl x xs pl'" and xs: "pl_list pl xs" "x \<notin> set xs" "x < pl_entries pl"
  shows "pl_list pl' (x # xs)"
    and "set ys \<inter> insert x (set xs) = {} \<Longrightarrow> pl_list pl' ys = pl_list pl ys"
proof -
  have "pl_list pl' (x # xs) = dlist (pl_entries pl) (part_next pl') (part_prev pl') (x # xs)"
    using l by (simp add: pl_linked_front_def)
  also have "\<dots>"
    by (rule dlist_push_front [OF xs(1,3,2)])
      (use l xs(2) in \<open>auto simp: pl_linked_front_def dest: hd_in_set\<close>)
  finally show "pl_list pl' (x # xs)" .
  show "pl_list pl' ys = pl_list pl ys" if d: "set ys \<inter> insert x (set xs) = {}"
  proof -
    have "xs \<noteq> [] \<Longrightarrow> hd xs \<notin> set ys" using d hd_in_set by blast
    moreover have "pl_list pl' ys = dlist (pl_entries pl) (part_next pl') (part_prev pl') ys"
      using l by (simp add: pl_linked_front_def)
    ultimately show ?thesis using l d by (simp add: pl_linked_front_def split: if_splits)
  qed
qed

lemma pl_linked_back_lists:
  assumes l: "pl_linked_back pl x xs pl'" and xs: "pl_list pl xs" "x \<notin> set xs" "x < pl_entries pl"
  shows "pl_list pl' (xs @ [x])"
    and "set ys \<inter> insert x (set xs) = {} \<Longrightarrow> pl_list pl' ys = pl_list pl ys"
proof -
  have "pl_list pl' (xs @ [x]) = dlist (pl_entries pl) (part_next pl') (part_prev pl') (xs @ [x])"
    using l by (simp add: pl_linked_back_def)
  also have "\<dots>"
    by (rule dlist_push_back [OF xs(1,3,2)])
      (use l xs(2) in \<open>auto simp: pl_linked_back_def dest: last_in_set\<close>)
  finally show "pl_list pl' (xs @ [x])" .
  show "pl_list pl' ys = pl_list pl ys" if d: "set ys \<inter> insert x (set xs) = {}"
  proof -
    have "xs \<noteq> [] \<Longrightarrow> last xs \<notin> set ys" using d last_in_set by blast
    moreover have "pl_list pl' ys = dlist (pl_entries pl) (part_next pl') (part_prev pl') ys"
      using l by (simp add: pl_linked_back_def)
    ultimately show ?thesis using l d by (simp add: pl_linked_back_def split: if_splits)
  qed
qed

end
