(* ===== verification/OcfList.thy ===== *)
theory OcfList
  imports DList
begin

section \<open>Index lists with a head entry\<close>

text \<open>
  Model of \<^verbatim>\<open>src/utils/utils_list.h\<close> and \<^verbatim>\<open>src/utils/utils_list.c\<close>, the list that keeps the
  io classes ordered by eviction priority. The list is circular: the entry with index
  \<^verbatim>\<open>invalid\<close> is the head, and an entry that is in no list has both links set to
  \<^verbatim>\<open>OCF_LST_ENTRY_OUT\<close>. The getter is the only one the sources register
  (\<^verbatim>\<open>ocf_part_lst_getter_valid\<close>): it asserts that an index is at most \<^verbatim>\<open>invalid\<close>. The sort is the
  loop of \<^verbatim>\<open>ocf_lst_sort\<close>, with a comparator that may change the state it reads, as
  \<^verbatim>\<open>ocf_part_lst_cmp_valid\<close> does.
\<close>

subsection \<open>State and operations\<close>

record ocf_lst =
  lst_next :: "nat \<Rightarrow> nat"
  lst_prev :: "nat \<Rightarrow> nat"
  lst_invalid :: nat

definition OCF_LST_ENTRY_OUT :: "ocf_lst \<Rightarrow> nat" where
  "OCF_LST_ENTRY_OUT l = lst_invalid l + 1"

definition lst_getter :: "ocf_lst \<Rightarrow> nat \<Rightarrow> unit option" where
  "lst_getter l idx = bug_on (idx > lst_invalid l)"

definition ocf_lst_init_entry :: "ocf_lst \<Rightarrow> nat \<Rightarrow> ocf_lst" where
  "ocf_lst_init_entry l e =
     l\<lparr>lst_next := (lst_next l)(e := OCF_LST_ENTRY_OUT l),
       lst_prev := (lst_prev l)(e := OCF_LST_ENTRY_OUT l)\<rparr>"

definition ocf_lst_is_entry :: "ocf_lst \<Rightarrow> nat \<Rightarrow> bool option" where
  "ocf_lst_is_entry l e =
     (if lst_next l e = OCF_LST_ENTRY_OUT l \<and> lst_prev l e = OCF_LST_ENTRY_OUT l then Some False
      else if lst_next l e < OCF_LST_ENTRY_OUT l \<and> lst_prev l e < OCF_LST_ENTRY_OUT l then Some True
      else None)"

definition ocf_lst_init :: "ocf_lst \<Rightarrow> nat \<Rightarrow> ocf_lst option" where
  "ocf_lst_init l invalid = do {
     let l = l\<lparr>lst_invalid := invalid, lst_next := (lst_next l)(invalid := invalid),
               lst_prev := (lst_prev l)(invalid := invalid)\<rparr>;
     fold_opt (\<lambda>idx l. do { lst_getter l idx; Some (ocf_lst_init_entry l idx) }) [0..<invalid] l }"

definition ocf_lst_add_after :: "ocf_lst \<Rightarrow> nat \<Rightarrow> nat \<Rightarrow> ocf_lst option" where
  "ocf_lst_add_after l at idx = do {
     lst_getter l at;
     let nxt = lst_next l at;
     lst_getter l nxt;
     lst_getter l idx;
     ocf_lst_is_entry l idx;
     ocf_lst_is_entry l at;
     ocf_lst_is_entry l nxt;
     let l = l\<lparr>lst_next := (lst_next l)(idx := nxt)\<rparr>;
     let l = l\<lparr>lst_prev := (lst_prev l)(idx := at)\<rparr>;
     let l = l\<lparr>lst_next := (lst_next l)(at := idx)\<rparr>;
     Some (l\<lparr>lst_prev := (lst_prev l)(nxt := idx)\<rparr>) }"

definition ocf_lst_add_before :: "ocf_lst \<Rightarrow> nat \<Rightarrow> nat \<Rightarrow> ocf_lst option" where
  "ocf_lst_add_before l at idx = do {
     lst_getter l at;
     let prv = lst_prev l at;
     lst_getter l prv;
     lst_getter l idx;
     ocf_lst_is_entry l idx;
     ocf_lst_is_entry l at;
     ocf_lst_is_entry l prv;
     let l = l\<lparr>lst_next := (lst_next l)(idx := at)\<rparr>;
     let l = l\<lparr>lst_prev := (lst_prev l)(idx := prv)\<rparr>;
     let l = l\<lparr>lst_prev := (lst_prev l)(at := idx)\<rparr>;
     Some (l\<lparr>lst_next := (lst_next l)(prv := idx)\<rparr>) }"

definition ocf_lst_add :: "ocf_lst \<Rightarrow> nat \<Rightarrow> ocf_lst option" where
  "ocf_lst_add l idx = do {
     lst_getter l idx;
     let nxt = lst_next l (lst_invalid l);
     lst_getter l nxt;
     ocf_lst_is_entry l idx;
     ocf_lst_is_entry l nxt;
     let l = l\<lparr>lst_next := (lst_next l)(idx := nxt)\<rparr>;
     let l = l\<lparr>lst_prev := (lst_prev l)(nxt := idx)\<rparr>;
     let l = l\<lparr>lst_next := (lst_next l)(lst_invalid l := idx)\<rparr>;
     Some (l\<lparr>lst_prev := (lst_prev l)(idx := lst_invalid l)\<rparr>) }"

definition ocf_lst_add_tail :: "ocf_lst \<Rightarrow> nat \<Rightarrow> ocf_lst option" where
  "ocf_lst_add_tail l idx = do {
     lst_getter l idx;
     let prv = lst_prev l (lst_invalid l);
     lst_getter l prv;
     ocf_lst_is_entry l idx;
     ocf_lst_is_entry l prv;
     let l = l\<lparr>lst_next := (lst_next l)(idx := lst_invalid l)\<rparr>;
     let l = l\<lparr>lst_prev := (lst_prev l)(idx := prv)\<rparr>;
     let l = l\<lparr>lst_next := (lst_next l)(prv := idx)\<rparr>;
     Some (l\<lparr>lst_prev := (lst_prev l)(lst_invalid l := idx)\<rparr>) }"

definition ocf_lst_del :: "ocf_lst \<Rightarrow> nat \<Rightarrow> ocf_lst option" where
  "ocf_lst_del l idx = do {
     lst_getter l idx;
     let nxt = lst_next l idx;
     let prv = lst_prev l idx;
     lst_getter l nxt;
     lst_getter l prv;
     ocf_lst_is_entry l idx;
     ocf_lst_is_entry l nxt;
     ocf_lst_is_entry l prv;
     let l = l\<lparr>lst_next := (lst_next l)(prv := nxt)\<rparr>;
     let l = l\<lparr>lst_prev := (lst_prev l)(nxt := prv)\<rparr>;
     Some (ocf_lst_init_entry l idx) }"

definition ocf_lst_head :: "ocf_lst \<Rightarrow> nat" where
  "ocf_lst_head l = lst_next l (lst_invalid l)"

definition ocf_lst_tail :: "ocf_lst \<Rightarrow> nat" where
  "ocf_lst_tail l = lst_prev l (lst_invalid l)"

definition ocf_lst_empty :: "ocf_lst \<Rightarrow> bool" where
  "ocf_lst_empty l = (lst_next l (lst_invalid l) = lst_invalid l)"

text \<open>
  The inner loop of the sort (\<^verbatim>\<open>for_each_lst\<close> with the comparison that leaves it) and the outer
  loop. A comparator returns its result and the state it leaves.
\<close>

type_synonym 's lst_cmp = "'s \<Rightarrow> nat \<Rightarrow> nat \<Rightarrow> int \<times> 's"

partial_function (option) lst_find_pos ::
  "'s lst_cmp \<Rightarrow> ocf_lst \<Rightarrow> nat \<Rightarrow> nat \<Rightarrow> 's \<Rightarrow> (nat \<times> 's) option" where
  "lst_find_pos cmp l iter pos s = do {
     lst_getter l pos;
     if pos = lst_invalid l then Some (pos, s)
     else (case cmp s pos iter of (r, s') \<Rightarrow>
       if r > 0 then Some (pos, s') else lst_find_pos cmp l iter (lst_next l pos) s') }"

definition lst_sort_place :: "'s lst_cmp \<Rightarrow> ocf_lst \<Rightarrow> nat \<Rightarrow> 's \<Rightarrow> (ocf_lst \<times> 's) option" where
  "lst_sort_place cmp l iter_idx s =
     (if ocf_lst_empty l then map_option (\<lambda>l. (l, s)) (ocf_lst_add l iter_idx)
      else do {
        (pos_idx, s) \<leftarrow> lst_find_pos cmp l iter_idx (ocf_lst_head l) s;
        if pos_idx = lst_invalid l then map_option (\<lambda>l. (l, s)) (ocf_lst_add_tail l iter_idx)
        else map_option (\<lambda>l. (l, s)) (ocf_lst_add_before l pos_idx iter_idx) })"

partial_function (option) lst_sort_loop ::
  "'s lst_cmp \<Rightarrow> ocf_lst \<Rightarrow> nat \<Rightarrow> nat \<Rightarrow> 's \<Rightarrow> (ocf_lst \<times> 's) option" where
  "lst_sort_loop cmp l iter_idx next_idx s =
     (if iter_idx = lst_invalid l then Some (l, s)
      else do {
        (l, s) \<leftarrow> lst_sort_place cmp (ocf_lst_init_entry l iter_idx) iter_idx s;
        lst_getter l next_idx;
        lst_sort_loop cmp l next_idx (lst_next l next_idx) s })"

definition ocf_lst_sort :: "'s lst_cmp \<Rightarrow> ocf_lst \<Rightarrow> 's \<Rightarrow> (ocf_lst \<times> 's) option" where
  "ocf_lst_sort cmp l s =
     (if ocf_lst_empty l then Some (l, s)
      else do {
        let iter_idx = ocf_lst_head l;
        lst_getter l iter_idx;
        let next_idx = lst_next l iter_idx;
        lst_getter l next_idx;
        let l = l\<lparr>lst_next := (lst_next l)(lst_invalid l := lst_invalid l),
                  lst_prev := (lst_prev l)(lst_invalid l := lst_invalid l)\<rparr>;
        lst_sort_loop cmp l iter_idx next_idx s })"

subsection \<open>Representation\<close>

text \<open>
  \<open>clist l xs\<close>: the entries \<open>xs\<close>, in this order, form the circular list through the head entry.
  \<open>lst_out l x\<close>: entry \<open>x\<close> is in no list.
\<close>

definition clist :: "ocf_lst \<Rightarrow> nat list \<Rightarrow> bool" where
  "clist l xs \<longleftrightarrow> distinct xs \<and> (\<forall>x \<in> set xs. x < lst_invalid l) \<and>
     dseg (lst_next l) (lst_prev l) (lst_invalid l) xs (lst_invalid l) \<and>
     lst_next l (lst_invalid l) = hd_or (lst_invalid l) xs \<and>
     lst_prev l (lst_invalid l) = last_or (lst_invalid l) xs"

definition lst_out :: "ocf_lst \<Rightarrow> nat \<Rightarrow> bool" where
  "lst_out l x \<longleftrightarrow> lst_next l x = OCF_LST_ENTRY_OUT l \<and> lst_prev l x = OCF_LST_ENTRY_OUT l"

lemma clistD:
  assumes "clist l xs"
  shows "distinct xs" and "x \<in> set xs \<Longrightarrow> x < lst_invalid l"
    and "dseg (lst_next l) (lst_prev l) (lst_invalid l) xs (lst_invalid l)"
    and "lst_next l (lst_invalid l) = hd_or (lst_invalid l) xs"
    and "lst_prev l (lst_invalid l) = last_or (lst_invalid l) xs"
    and "lst_invalid l \<notin> set xs"
  using assms by (auto simp: clist_def)

lemma hd_or_le: "(\<forall>x \<in> set xs. x < n) \<Longrightarrow> hd_or n xs \<le> (n :: nat)"
  by (cases xs) auto

lemma last_or_le: "(\<forall>x \<in> set xs. x < n) \<Longrightarrow> last_or n xs \<le> (n :: nat)"
  by (cases xs rule: rev_cases) (auto simp: less_imp_le)

lemma hd_or_eq_iff: "(\<forall>x \<in> set xs. x < n) \<Longrightarrow> (hd_or n xs = n) = (xs = [])" for n :: nat
  by (cases xs) auto

text \<open>The links of a member and of the head entry are indices of the list.\<close>

lemma clist_links:
  assumes "clist l (as @ x # bs)"
  shows "lst_prev l x = last_or (lst_invalid l) as" and "lst_next l x = hd_or (lst_invalid l) bs"
    and "lst_prev l x \<le> lst_invalid l" and "lst_next l x \<le> lst_invalid l"
  using dseg_node [OF clistD(3) [OF assms]] clistD(2) [OF assms]
  by (auto simp: hd_or_le last_or_le)

lemma clist_is_entry:
  assumes "clist l xs" and "x \<in> set xs \<or> x = lst_invalid l"
  shows "ocf_lst_is_entry l x = Some True"
proof -
  have "lst_prev l x \<le> lst_invalid l \<and> lst_next l x \<le> lst_invalid l"
  proof (cases "x \<in> set xs")
    case True
    then show ?thesis using clist_links(3,4) assms(1) by (metis split_list)
  next
    case False
    with assms clistD(2,4,5) [OF assms(1)] show ?thesis by (simp add: hd_or_le last_or_le)
  qed
  then show ?thesis by (simp add: ocf_lst_is_entry_def OCF_LST_ENTRY_OUT_def)
qed

lemma lst_out_is_entry: "lst_out l x \<Longrightarrow> ocf_lst_is_entry l x = Some False"
  by (simp add: lst_out_def ocf_lst_is_entry_def)

lemma lst_out_notin:
  assumes "clist l xs" and "lst_out l x"
  shows "x \<notin> set xs"
  using clist_is_entry [OF assms(1), of x] lst_out_is_entry [OF assms(2)] by auto

subsection \<open>Insertion and deletion\<close>

text \<open>
  All insertions write the same four links: the new entry's own two, the forward link of its
  predecessor and the backward link of its successor (the head entry at the ends).
\<close>

definition lst_link :: "ocf_lst \<Rightarrow> nat \<Rightarrow> nat \<Rightarrow> nat \<Rightarrow> ocf_lst" where
  "lst_link l p x q =
     l\<lparr>lst_next := (lst_next l)(x := q, p := x), lst_prev := (lst_prev l)(x := p, q := x)\<rparr>"

lemma clist_link:
  assumes cl: "clist l (as @ bs)" and x: "x < lst_invalid l" "x \<notin> set (as @ bs)"
  shows "clist (lst_link l (last_or (lst_invalid l) as) x (hd_or (lst_invalid l) bs)) (as @ x # bs)"
proof -
  let ?n = "lst_invalid l" and ?p = "last_or (lst_invalid l) as" and ?q = "hd_or (lst_invalid l) bs"
  let ?l = "lst_link l ?p x ?q"
  have dist: "distinct as" "distinct bs" "set as \<inter> set bs = {}" "?n \<notin> set as" "?n \<notin> set bs"
    using clistD(1,2) [OF cl] by auto
  have seg: "dseg (lst_next l) (lst_prev l) ?n as ?q" "dseg (lst_next l) (lst_prev l) ?p bs ?n"
    using clistD(3) [OF cl] by (auto simp: dseg_append)
  have p: "as \<noteq> [] \<Longrightarrow> ?p \<in> set as" "as = [] \<Longrightarrow> ?p = ?n" by (simp_all add: last_or_def)
  have q: "bs \<noteq> [] \<Longrightarrow> ?q \<in> set bs" "bs = [] \<Longrightarrow> ?q = ?n" by (simp_all add: hd_or_conv)
  have pq: "?q \<notin> set as" "?q \<noteq> x" using q dist x by (cases "bs = []"; auto)+
  have "?p \<notin> set bs" "?p \<noteq> x" using p dist x by (cases "as = []"; auto)+
  note pq = pq this
  have "dseg (lst_next ?l) (lst_prev ?l) ?n as x"
    by (rule dseg_relink_end [OF seg(1) dist(1)])
      (use x dist p q pq in \<open>auto simp: lst_link_def last_or_def\<close>)
  moreover have "dseg (lst_next ?l) (lst_prev ?l) x bs ?n"
    by (rule dseg_relink_start [OF seg(2) dist(2)])
      (use x dist p q pq in \<open>(cases bs; auto simp: lst_link_def)+\<close>)
  ultimately have "dseg (lst_next ?l) (lst_prev ?l) ?n (as @ x # bs) ?n"
    using pq by (simp add: dseg_append) (simp add: lst_link_def)
  moreover have "lst_next ?l ?n = hd_or ?n (as @ x # bs)"
    using clistD(4) [OF cl] x p dist by (cases as) (auto simp: lst_link_def)
  moreover have "lst_prev ?l ?n = last_or ?n (as @ x # bs)"
    using clistD(5) [OF cl] x q dist by (cases bs) (auto simp: lst_link_def)
  moreover have "lst_invalid ?l = ?n" by (simp add: lst_link_def)
  ultimately show ?thesis
    using clistD(1,2) [OF cl] x unfolding clist_def by simp
qed

lemma lst_link_invalid [simp]: "lst_invalid (lst_link l p x q) = lst_invalid l"
  by (simp add: lst_link_def)

lemma lst_link_other:
  "y \<noteq> x \<Longrightarrow> y \<noteq> p \<Longrightarrow> lst_next (lst_link l p x q) y = lst_next l y"
  "y \<noteq> x \<Longrightarrow> y \<noteq> q \<Longrightarrow> lst_prev (lst_link l p x q) y = lst_prev l y"
  by (simp_all add: lst_link_def)

text \<open>The entries next to an insertion point are the head entry or members of the list.\<close>

lemma clist_neighbours:
  assumes "clist l (as @ bs)"
  defines "p \<equiv> last_or (lst_invalid l) as" and "q \<equiv> hd_or (lst_invalid l) bs"
  shows "p \<le> lst_invalid l" and "q \<le> lst_invalid l"
    and "ocf_lst_is_entry l p = Some True" and "ocf_lst_is_entry l q = Some True"
    and "lst_next l p = q" and "lst_prev l q = p"
proof -
  have mem: "\<forall>x \<in> set (as @ bs). x < lst_invalid l" using clistD(2) [OF assms(1)] by blast
  then show "p \<le> lst_invalid l" "q \<le> lst_invalid l" by (simp_all add: p_def q_def hd_or_le last_or_le)
  have "p \<in> set (as @ bs) \<or> p = lst_invalid l" "q \<in> set (as @ bs) \<or> q = lst_invalid l"
    unfolding p_def q_def using last_or_cases hd_or_cases by fastforce+
  then show "ocf_lst_is_entry l p = Some True" "ocf_lst_is_entry l q = Some True"
    by (simp_all only: clist_is_entry [OF assms(1)])
  note seg = clistD(3) [OF assms(1)]
  show "lst_next l p = q"
    using clistD(4) [OF assms(1)] seg
    by (cases as rule: rev_cases) (auto simp: p_def q_def dseg_append)
  show "lst_prev l q = p"
    using clistD(5) [OF assms(1)] seg
    by (cases bs) (auto simp: p_def q_def dseg_append)
qed

text \<open>An entry that may be inserted: in range and in no list.\<close>

lemma lst_new_entry:
  assumes "clist l xs" and "x < lst_invalid l" and "lst_out l x"
  shows "x \<notin> set xs" and "hd_or (lst_invalid l) xs \<noteq> x" and "last_or (lst_invalid l) xs \<noteq> x"
proof -
  show notin: "x \<notin> set xs" by (rule lst_out_notin [OF assms(1,3)])
  with assms(2) show "hd_or (lst_invalid l) xs \<noteq> x" "last_or (lst_invalid l) xs \<noteq> x"
    by (metis hd_or_cases less_irrefl) (metis notin assms(2) last_or_cases less_irrefl)
qed

lemma ocf_lst_add_clist:
  assumes "clist l xs" and "x < lst_invalid l" and "lst_out l x"
  shows "ocf_lst_add l x = Some (lst_link l (lst_invalid l) x (hd_or (lst_invalid l) xs))"
  using clist_neighbours [of l "[]" xs] lst_new_entry [OF assms] assms lst_out_is_entry [OF assms(3)]
  by (simp add: ocf_lst_add_def lst_getter_def lst_link_def Let_def fun_upd_twist [of x])

lemma ocf_lst_add_tail_clist:
  assumes "clist l xs" and "x < lst_invalid l" and "lst_out l x"
  shows "ocf_lst_add_tail l x = Some (lst_link l (last_or (lst_invalid l) xs) x (lst_invalid l))"
  using clist_neighbours [of l xs "[]"] lst_new_entry [OF assms] assms lst_out_is_entry [OF assms(3)]
  by (simp add: ocf_lst_add_tail_def lst_getter_def lst_link_def Let_def)

lemma ocf_lst_add_before_clist:
  assumes "clist l (as @ p # bs)" and "x < lst_invalid l" and "lst_out l x"
  shows "ocf_lst_add_before l p x = Some (lst_link l (last_or (lst_invalid l) as) x p)"
  using clist_neighbours [of l as "p # bs"] lst_new_entry [OF assms] assms lst_out_is_entry [OF assms(3)]
  by (simp add: ocf_lst_add_before_def lst_getter_def lst_link_def Let_def)

lemma ocf_lst_add_after_clist:
  assumes "clist l (as @ p # bs)" and "x < lst_invalid l" and "lst_out l x"
  shows "ocf_lst_add_after l p x = Some (lst_link l p x (hd_or (lst_invalid l) bs))"
  using clist_neighbours [of l "as @ [p]" bs] lst_new_entry [OF assms] assms lst_out_is_entry [OF assms(3)]
  by (simp add: ocf_lst_add_after_def lst_getter_def lst_link_def Let_def)

lemma ocf_lst_del_clist:
  assumes cl: "clist l (as @ x # bs)"
  obtains l' where "ocf_lst_del l x = Some l'" and "clist l' (as @ bs)" and "lst_out l' x"
    and "lst_invalid l' = lst_invalid l"
    and "\<And>y. y \<notin> set (as @ x # bs) \<Longrightarrow> y \<noteq> lst_invalid l \<Longrightarrow>
           lst_next l' y = lst_next l y \<and> lst_prev l' y = lst_prev l y"
proof -
  let ?n = "lst_invalid l" and ?p = "last_or (lst_invalid l) as" and ?q = "hd_or (lst_invalid l) bs"
  let ?l = "ocf_lst_init_entry (l\<lparr>lst_next := (lst_next l)(?p := ?q), lst_prev := (lst_prev l)(?q := ?p)\<rparr>) x"
  note links = clist_links [OF cl]
  note nb = clist_neighbours [of l as "x # bs"] clist_neighbours [of l "as @ [x]" bs]
  have xn: "x < ?n" using clistD(2) [OF cl] by simp
  have dist: "distinct as" "distinct bs" "set as \<inter> set bs = {}" "?n \<notin> set as" "?n \<notin> set bs"
      "x \<notin> set as" "x \<notin> set bs" using clistD(1,6) [OF cl] by auto
  have seg: "dseg (lst_next l) (lst_prev l) ?n as x" "dseg (lst_next l) (lst_prev l) x bs ?n"
    using clistD(3) [OF cl] by (auto simp: dseg_append)
  have p: "as \<noteq> [] \<Longrightarrow> ?p \<in> set as" "as = [] \<Longrightarrow> ?p = ?n" by (simp_all add: last_or_def)
  have q: "bs \<noteq> [] \<Longrightarrow> ?q \<in> set bs" "bs = [] \<Longrightarrow> ?q = ?n" by (simp_all add: hd_or_conv)
  have pq: "?q \<notin> set as" "?q \<noteq> x" using q dist xn by (cases "bs = []"; auto)+
  have "?p \<notin> set bs" "?p \<noteq> x" using p dist xn by (cases "as = []"; auto)+
  note pq = pq this
  have del: "ocf_lst_del l x = Some ?l"
    using cl nb links xn by (simp add: ocf_lst_del_def lst_getter_def Let_def)
  have "dseg (lst_next ?l) (lst_prev ?l) ?n as ?q"
    by (rule dseg_relink_end [OF seg(1) dist(1)])
      (use dist p q pq in \<open>auto simp: ocf_lst_init_entry_def last_or_def\<close>)
  moreover have "dseg (lst_next ?l) (lst_prev ?l) ?p bs ?n"
    by (rule dseg_relink_start [OF seg(2) dist(2)])
      (use dist p q pq in \<open>(cases bs; auto simp: ocf_lst_init_entry_def)+\<close>)
  moreover have "lst_next ?l ?n = hd_or ?n (as @ bs)" "lst_prev ?l ?n = last_or ?n (as @ bs)"
    using clistD(4,5) [OF cl] xn p q dist pq
    by (cases as; cases bs; auto simp: ocf_lst_init_entry_def)+
  ultimately have "clist ?l (as @ bs)"
    using clistD(1,2) [OF cl] by (auto simp: clist_def dseg_append ocf_lst_init_entry_def)
  moreover have "lst_out ?l x"
    by (simp add: lst_out_def ocf_lst_init_entry_def OCF_LST_ENTRY_OUT_def)
  moreover have "y \<noteq> ?p" "y \<noteq> ?q" if "y \<notin> set (as @ x # bs)" "y \<noteq> ?n" for y
    using last_or_cases [of ?n as] hd_or_cases [of ?n bs] that by auto
  ultimately show thesis
    using del by (intro that [of ?l]) (simp_all add: ocf_lst_init_entry_def)
qed

subsection \<open>Sorting\<close>

text \<open>
  The reference: an element goes before the first one that the comparator puts after it, and
  the sort inserts the elements one after the other.
\<close>

definition lst_insert :: "(nat \<Rightarrow> nat \<Rightarrow> bool) \<Rightarrow> nat \<Rightarrow> nat list \<Rightarrow> nat list" where
  "lst_insert lt x xs = takeWhile (\<lambda>p. \<not> lt p x) xs @ x # dropWhile (\<lambda>p. \<not> lt p x) xs"

fun nchain :: "(nat \<Rightarrow> nat) \<Rightarrow> nat list \<Rightarrow> nat \<Rightarrow> bool" where
  "nchain nx [] q = True"
| "nchain nx (y # ys) q = (nx y = hd_or q ys \<and> nchain nx ys q)"

lemma nchain_cong: "(\<And>y. y \<in> set ys \<Longrightarrow> nx' y = nx y) \<Longrightarrow> nchain nx' ys q = nchain nx ys q"
  by (induction ys) auto

lemma dseg_nchain: "dseg nx pv p ys q \<Longrightarrow> nchain nx ys q"
  by (induction ys arbitrary: p) auto

lemma lst_insert_set [simp]: "set (lst_insert lt x xs) = insert x (set xs)"
proof -
  have "set (takeWhile P xs) \<union> set (dropWhile P xs) = set xs" for P
    by (metis set_append takeWhile_dropWhile_id)
  then show ?thesis by (auto simp: lst_insert_def)
qed

lemma clist_init_entry:
  assumes "clist l xs" and "y \<notin> set xs" and "y < lst_invalid l"
  shows "clist (ocf_lst_init_entry l y) xs" and "lst_out (ocf_lst_init_entry l y) y"
  using assms
  by (auto simp: clist_def ocf_lst_init_entry_def lst_out_def OCF_LST_ENTRY_OUT_def)

lemma init_entry_simps [simp]:
  "lst_invalid (ocf_lst_init_entry l y) = lst_invalid l"
  "x \<noteq> y \<Longrightarrow> lst_next (ocf_lst_init_entry l y) x = lst_next l x"
  "x \<noteq> y \<Longrightarrow> lst_prev (ocf_lst_init_entry l y) x = lst_prev l x"
  by (simp_all add: ocf_lst_init_entry_def)

lemma sorted_wrt_mid:
  "sorted_wrt R as \<Longrightarrow> sorted_wrt R bs \<Longrightarrow> \<forall>a \<in> set as. \<forall>b \<in> set bs. R a b \<Longrightarrow>
   \<forall>a \<in> set as. R a x \<Longrightarrow> \<forall>b \<in> set bs. R x b \<Longrightarrow> sorted_wrt R (as @ x # bs)"
  by (auto simp: sorted_wrt_append)

text \<open>
  What the sort needs from a comparator: on the states it is used in, its sign is a fixed
  strict total order of the entries, and it leaves such a state behind.
\<close>

locale lst_order =
  fixes cmp :: "'s lst_cmp" and ok :: "'s \<Rightarrow> bool" and lt :: "nat \<Rightarrow> nat \<Rightarrow> bool"
  assumes cmp_sign: "ok s \<Longrightarrow> (fst (cmp s a b) > 0) = lt a b"
    and cmp_keeps: "ok s \<Longrightarrow> ok (snd (cmp s a b))"
    and lt_irrefl: "\<not> lt a a"
    and lt_trans: "lt a b \<Longrightarrow> lt b c \<Longrightarrow> lt a c"
    and lt_total: "a \<noteq> b \<Longrightarrow> lt a b \<or> lt b a"
begin

lemma find_pos:
  assumes "dseg (lst_next l) (lst_prev l) p bs (lst_invalid l)"
    and "\<forall>x \<in> set bs. x < lst_invalid l" and "ok s"
  shows "\<exists>s'. lst_find_pos cmp l x (hd_or (lst_invalid l) bs) s =
           Some (hd_or (lst_invalid l) (dropWhile (\<lambda>p. \<not> lt p x) bs), s') \<and> ok s'"
  using assms
proof (induction bs arbitrary: p s)
  case Nil
  then show ?case by (simp add: lst_find_pos.simps lst_getter_def)
next
  case (Cons b bs)
  have b: "b < lst_invalid l" using Cons.prems by simp
  obtain r t where rt: "cmp s b x = (r, t)" by force
  then have r: "(r > 0) = lt b x" "ok t"
    using cmp_sign [OF Cons.prems(3), of b x] cmp_keeps [OF Cons.prems(3), of b x] by auto
  from Cons.IH [OF _ _ r(2)] Cons.prems obtain s' where
    "lst_find_pos cmp l x (hd_or (lst_invalid l) bs) t =
       Some (hd_or (lst_invalid l) (dropWhile (\<lambda>p. \<not> lt p x) bs), s') \<and> ok s'" by auto
  with rt r b Cons.prems show ?case
    by (subst lst_find_pos.simps) (simp add: lst_getter_def)
qed

lemma place:
  assumes cl: "clist l xs" and x: "x < lst_invalid l" "lst_out l x" and "ok s"
  shows "\<exists>p q s'. lst_sort_place cmp l x s = Some (lst_link l p x q, s') \<and> ok s' \<and>
    clist (lst_link l p x q) (lst_insert lt x xs) \<and>
    p \<in> insert (lst_invalid l) (set xs) \<and> q \<in> insert (lst_invalid l) (set xs)"
proof -
  let ?n = "lst_invalid l" and ?as = "takeWhile (\<lambda>p. \<not> lt p x) xs" and ?bs = "dropWhile (\<lambda>p. \<not> lt p x) xs"
  let ?p = "last_or ?n ?as" and ?q = "hd_or ?n ?bs"
  have cl': "clist l (?as @ ?bs)" using cl by simp
  have xs: "x \<notin> set (?as @ ?bs)" using lst_out_notin [OF cl x(2)] by simp
  have sub: "set ?as \<subseteq> set xs" "set ?bs \<subseteq> set xs" by (auto dest: set_takeWhileD set_dropWhileD)
  from find_pos [OF clistD(3) [OF cl] _ \<open>ok s\<close>, of x] clistD(2) [OF cl] obtain s' where
    s': "lst_find_pos cmp l x (hd_or ?n xs) s = Some (?q, s')" "ok s'" by auto
  have "lst_sort_place cmp l x s = Some (lst_link l ?p x ?q, if xs = [] then s else s')"
  proof (cases "xs = []")
    case True
    then show ?thesis
      using ocf_lst_add_clist [OF cl x] clistD(4) [OF cl] by (simp add: lst_sort_place_def ocf_lst_empty_def)
  next
    case False
    then have ne: "\<not> ocf_lst_empty l" using clistD(2,4) [OF cl] by (simp add: ocf_lst_empty_def hd_or_eq_iff)
    show ?thesis
    proof (cases ?bs)
      case Nil
      then have p: "?p = last_or ?n xs" by (metis append_Nil2 takeWhile_dropWhile_id)
      have q: "?q = ?n" by (simp only: Nil hd_or_simps)
      show ?thesis unfolding p q using ne False
        using s'(1) [unfolded q] ocf_lst_add_tail_clist [OF cl x] clistD(4) [OF cl]
        by (simp add: lst_sort_place_def ocf_lst_head_def)
    next
      case (Cons b bs)
      have "b \<noteq> ?n" using Cons sub(2) clistD(2) [OF cl] by fastforce
      with Cons ne False show ?thesis
        using s' ocf_lst_add_before_clist [of l ?as b bs x] x cl' clistD(4) [OF cl]
        by (simp add: lst_sort_place_def ocf_lst_head_def)
    qed
  qed
  moreover have "clist (lst_link l ?p x ?q) (lst_insert lt x xs)"
    using clist_link [OF cl' x(1) xs] by (simp add: lst_insert_def)
  moreover have "?p \<in> insert ?n (set xs)" "?q \<in> insert ?n (set xs)"
    using sub last_or_cases [of ?n ?as] hd_or_cases [of ?n ?bs] by blast+
  moreover have "ok (if xs = [] then s else s')" using s' \<open>ok s\<close> by simp
  ultimately show ?thesis by blast
qed

lemma insert_sorted_wrt:
  assumes "sorted_wrt (\<lambda>a b. lt b a) xs" and "x \<notin> set xs"
  shows "sorted_wrt (\<lambda>a b. lt b a) (lst_insert lt x xs)"
proof -
  let ?P = "\<lambda>p. \<not> lt p x"
  have split: "sorted_wrt (\<lambda>a b. lt b a) (takeWhile ?P xs @ dropWhile ?P xs)" using assms(1) by simp
  have before: "lt x p" if "p \<in> set (takeWhile ?P xs)" for p
    using that set_takeWhileD [OF that] lt_total [of x p] assms(2) by auto
  have after: "lt q x" if q: "q \<in> set (dropWhile ?P xs)" for q
  proof (cases "dropWhile ?P xs")
    case Nil
    with q show ?thesis by (simp only: list.set empty_iff)
  next
    case (Cons b bs)
    then have b: "lt b x" by (metis hd_dropWhile list.sel(1) list.distinct(1))
    have "sorted_wrt (\<lambda>a b. lt b a) (b # bs)" using split Cons by (simp add: sorted_wrt_append)
    with q Cons b lt_trans show ?thesis by auto
  qed
  have parts: "sorted_wrt (\<lambda>a b. lt b a) (takeWhile ?P xs)" "sorted_wrt (\<lambda>a b. lt b a) (dropWhile ?P xs)"
    "\<forall>a \<in> set (takeWhile ?P xs). \<forall>b \<in> set (dropWhile ?P xs). lt b a"
    using split unfolding sorted_wrt_append by blast+
  show ?thesis unfolding lst_insert_def by (rule sorted_wrt_mid) (use parts before after in blast)+
qed

lemma sort_loop:
  assumes "clist l xs" and "distinct ys" and "set xs \<inter> set ys = {}" and "\<forall>y \<in> set ys. y < lst_invalid l"
    and "nchain (lst_next l) ys (lst_invalid l)" and "ok s"
    and "ys \<noteq> [] \<Longrightarrow> nxt = hd_or (lst_invalid l) (tl ys)"
  shows "\<exists>l' s'. lst_sort_loop cmp l (hd_or (lst_invalid l) ys) nxt s = Some (l', s') \<and> ok s' \<and>
    lst_invalid l' = lst_invalid l \<and> clist l' (fold (lst_insert lt) ys xs) \<and>
    (\<forall>y < lst_invalid l. y \<notin> set xs \<union> set ys \<longrightarrow> lst_next l' y = lst_next l y \<and> lst_prev l' y = lst_prev l y)"
  using assms
proof (induction ys arbitrary: l xs nxt s)
  case Nil
  then show ?case by (simp add: lst_sort_loop.simps)
next
  case (Cons y ys)
  let ?n = "lst_invalid l" and ?l = "ocf_lst_init_entry l y"
  have y: "y < ?n" "y \<notin> set xs" "y \<notin> set ys" using Cons.prems(2-4) by auto
  note cl = clist_init_entry [OF Cons.prems(1) y(2,1)]
  from place [OF cl(1) _ cl(2) Cons.prems(6)] y(1) obtain p q t where
    pl: "lst_sort_place cmp ?l y s = Some (lst_link ?l p y q, t)" "ok t"
      "clist (lst_link ?l p y q) (lst_insert lt y xs)"
      "p \<in> insert ?n (set xs)" "q \<in> insert ?n (set xs)" by auto
  let ?k = "lst_link ?l p y q"
  have same: "lst_next ?k z = lst_next l z" "lst_prev ?k z = lst_prev l z"
    if "z < ?n" "z \<notin> set xs" "z \<noteq> y" for z
    using pl(4,5) that by (auto simp: lst_link_def)
  have nxt: "nxt = hd_or ?n ys" using Cons.prems(7) by simp
  have "lst_next ?k z = lst_next l z" if "z \<in> set ys" for z
    using same(1) [of z] Cons.prems(3,4) y that by auto
  then have "nchain (lst_next ?k) ys ?n"
    using nchain_cong [of ys "lst_next ?k" "lst_next l"] Cons.prems(5) by simp
  moreover have "lst_next ?k nxt = hd_or ?n (tl ys)" if "ys \<noteq> []"
    using that calculation nxt by (cases ys) auto
  ultimately obtain l' s' where
    *: "lst_sort_loop cmp ?k (hd_or ?n ys) (lst_next ?k nxt) t = Some (l', s')" "ok s'"
      "lst_invalid l' = ?n" "clist l' (fold (lst_insert lt) ys (lst_insert lt y xs))"
      "\<forall>z < ?n. z \<notin> set (lst_insert lt y xs) \<union> set ys \<longrightarrow>
         lst_next l' z = lst_next ?k z \<and> lst_prev l' z = lst_prev ?k z"
    using Cons.IH [OF pl(3), of t "lst_next ?k nxt"] Cons.prems(2-4) y pl(2) by auto
  have "nxt \<le> ?n" using nxt Cons.prems(4) by (simp add: hd_or_le)
  with pl(1) *(1) y(1) nxt have "lst_sort_loop cmp l (hd_or ?n (y # ys)) nxt s = Some (l', s')"
    by (subst lst_sort_loop.simps) (simp add: lst_getter_def)
  moreover have "\<forall>z < ?n. z \<notin> set xs \<union> set (y # ys) \<longrightarrow>
      lst_next l' z = lst_next l z \<and> lst_prev l' z = lst_prev l z"
    using *(5) same by simp
  ultimately show ?case using *(2-4) by (intro exI [of _ l'] exI [of _ s']) simp
qed

lemma fold_insert:
  "distinct ys \<Longrightarrow> set xs \<inter> set ys = {} \<Longrightarrow> sorted_wrt (\<lambda>a b. lt b a) xs \<Longrightarrow>
   sorted_wrt (\<lambda>a b. lt b a) (fold (lst_insert lt) ys xs) \<and>
   set (fold (lst_insert lt) ys xs) = set xs \<union> set ys"
proof (induction ys arbitrary: xs)
  case (Cons y ys)
  then have "y \<notin> set xs" by simp
  from Cons.IH [of "lst_insert lt y xs"] Cons.prems insert_sorted_wrt [OF Cons.prems(3) this]
  show ?case by auto
qed simp

text \<open>The sort ends, keeps the entries of the list and orders them.\<close>

lemma sort:
  assumes cl: "clist l xs" and "ok s"
  shows "\<exists>l' s' ys. ocf_lst_sort cmp l s = Some (l', s') \<and> ok s' \<and> lst_invalid l' = lst_invalid l \<and>
    clist l' ys \<and> set ys = set xs \<and> sorted_wrt (\<lambda>a b. lt b a) ys \<and>
    (\<forall>y < lst_invalid l. y \<notin> set xs \<longrightarrow> lst_next l' y = lst_next l y \<and> lst_prev l' y = lst_prev l y)"
proof (cases xs)
  case Nil
  then have "ocf_lst_empty l" using clistD(4) [OF cl] by (simp add: ocf_lst_empty_def)
  with Nil cl \<open>ok s\<close> show ?thesis
    by (intro exI [of _ l] exI [of _ s] exI [of _ "[]"]) (simp add: ocf_lst_sort_def)
next
  case (Cons x zs)
  let ?n = "lst_invalid l"
  let ?l = "l\<lparr>lst_next := (lst_next l)(?n := ?n), lst_prev := (lst_prev l)(?n := ?n)\<rparr>"
  have x: "x < ?n" "lst_next l x = hd_or ?n zs" and zs: "\<forall>z \<in> set zs. z < ?n"
    using clistD(2,3) [OF cl] Cons by auto
  have "nchain (lst_next ?l) xs ?n"
    using dseg_nchain [OF clistD(3) [OF cl]] clistD(6) [OF cl]
    by (subst nchain_cong [of _ _ "lst_next l"]) auto
  then have "\<exists>l' s'. lst_sort_loop cmp ?l (hd_or (lst_invalid ?l) xs) (hd_or ?n zs) s = Some (l', s') \<and> ok s' \<and>
    lst_invalid l' = lst_invalid ?l \<and> clist l' (fold (lst_insert lt) xs []) \<and>
    (\<forall>y < lst_invalid ?l. y \<notin> set [] \<union> set xs \<longrightarrow> lst_next l' y = lst_next ?l y \<and> lst_prev l' y = lst_prev ?l y)"
    using \<open>ok s\<close> clistD(1,2) [OF cl] Cons by (intro sort_loop) (simp_all add: clist_def)
  then obtain l' s' where
    *: "lst_sort_loop cmp ?l (hd_or ?n xs) (hd_or ?n zs) s = Some (l', s')" "ok s'"
      "lst_invalid l' = ?n" "clist l' (fold (lst_insert lt) xs [])"
      "\<forall>y < ?n. y \<notin> set xs \<longrightarrow> lst_next l' y = lst_next ?l y \<and> lst_prev l' y = lst_prev ?l y"
    by auto
  have "ocf_lst_sort cmp l s = Some (l', s')"
    using *(1) x zs clistD(4) [OF cl] Cons
    by (simp add: ocf_lst_sort_def ocf_lst_empty_def ocf_lst_head_def lst_getter_def hd_or_le Let_def leD)
  with * fold_insert [OF clistD(1) [OF cl], of "[]"] show ?thesis by auto
qed

end

end
