(* ===== verification/LineLists.thy ===== *)
theory LineLists
  imports DList
begin

section \<open>Families of line lists\<close>

text \<open>
  The contract that partition lists and LRU lists give to the code that moves lines between
  them: a family of disjoint lists of cache lines with an operation that puts a line at the
  front of one list and one that takes a line out of the list it is in. The clients are the
  operations that move a line: to the front of its own list when it is used, from the clean to
  the dirty list and back, and from one partition to another.
\<close>

locale line_lists =
  fixes rep :: "'s \<Rightarrow> ('i \<Rightarrow> cline list) \<Rightarrow> bool" and idx :: "'i \<Rightarrow> bool" and fits :: "'s \<Rightarrow> cline \<Rightarrow> bool"
    and add :: "'s \<Rightarrow> 'i \<Rightarrow> cline \<Rightarrow> 's option" and rem :: "'s \<Rightarrow> 'i \<Rightarrow> cline \<Rightarrow> 's option"
  assumes add_law: "rep s L \<Longrightarrow> idx i \<Longrightarrow> fits s x \<Longrightarrow> (\<And>j. idx j \<Longrightarrow> x \<notin> set (L j)) \<Longrightarrow>
      \<exists>s'. add s i x = Some s' \<and> rep s' (L(i := x # L i)) \<and> fits s' = fits s"
    and rem_law: "rep s L \<Longrightarrow> idx i \<Longrightarrow> x \<in> set (L i) \<Longrightarrow>
      \<exists>s'. rem s i x = Some s' \<and> rep s' (L(i := remove1 x (L i))) \<and> fits s' = fits s"
    and disjoint_law: "rep s L \<Longrightarrow> idx i \<Longrightarrow> idx j \<Longrightarrow> i \<noteq> j \<Longrightarrow> set (L i) \<inter> set (L j) = {}"
    and distinct_law: "rep s L \<Longrightarrow> idx i \<Longrightarrow> distinct (L i)"
    and range_law: "rep s L \<Longrightarrow> idx i \<Longrightarrow> x \<in> set (L i) \<Longrightarrow> fits s x"
begin

lemma removed_nowhere:
  assumes "rep s L" and "idx i" and "x \<in> set (L i)" and "idx j"
  shows "x \<notin> set ((L(i := remove1 x (L i))) j)"
  using disjoint_law [OF assms(1,2,4)] distinct_law [OF assms(1,2)] assms(3)
  by (cases "i = j") auto

text \<open>Taking a line out of one list and putting it in front of another, or of the same one.\<close>

lemma move:
  assumes "rep s L" and "idx i" and "idx j" and "x \<in> set (L i)"
  defines "L' \<equiv> L(i := remove1 x (L i))"
  shows "\<exists>s'. (rem s i x \<bind> (\<lambda>s. add s j x)) = Some s' \<and> rep s' (L'(j := x # L' j)) \<and> fits s' = fits s"
proof -
  from rem_law [OF assms(1,2,4)] obtain t where
    t: "rem s i x = Some t" "rep t L'" "fits t = fits s" by (auto simp: L'_def)
  moreover have "x \<notin> set (L' k)" if "idx k" for k
    using removed_nowhere [OF assms(1,2,4) that] by (simp add: L'_def)
  moreover have "fits t x" using range_law [OF assms(1,2,4)] t(3) by simp
  ultimately show ?thesis using add_law [OF t(2) assms(3), of x] by auto
qed

text \<open>A move neither loses nor duplicates a line.\<close>

lemma move_lines:
  assumes "rep s L" and "idx i" and "idx j" and "x \<in> set (L i)"
  defines "L' \<equiv> L(i := remove1 x (L i))"
  shows "(\<Union>k \<in> {k. idx k}. set ((L'(j := x # L' j)) k)) = (\<Union>k \<in> {k. idx k}. set (L k))"
proof -
  have r: "set (remove1 x (L i)) = set (L i) - {x}" by (rule set_remove1_eq [OF distinct_law [OF assms(1,2)]])
  show ?thesis
  proof
    show "(\<Union>k \<in> {k. idx k}. set ((L'(j := x # L' j)) k)) \<subseteq> (\<Union>k \<in> {k. idx k}. set (L k))"
    proof (intro UN_least)
      fix k
      assume "k \<in> {k. idx k}"
      then have "set (L' k) \<subseteq> (\<Union>k \<in> {k. idx k}. set (L k))"
        using assms(2) r by (cases "k = i") (auto simp: L'_def)
      moreover have "x \<in> (\<Union>k \<in> {k. idx k}. set (L k))" using assms(2,4) by blast
      ultimately show "set ((L'(j := x # L' j)) k) \<subseteq> (\<Union>k \<in> {k. idx k}. set (L k))"
        by (cases "k = j") auto
    qed
    show "(\<Union>k \<in> {k. idx k}. set (L k)) \<subseteq> (\<Union>k \<in> {k. idx k}. set ((L'(j := x # L' j)) k))"
    proof
      fix y
      assume "y \<in> (\<Union>k \<in> {k. idx k}. set (L k))"
      then obtain k where k: "idx k" "y \<in> set (L k)" by auto
      show "y \<in> (\<Union>k \<in> {k. idx k}. set ((L'(j := x # L' j)) k))"
      proof (cases "y = x")
        case True
        then show ?thesis using assms(3) by auto
      next
        case False
        then have "y \<in> set ((L'(j := x # L' j)) k)" using k r by (auto simp: L'_def)
        then show ?thesis using k(1) by blast
      qed
    qed
  qed
qed

end

end
