(* ===== verification/Partition.thy ===== *)
theory Partition
  imports PartLinks OcfList LineLists
begin

section \<open>Partitions (io classes)\<close>

text \<open>
  Model of \<^verbatim>\<open>src/metadata/metadata_partition.c\<close>, \<^verbatim>\<open>src/utils/utils_part.c\<close> and
  \<^verbatim>\<open>src/utils/utils_part.h\<close>: every mapped cache line belongs to the list of one partition, and the
  partitions themselves are kept in a list ordered by eviction priority. The function
  \<^verbatim>\<open>ocf_part_move\<close>, which also drives the eviction and cleaning policies, is in theory
  \<open>CacheLine\<close>.
\<close>

subsection \<open>State\<close>

record user_part =
  part_name :: string
  min_size :: nat
  max_size :: nat
  priority :: int
  part_cache_mode :: cache_mode
  flag_valid :: bool
  flag_added :: bool
  flag_eviction :: bool
  curr_size :: nat
  part_head :: cline

record part_state =
  ps_links :: part_links
  user_parts :: "part_id \<Rightarrow> user_part"
  lst_part :: ocf_lst
  device_attached :: bool
  valid_parts_no :: nat

definition OCF_IO_CLASS_NAME_MAX :: nat where "OCF_IO_CLASS_NAME_MAX = 1024"
definition OCF_IO_CLASS_PRIO_HIGHEST :: int where "OCF_IO_CLASS_PRIO_HIGHEST = 0"
definition SHRT_MAX :: int where "SHRT_MAX = 32767"
definition SHRT_MIN :: int where "SHRT_MIN = -32768"

subsection \<open>Ordering the partitions\<close>

type_synonym parts = "part_id \<Rightarrow> user_part"

text \<open>The comparator writes the eviction flag of the two partitions it compares.\<close>

definition set_evict_flag :: "bool \<Rightarrow> part_id \<Rightarrow> parts \<Rightarrow> parts" where
  "set_evict_flag b p up = up(p := (up p)\<lparr>flag_eviction := b\<rparr>)"

definition ocf_part_lst_cmp_valid :: "bool \<Rightarrow> parts lst_cmp" where
  "ocf_part_lst_cmp_valid attached up p1 p2 =
    (let p1_size = (if attached then curr_size (up p1) else 0);
         p2_size = (if attached then curr_size (up p2) else 0);
         v1 = priority (up p1);
         v2 = priority (up p2);
         up = set_evict_flag (\<not> (priority (up p1) = OCF_IO_CLASS_PRIO_PINNED)) p1 up;
         up = set_evict_flag (\<not> (priority (up p2) = OCF_IO_CLASS_PRIO_PINNED)) p2 up;
         (v1, up) = (if \<not> flag_valid (up p1)
                     then (if p1_size \<noteq> 0 then (SHRT_MAX, set_evict_flag True p1 up)
                           else (SHRT_MIN, set_evict_flag False p1 up))
                     else (v1, up));
         (v2, up) = (if \<not> flag_valid (up p2)
                     then (if p2_size \<noteq> 0 then (SHRT_MAX, set_evict_flag True p2 up)
                           else (SHRT_MIN, set_evict_flag False p2 up))
                     else (v2, up));
         (v1, v2) = (if v1 = v2 then (int p1, int p2) else (v1, v2))
     in (v2 - v1, up))"

definition ocf_part_init :: "part_state \<Rightarrow> part_state option" where
  "ocf_part_init ps = do {
     l \<leftarrow> ocf_lst_init (lst_part ps) OCF_IO_CLASS_MAX;
     Some (ps\<lparr>lst_part := l\<rparr>) }"

definition ocf_part_sort :: "part_state \<Rightarrow> part_state option" where
  "ocf_part_sort ps = do {
     (l, up) \<leftarrow> ocf_lst_sort (ocf_part_lst_cmp_valid (device_attached ps)) (lst_part ps) (user_parts ps);
     Some (ps\<lparr>lst_part := l, user_parts := up\<rparr>) }"

subsection \<open>Queries and settings\<close>

definition ocf_part_is_valid :: "user_part \<Rightarrow> bool" where
  "ocf_part_is_valid part = flag_valid part"

definition ocf_part_is_added :: "user_part \<Rightarrow> bool" where
  "ocf_part_is_added part = flag_added part"

definition ocf_part_set_prio :: "user_part \<Rightarrow> int \<Rightarrow> user_part" where
  "ocf_part_set_prio part prio = (if priority part \<noteq> prio then part\<lparr>priority := prio\<rparr> else part)"

definition ocf_part_get_prio :: "part_state \<Rightarrow> part_id \<Rightarrow> int" where
  "ocf_part_get_prio ps p =
     (if p < OCF_IO_CLASS_MAX then priority (user_parts ps p) else OCF_IO_CLASS_PRIO_LOWEST)"

definition ocf_part_class2id :: "part_state \<Rightarrow> u64 \<Rightarrow> part_id" where
  "ocf_part_class2id ps cls =
     (if cls < OCF_IO_CLASS_MAX \<and> flag_valid (user_parts ps cls) then cls else PARTITION_DEFAULT)"

definition ocf_part_get_cache_mode :: "part_state \<Rightarrow> part_id \<Rightarrow> cache_mode" where
  "ocf_part_get_cache_mode ps p =
     (if p < OCF_IO_CLASS_MAX then part_cache_mode (user_parts ps p) else ocf_cache_mode_none)"

definition ocf_part_is_prio_valid :: "int \<Rightarrow> bool" where
  "ocf_part_is_prio_valid prio =
     (OCF_IO_CLASS_PRIO_HIGHEST \<le> prio \<and> prio \<le> OCF_IO_CLASS_PRIO_LOWEST \<or>
      prio = OCF_IO_CLASS_PRIO_PINNED)"

text \<open>The loop of \<^verbatim>\<open>ocf_part_is_name_valid\<close>; \<open>len\<close> is its counter. A \<^verbatim>\<open>char\<close> above 127 is negative.\<close>

fun part_name_loop :: "nat \<Rightarrow> string \<Rightarrow> bool" where
  "part_name_loop len [] = True"
| "part_name_loop len (c # cs) =
     (if of_char c < (32 :: nat) \<or> of_char c > (126 :: nat) then False
      else if c = CHR '','' \<or> c = CHR 0x22 then False
      else if len + 1 \<ge> OCF_IO_CLASS_NAME_MAX then False
      else part_name_loop (len + 1) cs)"

definition ocf_part_is_name_valid :: "string \<Rightarrow> bool" where
  "ocf_part_is_name_valid name = part_name_loop 0 name"

definition ocf_part_set_valid :: "part_state \<Rightarrow> part_id \<Rightarrow> bool \<Rightarrow> part_state" where
  "ocf_part_set_valid ps p valid =
    (let part = user_parts ps p
     in if valid \<noteq> flag_valid part
        then (if valid
              then ps\<lparr>user_parts := (user_parts ps)(p := part\<lparr>flag_valid := True\<rparr>),
                      valid_parts_no := (valid_parts_no ps + 1) mod U32_MOD\<rparr>
              else ps\<lparr>user_parts := (user_parts ps)(p := part\<lparr>flag_valid := False,
                         priority := OCF_IO_CLASS_PRIO_LOWEST, min_size := 0,
                         max_size := PARTITION_SIZE_MAX, part_name := ''Inactive''\<rparr>),
                      valid_parts_no := (valid_parts_no ps + U32_MOD - 1) mod U32_MOD\<rparr>)
        else ps)"

subsection \<open>The list of a partition\<close>

definition update_partition_head :: "part_state \<Rightarrow> part_id \<Rightarrow> cline \<Rightarrow> part_state" where
  "update_partition_head ps p line =
     ps\<lparr>user_parts := (user_parts ps)(p := (user_parts ps p)\<lparr>part_head := line\<rparr>)\<rparr>"

definition set_curr_size :: "part_state \<Rightarrow> part_id \<Rightarrow> nat \<Rightarrow> part_state" where
  "set_curr_size ps p sz =
     ps\<lparr>user_parts := (user_parts ps)(p := (user_parts ps p)\<lparr>curr_size := sz\<rparr>)\<rparr>"

text \<open>The block both operations end their single-node case with.\<close>

definition sort_if_not_valid :: "part_state \<Rightarrow> part_id \<Rightarrow> part_state option" where
  "sort_if_not_valid ps part_id =
     (if \<not> ocf_part_is_valid (user_parts ps part_id) then ocf_part_sort ps else Some ps)"

definition ocf_metadata_add_to_partition :: "part_state \<Rightarrow> part_id \<Rightarrow> cline \<Rightarrow> part_state option" where
  "ocf_metadata_add_to_partition ps part_id line = do {
     let line_entries = pl_entries (ps_links ps);
     bug_on (\<not> line < line_entries);
     ps \<leftarrow> (if curr_size (user_parts ps part_id) = 0 then do {
              let ps = update_partition_head ps part_id line;
              pl \<leftarrow> ocf_metadata_set_partition_info (ps_links ps) line part_id line_entries line_entries;
              let ps = ps\<lparr>ps_links := pl\<rparr>;
              sort_if_not_valid ps part_id }
            else do {
              let line_head = part_head (user_parts ps part_id);
              bug_on (\<not> line_head < line_entries);
              pl \<leftarrow> ocf_metadata_set_partition_info (ps_links ps) line part_id line_head line_entries;
              pl \<leftarrow> ocf_metadata_set_partition_prev pl line_head line;
              Some (update_partition_head (ps\<lparr>ps_links := pl\<rparr>) part_id line) });
     Some (set_curr_size ps part_id ((curr_size (user_parts ps part_id) + 1) mod U32_MOD)) }"

definition ocf_metadata_remove_from_partition :: "part_state \<Rightarrow> part_id \<Rightarrow> cline \<Rightarrow> part_state option" where
  "ocf_metadata_remove_from_partition ps part_id line = do {
     let line_entries = pl_entries (ps_links ps);
     bug_on (\<not> line < line_entries);
     (_, next_line, prev_line) \<leftarrow> ocf_metadata_get_partition_info (ps_links ps) line;
     let is_head = (prev_line = line_entries);
     let is_tail = (next_line = line_entries);
     ps \<leftarrow> (if is_head \<and> curr_size (user_parts ps part_id) = 1 then do {
              pl \<leftarrow> ocf_metadata_set_partition_info (ps_links ps) line part_id line_entries line_entries;
              let ps = update_partition_head (ps\<lparr>ps_links := pl\<rparr>) part_id line_entries;
              sort_if_not_valid ps part_id }
            else if is_head then do {
              bug_on (\<not> next_line < line_entries);
              let ps = update_partition_head ps part_id next_line;
              pl \<leftarrow> ocf_metadata_set_partition_next (ps_links ps) line line_entries;
              pl \<leftarrow> ocf_metadata_set_partition_prev pl next_line line_entries;
              Some (ps\<lparr>ps_links := pl\<rparr>) }
            else if is_tail then do {
              bug_on (\<not> prev_line < line_entries);
              pl \<leftarrow> ocf_metadata_set_partition_prev (ps_links ps) line line_entries;
              pl \<leftarrow> ocf_metadata_set_partition_next pl prev_line line_entries;
              Some (ps\<lparr>ps_links := pl\<rparr>) }
            else do {
              bug_on (\<not> next_line < line_entries);
              bug_on (\<not> prev_line < line_entries);
              pl \<leftarrow> ocf_metadata_set_partition_next (ps_links ps) prev_line next_line;
              pl \<leftarrow> ocf_metadata_set_partition_prev pl next_line prev_line;
              pl \<leftarrow> ocf_metadata_set_partition_info pl line part_id line_entries line_entries;
              Some (ps\<lparr>ps_links := pl\<rparr>) });
     Some (set_curr_size ps part_id
        ((curr_size (user_parts ps part_id) + U32_MOD - 1) mod U32_MOD)) }"

subsection \<open>The order of the partitions\<close>

text \<open>
  The value a partition is ordered by. The list goes from the highest value (evicted first) to
  the lowest; partitions of equal value are ordered by their index.
\<close>

definition part_val :: "bool \<Rightarrow> parts \<Rightarrow> part_id \<Rightarrow> int" where
  "part_val att up p =
     (if flag_valid (up p) then priority (up p)
      else if att \<and> curr_size (up p) \<noteq> 0 then SHRT_MAX else SHRT_MIN)"

definition part_lt :: "bool \<Rightarrow> parts \<Rightarrow> part_id \<Rightarrow> part_id \<Rightarrow> bool" where
  "part_lt att up a b \<longleftrightarrow>
     part_val att up a < part_val att up b \<or> part_val att up a = part_val att up b \<and> a < b"

text \<open>The flag the comparator gives to a partition it compares.\<close>

definition part_evict :: "bool \<Rightarrow> parts \<Rightarrow> part_id \<Rightarrow> bool" where
  "part_evict att up p =
     (if flag_valid (up p) then priority (up p) \<noteq> OCF_IO_CLASS_PRIO_PINNED
      else att \<and> curr_size (up p) \<noteq> 0)"

text \<open>States that differ in eviction flags only.\<close>

definition same_parts :: "parts \<Rightarrow> parts \<Rightarrow> bool" where
  "same_parts up up' \<longleftrightarrow> (\<forall>p. \<exists>b. up' p = (up p)\<lparr>flag_eviction := b\<rparr>)"

lemma same_parts_refl [simp]: "same_parts up up"
proof -
  have "up p = (up p)\<lparr>flag_eviction := flag_eviction (up p)\<rparr>" for p by simp
  then show ?thesis unfolding same_parts_def by blast
qed

lemma same_parts_flag:
  assumes "same_parts up up'"
  shows "same_parts up (set_evict_flag b p up')"
  unfolding same_parts_def
proof
  fix q
  obtain c where "up' q = (up q)\<lparr>flag_eviction := c\<rparr>" using assms by (auto simp: same_parts_def)
  then have "set_evict_flag b p up' q = (up q)\<lparr>flag_eviction := if q = p then b else c\<rparr>"
    by (cases "q = p") (auto simp: set_evict_flag_def)
  then show "\<exists>b'. set_evict_flag b p up' q = (up q)\<lparr>flag_eviction := b'\<rparr>" by blast
qed

lemma set_evict_flag_twice [simp]: "set_evict_flag b p (set_evict_flag c p up) = set_evict_flag b p up"
  by (simp add: set_evict_flag_def)

lemma set_evict_flag_between [simp]:
  "set_evict_flag b p (set_evict_flag c q (set_evict_flag d p up)) =
   (if p = q then set_evict_flag b p up else set_evict_flag c q (set_evict_flag b p up))"
  by (auto simp: set_evict_flag_def fun_eq_iff)

lemma same_partsD:
  assumes "same_parts up up'"
  shows "flag_valid (up' p) = flag_valid (up p)" and "priority (up' p) = priority (up p)"
    and "curr_size (up' p) = curr_size (up p)" and "part_head (up' p) = part_head (up p)"
    and "min_size (up' p) = min_size (up p)" and "max_size (up' p) = max_size (up p)"
    and "part_cache_mode (up' p) = part_cache_mode (up p)"
proof -
  obtain b where "up' p = (up p)\<lparr>flag_eviction := b\<rparr>" using assms by (auto simp: same_parts_def)
  then show "flag_valid (up' p) = flag_valid (up p)" "priority (up' p) = priority (up p)"
    "curr_size (up' p) = curr_size (up p)" "part_head (up' p) = part_head (up p)"
    "min_size (up' p) = min_size (up p)" "max_size (up' p) = max_size (up p)"
    "part_cache_mode (up' p) = part_cache_mode (up p)" by simp_all
qed

lemma set_evict_flag_simps [simp]:
  "flag_valid (set_evict_flag b q up p) = flag_valid (up p)"
  "priority (set_evict_flag b q up p) = priority (up p)"
  "curr_size (set_evict_flag b q up p) = curr_size (up p)"
  by (simp_all add: set_evict_flag_def)

lemma cmp_valid_fst:
  "fst (ocf_part_lst_cmp_valid att up a b) =
     (if part_val att up a = part_val att up b then int b - int a
      else part_val att up b - part_val att up a)"
  by (auto simp: ocf_part_lst_cmp_valid_def part_val_def Let_def)

lemma cmp_valid_snd:
  "snd (ocf_part_lst_cmp_valid att up a b) =
     set_evict_flag (part_evict att up b) b (set_evict_flag (part_evict att up a) a up)"
  by (cases "a = b"; cases "flag_valid (up a)"; cases "flag_valid (up b)")
    (simp_all add: ocf_part_lst_cmp_valid_def part_evict_def Let_def)

interpretation part_order:
  lst_order "ocf_part_lst_cmp_valid att" "same_parts up" "part_lt att up" for att up
proof
  fix s a b
  assume s: "same_parts up s"
  have "part_val att s = part_val att up"
    by (simp add: part_val_def fun_eq_iff same_partsD [OF s])
  then show "(0 < fst (ocf_part_lst_cmp_valid att s a b)) = part_lt att up a b"
    by (auto simp: cmp_valid_fst part_lt_def)
  show "same_parts up (snd (ocf_part_lst_cmp_valid att s a b))"
    using s by (simp add: cmp_valid_snd same_parts_flag)
qed (auto simp: part_lt_def)

lemma part_sort:
  assumes "clist (lst_part ps) L"
  obtains l up L' where "ocf_part_sort ps = Some (ps\<lparr>lst_part := l, user_parts := up\<rparr>)"
    and "same_parts (user_parts ps) up" and "clist l L'" and "set L' = set L"
    and "lst_invalid l = lst_invalid (lst_part ps)"
    and "sorted_wrt (\<lambda>a b. part_lt (device_attached ps) (user_parts ps) b a) L'"
  using part_order.sort [OF assms, of "user_parts ps" "user_parts ps" "device_attached ps"]
  by (auto simp: ocf_part_sort_def)

subsection \<open>Invariant\<close>

text \<open>
  \<open>part_rep ps P L\<close>: partition \<open>p\<close> holds the lines \<open>P p\<close>, its size counter is exact, every line of
  it carries the id \<open>p\<close>, and the priority list holds the partitions \<open>L\<close>.
\<close>

definition part_rep :: "part_state \<Rightarrow> (part_id \<Rightarrow> cline list) \<Rightarrow> part_id list \<Rightarrow> bool" where
  "part_rep ps P L \<longleftrightarrow>
     pl_entries (ps_links ps) < U32_MOD \<and>
     (\<forall>p < OCF_IO_CLASS_MAX.
        pl_list (ps_links ps) (P p) \<and>
        part_head (user_parts ps p) = hd_or (pl_entries (ps_links ps)) (P p) \<and>
        curr_size (user_parts ps p) = length (P p) \<and>
        (\<forall>x \<in> set (P p). part_pid (ps_links ps) x = p)) \<and>
     clist (lst_part ps) L \<and> lst_invalid (lst_part ps) = OCF_IO_CLASS_MAX"

lemma part_repD:
  assumes "part_rep ps P L" and "p < OCF_IO_CLASS_MAX"
  shows "pl_list (ps_links ps) (P p)"
    and "part_head (user_parts ps p) = hd_or (pl_entries (ps_links ps)) (P p)"
    and "curr_size (user_parts ps p) = length (P p)"
    and "x \<in> set (P p) \<Longrightarrow> part_pid (ps_links ps) x = p"
  using assms by (auto simp: part_rep_def)

lemma part_rep_disjoint:
  "part_rep ps P L \<Longrightarrow> p < OCF_IO_CLASS_MAX \<Longrightarrow> q < OCF_IO_CLASS_MAX \<Longrightarrow> p \<noteq> q \<Longrightarrow>
   set (P p) \<inter> set (P q) = {}"
  using part_repD(4) by blast

lemma part_id_byte: "p < OCF_IO_CLASS_MAX \<Longrightarrow> p mod U8_MOD = p"
  by (simp add: OCF_IO_CLASS_MAX_def)

text \<open>
  What both list operations leave behind, whether or not they had to sort: the links, the head
  and the counter of one partition changed, nothing else but eviction flags and the order of
  the partitions.
\<close>

definition part_upd :: "part_state \<Rightarrow> part_id \<Rightarrow> part_links \<Rightarrow> cline \<Rightarrow> nat \<Rightarrow> part_state \<Rightarrow> bool" where
  "part_upd ps p pl h n ps' \<longleftrightarrow>
     ps_links ps' = pl \<and> device_attached ps' = device_attached ps \<and> valid_parts_no ps' = valid_parts_no ps \<and>
     same_parts ((user_parts ps)(p := (user_parts ps p)\<lparr>part_head := h, curr_size := n\<rparr>)) (user_parts ps')"

lemma part_updD:
  assumes "part_upd ps p pl h n ps'"
  shows "ps_links ps' = pl" and "part_head (user_parts ps' q) = (if q = p then h else part_head (user_parts ps q))"
    and "curr_size (user_parts ps' q) = (if q = p then n else curr_size (user_parts ps q))"
    and "flag_valid (user_parts ps' q) = flag_valid (user_parts ps q)"
    and "priority (user_parts ps' q) = priority (user_parts ps q)"
proof -
  have sp: "same_parts ((user_parts ps)(p := (user_parts ps p)\<lparr>part_head := h, curr_size := n\<rparr>)) (user_parts ps')"
    using assms by (simp add: part_upd_def)
  note same_partsD [OF this, of q]
  then show "part_head (user_parts ps' q) = (if q = p then h else part_head (user_parts ps q))"
    and "curr_size (user_parts ps' q) = (if q = p then n else curr_size (user_parts ps q))"
    and "flag_valid (user_parts ps' q) = flag_valid (user_parts ps q)"
    and "priority (user_parts ps' q) = priority (user_parts ps q)"
    by simp_all
  show "ps_links ps' = pl" using assms by (simp add: part_upd_def)
qed

lemma part_upd_rep:
  assumes rep: "part_rep ps P L" and p: "p < OCF_IO_CLASS_MAX"
    and upd: "part_upd ps p pl (hd_or (pl_entries (ps_links ps)) xs) (length xs) ps'"
    and n: "pl_entries pl = pl_entries (ps_links ps)"
    and new: "pl_list pl xs" "\<forall>x \<in> set xs. part_pid pl x = p"
    and old: "\<And>q. q < OCF_IO_CLASS_MAX \<Longrightarrow> q \<noteq> p \<Longrightarrow>
        pl_list pl (P q) \<and> (\<forall>x \<in> set (P q). part_pid pl x = q)"
    and L: "clist (lst_part ps') L'" "lst_invalid (lst_part ps') = OCF_IO_CLASS_MAX"
  shows "part_rep ps' (P(p := xs)) L'"
  using rep L new old unfolding part_rep_def part_updD [OF upd] n by auto

lemma same_parts_upd:
  "same_parts up up' \<Longrightarrow>
   same_parts (up(p := (up p)\<lparr>curr_size := n\<rparr>)) (up'(p := (up' p)\<lparr>curr_size := n\<rparr>))"
  unfolding same_parts_def
proof
  fix q
  assume *: "\<forall>p. \<exists>b. up' p = (up p)\<lparr>flag_eviction := b\<rparr>"
  then obtain b where "up' q = (up q)\<lparr>flag_eviction := b\<rparr>" by blast
  then show "\<exists>b. (up'(p := (up' p)\<lparr>curr_size := n\<rparr>)) q =
      ((up(p := (up p)\<lparr>curr_size := n\<rparr>)) q)\<lparr>flag_eviction := b\<rparr>"
    by (cases "q = p") (auto intro: exI [of _ b])
qed

text \<open>The tail of both operations: sort when the partition is not valid, then set the counter.\<close>

lemma sort_tail:
  assumes cl: "clist (lst_part ps) L"
  obtains ps' L' where
    "sort_if_not_valid ps p = Some ps'"
    and "same_parts (user_parts ps) (user_parts ps')" and "ps_links ps' = ps_links ps"
    and "device_attached ps' = device_attached ps" and "valid_parts_no ps' = valid_parts_no ps"
    and "clist (lst_part ps') L'" and "set L' = set L" and "lst_invalid (lst_part ps') = lst_invalid (lst_part ps)"
proof (cases "ocf_part_is_valid (user_parts ps p)")
  case True
  then show thesis using cl by (intro that [of ps L]) (auto simp: sort_if_not_valid_def)
next
  case False
  obtain l up L' where s: "ocf_part_sort ps = Some (ps\<lparr>lst_part := l, user_parts := up\<rparr>)"
      "same_parts (user_parts ps) up" "clist l L'" "set L' = set L"
      "lst_invalid l = lst_invalid (lst_part ps)"
    using part_sort [OF cl] .
  then show thesis using False by (intro that [of "ps\<lparr>lst_part := l, user_parts := up\<rparr>" L']) (auto simp: sort_if_not_valid_def)
qed

lemma add_to_partition_upd:
  assumes rep: "part_rep ps P L" and p: "p < OCF_IO_CLASS_MAX"
    and x: "x < pl_entries (ps_links ps)" "x \<notin> set (P p)"
  obtains ps' pl L' where "ocf_metadata_add_to_partition ps p x = Some ps'"
    and "part_upd ps p pl x (Suc (length (P p))) ps'"
    and "pl_linked_front (ps_links ps) x (P p) pl" and "part_pid pl x = p"
    and "clist (lst_part ps') L'" and "set L' = set L" and "lst_invalid (lst_part ps') = OCF_IO_CLASS_MAX"
proof -
  let ?n = "pl_entries (ps_links ps)"
  note d = part_repD [OF rep p]
  have cl: "clist (lst_part ps) L" "lst_invalid (lst_part ps) = OCF_IO_CLASS_MAX"
    using rep by (auto simp: part_rep_def)
  have "length (x # P p) \<le> ?n"
    using d(1) x by (intro distinct_bounded_length) (auto simp: dlist_def)
  then have size: "(length (P p) + 1) mod U32_MOD = Suc (length (P p))"
    using rep by (simp add: part_rep_def)
  show thesis
  proof (cases "P p = []")
    case True
    let ?pl = "ps_links ps\<lparr>part_pid := (part_pid (ps_links ps))(x := p),
       part_next := (part_next (ps_links ps))(x := ?n), part_prev := (part_prev (ps_links ps))(x := ?n)\<rparr>"
    let ?ps = "update_partition_head ps p x\<lparr>ps_links := ?pl\<rparr>"
    have "clist (lst_part ?ps) L" using cl by (simp add: update_partition_head_def)
    then obtain ps1 L' where s:
      "sort_if_not_valid ?ps p = Some ps1"
      "same_parts (user_parts ?ps) (user_parts ps1)" "ps_links ps1 = ?pl"
      "device_attached ps1 = device_attached ?ps" "valid_parts_no ps1 = valid_parts_no ?ps"
      "clist (lst_part ps1) L'" "set L' = set L" "lst_invalid (lst_part ps1) = lst_invalid (lst_part ?ps)"
      by (rule sort_tail [of ?ps L p]) simp
    have sz: "curr_size (user_parts ps1 p) = 0"
      using same_partsD(3) [OF s(2), of p] d(3) True by (simp add: update_partition_head_def)
    let ?ps' = "set_curr_size ps1 p 1"
    have add: "ocf_metadata_add_to_partition ps p x = Some ?ps'"
      using s(1) d(3) True x sz
      by (simp add: ocf_metadata_add_to_partition_def part_access_defs part_id_byte [OF p] Let_def
          update_partition_head_def)
    have "part_upd ps p ?pl x (Suc (length (P p))) ?ps'"
      using s(3-5) same_parts_upd [OF s(2), of p 1] True
      by (simp add: part_upd_def set_curr_size_def update_partition_head_def)
    moreover have "pl_linked_front (ps_links ps) x (P p) ?pl"
      using True by (simp add: pl_linked_front_def)
    ultimately show thesis
      using add s(6-8) cl by (intro that [of ?ps' ?pl L']) (auto simp: set_curr_size_def update_partition_head_def)
  next
    case False
    let ?h = "hd (P p)"
    let ?pl = "ps_links ps\<lparr>part_pid := (part_pid (ps_links ps))(x := p),
       part_next := (part_next (ps_links ps))(x := ?h), part_prev := ((part_prev (ps_links ps))(x := ?n))(?h := x)\<rparr>"
    let ?ps' = "set_curr_size (update_partition_head (ps\<lparr>ps_links := ?pl\<rparr>) p x) p (Suc (length (P p)))"
    have h: "hd_or ?n (P p) = ?h" "?h < ?n"
      using False dlist_hd_less [OF d(1)] by (simp_all add: hd_or_conv)
    have add: "ocf_metadata_add_to_partition ps p x = Some ?ps'"
      using d(2,3) False x h size
      by (simp add: ocf_metadata_add_to_partition_def part_access_defs part_id_byte [OF p] Let_def
          update_partition_head_def)
    have "part_upd ps p ?pl x (Suc (length (P p))) ?ps'"
      by (simp add: part_upd_def set_curr_size_def update_partition_head_def)
    moreover have "pl_linked_front (ps_links ps) x (P p) ?pl"
      using False h by (simp add: pl_linked_front_def)
    ultimately show thesis
      using add cl by (intro that [of ?ps' ?pl L]) (auto simp: set_curr_size_def update_partition_head_def)
  qed
qed

lemma add_to_partition_rep:
  assumes rep: "part_rep ps P L" and p: "p < OCF_IO_CLASS_MAX"
    and x: "x < pl_entries (ps_links ps)" "\<And>q. q < OCF_IO_CLASS_MAX \<Longrightarrow> x \<notin> set (P q)"
  obtains ps' pl L' where "ocf_metadata_add_to_partition ps p x = Some ps'"
    and "part_rep ps' (P(p := x # P p)) L'" and "set L' = set L"
    and "pl_linked_front (ps_links ps) x (P p) (ps_links ps')"
    and "part_upd ps p pl x (Suc (length (P p))) ps'"
proof -
  obtain ps' pl L' where a: "ocf_metadata_add_to_partition ps p x = Some ps'"
    "part_upd ps p pl x (Suc (length (P p))) ps'"
    "pl_linked_front (ps_links ps) x (P p) pl" "part_pid pl x = p"
    "clist (lst_part ps') L'" "set L' = set L" "lst_invalid (lst_part ps') = OCF_IO_CLASS_MAX"
    by (rule add_to_partition_upd [OF rep p x(1) x(2) [OF p]])
  note fr = pl_linked_front_lists [OF a(3) part_repD(1) [OF rep p] x(2) [OF p] x(1)]
  have pid: "part_pid pl y = part_pid (ps_links ps) y" if "y \<noteq> x" for y
    using a(3) that by (simp add: pl_linked_front_def)
  have "part_rep ps' (P(p := x # P p)) L'"
  proof (rule part_upd_rep [OF rep p])
    show "part_upd ps p pl (hd_or (pl_entries (ps_links ps)) (x # P p)) (length (x # P p)) ps'"
      using a(2) by simp
    show "\<forall>y \<in> set (x # P p). part_pid pl y = p"
      using a(4) pid part_repD(4) [OF rep p] x(2) [OF p] by fastforce
    show "pl_list pl (P q) \<and> (\<forall>y \<in> set (P q). part_pid pl y = q)"
      if q: "q < OCF_IO_CLASS_MAX" "q \<noteq> p" for q
    proof -
      have "set (P q) \<inter> insert x (set (P p)) = {}"
        using part_rep_disjoint [OF rep q(1) p q(2)] x(2) [OF q(1)] by auto
      then have "pl_list pl (P q)" using fr(2) part_repD(1) [OF rep q(1)] by simp
      moreover have "\<forall>y \<in> set (P q). part_pid pl y = q"
        using pid part_repD(4) [OF rep q(1)] x(2) [OF q(1)] by metis
      ultimately show ?thesis by simp
    qed
  qed (use a(3,5,7) fr(1) in \<open>simp_all add: pl_linked_front_def\<close>)
  with a part_updD(1) [OF a(2)] show thesis by (intro that [of ps' L' pl]) simp_all
qed

subsection \<open>Removing a line\<close>

text \<open>The links written by the three cases that leave the partition non-empty.\<close>

lemma remove_from_partition_many:
  assumes xs: "pl_list (ps_links ps) (as @ x # bs)" and many: "as \<noteq> [] \<or> bs \<noteq> []"
    and size: "curr_size (user_parts ps p) = length (as @ x # bs)" and p: "p < OCF_IO_CLASS_MAX"
    and head: "part_head (user_parts ps p) = hd_or (pl_entries (ps_links ps)) (as @ x # bs)"
    and n: "pl_entries (ps_links ps) < U32_MOD"
  obtains ps' where "ocf_metadata_remove_from_partition ps p x = Some ps'"
    and "part_upd ps p (ps_links ps') (hd_or (pl_entries (ps_links ps)) (as @ bs)) (length (as @ bs)) ps'"
    and "pl_unlinked (ps_links ps) x (ps_links ps')" and "lst_part ps' = lst_part ps"
proof -
  let ?n = "pl_entries (ps_links ps)" and ?pl = "ps_links ps"
  note null = dlist_links_null [OF xs]
  note link = dseg_node [OF dlistD(3) [OF xs]]
  have x: "x < ?n" using dlistD(2) [OF xs] by simp
  have len: "length (as @ x # bs) \<le> ?n" by (rule dlist_length [OF xs])
  then have dec: "(curr_size (user_parts ps p) + U32_MOD - 1) mod U32_MOD = length (as @ bs)"
    using size n by simp
  note neq = dlist_links_neq [OF xs]
  define pid where "pid = (if as \<noteq> [] \<and> bs \<noteq> [] then (part_pid ?pl)(x := p) else part_pid ?pl)"
  define pl where "pl = ?pl\<lparr>part_pid := pid,
     part_next := (if as \<noteq> [] then (part_next ?pl)(part_prev ?pl x := part_next ?pl x) else part_next ?pl)(x := ?n),
     part_prev := (if bs \<noteq> [] then (part_prev ?pl)(part_next ?pl x := part_prev ?pl x) else part_prev ?pl)(x := ?n)\<rparr>"
  have unl: "pl_unlinked ?pl x pl" using null by (auto simp: pl_unlinked_def pl_def pid_def)
  define ps' where "ps' = set_curr_size
     (update_partition_head (ps\<lparr>ps_links := pl\<rparr>) p (hd_or ?n (as @ bs))) p (length (as @ bs))"
  have upd: "part_upd ps p pl (hd_or ?n (as @ bs)) (length (as @ bs)) ps'"
    by (simp add: part_upd_def ps'_def set_curr_size_def update_partition_head_def)
  have "ocf_metadata_remove_from_partition ps p x = Some ps'"
  proof (cases "as = []")
    case True
    then have bs: "bs \<noteq> []" using many by simp
    have pv: "part_prev ?pl x = ?n" using null(1) True by simp
    have nx: "part_next ?pl x \<noteq> ?n" "part_next ?pl x < ?n" using null(2,4) bs by simp_all
    have one: "curr_size (user_parts ps p) \<noteq> 1" using size bs by (cases bs) auto
    have hd: "hd_or ?n (as @ bs) = part_next ?pl x" using link(2) True by simp
    have plE: "pl = ?pl\<lparr>part_next := (part_next ?pl)(x := ?n),
        part_prev := (part_prev ?pl)(part_next ?pl x := ?n)\<rparr>"
      using True bs pv neq(1) by (simp add: pl_def pid_def fun_upd_idem)
    show ?thesis unfolding ps'_def hd plE
      using x pv nx one dec
      by (simp add: ocf_metadata_remove_from_partition_def part_access_defs
          update_partition_head_def set_curr_size_def Let_def)
  next
    case False
    have "part_head (user_parts ps p) = hd_or ?n (as @ bs)" using head False by (cases as) auto
    then have "(user_parts ps p)\<lparr>part_head := hd_or ?n (as @ bs)\<rparr> = user_parts ps p" by simp
    then have same: "ps' = set_curr_size (ps\<lparr>ps_links := pl\<rparr>) p (length (as @ bs))"
      unfolding ps'_def update_partition_head_def by simp
    have pv: "part_prev ?pl x \<noteq> ?n" "part_prev ?pl x < ?n" using null(1,3) False by simp_all
    show ?thesis
    proof (cases "bs = []")
      case True
      then have nx: "part_next ?pl x = ?n" using null(2) by simp
      have plE: "pl = ?pl\<lparr>part_prev := (part_prev ?pl)(x := ?n),
          part_next := (part_next ?pl)(part_prev ?pl x := ?n)\<rparr>"
        using True False nx neq(2) by (simp add: pl_def pid_def fun_upd_idem)
      show ?thesis unfolding same plE using x pv nx dec
        by (simp add: ocf_metadata_remove_from_partition_def part_access_defs
            update_partition_head_def set_curr_size_def Let_def)
    next
      case bs: False
      then have nx: "part_next ?pl x \<noteq> ?n" "part_next ?pl x < ?n" using null(2,4) by simp_all
      have plE: "pl = ?pl\<lparr>part_pid := (part_pid ?pl)(x := p),
          part_next := ((part_next ?pl)(part_prev ?pl x := part_next ?pl x))(x := ?n),
          part_prev := ((part_prev ?pl)(part_next ?pl x := part_prev ?pl x))(x := ?n)\<rparr>"
        using bs False by (simp add: pl_def pid_def)
      show ?thesis unfolding same plE using x pv nx dec
        by (simp add: ocf_metadata_remove_from_partition_def part_access_defs
            update_partition_head_def set_curr_size_def Let_def part_id_byte [OF p])
    qed
  qed
  moreover have "ps_links ps' = pl" "lst_part ps' = lst_part ps"
    by (simp_all add: ps'_def set_curr_size_def update_partition_head_def)
  ultimately show thesis using upd unl by (intro that [of ps']) simp_all
qed

text \<open>The case that empties the partition.\<close>

lemma remove_from_partition_last:
  assumes xs: "pl_list (ps_links ps) [x]" and cl: "clist (lst_part ps) L"
    and size: "curr_size (user_parts ps p) = 1" and p: "p < OCF_IO_CLASS_MAX"
  obtains ps' L' where "ocf_metadata_remove_from_partition ps p x = Some ps'"
    and "part_upd ps p (ps_links ps') (pl_entries (ps_links ps)) 0 ps'"
    and "pl_unlinked (ps_links ps) x (ps_links ps')"
    and "clist (lst_part ps') L'" and "set L' = set L"
    and "lst_invalid (lst_part ps') = lst_invalid (lst_part ps)"
proof -
  let ?n = "pl_entries (ps_links ps)"
  have x: "x < ?n" "part_next (ps_links ps) x = ?n" "part_prev (ps_links ps) x = ?n"
    using xs by (auto simp: dlist_def)
  let ?pl = "ps_links ps\<lparr>part_pid := (part_pid (ps_links ps))(x := p),
     part_next := (part_next (ps_links ps))(x := ?n), part_prev := (part_prev (ps_links ps))(x := ?n)\<rparr>"
  let ?ps = "update_partition_head (ps\<lparr>ps_links := ?pl\<rparr>) p ?n"
  have "clist (lst_part ?ps) L" using cl by (simp add: update_partition_head_def)
  then obtain ps1 L' where s: "sort_if_not_valid ?ps p = Some ps1"
    "same_parts (user_parts ?ps) (user_parts ps1)" "ps_links ps1 = ps_links ?ps"
    "device_attached ps1 = device_attached ?ps" "valid_parts_no ps1 = valid_parts_no ?ps"
    "clist (lst_part ps1) L'" "set L' = set L" "lst_invalid (lst_part ps1) = lst_invalid (lst_part ?ps)"
    by (rule sort_tail)
  have sz: "curr_size (user_parts ps1 p) = 1"
    using same_partsD(3) [OF s(2), of p] size by (simp add: update_partition_head_def)
  let ?ps' = "set_curr_size ps1 p 0"
  have links: "ps_links ?ps' = ?pl" using s(3) by (simp add: set_curr_size_def update_partition_head_def)
  have "ocf_metadata_remove_from_partition ps p x = Some ?ps'"
    using s(1) size x sz
    by (simp add: ocf_metadata_remove_from_partition_def part_access_defs part_id_byte [OF p] Let_def)
  moreover have "part_upd ps p ?pl ?n 0 ?ps'"
    using s(3-5) same_parts_upd [OF s(2), of p 0]
    by (simp add: part_upd_def set_curr_size_def update_partition_head_def)
  moreover have "pl_unlinked (ps_links ps) x ?pl" using x by (simp add: pl_unlinked_def)
  ultimately show thesis
    using s(6-8) links by (intro that [of ?ps' L']) (auto simp: set_curr_size_def update_partition_head_def)
qed

lemma remove_from_partition_rep:
  assumes rep: "part_rep ps P L" and p: "p < OCF_IO_CLASS_MAX" and x: "x \<in> set (P p)"
  obtains ps' L' where "ocf_metadata_remove_from_partition ps p x = Some ps'"
    and "part_rep ps' (P(p := remove1 x (P p))) L'" and "set L' = set L"
    and "pl_unlinked (ps_links ps) x (ps_links ps')"
    and "part_upd ps p (ps_links ps') (hd_or (pl_entries (ps_links ps)) (remove1 x (P p)))
           (length (remove1 x (P p))) ps'"
proof -
  let ?n = "pl_entries (ps_links ps)"
  note d = part_repD [OF rep p]
  obtain as bs where sp: "P p = as @ x # bs" "x \<notin> set as" "x \<notin> set bs"
    and dl: "pl_list (ps_links ps) (as @ x # bs)" by (rule dlist_split [OF d(1) x])
  have r: "remove1 x (P p) = as @ bs" using sp by (simp add: remove1_append)
  have cl: "clist (lst_part ps) L" "lst_invalid (lst_part ps) = OCF_IO_CLASS_MAX" "?n < U32_MOD"
    using rep by (auto simp: part_rep_def)
  obtain ps' L' where s: "ocf_metadata_remove_from_partition ps p x = Some ps'"
    "part_upd ps p (ps_links ps') (hd_or ?n (as @ bs)) (length (as @ bs)) ps'"
    "pl_unlinked (ps_links ps) x (ps_links ps')"
    "clist (lst_part ps') L'" "set L' = set L" "lst_invalid (lst_part ps') = OCF_IO_CLASS_MAX"
  proof (cases "as = [] \<and> bs = []")
    case True
    with dl d(3) sp have "pl_list (ps_links ps) [x]" "curr_size (user_parts ps p) = 1" by auto
    from remove_from_partition_last [OF this(1) cl(1) this(2) p] True cl(2) that show thesis
      by (metis append_Nil hd_or_simps(1) list.size(3))
  next
    case False
    then have many: "as \<noteq> [] \<or> bs \<noteq> []" by simp
    obtain ps' where "ocf_metadata_remove_from_partition ps p x = Some ps'"
      "part_upd ps p (ps_links ps') (hd_or ?n (as @ bs)) (length (as @ bs)) ps'"
      "pl_unlinked (ps_links ps) x (ps_links ps')" "lst_part ps' = lst_part ps"
      by (rule remove_from_partition_many [OF dl many _ p _ cl(3)]) (use d(2,3) sp(1) in auto)
    with cl that [of ps' L] show thesis by simp
  qed
  note un = pl_unlinked_lists [OF s(3) d(1) x]
  have pid: "part_pid (ps_links ps') y = part_pid (ps_links ps) y" if "y \<noteq> x" for y
    using s(3) that by (simp add: pl_unlinked_def)
  have other: "pl_list (ps_links ps') (P q) \<and> (\<forall>y \<in> set (P q). part_pid (ps_links ps') y = q)"
    if q: "q < OCF_IO_CLASS_MAX" "q \<noteq> p" for q
  proof -
    have dj: "set (P q) \<inter> set (P p) = {}" by (rule part_rep_disjoint [OF rep q(1) p q(2)])
    then have "\<forall>y \<in> set (P q). part_pid (ps_links ps') y = q"
      using pid part_repD(4) [OF rep q(1)] x by (metis disjoint_iff)
    then show ?thesis using un(2) [OF dj] part_repD(1) [OF rep q(1)] by simp
  qed
  have "\<forall>y \<in> set (remove1 x (P p)). part_pid (ps_links ps') y = p"
    using pid d(4) sp unfolding r by (metis UnE UnI1 UnI2 list.set_intros(2) set_append)
  then have "part_rep ps' (P(p := remove1 x (P p))) L'"
    using part_upd_rep [OF rep p, of "ps_links ps'" "as @ bs" ps' L'] s un(1) other r
    by (simp add: pl_unlinked_def)
  with s r show thesis by (intro that [of ps' L']) simp_all
qed

subsection \<open>Partitions as a family of lists\<close>

definition parts_ok :: "part_state \<Rightarrow> (part_id \<Rightarrow> cline list) \<Rightarrow> bool" where
  "parts_ok ps P \<longleftrightarrow> (\<exists>L. part_rep ps P L)"

definition part_line :: "part_state \<Rightarrow> cline \<Rightarrow> bool" where
  "part_line ps x = (x < pl_entries (ps_links ps))"

interpretation part_lists:
  line_lists parts_ok "\<lambda>p. p < OCF_IO_CLASS_MAX" part_line ocf_metadata_add_to_partition ocf_metadata_remove_from_partition
proof
  fix ps P p x
  assume "parts_ok ps P" and p: "p < OCF_IO_CLASS_MAX" and x: "part_line ps x"
    and new: "\<And>q. q < OCF_IO_CLASS_MAX \<Longrightarrow> x \<notin> set (P q)"
  then obtain L where rep: "part_rep ps P L" by (auto simp: parts_ok_def)
  obtain ps' L' where "ocf_metadata_add_to_partition ps p x = Some ps'" "part_rep ps' (P(p := x # P p)) L'"
    "pl_linked_front (ps_links ps) x (P p) (ps_links ps')"
    by (rule add_to_partition_rep [OF rep p]) (use x new in \<open>auto simp: part_line_def\<close>)
  then show "\<exists>ps'. ocf_metadata_add_to_partition ps p x = Some ps' \<and> parts_ok ps' (P(p := x # P p)) \<and>
      part_line ps' = part_line ps"
    by (auto simp: parts_ok_def part_line_def pl_linked_front_def)
next
  fix ps P p x
  assume "parts_ok ps P" and p: "p < OCF_IO_CLASS_MAX" and x: "x \<in> set (P p)"
  then obtain L where rep: "part_rep ps P L" by (auto simp: parts_ok_def)
  obtain ps' L' where "ocf_metadata_remove_from_partition ps p x = Some ps'"
    "part_rep ps' (P(p := remove1 x (P p))) L'" "pl_unlinked (ps_links ps) x (ps_links ps')"
    by (rule remove_from_partition_rep [OF rep p x])
  then show "\<exists>ps'. ocf_metadata_remove_from_partition ps p x = Some ps' \<and>
      parts_ok ps' (P(p := remove1 x (P p))) \<and> part_line ps' = part_line ps"
    by (auto simp: parts_ok_def part_line_def pl_unlinked_def)
next
  fix ps P p q
  assume "parts_ok ps P" "p < OCF_IO_CLASS_MAX" "q < OCF_IO_CLASS_MAX" "p \<noteq> q"
  then show "set (P p) \<inter> set (P q) = {}" using part_rep_disjoint unfolding parts_ok_def by metis
next
  fix ps P p
  assume "parts_ok ps P" "p < OCF_IO_CLASS_MAX"
  then show "distinct (P p)" using part_repD(1) dlistD(1) unfolding parts_ok_def by blast
next
  fix ps P p x
  assume "parts_ok ps P" "p < OCF_IO_CLASS_MAX" "x \<in> set (P p)"
  then show "part_line ps x" using part_repD(1) dlistD(2) unfolding parts_ok_def part_line_def by blast
qed

subsection \<open>Counting the valid partitions\<close>

definition valid_parts :: "part_state \<Rightarrow> part_id set" where
  "valid_parts ps = {p. p < OCF_IO_CLASS_MAX \<and> flag_valid (user_parts ps p)}"

lemma valid_parts_card: "card (valid_parts ps) \<le> OCF_IO_CLASS_MAX"
proof -
  have "valid_parts ps \<subseteq> {..<OCF_IO_CLASS_MAX}" by (auto simp: valid_parts_def)
  then have "card (valid_parts ps) \<le> card {..<OCF_IO_CLASS_MAX}" by (intro card_mono) auto
  then show ?thesis by simp
qed

lemma valid_parts_finite [simp]: "finite (valid_parts ps)"
  by (simp add: valid_parts_def)

lemma part_set_valid_parts:
  "p < OCF_IO_CLASS_MAX \<Longrightarrow> valid_parts (ocf_part_set_valid ps p v) =
     (if v then insert p (valid_parts ps) else valid_parts ps - {p})"
  by (auto simp: ocf_part_set_valid_def valid_parts_def Let_def split: if_splits)

text \<open>A cache of four lines with two io classes in the priority list; class 0 is valid.\<close>

definition example_parts :: part_state where
  "example_parts = \<lparr>
     ps_links = \<lparr>pl_entries = 4, part_next = (\<lambda>_. 4), part_prev = (\<lambda>_. 4), part_pid = (\<lambda>_. 255)\<rparr>,
     user_parts = (\<lambda>p. \<lparr>part_name = '''', min_size = 0, max_size = 4, priority = 3, part_cache_mode = -1,
        flag_valid = (p = 0), flag_added = (p < 2), flag_eviction = False, curr_size = 0, part_head = 4\<rparr>),
     lst_part = \<lparr>lst_next = (\<lambda>x. if x = 33 then 0 else if x = 0 then 1 else if x = 1 then 33 else 34),
                 lst_prev = (\<lambda>x. if x = 33 then 1 else if x = 1 then 0 else if x = 0 then 33 else 34),
                 lst_invalid = 33\<rparr>,
     device_attached = True, valid_parts_no = 1\<rparr>"

lemma example_parts_rep: "part_rep example_parts (\<lambda>_. []) [0, 1]"
  by (simp add: part_rep_def example_parts_def clist_def OCF_IO_CLASS_MAX_def)

lemma example_parts_simps [simp]:
  "pl_entries (ps_links example_parts) = 4"
  "flag_valid (user_parts example_parts p) = (p = 0)"
  "priority (user_parts example_parts p) = 3"
  "valid_parts_no example_parts = 1"
  by (simp_all add: example_parts_def)

subsection \<open>Properties\<close>

text \<open>
  Sorting the partitions ends on every well-formed priority list; it keeps the members,
  changes nothing of the partitions but eviction flags, and leaves the list ordered by
  decreasing priority value, partitions of equal value by decreasing index.
\<close>

theorem part_sort_sorts:
  assumes "clist (lst_part ps) L"
  shows "\<exists>ps' L'. ocf_part_sort ps = Some ps' \<and> clist (lst_part ps') L' \<and> set L' = set L \<and>
    sorted_wrt (\<lambda>a b. part_lt (device_attached ps) (user_parts ps) b a) L' \<and>
    same_parts (user_parts ps) (user_parts ps') \<and> ps_links ps' = ps_links ps"
proof -
  obtain l up L' where s: "ocf_part_sort ps = Some (ps\<lparr>lst_part := l, user_parts := up\<rparr>)"
    "same_parts (user_parts ps) up" "clist l L'" "set L' = set L"
    "sorted_wrt (\<lambda>a b. part_lt (device_attached ps) (user_parts ps) b a) L'"
    using part_sort [OF assms] .
  then show ?thesis by (intro exI [of _ "ps\<lparr>lst_part := l, user_parts := up\<rparr>"] exI [of _ L']) simp
qed

theorem part_sort_sorts_witness:
  "\<exists>ps' L'. ocf_part_sort example_parts = Some ps' \<and> clist (lst_part ps') L' \<and> set L' = set [0, 1] \<and>
    sorted_wrt (\<lambda>a b. part_lt (device_attached example_parts) (user_parts example_parts) b a) L' \<and>
    same_parts (user_parts example_parts) (user_parts ps') \<and> ps_links ps' = ps_links example_parts"
  by (rule part_sort_sorts) (use example_parts_rep in \<open>simp add: part_rep_def\<close>)

text \<open>
  C20. Adding a line that is in no partition puts it at the head of its partition's list: no
  assertion fails, the size counter stays exact, the line carries the partition's id and every
  other partition keeps its lines.
\<close>

theorem add_to_partition_correct:
  assumes "part_rep ps P L" and "p < OCF_IO_CLASS_MAX" and "x < pl_entries (ps_links ps)"
    and "\<forall>q < OCF_IO_CLASS_MAX. x \<notin> set (P q)"
  shows "\<exists>ps' L'. ocf_metadata_add_to_partition ps p x = Some ps' \<and> part_rep ps' (P(p := x # P p)) L' \<and>
    set L' = set L"
  using add_to_partition_rep [OF assms(1,2,3)] assms(4) by metis

theorem add_to_partition_correct_witness:
  "\<exists>ps' L'. ocf_metadata_add_to_partition example_parts 1 2 = Some ps' \<and>
    part_rep ps' ((\<lambda>_. [])(1 := [2])) L' \<and> set L' = set [0, 1]"
  using add_to_partition_correct [OF example_parts_rep, of 1 2] by (simp add: OCF_IO_CLASS_MAX_def)

text \<open>
  Removing a line from the partition it is in, whatever its position, unlinks it: no
  assertion fails, the size counter stays exact, the order of the remaining lines and all
  other partitions are kept.
\<close>

theorem remove_from_partition_correct:
  assumes "part_rep ps P L" and "p < OCF_IO_CLASS_MAX" and "x \<in> set (P p)"
  shows "\<exists>ps' L'. ocf_metadata_remove_from_partition ps p x = Some ps' \<and>
    part_rep ps' (P(p := remove1 x (P p))) L' \<and> set L' = set L"
  using remove_from_partition_rep [OF assms] by metis

theorem remove_from_partition_correct_witness:
  "\<exists>ps. ocf_metadata_add_to_partition example_parts 1 2 = Some ps \<and>
    (\<exists>ps' L'. ocf_metadata_remove_from_partition ps 1 2 = Some ps' \<and>
       part_rep ps' ((\<lambda>_. [])(1 := [2], 1 := remove1 2 [2])) L' \<and> set L' = set [0, 1])"
proof -
  obtain ps L where ps: "ocf_metadata_add_to_partition example_parts 1 2 = Some ps"
    "part_rep ps ((\<lambda>_. [])(1 := [2])) L" "set L = set [0, 1]"
    by (rule add_to_partition_rep [OF example_parts_rep, of 1 2]) (simp_all add: OCF_IO_CLASS_MAX_def)
  with remove_from_partition_correct [OF ps(2), of 1 2] show ?thesis
    by (simp add: OCF_IO_CLASS_MAX_def)
qed

text \<open>
  When the first line is added to a partition that is not valid, the priority list is sorted
  before the size counter is incremented: the partition is not empty afterwards, yet it stands
  behind every valid partition instead of at the front, where the comparator puts non-empty
  partitions that are not valid so that they are evicted first.
\<close>

theorem add_sorts_with_old_size:
  assumes rep: "part_rep ps P L" and p: "p < OCF_IO_CLASS_MAX" "\<not> flag_valid (user_parts ps p)" "P p = []"
    and x: "x < pl_entries (ps_links ps)"
    and mem: "p \<in> set L" "q \<in> set L" "flag_valid (user_parts ps q)" "priority (user_parts ps q) > SHRT_MIN"
  shows "\<exists>ps' as bs cs. ocf_metadata_add_to_partition ps p x = Some ps' \<and>
    curr_size (user_parts ps' p) = 1 \<and> clist (lst_part ps') (as @ q # bs @ p # cs)"
proof -
  let ?n = "pl_entries (ps_links ps)"
  let ?pl = "ps_links ps\<lparr>part_pid := (part_pid (ps_links ps))(x := p),
     part_next := (part_next (ps_links ps))(x := ?n), part_prev := (part_prev (ps_links ps))(x := ?n)\<rparr>"
  let ?ps = "update_partition_head ps p x\<lparr>ps_links := ?pl\<rparr>"
  have "clist (lst_part ?ps) L" using rep by (simp add: part_rep_def update_partition_head_def)
  then obtain l up L' where s: "ocf_part_sort ?ps = Some (?ps\<lparr>lst_part := l, user_parts := up\<rparr>)"
    "same_parts (user_parts ?ps) up" "clist l L'" "set L' = set L"
    "sorted_wrt (\<lambda>a b. part_lt (device_attached ?ps) (user_parts ?ps) b a) L'"
    by (rule part_sort)
  let ?ps' = "set_curr_size (?ps\<lparr>lst_part := l, user_parts := up\<rparr>) p 1"
  have size: "curr_size (user_parts ps p) = 0" using part_repD(3) [OF rep p(1)] p(3) by simp
  have "q \<noteq> p" using mem p by auto
  have lt: "part_lt (device_attached ?ps) (user_parts ?ps) p q"
    using p(2) mem size \<open>q \<noteq> p\<close> by (simp add: part_lt_def part_val_def update_partition_head_def)
  obtain as bs cs where L': "L' = as @ q # bs @ p # cs"
  proof -
    from mem s(4) obtain as ds where ds: "L' = as @ q # ds" by (metis split_list)
    have "p \<in> set ds"
    proof (rule ccontr)
      assume "p \<notin> set ds"
      with ds mem s(4) \<open>q \<noteq> p\<close> have "p \<in> set as" by (metis Un_iff set_ConsD set_append)
      then have "part_lt (device_attached ?ps) (user_parts ?ps) q p"
        using s(5) ds by (simp add: sorted_wrt_append)
      with lt show False by (auto simp: part_lt_def)
    qed
    then show thesis using ds that by (metis split_list)
  qed
  have "curr_size (up p) = 0" using same_partsD(3) [OF s(2), of p] size by (simp add: update_partition_head_def)
  then have "ocf_metadata_add_to_partition ps p x = Some ?ps'"
    using s(1) size x p(2)
    by (simp add: ocf_metadata_add_to_partition_def part_access_defs part_id_byte [OF p(1)] Let_def
        sort_if_not_valid_def ocf_part_is_valid_def update_partition_head_def set_curr_size_def)
  then show ?thesis using s(3) L'
    by (intro exI [of _ ?ps'] exI [of _ as] exI [of _ bs] exI [of _ cs]) (simp add: set_curr_size_def)
qed

theorem add_sorts_with_old_size_witness:
  "\<exists>ps' as bs cs. ocf_metadata_add_to_partition example_parts 1 2 = Some ps' \<and>
    curr_size (user_parts ps' 1) = 1 \<and> clist (lst_part ps') (as @ 0 # bs @ 1 # cs)"
  by (rule add_sorts_with_old_size [OF example_parts_rep]) (simp_all add: OCF_IO_CLASS_MAX_def SHRT_MIN_def)

text \<open>
  \<^verbatim>\<open>valid_parts_no\<close> counts the valid partitions: setting or clearing the valid flag of a
  partition, any number of times, keeps the counter equal to their number.
\<close>

theorem set_valid_counts:
  assumes "p < OCF_IO_CLASS_MAX" and "valid_parts_no ps = card (valid_parts ps)"
  shows "valid_parts_no (ocf_part_set_valid ps p v) = card (valid_parts (ocf_part_set_valid ps p v)) \<and>
    flag_valid (user_parts (ocf_part_set_valid ps p v) p) = v"
proof -
  have mem: "(p \<in> valid_parts ps) = flag_valid (user_parts ps p)" using assms(1) by (simp add: valid_parts_def)
  have "card (valid_parts ps) < U32_MOD - 1"
    using valid_parts_card [of ps] by (simp add: OCF_IO_CLASS_MAX_def)
  moreover have "p \<in> valid_parts ps \<Longrightarrow> card (valid_parts ps) > 0"
    using card_gt_0_iff by fastforce
  moreover have "(4294967295 + k) mod U32_MOD = k - 1" if "0 < k" "k < U32_MOD" for k :: nat
    using that by (cases k) auto
  ultimately have "valid_parts_no (ocf_part_set_valid ps p v) =
      card (if v then insert p (valid_parts ps) else valid_parts ps - {p})"
    using assms(2) mem by (auto simp: ocf_part_set_valid_def Let_def insert_absorb)
  with part_set_valid_parts [OF assms(1)] show ?thesis
    by (simp add: ocf_part_set_valid_def Let_def)
qed

theorem set_valid_counts_witness:
  "valid_parts_no (ocf_part_set_valid example_parts 1 True) =
     card (valid_parts (ocf_part_set_valid example_parts 1 True)) \<and>
   flag_valid (user_parts (ocf_part_set_valid example_parts 1 True) 1) = True"
proof (rule set_valid_counts)
  have "valid_parts example_parts = {0}" by (auto simp: valid_parts_def OCF_IO_CLASS_MAX_def)
  then show "valid_parts_no example_parts = card (valid_parts example_parts)" by simp
qed (simp add: OCF_IO_CLASS_MAX_def)

text \<open>
  A partition name is accepted exactly when it has fewer than 1024 characters, all of them
  printable ASCII and none of them a comma or a double quote; in particular the empty name.
\<close>

theorem part_name_valid_iff:
  "ocf_part_is_name_valid name \<longleftrightarrow>
     length name < OCF_IO_CLASS_NAME_MAX \<and>
     list_all (\<lambda>c. 32 \<le> (of_char c :: nat) \<and> (of_char c :: nat) \<le> 126 \<and> c \<noteq> CHR '','' \<and> c \<noteq> CHR 0x22) name"
proof -
  have "part_name_loop n cs \<longleftrightarrow> (cs = [] \<or> n + length cs < OCF_IO_CLASS_NAME_MAX) \<and>
     list_all (\<lambda>c. 32 \<le> (of_char c :: nat) \<and> (of_char c :: nat) \<le> 126 \<and> c \<noteq> CHR '','' \<and> c \<noteq> CHR 0x22) cs" for n cs
    by (induction cs arbitrary: n) auto
  then show ?thesis by (auto simp: ocf_part_is_name_valid_def OCF_IO_CLASS_NAME_MAX_def)
qed

end
