(* ===== verification/Freelist.thy ===== *)
theory Freelist
  imports PartLinks
begin

section \<open>The free lists\<close>

text \<open>
  Model of \<^verbatim>\<open>src/ocf_freelist.c\<close>. There is one free list per execution context; its lines are
  linked through the partition links of theory \<open>PartLinks\<close>. An allocation tries the list of the
  running context, then all lists in turn without waiting for locks, then all lists in turn
  with waiting.

  A spinlock makes each operation on a list one step. Whether a \<^verbatim>\<open>trylock\<close> fails depends on the
  other contexts: it is an argument \<open>busy\<close> of the model, the set of attempts (counted from 0,
  the fast path first) at which the lock is taken. The current context is the argument \<open>ctx\<close>.
  The functions that allocate and free the structure itself are memory management and not
  modelled, except for the values they store. The size counters are natural numbers: the code
  decrements them only after it has found the list non-empty.
\<close>

subsection \<open>State and operations\<close>

record free_part =
  fp_head :: cline
  fp_tail :: cline
  fp_size :: nat

record ocf_freelist =
  fl_part :: "nat \<Rightarrow> free_part"
  fl_count :: nat
  slowpath_victim_idx :: nat
  total_free :: nat

type_synonym fl_state = "ocf_freelist \<times> part_links"

definition fl_set_part :: "ocf_freelist \<Rightarrow> nat \<Rightarrow> free_part \<Rightarrow> ocf_freelist" where
  "fl_set_part fl ctx part = fl\<lparr>fl_part := (fl_part fl)(ctx := part)\<rparr>"

definition ocf_freelist_init :: "nat \<Rightarrow> part_links \<Rightarrow> ocf_freelist" where
  "ocf_freelist_init num pl =
     \<lparr>fl_part = (\<lambda>i. if i < num then \<lparr>fp_head = pl_entries pl, fp_tail = pl_entries pl, fp_size = 0\<rparr>
                     else \<lparr>fp_head = 0, fp_tail = 0, fp_size = 0\<rparr>),
      fl_count = num, slowpath_victim_idx = 0, total_free = 0\<rparr>"

definition ocf_freelist_remove_cache_line :: "fl_state \<Rightarrow> nat \<Rightarrow> cline \<Rightarrow> fl_state option" where
  "ocf_freelist_remove_cache_line s ctx cline = do {
     let fl = fst s;
     let pl = snd s;
     let part = fl_part fl ctx;
     let line_entries = pl_entries pl;
     bug_on (cline \<ge> line_entries);
     (_, nxt, prv) \<leftarrow> ocf_metadata_get_partition_info pl cline;
     let is_head = (prv = line_entries);
     let is_tail = (nxt = line_entries);
     let free = fp_size part mod U32_MOD;
     (part, pl) \<leftarrow>
       (if is_head \<and> free = 1 then do {
          pl \<leftarrow> ocf_metadata_set_partition_info pl cline PARTITION_INVALID line_entries line_entries;
          Some (part\<lparr>fp_head := line_entries, fp_tail := line_entries\<rparr>, pl) }
        else if is_head then do {
          bug_on (nxt \<ge> line_entries);
          pl \<leftarrow> ocf_metadata_set_partition_prev pl nxt line_entries;
          pl \<leftarrow> ocf_metadata_set_partition_next pl cline line_entries;
          Some (part\<lparr>fp_head := nxt\<rparr>, pl) }
        else if is_tail then do {
          bug_on (prv \<ge> line_entries);
          pl \<leftarrow> ocf_metadata_set_partition_prev pl cline line_entries;
          pl \<leftarrow> ocf_metadata_set_partition_next pl prv line_entries;
          Some (part\<lparr>fp_tail := prv\<rparr>, pl) }
        else do {
          bug_on (nxt \<ge> line_entries \<or> prv \<ge> line_entries);
          pl \<leftarrow> ocf_metadata_set_partition_prev pl nxt prv;
          pl \<leftarrow> ocf_metadata_set_partition_next pl prv nxt;
          pl \<leftarrow> ocf_metadata_set_partition_info pl cline PARTITION_INVALID line_entries line_entries;
          Some (part, pl) });
     let part = part\<lparr>fp_size := fp_size part - 1\<rparr>;
     Some ((fl_set_part fl ctx part)\<lparr>total_free := total_free fl - 1\<rparr>, pl) }"

definition ocf_freelist_add_cache_line :: "fl_state \<Rightarrow> nat \<Rightarrow> cline \<Rightarrow> fl_state option" where
  "ocf_freelist_add_cache_line s ctx line = do {
     let fl = fst s;
     let pl = snd s;
     let part = fl_part fl ctx;
     let line_entries = pl_entries pl;
     bug_on (line \<ge> line_entries);
     (part, pl) \<leftarrow>
       (if fp_size part = 0 then do {
          pl \<leftarrow> ocf_metadata_set_partition_info pl line PARTITION_INVALID line_entries line_entries;
          Some (part\<lparr>fp_head := line, fp_tail := line\<rparr>, pl) }
        else do {
          let tail = fp_tail part;
          bug_on (tail \<ge> line_entries);
          pl \<leftarrow> ocf_metadata_set_partition_info pl line PARTITION_INVALID line_entries tail;
          pl \<leftarrow> ocf_metadata_set_partition_next pl tail line;
          Some (part\<lparr>fp_tail := line\<rparr>, pl) });
     let part = part\<lparr>fp_size := fp_size part + 1\<rparr>;
     Some ((fl_set_part fl ctx part)\<lparr>total_free := total_free fl + 1\<rparr>, pl) }"

datatype freelist_err = OCF_FREELIST_ERR_NOLOCK | OCF_FREELIST_ERR_LIST_EMPTY

text \<open>
  The result of an allocation attempt: the error, or the line, with the state. \<open>nolock\<close> tells
  whether the \<^verbatim>\<open>trylock\<close> of this attempt fails. The second test of the size, under the lock,
  sees the same state as the first one.
\<close>

definition ocf_freelist_get_cache_line_ctx ::
  "fl_state \<Rightarrow> nat \<Rightarrow> bool \<Rightarrow> bool \<Rightarrow> ((freelist_err + cline) \<times> fl_state) option" where
  "ocf_freelist_get_cache_line_ctx s ctx can_wait nolock =
     (if fp_size (fl_part (fst s) ctx) = 0 then Some (Inl OCF_FREELIST_ERR_LIST_EMPTY, s)
      else if \<not> can_wait \<and> nolock then Some (Inl OCF_FREELIST_ERR_NOLOCK, s)
      else if fp_size (fl_part (fst s) ctx) = 0 then Some (Inl OCF_FREELIST_ERR_LIST_EMPTY, s)
      else do {
        let cline = fp_head (fl_part (fst s) ctx);
        s \<leftarrow> ocf_freelist_remove_cache_line s ctx cline;
        Some (Inr cline, s) })"

definition get_next_victim_freelist :: "ocf_freelist \<Rightarrow> nat \<times> ocf_freelist" where
  "get_next_victim_freelist fl =
     (let ctx = slowpath_victim_idx fl
      in (ctx, fl\<lparr>slowpath_victim_idx := (ctx + 1) mod fl_count fl\<rparr>))"

text \<open>
  The two loops of the slow path; \<open>k\<close> is the number of iterations left, \<open>i\<close> the attempt number.
  The first loop returns \<open>Inr line\<close>, or \<open>Inl lock_err\<close> when it falls through.
\<close>

fun slow_nowait :: "(nat \<Rightarrow> bool) \<Rightarrow> nat \<Rightarrow> nat \<Rightarrow> bool \<Rightarrow> fl_state \<Rightarrow> ((bool + cline) \<times> fl_state) option" where
  "slow_nowait busy i 0 lock_err s = Some (Inl lock_err, s)"
| "slow_nowait busy i (Suc k) lock_err s =
     (case get_next_victim_freelist (fst s) of (ctx, fl) \<Rightarrow> do {
        (r, s) \<leftarrow> ocf_freelist_get_cache_line_ctx (fl, snd s) ctx False (busy i);
        case r of
          Inr cline \<Rightarrow> Some (Inr cline, s)
        | Inl err \<Rightarrow> slow_nowait busy (i + 1) k (lock_err \<or> err = OCF_FREELIST_ERR_NOLOCK) s })"

fun slow_wait :: "nat \<Rightarrow> fl_state \<Rightarrow> (cline option \<times> fl_state) option" where
  "slow_wait 0 s = Some (None, s)"
| "slow_wait (Suc k) s =
     (case get_next_victim_freelist (fst s) of (ctx, fl) \<Rightarrow> do {
        (r, s) \<leftarrow> ocf_freelist_get_cache_line_ctx (fl, snd s) ctx True False;
        case r of Inr cline \<Rightarrow> Some (Some cline, s) | Inl _ \<Rightarrow> slow_wait k s })"

definition ocf_freelist_get_cache_line_slow ::
  "(nat \<Rightarrow> bool) \<Rightarrow> fl_state \<Rightarrow> (cline option \<times> fl_state) option" where
  "ocf_freelist_get_cache_line_slow busy s = do {
     (r, s) \<leftarrow> slow_nowait busy 1 (fl_count (fst s)) False s;
     case r of
       Inr cline \<Rightarrow> Some (Some cline, s)
     | Inl lock_err \<Rightarrow> if \<not> lock_err then Some (None, s) else slow_wait (fl_count (fst s)) s }"

definition ocf_freelist_get_cache_line_fast ::
  "(nat \<Rightarrow> bool) \<Rightarrow> nat \<Rightarrow> fl_state \<Rightarrow> (cline option \<times> fl_state) option" where
  "ocf_freelist_get_cache_line_fast busy ctx s = do {
     (r, s) \<leftarrow> ocf_freelist_get_cache_line_ctx s ctx False (busy 0);
     Some (case r of Inr cline \<Rightarrow> Some cline | Inl _ \<Rightarrow> None, s) }"

definition ocf_freelist_get_cache_line ::
  "(nat \<Rightarrow> bool) \<Rightarrow> nat \<Rightarrow> fl_state \<Rightarrow> (cline option \<times> fl_state) option" where
  "ocf_freelist_get_cache_line busy ctx s =
     (if total_free (fst s) = 0 then Some (None, s)
      else do {
        (r, s) \<leftarrow> ocf_freelist_get_cache_line_fast busy ctx s;
        case r of None \<Rightarrow> ocf_freelist_get_cache_line_slow busy s | Some cline \<Rightarrow> Some (Some cline, s) })"

definition ocf_freelist_put_cache_line :: "nat \<Rightarrow> cline \<Rightarrow> fl_state \<Rightarrow> fl_state option" where
  "ocf_freelist_put_cache_line ctx cline s = ocf_freelist_add_cache_line s ctx cline"

definition ocf_freelist_num_free :: "ocf_freelist \<Rightarrow> nat" where
  "ocf_freelist_num_free fl = total_free fl"

text \<open>
  Filling the lists when a cache is started. \<open>phy2lg\<close> is the layout of the metadata, \<open>valid_any\<close>
  tells whether a line has a valid sector. \<open>next_phys_invalid\<close> walks the physical lines from
  \<open>phys\<close>; the number of lines bounds the walk.
\<close>

function next_phys_invalid :: "(cline \<Rightarrow> cline) \<Rightarrow> (cline \<Rightarrow> bool) \<Rightarrow> nat \<Rightarrow> cline \<Rightarrow> cline" where
  "next_phys_invalid phy2lg valid_any entries phys =
     (if phys \<ge> entries then phys
      else if valid_any (phy2lg phys) then next_phys_invalid phy2lg valid_any entries (phys + 1)
      else phys)"
  by pat_completeness auto
termination
  by (relation "measure (\<lambda>(_, _, entries, phys). entries - phys)") auto

declare next_phys_invalid.simps [simp del]

text \<open>The \<^verbatim>\<open>while (--freelist_size)\<close> loop: \<open>k\<close> more lines are linked behind \<open>idx\<close>.\<close>

fun populate_link ::
  "(cline \<Rightarrow> cline) \<Rightarrow> (cline \<Rightarrow> bool) \<Rightarrow> nat \<Rightarrow> cline \<Rightarrow> cline \<Rightarrow> cline \<Rightarrow> part_links \<Rightarrow> (cline \<times> cline \<times> part_links) option" where
  "populate_link phy2lg valid_any 0 phys prv idx pl = do {
     pl \<leftarrow> ocf_metadata_set_partition_info pl idx PARTITION_INVALID (pl_entries pl) prv;
     Some (phys, idx, pl) }"
| "populate_link phy2lg valid_any (Suc k) phys prv idx pl = do {
     let phys = next_phys_invalid phy2lg valid_any (pl_entries pl) phys;
     bug_on (phys = pl_entries pl);
     let nxt = phy2lg phys;
     pl \<leftarrow> ocf_metadata_set_partition_info pl idx PARTITION_INVALID nxt prv;
     populate_link phy2lg valid_any k (phys + 1) idx nxt pl }"

definition populate_one ::
  "(cline \<Rightarrow> cline) \<Rightarrow> (cline \<Rightarrow> bool) \<Rightarrow> nat \<Rightarrow> nat \<Rightarrow> cline \<times> fl_state \<Rightarrow> (cline \<times> fl_state) option" where
  "populate_one phy2lg valid_any num_free_clines freelist_idx st = do {
     let phys = fst st;
     let fl = fst (snd st);
     let pl = snd (snd st);
     let num_freelists = fl_count fl;
     let freelist_size = num_free_clines div num_freelists +
           (if freelist_idx < num_free_clines mod num_freelists then 1 else 0);
     let part = (fl_part fl freelist_idx)\<lparr>fp_size := freelist_size\<rparr>;
     if freelist_size = 0
     then Some (phys, fl_set_part fl freelist_idx (part\<lparr>fp_head := pl_entries pl, fp_tail := pl_entries pl\<rparr>), pl)
     else do {
       let phys = next_phys_invalid phy2lg valid_any (pl_entries pl) phys;
       bug_on (phys = pl_entries pl);
       let idx = phy2lg phys;
       (phys, tail, pl) \<leftarrow> populate_link phy2lg valid_any (freelist_size - 1) (phys + 1) (pl_entries pl) idx pl;
       Some (phys, fl_set_part fl freelist_idx (part\<lparr>fp_head := idx, fp_tail := tail\<rparr>), pl) } }"

definition ocf_freelist_populate ::
  "(cline \<Rightarrow> cline) \<Rightarrow> (cline \<Rightarrow> bool) \<Rightarrow> nat \<Rightarrow> fl_state \<Rightarrow> fl_state option" where
  "ocf_freelist_populate phy2lg valid_any num_free_clines s = do {
     (phys, fl, pl) \<leftarrow> fold_opt (populate_one phy2lg valid_any num_free_clines) [0..<fl_count (fst s)] (0, s);
     let phys = next_phys_invalid phy2lg valid_any (pl_entries pl) phys;
     bug_on (phys \<noteq> pl_entries pl);
     Some (fl\<lparr>total_free := num_free_clines\<rparr>, pl) }"

subsection \<open>Invariant\<close>

text \<open>
  \<open>fl_rep s F\<close>: context \<open>c\<close> has the free lines \<open>F c\<close>, no line is in two lists, and the counters
  are exact.
\<close>

definition fl_rep :: "fl_state \<Rightarrow> (nat \<Rightarrow> cline list) \<Rightarrow> bool" where
  "fl_rep s F \<longleftrightarrow>
     pl_entries (snd s) < U32_MOD \<and> slowpath_victim_idx (fst s) < fl_count (fst s) \<and>
     (\<forall>c < fl_count (fst s).
        pl_list (snd s) (F c) \<and>
        fl_part (fst s) c = \<lparr>fp_head = hd_or (pl_entries (snd s)) (F c),
           fp_tail = last_or (pl_entries (snd s)) (F c), fp_size = length (F c)\<rparr>) \<and>
     (\<forall>c < fl_count (fst s). \<forall>d < fl_count (fst s). c \<noteq> d \<longrightarrow> set (F c) \<inter> set (F d) = {}) \<and>
     total_free (fst s) = (\<Sum>c < fl_count (fst s). length (F c))"

lemma fl_repD:
  assumes "fl_rep s F" and "c < fl_count (fst s)"
  shows "pl_list (snd s) (F c)"
    and "fl_part (fst s) c = \<lparr>fp_head = hd_or (pl_entries (snd s)) (F c),
           fp_tail = last_or (pl_entries (snd s)) (F c), fp_size = length (F c)\<rparr>"
    and "d < fl_count (fst s) \<Longrightarrow> d \<noteq> c \<Longrightarrow> set (F d) \<inter> set (F c) = {}"
  using assms by (auto simp: fl_rep_def)

lemma fl_rep_total: "fl_rep s F \<Longrightarrow> total_free (fst s) = (\<Sum>c < fl_count (fst s). length (F c))"
  by (simp add: fl_rep_def)

lemma sum_fun_upd:
  fixes f :: "nat \<Rightarrow> nat"
  assumes "c < n"
  shows "(\<Sum>d < n. (f(c := v)) d) + f c = (\<Sum>d < n. f d) + v"
proof -
  have "(\<Sum>d < n. (f(c := v)) d) = v + (\<Sum>d \<in> {..<n} - {c}. (f(c := v)) d)"
    using assms by (subst sum.remove [of _ c]) auto
  also have "(\<Sum>d \<in> {..<n} - {c}. (f(c := v)) d) = (\<Sum>d \<in> {..<n} - {c}. f d)"
    by (intro sum.cong) auto
  moreover have "(\<Sum>d < n. f d) = f c + (\<Sum>d \<in> {..<n} - {c}. f d)"
    using assms by (subst sum.remove [of _ c]) auto
  ultimately show ?thesis by simp
qed

text \<open>How a change of one list, its record and the total carries the invariant over.\<close>

lemma fl_rep_upd:
  assumes rep: "fl_rep s F" and c: "c < fl_count (fst s)"
    and s': "fst s' = (fl_set_part (fst s) c \<lparr>fp_head = hd_or (pl_entries (snd s)) xs,
        fp_tail = last_or (pl_entries (snd s)) xs, fp_size = length xs\<rparr>)\<lparr>total_free := t\<rparr>"
    and n: "pl_entries (snd s') = pl_entries (snd s)"
    and xs: "pl_list (snd s') xs"
    and others: "\<And>d. d < fl_count (fst s) \<Longrightarrow> d \<noteq> c \<Longrightarrow>
        pl_list (snd s') (F d) \<and> set (F d) \<inter> set xs = {}"
    and t: "t + length (F c) = total_free (fst s) + length xs"
  shows "fl_rep s' (F(c := xs))"
proof -
  have "t = (\<Sum>d < fl_count (fst s). length ((F(c := xs)) d))"
    using t sum_fun_upd [OF c, of "\<lambda>d. length (F d)" "length xs"] fl_rep_total [OF rep]
    by (simp add: fun_upd_def if_distrib [of length] cong: if_cong)
  moreover have "set ((F(c := xs)) d) \<inter> set ((F(c := xs)) e) = {}"
    if "d < fl_count (fst s)" "e < fl_count (fst s)" "d \<noteq> e" for d e
    using that others [of d] others [of e] fl_repD(3) [OF rep that(1), of e] by (auto split: if_splits)
  ultimately show ?thesis
    using rep s' n xs others unfolding fl_rep_def by (simp add: fl_set_part_def)
qed

subsection \<open>Adding and removing a line\<close>

lemma freelist_add:
  assumes rep: "fl_rep s F" and c: "c < fl_count (fst s)"
    and x: "x < pl_entries (snd s)" "\<And>d. d < fl_count (fst s) \<Longrightarrow> x \<notin> set (F d)"
  obtains s' where "ocf_freelist_add_cache_line s c x = Some s'" and "fl_rep s' (F(c := F c @ [x]))"
    and "pl_linked_back (snd s) x (F c) (snd s')" and "fl_count (fst s') = fl_count (fst s)"
    and "total_free (fst s') = total_free (fst s) + 1"
proof -
  let ?n = "pl_entries (snd s)" and ?pl = "snd s"
  note d = fl_repD [OF rep c]
  define pl where "pl = ?pl\<lparr>part_pid := (part_pid ?pl)(x := PARTITION_INVALID mod U8_MOD),
     part_next := (if F c = [] then (part_next ?pl)(x := ?n) else ((part_next ?pl)(x := ?n))(last (F c) := x)),
     part_prev := (part_prev ?pl)(x := last_or ?n (F c))\<rparr>"
  define part where "part = \<lparr>fp_head = hd_or ?n (F c @ [x]), fp_tail = last_or ?n (F c @ [x]),
     fp_size = length (F c @ [x])\<rparr>"
  define s' where "s' = ((fl_set_part (fst s) c part)\<lparr>total_free := total_free (fst s) + 1\<rparr>, pl)"
  have lk: "pl_linked_back ?pl x (F c) pl" by (simp add: pl_linked_back_def pl_def)
  have add: "ocf_freelist_add_cache_line s c x = Some s'"
  proof (cases "F c = []")
    case True
    with d(2) x show ?thesis
      by (simp add: ocf_freelist_add_cache_line_def part_access_defs s'_def pl_def part_def Let_def)
  next
    case False
    then have "last_or ?n (F c) < ?n" "last_or ?n (F c) = last (F c)" "hd_or x (F c) = hd_or ?n (F c)"
      using dlist_last_less [OF d(1)] by (auto simp: last_or_conv hd_or_conv)
    with False d(2) x show ?thesis
      by (simp add: ocf_freelist_add_cache_line_def part_access_defs s'_def pl_def part_def Let_def)
  qed
  note bk = pl_linked_back_lists [OF lk d(1) x(2) [OF c] x(1)]
  have "fl_rep s' (F(c := F c @ [x]))"
  proof (rule fl_rep_upd [OF rep c])
    show "pl_list (snd s') (F e) \<and> set (F e) \<inter> set (F c @ [x]) = {}"
      if "e < fl_count (fst s)" "e \<noteq> c" for e
      using bk(2) [of "F e"] fl_repD(1) [OF rep that(1)] d(3) [OF that] x(2) [OF that(1)]
      by (simp add: s'_def)
  qed (use bk(1) in \<open>simp_all add: s'_def part_def pl_def\<close>)
  with add lk show thesis by (intro that [of s']) (simp_all add: s'_def fl_set_part_def)
qed

lemma freelist_remove:
  assumes rep: "fl_rep s F" and c: "c < fl_count (fst s)" and ne: "F c \<noteq> []"
  obtains s' where "ocf_freelist_remove_cache_line s c (hd (F c)) = Some s'"
    and "fl_rep s' (F(c := tl (F c)))" and "pl_unlinked (snd s) (hd (F c)) (snd s')"
    and "fl_count (fst s') = fl_count (fst s)"
    and "total_free (fst s') + 1 = total_free (fst s)"
proof -
  let ?n = "pl_entries (snd s)" and ?pl = "snd s"
  note d = fl_repD [OF rep c]
  obtain x bs where xs: "F c = x # bs" using ne by (cases "F c") auto
  then have dl: "pl_list ?pl ([] @ x # bs)" using d(1) by simp
  note null = dlist_links_null [OF dl] and neq = dlist_links_neq [OF dl]
  have x: "x < ?n" "part_prev ?pl x = ?n" "part_next ?pl x = hd_or ?n bs"
    using dlistD(2) [OF dl] dseg_node [OF dlistD(3) [OF dl]] by auto
  have size: "fp_size (fl_part (fst s) c) mod U32_MOD = Suc (length bs)"
    using d(2) xs dlist_length [OF d(1)] rep by (simp add: fl_rep_def)
  define pl where "pl = ?pl\<lparr>part_pid := (if bs = [] then (part_pid ?pl)(x := PARTITION_INVALID mod U8_MOD) else part_pid ?pl),
     part_next := (part_next ?pl)(x := ?n),
     part_prev := (if bs = [] then (part_prev ?pl)(x := ?n) else (part_prev ?pl)(part_next ?pl x := ?n))\<rparr>"
  define part where "part = \<lparr>fp_head = hd_or ?n bs, fp_tail = last_or ?n bs, fp_size = length bs\<rparr>"
  define s' where "s' = ((fl_set_part (fst s) c part)\<lparr>total_free := total_free (fst s) - 1\<rparr>, pl)"
  have un: "pl_unlinked ?pl x pl"
    using x null(2) neq by (auto simp: pl_unlinked_def pl_def fun_upd_idem)
  have rem: "ocf_freelist_remove_cache_line s c x = Some s'"
    using x d(2) xs size null(2,4)
    by (cases bs) (simp_all add: ocf_freelist_remove_cache_line_def part_access_defs s'_def pl_def part_def
        Let_def fl_set_part_def)
  note ul = pl_unlinked_lists [OF un d(1)]
  have "total_free (fst s) \<ge> length (F c)"
    using fl_rep_total [OF rep] c by (metis finite_lessThan lessThan_iff member_le_sum zero_le)
  then have pos: "total_free (fst s) > 0" using xs by simp
  have "fl_rep s' (F(c := bs))"
  proof (rule fl_rep_upd [OF rep c])
    show "pl_list (snd s') (F e) \<and> set (F e) \<inter> set bs = {}"
      if "e < fl_count (fst s)" "e \<noteq> c" for e
      using ul(2) [of "F e"] fl_repD(1) [OF rep that(1)] d(3) [OF that] xs
      by (auto simp: s'_def)
  qed (use ul(1) xs pos in \<open>auto simp: s'_def part_def pl_def\<close>)
  with rem un pos xs show thesis by (intro that [of s']) (simp_all add: s'_def fl_set_part_def)
qed

subsection \<open>Allocation\<close>

text \<open>The outcome of one attempt: empty list, lock not taken, or the head of the list.\<close>

definition fl_taken :: "fl_state \<Rightarrow> (nat \<Rightarrow> cline list) \<Rightarrow> cline \<Rightarrow> fl_state \<Rightarrow> bool" where
  "fl_taken s F x s' \<longleftrightarrow> (\<exists>c < fl_count (fst s). F c \<noteq> [] \<and> x = hd (F c) \<and>
     fl_rep s' (F(c := tl (F c))) \<and> fl_count (fst s') = fl_count (fst s) \<and>
     total_free (fst s') + 1 = total_free (fst s) \<and> pl_unlinked (snd s) x (snd s'))"

lemma get_ctx_cases:
  assumes rep: "fl_rep s F" and c: "c < fl_count (fst s)"
  shows "F c = [] \<Longrightarrow> ocf_freelist_get_cache_line_ctx s c w b = Some (Inl OCF_FREELIST_ERR_LIST_EMPTY, s)"
    and "F c \<noteq> [] \<Longrightarrow> \<not> w \<and> b \<Longrightarrow>
      ocf_freelist_get_cache_line_ctx s c w b = Some (Inl OCF_FREELIST_ERR_NOLOCK, s)"
    and "F c \<noteq> [] \<Longrightarrow> w \<or> \<not> b \<Longrightarrow>
      \<exists>x s'. ocf_freelist_get_cache_line_ctx s c w b = Some (Inr x, s') \<and> fl_taken s F x s'"
proof -
  note d = fl_repD(2) [OF rep c]
  show "ocf_freelist_get_cache_line_ctx s c w b = Some (Inl OCF_FREELIST_ERR_LIST_EMPTY, s)" if "F c = []"
    using d that by (simp add: ocf_freelist_get_cache_line_ctx_def)
  show "ocf_freelist_get_cache_line_ctx s c w b = Some (Inl OCF_FREELIST_ERR_NOLOCK, s)"
    if "F c \<noteq> []" "\<not> w \<and> b"
    using d that by (simp add: ocf_freelist_get_cache_line_ctx_def)
  assume ne: "F c \<noteq> []" and w: "w \<or> \<not> b"
  obtain s' where "ocf_freelist_remove_cache_line s c (hd (F c)) = Some s'"
    "fl_rep s' (F(c := tl (F c)))" "pl_unlinked (snd s) (hd (F c)) (snd s')"
    "fl_count (fst s') = fl_count (fst s)" "total_free (fst s') + 1 = total_free (fst s)"
    by (rule freelist_remove [OF rep c ne])
  then have "ocf_freelist_get_cache_line_ctx s c w b = Some (Inr (hd (F c)), s')" "fl_taken s F (hd (F c)) s'"
    using d ne w c by (auto simp: ocf_freelist_get_cache_line_ctx_def hd_or_conv fl_taken_def)
  then show "\<exists>x s'. ocf_freelist_get_cache_line_ctx s c w b = Some (Inr x, s') \<and> fl_taken s F x s'" by blast
qed

lemma victim_step:
  assumes "fl_rep s F" and "get_next_victim_freelist (fst s) = (c, fl)"
  shows "c = slowpath_victim_idx (fst s)" and "c < fl_count (fst s)" and "fl_rep (fl, snd s) F"
    and "fl_count fl = fl_count (fst s)" and "slowpath_victim_idx fl = (c + 1) mod fl_count (fst s)"
    and "total_free fl = total_free (fst s)"
proof -
  have fl: "fl = (fst s)\<lparr>slowpath_victim_idx := (c + 1) mod fl_count (fst s)\<rparr>" "c = slowpath_victim_idx (fst s)"
    using assms(2) by (auto simp: get_next_victim_freelist_def Let_def)
  then show "c = slowpath_victim_idx (fst s)" "fl_count fl = fl_count (fst s)"
    "slowpath_victim_idx fl = (c + 1) mod fl_count (fst s)" "total_free fl = total_free (fst s)" by simp_all
  show "c < fl_count (fst s)" using assms(1) fl by (simp add: fl_rep_def)
  then show "fl_rep (fl, snd s) F" using assms(1) fl unfolding fl_rep_def by simp
qed

lemma fl_taken_victim:
  "fl_taken (fl, pl) F x s' \<Longrightarrow> fl_count fl = fl_count (fst s) \<Longrightarrow> total_free fl = total_free (fst s) \<Longrightarrow>
   snd s = pl \<Longrightarrow> fl_taken s F x s'"
  by (auto simp: fl_taken_def)

text \<open>
  The contexts a slow-path loop of \<open>k\<close> iterations visits from context \<open>v\<close>: all of them when \<open>k\<close>
  is the number of lists.
\<close>

definition visited :: "nat \<Rightarrow> nat \<Rightarrow> nat \<Rightarrow> nat set" where
  "visited n v k = (\<lambda>j. (v + j) mod n) ` {..<k}"

lemma visited_Suc:
  assumes "v < n"
  shows "visited n v (Suc k) = insert v (visited n ((v + 1) mod n) k)"
proof -
  have "visited n v (Suc k) = insert (v mod n) ((\<lambda>j. (v + Suc j) mod n) ` {..<k})"
    unfolding visited_def by (simp add: lessThan_Suc_eq_insert_0 image_image)
  moreover have "(v + Suc j) mod n = ((v + 1) mod n + j) mod n" for j
    by (simp add: mod_add_left_eq)
  ultimately show ?thesis using assms by (simp add: visited_def)
qed

lemma visited_all:
  assumes "v < n"
  shows "visited n v n = {..<n}"
proof -
  have "c \<in> visited n v n" if "c < n" for c
  proof -
    let ?j = "(c + n - v) mod n"
    have "(v + ?j) mod n = (v + (c + n - v)) mod n" by (simp add: mod_add_right_eq)
    also have "\<dots> = c" using assms that by simp
    finally have "c = (v + ?j) mod n" by simp
    moreover have "?j < n" using assms by simp
    ultimately show ?thesis unfolding visited_def by blast
  qed
  then show ?thesis using assms by (auto simp: visited_def)
qed

lemma slow_nowait_sticky:
  assumes "slow_nowait busy i k True s = Some (Inl le', s')"
  shows "le'"
  using assms
proof (induction k arbitrary: i s)
  case (Suc k)
  obtain c fl where v: "get_next_victim_freelist (fst s) = (c, fl)" by force
  with Suc.prems obtain r t where
    r: "ocf_freelist_get_cache_line_ctx (fl, snd s) c False (busy i) = Some (r, t)"
    by (auto simp: bind_eq_Some_conv)
  with v Suc.prems Suc.IH [of "i + 1" t] show ?case by (cases r) auto
qed simp

lemma slow_nowait_outcome:
  assumes "fl_rep s F"
  shows "\<exists>r s'. slow_nowait busy i k le s = Some (r, s') \<and>
    (case r of
       Inr x \<Rightarrow> fl_taken s F x s'
     | Inl le' \<Rightarrow> fl_rep s' F \<and> fl_count (fst s') = fl_count (fst s) \<and> total_free (fst s') = total_free (fst s) \<and>
         snd s' = snd s \<and>
         (\<not> le' \<longrightarrow> (\<forall>c \<in> visited (fl_count (fst s)) (slowpath_victim_idx (fst s)) k. F c = [])))"
  using assms
proof (induction k arbitrary: i le s)
  case 0
  then show ?case by (simp add: visited_def)
next
  case (Suc k)
  obtain c fl where v: "get_next_victim_freelist (fst s) = (c, fl)" by force
  note vs = victim_step [OF Suc.prems v]
  let ?s = "(fl, snd s)"
  have c: "c < fl_count (fst ?s)" using vs(2,4) by simp
  note gc = get_ctx_cases [OF vs(3) c, of False "busy i"]
  show ?case
  proof (cases "F c \<noteq> [] \<and> \<not> busy i")
    case True
    then obtain x s' where "ocf_freelist_get_cache_line_ctx ?s c False (busy i) = Some (Inr x, s')"
      "fl_taken ?s F x s'" using gc(3) by auto
    then show ?thesis using v fl_taken_victim [OF _ vs(4,6)] by auto
  next
    case False
    then obtain e where e: "ocf_freelist_get_cache_line_ctx ?s c False (busy i) = Some (Inl e, ?s)"
      "F c \<noteq> [] \<Longrightarrow> e = OCF_FREELIST_ERR_NOLOCK"
      using gc(1,2) by (cases "F c = []") auto
    let ?le = "le \<or> e = OCF_FREELIST_ERR_NOLOCK"
    obtain r s' where r: "slow_nowait busy (i + 1) k ?le ?s = Some (r, s')"
      "case r of
         Inr x \<Rightarrow> fl_taken ?s F x s'
       | Inl le' \<Rightarrow> fl_rep s' F \<and> fl_count (fst s') = fl_count (fst ?s) \<and> total_free (fst s') = total_free (fst ?s) \<and>
           snd s' = snd ?s \<and>
           (\<not> le' \<longrightarrow> (\<forall>c \<in> visited (fl_count (fst ?s)) (slowpath_victim_idx (fst ?s)) k. F c = []))"
      using Suc.IH [OF vs(3)] by blast
    have step: "slow_nowait busy i (Suc k) le s = Some (r, s')" using v e(1) r(1) by simp
    have sticky: "\<not> le' \<Longrightarrow> \<not> ?le" if "r = Inl le'" for le'
      using slow_nowait_sticky [of busy "i + 1" k ?s le' s'] r(1) that by (cases ?le) auto
    show ?thesis
    proof (cases r)
      case (Inr x)
      then show ?thesis using step r(2) fl_taken_victim [OF _ vs(4,6)] by auto
    next
      case (Inl le')
      then show ?thesis
        using step r(2) e(2) sticky vs visited_Suc [of c "fl_count (fst s)" k] by auto
    qed
  qed
qed

lemma slow_wait_outcome:
  assumes "fl_rep s F"
  shows "\<exists>r s'. slow_wait k s = Some (r, s') \<and>
    (case r of
       Some x \<Rightarrow> fl_taken s F x s'
     | None \<Rightarrow> \<forall>c \<in> visited (fl_count (fst s)) (slowpath_victim_idx (fst s)) k. F c = [])"
  using assms
proof (induction k arbitrary: s)
  case 0
  then show ?case by (simp add: visited_def)
next
  case (Suc k)
  obtain c fl where v: "get_next_victim_freelist (fst s) = (c, fl)" by force
  note vs = victim_step [OF Suc.prems v]
  let ?s = "(fl, snd s)"
  have c: "c < fl_count (fst ?s)" using vs(2,4) by simp
  note gc = get_ctx_cases [OF vs(3) c, of True False]
  show ?case
  proof (cases "F c = []")
    case False
    then obtain x s' where "ocf_freelist_get_cache_line_ctx ?s c True False = Some (Inr x, s')"
      "fl_taken ?s F x s'" using gc(3) by auto
    then show ?thesis using v fl_taken_victim [OF _ vs(4,6)] by auto
  next
    case True
    obtain r s' where r: "slow_wait k ?s = Some (r, s')"
      "case r of
         Some x \<Rightarrow> fl_taken ?s F x s'
       | None \<Rightarrow> \<forall>c \<in> visited (fl_count (fst ?s)) (slowpath_victim_idx (fst ?s)) k. F c = []"
      using Suc.IH [OF vs(3)] by blast
    then have "slow_wait (Suc k) s = Some (r, s')" using v gc(1) [OF True] by simp
    with r(2) True vs visited_Suc [of c "fl_count (fst s)" k] fl_taken_victim [OF _ vs(4,6)]
    show ?thesis by (auto split: option.splits)
  qed
qed

lemma fl_all_empty:
  assumes rep: "fl_rep s F" and "\<forall>c \<in> visited (fl_count (fst s)) (slowpath_victim_idx (fst s)) (fl_count (fst s)). F c = []"
  shows "total_free (fst s) = 0"
proof -
  have "slowpath_victim_idx (fst s) < fl_count (fst s)" using rep by (simp add: fl_rep_def)
  with assms(2) have "\<forall>c < fl_count (fst s). F c = []" by (simp add: visited_all)
  then show ?thesis using fl_rep_total [OF rep] by simp
qed

lemma get_slow:
  assumes rep: "fl_rep s F" and free: "total_free (fst s) > 0"
  shows "\<exists>x s'. ocf_freelist_get_cache_line_slow busy s = Some (Some x, s') \<and> fl_taken s F x s'"
proof -
  obtain r t where r: "slow_nowait busy 1 (fl_count (fst s)) False s = Some (r, t)"
    "case r of
       Inr x \<Rightarrow> fl_taken s F x t
     | Inl le' \<Rightarrow> fl_rep t F \<and> fl_count (fst t) = fl_count (fst s) \<and> total_free (fst t) = total_free (fst s) \<and>
         snd t = snd s \<and>
         (\<not> le' \<longrightarrow> (\<forall>c \<in> visited (fl_count (fst s)) (slowpath_victim_idx (fst s)) (fl_count (fst s)). F c = []))"
    using slow_nowait_outcome [OF rep] by blast
  show ?thesis
  proof (cases r)
    case (Inr x)
    then show ?thesis using r by (auto simp: ocf_freelist_get_cache_line_slow_def)
  next
    case (Inl le)
    then have t: "fl_rep t F" "fl_count (fst t) = fl_count (fst s)" "total_free (fst t) = total_free (fst s)"
        "snd t = snd s" and le: "le"
      using r(2) fl_all_empty [OF rep] free by auto
    obtain q s' where q: "slow_wait (fl_count (fst t)) t = Some (q, s')"
      "case q of
         Some x \<Rightarrow> fl_taken t F x s'
       | None \<Rightarrow> \<forall>c \<in> visited (fl_count (fst t)) (slowpath_victim_idx (fst t)) (fl_count (fst t)). F c = []"
      using slow_wait_outcome [OF t(1)] by blast
    with fl_all_empty [OF t(1)] t(3) free obtain x where x: "q = Some x" by (cases q) auto
    have "fl_taken s F x s'" using q(2) x t by (simp add: fl_taken_def)
    then show ?thesis using r(1) Inl le q(1) x by (auto simp: ocf_freelist_get_cache_line_slow_def)
  qed
qed

lemma get_cache_line:
  assumes rep: "fl_rep s F" and free: "total_free (fst s) > 0" and c: "ctx < fl_count (fst s)"
  shows "\<exists>x s'. ocf_freelist_get_cache_line busy ctx s = Some (Some x, s') \<and> fl_taken s F x s'"
proof (cases "F ctx \<noteq> [] \<and> \<not> busy 0")
  case True
  then obtain x s' where "ocf_freelist_get_cache_line_ctx s ctx False (busy 0) = Some (Inr x, s')" "fl_taken s F x s'"
    using get_ctx_cases(3) [OF rep c, of False "busy 0"] by auto
  then show ?thesis
    using free by (auto simp: ocf_freelist_get_cache_line_def ocf_freelist_get_cache_line_fast_def)
next
  case False
  then obtain e where "ocf_freelist_get_cache_line_ctx s ctx False (busy 0) = Some (Inl e, s)"
    using get_ctx_cases(1,2) [OF rep c, of False "busy 0"] by (cases "F ctx = []") auto
  with get_slow [OF rep free, of busy] free show ?thesis
    by (auto simp: ocf_freelist_get_cache_line_def ocf_freelist_get_cache_line_fast_def)
qed

subsection \<open>Filling the lists\<close>

text \<open>The lines without valid sectors, in physical order from \<open>phys\<close> on.\<close>

definition free_from :: "(cline \<Rightarrow> cline) \<Rightarrow> (cline \<Rightarrow> bool) \<Rightarrow> nat \<Rightarrow> cline \<Rightarrow> cline list" where
  "free_from phy2lg valid_any n phys = map phy2lg (filter (\<lambda>p. \<not> valid_any (phy2lg p)) [phys..<n])"

lemma next_phys_invalid_free:
  fixes f va
  assumes "phys \<le> n"
  defines "p \<equiv> next_phys_invalid f va n phys"
  shows "free_from f va n phys = [] \<Longrightarrow> p = n"
    and "free_from f va n phys \<noteq> [] \<Longrightarrow> p < n \<and> free_from f va n phys = f p # free_from f va n (p + 1)"
proof -
  have "(free_from f va n phys = [] \<longrightarrow> next_phys_invalid f va n phys = n) \<and>
    (free_from f va n phys \<noteq> [] \<longrightarrow> next_phys_invalid f va n phys < n \<and>
       free_from f va n phys = f (next_phys_invalid f va n phys) # free_from f va n (next_phys_invalid f va n phys + 1))"
    using assms(1)
  proof (induction f va n phys rule: next_phys_invalid.induct)
    case (1 f va n phys)
    have cons: "phys < n \<Longrightarrow> [phys..<n] = phys # [phys + 1..<n]" by (simp add: upt_conv_Cons)
    show ?case
    proof (cases "phys < n \<and> va (f phys)")
      case True
      then have "free_from f va n phys = free_from f va n (phys + 1)"
        using cons by (simp add: free_from_def)
      with 1 True show ?thesis by (simp add: next_phys_invalid.simps [of f va n phys])
    next
      case False
      then show ?thesis using 1 cons
        by (cases "phys < n") (simp_all add: next_phys_invalid.simps [of f va n phys] next_phys_invalid.simps [of f va n n] free_from_def)
    qed
  qed
  then show "free_from f va n phys = [] \<Longrightarrow> p = n"
    and "free_from f va n phys \<noteq> [] \<Longrightarrow> p < n \<and> free_from f va n phys = f p # free_from f va n (p + 1)"
    by (simp_all add: p_def)
qed

lemma populate_link_list:
  assumes "free_from f va (pl_entries pl) phys = ys @ zs" and "length ys = k" and "phys \<le> pl_entries pl"
    and "\<forall>y \<in> set (idx # ys). y < pl_entries pl" and "distinct (idx # ys)"
  shows "\<exists>phys' pl'. populate_link f va k phys prv idx pl = Some (phys', last (idx # ys), pl') \<and>
    phys' \<le> pl_entries pl \<and> free_from f va (pl_entries pl) phys' = zs \<and> pl_entries pl' = pl_entries pl \<and>
    dseg (part_next pl') (part_prev pl') prv (idx # ys) (pl_entries pl) \<and>
    (\<forall>y. y \<notin> set (idx # ys) \<longrightarrow> part_next pl' y = part_next pl y \<and> part_prev pl' y = part_prev pl y)"
  using assms
proof (induction k arbitrary: phys prv idx pl ys)
  case 0
  then show ?case by (auto simp: part_access_defs)
next
  case (Suc k)
  let ?n = "pl_entries pl"
  obtain y ys' where ys: "ys = y # ys'" using Suc.prems(2) by (cases ys) auto
  let ?p = "next_phys_invalid f va ?n phys"
  have p: "?p < ?n" "f ?p = y" "free_from f va ?n (?p + 1) = ys' @ zs"
    using next_phys_invalid_free(2) [OF Suc.prems(3), of f va] Suc.prems(1) ys by auto
  let ?pl = "pl\<lparr>part_pid := (part_pid pl)(idx := PARTITION_INVALID mod U8_MOD),
     part_next := (part_next pl)(idx := y), part_prev := (part_prev pl)(idx := prv)\<rparr>"
  have "\<exists>phys' pl'. populate_link f va k (?p + 1) idx y ?pl = Some (phys', last (y # ys'), pl') \<and>
    phys' \<le> pl_entries ?pl \<and> free_from f va (pl_entries ?pl) phys' = zs \<and> pl_entries pl' = pl_entries ?pl \<and>
    dseg (part_next pl') (part_prev pl') idx (y # ys') (pl_entries ?pl) \<and>
    (\<forall>z. z \<notin> set (y # ys') \<longrightarrow> part_next pl' z = part_next ?pl z \<and> part_prev pl' z = part_prev ?pl z)"
    using Suc.prems p ys by (intro Suc.IH) auto
  then obtain phys' pl' where
    *: "populate_link f va k (?p + 1) idx y ?pl = Some (phys', last (y # ys'), pl')"
      "phys' \<le> ?n" "free_from f va ?n phys' = zs" "pl_entries pl' = ?n"
      "dseg (part_next pl') (part_prev pl') idx (y # ys') ?n"
      "\<forall>z. z \<notin> set (y # ys') \<longrightarrow> part_next pl' z = part_next ?pl z \<and> part_prev pl' z = part_prev ?pl z"
    by auto
  have "part_next pl' idx = y" "part_prev pl' idx = prv"
    using *(6) Suc.prems(5) ys by simp_all
  moreover have "populate_link f va (Suc k) phys prv idx pl = Some (phys', last (idx # ys), pl')"
    using *(1) p(1,2) Suc.prems(4) ys by (simp add: part_access_defs)
  ultimately show ?case using *(2-6) ys by auto
qed

text \<open>The lists the loop of \<^verbatim>\<open>ocf_freelist_populate\<close> cuts the free lines into.\<close>

definition pop_size :: "nat \<Rightarrow> nat \<Rightarrow> nat \<Rightarrow> nat" where
  "pop_size num cnt c = num div cnt + (if c < num mod cnt then 1 else 0)"

definition pop_list :: "cline list \<Rightarrow> nat \<Rightarrow> nat \<Rightarrow> cline list" where
  "pop_list xs cnt c = take (pop_size (length xs) cnt c) (drop (\<Sum>d < c. pop_size (length xs) cnt d) xs)"

lemma pop_size_sum:
  assumes "0 < cnt"
  shows "(\<Sum>c < cnt. pop_size num cnt c) = num"
proof -
  have "(\<Sum>c < cnt. if c < num mod cnt then 1 else 0 :: nat) = card {c \<in> {..<cnt}. c < num mod cnt}"
    by (simp flip: sum.inter_filter)
  also have "{c \<in> {..<cnt}. c < num mod cnt} = {..<num mod cnt}"
    using assms by (auto intro: less_trans [OF _ mod_less_divisor])
  finally show ?thesis
    by (simp add: pop_size_def sum.distrib)
qed

lemma pop_offset_le:
  assumes "0 < cnt" and "m \<le> cnt"
  shows "(\<Sum>c < m. pop_size num cnt c) \<le> num"
proof -
  have "(\<Sum>c < m. pop_size num cnt c) \<le> (\<Sum>c < cnt. pop_size num cnt c)"
    using assms(2) by (intro sum_mono2) auto
  then show ?thesis using pop_size_sum [OF assms(1), of num] by simp
qed

lemma pop_list_length:
  assumes "0 < cnt" and "c < cnt"
  shows "length (pop_list xs cnt c) = pop_size (length xs) cnt c"
  using pop_offset_le [OF assms(1), of "Suc c" "length xs"] assms(2) by (simp add: pop_list_def)

lemma pop_list_drop:
  "drop (\<Sum>d < c. pop_size (length xs) cnt d) xs =
   pop_list xs cnt c @ drop (\<Sum>d < Suc c. pop_size (length xs) cnt d) xs"
  unfolding pop_list_def
  by (simp add: add.commute flip: drop_drop)

lemma pop_list_prefix:
  "concat (map (pop_list xs cnt) [0..<m]) = take (\<Sum>d < m. pop_size (length xs) cnt d) xs"
  by (induction m) (simp_all add: pop_list_def take_add)

lemma pop_list_all:
  "0 < cnt \<Longrightarrow> concat (map (pop_list xs cnt) [0..<cnt]) = xs"
  by (simp add: pop_list_prefix pop_size_sum)

lemma pop_list_disjoint:
  assumes "distinct xs" and "c < d"
  shows "set (pop_list xs cnt c) \<inter> set (pop_list xs cnt d) = {}"
proof -
  let ?o = "\<lambda>m. \<Sum>e < m. pop_size (length xs) cnt e"
  have "set (pop_list xs cnt c) \<subseteq> set (take (?o (Suc c)) xs)"
    unfolding pop_list_prefix [symmetric] by simp
  moreover have "?o (Suc c) \<le> ?o d" using assms(2) by (intro sum_mono2) auto
  then have "set (pop_list xs cnt d) \<subseteq> set (drop (?o (Suc c)) xs)"
    unfolding pop_list_def by (meson set_drop_subset_set_drop set_take_subset subset_trans)
  ultimately show ?thesis
    using set_take_disj_set_drop_if_distinct [OF assms(1) order_refl, of "?o (Suc c)"] by blast
qed

text \<open>The state of the outer loop after \<open>m\<close> lists.\<close>

definition pop_inv :: "(cline \<Rightarrow> cline) \<Rightarrow> (cline \<Rightarrow> bool) \<Rightarrow> nat \<Rightarrow> nat \<Rightarrow> cline list \<Rightarrow> nat \<Rightarrow> nat \<Rightarrow> cline \<times> fl_state \<Rightarrow> bool" where
  "pop_inv f va n cnt xs v m st \<longleftrightarrow> (case st of (phys, fl, pl) \<Rightarrow>
     phys \<le> n \<and> free_from f va n phys = drop (\<Sum>d < m. pop_size (length xs) cnt d) xs \<and>
     pl_entries pl = n \<and> fl_count fl = cnt \<and> slowpath_victim_idx fl = v \<and>
     (\<forall>c < m. pl_list pl (pop_list xs cnt c) \<and>
        fl_part fl c = \<lparr>fp_head = hd_or n (pop_list xs cnt c), fp_tail = last_or n (pop_list xs cnt c),
           fp_size = length (pop_list xs cnt c)\<rparr>))"

lemma free_part_collapse [simp]:
  "(p :: free_part)\<lparr>fp_size := a, fp_head := b, fp_tail := c\<rparr> = \<lparr>fp_head = b, fp_tail = c, fp_size = a\<rparr>"
  by (cases p) simp

lemma populate_one_inv:
  assumes inv: "pop_inv f va n cnt xs v m st" and m: "m < cnt"
    and xs: "distinct xs" "\<forall>x \<in> set xs. x < n"
  shows "\<exists>st'. populate_one f va (length xs) m st = Some st' \<and> pop_inv f va n cnt xs v (Suc m) st'"
proof -
  obtain phys fl pl where st: "st = (phys, fl, pl)" by (cases st) auto
  let ?F = "pop_list xs cnt m" and ?rest = "drop (\<Sum>d < Suc m. pop_size (length xs) cnt d) xs"
  from inv st have i: "phys \<le> n" "free_from f va n phys = ?F @ ?rest" "pl_entries pl = n" "fl_count fl = cnt"
      "slowpath_victim_idx fl = v"
      "\<forall>c < m. pl_list pl (pop_list xs cnt c) \<and>
        fl_part fl c = \<lparr>fp_head = hd_or n (pop_list xs cnt c), fp_tail = last_or n (pop_list xs cnt c),
           fp_size = length (pop_list xs cnt c)\<rparr>"
    using pop_list_drop [of xs cnt m] by (auto simp: pop_inv_def)
  have len: "length ?F = pop_size (length xs) cnt m" using pop_list_length m by simp
  have F: "distinct ?F" "\<forall>x \<in> set ?F. x < n"
    using xs by (auto simp: pop_list_def dest: in_set_takeD in_set_dropD)
  have size: "pop_size (length xs) cnt m = length xs div cnt + (if m < length xs mod cnt then 1 else 0)"
    by (simp add: pop_size_def)
  show ?thesis
  proof (cases ?F)
    case Nil
    let ?part = "\<lparr>fp_head = n, fp_tail = n, fp_size = 0\<rparr>"
    have "populate_one f va (length xs) m st = Some (phys, fl_set_part fl m ?part, pl)"
      using st i(3,4) len size Nil by (simp add: populate_one_def Let_def)
    moreover have "pop_inv f va n cnt xs v (Suc m) (phys, fl_set_part fl m ?part, pl)"
      using i Nil by (auto simp: pop_inv_def fl_set_part_def less_Suc_eq)
    ultimately show ?thesis by blast
  next
    case (Cons x ys)
    let ?p = "next_phys_invalid f va n phys"
    have p: "?p < n" "f ?p = x" "free_from f va n (?p + 1) = ys @ ?rest"
      using next_phys_invalid_free(2) [OF i(1), of f va] i(2) Cons by auto
    have "\<exists>phys' pl'. populate_link f va (length ys) (?p + 1) n x pl = Some (phys', last (x # ys), pl') \<and>
      phys' \<le> pl_entries pl \<and> free_from f va (pl_entries pl) phys' = ?rest \<and> pl_entries pl' = pl_entries pl \<and>
      dseg (part_next pl') (part_prev pl') n (x # ys) (pl_entries pl) \<and>
      (\<forall>y. y \<notin> set (x # ys) \<longrightarrow> part_next pl' y = part_next pl y \<and> part_prev pl' y = part_prev pl y)"
      using p i(3) F Cons by (intro populate_link_list) auto
    then obtain phys' pl' where
      *: "populate_link f va (length ys) (?p + 1) n x pl = Some (phys', last (x # ys), pl')"
        "phys' \<le> n" "free_from f va n phys' = ?rest" "pl_entries pl' = n"
        "dseg (part_next pl') (part_prev pl') n (x # ys) n"
        "\<And>y. y \<notin> set (x # ys) \<Longrightarrow> part_next pl' y = part_next pl y \<and> part_prev pl' y = part_prev pl y"
      using i(3) by auto
    let ?part = "\<lparr>fp_head = x, fp_tail = last (x # ys), fp_size = length (x # ys)\<rparr>"
    have sz: "length xs div cnt + (if m < length xs mod cnt then 1 else 0) = Suc (length ys)"
      using len size Cons by simp
    have one: "populate_one f va (length xs) m st = Some (phys', fl_set_part fl m ?part, pl')"
      unfolding populate_one_def st fst_conv snd_conv Let_def i(3,4) sz using *(1) p(1,2) by simp
    have new: "pl_list pl' ?F" using *(4,5) F Cons by (simp add: dlist_def)
    have old: "pl_list pl' (pop_list xs cnt c)" if "c < m" for c
    proof -
      have "y \<notin> set (x # ys)" if "y \<in> set (pop_list xs cnt c)" for y
        using pop_list_disjoint [OF xs(1) \<open>c < m\<close>, of cnt] that Cons by auto
      then have "dlist n (part_next pl') (part_prev pl') (pop_list xs cnt c) =
          dlist n (part_next pl) (part_prev pl) (pop_list xs cnt c)"
        using *(6) by (intro dlist_cong) blast+
      then show ?thesis using i(3,6) that *(4) by simp
    qed
    have "pop_inv f va n cnt xs v (Suc m) (phys', fl_set_part fl m ?part, pl')"
      using i *(2-4) new old Cons by (auto simp: pop_inv_def fl_set_part_def less_Suc_eq last_or_def)
    with one show ?thesis by blast
  qed
qed

lemma populate_rep:
  assumes n: "pl_entries (snd s) < U32_MOD" and v: "slowpath_victim_idx (fst s) < fl_count (fst s)"
    and bij: "bij_betw phy2lg {..<pl_entries (snd s)} {..<pl_entries (snd s)}"
    and xs: "xs = free_from phy2lg va (pl_entries (snd s)) 0"
  shows "\<exists>s'. ocf_freelist_populate phy2lg va (length xs) s = Some s' \<and> fl_rep s' (pop_list xs (fl_count (fst s)))
    \<and> fl_count (fst s') = fl_count (fst s)"
proof -
  let ?n = "pl_entries (snd s)" and ?cnt = "fl_count (fst s)" and ?v = "slowpath_victim_idx (fst s)"
  have cnt: "0 < ?cnt" using v by simp
  have xs_ok: "distinct xs" "\<forall>x \<in> set xs. x < ?n"
    using bij unfolding xs free_from_def
    by (auto simp: distinct_map bij_betw_def inj_on_def)
  have "\<exists>st. fold_opt (populate_one phy2lg va (length xs)) [0..<m] (0, s) = Some st \<and>
      pop_inv phy2lg va ?n ?cnt xs ?v m st" if "m \<le> ?cnt" for m
    using that
  proof (induction m)
    case 0
    then show ?case using xs by (cases s) (simp add: pop_inv_def)
  next
    case (Suc m)
    then obtain st where st: "fold_opt (populate_one phy2lg va (length xs)) [0..<m] (0, s) = Some st"
      "pop_inv phy2lg va ?n ?cnt xs ?v m st" by auto
    with populate_one_inv [OF st(2) _ xs_ok] Suc.prems show ?case by (auto simp: fold_opt_append)
  qed
  then obtain phys fl pl where
    f: "fold_opt (populate_one phy2lg va (length xs)) [0..<?cnt] (0, s) = Some (phys, fl, pl)"
      "pop_inv phy2lg va ?n ?cnt xs ?v ?cnt (phys, fl, pl)" by (metis order_refl prod_cases3)
  have "phys \<le> ?n" "free_from phy2lg va ?n phys = []" "pl_entries pl = ?n" "fl_count fl = ?cnt"
    using f(2) pop_size_sum [OF cnt] by (auto simp: pop_inv_def)
  with next_phys_invalid_free(1) [of phys ?n phy2lg va] f(1)
  have pop: "ocf_freelist_populate phy2lg va (length xs) s = Some (fl\<lparr>total_free := length xs\<rparr>, pl)"
    by (simp add: ocf_freelist_populate_def)
  have "(\<Sum>c < ?cnt. length (pop_list xs ?cnt c)) = length xs"
    using pop_list_length [OF cnt] pop_size_sum [OF cnt] by simp
  moreover have "set (pop_list xs ?cnt c) \<inter> set (pop_list xs ?cnt d) = {}" if "c \<noteq> d" for c d
    using pop_list_disjoint [OF xs_ok(1), of c d] pop_list_disjoint [OF xs_ok(1), of d c] that
    by (cases "c < d") auto
  ultimately have "fl_rep (fl\<lparr>total_free := length xs\<rparr>, pl) (pop_list xs ?cnt)"
    using f(2) n v by (auto simp: fl_rep_def pop_inv_def)
  with pop f(2) show ?thesis by (auto simp: pop_inv_def)
qed

text \<open>Two contexts: the first has no free line, the second has the lines 3 and 1 of a cache of four.\<close>

definition example_free :: fl_state where
  "example_free =
    (\<lparr>fl_part = (\<lambda>c. if c = 1 then \<lparr>fp_head = 3, fp_tail = 1, fp_size = 2\<rparr>
                     else \<lparr>fp_head = 4, fp_tail = 4, fp_size = 0\<rparr>),
      fl_count = 2, slowpath_victim_idx = 0, total_free = 2\<rparr>,
     \<lparr>pl_entries = 4, part_next = (\<lambda>x. if x = 3 then 1 else 4), part_prev = (\<lambda>x. if x = 1 then 3 else 4),
      part_pid = (\<lambda>_. 255)\<rparr>)"

lemma example_free_rep: "fl_rep example_free (\<lambda>c. if c = 1 then [3, 1] else [])"
  by (auto simp: fl_rep_def example_free_def dlist_def lessThan_Suc numeral_2_eq_2 split: if_splits)

lemma example_free_simps [simp]:
  "fl_count (fst example_free) = 2"
  "total_free (fst example_free) = 2"
  "slowpath_victim_idx (fst example_free) = 0"
  "pl_entries (snd example_free) = 4"
  by (simp_all add: example_free_def)

subsection \<open>Properties\<close>

text \<open>
  C19. An allocation succeeds whenever some list has a line, whatever \<^verbatim>\<open>trylock\<close>s fail and
  whichever context asks: it trips no assertion, returns the first line of one of the lists,
  unlinks exactly that line and keeps the lists and the counters consistent.
\<close>

theorem freelist_get_complete:
  assumes "fl_rep s F" and "0 < total_free (fst s)" and "ctx < fl_count (fst s)"
  shows "\<exists>x s' c. ocf_freelist_get_cache_line busy ctx s = Some (Some x, s') \<and>
    c < fl_count (fst s) \<and> F c \<noteq> [] \<and> x = hd (F c) \<and> fl_rep s' (F(c := tl (F c))) \<and>
    ocf_freelist_num_free (fst s') + 1 = ocf_freelist_num_free (fst s)"
  using get_cache_line [OF assms, of busy] unfolding fl_taken_def ocf_freelist_num_free_def by blast

theorem freelist_get_complete_witness:
  "\<exists>x s' c. ocf_freelist_get_cache_line (\<lambda>i. i < 3) 0 example_free = Some (Some x, s') \<and>
    c < fl_count (fst example_free) \<and> (if c = 1 then [3, 1 :: nat] else []) \<noteq> [] \<and>
    x = hd (if c = 1 then [3, 1] else []) \<and>
    fl_rep s' ((\<lambda>c. if c = 1 then [3, 1] else [])(c := tl (if c = 1 then [3, 1] else []))) \<and>
    ocf_freelist_num_free (fst s') + 1 = ocf_freelist_num_free (fst example_free)"
  by (rule freelist_get_complete [OF example_free_rep]) simp_all

text \<open>
  An allocation fails only when no line is free: with the counter at zero it returns false
  and changes nothing, and the counter is zero exactly when all lists are empty.
\<close>

theorem freelist_get_empty:
  assumes "fl_rep s F" and "ctx < fl_count (fst s)"
  shows "(ocf_freelist_get_cache_line busy ctx s = Some (None, s)) = (\<forall>c < fl_count (fst s). F c = [])"
proof (cases "total_free (fst s) = 0")
  case True
  then have "\<forall>c < fl_count (fst s). F c = []" using fl_rep_total [OF assms(1)] by simp
  with True show ?thesis by (simp add: ocf_freelist_get_cache_line_def)
next
  case False
  then obtain c where "c < fl_count (fst s)" "F c \<noteq> []" using fl_rep_total [OF assms(1)] by auto
  moreover obtain x s' where "ocf_freelist_get_cache_line busy ctx s = Some (Some x, s')"
    using get_cache_line [OF assms(1) _ assms(2)] False by blast
  ultimately show ?thesis by auto
qed

theorem freelist_get_empty_witness:
  "(ocf_freelist_get_cache_line (\<lambda>_. False) 0 example_free = Some (None, example_free)) =
   (\<forall>c < fl_count (fst example_free). (if c = 1 then [3, 1 :: nat] else []) = [])"
  by (rule freelist_get_empty [OF example_free_rep]) simp

text \<open>
  Giving a line back appends it to the list of the context, and it is then allocatable: the
  counter grows by one and all lists stay consistent.
\<close>

theorem freelist_put_correct:
  assumes "fl_rep s F" and "ctx < fl_count (fst s)" and "x < pl_entries (snd s)"
    and "\<forall>c < fl_count (fst s). x \<notin> set (F c)"
  shows "\<exists>s'. ocf_freelist_put_cache_line ctx x s = Some s' \<and> fl_rep s' (F(ctx := F ctx @ [x])) \<and>
    ocf_freelist_num_free (fst s') = ocf_freelist_num_free (fst s) + 1"
proof -
  obtain s' where "ocf_freelist_add_cache_line s ctx x = Some s'" "fl_rep s' (F(ctx := F ctx @ [x]))"
    "total_free (fst s') = total_free (fst s) + 1"
    by (rule freelist_add [OF assms(1,2,3)]) (use assms(4) in auto)
  then show ?thesis by (simp add: ocf_freelist_put_cache_line_def ocf_freelist_num_free_def)
qed

theorem freelist_put_correct_witness:
  "\<exists>s'. ocf_freelist_put_cache_line 0 2 example_free = Some s' \<and>
    fl_rep s' ((\<lambda>c. if c = 1 then [3, 1] else [])(0 := [2])) \<and>
    ocf_freelist_num_free (fst s') = ocf_freelist_num_free (fst example_free) + 1"
  using freelist_put_correct [OF example_free_rep, of 0 2] by simp

text \<open>
  Filling the free lists from the lines without valid sectors, of which there are
  \<open>num_free_clines\<close>, trips no assertion; the lists together hold each of these lines exactly once,
  in physical order, and the sizes of two lists differ by at most one.
\<close>

theorem freelist_populate_correct:
  assumes "pl_entries (snd s) < U32_MOD" and "slowpath_victim_idx (fst s) < fl_count (fst s)"
    and "bij_betw phy2lg {..<pl_entries (snd s)} {..<pl_entries (snd s)}"
    and "num = length (free_from phy2lg valid_any (pl_entries (snd s)) 0)"
  shows "\<exists>s' F. ocf_freelist_populate phy2lg valid_any num s = Some s' \<and> fl_rep s' F \<and>
    concat (map F [0..<fl_count (fst s)]) = free_from phy2lg valid_any (pl_entries (snd s)) 0 \<and>
    (\<forall>c d. c < fl_count (fst s) \<and> d < fl_count (fst s) \<longrightarrow> length (F c) \<le> length (F d) + 1)"
proof -
  let ?xs = "free_from phy2lg valid_any (pl_entries (snd s)) 0" and ?cnt = "fl_count (fst s)"
  have cnt: "0 < ?cnt" using assms(2) by simp
  obtain s' where "ocf_freelist_populate phy2lg valid_any num s = Some s'" "fl_rep s' (pop_list ?xs ?cnt)"
    using populate_rep [OF assms(1-3) refl, of valid_any] assms(4) by blast
  moreover have "length (pop_list ?xs ?cnt c) \<le> length (pop_list ?xs ?cnt d) + 1" if "c < ?cnt" "d < ?cnt" for c d
    using that pop_list_length [OF cnt] by (simp add: pop_size_def)
  ultimately show ?thesis using pop_list_all [OF cnt, of ?xs] by blast
qed

theorem freelist_populate_correct_witness:
  "\<exists>s' F. ocf_freelist_populate (\<lambda>p. p) (\<lambda>x. x = 1) 3 example_free = Some s' \<and> fl_rep s' F \<and>
    concat (map F [0..<fl_count (fst example_free)]) =
      free_from (\<lambda>p. p) (\<lambda>x. x = 1) (pl_entries (snd example_free)) 0 \<and>
    (\<forall>c d. c < fl_count (fst example_free) \<and> d < fl_count (fst example_free) \<longrightarrow>
       length (F c) \<le> length (F d) + 1)"
  by (rule freelist_populate_correct) (simp_all add: bij_betw_def free_from_def upt_conv_Cons)

end
