(* ===== verification/LRU.thy ===== *)
theory LRU
  imports LineLists
begin

section \<open>The LRU lists\<close>

text \<open>
  Model of the list operations of \<^verbatim>\<open>src/eviction/lru.c\<close>. Every partition has two doubly linked
  lists of cache lines, one for lines without and one for lines with dirty sectors, most
  recently used line first. The functions that read the partition and the dirty state of a
  line from other components, or evict lines, are in theory \<open>CacheLine\<close>.
\<close>

subsection \<open>State and operations\<close>

record lru_policy =
  has_clean_nodes :: bool
  has_dirty_nodes :: bool
  dirty_head :: cline
  dirty_tail :: cline
  clean_head :: cline
  clean_tail :: cline

record lru_state =
  lru_entries :: nat
  lru_next :: "cline \<Rightarrow> cline"
  lru_prev :: "cline \<Rightarrow> cline"
  lru_pol :: "part_id \<Rightarrow> lru_policy"

text \<open>The eviction metadata of a line is read and written as a whole: next and previous line.\<close>

definition ocf_metadata_get_evicition_policy :: "lru_state \<Rightarrow> cline \<Rightarrow> (cline \<times> cline) option" where
  "ocf_metadata_get_evicition_policy ls line = do {
     bug_on (line \<ge> lru_entries ls);
     Some (lru_next ls line, lru_prev ls line) }"

definition ocf_metadata_set_evicition_policy :: "lru_state \<Rightarrow> cline \<Rightarrow> cline \<times> cline \<Rightarrow> lru_state option" where
  "ocf_metadata_set_evicition_policy ls line ev = do {
     bug_on (line \<ge> lru_entries ls);
     Some (ls\<lparr>lru_next := (lru_next ls)(line := fst ev), lru_prev := (lru_prev ls)(line := snd ev)\<rparr>) }"

definition upd_pol :: "part_id \<Rightarrow> (lru_policy \<Rightarrow> lru_policy) \<Rightarrow> lru_state \<Rightarrow> lru_state" where
  "upd_pol p f ls = ls\<lparr>lru_pol := (lru_pol ls)(p := f (lru_pol ls p))\<rparr>"

definition update_lru_head :: "lru_state \<Rightarrow> part_id \<Rightarrow> cline \<Rightarrow> bool \<Rightarrow> lru_state" where
  "update_lru_head ls p idx cline_dirty =
     (if cline_dirty then upd_pol p (\<lambda>l. l\<lparr>dirty_head := idx\<rparr>) ls
      else upd_pol p (\<lambda>l. l\<lparr>clean_head := idx\<rparr>) ls)"

definition update_lru_tail :: "lru_state \<Rightarrow> part_id \<Rightarrow> cline \<Rightarrow> bool \<Rightarrow> lru_state" where
  "update_lru_tail ls p idx cline_dirty =
     (if cline_dirty then upd_pol p (\<lambda>l. l\<lparr>dirty_tail := idx\<rparr>) ls
      else upd_pol p (\<lambda>l. l\<lparr>clean_tail := idx\<rparr>) ls)"

definition update_lru_head_tail :: "lru_state \<Rightarrow> part_id \<Rightarrow> cline \<Rightarrow> bool \<Rightarrow> lru_state" where
  "update_lru_head_tail ls p idx cline_dirty =
     update_lru_tail (update_lru_head ls p idx cline_dirty) p idx cline_dirty"

definition set_has_nodes :: "lru_state \<Rightarrow> part_id \<Rightarrow> bool \<Rightarrow> bool \<Rightarrow> lru_state" where
  "set_has_nodes ls p cline_dirty b =
     (if cline_dirty then upd_pol p (\<lambda>l. l\<lparr>has_dirty_nodes := b\<rparr>) ls
      else upd_pol p (\<lambda>l. l\<lparr>has_clean_nodes := b\<rparr>) ls)"

definition add_lru_head :: "lru_state \<Rightarrow> part_id \<Rightarrow> cline \<Rightarrow> bool \<Rightarrow> lru_state option" where
  "add_lru_head ls p idx cline_dirty = do {
     let entries = lru_entries ls;
     bug_on (\<not> idx < entries);
     eviction \<leftarrow> ocf_metadata_get_evicition_policy ls idx;
     if (cline_dirty \<and> \<not> has_dirty_nodes (lru_pol ls p)) \<or>
        (\<not> cline_dirty \<and> \<not> has_clean_nodes (lru_pol ls p)) then do {
       let ls = update_lru_head_tail ls p idx cline_dirty;
       let ls = set_has_nodes ls p cline_dirty True;
       ocf_metadata_set_evicition_policy ls idx (entries, entries) }
     else do {
       let curr_head_index = (if cline_dirty then dirty_head (lru_pol ls p) else clean_head (lru_pol ls p));
       bug_on (\<not> curr_head_index < entries);
       eviction_curr \<leftarrow> ocf_metadata_get_evicition_policy ls curr_head_index;
       let ls = update_lru_head ls p idx cline_dirty;
       ls \<leftarrow> ocf_metadata_set_evicition_policy ls curr_head_index (fst eviction_curr, idx);
       ocf_metadata_set_evicition_policy ls idx (curr_head_index, entries) } }"

definition remove_lru_list :: "lru_state \<Rightarrow> part_id \<Rightarrow> cline \<Rightarrow> bool \<Rightarrow> lru_state option" where
  "remove_lru_list ls p idx cline_dirty = do {
     let entries = lru_entries ls;
     bug_on (\<not> idx < entries);
     (next_lru_node, prev_lru_node) \<leftarrow> ocf_metadata_get_evicition_policy ls idx;
     let is_clean_head = (clean_head (lru_pol ls p) = idx);
     let is_dirty_head = (dirty_head (lru_pol ls p) = idx);
     let is_clean_tail = (clean_tail (lru_pol ls p) = idx);
     let is_dirty_tail = (dirty_tail (lru_pol ls p) = idx);
     bug_on ((is_clean_tail \<or> is_clean_head) \<and> (is_dirty_tail \<or> is_dirty_head));
     if (is_clean_head \<and> is_clean_tail) \<or> (is_dirty_head \<and> is_dirty_tail) then do {
       let ls = update_lru_head_tail ls p entries cline_dirty;
       let ls = set_has_nodes ls p cline_dirty False;
       ls \<leftarrow> ocf_metadata_set_evicition_policy ls idx (entries, entries);
       Some (update_lru_head_tail ls p entries cline_dirty) }
     else if (\<not> is_clean_tail \<and> is_clean_head) \<or> (\<not> is_dirty_tail \<and> is_dirty_head) then do {
       bug_on (\<not> next_lru_node < entries);
       eviction_next \<leftarrow> ocf_metadata_get_evicition_policy ls next_lru_node;
       let ls = update_lru_head ls p next_lru_node cline_dirty;
       ls \<leftarrow> ocf_metadata_set_evicition_policy ls idx (entries, prev_lru_node);
       ocf_metadata_set_evicition_policy ls next_lru_node (fst eviction_next, entries) }
     else if (is_clean_tail \<and> \<not> is_clean_head) \<or> (is_dirty_tail \<and> \<not> is_dirty_head) then do {
       bug_on (\<not> prev_lru_node < entries);
       let ls = update_lru_tail ls p prev_lru_node cline_dirty;
       eviction_prev \<leftarrow> ocf_metadata_get_evicition_policy ls prev_lru_node;
       ls \<leftarrow> ocf_metadata_set_evicition_policy ls idx (next_lru_node, entries);
       ocf_metadata_set_evicition_policy ls prev_lru_node (entries, snd eviction_prev) }
     else do {
       bug_on (\<not> next_lru_node < entries);
       bug_on (\<not> prev_lru_node < entries);
       eviction_next \<leftarrow> ocf_metadata_get_evicition_policy ls next_lru_node;
       eviction_prev \<leftarrow> ocf_metadata_get_evicition_policy ls prev_lru_node;
       ls \<leftarrow> ocf_metadata_set_evicition_policy ls idx (entries, entries);
       ls \<leftarrow> ocf_metadata_set_evicition_policy ls next_lru_node (fst eviction_next, prev_lru_node);
       ocf_metadata_set_evicition_policy ls prev_lru_node (next_lru_node, snd eviction_prev) } }"

definition evp_lru_init_cline :: "lru_state \<Rightarrow> cline \<Rightarrow> lru_state option" where
  "evp_lru_init_cline ls cline = do {
     eviction \<leftarrow> ocf_metadata_get_evicition_policy ls cline;
     ocf_metadata_set_evicition_policy ls cline (lru_entries ls, lru_entries ls) }"

definition evp_lru_init_evp :: "lru_state \<Rightarrow> part_id \<Rightarrow> lru_state" where
  "evp_lru_init_evp ls p =
     upd_pol p (\<lambda>_. \<lparr>has_clean_nodes = False, has_dirty_nodes = False,
       dirty_head = lru_entries ls, dirty_tail = lru_entries ls,
       clean_head = lru_entries ls, clean_tail = lru_entries ls\<rparr>) ls"

definition evp_lru_clean_cline :: "lru_state \<Rightarrow> part_id \<Rightarrow> cline \<Rightarrow> lru_state option" where
  "evp_lru_clean_cline ls p cline = do {
     ls \<leftarrow> remove_lru_list ls p cline True;
     add_lru_head ls p cline False }"

definition evp_lru_dirty_cline :: "lru_state \<Rightarrow> part_id \<Rightarrow> cline \<Rightarrow> lru_state option" where
  "evp_lru_dirty_cline ls p cline = do {
     ls \<leftarrow> remove_lru_list ls p cline False;
     add_lru_head ls p cline True }"

lemmas lru_access_defs [ocf_defs] =
  ocf_metadata_get_evicition_policy_def ocf_metadata_set_evicition_policy_def upd_pol_def
  update_lru_head_def update_lru_tail_def update_lru_head_tail_def set_has_nodes_def

subsection \<open>Invariant\<close>

text \<open>
  \<open>lru_rep ls L\<close>: the list of partition \<open>p\<close> for clean (\<open>d = False\<close>) or dirty (\<open>d = True\<close>) lines is
  \<open>L p d\<close>, and no line is in two lists.
\<close>

definition pol_ok :: "nat \<Rightarrow> lru_policy \<Rightarrow> (bool \<Rightarrow> cline list) \<Rightarrow> bool" where
  "pol_ok n l xs \<longleftrightarrow>
     clean_head l = hd_or n (xs False) \<and> clean_tail l = last_or n (xs False) \<and>
     dirty_head l = hd_or n (xs True) \<and> dirty_tail l = last_or n (xs True) \<and>
     has_clean_nodes l = (xs False \<noteq> []) \<and> has_dirty_nodes l = (xs True \<noteq> [])"

definition lru_rep :: "lru_state \<Rightarrow> (part_id \<Rightarrow> bool \<Rightarrow> cline list) \<Rightarrow> bool" where
  "lru_rep ls L \<longleftrightarrow>
     (\<forall>p < OCF_IO_CLASS_MAX. pol_ok (lru_entries ls) (lru_pol ls p) (L p) \<and>
        (\<forall>d. dlist (lru_entries ls) (lru_next ls) (lru_prev ls) (L p d))) \<and>
     (\<forall>p < OCF_IO_CLASS_MAX. \<forall>q < OCF_IO_CLASS_MAX. \<forall>d e. (p, d) \<noteq> (q, e) \<longrightarrow> set (L p d) \<inter> set (L q e) = {})"

lemma lru_repD:
  assumes "lru_rep ls L" and "p < OCF_IO_CLASS_MAX"
  shows "pol_ok (lru_entries ls) (lru_pol ls p) (L p)"
    and "dlist (lru_entries ls) (lru_next ls) (lru_prev ls) (L p d)"
    and "q < OCF_IO_CLASS_MAX \<Longrightarrow> (q, e) \<noteq> (p, d) \<Longrightarrow> set (L q e) \<inter> set (L p d) = {}"
  using assms unfolding lru_rep_def by blast+

definition lru_upd :: "(part_id \<Rightarrow> bool \<Rightarrow> cline list) \<Rightarrow> part_id \<Rightarrow> bool \<Rightarrow> cline list \<Rightarrow> part_id \<Rightarrow> bool \<Rightarrow> cline list" where
  "lru_upd L p d xs = L(p := (L p)(d := xs))"

lemma lru_upd_simps [simp]:
  "lru_upd L p d xs p d = xs"
  "(q, e) \<noteq> (p, d) \<Longrightarrow> lru_upd L p d xs q e = L q e"
  by (auto simp: lru_upd_def)

lemma lru_upd_rep:
  assumes rep: "lru_rep ls L" and p: "p < OCF_IO_CLASS_MAX"
    and n: "lru_entries ls' = lru_entries ls"
    and pol: "\<And>q. q \<noteq> p \<Longrightarrow> lru_pol ls' q = lru_pol ls q"
      "pol_ok (lru_entries ls) (lru_pol ls' p) ((L p)(d := xs))"
    and xs: "dlist (lru_entries ls) (lru_next ls') (lru_prev ls') xs"
    and others: "\<And>q e. q < OCF_IO_CLASS_MAX \<Longrightarrow> (q, e) \<noteq> (p, d) \<Longrightarrow>
        dlist (lru_entries ls) (lru_next ls') (lru_prev ls') (L q e) \<and> set (L q e) \<inter> set xs = {}"
  shows "lru_rep ls' (lru_upd L p d xs)"
  unfolding lru_rep_def n
proof (intro conjI allI impI)
  fix q assume q: "q < OCF_IO_CLASS_MAX"
  show "pol_ok (lru_entries ls) (lru_pol ls' q) (lru_upd L p d xs q)"
    using pol lru_repD(1) [OF rep q] by (cases "q = p") (auto simp: lru_upd_def)
next
  fix q :: part_id and e :: bool assume q: "q < OCF_IO_CLASS_MAX"
  show "dlist (lru_entries ls) (lru_next ls') (lru_prev ls') (lru_upd L p d xs q e)"
    using xs others [OF q, of e] by (cases "(q, e) = (p, d)") auto
next
  fix q r :: part_id and e f :: bool
  assume "q < OCF_IO_CLASS_MAX" "r < OCF_IO_CLASS_MAX" "(q, e) \<noteq> (r, f)"
  then show "set (lru_upd L p d xs q e) \<inter> set (lru_upd L p d xs r f) = {}"
    using others [of q e] others [of r f] lru_repD(3) [OF rep, of r q e f]
    by (cases "(q, e) = (p, d)"; cases "(r, f) = (p, d)") auto
qed

subsection \<open>Adding a line\<close>

lemma add_lru_head_rep:
  assumes rep: "lru_rep ls L" and p: "p < OCF_IO_CLASS_MAX"
    and x: "x < lru_entries ls" "\<And>q e. q < OCF_IO_CLASS_MAX \<Longrightarrow> x \<notin> set (L q e)"
  obtains ls' where "add_lru_head ls p x d = Some ls'" and "lru_rep ls' (lru_upd L p d (x # L p d))"
    and "lru_entries ls' = lru_entries ls"
    and "\<And>y. y \<notin> insert x (set (L p d)) \<Longrightarrow> lru_next ls' y = lru_next ls y \<and> lru_prev ls' y = lru_prev ls y"
proof -
  let ?n = "lru_entries ls" and ?xs = "L p d"
  note pol = lru_repD(1) [OF rep p] and dl = lru_repD(2) [OF rep p, of d]
  define nx where "nx = (lru_next ls)(x := hd_or ?n ?xs)"
  define pv where "pv = (if ?xs = [] then (lru_prev ls)(x := ?n) else ((lru_prev ls)(x := ?n))(hd ?xs := x))"
  have x_notin: "x \<notin> set ?xs" using x(2) [OF p] .
  have h: "?xs \<noteq> [] \<Longrightarrow> hd_or ?n ?xs = hd ?xs \<and> hd ?xs < ?n \<and> hd ?xs \<noteq> x"
    using dlist_hd_less [OF dl] x_notin hd_in_set by (fastforce simp: hd_or_conv)
  have "\<exists>ls'. add_lru_head ls p x d = Some ls' \<and> lru_entries ls' = ?n \<and> lru_next ls' = nx \<and> lru_prev ls' = pv \<and>
    (\<forall>q. q \<noteq> p \<longrightarrow> lru_pol ls' q = lru_pol ls q) \<and> pol_ok ?n (lru_pol ls' p) ((L p)(d := x # ?xs))"
  proof (cases "?xs = []")
    case True
    then show ?thesis using x pol
      by (cases d) (simp_all add: add_lru_head_def lru_access_defs pol_ok_def nx_def pv_def Let_def)
  next
    case False
    then have t: "last_or ?n (x # ?xs) = last_or ?n ?xs" by (simp add: last_or_def)
    have twist: "((lru_next ls)(hd ?xs := lru_next ls (hd ?xs)))(x := hd ?xs) = nx"
      "((lru_prev ls)(hd ?xs := x))(x := ?n) = pv"
      using h False by (auto simp: nx_def pv_def fun_eq_iff)
    show ?thesis using x pol False h t twist
      by (cases d) (simp_all add: add_lru_head_def lru_access_defs pol_ok_def Let_def)
  qed
  then obtain ls' where a: "add_lru_head ls p x d = Some ls'" "lru_entries ls' = ?n" "lru_next ls' = nx" "lru_prev ls' = pv"
    "\<forall>q. q \<noteq> p \<longrightarrow> lru_pol ls' q = lru_pol ls q" "pol_ok ?n (lru_pol ls' p) ((L p)(d := x # ?xs))" by blast
  have "lru_rep ls' (lru_upd L p d (x # ?xs))"
  proof (rule lru_upd_rep [OF rep p a(2) _ a(6)])
    show "dlist ?n (lru_next ls') (lru_prev ls') (x # ?xs)"
      unfolding a(3,4) nx_def pv_def by (rule dlist_front_code [OF dl x(1) x_notin])
    show "dlist ?n (lru_next ls') (lru_prev ls') (L q e) \<and> set (L q e) \<inter> set (x # ?xs) = {}"
      if q: "q < OCF_IO_CLASS_MAX" "(q, e) \<noteq> (p, d)" for q e
    proof -
      have "set (L q e) \<inter> insert x (set ?xs) = {}"
        using lru_repD(3) [OF rep p q] x(2) [OF q(1)] by simp
      then show ?thesis
        unfolding a(3,4) nx_def pv_def
        using dlist_front_other_code lru_repD(2) [OF rep q(1)] by simp
    qed
  qed (use a(5) in simp)
  moreover have "lru_next ls' y = lru_next ls y \<and> lru_prev ls' y = lru_prev ls y" if "y \<notin> insert x (set ?xs)" for y
    using that hd_in_set [of ?xs] unfolding a(3,4) nx_def pv_def by auto
  ultimately show thesis using a(1,2) that by blast
qed

subsection \<open>Removing a line\<close>

text \<open>A line of one list is neither head nor tail of the other list of its partition.\<close>

lemma pol_other:
  assumes rep: "lru_rep ls L" and p: "p < OCF_IO_CLASS_MAX" and x: "x \<in> set (L p d)"
  shows "hd_or (lru_entries ls) (L p (\<not> d)) \<noteq> x" and "last_or (lru_entries ls) (L p (\<not> d)) \<noteq> x"
proof -
  have "x < lru_entries ls" using dlistD(2) [OF lru_repD(2) [OF rep p] x] .
  moreover have "x \<notin> set (L p (\<not> d))" using lru_repD(3) [OF rep p p, of "\<not> d" d] x by auto
  ultimately show "hd_or (lru_entries ls) (L p (\<not> d)) \<noteq> x" "last_or (lru_entries ls) (L p (\<not> d)) \<noteq> x"
    using hd_or_cases [of "lru_entries ls" "L p (\<not> d)"] last_or_cases [of "lru_entries ls" "L p (\<not> d)"]
    by (metis less_irrefl)+
qed

lemma remove_lru_list_links:
  assumes rep: "lru_rep ls L" and p: "p < OCF_IO_CLASS_MAX" and sp: "L p d = as @ x # bs"
  shows "\<exists>ls'. remove_lru_list ls p x d = Some ls' \<and> lru_entries ls' = lru_entries ls \<and>
    lru_next ls' = (if as \<noteq> [] then (lru_next ls)(lru_prev ls x := lru_next ls x) else lru_next ls)(x := lru_entries ls) \<and>
    lru_prev ls' = (if bs \<noteq> [] then (lru_prev ls)(lru_next ls x := lru_prev ls x) else lru_prev ls)(x := lru_entries ls) \<and>
    (\<forall>q. q \<noteq> p \<longrightarrow> lru_pol ls' q = lru_pol ls q) \<and>
    pol_ok (lru_entries ls) (lru_pol ls' p) ((L p)(d := as @ bs))"
proof -
  let ?n = "lru_entries ls"
  note pol = lru_repD(1) [OF rep p]
  have dl: "dlist ?n (lru_next ls) (lru_prev ls) (as @ x # bs)" using lru_repD(2) [OF rep p, of d] sp by simp
  note null = dlist_links_null [OF dl] and neq = dlist_links_neq [OF dl]
  note link = dseg_node [OF dlistD(3) [OF dl]]
  have x: "x < ?n" "x \<notin> set as" "x \<notin> set bs" using dlistD(1,2) [OF dl] by auto
  have other: "hd_or ?n (L p (\<not> d)) \<noteq> x" "last_or ?n (L p (\<not> d)) \<noteq> x"
    using pol_other [OF rep p, of x d] sp by auto
  have hd: "(hd_or ?n (as @ x # bs) = x) = (as = [])" using x by (cases as) auto
  have tl: "(last_or ?n (as @ x # bs) = x) = (bs = [])" using x by (cases bs rule: rev_cases) auto
  have flags: "(clean_head (lru_pol ls p) = x) = (\<not> d \<and> as = [])" "(clean_tail (lru_pol ls p) = x) = (\<not> d \<and> bs = [])"
    "(dirty_head (lru_pol ls p) = x) = (d \<and> as = [])" "(dirty_tail (lru_pol ls p) = x) = (d \<and> bs = [])"
    using pol sp hd tl other by (cases d; simp add: pol_ok_def)+
  show ?thesis
  proof (cases "as = []"; cases "bs = []")
    assume "as = []" "bs = []"
    then show ?thesis using sp x flags pol
      by (cases d) (simp_all add: remove_lru_list_def lru_access_defs pol_ok_def Let_def)
  next
    assume ab: "as = []" "bs \<noteq> []"
    then have lk: "lru_prev ls x = ?n" "lru_next ls x < ?n" "lru_next ls x = hd_or ?n bs" using null link by auto
    have fe: "((lru_next ls)(x := ?n))(lru_next ls x := lru_next ls (lru_next ls x)) = (lru_next ls)(x := ?n)"
      "((lru_prev ls)(x := lru_prev ls x))(lru_next ls x := ?n) = ((lru_prev ls)(lru_next ls x := lru_prev ls x))(x := ?n)"
      using neq lk by (auto simp: fun_eq_iff)
    have "last_or ?n (as @ bs) = last_or ?n (as @ x # bs)" using ab by (simp add: last_or_def)
    then have "pol_ok ?n (lru_pol (update_lru_head ls p (lru_next ls x) d) p) ((L p)(d := as @ bs))"
      using pol sp ab lk by (cases d) (simp_all add: pol_ok_def lru_access_defs)
    then show ?thesis using x flags ab lk fe neq
      by (simp add: remove_lru_list_def lru_access_defs Let_def split: if_splits)
  next
    assume ab: "as \<noteq> []" "bs = []"
    then have lk: "lru_next ls x = ?n" "lru_prev ls x < ?n" "lru_prev ls x = last_or ?n as" using null link by auto
    have fe: "((lru_next ls)(x := lru_next ls x))(lru_prev ls x := ?n) = ((lru_next ls)(lru_prev ls x := lru_next ls x))(x := ?n)"
      "((lru_prev ls)(x := ?n))(lru_prev ls x := lru_prev ls (lru_prev ls x)) = (lru_prev ls)(x := ?n)"
      using neq lk by (auto simp: fun_eq_iff)
    have "hd_or ?n (as @ bs) = hd_or ?n (as @ x # bs)" using ab by (simp add: hd_or_conv)
    then have "pol_ok ?n (lru_pol (update_lru_tail ls p (lru_prev ls x) d) p) ((L p)(d := as @ bs))"
      using pol sp ab lk by (cases d) (simp_all add: pol_ok_def lru_access_defs)
    then show ?thesis using x flags ab lk fe neq
      by (simp add: remove_lru_list_def lru_access_defs Let_def split: if_splits)
  next
    assume ab: "as \<noteq> []" "bs \<noteq> []"
    then have lk: "lru_prev ls x < ?n" "lru_next ls x < ?n" using null by auto
    have diff: "lru_prev ls x \<noteq> lru_next ls x"
      using link ab dlistD(1) [OF dl] by (auto simp: last_or_def hd_or_conv dest: last_in_set hd_in_set)
    have fe: "((lru_next ls)(x := ?n, lru_next ls x := lru_next ls (lru_next ls x)))(lru_prev ls x := lru_next ls x) =
        ((lru_next ls)(lru_prev ls x := lru_next ls x))(x := ?n)"
      "((lru_prev ls)(x := ?n, lru_next ls x := lru_prev ls x))(lru_prev ls x := lru_prev ls (lru_prev ls x)) =
        ((lru_prev ls)(lru_next ls x := lru_prev ls x))(x := ?n)"
      using neq diff by (auto simp: fun_eq_iff)
    have "hd_or ?n (as @ bs) = hd_or ?n (as @ x # bs)" "last_or ?n (as @ bs) = last_or ?n (as @ x # bs)"
      using ab by (simp_all add: hd_or_conv last_or_def)
    then have "pol_ok ?n (lru_pol ls p) ((L p)(d := as @ bs))"
      using pol sp ab by (cases d) (simp_all add: pol_ok_def)
    then show ?thesis using x flags ab lk fe
      by (simp add: remove_lru_list_def lru_access_defs Let_def split: if_splits)
  qed
qed

lemma remove_lru_list_rep:
  assumes rep: "lru_rep ls L" and p: "p < OCF_IO_CLASS_MAX" and x: "x \<in> set (L p d)"
  obtains ls' where "remove_lru_list ls p x d = Some ls'" and "lru_rep ls' (lru_upd L p d (remove1 x (L p d)))"
    and "lru_entries ls' = lru_entries ls" and "lru_next ls' x = lru_entries ls" and "lru_prev ls' x = lru_entries ls"
proof -
  let ?n = "lru_entries ls"
  note dl0 = lru_repD(2) [OF rep p, of d]
  obtain as bs where sp: "L p d = as @ x # bs" "x \<notin> set as" "x \<notin> set bs"
    and dl: "dlist ?n (lru_next ls) (lru_prev ls) (as @ x # bs)" by (rule dlist_split [OF dl0 x])
  have r: "remove1 x (L p d) = as @ bs" using sp by (simp add: remove1_append)
  from remove_lru_list_links [OF rep p sp(1)] obtain ls' where
    a: "remove_lru_list ls p x d = Some ls'" "lru_entries ls' = ?n"
      "lru_next ls' = (if as \<noteq> [] then (lru_next ls)(lru_prev ls x := lru_next ls x) else lru_next ls)(x := ?n)"
      "lru_prev ls' = (if bs \<noteq> [] then (lru_prev ls)(lru_next ls x := lru_prev ls x) else lru_prev ls)(x := ?n)"
      "\<forall>q. q \<noteq> p \<longrightarrow> lru_pol ls' q = lru_pol ls q" "pol_ok ?n (lru_pol ls' p) ((L p)(d := as @ bs))" by blast
  have "lru_rep ls' (lru_upd L p d (as @ bs))"
  proof (rule lru_upd_rep [OF rep p a(2) _ a(6)])
    show "dlist ?n (lru_next ls') (lru_prev ls') (as @ bs)"
      unfolding a(3,4) by (rule dlist_unlink_code [OF dl])
    show "dlist ?n (lru_next ls') (lru_prev ls') (L q e) \<and> set (L q e) \<inter> set (as @ bs) = {}"
      if q: "q < OCF_IO_CLASS_MAX" "(q, e) \<noteq> (p, d)" for q e
    proof -
      have dj: "set (L q e) \<inter> set (as @ x # bs) = {}" using lru_repD(3) [OF rep p q] sp(1) by simp
      then show ?thesis
        unfolding a(3,4) using dlist_unlink_other_code [OF dl dj] lru_repD(2) [OF rep q(1)] by auto
    qed
  qed (use a(5) in simp)
  with a r show thesis by (intro that [of ls']) simp_all
qed

subsection \<open>The lists as a family\<close>

definition lru_ok :: "lru_state \<Rightarrow> (part_id \<times> bool \<Rightarrow> cline list) \<Rightarrow> bool" where
  "lru_ok ls L \<longleftrightarrow> lru_rep ls (\<lambda>p d. L (p, d))"

definition lru_line :: "lru_state \<Rightarrow> cline \<Rightarrow> bool" where
  "lru_line ls x = (x < lru_entries ls)"

definition lru_add :: "lru_state \<Rightarrow> part_id \<times> bool \<Rightarrow> cline \<Rightarrow> lru_state option" where
  "lru_add ls i x = add_lru_head ls (fst i) x (snd i)"

definition lru_rem :: "lru_state \<Rightarrow> part_id \<times> bool \<Rightarrow> cline \<Rightarrow> lru_state option" where
  "lru_rem ls i x = remove_lru_list ls (fst i) x (snd i)"

lemma lru_upd_pair: "lru_upd (\<lambda>p d. L (p, d)) p d xs = (\<lambda>q e. (L((p, d) := xs)) (q, e))"
  by (auto simp: lru_upd_def fun_eq_iff)

interpretation lru_lists:
  line_lists lru_ok "\<lambda>i. fst i < OCF_IO_CLASS_MAX" lru_line lru_add lru_rem
proof
  fix ls and L :: "part_id \<times> bool \<Rightarrow> cline list" and i :: "part_id \<times> bool" and x
  assume rep: "lru_ok ls L" and i: "fst i < OCF_IO_CLASS_MAX" and x: "lru_line ls x"
    and new: "\<And>j :: part_id \<times> bool. fst j < OCF_IO_CLASS_MAX \<Longrightarrow> x \<notin> set (L j)"
  obtain ls' where "add_lru_head ls (fst i) x (snd i) = Some ls'"
      "lru_rep ls' (lru_upd (\<lambda>p d. L (p, d)) (fst i) (snd i) (x # L (fst i, snd i)))" "lru_entries ls' = lru_entries ls"
    by (rule add_lru_head_rep [of ls "\<lambda>p d. L (p, d)" "fst i" x "snd i"])
      (use rep i x new in \<open>auto simp: lru_ok_def lru_line_def\<close>)
  then show "\<exists>s'. lru_add ls i x = Some s' \<and> lru_ok s' (L(i := x # L i)) \<and> lru_line s' = lru_line ls"
    by (auto simp: lru_ok_def lru_line_def lru_add_def lru_upd_pair)
next
  fix ls and L :: "part_id \<times> bool \<Rightarrow> cline list" and i :: "part_id \<times> bool" and x
  assume rep: "lru_ok ls L" and i: "fst i < OCF_IO_CLASS_MAX" and x: "x \<in> set (L i)"
  obtain ls' where "remove_lru_list ls (fst i) x (snd i) = Some ls'"
      "lru_rep ls' (lru_upd (\<lambda>p d. L (p, d)) (fst i) (snd i) (remove1 x (L (fst i, snd i))))" "lru_entries ls' = lru_entries ls"
    by (rule remove_lru_list_rep [of ls "\<lambda>p d. L (p, d)" "fst i" x "snd i"])
      (use rep i x in \<open>auto simp: lru_ok_def\<close>)
  then show "\<exists>s'. lru_rem ls i x = Some s' \<and> lru_ok s' (L(i := remove1 x (L i))) \<and> lru_line s' = lru_line ls"
    by (auto simp: lru_ok_def lru_line_def lru_rem_def lru_upd_pair)
next
  fix ls and L :: "part_id \<times> bool \<Rightarrow> cline list" and i j :: "part_id \<times> bool"
  assume "lru_ok ls L" "fst i < OCF_IO_CLASS_MAX" "fst j < OCF_IO_CLASS_MAX" "i \<noteq> j"
  then show "set (L i) \<inter> set (L j) = {}"
    using lru_repD(3) [of ls "\<lambda>p d. L (p, d)" "fst j" "fst i" "snd i" "snd j"]
    by (auto simp: lru_ok_def prod_eq_iff)
next
  fix ls and L :: "part_id \<times> bool \<Rightarrow> cline list" and i :: "part_id \<times> bool" and x
  assume "lru_ok ls L" "fst i < OCF_IO_CLASS_MAX"
  then have "dlist (lru_entries ls) (lru_next ls) (lru_prev ls) (L i)"
    using lru_repD(2) [of ls "\<lambda>p d. L (p, d)" "fst i" "snd i"] by (simp add: lru_ok_def)
  then show "distinct (L i)" and "x \<in> set (L i) \<Longrightarrow> lru_line ls x"
    using dlistD(1,2) by (auto simp: lru_line_def)
qed

lemma lru_line_eq: "lru_line s = lru_line t \<Longrightarrow> lru_entries s = lru_entries t"
  by (metis (full_types) lru_line_def less_irrefl linorder_neqE_nat)

lemma lru_move:
  assumes rep: "lru_rep ls L" and p: "p < OCF_IO_CLASS_MAX" and z: "z \<in> set (L p (\<not> d))"
  shows "\<exists>ls'. (remove_lru_list ls p z (\<not> d) \<bind> (\<lambda>ls. add_lru_head ls p z d)) = Some ls' \<and>
    lru_rep ls' (lru_upd (lru_upd L p (\<not> d) (remove1 z (L p (\<not> d)))) p d (z # L p d)) \<and>
    lru_entries ls' = lru_entries ls"
proof -
  let ?L = "\<lambda>i. L (fst i) (snd i)"
  let ?L' = "?L((p, \<not> d) := remove1 z (?L (p, \<not> d)))"
  have ok: "lru_ok ls ?L" using rep by (simp add: lru_ok_def)
  obtain ls' where ls': "(lru_rem ls (p, \<not> d) z \<bind> (\<lambda>ls. lru_add ls (p, d) z)) = Some ls'"
    "lru_ok ls' (?L'((p, d) := z # ?L' (p, d)))" "lru_line ls' = lru_line ls"
    using lru_lists.move [OF ok, of "(p, \<not> d)" "(p, d)" z] p z by auto
  have "(\<lambda>q e. (?L'((p, d) := z # ?L' (p, d))) (q, e)) =
      lru_upd (lru_upd L p (\<not> d) (remove1 z (L p (\<not> d)))) p d (z # L p d)"
    by (simp add: lru_upd_def fun_eq_iff)
  with ls' lru_line_eq [OF ls'(3)] show ?thesis unfolding lru_ok_def lru_rem_def lru_add_def by auto
qed

lemma evp_lru_init_evp_rep:
  assumes rep: "lru_rep ls L" and p: "p < OCF_IO_CLASS_MAX"
  shows "lru_rep (evp_lru_init_evp ls p) (L(p := (\<lambda>_. [])))"
  using rep unfolding lru_rep_def evp_lru_init_evp_def upd_pol_def
  by (auto simp: pol_ok_def)

text \<open>A cache of four lines: partition 1 has the clean lines 0 and 2 and the dirty line 3, partition 2 only the clean line 1.\<close>

definition example_lru :: lru_state where
  "example_lru = \<lparr>lru_entries = 4, lru_next = (\<lambda>x. if x = 0 then 2 else 4), lru_prev = (\<lambda>x. if x = 2 then 0 else 4),
     lru_pol = (\<lambda>p. if p = 1
       then \<lparr>has_clean_nodes = True, has_dirty_nodes = True, dirty_head = 3, dirty_tail = 3, clean_head = 0, clean_tail = 2\<rparr>
       else if p = 2 then \<lparr>has_clean_nodes = True, has_dirty_nodes = False, dirty_head = 4, dirty_tail = 4, clean_head = 1, clean_tail = 1\<rparr>
       else \<lparr>has_clean_nodes = False, has_dirty_nodes = False, dirty_head = 4, dirty_tail = 4, clean_head = 4, clean_tail = 4\<rparr>)\<rparr>"

definition example_lists :: "part_id \<Rightarrow> bool \<Rightarrow> cline list" where
  "example_lists p d = (if p = 1 then if d then [3] else [0, 2] else if p = 2 \<and> \<not> d then [1] else [])"

lemma example_lru_rep: "lru_rep example_lru example_lists"
  by (auto simp: lru_rep_def example_lru_def example_lists_def pol_ok_def dlist_def split: if_splits)

subsection \<open>Properties\<close>

text \<open>
  C22. Marking a line of a clean list dirty moves it to the front of the dirty list of its
  partition, and marking a line of a dirty list clean moves it to the front of the clean list, also
  when the list it leaves becomes empty or the list it joins was empty: no assertion fails, no
  other list changes and the order of the other lines is kept.
\<close>

theorem lru_dirty_clean_move:
  assumes "lru_rep ls L" and "p < OCF_IO_CLASS_MAX"
  shows "(x \<in> set (L p False) \<longrightarrow> (\<exists>ls'. evp_lru_dirty_cline ls p x = Some ls' \<and>
      lru_rep ls' (lru_upd (lru_upd L p False (remove1 x (L p False))) p True (x # L p True)))) \<and>
    (x \<in> set (L p True) \<longrightarrow> (\<exists>ls'. evp_lru_clean_cline ls p x = Some ls' \<and>
      lru_rep ls' (lru_upd (lru_upd L p True (remove1 x (L p True))) p False (x # L p False))))"
  using lru_move [OF assms, of x True] lru_move [OF assms, of x False]
  by (auto simp: evp_lru_dirty_cline_def evp_lru_clean_cline_def)

theorem lru_dirty_clean_move_witness:
  "(\<exists>ls'. evp_lru_dirty_cline example_lru 2 1 = Some ls' \<and>
      lru_rep ls' (lru_upd (lru_upd example_lists 2 False []) 2 True [1])) \<and>
    (\<exists>ls'. evp_lru_clean_cline example_lru 1 3 = Some ls' \<and>
      lru_rep ls' (lru_upd (lru_upd example_lists 1 True []) 1 False [3, 0, 2]))"
  using lru_dirty_clean_move [OF example_lru_rep, of 2 1] lru_dirty_clean_move [OF example_lru_rep, of 1 3]
  by (simp add: OCF_IO_CLASS_MAX_def example_lists_def)

end
