(* ===== verification/Collision.thy ===== *)
theory Collision
  imports DList
begin

section \<open>The collision table\<close>

text \<open>
  Model of \<^verbatim>\<open>src/metadata/metadata_collision.c\<close> with the accessors it uses
  (\<^verbatim>\<open>metadata_collision.h\<close>, \<^verbatim>\<open>metadata_misc.h\<close>, \<^verbatim>\<open>metadata_hash.c\<close>) and of the lookup
  \<^verbatim>\<open>ocf_engine_lookup_map_entry\<close> of \<^verbatim>\<open>src/engine/engine_common.c\<close>. A hash table of buckets maps a
  core line to a cache line; the entries of a bucket are a doubly linked list threaded through
  the collision table. The invariant ties the links to the lists of lines, and the operations
  are shown to implement a partial map from core lines to cache lines.
\<close>

subsection \<open>State and accessors\<close>

record coll_meta =
  collision_table_entries :: nat
  hash_table_entries :: nat
  hash_tbl :: "nat \<Rightarrow> cline"
  next_col :: "cline \<Rightarrow> cline"
  prev_col :: "cline \<Rightarrow> cline"
  coll_core_id :: "cline \<Rightarrow> core_id"
  coll_core_line :: "cline \<Rightarrow> core_line"

definition ocf_metadata_hash_func :: "coll_meta \<Rightarrow> core_line \<Rightarrow> core_id \<Rightarrow> nat" where
  "ocf_metadata_hash_func c core_line_num core_id =
     (let entries = hash_table_entries c
      in ((core_line_num + (core_id * (entries div 32)) mod U32_MOD) mod U64_MOD) mod entries)"

definition ocf_metadata_get_hash :: "coll_meta \<Rightarrow> nat \<Rightarrow> cline option" where
  "ocf_metadata_get_hash c index = do {
     bug_on (index \<ge> hash_table_entries c);
     Some (hash_tbl c index) }"

definition ocf_metadata_set_hash :: "coll_meta \<Rightarrow> nat \<Rightarrow> cline \<Rightarrow> coll_meta option" where
  "ocf_metadata_set_hash c index line = do {
     bug_on (index \<ge> hash_table_entries c);
     Some (c\<lparr>hash_tbl := (hash_tbl c)(index := line)\<rparr>) }"

definition ocf_metadata_get_core_info :: "coll_meta \<Rightarrow> cline \<Rightarrow> (core_id \<times> core_line) option" where
  "ocf_metadata_get_core_info c line = do {
     bug_on (line \<ge> collision_table_entries c);
     Some (coll_core_id c line, coll_core_line c line) }"

definition ocf_metadata_set_core_info ::
  "coll_meta \<Rightarrow> cline \<Rightarrow> core_id \<Rightarrow> core_line \<Rightarrow> coll_meta option" where
  "ocf_metadata_set_core_info c line core_id core_sector = do {
     bug_on (line \<ge> collision_table_entries c);
     Some (c\<lparr>coll_core_id := (coll_core_id c)(line := core_id),
             coll_core_line := (coll_core_line c)(line := core_sector)\<rparr>) }"

definition ocf_metadata_set_collision_info ::
  "coll_meta \<Rightarrow> cline \<Rightarrow> cline \<Rightarrow> cline \<Rightarrow> coll_meta option" where
  "ocf_metadata_set_collision_info c line nxt prv = do {
     bug_on (line \<ge> collision_table_entries c);
     Some (c\<lparr>next_col := (next_col c)(line := nxt), prev_col := (prev_col c)(line := prv)\<rparr>) }"

definition ocf_metadata_set_collision_next :: "coll_meta \<Rightarrow> cline \<Rightarrow> cline \<Rightarrow> coll_meta option" where
  "ocf_metadata_set_collision_next c line nxt = do {
     bug_on (line \<ge> collision_table_entries c);
     Some (c\<lparr>next_col := (next_col c)(line := nxt)\<rparr>) }"

definition ocf_metadata_set_collision_prev :: "coll_meta \<Rightarrow> cline \<Rightarrow> cline \<Rightarrow> coll_meta option" where
  "ocf_metadata_set_collision_prev c line prv = do {
     bug_on (line \<ge> collision_table_entries c);
     Some (c\<lparr>prev_col := (prev_col c)(line := prv)\<rparr>) }"

definition ocf_metadata_get_collision_info :: "coll_meta \<Rightarrow> cline \<Rightarrow> (cline \<times> cline) option" where
  "ocf_metadata_get_collision_info c line = do {
     bug_on (line \<ge> collision_table_entries c);
     Some (next_col c line, prev_col c line) }"

definition ocf_metadata_get_collision_next :: "coll_meta \<Rightarrow> cline \<Rightarrow> cline option" where
  "ocf_metadata_get_collision_next c line =
     map_option fst (ocf_metadata_get_collision_info c line)"

definition ocf_metadata_get_collision_prev :: "coll_meta \<Rightarrow> cline \<Rightarrow> cline option" where
  "ocf_metadata_get_collision_prev c line =
     map_option snd (ocf_metadata_get_collision_info c line)"

lemmas coll_access_defs [ocf_defs] =
  ocf_metadata_get_hash_def ocf_metadata_set_hash_def ocf_metadata_get_core_info_def
  ocf_metadata_set_core_info_def ocf_metadata_set_collision_info_def
  ocf_metadata_set_collision_next_def ocf_metadata_set_collision_prev_def
  ocf_metadata_get_collision_info_def ocf_metadata_get_collision_next_def
  ocf_metadata_get_collision_prev_def

subsection \<open>Operations\<close>

definition ocf_metadata_add_to_collision ::
  "coll_meta \<Rightarrow> core_id \<Rightarrow> core_line \<Rightarrow> nat \<Rightarrow> cline \<Rightarrow> coll_meta option" where
  "ocf_metadata_add_to_collision c core_id core_line hash cache_line = do {
     prev_cache_line \<leftarrow> ocf_metadata_get_hash c hash;
     let line_entries = collision_table_entries c;
     let hash_entries = hash_table_entries c;
     bug_on (\<not> hash < hash_entries);
     bug_on (\<not> cache_line < line_entries);
     c \<leftarrow> ocf_metadata_set_core_info c cache_line core_id core_line;
     c \<leftarrow> ocf_metadata_set_collision_info c cache_line prev_cache_line line_entries;
     c \<leftarrow> (if prev_cache_line \<noteq> line_entries
           then ocf_metadata_set_collision_prev c prev_cache_line cache_line else Some c);
     ocf_metadata_set_hash c hash cache_line }"

definition ocf_metadata_remove_from_collision ::
  "coll_meta \<Rightarrow> cline \<Rightarrow> part_id \<Rightarrow> coll_meta option" where
  "ocf_metadata_remove_from_collision c line part_id = do {
     let line_entries = collision_table_entries c;
     let hash_entries = hash_table_entries c;
     bug_on (\<not> line < line_entries);
     (next_line, prev_line) \<leftarrow> ocf_metadata_get_collision_info c line;
     c \<leftarrow> (if prev_line \<noteq> line_entries
           then ocf_metadata_set_collision_next c prev_line next_line else Some c);
     c \<leftarrow> (if next_line \<noteq> line_entries
           then ocf_metadata_set_collision_prev c next_line prev_line else Some c);
     (core_id, core_sector) \<leftarrow> ocf_metadata_get_core_info c line;
     let hash_father = ocf_metadata_hash_func c core_sector core_id;
     bug_on (\<not> hash_father < hash_entries);
     head \<leftarrow> ocf_metadata_get_hash c hash_father;
     c \<leftarrow> (if head = line then ocf_metadata_set_hash c hash_father next_line else Some c);
     c \<leftarrow> ocf_metadata_set_collision_info c line line_entries line_entries;
     ocf_metadata_set_core_info c line OCF_CORE_MAX ULLONG_MAX }"

text \<open>
  The loop of \<^verbatim>\<open>ocf_engine_lookup_map_entry\<close>: follow the bucket until the core line is found or
  the null index is reached. On a cyclic bucket the C loop would not end, so the loop is a
  partial function. The result is the hit (\<open>Some line\<close>) or a miss (\<open>None\<close>).
\<close>

partial_function (option) lookup_loop ::
  "coll_meta \<Rightarrow> core_id \<Rightarrow> core_line \<Rightarrow> cline \<Rightarrow> cline option option" where
  "lookup_loop c core_id core_line line =
     (if line = collision_table_entries c then Some None
      else do {
        (curr_core_id, curr_core_line) \<leftarrow> ocf_metadata_get_core_info c line;
        if core_id = curr_core_id \<and> curr_core_line = core_line then Some (Some line)
        else do {
          nxt \<leftarrow> ocf_metadata_get_collision_next c line;
          lookup_loop c core_id core_line nxt } })"

definition collision_lookup :: "coll_meta \<Rightarrow> core_id \<Rightarrow> core_line \<Rightarrow> cline option option" where
  "collision_lookup c core_id core_line = do {
     line \<leftarrow> ocf_metadata_get_hash c (ocf_metadata_hash_func c core_line core_id);
     lookup_loop c core_id core_line line }"

subsection \<open>Invariant and abstraction\<close>

text \<open>
  \<open>coll_rep c B\<close>: the links of \<open>c\<close> store the list \<open>B h\<close> in every bucket \<open>h\<close>, every line is in
  the bucket of its key, and no two mapped lines have the same key.
\<close>

definition line_key :: "coll_meta \<Rightarrow> cline \<Rightarrow> core_id \<times> core_line" where
  "line_key c x = (coll_core_id c x, coll_core_line c x)"

definition key_hash :: "coll_meta \<Rightarrow> core_id \<times> core_line \<Rightarrow> nat" where
  "key_hash c k = ocf_metadata_hash_func c (snd k) (fst k)"

definition bucket_lines :: "coll_meta \<Rightarrow> (nat \<Rightarrow> cline list) \<Rightarrow> cline set" where
  "bucket_lines c B = (\<Union>h \<in> {..<hash_table_entries c}. set (B h))"

definition coll_rep :: "coll_meta \<Rightarrow> (nat \<Rightarrow> cline list) \<Rightarrow> bool" where
  "coll_rep c B \<longleftrightarrow>
     0 < hash_table_entries c \<and>
     (\<forall>h < hash_table_entries c.
        dlist (collision_table_entries c) (next_col c) (prev_col c) (B h) \<and>
        hash_tbl c h = hd_or (collision_table_entries c) (B h) \<and>
        (\<forall>x \<in> set (B h). key_hash c (line_key c x) = h)) \<and>
     inj_on (line_key c) (bucket_lines c B)"

definition bucket :: "coll_meta \<Rightarrow> nat \<Rightarrow> cline list" where
  "bucket c h = walk (collision_table_entries c) (next_col c) (collision_table_entries c) (hash_tbl c h)"

definition mapped_lines :: "coll_meta \<Rightarrow> cline set" where
  "mapped_lines c = bucket_lines c (bucket c)"

definition coll_inv :: "coll_meta \<Rightarrow> bool" where
  "coll_inv c \<longleftrightarrow> coll_rep c (bucket c)"

text \<open>The map the table implements: the line of the bucket that carries the key.\<close>

definition coll_map :: "coll_meta \<Rightarrow> core_id \<times> core_line \<Rightarrow> cline option" where
  "coll_map c k = find (\<lambda>x. line_key c x = k) (bucket c (key_hash c k))"

lemma hash_func_bound: "0 < hash_table_entries c \<Longrightarrow> key_hash c k < hash_table_entries c"
  by (simp add: key_hash_def ocf_metadata_hash_func_def Let_def)

lemma key_hash_cong:
  "hash_table_entries c' = hash_table_entries c \<Longrightarrow> key_hash c' = key_hash c"
  by (simp add: key_hash_def ocf_metadata_hash_func_def fun_eq_iff)

lemma coll_repD:
  assumes "coll_rep c B" and "h < hash_table_entries c"
  shows "dlist (collision_table_entries c) (next_col c) (prev_col c) (B h)"
    and "hash_tbl c h = hd_or (collision_table_entries c) (B h)"
    and "x \<in> set (B h) \<Longrightarrow> key_hash c (line_key c x) = h"
    and "x \<in> set (B h) \<Longrightarrow> x < collision_table_entries c"
  using assms dlistD(2) by (auto simp: coll_rep_def)

lemma coll_rep_disjoint:
  "coll_rep c B \<Longrightarrow> h < hash_table_entries c \<Longrightarrow> h' < hash_table_entries c \<Longrightarrow>
   x \<in> set (B h) \<Longrightarrow> x \<in> set (B h') \<Longrightarrow> h = h'"
  using coll_repD(3) by blast

lemma coll_rep_bucket:
  "coll_rep c B \<Longrightarrow> h < hash_table_entries c \<Longrightarrow> bucket c h = B h"
  using walk_dlist [OF coll_repD(1)] coll_repD(2) by (simp add: bucket_def)

lemma coll_rep_lines: "coll_rep c B \<Longrightarrow> bucket_lines c B = mapped_lines c"
  by (simp add: mapped_lines_def bucket_lines_def coll_rep_bucket)

lemma coll_rep_cong:
  assumes "\<And>h. h < hash_table_entries c \<Longrightarrow> B h = B' h"
  shows "coll_rep c B = coll_rep c B'"
proof -
  have "bucket_lines c B = bucket_lines c B'" using assms by (auto simp: bucket_lines_def)
  then show ?thesis unfolding coll_rep_def using assms by simp
qed

lemma coll_rep_inv: "coll_rep c B \<Longrightarrow> coll_inv c"
  using coll_rep_cong [of c "bucket c" B] by (simp add: coll_inv_def coll_rep_bucket)

lemma mapped_bucket:
  assumes "coll_inv c"
  shows "x \<in> mapped_lines c \<longleftrightarrow> x \<in> set (bucket c (key_hash c (line_key c x)))"
proof -
  have rep: "coll_rep c (bucket c)" using assms by (simp add: coll_inv_def)
  then have "key_hash c (line_key c x) < hash_table_entries c"
    by (intro hash_func_bound) (simp add: coll_rep_def)
  with coll_repD(3) [OF rep] show ?thesis
    by (auto simp: mapped_lines_def bucket_lines_def)
qed

lemma mapped_less: "coll_inv c \<Longrightarrow> x \<in> mapped_lines c \<Longrightarrow> x < collision_table_entries c"
  using coll_repD(4) by (fastforce simp: coll_inv_def mapped_lines_def bucket_lines_def)

lemma coll_map_iff:
  assumes "coll_inv c"
  shows "coll_map c k = Some x \<longleftrightarrow> x \<in> mapped_lines c \<and> line_key c x = k"
proof
  assume "coll_map c k = Some x"
  then have "x \<in> set (bucket c (key_hash c k))" "line_key c x = k"
    by (auto simp: coll_map_def find_Some_iff)
  with mapped_bucket [OF assms] show "x \<in> mapped_lines c \<and> line_key c x = k" by auto
next
  assume x: "x \<in> mapped_lines c \<and> line_key c x = k"
  with mapped_bucket [OF assms] have "x \<in> set (bucket c (key_hash c k))" by auto
  then obtain y where y: "coll_map c k = Some y"
    using x by (cases "coll_map c k") (auto simp: coll_map_def find_None_iff)
  then have key: "line_key c y = k" and "y \<in> set (bucket c (key_hash c k))"
    by (auto simp: coll_map_def find_Some_iff)
  with mapped_bucket [OF assms, of y] have "y \<in> mapped_lines c" by auto
  with x key assms have "y = x"
    by (auto simp: coll_inv_def coll_rep_def mapped_lines_def dest: inj_onD)
  with y show "coll_map c k = Some x" by simp
qed

lemma coll_map_None:
  "coll_inv c \<Longrightarrow> coll_map c k = None \<longleftrightarrow> (\<forall>x \<in> mapped_lines c. line_key c x \<noteq> k)"
  using coll_map_iff by (metis not_None_eq)

text \<open>Two tables with the same mapped lines and keys implement the same map.\<close>

lemma coll_map_eqI:
  assumes "coll_inv c" and "\<And>k x. m k = Some x \<longleftrightarrow> x \<in> mapped_lines c \<and> line_key c x = k"
  shows "coll_map c = m"
proof
  fix k
  show "coll_map c k = m k"
    using coll_map_iff [OF assms(1), of k] assms(2) [of k] by (metis not_None_eq)
qed

subsection \<open>Lookup\<close>

lemma lookup_loop_dseg:
  assumes "dseg (next_col c) pv p xs (collision_table_entries c)"
    and "\<forall>x \<in> set xs. x < collision_table_entries c"
  shows "lookup_loop c cid cl (hd_or (collision_table_entries c) xs) =
         Some (find (\<lambda>x. line_key c x = (cid, cl)) xs)"
  using assms
proof (induction xs arbitrary: p)
  case Nil
  then show ?case by (simp add: lookup_loop.simps)
next
  case (Cons x xs)
  then show ?case
    by (subst lookup_loop.simps) (auto simp: coll_access_defs line_key_def)
qed

lemma collision_lookup_coll_map:
  assumes "coll_inv c"
  shows "collision_lookup c cid cl = Some (coll_map c (cid, cl))"
proof -
  let ?h = "key_hash c (cid, cl)"
  have rep: "coll_rep c (bucket c)" using assms by (simp add: coll_inv_def)
  have h: "?h < hash_table_entries c" using rep by (simp add: coll_rep_def hash_func_bound)
  note dl = coll_repD(1) [OF rep h]
  have "lookup_loop c cid cl (hash_tbl c ?h) = Some (coll_map c (cid, cl))"
    using lookup_loop_dseg [OF dlistD(3) [OF dl]] dlistD(2) [OF dl] coll_repD(2) [OF rep h]
    by (simp add: coll_map_def)
  with h show ?thesis
    by (simp add: collision_lookup_def coll_access_defs key_hash_def)
qed

subsection \<open>Adding a line\<close>

lemma add_to_collision_rep:
  assumes rep: "coll_rep c B" and h: "h = key_hash c (cid, cl)"
    and x: "x < collision_table_entries c" "x \<notin> bucket_lines c B"
    and key: "(cid, cl) \<notin> line_key c ` bucket_lines c B"
  obtains c' where "ocf_metadata_add_to_collision c cid cl h x = Some c'"
    and "coll_rep c' (B(h := x # B h))"
    and "collision_table_entries c' = collision_table_entries c"
    and "hash_table_entries c' = hash_table_entries c"
    and "line_key c' = (line_key c)(x := (cid, cl))"
proof -
  let ?n = "collision_table_entries c"
  have h_less: "h < hash_table_entries c" using rep h by (simp add: coll_rep_def hash_func_bound)
  let ?c = "c\<lparr>hash_tbl := (hash_tbl c)(h := x),
      next_col := (next_col c)(x := hash_tbl c h),
      prev_col := (if B h = [] then (prev_col c)(x := ?n)
                   else ((prev_col c)(x := ?n))(hd (B h) := x)),
      coll_core_id := (coll_core_id c)(x := cid), coll_core_line := (coll_core_line c)(x := cl)\<rparr>"
  note hd_eq = coll_repD(2) [OF rep h_less]
  note dl = coll_repD(1) [OF rep h_less]
  have notin: "x \<notin> set (B k)" if "k < hash_table_entries c" for k
    using x(2) that by (auto simp: bucket_lines_def)
  have add: "ocf_metadata_add_to_collision c cid cl h x = Some ?c"
    using h_less x(1) dlist_hd_less [OF dl] hd_eq dl
    by (cases "B h") (auto simp: ocf_metadata_add_to_collision_def coll_access_defs Let_def)
  have keys: "line_key ?c = (line_key c)(x := (cid, cl))"
    by (auto simp: line_key_def fun_eq_iff)
  have new: "dlist ?n (next_col ?c) (prev_col ?c) (x # B h)"
    by (rule dlist_push_front [OF dl x(1) notin [OF h_less]])
      (use notin [OF h_less] hd_eq in \<open>auto dest: hd_in_set\<close>)
  have old: "dlist ?n (next_col ?c) (prev_col ?c) (B k)" if k: "k < hash_table_entries c" "k \<noteq> h" for k
  proof -
    have "hd (B h) \<notin> set (B k)" if "B h \<noteq> []"
      using coll_rep_disjoint [OF rep h_less k(1)] k(2) that hd_in_set by metis
    then show ?thesis using coll_repD(1) [OF rep k(1)] notin [OF k(1)] by auto
  qed
  have hash: "key_hash ?c = key_hash c" by (rule key_hash_cong) simp
  have lines: "bucket_lines ?c (B(h := x # B h)) = insert x (bucket_lines c B)"
    using h_less by (auto simp: bucket_lines_def split: if_splits)
  have "inj_on (line_key ?c) (insert x (bucket_lines c B))"
    using rep x(2) key unfolding keys by (intro inj_on_insert_upd) (simp_all add: coll_rep_def)
  moreover have "hash_tbl ?c k = hd_or ?n ((B(h := x # B h)) k)" if "k < hash_table_entries c" for k
    using coll_repD(2) [OF rep that] by simp
  moreover have "key_hash c (line_key ?c y) = k"
    if "k < hash_table_entries c" and "y \<in> set ((B(h := x # B h)) k)" for k y
    using coll_repD(3) [OF rep that(1), of y] that notin h unfolding keys
    by (auto split: if_splits)
  moreover have "dlist ?n (next_col ?c) (prev_col ?c) ((B(h := x # B h)) k)"
    if "k < hash_table_entries c" for k
    using new old [OF that] by (cases "k = h") simp_all
  ultimately have "coll_rep ?c (B(h := x # B h))"
    using h_less unfolding coll_rep_def hash lines by simp
  with add keys show thesis by (intro that [of ?c]) auto
qed


subsection \<open>Removing a line\<close>

lemma bucket_lines_upd:
  "h < hash_table_entries c \<Longrightarrow>
   bucket_lines c (B(h := ys)) = (\<Union>k \<in> {..<hash_table_entries c} - {h}. set (B k)) \<union> set ys"
  by (auto simp: bucket_lines_def split: if_splits)

lemma bucket_lines_diff:
  assumes "h < hash_table_entries c"
    and "\<And>k. k < hash_table_entries c \<Longrightarrow> k \<noteq> h \<Longrightarrow> x \<notin> set (B k)"
  shows "bucket_lines c B - {x} =
    (\<Union>k \<in> {..<hash_table_entries c} - {h}. set (B k)) \<union> (set (B h) - {x})"
  using assms by (auto simp: bucket_lines_def)

lemma remove_from_collision_rep:
  assumes rep: "coll_rep c B" and h: "h < hash_table_entries c" and x: "x \<in> set (B h)"
  obtains c' where "ocf_metadata_remove_from_collision c x p = Some c'"
    and "coll_rep c' (B(h := remove1 x (B h)))"
    and "collision_table_entries c' = collision_table_entries c"
    and "hash_table_entries c' = hash_table_entries c"
    and "line_key c' = (line_key c)(x := (OCF_CORE_MAX, ULLONG_MAX))"
    and "next_col c' x = collision_table_entries c" and "prev_col c' x = collision_table_entries c"
proof -
  let ?n = "collision_table_entries c"
  obtain as bs where xs: "B h = as @ x # bs" and notin: "x \<notin> set as" "x \<notin> set bs"
    and pv: "prev_col c x = last_or ?n as" and nx: "next_col c x = hd_or ?n bs"
    and dl: "dlist ?n (next_col c) (prev_col c) (as @ x # bs)"
    using dlist_split [OF coll_repD(1) [OF rep h] x] .
  let ?c = "c\<lparr>hash_tbl := (if as = [] then (hash_tbl c)(h := next_col c x) else hash_tbl c),
      next_col := (if as \<noteq> [] then (next_col c)(prev_col c x := next_col c x) else next_col c)(x := ?n),
      prev_col := (if bs \<noteq> [] then (prev_col c)(next_col c x := prev_col c x) else prev_col c)(x := ?n),
      coll_core_id := (coll_core_id c)(x := OCF_CORE_MAX),
      coll_core_line := (coll_core_line c)(x := ULLONG_MAX)\<rparr>"
  note null = dlist_links_null [OF dl]
  have kx: "key_hash c (line_key c x) = h" using coll_repD(3) [OF rep h x] .
  have hx: "ocf_metadata_hash_func c' (coll_core_line c x) (coll_core_id c x) = h"
    if "hash_table_entries c' = hash_table_entries c" for c'
    using kx that by (simp only: key_hash_def line_key_def ocf_metadata_hash_func_def fst_conv snd_conv)
  have xn: "x < ?n" using coll_repD(4) [OF rep h x] .
  have head: "(hash_tbl c h = x) = (as = [])"
    using coll_repD(2) [OF rep h] xs notin by (cases as) auto
  have rem: "ocf_metadata_remove_from_collision c x p = Some ?c"
    using xn h null head
    by (cases "as = []"; cases "bs = []")
      (simp_all add: ocf_metadata_remove_from_collision_def coll_access_defs Let_def hx)
  have keys: "line_key ?c = (line_key c)(x := (OCF_CORE_MAX, ULLONG_MAX))"
    by (auto simp: line_key_def fun_eq_iff)
  have r1: "remove1 x (B h) = as @ bs" using xs notin by (simp add: remove1_append)
  have other: "x \<notin> set (B k)" if "k < hash_table_entries c" "k \<noteq> h" for k
    using coll_rep_disjoint [OF rep h that(1) x] that(2) by blast
  have lines: "bucket_lines ?c (B(h := remove1 x (B h))) = bucket_lines c B - {x}"
    unfolding r1 using bucket_lines_upd [of h c B] bucket_lines_diff [of h c x B] h other xs notin
    by (simp add: bucket_lines_def)
  have "inj_on (line_key c) (bucket_lines c B - {x})"
    using rep unfolding coll_rep_def by (blast intro: inj_on_diff)
  then have "inj_on (line_key ?c) (bucket_lines c B - {x})"
    unfolding keys by (simp add: inj_on_upd_notin)
  moreover have "dlist ?n (next_col ?c) (prev_col ?c) ((B(h := remove1 x (B h))) k)"
    if k: "k < hash_table_entries c" for k
  proof (cases "k = h")
    case True
    then show ?thesis using dlist_unlink_code [OF dl] r1 by simp
  next
    case False
    have nb: "y \<notin> set (B h)" if "y \<in> set (B k)" for y
      using coll_rep_disjoint [OF rep k h that] False by blast
    then have "set (B k) \<inter> set (as @ x # bs) = {}" using xs by auto
    with coll_repD(1) [OF rep k] False dlist_unlink_other_code [OF dl, of "B k"]
    show ?thesis by simp
  qed
  moreover have "hash_tbl ?c k = hd_or ?n ((B(h := remove1 x (B h))) k)"
    if "k < hash_table_entries c" for k
    using coll_repD(2) [OF rep that] r1 nx xs by (cases as) auto
  moreover have "key_hash c (line_key ?c y) = k"
    if "k < hash_table_entries c" and "y \<in> set ((B(h := remove1 x (B h))) k)" for k y
    using coll_repD(3) [OF rep that(1), of y] that other [OF that(1)] xs notin r1
    unfolding keys by (auto split: if_splits)
  moreover have hash: "key_hash ?c = key_hash c" by (rule key_hash_cong) simp
  ultimately have "coll_rep ?c (B(h := remove1 x (B h)))"
    using h unfolding coll_rep_def hash lines by simp
  with rem keys show thesis by (intro that [of ?c]) auto
qed

subsection \<open>The table as a map\<close>

text \<open>
  What the engines rely on: a table that maps keys (core id and core line) to lines. The
  clients below it are the loops that map or drop several lines of one request.
\<close>

locale line_map =
  fixes ok :: "'s \<Rightarrow> bool" and look :: "'s \<Rightarrow> 'k \<Rightarrow> 'l option" and fits :: "'s \<Rightarrow> 'l \<Rightarrow> bool"
    and add :: "'k \<times> 'l \<Rightarrow> 's \<Rightarrow> 's option" and rem :: "'l \<Rightarrow> 's \<Rightarrow> 's option"
  assumes add_law: "ok s \<Longrightarrow> look s k = None \<Longrightarrow> fits s l \<Longrightarrow> l \<notin> ran (look s) \<Longrightarrow>
      \<exists>s'. add (k, l) s = Some s' \<and> ok s' \<and> look s' = (look s)(k \<mapsto> l) \<and> fits s' = fits s"
    and rem_law: "ok s \<Longrightarrow> look s k = Some l \<Longrightarrow>
      \<exists>s'. rem l s = Some s' \<and> ok s' \<and> look s' = (look s)(k := None) \<and> fits s' = fits s"
begin

lemma add_all:
  assumes "ok s" and "distinct (map fst ps)" and "distinct (map snd ps)"
    and "\<forall>(k, l) \<in> set ps. look s k = None \<and> fits s l \<and> l \<notin> ran (look s)"
  shows "\<exists>s'. fold_opt add ps s = Some s' \<and> ok s' \<and> look s' = look s ++ map_of ps"
  using assms
proof (induction ps arbitrary: s)
  case Nil
  then show ?case by simp
next
  case (Cons p ps)
  obtain k l where p: "p = (k, l)" by force
  from Cons.prems p obtain t where t: "add (k, l) s = Some t" "ok t"
      "look t = (look s)(k \<mapsto> l)" "fits t = fits s"
    using add_law [of s k l] by auto
  have "ran (look t) = insert l (ran (look s))" using t(3) Cons.prems(4) p by simp
  moreover have "k' \<noteq> k \<and> l' \<noteq> l" if "(k', l') \<in> set ps" for k' l'
    using Cons.prems(2,3) p that by (auto simp: image_iff)
  ultimately have new: "k' \<noteq> k" "l' \<notin> ran (look s) \<Longrightarrow> l' \<notin> ran (look t)"
    if "(k', l') \<in> set ps" for k' l' using that by auto
  have "\<forall>(k', l') \<in> set ps. look t k' = None \<and> fits t l' \<and> l' \<notin> ran (look t)"
    using Cons.prems(4) p new by (auto simp: t)
  with Cons.IH [of t] Cons.prems t(2) obtain s' where
    s': "fold_opt add ps t = Some s'" "ok s'" "look s' = look t ++ map_of ps" by auto
  have "k \<notin> dom (map_of ps)" using Cons.prems(2) p by (simp add: dom_map_of_conv_image_fst)
  then have eq: "look t ++ map_of ps = look s ++ map_of (p # ps)"
    using t(3) p by (simp add: map_add_def fun_eq_iff domIff split: option.splits)
  have "fold_opt add (p # ps) s = Some s'" using s'(1) t(1) p by simp
  with s'(2,3) eq show ?case by metis
qed

text \<open>A line that is dropped from one key can be given to another: the step of an eviction.\<close>

lemma remap:
  assumes "ok s" and "look s k = Some l" and "look s k' = None" and "fits s l" and "inj_on (look s) (dom (look s))"
  shows "\<exists>s'. (rem l s \<bind> add (k', l)) = Some s' \<and> ok s' \<and> look s' = (look s)(k := None, k' \<mapsto> l)"
proof -
  from rem_law [OF assms(1,2)] obtain t where t: "rem l s = Some t" "ok t"
    "look t = (look s)(k := None)" "fits t = fits s" by auto
  have "l \<notin> ran (look t)"
  proof
    assume "l \<in> ran (look t)"
    then obtain j where "look s j = Some l" "j \<noteq> k" using t(3) by (auto simp: ran_def split: if_splits)
    with assms(2,5) show False by (auto dest: inj_onD [of _ _ j k])
  qed
  moreover have "look t k' = None" using t(3) assms(3) by simp
  ultimately obtain s' where "add (k', l) t = Some s'" "ok s'" "look s' = (look t)(k' \<mapsto> l)"
    using add_law [of t k' l] t assms(4) by auto
  with t show ?thesis by auto
qed

end

definition coll_add :: "(core_id \<times> core_line) \<times> cline \<Rightarrow> coll_meta \<Rightarrow> coll_meta option" where
  "coll_add p c =
     ocf_metadata_add_to_collision c (fst (fst p)) (snd (fst p)) (key_hash c (fst p)) (snd p)"

definition coll_remove :: "cline \<Rightarrow> coll_meta \<Rightarrow> coll_meta option" where
  "coll_remove x c = ocf_metadata_remove_from_collision c x PARTITION_DEFAULT"

definition coll_line_ok :: "coll_meta \<Rightarrow> cline \<Rightarrow> bool" where
  "coll_line_ok c x = (x < collision_table_entries c)"

lemma ran_coll_map: "coll_inv c \<Longrightarrow> ran (coll_map c) = mapped_lines c"
  by (auto simp: ran_def coll_map_iff)

lemma coll_map_inj: "coll_inv c \<Longrightarrow> inj_on (coll_map c) (dom (coll_map c))"
  by (rule inj_onI) (metis coll_map_iff domD)

lemma add_to_collision_map:
  assumes inv: "coll_inv c" and x: "x < collision_table_entries c" "x \<notin> mapped_lines c"
    and k: "coll_map c (cid, cl) = None"
  shows "\<exists>c'. ocf_metadata_add_to_collision c cid cl (key_hash c (cid, cl)) x = Some c' \<and>
    coll_inv c' \<and> coll_map c' = (coll_map c)((cid, cl) \<mapsto> x) \<and>
    collision_table_entries c' = collision_table_entries c \<and>
    hash_table_entries c' = hash_table_entries c"
proof -
  let ?h = "key_hash c (cid, cl)"
  have rep: "coll_rep c (bucket c)" using inv by (simp add: coll_inv_def)
  have new: "x \<notin> bucket_lines c (bucket c)" "(cid, cl) \<notin> line_key c ` bucket_lines c (bucket c)"
    using x(2) k coll_map_None [OF inv] by (auto simp: mapped_lines_def)
  obtain c' where c': "ocf_metadata_add_to_collision c cid cl ?h x = Some c'"
      "coll_rep c' ((bucket c)(?h := x # bucket c ?h))"
      "collision_table_entries c' = collision_table_entries c"
      "hash_table_entries c' = hash_table_entries c"
      "line_key c' = (line_key c)(x := (cid, cl))"
    by (rule add_to_collision_rep [OF rep refl x(1) new])
  have "?h < hash_table_entries c" using rep by (simp add: coll_rep_def hash_func_bound)
  then have lines: "mapped_lines c' = insert x (mapped_lines c)"
    using coll_rep_lines [OF c'(2), symmetric] c'(4) bucket_lines_upd [of ?h c "bucket c"]
      bucket_lines_upd [of ?h c "bucket c" "bucket c ?h"]
    by (simp add: mapped_lines_def) (simp add: bucket_lines_def)
  have "coll_map c' = (coll_map c)((cid, cl) \<mapsto> x)"
    using coll_map_iff [OF inv] coll_map_None [OF inv] k x(2)
    by (intro coll_map_eqI [OF coll_rep_inv [OF c'(2)]]) (auto simp: lines c'(5))
  with c' coll_rep_inv [OF c'(2)] show ?thesis by auto
qed

lemma remove_from_collision_map:
  assumes inv: "coll_inv c" and k: "coll_map c k = Some x"
  shows "\<exists>c'. ocf_metadata_remove_from_collision c x p = Some c' \<and>
    coll_inv c' \<and> coll_map c' = (coll_map c)(k := None) \<and>
    collision_table_entries c' = collision_table_entries c \<and>
    hash_table_entries c' = hash_table_entries c"
proof -
  let ?h = "key_hash c k"
  have rep: "coll_rep c (bucket c)" using inv by (simp add: coll_inv_def)
  have x: "x \<in> set (bucket c ?h)" "line_key c x = k" using k by (auto simp: coll_map_def find_Some_iff)
  have h: "?h < hash_table_entries c" using rep by (simp add: coll_rep_def hash_func_bound)
  obtain c' where c': "ocf_metadata_remove_from_collision c x p = Some c'"
      "coll_rep c' ((bucket c)(?h := remove1 x (bucket c ?h)))"
      "collision_table_entries c' = collision_table_entries c"
      "hash_table_entries c' = hash_table_entries c"
      "line_key c' = (line_key c)(x := (OCF_CORE_MAX, ULLONG_MAX))"
    by (rule remove_from_collision_rep [OF rep h x(1)])
  have "set (remove1 x (bucket c ?h)) = set (bucket c ?h) - {x}"
    by (rule set_remove1_eq) (use coll_repD(1) [OF rep h] dlistD(1) in blast)
  moreover have "x \<notin> set (bucket c j)" if "j < hash_table_entries c" "j \<noteq> ?h" for j
    using coll_rep_disjoint [OF rep that(1) h] that(2) x(1) by blast
  ultimately have lines: "mapped_lines c' = mapped_lines c - {x}"
    using coll_rep_lines [OF c'(2)] c'(4) bucket_lines_diff [OF h, of x "bucket c"]
      bucket_lines_upd [OF h, of "bucket c"]
    by (simp add: mapped_lines_def bucket_lines_def)
  have only: "y = x" if "y \<in> mapped_lines c" "line_key c y = k" for y
    using coll_map_iff [OF inv, of k y] that k by simp
  have "coll_map c' = (coll_map c)(k := None)"
  proof (rule coll_map_eqI [OF coll_rep_inv [OF c'(2)]])
    fix j y
    show "((coll_map c)(k := None)) j = Some y \<longleftrightarrow> y \<in> mapped_lines c' \<and> line_key c' y = j"
      using coll_map_iff [OF inv, of j y] only [of y] x(2)
      by (cases "y = x") (auto simp: lines c'(5))
  qed
  with c' coll_rep_inv [OF c'(2)] show ?thesis by auto
qed

interpretation coll: line_map coll_inv coll_map coll_line_ok coll_add coll_remove
proof unfold_locales
  fix c k x
  assume "coll_inv c" "coll_map c k = None" "coll_line_ok c x" "x \<notin> ran (coll_map c)"
  then show "\<exists>c'. coll_add (k, x) c = Some c' \<and> coll_inv c' \<and>
      coll_map c' = (coll_map c)(k \<mapsto> x) \<and> coll_line_ok c' = coll_line_ok c"
    using add_to_collision_map [of c x "fst k" "snd k"]
    by (fastforce simp: coll_add_def coll_line_ok_def ran_coll_map)
next
  fix c k x
  assume "coll_inv c" "coll_map c k = Some x"
  then show "\<exists>c'. coll_remove x c = Some c' \<and> coll_inv c' \<and>
      coll_map c' = (coll_map c)(k := None) \<and> coll_line_ok c' = coll_line_ok c"
    using remove_from_collision_map [of c k x PARTITION_DEFAULT]
    by (fastforce simp: coll_remove_def coll_line_ok_def)
qed


subsection \<open>Initialisation\<close>

definition ocf_metadata_hash_init_hash_table :: "coll_meta \<Rightarrow> coll_meta option" where
  "ocf_metadata_hash_init_hash_table c =
     fold_opt (\<lambda>i c. ocf_metadata_set_hash c i (collision_table_entries c))
       [0..<hash_table_entries c] c"

lemma init_hash_table_loop:
  "m \<le> hash_table_entries c \<Longrightarrow>
   fold_opt (\<lambda>i c. ocf_metadata_set_hash c i (collision_table_entries c)) [0..<m] c =
   Some (c\<lparr>hash_tbl := (\<lambda>i. if i < m then collision_table_entries c else hash_tbl c i)\<rparr>)"
  by (induction m) (auto simp: fold_opt_append ocf_metadata_set_hash_def fun_eq_iff)

lemma init_hash_table_result:
  "ocf_metadata_hash_init_hash_table c =
   Some (c\<lparr>hash_tbl := (\<lambda>i. if i < hash_table_entries c then collision_table_entries c
                            else hash_tbl c i)\<rparr>)"
  by (simp add: ocf_metadata_hash_init_hash_table_def init_hash_table_loop)

lemma init_hash_table_rep:
  assumes "0 < hash_table_entries c" and "ocf_metadata_hash_init_hash_table c = Some c'"
  shows "coll_rep c' (\<lambda>_. [])" and "coll_map c' = Map.empty"
proof -
  show rep: "coll_rep c' (\<lambda>_. [])"
    using assms by (auto simp: init_hash_table_result coll_rep_def bucket_lines_def)
  have "mapped_lines c' = {}" using coll_rep_lines [OF rep] by (simp add: bucket_lines_def)
  then show "coll_map c' = Map.empty"
    by (intro coll_map_eqI [OF coll_rep_inv [OF rep]]) simp
qed

text \<open>A table of four lines and two buckets, right after initialisation.\<close>

definition example_coll :: coll_meta where
  "example_coll = \<lparr>collision_table_entries = 4, hash_table_entries = 2, hash_tbl = (\<lambda>_. 4),
     next_col = (\<lambda>_. 4), prev_col = (\<lambda>_. 4), coll_core_id = (\<lambda>_. OCF_CORE_MAX),
     coll_core_line = (\<lambda>_. ULLONG_MAX)\<rparr>"

lemma example_coll_simps [simp]:
  "collision_table_entries example_coll = 4"
  "hash_table_entries example_coll = 2"
  by (simp_all add: example_coll_def)

lemma example_coll_init: "ocf_metadata_hash_init_hash_table example_coll = Some example_coll"
  unfolding init_hash_table_result by (simp add: example_coll_def fun_eq_iff del: example_coll_simps)

lemma example_coll_inv [simp]: "coll_inv example_coll"
  using init_hash_table_rep(1) [OF _ example_coll_init] coll_rep_inv by simp

lemma example_coll_map [simp]: "coll_map example_coll = Map.empty"
  using init_hash_table_rep(2) [OF _ example_coll_init] by simp

lemma example_coll_lines [simp]: "mapped_lines example_coll = {}"
  using ran_coll_map [OF example_coll_inv] by simp

subsection \<open>Properties\<close>

text \<open>
  The table that \<^verbatim>\<open>ocf_metadata_hash_init_hash_table\<close> sets up satisfies the invariant and maps
  no core line: a lookup of any core line ends with a miss.
\<close>

theorem init_hash_table_empty:
  assumes "0 < hash_table_entries c"
  shows "\<exists>c'. ocf_metadata_hash_init_hash_table c = Some c' \<and> coll_inv c' \<and>
    (\<forall>cid cl. collision_lookup c' cid cl = Some None)"
proof -
  obtain c' where c': "ocf_metadata_hash_init_hash_table c = Some c'"
    by (simp add: init_hash_table_result)
  note rep = init_hash_table_rep [OF assms c']
  have "coll_inv c'" using coll_rep_inv [OF rep(1)] .
  with c' rep(2) show ?thesis by (simp add: collision_lookup_coll_map)
qed

theorem init_hash_table_empty_witness:
  "\<exists>c'. ocf_metadata_hash_init_hash_table example_coll = Some c' \<and> coll_inv c' \<and>
    (\<forall>cid cl. collision_lookup c' cid cl = Some None)"
  by (rule init_hash_table_empty) simp

text \<open>
  C16. The lookup loop of \<^verbatim>\<open>ocf_engine_lookup_map_entry\<close> ends on every table that satisfies the
  invariant, and it reports a line exactly when that line is mapped and carries the searched
  core id and core line.
\<close>

theorem collision_lookup_total:
  assumes "coll_inv c"
  shows "\<exists>r. collision_lookup c cid cl = Some r \<and>
    (\<forall>x. (r = Some x) = (x \<in> mapped_lines c \<and> coll_core_id c x = cid \<and> coll_core_line c x = cl))"
  using collision_lookup_coll_map [OF assms] coll_map_iff [OF assms]
  by (simp add: line_key_def)

theorem collision_lookup_total_witness:
  "\<exists>r. collision_lookup example_coll 0 7 = Some r \<and>
    (\<forall>x. (r = Some x) = (x \<in> mapped_lines example_coll \<and>
       coll_core_id example_coll x = 0 \<and> coll_core_line example_coll x = 7))"
  by (rule collision_lookup_total) simp

text \<open>
  C17. Adding an unused line for a core line that has none trips no assertion, keeps the
  invariant, and changes the result of a lookup for that core line only.
\<close>

theorem add_to_collision_lookup:
  assumes "coll_inv c" and "x < collision_table_entries c" and "x \<notin> mapped_lines c"
    and "collision_lookup c cid cl = Some None"
  shows "\<exists>c'. ocf_metadata_add_to_collision c cid cl (ocf_metadata_hash_func c cl cid) x = Some c' \<and>
    coll_inv c' \<and> mapped_lines c' = insert x (mapped_lines c) \<and>
    (\<forall>i l. collision_lookup c' i l =
       (if (i, l) = (cid, cl) then Some (Some x) else collision_lookup c i l))"
proof -
  have none: "coll_map c (cid, cl) = None"
    using assms(1,4) by (simp add: collision_lookup_coll_map)
  from add_to_collision_map [OF assms(1,2,3) this] obtain c' where
    c': "ocf_metadata_add_to_collision c cid cl (ocf_metadata_hash_func c cl cid) x = Some c'"
      "coll_inv c'" "coll_map c' = (coll_map c)((cid, cl) \<mapsto> x)"
    by (auto simp: key_hash_def)
  have "mapped_lines c' = insert x (mapped_lines c)"
    using c'(2,3) assms(1) none by (simp add: ran_coll_map [symmetric])
  with c' assms(1) show ?thesis by (simp add: collision_lookup_coll_map)
qed

theorem add_to_collision_lookup_witness:
  "\<exists>c'. ocf_metadata_add_to_collision example_coll 1 7 (ocf_metadata_hash_func example_coll 7 1) 3 = Some c' \<and>
    coll_inv c' \<and> mapped_lines c' = insert 3 (mapped_lines example_coll) \<and>
    (\<forall>i l. collision_lookup c' i l =
       (if (i, l) = (1, 7) then Some (Some 3) else collision_lookup example_coll i l))"
  by (rule add_to_collision_lookup) (simp_all add: collision_lookup_coll_map)

text \<open>
  C18. Removing the line a lookup finds trips no assertion, keeps the invariant, frees the line,
  makes the lookup of its core line a miss and leaves every other lookup as it was.
\<close>

theorem remove_from_collision_lookup:
  assumes "coll_inv c" and "collision_lookup c cid cl = Some (Some x)"
  shows "\<exists>c'. ocf_metadata_remove_from_collision c x p = Some c' \<and>
    coll_inv c' \<and> x \<notin> mapped_lines c' \<and>
    (\<forall>i l. collision_lookup c' i l =
       (if (i, l) = (cid, cl) then Some None else collision_lookup c i l))"
proof -
  have k: "coll_map c (cid, cl) = Some x" using assms by (simp add: collision_lookup_coll_map)
  from remove_from_collision_map [OF assms(1) this] obtain c' where
    c': "ocf_metadata_remove_from_collision c x p = Some c'" "coll_inv c'"
      "coll_map c' = (coll_map c)((cid, cl) := None)" by auto
  have "x \<notin> mapped_lines c'"
    using c'(3) k coll_map_iff [OF assms(1), of _ x] ran_coll_map [OF c'(2), symmetric]
    by (auto simp: ran_def split: if_splits)
  with c' assms(1) show ?thesis by (simp add: collision_lookup_coll_map)
qed

theorem remove_from_collision_lookup_witness:
  "\<exists>c. ocf_metadata_add_to_collision example_coll 1 7 1 3 = Some c \<and>
    (\<exists>c'. ocf_metadata_remove_from_collision c 3 0 = Some c' \<and> coll_inv c' \<and> 3 \<notin> mapped_lines c' \<and>
      (\<forall>i l. collision_lookup c' i l = (if (i, l) = (1, 7) then Some None else collision_lookup c i l)))"
proof -
  have "key_hash example_coll (1, 7) = 1"
    by (simp add: key_hash_def ocf_metadata_hash_func_def)
  with add_to_collision_map [of example_coll 3 1 7] obtain c where
    c: "ocf_metadata_add_to_collision example_coll 1 7 1 3 = Some c" "coll_inv c" "coll_map c (1, 7) = Some 3"
    by auto
  with remove_from_collision_lookup [of c 1 7 3 0] show ?thesis
    by (simp add: collision_lookup_coll_map)
qed

text \<open>
  Mapping the missing core lines of a request one after the other to distinct unused lines
  never trips an assertion, and afterwards a lookup finds for each of them the line it was
  given and for every other core line what it found before.
\<close>

theorem map_request_lines:
  assumes "coll_inv c" and "distinct (map fst ps)" and "distinct (map snd ps)"
    and "\<forall>(k, x) \<in> set ps. coll_map c k = None \<and> x < collision_table_entries c \<and> x \<notin> mapped_lines c"
  shows "\<exists>c'. fold_opt coll_add ps c = Some c' \<and> coll_inv c' \<and>
    (\<forall>i l. collision_lookup c' i l =
       (case map_of ps (i, l) of Some x \<Rightarrow> Some (Some x) | None \<Rightarrow> collision_lookup c i l))"
proof -
  have "\<exists>c'. fold_opt coll_add ps c = Some c' \<and> coll_inv c' \<and> coll_map c' = coll_map c ++ map_of ps"
    using assms by (intro coll.add_all) (auto simp: coll_line_ok_def ran_coll_map)
  then show ?thesis using assms(1)
    by (auto simp: collision_lookup_coll_map map_add_def split: option.splits)
qed

theorem map_request_lines_witness:
  "\<exists>c'. fold_opt coll_add [((0, 4), 2), ((0, 5), 0), ((0, 6), 3)] example_coll = Some c' \<and> coll_inv c' \<and>
    (\<forall>i l. collision_lookup c' i l =
       (case map_of [((0, 4), 2), ((0, 5), 0), ((0, 6), 3)] (i, l) of
          Some x \<Rightarrow> Some (Some x) | None \<Rightarrow> collision_lookup example_coll i l))"
  by (rule map_request_lines) simp_all

text \<open>
  Consecutive core lines of a core have consecutive buckets modulo the size of the hash
  table, as the comment above \<^verbatim>\<open>ocf_metadata_hash_func\<close> promises, as long as the 64-bit sum in
  it does not wrap around.
\<close>

lemma hash_bucket_add:
  assumes "0 < hash_table_entries c"
    and "cl + d + (cid * (hash_table_entries c div 32)) mod U32_MOD < U64_MOD"
  shows "ocf_metadata_hash_func c (cl + d) cid =
         (ocf_metadata_hash_func c cl cid + d) mod hash_table_entries c"
proof -
  let ?k = "(cid * (hash_table_entries c div 32)) mod U32_MOD"
  have "ocf_metadata_hash_func c (cl + d) cid = (cl + ?k + d) mod hash_table_entries c"
    using assms(2) by (simp add: ocf_metadata_hash_func_def Let_def ac_simps)
  also have "\<dots> = ((cl + ?k) mod hash_table_entries c + d) mod hash_table_entries c"
    by (simp add: mod_add_left_eq)
  also have "(cl + ?k) mod hash_table_entries c = ocf_metadata_hash_func c cl cid"
    using assms(2) by (simp add: ocf_metadata_hash_func_def Let_def)
  finally show ?thesis .
qed

end
