(* ===== verification/Refcnt.thy ===== *)
theory Refcnt
  imports OCF_Prelude
begin

section \<open>Reference counters that can be frozen\<close>

text \<open>
  Model of \<^verbatim>\<open>src/utils/utils_refcnt.c\<close>. A counter can be frozen, after which no new reference is
  given out, and a callback can be registered that runs when the last reference is gone. Each
  function is one step, except \<^verbatim>\<open>ocf_refcnt_inc\<close>: it reads the freeze counter before and after it
  increments, so that another thread may freeze in between. That interleaving is the step
  relation at the end of the theory. The calls of the callback are counted in a ghost field.
\<close>

record ocf_refcnt =
  rc_counter :: int
  rc_freeze :: int
  rc_callback :: bool
  rc_calls :: nat

definition ocf_refcnt_init :: ocf_refcnt where
  "ocf_refcnt_init = \<lparr>rc_counter = 0, rc_freeze = 0, rc_callback = False, rc_calls = 0\<rparr>"

definition ocf_refcnt_dec :: "ocf_refcnt \<Rightarrow> (int \<times> ocf_refcnt) option" where
  "ocf_refcnt_dec rc = do {
     let val = rc_counter rc - 1;
     let rc = rc\<lparr>rc_counter := val\<rparr>;
     bug_on (val < 0);
     Some (val, if val = 0 \<and> rc_callback rc
                then rc\<lparr>rc_callback := False, rc_calls := rc_calls rc + 1\<rparr> else rc) }"

text \<open>
  \<open>frozen_later\<close>: another thread freezes the counter between the increment and the second test.
\<close>

definition refcnt_inc_gen :: "bool \<Rightarrow> ocf_refcnt \<Rightarrow> (int \<times> ocf_refcnt) option" where
  "refcnt_inc_gen frozen_later rc =
     (if rc_freeze rc = 0 then do {
        let val = rc_counter rc + 1;
        let rc = rc\<lparr>rc_counter := val\<rparr>;
        let rc = (if frozen_later then rc\<lparr>rc_freeze := rc_freeze rc + 1\<rparr> else rc);
        if rc_freeze rc = 0 then Some (val, rc)
        else do { (_, rc) \<leftarrow> ocf_refcnt_dec rc; Some (0, rc) } }
      else Some (0, rc))"

definition ocf_refcnt_inc :: "ocf_refcnt \<Rightarrow> (int \<times> ocf_refcnt) option" where
  "ocf_refcnt_inc = refcnt_inc_gen False"

definition ocf_refcnt_freeze :: "ocf_refcnt \<Rightarrow> ocf_refcnt" where
  "ocf_refcnt_freeze rc = rc\<lparr>rc_freeze := rc_freeze rc + 1\<rparr>"

definition ocf_refcnt_register_zero_cb :: "ocf_refcnt \<Rightarrow> ocf_refcnt option" where
  "ocf_refcnt_register_zero_cb rc = do {
     bug_on (rc_freeze rc = 0);
     bug_on (rc_callback rc);
     let rc = rc\<lparr>rc_counter := rc_counter rc + 1, rc_callback := True\<rparr>;
     (_, rc) \<leftarrow> ocf_refcnt_dec rc;
     Some rc }"

definition ocf_refcnt_unfreeze :: "ocf_refcnt \<Rightarrow> ocf_refcnt option" where
  "ocf_refcnt_unfreeze rc = do {
     let val = rc_freeze rc - 1;
     bug_on (val < 0);
     Some (rc\<lparr>rc_freeze := val\<rparr>) }"

definition ocf_refcnt_frozen :: "ocf_refcnt \<Rightarrow> bool" where
  "ocf_refcnt_frozen rc = (rc_freeze rc \<noteq> 0)"

subsection \<open>The counter in use\<close>

text \<open>
  The steps of the threads that use one counter. \<open>held\<close> is the number of references that have
  been given out and not returned; \<open>armed\<close> is the number of callbacks registered so far. A
  thread returns only what it holds, and registers a callback only while the counter is frozen
  and no other one is registered.
\<close>

inductive rc_step :: "ocf_refcnt \<times> nat \<times> nat \<Rightarrow> ocf_refcnt \<times> nat \<times> nat \<Rightarrow> bool" where
  get: "refcnt_inc_gen fz rc = Some (v, rc') \<Longrightarrow>
    rc_step (rc, held, armed) (rc', if v = 0 then held else held + 1, armed)"
| put: "0 < held \<Longrightarrow> ocf_refcnt_dec rc = Some (v, rc') \<Longrightarrow> rc_step (rc, held, armed) (rc', held - 1, armed)"
| freeze: "rc_step (rc, held, armed) (ocf_refcnt_freeze rc, held, armed)"
| unfreeze: "ocf_refcnt_unfreeze rc = Some rc' \<Longrightarrow> rc_step (rc, held, armed) (rc', held, armed)"
| arm: "ocf_refcnt_register_zero_cb rc = Some rc' \<Longrightarrow> rc_step (rc, held, armed) (rc', held, armed + 1)"

inductive_cases rc_stepE: "rc_step s s'"

definition rc_inv :: "ocf_refcnt \<times> nat \<times> nat \<Rightarrow> bool" where
  "rc_inv s = (case s of (rc, held, armed) \<Rightarrow>
     rc_counter rc = int held \<and> 0 \<le> rc_freeze rc \<and>
     rc_calls rc + (if rc_callback rc then 1 else 0) = armed \<and> (rc_callback rc \<longrightarrow> 0 < held))"

lemma rc_inv_init: "rc_inv (ocf_refcnt_init, 0, 0)"
  by (simp add: rc_inv_def ocf_refcnt_init_def)

lemma rc_inv_step:
  assumes "rc_step s s'" and "rc_inv s"
  shows "rc_inv s'"
  using assms
proof (cases rule: rc_step.cases)
  case (get fz rc v rc' held armed)
  then show ?thesis using assms(2)
    by (auto simp: rc_inv_def refcnt_inc_gen_def ocf_refcnt_dec_def bind_eq_Some_conv Let_def split: if_splits)
next
  case (put held rc v rc' armed)
  then show ?thesis using assms(2)
    by (auto simp: rc_inv_def ocf_refcnt_dec_def Let_def split: if_splits)
next
  case (freeze rc held armed)
  then show ?thesis using assms(2) by (auto simp: rc_inv_def ocf_refcnt_freeze_def)
next
  case (unfreeze rc rc' held armed)
  then show ?thesis using assms(2) by (auto simp: rc_inv_def ocf_refcnt_unfreeze_def Let_def)
next
  case (arm rc rc' held armed)
  then show ?thesis using assms(2)
    by (auto simp: rc_inv_def ocf_refcnt_register_zero_cb_def ocf_refcnt_dec_def bind_eq_Some_conv Let_def split: if_splits)
qed

lemma rc_inv_reachable: "rc_step\<^sup>*\<^sup>* (ocf_refcnt_init, 0, 0) s \<Longrightarrow> rc_inv s"
  by (induction rule: rtranclp_induct) (auto intro: rc_inv_init rc_inv_step)

subsection \<open>Properties\<close>

text \<open>
  However the threads interleave, also when a freeze falls between the two tests of
  \<^verbatim>\<open>ocf_refcnt_inc\<close>, the counter equals the number of references held, returning a held reference
  never trips the assertion, and every registered callback has run exactly once or is still
  pending while references are held: it runs as soon as the last one is gone.
\<close>

theorem refcnt_exact:
  assumes "rc_step\<^sup>*\<^sup>* (ocf_refcnt_init, 0, 0) (rc, held, armed)"
  shows "rc_counter rc = int held \<and>
    (0 < held \<longrightarrow> ocf_refcnt_dec rc \<noteq> None) \<and>
    (held = 0 \<longrightarrow> rc_calls rc = armed) \<and>
    rc_calls rc \<le> armed \<and> armed \<le> rc_calls rc + 1"
  using rc_inv_reachable [OF assms] by (auto simp: rc_inv_def ocf_refcnt_dec_def Let_def split: if_splits)

theorem refcnt_exact_witness:
  "ocf_refcnt_dec \<lparr>rc_counter = 1, rc_freeze = 1, rc_callback = True, rc_calls = 0\<rparr> \<noteq> None"
proof -
  let ?a = "\<lparr>rc_counter = 1, rc_freeze = 0, rc_callback = False, rc_calls = 0\<rparr>"
  let ?b = "\<lparr>rc_counter = 1, rc_freeze = 1, rc_callback = False, rc_calls = 0\<rparr>"
  let ?c = "\<lparr>rc_counter = 1, rc_freeze = 1, rc_callback = True, rc_calls = 0\<rparr>"
  have "rc_step (ocf_refcnt_init, 0, 0) (?a, 1, 0)"
    using rc_step.get [of False ocf_refcnt_init 1 ?a 0 0]
    by (simp add: refcnt_inc_gen_def ocf_refcnt_init_def Let_def)
  moreover have "rc_step (?a, 1, 0) (?b, 1, 0)"
    using rc_step.freeze [of ?a 1 0] by (simp add: ocf_refcnt_freeze_def)
  moreover have "rc_step (?b, 1, 0) (?c, 1, 1)"
    using rc_step.arm [of ?b ?c 1 0] by (simp add: ocf_refcnt_register_zero_cb_def ocf_refcnt_dec_def Let_def)
  ultimately have "rc_step\<^sup>*\<^sup>* (ocf_refcnt_init, 0, 0) (?c, 1, 1)"
    by (meson rtranclp.rtrancl_into_rtrancl rtranclp.rtrancl_refl)
  from refcnt_exact [OF this] show ?thesis by simp
qed

text \<open>
  A frozen counter gives out no reference: the attempt returns zero and changes nothing.
\<close>

theorem refcnt_frozen_no_get:
  assumes "ocf_refcnt_frozen rc"
  shows "ocf_refcnt_inc rc = Some (0, rc)"
  using assms by (simp add: ocf_refcnt_inc_def refcnt_inc_gen_def ocf_refcnt_frozen_def)

theorem refcnt_frozen_no_get_witness:
  "ocf_refcnt_inc (ocf_refcnt_freeze ocf_refcnt_init) = Some (0, ocf_refcnt_freeze ocf_refcnt_init)"
  by (rule refcnt_frozen_no_get) (simp add: ocf_refcnt_frozen_def ocf_refcnt_freeze_def ocf_refcnt_init_def)

end
