(* ===== verification/Request.thy ===== *)
theory Request
  imports Collision Refcnt
begin

section \<open>Requests and cache line geometry\<close>

text \<open>
  Model of \<^verbatim>\<open>src/ocf_request.c\<close>, \<^verbatim>\<open>src/ocf_request.h\<close> and of the conversions between bytes,
  sectors and cache lines of \<^verbatim>\<open>src/utils/utils_cache_line.h\<close>. A request describes a byte range
  of a core; its map has one entry for every core line the range touches. The theory shows
  that the map covers exactly the touched lines and sectors, and that the memory of a request
  goes back to the pool it came from.
\<close>

subsection \<open>Cache line settings\<close>

record line_settings =
  ls_size :: nat
  ls_sector_count :: nat
  ls_sector_start :: nat
  ls_sector_end :: nat

definition PAGE_SIZE :: nat where "PAGE_SIZE = 4096"

definition BYTES_TO_SECTORS :: "nat \<Rightarrow> nat" where
  "BYTES_TO_SECTORS x = x div 512"

definition ocf_cache_line_size_is_valid :: "nat \<Rightarrow> bool" where
  "ocf_cache_line_size_is_valid sz =
     (sz = 4096 \<or> sz = 8192 \<or> sz = 16384 \<or> sz = 32768 \<or> sz = 65536)"

definition ocf_metadata_config_init :: "nat \<Rightarrow> line_settings option" where
  "ocf_metadata_config_init sz = do {
     bug_on (\<not> ocf_cache_line_size_is_valid sz);
     Some \<lparr>ls_size = sz, ls_sector_count = BYTES_TO_SECTORS sz, ls_sector_start = 0,
           ls_sector_end = BYTES_TO_SECTORS sz - 1\<rparr> }"

definition ocf_line_size :: "line_settings \<Rightarrow> nat" where
  "ocf_line_size st = ls_size st"

definition ocf_line_pages :: "line_settings \<Rightarrow> nat" where
  "ocf_line_pages st = ls_size st div PAGE_SIZE"

definition ocf_line_sectors :: "line_settings \<Rightarrow> nat" where
  "ocf_line_sectors st = ls_sector_count st"

definition ocf_line_end_sector :: "line_settings \<Rightarrow> nat" where
  "ocf_line_end_sector st = ls_sector_end st"

definition ocf_line_start_sector :: "line_settings \<Rightarrow> nat" where
  "ocf_line_start_sector st = ls_sector_start st"

text \<open>Byte counts are 64 bit; the subtraction comes last and may wrap as well.\<close>

definition ocf_bytes_round_lines :: "line_settings \<Rightarrow> nat \<Rightarrow> nat" where
  "ocf_bytes_round_lines st bytes =
     ((bytes + ocf_line_size st + (U64_MOD - 1)) mod U64_MOD) div ocf_line_size st"

definition ocf_bytes_2_lines :: "line_settings \<Rightarrow> nat \<Rightarrow> nat" where
  "ocf_bytes_2_lines st bytes = bytes div ocf_line_size st"

definition ocf_bytes_2_lines_round_up :: "line_settings \<Rightarrow> nat \<Rightarrow> nat" where
  "ocf_bytes_2_lines_round_up st bytes =
     ((bytes + ocf_line_size st + (U64_MOD - 1)) mod U64_MOD) div ocf_line_size st"

definition ocf_lines_2_bytes :: "line_settings \<Rightarrow> nat \<Rightarrow> nat" where
  "ocf_lines_2_bytes st lines = (lines * ocf_line_size st) mod U64_MOD"

subsection \<open>The request\<close>

datatype lookup_status = LOOKUP_NONE | LOOKUP_HIT | LOOKUP_MISS | LOOKUP_MAPPED

record ocf_map_info =
  mi_hash :: nat
  mi_coll_idx :: cline
  mi_core_line :: core_line
  mi_core_id :: core_id
  mi_status :: lookup_status
  mi_rd_locked :: bool
  mi_wr_locked :: bool
  mi_invalid :: bool
  mi_re_part :: bool
  mi_flush :: bool
  mi_start_flush :: nat
  mi_stop_flush :: nat

definition map_info_zero :: ocf_map_info where
  "map_info_zero = \<lparr>mi_hash = 0, mi_coll_idx = 0, mi_core_line = 0, mi_core_id = 0,
     mi_status = LOOKUP_NONE, mi_rd_locked = False, mi_wr_locked = False, mi_invalid = False,
     mi_re_part = False, mi_flush = False, mi_start_flush = 0, mi_stop_flush = 0\<rparr>"

record ocf_req_info =
  ri_hit_no :: nat
  ri_invalid_no :: nat
  ri_dirty_all :: nat
  ri_dirty_any :: nat
  ri_seq_req :: bool
  ri_flush_metadata :: bool
  ri_mapping_error :: bool
  ri_re_part :: bool
  ri_core_error :: bool
  ri_cleaner_cache_line_lock :: bool
  ri_internal :: bool

definition req_info_zero :: ocf_req_info where
  "req_info_zero = \<lparr>ri_hit_no = 0, ri_invalid_no = 0, ri_dirty_all = 0, ri_dirty_any = 0,
     ri_seq_req = False, ri_flush_metadata = False, ri_mapping_error = False, ri_re_part = False,
     ri_core_error = False, ri_cleaner_cache_line_lock = False, ri_internal = False\<rparr>"

record ocf_req_discard_info =
  dc_sector :: nat
  dc_nr_sects :: nat
  dc_handled :: nat

text \<open>
  The data pointers, completion callbacks and trace fields of a request are not part of the
  model. \<open>rq_mngt\<close> says that the request's queue is the management queue of the cache. \<open>rq_map\<close>
  is the map array, \<^const>\<open>None\<close> for a null pointer.
\<close>

record ocf_request =
  rq_ref_count :: int
  rq_lock_remaining :: int
  rq_req_remaining :: int
  rq_core_id :: core_id
  rq_cache_mode :: cache_mode
  rq_byte_position :: nat
  rq_core_line_first :: core_line
  rq_core_line_last :: core_line
  rq_byte_length :: nat
  rq_core_line_count :: nat
  rq_alloc_core_line_count :: nat
  rq_error :: int
  rq_part_id :: part_id
  rq_rw :: nat
  rq_d2c :: bool
  rq_dirty :: bool
  rq_seq_cutoff :: bool
  rq_data_admit_allowed :: bool
  rq_load_admit_allowed :: bool
  rq_mngt :: bool
  rq_info :: ocf_req_info
  rq_discard :: ocf_req_discard_info
  rq_map :: "ocf_map_info list option"

definition request_zero :: ocf_request where
  "request_zero = \<lparr>rq_ref_count = 0, rq_lock_remaining = 0, rq_req_remaining = 0, rq_core_id = 0,
     rq_cache_mode = 0, rq_byte_position = 0, rq_core_line_first = 0, rq_core_line_last = 0,
     rq_byte_length = 0, rq_core_line_count = 0, rq_alloc_core_line_count = 0, rq_error = 0,
     rq_part_id = 0, rq_rw = 0, rq_d2c = False, rq_dirty = False, rq_seq_cutoff = False,
     rq_data_admit_allowed = False, rq_load_admit_allowed = False, rq_mngt = False,
     rq_info = req_info_zero, rq_discard = \<lparr>dc_sector = 0, dc_nr_sects = 0, dc_handled = 0\<rparr>,
     rq_map = None\<rparr>"

text \<open>
  What a request shares with the rest of the cache: the settings, the two reference counters,
  the queue's reference count, the number of objects taken from each of the eight request
  pools, and the number of maps allocated on their own.
\<close>

record req_ctx =
  rx_line :: line_settings
  rx_metadata :: ocf_refcnt
  rx_dirty :: ocf_refcnt
  rx_queue :: int
  rx_pool :: "nat \<Rightarrow> int"
  rx_maps :: int

definition OCF_ERR_NO_MEM :: int where "OCF_ERR_NO_MEM = 1000004"
definition OCF_ERR_AGAIN :: int where "OCF_ERR_AGAIN = 1000001"
definition OCF_READ :: nat where "OCF_READ = 0"
definition OCF_WRITE :: nat where "OCF_WRITE = 1"
definition MAX_TRIM_RQ_SIZE :: nat where "MAX_TRIM_RQ_SIZE = 524288"
definition ocf_req_size_max :: nat where "ocf_req_size_max = 8"

subsection \<open>Pools\<close>

text \<open>\<^verbatim>\<open>31 - __builtin_clz\<close> is the index of the highest set bit, \<^verbatim>\<open>__builtin_ffs\<close> one plus the
  index of the lowest.\<close>

fun highest_bit :: "nat \<Rightarrow> nat" where
  "highest_bit n = (if n \<le> 1 then 0 else Suc (highest_bit (n div 2)))"

fun builtin_ffs :: "nat \<Rightarrow> nat" where
  "builtin_ffs n = (if n = 0 then 0 else if odd n then 1 else Suc (builtin_ffs (n div 2)))"

declare highest_bit.simps [simp del] builtin_ffs.simps [simp del]

text \<open>
  The index of the pool for a request of \<open>count\<close> lines; \<^const>\<open>None\<close> inside the result when no pool
  is large enough. The code takes \<^verbatim>\<open>__builtin_clz\<close> of the count before it asserts that the count
  is not zero.
\<close>

definition ocf_req_get_allocator :: "nat \<Rightarrow> nat option option" where
  "ocf_req_get_allocator count = do {
     let idx = highest_bit count;
     let idx = (if builtin_ffs count \<le> idx then idx + 1 else idx);
     bug_on (count = 0);
     if idx \<ge> ocf_req_size_max then Some None else Some (Some idx) }"

definition pool_inc :: "nat \<Rightarrow> int \<Rightarrow> req_ctx \<Rightarrow> req_ctx" where
  "pool_inc i d x = x\<lparr>rx_pool := (rx_pool x)(i := rx_pool x i + d)\<rparr>"

subsection \<open>Operations\<close>

text \<open>
  \<open>ocf_req_new\<close>: \<open>got\<close> tells whether the allocation succeeds; on failure the code returns a
  null pointer, here an inner \<^const>\<open>None\<close>. Pools hand out zeroed memory.
\<close>

definition req_lines :: "line_settings \<Rightarrow> nat \<Rightarrow> nat \<Rightarrow> nat \<times> nat \<times> nat" where
  "req_lines st addr bytes =
     (if bytes \<noteq> 0 then
        (let core_line_first = ocf_bytes_2_lines st addr;
             core_line_last = ocf_bytes_2_lines st ((addr + bytes - 1) mod U64_MOD)
         in (core_line_first, core_line_last,
             (core_line_last + U64_MOD - core_line_first + 1) mod U64_MOD))
      else (let core_line_first = ocf_bytes_2_lines st addr in (core_line_first, core_line_first, 1)))"

definition ocf_req_new ::
  "req_ctx \<Rightarrow> bool \<Rightarrow> bool \<Rightarrow> core_id \<Rightarrow> nat \<Rightarrow> nat \<Rightarrow> nat \<Rightarrow> (ocf_request option \<times> req_ctx) option" where
  "ocf_req_new x got mngt core addr bytes rw = do {
     let (core_line_first, core_line_last, core_line_count) = req_lines (rx_line x) addr bytes;
     allocator \<leftarrow> ocf_req_get_allocator (core_line_count mod U32_MOD);
     let pool = (case allocator of Some i \<Rightarrow> i | None \<Rightarrow> 0);
     if \<not> got then Some (None, x)
     else do {
       let x = pool_inc pool 1 x;
       let x = x\<lparr>rx_queue := rx_queue x + 1\<rparr>;
       (d2c, x) \<leftarrow> (if mngt then Some (False, x)
                    else do {
                      (v, rc) \<leftarrow> ocf_refcnt_inc (rx_metadata x);
                      Some (v = 0, x\<lparr>rx_metadata := rc\<rparr>) });
       Some (Some (request_zero\<lparr>
         rq_map := map_option (\<lambda>i. replicate (2 ^ i) map_info_zero) allocator,
         rq_mngt := mngt, rq_core_id := core, rq_d2c := d2c, rq_ref_count := 1,
         rq_byte_position := addr, rq_byte_length := bytes,
         rq_core_line_first := core_line_first, rq_core_line_last := core_line_last,
         rq_core_line_count := core_line_count mod U32_MOD,
         rq_alloc_core_line_count := core_line_count mod U32_MOD,
         rq_rw := rw mod 2, rq_part_id := PARTITION_DEFAULT,
         rq_discard := \<lparr>dc_sector = BYTES_TO_SECTORS addr, dc_nr_sects = BYTES_TO_SECTORS bytes,
                        dc_handled = 0\<rparr>\<rparr>), x) } }"

definition ocf_req_alloc_map :: "req_ctx \<Rightarrow> bool \<Rightarrow> ocf_request \<Rightarrow> (int \<times> ocf_request \<times> req_ctx) option" where
  "ocf_req_alloc_map x got req =
     (if rq_map req \<noteq> None then Some (0, req, x)
      else do {
        bug_on (rq_core_line_count req = 0);
        if got then Some (0, req\<lparr>rq_map := Some (replicate (rq_core_line_count req) map_info_zero)\<rparr>,
                          x\<lparr>rx_maps := rx_maps x + 1\<rparr>)
        else Some (- OCF_ERR_NO_MEM, req\<lparr>rq_error := - OCF_ERR_NO_MEM\<rparr>, x) })"

definition ocf_req_alloc_map_discard :: "req_ctx \<Rightarrow> bool \<Rightarrow> ocf_request \<Rightarrow> (int \<times> ocf_request \<times> req_ctx) option" where
  "ocf_req_alloc_map_discard x got req =
     (if rq_byte_length req \<le> MAX_TRIM_RQ_SIZE then ocf_req_alloc_map x got req
      else do {
        let req = req\<lparr>rq_byte_length := MAX_TRIM_RQ_SIZE\<rparr>;
        let req = req\<lparr>rq_core_line_last := ocf_bytes_2_lines (rx_line x)
                      ((rq_byte_position req + rq_byte_length req - 1) mod U64_MOD)\<rparr>;
        let req = req\<lparr>rq_core_line_count :=
                      (rq_core_line_last req + U64_MOD - rq_core_line_first req + 1) mod U32_MOD\<rparr>;
        ocf_req_alloc_map x got req })"

definition ocf_req_get :: "ocf_request \<Rightarrow> ocf_request" where
  "ocf_req_get req = req\<lparr>rq_ref_count := rq_ref_count req + 1\<rparr>"

text \<open>\<open>ocf_req_put\<close>: the first component of the result is \<^const>\<open>None\<close> once the request is freed.\<close>

definition ocf_req_put :: "req_ctx \<Rightarrow> ocf_request \<Rightarrow> (ocf_request option \<times> req_ctx) option" where
  "ocf_req_put x req = do {
     let req = req\<lparr>rq_ref_count := rq_ref_count req - 1\<rparr>;
     if rq_ref_count req \<noteq> 0 then Some (Some req, x)
     else do {
       x \<leftarrow> (if \<not> rq_d2c req \<and> \<not> rq_mngt req then do {
                (_, rc) \<leftarrow> ocf_refcnt_dec (rx_metadata x);
                Some (x\<lparr>rx_metadata := rc\<rparr>) }
              else Some x);
       allocator \<leftarrow> ocf_req_get_allocator (rq_alloc_core_line_count req);
       let x = (case allocator of
                  Some i \<Rightarrow> pool_inc i (- 1) x
                | None \<Rightarrow> pool_inc 0 (- 1)
                    (if rq_map req = None then x else x\<lparr>rx_maps := rx_maps x - 1\<rparr>));
       Some (None, x\<lparr>rx_queue := rx_queue x - 1\<rparr>) } }"

definition ocf_req_new_extended ::
  "req_ctx \<Rightarrow> bool \<Rightarrow> bool \<Rightarrow> bool \<Rightarrow> core_id \<Rightarrow> nat \<Rightarrow> nat \<Rightarrow> nat \<Rightarrow> (ocf_request option \<times> req_ctx) option" where
  "ocf_req_new_extended x got gotmap mngt core addr bytes rw = do {
     (r, x) \<leftarrow> ocf_req_new x got mngt core addr bytes rw;
     case r of
       None \<Rightarrow> Some (None, x)
     | Some req \<Rightarrow> do {
         (e, req, x) \<leftarrow> ocf_req_alloc_map x gotmap req;
         if e \<noteq> 0 then do { (_, x) \<leftarrow> ocf_req_put x req; Some (None, x) }
         else Some (Some req, x) } }"

definition ocf_req_new_discard ::
  "req_ctx \<Rightarrow> bool \<Rightarrow> bool \<Rightarrow> bool \<Rightarrow> core_id \<Rightarrow> nat \<Rightarrow> nat \<Rightarrow> nat \<Rightarrow> (ocf_request option \<times> req_ctx) option" where
  "ocf_req_new_discard x got gotmap mngt core addr bytes rw =
     ocf_req_new_extended x got gotmap mngt core addr (min bytes MAX_TRIM_RQ_SIZE) rw"

definition ocf_req_set_dirty :: "req_ctx \<Rightarrow> ocf_request \<Rightarrow> (int \<times> ocf_request \<times> req_ctx) option" where
  "ocf_req_set_dirty x req = do {
     (v, rc) \<leftarrow> ocf_refcnt_inc (rx_dirty x);
     let req = req\<lparr>rq_dirty := (v \<noteq> 0)\<rparr>;
     Some (if rq_dirty req then 0 else - OCF_ERR_AGAIN, req, x\<lparr>rx_dirty := rc\<rparr>) }"

definition ocf_req_clear_info :: "ocf_request \<Rightarrow> ocf_request" where
  "ocf_req_clear_info req = req\<lparr>rq_info := req_info_zero\<rparr>"

text \<open>Only the first \<open>rq_core_line_count\<close> entries of the map are cleared.\<close>

definition ocf_req_clear_map :: "ocf_request \<Rightarrow> ocf_request" where
  "ocf_req_clear_map req = req\<lparr>rq_map := map_option
     (\<lambda>m. replicate (rq_core_line_count req) map_info_zero @ drop (rq_core_line_count req) m) (rq_map req)\<rparr>"

definition ocf_req_clear :: "ocf_request \<Rightarrow> ocf_request" where
  "ocf_req_clear req = (ocf_req_clear_map (ocf_req_clear_info req))\<lparr>rq_lock_remaining := 0, rq_req_remaining := 0\<rparr>"

text \<open>
  A write beyond the end of the map (or to a null map) is out of bounds in C; the model fails.
\<close>

definition ocf_req_hash :: "coll_meta \<Rightarrow> ocf_request \<Rightarrow> ocf_request option" where
  "ocf_req_hash c req = fold_opt
     (\<lambda>i r. case rq_map r of
        None \<Rightarrow> None
      | Some m \<Rightarrow> if i < length m
          then Some (r\<lparr>rq_map := Some (m[i := (m ! i)\<lparr>mi_hash := ocf_metadata_hash_func c
                 ((rq_core_line_first r + i) mod U64_MOD) (rq_core_id r)\<rparr>])\<rparr>)
          else None)
     [0..<rq_core_line_count req] req"

definition ocf_req_ref_count :: "ocf_request \<Rightarrow> int" where
  "ocf_req_ref_count req = rq_ref_count req"

definition ocf_req_is_4k :: "nat \<Rightarrow> nat \<Rightarrow> bool" where
  "ocf_req_is_4k addr bytes = (addr mod PAGE_SIZE = 0 \<and> bytes mod PAGE_SIZE = 0)"

text \<open>The sector range of map entry \<open>line\<close>, with the results cut to 8 bits as in the code.\<close>

definition ocf_map_line_start_sector :: "line_settings \<Rightarrow> ocf_request \<Rightarrow> nat \<Rightarrow> nat" where
  "ocf_map_line_start_sector st req line =
     (if line = 0 then (BYTES_TO_SECTORS (rq_byte_position req) mod ocf_line_sectors st) mod U8_MOD
      else 0)"

definition ocf_map_line_end_sector :: "line_settings \<Rightarrow> ocf_request \<Rightarrow> nat \<Rightarrow> nat" where
  "ocf_map_line_end_sector st req line =
     (if line = (rq_core_line_count req + U32_MOD - 1) mod U32_MOD then
        (BYTES_TO_SECTORS ((rq_byte_position req + rq_byte_length req + U64_MOD - 1) mod U64_MOD)
           mod ocf_line_sectors st) mod U8_MOD
      else ocf_line_end_sector st mod U8_MOD)"

subsection \<open>Geometry lemmas\<close>

lemma config_init_values:
  assumes "ocf_metadata_config_init sz = Some st"
  shows "ls_size st = sz" "ls_sector_count st * 512 = sz" "ls_sector_start st = 0"
    "ls_sector_end st = ls_sector_count st - 1" "8 \<le> ls_sector_count st" "ls_sector_count st \<le> 128"
    "4096 \<le> sz" "ocf_cache_line_size_is_valid sz"
  using assms by (auto simp: ocf_metadata_config_init_def ocf_cache_line_size_is_valid_def BYTES_TO_SECTORS_def)

lemma highest_bit_bounds: "0 < n \<Longrightarrow> 2 ^ highest_bit n \<le> n \<and> n < 2 * 2 ^ highest_bit n"
proof (induction n rule: highest_bit.induct)
  case (1 n)
  show ?case
  proof (cases "n \<le> 1")
    case True
    with 1 show ?thesis by (simp add: highest_bit.simps [of n])
  next
    case False
    with 1 have "2 ^ highest_bit (n div 2) \<le> n div 2 \<and> n div 2 < 2 * 2 ^ highest_bit (n div 2)" by simp
    with False show ?thesis by (auto simp: highest_bit.simps [of n])
  qed
qed

lemma builtin_ffs_power: "0 < n \<Longrightarrow> (builtin_ffs n \<le> highest_bit n) = (n \<noteq> 2 ^ highest_bit n)"
proof (induction n rule: highest_bit.induct)
  case (1 n)
  show ?case
  proof (cases "n \<le> 1")
    case True
    with 1 show ?thesis by (simp add: highest_bit.simps [of n] builtin_ffs.simps [of n])
  next
    case big: False
    with 1 have IH: "(builtin_ffs (n div 2) \<le> highest_bit (n div 2)) = (n div 2 \<noteq> 2 ^ highest_bit (n div 2))"
      by simp
    show ?thesis
    proof (cases "odd n")
      case True
      from big have "even (2 ^ highest_bit n :: nat)" by (simp add: highest_bit.simps [of n])
      with True have "n \<noteq> 2 ^ highest_bit n" by metis
      with big True show ?thesis by (simp add: highest_bit.simps [of n] builtin_ffs.simps [of n])
    next
      case False
      then have "(n = 2 * 2 ^ highest_bit (n div 2)) = (n div 2 = 2 ^ highest_bit (n div 2))"
        by (metis dvd_mult_div_cancel nonzero_mult_div_cancel_left zero_neq_numeral)
      with big False IH show ?thesis by (simp add: highest_bit.simps [of n] builtin_ffs.simps [of n])
    qed
  qed
qed

definition pool_index :: "nat \<Rightarrow> nat" where
  "pool_index count = (if builtin_ffs count \<le> highest_bit count then highest_bit count + 1 else highest_bit count)"

lemma pool_index_fits: "0 < count \<Longrightarrow> count \<le> 2 ^ pool_index count"
  using highest_bit_bounds [of count] builtin_ffs_power [of count] by (auto simp: pool_index_def)

lemma pool_index_least:
  assumes "0 < count" and "count \<le> 2 ^ j"
  shows "pool_index count \<le> j"
proof -
  let ?h = "highest_bit count"
  have b: "2 ^ ?h \<le> count" using highest_bit_bounds assms(1) by blast
  with assms(2) have "(2::nat) ^ ?h \<le> 2 ^ j" by linarith
  then have "?h \<le> j" by (simp add: power_le_imp_le_exp)
  moreover have "?h \<noteq> j" if "builtin_ffs count \<le> ?h"
    using b assms builtin_ffs_power [of count] that by auto
  ultimately show ?thesis by (auto simp: pool_index_def)
qed

lemma req_get_allocator_code:
  "0 < count \<Longrightarrow> ocf_req_get_allocator count =
     Some (if ocf_req_size_max \<le> pool_index count then None else Some (pool_index count))"
  by (simp add: ocf_req_get_allocator_def pool_index_def Let_def)

text \<open>The lines of a byte range that does not pass the end of the 64 bit address space.\<close>

lemma req_lines_values:
  assumes "ocf_metadata_config_init sz = Some st" and "0 < bytes" and "addr + bytes \<le> U64_MOD"
    and "bytes < U32_MOD"
  shows "req_lines st addr bytes =
    (addr div sz, (addr + bytes - 1) div sz, (addr + bytes - 1) div sz - addr div sz + 1)"
    and "(addr + bytes - 1) div sz - addr div sz + 1 < U32_MOD"
    and "addr div sz \<le> (addr + bytes - 1) div sz"
proof -
  note c = config_init_values [OF assms(1)]
  have mono: "addr div sz \<le> (addr + bytes - 1) div sz" using assms(2) by (intro div_le_mono) simp
  have "(addr + bytes - 1) div sz \<le> (addr + U32_MOD) div sz" using assms(4) by (intro div_le_mono) simp
  also have "\<dots> \<le> addr div sz + U32_MOD div sz + 1"
  proof -
    have "addr mod sz + U32_MOD mod sz < 2 * sz"
      using c(7) mod_less_divisor [of sz addr] mod_less_divisor [of sz U32_MOD] by linarith
    then have "(addr mod sz + U32_MOD mod sz) div sz < 2" by (rule less_mult_imp_div_less)
    then show ?thesis using div_add1_eq [of addr U32_MOD sz] by linarith
  qed
  finally have "(addr + bytes - 1) div sz - addr div sz \<le> U32_MOD div sz + 1" by linarith
  moreover have "U32_MOD div sz \<le> U32_MOD div 4096" using c(7) by (intro div_le_mono2) auto
  ultimately show count: "(addr + bytes - 1) div sz - addr div sz + 1 < U32_MOD" by simp
  show "addr div sz \<le> (addr + bytes - 1) div sz" by (rule mono)
  have nowrap: "(addr + bytes - 1) mod U64_MOD = addr + bytes - 1" using assms(2,3) by simp
  have "((addr + bytes - 1) div sz + U64_MOD - addr div sz + 1) mod U64_MOD =
    ((addr + bytes - 1) div sz - addr div sz + 1 + U64_MOD) mod U64_MOD"
    using mono by (intro arg_cong [where f = "\<lambda>n. n mod U64_MOD"]) linarith
  also have "\<dots> = (addr + bytes - 1) div sz - addr div sz + 1"
    unfolding mod_add_self2 by (rule mod_less) (use count in linarith)
  finally show "req_lines st addr bytes =
    (addr div sz, (addr + bytes - 1) div sz, (addr + bytes - 1) div sz - addr div sz + 1)"
    using assms(2) nowrap c(1) by (simp add: req_lines_def ocf_bytes_2_lines_def ocf_line_size_def Let_def)
qed

lemma refcnt_inc_put_back:
  assumes "ocf_refcnt_inc rc = Some (v, rc')" and "0 \<le> rc_counter rc"
  shows "if v = 0 then rc' = rc
         else (rc_callback rc \<longrightarrow> 0 < rc_counter rc) \<longrightarrow> ocf_refcnt_dec rc' = Some (rc_counter rc, rc)"
  using assms by (auto simp: ocf_refcnt_inc_def refcnt_inc_gen_def ocf_refcnt_dec_def Let_def split: if_splits)

lemma refcnt_inc_total: "ocf_refcnt_inc rc \<noteq> None"
  by (simp add: ocf_refcnt_inc_def refcnt_inc_gen_def Let_def)

lemma refcnt_inc_cases:
  obtains "ocf_refcnt_inc rc = Some (0, rc)" "rc_freeze rc \<noteq> 0"
  | "rc_freeze rc = 0"
    "ocf_refcnt_inc rc = Some (rc_counter rc + 1, rc\<lparr>rc_counter := rc_counter rc + 1\<rparr>)"
  by (auto simp: ocf_refcnt_inc_def refcnt_inc_gen_def Let_def)

lemma req_new_result:
  assumes "req_lines (rx_line x) addr bytes = (f, l, n)" and "0 < n" and "n < U32_MOD"
    and "ocf_req_new x got mngt core addr bytes rw = Some (Some req, x')"
  shows "rq_core_line_first req = f" "rq_core_line_last req = l" "rq_core_line_count req = n"
    "rq_byte_position req = addr" "rq_byte_length req = bytes"
    "rq_map req = (if ocf_req_size_max \<le> pool_index n then None
                   else Some (replicate (2 ^ pool_index n) map_info_zero))"
proof -
  have nm: "n mod U32_MOD = n" using assms(3) by simp
  from assms(4) show "rq_core_line_first req = f" "rq_core_line_last req = l" "rq_core_line_count req = n"
    "rq_byte_position req = addr" "rq_byte_length req = bytes"
    "rq_map req = (if ocf_req_size_max \<le> pool_index n then None
                   else Some (replicate (2 ^ pool_index n) map_info_zero))"
    unfolding ocf_req_new_def assms(1)
    by (cases got; cases mngt; simp add: nm req_get_allocator_code assms(2) bind_eq_Some_conv Let_def split_beta; force)+
qed

text \<open>Every request that could be made, of whatever size: a line count that wraps to 0 fails the assertion of the allocator.\<close>

lemma req_new_context:
  assumes "ocf_req_new x True mngt core addr bytes rw = Some (Some req, x')"
  obtains n rc where "0 < n" "rq_ref_count req = 1" "rq_alloc_core_line_count req = n" "rq_mngt req = mngt"
    "rq_map req = (if ocf_req_size_max \<le> pool_index n then None else Some (replicate (2 ^ pool_index n) map_info_zero))"
    "x' = (pool_inc (if ocf_req_size_max \<le> pool_index n then 0 else pool_index n) 1 x)
            \<lparr>rx_queue := rx_queue x + 1, rx_metadata := rc\<rparr>"
    "if mngt then rc = rx_metadata x else \<exists>v. ocf_refcnt_inc (rx_metadata x) = Some (v, rc) \<and> rq_d2c req = (v = 0)"
proof -
  obtain f l n where ln: "req_lines (rx_line x) addr bytes = (f, l, n)" by (metis prod_cases3)
  have n: "0 < n mod U32_MOD" using assms by (cases "n mod U32_MOD = 0") (auto simp: ocf_req_new_def ln ocf_req_get_allocator_def Let_def)
  obtain v rc where rc: "ocf_refcnt_inc (rx_metadata x) = Some (v, rc)"
    using refcnt_inc_total [of "rx_metadata x"] by auto
  from assms show ?thesis
    unfolding ocf_req_new_def ln
    by (cases mngt; intro that [of "n mod U32_MOD" "if mngt then rx_metadata x else rc", OF n])
      (auto simp: rc req_get_allocator_code n pool_inc_def Let_def)
qed

lemma req_new_extended_result:
  assumes "req_lines (rx_line x) addr bytes = (f, l, n)" and "0 < n" and "n < U32_MOD"
    and "ocf_req_new_extended x got gotmap mngt core addr bytes rw = Some (Some req, x')"
  shows "rq_core_line_first req = f" "rq_core_line_last req = l" "rq_core_line_count req = n"
    "rq_byte_position req = addr" "rq_byte_length req = bytes"
    "\<exists>m. rq_map req = Some m \<and> n \<le> length m"
proof -
  from assms(4) obtain r y where r: "ocf_req_new x got mngt core addr bytes rw = Some (Some r, y)"
    and a: "ocf_req_alloc_map y gotmap r = Some (0, req, x')"
    by (auto simp: ocf_req_new_extended_def bind_eq_Some_conv split: option.splits if_splits)
  note n = req_new_result [OF assms(1-3) r]
  have fit: "n \<le> 2 ^ pool_index n" by (rule pool_index_fits [OF assms(2)])
  from a n fit show "rq_core_line_first req = f" "rq_core_line_last req = l" "rq_core_line_count req = n"
    "rq_byte_position req = addr" "rq_byte_length req = bytes"
    "\<exists>m. rq_map req = Some m \<and> n \<le> length m"
    by (auto simp: ocf_req_alloc_map_def OCF_ERR_NO_MEM_def split: if_splits)
qed

lemma lines_of_bytes:
  fixes sz :: nat
  assumes "0 < sz" and "0 < bytes"
  shows "{addr div sz .. (addr + bytes - 1) div sz} = (\<lambda>b. b div sz) ` {addr ..< addr + bytes}"
proof (intro equalityI subsetI)
  fix l assume "l \<in> {addr div sz .. (addr + bytes - 1) div sz}"
  then have l: "addr div sz \<le> l" "l \<le> (addr + bytes - 1) div sz" by simp_all
  show "l \<in> (\<lambda>b. b div sz) ` {addr ..< addr + bytes}"
  proof (cases "l = addr div sz")
    case True
    then show ?thesis using assms(2) by (intro image_eqI [of _ _ addr]) auto
  next
    case False
    with l(1) have "addr div sz < l" by simp
    then have "addr < l * sz" using assms(1) div_less_iff_less_mult by blast
    moreover have "l * sz \<le> addr + bytes - 1"
      using l(2) by (metis div_times_less_eq_dividend le_trans mult_le_mono1)
    ultimately show ?thesis using assms by (intro image_eqI [of _ _ "l * sz"]) auto
  qed
next
  fix l assume "l \<in> (\<lambda>b. b div sz) ` {addr ..< addr + bytes}"
  then show "l \<in> {addr div sz .. (addr + bytes - 1) div sz}" by (auto intro!: div_le_mono)
qed

lemma req_hash_total:
  assumes "rq_map req = Some m" and "rq_core_line_count req \<le> length m"
  shows "ocf_req_hash c req \<noteq> None"
proof -
  have "\<exists>r. ocf_req_hash c req = Some r \<and> (\<exists>k. rq_map r = Some k \<and> length k = length m)"
    unfolding ocf_req_hash_def
    by (rule fold_opt_total) (use assms in auto)
  then show ?thesis by auto
qed

lemma alloc_map_frame:
  assumes "ocf_req_alloc_map x got r = Some (e, r', x')"
  shows "rq_ref_count r' = rq_ref_count r" "rq_alloc_core_line_count r' = rq_alloc_core_line_count r"
    "rq_mngt r' = rq_mngt r" "rq_d2c r' = rq_d2c r"
    "rq_map r \<noteq> None \<Longrightarrow> x' = x"
    "rq_map r = None \<Longrightarrow> x' = x\<lparr>rx_maps := rx_maps x + (if rq_map r' = None then 0 else 1)\<rparr>"
  using assms by (cases "rq_map r"; cases got; auto simp: ocf_req_alloc_map_def split: if_splits)+

lemma alloc_map_discard_frame:
  assumes "ocf_req_alloc_map_discard x got r = Some (e, r', x')"
  shows "rq_ref_count r' = rq_ref_count r" "rq_alloc_core_line_count r' = rq_alloc_core_line_count r"
    "rq_mngt r' = rq_mngt r" "rq_d2c r' = rq_d2c r"
    "rq_map r \<noteq> None \<Longrightarrow> x' = x"
    "rq_map r = None \<Longrightarrow> x' = x\<lparr>rx_maps := rx_maps x + (if rq_map r' = None then 0 else 1)\<rparr>"
proof -
  obtain q where q: "ocf_req_alloc_map x got q = Some (e, r', x')"
    and "rq_ref_count q = rq_ref_count r" "rq_alloc_core_line_count q = rq_alloc_core_line_count r"
    "rq_mngt q = rq_mngt r" "rq_d2c q = rq_d2c r" "rq_map q = rq_map r"
  proof (cases "rq_byte_length r \<le> MAX_TRIM_RQ_SIZE")
    case True
    show ?thesis using assms True by (intro that [of r]) (simp_all add: ocf_req_alloc_map_discard_def)
  next
    case False
    show ?thesis using assms False
      by (intro that) (simp add: ocf_req_alloc_map_discard_def Let_def, simp_all)
  qed
  then show "rq_ref_count r' = rq_ref_count r" "rq_alloc_core_line_count r' = rq_alloc_core_line_count r"
    "rq_mngt r' = rq_mngt r" "rq_d2c r' = rq_d2c r"
    "rq_map r \<noteq> None \<Longrightarrow> x' = x"
    "rq_map r = None \<Longrightarrow> x' = x\<lparr>rx_maps := rx_maps x + (if rq_map r' = None then 0 else 1)\<rparr>"
    using alloc_map_frame [OF q] by simp_all
qed

definition sample_ctx :: req_ctx where
  "sample_ctx = \<lparr>rx_line = \<lparr>ls_size = 4096, ls_sector_count = 8, ls_sector_start = 0, ls_sector_end = 7\<rparr>,
     rx_metadata = ocf_refcnt_init, rx_dirty = ocf_refcnt_init, rx_queue = 1, rx_pool = (\<lambda>_. 0), rx_maps = 0\<rparr>"

lemma sample_config: "ocf_metadata_config_init 4096 = Some (rx_line sample_ctx)"
  by (simp add: sample_ctx_def ocf_metadata_config_init_def ocf_cache_line_size_is_valid_def BYTES_TO_SECTORS_def)

lemma sample_request: "\<exists>req x'. ocf_req_new_extended sample_ctx True True False 1 4000 5000 1 = Some (Some req, x')"
  by (simp add: sample_ctx_def ocf_req_new_extended_def ocf_req_new_def req_lines_def ocf_bytes_2_lines_def ocf_line_size_def
      ocf_req_get_allocator_def highest_bit.simps builtin_ffs.simps ocf_req_size_max_def pool_inc_def
      ocf_refcnt_inc_def refcnt_inc_gen_def ocf_refcnt_init_def ocf_req_alloc_map_def Let_def)

subsection \<open>Properties\<close>

text \<open>
  The pool of a request of \<open>count\<close> lines is the smallest of the eight power-of-two pools that
  holds the lines; there is none exactly for more than 128 lines. The assertion on an empty
  request never fails for a positive count.
\<close>

theorem req_get_allocator_least:
  assumes "0 < count"
  shows "\<exists>r. ocf_req_get_allocator count = Some r \<and>
    (case r of Some i \<Rightarrow> i < ocf_req_size_max \<and> count \<le> 2 ^ i \<and> (\<forall>j. count \<le> 2 ^ j \<longrightarrow> i \<le> j)
             | None \<Rightarrow> 128 < count)"
proof (cases "ocf_req_size_max \<le> pool_index count")
  case True
  have "128 < count"
    using pool_index_least [OF assms, of 7] True by (force simp: ocf_req_size_max_def not_le)
  with True assms show ?thesis by (simp add: req_get_allocator_code)
next
  case False
  with assms show ?thesis
    using pool_index_fits pool_index_least by (auto simp: req_get_allocator_code)
qed

theorem req_get_allocator_least_witness:
  "\<exists>r. ocf_req_get_allocator 9 = Some r \<and>
    (case r of Some i \<Rightarrow> i < ocf_req_size_max \<and> (9::nat) \<le> 2 ^ i | None \<Rightarrow> 128 < (9::nat))"
proof -
  obtain r where "ocf_req_get_allocator 9 = Some r"
    "case r of Some i \<Rightarrow> i < ocf_req_size_max \<and> 9 \<le> (2::nat) ^ i \<and> (\<forall>j. 9 \<le> (2::nat) ^ j \<longrightarrow> i \<le> j)
       | None \<Rightarrow> 128 < (9::nat)"
    using req_get_allocator_least [of 9] by auto
  then show ?thesis by (cases r) auto
qed

text \<open>
  A request made for a non-empty byte range inside the 64 bit address space covers exactly
  the core lines its bytes fall into: its line numbers run from the first to the last of them, the
  line count is their number, and, when the map is there, the map has at least that many entries,
  so that hashing the lines stays inside the map.
\<close>

theorem req_new_covers_lines:
  assumes "ocf_metadata_config_init sz = Some (rx_line x)" and "0 < bytes" and "bytes < U32_MOD"
    and "addr + bytes \<le> U64_MOD"
    and "ocf_req_new_extended x got gotmap mngt core addr bytes rw = Some (Some req, x')"
  shows "{rq_core_line_first req .. rq_core_line_last req} = (\<lambda>b. b div sz) ` {addr ..< addr + bytes} \<and>
    rq_core_line_count req = card ((\<lambda>b. b div sz) ` {addr ..< addr + bytes}) \<and>
    (\<exists>m. rq_map req = Some m \<and> rq_core_line_count req \<le> length m) \<and>
    ocf_req_hash c req \<noteq> None"
proof -
  note ln = req_lines_values [OF assms(1,2,4,3)] and cf = config_init_values [OF assms(1)]
  note r = req_new_extended_result [OF ln(1) _ ln(2) assms(5), simplified]
  have "0 < sz" using cf(7) by simp
  note img = lines_of_bytes [OF this assms(2), of addr]
  have "card ((\<lambda>b. b div sz) ` {addr ..< addr + bytes}) = (addr + bytes - 1) div sz - addr div sz + 1"
    unfolding img [symmetric] using ln(3) by simp
  then show ?thesis using r img req_hash_total [of req] by auto
qed

theorem req_new_covers_lines_witness:
  "\<exists>req x'. ocf_req_new_extended sample_ctx True True False 1 4000 5000 1 = Some (Some req, x') \<and>
    {rq_core_line_first req .. rq_core_line_last req} = (\<lambda>b. b div 4096) ` {4000 ..< 9000} \<and>
    rq_core_line_count req = card ((\<lambda>b. b div (4096::nat)) ` {4000 ..< 9000})"
proof -
  from sample_request obtain req x' where
    r: "ocf_req_new_extended sample_ctx True True False 1 4000 5000 1 = Some (Some req, x')" by blast
  from req_new_covers_lines [OF sample_config _ _ _ r] show ?thesis
    using r by (intro exI [of _ req] exI [of _ x']) auto
qed

lemma div_mod_le:
  fixes n :: nat
  assumes "0 < n"
  shows "a \<le> s \<longleftrightarrow> a div n < s div n \<or> (a div n = s div n \<and> a mod n \<le> s mod n)"
proof -
  have "a \<le> s" if "a div n < s div n"
    using that by (meson div_le_mono leD le_cases)
  moreover have "(a \<le> s) = (a mod n \<le> s mod n)" if "a div n = s div n"
    using that by (metis add_le_cancel_left mult_div_mod_eq)
  moreover have "a div n < s div n \<or> a div n = s div n" if "a \<le> s"
    using div_le_mono [OF that, of n] by (simp add: nat_less_le)
  ultimately show ?thesis by blast
qed

text \<open>The sectors \<open>a .. b\<close>, cut at the multiples of \<open>n\<close>.\<close>

lemma sector_split:
  fixes n :: nat
  assumes "0 < n" and "a div n \<le> b div n"
  shows "s \<in> {a .. b} \<longleftrightarrow> (\<exists>i < b div n - a div n + 1. s div n = a div n + i \<and>
    (if i = 0 then a mod n else 0) \<le> s mod n \<and>
    s mod n \<le> (if i = b div n - a div n then b mod n else n - 1))"
  unfolding atLeastAtMost_iff div_mod_le [OF assms(1), of a s] div_mod_le [OF assms(1), of s b]
proof
  assume h: "(a div n < s div n \<or> a div n = s div n \<and> a mod n \<le> s mod n) \<and>
    (s div n < b div n \<or> s div n = b div n \<and> s mod n \<le> b mod n)"
  have "s mod n \<le> n - 1" using mod_less_divisor [OF assms(1), of s] by linarith
  with h show "\<exists>i<b div n - a div n + 1. s div n = a div n + i \<and>
    (if i = 0 then a mod n else 0) \<le> s mod n \<and>
    s mod n \<le> (if i = b div n - a div n then b mod n else n - 1)"
    by (intro exI [of _ "s div n - a div n"]) (auto split: if_splits)
next
  assume "\<exists>i<b div n - a div n + 1. s div n = a div n + i \<and>
    (if i = 0 then a mod n else 0) \<le> s mod n \<and>
    s mod n \<le> (if i = b div n - a div n then b mod n else n - 1)"
  then obtain i where i: "i < b div n - a div n + 1" "s div n = a div n + i"
    "(if i = 0 then a mod n else 0) \<le> s mod n"
    "s mod n \<le> (if i = b div n - a div n then b mod n else n - 1)" by blast
  show "(a div n < s div n \<or> a div n = s div n \<and> a mod n \<le> s mod n) \<and>
    (s div n < b div n \<or> s div n = b div n \<and> s mod n \<le> b mod n)"
  proof
    show "a div n < s div n \<or> a div n = s div n \<and> a mod n \<le> s mod n"
      using i(2,3) by (cases "i = 0") auto
    show "s div n < b div n \<or> s div n = b div n \<and> s mod n \<le> b mod n"
    proof (cases "i = b div n - a div n")
      case True with i assms(2) show ?thesis by auto
    next
      case False with i(1,2) assms(2) show ?thesis by linarith
    qed
  qed
qed

text \<open>
  The sector ranges of the map entries cut the request into pieces without gap or overlap:
  a sector belongs to the byte range of the request exactly when it lies, in the cache line of
  one of the entries, between the start and the end sector of that entry.
\<close>

theorem req_sectors_exact:
  assumes "ocf_metadata_config_init sz = Some (rx_line x)" and "0 < bytes" and "bytes < U32_MOD"
    and "addr + bytes \<le> U64_MOD"
    and "ocf_req_new_extended x got gotmap mngt core addr bytes rw = Some (Some req, x')"
  shows "s \<in> {BYTES_TO_SECTORS addr .. BYTES_TO_SECTORS (addr + bytes - 1)} \<longleftrightarrow>
    (\<exists>i < rq_core_line_count req. s div ocf_line_sectors (rx_line x) = rq_core_line_first req + i \<and>
       ocf_map_line_start_sector (rx_line x) req i \<le> s mod ocf_line_sectors (rx_line x) \<and>
       s mod ocf_line_sectors (rx_line x) \<le> ocf_map_line_end_sector (rx_line x) req i)"
    (is "_ \<longleftrightarrow> ?R")
proof -
  define n where "n = ocf_line_sectors (rx_line x)"
  define a where "a = BYTES_TO_SECTORS addr"
  define b where "b = BYTES_TO_SECTORS (addr + bytes - 1)"
  note ln = req_lines_values [OF assms(1,2,4,3)] and cf = config_init_values [OF assms(1)]
  note r = req_new_extended_result [OF ln(1) _ ln(2) assms(5), simplified]
  have n: "0 < n" "n \<le> 128" "sz = 512 * n" "ocf_line_end_sector (rx_line x) = n - 1"
    using cf by (simp_all add: n_def ocf_line_sectors_def ocf_line_end_sector_def)
  have ab: "addr div sz = a div n" "(addr + bytes - 1) div sz = b div n"
    by (simp_all add: n(3) a_def b_def BYTES_TO_SECTORS_def div_mult2_eq)
  have cnt: "rq_core_line_count req = b div n - a div n + 1" "a div n \<le> b div n"
    "rq_core_line_first req = a div n"
    using r ln(3) by (simp_all add: ab [simplified])
  have u8: "m mod n mod U8_MOD = m mod n" for m
    by (rule mod_less) (use mod_less_divisor [OF n(1), of m] n(2) in linarith)
  have start: "ocf_map_line_start_sector (rx_line x) req i = (if i = 0 then a mod n else 0)" for i
    using r by (simp add: ocf_map_line_start_sector_def a_def n_def u8 [unfolded n_def])
  have fin: "ocf_map_line_end_sector (rx_line x) req i = (if i = b div n - a div n then b mod n else n - 1)" for i
  proof -
    have "(rq_core_line_count req + U32_MOD - 1) mod U32_MOD = b div n - a div n"
      using cnt(1) ln(2) ab by simp
    moreover have "(addr + bytes + U64_MOD - 1) mod U64_MOD = addr + bytes - 1"
    proof -
      have "addr + bytes + U64_MOD - 1 = (addr + bytes - 1) + U64_MOD" using assms(2) by simp
      then show ?thesis using assms(2,4) by (simp only: mod_add_self2) simp
    qed
    moreover have "(n - 1) mod U8_MOD = n - 1" using n by simp
    ultimately show ?thesis
      using r n(4) u8 by (simp add: ocf_map_line_end_sector_def b_def n_def)
  qed
  show ?thesis
    unfolding start fin cnt n_def [symmetric] a_def [symmetric] b_def [symmetric]
    by (rule sector_split [OF n(1) cnt(2)])
qed

theorem req_sectors_exact_witness:
  "\<exists>req x'. ocf_req_new_extended sample_ctx True True False 1 4000 5000 1 = Some (Some req, x') \<and>
    ((9::nat) \<in> {BYTES_TO_SECTORS 4000 .. BYTES_TO_SECTORS (4000 + 5000 - 1)} \<longleftrightarrow>
      (\<exists>i < rq_core_line_count req. 9 div ocf_line_sectors (rx_line sample_ctx) = rq_core_line_first req + i \<and>
       ocf_map_line_start_sector (rx_line sample_ctx) req i \<le> 9 mod ocf_line_sectors (rx_line sample_ctx) \<and>
       9 mod ocf_line_sectors (rx_line sample_ctx) \<le> ocf_map_line_end_sector (rx_line sample_ctx) req i))"
proof -
  from sample_request obtain req x' where
    r: "ocf_req_new_extended sample_ctx True True False 1 4000 5000 1 = Some (Some req, x')" by blast
  show ?thesis
    by (rule exI [of _ req], rule exI [of _ x'])
      (rule conjI [OF r], rule req_sectors_exact [OF sample_config _ _ _ r], simp_all)
qed

text \<open>
  C23. Making a request and dropping its only reference leaves the cache as it was, whatever the
  address and the size of the request, also for an empty request, and also when its length was cut
  by \<^verbatim>\<open>ocf_req_alloc_map_discard\<close> in between: the object goes back to the pool it came from, a
  separate map is freed, and the references to the queue and to the metadata counter are returned.
\<close>

theorem req_new_put_restores:
  assumes "0 \<le> rc_counter (rx_metadata x)" and "rc_callback (rx_metadata x) \<longrightarrow> 0 < rc_counter (rx_metadata x)"
    and "ocf_req_new x True mngt core addr bytes rw = Some (Some req, x1)"
    and "ocf_req_alloc_map_discard x1 gotmap req = Some (e, req2, x2)"
  shows "ocf_req_put x2 req2 = Some (None, x)"
proof -
  obtain n rc where n: "0 < n" and new: "rq_ref_count req = 1" "rq_alloc_core_line_count req = n" "rq_mngt req = mngt"
    and nm: "rq_map req = (if ocf_req_size_max \<le> pool_index n then None else Some (replicate (2 ^ pool_index n) map_info_zero))"
    and x1: "x1 = (pool_inc (if ocf_req_size_max \<le> pool_index n then 0 else pool_index n) 1 x)\<lparr>rx_queue := rx_queue x + 1, rx_metadata := rc\<rparr>"
    and rc: "if mngt then rc = rx_metadata x
         else \<exists>v. ocf_refcnt_inc (rx_metadata x) = Some (v, rc) \<and> rq_d2c req = (v = 0)"
    by (rule req_new_context [OF assms(3)])
  note al = req_get_allocator_code [OF n]
  let ?p = "pool_index n"
  have dec: "if rq_d2c req \<or> mngt then rc = rx_metadata x
     else ocf_refcnt_dec rc = Some (rc_counter (rx_metadata x), rx_metadata x)"
    using rc refcnt_inc_put_back assms(1,2) by (auto split: if_splits)
  have req2: "rq_ref_count req2 = 1" "rq_alloc_core_line_count req2 = n" "rq_mngt req2 = mngt"
    "rq_d2c req2 = rq_d2c req"
    "if ocf_req_size_max \<le> ?p then x2 = x1\<lparr>rx_maps := rx_maps x1 + (if rq_map req2 = None then 0 else 1)\<rparr>
     else x2 = x1"
    using alloc_map_discard_frame [OF assms(4)] new nm by (simp_all split: if_splits)
  show ?thesis
  proof (cases "ocf_req_size_max \<le> ?p")
    case True
    with req2(5) x1 have x2: "x2 = x\<lparr>rx_pool := (rx_pool x)(0 := rx_pool x 0 + 1), rx_queue := rx_queue x + 1,
      rx_metadata := rc, rx_maps := rx_maps x + (if rq_map req2 = None then 0 else 1)\<rparr>"
      by (simp add: pool_inc_def)
    show ?thesis
      using True req2(1-4) dec
      by (cases "rq_d2c req"; cases mngt; cases "rq_map req2"; simp add: ocf_req_put_def al Let_def pool_inc_def x2)
  next
    case False
    with req2(5) x1 have x2: "x2 = x\<lparr>rx_pool := (rx_pool x)(?p := rx_pool x ?p + 1), rx_queue := rx_queue x + 1,
      rx_metadata := rc\<rparr>"
      by (simp add: pool_inc_def)
    show ?thesis
      using False req2(1-4) dec
      by (cases "rq_d2c req"; cases mngt; cases "rq_map req2"; simp add: ocf_req_put_def al Let_def pool_inc_def x2)
  qed
qed

theorem req_new_put_restores_witness:
  "(\<exists>req x1 e req2 x2. ocf_req_new sample_ctx True False 1 0 4000000000 0 = Some (Some req, x1) \<and>
      ocf_req_alloc_map_discard x1 True req = Some (e, req2, x2) \<and> ocf_req_put x2 req2 = Some (None, sample_ctx)) \<and>
   (\<exists>req x1 e req2 x2. ocf_req_new sample_ctx True True 1 8192 0 0 = Some (Some req, x1) \<and>
      ocf_req_alloc_map_discard x1 True req = Some (e, req2, x2) \<and> ocf_req_put x2 req2 = Some (None, sample_ctx))"
proof -
  have "(\<exists>req x1 e req2 x2. ocf_req_new sample_ctx True False 1 0 4000000000 0 = Some (Some req, x1) \<and>
      ocf_req_alloc_map_discard x1 True req = Some (e, req2, x2)) \<and>
    (\<exists>req x1 e req2 x2. ocf_req_new sample_ctx True True 1 8192 0 0 = Some (Some req, x1) \<and>
      ocf_req_alloc_map_discard x1 True req = Some (e, req2, x2))"
    by (simp add: sample_ctx_def ocf_req_new_def req_lines_def ocf_bytes_2_lines_def ocf_line_size_def
      ocf_req_get_allocator_def highest_bit.simps builtin_ffs.simps ocf_req_size_max_def pool_inc_def
      ocf_refcnt_inc_def refcnt_inc_gen_def ocf_refcnt_init_def ocf_req_alloc_map_discard_def
      ocf_req_alloc_map_def MAX_TRIM_RQ_SIZE_def request_zero_def Let_def)
  moreover have "0 \<le> rc_counter (rx_metadata sample_ctx)" "\<not> rc_callback (rx_metadata sample_ctx)" by (simp_all add: sample_ctx_def ocf_refcnt_init_def)
  ultimately show ?thesis
    using req_new_put_restores [of sample_ctx False 1 0 4000000000 0] req_new_put_restores [of sample_ctx True 1 8192 0 0] by blast
qed

end
