(* ===== verification/RWSem.thy ===== *)
theory RWSem
  imports OCF_Prelude
begin

section \<open>Reader/writer semaphores\<close>

text \<open>
  The semaphores of the environment (\<^verbatim>\<open>env_rwsem\<close> of \<^verbatim>\<open>env/posix/ocf_env.h\<close>, a \<^verbatim>\<open>pthread_rwlock_t\<close>): any number of readers or one writer.
  The metadata locks and the cache line locks are built on them. A semaphore is the list of the threads that read and the thread that
  writes.
\<close>

datatype access = OCF_METADATA_RD | OCF_METADATA_WR

record rwsem =
  rs_readers :: "nat list"
  rs_writer :: "nat option"

definition rwsem_free :: rwsem where
  "rwsem_free = \<lparr>rs_readers = [], rs_writer = None\<rparr>"

fun can_down :: "access \<Rightarrow> rwsem \<Rightarrow> bool" where
  "can_down OCF_METADATA_RD l = (rs_writer l = None)"
| "can_down OCF_METADATA_WR l = (rs_writer l = None \<and> rs_readers l = [])"

fun sem_down :: "nat \<Rightarrow> access \<Rightarrow> rwsem \<Rightarrow> rwsem" where
  "sem_down t OCF_METADATA_RD l = l\<lparr>rs_readers := t # rs_readers l\<rparr>"
| "sem_down t OCF_METADATA_WR l = l\<lparr>rs_writer := Some t\<rparr>"

fun sem_up :: "nat \<Rightarrow> access \<Rightarrow> rwsem \<Rightarrow> rwsem" where
  "sem_up t OCF_METADATA_RD l = l\<lparr>rs_readers := remove1 t (rs_readers l)\<rparr>"
| "sem_up t OCF_METADATA_WR l = l\<lparr>rs_writer := None\<rparr>"

text \<open>
  The calls, by thread \<open>t\<close>. \<open>None\<close> means that the thread has to wait: a step relation takes the step when the semaphore is free, and a
  run of a single thread that meets it does not return.
\<close>

definition env_rwsem_down_read :: "nat \<Rightarrow> rwsem \<Rightarrow> rwsem option" where
  "env_rwsem_down_read t l = (if can_down OCF_METADATA_RD l then Some (sem_down t OCF_METADATA_RD l) else None)"

definition env_rwsem_up_read :: "nat \<Rightarrow> rwsem \<Rightarrow> rwsem" where
  "env_rwsem_up_read t l = sem_up t OCF_METADATA_RD l"

definition env_rwsem_down_write :: "nat \<Rightarrow> rwsem \<Rightarrow> rwsem option" where
  "env_rwsem_down_write t l = (if can_down OCF_METADATA_WR l then Some (sem_down t OCF_METADATA_WR l) else None)"

definition env_rwsem_up_write :: "nat \<Rightarrow> rwsem \<Rightarrow> rwsem" where
  "env_rwsem_up_write t l = sem_up t OCF_METADATA_WR l"

lemmas rwsem_defs = env_rwsem_down_read_def env_rwsem_up_read_def env_rwsem_down_write_def env_rwsem_up_write_def

text \<open>A free semaphore can be taken either way, and is free again afterwards.\<close>

lemma rwsem_down_up:
  "\<exists>l. env_rwsem_down_read t rwsem_free = Some l \<and> env_rwsem_up_read t l = rwsem_free"
  "\<exists>l. env_rwsem_down_write t rwsem_free = Some l \<and> env_rwsem_up_write t l = rwsem_free"
  by (simp_all add: rwsem_defs rwsem_free_def)

text \<open>What exclusion means: a writer is alone. Every call keeps it.\<close>

definition rwsem_ok :: "rwsem \<Rightarrow> bool" where
  "rwsem_ok l \<longleftrightarrow> rs_writer l = None \<or> rs_readers l = []"

lemma rwsem_ok_calls:
  "rwsem_ok rwsem_free"
  "env_rwsem_down_read t l = Some l' \<Longrightarrow> rwsem_ok l'"
  "env_rwsem_down_write t l = Some l' \<Longrightarrow> rwsem_ok l'"
  "rwsem_ok l \<Longrightarrow> rwsem_ok (env_rwsem_up_read t l)"
  "rwsem_ok (env_rwsem_up_write t l)"
  by (auto simp: rwsem_ok_def rwsem_defs rwsem_free_def split: if_splits)

end
