(* ===== verification/CLConcurrency.thy ===== *)
theory CLConcurrency
  imports Request RWSem "HOL-Library.Multiset"
begin

section \<open>Cache line locks\<close>

text \<open>
  Model of \<^verbatim>\<open>src/concurrency/ocf_cache_line_concurrency.c\<close>: a read/write lock per cache line, with
  queues of waiting requests. The lock word of a line is 0 when idle, the number of readers, or
  \<^verbatim>\<open>INT_MAX\<close> for a writer. The waiters of all lines of a bucket share one list.

  A waiter names its request by an index into \<open>cl_reqs\<close>, and the map entry it waits for. The
  callback of a waiter, which puts the request back on its queue, is recorded in \<open>cl_resumed\<close>.
  The code between taking and releasing the spinlock of a bucket is one step of the model; the
  attempts before it are single atomic instructions. \<open>cl_lock\<close> is the semaphore of the structure: a
  request tries to lock its lines as a reader of it, and waits for lines only as its writer. A
  thread that holds it is named by the request it locks.
\<close>

subsection \<open>State\<close>

definition OCF_CACHE_LINE_ACCESS_WR :: int where "OCF_CACHE_LINE_ACCESS_WR = 2147483647"
definition OCF_CACHE_LINE_ACCESS_IDLE :: int where "OCF_CACHE_LINE_ACCESS_IDLE = 0"
definition OCF_CACHE_LINE_ACCESS_ONE_RD :: int where "OCF_CACHE_LINE_ACCESS_ONE_RD = 1"

lemmas access_defs = OCF_CACHE_LINE_ACCESS_WR_def OCF_CACHE_LINE_ACCESS_IDLE_def OCF_CACHE_LINE_ACCESS_ONE_RD_def

record waiter =
  w_line :: cline
  w_ctx :: nat
  w_ctx_id :: nat
  w_rw :: nat

record clc =
  cl_entries :: nat
  cl_buckets :: nat
  cl_lock :: rwsem
  cl_access :: "cline \<Rightarrow> int"
  cl_waiters :: "nat \<Rightarrow> waiter list"
  cl_waiting :: int
  cl_reqs :: "nat \<Rightarrow> ocf_request"
  cl_resumed :: "nat list"

definition waiters_list_item :: "clc \<Rightarrow> cline \<Rightarrow> nat" where
  "waiters_list_item c line = line mod cl_buckets c"

definition set_access :: "cline \<Rightarrow> int \<Rightarrow> clc \<Rightarrow> clc" where
  "set_access line v c = c\<lparr>cl_access := (cl_access c)(line := v)\<rparr>"

definition set_bucket :: "cline \<Rightarrow> waiter list \<Rightarrow> clc \<Rightarrow> clc" where
  "set_bucket line ws c = c\<lparr>cl_waiters := (cl_waiters c)(waiters_list_item c line := ws)\<rparr>"

definition are_waiters :: "clc \<Rightarrow> cline \<Rightarrow> bool" where
  "are_waiters c line = list_ex (\<lambda>w. w_line w = line) (cl_waiters c (waiters_list_item c line))"

definition add_waiter :: "clc \<Rightarrow> cline \<Rightarrow> waiter \<Rightarrow> clc" where
  "add_waiter c line w = set_bucket line (cl_waiters c (waiters_list_item c line) @ [w]) c"

subsection \<open>The lock word\<close>

definition try_lock_wr :: "clc \<Rightarrow> cline \<Rightarrow> bool \<times> clc" where
  "try_lock_wr c line =
     (if cl_access c line = OCF_CACHE_LINE_ACCESS_IDLE
      then (True, set_access line OCF_CACHE_LINE_ACCESS_WR c) else (False, c))"

definition try_lock_rd_idle :: "clc \<Rightarrow> cline \<Rightarrow> bool \<times> clc" where
  "try_lock_rd_idle c line =
     (if cl_access c line = OCF_CACHE_LINE_ACCESS_IDLE
      then (True, set_access line OCF_CACHE_LINE_ACCESS_ONE_RD c) else (False, c))"

definition try_lock_rd :: "clc \<Rightarrow> cline \<Rightarrow> bool \<times> clc" where
  "try_lock_rd c line =
     (if cl_access c line = OCF_CACHE_LINE_ACCESS_WR then (False, c)
      else (True, set_access line (cl_access c line + 1) c))"

definition unlock_wr :: "clc \<Rightarrow> cline \<Rightarrow> clc option" where
  "unlock_wr c line = do {
     bug_on (cl_access c line \<noteq> OCF_CACHE_LINE_ACCESS_WR);
     Some (set_access line OCF_CACHE_LINE_ACCESS_IDLE c) }"

definition unlock_rd :: "clc \<Rightarrow> cline \<Rightarrow> clc option" where
  "unlock_rd c line = do {
     bug_on (cl_access c line = 0);
     bug_on (cl_access c line = OCF_CACHE_LINE_ACCESS_WR);
     Some (set_access line (cl_access c line - 1) c) }"

definition try_lock_wr2wr :: "clc \<Rightarrow> cline \<Rightarrow> (bool \<times> clc) option" where
  "try_lock_wr2wr c line = do {
     bug_on (cl_access c line \<noteq> OCF_CACHE_LINE_ACCESS_WR);
     Some (True, c) }"

definition try_lock_wr2rd :: "clc \<Rightarrow> cline \<Rightarrow> (bool \<times> clc) option" where
  "try_lock_wr2rd c line = do {
     bug_on (cl_access c line \<noteq> OCF_CACHE_LINE_ACCESS_WR);
     Some (True, set_access line OCF_CACHE_LINE_ACCESS_ONE_RD c) }"

definition try_lock_rd2wr :: "clc \<Rightarrow> cline \<Rightarrow> (bool \<times> clc) option" where
  "try_lock_rd2wr c line = do {
     let v = cl_access c line;
     bug_on (v = OCF_CACHE_LINE_ACCESS_IDLE);
     bug_on (v = OCF_CACHE_LINE_ACCESS_WR);
     if v = OCF_CACHE_LINE_ACCESS_ONE_RD then Some (True, set_access line OCF_CACHE_LINE_ACCESS_WR c)
     else Some (False, c) }"

definition try_lock_rd2rd :: "clc \<Rightarrow> cline \<Rightarrow> (bool \<times> clc) option" where
  "try_lock_rd2rd c line = do {
     let v = cl_access c line;
     bug_on (v = OCF_CACHE_LINE_ACCESS_IDLE);
     bug_on (v = OCF_CACHE_LINE_ACCESS_WR);
     Some (True, c) }"

subsection \<open>Locking and unlocking one line\<close>

text \<open>
  Map entry \<open>i\<close> of request \<open>ctx\<close>: reading or writing outside of the map fails.
\<close>

definition upd_entry :: "nat \<Rightarrow> nat \<Rightarrow> (ocf_map_info \<Rightarrow> ocf_map_info) \<Rightarrow> clc \<Rightarrow> clc option" where
  "upd_entry ctx i f c = (case rq_map (cl_reqs c ctx) of
     None \<Rightarrow> None
   | Some m \<Rightarrow> if i < length m
       then Some (c\<lparr>cl_reqs := (cl_reqs c)(ctx := (cl_reqs c ctx)\<lparr>rq_map := Some (m[i := f (m ! i)])\<rparr>)\<rparr>)
       else None)"

definition get_entry :: "clc \<Rightarrow> nat \<Rightarrow> nat \<Rightarrow> ocf_map_info option" where
  "get_entry c ctx i = (case rq_map (cl_reqs c ctx) of
     None \<Rightarrow> None | Some m \<Rightarrow> if i < length m then Some (m ! i) else None)"

definition set_lock_remaining :: "nat \<Rightarrow> int \<Rightarrow> clc \<Rightarrow> clc" where
  "set_lock_remaining ctx v c = c\<lparr>cl_reqs := (cl_reqs c)(ctx := (cl_reqs c ctx)\<lparr>rq_lock_remaining := v\<rparr>)\<rparr>"

definition req_on_lock :: "nat \<Rightarrow> nat \<Rightarrow> nat \<Rightarrow> clc \<Rightarrow> clc option" where
  "req_on_lock ctx ctx_id rw c = do {
     c \<leftarrow> (if rw = OCF_READ then upd_entry ctx ctx_id (\<lambda>e. e\<lparr>mi_rd_locked := True\<rparr>) c
           else if rw = OCF_WRITE then upd_entry ctx ctx_id (\<lambda>e. e\<lparr>mi_wr_locked := True\<rparr>) c
           else None);
     let v = rq_lock_remaining (cl_reqs c ctx) - 1;
     let c = set_lock_remaining ctx v c;
     Some (if v = 0 then c\<lparr>cl_waiting := cl_waiting c - 1, cl_resumed := cl_resumed c @ [ctx]\<rparr> else c) }"

text \<open>
  \<open>cb\<close> tells whether the caller passes a callback, \<open>got\<close> whether the waiter can be allocated. The
  first attempt and the part under the spinlock are separate definitions.
\<close>

definition lock_wr_locked :: "clc \<Rightarrow> cline \<Rightarrow> bool \<Rightarrow> nat \<Rightarrow> nat \<Rightarrow> (bool \<times> clc) option" where
  "lock_wr_locked c line cb ctx ctx_id = do {
     let (locked, c) = try_lock_wr c line;
     let waiting = (\<not> locked \<and> cb);
     let c = (if waiting then add_waiter c line \<lparr>w_line = line, w_ctx = ctx, w_ctx_id = ctx_id, w_rw = OCF_WRITE\<rparr>
              else c);
     c \<leftarrow> (if locked \<and> cb then req_on_lock ctx ctx_id OCF_WRITE c else Some c);
     Some (locked \<or> waiting, c) }"

definition lock_cache_line_wr :: "clc \<Rightarrow> cline \<Rightarrow> bool \<Rightarrow> bool \<Rightarrow> nat \<Rightarrow> nat \<Rightarrow> (bool \<times> clc) option" where
  "lock_cache_line_wr c line cb got ctx ctx_id = do {
     let (locked, c) = try_lock_wr c line;
     if locked then do {
       c \<leftarrow> (if cb then req_on_lock ctx ctx_id OCF_WRITE c else Some c);
       Some (True, c) }
     else if cb \<and> \<not> got then Some (False, c)
     else lock_wr_locked c line cb ctx ctx_id }"

definition lock_rd_locked :: "clc \<Rightarrow> cline \<Rightarrow> bool \<Rightarrow> bool \<Rightarrow> nat \<Rightarrow> nat \<Rightarrow> (bool \<times> clc) option" where
  "lock_rd_locked c line cb got ctx ctx_id = do {
     let (locked, c) = (if \<not> are_waiters c line then try_lock_rd c line else (False, c));
     let waiting = (\<not> locked \<and> cb \<and> got);
     let c = (if waiting then add_waiter c line \<lparr>w_line = line, w_ctx = ctx, w_ctx_id = ctx_id, w_rw = OCF_READ\<rparr>
              else c);
     c \<leftarrow> (if locked \<and> cb then req_on_lock ctx ctx_id OCF_READ c else Some c);
     Some (locked \<or> waiting, c) }"

text \<open>
  \<open>__lock_cache_line_rd\<close> enters the critical section a first time without a waiter; when it has to
  wait, it leaves it, allocates the waiter and enters again. Without interference the second
  pass sees what the first one saw.
\<close>

definition lock_cache_line_rd :: "clc \<Rightarrow> cline \<Rightarrow> bool \<Rightarrow> bool \<Rightarrow> nat \<Rightarrow> nat \<Rightarrow> (bool \<times> clc) option" where
  "lock_cache_line_rd c line cb got ctx ctx_id = do {
     let (locked, c) = try_lock_rd_idle c line;
     if locked then do {
       c \<leftarrow> (if cb then req_on_lock ctx ctx_id OCF_READ c else Some c);
       Some (True, c) }
     else lock_rd_locked c line cb got ctx ctx_id }"

text \<open>
  The loop of the two unlock functions over the list of the bucket. \<open>xwr\<close> and \<open>xrd\<close> hand the lock
  over to a waiting writer or reader; the result is whether nobody took the lock, the list that
  is left, and the state.
\<close>

fun unlock_loop ::
  "(clc \<Rightarrow> cline \<Rightarrow> (bool \<times> clc) option) \<Rightarrow> (clc \<Rightarrow> cline \<Rightarrow> (bool \<times> clc) option) \<Rightarrow> cline \<Rightarrow>
   bool \<Rightarrow> waiter list \<Rightarrow> clc \<Rightarrow> (bool \<times> waiter list \<times> clc) option" where
  "unlock_loop xwr xrd line exchanged [] c = Some (exchanged, [], c)"
| "unlock_loop xwr xrd line exchanged (w # ws) c =
     (if line \<noteq> w_line w then do {
        (e, rest, c) \<leftarrow> unlock_loop xwr xrd line exchanged ws c;
        Some (e, w # rest, c) }
      else do {
        (locked, c) \<leftarrow>
          (if exchanged then
             (if w_rw w = OCF_WRITE then xwr c line else if w_rw w = OCF_READ then xrd c line else None)
           else
             (if w_rw w = OCF_WRITE then Some (try_lock_wr c line)
              else if w_rw w = OCF_READ then Some (try_lock_rd c line) else None));
        if locked then do {
          c \<leftarrow> req_on_lock (w_ctx w) (w_ctx_id w) (w_rw w) c;
          unlock_loop xwr xrd line False ws c }
        else Some (exchanged, w # ws, c) })"

definition unlock_cache_line_rd_common :: "clc \<Rightarrow> cline \<Rightarrow> clc option" where
  "unlock_cache_line_rd_common c line = do {
     (exchanged, ws, c) \<leftarrow> unlock_loop try_lock_rd2wr try_lock_rd2rd line True
       (cl_waiters c (waiters_list_item c line)) c;
     let c = set_bucket line ws c;
     if exchanged then unlock_rd c line else Some c }"

definition unlock_cache_line_wr_common :: "clc \<Rightarrow> cline \<Rightarrow> clc option" where
  "unlock_cache_line_wr_common c line = do {
     (exchanged, ws, c) \<leftarrow> unlock_loop try_lock_wr2wr try_lock_wr2rd line True
       (cl_waiters c (waiters_list_item c line)) c;
     let c = set_bucket line ws c;
     if exchanged then unlock_wr c line else Some c }"

definition unlock_cache_line_rd :: "clc \<Rightarrow> cline \<Rightarrow> clc option" where
  "unlock_cache_line_rd c line = unlock_cache_line_rd_common c line"

definition unlock_cache_line_wr :: "clc \<Rightarrow> cline \<Rightarrow> clc option" where
  "unlock_cache_line_wr c line = unlock_cache_line_wr_common c line"

definition remove_line_from_waiters_list :: "nat \<Rightarrow> nat \<Rightarrow> nat \<Rightarrow> clc \<Rightarrow> clc option" where
  "remove_line_from_waiters_list ctx rw i c = do {
     e \<leftarrow> get_entry c ctx i;
     let line = mi_coll_idx e;
     if rw = OCF_READ \<and> mi_rd_locked e then do {
       c \<leftarrow> unlock_cache_line_rd_common c line;
       upd_entry ctx i (\<lambda>e. e\<lparr>mi_rd_locked := False\<rparr>) c }
     else if rw = OCF_WRITE \<and> mi_wr_locked e then do {
       c \<leftarrow> unlock_cache_line_wr_common c line;
       upd_entry ctx i (\<lambda>e. e\<lparr>mi_wr_locked := False\<rparr>) c }
     else Some (set_bucket line (filter (\<lambda>w. w_ctx w \<noteq> ctx) (cl_waiters c (waiters_list_item c line))) c) }"

subsection \<open>Locking and unlocking a request\<close>

definition OCF_LOCK_ACQUIRED :: int where "OCF_LOCK_ACQUIRED = 0"
definition OCF_LOCK_NOT_ACQUIRED :: int where "OCF_LOCK_NOT_ACQUIRED = 1"

definition set_rd_locked :: "bool \<Rightarrow> ocf_map_info \<Rightarrow> ocf_map_info" where
  "set_rd_locked b e = e\<lparr>mi_rd_locked := b\<rparr>"

definition set_wr_locked :: "bool \<Rightarrow> ocf_map_info \<Rightarrow> ocf_map_info" where
  "set_wr_locked b e = e\<lparr>mi_wr_locked := b\<rparr>"

text \<open>
  The loop over the map entries. The result is the index at which the loop was left, if it was.
\<close>

fun trylock_loop ::
  "(clc \<Rightarrow> cline \<Rightarrow> (bool \<times> clc) option) \<Rightarrow> (ocf_map_info \<Rightarrow> ocf_map_info) \<Rightarrow> nat \<Rightarrow> nat list \<Rightarrow> clc \<Rightarrow>
   (nat option \<times> clc) option" where
  "trylock_loop lk mark ctx [] c = Some (None, c)"
| "trylock_loop lk mark ctx (i # is) c = do {
     e \<leftarrow> get_entry c ctx i;
     if mi_status e = LOOKUP_MISS then trylock_loop lk mark ctx is c
     else do {
       let line = mi_coll_idx e;
       bug_on (line \<ge> cl_entries c);
       bug_on (mi_rd_locked e);
       bug_on (mi_wr_locked e);
       (ok, c) \<leftarrow> lk c line;
       if ok then do { c \<leftarrow> upd_entry ctx i mark c; trylock_loop lk mark ctx is c }
       else Some (Some i, c) } }"

definition rollback_rd :: "nat \<Rightarrow> nat \<Rightarrow> clc \<Rightarrow> clc option" where
  "rollback_rd ctx i c = do {
     e \<leftarrow> get_entry c ctx i;
     if mi_rd_locked e then do {
       c \<leftarrow> unlock_rd c (mi_coll_idx e);
       upd_entry ctx i (set_rd_locked False) c }
     else Some c }"

definition rollback_wr :: "nat \<Rightarrow> nat \<Rightarrow> clc \<Rightarrow> clc option" where
  "rollback_wr ctx i c = do {
     e \<leftarrow> get_entry c ctx i;
     if mi_wr_locked e then do {
       c \<leftarrow> unlock_wr c (mi_coll_idx e);
       upd_entry ctx i (set_wr_locked False) c }
     else Some c }"

definition ocf_req_trylock_rd :: "nat \<Rightarrow> clc \<Rightarrow> (int \<times> clc) option" where
  "ocf_req_trylock_rd ctx c = do {
     bug_on (rq_lock_remaining (cl_reqs c ctx) \<noteq> 0);
     (failed, c) \<leftarrow> trylock_loop (\<lambda>c line. lock_cache_line_rd c line False False 0 0) (set_rd_locked True)
       ctx [0..<rq_core_line_count (cl_reqs c ctx)] c;
     case failed of
       None \<Rightarrow> Some (OCF_LOCK_ACQUIRED, c)
     | Some i \<Rightarrow> do {
         c \<leftarrow> fold_opt (rollback_rd ctx) (rev [0..<Suc i]) c;
         Some (OCF_LOCK_NOT_ACQUIRED, c) } }"

definition ocf_req_trylock_wr :: "nat \<Rightarrow> clc \<Rightarrow> (int \<times> clc) option" where
  "ocf_req_trylock_wr ctx c = do {
     bug_on (rq_lock_remaining (cl_reqs c ctx) \<noteq> 0);
     (failed, c) \<leftarrow> trylock_loop (\<lambda>c line. lock_cache_line_wr c line False False 0 0) (set_wr_locked True)
       ctx [0..<rq_core_line_count (cl_reqs c ctx)] c;
     case failed of
       None \<Rightarrow> Some (OCF_LOCK_ACQUIRED, c)
     | Some i \<Rightarrow> do {
         c \<leftarrow> fold_opt (rollback_wr ctx) (rev [0..<Suc i]) c;
         Some (OCF_LOCK_NOT_ACQUIRED, c) } }"

text \<open>
  The asynchronous variant: a line that cannot be locked gets a waiter. \<open>got i\<close> tells whether the
  waiter for entry \<open>i\<close> can be allocated.
\<close>

fun lock_loop ::
  "(nat \<Rightarrow> clc \<Rightarrow> cline \<Rightarrow> (bool \<times> clc) option) \<Rightarrow> nat \<Rightarrow> nat list \<Rightarrow> clc \<Rightarrow> (nat option \<times> clc) option" where
  "lock_loop lk ctx [] c = Some (None, c)"
| "lock_loop lk ctx (i # is) c = do {
     e \<leftarrow> get_entry c ctx i;
     if mi_status e = LOOKUP_MISS then
       lock_loop lk ctx is (set_lock_remaining ctx (rq_lock_remaining (cl_reqs c ctx) - 1) c)
     else do {
       let line = mi_coll_idx e;
       bug_on (line \<ge> cl_entries c);
       bug_on (mi_rd_locked e);
       bug_on (mi_wr_locked e);
       (ok, c) \<leftarrow> lk i c line;
       if ok then lock_loop lk ctx is c else Some (Some i, c) } }"

definition req_lock_gen ::
  "(nat \<Rightarrow> clc \<Rightarrow> cline \<Rightarrow> (bool \<times> clc) option) \<Rightarrow> nat \<Rightarrow> nat \<Rightarrow> clc \<Rightarrow> (int \<times> clc) option" where
  "req_lock_gen lk rw ctx c = do {
     let c = c\<lparr>cl_waiting := cl_waiting c + 1\<rparr>;
     let n = rq_core_line_count (cl_reqs c ctx);
     let c = set_lock_remaining ctx (int n + 1) c;
     (failed, c) \<leftarrow> lock_loop lk ctx [0..<n] c;
     case failed of
       None \<Rightarrow> do {
         let v = rq_lock_remaining (cl_reqs c ctx) - 1;
         let c = set_lock_remaining ctx v c;
         if v = 0 then Some (OCF_LOCK_ACQUIRED, c\<lparr>cl_waiting := cl_waiting c - 1\<rparr>)
         else Some (OCF_LOCK_NOT_ACQUIRED, c) }
     | Some i \<Rightarrow> do {
         c \<leftarrow> fold_opt (remove_line_from_waiters_list ctx rw) (rev [0..<Suc i]) c;
         let c = set_lock_remaining ctx 0 c;
         Some (- OCF_ERR_NO_MEM, c\<lparr>cl_waiting := cl_waiting c - 1\<rparr>) } }"

definition ocf_req_lock_rd :: "(nat \<Rightarrow> bool) \<Rightarrow> bool \<Rightarrow> nat \<Rightarrow> clc \<Rightarrow> (int \<times> clc) option" where
  "ocf_req_lock_rd got cb ctx c = do {
     bug_on (rq_lock_remaining (cl_reqs c ctx) \<noteq> 0);
     req_lock_gen (\<lambda>i c line. lock_cache_line_rd c line cb (got i) ctx i) OCF_READ ctx c }"

definition ocf_req_lock_wr :: "(nat \<Rightarrow> bool) \<Rightarrow> bool \<Rightarrow> nat \<Rightarrow> clc \<Rightarrow> (int \<times> clc) option" where
  "ocf_req_lock_wr got cb ctx c = do {
     bug_on (rq_lock_remaining (cl_reqs c ctx) \<noteq> 0);
     bug_on (\<not> cb);
     req_lock_gen (\<lambda>i c line. lock_cache_line_wr c line cb (got i) ctx i) OCF_WRITE ctx c }"

text \<open>
  The two stages under the semaphore. The definitions are runs of one thread: a semaphore that
  another thread holds blocks them for good. The step relation below lets threads interleave.
\<close>

definition down_read :: "nat \<Rightarrow> clc \<Rightarrow> clc option" where
  "down_read ctx c = map_option (\<lambda>l. c\<lparr>cl_lock := l\<rparr>) (env_rwsem_down_read ctx (cl_lock c))"

definition up_read :: "nat \<Rightarrow> clc \<Rightarrow> clc" where
  "up_read ctx c = c\<lparr>cl_lock := env_rwsem_up_read ctx (cl_lock c)\<rparr>"

definition down_write :: "nat \<Rightarrow> clc \<Rightarrow> clc option" where
  "down_write ctx c = map_option (\<lambda>l. c\<lparr>cl_lock := l\<rparr>) (env_rwsem_down_write ctx (cl_lock c))"

definition up_write :: "nat \<Rightarrow> clc \<Rightarrow> clc" where
  "up_write ctx c = c\<lparr>cl_lock := env_rwsem_up_write ctx (cl_lock c)\<rparr>"

definition ocf_req_async_lock_rd :: "(nat \<Rightarrow> bool) \<Rightarrow> bool \<Rightarrow> nat \<Rightarrow> clc \<Rightarrow> (int \<times> clc) option" where
  "ocf_req_async_lock_rd got cb ctx c = do {
     c \<leftarrow> down_read ctx c;
     (lock, c) \<leftarrow> ocf_req_trylock_rd ctx c;
     let c = up_read ctx c;
     if lock \<noteq> OCF_LOCK_ACQUIRED then do {
       c \<leftarrow> down_write ctx c;
       (lock, c) \<leftarrow> ocf_req_lock_rd got cb ctx c;
       Some (lock, up_write ctx c) }
     else Some (lock, c) }"

definition ocf_req_async_lock_wr :: "(nat \<Rightarrow> bool) \<Rightarrow> bool \<Rightarrow> nat \<Rightarrow> clc \<Rightarrow> (int \<times> clc) option" where
  "ocf_req_async_lock_wr got cb ctx c = do {
     c \<leftarrow> down_read ctx c;
     (lock, c) \<leftarrow> ocf_req_trylock_wr ctx c;
     let c = up_read ctx c;
     if lock \<noteq> OCF_LOCK_ACQUIRED then do {
       c \<leftarrow> down_write ctx c;
       (lock, c) \<leftarrow> ocf_req_lock_wr got cb ctx c;
       Some (lock, up_write ctx c) }
     else Some (lock, c) }"

definition unlock_rd_entry :: "nat \<Rightarrow> nat \<Rightarrow> clc \<Rightarrow> clc option" where
  "unlock_rd_entry ctx i c = do {
     e \<leftarrow> get_entry c ctx i;
     if mi_status e = LOOKUP_MISS then Some c
     else do {
       bug_on (\<not> mi_rd_locked e);
       bug_on (mi_coll_idx e \<ge> cl_entries c);
       c \<leftarrow> unlock_cache_line_rd c (mi_coll_idx e);
       upd_entry ctx i (set_rd_locked False) c } }"

definition ocf_req_unlock_rd :: "nat \<Rightarrow> clc \<Rightarrow> clc option" where
  "ocf_req_unlock_rd ctx c = fold_opt (unlock_rd_entry ctx) [0..<rq_core_line_count (cl_reqs c ctx)] c"

definition unlock_wr_entry :: "nat \<Rightarrow> nat \<Rightarrow> clc \<Rightarrow> clc option" where
  "unlock_wr_entry ctx i c = do {
     e \<leftarrow> get_entry c ctx i;
     if mi_status e = LOOKUP_MISS then Some c
     else do {
       bug_on (\<not> mi_wr_locked e);
       bug_on (mi_coll_idx e \<ge> cl_entries c);
       c \<leftarrow> unlock_cache_line_wr c (mi_coll_idx e);
       upd_entry ctx i (set_wr_locked False) c } }"

definition ocf_req_unlock_wr :: "nat \<Rightarrow> clc \<Rightarrow> clc option" where
  "ocf_req_unlock_wr ctx c = fold_opt (unlock_wr_entry ctx) [0..<rq_core_line_count (cl_reqs c ctx)] c"

definition unlock_any :: "nat \<Rightarrow> nat \<Rightarrow> clc \<Rightarrow> clc option" where
  "unlock_any ctx i c = do {
     e \<leftarrow> get_entry c ctx i;
     if mi_rd_locked e \<and> mi_wr_locked e then None
     else if mi_rd_locked e then do {
       c \<leftarrow> unlock_cache_line_rd c (mi_coll_idx e);
       upd_entry ctx i (set_rd_locked False) c }
     else if mi_wr_locked e then do {
       c \<leftarrow> unlock_cache_line_wr c (mi_coll_idx e);
       upd_entry ctx i (set_wr_locked False) c }
     else None }"

definition unlock_entry_step :: "nat \<Rightarrow> nat \<Rightarrow> clc \<Rightarrow> clc option" where
  "unlock_entry_step ctx i c = do {
     e \<leftarrow> get_entry c ctx i;
     if mi_status e = LOOKUP_MISS then Some c
     else do {
       bug_on (mi_coll_idx e \<ge> cl_entries c);
       unlock_any ctx i c } }"

definition ocf_req_unlock :: "nat \<Rightarrow> clc \<Rightarrow> clc option" where
  "ocf_req_unlock ctx c = fold_opt (unlock_entry_step ctx) [0..<rq_core_line_count (cl_reqs c ctx)] c"

definition ocf_req_unlock_entry :: "nat \<Rightarrow> nat \<Rightarrow> clc \<Rightarrow> clc option" where
  "ocf_req_unlock_entry ctx i c = do {
     e \<leftarrow> get_entry c ctx i;
     bug_on (mi_status e = LOOKUP_MISS);
     unlock_any ctx i c }"

definition ocf_cache_line_are_waiters :: "clc \<Rightarrow> cline \<Rightarrow> bool option" where
  "ocf_cache_line_are_waiters c line = do {
     bug_on (line \<ge> cl_entries c);
     Some (are_waiters c line) }"

definition ocf_cache_line_is_used :: "clc \<Rightarrow> cline \<Rightarrow> bool option" where
  "ocf_cache_line_is_used c line = do {
     bug_on (line \<ge> cl_entries c);
     if cl_access c line \<noteq> 0 then Some True
     else do {
       w \<leftarrow> ocf_cache_line_are_waiters c line;
       Some (if w then True else False) } }"

definition ocf_cache_line_concurrency_suspended_no :: "clc \<Rightarrow> int" where
  "ocf_cache_line_concurrency_suspended_no c = cl_waiting c"

definition ocf_cache_line_try_lock_rd :: "clc \<Rightarrow> cline \<Rightarrow> (bool \<times> clc) option" where
  "ocf_cache_line_try_lock_rd c line = lock_cache_line_rd c line False False 0 0"

definition ocf_cache_line_unlock_rd :: "clc \<Rightarrow> cline \<Rightarrow> clc option" where
  "ocf_cache_line_unlock_rd c line = unlock_cache_line_rd c line"

subsection \<open>Releasing a line serves its queue in order\<close>

text \<open>
  The queue of a line, and the abstract behaviour of a release: the lock word after the holder
  left is offered to the waiters in order, until one of them cannot take it.
\<close>

definition queue :: "clc \<Rightarrow> cline \<Rightarrow> waiter list" where
  "queue c line = filter (\<lambda>w. w_line w = line) (cl_waiters c (waiters_list_item c line))"

fun grant :: "int \<Rightarrow> waiter list \<Rightarrow> int \<times> waiter list \<times> waiter list" where
  "grant a [] = (a, [], [])"
| "grant a (w # q) =
     (if w_rw w = OCF_WRITE then
        (if a = OCF_CACHE_LINE_ACCESS_IDLE then (OCF_CACHE_LINE_ACCESS_WR, [w], q) else (a, [], w # q))
      else if a = OCF_CACHE_LINE_ACCESS_WR then (a, [], w # q)
      else (case grant (a + 1) q of (a', g, q') \<Rightarrow> (a', w # g, q')))"

definition on_lock :: "waiter \<Rightarrow> clc \<Rightarrow> clc option" where
  "on_lock w = req_on_lock (w_ctx w) (w_ctx_id w) (w_rw w)"

fun drop_w :: "cline \<Rightarrow> nat \<Rightarrow> waiter list \<Rightarrow> waiter list" where
  "drop_w l n [] = []"
| "drop_w l n (w # ws) =
     (if w_line w \<noteq> l then w # drop_w l n ws
      else (case n of 0 \<Rightarrow> w # ws | Suc k \<Rightarrow> drop_w l k ws))"

lemma drop_w_0 [simp]: "drop_w l 0 ws = ws"
  by (induction ws) auto

lemma filter_drop_w [simp]:
  "filter (\<lambda>w. w_line w = l) (drop_w l n ws) = drop n (filter (\<lambda>w. w_line w = l) ws)"
  by (induction ws arbitrary: n) (auto split: nat.splits)

lemma filter_drop_w_other [simp]:
  "k \<noteq> l \<Longrightarrow> filter (\<lambda>w. w_line w = k) (drop_w l n ws) = filter (\<lambda>w. w_line w = k) ws"
  by (induction ws arbitrary: n) (auto split: nat.splits)

lemma set_drop_w: "set (drop_w l n ws) \<subseteq> set ws"
proof (induction ws arbitrary: n)
  case (Cons w ws)
  then show ?case by (cases n) (simp_all add: subset_insertI2)
qed simp

lemma grant_WR [simp]: "grant OCF_CACHE_LINE_ACCESS_WR q = (OCF_CACHE_LINE_ACCESS_WR, [], q)"
  by (cases q) (auto simp: access_defs)

lemma grant_queue: "grant a q = (v, g, q') \<Longrightarrow> q = g @ q'"
  by (induction a q arbitrary: v g q' rule: grant.induct) (auto split: if_splits prod.splits)

text \<open>The lock word is idle after a release only when nobody is left waiting.\<close>

lemma grant_idle:
  assumes "grant a q = (0, g, q')" and "0 \<le> a"
  shows "q' = []"
  using assms
  by (induction a q arbitrary: g q' rule: grant.induct) (auto simp: access_defs split: if_splits prod.splits)

lemma grant_cases:
  assumes "grant a q = (v, g, q')" and "0 \<le> a" and "a + int (length q) < OCF_CACHE_LINE_ACCESS_WR"
  shows "(v = a + int (length g) \<and> v < OCF_CACHE_LINE_ACCESS_WR \<and> (\<forall>w \<in> set g. w_rw w \<noteq> OCF_WRITE)) \<or>
    (a = 0 \<and> v = OCF_CACHE_LINE_ACCESS_WR \<and> (\<exists>w. g = [w] \<and> w_rw w = OCF_WRITE))"
  using assms
proof (induction a q arbitrary: v g q' rule: grant.induct)
  case (2 a w q)
  show ?case
  proof (cases "w_rw w = OCF_WRITE")
    case True
    with 2 show ?thesis by (auto simp: access_defs split: if_splits)
  next
    case False
    with 2(3,4,2) obtain g1 where g1: "grant (a + 1) q = (v, g1, q')" "g = w # g1"
      by (auto split: if_splits prod.splits)
    have na: "a \<noteq> OCF_CACHE_LINE_ACCESS_WR" using 2(4) by simp
    from 2(1) [OF False na g1(1)] 2(3,4) g1(2) False show ?thesis by auto
  qed
qed simp

lemma set_access_simps [simp]:
  "cl_access (set_access l v c) k = (if k = l then v else cl_access c k)"
  "cl_waiters (set_access l v c) = cl_waiters c"
  "cl_reqs (set_access l v c) = cl_reqs c"
  "cl_entries (set_access l v c) = cl_entries c"
  "cl_buckets (set_access l v c) = cl_buckets c"
  "waiters_list_item (set_access l v c) k = waiters_list_item c k"
  "set_access l u (set_access l v c) = set_access l u c"
  "set_access l (cl_access c l) c = c" "cl_lock (set_access l v c) = cl_lock c"
  by (simp_all add: set_access_def waiters_list_item_def)

lemma set_access_same [simp]: "cl_access c l = v \<Longrightarrow> set_access l v c = c"
  by auto

lemma set_bucket_simps [simp]:
  "cl_access (set_bucket l ws c) = cl_access c"
  "cl_reqs (set_bucket l ws c) = cl_reqs c"
  "cl_entries (set_bucket l ws c) = cl_entries c"
  "cl_buckets (set_bucket l ws c) = cl_buckets c"
  "waiters_list_item (set_bucket l ws c) k = waiters_list_item c k"
  "cl_waiters (set_bucket l ws c) b = (if b = waiters_list_item c l then ws else cl_waiters c b)" "cl_lock (set_bucket l ws c) = cl_lock c"
  by (simp_all add: set_bucket_def waiters_list_item_def)

lemma on_lock_set_access: "on_lock w (set_access l v c) = map_option (set_access l v) (on_lock w c)"
  by (auto simp: on_lock_def req_on_lock_def upd_entry_def set_access_def set_lock_remaining_def Let_def
      split: option.splits)

lemma on_lock_moved:
  "on_lock w c = Some c' \<Longrightarrow> w_rw w = rw \<Longrightarrow>
     req_on_lock (w_ctx w) (w_ctx_id w) rw (set_access l v c) = Some (set_access l v c')"
  using on_lock_set_access [of w l v c] by (auto simp: on_lock_def)

lemma on_lock_frame:
  assumes "on_lock w c = Some c'"
  shows "cl_access c' = cl_access c" "cl_waiters c' = cl_waiters c"
    "cl_entries c' = cl_entries c" "cl_buckets c' = cl_buckets c"
    "waiters_list_item c' = waiters_list_item c"
  using assms by (auto simp: on_lock_def req_on_lock_def upd_entry_def set_lock_remaining_def Let_def
      waiters_list_item_def fun_eq_iff split: option.splits if_splits)

lemma fold_on_lock_set_access:
  "fold_opt on_lock g (set_access l v c) = map_option (set_access l v) (fold_opt on_lock g c)"
  by (induction g arbitrary: c) (auto simp: on_lock_set_access bind_map_option comp_def split: Option.bind_splits)

lemma fold_on_lock_frame:
  assumes "fold_opt on_lock g c = Some c'"
  shows "cl_access c' = cl_access c" "cl_waiters c' = cl_waiters c"
    "cl_entries c' = cl_entries c" "cl_buckets c' = cl_buckets c"
    "waiters_list_item c' = waiters_list_item c"
  using assms by (induction g arbitrary: c) (auto simp: bind_eq_Some_conv on_lock_frame)

definition rw_ok :: "waiter list \<Rightarrow> bool" where
  "rw_ok ws \<longleftrightarrow> (\<forall>w \<in> set ws. w_rw w = OCF_READ \<or> w_rw w = OCF_WRITE)"

lemma rw_ok_simps [simp]: "rw_ok []" "rw_ok (w # ws) \<longleftrightarrow> (w_rw w = OCF_READ \<or> w_rw w = OCF_WRITE) \<and> rw_ok ws"
  by (simp_all add: rw_ok_def)

lemma unlock_loop_served:
  assumes "rw_ok (filter (\<lambda>w. w_line w = l) ws)"
    and "grant (cl_access c l) (filter (\<lambda>w. w_line w = l) ws) = (v, g, q)"
    and "fold_opt on_lock g c = Some c1"
  shows "unlock_loop xwr xrd l False ws c = Some (False, drop_w l (length g) ws, set_access l v c1)"
  using assms
proof (induction ws arbitrary: c v g q c1)
  case Nil
  then show ?case by auto
next
  case (Cons w ws)
  show ?case
  proof (cases "w_line w = l")
    case False
    with Cons show ?thesis by simp
  next
    case line: True
    let ?q = "filter (\<lambda>w. w_line w = l) ws"
    have rw: "w_rw w = OCF_READ \<or> w_rw w = OCF_WRITE" and ok: "rw_ok ?q" using Cons.prems(1) line by simp_all
    show ?thesis
    proof (cases "g = []")
      case True
      with Cons.prems line rw show ?thesis
        by (auto simp: try_lock_wr_def try_lock_rd_def split: if_splits prod.splits)
    next
      case False
      obtain a g1 where g: "g = w # g1" "grant a ?q = (v, g1, q)"
        and a: "(if w_rw w = OCF_WRITE then try_lock_wr c l else try_lock_rd c l) = (True, set_access l a c)"
      proof (cases "w_rw w = OCF_WRITE")
        case True
        then show ?thesis using Cons.prems(2) line False
          by (intro that [of "[]" OCF_CACHE_LINE_ACCESS_WR]) (auto simp: try_lock_wr_def split: if_splits)
      next
        case rd: False
        then show ?thesis using Cons.prems(2) line False
          by (intro that [of "tl g" "cl_access c l + 1"])
            (auto simp: try_lock_rd_def split: if_splits prod.splits)
      qed
      from Cons.prems(3) g(1) obtain c2 where c2: "on_lock w c = Some c2" "fold_opt on_lock g1 c2 = Some c1"
        by (auto simp: bind_eq_Some_conv)
      have "unlock_loop xwr xrd l False ws (set_access l a c2) =
        Some (False, drop_w l (length g1) ws, set_access l v (set_access l a c1))"
        using g(2) c2(2) by (intro Cons.IH [OF ok]) (simp_all add: fold_on_lock_set_access)
      with a c2(1) g(1) line rw show ?thesis
        by (auto simp: on_lock_moved [OF c2(1)] OCF_READ_def OCF_WRITE_def)
    qed
  qed
qed

text \<open>The first waiter of the line takes over the lock of the holder that leaves.\<close>

lemma unlock_loop_rd:
  assumes "rw_ok (filter (\<lambda>w. w_line w = l) ws)" and "0 < cl_access c l" and "cl_access c l < OCF_CACHE_LINE_ACCESS_WR"
    and "grant (cl_access c l - 1) (filter (\<lambda>w. w_line w = l) ws) = (v, g, q)"
    and "fold_opt on_lock g c = Some c1"
  shows "unlock_loop try_lock_rd2wr try_lock_rd2rd l True ws c =
    Some (g = [], drop_w l (length g) ws, if g = [] then c else set_access l v c1)"
  using assms
proof (induction ws)
  case Nil
  then show ?case by simp
next
  case (Cons w ws)
  show ?case
  proof (cases "w_line w = l")
    case False
    with Cons show ?thesis by simp
  next
    case line: True
    let ?q = "filter (\<lambda>w. w_line w = l) ws"
    have rw: "w_rw w = OCF_READ \<or> w_rw w = OCF_WRITE" and ok: "rw_ok ?q" using Cons.prems(1) line by simp_all
    show ?thesis
    proof (cases "g = []")
      case True
      with Cons.prems line rw show ?thesis
        by (auto simp: try_lock_rd2wr_def try_lock_rd2rd_def access_defs Let_def split: if_splits prod.splits)
    next
      case False
      obtain a g1 where g: "g = w # g1" "grant a ?q = (v, g1, q)"
        and a: "(if w_rw w = OCF_WRITE then try_lock_rd2wr c l else try_lock_rd2rd c l) = Some (True, set_access l a c)"
      proof (cases "w_rw w = OCF_WRITE")
        case True
        then show ?thesis using Cons.prems(2-4) line False
          by (intro that [of "[]" OCF_CACHE_LINE_ACCESS_WR])
            (auto simp: try_lock_rd2wr_def access_defs grant_WR [unfolded access_defs] Let_def split: if_splits)
      next
        case rd: False
        then show ?thesis using Cons.prems(2-4) line False
          by (intro that [of "tl g" "cl_access c l"])
            (auto simp: try_lock_rd2rd_def access_defs Let_def split: if_splits prod.splits)
      qed
      from Cons.prems(5) g(1) obtain c2 where c2: "on_lock w c = Some c2" "fold_opt on_lock g1 c2 = Some c1"
        by (auto simp: bind_eq_Some_conv)
      have "unlock_loop try_lock_rd2wr try_lock_rd2rd l False ws (set_access l a c2) =
        Some (False, drop_w l (length g1) ws, set_access l v (set_access l a c1))"
        using g(2) c2(2) by (intro unlock_loop_served [OF ok]) (simp_all add: fold_on_lock_set_access)
      with a c2(1) g(1) line rw show ?thesis
        by (auto simp: on_lock_moved [OF c2(1)] OCF_READ_def OCF_WRITE_def)
    qed
  qed
qed

lemma unlock_loop_wr:
  assumes "rw_ok (filter (\<lambda>w. w_line w = l) ws)" and "cl_access c l = OCF_CACHE_LINE_ACCESS_WR"
    and "grant OCF_CACHE_LINE_ACCESS_IDLE (filter (\<lambda>w. w_line w = l) ws) = (v, g, q)"
    and "fold_opt on_lock g c = Some c1"
  shows "unlock_loop try_lock_wr2wr try_lock_wr2rd l True ws c =
    Some (g = [], drop_w l (length g) ws, if g = [] then c else set_access l v c1)"
  using assms
proof (induction ws)
  case Nil
  then show ?case by simp
next
  case (Cons w ws)
  show ?case
  proof (cases "w_line w = l")
    case False
    with Cons show ?thesis by simp
  next
    case line: True
    let ?q = "filter (\<lambda>w. w_line w = l) ws"
    have rw: "w_rw w = OCF_READ \<or> w_rw w = OCF_WRITE" and ok: "rw_ok ?q" using Cons.prems(1) line by simp_all
    obtain a g1 where g: "g = w # g1" "grant a ?q = (v, g1, q)"
      and a: "(if w_rw w = OCF_WRITE then try_lock_wr2wr c l else try_lock_wr2rd c l) = Some (True, set_access l a c)"
    proof (cases "w_rw w = OCF_WRITE")
      case True
      then show ?thesis using Cons.prems(2,3) line set_access_simps(8) [of l c]
        by (intro that [of "[]" OCF_CACHE_LINE_ACCESS_WR]) (simp_all add: try_lock_wr2wr_def)
    next
      case False
      then show ?thesis using Cons.prems(2,3) line
        by (intro that [of "tl g" OCF_CACHE_LINE_ACCESS_ONE_RD])
          (auto simp: try_lock_wr2rd_def access_defs split: prod.splits)
    qed
    from Cons.prems(4) g(1) obtain c2 where c2: "on_lock w c = Some c2" "fold_opt on_lock g1 c2 = Some c1"
      by (auto simp: bind_eq_Some_conv)
    have "unlock_loop try_lock_wr2wr try_lock_wr2rd l False ws (set_access l a c2) =
      Some (False, drop_w l (length g1) ws, set_access l v (set_access l a c1))"
      using g(2) c2(2) by (intro unlock_loop_served [OF ok]) (simp_all add: fold_on_lock_set_access)
    with a c2(1) g(1) line rw show ?thesis
      by (auto simp: on_lock_moved [OF c2(1)] OCF_READ_def OCF_WRITE_def)
  qed
qed

lemma unlock_rd_code:
  assumes "rw_ok (queue c l)" and "0 < cl_access c l" and "cl_access c l < OCF_CACHE_LINE_ACCESS_WR"
    and "grant (cl_access c l - 1) (queue c l) = (v, g, q)" and "fold_opt on_lock g c = Some c1"
  shows "unlock_cache_line_rd_common c l =
    Some (set_bucket l (drop_w l (length g) (cl_waiters c (waiters_list_item c l))) (set_access l v c1))"
proof -
  note loop = unlock_loop_rd [OF assms(1) [unfolded queue_def] assms(2,3) assms(4) [unfolded queue_def] assms(5)]
  show ?thesis
  proof (cases "g = []")
    case True
    with assms(4,5) have "v = cl_access c l - 1" "c1 = c"
      by (cases "queue c l"; auto split: if_splits prod.splits)+
    with True loop assms(2,3) show ?thesis
      by (simp add: unlock_cache_line_rd_common_def unlock_rd_def set_access_def set_bucket_def waiters_list_item_def Let_def)
  next
    case False
    with loop show ?thesis by (simp add: unlock_cache_line_rd_common_def Let_def)
  qed
qed

lemma unlock_wr_code:
  assumes "rw_ok (queue c l)" and "cl_access c l = OCF_CACHE_LINE_ACCESS_WR"
    and "grant OCF_CACHE_LINE_ACCESS_IDLE (queue c l) = (v, g, q)" and "fold_opt on_lock g c = Some c1"
  shows "unlock_cache_line_wr_common c l =
    Some (set_bucket l (drop_w l (length g) (cl_waiters c (waiters_list_item c l))) (set_access l v c1))"
proof -
  note loop = unlock_loop_wr [OF assms(1) [unfolded queue_def] assms(2) assms(3) [unfolded queue_def] assms(4)]
  show ?thesis
  proof (cases "g = []")
    case True
    with assms(3,4) have "v = OCF_CACHE_LINE_ACCESS_IDLE" "c1 = c"
      by (cases "queue c l"; auto simp: access_defs split: if_splits prod.splits)+
    with True loop assms(2) show ?thesis
      by (simp add: unlock_cache_line_wr_common_def unlock_wr_def set_access_def set_bucket_def waiters_list_item_def Let_def)
  next
    case False
    with loop show ?thesis by (simp add: unlock_cache_line_wr_common_def Let_def)
  qed
qed

subsection \<open>Holders and waiters\<close>

text \<open>
  A map entry of a request, named by the request and its index, holds a line when one of its lock
  bits is set. The lock word counts the entries that hold the line for reading, and the readers
  that took the lock without a request (\<open>an\<close>).
\<close>

type_synonym token = "nat \<times> nat"

definition tok :: "waiter \<Rightarrow> token" where
  "tok w = (w_ctx w, w_ctx_id w)"

definition rd_set :: "clc \<Rightarrow> cline \<Rightarrow> token set" where
  "rd_set c l = {(r, i). \<exists>e. get_entry c r i = Some e \<and> mi_coll_idx e = l \<and> mi_rd_locked e}"

definition wr_set :: "clc \<Rightarrow> cline \<Rightarrow> token set" where
  "wr_set c l = {(r, i). \<exists>e. get_entry c r i = Some e \<and> mi_coll_idx e = l \<and> mi_wr_locked e}"

definition free_entry :: "clc \<Rightarrow> cline \<Rightarrow> token \<Rightarrow> bool" where
  "free_entry c l t \<longleftrightarrow> (\<exists>e. get_entry c (fst t) (snd t) = Some e \<and> mi_coll_idx e = l \<and>
     \<not> mi_rd_locked e \<and> \<not> mi_wr_locked e)"

definition lock_ok :: "int \<Rightarrow> token set \<Rightarrow> token set \<Rightarrow> nat \<Rightarrow> waiter list \<Rightarrow> bool" where
  "lock_ok v rd wr an q \<longleftrightarrow> finite rd \<and>
     (v = OCF_CACHE_LINE_ACCESS_WR \<and> (\<exists>t. wr = {t}) \<and> rd = {} \<and> an = 0 \<or>
      wr = {} \<and> v = int (card rd) + int an \<and> v < OCF_CACHE_LINE_ACCESS_WR) \<and>
     (q \<noteq> [] \<longrightarrow> v \<noteq> 0)"

definition users :: "clc \<Rightarrow> (cline \<Rightarrow> nat) \<Rightarrow> cline \<Rightarrow> nat" where
  "users c an l = card (rd_set c l) + card (wr_set c l) + an l + length (queue c l)"

definition line_inv :: "clc \<Rightarrow> (cline \<Rightarrow> nat) \<Rightarrow> cline \<Rightarrow> bool" where
  "line_inv c an l \<longleftrightarrow>
     lock_ok (cl_access c l) (rd_set c l) (wr_set c l) (an l) (queue c l) \<and>
     rw_ok (queue c l) \<and> distinct (map tok (queue c l)) \<and>
     (\<forall>w \<in> set (queue c l). free_entry c l (tok w)) \<and>
     int (users c an l) < OCF_CACHE_LINE_ACCESS_WR"

definition cl_inv :: "clc \<times> (cline \<Rightarrow> nat) \<Rightarrow> bool" where
  "cl_inv s \<longleftrightarrow> (\<forall>l. line_inv (fst s) (snd s) l)"

lemma rd_set_iff:
  "t \<in> rd_set c l \<longleftrightarrow> (\<exists>e. get_entry c (fst t) (snd t) = Some e \<and> mi_coll_idx e = l \<and> mi_rd_locked e)"
  by (cases t) (simp add: rd_set_def)

lemma wr_set_iff:
  "t \<in> wr_set c l \<longleftrightarrow> (\<exists>e. get_entry c (fst t) (snd t) = Some e \<and> mi_coll_idx e = l \<and> mi_wr_locked e)"
  by (cases t) (simp add: wr_set_def)

lemma free_not_held: "free_entry c l t \<Longrightarrow> t \<notin> rd_set c k" "free_entry c l t \<Longrightarrow> t \<notin> wr_set c k"
  by (auto simp: free_entry_def rd_set_iff wr_set_iff)

lemma free_same_line: "free_entry c l t \<Longrightarrow> free_entry c k t \<Longrightarrow> k = l"
  by (auto simp: free_entry_def)

text \<open>What serving a list of waiters does to the entries.\<close>

definition marked :: "waiter list \<Rightarrow> token \<Rightarrow> ocf_map_info \<Rightarrow> ocf_map_info" where
  "marked g t e = e\<lparr>mi_rd_locked := mi_rd_locked e \<or> (\<exists>w \<in> set g. tok w = t \<and> w_rw w = OCF_READ),
     mi_wr_locked := mi_wr_locked e \<or> (\<exists>w \<in> set g. tok w = t \<and> w_rw w = OCF_WRITE)\<rparr>"

lemma marked_simps [simp]:
  "mi_coll_idx (marked g t e) = mi_coll_idx e"
  "mi_rd_locked (marked g t e) \<longleftrightarrow> mi_rd_locked e \<or> (\<exists>w \<in> set g. tok w = t \<and> w_rw w = OCF_READ)"
  "mi_wr_locked (marked g t e) \<longleftrightarrow> mi_wr_locked e \<or> (\<exists>w \<in> set g. tok w = t \<and> w_rw w = OCF_WRITE)"
  by (simp_all add: marked_def)

lemma get_upd_entry:
  assumes "upd_entry r i f c = Some c'"
  shows "get_entry c' r' i' = (if (r', i') = (r, i) then map_option f (get_entry c r i) else get_entry c r' i')"
  using assms by (auto simp: upd_entry_def get_entry_def split: option.splits if_splits)

lemma upd_entry_frame:
  assumes "upd_entry r i f c = Some c'"
  shows "cl_access c' = cl_access c" "cl_waiters c' = cl_waiters c" "cl_entries c' = cl_entries c"
    "cl_buckets c' = cl_buckets c" "waiters_list_item c' = waiters_list_item c" "cl_lock c' = cl_lock c"
  using assms by (auto simp: upd_entry_def waiters_list_item_def fun_eq_iff split: option.splits if_splits)

lemma upd_entry_total: "get_entry c r i \<noteq> None \<Longrightarrow> \<exists>c'. upd_entry r i f c = Some c'"
  by (auto simp: upd_entry_def get_entry_def split: option.splits if_splits)

lemma get_entry_frame [simp]:
  "get_entry (set_access l v c) r i = get_entry c r i"
  "get_entry (set_bucket l ws c) r i = get_entry c r i"
  "get_entry (set_lock_remaining k v' c) r i = get_entry c r i"
  "get_entry (c\<lparr>cl_waiting := n, cl_resumed := rs\<rparr>) r i = get_entry c r i"
  by (simp_all add: get_entry_def set_lock_remaining_def)

lemma req_on_lock_entries:
  assumes "get_entry c r i \<noteq> None" and "rw = OCF_READ \<or> rw = OCF_WRITE"
  obtains c' where "req_on_lock r i rw c = Some c'"
    "\<And>r' i'. get_entry c' r' i' = (if (r', i') = (r, i) then map_option
       (if rw = OCF_READ then set_rd_locked True else set_wr_locked True) (get_entry c r i) else get_entry c r' i')"
    "cl_access c' = cl_access c" "cl_waiters c' = cl_waiters c" "cl_entries c' = cl_entries c"
    "cl_buckets c' = cl_buckets c" "waiters_list_item c' = waiters_list_item c"
proof -
  define f where "f = (if rw = OCF_READ then set_rd_locked True else set_wr_locked True)"
  obtain c1 where c1: "upd_entry r i f c = Some c1" using upd_entry_total [OF assms(1)] by blast
  define v where "v = rq_lock_remaining (cl_reqs c1 r) - 1"
  define c2 where "c2 = set_lock_remaining r v c1"
  define c' where "c' = (if v = 0 then c2\<lparr>cl_waiting := cl_waiting c2 - 1, cl_resumed := cl_resumed c2 @ [r]\<rparr> else c2)"
  have "req_on_lock r i rw c = Some c'"
    using assms(2) c1 unfolding req_on_lock_def c'_def c2_def v_def f_def set_rd_locked_def set_wr_locked_def
    by (auto simp: Let_def OCF_READ_def OCF_WRITE_def)
  moreover have "get_entry c' r' i' = (if (r', i') = (r, i) then map_option f (get_entry c r i) else get_entry c r' i')"
    for r' i' by (simp add: c'_def c2_def get_upd_entry [OF c1])
  moreover have "cl_access c' = cl_access c" "cl_waiters c' = cl_waiters c" "cl_entries c' = cl_entries c"
    "cl_buckets c' = cl_buckets c" "waiters_list_item c' = waiters_list_item c"
    using upd_entry_frame [OF c1]
    by (auto simp: c'_def c2_def set_lock_remaining_def waiters_list_item_def fun_eq_iff)
  ultimately show ?thesis using that unfolding f_def by blast
qed

lemma fold_on_lock_entries:
  assumes "\<forall>w \<in> set g. get_entry c (w_ctx w) (w_ctx_id w) \<noteq> None" and "rw_ok g"
  shows "\<exists>c'. fold_opt on_lock g c = Some c' \<and>
    (\<forall>r i. get_entry c' r i = map_option (marked g (r, i)) (get_entry c r i))"
  using assms
proof (induction g arbitrary: c)
  case Nil
  then show ?case by (simp add: marked_def option.map_ident_strong)
next
  case (Cons w g)
  let ?f = "if w_rw w = OCF_READ then set_rd_locked True else set_wr_locked True"
  have e: "get_entry c (w_ctx w) (w_ctx_id w) \<noteq> None" "w_rw w = OCF_READ \<or> w_rw w = OCF_WRITE"
    using Cons.prems by simp_all
  obtain c1 where l: "req_on_lock (w_ctx w) (w_ctx_id w) (w_rw w) c = Some c1"
    and u: "\<And>r' i'. get_entry c1 r' i' = (if (r', i') = (w_ctx w, w_ctx_id w)
      then map_option ?f (get_entry c (w_ctx w) (w_ctx_id w)) else get_entry c r' i')"
    by (rule req_on_lock_entries [OF e]) (rule that)
  have c1: "on_lock w c = Some c1"
    "\<And>r i. get_entry c1 r i = (if (r, i) = tok w then map_option ?f (get_entry c r i) else get_entry c r i)"
    using l u by (auto simp: on_lock_def tok_def)
  have "\<forall>w \<in> set g. get_entry c1 (w_ctx w) (w_ctx_id w) \<noteq> None" using Cons.prems(1) c1(2) by auto
  with Cons.IH [of c1] Cons.prems(2) obtain c' where c': "fold_opt on_lock g c1 = Some c'"
    "\<And>r i. get_entry c' r i = map_option (marked g (r, i)) (get_entry c1 r i)" by auto
  have m: "t = tok w \<Longrightarrow> marked g t (?f e) = marked (w # g) t e" "t \<noteq> tok w \<Longrightarrow> marked g t e = marked (w # g) t e"
    for t e
    using e(2) by (auto simp: marked_def set_rd_locked_def set_wr_locked_def OCF_READ_def OCF_WRITE_def)
  have "get_entry c' r i = map_option (marked (w # g) (r, i)) (get_entry c r i)" for r i
    by (cases "get_entry c r i"; cases "(r, i) = tok w") (simp_all add: c'(2) c1(2) m)
  with c1(1) c'(1) show ?case by auto
qed

definition rd_toks :: "waiter list \<Rightarrow> token set" where
  "rd_toks g = tok ` {w \<in> set g. w_rw w = OCF_READ}"

definition wr_toks :: "waiter list \<Rightarrow> token set" where
  "wr_toks g = tok ` {w \<in> set g. w_rw w = OCF_WRITE}"

lemma toks_bound: "card (rd_toks g) + card (wr_toks g) \<le> length g"
proof -
  have "card (rd_toks g) \<le> card {w \<in> set g. w_rw w = OCF_READ}" by (simp add: rd_toks_def card_image_le)
  moreover have "card (wr_toks g) \<le> card {w \<in> set g. w_rw w = OCF_WRITE}" by (simp add: wr_toks_def card_image_le)
  moreover have "card {w \<in> set g. w_rw w = OCF_READ} + card {w \<in> set g. w_rw w = OCF_WRITE} =
    card ({w \<in> set g. w_rw w = OCF_READ} \<union> {w \<in> set g. w_rw w = OCF_WRITE})"
    by (rule card_Un_disjoint [symmetric]) (auto simp: OCF_READ_def OCF_WRITE_def)
  moreover have "\<dots> \<le> card (set g)" by (rule card_mono) auto
  moreover have "\<dots> \<le> length g" by (rule card_length)
  ultimately show ?thesis by linarith
qed

lemma grant_lock_ok:
  assumes "finite rd" and "grant (int (card rd) + int an) Q = (v, g, q)"
    and "int (card rd + an + length Q) < OCF_CACHE_LINE_ACCESS_WR"
    and "distinct (map tok Q)" and "tok ` set Q \<inter> rd = {}" and "rw_ok Q"
  shows "lock_ok v (rd \<union> rd_toks g) (wr_toks g) an q"
proof -
  have Q: "Q = g @ q" using grant_queue [OF assms(2)] .
  have idle: "q \<noteq> [] \<longrightarrow> v \<noteq> 0" using grant_idle [of "int (card rd) + int an" Q g q] assms(2) by auto
  from grant_cases [OF assms(2)] assms(3)
  consider (rd) "v = int (card rd) + int an + int (length g)" "v < OCF_CACHE_LINE_ACCESS_WR"
      "\<forall>w \<in> set g. w_rw w \<noteq> OCF_WRITE"
    | (wr) w where "int (card rd) + int an = 0" "v = OCF_CACHE_LINE_ACCESS_WR" "g = [w]" "w_rw w = OCF_WRITE"
    by auto
  then show ?thesis
  proof cases
    case rd
    have "{w \<in> set g. w_rw w = OCF_READ} = set g" using assms(6) rd(3) Q by (auto simp: rw_ok_def)
    then have t: "rd_toks g = tok ` set g" by (simp add: rd_toks_def)
    have "card (tok ` set g) = length g"
      using assms(4) Q distinct_card [of "map tok g"] by simp
    moreover have "card (rd \<union> tok ` set g) = card rd + card (tok ` set g)"
      using assms(1,5) Q by (intro card_Un_disjoint) auto
    moreover have "wr_toks g = {}" using rd(3) by (simp add: wr_toks_def)
    ultimately show ?thesis using rd idle assms(1) t by (simp add: lock_ok_def)
  next
    case wr
    then have "card rd = 0" "an = 0" by linarith+
    then have "rd = {}" "an = 0" using assms(1) by simp_all
    moreover have "wr_toks g = {tok w}" "rd_toks g = {}"
      using wr by (auto simp: rd_toks_def wr_toks_def OCF_READ_def OCF_WRITE_def)
    ultimately show ?thesis using wr idle by (simp add: lock_ok_def)
  qed
qed

text \<open>
  The state after a line was released, seen from outside: what the invariant needs of it.
\<close>

lemma release_inv:
  assumes inv: "cl_inv (c, an)" and fin: "finite rd0" and grant: "grant (int (card rd0) + int an0) (queue c l) = (v, g, q)"
    and sub: "rd0 \<subseteq> rd_set c l" and bound: "int (card rd0 + an0 + length (queue c l)) < OCF_CACHE_LINE_ACCESS_WR"
    and acc: "cl_access c' = (cl_access c)(l := v)" and ql: "queue c' l = q"
    and qk: "\<And>k. k \<noteq> l \<Longrightarrow> queue c' k = queue c k"
    and rl: "rd_set c' l = rd0 \<union> rd_toks g" and wl: "wr_set c' l = wr_toks g"
    and rk: "\<And>k. k \<noteq> l \<Longrightarrow> rd_set c' k = rd_set c k" and wk: "\<And>k. k \<noteq> l \<Longrightarrow> wr_set c' k = wr_set c k"
    and free: "\<And>k t. free_entry c k t \<Longrightarrow> t \<notin> tok ` set g \<Longrightarrow> free_entry c' k t"
  shows "cl_inv (c', an(l := an0))"
  unfolding cl_inv_def fst_conv snd_conv
proof
  fix k
  have il: "line_inv c an k" for k using inv by (simp add: cl_inv_def)
  note Q = grant_queue [OF grant]
  show "line_inv c' (an(l := an0)) k"
  proof (cases "k = l")
    case True
    have dis: "tok ` set (queue c l) \<inter> rd0 = {}"
    proof -
      have "tok w \<notin> rd0" if "w \<in> set (queue c l)" for w
        using il [of l] sub that free_not_held(1) [of c l "tok w" l] by (auto simp: line_inv_def)
      then show ?thesis by auto
    qed
    have "lock_ok v (rd0 \<union> rd_toks g) (wr_toks g) an0 q"
      using il [of l] by (intro grant_lock_ok [OF fin grant bound _ dis]) (auto simp: line_inv_def)
    moreover have "\<forall>w \<in> set q. free_entry c' l (tok w)"
      using il [of l] Q by (auto simp: line_inv_def intro!: free)
    moreover have "rw_ok q" "distinct (map tok q)" using il [of l] Q by (auto simp: line_inv_def rw_ok_def)
    moreover have "card (rd0 \<union> rd_toks g) + card (wr_toks g) + length q \<le> card rd0 + length (queue c l)"
      using toks_bound [of g] card_Un_le [of rd0 "rd_toks g"] Q by simp
    ultimately show ?thesis
      using bound True by (simp add: line_inv_def users_def acc ql rl wl)
  next
    case False
    have "free_entry c' k (tok w)" if w: "w \<in> set (queue c k)" for w
    proof (rule free)
      show fk: "free_entry c k (tok w)" using il [of k] w by (simp add: line_inv_def)
      have "\<forall>u \<in> set g. free_entry c l (tok u)" using il [of l] Q by (simp add: line_inv_def)
      with fk False show "tok w \<notin> tok ` set g" using free_same_line by fastforce
    qed
    with il [of k] False show ?thesis
      by (simp add: line_inv_def users_def acc qk rk wk)
  qed
qed

lemma served_state:
  assumes inv: "cl_inv (c, an)" and grant: "grant a (queue c l) = (v, g, q)"
  obtains c1 c2 where "fold_opt on_lock g c = Some c1"
    "c2 = set_bucket l (drop_w l (length g) (cl_waiters c (waiters_list_item c l))) (set_access l v c1)"
    "cl_access c2 = (cl_access c)(l := v)" "queue c2 l = q" "\<And>k. k \<noteq> l \<Longrightarrow> queue c2 k = queue c k"
    "rd_set c2 l = rd_set c l \<union> rd_toks g" "wr_set c2 l = wr_set c l \<union> wr_toks g"
    "\<And>k. k \<noteq> l \<Longrightarrow> rd_set c2 k = rd_set c k" "\<And>k. k \<noteq> l \<Longrightarrow> wr_set c2 k = wr_set c k"
    "\<And>k t. free_entry c k t \<Longrightarrow> t \<notin> tok ` set g \<Longrightarrow> free_entry c2 k t"
    "\<And>r i. get_entry c r i \<noteq> None \<Longrightarrow> get_entry c2 r i \<noteq> None"
proof -
  note Q = grant_queue [OF grant]
  have il: "line_inv c an l" using inv by (simp add: cl_inv_def)
  then have fr: "\<forall>w \<in> set g. free_entry c l (tok w)" and rw: "rw_ok g"
    using Q by (auto simp: line_inv_def rw_ok_def)
  from fr have "\<forall>w \<in> set g. get_entry c (w_ctx w) (w_ctx_id w) \<noteq> None" by (auto simp: free_entry_def tok_def)
  from fold_on_lock_entries [OF this rw] obtain c1 where c1: "fold_opt on_lock g c = Some c1"
    and e1: "\<And>r i. get_entry c1 r i = map_option (marked g (r, i)) (get_entry c r i)" by blast
  note fm = fold_on_lock_frame [OF c1]
  define c2 where "c2 = set_bucket l (drop_w l (length g) (cl_waiters c (waiters_list_item c l))) (set_access l v c1)"
  have e2: "get_entry c2 r i = map_option (marked g (r, i)) (get_entry c r i)" for r i
    by (simp add: c2_def e1)
  have item: "waiters_list_item c2 = waiters_list_item c" by (simp add: c2_def fm fun_eq_iff)
  have w2: "cl_waiters c2 b = (if b = waiters_list_item c l
      then drop_w l (length g) (cl_waiters c (waiters_list_item c l)) else cl_waiters c b)" for b
    by (simp add: c2_def fm)
  show ?thesis
  proof (rule that [OF c1 c2_def])
    show "cl_access c2 = (cl_access c)(l := v)" by (auto simp: c2_def fm)
    show "queue c2 l = q" using Q by (simp add: queue_def item w2)
    show "queue c2 k = queue c k" if "k \<noteq> l" for k using that by (simp add: queue_def item w2)
    have tl: "\<exists>e. get_entry c (fst t) (snd t) = Some e \<and> mi_coll_idx e = l" if "t \<in> tok ` set g" for t
      using fr that by (auto simp: free_entry_def)
    have rd: "t \<in> rd_set c2 k \<longleftrightarrow> t \<in> rd_set c k \<or> (t \<in> rd_toks g \<and> k = l)" for t k
      using tl [of t] by (auto simp: rd_set_iff e2 rd_toks_def)
    have wr: "t \<in> wr_set c2 k \<longleftrightarrow> t \<in> wr_set c k \<or> (t \<in> wr_toks g \<and> k = l)" for t k
      using tl [of t] by (auto simp: wr_set_iff e2 wr_toks_def)
    show "rd_set c2 l = rd_set c l \<union> rd_toks g" "wr_set c2 l = wr_set c l \<union> wr_toks g"
      using rd wr by auto
    show "rd_set c2 k = rd_set c k" "wr_set c2 k = wr_set c k" if "k \<noteq> l" for k
      using rd [of _ k] wr [of _ k] that by auto
    show "free_entry c2 k t" if "free_entry c k t" "t \<notin> tok ` set g" for k t
    proof -
      from that(2) have "\<not> (\<exists>w \<in> set g. tok w = t \<and> w_rw w = rw)" for rw by auto
      with that(1) show ?thesis by (cases t) (auto simp: free_entry_def e2)
    qed
    show "get_entry c2 r i \<noteq> None" if "get_entry c r i \<noteq> None" for r i using that by (simp add: e2)
  qed
qed

lemma clear_rd:
  assumes "upd_entry r i (set_rd_locked False) c = Some c'"
  shows "cl_access c' = cl_access c" "\<And>k. queue c' k = queue c k"
    "\<And>k. rd_set c' k = rd_set c k - {(r, i)}" "\<And>k. wr_set c' k = wr_set c k"
    "\<And>k t. free_entry c k t \<Longrightarrow> free_entry c' k t"
proof -
  note g = get_upd_entry [OF assms(1)] and fr = upd_entry_frame [OF assms(1)]
  show "cl_access c' = cl_access c" "queue c' k = queue c k" for k by (simp_all add: fr queue_def)
  show "rd_set c' k = rd_set c k - {(r, i)}" "wr_set c' k = wr_set c k" for k
    by (auto simp: rd_set_def wr_set_def g set_rd_locked_def split: if_splits)
  show "free_entry c' k t" if "free_entry c k t" for k t
    using that by (cases t) (auto simp: free_entry_def g set_rd_locked_def)
qed

lemma clear_wr:
  assumes "upd_entry r i (set_wr_locked False) c = Some c'"
  shows "cl_access c' = cl_access c" "\<And>k. queue c' k = queue c k"
    "\<And>k. wr_set c' k = wr_set c k - {(r, i)}" "\<And>k. rd_set c' k = rd_set c k"
    "\<And>k t. free_entry c k t \<Longrightarrow> free_entry c' k t"
proof -
  note g = get_upd_entry [OF assms(1)] and fr = upd_entry_frame [OF assms(1)]
  show "cl_access c' = cl_access c" "queue c' k = queue c k" for k by (simp_all add: fr queue_def)
  show "wr_set c' k = wr_set c k - {(r, i)}" "rd_set c' k = rd_set c k" for k
    by (auto simp: rd_set_def wr_set_def g set_wr_locked_def split: if_splits)
  show "free_entry c' k t" if "free_entry c k t" for k t
    using that by (cases t) (auto simp: free_entry_def g set_wr_locked_def)
qed

lemma toks_not_held:
  assumes "cl_inv (c, an)" and "grant a (queue c l) = (v, g, q)" and "t \<in> rd_set c l \<union> wr_set c l"
  shows "t \<notin> rd_toks g" "t \<notin> wr_toks g"
proof -
  have "\<forall>w \<in> set g. free_entry c l (tok w)"
    using assms(1) grant_queue [OF assms(2)] by (auto simp: cl_inv_def line_inv_def)
  then have "t \<notin> tok ` set g" using assms(3) free_not_held [of c l t l] by auto
  then show "t \<notin> rd_toks g" "t \<notin> wr_toks g" by (auto simp: rd_toks_def wr_toks_def)
qed

lemma readers_hold:
  assumes "cl_inv (c, an)" and "rd_set c l \<noteq> {} \<or> 0 < an l"
  shows "finite (rd_set c l)" "wr_set c l = {}" "cl_access c l = int (card (rd_set c l)) + int (an l)"
    "0 < cl_access c l" "cl_access c l < OCF_CACHE_LINE_ACCESS_WR" "rw_ok (queue c l)"
    "int (card (rd_set c l) + an l + length (queue c l)) < OCF_CACHE_LINE_ACCESS_WR"
proof -
  have il: "line_inv c an l" using assms(1) by (simp add: cl_inv_def)
  from il show fin: "finite (rd_set c l)" and "rw_ok (queue c l)" by (simp_all add: line_inv_def lock_ok_def)
  from il assms(2) show w: "wr_set c l = {}" and a: "cl_access c l = int (card (rd_set c l)) + int (an l)"
    and "cl_access c l < OCF_CACHE_LINE_ACCESS_WR" by (auto simp: line_inv_def lock_ok_def)
  have "0 < card (rd_set c l) \<or> 0 < an l" using assms(2) fin by (auto simp: card_gt_0_iff)
  then show "0 < cl_access c l" using a by auto
  from il w show "int (card (rd_set c l) + an l + length (queue c l)) < OCF_CACHE_LINE_ACCESS_WR"
    by (simp add: line_inv_def users_def)
qed

lemma unlock_rd_token:
  assumes inv: "cl_inv (c, an)" and t: "(r, i) \<in> rd_set c l"
  shows "\<exists>c1 c'. unlock_cache_line_rd_common c l = Some c1 \<and> upd_entry r i (set_rd_locked False) c1 = Some c' \<and>
    cl_inv (c', an)"
proof -
  note h = readers_hold [OF inv, of l]
  have ne: "rd_set c l \<noteq> {} \<or> 0 < an l" using t by auto
  let ?rd = "rd_set c l - {(r, i)}"
  have card: "int (card ?rd) + int (an l) = cl_access c l - 1"
    using h(1,3) [OF ne] t by (simp add: card_Diff_singleton) (metis One_nat_def Suc_leI card_gt_0_iff empty_iff h(1) ne of_nat_1 of_nat_diff)
  obtain v g q where gr: "grant (int (card ?rd) + int (an l)) (queue c l) = (v, g, q)" by (metis prod_cases3)
  obtain c1 c2 where c1: "fold_opt on_lock g c = Some c1"
    and c2: "c2 = set_bucket l (drop_w l (length g) (cl_waiters c (waiters_list_item c l))) (set_access l v c1)"
    and s: "cl_access c2 = (cl_access c)(l := v)" "queue c2 l = q" "\<And>k. k \<noteq> l \<Longrightarrow> queue c2 k = queue c k"
    "rd_set c2 l = rd_set c l \<union> rd_toks g" "wr_set c2 l = wr_set c l \<union> wr_toks g"
    "\<And>k. k \<noteq> l \<Longrightarrow> rd_set c2 k = rd_set c k" "\<And>k. k \<noteq> l \<Longrightarrow> wr_set c2 k = wr_set c k"
    "\<And>k t. free_entry c k t \<Longrightarrow> t \<notin> tok ` set g \<Longrightarrow> free_entry c2 k t"
    "\<And>r i. get_entry c r i \<noteq> None \<Longrightarrow> get_entry c2 r i \<noteq> None"
    using served_state [OF inv gr] by blast
  have un: "unlock_cache_line_rd_common c l = Some c2"
    using unlock_rd_code [OF h(6) [OF ne] h(4) [OF ne] h(5) [OF ne] gr [unfolded card] c1] c2 by simp
  have "get_entry c r i \<noteq> None" using t by (auto simp: rd_set_iff)
  then obtain c' where c': "upd_entry r i (set_rd_locked False) c2 = Some c'"
    using upd_entry_total s(9) by blast
  note cl = clear_rd [OF c']
  have other: "(r, i) \<notin> rd_set c k" if "k \<noteq> l" for k using t that by (auto simp: rd_set_iff)
  have "cl_inv (c', an(l := an l))"
  proof (rule release_inv [OF inv _ gr])
    show "rd_set c' l = ?rd \<union> rd_toks g" using toks_not_held [OF inv gr] t by (auto simp: cl s)
    show "wr_set c' l = wr_toks g" using h(2) [OF ne] by (simp add: cl s)
    show "int (card ?rd + an l + length (queue c l)) < OCF_CACHE_LINE_ACCESS_WR"
      using h(7) [OF ne] h(1) [OF ne] card_Diff1_le [of "rd_set c l" "(r, i)"] by linarith
  qed (use h(1) [OF ne] other in \<open>auto simp: cl s\<close>)
  with un c' show ?thesis by auto
qed

lemma unlock_rd_anon:
  assumes inv: "cl_inv (c, an)" and n: "0 < an l"
  shows "\<exists>c'. unlock_cache_line_rd_common c l = Some c' \<and> cl_inv (c', an(l := an l - 1))"
proof -
  have ne: "rd_set c l \<noteq> {} \<or> 0 < an l" using n by simp
  note h = readers_hold [OF inv ne]
  have a: "int (card (rd_set c l)) + int (an l - 1) = cl_access c l - 1" using h(3) n by simp
  obtain v g q where gr: "grant (int (card (rd_set c l)) + int (an l - 1)) (queue c l) = (v, g, q)" by (metis prod_cases3)
  obtain c1 c2 where c1: "fold_opt on_lock g c = Some c1"
    and c2: "c2 = set_bucket l (drop_w l (length g) (cl_waiters c (waiters_list_item c l))) (set_access l v c1)"
    and s: "cl_access c2 = (cl_access c)(l := v)" "queue c2 l = q" "\<And>k. k \<noteq> l \<Longrightarrow> queue c2 k = queue c k"
    "rd_set c2 l = rd_set c l \<union> rd_toks g" "wr_set c2 l = wr_set c l \<union> wr_toks g"
    "\<And>k. k \<noteq> l \<Longrightarrow> rd_set c2 k = rd_set c k" "\<And>k. k \<noteq> l \<Longrightarrow> wr_set c2 k = wr_set c k"
    "\<And>k t. free_entry c k t \<Longrightarrow> t \<notin> tok ` set g \<Longrightarrow> free_entry c2 k t"
    "\<And>r i. get_entry c r i \<noteq> None \<Longrightarrow> get_entry c2 r i \<noteq> None"
    using served_state [OF inv gr] by blast
  have "unlock_cache_line_rd_common c l = Some c2"
    using unlock_rd_code [OF h(6) h(4) h(5) gr [unfolded a] c1] c2 by simp
  moreover have "cl_inv (c2, an(l := an l - 1))"
  proof (rule release_inv [OF inv _ gr])
    show "int (card (rd_set c l) + (an l - 1) + length (queue c l)) < OCF_CACHE_LINE_ACCESS_WR"
      using h(7) by linarith
  qed (simp_all add: s h(1,2))
  ultimately show ?thesis by blast
qed

lemma writer_holds:
  assumes "cl_inv (c, an)" and "t \<in> wr_set c l"
  shows "wr_set c l = {t}" "rd_set c l = {}" "an l = 0" "cl_access c l = OCF_CACHE_LINE_ACCESS_WR"
    "rw_ok (queue c l)" "int (length (queue c l)) < OCF_CACHE_LINE_ACCESS_WR"
proof -
  have il: "line_inv c an l" using assms(1) by (simp add: cl_inv_def)
  then have "cl_access c l = OCF_CACHE_LINE_ACCESS_WR \<and> (\<exists>t. wr_set c l = {t}) \<and> rd_set c l = {} \<and> an l = 0"
    using assms(2) by (auto simp: line_inv_def lock_ok_def)
  then show "wr_set c l = {t}" "rd_set c l = {}" "an l = 0" "cl_access c l = OCF_CACHE_LINE_ACCESS_WR"
    using assms(2) by auto
  from il show "rw_ok (queue c l)" "int (length (queue c l)) < OCF_CACHE_LINE_ACCESS_WR"
    by (simp_all add: line_inv_def users_def)
qed

lemma unlock_wr_token:
  assumes inv: "cl_inv (c, an)" and t: "(r, i) \<in> wr_set c l"
  shows "\<exists>c1 c'. unlock_cache_line_wr_common c l = Some c1 \<and> upd_entry r i (set_wr_locked False) c1 = Some c' \<and>
    cl_inv (c', an)"
proof -
  note h = writer_holds [OF inv t]
  obtain v g q where gr: "grant (int (card ({}::token set)) + int 0) (queue c l) = (v, g, q)" by (metis prod_cases3)
  obtain c1 c2 where c1: "fold_opt on_lock g c = Some c1"
    and c2: "c2 = set_bucket l (drop_w l (length g) (cl_waiters c (waiters_list_item c l))) (set_access l v c1)"
    and s: "cl_access c2 = (cl_access c)(l := v)" "queue c2 l = q" "\<And>k. k \<noteq> l \<Longrightarrow> queue c2 k = queue c k"
    "rd_set c2 l = rd_set c l \<union> rd_toks g" "wr_set c2 l = wr_set c l \<union> wr_toks g"
    "\<And>k. k \<noteq> l \<Longrightarrow> rd_set c2 k = rd_set c k" "\<And>k. k \<noteq> l \<Longrightarrow> wr_set c2 k = wr_set c k"
    "\<And>k t. free_entry c k t \<Longrightarrow> t \<notin> tok ` set g \<Longrightarrow> free_entry c2 k t"
    "\<And>r i. get_entry c r i \<noteq> None \<Longrightarrow> get_entry c2 r i \<noteq> None"
    using served_state [OF inv gr] by blast
  have "grant OCF_CACHE_LINE_ACCESS_IDLE (queue c l) = (v, g, q)" using gr by (simp add: access_defs)
  from unlock_wr_code [OF h(5,4) this c1] c2 have un: "unlock_cache_line_wr_common c l = Some c2" by simp
  have "get_entry c r i \<noteq> None" using t by (auto simp: wr_set_iff)
  then obtain c' where c': "upd_entry r i (set_wr_locked False) c2 = Some c'"
    using upd_entry_total s(9) by blast
  note cl = clear_wr [OF c']
  have other: "(r, i) \<notin> wr_set c k" if "k \<noteq> l" for k using t that by (auto simp: wr_set_iff)
  have "cl_inv (c', an(l := 0))"
  proof (rule release_inv [OF inv _ gr])
    show "wr_set c' l = wr_toks g" using toks_not_held [OF inv gr] t h(1) by (auto simp: cl s)
  qed (use h other in \<open>auto simp: cl s\<close>)
  moreover have "an(l := 0) = an" using h(3) by (simp add: fun_eq_iff)
  ultimately show ?thesis using un c' by auto
qed

text \<open>Taking a free line, or joining its queue.\<close>

definition room :: "clc \<Rightarrow> (cline \<Rightarrow> nat) \<Rightarrow> cline \<Rightarrow> bool" where
  "room c an l \<longleftrightarrow> int (users c an l) + 1 < OCF_CACHE_LINE_ACCESS_WR"

lemma mark_entries:
  assumes inv: "cl_inv (c, an)" and fr: "free_entry c l (r, i)" and nq: "(r, i) \<notin> tok ` set (queue c l)"
    and e: "\<And>r' i'. get_entry c' r' i' = (if (r', i') = (r, i) then map_option
       (if rw = OCF_READ then set_rd_locked True else set_wr_locked True) (get_entry c r i) else get_entry c r' i')"
    and w: "cl_waiters c' = cl_waiters c" "waiters_list_item c' = waiters_list_item c"
    and a: "cl_access c' = (cl_access c)(l := v)"
    and v: "if rw = OCF_READ then v = cl_access c l + 1 \<and> cl_access c l \<noteq> OCF_CACHE_LINE_ACCESS_WR
            else v = OCF_CACHE_LINE_ACCESS_WR \<and> cl_access c l = 0"
    and rm: "room c an l"
  shows "cl_inv (c', an)"
  unfolding cl_inv_def fst_conv snd_conv
proof
  fix k
  have il: "line_inv c an k" for k using inv by (simp add: cl_inv_def)
  have q: "queue c' k = queue c k" for k by (simp add: queue_def w)
  have rd: "rd_set c' k = rd_set c k \<union> (if rw = OCF_READ \<and> k = l then {(r, i)} else {})" for k
    using fr by (auto simp: rd_set_def free_entry_def e set_rd_locked_def set_wr_locked_def split: if_splits)
  have wr: "wr_set c' k = wr_set c k \<union> (if rw \<noteq> OCF_READ \<and> k = l then {(r, i)} else {})" for k
    using fr by (auto simp: wr_set_def free_entry_def e set_rd_locked_def set_wr_locked_def split: if_splits)
  have free: "free_entry c' k t" if "free_entry c k t" "t \<noteq> (r, i)" for k t
    using that by (cases t) (auto simp: free_entry_def e)
  have new: "(r, i) \<notin> rd_set c l" "(r, i) \<notin> wr_set c l" using free_not_held fr by blast+
  show "line_inv c' an k"
  proof (cases "k = l")
    case False
    have "free_entry c' k (tok w)" if "w \<in> set (queue c k)" for w
    proof (rule free)
      show "free_entry c k (tok w)" using il [of k] that by (simp add: line_inv_def)
      with fr False show "tok w \<noteq> (r, i)" using free_same_line by metis
    qed
    with il [of k] False show ?thesis by (simp add: line_inv_def users_def q rd wr a)
  next
    case True
    have fin: "finite (rd_set c l)" "finite (wr_set c l)" using il [of l] by (auto simp: line_inv_def lock_ok_def)
    have "\<forall>w \<in> set (queue c l). free_entry c' l (tok w)"
    proof
      fix w assume w: "w \<in> set (queue c l)"
      then have "tok w \<noteq> (r, i)" using nq by (metis imageI)
      with w il [of l] show "free_entry c' l (tok w)" by (simp add: line_inv_def free)
    qed
    moreover have "lock_ok v (rd_set c' l) (wr_set c' l) (an l) (queue c l)"
    proof (cases "rw = OCF_READ")
      case rw: True
      with v il [of l] have "wr_set c l = {}" "cl_access c l = int (card (rd_set c l)) + int (an l)"
        by (auto simp: line_inv_def lock_ok_def)
      then show ?thesis using rw v fin new rm
        by (auto simp: lock_ok_def rd wr room_def users_def)
    next
      case rw: False
      with v il [of l] have "wr_set c l = {}" "int (card (rd_set c l)) + int (an l) = 0"
        by (auto simp: line_inv_def lock_ok_def access_defs)
      then have "wr_set c l = {}" "card (rd_set c l) = 0" "an l = 0" by linarith+
      then have "rd_set c l = {}" "wr_set c l = {}" "an l = 0" using fin by simp_all
      then show ?thesis using rw v by (auto simp: lock_ok_def rd wr access_defs)
    qed
    moreover have "users c' an l \<le> users c an l + 1"
      using fin new by (auto simp: users_def q rd wr)
    ultimately show ?thesis using il [of l] True rm by (auto simp: line_inv_def q a room_def)
  qed
qed

lemma wait_inv:
  assumes inv: "cl_inv (c, an)" and fr: "free_entry c l (r, i)" and nq: "(r, i) \<notin> tok ` set (queue c l)"
    and rw: "rw = OCF_READ \<or> rw = OCF_WRITE" and busy: "cl_access c l \<noteq> 0" and rm: "room c an l"
  shows "cl_inv (add_waiter c l \<lparr>w_line = l, w_ctx = r, w_ctx_id = i, w_rw = rw\<rparr>, an)" (is "cl_inv (?c, an)")
  unfolding cl_inv_def fst_conv snd_conv
proof
  fix k
  let ?w = "\<lparr>w_line = l, w_ctx = r, w_ctx_id = i, w_rw = rw\<rparr>"
  have ik: "line_inv c an k" using inv by (simp add: cl_inv_def)
  have q: "queue ?c k = queue c k @ (if k = l then [?w] else [])"
    by (auto simp: queue_def add_waiter_def)
  have sets: "rd_set ?c k = rd_set c k" "wr_set ?c k = wr_set c k" "cl_access ?c k = cl_access c k"
    "\<And>t. free_entry ?c k t = free_entry c k t"
    by (simp_all add: rd_set_def wr_set_def free_entry_def add_waiter_def)
  show "line_inv ?c an k"
  proof (cases "k = l")
    case True
    have "lock_ok (cl_access c l) (rd_set c l) (wr_set c l) (an l) (queue c l @ [?w])"
      using ik True busy by (simp add: line_inv_def lock_ok_def)
    moreover have "rw_ok (queue c l @ [?w])" using ik True rw by (simp add: line_inv_def rw_ok_def)
    moreover have "distinct (map tok (queue c l @ [?w]))" using ik True nq by (simp add: line_inv_def tok_def)
    moreover have "\<forall>w \<in> set (queue c l @ [?w]). free_entry c l (tok w)"
      using ik True fr by (simp add: line_inv_def tok_def)
    moreover have "int (users ?c an l) < OCF_CACHE_LINE_ACCESS_WR"
      using rm q sets True by (simp add: users_def room_def)
    ultimately show ?thesis using True q sets by (simp add: line_inv_def)
  next
    case False
    with ik show ?thesis by (simp add: line_inv_def lock_ok_def users_def q sets)
  qed
qed

subsection \<open>The locks in use\<close>

text \<open>
  The steps of the threads. A request locks an entry that is neither locked nor waiting. The
  slow parts of the lock functions are steps of their own, because other threads may run between
  the first attempt and the critical section. The semaphore is taken and given back by steps of
  their own, and every step of a request runs under the hold that the code has at that point:
  trying and rolling back as a reader, locking with waiters and cancelling as the writer.
  \<open>rollback\<close> is the release inside a failed \<^verbatim>\<open>_ocf_req_trylock_*\<close>: it does not look at the queue.
  A request that starts to lock its lines holds and awaits nothing, which
  \<^verbatim>\<open>_ocf_req_trylock_*\<close> asserts. \<open>anon\<close> are the locks taken without a request, and
  without the semaphore. \<open>remap\<close> is everything the rest of the cache does to a request that holds
  and awaits nothing.
\<close>

definition waits :: "clc \<Rightarrow> cline \<Rightarrow> token \<Rightarrow> bool" where
  "waits c l t \<longleftrightarrow> t \<in> tok ` set (queue c l)"

definition idle_req :: "clc \<Rightarrow> nat \<Rightarrow> bool" where
  "idle_req c r \<longleftrightarrow> (\<forall>i e. get_entry c r i = Some e \<longrightarrow> \<not> mi_rd_locked e \<and> \<not> mi_wr_locked e) \<and>
     (\<forall>b. \<forall>w \<in> set (cl_waiters c b). w_ctx w \<noteq> r)"

inductive cl_step :: "clc \<times> (cline \<Rightarrow> nat) \<Rightarrow> clc \<times> (cline \<Rightarrow> nat) \<Rightarrow> bool" where
  down_read: "idle_req c r \<Longrightarrow> down_read r c = Some c' \<Longrightarrow> cl_step (c, an) (c', an)"
| up_read: "r \<in> set (rs_readers (cl_lock c)) \<Longrightarrow> cl_step (c, an) (up_read r c, an)"
| down_write: "down_write r c = Some c' \<Longrightarrow> cl_step (c, an) (c', an)"
| up_write: "rs_writer (cl_lock c) = Some r \<Longrightarrow> cl_step (c, an) (up_write r c, an)"
| lock_rd: "rs_writer (cl_lock c) = Some r \<Longrightarrow> free_entry c l (r, i) \<Longrightarrow> \<not> waits c l (r, i) \<Longrightarrow> room c an l \<Longrightarrow>
    lock_cache_line_rd c l True got r i = Some (ok, c') \<Longrightarrow> cl_step (c, an) (c', an)"
| lock_rd_slow: "rs_writer (cl_lock c) = Some r \<Longrightarrow> free_entry c l (r, i) \<Longrightarrow> \<not> waits c l (r, i) \<Longrightarrow> room c an l \<Longrightarrow>
    lock_rd_locked c l True got r i = Some (ok, c') \<Longrightarrow> cl_step (c, an) (c', an)"
| lock_wr: "rs_writer (cl_lock c) = Some r \<Longrightarrow> free_entry c l (r, i) \<Longrightarrow> \<not> waits c l (r, i) \<Longrightarrow> room c an l \<Longrightarrow>
    lock_cache_line_wr c l True got r i = Some (ok, c') \<Longrightarrow> cl_step (c, an) (c', an)"
| lock_wr_slow: "rs_writer (cl_lock c) = Some r \<Longrightarrow> free_entry c l (r, i) \<Longrightarrow> \<not> waits c l (r, i) \<Longrightarrow> room c an l \<Longrightarrow>
    lock_wr_locked c l True r i = Some (ok, c') \<Longrightarrow> cl_step (c, an) (c', an)"
| try_rd: "r \<in> set (rs_readers (cl_lock c)) \<Longrightarrow> free_entry c l (r, i) \<Longrightarrow> \<not> waits c l (r, i) \<Longrightarrow> room c an l \<Longrightarrow>
    lock_cache_line_rd c l False False 0 0 = Some (True, c1) \<Longrightarrow>
    upd_entry r i (set_rd_locked True) c1 = Some c' \<Longrightarrow> cl_step (c, an) (c', an)"
| try_wr: "r \<in> set (rs_readers (cl_lock c)) \<Longrightarrow> free_entry c l (r, i) \<Longrightarrow> \<not> waits c l (r, i) \<Longrightarrow> room c an l \<Longrightarrow>
    lock_cache_line_wr c l False False 0 0 = Some (True, c1) \<Longrightarrow>
    upd_entry r i (set_wr_locked True) c1 = Some c' \<Longrightarrow> cl_step (c, an) (c', an)"
| unlock_rd: "(r, i) \<in> rd_set c l \<Longrightarrow> unlock_cache_line_rd c l = Some c1 \<Longrightarrow>
    upd_entry r i (set_rd_locked False) c1 = Some c' \<Longrightarrow> cl_step (c, an) (c', an)"
| unlock_wr: "(r, i) \<in> wr_set c l \<Longrightarrow> unlock_cache_line_wr c l = Some c1 \<Longrightarrow>
    upd_entry r i (set_wr_locked False) c1 = Some c' \<Longrightarrow> cl_step (c, an) (c', an)"
| rollback_rd: "r \<in> set (rs_readers (cl_lock c)) \<Longrightarrow> (r, i) \<in> rd_set c l \<Longrightarrow> rollback_rd r i c = Some c' \<Longrightarrow> cl_step (c, an) (c', an)"
| rollback_wr: "r \<in> set (rs_readers (cl_lock c)) \<Longrightarrow> (r, i) \<in> wr_set c l \<Longrightarrow> rollback_wr r i c = Some c' \<Longrightarrow> cl_step (c, an) (c', an)"
| anon_lock: "room c an l \<Longrightarrow> ocf_cache_line_try_lock_rd c l = Some (True, c') \<Longrightarrow>
    cl_step (c, an) (c', an(l := an l + 1))"
| anon_unlock: "0 < an l \<Longrightarrow> ocf_cache_line_unlock_rd c l = Some c' \<Longrightarrow> cl_step (c, an) (c', an(l := an l - 1))"
| cancel: "rs_writer (cl_lock c) = Some r \<Longrightarrow> remove_line_from_waiters_list r rw i c = Some c' \<Longrightarrow> cl_step (c, an) (c', an)"
| remap: "idle_req c r \<Longrightarrow> c' = c\<lparr>cl_reqs := (cl_reqs c)(r := req)\<rparr> \<Longrightarrow> idle_req c' r \<Longrightarrow>
    cl_step (c, an) (c', an)"

lemma lock_now:
  assumes inv: "cl_inv (c, an)" and fr: "free_entry c l (r, i)" and nw: "\<not> waits c l (r, i)" and rm: "room c an l"
    and rw: "rw = OCF_READ \<or> rw = OCF_WRITE"
    and v: "if rw = OCF_READ then v = cl_access c l + 1 \<and> cl_access c l \<noteq> OCF_CACHE_LINE_ACCESS_WR
            else v = OCF_CACHE_LINE_ACCESS_WR \<and> cl_access c l = 0"
  shows "\<exists>c'. req_on_lock r i rw (set_access l v c) = Some c' \<and> cl_inv (c', an)"
    and "upd_entry r i (if rw = OCF_READ then set_rd_locked True else set_wr_locked True) (set_access l v c) = Some c' \<Longrightarrow>
      cl_inv (c', an)"
proof -
  let ?f = "if rw = OCF_READ then set_rd_locked True else set_wr_locked True"
  have e: "get_entry (set_access l v c) r i \<noteq> None" using fr by (auto simp: free_entry_def)
  have nq: "(r, i) \<notin> tok ` set (queue c l)" using nw by (simp add: waits_def)
  obtain c1 where c1: "req_on_lock r i rw (set_access l v c) = Some c1"
    and u: "\<And>r' i'. get_entry c1 r' i' = (if (r', i') = (r, i)
      then map_option ?f (get_entry (set_access l v c) r i) else get_entry (set_access l v c) r' i')"
    and f: "cl_access c1 = cl_access (set_access l v c)" "cl_waiters c1 = cl_waiters (set_access l v c)"
      "waiters_list_item c1 = waiters_list_item (set_access l v c)"
    by (rule req_on_lock_entries [OF e rw]) (rule that)
  have "cl_inv (c1, an)"
    by (rule mark_entries [OF inv fr nq _ _ _ _ v rm])
      (use u f in \<open>auto simp: fun_eq_iff\<close>)
  with c1 show "\<exists>c'. req_on_lock r i rw (set_access l v c) = Some c' \<and> cl_inv (c', an)" by blast
  assume c': "upd_entry r i ?f (set_access l v c) = Some c'"
  show "cl_inv (c', an)"
    by (rule mark_entries [OF inv fr nq _ _ _ _ v rm])
      (use get_upd_entry [OF c'] upd_entry_frame [OF c'] in \<open>auto simp: fun_eq_iff\<close>)
qed

lemma are_waiters_iff: "are_waiters c l \<longleftrightarrow> queue c l \<noteq> []"
  by (auto simp: are_waiters_def queue_def list_ex_iff filter_empty_conv)

lemma queue_busy: "cl_inv (c, an) \<Longrightarrow> queue c l \<noteq> [] \<Longrightarrow> cl_access c l \<noteq> 0"
  by (simp add: cl_inv_def line_inv_def lock_ok_def)

lemma lock_rd_locked_inv:
  assumes inv: "cl_inv (c, an)" and fr: "free_entry c l (r, i)" and nw: "\<not> waits c l (r, i)" and rm: "room c an l"
  shows "\<exists>ok c'. lock_rd_locked c l True got r i = Some (ok, c') \<and> cl_inv (c', an)"
proof (cases "\<not> are_waiters c l \<and> cl_access c l \<noteq> OCF_CACHE_LINE_ACCESS_WR")
  case True
  from lock_now(1) [OF inv fr nw rm, of OCF_READ "cl_access c l + 1"] True
  obtain c' where "req_on_lock r i OCF_READ (set_access l (cl_access c l + 1) c) = Some c'" "cl_inv (c', an)" by auto
  with True show ?thesis by (auto simp: lock_rd_locked_def try_lock_rd_def)
next
  case False
  have "cl_access c l \<noteq> 0" using False queue_busy [OF inv] by (auto simp: are_waiters_iff access_defs)
  then have "cl_inv (add_waiter c l \<lparr>w_line = l, w_ctx = r, w_ctx_id = i, w_rw = OCF_READ\<rparr>, an)"
    by (intro wait_inv [OF inv fr _ _ _ rm]) (use nw in \<open>auto simp: waits_def\<close>)
  moreover have "lock_rd_locked c l True got r i =
    Some (got, if got then add_waiter c l \<lparr>w_line = l, w_ctx = r, w_ctx_id = i, w_rw = OCF_READ\<rparr> else c)"
    using False by (auto simp: lock_rd_locked_def try_lock_rd_def)
  ultimately show ?thesis using inv by simp
qed

lemma lock_wr_locked_inv:
  assumes inv: "cl_inv (c, an)" and fr: "free_entry c l (r, i)" and nw: "\<not> waits c l (r, i)" and rm: "room c an l"
  shows "\<exists>ok c'. lock_wr_locked c l True r i = Some (ok, c') \<and> cl_inv (c', an)"
proof (cases "cl_access c l = 0")
  case True
  from lock_now(1) [OF inv fr nw rm, of OCF_WRITE OCF_CACHE_LINE_ACCESS_WR] True
  obtain c' where "req_on_lock r i OCF_WRITE (set_access l OCF_CACHE_LINE_ACCESS_WR c) = Some c'" "cl_inv (c', an)"
    by (auto simp: OCF_READ_def OCF_WRITE_def)
  with True show ?thesis by (auto simp: lock_wr_locked_def try_lock_wr_def OCF_CACHE_LINE_ACCESS_IDLE_def)
next
  case False
  then have "cl_inv (add_waiter c l \<lparr>w_line = l, w_ctx = r, w_ctx_id = i, w_rw = OCF_WRITE\<rparr>, an)"
    by (intro wait_inv [OF inv fr _ _ _ rm]) (use nw in \<open>auto simp: waits_def\<close>)
  with False show ?thesis by (auto simp: lock_wr_locked_def try_lock_wr_def OCF_CACHE_LINE_ACCESS_IDLE_def)
qed

lemma lock_cache_line_rd_inv:
  assumes inv: "cl_inv (c, an)" and fr: "free_entry c l (r, i)" and nw: "\<not> waits c l (r, i)" and rm: "room c an l"
  shows "\<exists>ok c'. lock_cache_line_rd c l True got r i = Some (ok, c') \<and> cl_inv (c', an)"
proof (cases "cl_access c l = 0")
  case True
  from lock_now(1) [OF inv fr nw rm, of OCF_READ 1] True
  obtain c' where "req_on_lock r i OCF_READ (set_access l 1 c) = Some c'" "cl_inv (c', an)"
    by (auto simp: access_defs)
  with True show ?thesis by (auto simp: lock_cache_line_rd_def try_lock_rd_idle_def access_defs)
next
  case False
  with lock_rd_locked_inv [OF assms, of got] show ?thesis
    by (auto simp: lock_cache_line_rd_def try_lock_rd_idle_def access_defs)
qed

lemma lock_cache_line_wr_inv:
  assumes inv: "cl_inv (c, an)" and fr: "free_entry c l (r, i)" and nw: "\<not> waits c l (r, i)" and rm: "room c an l"
  shows "\<exists>ok c'. lock_cache_line_wr c l True got r i = Some (ok, c') \<and> cl_inv (c', an)"
proof (cases "cl_access c l = 0")
  case True
  from lock_now(1) [OF inv fr nw rm, of OCF_WRITE OCF_CACHE_LINE_ACCESS_WR] True
  obtain c' where "req_on_lock r i OCF_WRITE (set_access l OCF_CACHE_LINE_ACCESS_WR c) = Some c'" "cl_inv (c', an)"
    by (auto simp: OCF_READ_def OCF_WRITE_def)
  with True show ?thesis by (auto simp: lock_cache_line_wr_def try_lock_wr_def OCF_CACHE_LINE_ACCESS_IDLE_def)
next
  case False
  with lock_wr_locked_inv [OF assms] inv show ?thesis
    by (auto simp: lock_cache_line_wr_def try_lock_wr_def OCF_CACHE_LINE_ACCESS_IDLE_def)
qed

lemma try_rd_code:
  assumes "lock_cache_line_rd c l False False 0 0 = Some (True, c1)"
  shows "c1 = set_access l (cl_access c l + 1) c" "cl_access c l \<noteq> OCF_CACHE_LINE_ACCESS_WR" "cl_access c l = 0 \<or> queue c l = []"
  using assms are_waiters_iff [of c l] by (auto simp: lock_cache_line_rd_def try_lock_rd_idle_def lock_rd_locked_def try_lock_rd_def access_defs
      split: if_splits)

lemma try_wr_code:
  assumes "lock_cache_line_wr c l False False 0 0 = Some (True, c1)"
  shows "c1 = set_access l OCF_CACHE_LINE_ACCESS_WR c" "cl_access c l = 0"
  using assms by (auto simp: lock_cache_line_wr_def try_lock_wr_def lock_wr_locked_def access_defs split: if_splits)

lemma set_bucket_same: "set_bucket l (cl_waiters c (waiters_list_item c l)) c = c"
  by (simp add: set_bucket_def)

lemma unlock_no_queue:
  assumes "cl_inv (c, an)" and "queue c l = []"
  shows "rd_set c l \<noteq> {} \<Longrightarrow> unlock_cache_line_rd_common c l = unlock_rd c l"
    and "wr_set c l \<noteq> {} \<Longrightarrow> unlock_cache_line_wr_common c l = unlock_wr c l"
proof -
  assume "rd_set c l \<noteq> {}"
  then have "rd_set c l \<noteq> {} \<or> 0 < an l" by simp
  note h = readers_hold [OF assms(1) this]
  from unlock_rd_code [OF h(6,4,5), of "cl_access c l - 1" "[]" "[]" c] assms(2) h(4,5)
  show "unlock_cache_line_rd_common c l = unlock_rd c l"
    using set_bucket_same [of l "set_access l (cl_access c l - 1) c"] by (simp add: unlock_rd_def)
next
  assume "wr_set c l \<noteq> {}"
  then obtain t where "t \<in> wr_set c l" by blast
  note h = writer_holds [OF assms(1) this]
  from unlock_wr_code [OF h(5,4), of OCF_CACHE_LINE_ACCESS_IDLE "[]" "[]" c] assms(2) h(4)
  show "unlock_cache_line_wr_common c l = unlock_wr c l"
    using set_bucket_same [of l "set_access l OCF_CACHE_LINE_ACCESS_IDLE c"] by (simp add: unlock_wr_def)
qed

lemma anon_lock_inv:
  assumes inv: "cl_inv (c, an)" and rm: "room c an l" and a: "cl_access c l \<noteq> OCF_CACHE_LINE_ACCESS_WR"
  shows "cl_inv (set_access l (cl_access c l + 1) c, an(l := an l + 1))"
  unfolding cl_inv_def fst_conv snd_conv
proof
  fix k
  let ?c = "set_access l (cl_access c l + 1) c"
  have ik: "line_inv c an k" using inv by (simp add: cl_inv_def)
  have s: "rd_set ?c k = rd_set c k" "wr_set ?c k = wr_set c k" "queue ?c k = queue c k"
    "\<And>t. free_entry ?c k t = free_entry c k t" for k
    by (simp_all add: rd_set_def wr_set_def queue_def free_entry_def)
  have "lock_ok (cl_access c l + 1) (rd_set c l) (wr_set c l) (an l + 1) (queue c l)" if "k = l"
    using ik a rm that by (auto simp: line_inv_def lock_ok_def room_def users_def)
  with ik rm show "line_inv ?c (an(l := an l + 1)) k"
    by (cases "k = l") (auto simp: line_inv_def s users_def room_def)
qed

lemma cancel_inv:
  assumes inv: "cl_inv (c, an)"
  shows "cl_inv (set_bucket l (filter P (cl_waiters c (waiters_list_item c l))) c, an)" (is "cl_inv (?c, an)")
  unfolding cl_inv_def fst_conv snd_conv
proof
  fix k
  have ik: "line_inv c an k" using inv by (simp add: cl_inv_def)
  have s: "rd_set ?c k = rd_set c k" "wr_set ?c k = wr_set c k" "cl_access ?c = cl_access c"
    "\<And>t. free_entry ?c k t = free_entry c k t"
    by (simp_all add: rd_set_def wr_set_def free_entry_def)
  have q: "queue ?c k = queue c k \<or> queue ?c k = filter P (queue c k)"
    by (auto simp: queue_def filter_filter conj_commute)
  have len: "length (queue ?c k) \<le> length (queue c k)" using q by auto
  from q ik have "rw_ok (queue ?c k)" "distinct (map tok (queue ?c k))"
    "\<forall>w \<in> set (queue ?c k). free_entry c k (tok w)" "queue ?c k \<noteq> [] \<longrightarrow> queue c k \<noteq> []"
    by (auto simp: line_inv_def rw_ok_def distinct_map_filter)
  with ik len show "line_inv ?c an k" by (simp add: line_inv_def lock_ok_def s users_def)
qed

lemma remap_inv:
  assumes inv: "cl_inv (c, an)" and id: "idle_req c r" and c': "c' = c\<lparr>cl_reqs := (cl_reqs c)(r := req)\<rparr>"
    and id': "idle_req c' r"
  shows "cl_inv (c', an)"
  unfolding cl_inv_def fst_conv snd_conv
proof
  fix k
  have ik: "line_inv c an k" using inv by (simp add: cl_inv_def)
  have e: "get_entry c' r' i = get_entry c r' i" if "r' \<noteq> r" for r' i using that by (simp add: c' get_entry_def)
  have held: "t \<in> rd_set c' k \<longleftrightarrow> t \<in> rd_set c k" "t \<in> wr_set c' k \<longleftrightarrow> t \<in> wr_set c k" for t
    using id id' e [of "fst t" "snd t"] by (cases "fst t = r"; auto simp: rd_set_iff wr_set_iff idle_req_def)+
  have q: "queue c' k = queue c k" by (simp add: queue_def c' waiters_list_item_def)
  have "free_entry c' k (tok w)" if "w \<in> set (queue c k)" for w
  proof -
    have "w_ctx w \<noteq> r" using that id by (auto simp: queue_def idle_req_def)
    then show ?thesis using ik that e [of "w_ctx w" "w_ctx_id w"] by (auto simp: line_inv_def free_entry_def tok_def)
  qed
  moreover have "rd_set c' k = rd_set c k" "wr_set c' k = wr_set c k" using held by auto
  moreover have "cl_access c' = cl_access c" by (simp add: c')
  ultimately show "line_inv c' an k" using ik by (simp add: line_inv_def q users_def)
qed

text \<open>
  What the semaphore guarantees: a writer is alone, and the lines that a request holds while it is
  a reader have no queue, because nobody can join one. A reader awaits nothing, so no release
  gives it a line.
\<close>

definition holds_line :: "clc \<Rightarrow> nat \<Rightarrow> cline \<Rightarrow> bool" where
  "holds_line c r l \<longleftrightarrow> (\<exists>i. (r, i) \<in> rd_set c l \<union> wr_set c l)"

definition sem_inv :: "clc \<Rightarrow> bool" where
  "sem_inv c \<longleftrightarrow> rwsem_ok (cl_lock c) \<and> (\<forall>r \<in> set (rs_readers (cl_lock c)).
     (\<forall>b. \<forall>w \<in> set (cl_waiters c b). w_ctx w \<noteq> r) \<and> (\<forall>l. holds_line c r l \<longrightarrow> queue c l = []))"

lemma sem_inv_writer: "sem_inv c \<Longrightarrow> rs_writer (cl_lock c) = Some r \<Longrightarrow> cl_lock c' = cl_lock c \<Longrightarrow> sem_inv c'"
  by (auto simp: sem_inv_def rwsem_ok_def)

lemma queue_empty_mono:
  assumes "set (cl_waiters c' (waiters_list_item c l)) \<subseteq> set (cl_waiters c (waiters_list_item c l))" "cl_buckets c' = cl_buckets c" "queue c l = []"
  shows "queue c' l = []"
  using assms by (auto simp: queue_def waiters_list_item_def filter_empty_conv)

lemma sem_inv_shrink:
  assumes inv: "sem_inv c" and l: "cl_lock c' = cl_lock c" "cl_buckets c' = cl_buckets c" and w: "\<And>b. set (cl_waiters c' b) \<subseteq> set (cl_waiters c b)"
    and h: "\<And>r k. r \<in> set (rs_readers (cl_lock c)) \<Longrightarrow> holds_line c' r k \<Longrightarrow> holds_line c r k \<or> queue c k = []"
  shows "sem_inv c'"
  unfolding sem_inv_def l
proof (intro conjI ballI allI impI)
  show "rwsem_ok (cl_lock c)" using inv by (simp add: sem_inv_def)
  fix r assume r: "r \<in> set (rs_readers (cl_lock c))"
  show "w_ctx u \<noteq> r" if "u \<in> set (cl_waiters c' b)" for b u using inv r w [of b] that by (auto simp: sem_inv_def)
  fix k assume "holds_line c' r k"
  then have "queue c k = []" using h [OF r] inv r unfolding sem_inv_def by blast
  then show "queue c' k = []" by (rule queue_empty_mono [OF w l(2)])
qed

lemma req_on_lock_reqs:
  assumes "req_on_lock ctx i rw c = Some c'"
  shows "cl_lock c' = cl_lock c" "cl_buckets c' = cl_buckets c" "cl_waiters c' = cl_waiters c" "\<And>r. r \<noteq> ctx \<Longrightarrow> cl_reqs c' r = cl_reqs c r"
  using assms by (auto simp: req_on_lock_def upd_entry_def set_lock_remaining_def Let_def split: option.splits if_splits)

text \<open>The lock words apart, a release only changes the requests of the waiters it serves.\<close>

definition word_only :: "(clc \<Rightarrow> cline \<Rightarrow> (bool \<times> clc) option) \<Rightarrow> bool" where
  "word_only x \<longleftrightarrow> (\<forall>c l b c'. x c l = Some (b, c') \<longrightarrow> (\<exists>f. c' = c\<lparr>cl_access := f\<rparr>))"

lemma access_back: "\<exists>f. c = c\<lparr>cl_access := f\<rparr>"
  by (rule exI [of _ "cl_access c"]) simp

lemma exchanges_word_only:
  "word_only try_lock_rd2wr" "word_only try_lock_rd2rd" "word_only try_lock_wr2wr" "word_only try_lock_wr2rd"
  "word_only (\<lambda>c l. Some (try_lock_wr c l))" "word_only (\<lambda>c l. Some (try_lock_rd c l))"
  using access_back by (auto simp: word_only_def try_lock_rd2wr_def try_lock_rd2rd_def try_lock_wr2wr_def try_lock_wr2rd_def try_lock_wr_def
      try_lock_rd_def set_access_def Let_def split: if_splits)

lemma unlock_loop_reqs:
  assumes "word_only xwr" "word_only xrd" "unlock_loop xwr xrd l e ws c = Some (e', ws', c')"
  shows "cl_lock c' = cl_lock c \<and> cl_buckets c' = cl_buckets c \<and> cl_waiters c' = cl_waiters c \<and> set ws' \<subseteq> set ws \<and>
    (\<forall>r. r \<notin> w_ctx ` set ws \<longrightarrow> cl_reqs c' r = cl_reqs c r)"
  using assms(3)
proof (induction ws arbitrary: e c e' ws' c')
  case (Cons w ws)
  show ?case
  proof (cases "l = w_line w")
    case False
    with Cons.prems obtain rest where r: "unlock_loop xwr xrd l e ws c = Some (e', rest, c')" "ws' = w # rest" by (auto simp: bind_eq_Some_conv)
    with Cons.IH [OF r(1)] show ?thesis by auto
  next
    case True
    let ?x = "if e then (if w_rw w = OCF_WRITE then xwr c l else if w_rw w = OCF_READ then xrd c l else None)
      else (if w_rw w = OCF_WRITE then Some (try_lock_wr c l) else if w_rw w = OCF_READ then Some (try_lock_rd c l) else None)"
    obtain got c1 where x: "?x = Some (got, c1)" using Cons.prems True by (cases ?x) auto
    then obtain f where c1: "c1 = c\<lparr>cl_access := f\<rparr>"
      using assms(1,2) exchanges_word_only(5,6) unfolding word_only_def by (metis option.distinct(1))
    show ?thesis
    proof (cases got)
      case False
      with Cons.prems True x c1 show ?thesis by auto
    next
      case g: True
      with Cons.prems True x obtain c2 where c2: "req_on_lock (w_ctx w) (w_ctx_id w) (w_rw w) c1 = Some c2"
        "unlock_loop xwr xrd l False ws c2 = Some (e', ws', c')" by (auto simp: bind_eq_Some_conv)
      with Cons.IH [OF c2(2)] req_on_lock_reqs [OF c2(1)] c1 show ?thesis by auto
    qed
  qed
qed auto

lemma release_shrinks:
  assumes "unlock_cache_line_rd_common c l = Some c' \<or> unlock_cache_line_wr_common c l = Some c'"
  shows "cl_lock c' = cl_lock c" "cl_buckets c' = cl_buckets c" "set (cl_waiters c' b) \<subseteq> set (cl_waiters c b)"
    "(\<And>w. w \<in> set (cl_waiters c (waiters_list_item c l)) \<Longrightarrow> w_ctx w \<noteq> r) \<Longrightarrow> holds_line c' r k = holds_line c r k"
proof -
  obtain xwr xrd e ws c1 f where u: "unlock_loop xwr xrd l True (cl_waiters c (waiters_list_item c l)) c = Some (e, ws, c1)" "word_only xwr" "word_only xrd"
    and c': "c' = (set_bucket l ws c1)\<lparr>cl_access := f\<rparr>"
    using assms exchanges_word_only(1-4) access_back
    by (fastforce simp: unlock_cache_line_rd_common_def unlock_cache_line_wr_common_def bind_eq_Some_conv Let_def unlock_rd_def unlock_wr_def
        set_access_def split: if_splits)
  note U = unlock_loop_reqs [OF u(2,3,1)]
  then show "cl_lock c' = cl_lock c" "cl_buckets c' = cl_buckets c" "set (cl_waiters c' b) \<subseteq> set (cl_waiters c b)"
    by (auto simp: c' waiters_list_item_def split: if_splits)
  assume "\<And>w. w \<in> set (cl_waiters c (waiters_list_item c l)) \<Longrightarrow> w_ctx w \<noteq> r"
  then have "r \<notin> w_ctx ` set (cl_waiters c (waiters_list_item c l))" by blast
  then have "cl_reqs c' r = cl_reqs c r" using U by (simp add: c')
  then show "holds_line c' r k = holds_line c r k" by (simp add: holds_line_def rd_set_def wr_set_def get_entry_def)
qed

lemma release_sem_inv:
  assumes inv: "sem_inv c" and u: "unlock_cache_line_rd_common c l = Some c1 \<or> unlock_cache_line_wr_common c l = Some c1"
  shows "sem_inv c1"
    and "upd_entry r i (set_rd_locked False) c1 = Some c' \<or> upd_entry r i (set_wr_locked False) c1 = Some c' \<Longrightarrow> sem_inv c'"
proof -
  note R = release_shrinks [OF u]
  show s: "sem_inv c1" by (rule sem_inv_shrink [OF inv R(1-3)]) (use inv R(4) in \<open>auto simp: sem_inv_def\<close>)
  assume c': "upd_entry r i (set_rd_locked False) c1 = Some c' \<or> upd_entry r i (set_wr_locked False) c1 = Some c'"
  then have f: "cl_lock c' = cl_lock c1" "cl_buckets c' = cl_buckets c1" "cl_waiters c' = cl_waiters c1" by (auto simp: upd_entry_frame)
  have "holds_line c1 q k" if "holds_line c' q k" for q k using that c' clear_rd(3,4) clear_wr(3,4) by (fastforce simp: holds_line_def)
  then show "sem_inv c'" by (intro sem_inv_shrink [OF s f(1,2)]) (simp_all add: f(3))
qed

lemma word_sem_inv: "sem_inv c \<Longrightarrow> sem_inv (set_access l v c)"
  by (erule sem_inv_shrink) (simp_all add: holds_line_def rd_set_def wr_set_def)

lemma reader_no_queue:
  "sem_inv c \<Longrightarrow> r \<in> set (rs_readers (cl_lock c)) \<Longrightarrow> (r, i) \<in> rd_set c l \<union> wr_set c l \<Longrightarrow> queue c l = []"
  unfolding sem_inv_def holds_line_def by blast

lemma lock_update [simp]:
  "get_entry (c\<lparr>cl_lock := x\<rparr>) r i = get_entry c r i" "queue (c\<lparr>cl_lock := x\<rparr>) l = queue c l"
  "rd_set (c\<lparr>cl_lock := x\<rparr>) l = rd_set c l" "wr_set (c\<lparr>cl_lock := x\<rparr>) l = wr_set c l"
  by (simp_all add: get_entry_def queue_def waiters_list_item_def rd_set_def wr_set_def)

lemma cl_inv_lock: "cl_inv (c, an) \<Longrightarrow> cl_inv (c\<lparr>cl_lock := x\<rparr>, an)"
  by (simp add: cl_inv_def line_inv_def users_def free_entry_def)

lemma rollback_common:
  assumes inv: "cl_inv (c, an)" "sem_inv c" and r: "r \<in> set (rs_readers (cl_lock c))"
  shows "(r, i) \<in> rd_set c l \<Longrightarrow> rollback_rd r i c = Option.bind (unlock_cache_line_rd_common c l) (upd_entry r i (set_rd_locked False))"
    "(r, i) \<in> wr_set c l \<Longrightarrow> rollback_wr r i c = Option.bind (unlock_cache_line_wr_common c l) (upd_entry r i (set_wr_locked False))"
proof -
  assume t: "(r, i) \<in> rd_set c l"
  then have "unlock_cache_line_rd_common c l = unlock_rd c l"
    using unlock_no_queue(1) [OF inv(1) reader_no_queue [OF inv(2) r, of i]] by blast
  with t show "rollback_rd r i c = Option.bind (unlock_cache_line_rd_common c l) (upd_entry r i (set_rd_locked False))"
    by (auto simp: rd_set_iff rollback_rd_def)
next
  assume t: "(r, i) \<in> wr_set c l"
  then have "unlock_cache_line_wr_common c l = unlock_wr c l"
    using unlock_no_queue(2) [OF inv(1) reader_no_queue [OF inv(2) r, of i]] by blast
  with t show "rollback_wr r i c = Option.bind (unlock_cache_line_wr_common c l) (upd_entry r i (set_wr_locked False))"
    by (auto simp: wr_set_iff rollback_wr_def)
qed

lemma cl_inv_step:
  assumes "cl_step s s'" and "cl_inv s" and "sem_inv (fst s)"
  shows "cl_inv s'"
  using assms
proof (cases rule: cl_step.cases)
  case (down_read c r c' an)
  then show ?thesis using cl_inv_lock [of c an] assms(2) by (auto simp: down_read_def)
next
  case (up_read r c an)
  then show ?thesis using cl_inv_lock [of c an] assms(2) by (simp add: up_read_def)
next
  case (down_write r c c' an)
  then show ?thesis using cl_inv_lock [of c an] assms(2) by (auto simp: down_write_def)
next
  case (up_write c r an)
  then show ?thesis using cl_inv_lock [of c an] assms(2) by (simp add: up_write_def)
next
  case (lock_rd c r l i an got ok c')
  then show ?thesis using lock_cache_line_rd_inv [of c an l r i got] assms(2) by auto
next
  case (lock_rd_slow c r l i an got ok c')
  then show ?thesis using lock_rd_locked_inv [of c an l r i got] assms(2) by auto
next
  case (lock_wr c r l i an got ok c')
  then show ?thesis using lock_cache_line_wr_inv [of c an l r i got] assms(2) by auto
next
  case (lock_wr_slow c r l i an ok c')
  then show ?thesis using lock_wr_locked_inv [of c an l r i] assms(2) by auto
next
  case (try_rd r c l i an c1 c')
  note t = try_rd_code [OF try_rd(7)]
  show ?thesis using lock_now(2) [of c an l r i OCF_READ "cl_access c l + 1" c'] try_rd t assms(2) by simp
next
  case (try_wr r c l i an c1 c')
  note t = try_wr_code [OF try_wr(7)]
  show ?thesis using lock_now(2) [of c an l r i OCF_WRITE OCF_CACHE_LINE_ACCESS_WR c'] try_wr t assms(2)
    by (simp add: OCF_READ_def OCF_WRITE_def)
next
  case (unlock_rd r i c l c1 c' an)
  then show ?thesis using unlock_rd_token [of c an r i l] assms(2) by (auto simp: unlock_cache_line_rd_def)
next
  case (unlock_wr r i c l c1 c' an)
  then show ?thesis using unlock_wr_token [of c an r i l] assms(2) by (auto simp: unlock_cache_line_wr_def)
next
  case (rollback_rd r c i l c' an)
  then show ?thesis using unlock_rd_token [of c an r i l] rollback_common(1) [of c an r i l] assms(2,3) by auto
next
  case (rollback_wr r c i l c' an)
  then show ?thesis using unlock_wr_token [of c an r i l] rollback_common(2) [of c an r i l] assms(2,3) by auto
next
  case (anon_lock c an l c')
  note t = try_rd_code [OF anon_lock(4) [unfolded ocf_cache_line_try_lock_rd_def]]
  show ?thesis using anon_lock_inv [of c an l] anon_lock t assms(2) by simp
next
  case (anon_unlock an l c c')
  then show ?thesis using unlock_rd_anon [of c an l] assms(2)
    by (auto simp: ocf_cache_line_unlock_rd_def unlock_cache_line_rd_def)
next
  case (cancel c r rw i c' an)
  then obtain e where e: "get_entry c r i = Some e" by (auto simp: remove_line_from_waiters_list_def bind_eq_Some_conv)
  have f: "(\<lambda>e. e\<lparr>mi_rd_locked := False\<rparr>) = set_rd_locked False" "(\<lambda>e. e\<lparr>mi_wr_locked := False\<rparr>) = set_wr_locked False"
    by (simp_all add: fun_eq_iff set_rd_locked_def set_wr_locked_def)
  have "mi_rd_locked e \<Longrightarrow> (r, i) \<in> rd_set c (mi_coll_idx e)" "mi_wr_locked e \<Longrightarrow> (r, i) \<in> wr_set c (mi_coll_idx e)"
    using e by (auto simp: rd_set_iff wr_set_iff)
  then show ?thesis
    using cancel assms(2) e unlock_rd_token [of c an r i "mi_coll_idx e"] unlock_wr_token [of c an r i "mi_coll_idx e"]
      cancel_inv [of c an]
    by (auto simp: remove_line_from_waiters_list_def f Let_def split: if_splits)
next
  case (remap c r c' req an)
  then show ?thesis using remap_inv assms(2) by auto
qed

lemma lock_steps_lock:
  assumes "lock_cache_line_rd c l cb got r i = Some (ok, c') \<or> lock_rd_locked c l cb got r i = Some (ok, c') \<or>
    lock_cache_line_wr c l cb got r i = Some (ok, c') \<or> lock_wr_locked c l cb r i = Some (ok, c')"
  shows "cl_lock c' = cl_lock c"
  using assms
  by (auto simp: lock_cache_line_rd_def lock_rd_locked_def lock_cache_line_wr_def lock_wr_locked_def Let_def bind_eq_Some_conv try_lock_rd_def
      try_lock_rd_idle_def try_lock_wr_def add_waiter_def req_on_lock_reqs split: if_splits prod.splits)

lemma try_sem_inv:
  assumes inv: "sem_inv c" and q: "queue c l = []" and fr: "free_entry c l (r, i)"
    and u: "upd_entry r i (set_rd_locked True) (set_access l v c) = Some c' \<or> upd_entry r i (set_wr_locked True) (set_access l v c) = Some c'"
  shows "sem_inv c'"
proof (rule sem_inv_shrink [OF inv])
  show "cl_lock c' = cl_lock c" "cl_buckets c' = cl_buckets c" "set (cl_waiters c' b) \<subseteq> set (cl_waiters c b)" for b
    using u by (auto simp: upd_entry_frame)
  fix r' k assume h: "holds_line c' r' k"
  have "get_entry c' a b = (if (a, b) = (r, i) then map_option f (get_entry c a b) else get_entry c a b)"
    if "upd_entry r i f (set_access l v c) = Some c'" for f a b using get_upd_entry [OF that, of a b] by auto
  then show "holds_line c r' k \<or> queue c k = []"
    using h u fr q by (fastforce simp: holds_line_def rd_set_def wr_set_def free_entry_def set_rd_locked_def set_wr_locked_def split: if_splits)
qed

lemma sem_inv_relock:
  assumes "sem_inv c" "rwsem_ok x" "\<And>r. r \<in> set (rs_readers x) \<Longrightarrow> r \<in> set (rs_readers (cl_lock c)) \<or> idle_req c r"
  shows "sem_inv (c\<lparr>cl_lock := x\<rparr>)"
proof -
  have idle: "(\<forall>b. \<forall>w \<in> set (cl_waiters c b). w_ctx w \<noteq> r) \<and> \<not> holds_line c r l" if "idle_req c r" for r l
    using that by (auto simp: holds_line_def idle_req_def rd_set_iff wr_set_iff)
  have "(\<forall>b. \<forall>w \<in> set (cl_waiters c b). w_ctx w \<noteq> r) \<and> (\<forall>l. holds_line c r l \<longrightarrow> queue c l = [])" if "r \<in> set (rs_readers x)" for r
    using assms(1) assms(3) [OF that] idle unfolding sem_inv_def by blast
  then show ?thesis using assms(2) by (simp add: sem_inv_def holds_line_def)
qed

lemma sem_inv_step:
  assumes "cl_step s s'" and "cl_inv s" and "sem_inv (fst s)"
  shows "sem_inv (fst s')"
  using assms(1)
proof (cases rule: cl_step.cases)
  case (down_read c r c' an)
  then obtain x where x: "env_rwsem_down_read r (cl_lock c) = Some x" "c' = c\<lparr>cl_lock := x\<rparr>" by (auto simp: down_read_def)
  then have "rwsem_ok x" "set (rs_readers x) = insert r (set (rs_readers (cl_lock c)))"
    using rwsem_ok_calls(2) by (auto simp: env_rwsem_down_read_def split: if_splits)
  then show ?thesis using down_read assms(3) x sem_inv_relock [of c x] by auto
next
  case (up_read r c an)
  have "rwsem_ok (env_rwsem_up_read r (cl_lock c))" using up_read assms(3) rwsem_ok_calls(4) by (simp add: sem_inv_def)
  moreover have "set (rs_readers (env_rwsem_up_read r (cl_lock c))) \<subseteq> set (rs_readers (cl_lock c))"
    by (simp add: env_rwsem_up_read_def set_remove1_subset)
  ultimately show ?thesis using up_read assms(3) sem_inv_relock [of c] by (auto simp: up_read_def)
next
  case (down_write r c c' an)
  then obtain x where x: "env_rwsem_down_write r (cl_lock c) = Some x" "c' = c\<lparr>cl_lock := x\<rparr>" by (auto simp: down_write_def)
  then have "rwsem_ok x" "rs_readers x = []" by (auto simp: env_rwsem_down_write_def rwsem_ok_def split: if_splits)
  then show ?thesis using down_write x by (simp add: sem_inv_def)
next
  case (up_write c r an)
  then have "rs_readers (cl_lock c) = []" using assms(3) by (auto simp: sem_inv_def rwsem_ok_def)
  then show ?thesis using up_write by (simp add: sem_inv_def up_write_def env_rwsem_up_write_def rwsem_ok_def)
next
  case (lock_rd c r l i an got ok c')
  then show ?thesis using sem_inv_writer lock_steps_lock assms(3) by (metis fst_conv)
next
  case (lock_rd_slow c r l i an got ok c')
  then show ?thesis using sem_inv_writer lock_steps_lock assms(3) by (metis fst_conv)
next
  case (lock_wr c r l i an got ok c')
  then show ?thesis using sem_inv_writer lock_steps_lock assms(3) by (metis fst_conv)
next
  case (lock_wr_slow c r l i an ok c')
  then show ?thesis using sem_inv_writer lock_steps_lock assms(3) by (metis fst_conv)
next
  case (try_rd r c l i an c1 c')
  have "queue c l = []" using try_rd_code(3) [OF try_rd(7)] queue_busy [of c an l] assms(2) try_rd(1) by auto
  then show ?thesis using try_sem_inv [of c l r i] try_rd try_rd_code(1) [OF try_rd(7)] assms(3) by auto
next
  case (try_wr r c l i an c1 c')
  have "queue c l = []" using try_wr_code(2) [OF try_wr(7)] queue_busy [of c an l] assms(2) try_wr(1) by auto
  then show ?thesis using try_sem_inv [of c l r i] try_wr try_wr_code(1) [OF try_wr(7)] assms(3) by auto
next
  case (unlock_rd r i c l c1 c' an)
  then show ?thesis using release_sem_inv(2) [of c l c1 r i c'] assms(3) by (simp add: unlock_cache_line_rd_def)
next
  case (unlock_wr r i c l c1 c' an)
  then show ?thesis using release_sem_inv(2) [of c l c1 r i c'] assms(3) by (simp add: unlock_cache_line_wr_def)
next
  case (rollback_rd r c i l c' an)
  then obtain c1 where c1: "unlock_cache_line_rd_common c l = Some c1" "upd_entry r i (set_rd_locked False) c1 = Some c'"
    using rollback_common(1) [of c an r i l] assms(2,3) by (cases "unlock_cache_line_rd_common c l") auto
  then show ?thesis using release_sem_inv(2) [of c l c1 r i c'] rollback_rd assms(3) by simp
next
  case (rollback_wr r c i l c' an)
  then obtain c1 where c1: "unlock_cache_line_wr_common c l = Some c1" "upd_entry r i (set_wr_locked False) c1 = Some c'"
    using rollback_common(2) [of c an r i l] assms(2,3) by (cases "unlock_cache_line_wr_common c l") auto
  then show ?thesis using release_sem_inv(2) [of c l c1 r i c'] rollback_wr assms(3) by simp
next
  case (anon_lock c an l c')
  note t = try_rd_code(1) [OF anon_lock(4) [unfolded ocf_cache_line_try_lock_rd_def]]
  show ?thesis using anon_lock t word_sem_inv [of c] assms(3) by simp
next
  case (anon_unlock an l c c')
  then show ?thesis using release_sem_inv(1) assms(3) by (auto simp: ocf_cache_line_unlock_rd_def unlock_cache_line_rd_def)
next
  case (cancel c r rw i c' an)
  have "cl_lock c' = cl_lock c" using cancel(4)
    by (auto simp: release_shrinks(1) [OF disjI1] release_shrinks(1) [OF disjI2] remove_line_from_waiters_list_def Let_def bind_eq_Some_conv upd_entry_frame split: if_splits)
  then show ?thesis using sem_inv_writer cancel assms(3) by (metis fst_conv)
next
  case (remap c r c' req an)
  have "holds_line c r' k" if "holds_line c' r' k" for r' k
    using that remap by (cases "r' = r") (auto simp: holds_line_def rd_set_iff wr_set_iff idle_req_def get_entry_def)
  then show ?thesis using remap assms(3) by (auto intro: sem_inv_shrink)
qed

text \<open>
  The structure is not zeroed when it is allocated and the counter of suspended requests is never
  set, so its initial value is a parameter.
\<close>

definition cl_init :: "nat \<Rightarrow> nat \<Rightarrow> int \<Rightarrow> clc" where
  "cl_init entries buckets w = \<lparr>cl_entries = entries, cl_buckets = buckets, cl_lock = rwsem_free, cl_access = (\<lambda>_. 0),
     cl_waiters = (\<lambda>_. []), cl_waiting = w, cl_reqs = (\<lambda>_. request_zero), cl_resumed = []\<rparr>"

lemma cl_inv_init: "cl_inv (cl_init entries buckets w, \<lambda>_. 0)"
proof -
  have e: "get_entry (cl_init entries buckets w) r i = None" for r i
    by (simp add: get_entry_def cl_init_def request_zero_def)
  then show ?thesis
    by (simp add: cl_inv_def line_inv_def lock_ok_def rd_set_def wr_set_def queue_def users_def e)
      (simp add: cl_init_def access_defs)
qed

lemma sem_inv_init: "sem_inv (cl_init entries buckets w)"
  by (simp add: sem_inv_def cl_init_def rwsem_ok_calls) (simp add: rwsem_free_def)

lemma inv_reachable: "cl_step\<^sup>*\<^sup>* (cl_init entries buckets w, \<lambda>_. 0) s \<Longrightarrow> cl_inv s \<and> sem_inv (fst s)"
  by (induction rule: rtranclp_induct) (auto intro: cl_inv_init sem_inv_init cl_inv_step sem_inv_step)

lemmas cl_inv_reachable = inv_reachable [THEN conjunct1] and sem_inv_reachable = inv_reachable [THEN conjunct2]

subsection \<open>Properties of the line locks\<close>

text \<open>
  C6. In every state the threads can reach, a cache line is held by at most one writer, and
  never by a writer and a reader at the same time, whatever the interleaving of lock attempts,
  releases, cancelled waits and locks taken without a request.
\<close>

theorem line_lock_exclusive:
  assumes "cl_step\<^sup>*\<^sup>* (cl_init entries buckets w, \<lambda>_. 0) (c, an)"
  shows "wr_set c l = {} \<or> (\<exists>t. wr_set c l = {t} \<and> rd_set c l = {} \<and> an l = 0)"
  using cl_inv_reachable [OF assms] writer_holds [of c an _ l] by blast

text \<open>
  C7. No wake-up is lost: in every reachable state, a line that somebody waits for is held by
  somebody, so that a release is still to come; an entry that holds a line, and a reader without a
  request, can always release it without running into an assertion; and the one release that does
  not look at the queue, the rollback of a failed attempt to lock all lines of a request, runs into
  no assertion and finds nobody in the queue: the request is a reader of the semaphore, and waiters
  are added by its writer only.
\<close>

theorem line_lock_no_lost_wakeup:
  assumes "cl_step\<^sup>*\<^sup>* (cl_init entries buckets w, \<lambda>_. 0) (c, an)"
  shows "(queue c l = [] \<or> rd_set c l \<noteq> {} \<or> wr_set c l \<noteq> {} \<or> 0 < an l) \<and>
    ((r, i) \<in> rd_set c l \<longrightarrow> unlock_cache_line_rd c l \<noteq> None) \<and>
    ((r, i) \<in> wr_set c l \<longrightarrow> unlock_cache_line_wr c l \<noteq> None) \<and>
    (0 < an l \<longrightarrow> ocf_cache_line_unlock_rd c l \<noteq> None) \<and>
    (r \<in> set (rs_readers (cl_lock c)) \<longrightarrow>
      ((r, i) \<in> rd_set c l \<longrightarrow> queue c l = [] \<and> rollback_rd r i c \<noteq> None) \<and>
      ((r, i) \<in> wr_set c l \<longrightarrow> queue c l = [] \<and> rollback_wr r i c \<noteq> None))"
proof -
  have inv: "cl_inv (c, an)" and sem: "sem_inv c" using inv_reachable [OF assms] by simp_all
  have "queue c l = [] \<or> rd_set c l \<noteq> {} \<or> wr_set c l \<noteq> {} \<or> 0 < an l"
    using inv queue_busy [OF inv, of l] by (auto simp: cl_inv_def line_inv_def lock_ok_def)
  moreover note unlock_rd_token [OF inv, of r i l] unlock_wr_token [OF inv, of r i l] unlock_rd_anon [OF inv, of l]
  ultimately show ?thesis
    using reader_no_queue [OF sem, of r i l] rollback_common [OF inv sem, of r i l]
    by (auto simp: unlock_cache_line_rd_def unlock_cache_line_wr_def ocf_cache_line_unlock_rd_def)
qed

text \<open>The result of a release that leaves the access word \<open>a\<close> to the waiters of the line.\<close>

definition serves_queue :: "cline \<Rightarrow> int \<Rightarrow> clc \<Rightarrow> clc option \<Rightarrow> bool" where
  "serves_queue l a c res \<longleftrightarrow> (\<exists>v g q c1. grant a (queue c l) = (v, g, q) \<and> queue c l = g @ q \<and>
     fold_opt on_lock g c = Some c1 \<and>
     res = Some (set_bucket l (drop_w l (length g) (cl_waiters c (waiters_list_item c l))) (set_access l v c1)) \<and>
     (v = 0 \<longrightarrow> q = []))"

lemma serves_queueI:
  assumes inv: "cl_inv (c, an)" and "0 \<le> a"
    and u: "\<And>v g q c1. grant a (queue c l) = (v, g, q) \<Longrightarrow> fold_opt on_lock g c = Some c1 \<Longrightarrow>
      res = Some (set_bucket l (drop_w l (length g) (cl_waiters c (waiters_list_item c l))) (set_access l v c1))"
  shows "serves_queue l a c res"
proof -
  obtain v g q where gr: "grant a (queue c l) = (v, g, q)" by (metis prod_cases3)
  obtain c1 where c1: "fold_opt on_lock g c = Some c1" using served_state [OF inv gr] by metis
  have "v = 0 \<longrightarrow> q = []" using grant_idle [of a "queue c l" g q] gr assms(2) by auto
  with gr c1 u [OF gr c1] grant_queue [OF gr] show ?thesis unfolding serves_queue_def by blast
qed

text \<open>
  C8. Every release that looks at the queue serves it in order: the release of a map entry that
  reads, of a reader without a request, and of a writer. The lock passes to the longest run of
  waiters at the head of the queue that can hold it together with the remaining holders (readers,
  or one writer), all others keep their place, the waiters of other lines of the bucket are not
  touched, each waiter that was served has its lock bit set and is counted down, and the line
  becomes idle only when nobody waits any more.
\<close>

theorem unlock_serves_in_order:
  assumes "cl_step\<^sup>*\<^sup>* (cl_init entries buckets w, \<lambda>_. 0) (c, an)"
  shows "(rd_set c l \<noteq> {} \<longrightarrow> serves_queue l (cl_access c l - 1) c (unlock_cache_line_rd c l)) \<and>
    (0 < an l \<longrightarrow> serves_queue l (cl_access c l - 1) c (ocf_cache_line_unlock_rd c l)) \<and>
    (wr_set c l \<noteq> {} \<longrightarrow> serves_queue l OCF_CACHE_LINE_ACCESS_IDLE c (unlock_cache_line_wr c l))"
proof -
  have inv: "cl_inv (c, an)" by (rule cl_inv_reachable [OF assms])
  have "serves_queue l (cl_access c l - 1) c (unlock_cache_line_rd c l)" if "rd_set c l \<noteq> {} \<or> 0 < an l"
    using readers_hold [OF inv that] unlock_rd_code
    by (intro serves_queueI [OF inv]) (simp_all add: unlock_cache_line_rd_def)
  moreover have "serves_queue l OCF_CACHE_LINE_ACCESS_IDLE c (unlock_cache_line_wr c l)" if "t \<in> wr_set c l" for t
    using writer_holds [OF inv that] unlock_wr_code
    by (intro serves_queueI [OF inv]) (simp_all add: unlock_cache_line_wr_def OCF_CACHE_LINE_ACCESS_IDLE_def)
  ultimately show ?thesis by (auto simp: ocf_cache_line_unlock_rd_def)
qed

subsection \<open>Trying to lock a whole request\<close>

text \<open>
  The two \<^verbatim>\<open>_ocf_req_trylock_*\<close> functions have the same loop. What the loop needs of the lock it
  takes on each line is the following interface; \<open>margin n\<close> leaves room for \<open>n\<close> more readers.
\<close>

definition margin :: "nat \<Rightarrow> clc \<Rightarrow> bool" where
  "margin n c \<longleftrightarrow> (\<forall>k. 0 \<le> cl_access c k \<and>
     (cl_access c k = OCF_CACHE_LINE_ACCESS_WR \<or> cl_access c k + int n < OCF_CACHE_LINE_ACCESS_WR))"

definition unlocked_entry :: "ocf_map_info \<Rightarrow> bool" where
  "unlocked_entry e \<longleftrightarrow> \<not> mi_rd_locked e \<and> \<not> mi_wr_locked e"

locale try_lock =
  fixes lk :: "clc \<Rightarrow> cline \<Rightarrow> (bool \<times> clc) option"
    and mark :: "ocf_map_info \<Rightarrow> ocf_map_info"
    and rb :: "nat \<Rightarrow> nat \<Rightarrow> clc \<Rightarrow> clc option"
    and held :: "ocf_map_info \<Rightarrow> bool"
  assumes lk_total: "lk c l \<noteq> None"
    and lk_fail: "lk c l = Some (False, c') \<Longrightarrow> c' = c"
    and lk_frame: "lk c l = Some (True, c') \<Longrightarrow> cl_reqs c' = cl_reqs c \<and> cl_entries c' = cl_entries c"
    and lk_margin: "lk c l = Some (True, c') \<Longrightarrow> margin (Suc n) c \<Longrightarrow> margin n c'"
    and undo: "lk c (mi_coll_idx e) = Some (True, c1) \<Longrightarrow> margin (Suc n) c \<Longrightarrow> get_entry c r i = Some e \<Longrightarrow>
      unlocked_entry e \<Longrightarrow> upd_entry r i mark c1 = Some c2 \<Longrightarrow> rb r i c2 = Some c"
    and skip: "get_entry c r i = Some e \<Longrightarrow> unlocked_entry e \<Longrightarrow> rb r i c = Some c"
    and marked_held: "held (mark e)"
begin

lemma loop:
  assumes "margin (length is) c" and "distinct is"
    and "\<forall>i \<in> set is. \<exists>e. get_entry c r i = Some e \<and> unlocked_entry e \<and>
      (mi_status e \<noteq> LOOKUP_MISS \<longrightarrow> mi_coll_idx e < cl_entries c)"
  shows "\<exists>res c'. trylock_loop lk mark r is c = Some (res, c') \<and>
    (\<forall>i. i \<notin> set is \<longrightarrow> get_entry c' r i = get_entry c r i) \<and>
    (case res of
       None \<Rightarrow> \<forall>i \<in> set is. \<exists>e. get_entry c' r i = Some e \<and> (mi_status e \<noteq> LOOKUP_MISS \<longrightarrow> held e)
     | Some j \<Rightarrow> \<exists>is1 is2. is = is1 @ j # is2 \<and> fold_opt (rb r) (rev (is1 @ [j])) c' = Some c)"
  using assms
proof (induction "is" arbitrary: c)
  case Nil
  then show ?case by simp
next
  case (Cons i "is")
  obtain e where e: "get_entry c r i = Some e" "unlocked_entry e"
    "mi_status e \<noteq> LOOKUP_MISS \<longrightarrow> mi_coll_idx e < cl_entries c" using Cons.prems(3) by auto
  obtain ok c1 where lk: "lk c (mi_coll_idx e) = Some (ok, c1)"
    using lk_total [of c "mi_coll_idx e"] by auto
  show ?case
  proof (cases "mi_status e = LOOKUP_MISS")
    case True
    have m: "margin (length is) c" using Cons.prems(1) by (auto simp: margin_def)
    from Cons.IH [OF m] Cons.prems(2,3) obtain res c' where IH: "trylock_loop lk mark r is c = Some (res, c')"
      "\<forall>i. i \<notin> set is \<longrightarrow> get_entry c' r i = get_entry c r i"
      "case res of None \<Rightarrow> \<forall>i \<in> set is. \<exists>e. get_entry c' r i = Some e \<and> (mi_status e \<noteq> LOOKUP_MISS \<longrightarrow> held e)
        | Some j \<Rightarrow> \<exists>is1 is2. is = is1 @ j # is2 \<and> fold_opt (rb r) (rev (is1 @ [j])) c' = Some c"
      by auto
    have sk: "rb r i c = Some c" using skip e by blast
    have "\<exists>xs ys. i # is = xs @ j # ys \<and> fold_opt (rb r) (rev (xs @ [j])) c' = Some c" if j: "res = Some j" for j
    proof -
      from IH(3) j obtain xs ys where x: "is = xs @ j # ys" "fold_opt (rb r) (rev (xs @ [j])) c' = Some c" by auto
      then have "i # is = (i # xs) @ j # ys" "fold_opt (rb r) (rev ((i # xs) @ [j])) c' = Some c"
        using sk by (auto simp: fold_opt_append bind_eq_Some_conv)
      then show ?thesis by blast
    qed
    then show ?thesis using IH(1,2,3) e True Cons.prems(2) by (cases res) auto
  next
    case miss: False
    show ?thesis
    proof (cases ok)
      case False
      then have "c1 = c" using lk lk_fail by simp
      have run: "trylock_loop lk mark r (i # is) c = Some (Some i, c)"
        using e lk miss False \<open>c1 = c\<close> by (simp add: unlocked_entry_def)
      have "i # is = [] @ i # is" "fold_opt (rb r) (rev ([] @ [i])) c = Some c" using skip e by simp_all
      then have "\<exists>xs ys. i # is = xs @ i # ys \<and> fold_opt (rb r) (rev (xs @ [i])) c = Some c" by blast
      then show ?thesis unfolding run by simp
    next
      case True
      with lk have lkT: "lk c (mi_coll_idx e) = Some (True, c1)" by simp
      have ge: "get_entry c1 r' k = get_entry c r' k" for r' k using lk_frame [OF lkT] by (simp add: get_entry_def)
      then obtain c2 where c2: "upd_entry r i mark c1 = Some c2" using upd_entry_total e(1) by (metis option.distinct(1))
      have ge2: "get_entry c2 r k = (if k = i then Some (mark e) else get_entry c r k)" for k
        using get_upd_entry [OF c2] ge e(1) by simp
      have m1: "margin (length is) c1" using lk_margin [OF lkT] Cons.prems(1) by simp
      have m: "margin (length is) c2" using m1 upd_entry_frame [OF c2] by (simp add: margin_def)
      have en: "cl_entries c2 = cl_entries c" using upd_entry_frame [OF c2] lk_frame [OF lkT] by simp
      have "\<forall>k \<in> set is. \<exists>e. get_entry c2 r k = Some e \<and> unlocked_entry e \<and>
        (mi_status e \<noteq> LOOKUP_MISS \<longrightarrow> mi_coll_idx e < cl_entries c2)"
        using Cons.prems(2,3) ge2 en by auto
      with Cons.IH [OF m] Cons.prems(2) obtain res c' where IH: "trylock_loop lk mark r is c2 = Some (res, c')"
        "\<forall>i. i \<notin> set is \<longrightarrow> get_entry c' r i = get_entry c2 r i"
        "case res of None \<Rightarrow> \<forall>i \<in> set is. \<exists>e. get_entry c' r i = Some e \<and> (mi_status e \<noteq> LOOKUP_MISS \<longrightarrow> held e)
          | Some j \<Rightarrow> \<exists>is1 is2. is = is1 @ j # is2 \<and> fold_opt (rb r) (rev (is1 @ [j])) c' = Some c2"
        by auto
      have run: "trylock_loop lk mark r (i # is) c = Some (res, c')"
        using e miss lkT c2 IH(1) by (simp add: unlocked_entry_def)
      have ui: "rb r i c2 = Some c" using undo [OF lkT _ e(1,2) c2] Cons.prems(1) by simp
      have hi: "get_entry c' r i = Some (mark e)" using IH(2) ge2 Cons.prems(2) by simp
      have "\<exists>xs ys. i # is = xs @ j # ys \<and> fold_opt (rb r) (rev (xs @ [j])) c' = Some c" if j: "res = Some j" for j
      proof -
        from IH(3) j obtain xs ys where x: "is = xs @ j # ys" "fold_opt (rb r) (rev (xs @ [j])) c' = Some c2" by auto
        then have "i # is = (i # xs) @ j # ys" "fold_opt (rb r) (rev ((i # xs) @ [j])) c' = Some c"
          using ui by (auto simp: fold_opt_append bind_eq_Some_conv)
        then show ?thesis by blast
      qed
      with run hi IH(2,3) ge2 marked_held show ?thesis by (cases res) (auto simp del: trylock_loop.simps)
    qed
  qed
qed

end

lemma lock_rd_nocb:
  "lock_cache_line_rd c l False False 0 0 =
     (if cl_access c l = 0 \<or> (\<not> are_waiters c l \<and> cl_access c l \<noteq> OCF_CACHE_LINE_ACCESS_WR)
      then Some (True, set_access l (cl_access c l + 1) c) else Some (False, c))"
  by (auto simp: lock_cache_line_rd_def try_lock_rd_idle_def lock_rd_locked_def try_lock_rd_def access_defs)

lemma lock_wr_nocb:
  "lock_cache_line_wr c l False False 0 0 =
     (if cl_access c l = 0 then Some (True, set_access l OCF_CACHE_LINE_ACCESS_WR c) else Some (False, c))"
  by (auto simp: lock_cache_line_wr_def try_lock_wr_def lock_wr_locked_def access_defs)

lemma upd_entry_back:
  assumes "upd_entry r i f c1 = Some c2" and "get_entry c1 r i = Some e" and "g (f e) = e"
  shows "upd_entry r i g c2 = Some c1"
proof -
  from assms(2) obtain m where m: "rq_map (cl_reqs c1 r) = Some m" "i < length m" "m ! i = e"
    by (auto simp: get_entry_def split: option.splits if_splits)
  have "c2 = c1\<lparr>cl_reqs := (cl_reqs c1)(r := (cl_reqs c1 r)\<lparr>rq_map := Some (m[i := f e])\<rparr>)\<rparr>"
    using assms(1) m by (simp add: upd_entry_def)
  moreover have "(cl_reqs c1 r)\<lparr>rq_map := Some (m[i := e])\<rparr> = cl_reqs c1 r"
    using m by (cases "cl_reqs c1 r") auto
  ultimately show ?thesis using m assms(3) by (simp add: upd_entry_def)
qed

lemma set_access_upd_entry:
  "upd_entry r i f (set_access l v c) = map_option (set_access l v) (upd_entry r i f c)"
  by (auto simp: upd_entry_def set_access_def split: option.splits)

lemma set_rd_locked_cancel: "\<not> mi_rd_locked e \<Longrightarrow> set_rd_locked False (set_rd_locked True e) = e"
  and set_wr_locked_cancel: "\<not> mi_wr_locked e \<Longrightarrow> set_wr_locked False (set_wr_locked True e) = e"
  by (simp_all add: set_rd_locked_def set_wr_locked_def)

interpretation rd_try: try_lock "\<lambda>c l. lock_cache_line_rd c l False False 0 0" "set_rd_locked True" rollback_rd mi_rd_locked
proof
  fix c c' c1 c2 :: clc and l :: cline and n r i :: nat and e :: ocf_map_info
  show "lock_cache_line_rd c l False False 0 0 \<noteq> None" by (auto simp: lock_rd_nocb)
  show "lock_cache_line_rd c l False False 0 0 = Some (False, c') \<Longrightarrow> c' = c" by (auto simp: lock_rd_nocb split: if_splits)
  show "lock_cache_line_rd c l False False 0 0 = Some (True, c') \<Longrightarrow> cl_reqs c' = cl_reqs c \<and> cl_entries c' = cl_entries c"
    by (auto simp: lock_rd_nocb split: if_splits)
  show "lock_cache_line_rd c l False False 0 0 = Some (True, c') \<Longrightarrow> margin (Suc n) c \<Longrightarrow> margin n c'"
    by (auto simp: lock_rd_nocb margin_def access_defs split: if_splits)
  show "get_entry c r i = Some e \<Longrightarrow> unlocked_entry e \<Longrightarrow> rollback_rd r i c = Some c"
    by (simp add: rollback_rd_def unlocked_entry_def)
  show "mi_rd_locked (set_rd_locked True e)" by (simp add: set_rd_locked_def)
  assume lk: "lock_cache_line_rd c (mi_coll_idx e) False False 0 0 = Some (True, c1)" and m: "margin (Suc n) c"
    and e: "get_entry c r i = Some e" "unlocked_entry e" and u: "upd_entry r i (set_rd_locked True) c1 = Some c2"
  let ?l = "mi_coll_idx e"
  note t = try_rd_code [OF lk]
  have e1: "get_entry c1 r i = Some e" using e t by simp
  have e2: "get_entry c2 r i = Some (set_rd_locked True e)" using get_upd_entry [OF u] e1 by simp
  have a: "cl_access c2 ?l = cl_access c ?l + 1" using upd_entry_frame(1) [OF u] t by simp
  have b: "0 \<le> cl_access c ?l" "cl_access c ?l + 1 < OCF_CACHE_LINE_ACCESS_WR"
    using m t(2) by (auto simp: margin_def)
  have "upd_entry r i (set_rd_locked False) c2 = Some c1"
    using upd_entry_back [OF u e1] e(2) set_rd_locked_cancel by (simp add: unlocked_entry_def)
  then have "upd_entry r i (set_rd_locked False) (set_access ?l (cl_access c ?l) c2) = Some c"
    using t(1) by (simp add: set_access_upd_entry)
  then show "rollback_rd r i c2 = Some c"
    using e2 a b by (simp add: rollback_rd_def unlock_rd_def set_rd_locked_def)
qed

interpretation wr_try: try_lock "\<lambda>c l. lock_cache_line_wr c l False False 0 0" "set_wr_locked True" rollback_wr mi_wr_locked
proof
  fix c c' c1 c2 :: clc and l :: cline and n r i :: nat and e :: ocf_map_info
  show "lock_cache_line_wr c l False False 0 0 \<noteq> None" by (auto simp: lock_wr_nocb)
  show "lock_cache_line_wr c l False False 0 0 = Some (False, c') \<Longrightarrow> c' = c" by (auto simp: lock_wr_nocb split: if_splits)
  show "lock_cache_line_wr c l False False 0 0 = Some (True, c') \<Longrightarrow> cl_reqs c' = cl_reqs c \<and> cl_entries c' = cl_entries c"
    by (auto simp: lock_wr_nocb split: if_splits)
  show "lock_cache_line_wr c l False False 0 0 = Some (True, c') \<Longrightarrow> margin (Suc n) c \<Longrightarrow> margin n c'"
    by (auto simp: lock_wr_nocb margin_def access_defs split: if_splits)
  show "get_entry c r i = Some e \<Longrightarrow> unlocked_entry e \<Longrightarrow> rollback_wr r i c = Some c"
    by (simp add: rollback_wr_def unlocked_entry_def)
  show "mi_wr_locked (set_wr_locked True e)" by (simp add: set_wr_locked_def)
  assume lk: "lock_cache_line_wr c (mi_coll_idx e) False False 0 0 = Some (True, c1)" and m: "margin (Suc n) c"
    and e: "get_entry c r i = Some e" "unlocked_entry e" and u: "upd_entry r i (set_wr_locked True) c1 = Some c2"
  let ?l = "mi_coll_idx e"
  note t = try_wr_code [OF lk]
  have e1: "get_entry c1 r i = Some e" using e t by simp
  have e2: "get_entry c2 r i = Some (set_wr_locked True e)" using get_upd_entry [OF u] e1 by simp
  have a: "cl_access c2 ?l = OCF_CACHE_LINE_ACCESS_WR" using upd_entry_frame(1) [OF u] t by simp
  have "upd_entry r i (set_wr_locked False) c2 = Some c1"
    using upd_entry_back [OF u e1] e(2) set_wr_locked_cancel by (simp add: unlocked_entry_def)
  then have "upd_entry r i (set_wr_locked False) (set_access ?l 0 c2) = Some c"
    using t by (simp add: set_access_upd_entry)
  then show "rollback_wr r i c2 = Some c"
    using e2 a by (simp add: rollback_wr_def unlock_wr_def set_wr_locked_def OCF_CACHE_LINE_ACCESS_IDLE_def)
qed

lemma upt_prefix: "[0..<n] = xs @ j # ys \<Longrightarrow> xs @ [j] = [0..<Suc j]"
proof -
  assume a: "[0..<n] = xs @ j # ys"
  have l: "length xs < n" using arg_cong [OF a, of length] by simp
  have "j = [0..<n] ! length xs" by (simp add: a)
  then have j: "j = length xs" using l by simp
  have "take (Suc (length xs)) [0..<n] = xs @ [j]" by (simp add: a)
  then show ?thesis using l j by (simp add: take_upt)
qed

lemma trylock_result:
  assumes "trylock_loop lk mark r [0..<n] c = Some (res, c')"
    and "case res of None \<Rightarrow> \<forall>i \<in> set [0..<n]. \<exists>e. get_entry c' r i = Some e \<and> (mi_status e \<noteq> LOOKUP_MISS \<longrightarrow> held e)
      | Some j \<Rightarrow> \<exists>xs ys. [0..<n] = xs @ j # ys \<and> fold_opt rb (rev (xs @ [j])) c' = Some c"
  shows "\<exists>ret c''. (case res of None \<Rightarrow> Some (OCF_LOCK_ACQUIRED, c')
       | Some i \<Rightarrow> do { c \<leftarrow> fold_opt rb (rev [0..<Suc i]) c'; Some (OCF_LOCK_NOT_ACQUIRED, c) }) = Some (ret, c'') \<and>
    (ret = OCF_LOCK_ACQUIRED \<and> (\<forall>i < n. \<exists>e. get_entry c'' r i = Some e \<and> (mi_status e \<noteq> LOOKUP_MISS \<longrightarrow> held e)) \<or>
     ret = OCF_LOCK_NOT_ACQUIRED \<and> c'' = c)"
proof (cases res)
  case None
  with assms(2) show ?thesis by simp
next
  case (Some j)
  with assms(2) obtain xs ys where "[0..<n] = xs @ j # ys" "fold_opt rb (rev (xs @ [j])) c' = Some c" by auto
  with upt_prefix [of n xs j ys] have "fold_opt rb (rev [0..<Suc j]) c' = Some c" by metis
  with Some show ?thesis by simp
qed

text \<open>
  C9. Trying to lock a request is all or nothing: on success every mapped entry holds its line;
  on failure the whole state, lock words, lock bits and queues, is what it was before.
\<close>

theorem trylock_all_or_nothing:
  assumes "rq_lock_remaining (cl_reqs c r) = 0" and "margin (rq_core_line_count (cl_reqs c r)) c"
    and "\<forall>i < rq_core_line_count (cl_reqs c r). \<exists>e. get_entry c r i = Some e \<and> unlocked_entry e \<and>
      (mi_status e \<noteq> LOOKUP_MISS \<longrightarrow> mi_coll_idx e < cl_entries c)"
  shows "(\<exists>ret c'. ocf_req_trylock_rd r c = Some (ret, c') \<and>
      (ret = OCF_LOCK_ACQUIRED \<and> (\<forall>i < rq_core_line_count (cl_reqs c r). \<exists>e. get_entry c' r i = Some e \<and>
         (mi_status e \<noteq> LOOKUP_MISS \<longrightarrow> mi_rd_locked e)) \<or>
       ret = OCF_LOCK_NOT_ACQUIRED \<and> c' = c)) \<and>
    (\<exists>ret c'. ocf_req_trylock_wr r c = Some (ret, c') \<and>
      (ret = OCF_LOCK_ACQUIRED \<and> (\<forall>i < rq_core_line_count (cl_reqs c r). \<exists>e. get_entry c' r i = Some e \<and>
         (mi_status e \<noteq> LOOKUP_MISS \<longrightarrow> mi_wr_locked e)) \<or>
       ret = OCF_LOCK_NOT_ACQUIRED \<and> c' = c))"
proof -
  let ?n = "rq_core_line_count (cl_reqs c r)"
  have m: "margin (length [0..<?n]) c" using assms(2) by simp
  have e: "\<forall>i \<in> set [0..<?n]. \<exists>e. get_entry c r i = Some e \<and> unlocked_entry e \<and>
      (mi_status e \<noteq> LOOKUP_MISS \<longrightarrow> mi_coll_idx e < cl_entries c)" using assms(3) by auto
  obtain res c' where rd: "trylock_loop (\<lambda>c l. lock_cache_line_rd c l False False 0 0) (set_rd_locked True) r [0..<?n] c = Some (res, c')"
    "case res of None \<Rightarrow> \<forall>i \<in> set [0..<?n]. \<exists>e. get_entry c' r i = Some e \<and> (mi_status e \<noteq> LOOKUP_MISS \<longrightarrow> mi_rd_locked e)
      | Some j \<Rightarrow> \<exists>xs ys. [0..<?n] = xs @ j # ys \<and> fold_opt (rollback_rd r) (rev (xs @ [j])) c' = Some c"
    using rd_try.loop [OF m distinct_upt e] by blast
  obtain res2 c2 where wr: "trylock_loop (\<lambda>c l. lock_cache_line_wr c l False False 0 0) (set_wr_locked True) r [0..<?n] c = Some (res2, c2)"
    "case res2 of None \<Rightarrow> \<forall>i \<in> set [0..<?n]. \<exists>e. get_entry c2 r i = Some e \<and> (mi_status e \<noteq> LOOKUP_MISS \<longrightarrow> mi_wr_locked e)
      | Some j \<Rightarrow> \<exists>xs ys. [0..<?n] = xs @ j # ys \<and> fold_opt (rollback_wr r) (rev (xs @ [j])) c2 = Some c"
    using wr_try.loop [OF m distinct_upt e] by blast
  show ?thesis
    using trylock_result [OF rd] trylock_result [OF wr]
    by (simp add: ocf_req_trylock_rd_def ocf_req_trylock_wr_def assms(1) rd(1) wr(1))
qed

text \<open>
  Releasing a request whose first mapped entry holds no lock trips the assertion of
  \<^verbatim>\<open>ocf_req_unlock\<close>.
\<close>

theorem unlock_unlocked_asserts:
  assumes "0 < rq_core_line_count (cl_reqs c r)" and "get_entry c r 0 = Some e"
    and "mi_status e \<noteq> LOOKUP_MISS" and "unlocked_entry e"
  shows "ocf_req_unlock r c = None"
proof -
  have "[0..<rq_core_line_count (cl_reqs c r)] = 0 # [1..<rq_core_line_count (cl_reqs c r)]"
    using assms(1) by (simp add: upt_conv_Cons)
  with assms(2-4) show ?thesis
    by (simp add: ocf_req_unlock_def unlock_entry_step_def unlock_any_def unlocked_entry_def)
qed

subsection \<open>A reader and a waiting writer\<close>

text \<open>Two requests for line 3: request 7 reads it, request 8 waits to write it.\<close>

definition demo_req :: ocf_request where
  "demo_req = request_zero\<lparr>rq_core_line_count := 1, rq_lock_remaining := 2,
     rq_map := Some [map_info_zero\<lparr>mi_status := LOOKUP_HIT, mi_coll_idx := 3\<rparr>]\<rparr>"

definition demo1 :: clc where
  "demo1 = (cl_init 4 2 0)\<lparr>cl_reqs := (cl_reqs (cl_init 4 2 0))(7 := demo_req)\<rparr>"

definition demo2 :: clc where
  "demo2 = demo1\<lparr>cl_reqs := (cl_reqs demo1)(8 := demo_req)\<rparr>"

definition demo3 :: clc where
  "demo3 = set_access 3 1 (demo2\<lparr>cl_reqs := (cl_reqs demo2)(7 := demo_req\<lparr>rq_lock_remaining := 1,
     rq_map := Some [map_info_zero\<lparr>mi_status := LOOKUP_HIT, mi_coll_idx := 3, mi_rd_locked := True\<rparr>]\<rparr>)\<rparr>)"

definition demo4 :: clc where
  "demo4 = add_waiter demo3 3 \<lparr>w_line = 3, w_ctx = 8, w_ctx_id = 0, w_rw = OCF_WRITE\<rparr>"

definition writer :: "nat \<Rightarrow> clc \<Rightarrow> clc" where
  "writer r c = c\<lparr>cl_lock := \<lparr>rs_readers = [], rs_writer = Some r\<rparr>\<rparr>"

lemmas demo_defs = demo1_def demo2_def demo3_def demo4_def demo_req_def cl_init_def request_zero_def map_info_zero_def

lemma demo_entries:
  "get_entry demo1 r i = (if r = 7 \<and> i = 0 then Some (map_info_zero\<lparr>mi_status := LOOKUP_HIT, mi_coll_idx := 3\<rparr>) else None)"
  "get_entry demo2 r i = (if (r = 7 \<or> r = 8) \<and> i = 0 then Some (map_info_zero\<lparr>mi_status := LOOKUP_HIT, mi_coll_idx := 3\<rparr>) else None)"
  "get_entry demo3 r i = (if r = 7 \<and> i = 0 then Some (map_info_zero\<lparr>mi_status := LOOKUP_HIT, mi_coll_idx := 3, mi_rd_locked := True\<rparr>)
     else if r = 8 \<and> i = 0 then Some (map_info_zero\<lparr>mi_status := LOOKUP_HIT, mi_coll_idx := 3\<rparr>) else None)"
  by (simp_all add: get_entry_def demo_defs set_access_def)

lemma demo_waiters: "cl_waiters demo1 b = []" "cl_waiters demo2 b = []" "cl_waiters demo3 b = []"
  by (simp_all add: demo_defs set_access_def)

lemma demo_sets:
  "rd_set demo2 3 = {}" "wr_set demo2 3 = {}" "rd_set demo3 3 = {(7, 0)}" "wr_set demo3 3 = {}"
  by (auto simp: rd_set_def wr_set_def demo_entries map_info_zero_def split: if_splits)

lemma demo_reachable: "cl_step\<^sup>*\<^sup>* (cl_init 4 2 0, \<lambda>_. 0) (demo4, \<lambda>_. 0)"
proof -
  have init: "idle_req (cl_init 4 2 0) r" for r by (simp add: idle_req_def get_entry_def cl_init_def request_zero_def)
  have 1: "cl_step (cl_init 4 2 0, \<lambda>_. 0) (demo1, \<lambda>_. 0)"
    by (rule cl_step.remap [of _ 7 _ demo_req])
      (simp_all add: init, simp_all add: demo1_def [symmetric] idle_req_def demo_entries demo_waiters map_info_zero_def)
  have 2: "cl_step (demo1, \<lambda>_. 0) (demo2, \<lambda>_. 0)"
    by (rule cl_step.remap [of _ 8 _ demo_req])
      (simp_all add: demo2_def [symmetric] idle_req_def demo_entries demo_waiters map_info_zero_def)
  have dw: "down_write r c = Some (writer r c)" "up_write r (writer r c) = c" if "cl_lock c = rwsem_free" for r c
    using that by (simp_all add: down_write_def up_write_def writer_def rwsem_defs rwsem_free_def)
  have free: "cl_lock demo2 = rwsem_free" "cl_lock demo3 = rwsem_free" "cl_lock demo4 = rwsem_free"
    by (simp_all add: demo_defs add_waiter_def)
  have sets: "rd_set (writer r c) l = rd_set c l" "wr_set (writer r c) l = wr_set c l" "queue (writer r c) l = queue c l"
    "get_entry (writer r c) k i = get_entry c k i" "cl_waiters (writer r c) = cl_waiters c" "rs_writer (cl_lock (writer r c)) = Some r" for r c k i l
    by (simp_all add: writer_def)
  have 3: "cl_step (writer 7 demo2, \<lambda>_. 0) (writer 7 demo3, \<lambda>_. 0)"
  proof (rule cl_step.lock_rd [of _ 7 3 0])
    show "lock_cache_line_rd (writer 7 demo2) 3 True True 7 0 = Some (True, writer 7 demo3)"
      by (simp add: lock_cache_line_rd_def try_lock_rd_idle_def req_on_lock_def upd_entry_def set_lock_remaining_def
          set_access_def demo_defs access_defs Let_def writer_def)
  qed (simp_all add: free_entry_def demo_entries waits_def room_def users_def demo_sets sets queue_def demo_waiters
      map_info_zero_def access_defs)
  have 4: "cl_step (writer 8 demo3, \<lambda>_. 0) (writer 8 demo4, \<lambda>_. 0)"
  proof (rule cl_step.lock_wr [of _ 8 3 0])
    have "cl_access (writer 8 demo3) 3 = 1" by (simp add: demo_defs set_access_def writer_def)
    then show "lock_cache_line_wr (writer 8 demo3) 3 True True 8 0 = Some (True, writer 8 demo4)"
      by (simp add: lock_cache_line_wr_def try_lock_wr_def lock_wr_locked_def demo4_def access_defs add_waiter_def set_bucket_def
          waiters_list_item_def writer_def)
  qed (simp_all add: free_entry_def demo_entries waits_def room_def users_def demo_sets sets queue_def demo_waiters
      map_info_zero_def access_defs)
  have under: "cl_step\<^sup>*\<^sup>* (c, \<lambda>_. 0) (c', \<lambda>_. 0)"
    if "cl_step (writer r c, \<lambda>_. 0) (writer r c', \<lambda>_. 0)" "cl_lock c = rwsem_free" "cl_lock c' = rwsem_free" for r c c'
  proof -
    have "cl_step (c, \<lambda>_. 0) (writer r c, \<lambda>_. 0)" by (rule cl_step.down_write) (rule dw(1) [OF that(2)])
    moreover have "cl_step (writer r c', \<lambda>_. 0) (c', \<lambda>_. 0)" using cl_step.up_write [of "writer r c'" r] dw(2) [OF that(3)] by (simp add: sets)
    ultimately show ?thesis using that(1) by (meson rtranclp.rtrancl_into_rtrancl rtranclp.rtrancl_refl)
  qed
  from 1 2 have "cl_step\<^sup>*\<^sup>* (cl_init 4 2 0, \<lambda>_. 0) (demo2, \<lambda>_. 0)" by (meson rtranclp.rtrancl_into_rtrancl rtranclp.rtrancl_refl)
  with under [OF 3 free(1,2)] under [OF 4 free(2,3)] show ?thesis by (meson rtranclp_trans)
qed

lemma demo4_held: "(7, 0) \<in> rd_set demo4 3"
proof -
  have "rd_set demo4 3 = rd_set demo3 3" by (simp add: demo4_def add_waiter_def rd_set_def)
  then show ?thesis by (simp add: demo_sets)
qed

theorem line_lock_exclusive_witness:
  "wr_set demo4 3 = {} \<or> (\<exists>t. wr_set demo4 3 = {t} \<and> rd_set demo4 3 = {})"
  using line_lock_exclusive [OF demo_reachable, of 3] by blast

theorem line_lock_no_lost_wakeup_witness:
  "unlock_cache_line_rd demo4 3 \<noteq> None"
  using line_lock_no_lost_wakeup [OF demo_reachable, of 3 7 0] demo4_held by blast

theorem unlock_serves_in_order_witness:
  "serves_queue 3 (cl_access demo4 3 - 1) demo4 (unlock_cache_line_rd demo4 3)"
  using unlock_serves_in_order [OF demo_reachable, of 3] demo4_held by blast

theorem trylock_all_or_nothing_witness:
  "\<exists>ret c'. ocf_req_trylock_rd 7 (demo2\<lparr>cl_reqs := (cl_reqs demo2)(7 := demo_req\<lparr>rq_lock_remaining := 0\<rparr>)\<rparr>) = Some (ret, c')"
proof -
  let ?c = "demo2\<lparr>cl_reqs := (cl_reqs demo2)(7 := demo_req\<lparr>rq_lock_remaining := 0\<rparr>)\<rparr>"
  have "margin (rq_core_line_count (cl_reqs ?c 7)) ?c"
    by (simp add: margin_def demo_defs access_defs)
  moreover have "get_entry ?c 7 0 = Some (map_info_zero\<lparr>mi_status := LOOKUP_HIT, mi_coll_idx := 3\<rparr>)"
    by (simp add: get_entry_def demo_req_def)
  moreover have "cl_entries ?c = 4" by (simp add: demo_defs)
  ultimately show ?thesis
    using trylock_all_or_nothing [of ?c 7]
    by (auto simp: demo_req_def unlocked_entry_def map_info_zero_def)
qed

theorem unlock_unlocked_asserts_witness: "ocf_req_unlock 7 demo1 = None"
proof (rule unlock_unlocked_asserts)
  show "get_entry demo1 7 0 = Some (map_info_zero\<lparr>mi_status := LOOKUP_HIT, mi_coll_idx := 3\<rparr>)"
    by (simp add: demo_entries)
qed (simp_all add: demo1_def demo_req_def unlocked_entry_def map_info_zero_def)

end
