(* ===== verification/CacheLine.thy ===== *)
theory CacheLine
  imports MetadataBits Partition Freelist LRU CLConcurrency
begin

section \<open>The life of a cache line\<close>

text \<open>
  The operations that join the components: \<^verbatim>\<open>src/utils/utils_cache_line.c\<close>, the parts of
  \<^verbatim>\<open>src/eviction/lru.c\<close> and \<^verbatim>\<open>src/eviction/eviction.c\<close> that pick and evict lines,
  \<^verbatim>\<open>src/metadata/metadata_misc.c\<close>, \<^verbatim>\<open>ocf_part_move\<close>, and the mapping of a core line by
  \<^verbatim>\<open>ocf_engine_map_cache_line\<close>. A cache line is free or mapped; a mapped line is in one bucket of
  the collision table, in one partition, and in the clean or the dirty LRU list of that partition.
  The partition lists and the free lists are threaded through the same links.

  The cleaning policy is a table of function pointers whose functions touch only the policy's own
  state; the calls are recorded. So are the requests to zero a line on an atomic device and the
  starts of the cleaner.
\<close>

subsection \<open>State\<close>

datatype event = Purge cline | Hot cline | InitBlock cline | CleanerFire part_id cline nat | ZeroLine core_id u64
  | PromotionPurge core_id core_line core_line

datatype line_state = INVALID | VALID | CLEAN | DIRTY
datatype raw_type = metadata_raw_type_ram | metadata_raw_type_volatile | metadata_raw_type_atomic

text \<open>
  \<open>ca_ctx\<close> is the execution context of the caller and \<open>ca_busy n i\<close> tells whether the
  \<open>i\<close>th attempt of the \<open>n\<close>th allocation to lock a free list fails, \<open>ca_gets\<close> counts the allocations; \<open>ca_zero_ok\<close> tells whether the request that zeroes a line can be made. \<open>ca_tick\<close> is the
  clock.
\<close>

record 's cache =
  ca_status :: "'s"
  ca_coll :: coll_meta
  ca_parts :: part_state
  ca_lru :: lru_state
  ca_free :: ocf_freelist
  ca_locks :: clc
  ca_line :: line_settings
  ca_cached :: "core_id \<Rightarrow> int"
  ca_dirty :: "core_id \<Rightarrow> int"
  ca_part_cached :: "core_id \<Rightarrow> part_id \<Rightarrow> int"
  ca_part_dirty :: "core_id \<Rightarrow> part_id \<Rightarrow> int"
  ca_dirty_since :: "core_id \<Rightarrow> nat"
  ca_tick :: nat
  ca_ctx :: nat
  ca_busy :: "nat \<Rightarrow> nat \<Rightarrow> bool"
  ca_gets :: nat
  ca_atomic :: bool
  ca_raw :: raw_type
  ca_zero_ok :: "cline \<Rightarrow> bool"
  ca_pending :: int
  ca_mngt_locked :: bool
  ca_cleaning_ref :: "part_id \<Rightarrow> ocf_refcnt"
  ca_events :: "event list"

type_synonym 'w wcache = "'w word status_map cache"

abbreviation ca_links :: "'s cache \<Rightarrow> part_links" where
  "ca_links c \<equiv> ps_links (ca_parts c)"

definition emit :: "event \<Rightarrow> 'w::len wcache \<Rightarrow> 'w wcache" where
  "emit e c = c\<lparr>ca_events := ca_events c @ [e]\<rparr>"

definition inc2 :: "core_id \<Rightarrow> part_id \<Rightarrow> int \<Rightarrow> (core_id \<Rightarrow> part_id \<Rightarrow> int) \<Rightarrow> core_id \<Rightarrow> part_id \<Rightarrow> int" where
  "inc2 core p d f = f(core := (f core)(p := f core p + d))"

subsection \<open>Eviction policy hooks\<close>

definition evp_lru_rm_cline :: "'w::len wcache \<Rightarrow> cline \<Rightarrow> 'w wcache option" where
  "evp_lru_rm_cline c cline = do {
     part_id \<leftarrow> ocf_metadata_get_partition_id (ca_links c) cline;
     dirty \<leftarrow> metadata_test_dirty (ca_status c) cline;
     ls \<leftarrow> remove_lru_list (ca_lru c) part_id cline dirty;
     Some (c\<lparr>ca_lru := ls\<rparr>) }"

definition evp_lru_hot_cline :: "'w::len wcache \<Rightarrow> cline \<Rightarrow> 'w wcache option" where
  "evp_lru_hot_cline c cline = do {
     part_id \<leftarrow> ocf_metadata_get_partition_id (ca_links c) cline;
     let pol = lru_pol (ca_lru c) part_id;
     let entries = lru_entries (ca_lru c);
     (next_lru_node, prev_lru_node) \<leftarrow> ocf_metadata_get_evicition_policy (ca_lru c) cline;
     cline_dirty \<leftarrow> metadata_test_dirty (ca_status c) cline;
     ls \<leftarrow> (if next_lru_node \<noteq> entries \<or> prev_lru_node \<noteq> entries \<or>
               (clean_head pol = cline \<and> clean_tail pol = cline) \<or>
               (dirty_head pol = cline \<and> dirty_tail pol = cline)
            then remove_lru_list (ca_lru c) part_id cline cline_dirty else Some (ca_lru c));
     ls \<leftarrow> add_lru_head ls part_id cline cline_dirty;
     Some (c\<lparr>ca_lru := ls\<rparr>) }"

text \<open>The only eviction policy is LRU, so the hooks of \<^verbatim>\<open>src/eviction/ops.h\<close> dispatch to it.\<close>

definition ocf_eviction_init_cache_line :: "'w::len wcache \<Rightarrow> cline \<Rightarrow> 'w wcache option" where
  "ocf_eviction_init_cache_line c line = do {
     ls \<leftarrow> evp_lru_init_cline (ca_lru c) line;
     Some (c\<lparr>ca_lru := ls\<rparr>) }"

definition ocf_eviction_purge_cache_line :: "'w::len wcache \<Rightarrow> cline \<Rightarrow> 'w wcache option" where
  "ocf_eviction_purge_cache_line c line = evp_lru_rm_cline c line"

definition ocf_eviction_set_hot_cache_line :: "'w::len wcache \<Rightarrow> cline \<Rightarrow> 'w wcache option" where
  "ocf_eviction_set_hot_cache_line c line = evp_lru_hot_cline c line"

subsection \<open>Taking a line out of the cache\<close>

definition ocf_metadata_sparse_cache_line :: "'w::len wcache \<Rightarrow> cline \<Rightarrow> 'w wcache option" where
  "ocf_metadata_sparse_cache_line c cache_line = do {
     partition_id \<leftarrow> ocf_metadata_get_partition_id (ca_links c) cache_line;
     coll \<leftarrow> ocf_metadata_remove_from_collision (ca_coll c) cache_line partition_id;
     ps \<leftarrow> ocf_metadata_remove_from_partition (ca_parts c) partition_id cache_line;
     (fl, pl) \<leftarrow> ocf_freelist_put_cache_line (ca_ctx c) cache_line (ca_free c, ps_links ps);
     Some (c\<lparr>ca_coll := coll, ca_parts := ps\<lparr>ps_links := pl\<rparr>, ca_free := fl\<rparr>) }"

definition set_cache_line_invalid_gen ::
  "'w::len wcache \<Rightarrow> nat \<Rightarrow> nat \<Rightarrow> cline \<Rightarrow> core_id \<Rightarrow> part_id \<Rightarrow> 'w wcache option" where
  "set_cache_line_invalid_gen c start_bit end_bit line core_id part_id = do {
     bug_on (core_id \<ge> OCF_CORE_MAX);
     (changed, is_valid, sm) \<leftarrow> metadata_clear_valid_sec_changed (ca_status c) line start_bit end_bit;
     let c = c\<lparr>ca_status := sm\<rparr>;
     let c = (if changed
              then c\<lparr>ca_cached := (ca_cached c)(core_id := ca_cached c core_id - 1),
                     ca_part_cached := inc2 core_id part_id (- 1) (ca_part_cached c)\<rparr>
              else c);
     are \<leftarrow> (if is_valid then Some True else ocf_cache_line_are_waiters (ca_locks c) line);
     if \<not> is_valid \<and> \<not> are then do {
       c \<leftarrow> ocf_eviction_purge_cache_line c line;
       ocf_metadata_sparse_cache_line c line }
     else Some c }"

definition set_cache_line_invalid_no_flush :: "'w::len wcache \<Rightarrow> nat \<Rightarrow> nat \<Rightarrow> cline \<Rightarrow> 'w wcache option" where
  "set_cache_line_invalid_no_flush c start_bit end_bit line = do {
     (core_id, _) \<leftarrow> ocf_metadata_get_core_info (ca_coll c) line;
     part_id \<leftarrow> ocf_metadata_get_partition_id (ca_links c) line;
     set_cache_line_invalid_gen c start_bit end_bit line core_id part_id }"

text \<open>
  The operations of a request name the line by an entry of its map. A change of the status marks the
  entry for the flush of the metadata; how depends on the container that keeps the collision segment:
  memory, a volatile cache, or an atomic device.
\<close>

definition req_entry :: "ocf_request \<Rightarrow> nat \<Rightarrow> ocf_map_info option" where
  "req_entry req i = (case rq_map req of None \<Rightarrow> None | Some m \<Rightarrow> if i < length m then Some (m ! i) else None)"

definition upd_req_entry :: "nat \<Rightarrow> (ocf_map_info \<Rightarrow> ocf_map_info) \<Rightarrow> ocf_request \<Rightarrow> ocf_request" where
  "upd_req_entry i f req = req\<lparr>rq_map := map_option (\<lambda>m. m[i := f (m ! i)]) (rq_map req)\<rparr>"

definition raw_ram_flush_mark :: "ocf_request \<Rightarrow> nat \<Rightarrow> line_state \<Rightarrow> nat \<Rightarrow> nat \<Rightarrow> ocf_request" where
  "raw_ram_flush_mark req map_idx to_state start stop =
     (if to_state = DIRTY \<or> to_state = CLEAN then
        let req = upd_req_entry map_idx (\<lambda>e. e\<lparr>mi_flush := True\<rparr>) req
        in req\<lparr>rq_info := (rq_info req)\<lparr>ri_flush_metadata := True\<rparr>\<rparr>
      else req)"

definition raw_atomic_flush_mark :: "ocf_request \<Rightarrow> nat \<Rightarrow> line_state \<Rightarrow> nat \<Rightarrow> nat \<Rightarrow> ocf_request" where
  "raw_atomic_flush_mark req map_idx to_state start stop =
     (if to_state = INVALID then
        let req = upd_req_entry map_idx (\<lambda>e. e\<lparr>mi_flush := True, mi_start_flush := start, mi_stop_flush := stop\<rparr>) req
        in req\<lparr>rq_info := (rq_info req)\<lparr>ri_flush_metadata := True\<rparr>\<rparr>
      else req)"

definition raw_volatile_flush_mark :: "ocf_request \<Rightarrow> nat \<Rightarrow> line_state \<Rightarrow> nat \<Rightarrow> nat \<Rightarrow> ocf_request" where
  "raw_volatile_flush_mark req map_idx to_state start stop = req"

definition ocf_metadata_flush_mark ::
  "'w::len wcache \<Rightarrow> ocf_request \<Rightarrow> nat \<Rightarrow> line_state \<Rightarrow> nat \<Rightarrow> nat \<Rightarrow> ocf_request" where
  "ocf_metadata_flush_mark c req map_idx to_state start stop =
     (case ca_raw c of
        metadata_raw_type_ram \<Rightarrow> raw_ram_flush_mark req map_idx to_state start stop
      | metadata_raw_type_volatile \<Rightarrow> raw_volatile_flush_mark req map_idx to_state start stop
      | metadata_raw_type_atomic \<Rightarrow> raw_atomic_flush_mark req map_idx to_state start stop)"

definition set_cache_line_invalid ::
  "'w::len wcache \<Rightarrow> nat \<Rightarrow> nat \<Rightarrow> ocf_request \<Rightarrow> nat \<Rightarrow> ('w wcache \<times> ocf_request) option" where
  "set_cache_line_invalid c start_bit end_bit req map_idx = do {
     e \<leftarrow> req_entry req map_idx;
     let line = mi_coll_idx e;
     part_id \<leftarrow> ocf_metadata_get_partition_id (ca_links c) line;
     c \<leftarrow> set_cache_line_invalid_gen c start_bit end_bit line (rq_core_id req) part_id;
     Some (c, ocf_metadata_flush_mark c req map_idx INVALID start_bit end_bit) }"

definition set_cache_line_valid ::
  "'w::len wcache \<Rightarrow> nat \<Rightarrow> nat \<Rightarrow> ocf_request \<Rightarrow> nat \<Rightarrow> 'w wcache option" where
  "set_cache_line_valid c start_bit end_bit req map_idx = do {
     e \<leftarrow> req_entry req map_idx;
     let line = mi_coll_idx e;
     let core = rq_core_id req;
     part_id \<leftarrow> ocf_metadata_get_partition_id (ca_links c) line;
     (changed, sm) \<leftarrow> metadata_set_valid_sec_changed (ca_status c) line start_bit end_bit;
     let c = c\<lparr>ca_status := sm\<rparr>;
     Some (if changed
           then c\<lparr>ca_cached := (ca_cached c)(core := ca_cached c core + 1),
                  ca_part_cached := inc2 core part_id 1 (ca_part_cached c)\<rparr>
           else c) }"

definition set_cache_line_clean ::
  "'w::len wcache \<Rightarrow> nat \<Rightarrow> nat \<Rightarrow> ocf_request \<Rightarrow> nat \<Rightarrow> ('w wcache \<times> ocf_request) option" where
  "set_cache_line_clean c start_bit end_bit req map_idx = do {
     e \<leftarrow> req_entry req map_idx;
     let line = mi_coll_idx e;
     let core = rq_core_id req;
     part_id \<leftarrow> ocf_metadata_get_partition_id (ca_links c) line;
     (changed, line_is_clean, sm) \<leftarrow> metadata_clear_dirty_sec_changed (ca_status c) line start_bit end_bit;
     let c = c\<lparr>ca_status := sm\<rparr>;
     if changed then do {
       let req = ocf_metadata_flush_mark c req map_idx CLEAN start_bit end_bit;
       if line_is_clean then do {
         let v = ca_dirty c core - 1;
         let c = c\<lparr>ca_dirty := (ca_dirty c)(core := v)\<rparr>;
         let c = (if v = 0 then c\<lparr>ca_dirty_since := (ca_dirty_since c)(core := 0)\<rparr> else c);
         let c = c\<lparr>ca_part_dirty := inc2 core part_id (- 1) (ca_part_dirty c)\<rparr>;
         ls \<leftarrow> evp_lru_clean_cline (ca_lru c) part_id line;
         Some (emit (Purge line) (c\<lparr>ca_lru := ls\<rparr>), req) }
       else Some (c, req) }
     else Some (c, req) }"

definition set_cache_line_dirty ::
  "'w::len wcache \<Rightarrow> nat \<Rightarrow> nat \<Rightarrow> ocf_request \<Rightarrow> nat \<Rightarrow> ('w wcache \<times> ocf_request) option" where
  "set_cache_line_dirty c start_bit end_bit req map_idx = do {
     e \<leftarrow> req_entry req map_idx;
     let line = mi_coll_idx e;
     let core = rq_core_id req;
     part_id \<leftarrow> ocf_metadata_get_partition_id (ca_links c) line;
     (changed, line_was_dirty, sm) \<leftarrow> metadata_set_dirty_sec_changed (ca_status c) line start_bit end_bit;
     let c = c\<lparr>ca_status := sm\<rparr>;
     (c, req) \<leftarrow> (if changed then do {
         let req = ocf_metadata_flush_mark c req map_idx DIRTY start_bit end_bit;
         if \<not> line_was_dirty then do {
           let c = (if ca_dirty_since c core = 0
                    then c\<lparr>ca_dirty_since := (ca_dirty_since c)(core := ca_tick c)\<rparr> else c);
           let c = c\<lparr>ca_dirty := (ca_dirty c)(core := ca_dirty c core + 1)\<rparr>;
           let c = c\<lparr>ca_part_dirty := inc2 core part_id 1 (ca_part_dirty c)\<rparr>;
           ls \<leftarrow> evp_lru_dirty_cline (ca_lru c) part_id line;
           Some (c\<lparr>ca_lru := ls\<rparr>, req) }
         else Some (c, req) }
       else Some (c, req));
     Some (emit (Hot line) c, req) }"

definition ocf_purge_cache_line_sec ::
  "'w::len wcache \<Rightarrow> nat \<Rightarrow> nat \<Rightarrow> ocf_request \<Rightarrow> nat \<Rightarrow> ('w wcache \<times> ocf_request) option" where
  "ocf_purge_cache_line_sec c start stop req map_idx = do {
     (c, req) \<leftarrow> set_cache_line_clean c start stop req map_idx;
     set_cache_line_invalid c start stop req map_idx }"

subsection \<open>The lines of a request\<close>

definition ocf_purge_map_info :: "'w::len wcache \<Rightarrow> ocf_request \<Rightarrow> ('w wcache \<times> ocf_request) option" where
  "ocf_purge_map_info c req = fold_opt (\<lambda>map_idx (c, req). do {
     e \<leftarrow> req_entry req map_idx;
     if mi_status e = LOOKUP_MISS then Some (c, req)
     else do {
       let start_bit = (if map_idx = 0
         then (BYTES_TO_SECTORS (rq_byte_position req) mod ocf_line_sectors (ca_line c)) mod U8_MOD else 0);
       let end_bit = (if map_idx = (rq_core_line_count req + U32_MOD - 1) mod U32_MOD
         then (BYTES_TO_SECTORS ((rq_byte_position req + rq_byte_length req + U64_MOD - 1) mod U64_MOD)
                 mod ocf_line_sectors (ca_line c)) mod U8_MOD
         else ocf_line_end_sector (ca_line c) mod U8_MOD);
       ocf_purge_cache_line_sec c start_bit end_bit req map_idx } }) [0..<rq_core_line_count req] (c, req)"

definition ocf_set_valid_map_info :: "'w::len wcache \<Rightarrow> ocf_request \<Rightarrow> 'w wcache option" where
  "ocf_set_valid_map_info c req = fold_opt (\<lambda>map_idx c. do {
     e \<leftarrow> req_entry req map_idx;
     bug_on (mi_status e = LOOKUP_MISS);
     set_cache_line_valid c (ocf_map_line_start_sector (ca_line c) req map_idx)
       (ocf_map_line_end_sector (ca_line c) req map_idx) req map_idx }) [0..<rq_core_line_count req] c"

definition ocf_set_dirty_map_info :: "'w::len wcache \<Rightarrow> ocf_request \<Rightarrow> ('w wcache \<times> ocf_request) option" where
  "ocf_set_dirty_map_info c req = fold_opt (\<lambda>map_idx (c, req).
     set_cache_line_dirty c (ocf_map_line_start_sector (ca_line c) req map_idx)
       (ocf_map_line_end_sector (ca_line c) req map_idx) req map_idx) [0..<rq_core_line_count req] (c, req)"

definition ocf_set_clean_map_info :: "'w::len wcache \<Rightarrow> ocf_request \<Rightarrow> ('w wcache \<times> ocf_request) option" where
  "ocf_set_clean_map_info c req = fold_opt (\<lambda>map_idx (c, req).
     set_cache_line_clean c (ocf_map_line_start_sector (ca_line c) req map_idx)
       (ocf_map_line_end_sector (ca_line c) req map_idx) req map_idx) [0..<rq_core_line_count req] (c, req)"

subsection \<open>The lines of a core\<close>

definition OCF_CORE_ID_INVALID :: core_id where "OCF_CORE_ID_INVALID = OCF_CORE_MAX"

definition is_cache_line_acting ::
  "'w::len wcache \<Rightarrow> cline \<Rightarrow> core_id \<Rightarrow> core_line \<Rightarrow> core_line \<Rightarrow> bool option" where
  "is_cache_line_acting c cache_line core_id start_line end_line = do {
     (tmp_core_id, core_line) \<leftarrow> ocf_metadata_get_core_info (ca_coll c) cache_line;
     Some (if core_id \<noteq> OCF_CORE_ID_INVALID
           then \<not> (core_id \<noteq> tmp_core_id) \<and> \<not> (core_line < start_line \<or> core_line > end_line)
           else \<not> tmp_core_id = OCF_CORE_ID_INVALID) }"

text \<open>The body of both loops of \<^verbatim>\<open>ocf_metadata_actor\<close>; the state is the cache and the error code.\<close>

definition actor_step ::
  "('w::len wcache \<Rightarrow> cline \<Rightarrow> 'w wcache option) \<Rightarrow> core_id \<Rightarrow> core_line \<Rightarrow> core_line \<Rightarrow> cline \<Rightarrow>
   'w wcache \<times> int \<Rightarrow> ('w wcache \<times> int) option" where
  "actor_step actor core_id start_line end_line i = (\<lambda>(c, ret). do {
     acting \<leftarrow> is_cache_line_acting c i core_id start_line end_line;
     if acting then do {
       used \<leftarrow> ocf_cache_line_is_used (ca_locks c) i;
       if used then Some (c, - OCF_ERR_AGAIN)
       else do { c \<leftarrow> actor c i; Some (c, ret) } }
     else Some (c, ret) })"

partial_function (option) actor_part_loop ::
  "('w::len wcache \<Rightarrow> cline \<Rightarrow> 'w wcache option) \<Rightarrow> core_id \<Rightarrow> core_line \<Rightarrow> core_line \<Rightarrow> cline \<Rightarrow>
   'w wcache \<times> int \<Rightarrow> ('w wcache \<times> int) option" where
  "actor_part_loop actor core_id start_line end_line i s =
     (if i = collision_table_entries (ca_coll (fst s)) then Some s
      else do {
        next_i \<leftarrow> ocf_metadata_get_partition_next (ca_links (fst s)) i;
        s \<leftarrow> actor_step actor core_id start_line end_line i s;
        actor_part_loop actor core_id start_line end_line next_i s })"

definition ocf_metadata_actor ::
  "'w::len wcache \<Rightarrow> part_id \<Rightarrow> core_id \<Rightarrow> u64 \<Rightarrow> u64 \<Rightarrow> ('w wcache \<Rightarrow> cline \<Rightarrow> 'w wcache option) \<Rightarrow>
   ('w wcache \<times> int) option" where
  "ocf_metadata_actor c part_id core_id start_byte end_byte actor = do {
     let start_line = ocf_bytes_2_lines (ca_line c) start_byte;
     let end_line = ocf_bytes_2_lines (ca_line c) end_byte;
     if part_id \<noteq> PARTITION_INVALID
     then actor_part_loop actor core_id start_line end_line (part_head (user_parts (ca_parts c) part_id)) (c, 0)
     else fold_opt (actor_step actor core_id start_line end_line) [0..<collision_table_entries (ca_coll c)] (c, 0) }"

text \<open>\<^verbatim>\<open>_ocf_metadata_sparse_cache_line\<close>, the actor that removes the lines of a core.\<close>

definition metadata_sparse_actor :: "'w::len wcache \<Rightarrow> cline \<Rightarrow> 'w wcache option" where
  "metadata_sparse_actor c cache_line = do {
     c \<leftarrow> set_cache_line_invalid_no_flush c 0 (ocf_line_end_sector (ca_line c)) cache_line;
     sm \<leftarrow> metadata_clear_dirty (ca_status c) cache_line;
     Some (c\<lparr>ca_status := sm\<rparr>) }"

definition ocf_metadata_sparse_range :: "'w::len wcache \<Rightarrow> core_id \<Rightarrow> u64 \<Rightarrow> u64 \<Rightarrow> ('w wcache \<times> int) option" where
  "ocf_metadata_sparse_range c core_id start_byte end_byte =
     ocf_metadata_actor c PARTITION_INVALID core_id start_byte end_byte metadata_sparse_actor"

subsection \<open>Choosing victims\<close>

definition OCF_TO_EVICTION_MIN :: nat where "OCF_TO_EVICTION_MIN = 128"
definition OCF_PENDING_EVICTION_LIMIT :: int where "OCF_PENDING_EVICTION_LIMIT = 512"

definition evp_lru_clean_end :: "'w::len wcache \<Rightarrow> part_id \<Rightarrow> 'w wcache option" where
  "evp_lru_clean_end c part_id = do {
     (_, rc) \<leftarrow> ocf_refcnt_dec (ca_cleaning_ref c part_id);
     Some (c\<lparr>ca_cleaning_ref := (ca_cleaning_ref c)(part_id := rc)\<rparr>) }"

text \<open>
  The cleaner asks for the lines to clean one by one; the context is the line to start from. The
  result is the line and the new context, or nothing at the end of the list.
\<close>

partial_function (option) evp_lru_clean_getter :: "'w::len wcache \<Rightarrow> cline \<Rightarrow> (cline \<times> cline) option option" where
  "evp_lru_clean_getter c curr_cline =
     (if curr_cline < collision_table_entries (ca_coll c) then do {
        (_, prev_cline) \<leftarrow> ocf_metadata_get_evicition_policy (ca_lru c) curr_cline;
        used \<leftarrow> ocf_cache_line_is_used (ca_locks c) curr_cline;
        if used then evp_lru_clean_getter c prev_cline
        else do {
          dirty \<leftarrow> metadata_test_dirty (ca_status c) curr_cline;
          bug_on (\<not> dirty);
          Some (Some (curr_cline, prev_cline)) } }
      else Some None)"

definition evp_lru_clean :: "'w::len wcache \<Rightarrow> part_id \<Rightarrow> nat \<Rightarrow> 'w wcache option" where
  "evp_lru_clean c part_id cnt_lines =
     (if ca_mngt_locked c then Some c
      else do {
        let start = dirty_tail (lru_pol (ca_lru c) part_id);
        (cnt, rc) \<leftarrow> ocf_refcnt_inc (ca_cleaning_ref c part_id);
        let c = c\<lparr>ca_cleaning_ref := (ca_cleaning_ref c)(part_id := rc)\<rparr>;
        if cnt = 0 then Some c
        else if cnt > 1 then evp_lru_clean_end c part_id
        else Some (emit (CleanerFire part_id start (if cnt_lines > 32 then 32 else cnt_lines)) c) })"

definition evp_lru_zero_line_complete :: "'w::len wcache \<Rightarrow> 'w wcache" where
  "evp_lru_zero_line_complete c = c\<lparr>ca_pending := ca_pending c - 1\<rparr>"

definition evp_lru_zero_line :: "'w::len wcache \<Rightarrow> cline \<Rightarrow> 'w wcache option" where
  "evp_lru_zero_line c line = do {
     (id, core_line) \<leftarrow> ocf_metadata_get_core_info (ca_coll c) line;
     let addr = core_line * ocf_line_size (ca_line c) mod U64_MOD;
     if \<not> ca_zero_ok c line then Some c
     else Some (emit (ZeroLine id addr) (c\<lparr>ca_pending := ca_pending c + 1\<rparr>)) }"

text \<open>The counter is an \<^verbatim>\<open>int\<close> that is compared with an \<^verbatim>\<open>unsigned long\<close>.\<close>

definition evp_lru_can_evict :: "'w::len wcache \<Rightarrow> bool" where
  "evp_lru_can_evict c = (\<not> ca_pending c mod int U64_MOD \<ge> OCF_PENDING_EVICTION_LIMIT)"

partial_function (option) req_clines_loop ::
  "nat \<Rightarrow> nat \<Rightarrow> cline \<Rightarrow> 'w::len wcache \<Rightarrow> (nat \<times> 'w wcache) option" where
  "req_clines_loop cline_no i curr_cline c =
     (if i < cline_no then do {
        bug_on (curr_cline > collision_table_entries (ca_coll c));
        if \<not> evp_lru_can_evict c then Some (i, c)
        else if curr_cline = collision_table_entries (ca_coll c) then Some (i, c)
        else do {
          (_, prev_cline) \<leftarrow> ocf_metadata_get_evicition_policy (ca_lru c) curr_cline;
          used \<leftarrow> ocf_cache_line_is_used (ca_locks c) curr_cline;
          if used then req_clines_loop cline_no i prev_cline c
          else do {
            dirty \<leftarrow> metadata_test_dirty (ca_status c) curr_cline;
            bug_on dirty;
            if ca_atomic c then do {
              c \<leftarrow> evp_lru_zero_line c curr_cline;
              req_clines_loop cline_no i prev_cline c }
            else do {
              c \<leftarrow> set_cache_line_invalid_no_flush c 0 (ocf_line_end_sector (ca_line c)) curr_cline;
              req_clines_loop cline_no (i + 1) prev_cline c } } } }
      else Some (i, c))"

definition evp_lru_req_clines :: "'w::len wcache \<Rightarrow> part_id \<Rightarrow> nat \<Rightarrow> (nat \<times> 'w wcache) option" where
  "evp_lru_req_clines c part_id cline_no =
     (if cline_no = 0 then Some (0, c)
      else do {
        (i, c) \<leftarrow> req_clines_loop cline_no 0 (clean_tail (lru_pol (ca_lru c) part_id)) c;
        c \<leftarrow> (if i < cline_no \<and> dirty_tail (lru_pol (ca_lru c) part_id) \<noteq> collision_table_entries (ca_coll c)
             then evp_lru_clean c part_id (cline_no - i) else Some c);
        Some (i, c) })"

subsection \<open>Making room\<close>

text \<open>The LRU policy registers no \<^verbatim>\<open>can_evict\<close> operation, so the hook answers yes.\<close>

definition ocf_eviction_can_evict :: "'w::len wcache \<Rightarrow> bool" where
  "ocf_eviction_can_evict c = True"

definition ocf_eviction_need_space :: "'w::len wcache \<Rightarrow> part_id \<Rightarrow> nat \<Rightarrow> (nat \<times> 'w wcache) option" where
  "ocf_eviction_need_space c part_id clines = evp_lru_req_clines c part_id clines"

definition ocf_evict_calculate :: "user_part \<Rightarrow> nat \<Rightarrow> nat" where
  "ocf_evict_calculate part to_evict =
     (if curr_size part \<le> min_size part then 0
      else let to_evict = (if to_evict < OCF_TO_EVICTION_MIN then OCF_TO_EVICTION_MIN else to_evict)
           in if to_evict > curr_size part - min_size part then curr_size part - min_size part else to_evict)"

text \<open>
  The loop over the partitions from the lowest priority to the highest. The next partition is read
  from the list after the body, which may have sorted the list. The first component of the result
  tells whether the loop was left by \<^verbatim>\<open>goto out\<close>.
\<close>

partial_function (option) evict_do_loop ::
  "nat \<Rightarrow> part_id \<Rightarrow> part_id \<Rightarrow> nat \<Rightarrow> 'w::len wcache \<Rightarrow> (bool \<times> nat \<times> 'w wcache) option" where
  "evict_do_loop evict_cline_no target_part_id part_id evicted c = do {
     lst_getter (lst_part (ca_parts c)) part_id;
     let part = user_parts (ca_parts c) part_id;
     let target_part = user_parts (ca_parts c) target_part_id;
     if part_id = lst_invalid (lst_part (ca_parts c)) then Some (False, evicted, c)
     else if \<not> ocf_eviction_can_evict c then Some (True, evicted, c)
     else if priority target_part > priority part then Some (False, evicted, c)
     else if \<not> flag_eviction part then Some (False, evicted, c)
     else if part_id = target_part_id then
       evict_do_loop evict_cline_no target_part_id (lst_next (lst_part (ca_parts c)) part_id) evicted c
     else if evicted \<ge> evict_cline_no then Some (True, evicted, c)
     else do {
       let to_evict = ocf_evict_calculate part evict_cline_no;
       if to_evict = 0 then
         evict_do_loop evict_cline_no target_part_id (lst_next (lst_part (ca_parts c)) part_id) evicted c
       else do {
         (k, c) \<leftarrow> ocf_eviction_need_space c part_id to_evict;
         evict_do_loop evict_cline_no target_part_id (lst_next (lst_part (ca_parts c)) part_id)
           ((evicted + k) mod U32_MOD) c } } }"

definition ocf_evict_do :: "'w::len wcache \<Rightarrow> nat \<Rightarrow> part_id \<Rightarrow> (nat \<times> 'w wcache) option" where
  "ocf_evict_do c evict_cline_no target_part_id = do {
     let lst = lst_part (ca_parts c);
     (out, evicted, c) \<leftarrow> evict_do_loop evict_cline_no target_part_id (lst_next lst (lst_invalid lst)) 0 c;
     if out then Some (evicted, c)
     else if \<not> ocf_eviction_can_evict c then Some (evicted, c)
     else if evicted < evict_cline_no then do {
       let to_evict = ocf_evict_calculate (user_parts (ca_parts c) target_part_id) evict_cline_no;
       if to_evict \<noteq> 0 then do {
         (k, c) \<leftarrow> ocf_eviction_need_space c target_part_id to_evict;
         Some ((evicted + k) mod U32_MOD, c) }
       else Some (evicted, c) }
     else Some (evicted, c) }"

text \<open>The result is the status and whether the request is marked with a mapping error.\<close>

definition space_managment_evict_do ::
  "'w::len wcache \<Rightarrow> part_id \<Rightarrow> nat \<Rightarrow> (lookup_status \<times> bool \<times> 'w wcache) option" where
  "space_managment_evict_do c part_id evict_cline_no = do {
     let free = ocf_freelist_num_free (ca_free c);
     if evict_cline_no \<le> free then Some (LOOKUP_MAPPED, False, c)
     else do {
       let evict_cline_no = evict_cline_no - free;
       (evicted, c) \<leftarrow> ocf_evict_do c evict_cline_no part_id;
       if evict_cline_no \<le> evicted then Some (LOOKUP_MAPPED, False, c)
       else Some (LOOKUP_MISS, True, c) } }"

subsection \<open>Mapping a core line\<close>

text \<open>\<^const>\<open>None\<close> in the result is the mapping error: no line is free.\<close>

definition ocf_engine_map_cache_line ::
  "'w::len wcache \<Rightarrow> core_id \<Rightarrow> part_id \<Rightarrow> core_line \<Rightarrow> nat \<Rightarrow> (cline option \<times> 'w wcache) option" where
  "ocf_engine_map_cache_line c core_id part_id core_line hash_index = do {
     (r, fl, pl) \<leftarrow> ocf_freelist_get_cache_line (ca_busy c (ca_gets c)) (ca_ctx c) (ca_free c, ca_links c);
     let c = c\<lparr>ca_free := fl, ca_parts := (ca_parts c)\<lparr>ps_links := pl\<rparr>, ca_gets := ca_gets c + 1\<rparr>;
     case r of
       None \<Rightarrow> Some (None, c)
     | Some cache_line \<Rightarrow> do {
         ps \<leftarrow> ocf_metadata_add_to_partition (ca_parts c) part_id cache_line;
         let c = c\<lparr>ca_parts := ps\<rparr>;
         coll \<leftarrow> ocf_metadata_add_to_collision (ca_coll c) core_id core_line hash_index cache_line;
         let c = c\<lparr>ca_coll := coll\<rparr>;
         c \<leftarrow> ocf_eviction_init_cache_line c cache_line;
         c \<leftarrow> ocf_eviction_set_hot_cache_line c cache_line;
         Some (Some cache_line, emit (InitBlock cache_line) c) } }"

definition part_move_entry :: "ocf_request \<Rightarrow> nat \<Rightarrow> 'w::len wcache \<Rightarrow> 'w wcache option" where
  "part_move_entry req i c = do {
     entry \<leftarrow> req_entry req i;
     let core = rq_core_id req;
     if \<not> mi_re_part entry then Some c
     else if mi_status entry \<noteq> LOOKUP_HIT then Some c
     else do {
       let line = mi_coll_idx entry;
       id_old \<leftarrow> ocf_metadata_get_partition_id (ca_links c) line;
       let id_new = rq_part_id req;
       bug_on (id_old \<ge> OCF_IO_CLASS_MAX \<or> id_new \<ge> OCF_IO_CLASS_MAX);
       if id_old = id_new then Some c
       else do {
         c \<leftarrow> ocf_eviction_purge_cache_line c line;
         dirty \<leftarrow> metadata_test_dirty (ca_status c) line;
         let c = (if dirty then emit (Purge line) c else c);
         ps \<leftarrow> ocf_metadata_remove_from_partition (ca_parts c) id_old line;
         ps \<leftarrow> ocf_metadata_add_to_partition ps id_new line;
         let c = c\<lparr>ca_parts := ps\<rparr>;
         c \<leftarrow> ocf_eviction_init_cache_line c line;
         c \<leftarrow> ocf_eviction_set_hot_cache_line c line;
         dirty \<leftarrow> metadata_test_dirty (ca_status c) line;
         let c = (if dirty
                  then emit (Hot line)
                    (c\<lparr>ca_part_dirty := inc2 core id_old (- 1) (inc2 core id_new 1 (ca_part_dirty c))\<rparr>)
                  else c);
         Some (c\<lparr>ca_part_cached := inc2 core id_old (- 1) (inc2 core id_new 1 (ca_part_cached c))\<rparr>) } } }"

definition ocf_part_move :: "'w::len wcache \<Rightarrow> ocf_request \<Rightarrow> 'w wcache option" where
  "ocf_part_move c req = fold_opt (part_move_entry req) [0..<rq_core_line_count req] c"

subsection \<open>The invariant of the lines\<close>

definition part_lines :: "(part_id \<Rightarrow> cline list) \<Rightarrow> cline set" where
  "part_lines P = (\<Union>p \<in> {..<OCF_IO_CLASS_MAX}. set (P p))"

definition free_lines :: "nat \<Rightarrow> (nat \<Rightarrow> cline list) \<Rightarrow> cline set" where
  "free_lines n F = (\<Union>k \<in> {..<n}. set (F k))"

abbreviation ca_entries :: "'s cache \<Rightarrow> nat" where
  "ca_entries c \<equiv> collision_table_entries (ca_coll c)"

abbreviation sec_valid :: "'w::len wcache \<Rightarrow> cline \<Rightarrow> nat set" where
  "sec_valid c x \<equiv> sec_set Valid (ca_status c) x"

abbreviation sec_dirty :: "'w::len wcache \<Rightarrow> cline \<Rightarrow> nat set" where
  "sec_dirty c x \<equiv> sec_set Dirty (ca_status c) x"

text \<open>
  All components have the same number of lines. Every line is in exactly one partition list or free
  list. The mapped lines are those of the partitions. The clean list and the dirty list of a partition
  together hold its lines, split by their dirty bits. A line that is not mapped has the core id that
  no core has.
\<close>

definition cache_sizes :: "'w::len wcache \<Rightarrow> bool" where
  "cache_sizes c \<longleftrightarrow>
     sm_entries (ca_status c) = ca_entries c \<and> lru_entries (ca_lru c) = ca_entries c \<and>
     pl_entries (ca_links c) = ca_entries c \<and> cl_entries (ca_locks c) = ca_entries c \<and>
     ocf_line_end_sector (ca_line c) = LENGTH('w) - 1 \<and> ca_ctx c < fl_count (ca_free c)"

definition cache_core ::
  "'w::len wcache \<Rightarrow> (part_id \<Rightarrow> cline list) \<Rightarrow> (part_id \<Rightarrow> bool \<Rightarrow> cline list) \<Rightarrow> (nat \<Rightarrow> cline list) \<Rightarrow> bool" where
  "cache_core c P L F \<longleftrightarrow> cache_sizes c \<and>
     status_wf (ca_status c) \<and> coll_inv (ca_coll c) \<and> (\<exists>Q. part_rep (ca_parts c) P Q) \<and>
     fl_rep (ca_free c, ca_links c) F \<and> lru_rep (ca_lru c) L \<and>
     mapped_lines (ca_coll c) = part_lines P \<and>
     part_lines P \<inter> free_lines (fl_count (ca_free c)) F = {} \<and>
     part_lines P \<union> free_lines (fl_count (ca_free c)) F = {..<ca_entries c} \<and>
     (\<forall>p < OCF_IO_CLASS_MAX. \<forall>d. set (L p d) = {x \<in> set (P p). (sec_dirty c x \<noteq> {}) = d}) \<and>
     (\<forall>x < ca_entries c. coll_core_id (ca_coll c) x < OCF_CORE_MAX \<longleftrightarrow> x \<in> mapped_lines (ca_coll c))"

text \<open>Moreover a free line has neither valid nor dirty sectors.\<close>

definition cache_rep ::
  "'w::len wcache \<Rightarrow> (part_id \<Rightarrow> cline list) \<Rightarrow> (part_id \<Rightarrow> bool \<Rightarrow> cline list) \<Rightarrow> (nat \<Rightarrow> cline list) \<Rightarrow> bool" where
  "cache_rep c P L F \<longleftrightarrow> cache_core c P L F \<and>
     (\<forall>x \<in> free_lines (fl_count (ca_free c)) F. sec_valid c x = {} \<and> sec_dirty c x = {})"

lemma cache_coreD:
  assumes "cache_core c P L F"
  shows "cache_sizes c" and "status_wf (ca_status c)" and "coll_inv (ca_coll c)" and "\<exists>Q. part_rep (ca_parts c) P Q"
    and "fl_rep (ca_free c, ca_links c) F" and "lru_rep (ca_lru c) L"
    and "mapped_lines (ca_coll c) = part_lines P"
    and "part_lines P \<inter> free_lines (fl_count (ca_free c)) F = {}"
    and "part_lines P \<union> free_lines (fl_count (ca_free c)) F = {..<ca_entries c}"
    and "p < OCF_IO_CLASS_MAX \<Longrightarrow> set (L p d) = {x \<in> set (P p). (sec_dirty c x \<noteq> {}) = d}"
    and "x < ca_entries c \<Longrightarrow> coll_core_id (ca_coll c) x < OCF_CORE_MAX \<longleftrightarrow> x \<in> mapped_lines (ca_coll c)"
  using assms by (auto simp: cache_core_def)

lemma part_lines_upd:
  assumes "p < OCF_IO_CLASS_MAX"
  shows "part_lines (P(p := xs)) = set xs \<union> (\<Union>q \<in> {..<OCF_IO_CLASS_MAX} - {p}. set (P q))"
  using assms by (auto simp: part_lines_def split: if_splits)

lemma free_lines_upd:
  assumes "k < n"
  shows "free_lines n (F(k := xs)) = set xs \<union> (\<Union>q \<in> {..<n} - {k}. set (F q))"
  using assms by (auto simp: free_lines_def split: if_splits)

lemma part_rep_links:
  assumes "part_rep ps P Q" and "pl_entries pl = pl_entries (ps_links ps)"
    and "\<And>p. p < OCF_IO_CLASS_MAX \<Longrightarrow> pl_list pl (P p)"
    and "\<And>p x. p < OCF_IO_CLASS_MAX \<Longrightarrow> x \<in> set (P p) \<Longrightarrow> part_pid pl x = part_pid (ps_links ps) x"
  shows "part_rep (ps\<lparr>ps_links := pl\<rparr>) P Q"
  using assms unfolding part_rep_def by simp

lemma fl_rep_links:
  assumes "fl_rep (fl, pl) F" and "pl_entries pl' = pl_entries pl"
    and "\<And>k. k < fl_count fl \<Longrightarrow> pl_list pl' (F k)"
  shows "fl_rep (fl, pl') F"
  using assms unfolding fl_rep_def by simp

lemma hot_new_rep:
  assumes rep: "lru_rep ls L" and p: "p < OCF_IO_CLASS_MAX" and x: "x < lru_entries ls"
    "\<And>q d. q < OCF_IO_CLASS_MAX \<Longrightarrow> x \<notin> set (L q d)"
  shows "\<exists>ls'. evp_lru_init_cline ls x = Some ls' \<and> lru_rep ls' L \<and> lru_entries ls' = lru_entries ls \<and>
    lru_next ls' x = lru_entries ls \<and> lru_prev ls' x = lru_entries ls"
  using assms unfolding lru_rep_def
  by (simp add: evp_lru_init_cline_def lru_access_defs dlist_def)

end
