(* ===== verification/CacheInv.thy ===== *)
theory CacheInv
  imports CacheLine
begin

section \<open>Mapping and evicting keep the lines consistent\<close>

text \<open>
  The operations of theory \<open>CacheLine\<close> keep its invariant: taking a free line, putting it in a
  partition, in the collision table and in a list of the eviction policy, and the way back.
\<close>

lemma fl_free_lines_less:
  assumes "fl_rep (fl, pl) F" and "y \<in> free_lines (fl_count fl) F"
  shows "y < pl_entries pl"
  using assms fl_repD(1) [OF assms(1)] dlistD(2) by (fastforce simp: free_lines_def)

lemma core_free_disjoint:
  assumes "cache_core c P L F" and "p < OCF_IO_CLASS_MAX" and "k < fl_count (ca_free c)"
  shows "set (P p) \<inter> set (F k) = {}"
  using cache_coreD(8) [OF assms(1)] assms(2,3) by (auto simp: part_lines_def free_lines_def)

text \<open>Taking a line out of the free lists leaves the partition lists alone.\<close>

lemma take_free:
  assumes core: "cache_core c P L F" and free: "0 < total_free (ca_free c)"
  obtains x fl pl k Q where
    "ocf_freelist_get_cache_line busy (ca_ctx c) (ca_free c, ca_links c) = Some (Some x, fl, pl)"
    and "k < fl_count (ca_free c)" and "F k \<noteq> []" and "x = hd (F k)"
    and "fl_rep (fl, pl) (F(k := tl (F k)))" and "fl_count fl = fl_count (ca_free c)"
    and "total_free fl + 1 = total_free (ca_free c)"
    and "part_rep ((ca_parts c)\<lparr>ps_links := pl\<rparr>) P Q" and "pl_entries pl = ca_entries c"
proof -
  have sz: "ca_ctx c < fl_count (ca_free c)" "pl_entries (ca_links c) = ca_entries c"
    using cache_coreD(1) [OF core] by (auto simp: cache_sizes_def)
  note fl = cache_coreD(5) [OF core]
  obtain Q where Q: "part_rep (ca_parts c) P Q" using cache_coreD(4) [OF core] by blast
  obtain x s' where g: "ocf_freelist_get_cache_line busy (ca_ctx c) (ca_free c, ca_links c) = Some (Some x, s')"
    and t: "fl_taken (ca_free c, ca_links c) F x s'"
    using get_cache_line [OF fl, of "ca_ctx c" busy] free sz(1) by auto
  obtain fl' pl' where s': "s' = (fl', pl')" by (cases s')
  from t obtain k where k: "k < fl_count (ca_free c)" "F k \<noteq> []" "x = hd (F k)" "fl_rep (fl', pl') (F(k := tl (F k)))"
    "fl_count fl' = fl_count (ca_free c)" "total_free fl' + 1 = total_free (ca_free c)"
    "pl_unlinked (ca_links c) x pl'" by (auto simp: fl_taken_def s')
  note un = pl_unlinked_lists [OF k(7), of "F k"]
  have xk: "x \<in> set (F k)" using k(2,3) by simp
  have Fk: "pl_list (ca_links c) (F k)" using fl_repD(1) [OF fl] k(1) by simp
  have "part_rep ((ca_parts c)\<lparr>ps_links := pl'\<rparr>) P Q"
  proof (rule part_rep_links [OF Q])
    show "pl_entries pl' = pl_entries (ca_links c)" using k(7) by (simp add: pl_unlinked_def)
    fix p assume p: "p < OCF_IO_CLASS_MAX"
    show "pl_list pl' (P p)"
      using un(2) [OF Fk xk] core_free_disjoint [OF core p k(1)] part_repD(1) [OF Q p] by simp
    show "part_pid pl' y = part_pid (ca_links c) y" if "y \<in> set (P p)" for y
      using k(7) that core_free_disjoint [OF core p k(1)] xk by (auto simp: pl_unlinked_def)
  qed
  with g s' k sz(2) show thesis by (intro that [of x fl' pl' k Q]) (auto simp: pl_unlinked_def)
qed

lemma add_to_collision_full:
  assumes inv: "coll_inv c" and x: "x < collision_table_entries c" "x \<notin> mapped_lines c"
    and k: "coll_map c (cid, cl) = None"
  obtains c' where "ocf_metadata_add_to_collision c cid cl (key_hash c (cid, cl)) x = Some c'"
    and "coll_inv c'" and "coll_map c' = (coll_map c)((cid, cl) \<mapsto> x)"
    and "collision_table_entries c' = collision_table_entries c" and "hash_table_entries c' = hash_table_entries c"
    and "mapped_lines c' = insert x (mapped_lines c)" and "line_key c' = (line_key c)(x := (cid, cl))"
proof -
  have rep: "coll_rep c (bucket c)" using inv by (simp add: coll_inv_def)
  have new: "x \<notin> bucket_lines c (bucket c)" "(cid, cl) \<notin> line_key c ` bucket_lines c (bucket c)"
    using x(2) k coll_map_None [OF inv] by (auto simp: mapped_lines_def)
  obtain c1 where c1: "ocf_metadata_add_to_collision c cid cl (key_hash c (cid, cl)) x = Some c1"
    "line_key c1 = (line_key c)(x := (cid, cl))"
    by (rule add_to_collision_rep [OF rep refl x(1) new])
  obtain c2 where c2: "ocf_metadata_add_to_collision c cid cl (key_hash c (cid, cl)) x = Some c2" "coll_inv c2"
    "coll_map c2 = (coll_map c)((cid, cl) \<mapsto> x)"
    "collision_table_entries c2 = collision_table_entries c" "hash_table_entries c2 = hash_table_entries c"
    using add_to_collision_map [OF inv x k] by blast
  have "mapped_lines c2 = insert x (mapped_lines c)"
    using ran_coll_map [OF c2(2)] ran_coll_map [OF inv] c2(3) k by auto
  with c1 c2 show thesis by (intro that [of c2]) auto
qed

lemma remove_from_collision_full:
  assumes inv: "coll_inv c" and x: "x \<in> mapped_lines c"
  obtains c' where "ocf_metadata_remove_from_collision c x p = Some c'"
    and "coll_inv c'" and "coll_map c' = (coll_map c)(line_key c x := None)"
    and "collision_table_entries c' = collision_table_entries c" and "hash_table_entries c' = hash_table_entries c"
    and "mapped_lines c' = mapped_lines c - {x}" and "line_key c' = (line_key c)(x := (OCF_CORE_MAX, ULLONG_MAX))"
proof -
  have k: "coll_map c (line_key c x) = Some x" using coll_map_iff [OF inv] x by simp
  have rep: "coll_rep c (bucket c)" using inv by (simp add: coll_inv_def)
  have xb: "x \<in> set (bucket c (key_hash c (line_key c x)))" using mapped_bucket [OF inv] x by simp
  have h: "key_hash c (line_key c x) < hash_table_entries c" using rep by (simp add: coll_rep_def hash_func_bound)
  obtain c1 where c1: "ocf_metadata_remove_from_collision c x p = Some c1"
    "line_key c1 = (line_key c)(x := (OCF_CORE_MAX, ULLONG_MAX))"
    by (rule remove_from_collision_rep [OF rep h xb])
  obtain c2 where c2: "ocf_metadata_remove_from_collision c x p = Some c2" "coll_inv c2"
    "coll_map c2 = (coll_map c)(line_key c x := None)"
    "collision_table_entries c2 = collision_table_entries c" "hash_table_entries c2 = hash_table_entries c"
    using remove_from_collision_map [OF inv k] by blast
  have "mapped_lines c2 = mapped_lines c - {x}"
  proof -
    have only: "line_key c y = line_key c x \<longleftrightarrow> y = x" if "y \<in> mapped_lines c" for y
      using coll_map_iff [OF inv, of "line_key c x" y] that k by auto
    have "ran ((coll_map c)(line_key c x := None)) = {y. \<exists>j. j \<noteq> line_key c x \<and> coll_map c j = Some y}"
      by (auto simp: ran_def split: if_splits)
    also have "\<dots> = mapped_lines c - {x}" unfolding coll_map_iff [OF inv] using only by blast
    finally have "ran ((coll_map c)(line_key c x := None)) = mapped_lines c - {x}" .
    then show ?thesis using ran_coll_map [OF c2(2)] c2(3) by simp
  qed
  with c1 c2 show thesis by (intro that [of c2]) auto
qed

subsection \<open>Frames\<close>

text \<open>The configuration of the partitions, and the set of partitions in the priority list, stay.\<close>

definition parts_kept :: "part_state \<Rightarrow> part_state \<Rightarrow> bool" where
  "parts_kept ps ps' \<longleftrightarrow>
     (\<forall>q. min_size (user_parts ps' q) = min_size (user_parts ps q) \<and> max_size (user_parts ps' q) = max_size (user_parts ps q) \<and>
        priority (user_parts ps' q) = priority (user_parts ps q) \<and> flag_valid (user_parts ps' q) = flag_valid (user_parts ps q) \<and>
        part_cache_mode (user_parts ps' q) = part_cache_mode (user_parts ps q)) \<and>
     (\<forall>Q. clist (lst_part ps) Q \<longrightarrow> (\<exists>Q'. clist (lst_part ps') Q' \<and> set Q' = set Q))"

lemma parts_kept_refl [simp]: "parts_kept ps ps"
  by (auto simp: parts_kept_def)

lemma parts_kept_links [simp]:
  "parts_kept (ps\<lparr>ps_links := pl\<rparr>) ps' = parts_kept ps ps'" "parts_kept ps (ps'\<lparr>ps_links := pl\<rparr>) = parts_kept ps ps'"
  by (simp_all add: parts_kept_def)

lemma parts_kept_trans:
  assumes "parts_kept a b" and "parts_kept b c"
  shows "parts_kept a c"
proof -
  have "\<exists>Q'. clist (lst_part c) Q' \<and> set Q' = set Q" if "clist (lst_part a) Q" for Q
    using assms that unfolding parts_kept_def by metis
  then show ?thesis using assms unfolding parts_kept_def by simp
qed

lemma part_upd_kept:
  assumes "part_upd ps p pl h n ps'" and "\<And>Q. clist (lst_part ps) Q \<Longrightarrow> \<exists>Q'. clist (lst_part ps') Q' \<and> set Q' = set Q"
  shows "parts_kept ps ps'"
proof -
  have "same_parts ((user_parts ps)(p := (user_parts ps p)\<lparr>part_head := h, curr_size := n\<rparr>)) (user_parts ps')"
    using assms(1) by (simp add: part_upd_def)
  from same_partsD [OF this] show ?thesis using assms(2) unfolding parts_kept_def by auto
qed

lemma part_rep_other_list: "part_rep ps P Q \<Longrightarrow> clist (lst_part ps) Q' \<Longrightarrow> part_rep ps P Q'"
  by (simp add: part_rep_def)

lemma remove_from_partition_kept:
  assumes rep: "part_rep ps P Q" and p: "p < OCF_IO_CLASS_MAX" and x: "x \<in> set (P p)"
    and run: "ocf_metadata_remove_from_partition ps p x = Some ps'"
  shows "parts_kept ps ps'"
proof -
  obtain ps1 Q' where u: "ocf_metadata_remove_from_partition ps p x = Some ps1"
    "part_upd ps p (ps_links ps1) (hd_or (pl_entries (ps_links ps)) (remove1 x (P p))) (length (remove1 x (P p))) ps1"
    by (rule remove_from_partition_rep [OF rep p x])
  have "\<exists>Q'. clist (lst_part ps') Q' \<and> set Q' = set R" if "clist (lst_part ps) R" for R
    by (rule remove_from_partition_rep [OF part_rep_other_list [OF rep that] p x]) (use run in \<open>auto simp: part_rep_def\<close>)
  then show ?thesis using part_upd_kept u run by auto
qed

lemma add_to_partition_kept:
  assumes rep: "part_rep ps P Q" and p: "p < OCF_IO_CLASS_MAX"
    and x: "x < pl_entries (ps_links ps)" "\<And>q. q < OCF_IO_CLASS_MAX \<Longrightarrow> x \<notin> set (P q)"
    and run: "ocf_metadata_add_to_partition ps p x = Some ps'"
  shows "parts_kept ps ps'"
proof -
  obtain ps1 pl where u: "ocf_metadata_add_to_partition ps p x = Some ps1" "part_upd ps p pl x (Suc (length (P p))) ps1"
    by (rule add_to_partition_rep [OF rep p x])
  have "\<exists>Q'. clist (lst_part ps') Q' \<and> set Q' = set R" if "clist (lst_part ps) R" for R
    by (rule add_to_partition_rep [OF part_rep_other_list [OF rep that] p x]) (use run in \<open>auto simp: part_rep_def\<close>)
  then show ?thesis using part_upd_kept u run by auto
qed

text \<open>What the operations on lines leave alone.\<close>

definition same_env :: "'w::len wcache \<Rightarrow> 'w wcache \<Rightarrow> bool" where
  "same_env c c' \<longleftrightarrow> ca_locks c' = ca_locks c \<and> ca_line c' = ca_line c \<and> ca_ctx c' = ca_ctx c \<and>
     ca_atomic c' = ca_atomic c \<and> ca_raw c' = ca_raw c \<and> ca_zero_ok c' = ca_zero_ok c \<and>
     ca_mngt_locked c' = ca_mngt_locked c \<and> ca_busy c' = ca_busy c \<and> ca_tick c' = ca_tick c \<and>
     fl_count (ca_free c') = fl_count (ca_free c) \<and> ca_entries c' = ca_entries c \<and>
     hash_table_entries (ca_coll c') = hash_table_entries (ca_coll c) \<and> parts_kept (ca_parts c) (ca_parts c')"

lemma same_env_refl [simp]: "same_env c c"
  by (simp add: same_env_def)

lemma same_env_trans: "same_env a b \<Longrightarrow> same_env b c \<Longrightarrow> same_env a c"
  using parts_kept_trans [of "ca_parts a" "ca_parts b" "ca_parts c"] by (simp add: same_env_def)

lemma line_core_id: "coll_core_id c y = fst (line_key c y)"
  by (simp add: line_key_def)

subsection \<open>Mapping\<close>

lemma lru_not_in:
  assumes "cache_core c P L F" and "x \<notin> part_lines P" and "q < OCF_IO_CLASS_MAX"
  shows "x \<notin> set (L q d)"
  using cache_coreD(10) [OF assms(1,3)] assms(2,3) by (auto simp: part_lines_def)

lemma hot_fresh:
  assumes "lru_rep ls L" and "p < OCF_IO_CLASS_MAX" and "x < lru_entries ls"
    and "\<And>q d. q < OCF_IO_CLASS_MAX \<Longrightarrow> x \<notin> set (L q d)"
  shows "clean_head (lru_pol ls p) \<noteq> x" and "dirty_head (lru_pol ls p) \<noteq> x"
proof -
  note pol = lru_repD(1) [OF assms(1,2)]
  show "clean_head (lru_pol ls p) \<noteq> x" "dirty_head (lru_pol ls p) \<noteq> x"
    using pol assms(3) assms(4) [OF assms(2)] hd_or_cases [of "lru_entries ls" "L p False"]
      hd_or_cases [of "lru_entries ls" "L p True"]
    unfolding pol_ok_def by (metis less_irrefl)+
qed

text \<open>A line that is in no list is linked in front of the list its dirty bits ask for.\<close>

lemma init_hot_rep:
  assumes rep: "lru_rep (ca_lru c) L" and p: "p < OCF_IO_CLASS_MAX"
    and x: "x < lru_entries (ca_lru c)" "\<And>q d. q < OCF_IO_CLASS_MAX \<Longrightarrow> x \<notin> set (L q d)"
    and id: "ocf_metadata_get_partition_id (ca_links c) x = Some p"
    and st: "status_wf (ca_status c)" "x < sm_entries (ca_status c)"
  defines "d \<equiv> sec_dirty c x \<noteq> {}"
  shows "\<exists>ls. (ocf_eviction_init_cache_line c x \<bind> (\<lambda>c. ocf_eviction_set_hot_cache_line c x)) =
      Some (c\<lparr>ca_lru := ls\<rparr>) \<and> lru_rep ls (lru_upd L p d (x # L p d)) \<and> lru_entries ls = lru_entries (ca_lru c)"
proof -
  obtain l1 where l1: "evp_lru_init_cline (ca_lru c) x = Some l1" "lru_rep l1 L" "lru_entries l1 = lru_entries (ca_lru c)"
    "lru_next l1 x = lru_entries (ca_lru c)" "lru_prev l1 x = lru_entries (ca_lru c)"
    using hot_new_rep [OF rep p x] by blast
  have x1: "x < lru_entries l1" using x(1) l1(3) by simp
  obtain l2 where l2: "add_lru_head l1 p x d = Some l2" "lru_rep l2 (lru_upd L p d (x # L p d))"
    "lru_entries l2 = lru_entries l1"
    by (rule add_lru_head_rep [OF l1(2) p x1]) (use x(2) in auto)
  note fresh = hot_fresh [OF l1(2) p x1 x(2)]
  have dirty: "metadata_test_dirty (ca_status c) x = Some d"
    using metadata_test_any_sem(1) [OF st] by (simp add: d_def)
  have "evp_lru_hot_cline (c\<lparr>ca_lru := l1\<rparr>) x = Some (c\<lparr>ca_lru := l2\<rparr>)"
    using id dirty fresh l1(3,4,5) l2(1) x1
    by (simp add: evp_lru_hot_cline_def ocf_metadata_get_evicition_policy_def)
  with l1 l2 show ?thesis
    by (intro exI [of _ l2]) (simp add: ocf_eviction_init_cache_line_def ocf_eviction_set_hot_cache_line_def)
qed

lemma free_lines_split: "k < n \<Longrightarrow> free_lines n F = set (F k) \<union> (\<Union>q \<in> {..<n} - {k}. set (F q))"
  by (auto simp: free_lines_def)

lemma part_lines_split:
  "p < OCF_IO_CLASS_MAX \<Longrightarrow> part_lines P = set (P p) \<union> (\<Union>q \<in> {..<OCF_IO_CLASS_MAX} - {p}. set (P q))"
  by (auto simp: part_lines_def)

lemma lines_sub:
  "p < OCF_IO_CLASS_MAX \<Longrightarrow> set (P p) \<subseteq> part_lines P"
  "k < n \<Longrightarrow> set (F k) \<subseteq> free_lines n F"
  by (auto simp: part_lines_def free_lines_def)

lemma tl_free:
  assumes fl: "fl_rep (fl, pl) F" and k: "k < fl_count fl" and ne: "F k \<noteq> []"
  shows "hd (F k) \<notin> free_lines (fl_count fl) (F(k := tl (F k)))"
    and "free_lines (fl_count fl) F = insert (hd (F k)) (free_lines (fl_count fl) (F(k := tl (F k))))"
proof -
  obtain x xs where F: "F k = x # xs" using ne by (cases "F k") auto
  have "distinct (F k)" using fl_repD(1) [OF fl] k dlistD(1) by fastforce
  then have "x \<notin> set xs" using F by simp
  moreover have "x \<notin> set (F j)" if "j < fl_count fl" "j \<noteq> k" for j
    using fl_repD(3) [OF fl, of k j] k that F by auto
  ultimately show "hd (F k) \<notin> free_lines (fl_count fl) (F(k := tl (F k)))"
    using F by (auto simp: free_lines_upd [OF k])
  show "free_lines (fl_count fl) F = insert (hd (F k)) (free_lines (fl_count fl) (F(k := tl (F k))))"
    unfolding free_lines_upd [OF k] free_lines_split [OF k, of F] using F by simp
qed

lemma part_lines_front:
  assumes "p < OCF_IO_CLASS_MAX"
  shows "part_lines (P(p := x # P p)) = insert x (part_lines P)"
  unfolding part_lines_upd [OF assms] part_lines_split [OF assms, of P] by simp

definition counters :: "'w::len wcache \<Rightarrow> (core_id \<Rightarrow> int) \<times> (core_id \<Rightarrow> int) \<times> (core_id \<Rightarrow> part_id \<Rightarrow> int) \<times> (core_id \<Rightarrow> part_id \<Rightarrow> int)" where
  "counters c = (ca_cached c, ca_dirty c, ca_part_cached c, ca_part_dirty c)"

lemma map_cache_line_rep:
  assumes rep: "cache_rep c P L F" and free: "0 < total_free (ca_free c)" and p: "p < OCF_IO_CLASS_MAX"
    and cid: "cid < OCF_CORE_MAX" and unmapped: "coll_map (ca_coll c) (cid, cl) = None"
  obtains x c' k where
    "ocf_engine_map_cache_line c cid p cl (key_hash (ca_coll c) (cid, cl)) = Some (Some x, c')"
    and "k < fl_count (ca_free c)" and "F k \<noteq> []" and "x = hd (F k)"
    and "cache_rep c' (P(p := x # P p)) (lru_upd L p False (x # L p False)) (F(k := tl (F k)))"
    and "coll_map (ca_coll c') = (coll_map (ca_coll c))((cid, cl) \<mapsto> x)"
    and "ca_status c' = ca_status c" and "total_free (ca_free c') + 1 = total_free (ca_free c)"
    and "same_env c c'" and "counters c' = counters c"
proof -
  have core: "cache_core c P L F" using rep by (simp add: cache_rep_def)
  note D = cache_coreD [OF core]
  have sz: "sm_entries (ca_status c) = ca_entries c" "lru_entries (ca_lru c) = ca_entries c"
    "cl_entries (ca_locks c) = ca_entries c" "ocf_line_end_sector (ca_line c) = LENGTH('a) - 1"
    "ca_ctx c < fl_count (ca_free c)" using D(1) by (auto simp: cache_sizes_def)
  obtain x fl pl k Q where t:
    "ocf_freelist_get_cache_line (ca_busy c (ca_gets c)) (ca_ctx c) (ca_free c, ca_links c) = Some (Some x, fl, pl)"
    "k < fl_count (ca_free c)" "F k \<noteq> []" "x = hd (F k)" "fl_rep (fl, pl) (F(k := tl (F k)))"
    "fl_count fl = fl_count (ca_free c)" "total_free fl + 1 = total_free (ca_free c)"
    "part_rep ((ca_parts c)\<lparr>ps_links := pl\<rparr>) P Q" "pl_entries pl = ca_entries c"
    by (rule take_free [OF core free])
  let ?F = "F(k := tl (F k))" and ?n = "fl_count (ca_free c)"
  have fr: "x \<notin> free_lines ?n ?F" "free_lines ?n F = insert x (free_lines ?n ?F)"
    using tl_free [OF D(5), of k] t(2-4) by auto
  have xP: "x \<notin> part_lines P" and xn: "x < ca_entries c" using D(8,9) fr(2) by auto
  have xq: "x \<notin> set (P q)" if "q < OCF_IO_CLASS_MAX" for q using xP that by (auto simp: part_lines_def)
  obtain ps' Q' where a: "ocf_metadata_add_to_partition ((ca_parts c)\<lparr>ps_links := pl\<rparr>) p x = Some ps'"
    "part_rep ps' (P(p := x # P p)) Q'" "pl_linked_front pl x (P p) (ps_links ps')"
    by (rule add_to_partition_rep [OF t(8) p, of x]) (use t(9) xn xq in auto)
  have pn: "pl_entries (ps_links ps') = ca_entries c" using a(3) t(9) by (simp add: pl_linked_front_def)
  have "pl_list (ps_links ps') (?F j)" if j: "j < fl_count fl" for j
  proof -
    have "set (?F j) \<inter> insert x (set (P p)) = {}"
      using D(8) fr lines_sub(1) [OF p, of P] lines_sub(2) [of j ?n ?F, OF j [unfolded t(6)]] by blast
    then show ?thesis
      using pl_linked_front_lists(2) [OF a(3)] part_repD(1) [OF t(8) p] xq [OF p] xn t(9) fl_repD(1) [OF t(5), of j] j
      by simp
  qed
  then have fl': "fl_rep (fl, ps_links ps') ?F" by (intro fl_rep_links [OF t(5)]) (use pn t(9) in auto)
  obtain co where co: "ocf_metadata_add_to_collision (ca_coll c) cid cl (key_hash (ca_coll c) (cid, cl)) x = Some co"
    "coll_inv co" "coll_map co = (coll_map (ca_coll c))((cid, cl) \<mapsto> x)"
    "collision_table_entries co = ca_entries c" "hash_table_entries co = hash_table_entries (ca_coll c)"
    "mapped_lines co = insert x (mapped_lines (ca_coll c))" "line_key co = (line_key (ca_coll c))(x := (cid, cl))"
    by (rule add_to_collision_full [OF D(3) xn _ unmapped]) (use D(7) xP in auto)
  let ?c = "c\<lparr>ca_free := fl, ca_gets := ca_gets c + 1, ca_parts := ps', ca_coll := co\<rparr>"
  have clean: "sec_valid c x = {}" "sec_dirty c x = {}" using rep fr(2) by (auto simp: cache_rep_def)
  have pid: "ocf_metadata_get_partition_id (ca_links ?c) x = Some p"
    using part_repD(4) [OF a(2) p, of x] pn xn by (simp add: part_access_defs)
  obtain ls where ls: "(ocf_eviction_init_cache_line ?c x \<bind> (\<lambda>c. ocf_eviction_set_hot_cache_line c x)) =
      Some (?c\<lparr>ca_lru := ls\<rparr>)" "lru_rep ls (lru_upd L p False (x # L p False))" "lru_entries ls = ca_entries c"
    using init_hot_rep [of ?c L p x, OF _ p _ lru_not_in [OF core xP] pid] D(2,6) sz(1,2) xn clean(2) by auto
  let ?c' = "emit (InitBlock x) (?c\<lparr>ca_lru := ls\<rparr>)"
  have run: "ocf_engine_map_cache_line c cid p cl (key_hash (ca_coll c) (cid, cl)) = Some (Some x, ?c')"
    using t(1) a(1) co(1) ls(1) by (auto simp: ocf_engine_map_cache_line_def Let_def bind_eq_Some_conv)
  have "cache_core ?c' (P(p := x # P p)) (lru_upd L p False (x # L p False)) ?F"
    unfolding cache_core_def
  proof (intro conjI allI impI)
    show "cache_sizes ?c'" using sz pn co(4) ls(3) t(6) by (simp add: cache_sizes_def emit_def)
    show "\<exists>Q. part_rep (ca_parts ?c') (P(p := x # P p)) Q" using a(2) by (auto simp: emit_def)
    show "set (lru_upd L p False (x # L p False) q d) =
        {y \<in> set ((P(p := x # P p)) q). (sec_dirty ?c' y \<noteq> {}) = d}" if q: "q < OCF_IO_CLASS_MAX" for q d
      using D(10) [OF q, of d] clean(2) by (auto simp: emit_def lru_upd_def)
    show "(coll_core_id (ca_coll ?c') y < OCF_CORE_MAX) = (y \<in> mapped_lines (ca_coll ?c'))"
      if "y < ca_entries ?c'" for y
      using that D(11) [of y] co(4,6,7) cid by (auto simp: emit_def line_core_id)
  qed (use D co fl' ls(2) t(6) fr in \<open>auto simp: emit_def part_lines_front [OF p]\<close>)
  moreover have "\<forall>y \<in> free_lines (fl_count (ca_free ?c')) ?F. sec_valid ?c' y = {} \<and> sec_dirty ?c' y = {}"
    using rep fr(2) t(6) by (simp add: cache_rep_def emit_def)
  ultimately have "cache_rep ?c' (P(p := x # P p)) (lru_upd L p False (x # L p False)) ?F" by (simp add: cache_rep_def)
  have "parts_kept ((ca_parts c)\<lparr>ps_links := pl\<rparr>) ps'"
    by (rule add_to_partition_kept [OF t(8) p _ _ a(1)]) (use t(9) xn xq in auto)
  with that [OF run t(2-4) \<open>cache_rep ?c' _ _ _\<close>] show thesis
    using co t(6,7) by (simp add: same_env_def emit_def counters_def)
qed

subsection \<open>Taking a line out of the cache\<close>

lemma cache_core_cong:
  fixes c c' :: "'w::len wcache"
  assumes "cache_core c P L F" and "ca_coll c' = ca_coll c" and "ca_parts c' = ca_parts c"
    and "ca_lru c' = ca_lru c" and "ca_free c' = ca_free c" and "ca_locks c' = ca_locks c"
    and "ca_line c' = ca_line c" and "ca_ctx c' = ca_ctx c"
    and "status_wf (ca_status c')" and "sm_entries (ca_status c') = sm_entries (ca_status c)"
    and "\<And>x. x \<in> part_lines P \<Longrightarrow> (sec_dirty c' x = {}) = (sec_dirty c x = {})"
  shows "cache_core c' P L F"
proof -
  have "{x \<in> set (P p). (sec_dirty c' x \<noteq> {}) = d} = {x \<in> set (P p). (sec_dirty c x \<noteq> {}) = d}"
    if "p < OCF_IO_CLASS_MAX" for p d
    using assms(11) lines_sub(1) [OF that, of P] by blast
  then show ?thesis using assms(1-10) unfolding cache_core_def cache_sizes_def by simp
qed

lemma remove_part_lines:
  assumes core: "cache_core c P L F" and p: "p < OCF_IO_CLASS_MAX" and x: "x \<in> set (P p)"
  shows "part_lines (P(p := remove1 x (P p))) = part_lines P - {x}"
    and "set (remove1 x (P p)) = set (P p) - {x}"
proof -
  obtain Q where Q: "part_rep (ca_parts c) P Q" using cache_coreD(4) [OF core] by blast
  show r: "set (remove1 x (P p)) = set (P p) - {x}"
    by (rule set_remove1_eq) (use part_repD(1) [OF Q p] dlistD(1) in blast)
  have "x \<notin> set (P q)" if "q < OCF_IO_CLASS_MAX" "q \<noteq> p" for q
    using part_rep_disjoint [OF Q that(1) p that(2)] x by auto
  then show "part_lines (P(p := remove1 x (P p))) = part_lines P - {x}"
    unfolding part_lines_upd [OF p] part_lines_split [OF p, of P] r by auto
qed

lemma put_free_lines:
  assumes "k < n"
  shows "free_lines n (F(k := F k @ [x])) = insert x (free_lines n F)"
  unfolding free_lines_upd [OF assms] free_lines_split [OF assms, of F] by simp

lemma purge_sparse:
  assumes core: "cache_core c P L F" and p: "p < OCF_IO_CLASS_MAX" and x: "x \<in> set (P p)"
  defines "d \<equiv> sec_dirty c x \<noteq> {}"
  obtains c' where
    "(ocf_eviction_purge_cache_line c x \<bind> (\<lambda>c. ocf_metadata_sparse_cache_line c x)) = Some c'"
    and "cache_core c' (P(p := remove1 x (P p))) (lru_upd L p d (remove1 x (L p d))) (F(ca_ctx c := F (ca_ctx c) @ [x]))"
    and "coll_map (ca_coll c') = (coll_map (ca_coll c))(line_key (ca_coll c) x := None)"
    and "ca_status c' = ca_status c" and "total_free (ca_free c') = total_free (ca_free c) + 1"
    and "same_env c c'" and "counters c' = counters c" and "ca_pending c' = ca_pending c"
proof -
  note D = cache_coreD [OF core]
  have sz: "sm_entries (ca_status c) = ca_entries c" "lru_entries (ca_lru c) = ca_entries c"
    "pl_entries (ca_links c) = ca_entries c"
    "cl_entries (ca_locks c) = ca_entries c" "ocf_line_end_sector (ca_line c) = LENGTH('a) - 1"
    "ca_ctx c < fl_count (ca_free c)" using D(1) by (auto simp: cache_sizes_def)
  obtain Q where Q: "part_rep (ca_parts c) P Q" using D(4) by blast
  note rm = remove_part_lines [OF core p x]
  have xP: "x \<in> part_lines P" using lines_sub(1) [OF p] x by blast
  then have xn: "x < ca_entries c" and xf: "x \<notin> free_lines (fl_count (ca_free c)) F" using D(8,9) by auto
  have pid: "ocf_metadata_get_partition_id (ca_links c) x = Some p"
    using part_repD(4) [OF Q p x] xn sz(3) by (simp add: part_access_defs)
  have dirty: "metadata_test_dirty (ca_status c) x = Some d"
    using metadata_test_any_sem(1) [OF D(2)] xn sz(1) by (simp add: d_def)
  have xL: "x \<in> set (L p d)" using D(10) [OF p, of d] x by (simp add: d_def)
  obtain ls where ls: "remove_lru_list (ca_lru c) p x d = Some ls" "lru_rep ls (lru_upd L p d (remove1 x (L p d)))"
    "lru_entries ls = ca_entries c" by (rule remove_lru_list_rep [OF D(6) p xL]) (use sz(2) in auto)
  have xm: "x \<in> mapped_lines (ca_coll c)" using D(7) xP by simp
  obtain co where co: "ocf_metadata_remove_from_collision (ca_coll c) x p = Some co" "coll_inv co"
    "coll_map co = (coll_map (ca_coll c))(line_key (ca_coll c) x := None)"
    "collision_table_entries co = ca_entries c" "hash_table_entries co = hash_table_entries (ca_coll c)"
    "mapped_lines co = mapped_lines (ca_coll c) - {x}"
    "line_key co = (line_key (ca_coll c))(x := (OCF_CORE_MAX, ULLONG_MAX))"
    by (rule remove_from_collision_full [OF D(3) xm])
  obtain ps Q' where ps: "ocf_metadata_remove_from_partition (ca_parts c) p x = Some ps"
    "part_rep ps (P(p := remove1 x (P p))) Q'" "pl_unlinked (ca_links c) x (ps_links ps)"
    by (rule remove_from_partition_rep [OF Q p x])
  have pn: "pl_entries (ps_links ps) = ca_entries c" using ps(3) sz(3) by (simp add: pl_unlinked_def)
  have "pl_list (ps_links ps) (F j)" if "j < fl_count (ca_free c)" for j
    using pl_unlinked_lists(2) [OF ps(3) part_repD(1) [OF Q p] x] core_free_disjoint [OF core p that]
      fl_repD(1) [OF D(5), of j] that by (auto simp: Int_commute)
  then have fl: "fl_rep (ca_free c, ps_links ps) F" by (intro fl_rep_links [OF D(5)]) (use pn sz(3) in auto)
  let ?k = "ca_ctx c"
  obtain s' where s': "ocf_freelist_add_cache_line (ca_free c, ps_links ps) ?k x = Some s'"
    "fl_rep s' (F(?k := F ?k @ [x]))" "pl_linked_back (ps_links ps) x (F ?k) (snd s')"
    "fl_count (fst s') = fl_count (ca_free c)" "total_free (fst s') = total_free (ca_free c) + 1"
    by (rule freelist_add [OF fl, of ?k x])
      (use sz(6) pn xn xf lines_sub(2) in \<open>auto simp: free_lines_def\<close>)
  obtain fl' pl' where fp: "s' = (fl', pl')" by (cases s')
  have "pl_list pl' ((P(p := remove1 x (P p))) q) \<and> x \<notin> set ((P(p := remove1 x (P p))) q)"
    if q: "q < OCF_IO_CLASS_MAX" for q
  proof -
    have sub: "set ((P(p := remove1 x (P p))) q) \<subseteq> part_lines P - {x}"
      using lines_sub(1) [OF q, of "P(p := remove1 x (P p))"] rm(1) by blast
    have "set ((P(p := remove1 x (P p))) q) \<inter> insert x (set (F ?k)) = {}"
      using sub D(8) lines_sub(2) [OF sz(6), of F] by blast
    moreover have "pl_list (ps_links ps) (F ?k)" "x \<notin> set (F ?k)" "x < pl_entries (ps_links ps)"
      using fl_repD(1) [OF fl, of ?k] sz(6) xf lines_sub(2) [OF sz(6), of F] pn xn by auto
    ultimately show ?thesis
      using pl_linked_back_lists(2) [OF s'(3)] part_repD(1) [OF ps(2) q] fp sub by auto
  qed note Plist = this
  have pl': "pl_entries pl' = ca_entries c" "\<And>y. y \<noteq> x \<Longrightarrow> part_pid pl' y = part_pid (ps_links ps) y"
    using s'(3) fp pn by (auto simp: pl_linked_back_def)
  have pr: "part_rep (ps\<lparr>ps_links := pl'\<rparr>) (P(p := remove1 x (P p))) Q'"
  proof (rule part_rep_links [OF ps(2)])
    fix q y assume "q < OCF_IO_CLASS_MAX" "y \<in> set ((P(p := remove1 x (P p))) q)"
    then show "part_pid pl' y = part_pid (ps_links ps) y" using Plist [of q] pl'(2) [of y] by blast
  qed (use Plist pl'(1) pn in auto)
  let ?c = "c\<lparr>ca_lru := ls, ca_coll := co, ca_parts := ps\<lparr>ps_links := pl'\<rparr>, ca_free := fl'\<rparr>"
  have run: "(ocf_eviction_purge_cache_line c x \<bind> (\<lambda>c. ocf_metadata_sparse_cache_line c x)) = Some ?c"
    using pid dirty ls(1) co(1) ps(1) s'(1) fp
    by (simp add: ocf_eviction_purge_cache_line_def evp_lru_rm_cline_def ocf_metadata_sparse_cache_line_def
        ocf_freelist_put_cache_line_def)
  have "cache_core ?c (P(p := remove1 x (P p))) (lru_upd L p d (remove1 x (L p d))) (F(?k := F ?k @ [x]))"
    unfolding cache_core_def
  proof (intro conjI allI impI)
    show "cache_sizes ?c" using sz pl'(1) co(4) ls(3) s'(4) fp by (simp add: cache_sizes_def)
    show "\<exists>Q. part_rep (ca_parts ?c) (P(p := remove1 x (P p))) Q" using pr by auto
    show "fl_rep (ca_free ?c, ca_links ?c) (F(?k := F ?k @ [x]))" using s'(2) fp by simp
    show "set (lru_upd L p d (remove1 x (L p d)) q e) =
        {y \<in> set ((P(p := remove1 x (P p))) q). (sec_dirty ?c y \<noteq> {}) = e}" if q: "q < OCF_IO_CLASS_MAX" for q e
    proof -
      have "set (remove1 x (L p d)) = set (L p d) - {x}"
        by (rule set_remove1_eq) (use lru_repD(2) [OF D(6) p] dlistD(1) in blast)
      then show ?thesis using D(10) [OF q, of e] D(10) [OF p, of d] rm(2) d_def
        by (cases "q = p"; cases "e = d") (auto simp: lru_upd_def)
    qed
    show "(coll_core_id (ca_coll ?c) y < OCF_CORE_MAX) = (y \<in> mapped_lines (ca_coll ?c))"
      if "y < ca_entries ?c" for y
      using that D(11) [of y] co(4,6,7) by (auto simp: line_core_id)
  qed (use D co ls(2) s'(4) fp rm(1) xP put_free_lines [OF sz(6)] in auto)
  with that [OF run this] remove_from_partition_kept [OF Q p x ps(1)] show thesis
    using co s'(4,5) fp by (simp add: same_env_def counters_def)
qed

subsection \<open>Changing the status of a line\<close>

lemma core_line_ok:
  fixes c :: "'w::len wcache"
  assumes core: "cache_core c P L F" and p: "p < OCF_IO_CLASS_MAX" and x: "x \<in> set (P p)"
  shows "x < ca_entries c" and "ocf_metadata_get_partition_id (ca_links c) x = Some p"
    and "x < sm_entries (ca_status c)" and "x \<in> mapped_lines (ca_coll c)" and "coll_core_id (ca_coll c) x < OCF_CORE_MAX"
    and "ocf_cache_line_are_waiters (ca_locks c) x = Some (are_waiters (ca_locks c) x)"
    and "start \<le> stop \<Longrightarrow> stop < LENGTH('w) \<Longrightarrow> sec_ok (ca_status c) x start stop"
proof -
  note D = cache_coreD [OF core]
  obtain Q where Q: "part_rep (ca_parts c) P Q" using D(4) by blast
  have xP: "x \<in> part_lines P" using lines_sub(1) [OF p] x by blast
  then show n: "x < ca_entries c" using D(9) by auto
  show m: "x \<in> mapped_lines (ca_coll c)" using xP D(7) by simp
  show "ocf_metadata_get_partition_id (ca_links c) x = Some p" "x < sm_entries (ca_status c)"
    "ocf_cache_line_are_waiters (ca_locks c) x = Some (are_waiters (ca_locks c) x)"
    "coll_core_id (ca_coll c) x < OCF_CORE_MAX"
    using D(1,11) part_repD(4) [OF Q p x] n m
    by (auto simp: cache_sizes_def part_access_defs ocf_cache_line_are_waiters_def)
  then show "start \<le> stop \<Longrightarrow> stop < LENGTH('w) \<Longrightarrow> sec_ok (ca_status c) x start stop"
    using D(2) by (simp add: sec_ok_def status_wf_def)
qed

definition dec_cached :: "core_id \<Rightarrow> part_id \<Rightarrow> 'w::len wcache \<Rightarrow> 'w wcache" where
  "dec_cached core p c = c\<lparr>ca_cached := (ca_cached c)(core := ca_cached c core - 1),
     ca_part_cached := inc2 core p (- 1) (ca_part_cached c)\<rparr>"

text \<open>
  Clearing valid bits: the line leaves the cache when it has no valid sector left and nobody waits
  for it; the counters of the core and the partition drop when the last valid sector goes.
\<close>

lemma set_invalid_gen:
  fixes c :: "'w::len wcache"
  assumes core: "cache_core c P L F" and p: "p < OCF_IO_CLASS_MAX" and x: "x \<in> set (P p)"
    and range: "start \<le> stop" "stop < LENGTH('w)" and cid: "cid < OCF_CORE_MAX"
  defines "V \<equiv> sec_valid c x - {start..stop}"
  defines "gone \<equiv> V = {} \<and> \<not> are_waiters (ca_locks c) x"
  defines "d \<equiv> sec_dirty c x \<noteq> {}"
  obtains c' where "set_cache_line_invalid_gen c start stop x cid p = Some c'"
    and "if gone then cache_core c' (P(p := remove1 x (P p))) (lru_upd L p d (remove1 x (L p d)))
                        (F(ca_ctx c := F (ca_ctx c) @ [x]))
         else cache_core c' P L F"
    and "coll_map (ca_coll c') = (if gone then (coll_map (ca_coll c))(line_key (ca_coll c) x := None) else coll_map (ca_coll c))"
    and "sec_set Valid (ca_status c') = (sec_set Valid (ca_status c))(x := V)"
    and "sec_set Dirty (ca_status c') = sec_set Dirty (ca_status c)"
    and "total_free (ca_free c') = (if gone then total_free (ca_free c) + 1 else total_free (ca_free c))"
    and "counters c' = counters (if sec_valid c x \<noteq> {} \<and> V = {} then dec_cached cid p c else c)"
    and "same_env c c'" and "ca_pending c' = ca_pending c"
proof -
  note D = cache_coreD [OF core] and ok = core_line_ok [OF core p x]
  obtain sm where sm: "metadata_clear_valid_sec_changed (ca_status c) x start stop =
      Some (sec_valid c x \<noteq> {} \<and> sec_valid c x \<subseteq> {start..stop}, \<not> sec_valid c x \<subseteq> {start..stop}, sm)"
    "sec_set Valid sm = (sec_set Valid (ca_status c))(x := V)" "sec_set Dirty sm = sec_set Dirty (ca_status c)"
    "sm_entries sm = sm_entries (ca_status c)" "status_wf sm"
    using metadata_clear_valid_sec_changed_sem [OF D(2) ok(7) [OF range]] D(2) by (auto simp: V_def)
  have Ve: "sec_valid c x \<subseteq> {start..stop} \<longleftrightarrow> V = {}" by (auto simp: V_def)
  define c1 where "c1 = (let c2 = c\<lparr>ca_status := sm\<rparr>
     in if sec_valid c x \<noteq> {} \<and> V = {} then dec_cached cid p c2 else c2)"
  have c1: "ca_status c1 = sm" "ca_coll c1 = ca_coll c" "ca_parts c1 = ca_parts c" "ca_lru c1 = ca_lru c"
    "ca_free c1 = ca_free c" "ca_locks c1 = ca_locks c" "ca_line c1 = ca_line c" "ca_ctx c1 = ca_ctx c"
    "same_env c c1" "counters c1 = counters (if sec_valid c x \<noteq> {} \<and> V = {} then dec_cached cid p c else c)"
    "ca_pending c1 = ca_pending c"
    by (simp_all add: c1_def Let_def dec_cached_def same_env_def counters_def)
  have core1: "cache_core c1 P L F"
    by (rule cache_core_cong [OF core]) (use c1 sm in simp_all)
  have step: "set_cache_line_invalid_gen c start stop x cid p =
      (if gone then ocf_eviction_purge_cache_line c1 x \<bind> (\<lambda>c. ocf_metadata_sparse_cache_line c x) else Some c1)"
    using sm(1) cid ok(6) unfolding Ve
    by (simp add: set_cache_line_invalid_gen_def Let_def c1_def dec_cached_def gone_def)
  show thesis
  proof (cases gone)
    case True
    obtain c' where c': "(ocf_eviction_purge_cache_line c1 x \<bind> (\<lambda>c. ocf_metadata_sparse_cache_line c x)) = Some c'"
      "cache_core c' (P(p := remove1 x (P p))) (lru_upd L p d (remove1 x (L p d))) (F(ca_ctx c := F (ca_ctx c) @ [x]))"
      "coll_map (ca_coll c') = (coll_map (ca_coll c1))(line_key (ca_coll c1) x := None)"
      "ca_status c' = ca_status c1" "total_free (ca_free c') = total_free (ca_free c1) + 1"
      "same_env c1 c'" "counters c' = counters c1" "ca_pending c' = ca_pending c1"
      by (rule purge_sparse [OF core1 p x]) (use c1(1,8) sm(3) in \<open>simp add: d_def\<close>)
    show thesis
      by (rule that [of c']) (use True step c' c1 sm(2,3) same_env_trans [OF c1(9) c'(6)] in simp_all)
  next
    case False
    show thesis by (rule that [of c1]) (use False step c1 core1 sm(2,3) in simp_all)
  qed
qed

definition line_used :: "'s cache \<Rightarrow> cline \<Rightarrow> bool" where
  "line_used c x = (cl_access (ca_locks c) x \<noteq> 0 \<or> are_waiters (ca_locks c) x)"

lemma is_used_line_used:
  "x < cl_entries (ca_locks c) \<Longrightarrow> ocf_cache_line_is_used (ca_locks c) x = Some (line_used c x)"
  by (auto simp: ocf_cache_line_is_used_def ocf_cache_line_are_waiters_def line_used_def)

lemma line_used_env: "same_env c c' \<Longrightarrow> line_used c' x = line_used c x"
  by (simp add: line_used_def same_env_def)

lemma line_range:
  fixes c :: "'w::len wcache"
  assumes "cache_core c P L F"
  shows "0 \<le> ocf_line_end_sector (ca_line c)" and "ocf_line_end_sector (ca_line c) < LENGTH('w)"
    and "sec_set what (ca_status c) x \<subseteq> {0..ocf_line_end_sector (ca_line c)}"
proof -
  have e: "ocf_line_end_sector (ca_line c) = LENGTH('w) - 1"
    using cache_coreD(1) [OF assms] by (simp add: cache_sizes_def)
  then show "ocf_line_end_sector (ca_line c) < LENGTH('w)" using len_gt_0 [where 'a = 'w] by linarith
  show "sec_set what (ca_status c) x \<subseteq> {0..ocf_line_end_sector (ca_line c)}"
    using status_wf_cover [OF cache_coreD(2) [OF assms], of what x] cache_coreD(2) [OF assms] e by (simp add: status_wf_def)
qed simp

lemma invalidate_line:
  fixes c :: "'w::len wcache"
  assumes rep: "cache_rep c P L F" and p: "p < OCF_IO_CLASS_MAX" and x: "x \<in> set (P p)"
    and idle: "\<not> are_waiters (ca_locks c) x"
  defines "d \<equiv> sec_dirty c x \<noteq> {}"
  obtains c' where "set_cache_line_invalid_no_flush c 0 (ocf_line_end_sector (ca_line c)) x = Some c'"
    and "cache_core c' (P(p := remove1 x (P p))) (lru_upd L p d (remove1 x (L p d))) (F(ca_ctx c := F (ca_ctx c) @ [x]))"
    and "coll_map (ca_coll c') = (coll_map (ca_coll c))(line_key (ca_coll c) x := None)"
    and "sec_set Valid (ca_status c') = (sec_set Valid (ca_status c))(x := {})"
    and "sec_set Dirty (ca_status c') = sec_set Dirty (ca_status c)"
    and "total_free (ca_free c') = total_free (ca_free c) + 1"
    and "counters c' = counters (if sec_valid c x \<noteq> {} then dec_cached (coll_core_id (ca_coll c) x) p c else c)"
    and "same_env c c'" and "ca_pending c' = ca_pending c"
proof -
  have core: "cache_core c P L F" using rep by (simp add: cache_rep_def)
  note ok = core_line_ok [OF core p x] and r = line_range [OF core]
  have V: "sec_valid c x - {0..ocf_line_end_sector (ca_line c)} = {}" using r(3) [of Valid x] by blast
  have eq: "set_cache_line_invalid_no_flush c 0 (ocf_line_end_sector (ca_line c)) x =
      set_cache_line_invalid_gen c 0 (ocf_line_end_sector (ca_line c)) x (coll_core_id (ca_coll c) x) p"
    using ok(1,2) by (simp add: set_cache_line_invalid_no_flush_def ocf_metadata_get_core_info_def)
  show thesis
  proof (rule set_invalid_gen [OF core p x r(1,2) ok(5)], goal_cases)
    case (1 c')
    then show thesis using idle V eq by (intro that [of c']) (simp_all add: d_def)
  qed
qed

lemma invalidate_clean:
  fixes c :: "'w::len wcache"
  assumes rep: "cache_rep c P L F" and p: "p < OCF_IO_CLASS_MAX" and x: "x \<in> set (L p False)"
    and idle: "\<not> are_waiters (ca_locks c) x"
  obtains c' where "set_cache_line_invalid_no_flush c 0 (ocf_line_end_sector (ca_line c)) x = Some c'"
    and "cache_rep c' (P(p := remove1 x (P p))) (lru_upd L p False (remove1 x (L p False))) (F(ca_ctx c := F (ca_ctx c) @ [x]))"
    and "coll_map (ca_coll c') = (coll_map (ca_coll c))(line_key (ca_coll c) x := None)"
    and "sec_set Valid (ca_status c') = (sec_set Valid (ca_status c))(x := {})"
    and "sec_set Dirty (ca_status c') = sec_set Dirty (ca_status c)"
    and "total_free (ca_free c') = total_free (ca_free c) + 1"
    and "same_env c c'" and "ca_pending c' = ca_pending c"
proof -
  have core: "cache_core c P L F" using rep by (simp add: cache_rep_def)
  have xP: "x \<in> set (P p)" and clean: "sec_dirty c x = {}" using cache_coreD(10) [OF core p, of False] x by auto
  show thesis
  proof (rule invalidate_line [OF rep p xP idle])
    fix c' assume c': "set_cache_line_invalid_no_flush c 0 (ocf_line_end_sector (ca_line c)) x = Some c'"
      "cache_core c' (P(p := remove1 x (P p))) (lru_upd L p (sec_dirty c x \<noteq> {}) (remove1 x (L p (sec_dirty c x \<noteq> {}))))
         (F(ca_ctx c := F (ca_ctx c) @ [x]))"
      "coll_map (ca_coll c') = (coll_map (ca_coll c))(line_key (ca_coll c) x := None)"
      "sec_set Valid (ca_status c') = (sec_set Valid (ca_status c))(x := {})"
      "sec_set Dirty (ca_status c') = sec_set Dirty (ca_status c)"
      "total_free (ca_free c') = total_free (ca_free c) + 1" "same_env c c'" "ca_pending c' = ca_pending c"
    have k: "ca_ctx c < fl_count (ca_free c)" using cache_coreD(1) [OF core] by (simp add: cache_sizes_def)
    have n: "fl_count (ca_free c') = fl_count (ca_free c)" using c'(7) by (simp add: same_env_def)
    have "cache_rep c' (P(p := remove1 x (P p))) (lru_upd L p False (remove1 x (L p False))) (F(ca_ctx c := F (ca_ctx c) @ [x]))"
      using c'(2,4,5) clean rep put_free_lines [OF k, of F x] n by (simp add: cache_rep_def)
    then show thesis using c' by (intro that [of c']) auto
  qed
qed

subsection \<open>Choosing victims\<close>

definition drop_lines :: "cline list \<Rightarrow> cline list \<Rightarrow> cline list" where
  "drop_lines E xs = filter (\<lambda>y. y \<notin> set E) xs"

definition drop_map :: "cline list \<Rightarrow> ('k \<rightharpoonup> cline) \<Rightarrow> ('k \<rightharpoonup> cline)" where
  "drop_map E m = (\<lambda>k. case m k of None \<Rightarrow> None | Some x \<Rightarrow> if x \<in> set E then None else Some x)"

lemma drop_lines_simps [simp]:
  "drop_lines [] xs = xs"
  "set (drop_lines E xs) = set xs - set E"
  by (auto simp: drop_lines_def)

lemma drop_lines_Cons: "distinct xs \<Longrightarrow> drop_lines (x # E) xs = drop_lines E (remove1 x xs)"
  by (auto simp: drop_lines_def distinct_remove1_removeAll removeAll_filter_not_eq intro!: filter_cong)

lemma drop_map_Nil [simp]: "drop_map [] m = m"
  by (auto simp: drop_map_def fun_eq_iff split: option.splits)

lemma drop_map_Cons:
  assumes "\<And>k. m k = Some x \<longleftrightarrow> k = j"
  shows "drop_map (x # E) m = drop_map E (m(j := None))"
proof
  fix k
  have "m j = Some x" using assms by simp
  then show "drop_map (x # E) m k = drop_map E (m(j := None)) k"
    using assms [of k] by (cases "k = j") (auto simp: drop_map_def split: option.splits)
qed

lemma part_lists_distinct:
  assumes "cache_core c P L F" and "p < OCF_IO_CLASS_MAX"
  shows "distinct (P p)" and "distinct (L p d)"
  using cache_coreD(4,6) [OF assms(1)] part_repD(1) [OF _ assms(2)] lru_repD(2) [OF _ assms(2)] dlistD(1) by blast+

text \<open>The unused lines of the clean list, least recently used first.\<close>

definition victims :: "'w::len wcache \<Rightarrow> nat \<Rightarrow> cline list \<Rightarrow> cline list" where
  "victims c m as = take m (filter (\<lambda>x. \<not> line_used c x) (rev as))"

lemma victims_env: "same_env c c' \<Longrightarrow> victims c' = victims c"
  by (simp add: victims_def fun_eq_iff line_used_env)

lemma victims_snoc:
  "victims c m (as @ [x]) =
     (if line_used c x then victims c m as else if m = 0 then [] else x # victims c (m - 1) as)"
  by (auto simp: victims_def take_Cons')

definition evicted_to ::
  "'w::len wcache \<Rightarrow> (part_id \<Rightarrow> cline list) \<Rightarrow> (part_id \<Rightarrow> bool \<Rightarrow> cline list) \<Rightarrow> (nat \<Rightarrow> cline list) \<Rightarrow>
   part_id \<Rightarrow> cline list \<Rightarrow> 'w wcache \<Rightarrow> bool" where
  "evicted_to c P L F p E c' \<longleftrightarrow>
     cache_rep c' (P(p := drop_lines E (P p))) (lru_upd L p False (drop_lines E (L p False)))
       (F(ca_ctx c := F (ca_ctx c) @ E)) \<and>
     coll_map (ca_coll c') = drop_map E (coll_map (ca_coll c)) \<and>
     (\<forall>x. sec_valid c' x = (if x \<in> set E then {} else sec_valid c x)) \<and>
     (\<forall>x. sec_dirty c' x = sec_dirty c x) \<and>
     total_free (ca_free c') = total_free (ca_free c) + length E \<and>
     (E = [] \<longrightarrow> ca_parts c' = ca_parts c) \<and> same_env c c'"

text \<open>
  Fields that are not part of the invariant: the starts of the cleaner, the recorded calls, the
  requests on their way.
\<close>

definition same_lines :: "'w::len wcache \<Rightarrow> 'w wcache \<Rightarrow> bool" where
  "same_lines c c' \<longleftrightarrow> ca_status c' = ca_status c \<and> ca_coll c' = ca_coll c \<and> ca_parts c' = ca_parts c \<and>
     ca_lru c' = ca_lru c \<and> ca_free c' = ca_free c \<and> same_env c c' \<and> counters c' = counters c"

lemma same_lines_rep: "same_lines c c' \<Longrightarrow> cache_rep c' P L F = cache_rep c P L F"
  by (simp add: same_lines_def cache_rep_def cache_core_def cache_sizes_def same_env_def)

lemma same_lines_evicted:
  assumes "evicted_to c P L F p E c'" and "same_lines c' c''"
  shows "evicted_to c P L F p E c''"
  using assms same_lines_rep [OF assms(2)] same_env_trans [of c c' c'']
  by (simp add: evicted_to_def same_lines_def)

lemma evicted_to_Nil: "cache_rep c P L F \<Longrightarrow> evicted_to c P L F p [] c"
  by (simp add: evicted_to_def lru_upd_def)

lemma evict_one:
  fixes c :: "'w::len wcache"
  assumes rep: "cache_rep c P L F" and p: "p < OCF_IO_CLASS_MAX" and x: "x \<in> set (L p False)"
    and idle: "\<not> line_used c x"
  obtains c' where "set_cache_line_invalid_no_flush c 0 (ocf_line_end_sector (ca_line c)) x = Some c'"
    and "cache_rep c' (P(p := remove1 x (P p))) (lru_upd L p False (remove1 x (L p False))) (F(ca_ctx c := F (ca_ctx c) @ [x]))"
    and "same_env c c'" and "ca_pending c' = ca_pending c"
    and "\<And>E c''. evicted_to c' (P(p := remove1 x (P p))) (lru_upd L p False (remove1 x (L p False)))
           (F(ca_ctx c := F (ca_ctx c) @ [x])) p E c'' \<Longrightarrow> evicted_to c P L F p (x # E) c''"
proof -
  have core: "cache_core c P L F" using rep by (simp add: cache_rep_def)
  have nw: "\<not> are_waiters (ca_locks c) x" using idle by (simp add: line_used_def)
  obtain c' where c': "set_cache_line_invalid_no_flush c 0 (ocf_line_end_sector (ca_line c)) x = Some c'"
    "cache_rep c' (P(p := remove1 x (P p))) (lru_upd L p False (remove1 x (L p False))) (F(ca_ctx c := F (ca_ctx c) @ [x]))"
    "coll_map (ca_coll c') = (coll_map (ca_coll c))(line_key (ca_coll c) x := None)"
    "sec_set Valid (ca_status c') = (sec_set Valid (ca_status c))(x := {})"
    "sec_set Dirty (ca_status c') = sec_set Dirty (ca_status c)"
    "total_free (ca_free c') = total_free (ca_free c) + 1" "same_env c c'" "ca_pending c' = ca_pending c"
    by (rule invalidate_clean [OF rep p x nw])
  have xm: "x \<in> mapped_lines (ca_coll c)"
    using cache_coreD(10) [OF core p, of False] x core_line_ok(4) [OF core p] by auto
  have key: "coll_map (ca_coll c) k = Some x \<longleftrightarrow> k = line_key (ca_coll c) x" for k
    using coll_map_iff [OF cache_coreD(3) [OF core]] xm by auto
  note dist = part_lists_distinct [OF core p]
  show thesis
  proof (rule that [OF c'(1,2,7,8)])
    fix E c''
    assume e: "evicted_to c' (P(p := remove1 x (P p))) (lru_upd L p False (remove1 x (L p False)))
           (F(ca_ctx c := F (ca_ctx c) @ [x])) p E c''"
    have ctx: "ca_ctx c' = ca_ctx c" using c'(7) by (simp add: same_env_def)
    have "lru_upd (lru_upd L p False ys) p False zs = lru_upd L p False zs" for ys zs by (simp add: lru_upd_def)
    then show "evicted_to c P L F p (x # E) c''"
      using e c'(3-8) same_env_trans [OF c'(7)]
      unfolding evicted_to_def ctx drop_lines_Cons [OF dist(1)] drop_lines_Cons [OF dist(2)] drop_map_Cons [OF key]
      by auto
  qed
qed

lemma clean_prev:
  assumes core: "cache_core c P L F" and p: "p < OCF_IO_CLASS_MAX" and L: "L p d = as @ x # sk"
  shows "x < ca_entries c" and "\<exists>nx. ocf_metadata_get_evicition_policy (ca_lru c) x = Some (nx, last_or (ca_entries c) as)"
    and "ocf_cache_line_is_used (ca_locks c) x = Some (line_used c x)"
    and "metadata_test_dirty (ca_status c) x = Some d"
proof -
  note D = cache_coreD [OF core]
  have n: "lru_entries (ca_lru c) = ca_entries c" "cl_entries (ca_locks c) = ca_entries c"
    "sm_entries (ca_status c) = ca_entries c" using D(1) by (auto simp: cache_sizes_def)
  have dl: "dlist (ca_entries c) (lru_next (ca_lru c)) (lru_prev (ca_lru c)) (as @ x # sk)"
    using lru_repD(2) [OF D(6) p, of d] L n(1) by simp
  then show x: "x < ca_entries c" using dlistD(2) by fastforce
  show "\<exists>nx. ocf_metadata_get_evicition_policy (ca_lru c) x = Some (nx, last_or (ca_entries c) as)"
    using dseg_node(1) [OF dlistD(3) [OF dl]] x n(1) by (simp add: ocf_metadata_get_evicition_policy_def)
  show "ocf_cache_line_is_used (ca_locks c) x = Some (line_used c x)" using is_used_line_used [of x c] x n(2) by simp
  have "x \<in> set (L p d)" using L by simp
  then have "(sec_dirty c x \<noteq> {}) = d" using D(10) [OF p, of d] by simp
  then show "metadata_test_dirty (ca_status c) x = Some d"
    using metadata_test_any_sem(1) [OF D(2)] x n(3) by simp
qed

lemma can_evict_env: "ca_pending c' = ca_pending c \<Longrightarrow> evp_lru_can_evict c' = evp_lru_can_evict c"
  by (simp add: evp_lru_can_evict_def)

lemma req_clines_loop_evicts:
  fixes c :: "'w::len wcache"
  assumes "cache_rep c P L F" and "p < OCF_IO_CLASS_MAX" and "L p False = as @ sk"
    and "\<not> ca_atomic c" and "evp_lru_can_evict c" and "i \<le> m"
  shows "\<exists>c'. req_clines_loop m i (last_or (ca_entries c) as) c = Some (i + length (victims c (m - i) as), c') \<and>
    evicted_to c P L F p (victims c (m - i) as) c'"
  using assms
proof (induction as arbitrary: c P L F sk i rule: rev_induct)
  case Nil
  then show ?case using evicted_to_Nil [OF Nil.prems(1)]
    by (subst req_clines_loop.simps) (simp add: victims_def)
next
  case (snoc x as)
  note rep = snoc.prems(1) and p = snoc.prems(2)
  have core: "cache_core c P L F" using rep by (simp add: cache_rep_def)
  have L: "L p False = as @ x # sk" using snoc.prems(3) by simp
  show ?case
  proof (cases "i < m")
    case False
    then show ?thesis using evicted_to_Nil [OF rep] snoc.prems(6)
      by (subst req_clines_loop.simps) (simp add: victims_def)
  next
    case im: True
    note pv = clean_prev [OF core p L]
    obtain nx where nx: "ocf_metadata_get_evicition_policy (ca_lru c) x = Some (nx, last_or (ca_entries c) as)"
      using pv(2) by blast
    show ?thesis
    proof (cases "line_used c x")
      case True
      have step: "req_clines_loop m i (last_or (ca_entries c) (as @ [x])) c = req_clines_loop m i (last_or (ca_entries c) as) c"
        using pv(1,3) nx im True snoc.prems(5) by (subst req_clines_loop.simps) simp
      show ?thesis unfolding step victims_snoc using snoc.IH [OF rep p L snoc.prems(4-6)] True by simp
    next
      case idle: False
      have xL: "x \<in> set (L p False)" using L by simp
      obtain c1 where c1: "set_cache_line_invalid_no_flush c 0 (ocf_line_end_sector (ca_line c)) x = Some c1"
        "cache_rep c1 (P(p := remove1 x (P p))) (lru_upd L p False (remove1 x (L p False))) (F(ca_ctx c := F (ca_ctx c) @ [x]))"
        "same_env c c1" "ca_pending c1 = ca_pending c"
        "\<And>E c''. evicted_to c1 (P(p := remove1 x (P p))) (lru_upd L p False (remove1 x (L p False)))
           (F(ca_ctx c := F (ca_ctx c) @ [x])) p E c'' \<Longrightarrow> evicted_to c P L F p (x # E) c''"
        by (rule evict_one [OF rep p xL idle]) (rule that, assumption+)
      have "x \<notin> set as" using part_lists_distinct(2) [OF core p, of False] L by simp
      then have L1: "lru_upd L p False (remove1 x (L p False)) p False = as @ sk" using L by (simp add: remove1_append)
      have env: "\<not> ca_atomic c1" "ca_entries c1 = ca_entries c" using c1(3) snoc.prems(4) by (auto simp: same_env_def)
      have step: "req_clines_loop m i (last_or (ca_entries c) (as @ [x])) c =
          req_clines_loop m (i + 1) (last_or (ca_entries c1) as) c1"
        using pv(1,3,4) nx im idle c1(1) snoc.prems(4,5) env(2) by (subst req_clines_loop.simps) simp
      have vic: "victims c (m - i) (as @ [x]) = x # victims c1 (m - (i + 1)) as"
        using idle im victims_env [OF c1(3)] by (simp add: victims_snoc)
      have "evp_lru_can_evict c1" "i + 1 \<le> m" using can_evict_env [OF c1(4)] snoc.prems(5) im by auto
      from snoc.IH [OF c1(2) p L1 env(1) this] obtain c2 where
        "req_clines_loop m (i + 1) (last_or (ca_entries c1) as) c1 = Some (i + 1 + length (victims c1 (m - (i + 1)) as), c2)"
        "evicted_to c1 (P(p := remove1 x (P p))) (lru_upd L p False (remove1 x (L p False)))
           (F(ca_ctx c := F (ca_ctx c) @ [x])) p (victims c1 (m - (i + 1)) as) c2"
        by blast
      with c1(5) show ?thesis unfolding step vic by auto
    qed
  qed
qed

lemma evicted_to_rep: "evicted_to c P L F p [] c' \<Longrightarrow> cache_rep c' P L F"
  by (simp add: evicted_to_def lru_upd_def)

lemma clean_same_lines:
  "\<exists>c'. evp_lru_clean c p n = Some c' \<and> same_lines c c'"
  by (auto simp: evp_lru_clean_def evp_lru_clean_end_def ocf_refcnt_inc_def refcnt_inc_gen_def ocf_refcnt_dec_def
      same_lines_def same_env_def counters_def emit_def Let_def)

lemma zero_same_lines:
  assumes "x < ca_entries c"
  shows "\<exists>c'. evp_lru_zero_line c x = Some c' \<and> same_lines c c'"
  using assms by (cases "ca_zero_ok c x")
    (auto simp: evp_lru_zero_line_def ocf_metadata_get_core_info_def same_lines_def same_env_def counters_def emit_def)

lemma req_clines_loop_idle:
  fixes c :: "'w::len wcache"
  assumes "cache_rep c P L F" and "p < OCF_IO_CLASS_MAX" and "L p False = as @ sk"
    and "ca_atomic c \<or> \<not> evp_lru_can_evict c"
  shows "\<exists>c'. req_clines_loop m i (last_or (ca_entries c) as) c = Some (i, c') \<and> same_lines c c'"
  using assms
proof (induction as arbitrary: c sk rule: rev_induct)
  case Nil
  have "same_lines c c" by (simp add: same_lines_def)
  then show ?case by (subst req_clines_loop.simps) simp
next
  case (snoc x as)
  note rep = snoc.prems(1) and p = snoc.prems(2)
  have core: "cache_core c P L F" using rep by (simp add: cache_rep_def)
  have L: "L p False = as @ x # sk" using snoc.prems(3) by simp
  have refl: "same_lines c c" by (simp add: same_lines_def)
  note pv = clean_prev [OF core p L]
  show ?case
  proof (cases "i < m \<and> evp_lru_can_evict c")
    case False
    then show ?thesis using pv(1) refl by (subst req_clines_loop.simps) auto
  next
    case go: True
    obtain nx where nx: "ocf_metadata_get_evicition_policy (ca_lru c) x = Some (nx, last_or (ca_entries c) as)"
      using pv(2) by blast
    show ?thesis
    proof (cases "line_used c x")
      case True
      have "req_clines_loop m i (last_or (ca_entries c) (as @ [x])) c = req_clines_loop m i (last_or (ca_entries c) as) c"
        using pv(1,3) nx go True by (subst req_clines_loop.simps) simp
      then show ?thesis using snoc.IH [OF rep p L snoc.prems(4)] by simp
    next
      case idle: False
      have at: "ca_atomic c" using snoc.prems(4) go by blast
      obtain c1 where c1: "evp_lru_zero_line c x = Some c1" "same_lines c c1" "ca_entries c1 = ca_entries c" "ca_atomic c1"
        using zero_same_lines [OF pv(1)] at by (auto simp: same_lines_def same_env_def)
      have step: "req_clines_loop m i (last_or (ca_entries c) (as @ [x])) c = req_clines_loop m i (last_or (ca_entries c1) as) c1"
        using pv(1,3,4) nx go idle at c1(1,3) by (subst req_clines_loop.simps) simp
      obtain c2 where c2: "req_clines_loop m i (last_or (ca_entries c1) as) c1 = Some (i, c2)" "same_lines c1 c2"
        using snoc.IH [of c1 "x # sk"] same_lines_rep [OF c1(2)] rep p L c1(4) by auto
      have "same_lines c c2" using c1(2) c2(2) same_env_trans [of c c1 c2] by (simp add: same_lines_def)
      then show ?thesis using step c2(1) by simp
    qed
  qed
qed

text \<open>
  Which lines \<^const>\<open>evp_lru_req_clines\<close> evicts: the least recently used clean lines that nobody uses, as
  many as were asked for; on an atomic device none, since a line is given back only when it has been zeroed.
\<close>

definition victims_of :: "'w::len wcache \<Rightarrow> cline list \<Rightarrow> nat \<Rightarrow> cline list" where
  "victims_of c clean m = (if ca_atomic c \<or> \<not> evp_lru_can_evict c then [] else victims c m clean)"

lemma req_clines_evicts:
  fixes c :: "'w::len wcache"
  assumes rep: "cache_rep c P L F" and p: "p < OCF_IO_CLASS_MAX"
  shows "\<exists>c'. evp_lru_req_clines c p m = Some (length (victims_of c (L p False) m), c') \<and>
    evicted_to c P L F p (victims_of c (L p False) m) c'"
proof (cases "m = 0")
  case True
  then have "victims_of c (L p False) m = []" by (simp add: victims_of_def victims_def)
  then show ?thesis using True evicted_to_Nil [OF rep] by (simp add: evp_lru_req_clines_def)
next
  case False
  let ?E = "victims_of c (L p False) m"
  have core: "cache_core c P L F" using rep by (simp add: cache_rep_def)
  have tail: "clean_tail (lru_pol (ca_lru c) p) = last_or (ca_entries c) (L p False)"
    using lru_repD(1) [OF cache_coreD(6) [OF core] p] cache_coreD(1) [OF core]
    by (simp add: pol_ok_def cache_sizes_def)
  have "\<exists>c1. req_clines_loop m 0 (last_or (ca_entries c) (L p False)) c = Some (length ?E, c1) \<and> evicted_to c P L F p ?E c1"
  proof (cases "ca_atomic c \<or> \<not> evp_lru_can_evict c")
    case True
    then show ?thesis
      using req_clines_loop_idle [OF rep p, where as = "L p False" and sk = "[]" and i = 0 and m = m]
        same_lines_evicted [OF evicted_to_Nil [OF rep]] by (auto simp: victims_of_def)
  next
    case False
    then show ?thesis
      using req_clines_loop_evicts [OF rep p, where as = "L p False" and sk = "[]" and i = 0 and m = m]
      by (auto simp: victims_of_def)
  qed
  then obtain c1 where c1: "req_clines_loop m 0 (last_or (ca_entries c) (L p False)) c = Some (length ?E, c1)"
    "evicted_to c P L F p ?E c1" by blast
  obtain c2 where c2: "evp_lru_clean c1 p (m - length ?E) = Some c2" "same_lines c1 c2"
    using clean_same_lines by blast
  show ?thesis
    using False c1 c2(1) same_lines_evicted [OF c1(2) c2(2)] by (auto simp: evp_lru_req_clines_def tail)
qed

subsection \<open>An example\<close>

text \<open>
  A cache of four lines of 4 KiB: line 0 is free, the lines 1 and 2 are clean and line 3 is dirty, all in
  partition 0; line \<open>x\<close> holds core line \<open>x\<close> of core 0.
\<close>

definition example_cache :: "8 wcache" where
  "example_cache =
    \<lparr>ca_status = \<lparr>sm_entries = 4, sector_start = 0, sector_end = 7,
        valid = (\<lambda>x. if 1 \<le> x \<and> x \<le> 3 then 255 else 0), dirty = (\<lambda>x. if x = 3 then 255 else 0)\<rparr>,
     ca_coll = \<lparr>collision_table_entries = 4, hash_table_entries = 5, hash_tbl = (\<lambda>h. if 1 \<le> h \<and> h \<le> 3 then h else 4),
        next_col = (\<lambda>_. 4), prev_col = (\<lambda>_. 4), coll_core_id = (\<lambda>x. if 1 \<le> x \<and> x \<le> 3 then 0 else 4096),
        coll_core_line = (\<lambda>x. x)\<rparr>,
     ca_parts = \<lparr>ps_links = \<lparr>pl_entries = 4, part_next = (\<lambda>x. if x = 0 then 4 else x + 1),
          part_prev = (\<lambda>x. if x \<le> 1 then 4 else x - 1), part_pid = (\<lambda>x. if x = 0 then 255 else 0)\<rparr>,
        user_parts = (\<lambda>p. \<lparr>part_name = [], min_size = 0, max_size = 4, priority = 255, part_cache_mode = 0,
          flag_valid = p = 0, flag_added = True, flag_eviction = p = 0, curr_size = if p = 0 then 3 else 0,
          part_head = if p = 0 then 1 else 4\<rparr>),
        lst_part = \<lparr>lst_next = (\<lambda>x. if x = 33 then 0 else if x = 0 then 33 else 34),
          lst_prev = (\<lambda>x. if x = 33 then 0 else if x = 0 then 33 else 34), lst_invalid = 33\<rparr>,
        device_attached = True, valid_parts_no = 1\<rparr>,
     ca_lru = \<lparr>lru_entries = 4, lru_next = (\<lambda>x. if x = 1 then 2 else 4), lru_prev = (\<lambda>x. if x = 2 then 1 else 4),
        lru_pol = (\<lambda>p. if p = 0
          then \<lparr>has_clean_nodes = True, has_dirty_nodes = True, dirty_head = 3, dirty_tail = 3, clean_head = 1, clean_tail = 2\<rparr>
          else \<lparr>has_clean_nodes = False, has_dirty_nodes = False, dirty_head = 4, dirty_tail = 4, clean_head = 4, clean_tail = 4\<rparr>)\<rparr>,
     ca_free = \<lparr>fl_part = (\<lambda>_. \<lparr>fp_head = 0, fp_tail = 0, fp_size = 1\<rparr>), fl_count = 1, slowpath_victim_idx = 0, total_free = 1\<rparr>,
     ca_locks = \<lparr>cl_entries = 4, cl_buckets = 1, cl_lock = rwsem_free, cl_access = (\<lambda>_. 0), cl_waiters = (\<lambda>_. []), cl_waiting = 0,
        cl_reqs = (\<lambda>_. request_zero), cl_resumed = []\<rparr>,
     ca_line = \<lparr>ls_size = 4096, ls_sector_count = 8, ls_sector_start = 0, ls_sector_end = 7\<rparr>, ca_cached = (\<lambda>k. if k = 0 then 3 else 0), ca_dirty = (\<lambda>k. if k = 0 then 1 else 0),
     ca_part_cached = (\<lambda>k p. if k = 0 \<and> p = 0 then 3 else 0), ca_part_dirty = (\<lambda>k p. if k = 0 \<and> p = 0 then 1 else 0),
     ca_dirty_since = (\<lambda>k. if k = 0 then 1 else 0), ca_tick = 5, ca_ctx = 0, ca_busy = (\<lambda>_ _. False), ca_gets = 0,
     ca_atomic = False, ca_raw = metadata_raw_type_ram, ca_zero_ok = (\<lambda>_. True), ca_pending = 0, ca_mngt_locked = False,
     ca_cleaning_ref = (\<lambda>_. ocf_refcnt_init), ca_events = []\<rparr>"

definition example_P :: "part_id \<Rightarrow> cline list" where
  "example_P p = (if p = 0 then [1, 2, 3] else [])"

definition example_L :: "part_id \<Rightarrow> bool \<Rightarrow> cline list" where
  "example_L p d = (if p = 0 then if d then [3] else [1, 2] else [])"

definition example_F :: "nat \<Rightarrow> cline list" where
  "example_F k = (if k = 0 then [0] else [])"

lemma example_cache_simps [simp]:
  "ca_entries example_cache = 4" "ca_ctx example_cache = 0" "ca_atomic example_cache = False"
  "total_free (ca_free example_cache) = 1" "fl_count (ca_free example_cache) = 1"
  "line_used example_cache x = False" "evp_lru_can_evict example_cache"
  by (simp_all add: example_cache_def line_used_def are_waiters_def evp_lru_can_evict_def OCF_PENDING_EVICTION_LIMIT_def)

lemma example_coll_buckets:
  "coll_rep (ca_coll example_cache) (\<lambda>h. if 1 \<le> h \<and> h \<le> 3 then [h] else [])"
  by (auto simp: coll_rep_def example_cache_def dlist_def key_hash_def line_key_def ocf_metadata_hash_func_def
      bucket_lines_def inj_on_def split: if_splits)

lemma example_mapped: "mapped_lines (ca_coll example_cache) = {1, 2, 3}"
  unfolding coll_rep_lines [OF example_coll_buckets, symmetric]
  by (auto simp: bucket_lines_def example_cache_def split: if_splits)

lemma eight_sectors [simp]: "{..<8 :: nat} \<noteq> {}"
  by (simp add: lessThan_empty_iff)

lemma example_bits:
  "sec_dirty example_cache x = (if x = 3 then {..<8} else {})"
  "sec_valid example_cache x = (if 1 \<le> x \<and> x \<le> 3 then {..<8} else {})"
proof -
  have "sectors (- 1 :: 8 word) = {..<8}" by (auto simp: sectors_def)
  moreover have "(255 :: 8 word) = - 1" by simp
  ultimately have "sectors (255 :: 8 word) = {..<8}" by metis
  then show "sec_dirty example_cache x = (if x = 3 then {..<8} else {})"
    "sec_valid example_cache x = (if 1 \<le> x \<and> x \<le> 3 then {..<8} else {})"
    by (auto simp: sec_set_def example_cache_def)
qed

lemma example_cache_rep: "cache_rep example_cache example_P example_L example_F"
proof -
  have fl: "free_lines 1 example_F = {0}" by (simp add: free_lines_def example_F_def lessThan_Suc)
  have P: "part_lines example_P = {1, 2, 3}" by (auto simp: part_lines_def example_P_def OCF_IO_CLASS_MAX_def split: if_splits)
  have "cache_core example_cache example_P example_L example_F"
    unfolding cache_core_def example_mapped P example_cache_simps fl
  proof (intro conjI allI impI)
    show "cache_sizes example_cache"
      by (simp add: cache_sizes_def example_cache_def ocf_line_end_sector_def)
    show "status_wf (ca_status example_cache)"
      by (simp add: status_wf_def example_cache_def sec_width_ok_def)
    show "coll_inv (ca_coll example_cache)" by (rule coll_rep_inv [OF example_coll_buckets])
    have "part_rep (ca_parts example_cache) example_P [0]"
      by (auto simp: part_rep_def example_cache_def example_P_def clist_def dlist_def OCF_IO_CLASS_MAX_def split: if_splits)
    then show "\<exists>Q. part_rep (ca_parts example_cache) example_P Q" by blast
    show "fl_rep (ca_free example_cache, ca_links example_cache) example_F"
      by (simp add: fl_rep_def example_cache_def example_F_def dlist_def)
    show "lru_rep (ca_lru example_cache) example_L"
      by (auto simp: lru_rep_def example_cache_def example_L_def pol_ok_def dlist_def split: if_splits)
    show "set (example_L p d) = {x \<in> set (example_P p). (sec_dirty example_cache x \<noteq> {}) = d}" for p d
      by (auto simp: example_L_def example_P_def example_bits split: if_splits)
    show "(coll_core_id (ca_coll example_cache) x < OCF_CORE_MAX) = (x \<in> {1, 2, 3})" if "x < 4" for x
      using that by (auto simp: example_cache_def OCF_CORE_MAX_def)
  qed auto
  then show ?thesis using fl by (simp add: cache_rep_def example_bits)
qed

end
