(* ===== verification/LineStatus.thy ===== *)
theory LineStatus
  imports CacheInv
begin

section \<open>Status changes and the counters of cached and dirty lines\<close>

text \<open>
  Every core counts its cached and its dirty lines, in total and per partition. The counters are
  changed by \<^verbatim>\<open>src/utils/utils_cache_line.c\<close> when the first valid or dirty sector of a line comes
  or the last one goes, and by \<^verbatim>\<open>ocf_part_move\<close>. Here they are compared with the status bits they
  stand for.
\<close>

definition cnt :: "cline set \<Rightarrow> (cline \<Rightarrow> bool) \<Rightarrow> int" where
  "cnt S g = int (card {y \<in> S. g y})"

lemma cnt_cong: "(\<And>y. y \<in> S \<Longrightarrow> g y = h y) \<Longrightarrow> cnt S g = cnt S h"
  by (metis (mono_tags, lifting) Collect_cong cnt_def)

lemma cnt_split:
  assumes "finite S" and "x \<in> S"
  shows "cnt S g = cnt (S - {x}) g + (if g x then 1 else 0)"
proof (cases "g x")
  case True
  then have "{y \<in> S. g y} = insert x {y \<in> S - {x}. g y}" using assms(2) by auto
  then show ?thesis using assms(1) True by (simp add: cnt_def)
next
  case False
  then have "{y \<in> S. g y} = {y \<in> S - {x}. g y}" by auto
  then show ?thesis using False by (simp add: cnt_def)
qed

definition is_valid_of :: "'w::len wcache \<Rightarrow> core_id \<Rightarrow> cline \<Rightarrow> bool" where
  "is_valid_of c k = (\<lambda>x. coll_core_id (ca_coll c) x = k \<and> sec_valid c x \<noteq> {})"

definition is_dirty_of :: "'w::len wcache \<Rightarrow> core_id \<Rightarrow> cline \<Rightarrow> bool" where
  "is_dirty_of c k = (\<lambda>x. coll_core_id (ca_coll c) x = k \<and> sec_dirty c x \<noteq> {})"

definition counts_ok :: "'w::len wcache \<Rightarrow> (part_id \<Rightarrow> cline list) \<Rightarrow> bool" where
  "counts_ok c P \<longleftrightarrow> (\<forall>k < OCF_CORE_MAX.
     ca_cached c k = cnt (part_lines P) (is_valid_of c k) \<and> ca_dirty c k = cnt (part_lines P) (is_dirty_of c k) \<and>
     (\<forall>p < OCF_IO_CLASS_MAX. ca_part_cached c k p = cnt (set (P p)) (is_valid_of c k) \<and>
        ca_part_dirty c k p = cnt (set (P p)) (is_dirty_of c k)))"

lemma inc2_apply [simp]: "inc2 k p d f k' p' = f k' p' + (if k' = k \<and> p' = p then d else 0)"
  by (auto simp: inc2_def)

lemma part_lines_finite [simp]: "finite (part_lines P)"
  by (simp add: part_lines_def)

text \<open>
  One line changes: the counters of its core and of its partition move by the difference, all others
  stay.
\<close>

definition delta :: "bool \<Rightarrow> bool \<Rightarrow> int" where
  "delta was is = (if is then 1 else 0) - (if was then 1 else 0)"

lemma cnt_change:
  assumes "finite S" and "x \<in> S" and "\<And>y. y \<in> S \<Longrightarrow> y \<noteq> x \<Longrightarrow> h y = g y"
  shows "cnt S h = cnt S g + delta (g x) (h x)"
proof -
  have "cnt (S - {x}) h = cnt (S - {x}) g" by (rule cnt_cong) (use assms(3) in auto)
  then show ?thesis using cnt_split [OF assms(1,2), of g] cnt_split [OF assms(1,2), of h] by (simp add: delta_def)
qed

lemma cnt_core:
  assumes "finite S" and "\<And>y. y \<noteq> x \<Longrightarrow> b' y = b y"
  shows "cnt S (\<lambda>y. core y = j \<and> b' y) = cnt S (\<lambda>y. core y = j \<and> b y) + (if x \<in> S \<and> j = core x then delta (b x) (b' x) else 0)"
proof (cases "x \<in> S")
  case True
  then show ?thesis
    using cnt_change [OF assms(1) True, of "\<lambda>y. core y = j \<and> b' y" "\<lambda>y. core y = j \<and> b y"] assms(2) by (auto simp: delta_def)
next
  case False
  have "cnt S (\<lambda>y. core y = j \<and> b' y) = cnt S (\<lambda>y. core y = j \<and> b y)"
    by (rule cnt_cong) (use False assms(2) in metis)
  then show ?thesis using False by simp
qed

lemma counts_ok_change:
  assumes core: "cache_core c P L F" and ok: "counts_ok c P" and p: "p < OCF_IO_CLASS_MAX" and x: "x \<in> set (P p)"
    and id: "coll_core_id (ca_coll c') = coll_core_id (ca_coll c)"
    and bits: "\<And>y. y \<noteq> x \<Longrightarrow> sec_valid c' y = sec_valid c y" "\<And>y. y \<noteq> x \<Longrightarrow> sec_dirty c' y = sec_dirty c y"
  defines "k \<equiv> coll_core_id (ca_coll c) x"
  defines "dv \<equiv> delta (sec_valid c x \<noteq> {}) (sec_valid c' x \<noteq> {})"
  defines "dd \<equiv> delta (sec_dirty c x \<noteq> {}) (sec_dirty c' x \<noteq> {})"
  assumes upd: "ca_cached c' = (ca_cached c)(k := ca_cached c k + dv)" "ca_dirty c' = (ca_dirty c)(k := ca_dirty c k + dd)"
    "ca_part_cached c' = inc2 k p dv (ca_part_cached c)" "ca_part_dirty c' = inc2 k p dd (ca_part_dirty c)"
  shows "counts_ok c' P"
proof -
  obtain Q where Q: "part_rep (ca_parts c) P Q" using cache_coreD(4) [OF core] by blast
  have xP: "x \<in> part_lines P" using lines_sub(1) [OF p] x by blast
  have out: "x \<notin> set (P q)" if "q < OCF_IO_CLASS_MAX" "q \<noteq> p" for q
    using part_rep_disjoint [OF Q that(1) p that(2)] x by auto
  have v: "cnt S (is_valid_of c' j) = cnt S (is_valid_of c j) + (if x \<in> S \<and> j = k then dv else 0)" if "finite S" for S j
    unfolding is_valid_of_def id k_def dv_def by (rule cnt_core [OF that]) (use bits(1) in simp)
  have d: "cnt S (is_dirty_of c' j) = cnt S (is_dirty_of c j) + (if x \<in> S \<and> j = k then dd else 0)" if "finite S" for S j
    unfolding is_dirty_of_def id k_def dd_def by (rule cnt_core [OF that]) (use bits(2) in simp)
  show ?thesis
    using ok xP x out unfolding counts_ok_def upd by (auto simp: v d)
qed

subsection \<open>Setting and clearing bits\<close>

text \<open>Entry \<open>i\<close> of the request stands for line \<open>x\<close>, which holds a line of the request's core.\<close>

definition req_line :: "ocf_request \<Rightarrow> nat \<Rightarrow> 'w::len wcache \<Rightarrow> cline \<Rightarrow> bool" where
  "req_line req i c x \<longleftrightarrow> (\<exists>e. req_entry req i = Some e \<and> mi_coll_idx e = x) \<and>
     rq_core_id req = coll_core_id (ca_coll c) x"

lemma delta_simps [simp]: "delta b b = 0" "delta False True = 1" "delta True False = - 1"
  by (simp_all add: delta_def)

lemma rep_status:
  fixes c c' :: "'w::len wcache"
  assumes rep: "cache_rep c P L F" and p: "p < OCF_IO_CLASS_MAX" and x: "x \<in> set (P p)"
    and core: "cache_core c' P L' F" and n: "fl_count (ca_free c') = fl_count (ca_free c)"
    and bits: "\<And>y. y \<noteq> x \<Longrightarrow> sec_valid c' y = sec_valid c y" "\<And>y. y \<noteq> x \<Longrightarrow> sec_dirty c' y = sec_dirty c y"
  shows "cache_rep c' P L' F"
proof -
  have "x \<in> part_lines P" using lines_sub(1) [OF p] x by blast
  then have "x \<notin> free_lines (fl_count (ca_free c)) F" using cache_coreD(8) [of c P L F] rep by (auto simp: cache_rep_def)
  then have "sec_valid c' y = {} \<and> sec_dirty c' y = {}" if "y \<in> free_lines (fl_count (ca_free c)) F" for y
    using rep bits [of y] that by (cases "y = x") (auto simp: cache_rep_def)
  then show ?thesis using core n by (simp add: cache_rep_def)
qed

lemma set_valid_ok:
  fixes c :: "'w::len wcache"
  assumes rep: "cache_rep c P L F" and p: "p < OCF_IO_CLASS_MAX" and x: "x \<in> set (P p)"
    and req: "req_line req i c x" and range: "start \<le> stop" "stop < LENGTH('w)"
  obtains c' where "set_cache_line_valid c start stop req i = Some c'" and "cache_rep c' P L F" and "counts_ok c P \<Longrightarrow> counts_ok c' P"
    and "sec_set Valid (ca_status c') = (sec_set Valid (ca_status c))(x := sec_valid c x \<union> {start..stop})"
    and "sec_set Dirty (ca_status c') = sec_set Dirty (ca_status c)" and "ca_coll c' = ca_coll c" and "same_env c c'"
proof -
  have core: "cache_core c P L F" using rep by (simp add: cache_rep_def)
  note D = cache_coreD [OF core] and lo = core_line_ok [OF core p x]
  let ?k = "coll_core_id (ca_coll c) x"
  obtain e where e: "req_entry req i = Some e" "mi_coll_idx e = x" "rq_core_id req = ?k" using req by (auto simp: req_line_def)
  obtain sm where sm: "metadata_set_valid_sec_changed (ca_status c) x start stop = Some (sec_valid c x = {}, sm)"
    "sec_set Valid sm = (sec_set Valid (ca_status c))(x := sec_valid c x \<union> {start..stop})"
    "sec_set Dirty sm = sec_set Dirty (ca_status c)" "sm_entries sm = sm_entries (ca_status c)" "status_wf sm"
    using metadata_set_valid_sec_changed_sem [OF lo(7) [OF range]] D(2) by auto
  define c' where "c' = (let c1 = c\<lparr>ca_status := sm\<rparr> in if sec_valid c x = {}
      then c1\<lparr>ca_cached := (ca_cached c1)(?k := ca_cached c1 ?k + 1), ca_part_cached := inc2 ?k p 1 (ca_part_cached c1)\<rparr>
      else c1)"
  have c': "ca_status c' = sm" "ca_coll c' = ca_coll c" "ca_parts c' = ca_parts c" "ca_lru c' = ca_lru c"
    "ca_free c' = ca_free c" "ca_locks c' = ca_locks c" "ca_line c' = ca_line c" "ca_ctx c' = ca_ctx c" "same_env c c'"
    "ca_dirty c' = ca_dirty c" "ca_part_dirty c' = ca_part_dirty c"
    by (simp_all add: c'_def Let_def same_env_def)
  have run: "set_cache_line_valid c start stop req i = Some c'"
    using e lo(2) sm(1) by (simp add: set_cache_line_valid_def c'_def Let_def)
  have core': "cache_core c' P L F" by (rule cache_core_cong [OF core]) (use c' sm in simp_all)
  have ne: "sec_valid c' x \<noteq> {}" using sm(2) c'(1) range(1) by auto
  have "counts_ok c' P" if ok: "counts_ok c P"
  proof (rule counts_ok_change [OF core ok p x])
    show "ca_cached c' = (ca_cached c)(?k := ca_cached c ?k + delta (sec_valid c x \<noteq> {}) (sec_valid c' x \<noteq> {}))"
      "ca_part_cached c' = inc2 ?k p (delta (sec_valid c x \<noteq> {}) (sec_valid c' x \<noteq> {})) (ca_part_cached c)"
      using ne by (auto simp: c'_def Let_def fun_eq_iff)
  qed (use c' sm in \<open>auto simp: fun_eq_iff\<close>)
  moreover have "cache_rep c' P L F" by (rule rep_status [OF rep p x core']) (use c' sm in auto)
  ultimately show thesis using that [OF run] c' sm by simp
qed

definition lru_flip :: "(part_id \<Rightarrow> bool \<Rightarrow> cline list) \<Rightarrow> part_id \<Rightarrow> cline \<Rightarrow> bool \<Rightarrow> part_id \<Rightarrow> bool \<Rightarrow> cline list" where
  "lru_flip L p x d = lru_upd (lru_upd L p (\<not> d) (remove1 x (L p (\<not> d)))) p d (x # L p d)"

lemma core_flip:
  fixes c c' :: "'w::len wcache"
  assumes core: "cache_core c P L F" and p: "p < OCF_IO_CLASS_MAX" and x: "x \<in> set (P p)"
    and was: "(sec_dirty c x \<noteq> {}) = (\<not> d)" and now: "(sec_dirty c' x \<noteq> {}) = d"
    and bits: "\<And>y. y \<noteq> x \<Longrightarrow> sec_dirty c' y = sec_dirty c y"
    and same: "ca_coll c' = ca_coll c" "ca_parts c' = ca_parts c" "ca_free c' = ca_free c" "ca_locks c' = ca_locks c"
      "ca_line c' = ca_line c" "ca_ctx c' = ca_ctx c" "status_wf (ca_status c')" "sm_entries (ca_status c') = sm_entries (ca_status c)"
    and lru: "lru_rep (ca_lru c') (lru_flip L p x d)" "lru_entries (ca_lru c') = lru_entries (ca_lru c)"
  shows "cache_core c' P (lru_flip L p x d) F"
proof -
  note D = cache_coreD [OF core]
  have key: "(sec_dirty c' y \<noteq> {}) = (if y = x then d else sec_dirty c y \<noteq> {})" for y using now bits [of y] by simp
  have r: "set (remove1 x (L p (\<not> d))) = set (L p (\<not> d)) - {x}"
    by (rule set_remove1_eq [OF part_lists_distinct(2) [OF core p]])
  obtain Q where Q: "part_rep (ca_parts c) P Q" using D(4) by blast
  have out: "x \<notin> set (P q)" if "q < OCF_IO_CLASS_MAX" "q \<noteq> p" for q
    using part_rep_disjoint [OF Q that(1) p that(2)] x by auto
  have "set (lru_flip L p x d q e) = {y \<in> set (P q). (sec_dirty c' y \<noteq> {}) = e}" if q: "q < OCF_IO_CLASS_MAX" for q e
  proof (cases "q = p")
    case True
    show ?thesis
    proof (cases "e = d")
      case e: True
      have "set (lru_flip L p x d q e) = insert x (set (L p d))" using True e by (simp add: lru_flip_def)
      also have "\<dots> = {y \<in> set (P p). (sec_dirty c' y \<noteq> {}) = d}"
        using D(10) [OF p, of d] x was unfolding key by auto
      finally show ?thesis using True e by simp
    next
      case False
      then have ed: "e = (\<not> d)" by simp
      have "set (lru_flip L p x d q e) = set (L p (\<not> d)) - {x}" using True ed r by (simp add: lru_flip_def lru_upd_def)
      also have "\<dots> = {y \<in> set (P p). (sec_dirty c' y \<noteq> {}) = (\<not> d)}"
        using D(10) [OF p, of "\<not> d"] unfolding key by auto
      finally show ?thesis using True ed by simp
    qed
  next
    case False
    have "lru_flip L p x d q e = L q e" using False by (simp add: lru_flip_def lru_upd_def)
    then show ?thesis using D(10) [OF q, of e] out [OF q False] unfolding key by auto
  qed
  then show ?thesis using D(1-9,11) same lru unfolding cache_core_def cache_sizes_def by auto
qed

lemma line_in_lru:
  assumes "cache_core c P L F" and "p < OCF_IO_CLASS_MAX" and "x \<in> set (P p)"
  shows "x \<in> set (L p (sec_dirty c x \<noteq> {}))"
  using cache_coreD(10) [OF assms(1,2), of "sec_dirty c x \<noteq> {}"] assms(3) by simp

lemma upd_req_entry_line:
  assumes "\<And>e. mi_coll_idx (f e) = mi_coll_idx e"
  shows "map_option mi_coll_idx (req_entry (upd_req_entry i f req) j) = map_option mi_coll_idx (req_entry req j)"
proof (cases "i = j")
  case True
  then show ?thesis using assms by (auto simp: upd_req_entry_def req_entry_def split: option.splits)
next
  case False
  then show ?thesis by (auto simp: upd_req_entry_def req_entry_def nth_list_update_neq split: option.splits)
qed

lemma req_entry_info [simp]: "req_entry (req\<lparr>rq_info := v\<rparr>) j = req_entry req j"
  by (simp add: req_entry_def)

lemma flush_mark_same:
  "rq_core_id (ocf_metadata_flush_mark c req i st start stop) = rq_core_id req"
  "map_option mi_coll_idx (req_entry (ocf_metadata_flush_mark c req i st start stop) j) = map_option mi_coll_idx (req_entry req j)"
  by (simp_all add: ocf_metadata_flush_mark_def raw_ram_flush_mark_def raw_volatile_flush_mark_def raw_atomic_flush_mark_def
      Let_def upd_req_entry_line split: raw_type.split)
    (simp_all add: upd_req_entry_def)

lemma set_dirty_ok:
  fixes c :: "'w::len wcache"
  assumes rep: "cache_rep c P L F" and p: "p < OCF_IO_CLASS_MAX" and x: "x \<in> set (P p)"
    and req: "req_line req i c x" and range: "start \<le> stop" "stop < LENGTH('w)"
  obtains c' req' where "set_cache_line_dirty c start stop req i = Some (c', req')"
    and "cache_rep c' P (if sec_dirty c x = {} then lru_flip L p x True else L) F" and "counts_ok c P \<Longrightarrow> counts_ok c' P"
    and "sec_set Dirty (ca_status c') = (sec_set Dirty (ca_status c))(x := sec_dirty c x \<union> {start..stop})"
    and "sec_set Valid (ca_status c') = sec_set Valid (ca_status c)" and "ca_coll c' = ca_coll c" and "same_env c c'"
proof -
  have core: "cache_core c P L F" using rep by (simp add: cache_rep_def)
  note D = cache_coreD [OF core] and lo = core_line_ok [OF core p x]
  let ?k = "coll_core_id (ca_coll c) x"
  obtain e where e: "req_entry req i = Some e" "mi_coll_idx e = x" "rq_core_id req = ?k" using req by (auto simp: req_line_def)
  obtain sm where sm: "metadata_set_dirty_sec_changed (ca_status c) x start stop =
      Some (\<not> {start..stop} \<subseteq> sec_dirty c x, sec_dirty c x \<noteq> {}, sm)"
    "sec_set Dirty sm = (sec_set Dirty (ca_status c))(x := sec_dirty c x \<union> {start..stop})"
    "sec_set Valid sm = sec_set Valid (ca_status c)" "sm_entries sm = sm_entries (ca_status c)" "status_wf sm"
    using metadata_set_dirty_sec_changed_sem [OF lo(7) [OF range]] D(2) by auto
  show thesis
  proof (cases "sec_dirty c x = {}")
    case clean: True
    obtain ls where ls: "evp_lru_dirty_cline (ca_lru c) p x = Some ls" "lru_rep ls (lru_flip L p x True)"
      "lru_entries ls = lru_entries (ca_lru c)"
      using lru_move [OF D(6) p, of x True] line_in_lru [OF core p x] clean
      by (auto simp: evp_lru_dirty_cline_def lru_flip_def)
    define c1 where "c1 = c\<lparr>ca_status := sm,
      ca_dirty_since := (if ca_dirty_since c ?k = 0 then (ca_dirty_since c)(?k := ca_tick c) else ca_dirty_since c),
      ca_dirty := (ca_dirty c)(?k := ca_dirty c ?k + 1), ca_part_dirty := inc2 ?k p 1 (ca_part_dirty c), ca_lru := ls\<rparr>"
    define c' where "c' = emit (Hot x) c1"
    have c': "ca_status c' = sm" "ca_coll c' = ca_coll c" "ca_parts c' = ca_parts c" "ca_lru c' = ls"
      "ca_free c' = ca_free c" "ca_locks c' = ca_locks c" "ca_line c' = ca_line c" "ca_ctx c' = ca_ctx c" "same_env c c'"
      "ca_cached c' = ca_cached c" "ca_part_cached c' = ca_part_cached c"
      "ca_dirty c' = (ca_dirty c)(?k := ca_dirty c ?k + 1)" "ca_part_dirty c' = inc2 ?k p 1 (ca_part_dirty c)"
      by (simp_all add: c'_def c1_def emit_def same_env_def)
    have run: "set_cache_line_dirty c start stop req i =
        Some (c', ocf_metadata_flush_mark (c\<lparr>ca_status := sm\<rparr>) req i DIRTY start stop)"
      using e lo(2) sm(1) clean range(1) ls(1)
      by (cases "ca_dirty_since c ?k = 0") (auto simp: set_cache_line_dirty_def c'_def c1_def Let_def)
    have core': "cache_core c' P (lru_flip L p x True) F"
      by (rule core_flip [OF core p x]) (use c' sm ls clean range(1) in auto)
    have "counts_ok c' P" if ok: "counts_ok c P"
      by (rule counts_ok_change [OF core ok p x]) (use c' sm clean range(1) in \<open>auto simp: fun_eq_iff\<close>)
    moreover have "cache_rep c' P (lru_flip L p x True) F" by (rule rep_status [OF rep p x core']) (use c' sm in auto)
    ultimately show thesis using that [OF run] c' sm clean by simp
  next
    case dirty: False
    define c' where "c' = emit (Hot x) (c\<lparr>ca_status := sm\<rparr>)"
    have c': "ca_status c' = sm" "ca_coll c' = ca_coll c" "ca_parts c' = ca_parts c" "ca_lru c' = ca_lru c"
      "ca_free c' = ca_free c" "ca_locks c' = ca_locks c" "ca_line c' = ca_line c" "ca_ctx c' = ca_ctx c" "same_env c c'"
      "ca_cached c' = ca_cached c" "ca_part_cached c' = ca_part_cached c" "ca_dirty c' = ca_dirty c" "ca_part_dirty c' = ca_part_dirty c"
      by (simp_all add: c'_def emit_def same_env_def)
    have run: "set_cache_line_dirty c start stop req i = Some (c', if \<not> {start..stop} \<subseteq> sec_dirty c x
        then ocf_metadata_flush_mark (c\<lparr>ca_status := sm\<rparr>) req i DIRTY start stop else req)"
      using e lo(2) sm(1) dirty by (auto simp: set_cache_line_dirty_def c'_def Let_def)
    have core': "cache_core c' P L F" by (rule cache_core_cong [OF core]) (use c' sm dirty in auto)
    have "counts_ok c' P" if ok: "counts_ok c P"
      by (rule counts_ok_change [OF core ok p x]) (use c' sm dirty in \<open>auto simp: fun_eq_iff\<close>)
    moreover have "cache_rep c' P L F" by (rule rep_status [OF rep p x core']) (use c' sm in auto)
    ultimately show thesis using that [OF run] c' sm dirty by simp
  qed
qed

lemma set_clean_ok:
  fixes c :: "'w::len wcache"
  assumes rep: "cache_rep c P L F" and p: "p < OCF_IO_CLASS_MAX" and x: "x \<in> set (P p)"
    and req: "req_line req i c x" and range: "start \<le> stop" "stop < LENGTH('w)"
  defines "cleaned \<equiv> sec_dirty c x \<noteq> {} \<and> sec_dirty c x \<subseteq> {start..stop}"
  obtains c' req' where "set_cache_line_clean c start stop req i = Some (c', req')"
    and "cache_rep c' P (if cleaned then lru_flip L p x False else L) F" and "counts_ok c P \<Longrightarrow> counts_ok c' P"
    and "sec_set Dirty (ca_status c') = (sec_set Dirty (ca_status c))(x := sec_dirty c x - {start..stop})"
    and "sec_set Valid (ca_status c') = sec_set Valid (ca_status c)" and "ca_coll c' = ca_coll c" and "same_env c c'"
    and "rq_core_id req' = rq_core_id req" and "map_option mi_coll_idx (req_entry req' i) = map_option mi_coll_idx (req_entry req i)"
proof -
  have core: "cache_core c P L F" using rep by (simp add: cache_rep_def)
  note D = cache_coreD [OF core] and lo = core_line_ok [OF core p x]
  let ?k = "coll_core_id (ca_coll c) x"
  obtain e where e: "req_entry req i = Some e" "mi_coll_idx e = x" "rq_core_id req = ?k" using req by (auto simp: req_line_def)
  obtain sm where sm: "metadata_clear_dirty_sec_changed (ca_status c) x start stop =
      Some ({start..stop} \<inter> sec_dirty c x \<noteq> {}, sec_dirty c x \<subseteq> {start..stop}, sm)"
    "sec_set Dirty sm = (sec_set Dirty (ca_status c))(x := sec_dirty c x - {start..stop})"
    "sec_set Valid sm = sec_set Valid (ca_status c)" "sm_entries sm = sm_entries (ca_status c)" "status_wf sm"
    using metadata_clear_dirty_sec_changed_sem [OF lo(7) [OF range]] D(2) by auto
  show thesis
  proof (cases cleaned)
    case True
    obtain ls where ls: "evp_lru_clean_cline (ca_lru c) p x = Some ls" "lru_rep ls (lru_flip L p x False)"
      "lru_entries ls = lru_entries (ca_lru c)"
      using lru_move [OF D(6) p, of x False] line_in_lru [OF core p x] True
      by (auto simp: evp_lru_clean_cline_def lru_flip_def cleaned_def)
    have ch: "{start..stop} \<inter> sec_dirty c x \<noteq> {}" "sec_dirty c x \<subseteq> {start..stop}" "sec_dirty c x - {start..stop} = {}"
      "sec_dirty c x \<noteq> {}" using True by (auto simp: cleaned_def)
    define c1 where "c1 = c\<lparr>ca_status := sm, ca_dirty := (ca_dirty c)(?k := ca_dirty c ?k - 1),
      ca_dirty_since := (if ca_dirty c ?k - 1 = 0 then (ca_dirty_since c)(?k := 0) else ca_dirty_since c),
      ca_part_dirty := inc2 ?k p (- 1) (ca_part_dirty c), ca_lru := ls\<rparr>"
    define c' where "c' = emit (Purge x) c1"
    have c': "ca_status c' = sm" "ca_coll c' = ca_coll c" "ca_parts c' = ca_parts c" "ca_lru c' = ls"
      "ca_free c' = ca_free c" "ca_locks c' = ca_locks c" "ca_line c' = ca_line c" "ca_ctx c' = ca_ctx c" "same_env c c'"
      "ca_cached c' = ca_cached c" "ca_part_cached c' = ca_part_cached c"
      "ca_dirty c' = (ca_dirty c)(?k := ca_dirty c ?k - 1)" "ca_part_dirty c' = inc2 ?k p (- 1) (ca_part_dirty c)"
      by (simp_all add: c'_def c1_def emit_def same_env_def)
    have run: "set_cache_line_clean c start stop req i = Some (c', ocf_metadata_flush_mark (c\<lparr>ca_status := sm\<rparr>) req i CLEAN start stop)"
      using e lo(2) sm(1) ch ls(1)
      by (cases "ca_dirty c ?k - 1 = 0") (auto simp: set_cache_line_clean_def c'_def c1_def Let_def)
    have core': "cache_core c' P (lru_flip L p x False) F"
      by (rule core_flip [OF core p x]) (use c' sm ls ch in auto)
    have "counts_ok c' P" if ok: "counts_ok c P"
      by (rule counts_ok_change [OF core ok p x]) (use c' sm ch in \<open>auto simp: fun_eq_iff\<close>)
    moreover have "cache_rep c' P (lru_flip L p x False) F" by (rule rep_status [OF rep p x core']) (use c' sm in auto)
    ultimately show thesis by (intro that [OF run]) (use c' sm True in \<open>simp_all add: flush_mark_same\<close>)
  next
    case False
    define c' where "c' = c\<lparr>ca_status := sm\<rparr>"
    have c': "ca_status c' = sm" "ca_coll c' = ca_coll c" "ca_parts c' = ca_parts c" "ca_lru c' = ca_lru c"
      "ca_free c' = ca_free c" "ca_locks c' = ca_locks c" "ca_line c' = ca_line c" "ca_ctx c' = ca_ctx c" "same_env c c'"
      "ca_cached c' = ca_cached c" "ca_part_cached c' = ca_part_cached c" "ca_dirty c' = ca_dirty c" "ca_part_dirty c' = ca_part_dirty c"
      by (simp_all add: c'_def same_env_def)
    have nc: "\<not> ({start..stop} \<inter> sec_dirty c x \<noteq> {} \<and> sec_dirty c x \<subseteq> {start..stop})" using False by (auto simp: cleaned_def)
    have run: "set_cache_line_clean c start stop req i = Some (c', if {start..stop} \<inter> sec_dirty c x \<noteq> {}
        then ocf_metadata_flush_mark c' req i CLEAN start stop else req)"
      using e lo(2) sm(1) nc by (auto simp: set_cache_line_clean_def c'_def Let_def)
    have em: "(sec_dirty c x - {start..stop} = {}) = (sec_dirty c x = {})" using False by (auto simp: cleaned_def)
    have core': "cache_core c' P L F" by (rule cache_core_cong [OF core]) (use c' sm em in auto)
    have "counts_ok c' P" if ok: "counts_ok c P"
      by (rule counts_ok_change [OF core ok p x]) (use c' sm em in \<open>auto simp: fun_eq_iff\<close>)
    moreover have "cache_rep c' P L F" by (rule rep_status [OF rep p x core']) (use c' sm in auto)
    ultimately show thesis by (intro that [OF run]) (use c' sm False in \<open>simp_all add: flush_mark_same\<close>)
  qed
qed

subsection \<open>Taking lines out\<close>

text \<open>Mapped lines keep their keys when the table only loses entries.\<close>

lemma key_kept:
  assumes "coll_inv a" and "coll_inv b" and "\<And>k y. coll_map b k = Some y \<Longrightarrow> coll_map a k = Some y" and "y \<in> mapped_lines b"
  shows "coll_core_id b y = coll_core_id a y"
proof -
  have "coll_map b (line_key b y) = Some y" using coll_map_iff [OF assms(2)] assms(4) by simp
  then have "line_key a y = line_key b y" using assms(3) coll_map_iff [OF assms(1)] by blast
  then show ?thesis by (simp add: line_key_def)
qed

lemma counts_ok_drop:
  assumes core: "cache_core c P L F" and ok: "counts_ok c P" and p: "p < OCF_IO_CLASS_MAX" and x: "x \<in> set (P p)"
    and none: "sec_valid c x = {}" "sec_dirty c x = {}"
    and same: "counters c' = counters c" "ca_status c' = ca_status c"
    and id: "\<And>y. y \<in> part_lines P - {x} \<Longrightarrow> coll_core_id (ca_coll c') y = coll_core_id (ca_coll c) y"
  shows "counts_ok c' (P(p := remove1 x (P p)))"
proof -
  note rm = remove_part_lines [OF core p x]
  obtain Q where Q: "part_rep (ca_parts c) P Q" using cache_coreD(4) [OF core] by blast
  have out: "x \<notin> set (P q)" if "q < OCF_IO_CLASS_MAX" "q \<noteq> p" for q
    using part_rep_disjoint [OF Q that(1) p that(2)] x by auto
  have less: "cnt (S - {x}) (is_valid_of c' k) = cnt S (is_valid_of c k)" "cnt (S - {x}) (is_dirty_of c' k) = cnt S (is_dirty_of c k)"
    if "S \<subseteq> part_lines P" for S k
  proof -
    have "{y \<in> S - {x}. is_valid_of c' k y} = {y \<in> S. is_valid_of c k y}"
      "{y \<in> S - {x}. is_dirty_of c' k y} = {y \<in> S. is_dirty_of c k y}"
      using id that none same(2) by (auto simp: is_valid_of_def is_dirty_of_def)
    then show "cnt (S - {x}) (is_valid_of c' k) = cnt S (is_valid_of c k)" "cnt (S - {x}) (is_dirty_of c' k) = cnt S (is_dirty_of c k)"
      by (simp_all add: cnt_def)
  qed
  have sets: "set ((P(p := remove1 x (P p))) q) = set (P q) - {x}" if "q < OCF_IO_CLASS_MAX" for q
    using rm(2) out [OF that] by (cases "q = p") auto
  show ?thesis
    unfolding counts_ok_def rm(1)
    using ok same(1) less [OF subset_refl] less [OF lines_sub(1)] sets by (simp add: counts_ok_def counters_def)
qed

text \<open>
  A line that loses its last valid sector while nobody waits for it leaves the cache, provided that it
  is not dirty any more.
\<close>

definition line_gone :: "'w::len wcache \<Rightarrow> cline \<Rightarrow> nat \<Rightarrow> nat \<Rightarrow> bool" where
  "line_gone c x start stop = (sec_valid c x \<subseteq> {start..stop} \<and> \<not> are_waiters (ca_locks c) x)"

lemma invalid_gen_ok:
  fixes c :: "'w::len wcache"
  assumes rep: "cache_rep c P L F" and ok: "counts_ok c P" and p: "p < OCF_IO_CLASS_MAX" and x: "x \<in> set (P p)"
    and range: "start \<le> stop" "stop < LENGTH('w)"
    and clean: "sec_valid c x \<subseteq> {start..stop} \<Longrightarrow> sec_dirty c x = {}"
  defines "P' \<equiv> if line_gone c x start stop then P(p := remove1 x (P p)) else P"
  defines "L' \<equiv> if line_gone c x start stop then lru_upd L p False (remove1 x (L p False)) else L"
  defines "F' \<equiv> if line_gone c x start stop then F(ca_ctx c := F (ca_ctx c) @ [x]) else F"
  obtains c' where "set_cache_line_invalid_gen c start stop x (coll_core_id (ca_coll c) x) p = Some c'"
    and "cache_rep c' P' L' F'" and "counts_ok c' P'"
    and "coll_map (ca_coll c') = (if line_gone c x start stop then (coll_map (ca_coll c))(line_key (ca_coll c) x := None)
           else coll_map (ca_coll c))"
    and "sec_set Valid (ca_status c') = (sec_set Valid (ca_status c))(x := sec_valid c x - {start..stop})"
    and "sec_set Dirty (ca_status c') = sec_set Dirty (ca_status c)" and "same_env c c'"
proof -
  have core: "cache_core c P L F" using rep by (simp add: cache_rep_def)
  note D = cache_coreD [OF core] and lo = core_line_ok [OF core p x]
  let ?k = "coll_core_id (ca_coll c) x" and ?V = "sec_valid c x - {start..stop}"
  have g: "line_gone c x start stop \<longleftrightarrow> ?V = {} \<and> \<not> are_waiters (ca_locks c) x" by (auto simp: line_gone_def)
  obtain c' where c': "set_cache_line_invalid_gen c start stop x ?k p = Some c'"
    "if line_gone c x start stop then cache_core c' (P(p := remove1 x (P p))) (lru_upd L p (sec_dirty c x \<noteq> {}) (remove1 x (L p (sec_dirty c x \<noteq> {}))))
                        (F(ca_ctx c := F (ca_ctx c) @ [x]))
         else cache_core c' P L F"
    "coll_map (ca_coll c') = (if line_gone c x start stop then (coll_map (ca_coll c))(line_key (ca_coll c) x := None) else coll_map (ca_coll c))"
    "sec_set Valid (ca_status c') = (sec_set Valid (ca_status c))(x := ?V)"
    "sec_set Dirty (ca_status c') = sec_set Dirty (ca_status c)"
    "counters c' = counters (if sec_valid c x \<noteq> {} \<and> ?V = {} then dec_cached ?k p c else c)" "same_env c c'"
    by (rule set_invalid_gen [OF core p x range lo(5), folded g]) (rule that, assumption+)
  obtain P1 L1 F1 where core': "cache_core c' P1 L1 F1" using c'(2) by (cases "line_gone c x start stop") auto
  have sm: "status_wf (ca_status c')" "sm_entries (ca_status c') = sm_entries (ca_status c)"
    using cache_coreD(1,2) [OF core'] D(1) c'(7) by (auto simp: cache_sizes_def same_env_def)
  define c1 where "c1 = (if sec_valid c x \<noteq> {} \<and> ?V = {} then dec_cached ?k p c else c)\<lparr>ca_status := ca_status c'\<rparr>"
  have c1: "ca_status c1 = ca_status c'" "ca_coll c1 = ca_coll c" "ca_parts c1 = ca_parts c" "ca_lru c1 = ca_lru c"
    "ca_free c1 = ca_free c" "ca_locks c1 = ca_locks c" "ca_line c1 = ca_line c" "ca_ctx c1 = ca_ctx c"
    "ca_dirty c1 = ca_dirty c" "ca_part_dirty c1 = ca_part_dirty c" "counters c' = counters c1"
    using c'(6) by (simp_all add: c1_def dec_cached_def counters_def)
  have core1: "cache_core c1 P L F" by (rule cache_core_cong [OF core]) (use c1 sm c'(5) in simp_all)
  have "sec_valid c1 x = ?V" using c1(1) c'(4) by simp
  then have dv: "delta (sec_valid c x \<noteq> {}) (sec_valid c1 x \<noteq> {}) = (if sec_valid c x \<noteq> {} \<and> ?V = {} then - 1 else 0)"
    by (auto simp: delta_def)
  have ok1: "counts_ok c1 P"
  proof (rule counts_ok_change [OF core ok p x], unfold dv)
    show "ca_cached c1 = (ca_cached c)(?k := ca_cached c ?k + (if sec_valid c x \<noteq> {} \<and> ?V = {} then - 1 else 0))"
      "ca_part_cached c1 = inc2 ?k p (if sec_valid c x \<noteq> {} \<and> ?V = {} then - 1 else 0) (ca_part_cached c)"
      by (auto simp: c1_def dec_cached_def fun_eq_iff)
  qed (use c1 c'(4,5) in \<open>auto simp: fun_eq_iff\<close>)
  show thesis
  proof (cases "line_gone c x start stop")
    case True
    then have V: "?V = {}" and d: "sec_dirty c x = {}" using clean by (auto simp: line_gone_def)
    have core2: "cache_core c' (P(p := remove1 x (P p))) (lru_upd L p False (remove1 x (L p False))) (F(ca_ctx c := F (ca_ctx c) @ [x]))"
      using c'(2) True d by simp
    have k: "ca_ctx c < fl_count (ca_free c)" "fl_count (ca_free c') = fl_count (ca_free c)"
      using D(1) c'(7) by (auto simp: cache_sizes_def same_env_def)
    have rep2: "cache_rep c' P' L' F'"
      using core2 rep put_free_lines [OF k(1), of F x] k(2) c'(4,5) V d True unfolding P'_def L'_def F'_def cache_rep_def by auto
    have "counts_ok c' (P(p := remove1 x (P p)))"
    proof (rule counts_ok_drop [OF core1 ok1 p x])
      show "coll_core_id (ca_coll c') y = coll_core_id (ca_coll c1) y" if "y \<in> part_lines P - {x}" for y
        unfolding c1(2)
      proof (rule key_kept [OF D(3) cache_coreD(3) [OF core2]])
        show "coll_map (ca_coll c) k = Some z" if "coll_map (ca_coll c') k = Some z" for k z
          using that c'(3) True by (auto split: if_splits)
        show "y \<in> mapped_lines (ca_coll c')"
          using that cache_coreD(7) [OF core2] remove_part_lines(1) [OF core p x] by simp
      qed
    qed (use c1 c'(4,5) V d in simp_all)
    then have "counts_ok c' P'" using True by (simp add: P'_def)
    then show thesis by (intro that [OF c'(1) rep2]) (use c' True in simp_all)
  next
    case False
    have core2: "cache_core c' P L F" using c'(2) False by simp
    have "cache_rep c' P L F" by (rule rep_status [OF rep p x core2]) (use c'(4,5,7) in \<open>auto simp: same_env_def\<close>)
    moreover have "counts_ok c' P"
    proof -
      have id: "coll_core_id (ca_coll c') y = coll_core_id (ca_coll c) y" if "y \<in> part_lines P" for y
        by (rule key_kept [OF D(3) cache_coreD(3) [OF core2]]) (use c'(3) False that cache_coreD(7) [OF core2] in auto)
      have "cnt S (is_valid_of c' k) = cnt S (is_valid_of c1 k)" "cnt S (is_dirty_of c' k) = cnt S (is_dirty_of c1 k)"
        if "S \<subseteq> part_lines P" for S k
        using that id c1(1,2) by (auto intro!: cnt_cong simp: is_valid_of_def is_dirty_of_def)
      then show ?thesis using ok1 c1(11) lines_sub(1) [of _ P] by (simp add: counts_ok_def counters_def)
    qed
    ultimately show thesis by (intro that [OF c'(1)]) (use c' False in \<open>simp_all add: P'_def L'_def F'_def\<close>)
  qed
qed

lemma purge_ok:
  fixes c :: "'w::len wcache"
  assumes rep: "cache_rep c P L F" and ok: "counts_ok c P" and p: "p < OCF_IO_CLASS_MAX" and x: "x \<in> set (P p)"
    and req: "req_line req i c x" and range: "start \<le> stop" "stop < LENGTH('w)"
    and dv: "sec_dirty c x \<subseteq> sec_valid c x"
  shows "\<exists>c' req' L' F'. ocf_purge_cache_line_sec c start stop req i = Some (c', req') \<and>
    cache_rep c' (if line_gone c x start stop then P(p := remove1 x (P p)) else P) L' F' \<and>
    counts_ok c' (if line_gone c x start stop then P(p := remove1 x (P p)) else P) \<and>
    coll_map (ca_coll c') = (if line_gone c x start stop then (coll_map (ca_coll c))(line_key (ca_coll c) x := None)
      else coll_map (ca_coll c)) \<and>
    sec_set Valid (ca_status c') = (sec_set Valid (ca_status c))(x := sec_valid c x - {start..stop}) \<and>
    sec_set Dirty (ca_status c') = (sec_set Dirty (ca_status c))(x := sec_dirty c x - {start..stop})"
proof -
  obtain c1 req1 L1 where c1: "set_cache_line_clean c start stop req i = Some (c1, req1)" "cache_rep c1 P L1 F" "counts_ok c1 P"
    "sec_set Dirty (ca_status c1) = (sec_set Dirty (ca_status c))(x := sec_dirty c x - {start..stop})"
    "sec_set Valid (ca_status c1) = sec_set Valid (ca_status c)" "ca_coll c1 = ca_coll c" "same_env c c1"
    "rq_core_id req1 = rq_core_id req" "map_option mi_coll_idx (req_entry req1 i) = map_option mi_coll_idx (req_entry req i)"
    by (rule set_clean_ok [OF rep p x req range]) (use ok in blast)
  have core1: "cache_core c1 P L1 F" using c1(2) by (simp add: cache_rep_def)
  have g: "line_gone c1 x start stop = line_gone c x start stop" using c1(5,7) by (simp add: line_gone_def same_env_def)
  obtain e1 where e1: "req_entry req1 i = Some e1" "mi_coll_idx e1 = x" "rq_core_id req1 = coll_core_id (ca_coll c1) x"
    using req c1(6,8,9) by (auto simp: req_line_def)
  have cl: "sec_valid c1 x \<subseteq> {start..stop} \<Longrightarrow> sec_dirty c1 x = {}" using dv c1(4,5) by auto
  obtain c2 L2 F2 where c2: "set_cache_line_invalid_gen c1 start stop x (coll_core_id (ca_coll c1) x) p = Some c2"
    "cache_rep c2 (if line_gone c1 x start stop then P(p := remove1 x (P p)) else P) L2 F2"
    "counts_ok c2 (if line_gone c1 x start stop then P(p := remove1 x (P p)) else P)"
    "coll_map (ca_coll c2) = (if line_gone c1 x start stop then (coll_map (ca_coll c1))(line_key (ca_coll c1) x := None)
           else coll_map (ca_coll c1))"
    "sec_set Valid (ca_status c2) = (sec_set Valid (ca_status c1))(x := sec_valid c1 x - {start..stop})"
    "sec_set Dirty (ca_status c2) = sec_set Dirty (ca_status c1)"
    by (rule invalid_gen_ok [OF c1(2,3) p x range cl])
  have "ocf_purge_cache_line_sec c start stop req i = Some (c2, ocf_metadata_flush_mark c2 req1 i INVALID start stop)"
    using c1(1) e1 core_line_ok(2) [OF core1 p x] c2(1) by (simp add: ocf_purge_cache_line_sec_def set_cache_line_invalid_def)
  then show ?thesis
    by (intro exI [of _ c2] exI [of _ "ocf_metadata_flush_mark c2 req1 i INVALID start stop"] exI [of _ L2] exI [of _ F2])
      (use c2 c1 g in simp)
qed

subsection \<open>Moving a line to another partition\<close>

lemma part_move_rep:
  fixes c :: "'w::len wcache"
  assumes rep: "cache_rep c P L F" and p: "p < OCF_IO_CLASS_MAX" "q < OCF_IO_CLASS_MAX" "q \<noteq> p" and x: "x \<in> set (P p)"
    and e: "req_entry req i = Some e" "mi_coll_idx e = x" "mi_status e = LOOKUP_HIT" "mi_re_part e" "rq_part_id req = q"
  defines "d \<equiv> sec_dirty c x \<noteq> {}"
  defines "k \<equiv> rq_core_id req"
  defines "P' \<equiv> P(p := remove1 x (P p), q := x # P q)"
  shows "\<exists>c'. part_move_entry req i c = Some c' \<and>
    cache_rep c' P' (lru_upd (lru_upd L p d (remove1 x (L p d))) q d (x # L q d)) F \<and> ca_status c' = ca_status c \<and> ca_coll c' = ca_coll c \<and>
    ca_cached c' = ca_cached c \<and> ca_dirty c' = ca_dirty c \<and>
    ca_part_cached c' = inc2 k p (- 1) (inc2 k q 1 (ca_part_cached c)) \<and>
    ca_part_dirty c' = (if d then inc2 k p (- 1) (inc2 k q 1 (ca_part_dirty c)) else ca_part_dirty c) \<and>
    ca_locks c' = ca_locks c \<and> ca_line c' = ca_line c \<and> part_lines P' = part_lines P"
proof -
  have core: "cache_core c P L F" using rep by (simp add: cache_rep_def)
  note D = cache_coreD [OF core] and lo = core_line_ok [OF core p(1) x]
  have sz: "lru_entries (ca_lru c) = ca_entries c" "pl_entries (ca_links c) = ca_entries c" "sm_entries (ca_status c) = ca_entries c"
    using D(1) by (auto simp: cache_sizes_def)
  obtain Q where Q: "part_rep (ca_parts c) P Q" using D(4) by blast
  note rm = remove_part_lines [OF core p(1) x]
  have dirty: "metadata_test_dirty (ca_status c) x = Some d"
    using metadata_test_any_sem(1) [OF D(2)] lo(1) sz(3) by (simp add: d_def)
  obtain l1 where l1: "remove_lru_list (ca_lru c) p x d = Some l1" "lru_rep l1 (lru_upd L p d (remove1 x (L p d)))"
    "lru_entries l1 = ca_entries c"
    by (rule remove_lru_list_rep [OF D(6) p(1)]) (use line_in_lru [OF core p(1) x] sz(1) in \<open>auto simp: d_def\<close>)
  let ?L1 = "lru_upd L p d (remove1 x (L p d))"
  have r: "set (remove1 x (L p d)) = set (L p d) - {x}" by (rule set_remove1_eq [OF part_lists_distinct(2) [OF core p(1)]])
  obtain ps1 Q1 where ps1: "ocf_metadata_remove_from_partition (ca_parts c) p x = Some ps1"
    "part_rep ps1 (P(p := remove1 x (P p))) Q1" "pl_unlinked (ca_links c) x (ps_links ps1)"
    by (rule remove_from_partition_rep [OF Q p(1) x])
  have x1: "x < pl_entries (ps_links ps1)" "x \<notin> set ((P(p := remove1 x (P p))) s)" if "s < OCF_IO_CLASS_MAX" for s
    using ps1(3) lo(1) sz(2) rm(1) lines_sub(1) [OF that, of "P(p := remove1 x (P p))"] by (auto simp: pl_unlinked_def)
  have Pq: "(P(p := remove1 x (P p))) q = P q" using p(3) by simp
  obtain ps2 Q2 where ps2: "ocf_metadata_add_to_partition ps1 q x = Some ps2" "part_rep ps2 P' Q2"
    "pl_linked_front (ps_links ps1) x (P q) (ps_links ps2)"
    by (rule add_to_partition_rep [OF ps1(2) p(2) x1(1) [OF p(2)] x1(2), unfolded Pq, folded P'_def], assumption)
      (rule that, assumption+)
  have pn: "pl_entries (ps_links ps2) = ca_entries c" using ps1(3) ps2(3) sz(2) by (simp add: pl_unlinked_def pl_linked_front_def)
  have fl: "fl_rep (ca_free c, ps_links ps2) F"
  proof (rule fl_rep_links [OF D(5)])
    fix j assume j: "j < fl_count (ca_free c)"
    have "pl_list (ps_links ps1) (F j)"
      using pl_unlinked_lists(2) [OF ps1(3) part_repD(1) [OF Q p(1)] x] core_free_disjoint [OF core p(1) j]
        fl_repD(1) [OF D(5), of j] j by (auto simp: Int_commute)
    moreover have "set (F j) \<inter> insert x (set (P q)) = {}"
      using core_free_disjoint [OF core p(1) j] core_free_disjoint [OF core p(2) j] x by auto
    ultimately show "pl_list (ps_links ps2) (F j)"
      using pl_linked_front_lists(2) [OF ps2(3)] part_repD(1) [OF ps1(2) p(2)] x1 [OF p(2)] p(3) by auto
  qed (use pn sz(2) in simp)
  define c1 where "c1 = (if d then emit (Purge x) (c\<lparr>ca_lru := l1\<rparr>) else c\<lparr>ca_lru := l1\<rparr>)\<lparr>ca_parts := ps2\<rparr>"
  have c1: "ca_lru c1 = l1" "ca_parts c1 = ps2" "ca_status c1 = ca_status c" "ca_coll c1 = ca_coll c" "ca_free c1 = ca_free c"
    "ca_locks c1 = ca_locks c" "ca_line c1 = ca_line c" "ca_ctx c1 = ca_ctx c" "counters c1 = counters c"
    by (simp_all add: c1_def emit_def counters_def)
  have pid: "ocf_metadata_get_partition_id (ca_links c1) x = Some q"
    using part_repD(4) [OF ps2(2) p(2), of x] pn lo(1) c1(2) by (simp add: part_access_defs P'_def)
  have xL: "x \<notin> set (?L1 s f)" if "s < OCF_IO_CLASS_MAX" for s f
    using D(10) [OF that, of f] D(10) [OF p(1), of d] r part_rep_disjoint [OF Q that p(1)] x d_def
    by (cases "s = p"; cases "f = d") (auto simp: lru_upd_def)
  obtain l2 where l2: "(ocf_eviction_init_cache_line c1 x \<bind> (\<lambda>c. ocf_eviction_set_hot_cache_line c x)) = Some (c1\<lparr>ca_lru := l2\<rparr>)"
    "lru_rep l2 (lru_upd ?L1 q d (x # ?L1 q d))" "lru_entries l2 = ca_entries c"
    using init_hot_rep [of c1 ?L1 q x, OF _ p(2) _ xL pid] c1 l1(2,3) lo(1) D(2) sz(3) by (auto simp: d_def)
  let ?L2 = "lru_upd ?L1 q d (x # ?L1 q d)"
  define c2 where "c2 = c1\<lparr>ca_lru := l2\<rparr>"
  define c' where "c' = (if d then emit (Hot x) (c2\<lparr>ca_part_dirty := inc2 k p (- 1) (inc2 k q 1 (ca_part_dirty c2))\<rparr>) else c2)
      \<lparr>ca_part_cached := inc2 k p (- 1) (inc2 k q 1 (ca_part_cached c2))\<rparr>"
  have c2: "ca_lru c2 = l2" "ca_parts c2 = ps2" "ca_status c2 = ca_status c" "ca_coll c2 = ca_coll c" "ca_free c2 = ca_free c"
    "ca_locks c2 = ca_locks c" "ca_line c2 = ca_line c" "ca_ctx c2 = ca_ctx c" "counters c2 = counters c"
    using c1 by (simp_all add: c2_def counters_def)
  have run: "part_move_entry req i c = Some c'"
    using e lo(2) p dirty l1(1) ps1(1) ps2(1) l2(1) c2(3)
    by (cases d) (auto simp: part_move_entry_def ocf_eviction_purge_cache_line_def evp_lru_rm_cline_def c1_def c2_def c'_def
        Let_def emit_def k_def bind_eq_Some_conv)
  have lines: "part_lines P' = part_lines P"
    using part_lines_front [OF p(2), of "P(p := remove1 x (P p))" x] rm(1) lines_sub(1) [OF p(1), of P] x p(3)
    by (auto simp: P'_def)
  have core2: "cache_core c2 P' ?L2 F"
    unfolding cache_core_def
  proof (intro conjI allI impI)
    show "cache_sizes c2" using D(1) c2 pn l2(3) by (simp add: cache_sizes_def)
    show "\<exists>Q. part_rep (ca_parts c2) P' Q" using ps2(2) c2(2) by auto
    from lines show "mapped_lines (ca_coll c2) = part_lines P'" "part_lines P' \<inter> free_lines (fl_count (ca_free c2)) F = {}"
      "part_lines P' \<union> free_lines (fl_count (ca_free c2)) F = {..<ca_entries c2}"
      using D(7,8,9) c2 by simp_all
    show "set (?L2 s f) = {y \<in> set (P' s). (sec_dirty c2 y \<noteq> {}) = f}" if s: "s < OCF_IO_CLASS_MAX" for s f
      using D(10) [OF s, of f] D(10) [OF p(1), of d] r rm(2) p(3) c2(3) d_def
      by (cases "s = p"; cases "f = d"; cases "s = q") (auto simp: lru_upd_def P'_def)
  qed (use D c2 fl l2(2) in auto)
  have c': "ca_status c' = ca_status c2" "ca_coll c' = ca_coll c2" "ca_parts c' = ca_parts c2" "ca_lru c' = ca_lru c2"
    "ca_free c' = ca_free c2" "ca_locks c' = ca_locks c2" "ca_line c' = ca_line c2" "ca_ctx c' = ca_ctx c2"
    "ca_cached c' = ca_cached c2" "ca_dirty c' = ca_dirty c2"
    "ca_part_cached c' = inc2 k p (- 1) (inc2 k q 1 (ca_part_cached c2))"
    "ca_part_dirty c' = (if d then inc2 k p (- 1) (inc2 k q 1 (ca_part_dirty c2)) else ca_part_dirty c2)"
    by (simp_all add: c'_def emit_def)
  have "cache_core c' P' ?L2 F" by (rule cache_core_cong [OF core2]) (use c' D(2) c2(3) in simp_all)
  then have "cache_rep c' P' ?L2 F" using rep c' c2(3,5) by (simp add: cache_rep_def)
  then show ?thesis using run c' c2(3,4,6,7,9) lines p(3) by (intro exI [of _ c']) (simp add: counters_def lru_upd_def)
qed

lemma part_move_counts_iff:
  fixes c :: "'w::len wcache"
  assumes core: "cache_core c P L F" and ok: "counts_ok c P" and p: "p < OCF_IO_CLASS_MAX" "q < OCF_IO_CLASS_MAX" "q \<noteq> p"
    and x: "x \<in> set (P p)" and k: "k = coll_core_id (ca_coll c) x"
    and c': "ca_status c' = ca_status c" "ca_coll c' = ca_coll c" "ca_cached c' = ca_cached c" "ca_dirty c' = ca_dirty c"
      "ca_part_cached c' = inc2 k p (- 1) (inc2 k q 1 (ca_part_cached c))"
      "ca_part_dirty c' = (if sec_dirty c x \<noteq> {} then inc2 k p (- 1) (inc2 k q 1 (ca_part_dirty c)) else ca_part_dirty c)"
  shows "counts_ok c' (P(p := remove1 x (P p), q := x # P q)) \<longleftrightarrow> sec_valid c x \<noteq> {}"
proof -
  let ?P = "P(p := remove1 x (P p), q := x # P q)"
  note rm = remove_part_lines [OF core p(1) x]
  have lines: "part_lines ?P = part_lines P"
    using part_lines_front [OF p(2), of "P(p := remove1 x (P p))" x] rm(1) lines_sub(1) [OF p(1), of P] x p(3) by auto
  have same: "is_valid_of c' = is_valid_of c" "is_dirty_of c' = is_dirty_of c"
    using c'(1,2) by (simp_all add: is_valid_of_def is_dirty_of_def fun_eq_iff)
  obtain Q where Q: "part_rep (ca_parts c) P Q" using cache_coreD(4) [OF core] by blast
  have xq: "x \<notin> set (P q)" using part_rep_disjoint [OF Q p(2) p(1) p(3)] x by auto
  have sets: "set (?P p) = set (P p) - {x}" "set (?P q) = insert x (set (P q))" "\<And>s. s \<noteq> p \<Longrightarrow> s \<noteq> q \<Longrightarrow> set (?P s) = set (P s)"
    using rm(2) p(3) by auto
  have cp: "cnt (set (P p) - {x}) g = cnt (set (P p)) g - (if g x then 1 else 0)" for g
    using cnt_split [of "set (P p)" x g] x by simp
  have cq: "cnt (insert x (set (P q))) g = cnt (set (P q)) g + (if g x then 1 else 0)" for g
    using cnt_split [of "insert x (set (P q))" x g] xq by simp
  have vx: "is_valid_of c j x = (j = k \<and> sec_valid c x \<noteq> {})" "is_dirty_of c j x = (j = k \<and> sec_dirty c x \<noteq> {})" for j
    using k by (auto simp: is_valid_of_def is_dirty_of_def)
  have kmax: "k < OCF_CORE_MAX" using core_line_ok(5) [OF core p(1) x] k by simp
  have old: "ca_part_cached c j s = cnt (set (P s)) (is_valid_of c j)" "ca_part_dirty c j s = cnt (set (P s)) (is_dirty_of c j)"
    "ca_cached c j = cnt (part_lines P) (is_valid_of c j)" "ca_dirty c j = cnt (part_lines P) (is_dirty_of c j)"
    if "j < OCF_CORE_MAX" "s < OCF_IO_CLASS_MAX" for j s using ok that by (auto simp: counts_ok_def)
  show ?thesis
  proof
    assume "counts_ok c' ?P"
    then have "ca_part_cached c' k p = cnt (set (?P p)) (is_valid_of c k)"
      using kmax p(1) same by (simp add: counts_ok_def)
    then show "sec_valid c x \<noteq> {}" using old(1) [OF kmax p(1)] c'(5) p(3) unfolding sets(1) cp vx by (auto split: if_splits)
  next
    assume v: "sec_valid c x \<noteq> {}"
    have "ca_part_cached c' j s = cnt (set (?P s)) (is_valid_of c j) \<and> ca_part_dirty c' j s = cnt (set (?P s)) (is_dirty_of c j)"
      if js: "j < OCF_CORE_MAX" "s < OCF_IO_CLASS_MAX" for j s
    proof (cases "s = p")
      case True
      then show ?thesis using old(1,2) [OF js] c'(5,6) v p(3) unfolding True sets(1) cp vx by (auto split: if_splits)
    next
      case sp: False
      show ?thesis
      proof (cases "s = q")
        case True
        then show ?thesis using old(1,2) [OF js] c'(5,6) v p(3) unfolding True sets(2) cq vx by (auto split: if_splits)
      next
        case False
        then show ?thesis using old(1,2) [OF js] c'(5,6) sp unfolding sets(3) [OF sp False] by auto
      qed
    qed
    then show "counts_ok c' ?P" using old(3,4) c'(3,4) p(1) unfolding counts_ok_def lines same by auto
  qed
qed

subsection \<open>Properties\<close>

lemma example_counts: "counts_ok example_cache example_P"
proof -
  have P: "part_lines example_P = {1, 2, 3}" by (auto simp: part_lines_def example_P_def OCF_IO_CLASS_MAX_def split: if_splits)
  have id: "coll_core_id (ca_coll example_cache) x = (if 1 \<le> x \<and> x \<le> 3 then 0 else 4096)" for x by (simp add: example_cache_def)
  have cv: "cnt {1, 2, 3} (is_valid_of example_cache k) = (if k = 0 then 3 else 0)" for k
  proof -
    have "{y \<in> {1, 2, 3}. is_valid_of example_cache k y} = (if k = 0 then {1, 2, 3} else {})"
      by (auto simp: is_valid_of_def id example_bits)
    then show ?thesis by (simp add: cnt_def)
  qed
  have cd: "cnt {1, 2, 3} (is_dirty_of example_cache k) = (if k = 0 then 1 else 0)" for k
  proof -
    have "{y \<in> {1, 2, 3}. is_dirty_of example_cache k y} = (if k = 0 then {3} else {})"
      by (auto simp: is_dirty_of_def id example_bits)
    then show ?thesis by (simp add: cnt_def)
  qed
  have "set (example_P p) = (if p = 0 then {1, 2, 3} else {})" "cnt {} g = 0" for p g by (auto simp: example_P_def cnt_def)
  then show ?thesis unfolding counts_ok_def P using cv cd by (simp add: example_cache_def)
qed

definition example_req :: ocf_request where
  "example_req = request_zero\<lparr>rq_part_id := 1, rq_core_line_count := 1, rq_byte_length := 4096,
     rq_map := Some [map_info_zero\<lparr>mi_coll_idx := 2, mi_status := LOOKUP_HIT, mi_re_part := True\<rparr>]\<rparr>"

lemma example_req_line: "req_line example_req 0 example_cache 2"
  by (simp add: req_line_def example_req_def req_entry_def example_cache_def request_zero_def)

text \<open>
  C14. Marking sectors of a mapped line valid, dirty or clean trips no assertion and keeps the
  invariant of the lines; exactly the sectors of the range change; and the counters of cached and dirty lines
  of every core, in total and per partition, still equal the number of lines with valid and with
  dirty sectors. A line moves between the clean and the dirty LRU list exactly when its first
  dirty sector comes or its last one goes.
\<close>

theorem status_updates_exact:
  fixes c :: "'w::len wcache"
  assumes "cache_rep c P L F" and "counts_ok c P" and "p < OCF_IO_CLASS_MAX" and "x \<in> set (P p)"
    and "req_line req i c x" and "start \<le> stop" and "stop < LENGTH('w)"
  shows "(\<exists>c'. set_cache_line_valid c start stop req i = Some c' \<and> cache_rep c' P L F \<and> counts_ok c' P \<and>
      sec_set Valid (ca_status c') = (sec_set Valid (ca_status c))(x := sec_valid c x \<union> {start..stop}) \<and>
      sec_set Dirty (ca_status c') = sec_set Dirty (ca_status c)) \<and>
    (\<exists>c' req'. set_cache_line_dirty c start stop req i = Some (c', req') \<and>
      cache_rep c' P (if sec_dirty c x = {} then lru_flip L p x True else L) F \<and> counts_ok c' P \<and>
      sec_set Dirty (ca_status c') = (sec_set Dirty (ca_status c))(x := sec_dirty c x \<union> {start..stop}) \<and>
      sec_set Valid (ca_status c') = sec_set Valid (ca_status c)) \<and>
    (\<exists>c' req'. set_cache_line_clean c start stop req i = Some (c', req') \<and>
      cache_rep c' P (if sec_dirty c x \<noteq> {} \<and> sec_dirty c x \<subseteq> {start..stop} then lru_flip L p x False else L) F \<and> counts_ok c' P \<and>
      sec_set Dirty (ca_status c') = (sec_set Dirty (ca_status c))(x := sec_dirty c x - {start..stop}) \<and>
      sec_set Valid (ca_status c') = sec_set Valid (ca_status c))"
proof (intro conjI)
  show "\<exists>c'. set_cache_line_valid c start stop req i = Some c' \<and> cache_rep c' P L F \<and> counts_ok c' P \<and>
      sec_set Valid (ca_status c') = (sec_set Valid (ca_status c))(x := sec_valid c x \<union> {start..stop}) \<and>
      sec_set Dirty (ca_status c') = sec_set Dirty (ca_status c)"
    by (rule set_valid_ok [OF assms(1,3-7)]) (use assms(2) in blast)
  show "\<exists>c' req'. set_cache_line_dirty c start stop req i = Some (c', req') \<and>
      cache_rep c' P (if sec_dirty c x = {} then lru_flip L p x True else L) F \<and> counts_ok c' P \<and>
      sec_set Dirty (ca_status c') = (sec_set Dirty (ca_status c))(x := sec_dirty c x \<union> {start..stop}) \<and>
      sec_set Valid (ca_status c') = sec_set Valid (ca_status c)"
    by (rule set_dirty_ok [OF assms(1,3-7)]) (use assms(2) in blast)
  show "\<exists>c' req'. set_cache_line_clean c start stop req i = Some (c', req') \<and>
      cache_rep c' P (if sec_dirty c x \<noteq> {} \<and> sec_dirty c x \<subseteq> {start..stop} then lru_flip L p x False else L) F \<and> counts_ok c' P \<and>
      sec_set Dirty (ca_status c') = (sec_set Dirty (ca_status c))(x := sec_dirty c x - {start..stop}) \<and>
      sec_set Valid (ca_status c') = sec_set Valid (ca_status c)"
    by (rule set_clean_ok [OF assms(1,3-7)]) (use assms(2) in blast)
qed

theorem status_updates_exact_witness:
  "(\<exists>c'. set_cache_line_valid example_cache 0 7 example_req 0 = Some c' \<and> cache_rep c' example_P example_L example_F \<and>
      counts_ok c' example_P \<and>
      sec_set Valid (ca_status c') = (sec_set Valid (ca_status example_cache))(2 := sec_valid example_cache 2 \<union> {0..7}) \<and>
      sec_set Dirty (ca_status c') = sec_set Dirty (ca_status example_cache)) \<and>
    (\<exists>c' req'. set_cache_line_dirty example_cache 0 7 example_req 0 = Some (c', req') \<and>
      cache_rep c' example_P (if sec_dirty example_cache 2 = {} then lru_flip example_L 0 2 True else example_L) example_F \<and>
      counts_ok c' example_P \<and>
      sec_set Dirty (ca_status c') = (sec_set Dirty (ca_status example_cache))(2 := sec_dirty example_cache 2 \<union> {0..7}) \<and>
      sec_set Valid (ca_status c') = sec_set Valid (ca_status example_cache)) \<and>
    (\<exists>c' req'. set_cache_line_clean example_cache 0 7 example_req 0 = Some (c', req') \<and>
      cache_rep c' example_P (if sec_dirty example_cache 2 \<noteq> {} \<and> sec_dirty example_cache 2 \<subseteq> {0..7}
        then lru_flip example_L 0 2 False else example_L) example_F \<and> counts_ok c' example_P \<and>
      sec_set Dirty (ca_status c') = (sec_set Dirty (ca_status example_cache))(2 := sec_dirty example_cache 2 - {0..7}) \<and>
      sec_set Valid (ca_status c') = sec_set Valid (ca_status example_cache))"
  by (rule status_updates_exact [OF example_cache_rep example_counts _ _ example_req_line])
    (simp_all add: OCF_IO_CLASS_MAX_def example_P_def)

text \<open>
  Purging sectors of a line whose dirty sectors are valid clears exactly these sectors. The line leaves the
  cache, and its core line is not found any more, exactly when it has no valid sector left and no
  request waits for it; the counters stay exact and no assertion fails.
\<close>

theorem purge_line_correct:
  fixes c :: "'w::len wcache"
  assumes "cache_rep c P L F" and "counts_ok c P" and "p < OCF_IO_CLASS_MAX" and "x \<in> set (P p)"
    and "req_line req i c x" and "start \<le> stop" and "stop < LENGTH('w)" and "sec_dirty c x \<subseteq> sec_valid c x"
  defines "gone \<equiv> sec_valid c x \<subseteq> {start..stop} \<and> \<not> are_waiters (ca_locks c) x"
  shows "\<exists>c' req' L' F'. ocf_purge_cache_line_sec c start stop req i = Some (c', req') \<and>
    cache_rep c' (if gone then P(p := remove1 x (P p)) else P) L' F' \<and>
    counts_ok c' (if gone then P(p := remove1 x (P p)) else P) \<and>
    coll_map (ca_coll c') = (if gone then (coll_map (ca_coll c))(line_key (ca_coll c) x := None) else coll_map (ca_coll c)) \<and>
    sec_set Valid (ca_status c') = (sec_set Valid (ca_status c))(x := sec_valid c x - {start..stop}) \<and>
    sec_set Dirty (ca_status c') = (sec_set Dirty (ca_status c))(x := sec_dirty c x - {start..stop})"
  using purge_ok [OF assms(1-8)] by (simp add: line_gone_def gone_def)

theorem purge_line_correct_witness:
  "\<exists>c' req' L' F'. ocf_purge_cache_line_sec example_cache 0 7 example_req 0 = Some (c', req') \<and>
    cache_rep c' (example_P(0 := [1, 3])) L' F' \<and> counts_ok c' (example_P(0 := [1, 3])) \<and>
    coll_map (ca_coll c') = (coll_map (ca_coll example_cache))((0, 2) := None) \<and>
    sec_set Valid (ca_status c') = (sec_set Valid (ca_status example_cache))(2 := {}) \<and>
    sec_set Dirty (ca_status c') = sec_set Dirty (ca_status example_cache)"
proof -
  have w: "\<not> are_waiters (ca_locks example_cache) 2" by (simp add: example_cache_def are_waiters_def)
  have g: "sec_valid example_cache 2 \<subseteq> {0..7}" "sec_valid example_cache 2 - {0..7} = {}" by (auto simp: example_bits)
  have k: "line_key (ca_coll example_cache) 2 = (0, 2)" by (simp add: line_key_def example_cache_def)
  have d: "sec_dirty example_cache 2 - {0..7} = sec_dirty example_cache 2" "sec_dirty example_cache 2 \<subseteq> sec_valid example_cache 2"
    by (simp_all add: example_bits)
  have "remove1 2 (example_P 0) = [1, 3]" by (simp add: example_P_def)
  then show ?thesis
    using purge_line_correct [OF example_cache_rep example_counts _ _ example_req_line, of 0 0 7] w g k d
    by (simp add: OCF_IO_CLASS_MAX_def example_P_def)
qed

text \<open>
  C24. Moving a line that was hit to the partition of the request keeps the invariant of the lines: the line leaves its
  partition and its LRU list and becomes the first line of the new partition and of the list there that fits its dirty bits,
  without an assertion failing. The move takes one from the counter of cached lines of the old partition and adds one
  to that of the new one, whether or not the line has valid sectors. A line without valid sectors was not counted, so the counters
  are exact afterwards if and only if the line has one.
\<close>

theorem part_move_counts:
  fixes c :: "'w::len wcache"
  assumes "cache_rep c P L F" and "counts_ok c P" and "p < OCF_IO_CLASS_MAX" and "q < OCF_IO_CLASS_MAX" and "q \<noteq> p"
    and "x \<in> set (P p)" and "req_entry req i = Some e" and "mi_coll_idx e = x" and "mi_status e = LOOKUP_HIT" and "mi_re_part e"
    and "rq_part_id req = q" and "rq_core_id req = coll_core_id (ca_coll c) x"
  defines "d \<equiv> sec_dirty c x \<noteq> {}"
  shows "\<exists>c'. part_move_entry req i c = Some c' \<and>
    cache_rep c' (P(p := remove1 x (P p), q := x # P q)) (lru_upd (lru_upd L p d (remove1 x (L p d))) q d (x # L q d)) F \<and>
    ca_part_cached c' = inc2 (rq_core_id req) p (- 1) (inc2 (rq_core_id req) q 1 (ca_part_cached c)) \<and>
    (counts_ok c' (P(p := remove1 x (P p), q := x # P q)) \<longleftrightarrow> sec_valid c x \<noteq> {})"
proof -
  have core: "cache_core c P L F" using assms(1) by (simp add: cache_rep_def)
  obtain c' where c': "part_move_entry req i c = Some c'"
    "cache_rep c' (P(p := remove1 x (P p), q := x # P q)) (lru_upd (lru_upd L p d (remove1 x (L p d))) q d (x # L q d)) F"
    "ca_status c' = ca_status c" "ca_coll c' = ca_coll c" "ca_cached c' = ca_cached c" "ca_dirty c' = ca_dirty c"
    "ca_part_cached c' = inc2 (rq_core_id req) p (- 1) (inc2 (rq_core_id req) q 1 (ca_part_cached c))"
    "ca_part_dirty c' = (if sec_dirty c x \<noteq> {} then inc2 (rq_core_id req) p (- 1) (inc2 (rq_core_id req) q 1 (ca_part_dirty c))
       else ca_part_dirty c)"
    using part_move_rep [OF assms(1,3-11)] unfolding d_def by blast
  show ?thesis using c'(1,2,7) part_move_counts_iff [OF core assms(2-6,12) c'(3-8)] by blast
qed

text \<open>The example cache with a line 2 that is mapped and has no valid sector.\<close>

definition example_hollow :: "8 wcache" where
  "example_hollow = example_cache\<lparr>ca_status := put_bits Valid 2 0 (ca_status example_cache),
     ca_cached := (ca_cached example_cache)(0 := ca_cached example_cache 0 + (- 1)), ca_part_cached := inc2 0 0 (- 1) (ca_part_cached example_cache)\<rparr>"

lemma example_hollow_bits: "sec_valid example_hollow x = (if x = 2 then {} else sec_valid example_cache x)" "sec_dirty example_hollow x = sec_dirty example_cache x"
  by (simp_all add: example_hollow_def sec_set_def)

lemma example_hollow_rep: "cache_rep example_hollow example_P example_L example_F"
proof -
  have core: "cache_core example_cache example_P example_L example_F" using example_cache_rep by (simp add: cache_rep_def)
  have "cache_core example_hollow example_P example_L example_F"
    by (rule cache_core_cong [OF core]) (use cache_coreD(2) [OF core] in \<open>simp_all add: example_hollow_bits\<close>, simp_all add: example_hollow_def status_wf_def)
  then show ?thesis using example_cache_rep example_hollow_bits by (simp add: cache_rep_def, simp add: example_hollow_def)
qed

lemma example_hollow_counts: "counts_ok example_hollow example_P"
proof -
  have core: "cache_core example_cache example_P example_L example_F" using example_cache_rep by (simp add: cache_rep_def)
  have k: "coll_core_id (ca_coll example_cache) 2 = 0" by (simp add: example_cache_def)
  show ?thesis
  proof (rule counts_ok_change [OF core example_counts, of 0 2])
    show "0 < OCF_IO_CLASS_MAX" "2 \<in> set (example_P 0)" by (simp_all add: OCF_IO_CLASS_MAX_def example_P_def)
  qed (simp_all add: example_hollow_bits example_bits k, simp_all add: example_hollow_def fun_eq_iff)
qed

theorem part_move_counts_witness:
  "(\<exists>c'. part_move_entry example_req 0 example_cache = Some c' \<and>
      cache_rep c' (example_P(0 := [1, 3], 1 := [2])) (lru_upd (lru_upd example_L 0 False [1]) 1 False [2]) example_F \<and>
      counts_ok c' (example_P(0 := [1, 3], 1 := [2]))) \<and>
    (\<exists>c'. part_move_entry example_req 0 example_hollow = Some c' \<and>
      cache_rep c' (example_P(0 := [1, 3], 1 := [2])) (lru_upd (lru_upd example_L 0 False [1]) 1 False [2]) example_F \<and>
      \<not> counts_ok c' (example_P(0 := [1, 3], 1 := [2])))"
proof -
  have r: "req_entry example_req 0 = Some (map_info_zero\<lparr>mi_coll_idx := 2, mi_status := LOOKUP_HIT, mi_re_part := True\<rparr>)"
    "rq_part_id example_req = 1" "rq_core_id example_req = 0" by (simp_all add: example_req_def req_entry_def request_zero_def)
  have k: "coll_core_id (ca_coll example_cache) 2 = 0" "coll_core_id (ca_coll example_hollow) 2 = 0" by (simp_all add: example_hollow_def example_cache_def)
  show ?thesis
    using part_move_counts [OF example_cache_rep example_counts, of 0 1 2 example_req 0] part_move_counts [OF example_hollow_rep example_hollow_counts, of 0 1 2 example_req 0]
    by (auto simp: OCF_IO_CLASS_MAX_def example_P_def example_L_def r k example_hollow_bits example_bits)
qed

end
