(* ===== verification/Eviction.thy ===== *)
theory Eviction
  imports CacheInv
begin

section \<open>Making room for a request\<close>

text \<open>
  The loop over the partitions of \<^verbatim>\<open>ocf_evict_do\<close> and \<^verbatim>\<open>space_managment_evict_do\<close>
  (\<^verbatim>\<open>src/eviction/eviction.c\<close>). The list of the partitions may be sorted while it is walked, so the
  walk is shown to end by the number of mapped lines, which drops whenever the list can change. What
  an eviction promises: the free lines grow by the number that is returned, no dirty line and no
  line in use leaves the cache, and no partition shrinks below its minimal size.
\<close>

definition evict_ok :: "'w::len wcache \<Rightarrow> 'w wcache \<Rightarrow> nat \<Rightarrow> bool" where
  "evict_ok c c' n \<longleftrightarrow> (\<exists>P' L' F'. cache_rep c' P' L' F') \<and> same_env c c' \<and>
     total_free (ca_free c') = total_free (ca_free c) + n \<and>
     (\<forall>k x. coll_map (ca_coll c') k = Some x \<longrightarrow> coll_map (ca_coll c) k = Some x) \<and>
     (\<forall>k x. coll_map (ca_coll c) k = Some x \<and> (sec_dirty c x \<noteq> {} \<or> line_used c x) \<longrightarrow> coll_map (ca_coll c') k = Some x) \<and>
     (\<forall>k x. coll_map (ca_coll c') k = Some x \<longrightarrow> sec_valid c' x = sec_valid c x \<and> sec_dirty c' x = sec_dirty c x) \<and>
     (\<forall>q < OCF_IO_CLASS_MAX. curr_size (user_parts (ca_parts c) q) \<le> min_size (user_parts (ca_parts c) q) \<longrightarrow>
        curr_size (user_parts (ca_parts c') q) = curr_size (user_parts (ca_parts c) q)) \<and>
     (\<forall>q < OCF_IO_CLASS_MAX. min_size (user_parts (ca_parts c) q) \<le> curr_size (user_parts (ca_parts c) q) \<longrightarrow>
        min_size (user_parts (ca_parts c) q) \<le> curr_size (user_parts (ca_parts c') q))"

lemma evict_ok_refl:
  assumes "cache_rep c P L F"
  shows "evict_ok c c 0"
  unfolding evict_ok_def
proof (intro conjI same_env_refl)
  show "\<exists>P' L' F'. cache_rep c P' L' F'" by (intro exI) (rule assms)
qed simp_all

lemma evict_okD:
  assumes "evict_ok c c' n"
  shows "\<exists>P' L' F'. cache_rep c' P' L' F'" and "same_env c c'" and "total_free (ca_free c') = total_free (ca_free c) + n"
    and "coll_map (ca_coll c') k = Some x \<Longrightarrow> coll_map (ca_coll c) k = Some x"
    and "coll_map (ca_coll c) k = Some x \<Longrightarrow> sec_dirty c x \<noteq> {} \<or> line_used c x \<Longrightarrow> coll_map (ca_coll c') k = Some x"
    and "coll_map (ca_coll c') k = Some x \<Longrightarrow> sec_valid c' x = sec_valid c x"
    and "coll_map (ca_coll c') k = Some x \<Longrightarrow> sec_dirty c' x = sec_dirty c x"
    and "q < OCF_IO_CLASS_MAX \<Longrightarrow> curr_size (user_parts (ca_parts c) q) \<le> min_size (user_parts (ca_parts c) q) \<Longrightarrow>
        curr_size (user_parts (ca_parts c') q) = curr_size (user_parts (ca_parts c) q)"
    and "q < OCF_IO_CLASS_MAX \<Longrightarrow> min_size (user_parts (ca_parts c) q) \<le> curr_size (user_parts (ca_parts c) q) \<Longrightarrow>
        min_size (user_parts (ca_parts c) q) \<le> curr_size (user_parts (ca_parts c') q)"
  using assms unfolding evict_ok_def by blast+

lemma evict_ok_trans:
  assumes ab: "evict_ok a b m" and bc: "evict_ok b c n"
  shows "evict_ok a c (m + n)"
proof -
  note A = evict_okD [OF ab] and B = evict_okD [OF bc]
  have u: "line_used b x = line_used a x" for x using line_used_env [OF A(2)] .
  have mn: "min_size (user_parts (ca_parts b) q) = min_size (user_parts (ca_parts a) q)" for q
    using A(2) by (simp add: same_env_def parts_kept_def)
  show ?thesis
    unfolding evict_ok_def
  proof (intro conjI allI impI)
    show "same_env a c" by (rule same_env_trans [OF A(2) B(2)])
    show "coll_map (ca_coll c) k = Some x" if "coll_map (ca_coll a) k = Some x \<and> (sec_dirty a x \<noteq> {} \<or> line_used a x)" for k x
      using A(5,7) B(5) that u by metis
    show "sec_valid c x = sec_valid a x" "sec_dirty c x = sec_dirty a x" if "coll_map (ca_coll c) k = Some x" for k x
      using A(6,7) B(4,6,7) that by metis+
    show "curr_size (user_parts (ca_parts c) q) = curr_size (user_parts (ca_parts a) q)"
      if "q < OCF_IO_CLASS_MAX" "curr_size (user_parts (ca_parts a) q) \<le> min_size (user_parts (ca_parts a) q)" for q
      using A(8) [OF that] B(8) [OF that(1)] that(2) mn [of q] by simp
    show "min_size (user_parts (ca_parts a) q) \<le> curr_size (user_parts (ca_parts c) q)"
      if "q < OCF_IO_CLASS_MAX" "min_size (user_parts (ca_parts a) q) \<le> curr_size (user_parts (ca_parts a) q)" for q
      using A(9) [OF that] B(9) [OF that(1)] mn [of q] by simp
    show "coll_map (ca_coll a) k = Some x" if "coll_map (ca_coll c) k = Some x" for k x
      using A(4) B(4) that by blast
    show "total_free (ca_free c) = total_free (ca_free a) + (m + n)" using A(3) B(3) by simp
  qed (rule B(1))
qed

lemma total_free_bound:
  assumes "cache_core c P L F"
  shows "total_free (ca_free c) \<le> ca_entries c" and "ca_entries c < U32_MOD"
proof -
  note D = cache_coreD [OF assms]
  let ?n = "fl_count (ca_free c)"
  have dist: "distinct (F k)" if "k < ?n" for k using fl_repD(1) [OF D(5)] that dlistD(1) by fastforce
  have "card (\<Union>k \<in> {..<?n}. set (F k)) = (\<Sum>k < ?n. card (set (F k)))"
    by (rule card_UN_disjoint) (use fl_repD(3) [OF D(5)] in auto)
  also have "\<dots> = (\<Sum>k < ?n. length (F k))" by (rule sum.cong) (use dist distinct_card in auto)
  also have "\<dots> = total_free (ca_free c)" using fl_rep_total [OF D(5)] by simp
  finally have t: "total_free (ca_free c) = card (free_lines ?n F)" by (simp add: free_lines_def)
  have "free_lines ?n F \<subseteq> {..<ca_entries c}" using D(9) by blast
  then have "card (free_lines ?n F) \<le> card {..<ca_entries c}" by (rule card_mono [OF finite_lessThan])
  then show "total_free (ca_free c) \<le> ca_entries c" using t by simp
  show "ca_entries c < U32_MOD" using D(1,5) by (simp add: cache_sizes_def fl_rep_def)
qed

lemma core_curr_size:
  assumes "cache_core c P L F" and "p < OCF_IO_CLASS_MAX"
  shows "curr_size (user_parts (ca_parts c) p) = length (P p)"
  using cache_coreD(4) [OF assms(1)] part_repD(3) [OF _ assms(2)] by blast

lemma drop_map_Some: "drop_map E m k = Some x \<longleftrightarrow> m k = Some x \<and> x \<notin> set E"
  by (auto simp: drop_map_def split: option.splits)

lemma evicted_to_ok:
  fixes c :: "'w::len wcache"
  assumes rep: "cache_rep c P L F" and p: "p < OCF_IO_CLASS_MAX" and ev: "evicted_to c P L F p E c'"
    and E: "set E \<subseteq> set (L p False)" "distinct E" "\<forall>x \<in> set E. \<not> line_used c x"
    and m: "length E + min_size (user_parts (ca_parts c) p) \<le> curr_size (user_parts (ca_parts c) p) \<or> E = []"
  shows "evict_ok c c' (length E)"
proof -
  have core: "cache_core c P L F" using rep by (simp add: cache_rep_def)
  have rep': "cache_rep c' (P(p := drop_lines E (P p))) (lru_upd L p False (drop_lines E (L p False)))
       (F(ca_ctx c := F (ca_ctx c) @ E))" using ev by (simp add: evicted_to_def)
  then have core': "cache_core c' (P(p := drop_lines E (P p))) (lru_upd L p False (drop_lines E (L p False)))
       (F(ca_ctx c := F (ca_ctx c) @ E))" by (simp add: cache_rep_def)
  have clean: "sec_dirty c x = {}" "x \<in> set (P p)" if "x \<in> set E" for x
    using E(1) cache_coreD(10) [OF core p, of False] that by auto
  have len: "length (drop_lines E (P p)) + length E = length (P p)"
  proof -
    have "distinct (drop_lines E (P p))" using part_lists_distinct(1) [OF core p] by (simp add: drop_lines_def)
    then have "length (drop_lines E (P p)) = card (set (P p) - set E)" using distinct_card by force
    also have "\<dots> = card (set (P p)) - card (set E)" by (rule card_Diff_subset) (use clean(2) in auto)
    also have "card (set E) \<le> card (set (P p))" by (rule card_mono) (use clean(2) in auto)
    ultimately show ?thesis
      using distinct_card [OF part_lists_distinct(1) [OF core p]] distinct_card [OF E(2)] by linarith
  qed
  have size: "curr_size (user_parts (ca_parts c') q) =
      (if q = p then curr_size (user_parts (ca_parts c) p) - length E else curr_size (user_parts (ca_parts c) q))"
    if "q < OCF_IO_CLASS_MAX" for q
    using core_curr_size [OF core' that] core_curr_size [OF core that] len by auto
  have pos: "E = [] \<or> 0 < length E" by auto
  show ?thesis
    unfolding evict_ok_def
  proof (intro conjI allI impI)
    show "curr_size (user_parts (ca_parts c') q) = curr_size (user_parts (ca_parts c) q)"
      if "q < OCF_IO_CLASS_MAX" "curr_size (user_parts (ca_parts c) q) \<le> min_size (user_parts (ca_parts c) q)" for q
      using size [OF that(1)] that(2) m pos by (cases "q = p") auto
    show "min_size (user_parts (ca_parts c) q) \<le> curr_size (user_parts (ca_parts c') q)"
      if "q < OCF_IO_CLASS_MAX" "min_size (user_parts (ca_parts c) q) \<le> curr_size (user_parts (ca_parts c) q)" for q
      using size [OF that(1)] that(2) m by (cases "q = p") auto
  qed (use ev rep' clean E(3) in \<open>auto simp: evicted_to_def drop_map_Some\<close>)
qed

lemma victims_sub:
  "set (victims_of c xs m) \<subseteq> set xs" "distinct xs \<Longrightarrow> distinct (victims_of c xs m)"
  "length (victims_of c xs m) \<le> m" "x \<in> set (victims_of c xs m) \<Longrightarrow> \<not> line_used c x"
  by (auto simp: victims_of_def victims_def split: if_splits dest: in_set_takeD)

lemma evict_calculate_bound:
  "ocf_evict_calculate up n + min_size up \<le> curr_size up \<or> ocf_evict_calculate up n = 0"
  by (auto simp: ocf_evict_calculate_def Let_def)

text \<open>One call of the eviction policy for a partition and a number that respects its minimal size.\<close>

lemma need_space_ok:
  fixes c :: "'w::len wcache"
  assumes rep: "cache_rep c P L F" and p: "p < OCF_IO_CLASS_MAX"
    and m: "m + min_size (user_parts (ca_parts c) p) \<le> curr_size (user_parts (ca_parts c) p) \<or> m = 0"
  shows "\<exists>E c'. ocf_eviction_need_space c p m = Some (length E, c') \<and> evict_ok c c' (length E) \<and>
    evicted_to c P L F p E c' \<and> set E \<subseteq> set (P p)"
proof -
  have core: "cache_core c P L F" using rep by (simp add: cache_rep_def)
  let ?E = "victims_of c (L p False) m"
  obtain c' where c': "evp_lru_req_clines c p m = Some (length ?E, c')" "evicted_to c P L F p ?E c'"
    using req_clines_evicts [OF rep p] by blast
  note v = victims_sub [where c = c and xs = "L p False" and m = m]
  have "evict_ok c c' (length ?E)"
    by (rule evicted_to_ok [OF rep p c'(2)])
      (use v part_lists_distinct(2) [OF core p] m in auto)
  moreover have "set ?E \<subseteq> set (P p)" using v(1) cache_coreD(10) [OF core p, of False] by auto
  ultimately show ?thesis using c' by (auto simp: ocf_eviction_need_space_def)
qed

lemma drop_part_lines:
  assumes core: "cache_core c P L F" and p: "p < OCF_IO_CLASS_MAX" and E: "set E \<subseteq> set (P p)" "E \<noteq> []"
  shows "card (part_lines (P(p := drop_lines E (P p)))) < card (part_lines P)"
proof (rule psubset_card_mono)
  show "finite (part_lines P)" by (simp add: part_lines_def)
  have sub: "part_lines (P(p := drop_lines E (P p))) \<subseteq> part_lines P"
    unfolding part_lines_upd [OF p] part_lines_split [OF p, of P] by auto
  obtain x where x: "x \<in> set E" using E(2) by (cases E) auto
  obtain Q where Q: "part_rep (ca_parts c) P Q" using cache_coreD(4) [OF core] by blast
  have "x \<notin> part_lines (P(p := drop_lines E (P p)))"
    using x E(1) part_rep_disjoint [OF Q _ p] unfolding part_lines_upd [OF p] by auto
  moreover have "x \<in> part_lines P" using x E(1) lines_sub(1) [OF p] by blast
  ultimately show "part_lines (P(p := drop_lines E (P p))) \<subset> part_lines P" using sub by blast
qed

lemma clist_next:
  assumes "clist l (as @ x # bs)"
  shows "lst_next l x = hd_or (lst_invalid l) bs" and "x < lst_invalid l"
  using assms dseg_node(2) [of "lst_next l" "lst_prev l" "lst_invalid l" as x bs] by (auto simp: clist_def)

lemma lst_invalid_max: "cache_core c P L F \<Longrightarrow> lst_invalid (lst_part (ca_parts c)) = OCF_IO_CLASS_MAX"
  using cache_coreD(4) [of c P L F] by (auto simp: part_rep_def)

lemma evict_loop_end:
  "lst_invalid (lst_part (ca_parts c)) = OCF_IO_CLASS_MAX \<Longrightarrow>
   evict_do_loop m target OCF_IO_CLASS_MAX ev c = Some (False, ev, c)"
  by (subst evict_do_loop.simps) (simp add: lst_getter_def)

lemma evict_loop_step:
  assumes "lst_invalid (lst_part (ca_parts c)) = OCF_IO_CLASS_MAX" and "p < OCF_IO_CLASS_MAX"
  defines "part \<equiv> user_parts (ca_parts c) p"
  shows "evict_do_loop m target p ev c =
    (if priority (user_parts (ca_parts c) target) > priority part \<or> \<not> flag_eviction part then Some (False, ev, c)
     else if p = target then evict_do_loop m target (lst_next (lst_part (ca_parts c)) p) ev c
     else if m \<le> ev then Some (True, ev, c)
     else if ocf_evict_calculate part m = 0 then evict_do_loop m target (lst_next (lst_part (ca_parts c)) p) ev c
     else ocf_eviction_need_space c p (ocf_evict_calculate part m) \<bind>
       (\<lambda>(k, c). evict_do_loop m target (lst_next (lst_part (ca_parts c)) p) ((ev + k) mod U32_MOD) c))"
  using assms(1,2) unfolding part_def
  by (subst evict_do_loop.simps) (simp add: lst_getter_def ocf_eviction_can_evict_def Let_def)

lemma evict_do_loop_ok:
  fixes c :: "'w::len wcache"
  assumes "cache_rep c P L F" and "clist (lst_part (ca_parts c)) (as @ bs)" and "target < OCF_IO_CLASS_MAX"
    and "ev \<le> total_free (ca_free c)"
  shows "\<exists>out c' n. evict_do_loop m target (hd_or OCF_IO_CLASS_MAX bs) ev c = Some (out, ev + n, c') \<and> evict_ok c c' n"
  using assms
proof (induction "(card (part_lines P), length bs)" arbitrary: c P L F as bs ev rule: wf_induct_rule [OF wf_lex_prod [OF wf_less wf_less]])
  case 1
  note IH = "1.hyps" and rep = "1.prems"(1) and cl = "1.prems"(2) and target = "1.prems"(3) and ev = "1.prems"(4)
  have core: "cache_core c P L F" using rep by (simp add: cache_rep_def)
  note inv = lst_invalid_max [OF core]
  have fin: "\<exists>out c' n. Some (b, ev, c) = Some (out, ev + n, c') \<and> evict_ok c c' n" for b
    using evict_ok_refl [OF rep] by (intro exI [of _ b] exI [of _ c] exI [of _ 0]) simp
  show ?case
  proof (cases bs)
    case Nil
    then show ?thesis using fin [of False] evict_loop_end [OF inv, of m target ev] by auto
  next
    case (Cons p bs')
    let ?part = "user_parts (ca_parts c) p" and ?nxt = "lst_next (lst_part (ca_parts c)) p"
    have p: "p < OCF_IO_CLASS_MAX" "?nxt = hd_or OCF_IO_CLASS_MAX bs'"
      using clist_next [of "lst_part (ca_parts c)" as p bs'] cl Cons inv by auto
    have skip: "\<exists>out c' n. evict_do_loop m target ?nxt ev c = Some (out, ev + n, c') \<and> evict_ok c c' n"
      unfolding p(2) by (rule IH [OF _ rep _ target ev, where as = "as @ [p]"]) (use cl Cons in auto)
    let ?m = "ocf_evict_calculate ?part m"
    note step = evict_loop_step [OF inv p(1), of m target ev]
    have hd: "hd_or OCF_IO_CLASS_MAX bs = p" using Cons by simp
    consider (stop) "priority (user_parts (ca_parts c) target) > priority ?part \<or> \<not> flag_eviction ?part"
      | (adv) "\<not> (priority (user_parts (ca_parts c) target) > priority ?part \<or> \<not> flag_eviction ?part)" "p = target \<or> \<not> m \<le> ev \<and> ?m = 0"
      | (enough) "\<not> (priority (user_parts (ca_parts c) target) > priority ?part \<or> \<not> flag_eviction ?part)" "p \<noteq> target" "m \<le> ev"
      | (evict) "\<not> (priority (user_parts (ca_parts c) target) > priority ?part \<or> \<not> flag_eviction ?part)" "p \<noteq> target" "\<not> m \<le> ev" "?m \<noteq> 0"
      by blast
    then show ?thesis
    proof cases
      case evict
      obtain E c1 where e: "ocf_eviction_need_space c p ?m = Some (length E, c1)" "evict_ok c c1 (length E)"
        "evicted_to c P L F p E c1" "set E \<subseteq> set (P p)"
        using need_space_ok [OF rep p(1) evict_calculate_bound] by blast
      have rep1: "cache_rep c1 (P(p := drop_lines E (P p))) (lru_upd L p False (drop_lines E (L p False)))
          (F(ca_ctx c := F (ca_ctx c) @ E))" using e(3) by (simp add: evicted_to_def)
      then have core1: "cache_core c1 (P(p := drop_lines E (P p))) (lru_upd L p False (drop_lines E (L p False)))
          (F(ca_ctx c := F (ca_ctx c) @ E))" by (simp add: cache_rep_def)
      have free1: "total_free (ca_free c1) = total_free (ca_free c) + length E" by (rule evict_okD(3) [OF e(2)])
      then have evm: "(ev + length E) mod U32_MOD = ev + length E" "ev + length E \<le> total_free (ca_free c1)"
        using total_free_bound [OF core1] ev by auto
      have "\<exists>out c' n. evict_do_loop m target (lst_next (lst_part (ca_parts c1)) p) (ev + length E) c1 =
          Some (out, (ev + length E) + n, c') \<and> evict_ok c1 c' n"
      proof (cases "E = []")
        case True
        then have ps: "ca_parts c1 = ca_parts c" using e(3) by (simp add: evicted_to_def)
        show ?thesis
          unfolding ps p(2)
          by (rule IH [OF _ rep1 _ target evm(2), where as = "as @ [p]"]) (use True cl Cons ps in \<open>auto simp: drop_lines_def\<close>)
      next
        case False
        have "same_env c c1" by (rule evict_okD(2) [OF e(2)])
        then obtain Q1 where Q1: "clist (lst_part (ca_parts c1)) Q1" "set Q1 = set (as @ p # bs')"
          using cl Cons by (auto simp: same_env_def parts_kept_def)
        obtain as1 bs1 where sp: "Q1 = as1 @ p # bs1" using Q1(2) by (metis in_set_conv_decomp list.set_intros(1) set_append Un_iff)
        have nx: "lst_next (lst_part (ca_parts c1)) p = hd_or OCF_IO_CLASS_MAX bs1"
          using clist_next(1) [of "lst_part (ca_parts c1)" as1 p bs1] Q1(1) sp lst_invalid_max [OF core1] by simp
        show ?thesis
          unfolding nx
          by (rule IH [OF _ rep1 _ target evm(2), where as = "as1 @ [p]"])
            (use drop_part_lines [OF core p(1) e(4) False] Q1(1) sp in auto)
      qed
      then obtain out c' n where r: "evict_do_loop m target (lst_next (lst_part (ca_parts c1)) p) (ev + length E) c1 =
          Some (out, ev + length E + n, c')" "evict_ok c1 c' n" by blast
      have "evict_do_loop m target (hd_or OCF_IO_CLASS_MAX bs) ev c = Some (out, ev + (length E + n), c')"
        unfolding hd step using evict e(1) r(1) evm(1) by (simp add: add.assoc)
      then show ?thesis using evict_ok_trans [OF e(2) r(2)] by blast
    next
      case stop
      then show ?thesis unfolding hd step using fin by auto
    next
      case enough
      then show ?thesis unfolding hd step using fin by auto
    next
      case adv
      then show ?thesis unfolding hd step using skip by auto
    qed
  qed
qed

lemma evict_do_ok:
  fixes c :: "'w::len wcache"
  assumes rep: "cache_rep c P L F" and target: "target < OCF_IO_CLASS_MAX"
  shows "\<exists>c' n. ocf_evict_do c m target = Some (n, c') \<and> evict_ok c c' n"
proof -
  have core: "cache_core c P L F" using rep by (simp add: cache_rep_def)
  note inv = lst_invalid_max [OF core]
  obtain Q where Q: "clist (lst_part (ca_parts c)) Q" using cache_coreD(4) [OF core] by (auto simp: part_rep_def)
  have start: "lst_next (lst_part (ca_parts c)) (lst_invalid (lst_part (ca_parts c))) = hd_or OCF_IO_CLASS_MAX Q"
    using Q inv by (simp add: clist_def)
  obtain out c1 n where l: "evict_do_loop m target (hd_or OCF_IO_CLASS_MAX Q) 0 c = Some (out, n, c1)" "evict_ok c c1 n"
    using evict_do_loop_ok [OF rep, of "[]" Q target 0 m] Q target by auto
  show ?thesis
  proof (cases "\<not> out \<and> n < m \<and> ocf_evict_calculate (user_parts (ca_parts c1) target) m \<noteq> 0")
    case False
    then show ?thesis using l start by (auto simp: ocf_evict_do_def ocf_eviction_can_evict_def Let_def)
  next
    case True
    obtain P1 L1 F1 where rep1: "cache_rep c1 P1 L1 F1" using evict_okD(1) [OF l(2)] by blast
    obtain E :: "cline list" and c2 where e: "ocf_eviction_need_space c1 target (ocf_evict_calculate (user_parts (ca_parts c1) target) m) =
        Some (length E, c2)" "evict_ok c1 c2 (length E)"
      using need_space_ok [OF rep1 target evict_calculate_bound [of _ m]] by blast
    note ok = evict_ok_trans [OF l(2) e(2)]
    obtain P2 L2 F2 where "cache_rep c2 P2 L2 F2" using evict_okD(1) [OF ok] by blast
    then have core2: "cache_core c2 P2 L2 F2" by (simp add: cache_rep_def)
    have "(n + length E) mod U32_MOD = n + length E"
      using total_free_bound [OF core2] evict_okD(3) [OF ok] by simp
    then show ?thesis using l(1) start True e(1) ok by (auto simp: ocf_evict_do_def ocf_eviction_can_evict_def Let_def)
  qed
qed

subsection \<open>Properties\<close>



text \<open>
  C13. Making room ends, trips no assertion and keeps the invariant, although the list of partitions may be
  sorted while it is walked. It reports success exactly when there are then as many free lines as
  were asked for. The free lines grow by what was evicted; every mapping that is left was there before with the
  same status bits, every line that is dirty or in use stays mapped, and no partition shrinks
  below its minimal size.
\<close>

theorem space_management_correct:
  fixes c :: "'w::len wcache"
  assumes "cache_rep c P L F" and "p < OCF_IO_CLASS_MAX"
  shows "\<exists>r err c' n. space_managment_evict_do c p m = Some (r, err, c') \<and> evict_ok c c' n \<and>
    (r = LOOKUP_MAPPED \<and> \<not> err \<and> m \<le> ocf_freelist_num_free (ca_free c') \<or>
     r = LOOKUP_MISS \<and> err \<and> ocf_freelist_num_free (ca_free c') < m)"
proof (cases "m \<le> total_free (ca_free c)")
  case True
  then show ?thesis using evict_ok_refl [OF assms(1)]
    by (auto simp: space_managment_evict_do_def ocf_freelist_num_free_def)
next
  case False
  obtain c' n where e: "ocf_evict_do c (m - total_free (ca_free c)) p = Some (n, c')" "evict_ok c c' n"
    using evict_do_ok [OF assms] by blast
  show ?thesis
  proof (cases "m - total_free (ca_free c) \<le> n")
    case True
    then have "space_managment_evict_do c p m = Some (LOOKUP_MAPPED, False, c')"
      using False e(1) by (simp add: space_managment_evict_do_def ocf_freelist_num_free_def)
    moreover have "m \<le> ocf_freelist_num_free (ca_free c')"
      using True evict_okD(3) [OF e(2)] by (simp add: ocf_freelist_num_free_def)
    ultimately show ?thesis using e(2) by blast
  next
    case less: False
    then have "space_managment_evict_do c p m = Some (LOOKUP_MISS, True, c')"
      using False e(1) by (simp add: space_managment_evict_do_def ocf_freelist_num_free_def)
    moreover have "ocf_freelist_num_free (ca_free c') < m"
      using less evict_okD(3) [OF e(2)] by (simp add: ocf_freelist_num_free_def)
    ultimately show ?thesis using e(2) by blast
  qed
qed

theorem space_management_correct_witness:
  "\<exists>r err c' n. space_managment_evict_do example_cache 0 3 = Some (r, err, c') \<and> evict_ok example_cache c' n \<and>
    (r = LOOKUP_MAPPED \<and> \<not> err \<and> 3 \<le> ocf_freelist_num_free (ca_free c') \<or>
     r = LOOKUP_MISS \<and> err \<and> ocf_freelist_num_free (ca_free c') < 3)"
  by (rule space_management_correct [OF example_cache_rep]) (simp add: OCF_IO_CLASS_MAX_def)

end
