(* ===== verification/Layout.thy ===== *)
theory Layout
  imports Freelist
begin

section \<open>Logical and physical cache lines\<close>

text \<open>
  Model of the two layouts of \<^verbatim>\<open>src/metadata/metadata_hash.c\<close>, which map the index of a collision
  entry to the cache line whose data it describes. The striping layout spreads the entries of one
  metadata page over the whole device, so that consecutive physical lines lie in different
  pages. The arithmetic is on 32 bit unsigned integers.
\<close>

record layout =
  ly_entries :: nat
  ly_entries_in_page :: nat
  ly_ssd_pages :: nat

definition ocf_metadata_hash_map_lg2phy_seq :: "layout \<Rightarrow> cline \<Rightarrow> cline" where
  "ocf_metadata_hash_map_lg2phy_seq ly coll_idx = coll_idx"

definition ocf_metadata_hash_map_phy2lg_seq :: "layout \<Rightarrow> cline \<Rightarrow> cline" where
  "ocf_metadata_hash_map_phy2lg_seq ly cache_line = cache_line"

definition u32_sub :: "nat \<Rightarrow> nat \<Rightarrow> nat" where
  "u32_sub a b = (a + (U32_MOD - b mod U32_MOD)) mod U32_MOD"

definition ocf_metadata_hash_map_lg2phy_striping :: "layout \<Rightarrow> cline \<Rightarrow> cline" where
  "ocf_metadata_hash_map_lg2phy_striping ly coll_idx =
     (let entries_in_page = ly_entries_in_page ly;
          pages = ly_ssd_pages ly;
          collision_table_entries = ly_entries ly;
          delta = u32_sub ((entries_in_page * pages) mod U32_MOD) collision_table_entries;
          row = coll_idx mod entries_in_page;
          offset = (if row > u32_sub entries_in_page delta
                    then u32_sub row (u32_sub entries_in_page delta) else 0)
      in u32_sub (((row * pages) mod U32_MOD + coll_idx div entries_in_page) mod U32_MOD) offset)"

definition ocf_metadata_hash_map_phy2lg_striping :: "layout \<Rightarrow> cline \<Rightarrow> cline" where
  "ocf_metadata_hash_map_phy2lg_striping ly cache_line =
     (let pages = ly_ssd_pages ly;
          entries_in_page = ly_entries_in_page ly;
          entries_in_last_page = (if ly_entries ly mod entries_in_page \<noteq> 0
                                  then ly_entries ly mod entries_in_page else entries_in_page);
          last = (entries_in_last_page * pages) mod U32_MOD;
          (row, coll) = (if cache_line < last then (cache_line mod pages, cache_line div pages)
                         else (let cache_line = u32_sub cache_line last
                               in (cache_line mod (pages - 1), cache_line div (pages - 1) + entries_in_last_page)))
      in ((row * entries_in_page) mod U32_MOD + coll) mod U32_MOD)"

text \<open>
  A well-formed layout: the entries fill all pages but the last one, which holds at least one
  entry, and the table with its last page filled up still has 32 bit indices.
\<close>

definition layout_ok :: "layout \<Rightarrow> bool" where
  "layout_ok ly \<longleftrightarrow> 0 < ly_entries_in_page ly \<and> 0 < ly_ssd_pages ly \<and>
     ly_entries_in_page ly * (ly_ssd_pages ly - 1) < ly_entries ly \<and>
     ly_entries ly \<le> ly_entries_in_page ly * ly_ssd_pages ly \<and>
     ly_entries_in_page ly * ly_ssd_pages ly < U32_MOD"

lemma u32_sub_le: "b \<le> a \<Longrightarrow> a < U32_MOD \<Longrightarrow> u32_sub a b = a - b"
proof -
  assume h: "b \<le> a" "a < U32_MOD"
  then have b: "b mod U32_MOD = b" by simp
  have "a + (U32_MOD - b) = (a - b) + U32_MOD" using h by simp
  then have "u32_sub a b = (a - b) mod U32_MOD" unfolding u32_sub_def b by (simp only: mod_add_self2)
  then show ?thesis using h by simp
qed

text \<open>The number of entries in the last page, and the two functions without wrap-around.\<close>

definition last_page :: "layout \<Rightarrow> nat" where
  "last_page ly = ly_entries ly - ly_entries_in_page ly * (ly_ssd_pages ly - 1)"

lemma last_page_bounds:
  assumes "layout_ok ly"
  shows "0 < last_page ly" "last_page ly \<le> ly_entries_in_page ly"
    "ly_entries ly = ly_entries_in_page ly * (ly_ssd_pages ly - 1) + last_page ly"
proof -
  have "ly_entries_in_page ly * ly_ssd_pages ly =
    ly_entries_in_page ly * (ly_ssd_pages ly - 1) + ly_entries_in_page ly"
    using assms by (cases "ly_ssd_pages ly") (auto simp: layout_ok_def)
  then show "0 < last_page ly" "last_page ly \<le> ly_entries_in_page ly"
    "ly_entries ly = ly_entries_in_page ly * (ly_ssd_pages ly - 1) + last_page ly"
    using assms by (auto simp: layout_ok_def last_page_def)
qed

lemma last_page_code:
  assumes "layout_ok ly"
  shows "(if ly_entries ly mod ly_entries_in_page ly \<noteq> 0 then ly_entries ly mod ly_entries_in_page ly
     else ly_entries_in_page ly) = last_page ly"
proof -
  note b = last_page_bounds [OF assms]
  show ?thesis
  proof (cases "last_page ly = ly_entries_in_page ly")
    case True
    with b(3) show ?thesis by simp
  next
    case False
    with b have "ly_entries ly mod ly_entries_in_page ly = last_page ly" by simp
    with b(1) show ?thesis by simp
  qed
qed

lemma striping_lg2phy:
  assumes ok: "layout_ok ly" and x: "x < ly_entries ly"
  shows "ocf_metadata_hash_map_lg2phy_striping ly x =
    (let r = x mod ly_entries_in_page ly; p = x div ly_entries_in_page ly in
     if r < last_page ly then r * ly_ssd_pages ly + p
     else last_page ly * ly_ssd_pages ly + (r - last_page ly) * (ly_ssd_pages ly - 1) + p)"
proof -
  let ?e = "ly_entries_in_page ly" and ?g = "ly_ssd_pages ly" and ?l = "last_page ly"
  let ?r = "x mod ?e" and ?p = "x div ?e"
  note b = last_page_bounds [OF ok]
  have pos: "0 < ?e" "0 < ?g" and lim: "?e * ?g < U32_MOD" using ok by (auto simp: layout_ok_def)
  have eg: "?e * ?g = ?e * (?g - 1) + ?e" using pos by (cases ?g) auto
  have e32: "?e < U32_MOD" using lim pos(2) by (metis le_less_trans mult.commute mult_le_mono1 nat_mult_1 Suc_leI One_nat_def)
  have delta: "u32_sub ((?e * ?g) mod U32_MOD) (ly_entries ly) = ?e - ?l"
    using b lim eg by (simp add: u32_sub_le)
  have thr: "u32_sub ?e (?e - ?l) = ?l" using b e32 by (simp add: u32_sub_le)
  have r: "?r < ?e" using pos by simp
  have p: "?p < ?g"
    using x b(3) b(2) eg pos by (metis div_less_iff_less_mult add_le_cancel_left le_trans leD not_le mult.commute)
  have xr: "x = ?e * ?p + ?r" by simp
  have prow: "?r * ?g + ?p < ?e * ?g"
  proof -
    have "?r * ?g + ?p < ?r * ?g + ?g" using p by simp
    also have "\<dots> = (?r + 1) * ?g" by simp
    also have "\<dots> \<le> ?e * ?g" using r by (intro mult_le_mono1) simp
    finally show ?thesis .
  qed
  have sum: "((?r * ?g) mod U32_MOD + ?p) mod U32_MOD = ?r * ?g + ?p" using prow lim by simp
  show ?thesis
  proof (cases "?r \<le> ?l")
    case True
    have "ocf_metadata_hash_map_lg2phy_striping ly x = ?r * ?g + ?p"
      unfolding ocf_metadata_hash_map_lg2phy_striping_def Let_def delta thr sum
      using True prow lim by (simp add: u32_sub_le)
    then show ?thesis using True by (auto simp: Let_def)
  next
    case False
    have m: "?r * ?g = ?l * ?g + (?r - ?l) * (?g - 1) + (?r - ?l)"
    proof -
      have "?r * ?g = ?l * ?g + (?r - ?l) * ?g"
        using False by (metis add_mult_distrib le_add_diff_inverse nat_le_linear)
      also have "(?r - ?l) * ?g = (?r - ?l) * (?g - 1) + (?r - ?l)" using pos by (cases ?g) auto
      finally show ?thesis by simp
    qed
    have off: "u32_sub ?r ?l = ?r - ?l" using False r e32 by (intro u32_sub_le) auto
    have "?r - ?l \<le> ?r * ?g + ?p" using m by linarith
    then have "u32_sub (?r * ?g + ?p) (?r - ?l) = ?r * ?g + ?p - (?r - ?l)"
      by (rule u32_sub_le) (use prow lim in linarith)
    then have "ocf_metadata_hash_map_lg2phy_striping ly x = ?r * ?g + ?p - (?r - ?l)"
      unfolding ocf_metadata_hash_map_lg2phy_striping_def Let_def delta thr sum using False off by simp
    then show ?thesis using False m by (simp add: Let_def)
  qed
qed

lemma striping_phy2lg:
  assumes ok: "layout_ok ly" and y: "y < ly_entries ly"
    and r: "p < ly_ssd_pages ly" "r < ly_entries_in_page ly"
  shows "y = r * ly_ssd_pages ly + p \<Longrightarrow> r < last_page ly \<Longrightarrow>
      ocf_metadata_hash_map_phy2lg_striping ly y = ly_entries_in_page ly * p + r"
    and "y = last_page ly * ly_ssd_pages ly + (r - last_page ly) * (ly_ssd_pages ly - 1) + p \<Longrightarrow>
      last_page ly \<le> r \<Longrightarrow> p < ly_ssd_pages ly - 1 \<Longrightarrow>
      ocf_metadata_hash_map_phy2lg_striping ly y = ly_entries_in_page ly * p + r"
proof -
  let ?e = "ly_entries_in_page ly" and ?g = "ly_ssd_pages ly" and ?l = "last_page ly"
  note b = last_page_bounds [OF ok]
  have lim: "?e * ?g < U32_MOD" using ok by (simp add: layout_ok_def)
  have "?l * ?g \<le> ?e * ?g" using b(2) by (rule mult_le_mono1)
  then have "?l * ?g < U32_MOD" using lim by (rule le_less_trans)
  then have last: "(?l * ?g) mod U32_MOD = ?l * ?g" by (rule mod_less)
  have "?e * p + r < ?e * ?g"
  proof -
    have "?e * p + r < ?e * (p + 1)" using r(2) by simp
    also have "\<dots> \<le> ?e * ?g" using r(1) by (intro mult_le_mono2) simp
    finally show ?thesis .
  qed
  then have res: "((p * ?e) mod U32_MOD + r) mod U32_MOD = ?e * p + r" using lim by (simp add: mult.commute)
  note def = ocf_metadata_hash_map_phy2lg_striping_def Let_def last_page_code [OF ok] last
  show "ocf_metadata_hash_map_phy2lg_striping ly y = ?e * p + r" if "y = r * ?g + p" "r < ?l"
  proof -
    have "r * ?g + p < ?l * ?g"
    proof -
      have "r * ?g + p < (r + 1) * ?g" using r(1) by simp
      also have "\<dots> \<le> ?l * ?g" using that(2) by (intro mult_le_mono1) simp
      finally show ?thesis .
    qed
    moreover have "y mod ?g = p" "y div ?g = r" using that(1) r(1) by simp_all
    ultimately show ?thesis unfolding def using that(1) res by simp
  qed
  show "ocf_metadata_hash_map_phy2lg_striping ly y = ?e * p + r"
    if "y = ?l * ?g + (r - ?l) * (?g - 1) + p" "?l \<le> r" "p < ?g - 1"
  proof -
    have y32: "y < U32_MOD" using y ok lim by (simp add: layout_ok_def)
    have "u32_sub y (?l * ?g) = (r - ?l) * (?g - 1) + p" using that(1) y32 by (simp add: u32_sub_le)
    moreover have "((r - ?l) * (?g - 1) + p) mod (?g - 1) = p" "((r - ?l) * (?g - 1) + p) div (?g - 1) = r - ?l"
      using that(3) by simp_all
    moreover have "\<not> y < ?l * ?g" using that(1) by simp
    ultimately show ?thesis unfolding def using that(2) res by simp
  qed
qed

lemma striping_roundtrip:
  assumes ok: "layout_ok ly" and x: "x < ly_entries ly"
  shows "ocf_metadata_hash_map_lg2phy_striping ly x < ly_entries ly \<and>
    ocf_metadata_hash_map_phy2lg_striping ly (ocf_metadata_hash_map_lg2phy_striping ly x) = x"
proof -
  let ?e = "ly_entries_in_page ly" and ?g = "ly_ssd_pages ly" and ?l = "last_page ly"
  let ?r = "x mod ?e" and ?p = "x div ?e"
  note b = last_page_bounds [OF ok]
  have pos: "0 < ?e" "0 < ?g" using ok by (auto simp: layout_ok_def)
  have r: "?r < ?e" using pos by simp
  have xr: "?e * ?p + ?r = x" by simp
  have xlt: "x < ?e * (?g - 1) + ?l" using x b(3) by simp
  have total: "ly_entries ly = ?l * ?g + (?e - ?l) * (?g - 1)"
    using b pos by (cases ?g) (auto simp: algebra_simps)
  have p: "?p < ?g"
  proof -
    have "x < ?e * ?g" using x ok by (simp add: layout_ok_def)
    then show ?thesis by (simp add: div_less_iff_less_mult pos mult.commute)
  qed
  note lg = striping_lg2phy [OF ok x]
  show ?thesis
  proof (cases "?r < ?l")
    case True
    have y: "ocf_metadata_hash_map_lg2phy_striping ly x = ?r * ?g + ?p" using lg True by (simp add: Let_def)
    have "?r * ?g + ?p < (?r + 1) * ?g" using p by simp
    also have "\<dots> \<le> ?l * ?g" using True by (intro mult_le_mono1) simp
    also have "\<dots> \<le> ly_entries ly" using total by simp
    finally have lt: "?r * ?g + ?p < ly_entries ly" .
    show ?thesis using striping_phy2lg(1) [OF ok lt p r refl True] lt y xr by simp
  next
    case False
    have p1: "?p < ?g - 1"
    proof (rule ccontr)
      assume "\<not> ?p < ?g - 1"
      then have "?e * (?g - 1) \<le> ?e * ?p" by (intro mult_le_mono2) simp
      with xlt xr False show False by linarith
    qed
    let ?y = "?l * ?g + (?r - ?l) * (?g - 1) + ?p"
    have y: "ocf_metadata_hash_map_lg2phy_striping ly x = ?y" using lg False by (simp add: Let_def)
    have "(?r - ?l) * (?g - 1) + ?p < (?r - ?l + 1) * (?g - 1)" using p1 by simp
    also have "\<dots> \<le> (?e - ?l) * (?g - 1)" using r False by (intro mult_le_mono1) linarith
    finally have lt: "?y < ly_entries ly" using total by simp
    show ?thesis using striping_phy2lg(2) [OF ok lt p r refl _ p1] False lt y xr by simp
  qed
qed

lemma striping_bij:
  assumes "layout_ok ly"
  shows "bij_betw (ocf_metadata_hash_map_lg2phy_striping ly) {..<ly_entries ly} {..<ly_entries ly}"
    and "bij_betw (ocf_metadata_hash_map_phy2lg_striping ly) {..<ly_entries ly} {..<ly_entries ly}"
    and "y < ly_entries ly \<Longrightarrow>
      ocf_metadata_hash_map_lg2phy_striping ly (ocf_metadata_hash_map_phy2lg_striping ly y) = y"
proof -
  let ?f = "ocf_metadata_hash_map_lg2phy_striping ly" and ?g = "ocf_metadata_hash_map_phy2lg_striping ly"
  let ?A = "{..<ly_entries ly}"
  note rt = striping_roundtrip [OF assms]
  have "inj_on ?f ?A" using rt by (intro inj_on_inverseI [of _ ?g]) auto
  moreover have "?f ` ?A \<subseteq> ?A" using rt by auto
  ultimately show bf: "bij_betw ?f ?A ?A" by (simp add: bij_betw_def endo_inj_surj)
  have inv: "?f (?g z) = z \<and> ?g z < ly_entries ly" if "z < ly_entries ly" for z
  proof -
    have "z \<in> ?f ` ?A" using bf that by (simp add: bij_betw_def)
    then obtain x where "x \<in> ?A" "z = ?f x" by blast
    then show ?thesis using rt by simp
  qed
  then show "y < ly_entries ly \<Longrightarrow> ?f (?g y) = y" by simp
  show "bij_betw ?g ?A ?A"
    using rt bf inv by (intro bij_betw_byWitness [of _ ?f]) (auto simp: bij_betw_def)
qed

subsection \<open>The self test\<close>

text \<open>The loop at the end of \<^verbatim>\<open>ocf_metadata_hash_init_variable_size\<close>.\<close>

definition metadata_self_test :: "nat \<Rightarrow> (cline \<Rightarrow> cline) \<Rightarrow> (cline \<Rightarrow> cline) \<Rightarrow> int" where
  "metadata_self_test entries lg2phy phy2lg =
     (if list_all (\<lambda>line. phy2lg (lg2phy line) = line) [0..<entries] then 0 else - 1000000)"

subsection \<open>Properties\<close>

text \<open>
  C15. Both layouts are permutations of the cache lines, and the two directions are inverse to
  each other: every collision entry describes exactly one physical line, and the self test that
  is run when a cache is started passes.
\<close>

theorem layout_roundtrip:
  assumes "layout_ok ly"
  shows "bij_betw (ocf_metadata_hash_map_lg2phy_striping ly) {..<ly_entries ly} {..<ly_entries ly} \<and>
    (\<forall>x < ly_entries ly.
       ocf_metadata_hash_map_phy2lg_striping ly (ocf_metadata_hash_map_lg2phy_striping ly x) = x \<and>
       ocf_metadata_hash_map_lg2phy_striping ly (ocf_metadata_hash_map_phy2lg_striping ly x) = x) \<and>
    metadata_self_test (ly_entries ly) (ocf_metadata_hash_map_lg2phy_striping ly)
      (ocf_metadata_hash_map_phy2lg_striping ly) = 0 \<and>
    metadata_self_test (ly_entries ly) (ocf_metadata_hash_map_lg2phy_seq ly)
      (ocf_metadata_hash_map_phy2lg_seq ly) = 0"
  using striping_bij [OF assms] striping_roundtrip [OF assms]
  by (auto simp: metadata_self_test_def list_all_iff ocf_metadata_hash_map_lg2phy_seq_def
      ocf_metadata_hash_map_phy2lg_seq_def)

definition example_layout :: layout where
  "example_layout = \<lparr>ly_entries = 7, ly_entries_in_page = 3, ly_ssd_pages = 3\<rparr>"

lemma example_layout_ok: "layout_ok example_layout"
  by (simp add: layout_ok_def example_layout_def)

theorem layout_roundtrip_witness:
  "metadata_self_test 7 (ocf_metadata_hash_map_lg2phy_striping example_layout)
      (ocf_metadata_hash_map_phy2lg_striping example_layout) = 0"
  using layout_roundtrip [OF example_layout_ok] by (simp add: example_layout_def)

end
