(* ===== verification/Engine.thy ===== *)
theory Engine
  imports Eviction Layout
begin

section \<open>Lookup and mapping of a request\<close>

text \<open>
  The part of \<^verbatim>\<open>src/engine/engine_common.c\<close> and \<^verbatim>\<open>src/engine/engine_common.h\<close> that all engines share: looking
  up the lines of a request, checking a lookup again, mapping what is missing and undoing a mapping
  that failed, and making room. The hash bucket locks that the code takes around these steps are locks
  of the environment; the functions run under them. The layout of the lines on the device enters
  as a parameter, it decides whether a request is sequential.
\<close>

definition ocf_engine_is_hit :: "ocf_request \<Rightarrow> bool" where
  "ocf_engine_is_hit req = (ri_hit_no (rq_info req) = rq_core_line_count req)"

definition ocf_engine_is_mapped :: "ocf_request \<Rightarrow> bool" where
  "ocf_engine_is_mapped req =
     ((ri_hit_no (rq_info req) + ri_invalid_no (rq_info req)) mod U32_MOD = rq_core_line_count req)"

definition ocf_engine_is_dirty_all :: "ocf_request \<Rightarrow> bool" where
  "ocf_engine_is_dirty_all req = (ri_dirty_all (rq_info req) = rq_core_line_count req)"

definition ocf_engine_mapped_count :: "ocf_request \<Rightarrow> nat" where
  "ocf_engine_mapped_count req = (ri_hit_no (rq_info req) + ri_invalid_no (rq_info req)) mod U32_MOD"

definition ocf_engine_unmapped_count :: "ocf_request \<Rightarrow> nat" where
  "ocf_engine_unmapped_count req =
     (rq_core_line_count req + U32_MOD - (ri_hit_no (rq_info req) + ri_invalid_no (rq_info req)) mod U32_MOD) mod U32_MOD"

definition ocf_engine_io_count :: "ocf_request \<Rightarrow> nat" where
  "ocf_engine_io_count req = (if ri_seq_req (rq_info req) then 1 else rq_core_line_count req)"

definition ocf_engine_map_all_sec_dirty :: "'w::len wcache \<Rightarrow> ocf_request \<Rightarrow> nat \<Rightarrow> bool option" where
  "ocf_engine_map_all_sec_dirty c req line = do {
     e \<leftarrow> req_entry req line;
     if mi_status e \<noteq> LOOKUP_HIT then Some False
     else metadata_test_dirty_all_sec (ca_status c) (mi_coll_idx e)
       (ocf_map_line_start_sector (ca_line c) req line) (ocf_map_line_end_sector (ca_line c) req line) }"

definition ocf_engine_map_all_sec_clean :: "'w::len wcache \<Rightarrow> ocf_request \<Rightarrow> nat \<Rightarrow> bool option" where
  "ocf_engine_map_all_sec_clean c req line = do {
     let start = ocf_map_line_start_sector (ca_line c) req line;
     let stop = ocf_map_line_end_sector (ca_line c) req line;
     e \<leftarrow> req_entry req line;
     if mi_status e \<noteq> LOOKUP_HIT then Some False
     else do {
       v \<leftarrow> metadata_test_valid_sec (ca_status c) (mi_coll_idx e) start stop;
       if \<not> v then Some False
       else do {
         d \<leftarrow> metadata_test_dirty_sec (ca_status c) (mi_coll_idx e) start stop;
         Some (\<not> d) } } }"

definition ocf_engine_map_all_sec_valid :: "'w::len wcache \<Rightarrow> ocf_request \<Rightarrow> nat \<Rightarrow> bool option" where
  "ocf_engine_map_all_sec_valid c req line = do {
     e \<leftarrow> req_entry req line;
     if mi_status e \<noteq> LOOKUP_HIT then Some False
     else metadata_test_valid_sec (ca_status c) (mi_coll_idx e)
       (ocf_map_line_start_sector (ca_line c) req line) (ocf_map_line_end_sector (ca_line c) req line) }"

definition ocf_engine_lookup_map_entry ::
  "coll_meta \<Rightarrow> ocf_map_info \<Rightarrow> core_id \<Rightarrow> core_line \<Rightarrow> ocf_map_info option" where
  "ocf_engine_lookup_map_entry coll entry core_id core_line = do {
     let entry = entry\<lparr>mi_hash := ocf_metadata_hash_func coll core_line core_id, mi_status := LOOKUP_MISS,
                  mi_coll_idx := collision_table_entries coll, mi_core_line := core_line\<rparr>;
     r \<leftarrow> collision_lookup coll core_id core_line;
     Some (case r of None \<Rightarrow> entry | Some line \<Rightarrow> entry\<lparr>mi_coll_idx := line, mi_status := LOOKUP_HIT\<rparr>) }"

definition ocf_engine_check_map_entry :: "coll_meta \<Rightarrow> ocf_map_info \<Rightarrow> core_id \<Rightarrow> int option" where
  "ocf_engine_check_map_entry coll entry core_id =
     (if mi_status entry = LOOKUP_MISS then Some 0
      else do {
        bug_on (mi_coll_idx entry \<ge> collision_table_entries coll);
        (id, core_line) \<leftarrow> ocf_metadata_get_core_info coll (mi_coll_idx entry);
        Some (if core_id = id \<and> core_line = mi_core_line entry then 0 else - 1) })"

definition upd_info :: "(ocf_req_info \<Rightarrow> ocf_req_info) \<Rightarrow> ocf_request \<Rightarrow> ocf_request" where
  "upd_info f req = req\<lparr>rq_info := f (rq_info req)\<rparr>"

text \<open>
  The case of a hit of \<^verbatim>\<open>ocf_engine_update_req_info\<close>, and the test at its end whether the request is still
  sequential on the device.
\<close>

definition update_hit_info ::
  "'w::len wcache \<Rightarrow> nat \<Rightarrow> cline \<Rightarrow> nat \<Rightarrow> nat \<Rightarrow> ocf_request \<Rightarrow> ocf_request option" where
  "update_hit_info c entry line start_sector end_sector req = do {
     v \<leftarrow> metadata_test_valid_sec (ca_status c) line start_sector end_sector;
     let req = (if v then upd_info (\<lambda>r. r\<lparr>ri_hit_no := ri_hit_no r + 1\<rparr>) req
                else upd_info (\<lambda>r. r\<lparr>ri_invalid_no := ri_invalid_no r + 1\<rparr>) req);
     d \<leftarrow> metadata_test_dirty (ca_status c) line;
     req \<leftarrow> (if d then do {
         let req = upd_info (\<lambda>r. r\<lparr>ri_dirty_any := ri_dirty_any r + 1\<rparr>) req;
         a \<leftarrow> metadata_test_dirty_all_sec (ca_status c) line start_sector end_sector;
         Some (if a then upd_info (\<lambda>r. r\<lparr>ri_dirty_all := ri_dirty_all r + 1\<rparr>) req else req) }
       else Some req);
     part \<leftarrow> ocf_metadata_get_partition_id (ca_links c) line;
     Some (if rq_part_id req \<noteq> part
           then upd_req_entry entry (\<lambda>e. e\<lparr>mi_re_part := True\<rparr>) (upd_info (\<lambda>r. r\<lparr>ri_re_part := True\<rparr>) req)
           else req) }"

definition update_seq_info :: "(cline \<Rightarrow> cline) \<Rightarrow> nat \<Rightarrow> cline \<Rightarrow> ocf_request \<Rightarrow> ocf_request option" where
  "update_seq_info lg2phy entry line req =
     (if ri_seq_req (rq_info req) \<and> entry \<noteq> 0 then do {
        prev \<leftarrow> req_entry req (entry - 1);
        Some (if (lg2phy (mi_coll_idx prev) + 1) mod U32_MOD \<noteq> lg2phy line
              then upd_info (\<lambda>r. r\<lparr>ri_seq_req := False\<rparr>) req else req) }
      else Some req)"

definition ocf_engine_update_req_info ::
  "(cline \<Rightarrow> cline) \<Rightarrow> 'w::len wcache \<Rightarrow> ocf_request \<Rightarrow> nat \<Rightarrow> ocf_request option" where
  "ocf_engine_update_req_info lg2phy c req entry = do {
     e \<leftarrow> req_entry req entry;
     req \<leftarrow> (case mi_status e of
         LOOKUP_HIT \<Rightarrow> update_hit_info c entry (mi_coll_idx e) (ocf_map_line_start_sector (ca_line c) req entry)
           (ocf_map_line_end_sector (ca_line c) req entry) req
       | LOOKUP_MISS \<Rightarrow> Some (upd_info (\<lambda>r. r\<lparr>ri_seq_req := False\<rparr>) req)
       | LOOKUP_MAPPED \<Rightarrow> Some req
       | LOOKUP_NONE \<Rightarrow> None);
     update_seq_info lg2phy entry (mi_coll_idx e) req }"

text \<open>The entries the loops over the core lines of a request visit.\<close>

definition req_indices :: "ocf_request \<Rightarrow> nat list" where
  "req_indices req = [0..<rq_core_line_last req + 1 - rq_core_line_first req]"

definition traverse_step ::
  "(cline \<Rightarrow> cline) \<Rightarrow> nat \<Rightarrow> 'w::len wcache \<times> ocf_request \<Rightarrow> ('w wcache \<times> ocf_request) option" where
  "traverse_step lg2phy i = (\<lambda>(c, req). do {
     e \<leftarrow> req_entry req i;
     e \<leftarrow> ocf_engine_lookup_map_entry (ca_coll c) e (rq_core_id req) (rq_core_line_first req + i);
     let req = upd_req_entry i (\<lambda>_. e) req;
     if mi_status e \<noteq> LOOKUP_HIT then Some (c, upd_info (\<lambda>r. r\<lparr>ri_seq_req := False\<rparr>) req)
     else do {
       c \<leftarrow> ocf_eviction_set_hot_cache_line c (mi_coll_idx e);
       req \<leftarrow> ocf_engine_update_req_info lg2phy c req i;
       Some (c, req) } })"

definition ocf_engine_traverse ::
  "(cline \<Rightarrow> cline) \<Rightarrow> 'w::len wcache \<Rightarrow> ocf_request \<Rightarrow> ('w wcache \<times> ocf_request) option" where
  "ocf_engine_traverse lg2phy c req = do {
     let req = ocf_req_clear_info req;
     let req = upd_info (\<lambda>r. r\<lparr>ri_seq_req := True\<rparr>) req;
     fold_opt (traverse_step lg2phy) (req_indices req) (c, req) }"

definition check_step ::
  "(cline \<Rightarrow> cline) \<Rightarrow> 'w::len wcache \<Rightarrow> nat \<Rightarrow> int \<times> ocf_request \<Rightarrow> (int \<times> ocf_request) option" where
  "check_step lg2phy c i = (\<lambda>(result, req). do {
     e \<leftarrow> req_entry req i;
     if mi_status e = LOOKUP_MISS then Some (result, upd_info (\<lambda>r. r\<lparr>ri_seq_req := False\<rparr>) req)
     else do {
       r \<leftarrow> ocf_engine_check_map_entry (ca_coll c) e (rq_core_id req);
       if r \<noteq> 0 then Some (- 1, upd_info (\<lambda>r. r\<lparr>ri_seq_req := False\<rparr>) (upd_req_entry i (\<lambda>e. e\<lparr>mi_invalid := True\<rparr>) req))
       else do {
         req \<leftarrow> ocf_engine_update_req_info lg2phy c (upd_req_entry i (\<lambda>e. e\<lparr>mi_invalid := False\<rparr>) req) i;
         Some (result, req) } } })"

definition ocf_engine_check ::
  "(cline \<Rightarrow> cline) \<Rightarrow> 'w::len wcache \<Rightarrow> ocf_request \<Rightarrow> (int \<times> ocf_request) option" where
  "ocf_engine_check lg2phy c req = do {
     let req = ocf_req_clear_info req;
     let req = upd_info (\<lambda>r. r\<lparr>ri_seq_req := True\<rparr>) req;
     fold_opt (check_step lg2phy c) (req_indices req) (0, req) }"

definition map_hndl_step :: "ocf_request \<Rightarrow> nat \<Rightarrow> 'w::len wcache \<Rightarrow> 'w wcache option" where
  "map_hndl_step req i c = do {
     e \<leftarrow> req_entry req i;
     case mi_status e of
       LOOKUP_HIT \<Rightarrow> Some c
     | LOOKUP_MISS \<Rightarrow> Some c
     | LOOKUP_MAPPED \<Rightarrow> set_cache_line_invalid_no_flush c 0 (ocf_line_end_sector (ca_line c)) (mi_coll_idx e)
     | LOOKUP_NONE \<Rightarrow> None }"

definition ocf_engine_map_hndl_error :: "'w::len wcache \<Rightarrow> ocf_request \<Rightarrow> 'w wcache option" where
  "ocf_engine_map_hndl_error c req = fold_opt (map_hndl_step req) [0..<rq_core_line_count req] c"

text \<open>One round of the loop of \<^verbatim>\<open>ocf_engine_map\<close>; the flag tells whether the loop goes on.\<close>

definition map_step ::
  "(cline \<Rightarrow> cline) \<Rightarrow> nat \<Rightarrow> 'w::len wcache \<Rightarrow> ocf_request \<Rightarrow> ('w wcache \<times> ocf_request \<times> bool) option" where
  "map_step lg2phy i c req = do {
     e \<leftarrow> req_entry req i;
     e \<leftarrow> ocf_engine_lookup_map_entry (ca_coll c) e (rq_core_id req) (rq_core_line_first req + i);
     let req = upd_req_entry i (\<lambda>_. e) req;
     if mi_status e \<noteq> LOOKUP_HIT then do {
       (r, c) \<leftarrow> ocf_engine_map_cache_line c (rq_core_id req) (rq_part_id req) (mi_core_line e) (mi_hash e);
       case r of
         None \<Rightarrow> do {
           let req = upd_info (\<lambda>r. r\<lparr>ri_mapping_error := True\<rparr>) req;
           c \<leftarrow> ocf_engine_map_hndl_error c req;
           Some (c, req, False) }
       | Some line \<Rightarrow> do {
           let req = upd_req_entry i (\<lambda>e. e\<lparr>mi_coll_idx := line, mi_status := LOOKUP_MAPPED\<rparr>) req;
           req \<leftarrow> ocf_engine_update_req_info lg2phy c req i;
           Some (c, req, True) } }
     else do {
       req \<leftarrow> ocf_engine_update_req_info lg2phy c req i;
       Some (c, req, True) } }"

fun map_loop ::
  "(cline \<Rightarrow> cline) \<Rightarrow> nat list \<Rightarrow> 'w::len wcache \<times> ocf_request \<Rightarrow> ('w wcache \<times> ocf_request) option" where
  "map_loop lg2phy [] s = Some s"
| "map_loop lg2phy (i # is) (c, req) = do {
     (c, req, go) \<leftarrow> map_step lg2phy i c req;
     if go then map_loop lg2phy is (c, req) else Some (c, req) }"

definition ocf_engine_map ::
  "(cline \<Rightarrow> cline) \<Rightarrow> 'w::len wcache \<Rightarrow> ocf_request \<Rightarrow> ('w wcache \<times> ocf_request) option" where
  "ocf_engine_map lg2phy c req =
     (if ocf_engine_unmapped_count req = 0 then Some (c, req)
      else if ocf_engine_unmapped_count req > ocf_freelist_num_free (ca_free c)
      then Some (c, upd_info (\<lambda>r. r\<lparr>ri_mapping_error := True\<rparr>) req)
      else do {
        let req = ocf_req_clear_info req;
        let req = upd_info (\<lambda>r. r\<lparr>ri_seq_req := True\<rparr>) req;
        (c, req) \<leftarrow> map_loop lg2phy (req_indices req) (c, req);
        Some (if \<not> ri_mapping_error (rq_info req)
              then (emit (PromotionPurge (rq_core_id req) (rq_core_line_first req) (rq_core_line_last req)) c, req)
              else (c, req)) })"

definition ocf_engine_evict :: "'w::len wcache \<Rightarrow> ocf_request \<Rightarrow> (lookup_status \<times> 'w wcache \<times> ocf_request) option" where
  "ocf_engine_evict c req =
     (if ocf_engine_unmapped_count req = 0 then Some (LOOKUP_NONE, c, req)
      else do {
        (r, err, c) \<leftarrow> space_managment_evict_do c (rq_part_id req) (ocf_engine_unmapped_count req);
        Some (r, c, if err then upd_info (\<lambda>r. r\<lparr>ri_mapping_error := True\<rparr>) req else req) })"

subsection \<open>The request during the loops\<close>

text \<open>The loops write the map and the info of the request, nothing else.\<close>

definition req_same :: "ocf_request \<Rightarrow> ocf_request \<Rightarrow> bool" where
  "req_same r r' \<longleftrightarrow> rq_core_id r' = rq_core_id r \<and> rq_part_id r' = rq_part_id r \<and>
     rq_core_line_first r' = rq_core_line_first r \<and> rq_core_line_last r' = rq_core_line_last r \<and>
     rq_core_line_count r' = rq_core_line_count r \<and> rq_byte_position r' = rq_byte_position r \<and>
     rq_byte_length r' = rq_byte_length r \<and> rq_rw r' = rq_rw r \<and>
     map_option length (rq_map r') = map_option length (rq_map r)"

lemma req_same_refl [simp]: "req_same r r"
  by (simp add: req_same_def)

lemma req_same_trans: "req_same a b \<Longrightarrow> req_same b c \<Longrightarrow> req_same a c"
  by (simp add: req_same_def)

lemma req_same_upd [simp]:
  "req_same r (upd_info f r)" "req_same r (upd_req_entry i g r)" "req_same r (ocf_req_clear_info r)"
  by (auto simp: req_same_def upd_info_def upd_req_entry_def ocf_req_clear_info_def option.map_comp comp_def)

lemma req_same_upd2 [simp]:
  "req_same r (upd_info f r') = req_same r r'" "req_same r (upd_req_entry i g r') = req_same r r'"
  by (auto simp: req_same_def upd_info_def upd_req_entry_def option.map_comp comp_def)

lemma entry_some: "req_entry r i = Some e \<longleftrightarrow> (\<exists>m. rq_map r = Some m \<and> i < length m \<and> e = m ! i)"
  by (auto simp: req_entry_def split: option.splits)

lemma req_entry_upd:
  "req_entry (upd_req_entry i g r) j = (if i = j then map_option g (req_entry r i) else req_entry r j)"
  by (auto simp: req_entry_def upd_req_entry_def nth_list_update split: option.splits)

lemma req_entry_upd_info [simp]: "req_entry (upd_info f r) j = req_entry r j"
  by (simp add: upd_info_def req_entry_def)

lemma rq_info_upd [simp]:
  "rq_info (upd_info f r) = f (rq_info r)" "rq_info (upd_req_entry i g r) = rq_info r"
  by (simp_all add: upd_info_def upd_req_entry_def)

lemma fold_opt_upt:
  assumes "\<And>i s. i < n \<Longrightarrow> I i s \<Longrightarrow> \<exists>s'. f i s = Some s' \<and> I (Suc i) s'" and "I 0 s"
  shows "\<exists>s'. fold_opt f [0..<n] s = Some s' \<and> I n s'"
  using assms
proof (induction n)
  case 0
  then show ?case by simp
next
  case (Suc n)
  then obtain t where t: "fold_opt f [0..<n] s = Some t" "I n t" by (meson less_SucI)
  then obtain u where "f n t = Some u" "I (Suc n) u" using Suc.prems(1) [of n t] by auto
  then show ?case using t by (simp add: fold_opt_append)
qed

subsection \<open>Looking up\<close>

lemma lookup_entry:
  assumes "coll_inv coll"
  shows "ocf_engine_lookup_map_entry coll e cid cl = Some (case coll_map coll (cid, cl) of
      None \<Rightarrow> e\<lparr>mi_hash := key_hash coll (cid, cl), mi_status := LOOKUP_MISS, mi_coll_idx := collision_table_entries coll, mi_core_line := cl\<rparr>
    | Some x \<Rightarrow> e\<lparr>mi_hash := key_hash coll (cid, cl), mi_status := LOOKUP_HIT, mi_coll_idx := x, mi_core_line := cl\<rparr>)"
  using collision_lookup_coll_map [OF assms, of cid cl]
  by (auto simp: ocf_engine_lookup_map_entry_def key_hash_def Let_def split: option.splits)

text \<open>
  A line that is used again moves to the front of the list it is in. After lines have been used in an order, those of a list
  are in front, the last one first, and the others follow as they were.
\<close>

definition to_front :: "'a \<Rightarrow> 'a list \<Rightarrow> 'a list" where
  "to_front x xs = (if x \<in> set xs then x # remove1 x xs else xs)"

definition used_first :: "'a list \<Rightarrow> 'a list \<Rightarrow> 'a list" where
  "used_first hs xs = rev (filter (\<lambda>x. x \<in> set xs) hs) @ filter (\<lambda>x. x \<notin> set hs) xs"

lemma used_first_Nil [simp]: "used_first [] xs = xs"
  by (simp add: used_first_def)

lemma used_first_snoc:
  assumes "x \<notin> set hs" "distinct xs"
  shows "used_first (hs @ [x]) xs = to_front x (used_first hs xs)"
proof (cases "x \<in> set xs")
  case True
  have "remove1 x (filter (\<lambda>y. y \<notin> set hs) xs) = filter (\<lambda>y. y \<notin> set (hs @ [x])) xs"
    using assms(2) by (simp add: distinct_remove1_removeAll removeAll_filter_not_eq) (rule filter_cong, auto)
  with True assms(1) show ?thesis by (simp add: used_first_def to_front_def remove1_append)
next
  case False
  then have "filter (\<lambda>y. y \<notin> set (hs @ [x])) xs = filter (\<lambda>y. y \<notin> set hs) xs" by (intro filter_cong) auto
  with False assms(1) show ?thesis by (simp add: used_first_def to_front_def)
qed

lemma hot_rep:
  assumes rep: "cache_rep c P L F" and p: "p < OCF_IO_CLASS_MAX" and x: "x \<in> set (P p)"
  shows "\<exists>ls L'. ocf_eviction_set_hot_cache_line c x = Some (c\<lparr>ca_lru := ls\<rparr>) \<and> cache_rep (c\<lparr>ca_lru := ls\<rparr>) P L' F \<and>
    (\<forall>q < OCF_IO_CLASS_MAX. \<forall>e. L' q e = to_front x (L q e))"
proof -
  have core: "cache_core c P L F" using rep by (simp add: cache_rep_def)
  note D = cache_coreD [OF core] and lo = core_line_ok [OF core p x]
  define d where "d = (sec_dirty c x \<noteq> {})"
  have sz: "lru_entries (ca_lru c) = ca_entries c" using D(1) by (simp add: cache_sizes_def)
  have xL: "x \<in> set (L p d)" using D(10) [OF p, of d] x by (simp add: d_def)
  have dirty: "metadata_test_dirty (ca_status c) x = Some d" using metadata_test_any_sem(1) [OF D(2) lo(3)] by (simp add: d_def)
  obtain as bs where sp: "L p d = as @ x # bs" using xL by (metis in_set_conv_decomp)
  have dl: "dlist (ca_entries c) (lru_next (ca_lru c)) (lru_prev (ca_lru c)) (as @ x # bs)"
    using lru_repD(2) [OF D(6) p, of d] sp sz by simp
  let ?i = "(p, d)" and ?L = "\<lambda>i. L (fst i) (snd i)"
  let ?L' = "?L(?i := remove1 x (?L ?i))"
  have ok: "lru_ok (ca_lru c) ?L" using D(6) by (simp add: lru_ok_def)
  obtain ls where ls: "(lru_rem (ca_lru c) ?i x \<bind> (\<lambda>ls. lru_add ls ?i x)) = Some ls" "lru_ok ls (?L'(?i := x # ?L' ?i))"
    "lru_line ls = lru_line (ca_lru c)" using lru_lists.move [OF ok, of ?i ?i x] p xL by auto
  have linked: "lru_next (ca_lru c) x \<noteq> ca_entries c \<or> lru_prev (ca_lru c) x \<noteq> ca_entries c \<or>
      (clean_head (lru_pol (ca_lru c) p) = x \<and> clean_tail (lru_pol (ca_lru c) p) = x) \<or>
      (dirty_head (lru_pol (ca_lru c) p) = x \<and> dirty_tail (lru_pol (ca_lru c) p) = x)"
  proof (cases "as = [] \<and> bs = []")
    case True
    then show ?thesis using lru_repD(1) [OF D(6) p] sp by (cases d) (simp_all add: pol_ok_def)
  next
    case False
    then show ?thesis using dlist_links_null [OF dl] by auto
  qed
  have run: "ocf_eviction_set_hot_cache_line c x = Some (c\<lparr>ca_lru := ls\<rparr>)"
    using lo(1,2) dirty linked ls(1) sz
    by (auto simp: ocf_eviction_set_hot_cache_line_def evp_lru_hot_cline_def ocf_metadata_get_evicition_policy_def
        lru_rem_def lru_add_def bind_eq_Some_conv)
  let ?L2 = "\<lambda>q e. (?L'(?i := x # ?L' ?i)) (q, e)"
  have "set (?L2 q e) = set (L q e)" for q e
    using xL set_remove1_eq [OF part_lists_distinct(2) [OF core p, of d], of x] by (auto simp: insert_absorb)
  then have "cache_core (c\<lparr>ca_lru := ls\<rparr>) P ?L2 F"
    using core ls(2) lru_line_eq [OF ls(3)] unfolding cache_core_def cache_sizes_def lru_ok_def by simp
  moreover have "?L2 q e = to_front x (L q e)" if q: "q < OCF_IO_CLASS_MAX" for q e
  proof (cases "(q, e) = (p, d)")
    case False
    then have "x \<notin> set (L q e)" using lru_repD(3) [OF D(6) p q, of e d] xL by blast
    with False show ?thesis by (auto simp: to_front_def)
  qed (use xL in \<open>simp add: to_front_def\<close>)
  ultimately show ?thesis using run rep by (intro exI [of _ ls] exI [of _ ?L2]) (simp add: cache_rep_def)
qed

subsection \<open>The info of a request\<close>

text \<open>
  A request whose map has an entry for each of its core lines and whose sectors lie in their cache lines, as
  \<^verbatim>\<open>ocf_req_new\<close> makes it (theory \<open>Request\<close>).
\<close>

definition req_ok :: "'w::len wcache \<Rightarrow> ocf_request \<Rightarrow> bool" where
  "req_ok c req \<longleftrightarrow>
     (\<exists>m. rq_map req = Some m \<and> rq_core_line_count req \<le> length m) \<and>
     rq_core_line_first req + rq_core_line_count req = rq_core_line_last req + 1 \<and>
     0 < rq_core_line_count req \<and> rq_core_line_count req < U32_MOD \<and>
     rq_part_id req < OCF_IO_CLASS_MAX \<and> rq_core_id req < OCF_CORE_MAX \<and>
     (\<forall>i < rq_core_line_count req. ocf_map_line_start_sector (ca_line c) req i \<le> ocf_map_line_end_sector (ca_line c) req i \<and>
        ocf_map_line_end_sector (ca_line c) req i < LENGTH('w))"

lemma sectors_same:
  "req_same r r' \<Longrightarrow> ocf_map_line_start_sector st r' i = ocf_map_line_start_sector st r i"
  "req_same r r' \<Longrightarrow> ocf_map_line_end_sector st r' i = ocf_map_line_end_sector st r i"
  by (simp_all add: req_same_def ocf_map_line_start_sector_def ocf_map_line_end_sector_def)

lemma req_ok_same:
  fixes c c' :: "'w::len wcache"
  assumes "req_ok c r" and "req_same r r'" and "ca_line c' = ca_line c"
  shows "req_ok c' r'"
  using assms(1,3) sectors_same [OF assms(2)] assms(2)
  unfolding req_ok_def by (auto simp: req_same_def map_option_case split: option.splits)

lemma req_ok_indices: "req_ok c req \<Longrightarrow> req_indices req = [0..<rq_core_line_count req]"
  by (auto simp: req_ok_def req_indices_def intro: arg_cong)

lemma req_ok_entry: "req_ok c req \<Longrightarrow> i < rq_core_line_count req \<Longrightarrow> \<exists>e. req_entry req i = Some e"
  by (auto simp: req_ok_def req_entry_def)

definition ent :: "ocf_request \<Rightarrow> nat \<Rightarrow> (lookup_status \<times> cline \<times> core_line) option" where
  "ent req i = map_option (\<lambda>e. (mi_status e, mi_coll_idx e, mi_core_line e)) (req_entry req i)"

definition counted :: "ocf_request \<Rightarrow> nat \<times> nat \<times> bool" where
  "counted req = (ri_hit_no (rq_info req), ri_invalid_no (rq_info req), ri_mapping_error (rq_info req))"

definition all_valid :: "'w::len wcache \<Rightarrow> ocf_request \<Rightarrow> nat \<Rightarrow> cline \<Rightarrow> bool" where
  "all_valid c req i x \<longleftrightarrow>
     {ocf_map_line_start_sector (ca_line c) req i..ocf_map_line_end_sector (ca_line c) req i} \<subseteq> sec_valid c x"

text \<open>The test whether the request is sequential changes only that flag.\<close>

lemma seq_check:
  assumes "i \<noteq> 0 \<Longrightarrow> req_entry req (i - 1) \<noteq> None"
  shows "\<exists>req'. update_seq_info lg2phy i x req = Some req' \<and> req_same req req' \<and> (\<forall>j. ent req' j = ent req j) \<and>
    counted req' = counted req"
  using assms by (auto simp: update_seq_info_def ent_def counted_def)

lemma prev_entry:
  assumes "req_ok c req" and "i < rq_core_line_count req" and "\<forall>j. ent req' j = ent req j"
  shows "req_entry req' (i - 1) \<noteq> None"
  using req_ok_entry [OF assms(1) less_imp_diff_less [OF assms(2), of 1]] assms(3) [rule_format, of "i - 1"]
  by (cases "req_entry req' (i - 1)") (auto simp: ent_def)

lemma update_info_mapped:
  assumes ok: "req_ok c req" and i: "i < rq_core_line_count req" and e: "req_entry req i = Some e" "mi_status e = LOOKUP_MAPPED"
  shows "\<exists>req'. ocf_engine_update_req_info lg2phy c req i = Some req' \<and> req_same req req' \<and>
    (\<forall>j. ent req' j = ent req j) \<and> counted req' = counted req"
  using seq_check [where i = i and req = req and x = "mi_coll_idx e"] prev_entry [OF ok i, of req] e
  by (simp add: ocf_engine_update_req_info_def)

lemma update_hit:
  fixes c :: "'w::len wcache"
  assumes core: "cache_core c P L F" and p: "p < OCF_IO_CLASS_MAX" "x \<in> set (P p)"
    and so: "start \<le> stop" "stop < LENGTH('w)" and e: "req_entry req i = Some e"
  shows "\<exists>req'. update_hit_info c i x start stop req = Some req' \<and> req_same req req' \<and> (\<forall>j. ent req' j = ent req j) \<and>
    counted req' = (ri_hit_no (rq_info req) + (if {start..stop} \<subseteq> sec_valid c x then 1 else 0),
      ri_invalid_no (rq_info req) + (if {start..stop} \<subseteq> sec_valid c x then 0 else 1), ri_mapping_error (rq_info req))"
proof -
  note lo = core_line_ok [OF core p]
  note v = ocf_metadata_test_sem [OF lo(7) [OF so]]
  have dirty: "metadata_test_dirty (ca_status c) x = Some (sec_dirty c x \<noteq> {})"
    by (rule metadata_test_any_sem(1) [OF cache_coreD(2) [OF core] lo(3)])
  have tests: "metadata_test_valid_sec (ca_status c) x start stop = Some ({start..stop} \<subseteq> sec_valid c x)"
    "metadata_test_dirty_all_sec (ca_status c) x start stop = Some ({start..stop} \<subseteq> sec_dirty c x)"
    using v [of Valid True] v [of Dirty True]
    by (simp_all add: metadata_test_valid_sec_def metadata_test_dirty_all_sec_def)
  show ?thesis
    using tests dirty lo(2) e
    by (cases "{start..stop} \<subseteq> sec_valid c x"; cases "sec_dirty c x = {}"; cases "{start..stop} \<subseteq> sec_dirty c x")
       (simp_all add: Let_def update_hit_info_def ent_def counted_def req_entry_upd)
qed

lemma update_info_hit:
  fixes c :: "'w::len wcache"
  assumes core: "cache_core c P L F" and ok: "req_ok c req" and i: "i < rq_core_line_count req"
    and e: "req_entry req i = Some e" "mi_status e = LOOKUP_HIT" "mi_coll_idx e = x" and x: "x \<in> part_lines P"
  shows "\<exists>req'. ocf_engine_update_req_info lg2phy c req i = Some req' \<and> req_same req req' \<and> (\<forall>j. ent req' j = ent req j) \<and>
    counted req' = (ri_hit_no (rq_info req) + (if all_valid c req i x then 1 else 0),
      ri_invalid_no (rq_info req) + (if all_valid c req i x then 0 else 1), ri_mapping_error (rq_info req))"
proof -
  obtain p where p: "p < OCF_IO_CLASS_MAX" "x \<in> set (P p)" using x by (auto simp: part_lines_def)
  have so: "ocf_map_line_start_sector (ca_line c) req i \<le> ocf_map_line_end_sector (ca_line c) req i"
    "ocf_map_line_end_sector (ca_line c) req i < LENGTH('w)" using ok i by (simp_all add: req_ok_def)
  obtain r where r: "update_hit_info c i x (ocf_map_line_start_sector (ca_line c) req i) (ocf_map_line_end_sector (ca_line c) req i) req = Some r"
    "req_same req r" "\<forall>j. ent r j = ent req j"
    "counted r = (ri_hit_no (rq_info req) + (if all_valid c req i x then 1 else 0),
      ri_invalid_no (rq_info req) + (if all_valid c req i x then 0 else 1), ri_mapping_error (rq_info req))"
    using update_hit [OF core p so e(1)] unfolding all_valid_def by blast
  obtain r' where "update_seq_info lg2phy i x r = Some r'" "req_same r r'" "\<forall>j. ent r' j = ent r j" "counted r' = counted r"
    using seq_check prev_entry [OF ok i r(3)] by blast
  then show ?thesis using r e req_same_trans [OF r(2), of r'] by (simp add: ocf_engine_update_req_info_def)
qed

subsection \<open>Traversing\<close>

definition lookup_of :: "'w::len wcache \<Rightarrow> ocf_request \<Rightarrow> nat \<Rightarrow> lookup_status \<times> cline \<times> core_line" where
  "lookup_of c req i = (case coll_map (ca_coll c) (rq_core_id req, rq_core_line_first req + i) of
      None \<Rightarrow> (LOOKUP_MISS, ca_entries c, rq_core_line_first req + i)
    | Some x \<Rightarrow> (LOOKUP_HIT, x, rq_core_line_first req + i))"

definition hits :: "'w::len wcache \<Rightarrow> ocf_request \<Rightarrow> nat \<Rightarrow> nat set" where
  "hits c req n = {i. i < n \<and> (\<exists>x. coll_map (ca_coll c) (rq_core_id req, rq_core_line_first req + i) = Some x \<and> all_valid c req i x)}"

definition partial_hits :: "'w::len wcache \<Rightarrow> ocf_request \<Rightarrow> nat \<Rightarrow> nat set" where
  "partial_hits c req n = {i. i < n \<and> (\<exists>x. coll_map (ca_coll c) (rq_core_id req, rq_core_line_first req + i) = Some x \<and> \<not> all_valid c req i x)}"

text \<open>The cache lines of the first \<open>n\<close> core lines of a request that have one, in order.\<close>

definition hit_lines :: "'w::len wcache \<Rightarrow> ocf_request \<Rightarrow> nat \<Rightarrow> cline list" where
  "hit_lines c req n = List.map_filter (\<lambda>i. coll_map (ca_coll c) (rq_core_id req, rq_core_line_first req + i)) [0..<n]"

lemma hit_lines_Suc:
  "hit_lines c req (Suc n) = hit_lines c req n @
     (case coll_map (ca_coll c) (rq_core_id req, rq_core_line_first req + n) of None \<Rightarrow> [] | Some x \<Rightarrow> [x])"
  by (simp add: hit_lines_def List.map_filter_def split: option.splits)

lemma hit_lines_new:
  assumes "coll_inv (ca_coll c)" "coll_map (ca_coll c) (rq_core_id req, rq_core_line_first req + n) = Some x"
  shows "x \<notin> set (hit_lines c req n)"
proof
  assume "x \<in> set (hit_lines c req n)"
  then obtain i where i: "i < n" "coll_map (ca_coll c) (rq_core_id req, rq_core_line_first req + i) = Some x"
    by (auto simp: hit_lines_def List.map_filter_def)
  with assms coll_map_iff [OF assms(1)] show False by (metis add_left_imp_eq less_irrefl prod.inject)
qed

definition trav_inv ::
  "'w::len wcache \<Rightarrow> (part_id \<Rightarrow> cline list) \<Rightarrow> (part_id \<Rightarrow> bool \<Rightarrow> cline list) \<Rightarrow> (nat \<Rightarrow> cline list) \<Rightarrow> ocf_request \<Rightarrow> nat \<Rightarrow> 'w wcache \<times> ocf_request \<Rightarrow> bool" where
  "trav_inv c P L F req n s \<longleftrightarrow> (\<exists>ls L' req'. s = (c\<lparr>ca_lru := ls\<rparr>, req') \<and> cache_rep (c\<lparr>ca_lru := ls\<rparr>) P L' F \<and> req_same req req' \<and>
     (\<forall>p < OCF_IO_CLASS_MAX. \<forall>d. L' p d = used_first (hit_lines c req n) (L p d)) \<and>
     (\<forall>j < n. ent req' j = Some (lookup_of c req j)) \<and>
     counted req' = (card (hits c req n), card (partial_hits c req n), False))"

lemma hits_Suc:
  "hits c req (Suc n) = (if \<exists>x. coll_map (ca_coll c) (rq_core_id req, rq_core_line_first req + n) = Some x \<and> all_valid c req n x
     then insert n (hits c req n) else hits c req n)"
  "partial_hits c req (Suc n) = (if \<exists>x. coll_map (ca_coll c) (rq_core_id req, rq_core_line_first req + n) = Some x \<and> \<not> all_valid c req n x
     then insert n (partial_hits c req n) else partial_hits c req n)"
  by (auto simp: hits_def partial_hits_def less_Suc_eq)

lemma hits_finite [simp]: "finite (hits c req n)" "finite (partial_hits c req n)" "n \<notin> hits c req n" "n \<notin> partial_hits c req n"
  by (auto simp: hits_def partial_hits_def)

lemma all_valid_same:
  fixes c c' :: "'w::len wcache"
  assumes "req_same r r'" "ca_line c' = ca_line c" "ca_status c' = ca_status c"
  shows "all_valid c' r' i x = all_valid c r i x"
  using sectors_same [OF assms(1)] assms(2,3) by (simp add: all_valid_def)

lemma coll_map_range:
  assumes "cache_core c P L F" and "coll_map (ca_coll c) k = Some x"
  shows "x \<in> part_lines P" and "x < ca_entries c"
proof -
  show "x \<in> part_lines P" using assms(2) cache_coreD(7) [OF assms(1)] coll_map_iff [OF cache_coreD(3) [OF assms(1)]] by simp
  then show "x < ca_entries c" using cache_coreD(9) [OF assms(1)] by auto
qed

lemma traverse_step_inv:
  assumes rep0: "cache_rep c P L0 F" and ok: "req_ok c req" and n: "n < rq_core_line_count req" and inv: "trav_inv c P L0 F req n s"
  shows "\<exists>s'. traverse_step lg2phy n s = Some s' \<and> trav_inv c P L0 F req (Suc n) s'"
proof -
  obtain ls L r where s: "s = (c\<lparr>ca_lru := ls\<rparr>, r)" and rep: "cache_rep (c\<lparr>ca_lru := ls\<rparr>) P L F" and same: "req_same req r"
    and ord: "\<forall>p < OCF_IO_CLASS_MAX. \<forall>d. L p d = used_first (hit_lines c req n) (L0 p d)"
    and ents: "\<forall>j < n. ent r j = Some (lookup_of c req j)"
    and cnt: "counted r = (card (hits c req n), card (partial_hits c req n), False)"
    using inv by (auto simp: trav_inv_def)
  let ?c = "c\<lparr>ca_lru := ls\<rparr>" and ?k = "(rq_core_id req, rq_core_line_first req + n)"
  have core0: "cache_core c P L0 F" using rep0 by (simp add: cache_rep_def)
  have core: "cache_core ?c P L F" using rep by (simp add: cache_rep_def)
  have ids: "rq_core_id r = rq_core_id req" "rq_core_line_first r = rq_core_line_first req"
    "rq_core_line_count r = rq_core_line_count req" using same by (auto simp: req_same_def)
  have ok': "req_ok ?c r" by (rule req_ok_same [OF ok same]) simp
  obtain e where e: "req_entry r n = Some e" using req_ok_entry [OF ok', of n] n ids by auto
  note look = lookup_entry [OF cache_coreD(3) [OF core], of e "rq_core_id req" "rq_core_line_first req + n"]
  show ?thesis
  proof (cases "coll_map (ca_coll c) ?k")
    case None
    let ?e = "e\<lparr>mi_hash := key_hash (ca_coll c) ?k, mi_status := LOOKUP_MISS, mi_coll_idx := ca_entries c, mi_core_line := rq_core_line_first req + n\<rparr>"
    let ?r = "upd_info (\<lambda>r. r\<lparr>ri_seq_req := False\<rparr>) (upd_req_entry n (\<lambda>_. ?e) r)"
    have "traverse_step lg2phy n s = Some (?c, ?r)" using e look None ids by (simp add: traverse_step_def s)
    moreover have "trav_inv c P L0 F req (Suc n) (?c, ?r)"
      unfolding trav_inv_def using rep same ents cnt None e ord
      by (intro exI [of _ ls] exI [of _ L] exI [of _ ?r])
         (auto simp: less_Suc_eq ent_def req_entry_upd lookup_of_def hits_Suc counted_def hit_lines_Suc)
    ultimately show ?thesis by blast
  next
    case (Some x)
    let ?e = "e\<lparr>mi_hash := key_hash (ca_coll c) ?k, mi_status := LOOKUP_HIT, mi_coll_idx := x, mi_core_line := rq_core_line_first req + n\<rparr>"
    let ?r = "upd_req_entry n (\<lambda>_. ?e) r"
    have x: "x \<in> part_lines P" using coll_map_range(1) [OF core] Some by simp
    then obtain p where p: "p < OCF_IO_CLASS_MAX" "x \<in> set (P p)" by (auto simp: part_lines_def)
    obtain ls' L' where hot: "ocf_eviction_set_hot_cache_line ?c x = Some (c\<lparr>ca_lru := ls'\<rparr>)"
      "cache_rep (c\<lparr>ca_lru := ls'\<rparr>) P L' F" "\<forall>q < OCF_IO_CLASS_MAX. \<forall>e. L' q e = to_front x (L q e)" using hot_rep [OF rep p] by auto
    have "used_first (hit_lines c req (Suc n)) (L0 q e) = to_front x (used_first (hit_lines c req n) (L0 q e))" if "q < OCF_IO_CLASS_MAX" for q e
      using used_first_snoc [of x "hit_lines c req n" "L0 q e"] hit_lines_new [of c req n x] part_lists_distinct(2) [OF core0 that, of e]
        cache_coreD(3) [OF core0] Some by (simp add: hit_lines_Suc)
    then have ord': "\<forall>q < OCF_IO_CLASS_MAX. \<forall>e. L' q e = used_first (hit_lines c req (Suc n)) (L0 q e)" using hot(3) ord by simp
    have core': "cache_core (c\<lparr>ca_lru := ls'\<rparr>) P L' F" using hot(2) by (simp add: cache_rep_def)
    have same2: "req_same req ?r" using same by simp
    have ok2: "req_ok (c\<lparr>ca_lru := ls'\<rparr>) ?r" by (rule req_ok_same [OF ok same2]) simp
    have e2: "req_entry ?r n = Some ?e" using e by (simp add: req_entry_upd)
    have v: "all_valid (c\<lparr>ca_lru := ls'\<rparr>) ?r n x = all_valid c req n x" by (rule all_valid_same [OF same2]) simp_all
    obtain r' where r': "ocf_engine_update_req_info lg2phy (c\<lparr>ca_lru := ls'\<rparr>) ?r n = Some r'" "req_same ?r r'"
      "\<forall>j. ent r' j = ent ?r j" "counted r' = (ri_hit_no (rq_info ?r) + (if all_valid c req n x then 1 else 0),
        ri_invalid_no (rq_info ?r) + (if all_valid c req n x then 0 else 1), ri_mapping_error (rq_info ?r))"
      using update_info_hit [OF core' ok2 _ e2, of x] n ids same2 x v by (auto simp: req_same_def)
    have "traverse_step lg2phy n s = Some (c\<lparr>ca_lru := ls'\<rparr>, r')"
      using e look Some ids hot(1) r'(1) by (simp add: traverse_step_def s Let_def)
    moreover have "trav_inv c P L0 F req (Suc n) (c\<lparr>ca_lru := ls'\<rparr>, r')"
      unfolding trav_inv_def using hot(2) ord' req_same_trans [OF same2 r'(2)] r'(3,4) ents cnt Some e
      by (intro exI [of _ ls'] exI [of _ L'] exI [of _ r'])
         (auto simp: less_Suc_eq ent_def req_entry_upd lookup_of_def hits_Suc counted_def)
    ultimately show ?thesis by blast
  qed
qed

lemma hits_disjoint: "hits c req n \<inter> partial_hits c req n = {}"
  by (auto simp: hits_def partial_hits_def)

lemma hits_card:
  shows "card (hits c req n) = n \<longleftrightarrow>
      (\<forall>i < n. \<exists>x. coll_map (ca_coll c) (rq_core_id req, rq_core_line_first req + i) = Some x \<and> all_valid c req i x)"
    and "card (hits c req n) + card (partial_hits c req n) = n \<longleftrightarrow>
      (\<forall>i < n. coll_map (ca_coll c) (rq_core_id req, rq_core_line_first req + i) \<noteq> None)"
    and "card (hits c req n) + card (partial_hits c req n) \<le> n"
proof -
  have full: "card A = n \<longleftrightarrow> (\<forall>i < n. i \<in> A)" if "A \<subseteq> {..<n}" for A
  proof
    assume "card A = n"
    then have "A = {..<n}" by (intro card_subset_eq) (use that in auto)
    then show "\<forall>i < n. i \<in> A" by simp
  next
    assume "\<forall>i < n. i \<in> A"
    then have "A = {..<n}" using that by blast
    then show "card A = n" by simp
  qed
  have u: "card (hits c req n) + card (partial_hits c req n) = card (hits c req n \<union> partial_hits c req n)"
    by (simp add: card_Un_disjoint [OF _ _ hits_disjoint])
  have sub: "hits c req n \<union> partial_hits c req n \<subseteq> {..<n}" by (auto simp: hits_def partial_hits_def)
  show "card (hits c req n) = n \<longleftrightarrow>
      (\<forall>i < n. \<exists>x. coll_map (ca_coll c) (rq_core_id req, rq_core_line_first req + i) = Some x \<and> all_valid c req i x)"
    using full [of "hits c req n"] by (auto simp: hits_def)
  show "card (hits c req n) + card (partial_hits c req n) = n \<longleftrightarrow>
      (\<forall>i < n. coll_map (ca_coll c) (rq_core_id req, rq_core_line_first req + i) \<noteq> None)"
    unfolding u full [OF sub] by (auto simp: hits_def partial_hits_def)
  show "card (hits c req n) + card (partial_hits c req n) \<le> n"
    using card_mono [OF finite_lessThan sub] by (simp add: u)
qed

lemma traverse_run:
  fixes c :: "'w::len wcache"
  assumes rep: "cache_rep c P L F" and ok: "req_ok c req"
  shows "\<exists>s. ocf_engine_traverse lg2phy c req = Some s \<and> trav_inv c P L F req (rq_core_line_count req) s"
proof -
  let ?n = "rq_core_line_count req"
  let ?r = "upd_info (\<lambda>r. r\<lparr>ri_seq_req := True\<rparr>) (ocf_req_clear_info req)"
  have idx: "req_indices ?r = [0..<?n]"
    using req_ok_indices [OF ok] by (simp add: req_indices_def upd_info_def ocf_req_clear_info_def)
  have "counted ?r = (card (hits c req 0), card (partial_hits c req 0), False)"
    by (simp add: counted_def ocf_req_clear_info_def req_info_zero_def hits_def partial_hits_def)
  then have "trav_inv c P L F req 0 (c, ?r)"
    unfolding trav_inv_def using rep
    by (intro exI [of _ "ca_lru c"] exI [of _ L] exI [of _ ?r]) (simp add: hit_lines_def List.map_filter_def)
  from fold_opt_upt [where I = "trav_inv c P L F req", OF traverse_step_inv [OF rep ok] this]
  show ?thesis by (fastforce simp: ocf_engine_traverse_def idx)
qed

lemma counted_hit_mapped:
  assumes "counted r = (card (hits c req n), card (partial_hits c req n), False)" "rq_core_line_count r = n" "n < U32_MOD"
  shows "ocf_engine_is_hit r \<longleftrightarrow> (\<forall>i < n. \<exists>x. coll_map (ca_coll c) (rq_core_id req, rq_core_line_first req + i) = Some x \<and> all_valid c req i x)"
    "ocf_engine_is_mapped r \<longleftrightarrow> (\<forall>i < n. coll_map (ca_coll c) (rq_core_id req, rq_core_line_first req + i) \<noteq> None)"
    "ocf_engine_mapped_count r = 0 \<longrightarrow> (\<forall>i < n. coll_map (ca_coll c) (rq_core_id req, rq_core_line_first req + i) = None)"
proof -
  have le: "card (hits c req n) + card (partial_hits c req n) < U32_MOD" using hits_card(3) [of c req n] assms(3) by linarith
  show "ocf_engine_is_hit r \<longleftrightarrow> (\<forall>i < n. \<exists>x. coll_map (ca_coll c) (rq_core_id req, rq_core_line_first req + i) = Some x \<and> all_valid c req i x)"
    "ocf_engine_is_mapped r \<longleftrightarrow> (\<forall>i < n. coll_map (ca_coll c) (rq_core_id req, rq_core_line_first req + i) \<noteq> None)"
    using assms hits_card(1,2) [of c req n] le by (simp_all add: ocf_engine_is_hit_def ocf_engine_is_mapped_def counted_def)
  have fin: "finite (hits c req n)" "finite (partial_hits c req n)" by (simp_all add: hits_def partial_hits_def)
  show "ocf_engine_mapped_count r = 0 \<longrightarrow> (\<forall>i < n. coll_map (ca_coll c) (rq_core_id req, rq_core_line_first req + i) = None)"
  proof
    assume "ocf_engine_mapped_count r = 0"
    then have "hits c req n = {}" "partial_hits c req n = {}"
      using assms(1) le fin by (simp_all add: ocf_engine_mapped_count_def counted_def)
    then show "\<forall>i < n. coll_map (ca_coll c) (rq_core_id req, rq_core_line_first req + i) = None"
      by (fastforce simp: hits_def partial_hits_def)
  qed
qed

text \<open>
  C10. Looking up a request: after \<^verbatim>\<open>ocf_engine_traverse\<close> every entry of the map says for its core line exactly what
  the cache holds: a hit with the cache line that keeps it, or a miss. In every LRU list the lines that are hit become the most
  recently used ones, the last one first, the other lines keep their order, and nothing else of the cache changes. The request
  counts as a hit exactly when all the sectors it touches are valid, and as mapped exactly when all its core lines have a
  cache line.
\<close>

theorem traverse_correct:
  fixes c :: "'w::len wcache"
  assumes rep: "cache_rep c P L F" and ok: "req_ok c req"
  shows "\<exists>ls L' req'. ocf_engine_traverse lg2phy c req = Some (c\<lparr>ca_lru := ls\<rparr>, req') \<and>
    cache_rep (c\<lparr>ca_lru := ls\<rparr>) P L' F \<and> req_same req req' \<and>
    (\<forall>p < OCF_IO_CLASS_MAX. \<forall>d. L' p d = used_first (hit_lines c req (rq_core_line_count req)) (L p d)) \<and>
    (\<forall>i < rq_core_line_count req. ent req' i = Some (lookup_of c req i)) \<and>
    (ocf_engine_is_hit req' \<longleftrightarrow> (\<forall>i < rq_core_line_count req. \<exists>x.
       coll_map (ca_coll c) (rq_core_id req, rq_core_line_first req + i) = Some x \<and> all_valid c req i x)) \<and>
    (ocf_engine_is_mapped req' \<longleftrightarrow> (\<forall>i < rq_core_line_count req.
       coll_map (ca_coll c) (rq_core_id req, rq_core_line_first req + i) \<noteq> None))"
proof -
  let ?n = "rq_core_line_count req"
  obtain s where s: "ocf_engine_traverse lg2phy c req = Some s" "trav_inv c P L F req ?n s" using traverse_run [OF rep ok] by blast
  then obtain ls L' r where r: "s = (c\<lparr>ca_lru := ls\<rparr>, r)" "cache_rep (c\<lparr>ca_lru := ls\<rparr>) P L' F" "req_same req r"
    "\<forall>j < ?n. ent r j = Some (lookup_of c req j)" "counted r = (card (hits c req ?n), card (partial_hits c req ?n), False)"
    "\<forall>p < OCF_IO_CLASS_MAX. \<forall>d. L' p d = used_first (hit_lines c req ?n) (L p d)"
    by (auto simp: trav_inv_def)
  have n: "rq_core_line_count r = ?n" "?n < U32_MOD" using r(3) ok by (auto simp: req_same_def req_ok_def)
  show ?thesis
    using s(1) r counted_hit_mapped [OF r(5) n] by (intro exI [of _ ls] exI [of _ L'] exI [of _ r]) simp
qed

definition example_lookup :: ocf_request where
  "example_lookup = request_zero\<lparr>rq_byte_position := 12288, rq_byte_length := 8192, rq_core_line_first := 3,
     rq_core_line_last := 4, rq_core_line_count := 2, rq_map := Some [map_info_zero, map_info_zero]\<rparr>"

lemma example_lookup_simps [simp]:
  "rq_core_line_count example_lookup = 2" "rq_core_line_first example_lookup = 3" "rq_core_line_last example_lookup = 4"
  "rq_core_id example_lookup = 0" "rq_part_id example_lookup = 0" "rq_map example_lookup = Some [map_info_zero, map_info_zero]"
  by (simp_all add: example_lookup_def request_zero_def)

lemma example_lookup_sectors [simp]:
  "ocf_map_line_start_sector (ca_line example_cache) example_lookup i = 0"
  "ocf_map_line_end_sector (ca_line example_cache) example_lookup i = 7"
  by (simp_all add: ocf_map_line_start_sector_def ocf_map_line_end_sector_def ocf_line_sectors_def ocf_line_end_sector_def
      BYTES_TO_SECTORS_def example_lookup_def example_cache_def request_zero_def)

lemma example_lookup_ok: "req_ok example_cache example_lookup"
  by (simp add: req_ok_def OCF_IO_CLASS_MAX_def OCF_CORE_MAX_def)

definition example_hit :: ocf_request where
  "example_hit = request_zero\<lparr>rq_byte_position := 8192, rq_byte_length := 8192, rq_core_line_first := 2,
     rq_core_line_last := 3, rq_core_line_count := 2, rq_map := Some [map_info_zero, map_info_zero]\<rparr>"

lemma example_hit_lines: "hit_lines example_cache example_hit 2 = [2, 3]"
proof -
  have "coll_map (ca_coll example_cache) (0, x) = Some x" if "x \<in> {1, 2, 3}" for x
    using that cache_coreD(3) [of example_cache example_P example_L example_F] example_cache_rep
    by (subst coll_map_iff) (simp_all add: cache_rep_def example_mapped, auto simp: line_key_def example_cache_def)
  then show ?thesis by (simp add: hit_lines_def List.map_filter_def numeral_2_eq_2 example_hit_def request_zero_def)
qed

theorem traverse_correct_witness:
  "\<exists>ls L' req'. ocf_engine_traverse (\<lambda>x. x) example_cache example_hit = Some (example_cache\<lparr>ca_lru := ls\<rparr>, req') \<and>
    cache_rep (example_cache\<lparr>ca_lru := ls\<rparr>) example_P L' example_F \<and> L' 0 False = [2, 1] \<and> L' 0 True = [3]"
proof -
  have "req_ok example_cache example_hit"
    by (simp add: req_ok_def OCF_IO_CLASS_MAX_def OCF_CORE_MAX_def example_hit_def request_zero_def ocf_map_line_start_sector_def
        ocf_map_line_end_sector_def ocf_line_sectors_def ocf_line_end_sector_def BYTES_TO_SECTORS_def example_cache_def)
  from traverse_correct [OF example_cache_rep this, of "\<lambda>x. x"] obtain ls L' req' where
    t: "ocf_engine_traverse (\<lambda>x. x) example_cache example_hit = Some (example_cache\<lparr>ca_lru := ls\<rparr>, req')"
      "cache_rep (example_cache\<lparr>ca_lru := ls\<rparr>) example_P L' example_F"
      "\<forall>p < OCF_IO_CLASS_MAX. \<forall>d. L' p d = used_first (hit_lines example_cache example_hit (rq_core_line_count example_hit)) (example_L p d)" by blast
  have "rq_core_line_count example_hit = 2" by (simp add: example_hit_def)
  with t(3) have "L' 0 d = used_first [2, 3] (example_L 0 d)" for d by (simp add: example_hit_lines OCF_IO_CLASS_MAX_def)
  then have "L' 0 False = [2, 1]" "L' 0 True = [3]" by (simp_all add: used_first_def example_L_def)
  with t(1,2) show ?thesis by blast
qed

subsection \<open>Mapping what is missing\<close>

definition req_key :: "ocf_request \<Rightarrow> nat \<Rightarrow> core_id \<times> core_line" where
  "req_key req i = (rq_core_id req, rq_core_line_first req + i)"

definition misses :: "'w::len wcache \<Rightarrow> ocf_request \<Rightarrow> nat \<Rightarrow> nat set" where
  "misses c req n = {i. i < n \<and> coll_map (ca_coll c) (req_key req i) = None}"

lemma req_key_inj [simp]: "req_key req i = req_key req j \<longleftrightarrow> i = j"
  by (simp add: req_key_def)

lemma misses_Suc:
  "misses c req (Suc n) = (if coll_map (ca_coll c) (req_key req n) = None then insert n (misses c req n) else misses c req n)"
  by (auto simp: misses_def less_Suc_eq)

lemma misses_finite [simp]: "finite (misses c req n)" "n \<notin> misses c req n"
  by (auto simp: misses_def)

lemma misses_mono: "m \<le> n \<Longrightarrow> card (misses c req m) \<le> card (misses c req n)"
  by (intro card_mono) (auto simp: misses_def)

text \<open>
  The loop after \<open>n\<close> entries: the misses among them have a line that was free, without sectors and without waiters; the
  rest of the request is as it was.
\<close>

definition map_inv ::
  "'w::len wcache \<Rightarrow> (nat \<Rightarrow> cline list) \<Rightarrow> ocf_request \<Rightarrow> nat \<Rightarrow> 'w wcache \<Rightarrow> ocf_request \<Rightarrow> bool" where
  "map_inv c F req n c' req' \<longleftrightarrow> (\<exists>P' L' F'. cache_rep c' P' L' F' \<and> free_lines (fl_count (ca_free c)) F' \<subseteq> free_lines (fl_count (ca_free c)) F) \<and>
     req_same req req' \<and> same_env c c' \<and> ca_status c' = ca_status c \<and> \<not> ri_mapping_error (rq_info req') \<and>
     total_free (ca_free c') + card (misses c req n) = total_free (ca_free c) \<and>
     (\<forall>i < n. \<exists>x. coll_map (ca_coll c') (req_key req i) = Some x \<and>
        (i \<in> misses c req n \<longrightarrow> x \<in> free_lines (fl_count (ca_free c)) F) \<and>
        ent req' i = Some (if i \<in> misses c req n then LOOKUP_MAPPED else LOOKUP_HIT, x, rq_core_line_first req + i)) \<and>
     (\<forall>k. k \<notin> req_key req ` misses c req n \<longrightarrow> coll_map (ca_coll c') k = coll_map (ca_coll c) k) \<and>
     (\<forall>i \<ge> n. ent req' i = ent req i)"

lemma map_inv_key:
  assumes "map_inv c F req n c1 r"
  shows "coll_map (ca_coll c1) (req_key req n) = coll_map (ca_coll c) (req_key req n)"
proof -
  have "req_key req n \<notin> req_key req ` misses c req n" by (auto simp: misses_def)
  then show ?thesis using assms unfolding map_inv_def by blast
qed

lemma upd_req_entry_fields [simp]:
  "rq_core_id (upd_req_entry i g r) = rq_core_id r" "rq_part_id (upd_req_entry i g r) = rq_part_id r"
  by (simp_all add: upd_req_entry_def)

lemma upd_req_entry_twice:
  assumes "req_entry r n = Some e"
  shows "upd_req_entry n g (upd_req_entry n (\<lambda>_. e') r) = upd_req_entry n (\<lambda>_. g e') r"
  using assms by (auto simp: upd_req_entry_def req_entry_def split: option.splits if_splits)

lemma upd_entry_hit:
  assumes "req_entry r n = Some e"
  shows "ent (upd_req_entry n (\<lambda>_. e') r) j = (if j = n then Some (mi_status e', mi_coll_idx e', mi_core_line e') else ent r j)"
  using assms by (simp add: ent_def req_entry_upd)

lemma map_step_hit:
  fixes c :: "'w::len wcache"
  assumes ok: "req_ok c req" and n: "n < rq_core_line_count req" and inv: "map_inv c F req n c1 r"
    and hit: "coll_map (ca_coll c) (req_key req n) = Some x"
  shows "\<exists>r2. map_step lg2phy n c1 r = Some (c1, r2, True) \<and> map_inv c F req (Suc n) c1 r2"
proof -
  obtain P' L' F' where rep: "cache_rep c1 P' L' F'" and sub: "free_lines (fl_count (ca_free c)) F' \<subseteq> free_lines (fl_count (ca_free c)) F"
    using inv by (auto simp: map_inv_def)
  have core: "cache_core c1 P' L' F'" using rep by (simp add: cache_rep_def)
  have same: "req_same req r" and env: "same_env c c1" using inv by (auto simp: map_inv_def)
  have ids: "rq_core_id r = rq_core_id req" "rq_core_line_first r = rq_core_line_first req"
    "rq_core_line_count r = rq_core_line_count req" using same by (auto simp: req_same_def)
  have ok1: "req_ok c1 r" by (rule req_ok_same [OF ok same]) (use env in \<open>simp add: same_env_def\<close>)
  obtain e where e: "req_entry r n = Some e" using req_ok_entry [OF ok1, of n] n ids by auto
  have k: "coll_map (ca_coll c1) (req_key req n) = Some x" using map_inv_key [OF inv] hit by simp
  let ?e = "e\<lparr>mi_hash := key_hash (ca_coll c1) (req_key req n), mi_status := LOOKUP_HIT, mi_coll_idx := x, mi_core_line := rq_core_line_first req + n\<rparr>"
  let ?r = "upd_req_entry n (\<lambda>_. ?e) r"
  have e2: "req_entry ?r n = Some ?e" using e by (simp add: req_entry_upd)
  have same2: "req_same req ?r" using same by simp
  have ok2: "req_ok c1 ?r" by (rule req_ok_same [OF ok1]) simp_all
  obtain r2 where r2: "ocf_engine_update_req_info lg2phy c1 ?r n = Some r2" "req_same ?r r2" "\<forall>j. ent r2 j = ent ?r j"
      "ri_mapping_error (rq_info r2) = ri_mapping_error (rq_info ?r)"
    using update_info_hit [OF core ok2 _ e2, of x] n ids same2 coll_map_range(1) [OF core k] by (auto simp: req_same_def counted_def)
  have "map_step lg2phy n c1 r = Some (c1, r2, True)"
    using e lookup_entry [OF cache_coreD(3) [OF core], of e "rq_core_id req" "rq_core_line_first req + n"] k ids r2(1)
    by (simp add: map_step_def req_key_def)
  moreover have "misses c req (Suc n) = misses c req n" using hit by (simp add: misses_Suc)
  moreover have "map_inv c F req (Suc n) c1 r2"
    using inv req_same_trans [OF same2 r2(2)] k hit
    unfolding map_inv_def \<open>misses c req (Suc n) = misses c req n\<close> r2(3,4)
    by (auto simp: less_Suc_eq r2(3) upd_entry_hit [OF e])
  ultimately show ?thesis by blast
qed

lemma map_step_miss:
  fixes c :: "'w::len wcache"
  assumes ok: "req_ok c req" and n: "n < rq_core_line_count req" and inv: "map_inv c F req n c1 r"
    and miss: "coll_map (ca_coll c) (req_key req n) = None" and free: "0 < total_free (ca_free c1)"
  shows "\<exists>c2 r2. map_step lg2phy n c1 r = Some (c2, r2, True) \<and> map_inv c F req (Suc n) c2 r2"
proof -
  let ?n = "fl_count (ca_free c)"
  obtain P' L' F' where rep: "cache_rep c1 P' L' F'" and sub: "free_lines ?n F' \<subseteq> free_lines ?n F"
    using inv by (auto simp: map_inv_def)
  have core: "cache_core c1 P' L' F'" using rep by (simp add: cache_rep_def)
  have same: "req_same req r" and env: "same_env c c1" using inv by (auto simp: map_inv_def)
  have ids: "rq_core_id r = rq_core_id req" "rq_core_line_first r = rq_core_line_first req" "rq_part_id r = rq_part_id req"
    "rq_core_line_count r = rq_core_line_count req" using same by (auto simp: req_same_def)
  have ok1: "req_ok c1 r" by (rule req_ok_same [OF ok same]) (use env in \<open>simp add: same_env_def\<close>)
  obtain e where e: "req_entry r n = Some e" using req_ok_entry [OF ok1, of n] n ids by auto
  have k: "coll_map (ca_coll c1) (req_key req n) = None" using map_inv_key [OF inv] miss by simp
  have pc: "rq_part_id req < OCF_IO_CLASS_MAX" "rq_core_id req < OCF_CORE_MAX" using ok by (auto simp: req_ok_def)
  obtain x c2 j where m: "ocf_engine_map_cache_line c1 (rq_core_id req) (rq_part_id req) (rq_core_line_first req + n)
       (key_hash (ca_coll c1) (req_key req n)) = Some (Some x, c2)"
    "j < ?n" "F' j \<noteq> []" "x = hd (F' j)"
    "\<exists>P L. cache_rep c2 P L (F'(j := tl (F' j)))" "coll_map (ca_coll c2) = (coll_map (ca_coll c1))(req_key req n \<mapsto> x)"
    "ca_status c2 = ca_status c1" "total_free (ca_free c2) + 1 = total_free (ca_free c1)" "same_env c1 c2"
    by (rule map_cache_line_rep [OF rep free pc k [unfolded req_key_def]]) (use env in \<open>auto simp: req_key_def same_env_def\<close>)
  let ?e0 = "e\<lparr>mi_hash := key_hash (ca_coll c1) (req_key req n), mi_status := LOOKUP_MISS, mi_coll_idx := ca_entries c1, mi_core_line := rq_core_line_first req + n\<rparr>"
  let ?e = "?e0\<lparr>mi_coll_idx := x, mi_status := LOOKUP_MAPPED\<rparr>"
  let ?r = "upd_req_entry n (\<lambda>_. ?e) r"
  have env2: "same_env c c2" by (rule same_env_trans [OF env m(9)])
  have e2: "req_entry ?r n = Some ?e" using e by (simp add: req_entry_upd)
  have same2: "req_same req ?r" using same by simp
  have ok2: "req_ok c2 ?r" by (rule req_ok_same [OF ok same2]) (use env2 in \<open>simp add: same_env_def\<close>)
  obtain r2 where r2: "ocf_engine_update_req_info lg2phy c2 ?r n = Some r2" "req_same ?r r2" "\<forall>j. ent r2 j = ent ?r j"
      "ri_mapping_error (rq_info r2) = ri_mapping_error (rq_info ?r)"
    using update_info_mapped [OF ok2 _ e2] n ids same2 by (auto simp: req_same_def counted_def)
  have "map_step lg2phy n c1 r = Some (c2, r2, True)"
    using e lookup_entry [OF cache_coreD(3) [OF core], of e "rq_core_id req" "rq_core_line_first req + n"] k ids r2(1) m(1)
    by (simp add: map_step_def req_key_def Let_def upd_req_entry_twice [OF e])
  moreover have s: "misses c req (Suc n) = insert n (misses c req n)" using miss by (simp add: misses_Suc)
  moreover have "x \<in> free_lines ?n F" using lines_sub(2) [OF m(2), of F'] m(3,4) sub hd_in_set by blast
  moreover have "free_lines ?n (F'(j := tl (F' j))) \<subseteq> free_lines ?n F"
    using sub free_lines_upd [OF m(2), of F'] free_lines_split [OF m(2), of F'] m(3) by (auto dest: list.set_sel(2))
  moreover have "map_inv c F req (Suc n) c2 r2"
    using inv req_same_trans [OF same2 r2(2)] env2 m(5-8) calculation
    unfolding map_inv_def s r2(3,4)
    by (auto simp: less_Suc_eq r2(3) upd_entry_hit [OF e])
  ultimately show ?thesis by blast
qed

subsection \<open>Undoing a mapping\<close>

definition mapped_entries :: "ocf_request \<Rightarrow> nat \<Rightarrow> nat set" where
  "mapped_entries r n = {i. i < n \<and> (\<exists>x cl. ent r i = Some (LOOKUP_MAPPED, x, cl))}"

lemma mapped_entries_Suc:
  "mapped_entries r (Suc n) = (if \<exists>x cl. ent r n = Some (LOOKUP_MAPPED, x, cl) then insert n (mapped_entries r n) else mapped_entries r n)"
  by (auto simp: mapped_entries_def less_Suc_eq)

lemma mapped_entries_finite [simp]: "finite (mapped_entries r n)" "n \<notin> mapped_entries r n"
  by (auto simp: mapped_entries_def)

definition same_sectors :: "'w::len wcache \<Rightarrow> 'w wcache \<Rightarrow> bool" where
  "same_sectors c c' \<longleftrightarrow> sec_set Valid (ca_status c') = sec_set Valid (ca_status c) \<and> sec_set Dirty (ca_status c') = sec_set Dirty (ca_status c)"

definition undo_inv :: "'w::len wcache \<Rightarrow> ocf_request \<Rightarrow> nat \<Rightarrow> 'w wcache \<Rightarrow> bool" where
  "undo_inv c r n c' \<longleftrightarrow> (\<exists>P L F. cache_rep c' P L F) \<and> same_env c c' \<and> same_sectors c c' \<and>
     coll_map (ca_coll c') = (\<lambda>k. if k \<in> req_key r ` mapped_entries r n then None else coll_map (ca_coll c) k) \<and>
     total_free (ca_free c') = total_free (ca_free c) + card (mapped_entries r n)"

text \<open>The entries that may be undone: what they map holds no sectors and nobody waits for it.\<close>

definition undo_ok :: "'w::len wcache \<Rightarrow> ocf_request \<Rightarrow> nat \<Rightarrow> bool" where
  "undo_ok c r i \<longleftrightarrow> (\<exists>st x cl. ent r i = Some (st, x, cl) \<and> (st = LOOKUP_HIT \<or> st = LOOKUP_MISS \<or>
     st = LOOKUP_MAPPED \<and> coll_map (ca_coll c) (req_key r i) = Some x \<and> sec_valid c x = {} \<and> sec_dirty c x = {} \<and>
       \<not> are_waiters (ca_locks c) x))"

lemma clean_line:
  assumes core: "cache_core c P L F" and x: "x \<in> part_lines P" "sec_dirty c x = {}"
  obtains p where "p < OCF_IO_CLASS_MAX" and "x \<in> set (L p False)"
  using x cache_coreD(10) [OF core] by (auto simp: part_lines_def)

lemma undo_step:
  fixes c :: "'w::len wcache"
  assumes ok: "undo_ok c r n" and inv: "undo_inv c r n c1"
  shows "\<exists>c2. map_hndl_step r n c1 = Some c2 \<and> undo_inv c r (Suc n) c2"
proof -
  obtain e where e: "req_entry r n = Some e" using ok by (auto simp: undo_ok_def ent_def)
  show ?thesis
  proof (cases "mi_status e = LOOKUP_MAPPED")
    case False
    then have "mapped_entries r (Suc n) = mapped_entries r n" using e by (auto simp: mapped_entries_Suc ent_def)
    then have "undo_inv c r (Suc n) c1" using inv unfolding undo_inv_def by simp
    moreover have "map_hndl_step r n c1 = Some c1" using False ok e by (auto simp: undo_ok_def ent_def map_hndl_step_def)
    ultimately show ?thesis by blast
  next
    case True
    define x where "x = mi_coll_idx e"
    have x: "coll_map (ca_coll c) (req_key r n) = Some x" "sec_valid c x = {}" "sec_dirty c x = {}"
      "\<not> are_waiters (ca_locks c) x" using ok e True by (auto simp: undo_ok_def ent_def x_def)
    obtain P L F where rep: "cache_rep c1 P L F" using inv by (auto simp: undo_inv_def)
    have core: "cache_core c1 P L F" using rep by (simp add: cache_rep_def)
    have secs: "sec_set what (ca_status c1) = sec_set what (ca_status c)" for what
      using inv by (cases what) (simp_all add: undo_inv_def same_sectors_def)
    have env: "same_env c c1" using inv by (simp add: undo_inv_def)
    have cm: "coll_map (ca_coll c1) = (\<lambda>k. if k \<in> req_key r ` mapped_entries r n then None else coll_map (ca_coll c) k)"
      using inv unfolding undo_inv_def by blast
    have "req_key r n \<notin> req_key r ` mapped_entries r n" by (auto simp: mapped_entries_def)
    then have k: "coll_map (ca_coll c1) (req_key r n) = Some x" using x(1) cm by simp
    have key: "line_key (ca_coll c1) x = req_key r n" using coll_map_iff [OF cache_coreD(3) [OF core]] k by simp
    obtain p where p: "p < OCF_IO_CLASS_MAX" "x \<in> set (L p False)"
      by (rule clean_line [OF core coll_map_range(1) [OF core k]]) (use secs [of Dirty] x(3) in simp)
    obtain c2 where c2: "set_cache_line_invalid_no_flush c1 0 (ocf_line_end_sector (ca_line c1)) x = Some c2"
      "\<exists>P L F. cache_rep c2 P L F" "coll_map (ca_coll c2) = (coll_map (ca_coll c1))(req_key r n := None)"
      "sec_set Valid (ca_status c2) = (sec_set Valid (ca_status c1))(x := {})"
      "sec_set Dirty (ca_status c2) = sec_set Dirty (ca_status c1)"
      "total_free (ca_free c2) = total_free (ca_free c1) + 1" "same_env c1 c2"
      by (rule invalidate_clean [OF rep p]) (use env x(4) key in \<open>auto simp: same_env_def\<close>)
    have me: "mapped_entries r (Suc n) = insert n (mapped_entries r n)"
      using e True by (auto simp: mapped_entries_Suc ent_def)
    have "undo_inv c r (Suc n) c2"
      unfolding undo_inv_def me
      using c2(2,4-6) secs x(2) same_env_trans [OF env c2(7)] inv
      by (auto simp: same_sectors_def undo_inv_def c2(3) cm fun_eq_iff fun_upd_idem)
    moreover have "map_hndl_step r n c1 = Some c2" using e True c2(1) by (simp add: map_hndl_step_def x_def)
    ultimately show ?thesis by blast
  qed
qed

lemma undo_all:
  assumes rep: "cache_rep c P L F" and ok: "\<forall>i < rq_core_line_count r. undo_ok c r i"
  shows "\<exists>c'. ocf_engine_map_hndl_error c r = Some c' \<and> undo_inv c r (rq_core_line_count r) c'"
  unfolding ocf_engine_map_hndl_error_def
proof (rule fold_opt_upt [where I = "undo_inv c r"])
  show "undo_inv c r 0 c" using rep by (auto simp: undo_inv_def same_sectors_def mapped_entries_def)
qed (use undo_step ok in blast)

definition looked_up :: "ocf_request \<Rightarrow> bool" where
  "looked_up req \<longleftrightarrow> (\<forall>i < rq_core_line_count req. \<exists>st x cl. ent req i = Some (st, x, cl) \<and> (st = LOOKUP_HIT \<or> st = LOOKUP_MISS))"

definition free_idle :: "'w::len wcache \<Rightarrow> (nat \<Rightarrow> cline list) \<Rightarrow> bool" where
  "free_idle c F \<longleftrightarrow> (\<forall>x \<in> free_lines (fl_count (ca_free c)) F. \<not> are_waiters (ca_locks c) x)"

definition undone :: "'w::len wcache \<Rightarrow> ocf_request \<Rightarrow> 'w wcache \<Rightarrow> ocf_request \<Rightarrow> bool" where
  "undone c req c' req' \<longleftrightarrow> (\<exists>P L F. cache_rep c' P L F) \<and> req_same req req' \<and> same_env c c' \<and> same_sectors c c' \<and>
     ri_mapping_error (rq_info req') \<and> coll_map (ca_coll c') = coll_map (ca_coll c) \<and>
     total_free (ca_free c') = total_free (ca_free c)"

lemma map_inv_undo_ok:
  fixes c :: "'w::len wcache"
  assumes rep: "cache_rep c P L F" and idle: "free_idle c F" and inv: "map_inv c F req n c1 r" and i: "i < n"
    and r': "ent r' i = ent r i" "req_same req r'" and c2: "same_lines c1 c2"
  shows "undo_ok c2 r' i" and "i \<in> misses c req n \<longleftrightarrow> (\<exists>x cl. ent r' i = Some (LOOKUP_MAPPED, x, cl))"
proof -
  obtain x where x: "coll_map (ca_coll c1) (req_key req i) = Some x"
    "i \<in> misses c req n \<Longrightarrow> x \<in> free_lines (fl_count (ca_free c)) F"
    "ent r i = Some (if i \<in> misses c req n then LOOKUP_MAPPED else LOOKUP_HIT, x, rq_core_line_first req + i)"
    using inv i unfolding map_inv_def by blast
  have st: "ca_status c1 = ca_status c" "ca_locks c1 = ca_locks c" using inv by (auto simp: map_inv_def same_env_def)
  have key: "req_key r' i = req_key req i" using r'(2) by (simp add: req_key_def req_same_def)
  have "sec_valid c x = {} \<and> sec_dirty c x = {} \<and> \<not> are_waiters (ca_locks c) x" if "i \<in> misses c req n"
    using x(2) [OF that] rep idle by (simp add: cache_rep_def free_idle_def)
  then show "undo_ok c2 r' i"
    using x(1,3) st r'(1) key c2 by (simp add: undo_ok_def same_lines_def same_env_def)
  show "i \<in> misses c req n \<longleftrightarrow> (\<exists>x cl. ent r' i = Some (LOOKUP_MAPPED, x, cl))" using x(3) r'(1) by simp
qed

lemma map_step_full:
  fixes c :: "'w::len wcache"
  assumes rep: "cache_rep c P L F" and idle: "free_idle c F" and ok: "req_ok c req" and up: "looked_up req"
    and n: "n < rq_core_line_count req" and inv: "map_inv c F req n c1 r"
    and miss: "coll_map (ca_coll c) (req_key req n) = None" and full: "total_free (ca_free c1) = 0"
  shows "\<exists>c2 r2. map_step lg2phy n c1 r = Some (c2, r2, False) \<and> undone c req c2 r2"
proof -
  obtain P' L' F' where rep1: "cache_rep c1 P' L' F'" using inv by (auto simp: map_inv_def)
  have core1: "cache_core c1 P' L' F'" using rep1 by (simp add: cache_rep_def)
  have same: "req_same req r" and env: "same_env c c1" using inv by (auto simp: map_inv_def)
  have ids: "rq_core_id r = rq_core_id req" "rq_core_line_first r = rq_core_line_first req" "rq_part_id r = rq_part_id req"
    "rq_core_line_count r = rq_core_line_count req" using same by (auto simp: req_same_def)
  have ok1: "req_ok c1 r" by (rule req_ok_same [OF ok same]) (use env in \<open>simp add: same_env_def\<close>)
  obtain e where e: "req_entry r n = Some e" using req_ok_entry [OF ok1, of n] n ids by auto
  have k: "coll_map (ca_coll c1) (req_key req n) = None" using map_inv_key [OF inv] miss by simp
  let ?e = "e\<lparr>mi_hash := key_hash (ca_coll c1) (req_key req n), mi_status := LOOKUP_MISS, mi_coll_idx := ca_entries c1, mi_core_line := rq_core_line_first req + n\<rparr>"
  let ?r = "upd_info (\<lambda>r. r\<lparr>ri_mapping_error := True\<rparr>) (upd_req_entry n (\<lambda>_. ?e) r)"
  let ?c = "c1\<lparr>ca_gets := ca_gets c1 + 1\<rparr>"
  have sl: "same_lines c1 ?c" by (simp add: same_lines_def same_env_def counters_def)
  have same2: "req_same req ?r" using same by simp
  have entr: "ent ?r j = (if j = n then Some (LOOKUP_MISS, ca_entries c1, rq_core_line_first req + n) else ent r j)" for j
    using upd_entry_hit [OF e, of ?e j] by (simp add: ent_def)
  note mi = map_inv_undo_ok [OF rep idle inv _ _ same2 sl]
  have late: "ent r j = ent req j" if "n \<le> j" for j using inv that by (simp add: map_inv_def)
  have "undo_ok ?c ?r i" if "i < rq_core_line_count req" for i
  proof (cases "i < n")
    case True
    then show ?thesis using mi(1) [of i] entr [of i] by simp
  next
    case False
    then show ?thesis using up that late [of i] entr [of i] by (auto simp: undo_ok_def looked_up_def split: if_splits)
  qed
  then obtain c2 where c2: "ocf_engine_map_hndl_error ?c ?r = Some c2" "undo_inv ?c ?r (rq_core_line_count req) c2"
    using undo_all [of ?c P' L' F' ?r] rep1 same2 same_lines_rep [OF sl] by (auto simp: req_same_def)
  have me: "mapped_entries ?r (rq_core_line_count req) = misses c req n"
  proof -
    have "i \<in> misses c req n \<longleftrightarrow> i < rq_core_line_count req \<and> (\<exists>x cl. ent ?r i = Some (LOOKUP_MAPPED, x, cl))" for i
    proof (cases "i < n")
      case True
      then show ?thesis using mi(2) [of i] entr [of i] n by simp
    next
      case False
      then show ?thesis using up late [of i] entr [of i] by (auto simp: misses_def looked_up_def)
    qed
    then show ?thesis by (auto simp: mapped_entries_def)
  qed
  have keys: "req_key ?r = req_key req" using same2 by (auto simp: req_key_def req_same_def)
  have "coll_map (ca_coll c2) = coll_map (ca_coll c)"
  proof
    fix k
    have "coll_map (ca_coll c2) k = (if k \<in> req_key req ` misses c req n then None else coll_map (ca_coll c1) k)"
      using c2(2) unfolding undo_inv_def me keys by simp
    moreover have "coll_map (ca_coll c1) k = coll_map (ca_coll c) k" if "k \<notin> req_key req ` misses c req n"
      using inv that unfolding map_inv_def by blast
    moreover have "coll_map (ca_coll c) k = None" if "k \<in> req_key req ` misses c req n" using that by (auto simp: misses_def)
    ultimately show "coll_map (ca_coll c2) k = coll_map (ca_coll c) k" by simp
  qed
  moreover have "total_free (ca_free c2) = total_free (ca_free c)"
    using c2(2) inv full unfolding undo_inv_def me map_inv_def by simp
  moreover have "same_env c c2" "\<exists>P L F. cache_rep c2 P L F" "same_sectors c c2"
    using c2(2) same_env_trans [OF env, of c2] inv unfolding undo_inv_def map_inv_def same_sectors_def by (auto simp: same_env_def)
  ultimately have "undone c req c2 ?r" using same2 by (simp add: undone_def)
  moreover have "ocf_engine_map_cache_line c1 (rq_core_id req) (rq_part_id req) (rq_core_line_first req + n)
      (key_hash (ca_coll c1) (req_key req n)) = Some (None, ?c)"
    using full by (simp add: ocf_engine_map_cache_line_def ocf_freelist_get_cache_line_def)
  then have "map_step lg2phy n c1 r = Some (c2, ?r, False)"
    using e lookup_entry [OF cache_coreD(3) [OF core1], of e "rq_core_id req" "rq_core_line_first req + n"] k ids c2(1)
    by (simp add: map_step_def req_key_def Let_def)
  ultimately show ?thesis by blast
qed

lemma map_loop_result:
  fixes c :: "'w::len wcache"
  assumes rep: "cache_rep c P L F" and idle: "free_idle c F" and ok: "req_ok c req" and up: "looked_up req"
    and n: "n \<le> rq_core_line_count req" and inv: "map_inv c F req n c1 r"
  defines "N \<equiv> rq_core_line_count req"
  shows "\<exists>c2 r2. map_loop lg2phy [n..<N] (c1, r) = Some (c2, r2) \<and>
    (if card (misses c req N) \<le> total_free (ca_free c) then map_inv c F req N c2 r2 else undone c req c2 r2)"
  using n inv unfolding N_def [symmetric]
proof (induction "N - n" arbitrary: n c1 r)
  case 0
  then have "n = N" "card (misses c req n) \<le> total_free (ca_free c)" by (auto simp: map_inv_def)
  then show ?case using 0 by simp
next
  case (Suc m)
  then have n: "n < rq_core_line_count req" and upt: "[n..<N] = n # [Suc n..<N]"
    by (auto simp: N_def upt_conv_Cons)
  have IH: "map_inv c F req (Suc n) c' r' \<Longrightarrow> ?case" if "map_step lg2phy n c1 r = Some (c', r', True)" for c' r'
  proof -
    assume "map_inv c F req (Suc n) c' r'"
    moreover have "m = N - Suc n" "Suc n \<le> N" using Suc.hyps(2) n by (auto simp: N_def)
    ultimately show ?case using Suc.hyps(1) [of "Suc n" c' r'] that unfolding upt by simp
  qed
  show ?case
  proof (cases "coll_map (ca_coll c) (req_key req n)")
    case (Some x)
    then show ?thesis using map_step_hit [OF ok n Suc.prems(2) Some, of lg2phy] IH by blast
  next
    case None
    have tf: "total_free (ca_free c1) + card (misses c req n) = total_free (ca_free c)" using Suc.prems(2) by (simp add: map_inv_def)
    have le: "card (misses c req (Suc n)) \<le> card (misses c req N)" using n by (intro misses_mono) (simp add: N_def)
    show ?thesis
    proof (cases "total_free (ca_free c1) = 0")
      case True
      then have "\<not> card (misses c req N) \<le> total_free (ca_free c)" using tf le None by (simp add: misses_Suc)
      moreover obtain c2 r2 where "map_step lg2phy n c1 r = Some (c2, r2, False)" "undone c req c2 r2"
        using map_step_full [OF rep idle ok up n Suc.prems(2) None True] by blast
      ultimately show ?thesis by (simp add: upt)
    next
      case False
      then show ?thesis using map_step_miss [OF ok n Suc.prems(2) None, of lg2phy] IH by blast
    qed
  qed
qed

text \<open>
  C11. Mapping a request is all or nothing. When enough lines are free, every core line of the request
  ends with a cache line: those that had one keep it, the others take a free line, and the entries of the map name these lines.
  When the free lines run out on the way, what was mapped is undone: the cache holds the same core lines with the
  same sectors as before, as many lines are free, and the request is marked with a mapping error. Other core lines never change,
  and no assertion fails.
\<close>

theorem map_all_or_nothing:
  fixes c :: "'w::len wcache"
  assumes rep: "cache_rep c P L F" and idle: "free_idle c F" and ok: "req_ok c req" and up: "looked_up req"
    and need: "0 < ocf_engine_unmapped_count req" "ocf_engine_unmapped_count req \<le> ocf_freelist_num_free (ca_free c)"
  shows "\<exists>c' req'. ocf_engine_map lg2phy c req = Some (c', req') \<and> (\<exists>P' L' F'. cache_rep c' P' L' F') \<and> same_sectors c c' \<and>
    ri_mapping_error (rq_info req') = (total_free (ca_free c) < card (misses c req (rq_core_line_count req))) \<and>
    (if ri_mapping_error (rq_info req')
     then coll_map (ca_coll c') = coll_map (ca_coll c) \<and> total_free (ca_free c') = total_free (ca_free c)
     else (\<forall>i < rq_core_line_count req. \<exists>x. coll_map (ca_coll c') (req_key req i) = Some x \<and>
             ent req' i = Some (if coll_map (ca_coll c) (req_key req i) = None then LOOKUP_MAPPED else LOOKUP_HIT, x, rq_core_line_first req + i)) \<and>
          (\<forall>k. k \<notin> req_key req ` misses c req (rq_core_line_count req) \<longrightarrow> coll_map (ca_coll c') k = coll_map (ca_coll c) k) \<and>
          total_free (ca_free c') + card (misses c req (rq_core_line_count req)) = total_free (ca_free c))"
proof -
  let ?N = "rq_core_line_count req" and ?r = "upd_info (\<lambda>r. r\<lparr>ri_seq_req := True\<rparr>) (ocf_req_clear_info req)"
  have ents: "ent ?r i = ent req i" for i by (simp add: ent_def ocf_req_clear_info_def req_entry_def upd_info_def)
  have "map_inv c F req 0 c ?r"
    unfolding map_inv_def using rep
    by (auto simp: misses_def ents) (simp add: ocf_req_clear_info_def req_info_zero_def)
  from map_loop_result [OF rep idle ok up _ this, of lg2phy]
  obtain c2 r2 where loop: "map_loop lg2phy [0..<?N] (c, ?r) = Some (c2, r2)"
    and res: "if card (misses c req ?N) \<le> total_free (ca_free c) then map_inv c F req ?N c2 r2 else undone c req c2 r2" by auto
  have idx: "req_indices ?r = [0..<?N]"
    using req_ok_indices [OF ok] by (simp add: req_indices_def upd_info_def ocf_req_clear_info_def)
  define c3 where "c3 = (if ri_mapping_error (rq_info r2) then c2
    else emit (PromotionPurge (rq_core_id r2) (rq_core_line_first r2) (rq_core_line_last r2)) c2)"
  have sl: "same_lines c2 c3" by (simp add: c3_def same_lines_def same_env_def counters_def emit_def)
  have run: "ocf_engine_map lg2phy c req = Some (c3, r2)"
    using need loop idx by (simp add: ocf_engine_map_def Let_def c3_def)
  have err: "ri_mapping_error (rq_info r2) = (total_free (ca_free c) < card (misses c req ?N))"
    using res by (auto simp: map_inv_def undone_def split: if_splits)
  have rest: "(\<exists>P' L' F'. cache_rep c3 P' L' F')" "same_sectors c c3"
    using res same_lines_rep [OF sl] sl by (auto simp: map_inv_def undone_def same_sectors_def same_lines_def split: if_splits)
  have c3: "coll_map (ca_coll c3) = coll_map (ca_coll c2)" "total_free (ca_free c3) = total_free (ca_free c2)"
    using sl by (auto simp: same_lines_def)
  have "if ri_mapping_error (rq_info r2)
    then coll_map (ca_coll c3) = coll_map (ca_coll c) \<and> total_free (ca_free c3) = total_free (ca_free c)
    else (\<forall>i < ?N. \<exists>x. coll_map (ca_coll c3) (req_key req i) = Some x \<and>
           ent r2 i = Some (if coll_map (ca_coll c) (req_key req i) = None then LOOKUP_MAPPED else LOOKUP_HIT, x, rq_core_line_first req + i)) \<and>
        (\<forall>k. k \<notin> req_key req ` misses c req ?N \<longrightarrow> coll_map (ca_coll c3) k = coll_map (ca_coll c) k) \<and>
        total_free (ca_free c3) + card (misses c req ?N) = total_free (ca_free c)"
      using res err unfolding c3 by (fastforce simp: map_inv_def undone_def misses_def)
  then show ?thesis using run err rest by (intro exI [of _ c3] exI [of _ r2] conjI)
qed

definition example_map_req :: ocf_request where
  "example_map_req = example_lookup\<lparr>rq_info := req_info_zero\<lparr>ri_hit_no := 1\<rparr>,
     rq_map := Some [map_info_zero\<lparr>mi_status := LOOKUP_HIT, mi_coll_idx := 3, mi_core_line := 3\<rparr>,
                     map_info_zero\<lparr>mi_status := LOOKUP_MISS, mi_coll_idx := 4, mi_core_line := 4\<rparr>]\<rparr>"

lemma example_map_ok:
  "req_ok example_cache example_map_req" "looked_up example_map_req" "free_idle example_cache example_F"
  "ocf_engine_unmapped_count example_map_req = 1"
proof -
  have "req_same example_lookup example_map_req" by (simp add: req_same_def example_map_req_def)
  then show "req_ok example_cache example_map_req" by (rule req_ok_same [OF example_lookup_ok]) simp
  have "i = 0 \<or> i = 1" if "i < 2" for i :: nat using that by auto
  then show "looked_up example_map_req"
    by (force simp: looked_up_def example_map_req_def ent_def req_entry_def)
  show "free_idle example_cache example_F" by (simp add: free_idle_def example_cache_def are_waiters_def)
  show "ocf_engine_unmapped_count example_map_req = 1"
    by (simp add: ocf_engine_unmapped_count_def example_map_req_def req_info_zero_def)
qed

theorem map_all_or_nothing_witness:
  "\<exists>c' req'. ocf_engine_map (\<lambda>x. x) example_cache example_map_req = Some (c', req') \<and>
    (\<exists>P' L' F'. cache_rep c' P' L' F') \<and> same_sectors example_cache c' \<and>
    ri_mapping_error (rq_info req') = (1 < card (misses example_cache example_map_req 2))"
proof -
  have n: "rq_core_line_count example_map_req = 2" by (simp add: example_map_req_def)
  show ?thesis
    using map_all_or_nothing [OF example_cache_rep example_map_ok(3,1,2), of "\<lambda>x. x"] example_map_ok(4)
    unfolding n example_cache_simps ocf_freelist_num_free_def by simp blast
qed

end
