(* ===== verification/Nhit.thy ===== *)
theory Nhit
  imports Engine
begin

section \<open>The n-hit promotion policy\<close>

text \<open>
  \<^verbatim>\<open>src/promotion/nhit/nhit_hash.c\<close>, \<^verbatim>\<open>src/promotion/nhit/nhit.c\<close> and
  \<^verbatim>\<open>src/promotion/promotion.c\<close>. The policy counts the accesses to core lines in a ring buffer whose slots are
  chained in hash buckets; a line enters the cache from its n-th access on. When the ring is full the oldest slot is
  reused. The bucket locks and the lock of the ring pointer are locks of the environment; the functions below run
  under them.
\<close>

definition OCF_ERR_INVAL :: int where "OCF_ERR_INVAL = 1000000"
definition OCF_ERR_UNKNOWN :: int where "OCF_ERR_UNKNOWN = 1000010"
definition OCF_ERR_NO_FREE_RAM :: int where "OCF_ERR_NO_FREE_RAM = 1000012"

subsection \<open>State\<close>

definition HASH_PRIME :: nat where "HASH_PRIME = 4099"

text \<open>The arrays are functions of the index; the fields of \<^verbatim>\<open>struct nhit_list_elem\<close> are kept one by one.\<close>

record nhit_hash =
  nh_hash_entries :: nat
  nh_rb_entries :: nat
  nh_map :: "nat \<Rightarrow> cline"
  nh_lba :: "nat \<Rightarrow> u64"
  nh_counter :: "nat \<Rightarrow> int"
  nh_prev :: "nat \<Rightarrow> cline"
  nh_next :: "nat \<Rightarrow> cline"
  nh_core :: "nat \<Rightarrow> core_id"
  nh_valid :: "nat \<Rightarrow> bool"
  nh_ptr :: nat

definition OCF_DIV_ROUND_UP :: "nat \<Rightarrow> nat \<Rightarrow> nat" where
  "OCF_DIV_ROUND_UP x y = (x + y - 1) div y"

text \<open>An atomic counter is a 32 bit signed integer.\<close>

definition s32 :: "int \<Rightarrow> int" where
  "s32 x = (x + 2 ^ 31) mod 2 ^ 32 - 2 ^ 31"

definition calculate_hash_buckets :: "u64 \<Rightarrow> u64" where
  "calculate_hash_buckets hash_size =
     (OCF_DIV_ROUND_UP (hash_size div 4) HASH_PRIME * HASH_PRIME + U64_MOD - 1) mod U64_MOD"

text \<open>The sizes of the C structures are parameters: the structure, an index, a semaphore, an element.\<close>

definition nhit_hash_sizeof :: "nat \<times> nat \<times> nat \<times> nat \<Rightarrow> u64 \<Rightarrow> u64" where
  "nhit_hash_sizeof = (\<lambda>(sz_hash, sz_line, sz_sem, sz_elem) hash_size.
     let n_buckets = calculate_hash_buckets hash_size
     in (sz_hash + n_buckets * sz_line + n_buckets * sz_sem + hash_size * sz_elem) mod U64_MOD)"

text \<open>
  What can fail when the structure is made: the allocations of the structure, the map, the locks and the ring, the
  initialisation of the semaphores and of the spin lock.
\<close>

record nhit_env =
  ne_ctx :: bool
  ne_map :: bool
  ne_locks :: bool
  ne_sem :: bool
  ne_ring :: bool
  ne_spin :: int

definition nhit_hash_init :: "nhit_env \<Rightarrow> u64 \<Rightarrow> int + nhit_hash" where
  "nhit_hash_init env hash_size =
     (if \<not> ne_ctx env then Inl (- OCF_ERR_NO_MEM)
      else let hash_entries = calculate_hash_buckets hash_size mod U32_MOD
      in if \<not> ne_map env then Inl (- OCF_ERR_NO_MEM)
      else if \<not> ne_locks env then Inl (- OCF_ERR_NO_MEM)
      else if \<not> ne_sem env then Inl (- OCF_ERR_UNKNOWN)
      else if \<not> ne_ring env then Inl (- OCF_ERR_NO_MEM)
      else if ne_spin env \<noteq> 0 then Inl (ne_spin env)
      else Inr \<lparr>nh_hash_entries = hash_entries, nh_rb_entries = hash_size, nh_map = (\<lambda>_. hash_size mod U32_MOD),
        nh_lba = (\<lambda>_. 0), nh_counter = (\<lambda>_. 0), nh_prev = (\<lambda>_. 0), nh_next = (\<lambda>_. 0),
        nh_core = (\<lambda>_. OCF_CORE_ID_INVALID), nh_valid = (\<lambda>_. True), nh_ptr = 0\<rparr>)"

subsection \<open>Buckets\<close>

definition hash_function :: "core_id \<Rightarrow> u64 \<Rightarrow> u64 \<Rightarrow> cline" where
  "hash_function core_id core_lba limit =
     (if core_id = OCF_CORE_ID_INVALID then limit mod U32_MOD
      else ((core_lba * HASH_PRIME + core_id) mod U64_MOD mod limit) mod U32_MOD)"

text \<open>The chain of a bucket ends with the number of slots; on a cyclic chain the loop would not end.\<close>

partial_function (option) core_line_loop :: "nhit_hash \<Rightarrow> core_id \<Rightarrow> u64 \<Rightarrow> cline \<Rightarrow> cline option" where
  "core_line_loop ctx core_id core_lba cur =
     (if cur = nh_rb_entries ctx then Some (nh_rb_entries ctx mod U32_MOD)
      else if \<not> cur < nh_rb_entries ctx then None
      else if nh_lba ctx cur = core_lba \<and> nh_core ctx cur = core_id then Some cur
      else core_line_loop ctx core_id core_lba (nh_next ctx cur))"

definition core_line_lookup :: "nhit_hash \<Rightarrow> core_id \<Rightarrow> u64 \<Rightarrow> cline option" where
  "core_line_lookup ctx core_id core_lba = do {
     let hash = hash_function core_id core_lba (nh_hash_entries ctx);
     if \<not> hash < nh_hash_entries ctx then None
     else core_line_loop ctx core_id core_lba (nh_map ctx hash) }"

definition get_rb_slot :: "nhit_hash \<Rightarrow> bool \<times> nat \<times> nhit_hash" where
  "get_rb_slot ctx =
     (let slot = nh_ptr ctx
      in (nh_valid ctx slot, slot,
          ctx\<lparr>nh_valid := (nh_valid ctx)(slot := False), nh_ptr := (slot + 1) mod nh_rb_entries ctx\<rparr>))"

definition commit_rb_slot :: "nhit_hash \<Rightarrow> nat \<Rightarrow> nhit_hash" where
  "commit_rb_slot ctx slot = ctx\<lparr>nh_valid := (nh_valid ctx)(slot := True)\<rparr>"

text \<open>An access outside of the arrays fails.\<close>

definition nh_set_map :: "nat \<Rightarrow> cline \<Rightarrow> nhit_hash \<Rightarrow> nhit_hash option" where
  "nh_set_map i v ctx = (if i < nh_hash_entries ctx then Some (ctx\<lparr>nh_map := (nh_map ctx)(i := v mod U32_MOD)\<rparr>) else None)"

definition nh_set_next :: "nat \<Rightarrow> cline \<Rightarrow> nhit_hash \<Rightarrow> nhit_hash option" where
  "nh_set_next i v ctx = (if i < nh_rb_entries ctx then Some (ctx\<lparr>nh_next := (nh_next ctx)(i := v mod U32_MOD)\<rparr>) else None)"

definition nh_set_prev :: "nat \<Rightarrow> cline \<Rightarrow> nhit_hash \<Rightarrow> nhit_hash option" where
  "nh_set_prev i v ctx = (if i < nh_rb_entries ctx then Some (ctx\<lparr>nh_prev := (nh_prev ctx)(i := v mod U32_MOD)\<rparr>) else None)"

definition collision_remove :: "nhit_hash \<Rightarrow> nat \<Rightarrow> nhit_hash option" where
  "collision_remove ctx slot_id = do {
     let hash = hash_function (nh_core ctx slot_id) (nh_lba ctx slot_id) (nh_hash_entries ctx);
     if nh_core ctx slot_id = OCF_CORE_ID_INVALID then Some ctx
     else do {
       let ctx = ctx\<lparr>nh_core := (nh_core ctx)(slot_id := OCF_CORE_ID_INVALID)\<rparr>;
       ctx \<leftarrow> (if nh_prev ctx slot_id \<noteq> nh_rb_entries ctx
              then nh_set_next (nh_prev ctx slot_id) (nh_next ctx slot_id) ctx else Some ctx);
       ctx \<leftarrow> (if nh_next ctx slot_id \<noteq> nh_rb_entries ctx
              then nh_set_prev (nh_next ctx slot_id) (nh_prev ctx slot_id) ctx else Some ctx);
       if \<not> hash < nh_hash_entries ctx then None
       else if nh_map ctx hash = slot_id then nh_set_map hash (nh_next ctx slot_id) ctx
       else Some ctx } }"

definition collision_insert_new :: "nhit_hash \<Rightarrow> nat \<Rightarrow> core_id \<Rightarrow> u64 \<Rightarrow> nhit_hash option" where
  "collision_insert_new ctx slot_id core_id core_lba = do {
     let hash = hash_function core_id core_lba (nh_hash_entries ctx);
     let ctx = ctx\<lparr>nh_core := (nh_core ctx)(slot_id := core_id), nh_lba := (nh_lba ctx)(slot_id := core_lba)\<rparr>;
     if \<not> hash < nh_hash_entries ctx then None
     else do {
       ctx \<leftarrow> nh_set_next slot_id (nh_map ctx hash) ctx;
       ctx \<leftarrow> nh_set_prev slot_id (nh_rb_entries ctx) ctx;
       let ctx = ctx\<lparr>nh_counter := (nh_counter ctx)(slot_id := 1)\<rparr>;
       ctx \<leftarrow> (if nh_map ctx hash \<noteq> nh_rb_entries ctx then nh_set_prev (nh_map ctx hash) slot_id ctx else Some ctx);
       nh_set_map hash slot_id ctx } }"

definition nhit_hash_insert :: "nhit_hash \<Rightarrow> core_id \<Rightarrow> u64 \<Rightarrow> nhit_hash option" where
  "nhit_hash_insert ctx core_id core_lba = do {
     let (ok, slot_id, ctx) = get_rb_slot ctx;
     if \<not> ok then Some ctx
     else do {
       ctx \<leftarrow> collision_remove ctx slot_id;
       ctx \<leftarrow> collision_insert_new ctx slot_id core_id core_lba;
       Some (commit_rb_slot ctx slot_id) } }"

text \<open>The result is the new value of the counter when the line is tracked.\<close>

definition nhit_hash_query :: "nhit_hash \<Rightarrow> core_id \<Rightarrow> u64 \<Rightarrow> (int option \<times> nhit_hash) option" where
  "nhit_hash_query ctx core_id core_lba = do {
     rb_idx \<leftarrow> core_line_lookup ctx core_id core_lba;
     if rb_idx = nh_rb_entries ctx then Some (None, ctx)
     else do {
       let counter = s32 (nh_counter ctx rb_idx + 1);
       Some (Some counter, ctx\<lparr>nh_counter := (nh_counter ctx)(rb_idx := counter)\<rparr>) } }"

definition nhit_hash_set_occurences :: "nhit_hash \<Rightarrow> core_id \<Rightarrow> u64 \<Rightarrow> int \<Rightarrow> nhit_hash option" where
  "nhit_hash_set_occurences ctx core_id core_lba occurences = do {
     rb_idx \<leftarrow> core_line_lookup ctx core_id core_lba;
     if rb_idx = nh_rb_entries ctx then Some ctx
     else Some (ctx\<lparr>nh_counter := (nh_counter ctx)(rb_idx := occurences)\<rparr>) }"

subsection \<open>The policy\<close>

definition OCF_NHIT_MIN_THRESHOLD :: nat where "OCF_NHIT_MIN_THRESHOLD = 2"
definition OCF_NHIT_MAX_THRESHOLD :: nat where "OCF_NHIT_MAX_THRESHOLD = 1000"
definition OCF_NHIT_THRESHOLD_DEFAULT :: nat where "OCF_NHIT_THRESHOLD_DEFAULT = 3"
definition OCF_NHIT_MIN_TRIGGER :: nat where "OCF_NHIT_MIN_TRIGGER = 0"
definition OCF_NHIT_MAX_TRIGGER :: nat where "OCF_NHIT_MAX_TRIGGER = 100"
definition OCF_NHIT_TRIGGER_DEFAULT :: nat where "OCF_NHIT_TRIGGER_DEFAULT = 80"
definition NHIT_MAPPING_RATIO :: nat where "NHIT_MAPPING_RATIO = 2"

record nhit_config =
  insertion_threshold :: nat
  trigger_threshold :: nat

definition nhit_setup :: nhit_config where
  "nhit_setup = \<lparr>insertion_threshold = OCF_NHIT_THRESHOLD_DEFAULT, trigger_threshold = OCF_NHIT_TRIGGER_DEFAULT\<rparr>"

definition nhit_sizeof :: "nat \<Rightarrow> nat \<times> nat \<times> nat \<times> nat \<Rightarrow> nat \<Rightarrow> u64" where
  "nhit_sizeof sz_ctx sz cachelines =
     (sz_ctx + nhit_hash_sizeof sz ((cachelines * NHIT_MAPPING_RATIO) mod U32_MOD)) mod U64_MOD"

text \<open>\<open>ctx_ok\<close> tells whether the allocation of the context succeeds.\<close>

definition nhit_init :: "nat \<Rightarrow> nat \<times> nat \<times> nat \<times> nat \<Rightarrow> u64 \<Rightarrow> bool \<Rightarrow> nhit_env \<Rightarrow> nat \<Rightarrow> int + nhit_hash" where
  "nhit_init sz_ctx sz available ctx_ok env cachelines =
     (if nhit_sizeof sz_ctx sz cachelines \<ge> available then Inl (- OCF_ERR_NO_FREE_RAM)
      else if \<not> ctx_ok then Inl (- OCF_ERR_NO_MEM)
      else nhit_hash_init env ((cachelines * NHIT_MAPPING_RATIO) mod U32_MOD))"

text \<open>The parameters are numbered; any other number is refused.\<close>

definition ocf_nhit_insertion_threshold :: nat where "ocf_nhit_insertion_threshold = 0"
definition ocf_nhit_trigger_threshold :: nat where "ocf_nhit_trigger_threshold = 1"

definition nhit_set_param :: "nhit_config \<Rightarrow> nat \<Rightarrow> nat \<Rightarrow> int \<times> nhit_config" where
  "nhit_set_param cfg param_id param_value =
     (if param_id = ocf_nhit_insertion_threshold then
        if param_value \<ge> OCF_NHIT_MIN_THRESHOLD \<and> param_value \<le> OCF_NHIT_MAX_THRESHOLD
        then (0, cfg\<lparr>insertion_threshold := param_value\<rparr>) else (- OCF_ERR_INVAL, cfg)
      else if param_id = ocf_nhit_trigger_threshold then
        if param_value \<ge> OCF_NHIT_MIN_TRIGGER \<and> param_value \<le> OCF_NHIT_MAX_TRIGGER
        then (0, cfg\<lparr>trigger_threshold := param_value\<rparr>) else (- OCF_ERR_INVAL, cfg)
      else (- OCF_ERR_INVAL, cfg))"

definition nhit_get_param :: "nhit_config \<Rightarrow> nat \<Rightarrow> int + nat" where
  "nhit_get_param cfg param_id =
     (if param_id = ocf_nhit_insertion_threshold then Inr (insertion_threshold cfg)
      else if param_id = ocf_nhit_trigger_threshold then Inr (trigger_threshold cfg)
      else Inl (- OCF_ERR_INVAL))"

definition core_line_purge :: "nhit_hash \<Rightarrow> core_id \<Rightarrow> u64 \<Rightarrow> nhit_hash option" where
  "core_line_purge ctx core_id core_lba = nhit_hash_set_occurences ctx core_id core_lba 0"

text \<open>Both loops name a line by the core id and the core line that its entry of the map holds.\<close>

definition nhit_req_purge :: "nhit_hash \<Rightarrow> ocf_request \<Rightarrow> nhit_hash option" where
  "nhit_req_purge ctx req = fold_opt (\<lambda>i ctx. do {
     e \<leftarrow> req_entry req i;
     core_line_purge ctx (mi_core_id e) (mi_core_line e) }) (req_indices req) ctx"

text \<open>The threshold is unsigned, so the counter is converted for the comparison.\<close>

definition core_line_should_promote :: "nhit_config \<Rightarrow> nhit_hash \<Rightarrow> core_id \<Rightarrow> u64 \<Rightarrow> (bool \<times> nhit_hash) option" where
  "core_line_should_promote cfg ctx core_id core_lba = do {
     (hit, ctx) \<leftarrow> nhit_hash_query ctx core_id core_lba;
     case hit of
       Some counter \<Rightarrow> Some (int (insertion_threshold cfg) \<le> counter mod 2 ^ 32, ctx)
     | None \<Rightarrow> do {
         ctx \<leftarrow> nhit_hash_insert ctx core_id core_lba;
         Some (False, ctx) } }"

definition nhit_req_should_promote ::
  "nhit_config \<Rightarrow> nat \<Rightarrow> 'w::len wcache \<Rightarrow> nhit_hash \<Rightarrow> ocf_request \<Rightarrow> (bool \<times> nhit_hash) option" where
  "nhit_req_should_promote cfg cachelines c ctx req = do {
     let occupied_cachelines = (ca_entries c + U32_MOD - ocf_freelist_num_free (ca_free c) mod U32_MOD) mod U32_MOD;
     if occupied_cachelines < OCF_DIV_ROUND_UP ((trigger_threshold cfg * cachelines) mod U64_MOD) 100 then Some (True, ctx)
     else do {
       (result, ctx) \<leftarrow> fold_opt (\<lambda>i (result, ctx). do {
         e \<leftarrow> req_entry req i;
         (p, ctx) \<leftarrow> core_line_should_promote cfg ctx (mi_core_id e) (mi_core_line e);
         Some (if \<not> p then False else result, ctx) }) (req_indices req) (True, ctx);
       Some (result \<or> ocf_engine_mapped_count req \<noteq> 0, ctx) } }"

subsection \<open>The table of policies\<close>

text \<open>
  \<open>ocf_promotion_always\<close> has no operations. The state of a policy is its type with, for n-hit, its context; the type is
  also kept in the superblock. \<open>cfg\<close> is the configuration of n-hit there.
\<close>

definition ocf_promotion_always :: nat where "ocf_promotion_always = 0"
definition ocf_promotion_nhit :: nat where "ocf_promotion_nhit = 1"
definition ocf_promotion_max :: nat where "ocf_promotion_max = 2"

record promotion_policy =
  pp_type :: nat
  pp_conf_type :: nat
  pp_cfg :: nhit_config
  pp_ctx :: "nhit_hash option"

text \<open>\<open>ops_init\<close> is the \<^verbatim>\<open>init\<close> entry of the table: n-hit makes its context, the other policy has none.\<close>

definition ops_init :: "(int + nhit_hash) \<Rightarrow> nat \<Rightarrow> promotion_policy \<Rightarrow> int \<times> promotion_policy" where
  "ops_init nhit type policy =
     (if type = ocf_promotion_nhit then
        case nhit of Inl err \<Rightarrow> (err, policy) | Inr ctx \<Rightarrow> (0, policy\<lparr>pp_ctx := Some ctx\<rparr>)
      else (0, policy))"

definition ocf_promotion_init :: "bool \<Rightarrow> (int + nhit_hash) \<Rightarrow> nhit_config \<Rightarrow> nat \<Rightarrow> nat \<Rightarrow> (int + promotion_policy) option" where
  "ocf_promotion_init alloc_ok nhit cfg conf_type type = do {
     bug_on (type \<ge> ocf_promotion_max);
     if \<not> alloc_ok then Some (Inl (- OCF_ERR_NO_MEM))
     else let (result, policy) = ops_init nhit type \<lparr>pp_type = type, pp_conf_type = conf_type, pp_cfg = cfg, pp_ctx = None\<rparr>
          in Some (if result \<noteq> 0 then Inl result else Inr policy) }"

definition nhit_deinit :: "promotion_policy \<Rightarrow> promotion_policy option" where
  "nhit_deinit policy = (case pp_ctx policy of None \<Rightarrow> None | Some _ \<Rightarrow> Some (policy\<lparr>pp_ctx := None\<rparr>))"

definition ocf_promotion_set_policy :: "(int + nhit_hash) \<Rightarrow> promotion_policy \<Rightarrow> nat \<Rightarrow> (int \<times> promotion_policy) option" where
  "ocf_promotion_set_policy nhit policy type =
     (if type \<ge> ocf_promotion_max then Some (- OCF_ERR_INVAL, policy)
      else if type = pp_conf_type policy then Some (0, policy)
      else do {
        policy \<leftarrow> (if pp_conf_type policy = ocf_promotion_nhit then nhit_deinit policy else Some policy);
        let policy = policy\<lparr>pp_conf_type := type, pp_type := type\<rparr>;
        let (result, policy) = ops_init nhit type policy;
        Some (result, if result \<noteq> 0
                      then policy\<lparr>pp_conf_type := ocf_promotion_always, pp_type := ocf_promotion_always\<rparr> else policy) })"

definition ocf_promotion_set_param :: "promotion_policy \<Rightarrow> nat \<Rightarrow> nat \<Rightarrow> nat \<Rightarrow> (int \<times> promotion_policy) option" where
  "ocf_promotion_set_param policy type param_id param_value = do {
     bug_on (type \<ge> ocf_promotion_max);
     Some (if type = ocf_promotion_nhit
           then let (r, cfg) = nhit_set_param (pp_cfg policy) param_id param_value in (r, policy\<lparr>pp_cfg := cfg\<rparr>)
           else (- OCF_ERR_INVAL, policy)) }"

definition ocf_promotion_get_param :: "promotion_policy \<Rightarrow> nat \<Rightarrow> nat \<Rightarrow> (int + nat) option" where
  "ocf_promotion_get_param policy type param_id = do {
     bug_on (type \<ge> ocf_promotion_max);
     Some (if type = ocf_promotion_nhit then nhit_get_param (pp_cfg policy) param_id else Inl (- OCF_ERR_INVAL)) }"

definition ocf_promotion_req_purge :: "promotion_policy \<Rightarrow> ocf_request \<Rightarrow> promotion_policy option" where
  "ocf_promotion_req_purge policy req = do {
     bug_on (pp_type policy \<ge> ocf_promotion_max);
     if pp_type policy = ocf_promotion_nhit then do {
       ctx \<leftarrow> pp_ctx policy;
       ctx \<leftarrow> nhit_req_purge ctx req;
       Some (policy\<lparr>pp_ctx := Some ctx\<rparr>) }
     else Some policy }"

definition ocf_promotion_req_should_promote ::
  "nat \<Rightarrow> 'w::len wcache \<Rightarrow> promotion_policy \<Rightarrow> ocf_request \<Rightarrow> (bool \<times> promotion_policy) option" where
  "ocf_promotion_req_should_promote cachelines c policy req = do {
     bug_on (pp_type policy \<ge> ocf_promotion_max);
     if pp_type policy = ocf_promotion_nhit then do {
       ctx \<leftarrow> pp_ctx policy;
       (r, ctx) \<leftarrow> nhit_req_should_promote (pp_cfg policy) cachelines c ctx req;
       Some (r, policy\<lparr>pp_ctx := Some ctx\<rparr>) }
     else Some (True, policy) }"

subsection \<open>The chains and what they hold\<close>

definition slot_key :: "nhit_hash \<Rightarrow> nat \<Rightarrow> core_id \<times> u64" where
  "slot_key h x = (nh_core h x, nh_lba h x)"

definition tracked :: "nhit_hash \<Rightarrow> nat set" where
  "tracked h = {x. x < nh_rb_entries h \<and> nh_core h x \<noteq> OCF_CORE_ID_INVALID}"

definition nhit_key_hash :: "nhit_hash \<Rightarrow> core_id \<times> u64 \<Rightarrow> nat" where
  "nhit_key_hash h k = hash_function (fst k) (snd k) (nh_hash_entries h)"

definition nhit_rep :: "nhit_hash \<Rightarrow> (nat \<Rightarrow> nat list) \<Rightarrow> bool" where
  "nhit_rep h B \<longleftrightarrow> 0 < nh_hash_entries h \<and> nh_hash_entries h < U32_MOD \<and> 0 < nh_rb_entries h \<and> nh_rb_entries h < U32_MOD \<and>
     nh_ptr h < nh_rb_entries h \<and>
     (\<forall>b < nh_hash_entries h. dlist (nh_rb_entries h) (nh_next h) (nh_prev h) (B b) \<and>
        nh_map h b = hd_or (nh_rb_entries h) (B b) \<and> set (B b) = {x \<in> tracked h. nhit_key_hash h (slot_key h x) = b}) \<and>
     inj_on (slot_key h) (tracked h)"

text \<open>The map the structure implements: the counter of every tracked line.\<close>

definition nhit_count :: "nhit_hash \<Rightarrow> core_id \<times> u64 \<Rightarrow> int option" where
  "nhit_count h k = map_option (nh_counter h) (find (\<lambda>x. nh_core h x \<noteq> OCF_CORE_ID_INVALID \<and> slot_key h x = k) [0..<nh_rb_entries h])"

lemma nhit_repD:
  assumes "nhit_rep h B"
  shows "0 < nh_hash_entries h" and "nh_hash_entries h < U32_MOD" and "nh_rb_entries h < U32_MOD" and "nh_ptr h < nh_rb_entries h"
    and "b < nh_hash_entries h \<Longrightarrow> dlist (nh_rb_entries h) (nh_next h) (nh_prev h) (B b)"
    and "b < nh_hash_entries h \<Longrightarrow> nh_map h b = hd_or (nh_rb_entries h) (B b)"
    and "b < nh_hash_entries h \<Longrightarrow> set (B b) = {x \<in> tracked h. nhit_key_hash h (slot_key h x) = b}"
    and "inj_on (slot_key h) (tracked h)"
  using assms by (auto simp: nhit_rep_def)

lemma nhit_hash_less:
  assumes "0 < nh_hash_entries h" "nh_hash_entries h < U32_MOD" "fst k \<noteq> OCF_CORE_ID_INVALID"
  shows "nhit_key_hash h k < nh_hash_entries h"
proof -
  have "m mod nh_hash_entries h < nh_hash_entries h" for m using assms(1) by simp
  then have "m mod nh_hash_entries h mod U32_MOD < nh_hash_entries h" for m
    using assms(2) by (metis mod_less order_less_trans)
  then show ?thesis using assms(3) by (simp add: nhit_key_hash_def hash_function_def)
qed

lemma slot_in_bucket:
  assumes "nhit_rep h B" and "x \<in> tracked h"
  shows "nhit_key_hash h (slot_key h x) < nh_hash_entries h" and "x \<in> set (B (nhit_key_hash h (slot_key h x)))"
proof -
  show b: "nhit_key_hash h (slot_key h x) < nh_hash_entries h"
    by (rule nhit_hash_less) (use nhit_repD(1,2) [OF assms(1)] assms(2) in \<open>auto simp: tracked_def slot_key_def\<close>)
  show "x \<in> set (B (nhit_key_hash h (slot_key h x)))" using nhit_repD(7) [OF assms(1) b] assms(2) by simp
qed

lemma nhit_count_Some:
  assumes "nhit_rep h B"
  shows "nhit_count h k = Some n \<longleftrightarrow> (\<exists>x \<in> tracked h. slot_key h x = k \<and> nh_counter h x = n)"
proof
  assume "nhit_count h k = Some n"
  then obtain x where x: "find (\<lambda>x. nh_core h x \<noteq> OCF_CORE_ID_INVALID \<and> slot_key h x = k) [0..<nh_rb_entries h] = Some x"
    "nh_counter h x = n" by (auto simp: nhit_count_def)
  from x(1) have "x \<in> tracked h" "slot_key h x = k" by (auto simp: find_Some_iff tracked_def)
  then show "\<exists>x \<in> tracked h. slot_key h x = k \<and> nh_counter h x = n" using x(2) by blast
next
  assume "\<exists>x \<in> tracked h. slot_key h x = k \<and> nh_counter h x = n"
  then obtain x where x: "x \<in> tracked h" "slot_key h x = k" "nh_counter h x = n" by blast
  let ?P = "\<lambda>x. nh_core h x \<noteq> OCF_CORE_ID_INVALID \<and> slot_key h x = k"
  have "find ?P [0..<nh_rb_entries h] \<noteq> None" using x by (auto simp: find_None_iff tracked_def)
  then obtain y where y: "find ?P [0..<nh_rb_entries h] = Some y" by blast
  then have "y \<in> tracked h" "slot_key h y = k" by (auto simp: find_Some_iff tracked_def)
  then have "y = x" using x nhit_repD(8) [OF assms] by (auto dest: inj_onD)
  then show "nhit_count h k = Some n" using x(3) y by (simp add: nhit_count_def)
qed

lemma nhit_count_None:
  assumes "nhit_rep h B"
  shows "nhit_count h k = None \<longleftrightarrow> (\<forall>x \<in> tracked h. slot_key h x \<noteq> k)"
  using nhit_count_Some [OF assms, of k] by (cases "nhit_count h k") auto

lemma nhit_count_eqI:
  assumes "nhit_rep h B" and "\<And>k n. m k = Some n \<longleftrightarrow> (\<exists>x \<in> tracked h. slot_key h x = k \<and> nh_counter h x = n)"
  shows "nhit_count h = m"
proof
  fix k
  show "nhit_count h k = m k"
    using nhit_count_Some [OF assms(1), of k] assms(2) [of k] by (metis not_None_eq)
qed

subsection \<open>Lookup\<close>

lemma core_line_loop_dseg:
  assumes "dseg (nh_next h) pv p xs (nh_rb_entries h)" and "\<forall>x \<in> set xs. x < nh_rb_entries h" and "nh_rb_entries h < U32_MOD"
  shows "core_line_loop h cid lba (hd_or (nh_rb_entries h) xs) =
    Some (case find (\<lambda>x. slot_key h x = (cid, lba)) xs of None \<Rightarrow> nh_rb_entries h | Some x \<Rightarrow> x)"
  using assms
proof (induction xs arbitrary: p)
  case Nil
  then show ?case by (simp add: core_line_loop.simps)
next
  case (Cons x xs)
  then show ?case by (subst core_line_loop.simps) (auto simp: slot_key_def)
qed

lemma lookup_slot:
  assumes rep: "nhit_rep h B" and cid: "cid \<noteq> OCF_CORE_ID_INVALID"
  shows "x \<in> tracked h \<Longrightarrow> slot_key h x = (cid, lba) \<Longrightarrow> core_line_lookup h cid lba = Some x"
    and "\<forall>x \<in> tracked h. slot_key h x \<noteq> (cid, lba) \<Longrightarrow> core_line_lookup h cid lba = Some (nh_rb_entries h)"
proof -
  let ?b = "nhit_key_hash h (cid, lba)" and ?P = "\<lambda>x. slot_key h x = (cid, lba)"
  note D = nhit_repD [OF rep]
  have b: "?b < nh_hash_entries h" by (rule nhit_hash_less [OF D(1,2)]) (simp add: cid)
  note dl = D(5) [OF b]
  have look: "core_line_lookup h cid lba = Some (case find ?P (B ?b) of None \<Rightarrow> nh_rb_entries h | Some x \<Rightarrow> x)"
    using core_line_loop_dseg [OF dlistD(3) [OF dl] _ D(3), of cid lba] dlistD(2) [OF dl] D(6) [OF b] b
    by (simp add: core_line_lookup_def nhit_key_hash_def)
  show "core_line_lookup h cid lba = Some x" if x: "x \<in> tracked h" "slot_key h x = (cid, lba)"
  proof -
    have "x \<in> set (B ?b)" using slot_in_bucket(2) [OF rep x(1)] x(2) by simp
    then obtain y where y: "find ?P (B ?b) = Some y" using x(2) by (cases "find ?P (B ?b)") (auto simp: find_None_iff)
    then have "y \<in> set (B ?b)" "slot_key h y = (cid, lba)" by (auto simp: find_Some_iff)
    then have "y = x" using D(7) [OF b] x by (auto intro: inj_onD [OF D(8)])
    then show ?thesis using look y by simp
  qed
  show "core_line_lookup h cid lba = Some (nh_rb_entries h)" if "\<forall>x \<in> tracked h. slot_key h x \<noteq> (cid, lba)"
  proof -
    have "find ?P (B ?b) = None" using that D(7) [OF b] by (simp add: find_None_iff)
    then show ?thesis using look by simp
  qed
qed

subsection \<open>Unlinking and linking a slot\<close>

lemma collision_remove_rep:
  assumes rep: "nhit_rep h B" and x: "x \<in> tracked h"
  obtains h' B' where "collision_remove h x = Some h'" and "nhit_rep h' B'"
    and "nh_core h' = (nh_core h)(x := OCF_CORE_ID_INVALID)" and "nh_lba h' = nh_lba h" and "nh_counter h' = nh_counter h"
    and "nh_rb_entries h' = nh_rb_entries h" and "nh_hash_entries h' = nh_hash_entries h" and "nh_valid h' = nh_valid h" and "nh_ptr h' = nh_ptr h"
proof -
  let ?n = "nh_rb_entries h" and ?b = "nhit_key_hash h (slot_key h x)"
  note D = nhit_repD [OF rep] and sb = slot_in_bucket [OF rep x]
  have xn: "x < ?n" "nh_core h x \<noteq> OCF_CORE_ID_INVALID" using x by (auto simp: tracked_def)
  obtain as bs where sp: "B ?b = as @ x # bs" "x \<notin> set as" "x \<notin> set bs" "nh_prev h x = last_or ?n as" "nh_next h x = hd_or ?n bs"
    "dlist ?n (nh_next h) (nh_prev h) (as @ x # bs)" by (rule dlist_split [OF D(5) [OF sb(1)] sb(2)])
  note nl = dlist_links_null [OF sp(6)] and ne = dlist_links_neq [OF sp(6)]
  define nx where "nx = (if as \<noteq> [] then (nh_next h)(nh_prev h x := nh_next h x) else nh_next h)"
  define pv where "pv = (if bs \<noteq> [] then (nh_prev h)(nh_next h x := nh_prev h x) else nh_prev h)"
  define mp where "mp = (if as = [] then (nh_map h)(?b := nh_next h x) else nh_map h)"
  let ?h = "h\<lparr>nh_core := (nh_core h)(x := OCF_CORE_ID_INVALID), nh_next := nx, nh_prev := pv, nh_map := mp\<rparr>"
  let ?B = "B(?b := as @ bs)"
  have idem: "nx(x := nh_next h x) = nx" "pv(x := nh_prev h x) = pv" using ne by (auto simp: nx_def pv_def fun_eq_iff)
  have le: "nh_next h x \<le> ?n" "nh_prev h x \<le> ?n" using nl by (cases "bs = []"; cases "as = []"; simp)+
  then have md: "nh_next h x mod U32_MOD = nh_next h x" "nh_prev h x mod U32_MOD = nh_prev h x" using D(3) by simp_all
  have hdx: "nh_map h ?b = x \<longleftrightarrow> as = []" using D(6) [OF sb(1)] sp(1,2) by (cases as) auto
  have run: "collision_remove h x = Some ?h"
    using xn nl ne md hdx sb(1)
    by (auto simp: collision_remove_def nh_set_next_def nh_set_prev_def nh_set_map_def Let_def nx_def pv_def mp_def
        nhit_key_hash_def slot_key_def)
  have tr: "tracked ?h = tracked h - {x}" by (auto simp: tracked_def)
  have key: "slot_key ?h = (slot_key h)(x := (OCF_CORE_ID_INVALID, nh_lba h x))" and kh: "nhit_key_hash ?h = nhit_key_hash h"
    by (auto simp: slot_key_def nhit_key_hash_def)
  have "nhit_rep ?h ?B"
    unfolding nhit_rep_def
  proof (intro conjI allI impI)
    fix b assume "b < nh_hash_entries ?h"
    then have b: "b < nh_hash_entries h" by simp
    have disj: "set (B b) \<inter> set (B ?b) = {}" if "b \<noteq> ?b" using D(7) [OF b] D(7) [OF sb(1)] that by auto
    show "dlist (nh_rb_entries ?h) (nh_next ?h) (nh_prev ?h) (?B b)"
      using dlist_unlink_code [OF sp(6), of "nh_next h x" "nh_prev h x"] D(5) [OF b]
        dlist_unlink_other_code [OF sp(6), of "B b" "nh_next h x" "nh_prev h x"] disj sp(1) idem
      by (auto simp flip: nx_def pv_def)
    show "nh_map ?h b = hd_or (nh_rb_entries ?h) (?B b)"
      using D(6) [OF b] sp(1,5) by (cases as) (auto simp: mp_def)
    show "set (?B b) = {y \<in> tracked ?h. nhit_key_hash ?h (slot_key ?h y) = b}"
      using D(7) [OF b] sp(1-3) unfolding tr kh key by (cases "b = ?b") auto
  next
    show "inj_on (slot_key ?h) (tracked ?h)"
      using D(8) unfolding tr key by (auto simp: inj_on_def)
  qed (use D in auto)
  then show thesis by (rule that [OF run]) simp_all
qed

lemma collision_insert_rep:
  assumes rep: "nhit_rep h B" and x: "x < nh_rb_entries h" "nh_core h x = OCF_CORE_ID_INVALID"
    and cid: "cid \<noteq> OCF_CORE_ID_INVALID" and new: "\<forall>y \<in> tracked h. slot_key h y \<noteq> (cid, lba)"
  obtains h' B' where "collision_insert_new h x cid lba = Some h'" and "nhit_rep h' B'"
    and "nh_core h' = (nh_core h)(x := cid)" and "nh_lba h' = (nh_lba h)(x := lba)" and "nh_counter h' = (nh_counter h)(x := 1)"
    and "nh_rb_entries h' = nh_rb_entries h" and "nh_hash_entries h' = nh_hash_entries h" and "nh_valid h' = nh_valid h" and "nh_ptr h' = nh_ptr h"
proof -
  let ?n = "nh_rb_entries h" and ?b = "nhit_key_hash h (cid, lba)"
  note D = nhit_repD [OF rep]
  have b: "?b < nh_hash_entries h" by (rule nhit_hash_less [OF D(1,2)]) (simp add: cid)
  have xt: "x \<notin> tracked h" using x(2) by (simp add: tracked_def)
  then have xB: "x \<notin> set (B c)" if "c < nh_hash_entries h" for c using D(7) [OF that] by simp
  define nx where "nx = (nh_next h)(x := hd_or ?n (B ?b))"
  define pv where "pv = (if B ?b = [] then (nh_prev h)(x := ?n) else ((nh_prev h)(x := ?n))(hd (B ?b) := x))"
  let ?h = "h\<lparr>nh_core := (nh_core h)(x := cid), nh_lba := (nh_lba h)(x := lba), nh_next := nx, nh_prev := pv,
     nh_counter := (nh_counter h)(x := 1), nh_map := (nh_map h)(?b := x)\<rparr>"
  let ?B = "B(?b := x # B ?b)"
  have hd: "hd_or ?n (B ?b) = ?n \<longleftrightarrow> B ?b = []" by (rule dlist_hd_null [OF D(5) [OF b]])
  have lt: "B ?b \<noteq> [] \<Longrightarrow> hd (B ?b) < ?n" using dlist_hd_less [OF D(5) [OF b]] by (simp add: hd_or_conv)
  have md: "hd_or ?n (B ?b) mod U32_MOD = hd_or ?n (B ?b)" using lt D(3) by (cases "B ?b") auto
  have run: "collision_insert_new h x cid lba = Some ?h"
    using b x(1) D(3) D(6) [OF b] hd lt md
    by (cases "B ?b") (auto simp: collision_insert_new_def nh_set_next_def nh_set_prev_def nh_set_map_def Let_def nx_def pv_def nhit_key_hash_def)
  have tr: "tracked ?h = insert x (tracked h)" using x(1) cid by (auto simp: tracked_def)
  have key: "slot_key ?h = (slot_key h)(x := (cid, lba))" by (auto simp: slot_key_def)
  have "nhit_rep ?h ?B"
    unfolding nhit_rep_def
  proof (intro conjI allI impI)
    fix c assume "c < nh_hash_entries ?h"
    then have c: "c < nh_hash_entries h" by simp
    have disj: "set (B c) \<inter> insert x (set (B ?b)) = {}" if "c \<noteq> ?b" using D(7) [OF c] D(7) [OF b] that xB [OF c] by auto
    show "dlist (nh_rb_entries ?h) (nh_next ?h) (nh_prev ?h) (?B c)"
      using dlist_front_code [OF D(5) [OF b] x(1) xB [OF b]] dlist_front_other_code [of "B c" x "B ?b"] disj D(5) [OF c]
      by (auto simp: nx_def pv_def)
    show "nh_map ?h c = hd_or (nh_rb_entries ?h) (?B c)" using D(6) [OF c] by simp
    show "set (?B c) = {y \<in> tracked ?h. nhit_key_hash ?h (slot_key ?h y) = c}"
      using D(7) [OF c] xt unfolding tr key by (auto simp: nhit_key_hash_def)
  next
    show "inj_on (slot_key ?h) (tracked ?h)"
      unfolding tr key by (rule inj_on_insert_upd [OF D(8) xt]) (use new in force)
  qed (use D in auto)
  then show thesis by (rule that [OF run]) simp_all
qed

lemma nhit_rep_ptr:
  assumes "nhit_rep h B" and "p < nh_rb_entries h"
  shows "nhit_rep (h\<lparr>nh_valid := v, nh_ptr := p\<rparr>) B"
  using assms by (simp add: nhit_rep_def tracked_def slot_key_def [abs_def] nhit_key_hash_def)

lemma nhit_rep_valid: "nhit_rep (h\<lparr>nh_valid := v\<rparr>) B = nhit_rep h B"
  by (simp add: nhit_rep_def tracked_def slot_key_def [abs_def] nhit_key_hash_def)

lemma nhit_rep_counter:
  assumes "nhit_rep h B"
  shows "nhit_rep (h\<lparr>nh_counter := c\<rparr>) B"
  using assms by (simp add: nhit_rep_def tracked_def slot_key_def [abs_def] nhit_key_hash_def)

text \<open>Inserting a line takes the slot the pointer is at and forgets the line that was there.\<close>

lemma nhit_insert_rep:
  assumes rep: "nhit_rep h B" and valid: "nh_valid h (nh_ptr h)" and cid: "cid \<noteq> OCF_CORE_ID_INVALID"
    and new: "\<forall>y \<in> tracked h. slot_key h y \<noteq> (cid, lba)"
  defines "s \<equiv> nh_ptr h"
  obtains h' B' where "nhit_hash_insert h cid lba = Some h'" and "nhit_rep h' B'"
    and "nh_core h' = (nh_core h)(s := cid)" and "nh_lba h' = (nh_lba h)(s := lba)" and "nh_counter h' = (nh_counter h)(s := 1)"
    and "nh_rb_entries h' = nh_rb_entries h" and "nh_valid h' = nh_valid h" and "nh_ptr h' = (s + 1) mod nh_rb_entries h"
proof -
  let ?p = "(s + 1) mod nh_rb_entries h"
  have s: "s < nh_rb_entries h" using nhit_repD(4) [OF rep] by (simp add: s_def)
  then have p: "?p < nh_rb_entries h" by simp
  let ?h = "h\<lparr>nh_valid := (nh_valid h)(s := False), nh_ptr := ?p\<rparr>"
  have rep1: "nhit_rep ?h B" by (rule nhit_rep_ptr [OF rep p])
  obtain h2 B2 where h2: "collision_remove ?h s = Some h2" "nhit_rep h2 B2"
    "nh_core h2 = (nh_core h)(s := OCF_CORE_ID_INVALID)" "nh_lba h2 = nh_lba h" "nh_counter h2 = nh_counter h"
    "nh_rb_entries h2 = nh_rb_entries h" "nh_valid h2 = (nh_valid h)(s := False)" "nh_ptr h2 = ?p"
  proof (cases "s \<in> tracked h")
    case True
    then have "s \<in> tracked ?h" by (simp add: tracked_def)
    from collision_remove_rep [OF rep1 this] show thesis using that by simp metis
  next
    case False
    then have inv: "nh_core h s = OCF_CORE_ID_INVALID" using s by (simp add: tracked_def)
    then show thesis by (intro that [OF _ rep1]) (auto simp: collision_remove_def Let_def)
  qed
  have nt: "\<forall>y \<in> tracked h2. slot_key h2 y \<noteq> (cid, lba)"
    using new by (auto simp: tracked_def slot_key_def h2 split: if_splits)
  obtain h3 B3 where h3: "collision_insert_new h2 s cid lba = Some h3" "nhit_rep h3 B3"
    "nh_core h3 = (nh_core h2)(s := cid)" "nh_lba h3 = (nh_lba h2)(s := lba)" "nh_counter h3 = (nh_counter h2)(s := 1)"
    "nh_rb_entries h3 = nh_rb_entries h2" "nh_valid h3 = nh_valid h2" "nh_ptr h3 = nh_ptr h2"
    by (rule collision_insert_rep [OF h2(2), of s cid lba]) (use s cid h2 nt in auto)
  have v: "(nh_valid h)(s := True) = nh_valid h" using valid by (simp add: s_def fun_upd_idem)
  have "nhit_hash_insert h cid lba = Some (commit_rb_slot h3 s)"
    using valid h2(1) h3(1) by (simp add: nhit_hash_insert_def get_rb_slot_def Let_def s_def)
  moreover have "nhit_rep (commit_rb_slot h3 s) B3"
    using h3(2) by (simp add: commit_rb_slot_def nhit_rep_valid)
  ultimately show thesis by (rule that) (simp_all add: commit_rb_slot_def h3 h2 v)
qed

subsection \<open>Counting accesses\<close>

text \<open>
  The table after the lines \<open>K\<close> were asked for: a line of \<open>K\<close> has the counter \<open>cnt\<close>, all others have none. No line is forgotten
  as long as there are no more than slots.
\<close>

definition nhit_seen :: "nat \<Rightarrow> (core_id \<times> u64) set \<Rightarrow> (core_id \<times> u64 \<Rightarrow> nat) \<Rightarrow> nhit_hash \<Rightarrow> bool" where
  "nhit_seen n K cnt h \<longleftrightarrow> (\<exists>B. nhit_rep h B) \<and> nh_rb_entries h = n \<and> (\<forall>x. nh_valid h x) \<and> finite K \<and>
     nh_ptr h = card K mod n \<and> tracked h = {..<card K} \<and> (\<forall>k. k \<notin> K \<longrightarrow> cnt k = 0) \<and>
     (\<forall>k. nhit_count h k = (if k \<in> K then Some (int (cnt k)) else None))"

lemma nhit_seenD:
  assumes "nhit_seen n K cnt h"
  shows "nh_rb_entries h = n" "finite K" "k \<notin> K \<Longrightarrow> cnt k = 0" "k \<notin> K \<Longrightarrow> nhit_count h k = None"
proof -
  have "k \<notin> K \<longrightarrow> cnt k = 0" "nhit_count h k = (if k \<in> K then Some (int (cnt k)) else None)" "nh_rb_entries h = n" "finite K"
    using assms unfolding nhit_seen_def by blast+
  then show "nh_rb_entries h = n" "finite K" "k \<notin> K \<Longrightarrow> cnt k = 0" "k \<notin> K \<Longrightarrow> nhit_count h k = None" by simp_all
qed

lemma s32_small: "0 \<le> x \<Longrightarrow> x < 2 ^ 31 \<Longrightarrow> s32 x = x"
  by (simp add: s32_def)

text \<open>The counter of a tracked line is set, by a query or by a purge.\<close>

lemma nhit_seen_set:
  assumes seen: "nhit_seen n K cnt h" and k: "fst k \<noteq> OCF_CORE_ID_INVALID" "k \<in> K"
  obtains x where "core_line_lookup h (fst k) (snd k) = Some x" "x < n" "nh_counter h x = int (cnt k)"
    "nhit_seen n K (cnt(k := v)) (h\<lparr>nh_counter := (nh_counter h)(x := int v)\<rparr>)"
proof -
  obtain B where rep: "nhit_rep h B" using seen by (auto simp: nhit_seen_def)
  have cnt: "nhit_count h k = (if k \<in> K then Some (int (cnt k)) else None)" for k using seen unfolding nhit_seen_def by blast
  obtain x where x: "x \<in> tracked h" "slot_key h x = k" "nh_counter h x = int (cnt k)"
    using nhit_count_Some [OF rep, of k "int (cnt k)"] cnt [of k] k(2) by auto
  let ?h = "h\<lparr>nh_counter := (nh_counter h)(x := int v)\<rparr>"
  have rep': "nhit_rep ?h B" by (rule nhit_rep_counter [OF rep])
  have tr': "tracked ?h = tracked h" and key: "slot_key ?h = slot_key h" by (auto simp: tracked_def slot_key_def)
  have "nhit_count ?h = (nhit_count h)(k \<mapsto> int v)"
  proof (rule nhit_count_eqI [OF rep'])
    fix j m
    have only: "y = x" if "y \<in> tracked h" "slot_key h y = k" for y
      by (rule inj_onD [OF nhit_repD(8) [OF rep]]) (use that x in simp_all)
    show "((nhit_count h)(k \<mapsto> int v)) j = Some m \<longleftrightarrow> (\<exists>y \<in> tracked ?h. slot_key ?h y = j \<and> nh_counter ?h y = m)"
    proof (cases "j = k")
      case True
      have "(\<exists>y \<in> tracked h. slot_key h y = k \<and> g y = m) \<longleftrightarrow> g x = m" for g :: "nat \<Rightarrow> int" using only x(1,2) by blast
      then show ?thesis unfolding tr' key True by simp
    next
      case False
      then have "\<And>y. slot_key h y = j \<Longrightarrow> y \<noteq> x" using x(2) by blast
      then show ?thesis unfolding tr' key using nhit_count_Some [OF rep, of j m] False by auto
    qed
  qed
  then have "nhit_seen n K (cnt(k := v)) ?h" using seen rep' tr' k(2) by (auto simp: nhit_seen_def)
  moreover have "core_line_lookup h (fst k) (snd k) = Some x" by (rule lookup_slot(1) [OF rep k(1) x(1)]) (simp add: x(2))
  moreover have "x < n" using x(1) seen by (auto simp: tracked_def nhit_seen_def)
  ultimately show thesis using x(3) that by blast
qed

lemma nhit_seen_new:
  assumes seen: "nhit_seen n K cnt h" and k: "fst k \<noteq> OCF_CORE_ID_INVALID" "k \<notin> K" and room: "card K < n"
  obtains h' where "core_line_lookup h (fst k) (snd k) = Some n" "nhit_hash_insert h (fst k) (snd k) = Some h'"
    "nhit_seen n (insert k K) (cnt(k := 1)) h'"
proof -
  obtain B where rep: "nhit_rep h B" using seen by (auto simp: nhit_seen_def)
  have cnt: "nhit_count h k = (if k \<in> K then Some (int (cnt k)) else None)" for k using seen unfolding nhit_seen_def by blast
  have n: "nh_rb_entries h = n" and tr: "tracked h = {..<card K}" and s: "nh_ptr h = card K" and fin: "finite K"
    using seen room by (auto simp: nhit_seen_def)
  have new: "\<forall>y \<in> tracked h. slot_key h y \<noteq> (fst k, snd k)" using nhit_count_None [OF rep, of k] cnt [of k] k(2) by simp
  obtain h' B' where h': "nhit_hash_insert h (fst k) (snd k) = Some h'" "nhit_rep h' B'"
    "nh_core h' = (nh_core h)(card K := fst k)" "nh_lba h' = (nh_lba h)(card K := snd k)"
    "nh_counter h' = (nh_counter h)(card K := 1)" "nh_rb_entries h' = n" "nh_valid h' = nh_valid h"
    "nh_ptr h' = (card K + 1) mod n"
    by (rule nhit_insert_rep [OF rep _ k(1) new]) (use seen s n in \<open>auto simp: nhit_seen_def\<close>)
  have tr': "tracked h' = insert (card K) (tracked h)" using room k n by (auto simp: tracked_def h')
  have xt: "card K \<notin> tracked h" using tr by simp
  have key: "slot_key h' = (slot_key h)(card K := k)" by (auto simp: slot_key_def h')
  have "nhit_count h' = (nhit_count h)(k \<mapsto> 1)"
  proof (rule nhit_count_eqI [OF h'(2)])
    fix j m
    have old: "(\<exists>y \<in> tracked h. slot_key h' y = j \<and> nh_counter h' y = m) \<longleftrightarrow> nhit_count h j = Some m"
      unfolding nhit_count_Some [OF rep] key h'(5) using xt by (intro bex_cong) auto
    have "nhit_count h k = None" using nhit_count_None [OF rep, of k] new by simp
    then show "((nhit_count h)(k \<mapsto> 1)) j = Some m \<longleftrightarrow> (\<exists>y \<in> tracked h'. slot_key h' y = j \<and> nh_counter h' y = m)"
      unfolding tr' bex_simps old by (cases "j = k") (auto simp: key h'(5))
  qed
  then have "nhit_seen n (insert k K) (cnt(k := 1)) h'"
    using seen k(2) h' tr tr' fin by (auto simp: nhit_seen_def lessThan_Suc)
  moreover have "core_line_lookup h (fst k) (snd k) = Some n" using lookup_slot(2) [OF rep k(1) new] n nhit_repD(3) [OF rep] by simp
  ultimately show thesis using h'(1) that by blast
qed

text \<open>Asking for a line counts it, and a purge sets its count back.\<close>

lemma nhit_seen_step:
  assumes seen: "nhit_seen n K cnt h" and k: "fst k \<noteq> OCF_CORE_ID_INVALID"
    and room: "card (insert k K) \<le> n" and len: "Suc (cnt k) < 2 ^ 31" and thr: "2 \<le> insertion_threshold cfg"
  shows "\<exists>h'. core_line_should_promote cfg h (fst k) (snd k) = Some (insertion_threshold cfg \<le> Suc (cnt k), h') \<and>
    nhit_seen n (insert k K) (cnt(k := Suc (cnt k))) h'"
proof (cases "k \<in> K")
  case True
  obtain x where x: "core_line_lookup h (fst k) (snd k) = Some x" "x < n" "nh_counter h x = int (cnt k)"
    "nhit_seen n K (cnt(k := Suc (cnt k))) (h\<lparr>nh_counter := (nh_counter h)(x := int (Suc (cnt k)))\<rparr>)"
    by (rule nhit_seen_set [OF seen k True])
  have "s32 (int (cnt k) + 1) = int (Suc (cnt k))" using len by (subst s32_small) auto
  moreover have "int (Suc (cnt k)) mod 2 ^ 32 = int (Suc (cnt k))" using len by simp
  moreover have "nh_rb_entries h = n" using seen by (simp add: nhit_seen_def)
  ultimately show ?thesis using x True
    by (simp add: core_line_should_promote_def nhit_hash_query_def Let_def insert_absorb) linarith
next
  case False
  then have c: "cnt k = 0" and "card K < n" and n: "nh_rb_entries h = n" using nhit_seenD [OF seen] room by auto
  obtain h' where h': "core_line_lookup h (fst k) (snd k) = Some n" "nhit_hash_insert h (fst k) (snd k) = Some h'"
    "nhit_seen n (insert k K) (cnt(k := 1)) h'" by (rule nhit_seen_new [OF seen k False \<open>card K < n\<close>])
  then show ?thesis using thr c n by (simp add: core_line_should_promote_def nhit_hash_query_def)
qed

lemma nhit_seen_purge:
  assumes seen: "nhit_seen n K cnt h" and k: "fst k \<noteq> OCF_CORE_ID_INVALID"
  shows "\<exists>h'. core_line_purge h (fst k) (snd k) = Some h' \<and> nhit_seen n K (cnt(k := 0)) h'"
proof (cases "k \<in> K")
  case True
  obtain x where x: "core_line_lookup h (fst k) (snd k) = Some x" "x < n"
    "nhit_seen n K (cnt(k := 0)) (h\<lparr>nh_counter := (nh_counter h)(x := int 0)\<rparr>)"
    by (rule nhit_seen_set [OF seen k True])
  then show ?thesis using seen by (auto simp: core_line_purge_def nhit_hash_set_occurences_def nhit_seen_def)
next
  case False
  obtain B where rep: "nhit_rep h B" using seen by (auto simp: nhit_seen_def)
  have "nhit_count h k = None" by (rule nhit_seenD(4) [OF seen False])
  then have new: "\<forall>y \<in> tracked h. slot_key h y \<noteq> (fst k, snd k)" using nhit_count_None [OF rep, of k] by simp
  have "cnt(k := 0) = cnt" using nhit_seenD(3) [OF seen False] by auto
  then show ?thesis using lookup_slot(2) [OF rep k new] nhit_repD(3) [OF rep] seen
    by (simp add: core_line_purge_def nhit_hash_set_occurences_def)
qed

text \<open>The lines of a request, as the policy names them: by the core id and the core line in the entries of its map.\<close>

definition entry_key :: "ocf_request \<Rightarrow> nat \<Rightarrow> core_id \<times> u64" where
  "entry_key req i = (case req_entry req i of None \<Rightarrow> (OCF_CORE_ID_INVALID, 0) | Some e \<Rightarrow> (mi_core_id e, mi_core_line e))"

definition req_keys :: "ocf_request \<Rightarrow> (core_id \<times> u64) list" where
  "req_keys req = map (entry_key req) (req_indices req)"

definition req_named :: "ocf_request \<Rightarrow> bool" where
  "req_named req \<longleftrightarrow> (\<forall>i \<in> set (req_indices req). req_entry req i \<noteq> None \<and> fst (entry_key req i) \<noteq> OCF_CORE_ID_INVALID) \<and>
     distinct (req_keys req)"

lemma ask_lines:
  assumes "nhit_seen n K cnt h" "2 \<le> insertion_threshold cfg"
    and "\<forall>i \<in> set is. req_entry req i \<noteq> None \<and> fst (entry_key req i) \<noteq> OCF_CORE_ID_INVALID" "distinct (map (entry_key req) is)"
    and "card (K \<union> entry_key req ` set is) \<le> n" "\<forall>i \<in> set is. Suc (cnt (entry_key req i)) < 2 ^ 31"
  shows "\<exists>h'. fold_opt (\<lambda>i (result, ctx). do {
         e \<leftarrow> req_entry req i;
         (p, ctx) \<leftarrow> core_line_should_promote cfg ctx (mi_core_id e) (mi_core_line e);
         Some (if \<not> p then False else result, ctx) }) is (b, h) =
      Some (b \<and> (\<forall>i \<in> set is. insertion_threshold cfg \<le> Suc (cnt (entry_key req i))), h') \<and>
    nhit_seen n (K \<union> entry_key req ` set is) (\<lambda>k. cnt k + (if k \<in> entry_key req ` set is then 1 else 0)) h'"
  using assms
proof (induction "is" arbitrary: K cnt h b)
  case Nil
  then show ?case by simp
next
  case (Cons i "is")
  let ?k = "entry_key req i"
  obtain e where e: "req_entry req i = Some e" "?k = (mi_core_id e, mi_core_line e)" using Cons.prems(3) by (auto simp: entry_key_def)
  have fin: "finite K" using Cons.prems(1) by (simp add: nhit_seen_def)
  have "card (insert ?k K) \<le> card (K \<union> entry_key req ` set (i # is))" by (rule card_mono) (use fin in auto)
  then have "card (insert ?k K) \<le> n" using Cons.prems(5) by linarith
  then obtain h1 where h1: "core_line_should_promote cfg h (mi_core_id e) (mi_core_line e) = Some (insertion_threshold cfg \<le> Suc (cnt ?k), h1)"
    "nhit_seen n (insert ?k K) (cnt(?k := Suc (cnt ?k))) h1"
    using nhit_seen_step [OF Cons.prems(1), of ?k cfg] Cons.prems(2,3,6) e(2) by auto
  let ?c = "cnt(?k := Suc (cnt ?k))"
  have step: "(\<lambda>k. cnt k + (if k \<in> entry_key req ` set (i # is) then 1 else 0)) = (\<lambda>k. ?c k + (if k \<in> entry_key req ` set is then 1 else 0))"
    using Cons.prems(4) by (auto simp: fun_eq_iff)
  have "entry_key req j \<noteq> ?k" if "j \<in> set is" for j using Cons.prems(4) that by (metis distinct.simps(2) image_eqI list.set_map list.simps(9))
  then have c: "?c (entry_key req j) = cnt (entry_key req j)" if "j \<in> set is" for j using that by simp
  have "insert ?k K \<union> entry_key req ` set is = K \<union> entry_key req ` set (i # is)" by auto
  with Cons.IH [OF h1(2) Cons.prems(2), of "b \<and> insertion_threshold cfg \<le> Suc (cnt ?k)"] Cons.prems(3-6) c
  obtain h' where h': "fold_opt (\<lambda>i (result, ctx). do {
         e \<leftarrow> req_entry req i;
         (p, ctx) \<leftarrow> core_line_should_promote cfg ctx (mi_core_id e) (mi_core_line e);
         Some (if \<not> p then False else result, ctx) }) is (b \<and> insertion_threshold cfg \<le> Suc (cnt ?k), h1) =
      Some ((b \<and> insertion_threshold cfg \<le> Suc (cnt ?k)) \<and> (\<forall>i \<in> set is. insertion_threshold cfg \<le> Suc (cnt (entry_key req i))), h')"
    "nhit_seen n (K \<union> entry_key req ` set (i # is)) (\<lambda>k. ?c k + (if k \<in> entry_key req ` set is then 1 else 0)) h'" by auto
  have "(if \<not> insertion_threshold cfg \<le> Suc (cnt ?k) then False else b) = (b \<and> insertion_threshold cfg \<le> Suc (cnt ?k))" by auto
  with h' h1(1) e(1) show ?case unfolding step by auto
qed

lemma purge_lines:
  assumes "nhit_seen n K cnt h"
    and "\<forall>i \<in> set is. req_entry req i \<noteq> None \<and> fst (entry_key req i) \<noteq> OCF_CORE_ID_INVALID"
  shows "\<exists>h'. fold_opt (\<lambda>i ctx. do { e \<leftarrow> req_entry req i; core_line_purge ctx (mi_core_id e) (mi_core_line e) }) is h = Some h' \<and>
    nhit_seen n K (\<lambda>k. if k \<in> entry_key req ` set is then 0 else cnt k) h'"
  using assms
proof (induction "is" arbitrary: cnt h)
  case (Cons i "is")
  obtain e where e: "req_entry req i = Some e" "entry_key req i = (mi_core_id e, mi_core_line e)" using Cons.prems(2) by (auto simp: entry_key_def)
  obtain h1 where h1: "core_line_purge h (mi_core_id e) (mi_core_line e) = Some h1" "nhit_seen n K (cnt(entry_key req i := 0)) h1"
    using nhit_seen_purge [OF Cons.prems(1), of "entry_key req i"] Cons.prems(2) e(2) by auto
  have "(\<lambda>k. if k \<in> entry_key req ` set (i # is) then 0 else cnt k) = (\<lambda>k. if k \<in> entry_key req ` set is then 0 else (cnt(entry_key req i := 0)) k)"
    by (auto simp: fun_eq_iff)
  with Cons.IH [OF h1(2)] Cons.prems(2) h1(1) e(1) show ?case by simp
qed simp

subsection \<open>The policy in use\<close>

text \<open>
  The calls of the engines: a question for a request, in a state of the cache, and the purge of a request that was
  mapped or discarded. \<open>n\<close> is the number of cache lines.
\<close>

datatype 'c promotion_call = Ask 'c ocf_request | Purge ocf_request

fun promotion_run :: "nat \<Rightarrow> 'w::len wcache promotion_call list \<Rightarrow> promotion_policy \<Rightarrow> (bool list \<times> promotion_policy) option" where
  "promotion_run n [] policy = Some ([], policy)"
| "promotion_run n (Ask c req # cs) policy = do {
     (a, policy) \<leftarrow> ocf_promotion_req_should_promote n c policy req;
     (as, policy) \<leftarrow> promotion_run n cs policy;
     Some (a # as, policy) }"
| "promotion_run n (Purge req # cs) policy = do {
     policy \<leftarrow> ocf_promotion_req_purge policy req;
     promotion_run n cs policy }"

text \<open>
  What the policy promises. \<open>cnt\<close> counts how often a line was asked for since it was purged. While the cache fills, below the
  trigger, every request is promoted and nothing is counted; then a request is promoted when each of its lines reaches the
  threshold, or when a part of it is in the cache already.
\<close>

definition filling :: "nhit_config \<Rightarrow> nat \<Rightarrow> 'w::len wcache \<Rightarrow> bool" where
  "filling cfg n c \<longleftrightarrow> 100 * (ca_entries c - ocf_freelist_num_free (ca_free c)) < trigger_threshold cfg * n"

fun nhit_spec :: "nhit_config \<Rightarrow> nat \<Rightarrow> (core_id \<times> u64 \<Rightarrow> nat) \<Rightarrow> 'w::len wcache promotion_call list \<Rightarrow> bool list" where
  "nhit_spec cfg n cnt [] = []"
| "nhit_spec cfg n cnt (Ask c req # cs) =
     (filling cfg n c \<or> ocf_engine_mapped_count req \<noteq> 0 \<or> (\<forall>k \<in> set (req_keys req). insertion_threshold cfg \<le> Suc (cnt k))) #
     nhit_spec cfg n (if filling cfg n c then cnt else (\<lambda>k. cnt k + (if k \<in> set (req_keys req) then 1 else 0))) cs"
| "nhit_spec cfg n cnt (Purge req # cs) = nhit_spec cfg n (\<lambda>k. if k \<in> set (req_keys req) then 0 else cnt k) cs"

fun call_keys :: "'w::len wcache promotion_call \<Rightarrow> (core_id \<times> u64) set" where
  "call_keys (Ask c req) = set (req_keys req)"
| "call_keys (Purge req) = {}"

fun call_ok :: "'w::len wcache promotion_call \<Rightarrow> bool" where
  "call_ok (Ask c req) = (req_named req \<and> ocf_freelist_num_free (ca_free c) \<le> ca_entries c \<and> ca_entries c < U32_MOD)"
| "call_ok (Purge req) = req_named req"

lemma trigger_code:
  assumes "ocf_freelist_num_free (ca_free c) \<le> ca_entries c" "ca_entries c < U32_MOD" "n < U32_MOD" "trigger_threshold cfg \<le> 100"
  shows "(ca_entries c + U32_MOD - ocf_freelist_num_free (ca_free c) mod U32_MOD) mod U32_MOD < OCF_DIV_ROUND_UP ((trigger_threshold cfg * n) mod U64_MOD) 100
    \<longleftrightarrow> filling cfg n c"
proof -
  have "trigger_threshold cfg * n \<le> 100 * U32_MOD" using assms(3,4) by (intro mult_le_mono) simp_all
  then have t: "trigger_threshold cfg * n mod U64_MOD = trigger_threshold cfg * n" by simp
  have e: "ca_entries c + U32_MOD - ocf_freelist_num_free (ca_free c) = (ca_entries c - ocf_freelist_num_free (ca_free c)) + U32_MOD" using assms(1) by linarith
  have f: "ocf_freelist_num_free (ca_free c) mod U32_MOD = ocf_freelist_num_free (ca_free c)" using assms(1,2) by (intro mod_less) linarith
  have o: "(ca_entries c + U32_MOD - ocf_freelist_num_free (ca_free c) mod U32_MOD) mod U32_MOD = ca_entries c - ocf_freelist_num_free (ca_free c)"
    unfolding f e mod_add_self2 using assms(2) by (intro mod_less) linarith
  show ?thesis unfolding t o filling_def OCF_DIV_ROUND_UP_def by linarith
qed

lemma ask_policy:
  fixes c :: "'w::len wcache"
  assumes seen: "nhit_seen m K cnt h" and ok: "call_ok (Ask c req)" and n: "n < U32_MOD" "trigger_threshold (pp_cfg p) \<le> 100"
    and p: "pp_type p = ocf_promotion_nhit" "pp_ctx p = Some h" and thr: "2 \<le> insertion_threshold (pp_cfg p)"
    and room: "card (K \<union> set (req_keys req)) \<le> m" and len: "\<forall>k. Suc (cnt k) < 2 ^ 31"
  shows "\<exists>h' K'. ocf_promotion_req_should_promote n c p req =
      Some (filling (pp_cfg p) n c \<or> ocf_engine_mapped_count req \<noteq> 0 \<or> (\<forall>k \<in> set (req_keys req). insertion_threshold (pp_cfg p) \<le> Suc (cnt k)),
        p\<lparr>pp_ctx := Some h'\<rparr>) \<and>
    nhit_seen m K' (if filling (pp_cfg p) n c then cnt else (\<lambda>k. cnt k + (if k \<in> set (req_keys req) then 1 else 0))) h' \<and>
    K' \<subseteq> K \<union> set (req_keys req)"
proof (cases "filling (pp_cfg p) n c")
  case True
  then show ?thesis using seen p trigger_code [of c n "pp_cfg p"] ok n
    by (intro exI [of _ h] exI [of _ K]) (simp add: ocf_promotion_req_should_promote_def nhit_req_should_promote_def ocf_promotion_nhit_def ocf_promotion_max_def)
next
  case False
  have keys: "set (req_keys req) = entry_key req ` set (req_indices req)" by (simp add: req_keys_def)
  obtain h' where "fold_opt (\<lambda>i (result, ctx). do {
         e \<leftarrow> req_entry req i;
         (p, ctx) \<leftarrow> core_line_should_promote (pp_cfg p) ctx (mi_core_id e) (mi_core_line e);
         Some (if \<not> p then False else result, ctx) }) (req_indices req) (True, h) =
      Some (\<forall>i \<in> set (req_indices req). insertion_threshold (pp_cfg p) \<le> Suc (cnt (entry_key req i)), h')"
    "nhit_seen m (K \<union> set (req_keys req)) (\<lambda>k. cnt k + (if k \<in> set (req_keys req) then 1 else 0)) h'"
  proof -
    have "\<forall>i \<in> set (req_indices req). Suc (cnt (entry_key req i)) < 2 ^ 31" using len by blast
    from ask_lines [OF seen thr _ _ _ this, of True] ok room show thesis using that unfolding keys
      by (auto simp: req_named_def req_keys_def)
  qed
  then show ?thesis using False p trigger_code [of c n "pp_cfg p"] ok n
    by (intro exI [of _ h'] exI [of _ "K \<union> set (req_keys req)"])
      (auto simp: ocf_promotion_req_should_promote_def nhit_req_should_promote_def ocf_promotion_nhit_def ocf_promotion_max_def keys)
qed

lemma purge_policy:
  assumes seen: "nhit_seen m K cnt h" and ok: "req_named req" and p: "pp_type p = ocf_promotion_nhit" "pp_ctx p = Some h"
  shows "\<exists>h'. ocf_promotion_req_purge p req = Some (p\<lparr>pp_ctx := Some h'\<rparr>) \<and>
    nhit_seen m K (\<lambda>k. if k \<in> set (req_keys req) then 0 else cnt k) h'"
  using purge_lines [OF seen, of "req_indices req" req] ok p
  by (auto simp: ocf_promotion_req_purge_def nhit_req_purge_def req_named_def req_keys_def ocf_promotion_nhit_def ocf_promotion_max_def)

lemma promotion_run_spec:
  fixes cs :: "'w::len wcache promotion_call list"
  assumes "nhit_seen m K cnt h" "list_all call_ok cs" "n < U32_MOD" "trigger_threshold (pp_cfg p) \<le> 100"
    and "pp_type p = ocf_promotion_nhit" "pp_ctx p = Some h" "2 \<le> insertion_threshold (pp_cfg p)"
    and "card (K \<union> (\<Union>c \<in> set cs. call_keys c)) \<le> m" "\<forall>k. cnt k + length cs < 2 ^ 31"
  shows "\<exists>p'. promotion_run n cs p = Some (nhit_spec (pp_cfg p) n cnt cs, p')"
  using assms
proof (induction cs arbitrary: K cnt h p)
  case Nil
  then show ?case by simp
next
  case (Cons call cs)
  let ?U = "\<Union>c \<in> set (call # cs). call_keys c"
  have "finite (call_keys c)" for c :: "'w wcache promotion_call" by (cases c) simp_all
  then have fin: "finite (K \<union> ?U)" using nhit_seenD(2) [OF Cons.prems(1)] by simp
  show ?case
  proof (cases call)
    case (Ask c req)
    have "card (K \<union> set (req_keys req)) \<le> card (K \<union> ?U)" by (rule card_mono [OF fin]) (use Ask in auto)
    then have "card (K \<union> set (req_keys req)) \<le> m" using Cons.prems(8) by linarith
    moreover have "Suc (cnt k) < 2 ^ 31" for k using Cons.prems(9) [rule_format, of k] by simp
    ultimately obtain h' K' where h': "ocf_promotion_req_should_promote n c p req =
      Some (filling (pp_cfg p) n c \<or> ocf_engine_mapped_count req \<noteq> 0 \<or> (\<forall>k \<in> set (req_keys req). insertion_threshold (pp_cfg p) \<le> Suc (cnt k)),
        p\<lparr>pp_ctx := Some h'\<rparr>)"
      "nhit_seen m K' (if filling (pp_cfg p) n c then cnt else (\<lambda>k. cnt k + (if k \<in> set (req_keys req) then 1 else 0))) h'"
      "K' \<subseteq> K \<union> set (req_keys req)"
      using ask_policy [OF Cons.prems(1) _ Cons.prems(3-7), of c req] Cons.prems(2) Ask by auto
    have "card (K' \<union> (\<Union>c \<in> set cs. call_keys c)) \<le> card (K \<union> ?U)" by (rule card_mono [OF fin]) (use h'(3) Ask in auto)
    then have "card (K' \<union> (\<Union>c \<in> set cs. call_keys c)) \<le> m" using Cons.prems(8) by linarith
    moreover have "(if filling (pp_cfg p) n c then cnt else (\<lambda>k. cnt k + (if k \<in> set (req_keys req) then 1 else 0))) k + length cs < 2 ^ 31" for k
      using Cons.prems(9) [rule_format, of k] by simp
    ultimately obtain p' where "promotion_run n cs (p\<lparr>pp_ctx := Some h'\<rparr>) = Some (nhit_spec (pp_cfg p) n
        (if filling (pp_cfg p) n c then cnt else (\<lambda>k. cnt k + (if k \<in> set (req_keys req) then 1 else 0))) cs, p')"
      using Cons.IH [OF h'(2), of "p\<lparr>pp_ctx := Some h'\<rparr>"] Cons.prems(2-7) by (auto simp del: if_split_asm)
    then show ?thesis using h'(1) Ask by simp
  next
    case (Purge req)
    obtain h' where h': "ocf_promotion_req_purge p req = Some (p\<lparr>pp_ctx := Some h'\<rparr>)"
      "nhit_seen m K (\<lambda>k. if k \<in> set (req_keys req) then 0 else cnt k) h'"
      using purge_policy [OF Cons.prems(1) _ Cons.prems(5,6), of req] Cons.prems(2) Purge by auto
    moreover have "(if k \<in> set (req_keys req) then 0 else cnt k) + length cs < 2 ^ 31" for k using Cons.prems(9) [rule_format, of k] by simp
    ultimately obtain p' where "promotion_run n cs (p\<lparr>pp_ctx := Some h'\<rparr>) =
        Some (nhit_spec (pp_cfg p) n (\<lambda>k. if k \<in> set (req_keys req) then 0 else cnt k) cs, p')"
      using Cons.IH [OF h'(2), of "p\<lparr>pp_ctx := Some h'\<rparr>"] Cons.prems(2-8) Purge by auto
    then show ?thesis using h'(1) Purge by simp
  qed
qed

lemma nhit_init_seen:
  assumes "nhit_hash_init env sz = Inr h" and "4 \<le> sz" and "sz < U32_MOD"
  shows "nhit_seen sz {} (\<lambda>_. 0) h"
proof -
  let ?m = "(sz div 4 + 4098) div 4099 * 4099"
  have m: "4099 \<le> ?m" "?m \<le> sz div 4 + 4098" using assms(2) by auto
  have eq: "?m + U64_MOD - 1 = (?m - 1) + U64_MOD" using m(1) by linarith
  have r: "OCF_DIV_ROUND_UP (sz div 4) HASH_PRIME * HASH_PRIME = ?m"
    by (simp add: OCF_DIV_ROUND_UP_def HASH_PRIME_def)
  have "calculate_hash_buckets sz = (?m + U64_MOD - 1) mod U64_MOD"
    unfolding calculate_hash_buckets_def r ..
  also have "\<dots> = (?m - 1) mod U64_MOD" unfolding eq by (rule mod_add_self2)
  also have "\<dots> = ?m - 1" using m(2) assms(3) by (intro mod_less) linarith
  finally have "calculate_hash_buckets sz = ?m - 1" .
  then have b: "0 < calculate_hash_buckets sz" "calculate_hash_buckets sz < U32_MOD" using m assms(3) by auto
  have h: "h = \<lparr>nh_hash_entries = calculate_hash_buckets sz, nh_rb_entries = sz, nh_map = (\<lambda>_. sz),
        nh_lba = (\<lambda>_. 0), nh_counter = (\<lambda>_. 0), nh_prev = (\<lambda>_. 0), nh_next = (\<lambda>_. 0),
        nh_core = (\<lambda>_. OCF_CORE_ID_INVALID), nh_valid = (\<lambda>_. True), nh_ptr = 0\<rparr>"
    using assms b by (auto simp: nhit_hash_init_def Let_def split: if_splits)
  have tr: "tracked h = {}" by (simp add: tracked_def h)
  have rep: "nhit_rep h (\<lambda>_. [])" using assms b tr by (simp add: nhit_rep_def h)
  then show ?thesis using tr nhit_count_None [OF rep] unfolding nhit_seen_def by (auto simp: h)
qed

text \<open>
  C25. The n-hit policy is the specification of its name, for every sequence of questions and purges of requests after its
  table was made. While the cache fills, below the trigger, every request is promoted and nothing is counted. After that a request
  is promoted exactly when a part of it is in the cache already, or when this is at least the n-th question for each of its
  lines since the line was purged, where n is the insertion threshold, which is at least 2. A line is named by the core id and the
  core line in the entry of the request map; the code never sets that core id for the requests of users, so that lines of
  different cores with the same number are one line to the policy. This holds for fewer than 2^31 calls and as long as no more
  different lines are asked for than the ring has slots; the hash chains make no difference, and every lookup ends.
\<close>

theorem nhit_promotes_nth_access:
  fixes cs :: "'w::len wcache promotion_call list"
  assumes "nhit_hash_init env sz = Inr h" and "4 \<le> sz" and "sz < U32_MOD"
    and "pp_type p = ocf_promotion_nhit" and "pp_ctx p = Some h"
    and "2 \<le> insertion_threshold (pp_cfg p)" and "trigger_threshold (pp_cfg p) \<le> 100" and "n < U32_MOD"
    and "list_all call_ok cs" and "card (\<Union>c \<in> set cs. call_keys c) \<le> sz" and "length cs < 2 ^ 31"
  shows "\<exists>p'. promotion_run n cs p = Some (nhit_spec (pp_cfg p) n (\<lambda>_. 0) cs, p')"
  using promotion_run_spec [OF nhit_init_seen [OF assms(1-3)] assms(9,8,7,4,5,6)] assms(10,11) by simp

definition nhit_demo :: "nat \<Rightarrow> ocf_request" where
  "nhit_demo l = request_zero\<lparr>rq_core_line_first := l, rq_core_line_last := l + 1, rq_core_line_count := 2,
     rq_map := Some [map_info_zero\<lparr>mi_core_line := l\<rparr>, map_info_zero\<lparr>mi_core_line := l + 1\<rparr>]\<rparr>"

lemma nhit_demo_keys: "req_keys (nhit_demo l) = [(0, l), (0, l + 1)]" "req_named (nhit_demo l)" "ocf_engine_mapped_count (nhit_demo l) = 0"
proof -
  show k: "req_keys (nhit_demo l) = [(0, l), (0, l + 1)]"
    by (simp add: req_keys_def req_indices_def entry_key_def req_entry_def nhit_demo_def map_info_zero_def upt_rec)
  show "req_named (nhit_demo l)" unfolding req_named_def k
    by (auto simp: req_indices_def entry_key_def req_entry_def nhit_demo_def map_info_zero_def upt_rec OCF_CORE_ID_INVALID_def OCF_CORE_MAX_def)
  show "ocf_engine_mapped_count (nhit_demo l) = 0" by (simp add: ocf_engine_mapped_count_def nhit_demo_def request_zero_def req_info_zero_def)
qed

text \<open>Lines 5 and 6, asked for with threshold 3, purged and asked for again; the example cache is not below the trigger for three lines.\<close>

theorem nhit_promotes_nth_access_witness:
  "\<exists>h p'. nhit_hash_init \<lparr>ne_ctx = True, ne_map = True, ne_locks = True, ne_sem = True, ne_ring = True, ne_spin = 0\<rparr> 8 = Inr h \<and>
    promotion_run 3 [Ask example_cache (nhit_demo 5), Ask example_cache (nhit_demo 5), Ask example_cache (nhit_demo 5), Ask example_cache (nhit_demo 6),
        Purge (nhit_demo 5), Ask example_cache (nhit_demo 5)]
      \<lparr>pp_type = ocf_promotion_nhit, pp_conf_type = ocf_promotion_nhit, pp_cfg = nhit_setup, pp_ctx = Some h\<rparr> =
      Some ([False, False, True, False, False], p')"
proof -
  let ?env = "\<lparr>ne_ctx = True, ne_map = True, ne_locks = True, ne_sem = True, ne_ring = True, ne_spin = 0\<rparr>"
  let ?cs = "[Ask example_cache (nhit_demo 5), Ask example_cache (nhit_demo 5), Ask example_cache (nhit_demo 5), Ask example_cache (nhit_demo 6),
    Purge (nhit_demo 5), Ask example_cache (nhit_demo 5)]"
  obtain h where h: "nhit_hash_init ?env 8 = Inr h" by (simp add: nhit_hash_init_def Let_def)
  let ?p = "\<lparr>pp_type = ocf_promotion_nhit, pp_conf_type = ocf_promotion_nhit, pp_cfg = nhit_setup, pp_ctx = Some h\<rparr>"
  have thr: "insertion_threshold nhit_setup = 3" "trigger_threshold nhit_setup = 80"
    by (simp_all add: nhit_setup_def OCF_NHIT_THRESHOLD_DEFAULT_def OCF_NHIT_TRIGGER_DEFAULT_def)
  have ok: "list_all call_ok ?cs" by (simp add: nhit_demo_keys, simp add: example_cache_def ocf_freelist_num_free_def)
  have "(\<Union>c \<in> set ?cs. call_keys c) = {(0, 5), (0, 6), (0, 7)}" by (auto simp: nhit_demo_keys)
  then have "card (\<Union>c \<in> set ?cs. call_keys c) \<le> 8" by simp
  with nhit_promotes_nth_access [OF h, of ?p 3 ?cs] thr ok obtain p' where
    run: "promotion_run 3 ?cs ?p = Some (nhit_spec nhit_setup 3 (\<lambda>_. 0) ?cs, p')" by auto
  have "\<not> filling nhit_setup 3 example_cache" by (simp add: filling_def thr example_cache_def ocf_freelist_num_free_def)
  then have "nhit_spec nhit_setup 3 (\<lambda>_. 0) ?cs = [False, False, True, False, False]" by (auto simp: nhit_demo_keys thr)
  then show ?thesis using h run by metis
qed

text \<open>
  The n-hit policy does not tell the cores apart. It names the lines of a request by the core id in the entries of the
  map, which the lookup does not write, so the answer and the counters are the same whichever core the
  request belongs to: lines of different cores with the same number share one counter.
\<close>

theorem nhit_ignores_core:
  "map_option mi_core_id (ocf_engine_lookup_map_entry coll e cid cl) =
     map_option (\<lambda>_. mi_core_id e) (ocf_engine_lookup_map_entry coll e cid cl) \<and>
   nhit_req_should_promote cfg n c ctx (req\<lparr>rq_core_id := cid\<rparr>) = nhit_req_should_promote cfg n c ctx req \<and>
   nhit_req_purge ctx (req\<lparr>rq_core_id := cid\<rparr>) = nhit_req_purge ctx req"
proof (intro conjI)
  show "map_option mi_core_id (ocf_engine_lookup_map_entry coll e cid cl) =
      map_option (\<lambda>_. mi_core_id e) (ocf_engine_lookup_map_entry coll e cid cl)"
    by (cases "collision_lookup coll cid cl") (auto simp: ocf_engine_lookup_map_entry_def Let_def split: option.split)
qed (simp_all add: nhit_req_should_promote_def nhit_req_purge_def req_entry_def req_indices_def ocf_engine_mapped_count_def)

end
