(* ===== verification/Dispatch.thy ===== *)
theory Dispatch
  imports Nhit
begin

section \<open>Choosing and queueing the engine of a request\<close>

text \<open>
  \<^verbatim>\<open>src/engine/cache_engine.c\<close>, the queues of \<^verbatim>\<open>src/ocf_queue.c\<close> and
  \<^verbatim>\<open>src/engine/engine_common.c\<close>, and the entry points of \<^verbatim>\<open>src/ocf_core.c\<close> that submit a request. The
  effective cache mode of a request selects a pair of engines, and the request waits in the queue of its
  submitter until a worker runs the engine.
\<close>

subsection \<open>Engines and interfaces\<close>

text \<open>
  The functions an interface can hold: the engines, and the functions that resume a request after a lock or an I/O it had to wait for
  (theory \<open>Engines\<close> defines them).
\<close>

datatype engine_fn = FN_ocf_read_generic | FN_ocf_read_pt | FN_ocf_read_wo | FN_ocf_read_mfwa | FN_ocf_read_mfwb | FN_ocf_read_fast
  | FN_ocf_write_wt | FN_ocf_write_wb | FN_ocf_write_wa | FN_ocf_write_wi | FN_ocf_write_fast | FN_ocf_discard | FN_ocf_io_d2c
  | FN_ocf_engine_ops | FN_ocf_engine_refresh | FN_ocf_read_generic_do | FN_ocf_read_pt_do | FN_ocf_read_fast_do | FN_ocf_read_wo_do
  | FN_ocf_read_wo_cache_do | FN_ocf_read_mfwa_do | FN_ocf_read_mfwb_do | FN_ocf_write_wt_do | FN_ocf_write_wb_do
  | FN_ocf_write_wb_do_flush_metadata | FN_ocf_write_wi_do | FN_ocf_write_wi_update_and_flush_metadata | FN_ocf_invalidate_do
  | FN_ocf_backfill_do | FN_ocf_discard_step | FN_ocf_discard_step_do | FN_ocf_discard_flush_cache | FN_ocf_discard_core
  | FN_ocf_zero_do | FN_ocf_zero_purge

record ocf_io_if =
  io_read :: engine_fn
  io_write :: engine_fn
  io_name :: string

datatype ocf_io_if_type = OCF_IO_WT_IF | OCF_IO_WB_IF | OCF_IO_WA_IF | OCF_IO_WI_IF | OCF_IO_PT_IF | OCF_IO_WO_IF
  | OCF_IO_MFWA_IF | OCF_IO_MFWB_IF | OCF_IO_MFWT_IF | OCF_IO_FAST_IF | OCF_IO_DISCARD_IF | OCF_IO_D2C_IF | OCF_IO_OPS_IF

primrec IO_IFS :: "ocf_io_if_type \<Rightarrow> ocf_io_if" where
  "IO_IFS OCF_IO_WT_IF = \<lparr>io_read = FN_ocf_read_generic, io_write = FN_ocf_write_wt, io_name = ''Write Through''\<rparr>"
| "IO_IFS OCF_IO_WB_IF = \<lparr>io_read = FN_ocf_read_generic, io_write = FN_ocf_write_wb, io_name = ''Write Back''\<rparr>"
| "IO_IFS OCF_IO_WA_IF = \<lparr>io_read = FN_ocf_read_generic, io_write = FN_ocf_write_wa, io_name = ''Write Around''\<rparr>"
| "IO_IFS OCF_IO_WI_IF = \<lparr>io_read = FN_ocf_read_generic, io_write = FN_ocf_write_wi, io_name = ''Write Invalidate''\<rparr>"
| "IO_IFS OCF_IO_PT_IF = \<lparr>io_read = FN_ocf_read_pt, io_write = FN_ocf_write_wi, io_name = ''Pass Through''\<rparr>"
| "IO_IFS OCF_IO_WO_IF = \<lparr>io_read = FN_ocf_read_wo, io_write = FN_ocf_write_wb, io_name = ''Write Only''\<rparr>"
| "IO_IFS OCF_IO_MFWA_IF = \<lparr>io_read = FN_ocf_read_mfwa, io_write = FN_ocf_write_wa, io_name = ''MFC with WA''\<rparr>"
| "IO_IFS OCF_IO_MFWB_IF = \<lparr>io_read = FN_ocf_read_mfwb, io_write = FN_ocf_write_wb, io_name = ''MFC with WB''\<rparr>"
| "IO_IFS OCF_IO_MFWT_IF = \<lparr>io_read = FN_ocf_read_mfwa, io_write = FN_ocf_write_wt, io_name = ''MFC with WT''\<rparr>"
| "IO_IFS OCF_IO_FAST_IF = \<lparr>io_read = FN_ocf_read_fast, io_write = FN_ocf_write_fast, io_name = ''Fast''\<rparr>"
| "IO_IFS OCF_IO_DISCARD_IF = \<lparr>io_read = FN_ocf_discard, io_write = FN_ocf_discard, io_name = ''Discard''\<rparr>"
| "IO_IFS OCF_IO_D2C_IF = \<lparr>io_read = FN_ocf_io_d2c, io_write = FN_ocf_io_d2c, io_name = ''Direct to core''\<rparr>"
| "IO_IFS OCF_IO_OPS_IF = \<lparr>io_read = FN_ocf_engine_ops, io_write = FN_ocf_engine_ops, io_name = ''Ops engine''\<rparr>"

text \<open>The table has an entry for every mode below \<open>ocf_req_cache_mode_max\<close>, and none beyond.\<close>

definition cache_mode_io_if_map :: "cache_mode \<Rightarrow> ocf_io_if_type option" where
  "cache_mode_io_if_map mode =
     (if mode = ocf_cache_mode_wt then Some OCF_IO_WT_IF
      else if mode = ocf_cache_mode_wb then Some OCF_IO_WB_IF
      else if mode = ocf_cache_mode_wa then Some OCF_IO_WA_IF
      else if mode = ocf_cache_mode_wi then Some OCF_IO_WI_IF
      else if mode = ocf_cache_mode_wo then Some OCF_IO_WO_IF
      else if mode = ocf_cache_mode_pt then Some OCF_IO_PT_IF
      else if mode = ocf_cache_mode_mfwa then Some OCF_IO_MFWA_IF
      else if mode = ocf_cache_mode_mfwb then Some OCF_IO_MFWB_IF
      else if mode = ocf_cache_mode_mfwt then Some OCF_IO_MFWT_IF
      else if mode = ocf_req_cache_mode_fast then Some OCF_IO_FAST_IF
      else if mode = ocf_req_cache_mode_d2c then Some OCF_IO_D2C_IF
      else None)"

text \<open>The inner \<^const>\<open>None\<close> is the null pointer, the outer one an access outside of the table.\<close>

definition ocf_get_io_if :: "cache_mode \<Rightarrow> ocf_io_if option option" where
  "ocf_get_io_if req_cache_mode =
     (if req_cache_mode = ocf_req_cache_mode_max then Some None
      else map_option (\<lambda>t. Some (IO_IFS t)) (cache_mode_io_if_map req_cache_mode))"

subsection \<open>The effective mode\<close>

definition OCF_CACHE_FALLBACK_PT_INACTIVE :: int where "OCF_CACHE_FALLBACK_PT_INACTIVE = 0"

text \<open>The settings of a cache that decide about the mode of a request.\<close>

record mode_ctx =
  mc_fallback_counter :: int
  mc_fallback_threshold :: int
  mc_pt_unaligned :: bool
  mc_cachelines :: nat
  mc_cache_mode :: cache_mode

definition ocf_fallback_pt_is_on :: "mode_ctx \<Rightarrow> bool option" where
  "ocf_fallback_pt_is_on m = do {
     bug_on (mc_fallback_counter m < 0);
     Some (mc_fallback_threshold m \<noteq> OCF_CACHE_FALLBACK_PT_INACTIVE \<and> mc_fallback_counter m \<ge> mc_fallback_threshold m) }"

definition inc_fallback_pt_error_counter :: "mode_ctx \<Rightarrow> mode_ctx option" where
  "inc_fallback_pt_error_counter m = do {
     bug_on (mc_fallback_counter m < 0);
     Some (if mc_fallback_threshold m = OCF_CACHE_FALLBACK_PT_INACTIVE then m
           else m\<lparr>mc_fallback_counter := mc_fallback_counter m + 1\<rparr>) }"

definition ocf_cache_mode_is_valid :: "cache_mode \<Rightarrow> bool" where
  "ocf_cache_mode_is_valid mode = (mode \<ge> ocf_cache_mode_wt \<and> mode < ocf_cache_mode_max)"

definition ocf_mngt_cache_mode_has_lazy_write :: "cache_mode \<Rightarrow> bool" where
  "ocf_mngt_cache_mode_has_lazy_write mode = (mode = ocf_cache_mode_wb \<or> mode = ocf_cache_mode_wo)"

definition ocf_req_cache_mode_has_lazy_write :: "cache_mode \<Rightarrow> bool" where
  "ocf_req_cache_mode_has_lazy_write mode = (ocf_cache_mode_is_valid mode \<and> ocf_mngt_cache_mode_has_lazy_write mode)"

text \<open>\<open>seq_cutoff\<close> is the answer of \<^verbatim>\<open>ocf_core_seq_cutoff_check\<close> for the request.\<close>

definition ocf_resolve_effective_cache_mode ::
  "mode_ctx \<Rightarrow> part_state \<Rightarrow> bool \<Rightarrow> req_ctx \<Rightarrow> ocf_request \<Rightarrow> (ocf_request \<times> req_ctx) option" where
  "ocf_resolve_effective_cache_mode m ps seq_cutoff x req =
     (if rq_d2c req then Some (req\<lparr>rq_cache_mode := ocf_req_cache_mode_d2c\<rparr>, x)
      else do {
        fallback \<leftarrow> ocf_fallback_pt_is_on m;
        if fallback then Some (req\<lparr>rq_cache_mode := ocf_cache_mode_pt\<rparr>, x)
        else if mc_pt_unaligned m \<and> \<not> ocf_req_is_4k (rq_byte_position req) (rq_byte_length req)
        then Some (req\<lparr>rq_cache_mode := ocf_cache_mode_pt\<rparr>, x)
        else if rq_core_line_count req > mc_cachelines m then Some (req\<lparr>rq_cache_mode := ocf_cache_mode_pt\<rparr>, x)
        else if seq_cutoff then Some (req\<lparr>rq_cache_mode := ocf_cache_mode_pt, rq_seq_cutoff := True\<rparr>, x)
        else do {
          let mode = ocf_part_get_cache_mode ps (ocf_part_class2id ps (rq_part_id req));
          let mode = (if \<not> ocf_cache_mode_is_valid mode then mc_cache_mode m else mode);
          let req = req\<lparr>rq_cache_mode := mode\<rparr>;
          if rq_rw req = OCF_WRITE \<and> ocf_req_cache_mode_has_lazy_write mode then do {
            (err, req, x) \<leftarrow> ocf_req_set_dirty x req;
            Some (if err \<noteq> 0 then req\<lparr>rq_cache_mode := ocf_cache_mode_wt\<rparr> else req, x) }
          else Some (req, x) } })"

subsection \<open>Queues\<close>

text \<open>
  A queue holds requests with the interface they will run. Kicking the queue is a callback of the application; a kick is recorded
  with whether it was the synchronous one. \<open>qs_done\<close> records the requests completed with an error by the queue itself.
\<close>

record ocf_queue =
  q_io_no :: int
  q_io_list :: "(ocf_io_if \<times> ocf_request) list"
  q_has_kick_sync :: bool
  q_kicks :: "bool list"

record queue_state =
  qs_queue :: ocf_queue
  qs_ctx :: req_ctx
  qs_last_access :: nat
  qs_done :: "(int \<times> ocf_request) list"

definition ocf_queue_init :: "bool \<Rightarrow> ocf_queue" where
  "ocf_queue_init kick_sync = \<lparr>q_io_no = 0, q_io_list = [], q_has_kick_sync = kick_sync, q_kicks = []\<rparr>"

definition ocf_queue_kick :: "ocf_queue \<Rightarrow> bool \<Rightarrow> ocf_queue" where
  "ocf_queue_kick q allow_sync = q\<lparr>q_kicks := q_kicks q @ [allow_sync \<and> q_has_kick_sync q]\<rparr>"

definition ocf_engine_push_req_back ::
  "nat \<Rightarrow> queue_state \<Rightarrow> ocf_io_if \<Rightarrow> ocf_request \<Rightarrow> bool \<Rightarrow> queue_state" where
  "ocf_engine_push_req_back now s io_if req allow_sync =
     (let s = (if \<not> ri_internal (rq_info req) then s\<lparr>qs_last_access := now\<rparr> else s);
          q = qs_queue s;
          q = q\<lparr>q_io_list := q_io_list q @ [(io_if, req)], q_io_no := q_io_no q + 1\<rparr>
      in s\<lparr>qs_queue := ocf_queue_kick q allow_sync\<rparr>)"

definition ocf_engine_push_req_front ::
  "nat \<Rightarrow> queue_state \<Rightarrow> ocf_io_if \<Rightarrow> ocf_request \<Rightarrow> bool \<Rightarrow> queue_state" where
  "ocf_engine_push_req_front now s io_if req allow_sync =
     (let s = (if \<not> ri_internal (rq_info req) then s\<lparr>qs_last_access := now\<rparr> else s);
          q = qs_queue s;
          q = q\<lparr>q_io_list := (io_if, req) # q_io_list q, q_io_no := q_io_no q + 1\<rparr>
      in s\<lparr>qs_queue := ocf_queue_kick q allow_sync\<rparr>)"

definition ocf_engine_push_req_front_if ::
  "nat \<Rightarrow> queue_state \<Rightarrow> ocf_request \<Rightarrow> ocf_io_if \<Rightarrow> bool \<Rightarrow> queue_state" where
  "ocf_engine_push_req_front_if now s req io_if allow_sync =
     ocf_engine_push_req_front now s io_if (req\<lparr>rq_error := 0\<rparr>) allow_sync"

text \<open>\<open>got\<close> tells whether the map of a request can be allocated.\<close>

definition ocf_engine_pop_req ::
  "(ocf_request \<Rightarrow> bool) \<Rightarrow> queue_state \<Rightarrow> ((ocf_io_if \<times> ocf_request) option \<times> queue_state) option" where
  "ocf_engine_pop_req got s =
     (case q_io_list (qs_queue s) of
        [] \<Rightarrow> Some (None, s)
      | (io_if, req) # rest \<Rightarrow> do {
          let s = s\<lparr>qs_queue := (qs_queue s)\<lparr>q_io_no := q_io_no (qs_queue s) - 1, q_io_list := rest\<rparr>\<rparr>;
          (err, req, x) \<leftarrow> ocf_req_alloc_map (qs_ctx s) (got req) req;
          let s = s\<lparr>qs_ctx := x\<rparr>;
          Some (if err \<noteq> 0 then (None, s\<lparr>qs_done := qs_done s @ [(rq_error req, req)]\<rparr>) else (Some (io_if, req), s)) })"

text \<open>The engines are a parameter here: what an engine does to the state when it runs a request.\<close>

definition ocf_io_handle ::
  "(engine_fn \<Rightarrow> ocf_request \<Rightarrow> queue_state \<Rightarrow> queue_state option) \<Rightarrow> ocf_io_if \<Rightarrow> ocf_request \<Rightarrow> queue_state \<Rightarrow> queue_state option" where
  "ocf_io_handle run io_if req s = (if rq_rw req = OCF_WRITE then run (io_write io_if) req s else run (io_read io_if) req s)"

definition ocf_queue_run_single ::
  "(engine_fn \<Rightarrow> ocf_request \<Rightarrow> queue_state \<Rightarrow> queue_state option) \<Rightarrow> (ocf_request \<Rightarrow> bool) \<Rightarrow> queue_state \<Rightarrow> queue_state option" where
  "ocf_queue_run_single run got s = do {
     (r, s) \<leftarrow> ocf_engine_pop_req got s;
     case r of None \<Rightarrow> Some s | Some (io_if, req) \<Rightarrow> ocf_io_handle run io_if req s }"

partial_function (option) ocf_queue_run ::
  "(engine_fn \<Rightarrow> ocf_request \<Rightarrow> queue_state \<Rightarrow> queue_state option) \<Rightarrow> (ocf_request \<Rightarrow> bool) \<Rightarrow> queue_state \<Rightarrow> queue_state option" where
  "ocf_queue_run run got s =
     (if q_io_no (qs_queue s) > 0 then do {
        s \<leftarrow> ocf_queue_run_single run got s;
        ocf_queue_run run got s }
      else Some s)"

definition ocf_queue_pending_io :: "ocf_queue \<Rightarrow> nat" where
  "ocf_queue_pending_io q = nat (q_io_no q mod 2 ^ 32)"

subsection \<open>Handing a request to its engine\<close>

definition ocf_engine_hndl_req :: "nat \<Rightarrow> queue_state \<Rightarrow> ocf_request \<Rightarrow> (int \<times> queue_state) option" where
  "ocf_engine_hndl_req now s req = do {
     io_if \<leftarrow> ocf_get_io_if (rq_cache_mode req);
     case io_if of
       None \<Rightarrow> Some (- OCF_ERR_INVAL, s)
     | Some io_if \<Rightarrow> Some (0, ocf_engine_push_req_back now s io_if (ocf_req_get req) True) }"

definition OCF_FAST_PATH_YES :: int where "OCF_FAST_PATH_YES = 7"
definition OCF_FAST_PATH_NO :: int where "OCF_FAST_PATH_NO = 13"

text \<open>The fast path runs the engine at once; \<open>run\<close> gives its answer and the request after it.\<close>

definition ocf_engine_hndl_fast_req ::
  "(engine_fn \<Rightarrow> ocf_request \<Rightarrow> queue_state \<Rightarrow> (int \<times> ocf_request \<times> queue_state) option) \<Rightarrow> queue_state \<Rightarrow> ocf_request \<Rightarrow>
   (int \<times> queue_state) option" where
  "ocf_engine_hndl_fast_req run s req = do {
     io_if \<leftarrow> ocf_get_io_if (rq_cache_mode req);
     case io_if of
       None \<Rightarrow> Some (- OCF_ERR_INVAL, s)
     | Some io_if \<Rightarrow> do {
         let req = ocf_req_get req;
         (ret, req, s) \<leftarrow> (if rq_rw req = OCF_READ then run (io_read io_if) req s
                          else if rq_rw req = OCF_WRITE then run (io_write io_if) req s
                          else Some (OCF_FAST_PATH_NO, req, s));
         s \<leftarrow> (if ret = OCF_FAST_PATH_NO then do {
                (_, x) \<leftarrow> ocf_req_put (qs_ctx s) req;
                Some (s\<lparr>qs_ctx := x\<rparr>) }
              else Some s);
         Some (ret, s) } }"

definition ocf_engine_hndl_2dc_req ::
  "(engine_fn \<Rightarrow> ocf_request \<Rightarrow> queue_state \<Rightarrow> queue_state option) \<Rightarrow> queue_state \<Rightarrow> ocf_request \<Rightarrow> queue_state option" where
  "ocf_engine_hndl_2dc_req run s req =
     (if rq_rw req = OCF_READ then run (io_read (IO_IFS OCF_IO_D2C_IF)) req s
      else if rq_rw req = OCF_WRITE then run (io_write (IO_IFS OCF_IO_D2C_IF)) req s
      else None)"

definition ocf_engine_hndl_discard_req ::
  "(engine_fn \<Rightarrow> ocf_request \<Rightarrow> queue_state \<Rightarrow> queue_state option) \<Rightarrow> queue_state \<Rightarrow> ocf_request \<Rightarrow> queue_state option" where
  "ocf_engine_hndl_discard_req run s req =
     (let req = ocf_req_get req
      in if rq_d2c req then ocf_engine_hndl_2dc_req run s req
         else if rq_rw req = OCF_READ then run (io_read (IO_IFS OCF_IO_DISCARD_IF)) req s
         else if rq_rw req = OCF_WRITE then run (io_write (IO_IFS OCF_IO_DISCARD_IF)) req s
         else None)"

definition ocf_engine_hndl_ops_req :: "nat \<Rightarrow> queue_state \<Rightarrow> ocf_request \<Rightarrow> queue_state" where
  "ocf_engine_hndl_ops_req now s req =
     (let req = ocf_req_get req
      in ocf_engine_push_req_back now s (if rq_d2c req then IO_IFS OCF_IO_D2C_IF else IO_IFS OCF_IO_OPS_IF) req True)"

subsection \<open>Submitting\<close>

definition OCF_ERR_CACHE_NOT_AVAIL :: int where "OCF_ERR_CACHE_NOT_AVAIL = 1000021"
definition OCF_ERR_IO :: int where "OCF_ERR_IO = 1000023"

text \<open>
  The fields of an I/O that are checked. \<open>io_queue_kind\<close> is \<^const>\<open>None\<close> without a queue, else tells whether it is the
  management queue; \<open>io_end_set\<close> tells whether there is a completion callback.
\<close>

record core_io =
  io_addr :: u64
  io_bytes :: nat
  io_class :: nat
  io_dir :: nat
  io_queue_kind :: "bool option"
  io_end_set :: bool

definition ocf_core_validate_io :: "u64 \<Rightarrow> core_io \<Rightarrow> int" where
  "ocf_core_validate_io volume_length io =
     (if (io_addr io + io_bytes io) mod U64_MOD > volume_length then - OCF_ERR_INVAL
      else if io_class io \<ge> OCF_IO_CLASS_MAX then - OCF_ERR_INVAL
      else if io_dir io \<noteq> OCF_READ \<and> io_dir io \<noteq> OCF_WRITE then - OCF_ERR_INVAL
      else if io_queue_kind io = None then - OCF_ERR_INVAL
      else if \<not> io_end_set io then - OCF_ERR_INVAL
      else if io_queue_kind io = Some True then - OCF_ERR_INVAL
      else 0)"

definition dec_counter_if_req_was_dirty :: "req_ctx \<Rightarrow> ocf_request \<Rightarrow> (ocf_request \<times> req_ctx) option" where
  "dec_counter_if_req_was_dirty x req =
     (if \<not> rq_dirty req then Some (req, x)
      else do {
        (_, rc) \<leftarrow> ocf_refcnt_dec (rx_dirty x);
        Some (req\<lparr>rq_dirty := False\<rparr>, x\<lparr>rx_dirty := rc\<rparr>) })"

text \<open>
  \<open>running\<close> tells whether the cache is running. The result is \<open>Inl\<close> with the error the I/O ends with at once, or \<open>Inr\<close> when the
  request is on its way. Statistics, traces, the sequential cut-off update and the reference that \<^verbatim>\<open>ocf_io_get\<close> takes on the I/O
  (a counter of the I/O object, not the reference count of the request) are left out.
\<close>

definition ocf_core_volume_submit_io ::
  "nat \<Rightarrow> u64 \<Rightarrow> bool \<Rightarrow> mode_ctx \<Rightarrow> part_state \<Rightarrow> bool \<Rightarrow> core_io \<Rightarrow> queue_state \<Rightarrow> ocf_request \<Rightarrow> ((int + unit) \<times> queue_state) option" where
  "ocf_core_volume_submit_io now volume_length running m ps seq_cutoff io s req = do {
     let ret = ocf_core_validate_io volume_length io;
     if ret < 0 then Some (Inl ret, s)
     else if \<not> running then Some (Inl (- OCF_ERR_CACHE_NOT_AVAIL), s)
     else do {
       let req = req\<lparr>rq_part_id := ocf_part_class2id ps (io_class io)\<rparr>;
       (req, x) \<leftarrow> ocf_resolve_effective_cache_mode m ps seq_cutoff (qs_ctx s) req;
       let s = s\<lparr>qs_ctx := x\<rparr>;
       (ret, s) \<leftarrow> ocf_engine_hndl_req now s req;
       if ret \<noteq> 0 then do {
         (req, x) \<leftarrow> dec_counter_if_req_was_dirty (qs_ctx s) req;
         Some (Inl ret, s\<lparr>qs_ctx := x\<rparr>) }
       else Some (Inr (), s) } }"

subsection \<open>Properties\<close>

lemma io_if_table:
  "cache_mode_io_if_map mode \<noteq> None \<longleftrightarrow> 0 \<le> mode \<and> mode < ocf_req_cache_mode_max"
  by (auto simp: cache_mode_io_if_map_def cache_mode_defs) presburger

lemma set_dirty_result:
  assumes "0 \<le> rc_counter (rx_dirty x)"
  shows "ocf_req_set_dirty x req =
    (if rc_freeze (rx_dirty x) = 0
     then Some (0, req\<lparr>rq_dirty := True\<rparr>, x\<lparr>rx_dirty := (rx_dirty x)\<lparr>rc_counter := rc_counter (rx_dirty x) + 1\<rparr>\<rparr>)
     else Some (- OCF_ERR_AGAIN, req\<lparr>rq_dirty := False\<rparr>, x))"
  using assms by (simp add: ocf_req_set_dirty_def ocf_refcnt_inc_def refcnt_inc_gen_def Let_def)

definition mode_ok :: "mode_ctx \<Rightarrow> req_ctx \<Rightarrow> bool" where
  "mode_ok m x \<longleftrightarrow> ocf_cache_mode_is_valid (mc_cache_mode m) \<and> 0 \<le> mc_fallback_counter m \<and> 0 \<le> rc_counter (rx_dirty x)"

lemma resolve_cases:
  assumes "mode_ok m x" and "\<not> rq_dirty req"
  obtains req' x' where "ocf_resolve_effective_cache_mode m ps sc x req = Some (req', x')"
    and "0 \<le> rq_cache_mode req'" and "rq_cache_mode req' < ocf_req_cache_mode_max" and "rq_cache_mode req' \<noteq> ocf_req_cache_mode_fast"
    and "rq_dirty req' \<longleftrightarrow> rq_rw req = OCF_WRITE \<and> ocf_mngt_cache_mode_has_lazy_write (rq_cache_mode req')"
    and "rc_counter (rx_dirty x') = rc_counter (rx_dirty x) + (if rq_dirty req' then 1 else 0)"
    and "rq_rw req' = rq_rw req" and "rq_d2c req' = rq_d2c req" and "rq_ref_count req' = rq_ref_count req"
  using assms
  by (cases "ocf_resolve_effective_cache_mode m ps sc x req")
     (auto simp: mode_ok_def ocf_resolve_effective_cache_mode_def ocf_fallback_pt_is_on_def Let_def set_dirty_result
       ocf_cache_mode_is_valid_def ocf_req_cache_mode_has_lazy_write_def ocf_mngt_cache_mode_has_lazy_write_def cache_mode_defs OCF_ERR_AGAIN_def
       split: if_splits)

text \<open>
  C40. Submitting an I/O that passes the checks to a running cache always finds an engine: the effective mode is one of the
  modes the table of interfaces has an entry for, whatever the partition of the request and the fallback settings are.
  The request is queued once, behind all others, with one more reference, and the queue is kicked.
\<close>

theorem submit_io_queues:
  assumes ok: "mode_ok m (qs_ctx s)" and io: "ocf_core_validate_io len io = 0" and nd: "\<not> rq_dirty req"
  shows "\<exists>s' io_if req'. ocf_core_volume_submit_io now len True m ps seq_cutoff io s req = Some (Inr (), s') \<and>
    ocf_get_io_if (rq_cache_mode req') = Some (Some io_if) \<and>
    0 \<le> rq_cache_mode req' \<and> rq_cache_mode req' < ocf_req_cache_mode_max \<and>
    q_io_list (qs_queue s') = q_io_list (qs_queue s) @ [(io_if, req')] \<and>
    q_io_no (qs_queue s') = q_io_no (qs_queue s) + 1 \<and> length (q_kicks (qs_queue s')) = length (q_kicks (qs_queue s)) + 1 \<and>
    rq_ref_count req' = rq_ref_count req + 1"
proof -
  let ?req = "req\<lparr>rq_part_id := ocf_part_class2id ps (io_class io)\<rparr>"
  obtain r x where r: "ocf_resolve_effective_cache_mode m ps seq_cutoff (qs_ctx s) ?req = Some (r, x)"
    "0 \<le> rq_cache_mode r" "rq_cache_mode r < ocf_req_cache_mode_max" "rq_ref_count r = rq_ref_count req"
    by (rule resolve_cases [OF ok, of ?req]) (use nd in auto)
  obtain t where t: "cache_mode_io_if_map (rq_cache_mode r) = Some t" using io_if_table [of "rq_cache_mode r"] r(2,3) by blast
  then have io_if: "ocf_get_io_if (rq_cache_mode r) = Some (Some (IO_IFS t))" using r(3) by (simp add: ocf_get_io_if_def)
  show ?thesis
    using io r io_if
    by (intro exI [of _ "ocf_engine_push_req_back now (s\<lparr>qs_ctx := x\<rparr>) (IO_IFS t) (ocf_req_get r) True"] exI [of _ "IO_IFS t"] exI [of _ "ocf_req_get r"])
       (simp add: ocf_core_volume_submit_io_def ocf_engine_hndl_req_def ocf_req_get_def ocf_engine_push_req_back_def Let_def ocf_queue_kick_def)
qed

definition sample_mode :: mode_ctx where
  "sample_mode = \<lparr>mc_fallback_counter = 0, mc_fallback_threshold = 0, mc_pt_unaligned = False, mc_cachelines = 1000,
     mc_cache_mode = ocf_cache_mode_mfwb\<rparr>"

definition sample_parts :: part_state where
  "sample_parts = (ca_parts example_cache)\<lparr>user_parts := (\<lambda>p. (user_parts (ca_parts example_cache) p)\<lparr>part_cache_mode := ocf_cache_mode_max\<rparr>)\<rparr>"

definition sample_state :: queue_state where
  "sample_state = \<lparr>qs_queue = ocf_queue_init False,
     qs_ctx = \<lparr>rx_line = ca_line example_cache, rx_metadata = ocf_refcnt_init, rx_dirty = ocf_refcnt_init, rx_queue = 1, rx_pool = (\<lambda>_. 0), rx_maps = 0\<rparr>,
     qs_last_access = 0, qs_done = []\<rparr>"

definition sample_io :: core_io where
  "sample_io = \<lparr>io_addr = 4096, io_bytes = 8192, io_class = 0, io_dir = 1, io_queue_kind = Some False, io_end_set = True\<rparr>"

definition sample_write :: ocf_request where
  "sample_write = request_zero\<lparr>rq_rw := OCF_WRITE, rq_core_line_count := 2, rq_byte_position := 4096, rq_byte_length := 8192\<rparr>"

lemma sample_ok:
  "mode_ok sample_mode (qs_ctx sample_state)" "ocf_core_validate_io 1000000 sample_io = 0" "\<not> rq_dirty sample_write"
  by (simp_all add: mode_ok_def sample_mode_def sample_state_def ocf_cache_mode_is_valid_def cache_mode_defs ocf_refcnt_init_def
      ocf_core_validate_io_def sample_io_def OCF_IO_CLASS_MAX_def OCF_READ_def OCF_WRITE_def sample_write_def request_zero_def)

theorem submit_io_queues_witness:
  "\<exists>s' io_if req'. ocf_core_volume_submit_io 7 1000000 True sample_mode sample_parts False sample_io sample_state sample_write = Some (Inr (), s') \<and>
    ocf_get_io_if (rq_cache_mode req') = Some (Some io_if) \<and>
    0 \<le> rq_cache_mode req' \<and> rq_cache_mode req' < ocf_req_cache_mode_max \<and>
    q_io_list (qs_queue s') = q_io_list (qs_queue sample_state) @ [(io_if, req')] \<and>
    q_io_no (qs_queue s') = q_io_no (qs_queue sample_state) + 1 \<and>
    length (q_kicks (qs_queue s')) = length (q_kicks (qs_queue sample_state)) + 1 \<and>
    rq_ref_count req' = rq_ref_count sample_write + 1"
  by (rule submit_io_queues [OF sample_ok])

text \<open>
  A write goes to the write-back engine, which leaves dirty data in the cache, exactly when it was counted as a dirty
  request or the mode is multi-factor write-back: \<^verbatim>\<open>ocf_mngt_cache_mode_has_lazy_write\<close> does not know that
  mode, so its requests are not counted, and whoever waits for the dirty requests of a cache to finish does not wait for them.
\<close>

theorem write_back_counted_but_mfwb:
  assumes "mode_ok m x" and "\<not> rq_dirty req" and "rq_rw req = OCF_WRITE"
  shows "\<exists>req' x' io_if. ocf_resolve_effective_cache_mode m ps sc x req = Some (req', x') \<and>
    ocf_get_io_if (rq_cache_mode req') = Some (Some io_if) \<and>
    (io_write io_if = FN_ocf_write_wb \<longleftrightarrow> rq_dirty req' \<or> rq_cache_mode req' = ocf_cache_mode_mfwb) \<and>
    rc_counter (rx_dirty x') = rc_counter (rx_dirty x) + (if rq_dirty req' then 1 else 0) \<and>
    \<not> (rq_dirty req' \<and> rq_cache_mode req' = ocf_cache_mode_mfwb)"
proof -
  obtain r x' where r: "ocf_resolve_effective_cache_mode m ps sc x req = Some (r, x')"
    "0 \<le> rq_cache_mode r" "rq_cache_mode r < ocf_req_cache_mode_max"
    "rq_dirty r \<longleftrightarrow> ocf_mngt_cache_mode_has_lazy_write (rq_cache_mode r)"
    "rc_counter (rx_dirty x') = rc_counter (rx_dirty x) + (if rq_dirty r then 1 else 0)"
    by (rule resolve_cases [OF assms(1,2)]) (use assms(3) in auto)
  obtain t where t: "cache_mode_io_if_map (rq_cache_mode r) = Some t" using io_if_table [of "rq_cache_mode r"] r(2,3) by blast
  then have io_if: "ocf_get_io_if (rq_cache_mode r) = Some (Some (IO_IFS t))" using r(3) by (simp add: ocf_get_io_if_def)
  have "io_write (IO_IFS t) = FN_ocf_write_wb \<longleftrightarrow> rq_dirty r \<or> rq_cache_mode r = ocf_cache_mode_mfwb"
    using t r(4) by (auto simp: cache_mode_io_if_map_def ocf_mngt_cache_mode_has_lazy_write_def cache_mode_defs split: if_splits)
  moreover have "\<not> (rq_dirty r \<and> rq_cache_mode r = ocf_cache_mode_mfwb)"
    using r(4) by (auto simp: ocf_mngt_cache_mode_has_lazy_write_def cache_mode_defs)
  ultimately show ?thesis using r(1,5) io_if by (intro exI [of _ r] exI [of _ x'] exI [of _ "IO_IFS t"] conjI)
qed

theorem write_back_counted_but_mfwb_witness:
  "\<exists>req' x' io_if. ocf_resolve_effective_cache_mode sample_mode sample_parts False (qs_ctx sample_state) sample_write = Some (req', x') \<and>
    ocf_get_io_if (rq_cache_mode req') = Some (Some io_if) \<and>
    (io_write io_if = FN_ocf_write_wb \<longleftrightarrow> rq_dirty req' \<or> rq_cache_mode req' = ocf_cache_mode_mfwb) \<and>
    rc_counter (rx_dirty x') = rc_counter (rx_dirty (qs_ctx sample_state)) + (if rq_dirty req' then 1 else 0) \<and>
    \<not> (rq_dirty req' \<and> rq_cache_mode req' = ocf_cache_mode_mfwb)"
  by (rule write_back_counted_but_mfwb [OF sample_ok(1,3)]) (simp add: sample_write_def)

subsection \<open>The order of service\<close>

definition queue_ok :: "ocf_queue \<Rightarrow> bool" where
  "queue_ok q \<longleftrightarrow> q_io_no q = int (length (q_io_list q)) \<and> (\<forall>(io_if, req) \<in> set (q_io_list q). 0 < rq_core_line_count req)"

text \<open>An engine that completes every request at once, without an error.\<close>

definition complete_now :: "engine_fn \<Rightarrow> ocf_request \<Rightarrow> queue_state \<Rightarrow> queue_state option" where
  "complete_now e req s = Some (s\<lparr>qs_done := qs_done s @ [(0, req)]\<rparr>)"

definition served :: "(ocf_request \<Rightarrow> bool) \<Rightarrow> ocf_request \<Rightarrow> int \<times> ocf_request" where
  "served got req =
     (if rq_map req \<noteq> None then (0, req)
      else if got req then (0, req\<lparr>rq_map := Some (replicate (rq_core_line_count req) map_info_zero)\<rparr>)
      else (- OCF_ERR_NO_MEM, req\<lparr>rq_error := - OCF_ERR_NO_MEM\<rparr>))"

lemma run_single_served:
  assumes "q_io_list (qs_queue s) = (io_if, req) # rest" and "0 < rq_core_line_count req"
  shows "\<exists>x. ocf_queue_run_single complete_now got s =
    Some (s\<lparr>qs_queue := (qs_queue s)\<lparr>q_io_no := q_io_no (qs_queue s) - 1, q_io_list := rest\<rparr>, qs_ctx := x,
            qs_done := qs_done s @ [served got req]\<rparr>)"
  using assms
  by (intro exI [of _ "if rq_map req = None \<and> got req then (qs_ctx s)\<lparr>rx_maps := rx_maps (qs_ctx s) + 1\<rparr> else qs_ctx s"])
    (auto simp: ocf_queue_run_single_def ocf_engine_pop_req_def ocf_req_alloc_map_def served_def ocf_io_handle_def
      complete_now_def Let_def OCF_ERR_NO_MEM_def)

text \<open>
  A worker that runs a queue serves every request in it, in the order of the queue, and then stops: the counter of
  the queue stays equal to its length, so no request is left behind and none is served twice. A request whose
  map cannot be allocated is completed with an error and does not stop the others.
\<close>

theorem queue_served_in_order:
  assumes "queue_ok (qs_queue s)"
  shows "\<exists>s'. ocf_queue_run complete_now got s = Some s' \<and> q_io_list (qs_queue s') = [] \<and> q_io_no (qs_queue s') = 0 \<and>
    qs_done s' = qs_done s @ map (served got \<circ> snd) (q_io_list (qs_queue s))"
  using assms
proof (induction "q_io_list (qs_queue s)" arbitrary: s)
  case Nil
  then show ?case by (subst ocf_queue_run.simps) (simp add: queue_ok_def)
next
  case (Cons p rest)
  obtain io_if req where p: "p = (io_if, req)" by (cases p)
  have q: "q_io_list (qs_queue s) = (io_if, req) # rest" using Cons.hyps(2) p by simp
  have n: "q_io_no (qs_queue s) = int (length rest) + 1" "0 < rq_core_line_count req" using Cons.prems q by (auto simp: queue_ok_def)
  obtain x where x: "ocf_queue_run_single complete_now got s =
    Some (s\<lparr>qs_queue := (qs_queue s)\<lparr>q_io_no := q_io_no (qs_queue s) - 1, q_io_list := rest\<rparr>, qs_ctx := x,
            qs_done := qs_done s @ [served got req]\<rparr>)" (is "_ = Some ?s") using run_single_served [OF q n(2)] by blast
  have "queue_ok (qs_queue ?s)" using Cons.prems q n by (auto simp: queue_ok_def)
  then obtain s' where s': "ocf_queue_run complete_now got ?s = Some s'" "q_io_list (qs_queue s') = []" "q_io_no (qs_queue s') = 0"
    "qs_done s' = qs_done ?s @ map (served got \<circ> snd) rest" using Cons.hyps(1) [of ?s] by auto
  have "ocf_queue_run complete_now got s = Some s'" using n(1) x s'(1) by (subst ocf_queue_run.simps) simp
  then show ?case using s' q by simp
qed

theorem queue_served_in_order_witness:
  "\<exists>s'. ocf_queue_run complete_now (\<lambda>r. rq_byte_position r = 4096)
      (ocf_engine_push_req_front 1 (ocf_engine_push_req_back 1 sample_state (IO_IFS OCF_IO_WT_IF) sample_write True)
        (IO_IFS OCF_IO_PT_IF) (sample_write\<lparr>rq_byte_position := 0\<rparr>) True) = Some s' \<and>
    q_io_list (qs_queue s') = [] \<and> map fst (qs_done s') = [- OCF_ERR_NO_MEM, 0]"
proof -
  let ?s = "ocf_engine_push_req_front 1 (ocf_engine_push_req_back 1 sample_state (IO_IFS OCF_IO_WT_IF) sample_write True)
    (IO_IFS OCF_IO_PT_IF) (sample_write\<lparr>rq_byte_position := 0\<rparr>) True"
  have l: "q_io_list (qs_queue ?s) = [(IO_IFS OCF_IO_PT_IF, sample_write\<lparr>rq_byte_position := 0\<rparr>), (IO_IFS OCF_IO_WT_IF, sample_write)]"
    "q_io_no (qs_queue ?s) = 2" "qs_done ?s = []"
    by (simp_all add: ocf_engine_push_req_front_def ocf_engine_push_req_back_def sample_state_def ocf_queue_init_def ocf_queue_kick_def Let_def)
  then have "queue_ok (qs_queue ?s)" by (simp add: queue_ok_def sample_write_def)
  then obtain s' where "ocf_queue_run complete_now (\<lambda>r. rq_byte_position r = 4096) ?s = Some s'" "q_io_list (qs_queue s') = []"
    "qs_done s' = qs_done ?s @ map (served (\<lambda>r. rq_byte_position r = 4096) \<circ> snd) (q_io_list (qs_queue ?s))"
    using queue_served_in_order by blast
  then show ?thesis using l by (simp add: served_def sample_write_def request_zero_def)
qed

end
