(* ===== verification/Monitor.thy ===== *)
theory Monitor
  imports Complex_Main OCF_Prelude
begin

section \<open>The monitor of the multi-factor modes\<close>

text \<open>
  \<^verbatim>\<open>src/engine/mf_monitor.c\<close>: the thread that tunes the two switches of the multi-factor modes, whether data is admitted
  and which share of the load goes to the cache. It waits until the miss ratio is stable, then follows the slope of the
  measured throughput in steps of the load share, until the workload changes or the cache can take the whole load.

  The miss ratio and the throughput are measured outside of this file; the \<open>n\<close>th measurement is a parameter of the
  model. Doubles are reals whose arithmetic is rounded by a function \<open>en_rnd\<close>, which is a parameter too; what is needed of
  the rounding is stated as \<open>rounding\<close> below, and is documented behaviour of IEEE 754 doubles. The thread ends only when it is
  told to stop, which it notices when it reads the miss ratio; a result \<open>Inl\<close> is the end of the thread. The loops have no
  other bound, so they are partial functions.
\<close>

subsection \<open>State\<close>

record monitor_env =
  en_rnd :: "real \<Rightarrow> real"
  en_stop :: "nat \<Rightarrow> bool"
  en_miss :: "nat \<Rightarrow> real"
  en_throughput :: "nat \<Rightarrow> real \<Rightarrow> real"

text \<open>\<open>mo_reads\<close> and \<open>mo_measures\<close> count the measurements, \<open>mo_history\<close> holds every share that was ever set.\<close>

record monitor =
  mo_data_admit :: bool
  mo_load_admit :: real
  mo_reads :: nat
  mo_measures :: nat
  mo_history :: "real list"

type_synonym 'a thread = "monitor + 'a \<times> monitor"

definition monitor_set_data_admit :: "bool \<Rightarrow> monitor \<Rightarrow> monitor" where
  "monitor_set_data_admit data_admit s = s\<lparr>mo_data_admit := data_admit\<rparr>"

definition monitor_set_load_admit :: "real \<Rightarrow> monitor \<Rightarrow> monitor" where
  "monitor_set_load_admit load_admit s = s\<lparr>mo_load_admit := load_admit, mo_history := mo_history s @ [load_admit]\<rparr>"

definition monitor_query_data_admit :: "monitor \<Rightarrow> bool" where
  "monitor_query_data_admit s = mo_data_admit s"

definition monitor_query_load_admit :: "monitor \<Rightarrow> real" where
  "monitor_query_load_admit s = mo_load_admit s"

definition WAIT_STABLE_THRESHOLD :: "monitor_env \<Rightarrow> real" where "WAIT_STABLE_THRESHOLD env = en_rnd env (15 / 10000)"
definition WORKLOAD_CHANGE_THRESHOLD :: "monitor_env \<Rightarrow> real" where "WORKLOAD_CHANGE_THRESHOLD env = en_rnd env (2 / 10)"
definition LOAD_ADMIT_TUNING_STEP :: "monitor_env \<Rightarrow> real" where "LOAD_ADMIT_TUNING_STEP env = en_rnd env (1 / 100)"
definition NO_THROUGHPUT :: "monitor_env \<Rightarrow> real" where "NO_THROUGHPUT env = en_rnd env (- 1 / 10)"

definition get_miss_ratio :: "monitor_env \<Rightarrow> monitor \<Rightarrow> real thread" where
  "get_miss_ratio env s =
     (if en_stop env (mo_reads s) then Inl s else Inr (en_miss env (mo_reads s), s\<lparr>mo_reads := mo_reads s + 1\<rparr>))"

definition get_throughput :: "monitor_env \<Rightarrow> monitor \<Rightarrow> real \<times> monitor" where
  "get_throughput env s = (en_throughput env (mo_measures s) (mo_load_admit s), s\<lparr>mo_measures := mo_measures s + 1\<rparr>)"

subsection \<open>Waiting until the cache is stable\<close>

partial_function (option) wait_loop :: "monitor_env \<Rightarrow> real \<Rightarrow> real \<Rightarrow> monitor \<Rightarrow> real thread option" where
  "wait_loop env last_miss_ratio miss_ratio s =
     (if miss_ratio < en_rnd env (last_miss_ratio - WAIT_STABLE_THRESHOLD env) \<or>
         miss_ratio > en_rnd env (last_miss_ratio + WAIT_STABLE_THRESHOLD env)
      then (case get_miss_ratio env s of
              Inl s \<Rightarrow> Some (Inl s)
            | Inr (r, s) \<Rightarrow> wait_loop env miss_ratio r s)
      else Some (Inr (miss_ratio, s)))"

definition monitor_wait_stable :: "monitor_env \<Rightarrow> monitor \<Rightarrow> real thread option" where
  "monitor_wait_stable env s =
     (case get_miss_ratio env s of
        Inl s \<Rightarrow> Some (Inl s)
      | Inr (r, s) \<Rightarrow> wait_loop env (NO_THROUGHPUT env) r s)"

subsection \<open>Tuning\<close>

definition monitor_measure_throughput :: "monitor_env \<Rightarrow> real \<Rightarrow> monitor \<Rightarrow> real \<times> monitor" where
  "monitor_measure_throughput env load_admit s = get_throughput env (monitor_set_load_admit load_admit s)"

definition measure_higher :: "monitor_env \<Rightarrow> real \<Rightarrow> monitor \<Rightarrow> real \<times> monitor" where
  "measure_higher env la3 s = (if la3 > 1 then (NO_THROUGHPUT env, s) else monitor_measure_throughput env la3 s)"

definition measure_lower :: "monitor_env \<Rightarrow> real \<Rightarrow> monitor \<Rightarrow> real \<times> monitor" where
  "measure_lower env la1 s = (if la1 < 0 then (NO_THROUGHPUT env, s) else monitor_measure_throughput env la1 s)"

text \<open>
  The inner loop that follows the slope. The shares are \<open>la1 < la2 < la3\<close> with their throughputs; the result tells whether the
  workload has changed.
\<close>

partial_function (option) slope_loop ::
  "monitor_env \<Rightarrow> real \<Rightarrow> real \<times> real \<times> real \<Rightarrow> real \<times> real \<times> real \<Rightarrow> monitor \<Rightarrow> bool thread option" where
  "slope_loop env base_miss_ratio la tp s =
     (case (la, tp) of ((la1, la2, la3), (tp1, tp2, tp3)) \<Rightarrow>
        (case get_miss_ratio env s of
           Inl s \<Rightarrow> Some (Inl s)
         | Inr (miss_ratio, s) \<Rightarrow>
             if miss_ratio > en_rnd env (base_miss_ratio + WORKLOAD_CHANGE_THRESHOLD env) then Some (Inr (True, s))
             else if tp2 \<ge> tp1 \<and> tp2 \<ge> tp3 then Some (Inr (False, monitor_set_load_admit la2 s))
             else if tp3 \<ge> tp1 \<and> tp3 \<ge> tp2 then
               if la3 \<ge> 1 then Some (Inr (False, monitor_set_load_admit 1 s))
               else (let la3' = en_rnd env (la3 + LOAD_ADMIT_TUNING_STEP env); (tp3', s) = measure_higher env la3' s
                     in slope_loop env base_miss_ratio (la2, la3, la3') (tp2, tp3, tp3') s)
             else if tp1 \<ge> tp2 \<and> tp1 \<ge> tp3 then
               if la1 \<le> 0 then Some (Inr (False, monitor_set_load_admit 0 s))
               else (let la1' = en_rnd env (la1 - LOAD_ADMIT_TUNING_STEP env); (tp1', s) = measure_lower env la1' s
                     in slope_loop env base_miss_ratio (la1', la1, la2) (tp1', tp1, tp2) s)
             else slope_loop env base_miss_ratio la tp s))"

text \<open>The measurements before the slope is followed, with the share restored.\<close>

definition tune_start :: "monitor_env \<Rightarrow> monitor \<Rightarrow> (real \<times> real \<times> real) \<times> (real \<times> real \<times> real) \<times> monitor" where
  "tune_start env s =
     (let la2 = monitor_query_load_admit s; (tp2, s) = monitor_measure_throughput env la2 s;
          la3 = en_rnd env (la2 + LOAD_ADMIT_TUNING_STEP env); (tp3, s) = measure_higher env la3 s;
          la1 = en_rnd env (la2 - LOAD_ADMIT_TUNING_STEP env); (tp1, s) = measure_lower env la1 s
      in ((la1, la2, la3), (tp1, tp2, tp3), monitor_set_load_admit la2 s))"

partial_function (option) tune_loop :: "monitor_env \<Rightarrow> real \<Rightarrow> bool \<Rightarrow> monitor \<Rightarrow> unit thread option" where
  "tune_loop env base_miss_ratio second_chance s =
     (case tune_start env s of (la, tp, s) \<Rightarrow> do {
        r \<leftarrow> slope_loop env base_miss_ratio la tp s;
        case r of
          Inl s \<Rightarrow> Some (Inl s)
        | Inr (changed, s) \<Rightarrow>
            if changed then Some (Inr ((), s))
            else if monitor_query_load_admit s = 1
            then if second_chance then tune_loop env base_miss_ratio False s else Some (Inr ((), s))
            else tune_loop env base_miss_ratio second_chance s })"

definition monitor_tune_load_admit :: "monitor_env \<Rightarrow> real \<Rightarrow> monitor \<Rightarrow> unit thread option" where
  "monitor_tune_load_admit env base_miss_ratio s = tune_loop env base_miss_ratio True s"

text \<open>The body of the thread; it returns only by the end of the thread.\<close>

partial_function (option) monitor_func :: "monitor_env \<Rightarrow> monitor \<Rightarrow> monitor option" where
  "monitor_func env s = do {
     let s = monitor_set_load_admit 1 (monitor_set_data_admit True s);
     r \<leftarrow> monitor_wait_stable env s;
     case r of
       Inl s \<Rightarrow> Some s
     | Inr (base_miss_ratio, s) \<Rightarrow> do {
         r \<leftarrow> monitor_tune_load_admit env base_miss_ratio (monitor_set_data_admit False s);
         case r of Inl s \<Rightarrow> Some s | Inr (_, s) \<Rightarrow> monitor_func env s } }"

text \<open>
  Starting the monitor; the arguments are the results of the three calls that make a detached thread. The state is what the thread starts from.
\<close>

definition ocf_mngt_mf_monitor_init :: "int \<Rightarrow> int \<Rightarrow> int \<Rightarrow> int \<times> monitor" where
  "ocf_mngt_mf_monitor_init attr_init set_detached create =
     ((if attr_init \<noteq> 0 then attr_init else if set_detached \<noteq> 0 then set_detached else if create \<noteq> 0 then create else 0),
      \<lparr>mo_data_admit = True, mo_load_admit = 1, mo_reads = 0, mo_measures = 0, mo_history = [1]\<rparr>)"

subsection \<open>The shares stay between 0 and 1\<close>

text \<open>What is used of the arithmetic of doubles; the error of one operation is in fact far smaller.\<close>

definition rounding :: "(real \<Rightarrow> real) \<Rightarrow> bool" where
  "rounding rnd \<longleftrightarrow> mono rnd \<and> rnd 0 = 0 \<and> rnd 1 = 1 \<and> (\<forall>x. \<bar>x\<bar> \<le> 2 \<longrightarrow> \<bar>rnd x - x\<bar> \<le> 1 / 1000)"

definition shares_ok :: "monitor \<Rightarrow> bool" where
  "shares_ok s \<longleftrightarrow> set (mo_history s) \<subseteq> {0..1} \<and> mo_load_admit s \<in> {0..1}"

lemma shares_set: "shares_ok s \<Longrightarrow> 0 \<le> la \<Longrightarrow> la \<le> 1 \<Longrightarrow> shares_ok (monitor_set_load_admit la s)"
  by (simp add: shares_ok_def monitor_set_load_admit_def)

lemma shares_other [simp]:
  "shares_ok (s\<lparr>mo_reads := n\<rparr>) = shares_ok s" "shares_ok (s\<lparr>mo_measures := n\<rparr>) = shares_ok s"
  "shares_ok (monitor_set_data_admit b s) = shares_ok s"
  "mo_reads (monitor_set_load_admit la s) = mo_reads s" "mo_reads (monitor_set_data_admit b s) = mo_reads s"
  by (simp_all add: shares_ok_def monitor_set_data_admit_def monitor_set_load_admit_def)

lemma rounding_error:
  assumes "rounding rnd" and "\<bar>x\<bar> \<le> 2"
  shows "x - 1 / 1000 \<le> rnd x \<and> rnd x \<le> x + 1 / 1000"
proof -
  have "\<bar>rnd x - x\<bar> \<le> 1 / 1000" using assms by (simp add: rounding_def)
  then show ?thesis by linarith
qed

lemma tuning_step:
  assumes r: "rounding (en_rnd env)" and la: "0 \<le> la" "la \<le> 1"
  shows "la + 8 / 1000 \<le> en_rnd env (la + LOAD_ADMIT_TUNING_STEP env)"
    and "en_rnd env (la - LOAD_ADMIT_TUNING_STEP env) \<le> la - 8 / 1000"
proof -
  have s: "9 / 1000 \<le> LOAD_ADMIT_TUNING_STEP env" "LOAD_ADMIT_TUNING_STEP env \<le> 11 / 1000"
    using rounding_error [OF r, of "1 / 100"] by (auto simp: LOAD_ADMIT_TUNING_STEP_def)
  show "la + 8 / 1000 \<le> en_rnd env (la + LOAD_ADMIT_TUNING_STEP env)"
    using rounding_error [OF r, of "la + LOAD_ADMIT_TUNING_STEP env"] s la by linarith
  show "en_rnd env (la - LOAD_ADMIT_TUNING_STEP env) \<le> la - 8 / 1000"
    using rounding_error [OF r, of "la - LOAD_ADMIT_TUNING_STEP env"] s la by linarith
qed

lemma measure_ok:
  assumes "shares_ok s" and "0 \<le> la3" and "la1 \<le> 1"
  shows "shares_ok (snd (measure_higher env la3 s))" and "mo_reads (snd (measure_higher env la3 s)) = mo_reads s"
    and "shares_ok (snd (measure_lower env la1 s))" and "mo_reads (snd (measure_lower env la1 s)) = mo_reads s"
  using assms shares_set by (auto simp: measure_higher_def measure_lower_def monitor_measure_throughput_def get_throughput_def)

text \<open>
  Following the slope ends: a step up is only followed by steps up, a step down by steps down, and a border is reached after
  at most a hundred and some of them.
\<close>

definition slope_ok :: "monitor \<Rightarrow> bool thread \<Rightarrow> bool" where
  "slope_ok s r = (case r of Inl s' \<Rightarrow> shares_ok s' | Inr (_, s') \<Rightarrow> shares_ok s' \<and> mo_reads s < mo_reads s')"

lemma slope_ok_reads: "slope_ok (s\<lparr>mo_reads := mo_reads s + 1\<rparr>) r \<Longrightarrow> slope_ok s r"
  by (auto simp: slope_ok_def split: sum.splits)

lemma slope_ok_same: "slope_ok s' r \<Longrightarrow> mo_reads s' = mo_reads s \<Longrightarrow> slope_ok s r"
  by (auto simp: slope_ok_def split: sum.splits)

lemma slope_up:
  assumes r: "rounding (en_rnd env)" and "shares_ok s" and "0 \<le> la2" and "la2 \<le> 1"
    and "la3 = en_rnd env (la2 + LOAD_ADMIT_TUNING_STEP env)" and "tp1 \<le> tp2" and "1 - la2 < real m * (8 / 1000)"
  shows "\<exists>res. slope_loop env base (la1, la2, la3) (tp1, tp2, tp3) s = Some res \<and> slope_ok s res"
  using assms(2-)
proof (induction m arbitrary: s la1 la2 la3 tp1 tp2 tp3)
  case 0
  then show ?case by simp
next
  case (Suc m)
  let ?s = "s\<lparr>mo_reads := mo_reads s + 1\<rparr>"
  have la3: "la2 + 8 / 1000 \<le> la3" using tuning_step(1) [OF r Suc.prems(2,3)] Suc.prems(4) by simp
  define la3' where "la3' = en_rnd env (la3 + LOAD_ADMIT_TUNING_STEP env)"
  obtain tp3' s' where m: "measure_higher env la3' ?s = (tp3', s')" by (cases "measure_higher env la3' ?s")
  show ?case
  proof (cases "en_stop env (mo_reads s) \<or> en_miss env (mo_reads s) > en_rnd env (base + WORKLOAD_CHANGE_THRESHOLD env) \<or> tp3 \<le> tp2 \<or> 1 \<le> la3")
    case True
    then show ?thesis
      using Suc.prems(1-3,5) by (subst slope_loop.simps) (auto simp: get_miss_ratio_def slope_ok_def intro!: shares_set)
  next
    case False
    have pos: "0 \<le> la3'" using tuning_step(1) [OF r, of la3] la3 Suc.prems(2) False by (simp add: la3'_def)
    have ok: "shares_ok s'" "mo_reads s' = mo_reads ?s" using measure_ok(1,2) [of ?s la3' 0 env] Suc.prems(1) pos m by auto
    have "1 - la3 < real m * (8 / 1000)" using Suc.prems(6) la3 by (simp add: algebra_simps)
    then obtain res where res: "slope_loop env base (la2, la3, la3') (tp2, tp3, tp3') s' = Some res" "slope_ok s' res"
      using Suc.IH [OF ok(1), of la3 la3' tp2 tp3 la2 tp3'] la3 Suc.prems(2) False by (auto simp: la3'_def)
    have "slope_loop env base (la1, la2, la3) (tp1, tp2, tp3) s = Some res"
      using False Suc.prems(5) res(1) m by (subst slope_loop.simps) (auto simp: get_miss_ratio_def Let_def la3'_def)
    then show ?thesis using slope_ok_reads [OF slope_ok_same [OF res(2) ok(2)]] by blast
  qed
qed

lemma slope_down:
  assumes r: "rounding (en_rnd env)" and "shares_ok s" and "0 \<le> la2" and "la2 \<le> 1"
    and "la1 = en_rnd env (la2 - LOAD_ADMIT_TUNING_STEP env)" and "tp3 \<le> tp2" and "la2 < real m * (8 / 1000)"
  shows "\<exists>res. slope_loop env base (la1, la2, la3) (tp1, tp2, tp3) s = Some res \<and> slope_ok s res"
  using assms(2-)
proof (induction m arbitrary: s la1 la2 la3 tp1 tp2 tp3)
  case 0
  then show ?case by simp
next
  case (Suc m)
  let ?s = "s\<lparr>mo_reads := mo_reads s + 1\<rparr>"
  have la1: "la1 \<le> la2 - 8 / 1000" using tuning_step(2) [OF r Suc.prems(2,3)] Suc.prems(4) by simp
  define la1' where "la1' = en_rnd env (la1 - LOAD_ADMIT_TUNING_STEP env)"
  obtain tp1' s' where m: "measure_lower env la1' ?s = (tp1', s')" by (cases "measure_lower env la1' ?s")
  show ?case
  proof (cases "en_stop env (mo_reads s) \<or> en_miss env (mo_reads s) > en_rnd env (base + WORKLOAD_CHANGE_THRESHOLD env) \<or> tp1 \<le> tp2 \<or> la1 \<le> 0")
    case True
    then show ?thesis
      using Suc.prems(1-3,5) by (subst slope_loop.simps) (auto simp: get_miss_ratio_def slope_ok_def intro!: shares_set)
  next
    case False
    have pos: "la1' \<le> 1" using tuning_step(2) [OF r, of la1] la1 Suc.prems(3) False by (simp add: la1'_def)
    have ok: "shares_ok s'" "mo_reads s' = mo_reads ?s" using measure_ok(3,4) [of ?s 0 la1' env] Suc.prems(1) pos m by auto
    have "la1 < real m * (8 / 1000)" using Suc.prems(6) la1 by (simp add: algebra_simps)
    then obtain res where res: "slope_loop env base (la1', la1, la2) (tp1', tp1, tp2) s' = Some res" "slope_ok s' res"
      using Suc.IH [OF ok(1), of la1 la1' tp2 tp1 la2 tp1'] la1 Suc.prems(3) False by (auto simp: la1'_def)
    have "slope_loop env base (la1, la2, la3) (tp1, tp2, tp3) s = Some res"
      using False Suc.prems(5) res(1) m by (subst slope_loop.simps) (auto simp: get_miss_ratio_def Let_def la1'_def)
    then show ?thesis using slope_ok_reads [OF slope_ok_same [OF res(2) ok(2)]] by blast
  qed
qed

lemma slope_total:
  assumes r: "rounding (en_rnd env)" and s: "shares_ok s" and la2: "0 \<le> la2" "la2 \<le> 1"
    and la1: "la1 = en_rnd env (la2 - LOAD_ADMIT_TUNING_STEP env)" and la3: "la3 = en_rnd env (la2 + LOAD_ADMIT_TUNING_STEP env)"
  shows "\<exists>res. slope_loop env base (la1, la2, la3) (tp1, tp2, tp3) s = Some res \<and> slope_ok s res"
proof -
  let ?s = "s\<lparr>mo_reads := mo_reads s + 1\<rparr>"
  have b: "1 - la < real 200 * (8 / 1000)" "la < real 200 * (8 / 1000)" if "0 \<le> la" "la \<le> 1" for la using that by simp_all
  consider "tp1 \<le> tp2" | "tp3 \<le> tp2" | "tp2 < tp1" "tp2 < tp3" by linarith
  then show ?thesis
  proof cases
    case 1
    then show ?thesis by (intro slope_up [OF r s la2 la3 _ b(1) [OF la2]])
  next
    case 2
    then show ?thesis by (intro slope_down [OF r s la2 la1 _ b(2) [OF la2]])
  next
    case 3
    define la3' la1' where "la3' = en_rnd env (la3 + LOAD_ADMIT_TUNING_STEP env)" and "la1' = en_rnd env (la1 - LOAD_ADMIT_TUNING_STEP env)"
    obtain tp3' s3 tp1' s1 where m: "measure_higher env la3' ?s = (tp3', s3)" "measure_lower env la1' ?s = (tp1', s1)"
      by (cases "measure_higher env la3' ?s"; cases "measure_lower env la1' ?s")
    have l: "la2 \<le> la3" "la1 \<le> la2" using tuning_step [OF r la2] la1 la3 by auto
    show ?thesis
    proof (cases "en_stop env (mo_reads s) \<or> en_miss env (mo_reads s) > en_rnd env (base + WORKLOAD_CHANGE_THRESHOLD env) \<or>
        (tp1 \<le> tp3 \<and> 1 \<le> la3) \<or> (tp3 < tp1 \<and> la1 \<le> 0)")
      case True
      then show ?thesis using 3 s la2 by (subst slope_loop.simps) (auto simp: get_miss_ratio_def slope_ok_def intro!: shares_set)
    next
      case F: False
      show ?thesis
      proof (cases "tp1 \<le> tp3")
        case True
        then have la: "0 \<le> la3" "la3 \<le> 1" using F l la2 by auto
        then have "0 \<le> la3'" using tuning_step(1) [OF r la] by (simp add: la3'_def)
        then have ok: "shares_ok s3" "mo_reads s3 = mo_reads ?s" using measure_ok(1,2) [of ?s la3' 0 env] s m(1) by auto
        obtain res where res: "slope_loop env base (la2, la3, la3') (tp2, tp3, tp3') s3 = Some res" "slope_ok s3 res"
          using slope_up [OF r ok(1) la la3'_def less_imp_le [OF 3(2)] b(1) [OF la]] by blast
        have "slope_loop env base (la1, la2, la3) (tp1, tp2, tp3) s = Some res"
          using F 3 True res(1) m by (subst slope_loop.simps) (auto simp: get_miss_ratio_def Let_def la3'_def)
        then show ?thesis using slope_ok_reads [OF slope_ok_same [OF res(2) ok(2)]] by blast
      next
        case False
        then have la: "0 \<le> la1" "la1 \<le> 1" using F l la2 by auto
        then have "la1' \<le> 1" using tuning_step(2) [OF r la] by (simp add: la1'_def)
        then have ok: "shares_ok s1" "mo_reads s1 = mo_reads ?s" using measure_ok(3,4) [of ?s 0 la1' env] s m(2) by auto
        obtain res where res: "slope_loop env base (la1', la1, la2) (tp1', tp1, tp2) s1 = Some res" "slope_ok s1 res"
          using slope_down [OF r ok(1) la la1'_def less_imp_le [OF 3(1)] b(2) [OF la]] by blast
        have "slope_loop env base (la1, la2, la3) (tp1, tp2, tp3) s = Some res"
          using F 3 False res(1) m by (subst slope_loop.simps) (auto simp: get_miss_ratio_def Let_def la1'_def)
        then show ?thesis using slope_ok_reads [OF slope_ok_same [OF res(2) ok(2)]] by blast
      qed
    qed
  qed
qed

lemma tune_start_ok:
  assumes r: "rounding (en_rnd env)" and s: "shares_ok s"
  obtains la1 la2 la3 tp1 tp2 tp3 s' where "tune_start env s = ((la1, la2, la3), (tp1, tp2, tp3), s')" and "shares_ok s'" and "mo_reads s' = mo_reads s"
    and "0 \<le> la2" and "la2 \<le> 1" and "la1 = en_rnd env (la2 - LOAD_ADMIT_TUNING_STEP env)" and "la3 = en_rnd env (la2 + LOAD_ADMIT_TUNING_STEP env)"
proof -
  define la2 where "la2 = mo_load_admit s"
  have la2: "0 \<le> la2" "la2 \<le> 1" using s by (auto simp: shares_ok_def la2_def)
  define la1 la3 where "la1 = en_rnd env (la2 - LOAD_ADMIT_TUNING_STEP env)" and "la3 = en_rnd env (la2 + LOAD_ADMIT_TUNING_STEP env)"
  have b: "0 \<le> la3" "la1 \<le> 1" using tuning_step [OF r la2] la2 by (auto simp: la1_def la3_def)
  obtain tp2 s2 where m2: "monitor_measure_throughput env la2 s = (tp2, s2)" by (cases "monitor_measure_throughput env la2 s")
  then have s2: "shares_ok s2" "mo_reads s2 = mo_reads s"
    using shares_set [OF s la2] by (auto simp: monitor_measure_throughput_def get_throughput_def)
  obtain tp3 s3 where m3: "measure_higher env la3 s2 = (tp3, s3)" by (cases "measure_higher env la3 s2")
  have s3: "shares_ok s3" "mo_reads s3 = mo_reads s" using measure_ok(1,2) [OF s2(1) b, of env] m3 s2(2) by auto
  obtain tp1 s1 where m1: "measure_lower env la1 s3 = (tp1, s1)" by (cases "measure_lower env la1 s3")
  have s1: "shares_ok s1" "mo_reads s1 = mo_reads s" using measure_ok(3,4) [OF s3(1) b, of env] m1 s3(2) by auto
  have "tune_start env s = ((la1, la2, la3), (tp1, tp2, tp3), monitor_set_load_admit la2 s1)"
    using m1 m2 m3 by (simp add: tune_start_def Let_def monitor_query_load_admit_def la2_def la1_def la3_def)
  then show thesis by (rule that) (use shares_set [OF s1(1) la2] s1(2) la2 la1_def la3_def in auto)
qed

subsection \<open>The thread ends when it is told to\<close>

definition stops_at :: "monitor_env \<Rightarrow> nat \<Rightarrow> bool" where
  "stops_at env N \<longleftrightarrow> (\<forall>n \<ge> N. en_stop env n)"

definition thread_ok :: "monitor \<Rightarrow> 'a thread \<Rightarrow> bool" where
  "thread_ok s r = (case r of Inl s' \<Rightarrow> shares_ok s' | Inr (_, s') \<Rightarrow> shares_ok s' \<and> mo_reads s < mo_reads s')"

lemma thread_ok_mono: "thread_ok s' r \<Longrightarrow> mo_reads s \<le> mo_reads s' \<Longrightarrow> thread_ok s r"
  by (auto simp: thread_ok_def split: sum.splits)

lemma read_stops: "stops_at env N \<Longrightarrow> N \<le> mo_reads s \<Longrightarrow> get_miss_ratio env s = Inl s"
  by (simp add: stops_at_def get_miss_ratio_def)

lemma wait_loop_total:
  assumes st: "stops_at env N" and "shares_ok s"
  shows "\<exists>r. wait_loop env l m s = Some r \<and> (case r of Inl s' \<Rightarrow> shares_ok s' | Inr (_, s') \<Rightarrow> shares_ok s' \<and> mo_reads s \<le> mo_reads s')"
  using assms(2)
proof (induction "N - mo_reads s" arbitrary: s l m rule: less_induct)
  case less
  show ?case
  proof (cases "en_stop env (mo_reads s)")
    case True
    then show ?thesis using less.prems by (subst wait_loop.simps) (auto simp: get_miss_ratio_def)
  next
    case False
    let ?s = "s\<lparr>mo_reads := mo_reads s + 1\<rparr>"
    have "mo_reads s < N" using False st by (meson not_less stops_at_def)
    then have "N - mo_reads ?s < N - mo_reads s" by simp
    from less.hyps [OF this] obtain r where r: "wait_loop env m (en_miss env (mo_reads s)) ?s = Some r"
      "case r of Inl s' \<Rightarrow> shares_ok s' | Inr (_, s') \<Rightarrow> shares_ok s' \<and> mo_reads ?s \<le> mo_reads s'"
      using less.prems by auto
    have "case r of Inl s' \<Rightarrow> shares_ok s' | Inr (_, s') \<Rightarrow> shares_ok s' \<and> mo_reads s \<le> mo_reads s'"
      using r(2) by (auto split: sum.splits)
    then show ?thesis using less.prems False r(1) by (subst wait_loop.simps) (auto simp: get_miss_ratio_def)
  qed
qed

lemma wait_stable_total:
  assumes "stops_at env N" and "shares_ok s"
  shows "\<exists>r. monitor_wait_stable env s = Some r \<and> thread_ok s r"
proof (cases "en_stop env (mo_reads s)")
  case True
  then show ?thesis using assms by (simp add: monitor_wait_stable_def get_miss_ratio_def thread_ok_def)
next
  case False
  let ?s = "s\<lparr>mo_reads := mo_reads s + 1\<rparr>"
  obtain r where "wait_loop env (NO_THROUGHPUT env) (en_miss env (mo_reads s)) ?s = Some r"
    "case r of Inl s' \<Rightarrow> shares_ok s' | Inr (_, s') \<Rightarrow> shares_ok s' \<and> mo_reads ?s \<le> mo_reads s'"
    using wait_loop_total [OF assms(1), of ?s] assms(2) by auto
  then show ?thesis using False
    by (auto simp: monitor_wait_stable_def get_miss_ratio_def thread_ok_def split: sum.splits)
qed

lemma tune_loop_total:
  assumes r: "rounding (en_rnd env)" and st: "stops_at env N" and "shares_ok s"
  shows "\<exists>res. tune_loop env base chance s = Some res \<and> thread_ok s res"
  using assms(3)
proof (induction "N - mo_reads s" arbitrary: s chance rule: less_induct)
  case less
  obtain la1 la2 la3 tp1 tp2 tp3 s1 where t: "tune_start env s = ((la1, la2, la3), (tp1, tp2, tp3), s1)" "shares_ok s1"
    "mo_reads s1 = mo_reads s" "0 \<le> la2" "la2 \<le> 1" "la1 = en_rnd env (la2 - LOAD_ADMIT_TUNING_STEP env)"
    "la3 = en_rnd env (la2 + LOAD_ADMIT_TUNING_STEP env)" by (rule tune_start_ok [OF r less.prems])
  obtain res where sl: "slope_loop env base (la1, la2, la3) (tp1, tp2, tp3) s1 = Some res" "slope_ok s1 res"
    using slope_total [OF r t(2,4-7)] by blast
  show ?case
  proof (cases res)
    case (Inl s2)
    then show ?thesis using t sl by (subst tune_loop.simps) (simp add: thread_ok_def slope_ok_def)
  next
    case (Inr p)
    then obtain b s2 where res: "res = Inr (b, s2)" by (cases p) auto
    have s2: "shares_ok s2" "mo_reads s < mo_reads s2" using sl(2) res t(3) by (auto simp: slope_ok_def)
    have "mo_reads s < N"
    proof (rule ccontr)
      assume "\<not> mo_reads s < N"
      then have "get_miss_ratio env s1 = Inl s1" using t(3) by (intro read_stops [OF st]) simp
      then show False using sl(1) res by (simp add: slope_loop.simps)
    qed
    then have "N - mo_reads s2 < N - mo_reads s" using s2(2) by simp
    from less.hyps [OF this s2(1)] have IH: "\<exists>res. tune_loop env base ch s2 = Some res \<and> thread_ok s res" for ch
      using thread_ok_mono [of s2 _ s] s2(2) by (meson less_imp_le)
    then show ?thesis
      using t(1) sl(1) res s2 IH by (subst tune_loop.simps) (auto simp: thread_ok_def)
  qed
qed

text \<open>
  C28. The monitor stops when it is told to. Whatever miss ratios and throughputs it measures, every loop it runs ends or reads the
  miss ratio again, so that the thread ends at a read after the stop was requested. Until then, and
  therefore at every moment of its life, every load share it has set lies between 0 and 1.
\<close>

theorem monitor_stops_in_bounds:
  assumes "rounding (en_rnd env)" and "stops_at env N" and "shares_ok s"
  shows "\<exists>s'. monitor_func env s = Some s' \<and> set (mo_history s') \<subseteq> {0..1} \<and> 0 \<le> mo_load_admit s' \<and> mo_load_admit s' \<le> 1"
proof -
  have "\<exists>s'. monitor_func env s = Some s' \<and> shares_ok s'"
    using assms(3)
  proof (induction "N - mo_reads s" arbitrary: s rule: less_induct)
    case less
    let ?s = "monitor_set_load_admit 1 (monitor_set_data_admit True s)"
    have s: "shares_ok ?s" using less.prems by (intro shares_set) simp_all
    obtain r where w: "monitor_wait_stable env ?s = Some r" "thread_ok ?s r" using wait_stable_total [OF assms(2) s] by blast
    show ?case
    proof (cases r)
      case (Inl s1)
      then show ?thesis using w by (subst monitor_func.simps) (simp add: thread_ok_def Let_def)
    next
      case (Inr p)
      then obtain base s1 where r: "r = Inr (base, s1)" by (cases p) auto
      have s1: "shares_ok s1" "mo_reads s < mo_reads s1" using w(2) r by (auto simp: thread_ok_def)
      let ?s1 = "monitor_set_data_admit False s1"
      obtain t where t: "monitor_tune_load_admit env base ?s1 = Some t" "thread_ok ?s1 t"
        using tune_loop_total [OF assms(1,2), of ?s1] s1(1) by (auto simp: monitor_tune_load_admit_def)
      have "mo_reads s < N"
        using w(1) r read_stops [OF assms(2), of ?s] by (cases "mo_reads s < N") (auto simp: monitor_wait_stable_def)
      then show ?thesis
        using w(1) r t less.hyps s1 by (subst monitor_func.simps) (auto simp: thread_ok_def Let_def split: sum.splits)
    qed
  qed
  then show ?thesis by (auto simp: shares_ok_def)
qed

definition example_env :: monitor_env where
  "example_env = \<lparr>en_rnd = (\<lambda>x. x), en_stop = (\<lambda>n. n \<ge> 5), en_miss = (\<lambda>n. 1 / 2), en_throughput = (\<lambda>n la. 1 - la)\<rparr>"

theorem monitor_stops_in_bounds_witness:
  "\<exists>s'. monitor_func example_env (snd (ocf_mngt_mf_monitor_init 0 0 0)) = Some s' \<and> set (mo_history s') \<subseteq> {0..1} \<and>
    0 \<le> mo_load_admit s' \<and> mo_load_admit s' \<le> 1"
  by (rule monitor_stops_in_bounds [where N = 5])
    (simp_all add: example_env_def rounding_def mono_def stops_at_def shares_ok_def ocf_mngt_mf_monitor_init_def)

end
