(* ===== verification/AsyncLock.thy ===== *)
theory AsyncLock
  imports OCF_Prelude
begin

section \<open>Asynchronous reader/writer locks\<close>

text \<open>
  \<^verbatim>\<open>src/utils/utils_async_lock.c\<close>: the lock of a cache that management operations take. Who cannot have the lock
  at once leaves a waiter with a completion, which is called when the lock is granted. Every function runs under the spin lock of the
  waiters list, so each is one step. The calls of completions are recorded with their status; a waiter is its number and whether it
  wants to write. The count of readers is a \<^verbatim>\<open>uint32_t\<close>, so its increments wrap around.
\<close>

definition OCF_ERR_NO_LOCK :: int where "OCF_ERR_NO_LOCK = 1000005"

type_synonym al_waiter = "nat \<times> bool"

record async_lock =
  al_waiters :: "al_waiter list"
  al_rd :: nat
  al_wr :: bool
  al_done :: "(nat \<times> bool \<times> int) list"

definition complete :: "al_waiter \<Rightarrow> int \<Rightarrow> async_lock \<Rightarrow> async_lock" where
  "complete w status lock = lock\<lparr>al_done := al_done lock @ [(fst w, snd w, status)]\<rparr>"

text \<open>The loop over the waiters; the result is the waiters that are granted, those that stay, and the two counters.\<close>

fun collect_loop :: "al_waiter list \<Rightarrow> nat \<Rightarrow> bool \<Rightarrow> al_waiter list \<times> al_waiter list \<times> nat \<times> bool" where
  "collect_loop [] rd wr = ([], [], rd, wr)"
| "collect_loop ((i, write_lock) # ws) rd wr =
     (if \<not> write_lock then let (granted, rest, rd, wr) = collect_loop ws ((rd + 1) mod U32_MOD) wr in ((i, write_lock) # granted, rest, rd, wr)
      else if rd = 0 then ([(i, write_lock)], ws, rd, True)
      else ([], (i, write_lock) # ws, rd, wr))"

definition ocf_async_lock_collect_waiters :: "async_lock \<Rightarrow> al_waiter list \<times> async_lock" where
  "ocf_async_lock_collect_waiters lock =
     (let (granted, rest, rd, wr) = collect_loop (al_waiters lock) (al_rd lock) (al_wr lock)
      in (granted, lock\<lparr>al_waiters := rest, al_rd := rd, al_wr := wr\<rparr>))"

definition ocf_async_lock_run_waiters :: "al_waiter list \<Rightarrow> int \<Rightarrow> async_lock \<Rightarrow> async_lock" where
  "ocf_async_lock_run_waiters waiters status lock = fold (\<lambda>w. complete w status) waiters lock"

definition ocf_async_lock_init :: "int \<Rightarrow> int + async_lock" where
  "ocf_async_lock_init err =
     (if err \<noteq> 0 then Inl err else Inr \<lparr>al_waiters = [], al_rd = 0, al_wr = False, al_done = []\<rparr>)"

definition ocf_async_lock_deinit :: "async_lock \<Rightarrow> async_lock" where
  "ocf_async_lock_deinit lock =
     ocf_async_lock_run_waiters (al_waiters lock) (- OCF_ERR_NO_LOCK) (lock\<lparr>al_waiters := []\<rparr>)"

definition async_trylock_locked :: "async_lock \<Rightarrow> int \<times> async_lock" where
  "async_trylock_locked lock = (if al_wr lock \<or> al_rd lock \<noteq> 0 then (- OCF_ERR_NO_LOCK, lock) else (0, lock\<lparr>al_wr := True\<rparr>))"

definition ocf_async_lock :: "nat \<Rightarrow> async_lock \<Rightarrow> async_lock" where
  "ocf_async_lock waiter lock =
     (let (result, lock) = async_trylock_locked lock
      in if result = 0 then complete (waiter, True) 0 lock
         else lock\<lparr>al_waiters := al_waiters lock @ [(waiter, True)]\<rparr>)"

definition ocf_async_trylock :: "async_lock \<Rightarrow> int \<times> async_lock" where
  "ocf_async_trylock lock = async_trylock_locked lock"

definition ocf_async_unlock :: "async_lock \<Rightarrow> async_lock option" where
  "ocf_async_unlock lock = do {
     bug_on (al_rd lock \<noteq> 0);
     bug_on (\<not> al_wr lock);
     let (waiters, lock) = ocf_async_lock_collect_waiters (lock\<lparr>al_wr := False\<rparr>);
     Some (ocf_async_lock_run_waiters waiters 0 lock) }"

definition async_read_trylock_locked :: "async_lock \<Rightarrow> int \<times> async_lock" where
  "async_read_trylock_locked lock =
     (if al_wr lock \<or> al_waiters lock \<noteq> [] then (- OCF_ERR_NO_LOCK, lock) else (0, lock\<lparr>al_rd := (al_rd lock + 1) mod U32_MOD\<rparr>))"

definition ocf_async_read_lock :: "nat \<Rightarrow> async_lock \<Rightarrow> async_lock" where
  "ocf_async_read_lock waiter lock =
     (let (result, lock) = async_read_trylock_locked lock
      in if result = 0 then complete (waiter, False) 0 lock
         else lock\<lparr>al_waiters := al_waiters lock @ [(waiter, False)]\<rparr>)"

definition ocf_async_read_trylock :: "async_lock \<Rightarrow> int \<times> async_lock" where
  "ocf_async_read_trylock lock = async_read_trylock_locked lock"

definition ocf_async_read_unlock :: "async_lock \<Rightarrow> async_lock option" where
  "ocf_async_read_unlock lock = do {
     bug_on (al_rd lock = 0);
     bug_on (al_wr lock);
     let lock = lock\<lparr>al_rd := al_rd lock - 1\<rparr>;
     if al_rd lock \<noteq> 0 then Some lock
     else do {
       let (waiters, lock) = ocf_async_lock_collect_waiters lock;
       Some (ocf_async_lock_run_waiters waiters 0 lock) } }"

definition ocf_async_is_locked :: "async_lock \<Rightarrow> bool" where
  "ocf_async_is_locked lock = (al_rd lock \<noteq> 0 \<or> al_wr lock)"

subsection \<open>Which waiters are served\<close>

lemma run_waiters_done:
  "ocf_async_lock_run_waiters ws st lock = lock\<lparr>al_done := al_done lock @ map (\<lambda>w. (fst w, snd w, st)) ws\<rparr>"
  unfolding ocf_async_lock_run_waiters_def by (induction ws arbitrary: lock) (auto simp: complete_def)

text \<open>The readers before the first writer, or that writer when there are none.\<close>

definition next_group :: "al_waiter list \<Rightarrow> al_waiter list" where
  "next_group ws = (case ws of (i, True) # _ \<Rightarrow> [(i, True)] | _ \<Rightarrow> takeWhile (\<lambda>w. \<not> snd w) ws)"

lemma collect_readers:
  "0 < rd \<Longrightarrow> rd + length ws < U32_MOD \<Longrightarrow> collect_loop ws rd wr =
     (takeWhile (\<lambda>w. \<not> snd w) ws, dropWhile (\<lambda>w. \<not> snd w) ws, rd + length (takeWhile (\<lambda>w. \<not> snd w) ws), wr)"
  by (induction ws arbitrary: rd) (auto simp: Let_def)

lemma collect_idle:
  assumes "length ws < U32_MOD"
  shows "collect_loop ws 0 False =
     (next_group ws, drop (length (next_group ws)) ws, length (filter (\<lambda>w. \<not> snd w) (next_group ws)),
      \<exists>i. next_group ws = [(i, True)])"
proof (cases ws)
  case (Cons w rest)
  obtain i b where w: "w = (i, b)" by (cases w)
  have tw: "filter (\<lambda>w. \<not> snd w) (takeWhile (\<lambda>w. \<not> snd w) rest) = takeWhile (\<lambda>w. \<not> snd w) rest"
    by (meson filter_True set_takeWhileD)
  show ?thesis
    using Cons w tw assms by (cases b) (auto simp: next_group_def collect_readers dropWhile_eq_drop Let_def)
qed (simp add: next_group_def)

lemma next_group_prefix: "\<exists>rest. ws = next_group ws @ rest"
proof (cases ws)
  case (Cons w rest)
  obtain i b where w: "w = (i, b)" by (cases w)
  show ?thesis using Cons w takeWhile_dropWhile_id [of "\<lambda>w. \<not> snd w" rest]
    by (cases b) (auto simp: next_group_def intro: exI [of _ "dropWhile (\<lambda>w. \<not> snd w) rest"])
qed (simp add: next_group_def)

lemma next_group_Nil: "next_group ws = [] \<longleftrightarrow> ws = []"
  by (cases ws) (auto simp: next_group_def split: bool.splits)

subsection \<open>The lock in use\<close>

text \<open>
  The steps of the users of one lock. The state carries, besides the lock, how many users hold it for reading and how many for
  writing; a user gets the lock by a successful attempt or by a completion with status 0, and returns only what is held. Who holds
  the lock for reading or waits for it is one of fewer than 2^32 users, which is what the counter of readers has room for.
\<close>

definition al_room :: "async_lock \<times> nat \<times> nat \<Rightarrow> bool" where
  "al_room = (\<lambda>(l, r, w). r + length (al_waiters l) + 1 < U32_MOD)"

definition grants :: "bool \<Rightarrow> async_lock \<Rightarrow> async_lock \<Rightarrow> nat" where
  "grants write l l' = length (filter (\<lambda>(_, b, st). b = write \<and> st = 0) (drop (length (al_done l)) (al_done l')))"

inductive al_step :: "async_lock \<times> nat \<times> nat \<Rightarrow> async_lock \<times> nat \<times> nat \<Rightarrow> bool" where
  lock: "al_room (l, r, w) \<Longrightarrow> l' = ocf_async_lock i l \<Longrightarrow> al_step (l, r, w) (l', r + grants False l l', w + grants True l l')"
| read_lock: "al_room (l, r, w) \<Longrightarrow> l' = ocf_async_read_lock i l \<Longrightarrow> al_step (l, r, w) (l', r + grants False l l', w + grants True l l')"
| trylock: "ocf_async_trylock l = (e, l') \<Longrightarrow> al_step (l, r, w) (l', r, if e = 0 then w + 1 else w)"
| read_trylock: "al_room (l, r, w) \<Longrightarrow> ocf_async_read_trylock l = (e, l') \<Longrightarrow> al_step (l, r, w) (l', if e = 0 then r + 1 else r, w)"
| unlock: "0 < w \<Longrightarrow> ocf_async_unlock l = Some l' \<Longrightarrow> al_step (l, r, w) (l', r + grants False l l', w - 1 + grants True l l')"
| read_unlock: "0 < r \<Longrightarrow> ocf_async_read_unlock l = Some l' \<Longrightarrow> al_step (l, r, w) (l', r - 1 + grants False l l', w + grants True l l')"

definition al_inv :: "async_lock \<times> nat \<times> nat \<Rightarrow> bool" where
  "al_inv = (\<lambda>(l, r, w). r = al_rd l \<and> w = (if al_wr l then 1 else 0) \<and> (al_wr l \<longrightarrow> al_rd l = 0) \<and>
     al_rd l + length (al_waiters l) < U32_MOD \<and>
     (al_waiters l \<noteq> [] \<longrightarrow> (al_wr l \<or> 0 < al_rd l) \<and> (0 < al_rd l \<longrightarrow> snd (hd (al_waiters l)))))"

lemma grants_simps [simp]:
  "grants b l (l\<lparr>al_waiters := ws, al_rd := n, al_wr := v\<rparr>) = 0" "grants b l l = 0" "grants b l (l\<lparr>al_waiters := ws\<rparr>) = 0"
  "grants b l (l\<lparr>al_rd := n\<rparr>) = 0"
  by (simp_all add: grants_def)

lemma grants_append: "al_done l' = al_done l @ ds \<Longrightarrow> grants b l l' = length (filter (\<lambda>(_, v, st). v = b \<and> st = 0) ds)"
  by (simp add: grants_def)

text \<open>Releasing an idle lock to the next group of waiters.\<close>

lemma release:
  assumes "al_rd l = 0" and "\<not> al_wr l" and room: "length (al_waiters l) < U32_MOD"
  defines "ws \<equiv> al_waiters l"
  defines "l' \<equiv> (let (g, l) = ocf_async_lock_collect_waiters l in ocf_async_lock_run_waiters g 0 l)"
  shows "l' = l\<lparr>al_waiters := drop (length (next_group ws)) ws, al_rd := length (filter (\<lambda>w. \<not> snd w) (next_group ws)),
      al_wr := (\<exists>i. next_group ws = [(i, True)]), al_done := al_done l @ map (\<lambda>w. (fst w, snd w, 0)) (next_group ws)\<rparr>"
    and "al_inv (l', grants False l l', grants True l l')"
proof -
  let ?G = "next_group ws"
  show l': "l' = l\<lparr>al_waiters := drop (length ?G) ws, al_rd := length (filter (\<lambda>w. \<not> snd w) ?G),
      al_wr := (\<exists>i. ?G = [(i, True)]), al_done := al_done l @ map (\<lambda>w. (fst w, snd w, 0)) ?G\<rparr>"
    using assms(1,2) collect_idle [of ws] room
    by (simp add: l'_def ocf_async_lock_collect_waiters_def run_waiters_done ws_def)
  have g: "grants b l l' = length (filter (\<lambda>w. snd w = b) ?G)" for b
  proof -
    have d: "al_done l' = al_done l @ map (\<lambda>w. (fst w, snd w, 0)) ?G" by (simp add: l')
    show ?thesis unfolding grants_append [OF d] by (simp add: filter_map comp_def case_prod_beta)
  qed
  have tw: "\<And>w. w \<in> set (takeWhile (\<lambda>w. \<not> snd w) xs) \<Longrightarrow> \<not> snd w" for xs :: "al_waiter list" by (auto dest: set_takeWhileD)
  consider "ws = []" | i rest where "ws = (i, True) # rest" | i rest where "ws = (i, False) # rest"
    by (cases ws) auto
  then show "al_inv (l', grants False l l', grants True l l')"
  proof cases
    case 3
    have f: "filter snd (takeWhile (\<lambda>w. \<not> snd w) rest) = []" "filter (\<lambda>w. \<not> snd w) (takeWhile (\<lambda>w. \<not> snd w) rest) = takeWhile (\<lambda>w. \<not> snd w) rest"
      using tw [of _ rest] by (auto simp: filter_empty_conv filter_id_conv)
    have hd: "dropWhile (\<lambda>w. \<not> snd w) rest \<noteq> [] \<Longrightarrow> snd (hd (dropWhile (\<lambda>w. \<not> snd w) rest))"
      using hd_dropWhile [of "\<lambda>w. \<not> snd w" rest] by blast
    have len: "length (takeWhile (\<lambda>w. \<not> snd w) rest) + length (dropWhile (\<lambda>w. \<not> snd w) rest) = length rest"
      by (metis length_append takeWhile_dropWhile_id)
    have "length rest < 4294967295" using 3 room by (simp add: ws_def)
    then show ?thesis using 3 f hd len unfolding al_inv_def g unfolding l'
      by (auto simp: next_group_def dropWhile_eq_drop [symmetric])
  qed (use room in \<open>unfold al_inv_def g, auto simp: l' next_group_def ws_def\<close>)
qed

lemma al_inv_step:
  assumes "al_step s s'" and "al_inv s"
  shows "al_inv s'"
  using assms
proof cases
  case (unlock w l l' r)
  have "l' = (let (g, l) = ocf_async_lock_collect_waiters (l\<lparr>al_wr := False\<rparr>) in ocf_async_lock_run_waiters g 0 l)"
    using unlock by (auto simp: ocf_async_unlock_def Let_def bind_eq_Some_conv split: prod.splits)
  moreover have "grants b l l' = grants b (l\<lparr>al_wr := False\<rparr>) l'" for b by (simp add: grants_def)
  ultimately show ?thesis using unlock assms(2) release(2) [of "l\<lparr>al_wr := False\<rparr>"] by (auto simp: al_inv_def)
next
  case (read_unlock r l l' w)
  show ?thesis
  proof (cases "al_rd l = 1")
    case True
    have "l' = (let (g, l) = ocf_async_lock_collect_waiters (l\<lparr>al_rd := 0\<rparr>) in ocf_async_lock_run_waiters g 0 l)"
      using read_unlock True by (auto simp: ocf_async_read_unlock_def Let_def bind_eq_Some_conv split: prod.splits)
    moreover have "grants b l l' = grants b (l\<lparr>al_rd := 0\<rparr>) l'" for b by (simp add: grants_def)
    ultimately show ?thesis using read_unlock assms(2) True release(2) [of "l\<lparr>al_rd := 0\<rparr>"] by (auto simp: al_inv_def)
  next
    case False
    then show ?thesis using read_unlock assms(2) by (auto simp: al_inv_def ocf_async_read_unlock_def Let_def split: if_splits)
  qed
qed (auto simp: al_inv_def al_room_def ocf_async_lock_def ocf_async_read_lock_def ocf_async_trylock_def ocf_async_read_trylock_def
    async_trylock_locked_def async_read_trylock_locked_def complete_def grants_def OCF_ERR_NO_LOCK_def hd_append split: if_splits)

lemma al_inv_reachable:
  assumes "ocf_async_lock_init e = Inr l0" and "al_step\<^sup>*\<^sup>* (l0, 0, 0) s"
  shows "al_inv s"
  using assms(2)
proof (induction rule: rtranclp_induct)
  case base
  then show ?case using assms(1) by (auto simp: al_inv_def ocf_async_lock_init_def split: if_splits)
qed (rule al_inv_step)

text \<open>
  C26. However the users of one asynchronous lock, fewer than 2^32 at a time, interleave their calls, from its initialisation on: at most one of them holds it
  for writing, and then none for reading; somebody waits only while somebody holds it; and a holder that releases it never runs into
  the assertions of the release functions.
\<close>

theorem async_lock_exclusive:
  assumes "ocf_async_lock_init e = Inr l0" and "al_step\<^sup>*\<^sup>* (l0, 0, 0) (l, r, w)"
  shows "(w = 0 \<or> w = 1 \<and> r = 0) \<and> (al_waiters l \<noteq> [] \<longrightarrow> 0 < w \<or> 0 < r) \<and>
    (0 < w \<longrightarrow> ocf_async_unlock l \<noteq> None) \<and> (0 < r \<longrightarrow> ocf_async_read_unlock l \<noteq> None) \<and>
    (ocf_async_is_locked l \<longleftrightarrow> 0 < r \<or> 0 < w)"
  using al_inv_reachable [OF assms]
  by (auto simp: al_inv_def ocf_async_unlock_def ocf_async_read_unlock_def ocf_async_is_locked_def Let_def case_prod_beta split: if_splits)

text \<open>
  C27. In any state that fewer than 2^32 users reach, the release of the last hold, for writing or for reading, gives the lock to the next group of the waiters in the order in
  which they came: all readers before the first writer, or that writer alone. Their completions are called with status 0 in that
  order, the others stay in the queue in their order, and when anybody waits the lock does not stay free.
\<close>

theorem async_unlock_serves_next_group:
  assumes "ocf_async_lock_init e = Inr l0" and "al_step\<^sup>*\<^sup>* (l0, 0, 0) (l, r, w)" and "r + w = 1"
  defines "G \<equiv> next_group (al_waiters l)"
  shows "\<exists>l'. (if w = 1 then ocf_async_unlock l else ocf_async_read_unlock l) = Some l' \<and>
    al_waiters l = G @ al_waiters l' \<and> al_done l' = al_done l @ map (\<lambda>(i, b). (i, b, 0)) G \<and>
    (al_waiters l \<noteq> [] \<longrightarrow> G \<noteq> [] \<and> ocf_async_is_locked l')"
proof -
  let ?i = "l\<lparr>al_wr := False, al_rd := 0\<rparr>"
  define l' where "l' = (let (g, l) = ocf_async_lock_collect_waiters ?i in ocf_async_lock_run_waiters g 0 l)"
  have inv: "al_inv (l, r, w)" by (rule al_inv_reachable [OF assms(1,2)])
  have s: "(if w = 1 then ocf_async_unlock l else ocf_async_read_unlock l) = Some l'"
    using inv assms(3)
    by (cases l) (auto simp: al_inv_def ocf_async_unlock_def ocf_async_read_unlock_def l'_def Let_def case_prod_beta split: if_splits)
  have l': "al_waiters l' = drop (length G) (al_waiters l)" "al_rd l' = length (filter (\<lambda>w. \<not> snd w) G)"
    "al_wr l' \<longleftrightarrow> (\<exists>i. G = [(i, True)])" "al_done l' = al_done l @ map (\<lambda>(i, b). (i, b, 0)) G"
    using release(1) [of ?i] inv by (simp_all add: l'_def G_def case_prod_beta al_inv_def)
  have "al_waiters l = G @ drop (length G) (al_waiters l)"
    unfolding G_def using next_group_prefix [of "al_waiters l"] by (metis append_eq_conv_conj)
  moreover have "G \<noteq> [] \<Longrightarrow> (\<exists>i. G = [(i, True)]) \<or> filter (\<lambda>w. \<not> snd w) G \<noteq> []"
    unfolding G_def by (auto simp: next_group_def filter_empty_conv split: list.splits bool.splits)
  ultimately show ?thesis
    using s next_group_Nil [of "al_waiters l"]
    by (auto simp: l' ocf_async_is_locked_def G_def [symmetric])
qed

text \<open>A writer holds the lock; two readers, a writer and a reader wait.\<close>

definition al_example :: async_lock where
  "al_example = \<lparr>al_waiters = [(2, False), (3, False), (4, True), (5, False)], al_rd = 0, al_wr = True, al_done = [(1, True, 0)]\<rparr>"

lemma al_example_reachable: "al_step\<^sup>*\<^sup>* (\<lparr>al_waiters = [], al_rd = 0, al_wr = False, al_done = []\<rparr>, 0, 0) (al_example, 0, 1)"
proof -
  have st: "al_step (l, 0, 1) (l\<lparr>al_waiters := al_waiters l @ [(i, b)]\<rparr>, 0, 1)" if "al_wr l" "length (al_waiters l) < 4" for l i b
    using al_step.lock [OF _ refl, of l 0 1 i] al_step.read_lock [OF _ refl, of l 0 1 i] that
    by (cases b) (simp_all add: al_room_def ocf_async_lock_def ocf_async_read_lock_def async_trylock_locked_def async_read_trylock_locked_def
        OCF_ERR_NO_LOCK_def)
  let ?l = "\<lambda>ws. \<lparr>al_waiters = ws, al_rd = 0, al_wr = True, al_done = [(1, True, 0)]\<rparr>"
  have "al_step (\<lparr>al_waiters = [], al_rd = 0, al_wr = False, al_done = []\<rparr>, 0, 0) (?l [], 0, 1)"
    using al_step.lock [OF _ refl, of "\<lparr>al_waiters = [], al_rd = 0, al_wr = False, al_done = []\<rparr>" 0 0 1]
    by (simp add: al_room_def ocf_async_lock_def async_trylock_locked_def complete_def grants_def)
  also have "al_step\<^sup>*\<^sup>* (?l [], 0, 1) (?l [(2, False), (3, False), (4, True), (5, False)], 0, 1)"
    using st [of "?l []" 2 False] st [of "?l [(2, False)]" 3 False] st [of "?l [(2, False), (3, False)]" 4 True]
      st [of "?l [(2, False), (3, False), (4, True)]" 5 False]
    by (auto intro: converse_rtranclp_into_rtranclp)
  finally show ?thesis by (simp add: al_example_def)
qed

theorem async_lock_exclusive_witness:
  "ocf_async_lock_init 0 = Inr \<lparr>al_waiters = [], al_rd = 0, al_wr = False, al_done = []\<rparr> \<and> ocf_async_unlock al_example \<noteq> None \<and>
   ocf_async_is_locked al_example"
proof -
  have i: "ocf_async_lock_init 0 = Inr \<lparr>al_waiters = [], al_rd = 0, al_wr = False, al_done = []\<rparr>"
    by (simp add: ocf_async_lock_init_def)
  show ?thesis using i async_lock_exclusive [OF i al_example_reachable] by simp
qed

theorem async_unlock_serves_next_group_witness:
  "\<exists>l'. ocf_async_unlock al_example = Some l' \<and> al_waiters l' = [(4, True), (5, False)] \<and>
     al_done l' = [(1, True, 0), (2, False, 0), (3, False, 0)] \<and> ocf_async_is_locked l'"
proof -
  have i: "ocf_async_lock_init 0 = Inr \<lparr>al_waiters = [], al_rd = 0, al_wr = False, al_done = []\<rparr>"
    by (simp add: ocf_async_lock_init_def)
  show ?thesis using async_unlock_serves_next_group [OF i al_example_reachable]
    by (auto simp: al_example_def next_group_def)
qed

end
