(* ===== verification/MetadataLocks.thy ===== *)
theory MetadataLocks
  imports Request AsyncLock RWSem
begin

section \<open>Locks of the metadata\<close>

text \<open>
  \<^verbatim>\<open>src/concurrency/ocf_metadata_concurrency.c\<close>: the global metadata lock, one lock per bucket of the hash table and one per page of
  the collision table. A function that takes locks may block in the middle, so it is the list of the operations it does on the
  locks, and threads run such lists interleaved. The locks are the reader/writer semaphores of the environment
  (\<^verbatim>\<open>env_rwsem\<close>): any number of readers or one writer. Spin locks, which are held for a few instructions and never while another
  lock is waited for, are not modelled.
\<close>

subsection \<open>Locks\<close>

datatype mlock = GlobalLock | HashLock nat | PageLock nat

text \<open>The order in which locks are taken: the global lock, the buckets in ascending order, the pages.\<close>

fun lock_rank :: "mlock \<Rightarrow> nat \<times> nat" where
  "lock_rank GlobalLock = (0, 0)"
| "lock_rank (HashLock h) = (1, h)"
| "lock_rank (PageLock p) = (2, p)"

instantiation mlock :: linorder
begin

definition less_eq_mlock :: "mlock \<Rightarrow> mlock \<Rightarrow> bool" where
  "less_eq_mlock a b = (fst (lock_rank a) < fst (lock_rank b) \<or>
     fst (lock_rank a) = fst (lock_rank b) \<and> snd (lock_rank a) \<le> snd (lock_rank b))"

definition less_mlock :: "mlock \<Rightarrow> mlock \<Rightarrow> bool" where
  "less_mlock a b = (fst (lock_rank a) < fst (lock_rank b) \<or>
     fst (lock_rank a) = fst (lock_rank b) \<and> snd (lock_rank a) < snd (lock_rank b))"

instance
proof
  fix a b c :: mlock
  show "a < b \<longleftrightarrow> a \<le> b \<and> \<not> b \<le> a" by (auto simp: less_eq_mlock_def less_mlock_def)
  show "a \<le> a" by (simp add: less_eq_mlock_def)
  show "a \<le> b \<Longrightarrow> b \<le> c \<Longrightarrow> a \<le> c" by (auto simp: less_eq_mlock_def)
  show "a \<le> b \<Longrightarrow> b \<le> a \<Longrightarrow> a = b" by (cases a; cases b) (auto simp: less_eq_mlock_def)
  show "a \<le> b \<or> b \<le> a" by (auto simp: less_eq_mlock_def)
qed

end

lemma mlock_less [simp]:
  "GlobalLock < HashLock h" "GlobalLock < PageLock p" "HashLock h < PageLock p" "HashLock h < HashLock h' \<longleftrightarrow> h < h'"
  "\<not> HashLock h < GlobalLock"
  by (simp_all add: less_mlock_def)

text \<open>What a function does to the locks: wait for a lock and take it, or give it back.\<close>

datatype lock_op = Down mlock access | Up mlock access

subsection \<open>Taking the locks of one bucket\<close>

definition ocf_metadata_start_exclusive_access :: "lock_op list" where
  "ocf_metadata_start_exclusive_access = [Down GlobalLock OCF_METADATA_WR]"

definition ocf_metadata_end_exclusive_access :: "lock_op list" where
  "ocf_metadata_end_exclusive_access = [Up GlobalLock OCF_METADATA_WR]"

definition ocf_metadata_start_shared_access :: "lock_op list" where
  "ocf_metadata_start_shared_access = [Down GlobalLock OCF_METADATA_RD]"

definition ocf_metadata_end_shared_access :: "lock_op list" where
  "ocf_metadata_end_shared_access = [Up GlobalLock OCF_METADATA_RD]"

text \<open>\<open>n\<close> is the number of buckets.\<close>

definition ocf_metadata_hash_lock :: "nat \<Rightarrow> nat \<Rightarrow> access \<Rightarrow> lock_op list option" where
  "ocf_metadata_hash_lock n hash rw = do { bug_on (hash \<ge> n); Some [Down (HashLock hash) rw] }"

definition ocf_metadata_hash_unlock :: "nat \<Rightarrow> nat \<Rightarrow> access \<Rightarrow> lock_op list option" where
  "ocf_metadata_hash_unlock n hash rw = do { bug_on (hash \<ge> n); Some [Up (HashLock hash) rw] }"

definition ocf_metadata_hash_lock_rd :: "coll_meta \<Rightarrow> core_id \<Rightarrow> core_line \<Rightarrow> lock_op list option" where
  "ocf_metadata_hash_lock_rd c core_id core_line = do {
     let hash = ocf_metadata_hash_func c core_line core_id;
     l \<leftarrow> ocf_metadata_hash_lock (hash_table_entries c) hash OCF_METADATA_RD;
     Some (ocf_metadata_start_shared_access @ l) }"

definition ocf_metadata_hash_unlock_rd :: "coll_meta \<Rightarrow> core_id \<Rightarrow> core_line \<Rightarrow> lock_op list option" where
  "ocf_metadata_hash_unlock_rd c core_id core_line = do {
     let hash = ocf_metadata_hash_func c core_line core_id;
     l \<leftarrow> ocf_metadata_hash_unlock (hash_table_entries c) hash OCF_METADATA_RD;
     Some (l @ ocf_metadata_end_shared_access) }"

definition ocf_metadata_hash_lock_wr :: "coll_meta \<Rightarrow> core_id \<Rightarrow> core_line \<Rightarrow> lock_op list option" where
  "ocf_metadata_hash_lock_wr c core_id core_line = do {
     let hash = ocf_metadata_hash_func c core_line core_id;
     l \<leftarrow> ocf_metadata_hash_lock (hash_table_entries c) hash OCF_METADATA_WR;
     Some (ocf_metadata_start_shared_access @ l) }"

definition ocf_metadata_hash_unlock_wr :: "coll_meta \<Rightarrow> core_id \<Rightarrow> core_line \<Rightarrow> lock_op list option" where
  "ocf_metadata_hash_unlock_wr c core_id core_line = do {
     let hash = ocf_metadata_hash_func c core_line core_id;
     l \<leftarrow> ocf_metadata_hash_unlock (hash_table_entries c) hash OCF_METADATA_WR;
     Some (l @ ocf_metadata_end_shared_access) }"

definition ocf_collision_start_shared_access :: "nat \<Rightarrow> lock_op list" where
  "ocf_collision_start_shared_access page = [Down (PageLock page) OCF_METADATA_RD]"

definition ocf_collision_end_shared_access :: "nat \<Rightarrow> lock_op list" where
  "ocf_collision_end_shared_access page = [Up (PageLock page) OCF_METADATA_RD]"

definition ocf_collision_start_exclusive_access :: "nat \<Rightarrow> lock_op list" where
  "ocf_collision_start_exclusive_access page = [Down (PageLock page) OCF_METADATA_WR]"

definition ocf_collision_end_exclusive_access :: "nat \<Rightarrow> lock_op list" where
  "ocf_collision_end_exclusive_access page = [Up (PageLock page) OCF_METADATA_WR]"

subsection \<open>Taking the locks of a request\<close>

text \<open>The macros that walk over the buckets of a request in ascending order, with their unsigned 32 bit arithmetic.\<close>

definition req_hash :: "ocf_request \<Rightarrow> nat \<Rightarrow> nat" where
  "req_hash req i = mi_hash (the (rq_map req) ! i)"

definition IS_MONOTONIC :: "nat \<Rightarrow> ocf_request \<Rightarrow> bool" where
  "IS_MONOTONIC n req = ((req_hash req 0 + rq_core_line_count req) mod U32_MOD \<le> n)"

definition MIN_HASH :: "nat \<Rightarrow> ocf_request \<Rightarrow> nat" where
  "MIN_HASH n req = (if IS_MONOTONIC n req then req_hash req 0 else 0)"

definition MAX_HASH :: "nat \<Rightarrow> ocf_request \<Rightarrow> nat" where
  "MAX_HASH n req = (if IS_MONOTONIC n req then req_hash req (rq_core_line_count req - 1) else (n + U32_MOD - 1) mod U32_MOD)"

definition HASH_COUNT :: "nat \<Rightarrow> ocf_request \<Rightarrow> nat" where
  "HASH_COUNT n req = min (rq_core_line_count req) n"

definition HASH_SPAN :: "nat \<Rightarrow> ocf_request \<Rightarrow> nat" where
  "HASH_SPAN n req = (MAX_HASH n req + U32_MOD - MIN_HASH n req + 1) mod U32_MOD"

definition HAS_GAP :: "nat \<Rightarrow> ocf_request \<Rightarrow> bool" where
  "HAS_GAP n req = (HASH_SPAN n req > HASH_COUNT n req)"

definition GAP_VAL :: "nat \<Rightarrow> ocf_request \<Rightarrow> nat" where
  "GAP_VAL n req = (HASH_SPAN n req + U32_MOD - HASH_COUNT n req) mod U32_MOD"

definition GAP_START :: "nat \<Rightarrow> ocf_request \<Rightarrow> nat" where
  "GAP_START n req = req_hash req (rq_core_line_count req - 1)"

definition HASH_NEXT :: "nat \<Rightarrow> ocf_request \<Rightarrow> nat \<Rightarrow> nat" where
  "HASH_NEXT n req hash = (hash + 1 + (if HAS_GAP n req \<and> hash = GAP_START n req then GAP_VAL n req else 0)) mod U32_MOD"

partial_function (option) hash_asc_loop :: "nat \<Rightarrow> ocf_request \<Rightarrow> nat \<Rightarrow> nat list option" where
  "hash_asc_loop n req hash =
     (if hash \<le> MAX_HASH n req then do { hs \<leftarrow> hash_asc_loop n req (HASH_NEXT n req hash); Some (hash # hs) } else Some [])"

definition for_each_req_hash_asc :: "nat \<Rightarrow> ocf_request \<Rightarrow> nat list option" where
  "for_each_req_hash_asc n req = hash_asc_loop n req (MIN_HASH n req)"

definition each_hash :: "nat \<Rightarrow> ocf_request \<Rightarrow> (nat \<Rightarrow> lock_op list option) \<Rightarrow> lock_op list option" where
  "each_hash n req f = do {
     hs \<leftarrow> for_each_req_hash_asc n req;
     fold_opt (\<lambda>h ops. do { l \<leftarrow> f h; Some (ops @ l) }) hs [] }"

definition ocf_req_hash_lock_rd :: "nat \<Rightarrow> ocf_request \<Rightarrow> lock_op list option" where
  "ocf_req_hash_lock_rd n req = do {
     l \<leftarrow> each_hash n req (\<lambda>hash. ocf_metadata_hash_lock n hash OCF_METADATA_RD);
     Some (ocf_metadata_start_shared_access @ l) }"

definition ocf_req_hash_unlock_rd :: "nat \<Rightarrow> ocf_request \<Rightarrow> lock_op list option" where
  "ocf_req_hash_unlock_rd n req = do {
     l \<leftarrow> each_hash n req (\<lambda>hash. ocf_metadata_hash_unlock n hash OCF_METADATA_RD);
     Some (l @ ocf_metadata_end_shared_access) }"

definition ocf_req_hash_lock_wr :: "nat \<Rightarrow> ocf_request \<Rightarrow> lock_op list option" where
  "ocf_req_hash_lock_wr n req = do {
     l \<leftarrow> each_hash n req (\<lambda>hash. ocf_metadata_hash_lock n hash OCF_METADATA_WR);
     Some (ocf_metadata_start_shared_access @ l) }"

definition ocf_req_hash_lock_upgrade :: "nat \<Rightarrow> ocf_request \<Rightarrow> lock_op list option" where
  "ocf_req_hash_lock_upgrade n req = do {
     u \<leftarrow> each_hash n req (\<lambda>hash. ocf_metadata_hash_unlock n hash OCF_METADATA_RD);
     l \<leftarrow> each_hash n req (\<lambda>hash. ocf_metadata_hash_lock n hash OCF_METADATA_WR);
     Some (u @ l) }"

definition ocf_req_hash_unlock_wr :: "nat \<Rightarrow> ocf_request \<Rightarrow> lock_op list option" where
  "ocf_req_hash_unlock_wr n req = do {
     l \<leftarrow> each_hash n req (\<lambda>hash. ocf_metadata_hash_unlock n hash OCF_METADATA_WR);
     Some (l @ ocf_metadata_end_shared_access) }"

subsection \<open>The walk over the buckets of a request\<close>

text \<open>
  A request whose hashes were computed by \<^verbatim>\<open>ocf_req_hash\<close>: at least one line, and no sum of the computation leaves its width.
\<close>

definition req_hashed :: "coll_meta \<Rightarrow> ocf_request \<Rightarrow> bool" where
  "req_hashed c req \<longleftrightarrow> 0 < hash_table_entries c \<and> 0 < rq_core_line_count req \<and>
     hash_table_entries c + rq_core_line_count req < U32_MOD \<and>
     (\<forall>i < rq_core_line_count req. req_hash req i = (req_hash req 0 + i) mod hash_table_entries c) \<and>
     req_hash req 0 < hash_table_entries c"

lemma req_hash_map:
  assumes "rq_map r = Some m" and "rq_core_line_count r \<le> length m"
  shows "ocf_req_hash c r = Some (r\<lparr>rq_map := Some (map (\<lambda>i. (m ! i)\<lparr>mi_hash := ocf_metadata_hash_func c
     ((rq_core_line_first r + i) mod U64_MOD) (rq_core_id r)\<rparr>) [0..<rq_core_line_count r] @ drop (rq_core_line_count r) m)\<rparr>)"
proof -
  let ?g = "\<lambda>i. (m ! i)\<lparr>mi_hash := ocf_metadata_hash_func c ((rq_core_line_first r + i) mod U64_MOD) (rq_core_id r)\<rparr>"
  let ?n = "rq_core_line_count r"
  have "fold_opt
     (\<lambda>i r. case rq_map r of
        None \<Rightarrow> None
      | Some m \<Rightarrow> if i < length m
          then Some (r\<lparr>rq_map := Some (m[i := (m ! i)\<lparr>mi_hash := ocf_metadata_hash_func c
                 ((rq_core_line_first r + i) mod U64_MOD) (rq_core_id r)\<rparr>])\<rparr>)
          else None)
     [0..<k] r = Some (r\<lparr>rq_map := Some (map ?g [0..<k] @ drop k m)\<rparr>)" if "k \<le> ?n" for k
    using that
  proof (induction k)
    case 0
    then show ?case using assms(1) by (cases r) simp
  next
    case (Suc k)
    then have k: "k < length m" using assms(2) by simp
    then have d: "drop k m = m ! k # drop (Suc k) m" by (simp add: Cons_nth_drop_Suc)
    show ?case using Suc k d by (simp add: fold_opt_append nth_append list_update_append)
  qed
  from this [of ?n] show ?thesis using assms(2) by (simp add: ocf_req_hash_def)
qed

lemma req_hashed_by_req_hash:
  assumes "rq_map r = Some m" and "rq_core_line_count r \<le> length m" and "0 < hash_table_entries c" and "0 < rq_core_line_count r"
    and "hash_table_entries c + rq_core_line_count r < U32_MOD"
    and "rq_core_line_first r + rq_core_line_count r + U32_MOD \<le> U64_MOD"
    and "ocf_req_hash c r = Some req"
  shows "req_hashed c req"
proof -
  have "req = r\<lparr>rq_map := Some (map (\<lambda>i. (m ! i)\<lparr>mi_hash := ocf_metadata_hash_func c
     ((rq_core_line_first r + i) mod U64_MOD) (rq_core_id r)\<rparr>) [0..<rq_core_line_count r] @ drop (rq_core_line_count r) m)\<rparr>"
    using assms(7) req_hash_map [OF assms(1,2)] by simp
  then have h: "req_hash req i = ocf_metadata_hash_func c (rq_core_line_first r + i) (rq_core_id r)"
    and n: "rq_core_line_count req = rq_core_line_count r" if "i < rq_core_line_count r" for i
    using that assms(6) by (simp_all add: req_hash_def nth_append)
  have "ocf_metadata_hash_func c (rq_core_line_first r + i) (rq_core_id r) =
      (ocf_metadata_hash_func c (rq_core_line_first r) (rq_core_id r) + i) mod hash_table_entries c"
    if "i < rq_core_line_count r" for i
  proof (rule hash_bucket_add)
    have "(rq_core_id r * (hash_table_entries c div 32)) mod U32_MOD < U32_MOD" by simp
    then show "rq_core_line_first r + i + (rq_core_id r * (hash_table_entries c div 32)) mod U32_MOD < U64_MOD"
      using that assms(6) by linarith
  qed (rule assms(3))
  then show ?thesis
    using assms(3-5) h n [of 0] hash_func_bound [OF assms(3), of "(rq_core_id r, rq_core_line_first r)"] h [of 0]
    by (auto simp: req_hashed_def key_hash_def)
qed

lemma hash_asc_run:
  assumes "a \<le> b" and "b \<le> MAX_HASH n req + 1" and "\<And>x. a \<le> x \<Longrightarrow> x < b \<Longrightarrow> HASH_NEXT n req x = x + 1"
  shows "hash_asc_loop n req a = do { hs \<leftarrow> hash_asc_loop n req b; Some ([a..<b] @ hs) }"
  using assms
proof (induction "b - a" arbitrary: a)
  case (Suc k)
  then have ab: "a < b" by simp
  have "hash_asc_loop n req (a + 1) = do { hs \<leftarrow> hash_asc_loop n req b; Some ([a + 1..<b] @ hs) }"
    using Suc by (intro Suc.hyps(1)) auto
  moreover have "hash_asc_loop n req a = do { hs \<leftarrow> hash_asc_loop n req (a + 1); Some (a # hs) }"
    using ab Suc.prems by (subst hash_asc_loop.simps) simp
  ultimately show ?case using ab by (cases "hash_asc_loop n req b") (simp_all add: upt_conv_Cons)
qed simp

text \<open>The buckets in the order of the walk, in the three shapes the hashes of a request can have.\<close>

lemma hash_asc_shapes:
  assumes hashed: "req_hashed c req"
  defines "n \<equiv> hash_table_entries c" and "k \<equiv> rq_core_line_count req" and "h \<equiv> req_hash req 0"
  shows "for_each_req_hash_asc n req = Some (
    if h + k \<le> n then [h..<h + k] else if n \<le> k then [0..<n] else [0..<h + k - n] @ [h..<n])"
proof -
  have n: "0 < n" "0 < k" "n + k < U32_MOD" "h < n" and hash: "i < k \<Longrightarrow> req_hash req i = (h + i) mod n" for i
    using hashed unfolding req_hashed_def n_def k_def h_def by blast+
  have mono: "IS_MONOTONIC n req \<longleftrightarrow> h + k \<le> n" using n by (simp add: IS_MONOTONIC_def h_def k_def)
  have last: "req_hash req (k - 1) = (h + k - 1) mod n" using hash [of "k - 1"] n(2) by simp
  have stop: "hash_asc_loop n req x = Some []" if "MAX_HASH n req < x" for x
    using that by (subst hash_asc_loop.simps) simp
  have next_plain: "\<not> HAS_GAP n req \<or> x \<noteq> GAP_START n req \<Longrightarrow> x < n \<Longrightarrow> HASH_NEXT n req x = x + 1" for x
    using n by (auto simp: HASH_NEXT_def)
  consider (mono) "h + k \<le> n" | (all) "n < h + k" "n \<le> k" | (gap) "n < h + k" "k < n" by linarith
  then show ?thesis
  proof cases
    case mono
    have e: "MIN_HASH n req = h" "MAX_HASH n req = h + k - 1"
      using mono n last by (simp_all add: MIN_HASH_def MAX_HASH_def \<open>IS_MONOTONIC n req \<longleftrightarrow> h + k \<le> n\<close> h_def [symmetric] k_def [symmetric])
    have "\<not> HAS_GAP n req" using mono n by (simp add: HAS_GAP_def HASH_SPAN_def HASH_COUNT_def e k_def [symmetric])
    then show ?thesis
      using hash_asc_run [of h "h + k" n req] next_plain n mono e stop [of "h + k"] by (simp add: for_each_req_hash_asc_def)
  next
    case all
    have e: "MIN_HASH n req = 0" "MAX_HASH n req = n - 1"
      using all n mono by (simp_all add: MIN_HASH_def MAX_HASH_def mod_if)
    have "\<not> HAS_GAP n req" using all n by (simp add: HAS_GAP_def HASH_SPAN_def HASH_COUNT_def e k_def [symmetric])
    then show ?thesis
      using hash_asc_run [of 0 n n req] next_plain n all e stop [of n] by (simp add: for_each_req_hash_asc_def)
  next
    case gap
    have e: "MIN_HASH n req = 0" "MAX_HASH n req = n - 1"
      using gap n mono by (simp_all add: MIN_HASH_def MAX_HASH_def mod_if)
    define g where "g = h + k - n - 1"
    have g: "GAP_START n req = g" "g < h" using last gap n by (auto simp: GAP_START_def k_def [symmetric] g_def mod_if)
    have gv: "HAS_GAP n req" "GAP_VAL n req = n - k"
      using gap n by (simp_all add: HAS_GAP_def GAP_VAL_def HASH_SPAN_def HASH_COUNT_def e k_def [symmetric] mod_if)
    have jump: "HASH_NEXT n req g = h" using g gv gap n by (auto simp: HASH_NEXT_def g_def)
    have "hash_asc_loop n req 0 = do { hs \<leftarrow> hash_asc_loop n req g; Some ([0..<g] @ hs) }"
      using g n e next_plain by (intro hash_asc_run) auto
    moreover have "hash_asc_loop n req g = do { hs \<leftarrow> hash_asc_loop n req h; Some (g # hs) }"
      using g n e jump by (subst hash_asc_loop.simps) auto
    moreover have "hash_asc_loop n req h = do { hs \<leftarrow> hash_asc_loop n req n; Some ([h..<n] @ hs) }"
      using g n e next_plain by (intro hash_asc_run) auto
    moreover have "[0..<g] @ [g] = [0..<h + k - n]" 
    proof -
      have "h + k - n = Suc g" using gap by (simp add: g_def)
      then show ?thesis by simp
    qed
    ultimately show ?thesis using e gap n stop [of n] by (simp add: for_each_req_hash_asc_def)
  qed
qed

lemma wrapped_interval:
  fixes h k n :: nat
  assumes "h < n" and "0 < k"
  shows "(\<lambda>i. (h + i) mod n) ` {..<k} =
    set (if h + k \<le> n then [h..<h + k] else if n \<le> k then [0..<n] else [0..<h + k - n] @ [h..<n])"
    (is "?f ` _ = set ?xs")
proof (rule set_eqI)
  fix x
  have up: "?f (x + n - h) = x" "h \<le> x \<Longrightarrow> ?f (x - h) = x" if "x < n" using that assms(1) by simp_all
  have lt: "?f i < n" for i using assms by simp
  show "x \<in> ?f ` {..<k} \<longleftrightarrow> x \<in> set ?xs"
  proof
    assume "x \<in> set ?xs"
    then have "x < n \<and> (if h \<le> x \<and> x - h < k then ?f (x - h) = x else x + n - h < k \<and> ?f (x + n - h) = x)"
      using up assms by (auto split: if_splits)
    then show "x \<in> ?f ` {..<k}" by (metis (no_types, lifting) image_eqI lessThan_iff)
  next
    assume "x \<in> ?f ` {..<k}"
    then obtain i where i: "i < k" "x = ?f i" by auto
    show "x \<in> set ?xs"
    proof (cases "n \<le> k")
      case True
      then have "x < n" using i(2) lt by simp
      then show ?thesis using assms True by (auto split: if_splits)
    next
      case False
      then have "x = (if h + i < n then h + i else h + i - n)" using i assms(1) by (simp add: mod_if)
      then show ?thesis using i(1) assms False by (auto split: if_splits)
    qed
  qed
qed

text \<open>
  Walking over the buckets of a request visits exactly the buckets of its core lines, each once and in ascending order, although
  the macros compute them from the first and the last hash alone: it is the sorted list of the set of its hashes, also when the hashes
  wrap around at the end of the table or cover it several times. The request is any one whose hashes were computed, while the number
  of buckets plus its length fits 32 bits and its last core line is at least \<open>2\<^sup>3\<^sup>2\<close> below the end of the 64 bit range.
\<close>

theorem hash_walk_sorted:
  assumes "rq_map r = Some m" and "rq_core_line_count r \<le> length m" and "0 < hash_table_entries c" and "0 < rq_core_line_count r"
    and "hash_table_entries c + rq_core_line_count r < U32_MOD"
    and "rq_core_line_first r + rq_core_line_count r + U32_MOD \<le> U64_MOD"
    and "ocf_req_hash c r = Some req"
  shows "for_each_req_hash_asc (hash_table_entries c) req = Some (sorted_list_of_set (mi_hash ` set (take (rq_core_line_count req) (the (rq_map req)))))"
proof -
  let ?n = "hash_table_entries c" and ?k = "rq_core_line_count req" and ?h = "req_hash req 0"
  let ?xs = "if ?h + ?k \<le> ?n then [?h..<?h + ?k] else if ?n \<le> ?k then [0..<?n] else [0..<?h + ?k - ?n] @ [?h..<?n]"
  have hashed: "req_hashed c req" by (rule req_hashed_by_req_hash [OF assms])
  have len: "?k \<le> length (the (rq_map req))" using assms(7) req_hash_map [OF assms(1,2)] by auto
  have "mi_hash ` set (take ?k (the (rq_map req))) = req_hash req ` {..<?k}"
    using len by (simp add: nth_image [symmetric] lessThan_atLeast0 image_image req_hash_def)
  moreover have "req_hash req ` {..<?k} = (\<lambda>i. (?h + i) mod ?n) ` {..<?k}"
    using hashed unfolding req_hashed_def by (intro image_cong refl) blast
  moreover have b: "?h < ?n" "0 < ?k" using hashed unfolding req_hashed_def by blast+
  ultimately have "mi_hash ` set (take ?k (the (rq_map req))) = (\<lambda>i. (?h + i) mod ?n) ` {..<?k}" by simp
  moreover have "for_each_req_hash_asc ?n req = Some ?xs" by (rule hash_asc_shapes [OF hashed])
  moreover have "sorted ?xs" "distinct ?xs" using b by (auto simp: sorted_append)
  ultimately show ?thesis
    using wrapped_interval [OF b] by (simp only: sorted_list_of_set.idem_if_sorted_distinct)
qed

subsection \<open>Threads\<close>

type_synonym locks = "mlock \<Rightarrow> rwsem"

text \<open>
  The functions that do not wait; thread \<open>t\<close> gets the lock or not. The attempt of the environment
  (\<^verbatim>\<open>env_rwsem_down_write_trylock\<close>) returns 0 when it has got the lock.
\<close>

definition down_trylock :: "nat \<Rightarrow> mlock \<Rightarrow> access \<Rightarrow> locks \<Rightarrow> int \<times> locks" where
  "down_trylock t l rw s = (if can_down rw (s l) then (0, s(l := sem_down t rw (s l))) else (- OCF_ERR_NO_LOCK, s))"

definition ocf_metadata_try_start_exclusive_access :: "nat \<Rightarrow> locks \<Rightarrow> int \<times> locks" where
  "ocf_metadata_try_start_exclusive_access t s = down_trylock t GlobalLock OCF_METADATA_WR s"

definition ocf_metadata_try_start_shared_access :: "nat \<Rightarrow> locks \<Rightarrow> int \<times> locks" where
  "ocf_metadata_try_start_shared_access t s = down_trylock t GlobalLock OCF_METADATA_RD s"

definition ocf_metadata_hash_try_lock :: "nat \<Rightarrow> nat \<Rightarrow> nat \<Rightarrow> access \<Rightarrow> locks \<Rightarrow> (int \<times> locks) option" where
  "ocf_metadata_hash_try_lock t n hash rw s = do {
     bug_on (hash \<ge> n);
     let (result, s) = down_trylock t (HashLock hash) rw s;
     Some (if result = 0 then -1 else 0, s) }"

text \<open>
  Threads run their lists of operations interleaved; a thread whose next operation is \<^const>\<open>Down\<close> waits while the lock cannot be
  taken.
\<close>

inductive ml_step :: "locks \<times> lock_op list list \<Rightarrow> locks \<times> lock_op list list \<Rightarrow> bool" where
  down: "t < length ps \<Longrightarrow> ps ! t = Down l rw # p \<Longrightarrow> can_down rw (s l) \<Longrightarrow>
    ml_step (s, ps) (s(l := sem_down t rw (s l)), ps[t := p])"
| up: "t < length ps \<Longrightarrow> ps ! t = Up l rw # p \<Longrightarrow> ml_step (s, ps) (s(l := sem_up t rw (s l)), ps[t := p])"

inductive_cases ml_stepE: "ml_step (s, ps) s'"

text \<open>
  A list of operations keeps the order of locks when every lock is taken above all locks held, nothing is given back that is not
  held, and nothing is held at its end.
\<close>

fun ordered_ops :: "(mlock \<times> access) set \<Rightarrow> lock_op list \<Rightarrow> bool" where
  "ordered_ops H [] = (H = {})"
| "ordered_ops H (Down l rw # p) = ((\<forall>(l', _) \<in> H. l' < l) \<and> ordered_ops (insert (l, rw) H) p)"
| "ordered_ops H (Up l rw # p) = ((l, rw) \<in> H \<and> ordered_ops (H - {(l, rw)}) p)"

definition holds :: "locks \<Rightarrow> nat \<Rightarrow> (mlock \<times> access) set" where
  "holds s t = {(l, OCF_METADATA_RD) | l. t \<in> set (rs_readers (s l))} \<union> {(l, OCF_METADATA_WR) | l. rs_writer (s l) = Some t}"

definition locks_ok :: "locks \<times> lock_op list list \<Rightarrow> bool" where
  "locks_ok = (\<lambda>(s, ps).
     (\<forall>t < length ps. ordered_ops (holds s t) (ps ! t)) \<and>
     (\<forall>l. distinct (rs_readers (s l)) \<and> set (rs_readers (s l)) \<subseteq> {..<length ps} \<and>
        (\<forall>t. rs_writer (s l) = Some t \<longrightarrow> t < length ps \<and> rs_readers (s l) = [])))"

lemma holds_upd:
  "holds (s(l := x)) t = {(l', rw) \<in> holds s t. l' \<noteq> l} \<union> (if t \<in> set (rs_readers x) then {(l, OCF_METADATA_RD)} else {}) \<union>
     (if rs_writer x = Some t then {(l, OCF_METADATA_WR)} else {})"
  by (auto simp: holds_def)

lemma locks_ok_step:
  assumes "ml_step (s, ps) (s', ps')" and "locks_ok (s, ps)"
  shows "locks_ok (s', ps')"
  using assms(1)
proof (cases rule: ml_step.cases)
  case (down t l rw p)
  have o: "ordered_ops (holds s u) (ps ! u)" if "u < length ps" for u using that assms(2) by (simp add: locks_ok_def)
  have notin: "(l, a) \<notin> holds s t" for a using o [OF down(3)] down(4) by fastforce
  have h: "holds s' u = (if u = t then insert (l, rw) (holds s t) else holds s u)" for u
    using down(5) notin assms(2) unfolding down(1) holds_upd by (cases rw) (auto simp: holds_def locks_ok_def)
  have "ordered_ops (holds s' u) (ps' ! u)" if "u < length ps" for u
    using o [OF that] that down(4) by (cases "u = t") (simp_all add: h down(2))
  moreover have "t \<notin> set (rs_readers (s l))" using notin [of OCF_METADATA_RD] by (simp add: holds_def)
  ultimately show ?thesis
    using assms(2) down(3,5) by (cases rw) (auto simp: locks_ok_def down(1,2))
next
  case (up t l rw p)
  have o: "ordered_ops (holds s u) (ps ! u)" if "u < length ps" for u using that assms(2) by (simp add: locks_ok_def)
  have "(l, rw) \<in> holds s t" using o [OF up(3)] up(4) by simp
  then have h: "holds s' u = (if u = t then holds s t - {(l, rw)} else holds s u)" for u
    using assms(2) unfolding up(1) holds_upd by (cases rw) (auto simp: holds_def locks_ok_def)
  have "ordered_ops (holds s' u) (ps' ! u)" if "u < length ps" for u
    using o [OF that] that up(4) by (cases "u = t") (simp_all add: h up(2))
  then show ?thesis
    using assms(2) by (cases rw) (auto simp: locks_ok_def up(1,2) dest: notin_set_remove1 intro: distinct_remove1 set_remove1_subset [THEN subsetD])
qed

text \<open>The thread that waits for the highest lock is not blocked: whoever holds that lock waits for a higher one or for none.\<close>

lemma locks_progress:
  assumes ok: "locks_ok (s, ps)" and "t < length ps" and "ps ! t \<noteq> []"
  shows "\<exists>s'. ml_step (s, ps) s'"
proof (rule ccontr)
  assume stuck: "\<nexists>s'. ml_step (s, ps) s'"
  let ?W = "{l. \<exists>u < length ps. \<exists>rw p. ps ! u = Down l rw # p}"
  have waits: "\<exists>l rw p. ps ! u = Down l rw # p \<and> \<not> can_down rw (s l)" if w: "u < length ps" "ps ! u \<noteq> []" for u
  proof -
    obtain op p where "ps ! u = op # p" using w(2) by (cases "ps ! u") auto
    then show ?thesis using stuck w(1) by (cases op) (auto intro: ml_step.intros)
  qed
  have "?W \<subseteq> (\<lambda>u. case ps ! u of Down l _ # _ \<Rightarrow> l | _ \<Rightarrow> GlobalLock) ` {..<length ps}" by force
  then have fin: "finite ?W" using finite_surj by blast
  define l where "l = Max ?W"
  have "?W \<noteq> {}" using waits [OF assms(2,3)] assms(2) by blast
  then have "l \<in> ?W" unfolding l_def using fin by (rule Max_in [rotated])
  then obtain u rw p where u: "u < length ps" "ps ! u = Down l rw # p" by blast
  then have "\<not> can_down rw (s l)" using waits [OF u(1)] by auto
  then have "(\<exists>v. rs_writer (s l) = Some v) \<or> (\<exists>v. v \<in> set (rs_readers (s l)))"
    by (cases rw) (auto simp: neq_Nil_conv)
  then obtain v a where v: "(l, a) \<in> holds s v" "v < length ps"
    using ok unfolding locks_ok_def holds_def by fast
  have o: "ordered_ops (holds s v) (ps ! v)" using ok v(2) by (simp add: locks_ok_def)
  then have "ps ! v \<noteq> []" using v(1) by auto
  then obtain l' rw' p' where l': "ps ! v = Down l' rw' # p'" using waits [OF v(2)] by blast
  then have "l < l'" using o v(1) by auto
  moreover have "l' \<le> l" unfolding l_def using l' v(2) fin by (intro Max_ge) auto
  ultimately show False by simp
qed

subsection \<open>What the threads of the cache do\<close>

text \<open>Accesses to pages of the collision table, one after the other.\<close>

inductive page_ops :: "lock_op list \<Rightarrow> bool" where
  none: "page_ops []"
| shared: "page_ops p \<Longrightarrow> page_ops (ocf_collision_start_shared_access pg @ ocf_collision_end_shared_access pg @ p)"
| exclusive: "page_ops p \<Longrightarrow> page_ops (ocf_collision_start_exclusive_access pg @ ocf_collision_end_exclusive_access pg @ p)"

text \<open>
  The critical sections of the code: the global lock for exclusive or shared access, the bucket of a single line, and the buckets of a
  request for reading, for writing, or first for reading and then upgraded. Pages are accessed inside of them.
\<close>

inductive section_ops :: "coll_meta \<Rightarrow> lock_op list \<Rightarrow> bool" for c where
  exclusive: "page_ops p \<Longrightarrow> section_ops c (ocf_metadata_start_exclusive_access @ p @ ocf_metadata_end_exclusive_access)"
| shared: "page_ops p \<Longrightarrow> section_ops c (ocf_metadata_start_shared_access @ p @ ocf_metadata_end_shared_access)"
| line_rd: "ocf_metadata_hash_lock_rd c cid line = Some a \<Longrightarrow> page_ops p \<Longrightarrow> ocf_metadata_hash_unlock_rd c cid line = Some b \<Longrightarrow>
    section_ops c (a @ p @ b)"
| line_wr: "ocf_metadata_hash_lock_wr c cid line = Some a \<Longrightarrow> page_ops p \<Longrightarrow> ocf_metadata_hash_unlock_wr c cid line = Some b \<Longrightarrow>
    section_ops c (a @ p @ b)"
| req_rd: "req_hashed c req \<Longrightarrow> ocf_req_hash_lock_rd (hash_table_entries c) req = Some a \<Longrightarrow> page_ops p \<Longrightarrow>
    ocf_req_hash_unlock_rd (hash_table_entries c) req = Some b \<Longrightarrow> section_ops c (a @ p @ b)"
| req_wr: "req_hashed c req \<Longrightarrow> ocf_req_hash_lock_wr (hash_table_entries c) req = Some a \<Longrightarrow> page_ops p \<Longrightarrow>
    ocf_req_hash_unlock_wr (hash_table_entries c) req = Some b \<Longrightarrow> section_ops c (a @ p @ b)"
| req_upgrade: "req_hashed c req \<Longrightarrow> ocf_req_hash_lock_rd (hash_table_entries c) req = Some a \<Longrightarrow> page_ops p \<Longrightarrow>
    ocf_req_hash_lock_upgrade (hash_table_entries c) req = Some u \<Longrightarrow> page_ops q \<Longrightarrow>
    ocf_req_hash_unlock_wr (hash_table_entries c) req = Some b \<Longrightarrow> section_ops c (a @ p @ u @ q @ b)"

lemma ordered_append_page:
  assumes "page_ops p" and "\<forall>(l, _) \<in> H. \<forall>pg. l < PageLock pg"
  shows "ordered_ops H (p @ rest) \<longleftrightarrow> ordered_ops H rest"
  using assms
proof (induction p)
  case (shared p pg)
  then have "(PageLock pg, OCF_METADATA_RD) \<notin> H" by fastforce
  then show ?case using shared by (auto simp: ocf_collision_start_shared_access_def ocf_collision_end_shared_access_def)
next
  case (exclusive p pg)
  then have "(PageLock pg, OCF_METADATA_WR) \<notin> H" by fastforce
  then show ?case using exclusive by (auto simp: ocf_collision_start_exclusive_access_def ocf_collision_end_exclusive_access_def)
qed simp

lemma each_hash_map:
  assumes "req_hashed c req" and "\<And>h. h < hash_table_entries c \<Longrightarrow> f h = Some [g h]"
  shows "\<exists>hs. sorted_wrt (<) hs \<and> each_hash (hash_table_entries c) req f = Some (map g hs) \<and>
    for_each_req_hash_asc (hash_table_entries c) req = Some hs \<and> (\<forall>h \<in> set hs. h < hash_table_entries c)"
proof -
  have f: "fold_opt (\<lambda>h ops. do { l \<leftarrow> f h; Some (ops @ l) }) hs ops = Some (ops @ map g hs)"
    if "\<forall>h \<in> set hs. h < hash_table_entries c" for hs ops
    using that by (induction hs arbitrary: ops) (simp_all add: assms(2))
  have "req_hash req 0 < hash_table_entries c" using assms(1) unfolding req_hashed_def by blast
  then have "\<exists>hs. for_each_req_hash_asc (hash_table_entries c) req = Some hs \<and>
      (\<forall>h \<in> set hs. h < hash_table_entries c) \<and> sorted_wrt (<) hs"
    unfolding hash_asc_shapes [OF assms(1)] by (auto simp: sorted_wrt_append)
  then obtain hs where hs: "for_each_req_hash_asc (hash_table_entries c) req = Some hs"
    "\<forall>h \<in> set hs. h < hash_table_entries c" "sorted_wrt (<) hs" by blast
  then show ?thesis using f [OF hs(2), of "[]"] by (auto simp: each_hash_def)
qed

text \<open>Taking and giving back the buckets of a request, with the global lock held.\<close>

lemma ordered_take:
  assumes "sorted_wrt (<) hs" and "\<forall>h \<in> set hs. \<forall>(l, _) \<in> H. l < HashLock h"
  shows "ordered_ops H (map (\<lambda>h. Down (HashLock h) rw) hs @ rest) \<longleftrightarrow> ordered_ops (H \<union> (\<lambda>h. (HashLock h, rw)) ` set hs) rest"
  using assms
proof (induction hs arbitrary: H)
  case (Cons h hs)
  have "ordered_ops (insert (HashLock h, rw) H) (map (\<lambda>h. Down (HashLock h) rw) hs @ rest) \<longleftrightarrow>
      ordered_ops (insert (HashLock h, rw) H \<union> (\<lambda>h. (HashLock h, rw)) ` set hs) rest"
    using Cons.prems by (intro Cons.IH) auto
  then show ?case using Cons.prems(2) by auto
qed simp

lemma ordered_give:
  assumes "distinct hs" and "\<forall>h. (HashLock h, rw) \<notin> H"
  shows "ordered_ops (H \<union> (\<lambda>h. (HashLock h, rw)) ` set hs) (map (\<lambda>h. Up (HashLock h) rw) hs @ rest) \<longleftrightarrow> ordered_ops H rest"
  using assms(1)
proof (induction hs)
  case (Cons h hs)
  have "insert (HashLock h, rw) (H \<union> (\<lambda>h. (HashLock h, rw)) ` set hs) - {(HashLock h, rw)} = H \<union> (\<lambda>h. (HashLock h, rw)) ` set hs"
    using Cons.prems assms(2) by auto
  then show ?case using Cons by simp
qed simp

lemma each_hash_lock:
  assumes "req_hashed c req"
  shows "\<exists>hs. sorted_wrt (<) hs \<and>
    (\<forall>rw. each_hash (hash_table_entries c) req (\<lambda>h. ocf_metadata_hash_lock (hash_table_entries c) h rw) =
        Some (map (\<lambda>h. Down (HashLock h) rw) hs) \<and>
      each_hash (hash_table_entries c) req (\<lambda>h. ocf_metadata_hash_unlock (hash_table_entries c) h rw) =
        Some (map (\<lambda>h. Up (HashLock h) rw) hs))"
proof -
  obtain hs where hs: "for_each_req_hash_asc (hash_table_entries c) req = Some hs" "sorted_wrt (<) hs"
    using each_hash_map [OF assms, of "\<lambda>h. Some [Down (HashLock h) OCF_METADATA_RD]" "\<lambda>h. Down (HashLock h) OCF_METADATA_RD"] by auto
  have "each_hash (hash_table_entries c) req (\<lambda>h. ocf_metadata_hash_lock (hash_table_entries c) h rw) =
      Some (map (\<lambda>h. Down (HashLock h) rw) hs)" for rw
    using each_hash_map [OF assms, of "\<lambda>h. ocf_metadata_hash_lock (hash_table_entries c) h rw" "\<lambda>h. Down (HashLock h) rw"] hs(1)
    by (auto simp: ocf_metadata_hash_lock_def)
  moreover have "each_hash (hash_table_entries c) req (\<lambda>h. ocf_metadata_hash_unlock (hash_table_entries c) h rw) =
      Some (map (\<lambda>h. Up (HashLock h) rw) hs)" for rw
    using each_hash_map [OF assms, of "\<lambda>h. ocf_metadata_hash_unlock (hash_table_entries c) h rw" "\<lambda>h. Up (HashLock h) rw"] hs(1)
    by (auto simp: ocf_metadata_hash_unlock_def)
  ultimately show ?thesis using hs(2) by blast
qed

lemmas global_ops = ocf_metadata_start_shared_access_def ocf_metadata_end_shared_access_def
  ocf_metadata_start_exclusive_access_def ocf_metadata_end_exclusive_access_def

lemmas line_ops = ocf_metadata_hash_lock_rd_def ocf_metadata_hash_lock_wr_def ocf_metadata_hash_unlock_rd_def
  ocf_metadata_hash_unlock_wr_def ocf_metadata_hash_lock_def ocf_metadata_hash_unlock_def

lemmas req_ops = ocf_req_hash_lock_rd_def ocf_req_hash_lock_wr_def ocf_req_hash_unlock_rd_def ocf_req_hash_unlock_wr_def
  ocf_req_hash_lock_upgrade_def

lemma ordered_region:
  assumes "page_ops p" and "sorted_wrt (<) hs"
  shows "ordered_ops {(GlobalLock, OCF_METADATA_RD)}
      (map (\<lambda>h. Down (HashLock h) rw) hs @ p @ map (\<lambda>h. Up (HashLock h) rw) hs @ rest) \<longleftrightarrow>
    ordered_ops {(GlobalLock, OCF_METADATA_RD)} rest"
proof -
  let ?G = "{(GlobalLock, OCF_METADATA_RD)}"
  let ?H = "?G \<union> (\<lambda>h. (HashLock h, rw)) ` set hs"
  have "ordered_ops ?G (map (\<lambda>h. Down (HashLock h) rw) hs @ p @ map (\<lambda>h. Up (HashLock h) rw) hs @ rest) \<longleftrightarrow>
      ordered_ops ?H (p @ map (\<lambda>h. Up (HashLock h) rw) hs @ rest)"
    by (rule ordered_take [OF assms(2)]) simp
  also have "\<dots> \<longleftrightarrow> ordered_ops ?H (map (\<lambda>h. Up (HashLock h) rw) hs @ rest)"
    by (rule ordered_append_page [OF assms(1)]) auto
  also have "\<dots> \<longleftrightarrow> ordered_ops ?G rest"
    using assms(2) by (intro ordered_give) (simp_all add: strict_sorted_iff)
  finally show ?thesis .
qed

lemma section_ordered:
  assumes "section_ops c sec"
  shows "ordered_ops {} (sec @ rest) \<longleftrightarrow> ordered_ops {} rest"
  using assms
proof cases
  case (req_rd req a p b)
  obtain hs where hs: "sorted_wrt (<) hs" "a = Down GlobalLock OCF_METADATA_RD # map (\<lambda>h. Down (HashLock h) OCF_METADATA_RD) hs"
      "b = map (\<lambda>h. Up (HashLock h) OCF_METADATA_RD) hs @ [Up GlobalLock OCF_METADATA_RD]"
    using each_hash_lock [OF req_rd(2)] req_rd by (auto simp: req_ops global_ops)
  show ?thesis unfolding req_rd(1) hs by (simp add: ordered_region [OF req_rd(4) hs(1)])
next
  case (req_wr req a p b)
  obtain hs where hs: "sorted_wrt (<) hs" "a = Down GlobalLock OCF_METADATA_RD # map (\<lambda>h. Down (HashLock h) OCF_METADATA_WR) hs"
      "b = map (\<lambda>h. Up (HashLock h) OCF_METADATA_WR) hs @ [Up GlobalLock OCF_METADATA_RD]"
    using each_hash_lock [OF req_wr(2)] req_wr by (auto simp: req_ops global_ops)
  show ?thesis unfolding req_wr(1) hs by (simp add: ordered_region [OF req_wr(4) hs(1)])
next
  case (req_upgrade req a p u q b)
  obtain hs where hs: "sorted_wrt (<) hs" "a = Down GlobalLock OCF_METADATA_RD # map (\<lambda>h. Down (HashLock h) OCF_METADATA_RD) hs"
      "u = map (\<lambda>h. Up (HashLock h) OCF_METADATA_RD) hs @ map (\<lambda>h. Down (HashLock h) OCF_METADATA_WR) hs"
      "b = map (\<lambda>h. Up (HashLock h) OCF_METADATA_WR) hs @ [Up GlobalLock OCF_METADATA_RD]"
    using each_hash_lock [OF req_upgrade(2)] req_upgrade by (auto simp: req_ops global_ops)
  show ?thesis unfolding req_upgrade(1) hs
    by (simp add: ordered_region [OF req_upgrade(4) hs(1)] ordered_region [OF req_upgrade(6) hs(1)])
qed (auto simp: global_ops line_ops ordered_append_page Let_def bind_eq_Some_conv split: if_splits)

lemma sections_ordered:
  "\<forall>sec \<in> set secs. section_ops c sec \<Longrightarrow> ordered_ops {} (concat secs)"
  by (induction secs) (auto simp: section_ordered [of c])

lemma ml_step_shorter: "ml_step (s, ps) (s', ps') \<Longrightarrow> length ps' = length ps \<and> Suc (sum_list (map length ps')) = sum_list (map length ps)"
proof -
  assume st: "ml_step (s, ps) (s', ps')"
  have le: "length (ps ! t) \<le> sum_list (map length ps)" if "t < length ps" for t
    using that elem_le_sum_list [of t "map length ps"] by simp
  show ?thesis using st by cases (use le in \<open>fastforce simp: map_update sum_list_update\<close>)+
qed

text \<open>
  C30. The locks of the metadata are free of deadlock. Any number of threads run any sequences of critical sections (the global lock,
  the bucket of a line, the buckets of a request for reading, for writing, or upgraded from the one to the other, with accesses to
  collision pages inside), interleaved in any way. Whatever has happened after \<open>k\<close> steps, either a thread can go on, or all threads
  have finished and all locks are free; and this happens at last, since \<open>k\<close> never exceeds the number of operations of the threads.
  A lock held by a writer is held by nobody else.
\<close>

theorem metadata_locks_no_deadlock:
  assumes "\<forall>p \<in> set ps. \<exists>secs. p = concat secs \<and> (\<forall>sec \<in> set secs. section_ops c sec)"
    and "(ml_step ^^ k) (\<lambda>_. rwsem_free, ps) (s, ps')"
  shows "((\<exists>s'. ml_step (s, ps') s') \<or> (\<forall>p \<in> set ps'. p = []) \<and> s = (\<lambda>_. rwsem_free)) \<and>
    k \<le> sum_list (map length ps) \<and> (\<forall>l. rs_writer (s l) \<noteq> None \<longrightarrow> rs_readers (s l) = [])"
proof -
  have start: "locks_ok (\<lambda>_. rwsem_free, ps)"
  proof -
    have "ordered_ops {} (ps ! t)" if t: "t < length ps" for t
    proof -
      obtain secs where "ps ! t = concat secs" "\<forall>sec \<in> set secs. section_ops c sec" using assms(1) nth_mem [OF t] by blast
      then show ?thesis using sections_ordered by simp
    qed
    then show ?thesis by (simp add: locks_ok_def holds_def rwsem_free_def)
  qed
  have run: "locks_ok (s, ps') \<and> k + sum_list (map length ps') = sum_list (map length ps)"
    using assms(2)
  proof (induction k arbitrary: s ps')
    case (Suc k)
    then show ?case using locks_ok_step ml_step_shorter by fastforce
  qed (simp add: start)
  have "s l = rwsem_free" if fin: "\<forall>p \<in> set ps'. p = []" for l
  proof -
    have "holds s t = {}" if t: "t < length ps'" for t
    proof -
      have "ps' ! t = []" using fin nth_mem [OF t] by simp
      moreover have "ordered_ops (holds s t) (ps' ! t)" using run t by (simp add: locks_ok_def)
      ultimately show ?thesis by simp
    qed
    then have none: "t \<notin> set (rs_readers (s l)) \<and> rs_writer (s l) \<noteq> Some t" if "t < length ps'" for t
      using that by (auto simp: holds_def)
    have "set (rs_readers (s l)) \<subseteq> {..<length ps'}" "\<forall>t. rs_writer (s l) = Some t \<longrightarrow> t < length ps'"
      using run by (auto simp: locks_ok_def)
    then have "set (rs_readers (s l)) = {} \<and> rs_writer (s l) = None"
      using none by (metis subset_eq lessThan_iff ex_in_conv not_Some_eq)
    then show ?thesis by (cases "s l") (simp add: rwsem_free_def)
  qed
  moreover have "(\<exists>s'. ml_step (s, ps') s') \<or> (\<forall>p \<in> set ps'. p = [])"
    using locks_progress run by (metis in_set_conv_nth)
  ultimately show ?thesis using run by (auto simp: locks_ok_def)
qed

text \<open>Two requests that wrap around a table of five buckets: one has the buckets 3, 4, 0, the other one 4, 0, 1, 2.\<close>

definition hash_example :: coll_meta where
  "hash_example = \<lparr>collision_table_entries = 8, hash_table_entries = 5, hash_tbl = \<lambda>_. 8, next_col = \<lambda>_. 8, prev_col = \<lambda>_. 8,
     coll_core_id = \<lambda>_. OCF_CORE_MAX, coll_core_line = \<lambda>_. 0\<rparr>"

definition hash_example_req :: "nat \<Rightarrow> nat \<Rightarrow> ocf_request" where
  "hash_example_req first count = request_zero\<lparr>rq_core_line_first := first, rq_core_line_count := count,
     rq_map := Some (replicate 4 map_info_zero)\<rparr>"

theorem hash_walk_sorted_witness:
  "\<exists>req. ocf_req_hash hash_example (hash_example_req 3 3) = Some req \<and>
     for_each_req_hash_asc 5 req = Some (sorted_list_of_set {3, 4, 0})"
proof -
  let ?r = "hash_example_req 3 3" and ?m = "replicate 4 map_info_zero"
  have m: "rq_map ?r = Some ?m" "rq_core_line_count ?r \<le> length ?m" by (simp_all add: hash_example_req_def)
  define req where "req = the (ocf_req_hash hash_example ?r)"
  have req: "ocf_req_hash hash_example ?r = Some req" using req_hash_map [OF m, of hash_example] by (simp add: req_def)
  have n: "rq_core_line_count req = 3" and map: "the (rq_map req) =
      map (\<lambda>i. (?m ! i)\<lparr>mi_hash := ocf_metadata_hash_func hash_example ((3 + i) mod U64_MOD) 0\<rparr>) [0..<3] @ drop 3 ?m"
    using req_hash_map [OF m, of hash_example] by (simp_all add: req_def hash_example_req_def request_zero_def)
  have "mi_hash ` set (take 3 (the (rq_map req))) = {3, 4, 0}"
    unfolding map by (simp add: ocf_metadata_hash_func_def hash_example_def upt_conv_Cons insert_commute)
  then show ?thesis
    using hash_walk_sorted [OF m _ _ _ _ req] req n by (simp add: hash_example_def hash_example_req_def)
qed

text \<open>A thread that locks the three buckets of a request for writing waits for one that has the global lock; that one goes on.\<close>

theorem metadata_locks_no_deadlock_witness:
  "\<exists>req a b s'. ocf_req_hash hash_example (hash_example_req 3 3) = Some req \<and> ocf_req_hash_lock_wr 5 req = Some a \<and>
     ocf_req_hash_unlock_wr 5 req = Some b \<and>
     ml_step ((\<lambda>_. rwsem_free)(GlobalLock := \<lparr>rs_readers = [], rs_writer = Some 1\<rparr>), [a @ b, [Up GlobalLock OCF_METADATA_WR]]) s'"
proof -
  let ?r = "hash_example_req 3 3" and ?m = "replicate 4 map_info_zero" and ?c = "hash_example"
  have m: "rq_map ?r = Some ?m" "rq_core_line_count ?r \<le> length ?m" by (simp_all add: hash_example_req_def)
  obtain req where req: "ocf_req_hash ?c ?r = Some req" using req_hash_map [OF m] by blast
  have hashed: "req_hashed ?c req"
    by (rule req_hashed_by_req_hash [OF m _ _ _ _ req]) (simp_all add: hash_example_def hash_example_req_def)
  obtain a b where ab: "ocf_req_hash_lock_wr 5 req = Some a" "ocf_req_hash_unlock_wr 5 req = Some b"
    using each_hash_lock [OF hashed] by (auto simp: req_ops hash_example_def)
  let ?ps = "[a @ b, ocf_metadata_start_exclusive_access @ ocf_metadata_end_exclusive_access]"
  have "section_ops ?c (a @ [] @ b)"
    using ab by (intro section_ops.req_wr [OF hashed] page_ops.none) (simp_all add: hash_example_def)
  moreover have "section_ops ?c (ocf_metadata_start_exclusive_access @ [] @ ocf_metadata_end_exclusive_access)"
    by (intro section_ops.exclusive page_ops.none)
  ultimately have secs: "\<forall>p \<in> set ?ps. \<exists>secs. p = concat secs \<and> (\<forall>sec \<in> set secs. section_ops ?c sec)"
    by (auto intro: exI [of _ "[x]" for x])
  have "(ml_step ^^ 1) (\<lambda>_. rwsem_free, ?ps)
      ((\<lambda>_. rwsem_free)(GlobalLock := \<lparr>rs_readers = [], rs_writer = Some 1\<rparr>), [a @ b, [Up GlobalLock OCF_METADATA_WR]])"
    using ml_step.down [of 1 ?ps GlobalLock OCF_METADATA_WR "[Up GlobalLock OCF_METADATA_WR]" "\<lambda>_. rwsem_free"]
    by (simp add: global_ops rwsem_free_def eq_OO)
  from metadata_locks_no_deadlock [OF secs this] show ?thesis using req ab by fastforce
qed

end
