(* ===== verification/Pipeline.thy ===== *)
theory Pipeline
  imports Request
begin

section \<open>Pipelines\<close>

text \<open>
  \<^verbatim>\<open>src/utils/utils_pipeline.c\<close>: management operations are tables of steps, which run one after the other on the management queue. A
  step calls its handler; the handler, at once or from a completion, lets the pipeline go on (\<^verbatim>\<open>ocf_pipeline_next\<close>) or finishes it with
  an error (\<^verbatim>\<open>ocf_pipeline_finish\<close>), which puts the request of the pipeline on the queue again: \<open>pl_pushed\<close> counts how often it is there.
  Handlers are numbers here; what a call of
  a handler answers is a parameter of a run.
\<close>

subsection \<open>Tables of steps\<close>

datatype pipeline_arg =
  ocf_pipeline_arg_none | ocf_pipeline_arg_int int | ocf_pipeline_arg_ptr nat | ocf_pipeline_arg_terminator

definition ocf_pipeline_arg_get_int :: "pipeline_arg \<Rightarrow> int option" where
  "ocf_pipeline_arg_get_int arg = (case arg of ocf_pipeline_arg_int i \<Rightarrow> Some i | _ \<Rightarrow> None)"

definition ocf_pipeline_arg_get_ptr :: "pipeline_arg \<Rightarrow> nat option" where
  "ocf_pipeline_arg_get_ptr arg = (case arg of ocf_pipeline_arg_ptr p \<Rightarrow> Some p | _ \<Rightarrow> None)"

datatype pipeline_step =
  ocf_pipeline_step_single nat pipeline_arg
| ocf_pipeline_step_foreach nat "pipeline_arg list"
| ocf_pipeline_step_terminator

definition OCF_PL_STEP :: "nat \<Rightarrow> pipeline_step" where
  "OCF_PL_STEP hndl = ocf_pipeline_step_single hndl ocf_pipeline_arg_none"

definition OCF_PL_STEP_ARG_INT :: "nat \<Rightarrow> int \<Rightarrow> pipeline_step" where
  "OCF_PL_STEP_ARG_INT hndl i = ocf_pipeline_step_single hndl (ocf_pipeline_arg_int i)"

definition OCF_PL_STEP_ARG_PTR :: "nat \<Rightarrow> nat \<Rightarrow> pipeline_step" where
  "OCF_PL_STEP_ARG_PTR hndl p = ocf_pipeline_step_single hndl (ocf_pipeline_arg_ptr p)"

definition OCF_PL_STEP_FOREACH :: "nat \<Rightarrow> pipeline_arg list \<Rightarrow> pipeline_step" where
  "OCF_PL_STEP_FOREACH hndl args = ocf_pipeline_step_foreach hndl args"

subsection \<open>Running a pipeline\<close>

record pipeline =
  pl_steps :: "pipeline_step list"
  pl_next_step :: nat
  pl_next_arg :: nat
  pl_finish :: bool
  pl_error :: int
  pl_pushed :: nat

text \<open>What a turn of the pipeline does: it calls a handler with an argument, or the callback for the end.\<close>

datatype pipeline_call = Hndl nat pipeline_arg | Finish int

text \<open>
  The loop of a turn. Reading behind the table or behind the arguments of a step is \<^const>\<open>None\<close>.
\<close>

function run_step_loop :: "pipeline \<Rightarrow> (pipeline_call \<times> pipeline) option" where
  "run_step_loop p =
     (if pl_next_step p < length (pl_steps p)
      then case pl_steps p ! pl_next_step p of
          ocf_pipeline_step_single hndl arg \<Rightarrow> Some (Hndl hndl arg, p\<lparr>pl_next_step := pl_next_step p + 1\<rparr>)
        | ocf_pipeline_step_foreach hndl args \<Rightarrow>
            if pl_next_arg p < length args
            then let arg = args ! pl_next_arg p; p = p\<lparr>pl_next_arg := pl_next_arg p + 1\<rparr>
                 in if arg = ocf_pipeline_arg_terminator
                    then run_step_loop (p\<lparr>pl_next_arg := 0, pl_next_step := pl_next_step p + 1\<rparr>)
                    else Some (Hndl hndl arg, p)
            else None
        | ocf_pipeline_step_terminator \<Rightarrow> Some (Finish (pl_error p), p)
      else None)"
  by auto
termination by (relation "measure (\<lambda>p. length (pl_steps p) - pl_next_step p)") auto

declare run_step_loop.simps [simp del]

definition ocf_pipeline_run_step :: "pipeline \<Rightarrow> (pipeline_call \<times> pipeline) option" where
  "ocf_pipeline_run_step p = (if pl_finish p then Some (Finish (pl_error p), p) else run_step_loop p)"

definition ocf_pipeline_create :: "bool \<Rightarrow> bool \<Rightarrow> pipeline_step list \<Rightarrow> int + pipeline" where
  "ocf_pipeline_create mem_ok req_ok steps =
     (if \<not> mem_ok then Inl (- OCF_ERR_NO_MEM) else if \<not> req_ok then Inl (- OCF_ERR_NO_MEM)
      else Inr \<lparr>pl_steps = steps, pl_next_step = 0, pl_next_arg = 0, pl_finish = False, pl_error = 0, pl_pushed = 0\<rparr>)"

definition ocf_pipeline_next :: "pipeline \<Rightarrow> pipeline" where
  "ocf_pipeline_next p = p\<lparr>pl_pushed := pl_pushed p + 1\<rparr>"

definition ocf_pipeline_finish :: "int \<Rightarrow> pipeline \<Rightarrow> pipeline" where
  "ocf_pipeline_finish error p = p\<lparr>pl_finish := True, pl_error := error, pl_pushed := pl_pushed p + 1\<rparr>"

definition OCF_PL_NEXT_ON_SUCCESS_RET :: "int \<Rightarrow> pipeline \<Rightarrow> pipeline" where
  "OCF_PL_NEXT_ON_SUCCESS_RET error p = (if error \<noteq> 0 then ocf_pipeline_finish error p else ocf_pipeline_next p)"

text \<open>
  A pipeline from one turn to its end, the worker of the queue running it whenever its request is there. \<open>answer i\<close> is the result of the
  \<open>i\<close>-th handler that is called, which ends as most handlers do: with an error it finishes the pipeline, with 0 it lets it go on. The
  result are the calls that were made; a pipeline that is not on the queue is stuck, which is \<^const>\<open>None\<close>.
\<close>

partial_function (option) pipeline_run :: "(nat \<Rightarrow> int) \<Rightarrow> nat \<Rightarrow> pipeline \<Rightarrow> (pipeline_call list \<times> pipeline) option" where
  "pipeline_run answer i p =
     (if pl_pushed p = 0 then None
      else do {
        (call, p) \<leftarrow> ocf_pipeline_run_step (p\<lparr>pl_pushed := pl_pushed p - 1\<rparr>);
        case call of
          Finish e \<Rightarrow> Some ([Finish e], p)
        | Hndl h a \<Rightarrow> do {
            (calls, p) \<leftarrow> pipeline_run answer (i + 1) (OCF_PL_NEXT_ON_SUCCESS_RET (answer i) p);
            Some (Hndl h a # calls, p) } })"

subsection \<open>The calls a table stands for\<close>

definition args_of :: "pipeline_arg list \<Rightarrow> pipeline_arg list" where
  "args_of args = takeWhile (\<lambda>a. a \<noteq> ocf_pipeline_arg_terminator) args"

fun step_calls :: "pipeline_step \<Rightarrow> pipeline_call list" where
  "step_calls (ocf_pipeline_step_single h a) = [Hndl h a]"
| "step_calls (ocf_pipeline_step_foreach h args) = map (Hndl h) (args_of args)"
| "step_calls ocf_pipeline_step_terminator = []"

fun table_calls :: "pipeline_step list \<Rightarrow> pipeline_call list" where
  "table_calls [] = []"
| "table_calls (s # ss) = (if s = ocf_pipeline_step_terminator then [] else step_calls s @ table_calls ss)"

definition table_ok :: "pipeline_step list \<Rightarrow> bool" where
  "table_ok steps \<longleftrightarrow> ocf_pipeline_step_terminator \<in> set steps \<and>
     (\<forall>h args. ocf_pipeline_step_foreach h args \<in> set steps \<longrightarrow> ocf_pipeline_arg_terminator \<in> set args)"

text \<open>The calls that are left when the pipeline stands before some step and argument.\<close>

definition calls_left :: "pipeline \<Rightarrow> pipeline_call list" where
  "calls_left p = (case drop (pl_next_step p) (pl_steps p) of
     ocf_pipeline_step_foreach h args # ss \<Rightarrow> map (Hndl h) (args_of (drop (pl_next_arg p) args)) @ table_calls ss
   | ss \<Rightarrow> table_calls ss)"

definition pl_ok :: "pipeline \<Rightarrow> bool" where
  "pl_ok p \<longleftrightarrow> table_ok (drop (pl_next_step p) (pl_steps p)) \<and>
     (case drop (pl_next_step p) (pl_steps p) of
        ocf_pipeline_step_foreach h args # ss \<Rightarrow> ocf_pipeline_arg_terminator \<in> set (drop (pl_next_arg p) args)
      | _ \<Rightarrow> pl_next_arg p = 0)"

lemma pushed_irrelevant [simp]:
  "pl_ok (p\<lparr>pl_pushed := n\<rparr>) = pl_ok p" "calls_left (p\<lparr>pl_pushed := n\<rparr>) = calls_left p"
  by (simp_all add: pl_ok_def calls_left_def split: list.splits pipeline_step.splits)

lemma calls_left_start:
  assumes "pl_next_arg p = 0"
  shows "calls_left p = table_calls (drop (pl_next_step p) (pl_steps p))"
    and "table_ok (drop (pl_next_step p) (pl_steps p)) \<Longrightarrow> pl_ok p"
  using assms by (auto simp: calls_left_def pl_ok_def table_ok_def split: list.splits pipeline_step.splits)

lemma table_ok_tl: "table_ok (s # ss) \<Longrightarrow> s \<noteq> ocf_pipeline_step_terminator \<Longrightarrow> table_ok ss"
  by (auto simp: table_ok_def)

lemma run_step_loop_spec:
  assumes "pl_ok p"
  shows "\<exists>p'. (case calls_left p of [] \<Rightarrow> run_step_loop p = Some (Finish (pl_error p), p')
      | c # cs \<Rightarrow> run_step_loop p = Some (c, p') \<and> pl_ok p' \<and> calls_left p' = cs \<and> (\<exists>h a. c = Hndl h a)) \<and>
    pl_finish p' = pl_finish p \<and> pl_error p' = pl_error p \<and> pl_pushed p' = pl_pushed p"
  using assms
proof (induction p rule: run_step_loop.induct)
  case (1 p)
  let ?i = "pl_next_step p" and ?k = "pl_next_arg p"
  have lt: "?i < length (pl_steps p)" using "1.prems" by (rule_tac ccontr) (simp add: pl_ok_def table_ok_def)
  then have d: "drop ?i (pl_steps p) = pl_steps p ! ?i # drop (Suc ?i) (pl_steps p)" by (simp add: Cons_nth_drop_Suc)
  show ?case
  proof (cases "pl_steps p ! ?i")
    case (ocf_pipeline_step_single h a)
    have "calls_left (p\<lparr>pl_next_step := Suc ?i\<rparr>) = table_calls (drop (Suc ?i) (pl_steps p))" "pl_ok (p\<lparr>pl_next_step := Suc ?i\<rparr>)"
      using "1.prems" d ocf_pipeline_step_single calls_left_start [of "p\<lparr>pl_next_step := Suc ?i\<rparr>"] table_ok_tl
      by (auto simp: pl_ok_def)
    then show ?thesis using lt d ocf_pipeline_step_single by (subst run_step_loop.simps) (simp add: calls_left_def)
  next
    case (ocf_pipeline_step_foreach h args)
    let ?q = "p\<lparr>pl_next_arg := 0, pl_next_step := Suc ?i\<rparr>"
    have ok: "ocf_pipeline_arg_terminator \<in> set (drop ?k args)" "table_ok (drop (Suc ?i) (pl_steps p))"
      using "1.prems" d ocf_pipeline_step_foreach table_ok_tl by (auto simp: pl_ok_def)
    then have k: "?k < length args" by (rule_tac ccontr) simp
    then have dk: "drop ?k args = args ! ?k # drop (Suc ?k) args" by (simp add: Cons_nth_drop_Suc)
    show ?thesis
    proof (cases "args ! ?k = ocf_pipeline_arg_terminator")
      case True
      have "calls_left p = calls_left ?q" "pl_ok ?q"
        using d dk ok True ocf_pipeline_step_foreach calls_left_start [of ?q] by (auto simp: calls_left_def args_of_def)
      moreover have "run_step_loop p = run_step_loop ?q"
        using lt k True ocf_pipeline_step_foreach by (subst run_step_loop.simps) (simp add: Let_def)
      ultimately show ?thesis
        using "1.IH" [OF lt ocf_pipeline_step_foreach k refl refl] True by (simp cong: list.case_cong)
    next
      case False
      then have "pl_ok (p\<lparr>pl_next_arg := Suc ?k\<rparr>)"
        "calls_left (p\<lparr>pl_next_arg := Suc ?k\<rparr>) = map (Hndl h) (args_of (drop (Suc ?k) args)) @ table_calls (drop (Suc ?i) (pl_steps p))"
        using "1.prems" ok d dk ocf_pipeline_step_foreach by (auto simp: pl_ok_def calls_left_def)
      then show ?thesis using lt d k dk False ocf_pipeline_step_foreach
        by (subst run_step_loop.simps) (simp add: calls_left_def args_of_def Let_def)
    qed
  next
    case ocf_pipeline_step_terminator
    then show ?thesis using lt d by (subst run_step_loop.simps) (simp add: calls_left_def)
  qed
qed

text \<open>The calls that are made when the handlers answer so: up to the first one that fails.\<close>

fun calls_made :: "(nat \<Rightarrow> int) \<Rightarrow> nat \<Rightarrow> pipeline_call list \<Rightarrow> pipeline_call list" where
  "calls_made answer i [] = [Finish 0]"
| "calls_made answer i (c # cs) = c # (if answer i = 0 then calls_made answer (i + 1) cs else [Finish (answer i)])"

lemma pipeline_run_finished:
  "pl_finish p \<Longrightarrow> pl_pushed p = 1 \<Longrightarrow> pipeline_run answer i p = Some ([Finish (pl_error p)], p\<lparr>pl_pushed := 0\<rparr>)"
  by (subst pipeline_run.simps) (simp add: ocf_pipeline_run_step_def)

lemma pipeline_run_spec:
  assumes "pl_ok p" and "\<not> pl_finish p" and "pl_error p = 0" and "pl_pushed p = 1"
  shows "\<exists>p'. pipeline_run answer i p = Some (calls_made answer i (calls_left p), p') \<and> pl_pushed p' = 0"
  using assms
proof (induction "calls_left p" arbitrary: p i)
  case Nil
  let ?p = "p\<lparr>pl_pushed := 0\<rparr>"
  have "pl_ok ?p" "calls_left ?p = []" using Nil by simp_all
  then obtain p' where "run_step_loop ?p = Some (Finish 0, p')" "pl_pushed p' = 0"
    using run_step_loop_spec [of ?p] Nil.prems by auto
  then show ?case using Nil by (subst pipeline_run.simps) (simp add: ocf_pipeline_run_step_def flip: Nil.hyps)
next
  case (Cons c cs)
  let ?p = "p\<lparr>pl_pushed := 0\<rparr>"
  have "pl_ok ?p" "calls_left ?p = c # cs" using Cons by simp_all
  then obtain q h a where q: "run_step_loop ?p = Some (c, q)" "pl_ok q" "calls_left q = cs" "c = Hndl h a"
      "\<not> pl_finish q" "pl_error q = 0" "pl_pushed q = 0"
    using run_step_loop_spec [of ?p] Cons.prems by auto
  have run: "pipeline_run answer i p = do {
      (calls, p) \<leftarrow> pipeline_run answer (i + 1) (OCF_PL_NEXT_ON_SUCCESS_RET (answer i) q); Some (c # calls, p) }"
    using q Cons.prems by (subst pipeline_run.simps) (simp add: ocf_pipeline_run_step_def)
  show ?case
  proof (cases "answer i = 0")
    case True
    let ?q = "q\<lparr>pl_pushed := 1\<rparr>"
    have "pl_ok ?q" "calls_left ?q = cs" using q by simp_all
    then obtain p' where "pipeline_run answer (i + 1) ?q = Some (calls_made answer (i + 1) cs, p')" "pl_pushed p' = 0"
      using Cons.hyps(1) [of ?q "i + 1"] q by auto
    then show ?thesis using True run q by (simp add: OCF_PL_NEXT_ON_SUCCESS_RET_def ocf_pipeline_next_def flip: Cons.hyps(2))
  next
    case False
    then show ?thesis using run q
      by (simp add: OCF_PL_NEXT_ON_SUCCESS_RET_def ocf_pipeline_finish_def pipeline_run_finished flip: Cons.hyps(2))
  qed
qed

text \<open>
  C39. A pipeline makes the calls of its table in order. After it is created from a well-formed table (a terminator at its end and at the
  end of every list of arguments) and started, it calls the handlers of the steps one after the other, a step over arguments once for
  each argument, until all have succeeded or the first one has failed; then it calls the callback for its end exactly once, with that
  error or with 0, stops, and its request is not on the queue any more. It never reads behind a table and never stops on its way.
\<close>

theorem pipeline_runs_in_order:
  assumes "table_ok steps" and "ocf_pipeline_create mem_ok req_ok steps = Inr p"
  shows "\<exists>p'. pipeline_run answer 0 (ocf_pipeline_next p) = Some (calls_made answer 0 (table_calls steps), p') \<and> pl_pushed p' = 0"
proof -
  have p: "p = \<lparr>pl_steps = steps, pl_next_step = 0, pl_next_arg = 0, pl_finish = False, pl_error = 0, pl_pushed = 0\<rparr>"
    using assms(2) by (simp add: ocf_pipeline_create_def split: if_splits)
  show ?thesis
    using pipeline_run_spec [of "ocf_pipeline_next p" answer 0] calls_left_start [of "ocf_pipeline_next p"] assms(1)
    by (simp add: ocf_pipeline_next_def p)
qed

text \<open>Three handlers, the second one for two arguments; the call for its second argument fails.\<close>

theorem pipeline_runs_in_order_witness:
  "\<exists>p p'. ocf_pipeline_create True True [OCF_PL_STEP 1,
       OCF_PL_STEP_FOREACH 2 [ocf_pipeline_arg_int 7, ocf_pipeline_arg_int 8, ocf_pipeline_arg_terminator],
       OCF_PL_STEP 3, ocf_pipeline_step_terminator] = Inr p \<and>
     pipeline_run (\<lambda>i. if i = 2 then - 5 else 0) 0 (ocf_pipeline_next p) =
       Some ([Hndl 1 ocf_pipeline_arg_none, Hndl 2 (ocf_pipeline_arg_int 7), Hndl 2 (ocf_pipeline_arg_int 8), Finish (- 5)], p')"
proof -
  let ?steps = "[OCF_PL_STEP 1, OCF_PL_STEP_FOREACH 2 [ocf_pipeline_arg_int 7, ocf_pipeline_arg_int 8, ocf_pipeline_arg_terminator],
    OCF_PL_STEP 3, ocf_pipeline_step_terminator]"
  obtain p where p: "ocf_pipeline_create True True ?steps = Inr p" by (simp add: ocf_pipeline_create_def)
  have "table_ok ?steps" by (auto simp: table_ok_def OCF_PL_STEP_def OCF_PL_STEP_FOREACH_def)
  from pipeline_runs_in_order [OF this p, of "\<lambda>i. if i = 2 then - 5 else 0"] p show ?thesis
    by (auto simp: OCF_PL_STEP_def OCF_PL_STEP_FOREACH_def args_of_def)
qed

end
