(* ===== verification/ALRU.thy ===== *)
theory ALRU
  imports Nhit
begin

section \<open>The ALRU cleaning policy\<close>

text \<open>
  \<^verbatim>\<open>src/cleaning/alru.c\<close>: every partition has a list of its dirty lines, the line written last first, each with the second of its last
  write. When the cache is idle the policy flushes lines that have not been written for a while, from the tails of the lists.
  The functions are given the cache, of which they only read partitions, core lines and locks, and the tick of the clock where they ask
  for it. The clock of the environment counts microseconds (\<^verbatim>\<open>env/posix/ocf_env.h\<close>).
\<close>

subsection \<open>The clock\<close>

definition env_ticks_to_msecs :: "u64 \<Rightarrow> u64" where "env_ticks_to_msecs j = j div 1000"
definition env_ticks_to_secs :: "u64 \<Rightarrow> u64" where "env_ticks_to_secs j = j div 1000000"
definition env_secs_to_ticks :: "u64 \<Rightarrow> u64" where "env_secs_to_ticks j = (j * 1000000) mod U64_MOD"

subsection \<open>The lists\<close>

record alru_policy =
  ap_size :: int
  ap_head :: cline
  ap_tail :: cline

text \<open>\<open>ar_access\<close> is \<^verbatim>\<open>cleaning_thread_access\<close>, when the policy last found nothing to clean.\<close>

record alru_state =
  ar_entries :: nat
  ar_timestamp :: "cline \<Rightarrow> nat"
  ar_prev :: "cline \<Rightarrow> cline"
  ar_next :: "cline \<Rightarrow> cline"
  ar_pol :: "part_id \<Rightarrow> alru_policy"
  ar_access :: nat

text \<open>The metadata of a line: timestamp, previous and next line.\<close>

type_synonym alru_meta = "nat \<times> cline \<times> cline"

definition ocf_metadata_get_cleaning_policy :: "alru_state \<Rightarrow> cline \<Rightarrow> alru_meta option" where
  "ocf_metadata_get_cleaning_policy a line = do {
     bug_on (line \<ge> ar_entries a);
     Some (ar_timestamp a line, ar_prev a line, ar_next a line) }"

definition ocf_metadata_set_cleaning_policy :: "alru_state \<Rightarrow> cline \<Rightarrow> alru_meta \<Rightarrow> alru_state option" where
  "ocf_metadata_set_cleaning_policy a line policy = do {
     bug_on (line \<ge> ar_entries a);
     let (ts, pv, nx) = policy;
     Some (a\<lparr>ar_timestamp := (ar_timestamp a)(line := ts), ar_prev := (ar_prev a)(line := pv), ar_next := (ar_next a)(line := nx)\<rparr>) }"

definition upd_alru :: "part_id \<Rightarrow> (alru_policy \<Rightarrow> alru_policy) \<Rightarrow> alru_state \<Rightarrow> alru_state" where
  "upd_alru p f a = a\<lparr>ar_pol := (ar_pol a)(p := f (ar_pol a p))\<rparr>"

definition update_alru_head :: "alru_state \<Rightarrow> part_id \<Rightarrow> cline \<Rightarrow> alru_state" where
  "update_alru_head a p collision_index = upd_alru p (\<lambda>l. l\<lparr>ap_head := collision_index\<rparr>) a"

definition update_alru_tail :: "alru_state \<Rightarrow> part_id \<Rightarrow> cline \<Rightarrow> alru_state" where
  "update_alru_tail a p collision_index = upd_alru p (\<lambda>l. l\<lparr>ap_tail := collision_index\<rparr>) a"

definition update_alru_head_tail :: "alru_state \<Rightarrow> part_id \<Rightarrow> cline \<Rightarrow> alru_state" where
  "update_alru_head_tail a p collision_index = update_alru_tail (update_alru_head a p collision_index) p collision_index"

definition add_alru_head :: "u64 \<Rightarrow> alru_state \<Rightarrow> part_id \<Rightarrow> cline \<Rightarrow> alru_state option" where
  "add_alru_head tick a p collision_index = do {
     let entries = ar_entries a;
     bug_on (\<not> collision_index < entries);
     bug_on (ap_size (ar_pol a p) < 0);
     a \<leftarrow> (if ap_size (ar_pol a p) = 0 then do {
         let a = update_alru_head_tail a p collision_index;
         (ts, pv, nx) \<leftarrow> ocf_metadata_get_cleaning_policy a collision_index;
         ocf_metadata_set_cleaning_policy a collision_index (env_ticks_to_secs tick mod U32_MOD, entries, entries) }
       else do {
         let curr_head_index = ap_head (ar_pol a p);
         bug_on (\<not> curr_head_index < entries);
         (ts, pv, nx) \<leftarrow> ocf_metadata_get_cleaning_policy a collision_index;
         a \<leftarrow> ocf_metadata_set_cleaning_policy a collision_index (env_ticks_to_secs tick mod U32_MOD, entries, curr_head_index);
         (ts, pv, nx) \<leftarrow> ocf_metadata_get_cleaning_policy a curr_head_index;
         a \<leftarrow> ocf_metadata_set_cleaning_policy a curr_head_index (ts, collision_index, nx);
         Some (update_alru_head a p collision_index) });
     Some (upd_alru p (\<lambda>l. l\<lparr>ap_size := ap_size l + 1\<rparr>) a) }"

definition remove_alru_list :: "alru_state \<Rightarrow> part_id \<Rightarrow> cline \<Rightarrow> alru_state option" where
  "remove_alru_list a p collision_index = do {
     let entries = ar_entries a;
     bug_on (\<not> collision_index < entries);
     bug_on (ap_size (ar_pol a p) = 0);
     (ts, prev_lru_node, next_lru_node) \<leftarrow> ocf_metadata_get_cleaning_policy a collision_index;
     let is_head = (ap_head (ar_pol a p) = collision_index);
     let is_tail = (ap_tail (ar_pol a p) = collision_index);
     if next_lru_node = entries \<and> prev_lru_node = entries \<and> \<not> is_head \<and> \<not> is_tail then Some a
     else do {
       a \<leftarrow> (if is_head \<and> is_tail then do {
           a \<leftarrow> ocf_metadata_set_cleaning_policy a collision_index (ts, entries, entries);
           Some (update_alru_head_tail a p entries) }
         else if \<not> is_tail \<and> is_head then do {
           bug_on (\<not> next_lru_node < entries);
           (nts, npv, nnx) \<leftarrow> ocf_metadata_get_cleaning_policy a next_lru_node;
           let a = update_alru_head a p next_lru_node;
           a \<leftarrow> ocf_metadata_set_cleaning_policy a collision_index (ts, prev_lru_node, entries);
           ocf_metadata_set_cleaning_policy a next_lru_node (nts, entries, nnx) }
         else if \<not> is_head \<and> is_tail then do {
           bug_on (\<not> prev_lru_node < entries);
           (pts, ppv, pnx) \<leftarrow> ocf_metadata_get_cleaning_policy a prev_lru_node;
           let a = update_alru_tail a p prev_lru_node;
           a \<leftarrow> ocf_metadata_set_cleaning_policy a collision_index (ts, entries, next_lru_node);
           ocf_metadata_set_cleaning_policy a prev_lru_node (pts, ppv, entries) }
         else do {
           bug_on (\<not> next_lru_node < entries);
           bug_on (\<not> prev_lru_node < entries);
           (pts, ppv, pnx) \<leftarrow> ocf_metadata_get_cleaning_policy a prev_lru_node;
           (nts, npv, nnx) \<leftarrow> ocf_metadata_get_cleaning_policy a next_lru_node;
           a \<leftarrow> ocf_metadata_set_cleaning_policy a collision_index (ts, entries, entries);
           a \<leftarrow> ocf_metadata_set_cleaning_policy a prev_lru_node (pts, ppv, next_lru_node);
           ocf_metadata_set_cleaning_policy a next_lru_node (nts, prev_lru_node, nnx) });
       Some (upd_alru p (\<lambda>l. l\<lparr>ap_size := ap_size l - 1\<rparr>) a) } }"

definition is_on_alru_list :: "alru_state \<Rightarrow> part_id \<Rightarrow> cline \<Rightarrow> bool option" where
  "is_on_alru_list a p collision_index = do {
     let entries = ar_entries a;
     bug_on (\<not> collision_index < entries);
     (ts, prev_lru_node, next_lru_node) \<leftarrow> ocf_metadata_get_cleaning_policy a collision_index;
     Some (ap_tail (ar_pol a p) = collision_index \<or> ap_head (ar_pol a p) = collision_index \<or>
       next_lru_node \<noteq> entries \<or> prev_lru_node \<noteq> entries) }"

subsection \<open>What the cache calls\<close>

definition cleaning_policy_alru_init_cache_block :: "alru_state \<Rightarrow> cline \<Rightarrow> alru_state option" where
  "cleaning_policy_alru_init_cache_block a cache_line = do {
     (ts, pv, nx) \<leftarrow> ocf_metadata_get_cleaning_policy a cache_line;
     ocf_metadata_set_cleaning_policy a cache_line (0, ar_entries a, ar_entries a) }"

definition cleaning_policy_alru_purge_cache_block :: "'w::len wcache \<Rightarrow> cline \<Rightarrow> alru_state \<Rightarrow> alru_state option" where
  "cleaning_policy_alru_purge_cache_block c cache_line a = do {
     part_id \<leftarrow> ocf_metadata_get_partition_id (ca_links c) cache_line;
     remove_alru_list a part_id cache_line }"

definition cleaning_policy_alru_purge_cache_block_any :: "'w::len wcache \<Rightarrow> cline \<Rightarrow> alru_state \<Rightarrow> alru_state option" where
  "cleaning_policy_alru_purge_cache_block_any c cache_line a = do {
     part_id \<leftarrow> ocf_metadata_get_partition_id (ca_links c) cache_line;
     on \<leftarrow> is_on_alru_list a part_id cache_line;
     if on then remove_alru_list a part_id cache_line else Some a }"

definition cleaning_policy_alru_set_hot_cache_line :: "u64 \<Rightarrow> 'w::len wcache \<Rightarrow> cline \<Rightarrow> alru_state \<Rightarrow> alru_state option" where
  "cleaning_policy_alru_set_hot_cache_line tick c cache_line a = do {
     part_id \<leftarrow> ocf_metadata_get_partition_id (ca_links c) cache_line;
     (ts, prev_lru_node, next_lru_node) \<leftarrow> ocf_metadata_get_cleaning_policy a cache_line;
     a \<leftarrow> (if next_lru_node \<noteq> ar_entries a \<or> prev_lru_node \<noteq> ar_entries a \<or>
            ap_head (ar_pol a part_id) = cache_line \<and> ap_tail (ar_pol a part_id) = cache_line
          then remove_alru_list a part_id cache_line else Some a);
     add_alru_head tick a part_id cache_line }"

text \<open>
  Purging the lines of a range of a core: \<^verbatim>\<open>ocf_metadata_actor\<close> over the lines of every partition whose list is not empty. The actor changes
  only the policy. The loop over the partition reads the next line before it acts.
\<close>

partial_function (option) alru_actor_loop ::
  "'w::len wcache \<Rightarrow> core_id \<Rightarrow> core_line \<Rightarrow> core_line \<Rightarrow> cline \<Rightarrow> alru_state \<times> int \<Rightarrow> (alru_state \<times> int) option" where
  "alru_actor_loop c core_id start_line end_line i s =
     (if i = collision_table_entries (ca_coll c) then Some s
      else do {
        next_i \<leftarrow> ocf_metadata_get_partition_next (ca_links c) i;
        acting \<leftarrow> is_cache_line_acting c i core_id start_line end_line;
        s \<leftarrow> (if acting then do {
            used \<leftarrow> ocf_cache_line_is_used (ca_locks c) i;
            if used then Some (fst s, - OCF_ERR_AGAIN)
            else do { a \<leftarrow> cleaning_policy_alru_purge_cache_block_any c i (fst s); Some (a, snd s) } }
          else Some s);
        alru_actor_loop c core_id start_line end_line next_i s })"

partial_function (option) alru_purge_loop ::
  "'w::len wcache \<Rightarrow> core_id \<Rightarrow> u64 \<Rightarrow> u64 \<Rightarrow> part_id \<Rightarrow> alru_state \<times> bool \<Rightarrow> (alru_state \<times> bool) option" where
  "alru_purge_loop c core_id start_byte end_byte part_id s = do {
     lst_getter (lst_part (ca_parts c)) part_id;
     if part_id = lst_invalid (lst_part (ca_parts c)) then Some s
     else if ap_size (ar_pol (fst s) part_id) = 0
     then alru_purge_loop c core_id start_byte end_byte (lst_next (lst_part (ca_parts c)) part_id) s
     else do {
       (a, ret) \<leftarrow> alru_actor_loop c core_id (ocf_bytes_2_lines (ca_line c) start_byte) (ocf_bytes_2_lines (ca_line c) end_byte)
         (part_head (user_parts (ca_parts c) part_id)) (fst s, 0);
       alru_purge_loop c core_id start_byte end_byte (lst_next (lst_part (ca_parts c)) part_id) (a, snd s \<or> ret \<noteq> 0) } }"

text \<open>The result tells whether a line was in use, which is the only error that can be or-ed into the return value.\<close>

definition cleaning_policy_alru_purge_range :: "'w::len wcache \<Rightarrow> core_id \<Rightarrow> u64 \<Rightarrow> u64 \<Rightarrow> alru_state \<Rightarrow> (alru_state \<times> int) option" where
  "cleaning_policy_alru_purge_range c core_id start_byte end_byte a = do {
     let lst = lst_part (ca_parts c);
     (a, used) \<leftarrow> alru_purge_loop c core_id start_byte end_byte (lst_next lst (lst_invalid lst)) (a, False);
     Some (a, if used then - OCF_ERR_AGAIN else 0) }"

subsection \<open>Initialisation and parameters\<close>

definition alru_empty :: "nat \<Rightarrow> alru_policy" where
  "alru_empty entries = \<lparr>ap_size = 0, ap_head = entries, ap_tail = entries\<rparr>"

definition cleaning_policy_alru_initialize_part :: "bool \<Rightarrow> part_id \<Rightarrow> alru_state \<Rightarrow> alru_state" where
  "cleaning_policy_alru_initialize_part init_metadata part_id a =
     (if init_metadata then upd_alru part_id (\<lambda>_. alru_empty (ar_entries a)) a else a)\<lparr>ar_access := 0\<rparr>"

partial_function (option) alru_init_loop :: "bool \<Rightarrow> ocf_lst \<Rightarrow> part_id \<Rightarrow> alru_state \<Rightarrow> alru_state option" where
  "alru_init_loop init_metadata lst part_id a = do {
     lst_getter lst part_id;
     if part_id = lst_invalid lst then Some a
     else alru_init_loop init_metadata lst (lst_next lst part_id) (cleaning_policy_alru_initialize_part init_metadata part_id a) }"

text \<open>The clock shows \<open>tick cline\<close> when the rebuild comes to a line.\<close>

definition alru_rebuild_line :: "(cline \<Rightarrow> u64) \<Rightarrow> 'w::len wcache \<Rightarrow> cline \<Rightarrow> alru_state \<Rightarrow> alru_state option" where
  "alru_rebuild_line tick c cline a = do {
     (core_id, core_line) \<leftarrow> ocf_metadata_get_core_info (ca_coll c) cline;
     if core_id = OCF_CORE_MAX then Some a
     else do {
       a \<leftarrow> cleaning_policy_alru_init_cache_block a cline;
       dirty \<leftarrow> metadata_test_dirty (ca_status c) cline;
       if \<not> dirty then Some a else cleaning_policy_alru_set_hot_cache_line (tick cline) c cline a } }"

definition alru_rebuild :: "(cline \<Rightarrow> u64) \<Rightarrow> 'w::len wcache \<Rightarrow> alru_state \<Rightarrow> alru_state option" where
  "alru_rebuild tick c a = do {
     let lst = lst_part (ca_parts c);
     a \<leftarrow> alru_init_loop True lst (lst_next lst (lst_invalid lst)) a;
     fold_opt (alru_rebuild_line tick c) [0..<collision_table_entries (ca_coll c)] a }"

text \<open>\<open>mem_ok\<close> and \<open>lock_err\<close> are the results of allocating the context and initialising its locks.\<close>

definition cleaning_policy_alru_initialize ::
  "bool \<Rightarrow> int \<Rightarrow> (cline \<Rightarrow> u64) \<Rightarrow> 'w::len wcache \<Rightarrow> bool \<Rightarrow> alru_state \<Rightarrow> (int \<times> alru_state) option" where
  "cleaning_policy_alru_initialize mem_ok lock_err tick c init_metadata a =
     (if \<not> mem_ok then Some (- OCF_ERR_NO_MEM, a)
      else if lock_err \<noteq> 0 then Some (lock_err, a)
      else do {
        let lst = lst_part (ca_parts c);
        a \<leftarrow> alru_init_loop init_metadata lst (lst_next lst (lst_invalid lst)) a;
        a \<leftarrow> (if init_metadata then alru_rebuild tick c a else Some a);
        Some (0, a) })"

definition OCF_ALRU_MIN_WAKE_UP :: nat where "OCF_ALRU_MIN_WAKE_UP = 0"
definition OCF_ALRU_MAX_WAKE_UP :: nat where "OCF_ALRU_MAX_WAKE_UP = 3600"
definition OCF_ALRU_DEFAULT_WAKE_UP :: nat where "OCF_ALRU_DEFAULT_WAKE_UP = 20"
definition OCF_ALRU_MIN_STALENESS_TIME :: nat where "OCF_ALRU_MIN_STALENESS_TIME = 1"
definition OCF_ALRU_MAX_STALENESS_TIME :: nat where "OCF_ALRU_MAX_STALENESS_TIME = 3600"
definition OCF_ALRU_DEFAULT_STALENESS_TIME :: nat where "OCF_ALRU_DEFAULT_STALENESS_TIME = 120"
definition OCF_ALRU_MIN_FLUSH_MAX_BUFFERS :: nat where "OCF_ALRU_MIN_FLUSH_MAX_BUFFERS = 1"
definition OCF_ALRU_MAX_FLUSH_MAX_BUFFERS :: nat where "OCF_ALRU_MAX_FLUSH_MAX_BUFFERS = 10000"
definition OCF_ALRU_DEFAULT_FLUSH_MAX_BUFFERS :: nat where "OCF_ALRU_DEFAULT_FLUSH_MAX_BUFFERS = 100"
definition OCF_ALRU_MIN_ACTIVITY_THRESHOLD :: nat where "OCF_ALRU_MIN_ACTIVITY_THRESHOLD = 0"
definition OCF_ALRU_MAX_ACTIVITY_THRESHOLD :: nat where "OCF_ALRU_MAX_ACTIVITY_THRESHOLD = 1000000"
definition OCF_ALRU_DEFAULT_ACTIVITY_THRESHOLD :: nat where "OCF_ALRU_DEFAULT_ACTIVITY_THRESHOLD = 10000"

record alru_config =
  ac_thread_wakeup_time :: nat
  ac_stale_buffer_time :: nat
  ac_flush_max_buffers :: nat
  ac_activity_threshold :: nat

definition cleaning_policy_alru_setup :: alru_config where
  "cleaning_policy_alru_setup = \<lparr>ac_thread_wakeup_time = OCF_ALRU_DEFAULT_WAKE_UP,
     ac_stale_buffer_time = OCF_ALRU_DEFAULT_STALENESS_TIME, ac_flush_max_buffers = OCF_ALRU_DEFAULT_FLUSH_MAX_BUFFERS,
     ac_activity_threshold = OCF_ALRU_DEFAULT_ACTIVITY_THRESHOLD\<rparr>"

datatype alru_param = ocf_alru_wake_up_time | ocf_alru_stale_buffer_time | ocf_alru_flush_max_buffers | ocf_alru_activity_threshold

definition OCF_CLEANING_CHECK_PARAM :: "nat \<Rightarrow> nat \<Rightarrow> nat \<Rightarrow> 'a \<Rightarrow> int + 'a" where
  "OCF_CLEANING_CHECK_PARAM val lo hi ok = (if val < lo \<or> val > hi then Inl (- OCF_ERR_INVAL) else Inr ok)"

text \<open>A parameter number outside of the enumeration is \<^const>\<open>None\<close>.\<close>

definition cleaning_policy_alru_set_cleaning_param :: "alru_param option \<Rightarrow> nat \<Rightarrow> alru_config \<Rightarrow> int + alru_config" where
  "cleaning_policy_alru_set_cleaning_param param_id param_value config =
     (case param_id of
        Some ocf_alru_wake_up_time \<Rightarrow> OCF_CLEANING_CHECK_PARAM param_value OCF_ALRU_MIN_WAKE_UP OCF_ALRU_MAX_WAKE_UP
          (config\<lparr>ac_thread_wakeup_time := param_value\<rparr>)
      | Some ocf_alru_stale_buffer_time \<Rightarrow> OCF_CLEANING_CHECK_PARAM param_value OCF_ALRU_MIN_STALENESS_TIME OCF_ALRU_MAX_STALENESS_TIME
          (config\<lparr>ac_stale_buffer_time := param_value\<rparr>)
      | Some ocf_alru_flush_max_buffers \<Rightarrow> OCF_CLEANING_CHECK_PARAM param_value OCF_ALRU_MIN_FLUSH_MAX_BUFFERS OCF_ALRU_MAX_FLUSH_MAX_BUFFERS
          (config\<lparr>ac_flush_max_buffers := param_value\<rparr>)
      | Some ocf_alru_activity_threshold \<Rightarrow>
          OCF_CLEANING_CHECK_PARAM param_value OCF_ALRU_MIN_ACTIVITY_THRESHOLD OCF_ALRU_MAX_ACTIVITY_THRESHOLD
          (config\<lparr>ac_activity_threshold := param_value\<rparr>)
      | None \<Rightarrow> Inl (- OCF_ERR_INVAL))"

definition cleaning_policy_alru_get_cleaning_param :: "alru_param option \<Rightarrow> alru_config \<Rightarrow> int + nat" where
  "cleaning_policy_alru_get_cleaning_param param_id config =
     (case param_id of
        Some ocf_alru_wake_up_time \<Rightarrow> Inr (ac_thread_wakeup_time config)
      | Some ocf_alru_stale_buffer_time \<Rightarrow> Inr (ac_stale_buffer_time config)
      | Some ocf_alru_flush_max_buffers \<Rightarrow> Inr (ac_flush_max_buffers config)
      | Some ocf_alru_activity_threshold \<Rightarrow> Inr (ac_activity_threshold config)
      | None \<Rightarrow> Inl (- OCF_ERR_INVAL))"

subsection \<open>Cleaning\<close>

definition compute_timestamp :: "u64 \<Rightarrow> alru_config \<Rightarrow> nat" where
  "compute_timestamp tick config =
     (let time = (tick + U64_MOD - env_secs_to_ticks (ac_stale_buffer_time config)) mod U64_MOD
      in env_ticks_to_secs time mod U32_MOD)"

text \<open>\<open>last_access_ms\<close> is the time of the last request of the cache.\<close>

definition check_for_io_activity :: "u64 \<Rightarrow> nat \<Rightarrow> alru_config \<Rightarrow> bool" where
  "check_for_io_activity tick last_access_ms config =
     ((env_ticks_to_msecs tick mod U32_MOD + U32_MOD - last_access_ms mod U32_MOD) mod U32_MOD < ac_activity_threshold config)"

definition clean_later :: "u64 \<Rightarrow> alru_state \<Rightarrow> alru_config \<Rightarrow> bool" where
  "clean_later tick a config =
     ((env_ticks_to_secs tick mod U32_MOD + U32_MOD - ar_access a mod U32_MOD) mod U32_MOD \<le> ac_thread_wakeup_time config)"

definition is_cleanup_possible :: "u64 \<Rightarrow> nat \<Rightarrow> alru_state \<Rightarrow> alru_config \<Rightarrow> bool" where
  "is_cleanup_possible tick last_access_ms a config =
     (\<not> check_for_io_activity tick last_access_ms config \<and> \<not> clean_later tick a config \<and> ac_flush_max_buffers config \<noteq> 0)"

text \<open>\<^verbatim>\<open>struct flush_data\<close>: a line with its core and core line.\<close>

type_synonym flush_data = "cline \<times> core_id \<times> core_line"

definition get_block_to_flush :: "'w::len wcache \<Rightarrow> cline \<Rightarrow> flush_data option" where
  "get_block_to_flush c cache_line = do {
     (core_id, core_line) \<leftarrow> ocf_metadata_get_core_info (ca_coll c) cache_line;
     Some (cache_line, core_id, core_line) }"

definition more_blocks_to_flush :: "alru_state \<Rightarrow> cline \<Rightarrow> nat \<Rightarrow> bool option" where
  "more_blocks_to_flush a cache_line last_access =
     (if cache_line \<ge> ar_entries a then Some False
      else do {
        (ts, pv, nx) \<leftarrow> ocf_metadata_get_cleaning_policy a cache_line;
        Some (\<not> ts \<ge> last_access) })"

definition block_is_busy :: "(core_id \<Rightarrow> bool) \<Rightarrow> 'w::len wcache \<Rightarrow> cline \<Rightarrow> bool option" where
  "block_is_busy opened c cache_line = do {
     (core_id, core_line) \<leftarrow> ocf_metadata_get_core_info (ca_coll c) cache_line;
     if \<not> opened core_id then Some True else ocf_cache_line_is_used (ca_locks c) cache_line }"

text \<open>The loop over the list of one partition; the result tells whether the limit was reached, which ends the whole search.\<close>

partial_function (option) flush_part_loop ::
  "(core_id \<Rightarrow> bool) \<Rightarrow> 'w::len wcache \<Rightarrow> alru_state \<Rightarrow> nat \<Rightarrow> nat \<Rightarrow> cline \<Rightarrow> flush_data list \<Rightarrow> (bool \<times> flush_data list) option" where
  "flush_part_loop opened c a clines_no last_access cache_line data = do {
     more \<leftarrow> more_blocks_to_flush a cache_line last_access;
     if \<not> more then Some (False, data)
     else if length data \<ge> clines_no then Some (True, data)
     else do {
       busy \<leftarrow> block_is_busy opened c cache_line;
       data \<leftarrow> (if busy then Some data else do { d \<leftarrow> get_block_to_flush c cache_line; Some (data @ [d]) });
       (ts, pv, nx) \<leftarrow> ocf_metadata_get_cleaning_policy a cache_line;
       flush_part_loop opened c a clines_no last_access pv data } }"

partial_function (option) get_data_loop ::
  "(core_id \<Rightarrow> bool) \<Rightarrow> 'w::len wcache \<Rightarrow> alru_state \<Rightarrow> nat \<Rightarrow> (part_id \<Rightarrow> nat) \<Rightarrow> part_id \<Rightarrow> flush_data list \<Rightarrow> flush_data list option" where
  "get_data_loop opened c a clines_no last_access part_id data = do {
     lst_getter (lst_part (ca_parts c)) part_id;
     if part_id = lst_invalid (lst_part (ca_parts c)) then Some data
     else do {
       (full, data) \<leftarrow> flush_part_loop opened c a clines_no (last_access part_id) (ap_tail (ar_pol a part_id)) data;
       if full then Some data
       else get_data_loop opened c a clines_no last_access (lst_next (lst_part (ca_parts c)) part_id) data } }"

text \<open>The clock is read again for every partition, where it shows \<open>tick part_id\<close>.\<close>

definition get_data_to_flush :: "(part_id \<Rightarrow> u64) \<Rightarrow> (core_id \<Rightarrow> bool) \<Rightarrow> 'w::len wcache \<Rightarrow> alru_config \<Rightarrow> nat \<Rightarrow> alru_state \<Rightarrow> flush_data list option" where
  "get_data_to_flush tick opened c config clines_no a = do {
     let lst = lst_part (ca_parts c);
     get_data_loop opened c a clines_no (\<lambda>p. compute_timestamp (tick p) config) (lst_next lst (lst_invalid lst)) [] }"

text \<open>
  A round of cleaning. \<open>metadata_free\<close> tells whether the metadata lock is got at once, \<open>mem_ok\<close> whether there is memory for the list. The
  result is what is handed to the cleaner, with \<open>None\<close> when nothing is, and the interval after which the next round is due; with lines to
  flush that is 0 and told by the completion of the flush.
\<close>

definition alru_clean_complete :: "bool \<Rightarrow> alru_config \<Rightarrow> nat" where
  "alru_clean_complete flush_performed config = (if flush_performed then 0 else ac_thread_wakeup_time config * 1000)"

definition cleaning_alru_perform_cleaning ::
  "u64 \<Rightarrow> (part_id \<Rightarrow> u64) \<Rightarrow> nat \<Rightarrow> bool \<Rightarrow> bool \<Rightarrow> (core_id \<Rightarrow> bool) \<Rightarrow> 'w::len wcache \<Rightarrow> alru_config \<Rightarrow> alru_state \<Rightarrow>
   (flush_data list option \<times> nat \<times> alru_state) option" where
  "cleaning_alru_perform_cleaning tick part_tick last_access_ms metadata_free mem_ok opened c config a =
     (let clines_no = ac_flush_max_buffers config
      in if \<not> is_cleanup_possible tick last_access_ms a config then Some (None, alru_clean_complete False config, a)
         else if \<not> metadata_free then Some (None, alru_clean_complete False config, a)
         else if \<not> mem_ok then Some (None, alru_clean_complete False config, a)
         else do {
           data \<leftarrow> get_data_to_flush part_tick opened c config clines_no a;
           if data \<noteq> [] then Some (Some data, alru_clean_complete True config, a)
           else Some (None, alru_clean_complete False config, a\<lparr>ar_access := env_ticks_to_secs tick mod U32_MOD\<rparr>) })"

subsection \<open>Invariant\<close>

text \<open>
  \<open>alru_rep a A\<close>: the list of partition \<open>p\<close> is \<open>A p\<close>, no line is in two lists, a line in none is not linked, and a line was not written
  later than the lines before it in its list.
\<close>

definition alru_pol_ok :: "nat \<Rightarrow> alru_policy \<Rightarrow> cline list \<Rightarrow> bool" where
  "alru_pol_ok n l xs \<longleftrightarrow> ap_size l = int (length xs) \<and> ap_head l = hd_or n xs \<and> ap_tail l = last_or n xs"

definition alru_rep :: "alru_state \<Rightarrow> (part_id \<Rightarrow> cline list) \<Rightarrow> bool" where
  "alru_rep a A \<longleftrightarrow>
     (\<forall>p < OCF_IO_CLASS_MAX. alru_pol_ok (ar_entries a) (ar_pol a p) (A p) \<and> dlist (ar_entries a) (ar_next a) (ar_prev a) (A p) \<and>
        sorted_wrt (\<lambda>x y. ar_timestamp a y \<le> ar_timestamp a x) (A p)) \<and>
     (\<forall>p < OCF_IO_CLASS_MAX. \<forall>q < OCF_IO_CLASS_MAX. p \<noteq> q \<longrightarrow> set (A p) \<inter> set (A q) = {}) \<and>
     (\<forall>x < ar_entries a. (\<forall>p < OCF_IO_CLASS_MAX. x \<notin> set (A p)) \<longrightarrow> ar_next a x = ar_entries a \<and> ar_prev a x = ar_entries a)"

lemma alru_repD:
  assumes "alru_rep a A" and "p < OCF_IO_CLASS_MAX"
  shows "alru_pol_ok (ar_entries a) (ar_pol a p) (A p)" and "dlist (ar_entries a) (ar_next a) (ar_prev a) (A p)"
    and "sorted_wrt (\<lambda>x y. ar_timestamp a y \<le> ar_timestamp a x) (A p)"
    and "q < OCF_IO_CLASS_MAX \<Longrightarrow> q \<noteq> p \<Longrightarrow> set (A q) \<inter> set (A p) = {}"
  using assms unfolding alru_rep_def by blast+

lemma alru_rep_unlinked:
  "alru_rep a A \<Longrightarrow> x < ar_entries a \<Longrightarrow> (\<And>p. p < OCF_IO_CLASS_MAX \<Longrightarrow> x \<notin> set (A p)) \<Longrightarrow>
   ar_next a x = ar_entries a \<and> ar_prev a x = ar_entries a"
  unfolding alru_rep_def by blast

lemma sorted_ts_cong:
  "(\<And>x. x \<in> set xs \<Longrightarrow> f x = g x) \<Longrightarrow> sorted_wrt (\<lambda>x y. f y \<le> f x) xs \<Longrightarrow> sorted_wrt (\<lambda>x y. g y \<le> (g x :: nat)) xs"
  by (induction xs) auto

text \<open>What a change of one list must show.\<close>

lemma alru_upd_rep:
  assumes rep: "alru_rep a A" and p: "p < OCF_IO_CLASS_MAX" and n: "ar_entries a' = ar_entries a"
    and pol: "\<And>q. q \<noteq> p \<Longrightarrow> ar_pol a' q = ar_pol a q" "alru_pol_ok (ar_entries a) (ar_pol a' p) xs"
    and xs: "dlist (ar_entries a) (ar_next a') (ar_prev a') xs" "sorted_wrt (\<lambda>x y. ar_timestamp a' y \<le> ar_timestamp a' x) xs"
    and others: "\<And>q. q < OCF_IO_CLASS_MAX \<Longrightarrow> q \<noteq> p \<Longrightarrow> dlist (ar_entries a) (ar_next a') (ar_prev a') (A q) \<and> set (A q) \<inter> set xs = {} \<and>
        (\<forall>x \<in> set (A q). ar_timestamp a' x = ar_timestamp a x)"
    and out: "\<And>x. x < ar_entries a \<Longrightarrow> x \<notin> set xs \<Longrightarrow> (\<And>q. q < OCF_IO_CLASS_MAX \<Longrightarrow> q \<noteq> p \<Longrightarrow> x \<notin> set (A q)) \<Longrightarrow>
        ar_next a' x = ar_entries a \<and> ar_prev a' x = ar_entries a"
  shows "alru_rep a' (A(p := xs))"
  unfolding alru_rep_def n
proof (intro conjI allI impI)
  fix q assume q: "q < OCF_IO_CLASS_MAX"
  show "alru_pol_ok (ar_entries a) (ar_pol a' q) ((A(p := xs)) q)" using pol alru_repD(1) [OF rep q] by (cases "q = p") auto
  show "dlist (ar_entries a) (ar_next a') (ar_prev a') ((A(p := xs)) q)" using xs others [OF q] by (cases "q = p") auto
  show "sorted_wrt (\<lambda>x y. ar_timestamp a' y \<le> ar_timestamp a' x) ((A(p := xs)) q)"
    using xs others [OF q] alru_repD(3) [OF rep q] sorted_ts_cong [of "A q" "ar_timestamp a" "ar_timestamp a'"] by (cases "q = p") auto
next
  fix q r assume "q < OCF_IO_CLASS_MAX" "r < OCF_IO_CLASS_MAX" "q \<noteq> r"
  then show "set ((A(p := xs)) q) \<inter> set ((A(p := xs)) r) = {}"
    using others [of q] others [of r] alru_repD(4) [OF rep, of r q] by (cases "q = p"; cases "r = p") auto
next
  fix x assume x: "x < ar_entries a" and none: "\<forall>q < OCF_IO_CLASS_MAX. x \<notin> set ((A(p := xs)) q)"
  have "x \<notin> set xs" using none p by auto
  moreover have "x \<notin> set (A q)" if "q < OCF_IO_CLASS_MAX" "q \<noteq> p" for q using none that by auto
  ultimately show "ar_next a' x = ar_entries a" "ar_prev a' x = ar_entries a" using out [OF x] by blast+
qed

lemmas alru_access_defs [ocf_defs] =
  ocf_metadata_get_cleaning_policy_def ocf_metadata_set_cleaning_policy_def upd_alru_def update_alru_head_def update_alru_tail_def
  update_alru_head_tail_def

lemma add_alru_head_rep:
  assumes rep: "alru_rep a A" and p: "p < OCF_IO_CLASS_MAX"
    and x: "x < ar_entries a" "\<And>q. q < OCF_IO_CLASS_MAX \<Longrightarrow> x \<notin> set (A q)"
    and clock: "\<And>y. y \<in> set (A p) \<Longrightarrow> ar_timestamp a y \<le> env_ticks_to_secs tick mod U32_MOD"
  shows "\<exists>a'. add_alru_head tick a p x = Some a' \<and> alru_rep a' (A(p := x # A p)) \<and> ar_entries a' = ar_entries a \<and>
    ar_timestamp a' = (ar_timestamp a)(x := env_ticks_to_secs tick mod U32_MOD) \<and> ar_access a' = ar_access a"
proof -
  let ?n = "ar_entries a" and ?xs = "A p" and ?t = "env_ticks_to_secs tick mod U32_MOD"
  note pol = alru_repD(1) [OF rep p] and dl = alru_repD(2) [OF rep p] and srt = alru_repD(3) [OF rep p]
  define nx where "nx = (ar_next a)(x := hd_or ?n ?xs)"
  define pv where "pv = (if ?xs = [] then (ar_prev a)(x := ?n) else ((ar_prev a)(x := ?n))(hd ?xs := x))"
  have x_notin: "x \<notin> set ?xs" using x(2) [OF p] .
  have h: "?xs \<noteq> [] \<Longrightarrow> hd_or ?n ?xs = hd ?xs \<and> hd ?xs < ?n \<and> hd ?xs \<noteq> x"
    using dlist_hd_less [OF dl] x_notin hd_in_set by (fastforce simp: hd_or_conv)
  have "\<exists>a'. add_alru_head tick a p x = Some a' \<and> ar_entries a' = ?n \<and> ar_next a' = nx \<and> ar_prev a' = pv \<and>
    ar_timestamp a' = (ar_timestamp a)(x := ?t) \<and> ar_access a' = ar_access a \<and>
    (\<forall>q. q \<noteq> p \<longrightarrow> ar_pol a' q = ar_pol a q) \<and> alru_pol_ok ?n (ar_pol a' p) (x # ?xs)"
  proof (cases "?xs = []")
    case True
    then show ?thesis using x pol by (simp add: add_alru_head_def alru_access_defs alru_pol_ok_def nx_def pv_def Let_def)
  next
    case False
    then have t: "last_or ?n (x # ?xs) = last_or ?n ?xs" by (simp add: last_or_def)
    have twist: "((ar_next a)(x := hd ?xs))(hd ?xs := (if hd ?xs = x then hd ?xs else ar_next a (hd ?xs))) = nx"
      "((ar_prev a)(x := ?n))(hd ?xs := x) = pv"
      "((ar_timestamp a)(x := ?t))(hd ?xs := ar_timestamp a (hd ?xs)) = (ar_timestamp a)(x := ?t)"
      using h False by (auto simp: nx_def pv_def fun_eq_iff)
    show ?thesis using x pol False h t twist by (simp add: add_alru_head_def alru_access_defs alru_pol_ok_def Let_def)
  qed
  then obtain a' where a': "add_alru_head tick a p x = Some a'" "ar_entries a' = ?n" "ar_next a' = nx" "ar_prev a' = pv"
    "ar_timestamp a' = (ar_timestamp a)(x := ?t)" "ar_access a' = ar_access a"
    "\<forall>q. q \<noteq> p \<longrightarrow> ar_pol a' q = ar_pol a q" "alru_pol_ok ?n (ar_pol a' p) (x # ?xs)" by blast
  have "alru_rep a' (A(p := x # ?xs))"
  proof (rule alru_upd_rep [OF rep p a'(2) _ a'(8)])
    show "dlist ?n (ar_next a') (ar_prev a') (x # ?xs)"
      unfolding a'(3,4) nx_def pv_def by (rule dlist_front_code [OF dl x(1) x_notin])
    show "sorted_wrt (\<lambda>x y. ar_timestamp a' y \<le> ar_timestamp a' x) (x # ?xs)"
    proof -
      have ts: "\<forall>y \<in> set ?xs. ar_timestamp a' y = ar_timestamp a y" using x_notin by (auto simp: a'(5))
      then have "sorted_wrt (\<lambda>x y. ar_timestamp a' y \<le> ar_timestamp a' x) ?xs" by (intro sorted_ts_cong [OF _ srt]) simp
      moreover have "\<forall>y \<in> set ?xs. ar_timestamp a' y \<le> ar_timestamp a' x" using ts clock by (simp add: a'(5))
      ultimately show ?thesis by simp
    qed
    show "dlist ?n (ar_next a') (ar_prev a') (A q) \<and> set (A q) \<inter> set (x # ?xs) = {} \<and>
        (\<forall>y \<in> set (A q). ar_timestamp a' y = ar_timestamp a y)" if q: "q < OCF_IO_CLASS_MAX" "q \<noteq> p" for q
    proof -
      have dj: "set (A q) \<inter> insert x (set ?xs) = {}" using alru_repD(4) [OF rep p q] x(2) [OF q(1)] by simp
      then have "dlist ?n (ar_next a') (ar_prev a') (A q)"
        unfolding a'(3,4) nx_def pv_def using dlist_front_other_code alru_repD(2) [OF rep q(1)] by simp
      then show ?thesis using dj unfolding a'(5) by auto
    qed
    show "ar_next a' y = ?n \<and> ar_prev a' y = ?n"
      if "y < ?n" "y \<notin> set (x # ?xs)" "\<And>q. q < OCF_IO_CLASS_MAX \<Longrightarrow> q \<noteq> p \<Longrightarrow> y \<notin> set (A q)" for y
    proof -
      have "ar_next a y = ?n \<and> ar_prev a y = ?n" using that by (intro alru_rep_unlinked [OF rep]) (metis list.set_intros(2))+
      then show ?thesis using that(2) hd_in_set [of ?xs] unfolding a'(3,4) nx_def pv_def by auto
    qed
  qed (use a'(7) in simp)
  with a' show ?thesis by blast
qed

lemma remove_alru_links:
  assumes rep: "alru_rep a A" and p: "p < OCF_IO_CLASS_MAX" and sp: "A p = as @ x # bs"
  shows "\<exists>a'. remove_alru_list a p x = Some a' \<and> ar_entries a' = ar_entries a \<and>
    ar_next a' = (if as \<noteq> [] then (ar_next a)(ar_prev a x := ar_next a x) else ar_next a)(x := ar_entries a) \<and>
    ar_prev a' = (if bs \<noteq> [] then (ar_prev a)(ar_next a x := ar_prev a x) else ar_prev a)(x := ar_entries a) \<and>
    ar_timestamp a' = ar_timestamp a \<and> ar_access a' = ar_access a \<and>
    (\<forall>q. q \<noteq> p \<longrightarrow> ar_pol a' q = ar_pol a q) \<and> alru_pol_ok (ar_entries a) (ar_pol a' p) (as @ bs)"
proof -
  let ?n = "ar_entries a"
  note pol = alru_repD(1) [OF rep p, unfolded sp alru_pol_ok_def]
  have dl: "dlist ?n (ar_next a) (ar_prev a) (as @ x # bs)" using alru_repD(2) [OF rep p] sp by simp
  note null = dlist_links_null [OF dl] and neq = dlist_links_neq [OF dl] and link = dseg_node [OF dlistD(3) [OF dl]]
  have x: "x < ?n" "x \<notin> set as" "x \<notin> set bs" using dlistD(1,2) [OF dl] by auto
  have ends: "(ap_head (ar_pol a p) = x) = (as = [])" "(ap_tail (ar_pol a p) = x) = (bs = [])" "ap_size (ar_pol a p) \<noteq> 0"
    using pol x by (cases as; simp) (cases bs rule: rev_cases; use pol x in simp)+
  show ?thesis
  proof (cases "as = []"; cases "bs = []")
    assume "as = []" "bs = []"
    then show ?thesis using x ends pol by (simp add: remove_alru_list_def alru_access_defs alru_pol_ok_def Let_def)
  next
    assume ab: "as = []" "bs \<noteq> []"
    then have lk: "ar_prev a x = ?n" "ar_next a x < ?n" "ar_next a x = hd_or ?n bs" using null link by auto
    have fe: "((ar_next a)(x := ?n))(ar_next a x := ar_next a (ar_next a x)) = (ar_next a)(x := ?n)"
      "((ar_prev a)(x := ar_prev a x))(ar_next a x := ?n) = ((ar_prev a)(ar_next a x := ar_prev a x))(x := ?n)"
      using neq lk by (auto simp: fun_eq_iff)
    have "last_or ?n (as @ bs) = last_or ?n (as @ x # bs)" using ab by (simp add: last_or_def)
    then show ?thesis using x ends pol ab lk fe neq
      by (simp add: remove_alru_list_def alru_access_defs alru_pol_ok_def Let_def split: if_splits)
  next
    assume ab: "as \<noteq> []" "bs = []"
    then have lk: "ar_next a x = ?n" "ar_prev a x < ?n" "ar_prev a x = last_or ?n as" using null link by auto
    have fe: "((ar_next a)(x := ar_next a x))(ar_prev a x := ?n) = ((ar_next a)(ar_prev a x := ar_next a x))(x := ?n)"
      "((ar_prev a)(x := ?n))(ar_prev a x := ar_prev a (ar_prev a x)) = (ar_prev a)(x := ?n)"
      using neq lk by (auto simp: fun_eq_iff)
    have "hd_or ?n (as @ bs) = hd_or ?n (as @ x # bs)" using ab by (simp add: hd_or_conv)
    then show ?thesis using x ends pol ab lk fe neq
      by (simp add: remove_alru_list_def alru_access_defs alru_pol_ok_def Let_def split: if_splits)
  next
    assume ab: "as \<noteq> []" "bs \<noteq> []"
    then have lk: "ar_prev a x < ?n" "ar_next a x < ?n" using null by auto
    have diff: "ar_prev a x \<noteq> ar_next a x"
      using link ab dlistD(1) [OF dl] by (auto simp: last_or_def hd_or_conv dest: last_in_set hd_in_set)
    have fe: "((ar_next a)(x := ?n, ar_prev a x := ar_next a x))(ar_next a x := ar_next a (ar_next a x)) =
        ((ar_next a)(ar_prev a x := ar_next a x))(x := ?n)"
      "((ar_prev a)(x := ?n, ar_prev a x := ar_prev a (ar_prev a x)))(ar_next a x := ar_prev a x) =
        ((ar_prev a)(ar_next a x := ar_prev a x))(x := ?n)"
      using neq diff by (auto simp: fun_eq_iff)
    have "hd_or ?n (as @ bs) = hd_or ?n (as @ x # bs)" "last_or ?n (as @ bs) = last_or ?n (as @ x # bs)"
      using ab by (simp_all add: hd_or_conv last_or_def)
    then show ?thesis using x ends pol ab lk fe
      by (simp add: remove_alru_list_def alru_access_defs alru_pol_ok_def Let_def split: if_splits)
  qed
qed

lemma remove_alru_list_rep:
  assumes rep: "alru_rep a A" and p: "p < OCF_IO_CLASS_MAX" and x: "x \<in> set (A p)"
  shows "\<exists>a'. remove_alru_list a p x = Some a' \<and> alru_rep a' (A(p := remove1 x (A p))) \<and> ar_entries a' = ar_entries a \<and>
    ar_timestamp a' = ar_timestamp a \<and> ar_access a' = ar_access a"
proof -
  let ?n = "ar_entries a"
  obtain as bs where sp: "A p = as @ x # bs" "x \<notin> set as" "x \<notin> set bs"
    and dl: "dlist ?n (ar_next a) (ar_prev a) (as @ x # bs)" by (rule dlist_split [OF alru_repD(2) [OF rep p] x])
  have r: "remove1 x (A p) = as @ bs" using sp by (simp add: remove1_append)
  from remove_alru_links [OF rep p sp(1)] obtain a' where
    a': "remove_alru_list a p x = Some a'" "ar_entries a' = ?n"
      "ar_next a' = (if as \<noteq> [] then (ar_next a)(ar_prev a x := ar_next a x) else ar_next a)(x := ?n)"
      "ar_prev a' = (if bs \<noteq> [] then (ar_prev a)(ar_next a x := ar_prev a x) else ar_prev a)(x := ?n)"
      "ar_timestamp a' = ar_timestamp a" "ar_access a' = ar_access a"
      "\<forall>q. q \<noteq> p \<longrightarrow> ar_pol a' q = ar_pol a q" "alru_pol_ok ?n (ar_pol a' p) (as @ bs)" by blast
  have "alru_rep a' (A(p := as @ bs))"
  proof (rule alru_upd_rep [OF rep p a'(2) _ a'(8)])
    show "dlist ?n (ar_next a') (ar_prev a') (as @ bs)" unfolding a'(3,4) by (rule dlist_unlink_code [OF dl])
    show "sorted_wrt (\<lambda>x y. ar_timestamp a' y \<le> ar_timestamp a' x) (as @ bs)"
      using alru_repD(3) [OF rep p] unfolding sp a'(5) by (simp add: sorted_wrt_append)
    show "dlist ?n (ar_next a') (ar_prev a') (A q) \<and> set (A q) \<inter> set (as @ bs) = {} \<and>
        (\<forall>y \<in> set (A q). ar_timestamp a' y = ar_timestamp a y)" if q: "q < OCF_IO_CLASS_MAX" "q \<noteq> p" for q
    proof -
      have dj: "set (A q) \<inter> set (as @ x # bs) = {}" using alru_repD(4) [OF rep p q] sp(1) by simp
      then show ?thesis unfolding a'(3-5) using dlist_unlink_other_code [OF dl dj] alru_repD(2) [OF rep q(1)] by auto
    qed
    show "ar_next a' y = ?n \<and> ar_prev a' y = ?n"
      if y: "y < ?n" "y \<notin> set (as @ bs)" "\<And>q. q < OCF_IO_CLASS_MAX \<Longrightarrow> q \<noteq> p \<Longrightarrow> y \<notin> set (A q)" for y
    proof (cases "y = x")
      case False
      have "y \<notin> set (A q)" if "q < OCF_IO_CLASS_MAX" for q using y False sp(1) that by (cases "q = p") auto
      then have "ar_next a y = ?n \<and> ar_prev a y = ?n" using alru_rep_unlinked [OF rep y(1)] by blast
      moreover have "as \<noteq> [] \<Longrightarrow> ar_prev a x \<in> set as" "bs \<noteq> [] \<Longrightarrow> ar_next a x \<in> set bs"
        using dseg_node [OF dlistD(3) [OF dl]] by (auto simp: last_or_def hd_or_conv)
      ultimately show ?thesis using y(2) False unfolding a'(3,4) by auto
    qed (simp add: a'(3,4))
  qed (use a'(7) in simp)
  with a' r show ?thesis by auto
qed

subsection \<open>The lists as a family\<close>

text \<open>The lists at a moment of the clock: nothing in them was written later.\<close>

definition alru_at :: "u64 \<Rightarrow> alru_state \<Rightarrow> (part_id \<Rightarrow> cline list) \<Rightarrow> bool" where
  "alru_at tick a A \<longleftrightarrow> alru_rep a A \<and>
     (\<forall>p < OCF_IO_CLASS_MAX. \<forall>y \<in> set (A p). ar_timestamp a y \<le> env_ticks_to_secs tick mod U32_MOD)"

definition alru_line :: "alru_state \<Rightarrow> cline \<Rightarrow> bool" where
  "alru_line a x = (x < ar_entries a)"

interpretation alru_lists: line_lists "alru_at tick" "\<lambda>p. p < OCF_IO_CLASS_MAX" alru_line "add_alru_head tick" remove_alru_list for tick
proof
  fix a :: alru_state and A :: "part_id \<Rightarrow> cline list" and p x
  assume rep: "alru_at tick a A" and p: "p < OCF_IO_CLASS_MAX" and x: "alru_line a x"
    and new: "\<And>q. q < OCF_IO_CLASS_MAX \<Longrightarrow> x \<notin> set (A q)"
  have "\<exists>a'. add_alru_head tick a p x = Some a' \<and> alru_rep a' (A(p := x # A p)) \<and> ar_entries a' = ar_entries a \<and>
      ar_timestamp a' = (ar_timestamp a)(x := env_ticks_to_secs tick mod U32_MOD) \<and> ar_access a' = ar_access a"
    using rep p x new by (intro add_alru_head_rep) (auto simp: alru_at_def alru_line_def)
  then show "\<exists>s'. add_alru_head tick a p x = Some s' \<and> alru_at tick s' (A(p := x # A p)) \<and> alru_line s' = alru_line a"
    using rep p unfolding alru_at_def by (auto simp: alru_line_def fun_eq_iff)
next
  fix a :: alru_state and A :: "part_id \<Rightarrow> cline list" and p x
  assume rep: "alru_at tick a A" and p: "p < OCF_IO_CLASS_MAX" and x: "x \<in> set (A p)"
  have "\<exists>a'. remove_alru_list a p x = Some a' \<and> alru_rep a' (A(p := remove1 x (A p))) \<and> ar_entries a' = ar_entries a \<and>
      ar_timestamp a' = ar_timestamp a \<and> ar_access a' = ar_access a"
    using rep p x by (intro remove_alru_list_rep) (auto simp: alru_at_def)
  then show "\<exists>s'. remove_alru_list a p x = Some s' \<and> alru_at tick s' (A(p := remove1 x (A p))) \<and> alru_line s' = alru_line a"
    using rep p set_remove1_subset [of x "A p"] unfolding alru_at_def alru_line_def fun_eq_iff
    by (fastforce simp: subset_iff)
next
  fix a :: alru_state and A :: "part_id \<Rightarrow> cline list" and p q
  assume "alru_at tick a A" "p < OCF_IO_CLASS_MAX" "q < OCF_IO_CLASS_MAX" "p \<noteq> q"
  then show "set (A p) \<inter> set (A q) = {}" using alru_repD(4) [of a A q p] by (simp add: alru_at_def)
next
  fix a :: alru_state and A :: "part_id \<Rightarrow> cline list" and p x
  assume "alru_at tick a A" "p < OCF_IO_CLASS_MAX"
  then have "dlist (ar_entries a) (ar_next a) (ar_prev a) (A p)" using alru_repD(2) by (simp add: alru_at_def)
  then show "distinct (A p)" and "x \<in> set (A p) \<Longrightarrow> alru_line a x" using dlistD(1,2) by (auto simp: alru_line_def)
qed

text \<open>A line is linked exactly when it is in a list that has another line, or is both ends of its list.\<close>

lemma alru_linked_iff:
  assumes rep: "alru_rep a A" and p: "p < OCF_IO_CLASS_MAX" and x: "x < ar_entries a"
    and only: "\<And>q. q < OCF_IO_CLASS_MAX \<Longrightarrow> q \<noteq> p \<Longrightarrow> x \<notin> set (A q)"
  shows "ar_next a x \<noteq> ar_entries a \<or> ar_prev a x \<noteq> ar_entries a \<or> ap_head (ar_pol a p) = x \<and> ap_tail (ar_pol a p) = x \<longleftrightarrow> x \<in> set (A p)"
proof (cases "x \<in> set (A p)")
  case True
  obtain as bs where sp: "A p = as @ x # bs" and dl: "dlist (ar_entries a) (ar_next a) (ar_prev a) (as @ x # bs)"
    by (rule dlist_split [OF alru_repD(2) [OF rep p] True])
  show ?thesis using True dlist_links_null [OF dl] alru_repD(1) [OF rep p] unfolding alru_pol_ok_def sp
    by (cases "as = []"; cases "bs = []") auto
next
  case False
  then have none: "x \<notin> set (A q)" if "q < OCF_IO_CLASS_MAX" for q using only that by blast
  have "ap_head (ar_pol a p) \<noteq> x"
    using alru_repD(1) [OF rep p] hd_or_cases [of "ar_entries a" "A p"] False x unfolding alru_pol_ok_def by (metis less_irrefl)
  then show ?thesis using alru_rep_unlinked [OF rep x] none False by blast
qed

lemma alru_on_list:
  assumes rep: "alru_rep a A" and p: "p < OCF_IO_CLASS_MAX" and x: "x < ar_entries a"
    and only: "\<And>q. q < OCF_IO_CLASS_MAX \<Longrightarrow> q \<noteq> p \<Longrightarrow> x \<notin> set (A q)"
  shows "is_on_alru_list a p x = Some (x \<in> set (A p))"
proof -
  have "ap_head (ar_pol a p) = x \<or> ap_tail (ar_pol a p) = x \<Longrightarrow> x \<in> set (A p)"
    using alru_repD(1) [OF rep p] hd_or_cases [of "ar_entries a" "A p"] last_or_cases [of "ar_entries a" "A p"] x
    unfolding alru_pol_ok_def by (metis less_irrefl)
  then have "(ap_tail (ar_pol a p) = x \<or> ap_head (ar_pol a p) = x \<or> ar_next a x \<noteq> ar_entries a \<or> ar_prev a x \<noteq> ar_entries a) = (x \<in> set (A p))"
    using alru_linked_iff [OF assms] by blast
  then show ?thesis using x by (simp add: is_on_alru_list_def alru_access_defs Let_def)
qed

text \<open>
  A line that is written moves to the front of the list of its partition, with the present second as its timestamp, whether it was on
  the list or not; a line that is purged leaves it. No assertion fails, the other lines keep their order and timestamps, and the lists
  stay linked, disjoint and ordered by the time of the last write, as long as the clock does not run backwards.
\<close>

theorem alru_hot_purge:
  fixes c :: "'w::len wcache"
  assumes "alru_at tick a A" and "ocf_metadata_get_partition_id (ca_links c) x = Some p" and "p < OCF_IO_CLASS_MAX"
    and "x < ar_entries a" and "\<forall>q < OCF_IO_CLASS_MAX. q \<noteq> p \<longrightarrow> x \<notin> set (A q)"
  shows "(\<exists>a'. cleaning_policy_alru_set_hot_cache_line tick c x a = Some a' \<and> alru_at tick a' (A(p := x # remove1 x (A p)))) \<and>
    (\<exists>a'. cleaning_policy_alru_purge_cache_block_any c x a = Some a' \<and> alru_at tick a' (A(p := remove1 x (A p)))) \<and>
    (x \<in> set (A p) \<longrightarrow> cleaning_policy_alru_purge_cache_block c x a = cleaning_policy_alru_purge_cache_block_any c x a)"
proof -
  have rep: "alru_rep a A" using assms(1) by (simp add: alru_at_def)
  have only: "\<And>q. q < OCF_IO_CLASS_MAX \<Longrightarrow> q \<noteq> p \<Longrightarrow> x \<notin> set (A q)" using assms(5) by blast
  note linked = alru_linked_iff [OF rep assms(3,4) only] and on = alru_on_list [OF rep assms(3,4) only]
  have hot: "cleaning_policy_alru_set_hot_cache_line tick c x a =
      do { a \<leftarrow> (if x \<in> set (A p) then remove_alru_list a p x else Some a); add_alru_head tick a p x }"
    using assms(2,4) linked unfolding cleaning_policy_alru_set_hot_cache_line_def by (simp add: alru_access_defs)
  have purge: "cleaning_policy_alru_purge_cache_block_any c x a = (if x \<in> set (A p) then remove_alru_list a p x else Some a)"
    using assms(2) on unfolding cleaning_policy_alru_purge_cache_block_any_def by simp
  show ?thesis
  proof (cases "x \<in> set (A p)")
    case True
    then show ?thesis
      using hot purge alru_lists.move [OF assms(1,3,3) True] alru_lists.rem_law [OF assms(1,3) True] assms(2)
      by (auto simp: cleaning_policy_alru_purge_cache_block_def)
  next
    case False
    then have "x \<notin> set (A q)" if "q < OCF_IO_CLASS_MAX" for q using only that by blast
    then obtain a' where "add_alru_head tick a p x = Some a'" "alru_at tick a' (A(p := x # A p))"
      using alru_lists.add_law [OF assms(1,3), of x] assms(4) by (auto simp: alru_line_def)
    then show ?thesis using False hot purge assms(1) by (simp add: remove1_idem)
  qed
qed

subsection \<open>Choosing lines to flush\<close>

definition line_busy :: "(core_id \<Rightarrow> bool) \<Rightarrow> 'w::len wcache \<Rightarrow> cline \<Rightarrow> bool" where
  "line_busy opened c x \<longleftrightarrow> \<not> opened (coll_core_id (ca_coll c) x) \<or> ocf_cache_line_is_used (ca_locks c) x = Some True"

definition flush_entry :: "'w::len wcache \<Rightarrow> cline \<Rightarrow> flush_data" where
  "flush_entry c x = (x, coll_core_id (ca_coll c) x, coll_core_line (ca_coll c) x)"

text \<open>The lines of a partition that are flushed when there is no limit: those not written since \<open>t\<close> and not in use, oldest first.\<close>

definition stale_lines :: "(core_id \<Rightarrow> bool) \<Rightarrow> 'w::len wcache \<Rightarrow> alru_state \<Rightarrow> nat \<Rightarrow> cline list \<Rightarrow> cline list" where
  "stale_lines opened c a t xs = filter (\<lambda>x. ar_timestamp a x < t \<and> \<not> line_busy opened c x) (rev xs)"

lemma block_is_busy_eq:
  assumes "x < collision_table_entries (ca_coll c)" and "ocf_cache_line_is_used (ca_locks c) x \<noteq> None"
  shows "block_is_busy opened c x = Some (line_busy opened c x)" and "get_block_to_flush c x = Some (flush_entry c x)"
  using assms by (auto simp: block_is_busy_def line_busy_def get_block_to_flush_def flush_entry_def ocf_metadata_get_core_info_def)

lemma stale_empty:
  assumes "sorted_wrt (\<lambda>x y. ar_timestamp a y \<le> ar_timestamp a x) (as @ [x])" and "t \<le> ar_timestamp a x"
  shows "stale_lines opened c a t (as @ [x]) = []"
  using assms by (auto simp: stale_lines_def filter_empty_conv sorted_wrt_append)

text \<open>The walk over the rest \<open>as\<close> of a list from its end.\<close>

lemma flush_part_loop_spec:
  fixes c :: "'w::len wcache"
  assumes "dlist (ar_entries a) (ar_next a) (ar_prev a) (as @ bs)" and "sorted_wrt (\<lambda>x y. ar_timestamp a y \<le> ar_timestamp a x) as"
    and "ar_entries a = collision_table_entries (ca_coll c)" and "\<And>x. x < ar_entries a \<Longrightarrow> ocf_cache_line_is_used (ca_locks c) x \<noteq> None"
    and "length data \<le> n"
  shows "\<exists>full. flush_part_loop opened c a n t (last_or (ar_entries a) as) data =
      Some (full, take n (data @ map (flush_entry c) (stale_lines opened c a t as))) \<and>
    (full \<longrightarrow> n \<le> length (data @ map (flush_entry c) (stale_lines opened c a t as)))"
  using assms(1,2,5)
proof (induction as arbitrary: bs data rule: rev_induct)
  case Nil
  then show ?case by (subst flush_part_loop.simps) (auto simp: more_blocks_to_flush_def stale_lines_def)
next
  case (snoc x as)
  have x: "x < ar_entries a" using dlistD(2) [OF snoc.prems(1)] by auto
  have more: "more_blocks_to_flush a x t = Some (ar_timestamp a x < t)"
    using x by (auto simp: more_blocks_to_flush_def alru_access_defs)
  note busy = block_is_busy_eq [OF _ assms(4) [OF x]]
  show ?case
  proof (cases "ar_timestamp a x < t")
    case False
    then show ?thesis using more stale_empty [OF snoc.prems(2), of t opened c] snoc.prems(3)
      by (subst flush_part_loop.simps) (auto simp: last_or_def)
  next
    case True
    let ?data = "if line_busy opened c x then data else data @ [flush_entry c x]"
    have st: "data @ map (flush_entry c) (stale_lines opened c a t (as @ [x])) = ?data @ map (flush_entry c) (stale_lines opened c a t as)"
      using True by (simp add: stale_lines_def)
    show ?thesis
    proof (cases "length data = n")
      case full: True
      then show ?thesis using more True by (subst flush_part_loop.simps) (auto simp: last_or_def)
    next
      case False
      have pv: "ar_prev a x = last_or (ar_entries a) as" using dseg_node [OF dlistD(3) [of _ _ _ "as @ x # bs"]] snoc.prems(1) by simp
      have "flush_part_loop opened c a n t (last_or (ar_entries a) (as @ [x])) data =
          flush_part_loop opened c a n t (last_or (ar_entries a) as) ?data"
        using more True False busy x snoc.prems(3) assms(3) pv
        by (subst flush_part_loop.simps) (simp add: last_or_def alru_access_defs)
      moreover have "\<exists>full. flush_part_loop opened c a n t (last_or (ar_entries a) as) ?data =
          Some (full, take n (?data @ map (flush_entry c) (stale_lines opened c a t as))) \<and>
        (full \<longrightarrow> n \<le> length (?data @ map (flush_entry c) (stale_lines opened c a t as)))"
        using snoc.prems False by (intro snoc.IH [of "x # bs"]) (auto simp: sorted_wrt_append)
      ultimately show ?thesis unfolding st by simp
    qed
  qed
qed

lemma get_data_loop_spec:
  fixes c :: "'w::len wcache"
  assumes rep: "alru_rep a A" and cl: "clist (lst_part (ca_parts c)) (as @ bs)" and inv: "lst_invalid (lst_part (ca_parts c)) = OCF_IO_CLASS_MAX"
    and ent: "ar_entries a = collision_table_entries (ca_coll c)" and used: "\<And>x. x < ar_entries a \<Longrightarrow> ocf_cache_line_is_used (ca_locks c) x \<noteq> None"
    and len: "length data \<le> n"
  shows "get_data_loop opened c a n t (hd_or OCF_IO_CLASS_MAX bs) data =
    Some (take n (data @ concat (map (\<lambda>p. map (flush_entry c) (stale_lines opened c a (t p) (A p))) bs)))"
  using cl len
proof (induction bs arbitrary: as data)
  case Nil
  then show ?case using inv by (subst get_data_loop.simps) (simp add: lst_getter_def)
next
  case (Cons p bs)
  let ?st = "map (flush_entry c) (stale_lines opened c a (t p) (A p))"
  have p: "p < OCF_IO_CLASS_MAX" "lst_next (lst_part (ca_parts c)) p = hd_or OCF_IO_CLASS_MAX bs"
    using clist_next [OF Cons.prems(1)] inv by auto
  have tail: "ap_tail (ar_pol a p) = last_or (ar_entries a) (A p)" using alru_repD(1) [OF rep p(1)] by (simp add: alru_pol_ok_def)
  obtain full where full: "flush_part_loop opened c a n (t p) (ap_tail (ar_pol a p)) data = Some (full, take n (data @ ?st))"
      "full \<longrightarrow> n \<le> length (data @ ?st)"
    using flush_part_loop_spec [OF _ alru_repD(3) [OF rep p(1)] ent used Cons.prems(2), of "[]" opened "t p"] alru_repD(2) [OF rep p(1)]
    unfolding tail by auto
  show ?case
  proof (cases full)
    case True
    then show ?thesis using full inv p by (subst get_data_loop.simps) (simp add: lst_getter_def)
  next
    case False
    have "get_data_loop opened c a n t (hd_or OCF_IO_CLASS_MAX (p # bs)) data =
        get_data_loop opened c a n t (hd_or OCF_IO_CLASS_MAX bs) (take n (data @ ?st))"
      using full False inv p by (subst get_data_loop.simps) (simp add: lst_getter_def)
    also have "\<dots> = Some (take n (take n (data @ ?st) @ concat (map (\<lambda>p. map (flush_entry c) (stale_lines opened c a (t p) (A p))) bs)))"
      using Cons.prems(1) by (intro Cons.IH [of "as @ [p]"]) auto
    also have "take n (take n (data @ ?st) @ ys) = take n (data @ ?st @ ys)" for ys
      by (auto simp: min_def)
    finally show ?thesis by simp
  qed
qed

text \<open>
  C31. The policy chooses for flushing exactly the stale lines that nobody uses, the oldest of each partition first: those not written since
  the moment it computes from the clock, of an open core and not locked, of the partitions in their order, up to the configured number.
  The walk from the tails of the lists ends, trips no assertion, and misses no stale line, because the lists are ordered by time.
\<close>

theorem alru_flushes_stale_lines:
  fixes c :: "'w::len wcache"
  assumes "alru_rep a A" and "part_rep (ca_parts c) P Q"
    and "ar_entries a = collision_table_entries (ca_coll c)" and "cl_entries (ca_locks c) = collision_table_entries (ca_coll c)"
  shows "get_data_to_flush tick opened c config n a =
    Some (take n (concat (map (\<lambda>p. map (flush_entry c) (stale_lines opened c a (compute_timestamp (tick p) config) (A p))) Q)))"
proof -
  have cl: "clist (lst_part (ca_parts c)) ([] @ Q)" and inv: "lst_invalid (lst_part (ca_parts c)) = OCF_IO_CLASS_MAX"
    using assms(2) by (simp_all add: part_rep_def)
  have used: "ocf_cache_line_is_used (ca_locks c) x \<noteq> None" if "x < ar_entries a" for x
    using is_used_line_used [of x c] that assms(3,4) by simp
  show ?thesis
    using get_data_loop_spec [OF assms(1) cl inv assms(3) used, of "[]" n] clistD(4) [OF cl] inv
    by (simp add: get_data_to_flush_def)
qed

text \<open>Line 3 of the example cache is dirty and was written in second 5; it is stale in second 200.\<close>

definition example_alru :: alru_state where
  "example_alru = \<lparr>ar_entries = 4, ar_timestamp = (\<lambda>x. if x = 3 then 5 else 0), ar_prev = (\<lambda>_. 4), ar_next = (\<lambda>_. 4),
     ar_pol = (\<lambda>p. if p = 0 then \<lparr>ap_size = 1, ap_head = 3, ap_tail = 3\<rparr> else alru_empty 4), ar_access = 0\<rparr>"

definition example_A :: "part_id \<Rightarrow> cline list" where
  "example_A p = (if p = 0 then [3] else [])"

lemma example_alru_rep: "alru_rep example_alru example_A"
  by (auto simp: alru_rep_def example_alru_def example_A_def alru_pol_ok_def alru_empty_def dlist_def)

theorem alru_hot_purge_witness:
  "(\<exists>a'. cleaning_policy_alru_set_hot_cache_line 9000000 example_cache 2 example_alru = Some a' \<and>
      alru_at 9000000 a' (example_A(0 := [2, 3]))) \<and>
   (\<exists>a'. cleaning_policy_alru_purge_cache_block_any example_cache 2 example_alru = Some a' \<and> alru_at 9000000 a' (example_A(0 := [3])))"
proof -
  have at: "alru_at 9000000 example_alru example_A"
    using example_alru_rep by (simp add: alru_at_def example_A_def example_alru_def env_ticks_to_secs_def)
  have pid: "ocf_metadata_get_partition_id (ca_links example_cache) 2 = Some 0"
    by (simp add: example_cache_def ocf_metadata_get_partition_id_def ocf_metadata_get_partition_info_def)
  show ?thesis
    using alru_hot_purge [OF at pid] by (simp add: OCF_IO_CLASS_MAX_def example_alru_def example_A_def)
qed

theorem alru_flushes_stale_lines_witness:
  "\<exists>Q. part_rep (ca_parts example_cache) example_P Q \<and>
    get_data_to_flush (\<lambda>_. 200000000) (\<lambda>_. True) example_cache cleaning_policy_alru_setup 10 example_alru =
    Some (take 10 (concat (map (\<lambda>p. map (flush_entry example_cache)
      (stale_lines (\<lambda>_. True) example_cache example_alru (compute_timestamp 200000000 cleaning_policy_alru_setup) (example_A p))) Q))) \<and>
    compute_timestamp 200000000 cleaning_policy_alru_setup = 80 \<and>
    stale_lines (\<lambda>_. True) example_cache example_alru 80 (example_A 0) = [3]"
proof -
  obtain Q where Q: "part_rep (ca_parts example_cache) example_P Q"
    using example_cache_rep cache_coreD(4) [of example_cache example_P example_L example_F] by (auto simp: cache_rep_def)
  have "compute_timestamp 200000000 cleaning_policy_alru_setup = 80"
    by (simp add: compute_timestamp_def cleaning_policy_alru_setup_def OCF_ALRU_DEFAULT_STALENESS_TIME_def env_secs_to_ticks_def
        env_ticks_to_secs_def)
  moreover have "ocf_cache_line_is_used (ca_locks example_cache) 3 = Some False"
  proof -
    have "3 < cl_entries (ca_locks example_cache)" by (simp add: example_cache_def)
    then show ?thesis using is_used_line_used [of 3 example_cache] by simp
  qed
  then have "stale_lines (\<lambda>_. True) example_cache example_alru 80 (example_A 0) = [3]"
    by (simp add: stale_lines_def line_busy_def example_A_def example_alru_def)
  moreover have "get_data_to_flush (\<lambda>_. 200000000) (\<lambda>_. True) example_cache cleaning_policy_alru_setup 10 example_alru =
    Some (take 10 (concat (map (\<lambda>p. map (flush_entry example_cache)
      (stale_lines (\<lambda>_. True) example_cache example_alru (compute_timestamp 200000000 cleaning_policy_alru_setup) (example_A p))) Q)))"
    by (rule alru_flushes_stale_lines [OF example_alru_rep Q]) (simp_all add: example_cache_def example_alru_def)
  ultimately show ?thesis using Q by blast
qed

end
