(* ===== verification/ACP.thy ===== *)
theory ACP
  imports ALRU
begin

section \<open>The ACP cleaning policy\<close>

text \<open>
  \<^verbatim>\<open>src/cleaning/acp.c\<close>: every core is divided into chunks of 100 MiB. A chunk counts the dirty lines it has in the cache and is in one of eleven
  buckets, by the share of it that is dirty. Cleaning takes a chunk of the fullest bucket and flushes its dirty lines in the order of their addresses, a
  bounded number in each round. The functions are given the cache, of which they read core lines, dirty bits and locks.
\<close>

subsection \<open>State\<close>

definition ACP_CHUNK_SIZE :: nat where "ACP_CHUNK_SIZE = 104857600"
definition ACP_CHUNK_CLEANING_BACKOFF_TIME :: nat where "ACP_CHUNK_CLEANING_BACKOFF_TIME = 5"
definition ACP_BACKOFF_TIME_MS :: nat where "ACP_BACKOFF_TIME_MS = 1000"
definition ACP_MAX_BUCKETS :: nat where "ACP_MAX_BUCKETS = 11"
definition ACP_BUCKET_DEFAULTS :: "nat list" where "ACP_BUCKET_DEFAULTS = [0, 10, 20, 30, 40, 50, 60, 70, 80, 90, 100]"

record acp_chunk_info =
  ck_chunk_id :: u64
  ck_next_cleaning :: u64
  ck_core_id :: core_id
  ck_num_dirty :: nat
  ck_bucket_id :: nat

text \<open>
  A pointer to a chunk is the core with the index in the array of the core. \<open>ax_dirty\<close> is the bit the policy keeps in the metadata of every line,
  \<open>ax_chunk\<close>, \<open>ax_iter\<close> and \<open>ax_in_progress\<close> are \<^verbatim>\<open>struct acp_state\<close>, \<open>ax_flush\<close> and the next two fields \<^verbatim>\<open>struct acp_flush_context\<close>.
\<close>

type_synonym chunk_ptr = "core_id \<times> nat"

record acp_context =
  ax_dirty :: "cline \<Rightarrow> bool"
  ax_num_chunks :: "core_id \<Rightarrow> nat"
  ax_chunk_info :: "core_id \<Rightarrow> acp_chunk_info list option"
  ax_chunk_list :: "nat \<Rightarrow> chunk_ptr list"
  ax_threshold :: "nat \<Rightarrow> nat"
  ax_chunks_total :: nat
  ax_flush :: "flush_data list"
  ax_flush_chunk :: "chunk_ptr option"
  ax_error :: int
  ax_chunk :: "chunk_ptr option"
  ax_iter :: nat
  ax_in_progress :: bool

definition get_chunk :: "acp_context \<Rightarrow> chunk_ptr \<Rightarrow> acp_chunk_info option" where
  "get_chunk a = (\<lambda>(core, i). do {
     bug_on (core \<ge> OCF_CORE_MAX);
     chunks \<leftarrow> ax_chunk_info a core;
     if i < length chunks then Some (chunks ! i) else None })"

definition set_chunk :: "chunk_ptr \<Rightarrow> acp_chunk_info \<Rightarrow> acp_context \<Rightarrow> acp_context" where
  "set_chunk = (\<lambda>(core, i) ck a. a\<lparr>ax_chunk_info := (ax_chunk_info a)(core := map_option (\<lambda>l. l[i := ck]) (ax_chunk_info a core))\<rparr>)"

text \<open>The lists of the buckets are linked through the chunks: a chunk is in one of them, and is taken out of it without a look at the list.\<close>

definition list_del_chunk :: "chunk_ptr \<Rightarrow> acp_context \<Rightarrow> acp_context" where
  "list_del_chunk p a = a\<lparr>ax_chunk_list := (\<lambda>b. filter (\<lambda>q. q \<noteq> p) (ax_chunk_list a b))\<rparr>"

definition list_move :: "chunk_ptr \<Rightarrow> nat \<Rightarrow> acp_context \<Rightarrow> acp_context" where
  "list_move p b a = (let a = list_del_chunk p a in a\<lparr>ax_chunk_list := (ax_chunk_list a)(b := p # ax_chunk_list a b)\<rparr>)"

definition list_move_tail :: "chunk_ptr \<Rightarrow> nat \<Rightarrow> acp_context \<Rightarrow> acp_context" where
  "list_move_tail p b a = (let a = list_del_chunk p a in a\<lparr>ax_chunk_list := (ax_chunk_list a)(b := ax_chunk_list a b @ [p])\<rparr>)"

definition acp_meta_get :: "'w::len wcache \<Rightarrow> cline \<Rightarrow> acp_context \<Rightarrow> bool option" where
  "acp_meta_get c cache_line a = do { bug_on (cache_line \<ge> ca_entries c); Some (ax_dirty a cache_line) }"

definition acp_meta_set :: "'w::len wcache \<Rightarrow> cline \<Rightarrow> bool \<Rightarrow> acp_context \<Rightarrow> acp_context option" where
  "acp_meta_set c cache_line d a = do { bug_on (cache_line \<ge> ca_entries c); Some (a\<lparr>ax_dirty := (ax_dirty a)(cache_line := d)\<rparr>) }"

definition acp_get_chunk :: "'w::len wcache \<Rightarrow> cline \<Rightarrow> chunk_ptr option" where
  "acp_get_chunk c cache_line = do {
     (core_id, core_line) \<leftarrow> ocf_metadata_get_core_info (ca_coll c) cache_line;
     Some (core_id, core_line * ocf_line_size (ca_line c) mod U64_MOD div ACP_CHUNK_SIZE) }"

subsection \<open>Buckets\<close>

definition acp_update_bucket :: "chunk_ptr \<Rightarrow> acp_context \<Rightarrow> acp_context option" where
  "acp_update_bucket p a = do {
     chunk \<leftarrow> get_chunk a p;
     let bucket = ck_bucket_id chunk;
     if ck_num_dirty chunk > ax_threshold a bucket then do {
       bug_on (bucket = ACP_MAX_BUCKETS - 1);
       Some (list_move_tail p (bucket + 1) (set_chunk p (chunk\<lparr>ck_bucket_id := bucket + 1\<rparr>) a)) }
     else if bucket \<noteq> 0 \<and> ck_num_dirty chunk \<le> ax_threshold a (bucket - 1) then
       Some (list_move p (bucket - 1) (set_chunk p (chunk\<lparr>ck_bucket_id := bucket - 1\<rparr>) a))
     else Some a }"

definition cleaning_policy_acp_init_cache_block :: "'w::len wcache \<Rightarrow> cline \<Rightarrow> acp_context \<Rightarrow> acp_context option" where
  "cleaning_policy_acp_init_cache_block c cache_line a = do {
     _ \<leftarrow> acp_meta_get c cache_line a;
     acp_meta_set c cache_line False a }"

definition cleaning_policy_acp_set_hot_cache_line :: "'w::len wcache \<Rightarrow> cline \<Rightarrow> acp_context \<Rightarrow> acp_context option" where
  "cleaning_policy_acp_set_hot_cache_line c cache_line a = do {
     dirty \<leftarrow> acp_meta_get c cache_line a;
     p \<leftarrow> acp_get_chunk c cache_line;
     a \<leftarrow> (if \<not> dirty then do {
         a \<leftarrow> acp_meta_set c cache_line True a;
         chunk \<leftarrow> get_chunk a p;
         Some (set_chunk p (chunk\<lparr>ck_num_dirty := (ck_num_dirty chunk + 1) mod U16_MOD\<rparr>) a) }
       else Some a);
     acp_update_bucket p a }"

definition cleaning_policy_acp_purge_block :: "'w::len wcache \<Rightarrow> cline \<Rightarrow> acp_context \<Rightarrow> acp_context option" where
  "cleaning_policy_acp_purge_block c cache_line a = do {
     dirty \<leftarrow> acp_meta_get c cache_line a;
     p \<leftarrow> acp_get_chunk c cache_line;
     a \<leftarrow> (if dirty then do {
         a \<leftarrow> acp_meta_set c cache_line False a;
         chunk \<leftarrow> get_chunk a p;
         Some (set_chunk p (chunk\<lparr>ck_num_dirty := (ck_num_dirty chunk + U16_MOD - 1) mod U16_MOD\<rparr>) a) }
       else Some a);
     acp_update_bucket p a }"

subsection \<open>Cores\<close>

definition del_core_chunk :: "core_id \<Rightarrow> nat \<Rightarrow> acp_context \<Rightarrow> acp_context option" where
  "del_core_chunk core_id i a = do {
     _ \<leftarrow> get_chunk a (core_id, i);
     Some (list_del_chunk (core_id, i) a) }"

definition cleaning_policy_acp_remove_core :: "core_id \<Rightarrow> acp_context \<Rightarrow> acp_context option" where
  "cleaning_policy_acp_remove_core core_id a = do {
     bug_on (ax_chunks_total a < ax_num_chunks a core_id);
     a \<leftarrow> (if ax_in_progress a then do {
         p \<leftarrow> ax_chunk a;
         chunk \<leftarrow> get_chunk a p;
         Some (if ck_core_id chunk = core_id then a\<lparr>ax_in_progress := False, ax_iter := 0, ax_chunk := None\<rparr> else a) }
       else Some a);
     a \<leftarrow> fold_opt (del_core_chunk core_id) [0..<ax_num_chunks a core_id] a;
     let a = a\<lparr>ax_chunks_total := ax_chunks_total a - ax_num_chunks a core_id, ax_num_chunks := (ax_num_chunks a)(core_id := 0)\<rparr>;
     Some (a\<lparr>ax_chunk_info := (ax_chunk_info a)(core_id := None)\<rparr>) }"

text \<open>\<open>core_size\<close> is the length of the core, \<open>mem_ok\<close> tells whether there is memory for its chunks.\<close>

definition OCF_DIV_ROUND_UP_64 :: "u64 \<Rightarrow> u64 \<Rightarrow> u64" where
  "OCF_DIV_ROUND_UP_64 x y = (x + y + U64_MOD - 1) mod U64_MOD div y"

definition acp_chunk_zero :: acp_chunk_info where
  "acp_chunk_zero = \<lparr>ck_chunk_id = 0, ck_next_cleaning = 0, ck_core_id = 0, ck_num_dirty = 0, ck_bucket_id = 0\<rparr>"

definition add_core_chunk :: "core_id \<Rightarrow> nat \<Rightarrow> acp_context \<Rightarrow> acp_context option" where
  "add_core_chunk core_id i a = do {
     chunk \<leftarrow> get_chunk a (core_id, i);
     let a = set_chunk (core_id, i) (chunk\<lparr>ck_core_id := core_id, ck_chunk_id := i\<rparr>) a;
     Some (a\<lparr>ax_chunk_list := (ax_chunk_list a)(0 := (core_id, i) # ax_chunk_list a 0)\<rparr>) }"

definition cleaning_policy_acp_add_core :: "u64 \<Rightarrow> bool \<Rightarrow> core_id \<Rightarrow> acp_context \<Rightarrow> (int \<times> acp_context) option" where
  "cleaning_policy_acp_add_core core_size mem_ok core_id a = do {
     let num_chunks = OCF_DIV_ROUND_UP_64 core_size ACP_CHUNK_SIZE;
     bug_on (ax_chunk_info a core_id \<noteq> None);
     if \<not> mem_ok then Some (- OCF_ERR_NO_MEM, a)
     else do {
       let a = a\<lparr>ax_chunk_info := (ax_chunk_info a)(core_id := Some (replicate num_chunks acp_chunk_zero)),
                ax_num_chunks := (ax_num_chunks a)(core_id := num_chunks), ax_chunks_total := (ax_chunks_total a + num_chunks) mod U64_MOD\<rparr>;
       a \<leftarrow> fold_opt (add_core_chunk core_id) [0..<ax_num_chunks a core_id] a;
       Some (0, a) } }"

text \<open>\<open>cores\<close> are the cores of the cache in the order of their ids, each with its length and whether its chunks can be allocated.\<close>

definition acp_remove_cores :: "(core_id \<times> u64 \<times> bool) list \<Rightarrow> acp_context \<Rightarrow> acp_context option" where
  "acp_remove_cores cores = fold_opt (\<lambda>(core_id, _). cleaning_policy_acp_remove_core core_id) cores"

fun acp_load_loop :: "(core_id \<times> u64 \<times> bool) list \<Rightarrow> acp_context \<Rightarrow> (int \<times> acp_context) option" where
  "acp_load_loop [] a = Some (0, a)"
| "acp_load_loop ((core_id, sz, mem_ok) # cores) a = do {
     (err, a) \<leftarrow> cleaning_policy_acp_add_core sz mem_ok core_id a;
     if err \<noteq> 0 then Some (err, a) else acp_load_loop cores a }"

definition acp_load_cores :: "(core_id \<times> u64 \<times> bool) list \<Rightarrow> acp_context \<Rightarrow> (int \<times> acp_context) option" where
  "acp_load_cores cores a = do {
     (err, a) \<leftarrow> acp_load_loop cores a;
     a \<leftarrow> (if err \<noteq> 0 then acp_remove_cores cores a else Some a);
     Some (err, a) }"

text \<open>The end of the policy: its context is freed, and the pointer to it null again.\<close>

definition cleaning_policy_acp_deinitialize :: "(core_id \<times> u64 \<times> bool) list \<Rightarrow> acp_context \<Rightarrow> acp_context option option" where
  "cleaning_policy_acp_deinitialize cores a = do {
     _ \<leftarrow> acp_remove_cores cores a;
     Some None }"

definition acp_rebuild_line :: "'w::len wcache \<Rightarrow> cline \<Rightarrow> acp_context \<Rightarrow> acp_context option" where
  "acp_rebuild_line c cline a = do {
     (cline_core_id, _) \<leftarrow> ocf_metadata_get_core_info (ca_coll c) cline;
     if cline_core_id = OCF_CORE_MAX then Some a
     else do {
       a \<leftarrow> cleaning_policy_acp_init_cache_block c cline a;
       dirty \<leftarrow> metadata_test_dirty (ca_status c) cline;
       if \<not> dirty then Some a else cleaning_policy_acp_set_hot_cache_line c cline a } }"

definition acp_rebuild :: "'w::len wcache \<Rightarrow> acp_context \<Rightarrow> acp_context option" where
  "acp_rebuild c = fold_opt (acp_rebuild_line c) [0..<ca_entries c]"

text \<open>The context is allocated with zeroes; the bits of the lines are in the metadata and outlive it, so they come from \<open>bits\<close>.\<close>

definition acp_context_zero :: "(cline \<Rightarrow> bool) \<Rightarrow> acp_context" where
  "acp_context_zero bits = \<lparr>ax_dirty = bits, ax_num_chunks = (\<lambda>_. 0), ax_chunk_info = (\<lambda>_. None), ax_chunk_list = (\<lambda>_. []), ax_threshold = (\<lambda>_. 0),
     ax_chunks_total = 0, ax_flush = [], ax_flush_chunk = None, ax_error = 0, ax_chunk = None, ax_iter = 0, ax_in_progress = False\<rparr>"

definition acp_init_bucket :: "'w::len wcache \<Rightarrow> nat \<Rightarrow> acp_context \<Rightarrow> acp_context" where
  "acp_init_bucket c i a = a\<lparr>ax_chunk_list := (ax_chunk_list a)(i := []),
     ax_threshold := (ax_threshold a)(i := ACP_CHUNK_SIZE div ocf_line_size (ca_line c) * (ACP_BUCKET_DEFAULTS ! i) div 100 mod U16_MOD)\<rparr>"

text \<open>
  \<open>context\<close> is what the cleaner has before, \<open>mem_ok\<close> whether the context can be allocated, \<open>lock_err\<close> what initialising its lock returns.
  The result is the code and the context afterwards, with \<open>None\<close> for a null pointer.
\<close>

definition cleaning_policy_acp_initialize ::
  "bool \<Rightarrow> int \<Rightarrow> (core_id \<times> u64 \<times> bool) list \<Rightarrow> 'w::len wcache \<Rightarrow> (cline \<Rightarrow> bool) \<Rightarrow> acp_context option \<Rightarrow> (int \<times> acp_context option) option" where
  "cleaning_policy_acp_initialize mem_ok lock_err cores c bits context = do {
     bug_on (ACP_CHUNK_SIZE div 4096 \<ge> U16_MOD);
     bug_on (context \<noteq> None);
     if \<not> mem_ok then Some (- OCF_ERR_NO_MEM, None)
     else if lock_err \<noteq> 0 then Some (lock_err, None)
     else do {
       let a = fold (acp_init_bucket c) [0..<ACP_MAX_BUCKETS] (acp_context_zero bits);
       (err, a) \<leftarrow> (if cores \<noteq> [] then acp_load_cores cores a else Some (0, a));
       if err \<noteq> 0 then do {
         context \<leftarrow> cleaning_policy_acp_deinitialize cores a;
         Some (err, context) }
       else do {
         a \<leftarrow> acp_rebuild c a;
         Some (0, Some a) } } }"

text \<open>Purging the lines of a core in a range of bytes, by the walk of \<^verbatim>\<open>ocf_metadata_actor\<close> over all lines. A line in use is left out and reported.\<close>

definition acp_actor_step ::
  "'w::len wcache \<Rightarrow> core_id \<Rightarrow> core_line \<Rightarrow> core_line \<Rightarrow> cline \<Rightarrow> acp_context \<times> int \<Rightarrow> (acp_context \<times> int) option" where
  "acp_actor_step c core_id start_line end_line i = (\<lambda>(a, ret). do {
     acting \<leftarrow> is_cache_line_acting c i core_id start_line end_line;
     if acting then do {
       used \<leftarrow> ocf_cache_line_is_used (ca_locks c) i;
       if used then Some (a, - OCF_ERR_AGAIN)
       else do { a \<leftarrow> cleaning_policy_acp_purge_block c i a; Some (a, ret) } }
     else Some (a, ret) })"

definition cleaning_policy_acp_purge_range :: "'w::len wcache \<Rightarrow> core_id \<Rightarrow> u64 \<Rightarrow> u64 \<Rightarrow> acp_context \<Rightarrow> (acp_context \<times> int) option" where
  "cleaning_policy_acp_purge_range c core_id start_byte end_byte a =
     fold_opt (acp_actor_step c core_id (ocf_bytes_2_lines (ca_line c) start_byte) (ocf_bytes_2_lines (ca_line c) end_byte)) [0..<ca_entries c] (a, 0)"

subsection \<open>Parameters\<close>

definition OCF_ACP_MIN_WAKE_UP :: nat where "OCF_ACP_MIN_WAKE_UP = 0"
definition OCF_ACP_MAX_WAKE_UP :: nat where "OCF_ACP_MAX_WAKE_UP = 10000"
definition OCF_ACP_DEFAULT_WAKE_UP :: nat where "OCF_ACP_DEFAULT_WAKE_UP = 10"
definition OCF_ACP_MIN_FLUSH_MAX_BUFFERS :: nat where "OCF_ACP_MIN_FLUSH_MAX_BUFFERS = 1"
definition OCF_ACP_MAX_FLUSH_MAX_BUFFERS :: nat where "OCF_ACP_MAX_FLUSH_MAX_BUFFERS = 10000"
definition OCF_ACP_DEFAULT_FLUSH_MAX_BUFFERS :: nat where "OCF_ACP_DEFAULT_FLUSH_MAX_BUFFERS = 128"

record acp_config =
  pc_thread_wakeup_time :: nat
  pc_flush_max_buffers :: nat

definition cleaning_policy_acp_setup :: acp_config where
  "cleaning_policy_acp_setup = \<lparr>pc_thread_wakeup_time = OCF_ACP_DEFAULT_WAKE_UP, pc_flush_max_buffers = OCF_ACP_DEFAULT_FLUSH_MAX_BUFFERS\<rparr>"

text \<open>Any other number of a parameter is \<open>None\<close>.\<close>

datatype acp_param = ocf_acp_wake_up_time | ocf_acp_flush_max_buffers

definition cleaning_policy_acp_set_cleaning_param :: "acp_param option \<Rightarrow> nat \<Rightarrow> acp_config \<Rightarrow> int + acp_config" where
  "cleaning_policy_acp_set_cleaning_param param_id v config = (case param_id of
     Some ocf_acp_wake_up_time \<Rightarrow> OCF_CLEANING_CHECK_PARAM v OCF_ACP_MIN_WAKE_UP OCF_ACP_MAX_WAKE_UP (config\<lparr>pc_thread_wakeup_time := v\<rparr>)
   | Some ocf_acp_flush_max_buffers \<Rightarrow>
       OCF_CLEANING_CHECK_PARAM v OCF_ACP_MIN_FLUSH_MAX_BUFFERS OCF_ACP_MAX_FLUSH_MAX_BUFFERS (config\<lparr>pc_flush_max_buffers := v\<rparr>)
   | None \<Rightarrow> Inl (- OCF_ERR_INVAL))"

definition cleaning_policy_acp_get_cleaning_param :: "acp_param option \<Rightarrow> acp_config \<Rightarrow> int + nat" where
  "cleaning_policy_acp_get_cleaning_param param_id config = (case param_id of
     Some ocf_acp_flush_max_buffers \<Rightarrow> Inr (pc_flush_max_buffers config)
   | Some ocf_acp_wake_up_time \<Rightarrow> Inr (pc_thread_wakeup_time config)
   | None \<Rightarrow> Inl (- OCF_ERR_INVAL))"

subsection \<open>Cleaning\<close>

text \<open>
  The functions of this section change the locks of the cache and nothing else of it. \<open>opened\<close> tells which cores are open, \<open>tick\<close> is the clock.
\<close>

definition acp_trylock_dirty :: "core_id \<Rightarrow> u64 \<Rightarrow> 'w::len wcache \<Rightarrow> (cline \<times> 'w wcache) option" where
  "acp_trylock_dirty core_id core_line c = do {
     info \<leftarrow> collision_lookup (ca_coll c) core_id core_line;
     (case info of
        None \<Rightarrow> Some (ca_entries c, c)
      | Some x \<Rightarrow> do {
          dirty \<leftarrow> metadata_test_dirty (ca_status c) x;
          if \<not> dirty then Some (ca_entries c, c)
          else do {
            (locked, l) \<leftarrow> ocf_cache_line_try_lock_rd (ca_locks c) x;
            Some (if locked then x else ca_entries c, c\<lparr>ca_locks := l\<rparr>) } }) }"

definition acp_handle_flush_error :: "u64 \<Rightarrow> acp_context \<Rightarrow> acp_context option" where
  "acp_handle_flush_error tick a = do {
     p \<leftarrow> ax_flush_chunk a;
     chunk \<leftarrow> get_chunk a p;
     Some (set_chunk p (chunk\<lparr>ck_next_cleaning := (tick + env_secs_to_ticks ACP_CHUNK_CLEANING_BACKOFF_TIME) mod U64_MOD\<rparr>) a) }"

definition acp_can_clean_chunk :: "(core_id \<Rightarrow> bool) \<Rightarrow> u64 \<Rightarrow> acp_chunk_info \<Rightarrow> bool" where
  "acp_can_clean_chunk opened tick chunk =
     (opened (ck_core_id chunk) \<and> (ck_next_cleaning chunk > tick \<or> ck_next_cleaning chunk = 0))"

fun acp_find_chunk :: "(core_id \<Rightarrow> bool) \<Rightarrow> u64 \<Rightarrow> acp_context \<Rightarrow> chunk_ptr list \<Rightarrow> chunk_ptr option option" where
  "acp_find_chunk opened tick a [] = Some None"
| "acp_find_chunk opened tick a (p # ps) = do {
     cur \<leftarrow> get_chunk a p;
     if acp_can_clean_chunk opened tick cur then Some (Some p) else acp_find_chunk opened tick a ps }"

fun acp_candidate_loop :: "(core_id \<Rightarrow> bool) \<Rightarrow> u64 \<Rightarrow> acp_context \<Rightarrow> nat \<Rightarrow> chunk_ptr option option" where
  "acp_candidate_loop opened tick a 0 = Some None"
| "acp_candidate_loop opened tick a (Suc i) = do {
     found \<leftarrow> acp_find_chunk opened tick a (ax_chunk_list a (Suc i));
     (case found of Some p \<Rightarrow> Some (Some p) | None \<Rightarrow> acp_candidate_loop opened tick a i) }"

definition acp_get_cleaning_candidate :: "(core_id \<Rightarrow> bool) \<Rightarrow> u64 \<Rightarrow> acp_context \<Rightarrow> chunk_ptr option option" where
  "acp_get_cleaning_candidate opened tick a = acp_candidate_loop opened tick a (ACP_MAX_BUCKETS - 1)"

definition acp_unlock_line :: "flush_data \<Rightarrow> 'w::len wcache \<Rightarrow> 'w wcache option" where
  "acp_unlock_line d c = do {
     l \<leftarrow> ocf_cache_line_unlock_rd (ca_locks c) (fst d);
     Some (c\<lparr>ca_locks := l\<rparr>) }"

text \<open>The end of a flush. The result is the interval after which the next round is due.\<close>

definition acp_flush_end :: "u64 \<Rightarrow> acp_config \<Rightarrow> int \<Rightarrow> acp_context \<times> 'w::len wcache \<Rightarrow> (nat \<times> acp_context \<times> 'w wcache) option" where
  "acp_flush_end tick config err = (\<lambda>(a, c). do {
     c \<leftarrow> fold_opt acp_unlock_line (ax_flush a) c;
     a \<leftarrow> (if err \<noteq> 0 then acp_handle_flush_error tick (a\<lparr>ax_error := err\<rparr>) else Some a);
     Some (pc_thread_wakeup_time config, a, c) })"

text \<open>One line of the chunk: it is locked and written down if it is dirty and not busy. The table of lines has a fixed size.\<close>

definition acp_take_line :: "core_id \<Rightarrow> u64 \<Rightarrow> acp_context \<times> 'w::len wcache \<Rightarrow> (acp_context \<times> 'w wcache) option" where
  "acp_take_line core_id core_line = (\<lambda>(a, c). do {
     (cache_line, c) \<leftarrow> acp_trylock_dirty core_id core_line c;
     if cache_line = ca_entries c then Some (a, c)
     else do {
       bug_on (length (ax_flush a) \<ge> OCF_ACP_MAX_FLUSH_MAX_BUFFERS);
       Some (a\<lparr>ax_flush := ax_flush a @ [(cache_line, core_id, core_line)]\<rparr>, c) } })"

function acp_prepare_loop ::
  "nat \<Rightarrow> nat \<Rightarrow> core_id \<Rightarrow> u64 \<Rightarrow> acp_context \<Rightarrow> 'w::len wcache \<Rightarrow> (acp_context \<times> 'w wcache) option" where
  "acp_prepare_loop lines_per_chunk flush_max_buffers core_id first_core_line a c =
     (if ax_iter a < lines_per_chunk \<and> length (ax_flush a) < flush_max_buffers then do {
        (a', c') \<leftarrow> acp_take_line core_id ((first_core_line + ax_iter a) mod U64_MOD) (a, c);
        acp_prepare_loop lines_per_chunk flush_max_buffers core_id first_core_line (a'\<lparr>ax_iter := ax_iter a + 1\<rparr>) c' }
      else Some (a, c))"
  by auto
termination
  by (relation "measure (\<lambda>(n, _, _, _, a, _). n - ax_iter a)") auto

definition acp_prepare_flush_data :: "nat \<Rightarrow> acp_context \<times> 'w::len wcache \<Rightarrow> (bool \<times> acp_context \<times> 'w wcache) option" where
  "acp_prepare_flush_data flush_max_buffers = (\<lambda>(a, c). do {
     p \<leftarrow> ax_chunk a;
     chunk \<leftarrow> get_chunk a p;
     let lines_per_chunk = ACP_CHUNK_SIZE div ocf_line_size (ca_line c);
     let first_core_line = ck_chunk_id chunk * lines_per_chunk mod U64_MOD;
     (a, c) \<leftarrow> acp_prepare_loop lines_per_chunk flush_max_buffers (ck_core_id chunk) first_core_line (a\<lparr>ax_flush := [], ax_flush_chunk := Some p\<rparr>) c;
     let a = (if ax_iter a = lines_per_chunk then a\<lparr>ax_in_progress := False\<rparr> else a);
     Some (ax_flush a \<noteq> [], a, c) })"

text \<open>
  A round of cleaning. The result is what is handed to the cleaner, \<open>None\<close> when nothing is, and the interval after which the next round is due; for a flush
  \<open>acp_flush_end\<close> tells it when the flush is over.
\<close>

definition cleaning_policy_acp_perform_cleaning ::
  "(core_id \<Rightarrow> bool) \<Rightarrow> u64 \<Rightarrow> acp_config \<Rightarrow> acp_context \<times> 'w::len wcache \<Rightarrow> (flush_data list option \<times> nat \<times> acp_context \<times> 'w wcache) option" where
  "cleaning_policy_acp_perform_cleaning opened tick config = (\<lambda>(a, c). do {
     (nothing, a) \<leftarrow> (if \<not> ax_in_progress a then do {
         cand \<leftarrow> acp_get_cleaning_candidate opened tick a;
         (case cand of
            None \<Rightarrow> Some (True, a\<lparr>ax_chunk := None\<rparr>)
          | Some p \<Rightarrow> Some (False, a\<lparr>ax_chunk := Some p, ax_iter := 0, ax_in_progress := True\<rparr>)) }
       else Some (False, a));
     if nothing then Some (None, ACP_BACKOFF_TIME_MS, a, c)
     else do {
       (some, a, c) \<leftarrow> acp_prepare_flush_data (pc_flush_max_buffers config) (a, c);
       if some then Some (Some (ax_flush a), 0, a, c)
       else do {
         (interval, a, c) \<leftarrow> acp_flush_end tick config 0 (a, c);
         Some (None, interval, a, c) } } })"

subsection \<open>Invariant\<close>

text \<open>
  A chunk counts its dirty lines and is in the bucket that its count belongs to: more than the threshold of the bucket below, not more than that of its own.
\<close>

definition lpc :: "'w::len wcache \<Rightarrow> nat" where
  "lpc c = ACP_CHUNK_SIZE div ocf_line_size (ca_line c)"

definition thr :: "'w::len wcache \<Rightarrow> nat \<Rightarrow> nat" where
  "thr c b = lpc c * (ACP_BUCKET_DEFAULTS ! b) div 100"

definition chunk_of :: "'w::len wcache \<Rightarrow> cline \<Rightarrow> chunk_ptr" where
  "chunk_of c x = (coll_core_id (ca_coll c) x, coll_core_line (ca_coll c) x div lpc c)"

definition acp_geo :: "'w::len wcache \<Rightarrow> bool" where
  "acp_geo c \<longleftrightarrow> ocf_line_size (ca_line c) \<in> {4096, 8192, 16384, 32768, 65536} \<and> coll_inv (ca_coll c)"

text \<open>A line that the policy can be told of: it is mapped, its core line lies in 64 bits, and the chunk of its core line exists.\<close>

definition acp_line :: "'w::len wcache \<Rightarrow> acp_context \<Rightarrow> cline \<Rightarrow> bool" where
  "acp_line c a x \<longleftrightarrow> x \<in> mapped_lines (ca_coll c) \<and> coll_core_line (ca_coll c) x * ocf_line_size (ca_line c) < U64_MOD \<and> get_chunk a (chunk_of c x) \<noteq> None"

definition chunk_dirty :: "'w::len wcache \<Rightarrow> acp_context \<Rightarrow> chunk_ptr \<Rightarrow> cline set" where
  "chunk_dirty c a p = {x \<in> mapped_lines (ca_coll c). ax_dirty a x \<and> chunk_of c x = p}"

definition in_bucket :: "'w::len wcache \<Rightarrow> nat \<Rightarrow> nat \<Rightarrow> bool" where
  "in_bucket c b n \<longleftrightarrow> n \<le> thr c b \<and> (b \<noteq> 0 \<longrightarrow> thr c (b - 1) < n)"

text \<open>All of the invariant but the place of the chunk \<open>p\<close>, which may be one bucket off.\<close>

definition near_bucket :: "'w::len wcache \<Rightarrow> nat \<Rightarrow> nat \<Rightarrow> bool" where
  "near_bucket c b n \<longleftrightarrow> n \<le> lpc c \<and> n \<le> thr c b + 1 \<and> (b \<noteq> 0 \<longrightarrow> thr c (b - 1) \<le> n)"

definition acp_state_ok :: "(chunk_ptr \<Rightarrow> nat \<Rightarrow> nat \<Rightarrow> bool) \<Rightarrow> 'w::len wcache \<Rightarrow> acp_context \<Rightarrow> bool" where
  "acp_state_ok place c a \<longleftrightarrow> acp_geo c \<and> (\<forall>b < ACP_MAX_BUCKETS. ax_threshold a b = thr c b) \<and>
     (\<forall>x \<in> mapped_lines (ca_coll c). ax_dirty a x \<longrightarrow> acp_line c a x) \<and>
     (\<forall>p ck. get_chunk a p = Some ck \<longrightarrow> ck_core_id ck = fst p \<and> ck_chunk_id ck = snd p \<and> ck_num_dirty ck = card (chunk_dirty c a p) \<and>
        ck_bucket_id ck < ACP_MAX_BUCKETS \<and> place p (ck_bucket_id ck) (ck_num_dirty ck)) \<and>
     (\<forall>b. distinct (ax_chunk_list a b) \<and> set (ax_chunk_list a b) = {p. \<exists>ck. get_chunk a p = Some ck \<and> ck_bucket_id ck = b})"

abbreviation acp_rep :: "'w::len wcache \<Rightarrow> acp_context \<Rightarrow> bool" where
  "acp_rep c a \<equiv> acp_state_ok (\<lambda>_. in_bucket c) c a"

abbreviation acp_near :: "chunk_ptr \<Rightarrow> 'w::len wcache \<Rightarrow> acp_context \<Rightarrow> bool" where
  "acp_near p c a \<equiv> acp_state_ok (\<lambda>q. if q = p then near_bucket c else in_bucket c) c a"

lemma acp_state_okD:
  assumes "acp_state_ok place c a"
  shows "acp_geo c" "b < ACP_MAX_BUCKETS \<Longrightarrow> ax_threshold a b = thr c b" "x \<in> mapped_lines (ca_coll c) \<Longrightarrow> ax_dirty a x \<Longrightarrow> acp_line c a x"
    "get_chunk a p = Some ck \<Longrightarrow> ck_core_id ck = fst p \<and> ck_chunk_id ck = snd p \<and> ck_num_dirty ck = card (chunk_dirty c a p) \<and>
      ck_bucket_id ck < ACP_MAX_BUCKETS \<and> place p (ck_bucket_id ck) (ck_num_dirty ck)"
    "distinct (ax_chunk_list a b)" "set (ax_chunk_list a b) = {p. \<exists>ck. get_chunk a p = Some ck \<and> ck_bucket_id ck = b}"
  using assms unfolding acp_state_ok_def by blast+

lemma geo_lpc:
  assumes "acp_geo c"
  shows "lpc c * ocf_line_size (ca_line c) = ACP_CHUNK_SIZE" "lpc c \<in> {25600, 12800, 6400, 3200, 1600}"
  using assms by (auto simp: acp_geo_def lpc_def ACP_CHUNK_SIZE_def)

lemma bucket_cases: "b < ACP_MAX_BUCKETS \<longleftrightarrow> b \<in> {0, 1, 2, 3, 4, 5, 6, 7, 8, 9, 10}"
  unfolding ACP_MAX_BUCKETS_def by (simp add: set_eq_iff) presburger

lemma thr_values:
  assumes "acp_geo c"
  shows "thr c 0 = 0" "b < 10 \<Longrightarrow> thr c b < thr c (b + 1)" "thr c 10 = lpc c" "lpc c < U16_MOD" "b < ACP_MAX_BUCKETS \<Longrightarrow> thr c b \<le> lpc c"
proof -
  show "thr c 0 = 0" "thr c 10 = lpc c" by (simp_all add: thr_def ACP_BUCKET_DEFAULTS_def)
  show "lpc c < U16_MOD" using geo_lpc(2) [OF assms] by auto
  have t: "thr c b = lpc c div 10 * b" if "b < ACP_MAX_BUCKETS" for b
    using that geo_lpc(2) [OF assms] unfolding bucket_cases thr_def ACP_BUCKET_DEFAULTS_def by auto
  show "b < 10 \<Longrightarrow> thr c b < thr c (b + 1)" using t [of b] t [of "b + 1"] geo_lpc(2) [OF assms] by (auto simp: ACP_MAX_BUCKETS_def)
  show "b < ACP_MAX_BUCKETS \<Longrightarrow> thr c b \<le> lpc c" using t [of b] geo_lpc(2) [OF assms] by (auto simp: ACP_MAX_BUCKETS_def)
qed

lemma get_set_chunk:
  assumes "get_chunk a p = Some ck0"
  shows "get_chunk (set_chunk p ck a) q = (if q = p then Some ck else get_chunk a q)"
  using assms by (cases p; cases q) (auto simp: get_chunk_def set_chunk_def bind_eq_Some_conv split: if_splits option.splits)

lemma set_chunk_fields [simp]:
  "ax_dirty (set_chunk p ck a) = ax_dirty a" "ax_chunk_list (set_chunk p ck a) = ax_chunk_list a" "ax_threshold (set_chunk p ck a) = ax_threshold a"
  by (simp_all add: set_chunk_def split: prod.splits)

lemma list_move_fields [simp]:
  "ax_dirty (list_move p b a) = ax_dirty a" "ax_threshold (list_move p b a) = ax_threshold a" "get_chunk (list_move p b a) = get_chunk a"
  "ax_dirty (list_move_tail p b a) = ax_dirty a" "ax_threshold (list_move_tail p b a) = ax_threshold a" "get_chunk (list_move_tail p b a) = get_chunk a"
  by (simp_all add: list_move_def list_move_tail_def list_del_chunk_def get_chunk_def fun_eq_iff Let_def)

lemma chunk_dirty_cong [simp]:
  "chunk_dirty c (set_chunk q ck a) = chunk_dirty c a" "chunk_dirty c (list_move q b a) = chunk_dirty c a" "chunk_dirty c (list_move_tail q b a) = chunk_dirty c a"
  by (simp_all add: chunk_dirty_def fun_eq_iff)

text \<open>The lines of a chunk that are dirty are no more than the chunk has lines.\<close>

lemma chunk_dirty_bound:
  assumes geo: "acp_geo c"
  shows "finite (chunk_dirty c a p)" "card (chunk_dirty c a p) \<le> lpc c"
proof -
  have "chunk_dirty c a p \<subseteq> {..<ca_entries c}" using mapped_less geo by (auto simp: chunk_dirty_def acp_geo_def)
  then show "finite (chunk_dirty c a p)" by (rule finite_subset) simp
  have l: "0 < lpc c" using geo_lpc(2) [OF geo] by auto
  have k: "inj_on (line_key (ca_coll c)) (mapped_lines (ca_coll c))" using geo by (simp add: acp_geo_def coll_inv_def coll_rep_def mapped_lines_def)
  have inj: "inj_on (coll_core_line (ca_coll c)) (chunk_dirty c a p)"
  proof (rule inj_onI)
    fix x y assume xy: "x \<in> chunk_dirty c a p" "y \<in> chunk_dirty c a p" and e: "coll_core_line (ca_coll c) x = coll_core_line (ca_coll c) y"
    have "line_key (ca_coll c) x = line_key (ca_coll c) y" using xy e by (simp add: chunk_dirty_def chunk_of_def line_key_def prod_eq_iff)
    moreover have "x \<in> mapped_lines (ca_coll c)" "y \<in> mapped_lines (ca_coll c)" using xy unfolding chunk_dirty_def by blast+
    ultimately show "x = y" using k by (blast dest: inj_onD)
  qed
  have "coll_core_line (ca_coll c) x \<in> {snd p * lpc c..<snd p * lpc c + lpc c}" if "x \<in> chunk_dirty c a p" for x
  proof -
    have "coll_core_line (ca_coll c) x div lpc c = snd p" using that by (auto simp: chunk_dirty_def chunk_of_def)
    then show ?thesis using div_times_less_eq_dividend [of "coll_core_line (ca_coll c) x" "lpc c"]
        dividend_less_div_times [OF l, of "coll_core_line (ca_coll c) x"] by (simp add: add.commute)
  qed
  then have "coll_core_line (ca_coll c) ` chunk_dirty c a p \<subseteq> {snd p * lpc c..<snd p * lpc c + lpc c}" by blast
  then have "card (coll_core_line (ca_coll c) ` chunk_dirty c a p) \<le> lpc c" using card_mono [of "{snd p * lpc c..<snd p * lpc c + lpc c}"] by fastforce
  then show "card (chunk_dirty c a p) \<le> lpc c" by (simp add: card_image [OF inj])
qed

text \<open>Moving a chunk that is one line off its bucket by one bucket puts it right, and a chunk in the fullest bucket never has to move up.\<close>

lemma near_bucket_fix:
  assumes geo: "acp_geo c" and b: "b < ACP_MAX_BUCKETS" and n: "near_bucket c b n"
  shows "thr c b < n \<Longrightarrow> b \<noteq> ACP_MAX_BUCKETS - 1 \<and> in_bucket c (b + 1) n"
    and "b \<noteq> 0 \<Longrightarrow> n \<le> thr c (b - 1) \<Longrightarrow> in_bucket c (b - 1) n"
    and "\<not> thr c b < n \<Longrightarrow> \<not> (b \<noteq> 0 \<and> n \<le> thr c (b - 1)) \<Longrightarrow> in_bucket c b n"
proof -
  show "b \<noteq> ACP_MAX_BUCKETS - 1 \<and> in_bucket c (b + 1) n" if up: "thr c b < n"
  proof -
    have ne: "b \<noteq> 10" using up n thr_values(3) [OF geo] by (auto simp: near_bucket_def)
    then have "b < 10" using b by (simp add: ACP_MAX_BUCKETS_def)
    from thr_values(2) [OF geo this] show ?thesis using up n ne by (simp add: ACP_MAX_BUCKETS_def near_bucket_def in_bucket_def)
  qed
  show "in_bucket c (b - 1) n" if "b \<noteq> 0" and "n \<le> thr c (b - 1)"
  proof -
    have "thr c (b - 1 - 1) < thr c (b - 1)" if "b - 1 \<noteq> 0"
    proof -
      obtain k where "b = Suc (Suc k)" using \<open>b - 1 \<noteq> 0\<close> by (metis One_nat_def Suc_pred diff_0_eq_0 not_gr_zero)
      then show ?thesis using thr_values(2) [OF geo, of k] b by (simp add: ACP_MAX_BUCKETS_def)
    qed
    then show ?thesis using that n by (auto simp: near_bucket_def in_bucket_def)
  qed
  show "\<not> thr c b < n \<Longrightarrow> \<not> (b \<noteq> 0 \<and> n \<le> thr c (b - 1)) \<Longrightarrow> in_bucket c b n" by (auto simp: in_bucket_def)
qed

lemma in_near: "acp_geo c \<Longrightarrow> b < ACP_MAX_BUCKETS \<Longrightarrow> in_bucket c b n \<Longrightarrow> near_bucket c b n"
  using thr_values(5) by (fastforce simp: in_bucket_def near_bucket_def)

lemma acp_line_get: "(get_chunk a' (chunk_of c x) = None) = (get_chunk a (chunk_of c x) = None) \<Longrightarrow> acp_line c a' x = acp_line c a x"
  by (simp add: acp_line_def)

text \<open>A chunk that is moved with its bucket written down leaves the rest of the state as it is.\<close>

lemma move_chunk_rep:
  assumes near: "acp_near p c a" and g: "get_chunk a p = Some ck" and b: "b < ACP_MAX_BUCKETS" "in_bucket c b (ck_num_dirty ck)"
    and a': "a' \<in> {list_move p b (set_chunk p (ck\<lparr>ck_bucket_id := b\<rparr>) a), list_move_tail p b (set_chunk p (ck\<lparr>ck_bucket_id := b\<rparr>) a)}"
  shows "acp_rep c a'" "ax_dirty a' = ax_dirty a"
proof -
  note D = acp_state_okD [OF near]
  show d: "ax_dirty a' = ax_dirty a" using a' by auto
  have gc: "get_chunk a' q = (if q = p then Some (ck\<lparr>ck_bucket_id := b\<rparr>) else get_chunk a q)" for q using a' by (auto simp: get_set_chunk [OF g])
  have cd: "chunk_dirty c a' = chunk_dirty c a" using a' by auto
  have t: "ax_threshold a' = ax_threshold a" using a' by auto
  have l: "distinct (ax_chunk_list a' i) \<and> set (ax_chunk_list a' i) = (if i = b then insert p (set (ax_chunk_list a i)) else set (ax_chunk_list a i) - {p})" for i
    using a' D(5) [of i] by (auto simp: list_move_def list_move_tail_def list_del_chunk_def Let_def)
  show "acp_rep c a'" unfolding acp_state_ok_def
  proof (intro conjI allI ballI impI)
    show "acp_geo c" by (rule D(1))
    show "ax_threshold a' i = thr c i" if "i < ACP_MAX_BUCKETS" for i using D(2) [OF that] t by simp
    show "acp_line c a' x" if "ax_dirty a' x" "x \<in> mapped_lines (ca_coll c)" for x using D(3) [of x] that d gc g by (auto simp: acp_line_def)
    show "distinct (ax_chunk_list a' i)" for i using l by blast
    show "set (ax_chunk_list a' i) = {q. \<exists>ck. get_chunk a' q = Some ck \<and> ck_bucket_id ck = i}" for i
      using l [of i] D(6) [of i] by (auto simp: gc)
    fix q ck' assume "get_chunk a' q = Some ck'"
    then show "ck_core_id ck' = fst q" "ck_chunk_id ck' = snd q" "ck_num_dirty ck' = card (chunk_dirty c a' q)" "ck_bucket_id ck' < ACP_MAX_BUCKETS"
      "in_bucket c (ck_bucket_id ck') (ck_num_dirty ck')" using D(4) [OF g] D(4) [of q ck'] b cd by (auto simp: gc split: if_splits)
  qed
qed

lemma acp_state_ok_place:
  assumes "acp_state_ok place c a" and "\<And>p ck. get_chunk a p = Some ck \<Longrightarrow> place' p (ck_bucket_id ck) (ck_num_dirty ck)"
  shows "acp_state_ok place' c a"
  using assms unfolding acp_state_ok_def by blast

lemma acp_rep_near:
  assumes rep: "acp_rep c a"
  shows "acp_near p c a"
proof (rule acp_state_ok_place [OF rep])
  fix q ck assume "get_chunk a q = Some ck"
  from acp_state_okD(4) [OF rep this] in_near [OF acp_state_okD(1) [OF rep]]
  show "(if q = p then near_bucket c else in_bucket c) (ck_bucket_id ck) (ck_num_dirty ck)" by auto
qed

lemma near_rep:
  assumes near: "acp_near p c a" and g: "get_chunk a p = Some ck" "in_bucket c (ck_bucket_id ck) (ck_num_dirty ck)"
  shows "acp_rep c a"
proof (rule acp_state_ok_place [OF near])
  show "in_bucket c (ck_bucket_id ck') (ck_num_dirty ck')" if "get_chunk a q = Some ck'" for q ck'
    using acp_state_okD(4) [OF near that] g that by (cases "q = p") auto
qed

lemma update_bucket_rep:
  assumes near: "acp_near p c a" and g: "get_chunk a p \<noteq> None"
  obtains a' where "acp_update_bucket p a = Some a'" "acp_rep c a'" "ax_dirty a' = ax_dirty a"
proof -
  obtain ck where ck: "get_chunk a p = Some ck" using g by blast
  note D = acp_state_okD [OF near]
  let ?b = "ck_bucket_id ck" and ?n = "ck_num_dirty ck"
  have b: "?b < ACP_MAX_BUCKETS" and n: "near_bucket c ?b ?n" using D(4) [OF ck] by auto
  note nf = near_bucket_fix [OF D(1) b n]
  have t: "ax_threshold a ?b = thr c ?b" "ax_threshold a (?b - 1) = thr c (?b - 1)" using D(2) b by auto
  consider (up) "thr c ?b < ?n" | (down) "\<not> thr c ?b < ?n" "?b \<noteq> 0 \<and> ?n \<le> thr c (?b - 1)" | (stay) "\<not> thr c ?b < ?n" "\<not> (?b \<noteq> 0 \<and> ?n \<le> thr c (?b - 1))" by blast
  then show thesis
  proof cases
    case up
    have u: "?b + 1 < ACP_MAX_BUCKETS" using nf(1) [OF up] b by linarith
    have "acp_update_bucket p a = Some (list_move_tail p (?b + 1) (set_chunk p (ck\<lparr>ck_bucket_id := ?b + 1\<rparr>) a))"
      using nf(1) [OF up] up t by (simp add: acp_update_bucket_def ck Let_def)
    then show thesis by (rule that [OF _ move_chunk_rep [OF near ck u]]) (use nf(1) [OF up] in auto)
  next
    case down
    have u: "?b - 1 < ACP_MAX_BUCKETS" using b by simp
    have "acp_update_bucket p a = Some (list_move p (?b - 1) (set_chunk p (ck\<lparr>ck_bucket_id := ?b - 1\<rparr>) a))"
      using down t by (simp add: acp_update_bucket_def ck Let_def)
    then show thesis by (rule that [OF _ move_chunk_rep [OF near ck u]]) (use nf(2) down in auto)
  next
    case stay
    show thesis by (rule that [OF _ near_rep [OF near ck nf(3) [OF stay]]]) (use stay t in \<open>auto simp: acp_update_bucket_def ck\<close>)
  qed
qed

text \<open>The bit of a line of the chunk changes, and with it the count: the chunk is at most one line off its bucket.\<close>

definition flip_line :: "chunk_ptr \<Rightarrow> cline \<Rightarrow> bool \<Rightarrow> nat \<Rightarrow> acp_chunk_info \<Rightarrow> acp_context \<Rightarrow> acp_context" where
  "flip_line p x d n ck a = set_chunk p (ck\<lparr>ck_num_dirty := n\<rparr>) (a\<lparr>ax_dirty := (ax_dirty a)(x := d)\<rparr>)"

lemma chunk_dirty_flip:
  assumes "x \<in> mapped_lines (ca_coll c)"
  shows "chunk_dirty c (flip_line p x d n ck a) q = (if chunk_of c x = q then (if d then insert x (chunk_dirty c a q) else chunk_dirty c a q - {x}) else chunk_dirty c a q)"
  using assms by (auto simp: chunk_dirty_def flip_line_def)

lemma flip_near:
  assumes rep: "acp_rep c a" and x: "acp_line c a x" and g: "get_chunk a (chunk_of c x) = Some ck"
    and d: "ax_dirty a x \<noteq> d" and n: "n = (if d then ck_num_dirty ck + 1 else ck_num_dirty ck - 1)"
  shows "acp_near (chunk_of c x) c (flip_line (chunk_of c x) x d n ck a)" "n < U16_MOD" "d \<or> 0 < ck_num_dirty ck"
proof -
  note D = acp_state_okD [OF rep]
  let ?p = "chunk_of c x" and ?a = "flip_line (chunk_of c x) x d n ck a"
  have xm: "x \<in> mapped_lines (ca_coll c)" using x by (simp add: acp_line_def)
  have g': "get_chunk (a\<lparr>ax_dirty := f\<rparr>) = get_chunk a" for f by (simp add: get_chunk_def)
  have gc: "get_chunk ?a q = (if q = ?p then Some (ck\<lparr>ck_num_dirty := n\<rparr>) else get_chunk a q)" for q
    using get_set_chunk [of "a\<lparr>ax_dirty := (ax_dirty a)(x := d)\<rparr>" ?p ck] g by (simp add: flip_line_def g')
  have ln: "acp_line c ?a y" if "y \<in> mapped_lines (ca_coll c)" "ax_dirty ?a y" for y
  proof -
    have "acp_line c a y" using D(3) [of y] that x by (cases "y = x") (auto simp: flip_line_def)
    then show ?thesis by (simp add: acp_line_def gc)
  qed
  note fin = chunk_dirty_bound(1) [OF D(1)]
  have mem: "x \<in> chunk_dirty c a ?p \<longleftrightarrow> \<not> d" using d xm by (auto simp: chunk_dirty_def)
  have ck: "ck_num_dirty ck = card (chunk_dirty c a ?p)" "ck_bucket_id ck < ACP_MAX_BUCKETS" "in_bucket c (ck_bucket_id ck) (ck_num_dirty ck)" using D(4) [OF g] by auto
  show pos: "d \<or> 0 < ck_num_dirty ck" using mem fin [of a ?p] unfolding ck(1) card_gt_0_iff by blast
  have n': "card (chunk_dirty c ?a ?p) = n" using mem fin [of a ?p] by (simp add: chunk_dirty_flip [OF xm] n ck(1))
  have le: "n \<le> lpc c" using chunk_dirty_bound(2) [OF D(1), of ?a ?p] by (simp only: n')
  then show "n < U16_MOD" using thr_values(4) [OF D(1)] by simp
  have near: "near_bucket c (ck_bucket_id ck) n" using le ck(3) pos n by (auto simp: near_bucket_def in_bucket_def)
  show "acp_near ?p c ?a" unfolding acp_state_ok_def
  proof (intro conjI allI ballI impI)
    show "acp_geo c" by (rule D(1))
    show "ax_threshold ?a i = thr c i" if "i < ACP_MAX_BUCKETS" for i using D(2) [OF that] by (simp add: flip_line_def)
    show "acp_line c ?a y" if "ax_dirty ?a y" "y \<in> mapped_lines (ca_coll c)" for y using ln that by blast
    show "distinct (ax_chunk_list ?a i)" for i using D(5) by (simp add: flip_line_def)
    show "set (ax_chunk_list ?a i) = {q. \<exists>ck. get_chunk ?a q = Some ck \<and> ck_bucket_id ck = i}" for i
    proof -
      have "ax_chunk_list ?a i = ax_chunk_list a i" by (simp add: flip_line_def)
      then show ?thesis using D(6) [of i] g by (auto simp: gc)
    qed
    fix q ck' assume k: "get_chunk ?a q = Some ck'"
    then show "ck_core_id ck' = fst q" "ck_chunk_id ck' = snd q" "ck_bucket_id ck' < ACP_MAX_BUCKETS"
      "(if q = ?p then near_bucket c else in_bucket c) (ck_bucket_id ck') (ck_num_dirty ck')" using D(4) [OF g] D(4) [of q ck'] near by (auto simp: gc split: if_splits)
    show "ck_num_dirty ck' = card (chunk_dirty c ?a q)"
    proof (cases "q = ?p")
      case True then show ?thesis using k n' by (auto simp: gc)
    next
      case False then show ?thesis using k D(4) [of q ck'] by (simp add: gc chunk_dirty_flip [OF xm])
    qed
  qed
qed

lemma chunk_index: "acp_geo c \<Longrightarrow> n * ocf_line_size (ca_line c) div ACP_CHUNK_SIZE = n div lpc c"
  unfolding geo_lpc(1) [of c, symmetric] by (auto simp: acp_geo_def)

lemma acp_get_chunk_of:
  assumes geo: "acp_geo c" and l: "acp_line c a x"
  shows "acp_get_chunk c x = Some (chunk_of c x)"
proof -
  let ?s = "ocf_line_size (ca_line c)" and ?cl = "coll_core_line (ca_coll c) x"
  have lt: "?cl * ?s mod U64_MOD = ?cl * ?s" using l by (simp add: acp_line_def)
  have "x < ca_entries c" using l mapped_less geo by (simp add: acp_line_def acp_geo_def)
  then have "ocf_metadata_get_core_info (ca_coll c) x = Some (coll_core_id (ca_coll c) x, ?cl)" by (simp add: ocf_metadata_get_core_info_def)
  then show ?thesis by (simp add: acp_get_chunk_def chunk_of_def lt chunk_index [OF geo])
qed

lemma get_chunk_flip [simp]: "get_chunk (a\<lparr>ax_dirty := f\<rparr>) = get_chunk a"
  by (simp add: get_chunk_def)

lemma acp_line_mapped: "acp_geo c \<Longrightarrow> acp_line c a x \<Longrightarrow> x < ca_entries c"
  using mapped_less by (simp add: acp_line_def acp_geo_def)

lemma mod_pred: "0 < n \<Longrightarrow> n - 1 < m \<Longrightarrow> (n + m - 1) mod m = n - (1 :: nat)"
  by (cases n) auto

text \<open>What the two operations do to a line whose bit changes, and to one whose bit is already as it should be.\<close>

definition acp_mark :: "bool \<Rightarrow> 'w::len wcache \<Rightarrow> cline \<Rightarrow> acp_context \<Rightarrow> acp_context option" where
  "acp_mark d = (if d then cleaning_policy_acp_set_hot_cache_line else cleaning_policy_acp_purge_block)"

lemma acp_mark_same:
  assumes "x < ca_entries c" "acp_get_chunk c x = Some p" "ax_dirty a x = d"
  shows "acp_mark d c x a = acp_update_bucket p a"
  using assms by (auto simp: acp_mark_def cleaning_policy_acp_set_hot_cache_line_def cleaning_policy_acp_purge_block_def acp_meta_get_def)

lemma acp_mark_flip:
  assumes "x < ca_entries c" "acp_get_chunk c x = Some p" "ax_dirty a x = (\<not> d)" "get_chunk a p = Some ck"
  shows "acp_mark d c x a =
    acp_update_bucket p (flip_line p x d ((if d then ck_num_dirty ck + 1 else ck_num_dirty ck + U16_MOD - 1) mod U16_MOD) ck a)"
  using assms by (cases d) (simp_all add: acp_mark_def cleaning_policy_acp_set_hot_cache_line_def cleaning_policy_acp_purge_block_def
    acp_meta_get_def acp_meta_set_def flip_line_def)

text \<open>A line that is made hot is counted once, and one that is purged is not counted any more; neither ever runs into an assertion.\<close>

lemma acp_mark_rep:
  assumes rep: "acp_rep c a" and x: "acp_line c a x"
  obtains a' where "acp_mark d c x a = Some a'" "acp_rep c a'"
    "ax_dirty a' = (ax_dirty a)(x := d)"
proof -
  note geo = acp_state_okD(1) [OF rep]
  let ?p = "chunk_of c x"
  have l: "x < ca_entries c" using acp_line_mapped [OF geo x] .
  obtain ck where g: "get_chunk a ?p = Some ck" using x by (auto simp: acp_line_def)
  note p = acp_get_chunk_of [OF geo x]
  show thesis
  proof (cases "ax_dirty a x = d")
    case True
    obtain a' where u: "acp_update_bucket ?p a = Some a'" "acp_rep c a'" "ax_dirty a' = ax_dirty a"
      using update_bucket_rep [OF acp_rep_near [OF rep]] g by blast
    show thesis by (rule that [of a']) (use acp_mark_same [OF l p True] True u in \<open>auto simp: fun_eq_iff\<close>)
  next
    case False
    let ?n = "if d then ck_num_dirty ck + 1 else ck_num_dirty ck - 1"
    let ?a = "flip_line ?p x d ?n ck a"
    note near = flip_near [OF rep x g False refl]
    have m: "(if d then ck_num_dirty ck + 1 else ck_num_dirty ck + U16_MOD - 1) mod U16_MOD = ?n"
      using near(2,3) mod_pred [of "ck_num_dirty ck" U16_MOD] by (cases d) simp_all
    have "get_chunk ?a ?p \<noteq> None" using get_set_chunk [of "a\<lparr>ax_dirty := (ax_dirty a)(x := d)\<rparr>" ?p ck] g by (simp add: flip_line_def)
    then obtain a' where u: "acp_update_bucket ?p ?a = Some a'" "acp_rep c a'" "ax_dirty a' = ax_dirty ?a" using update_bucket_rep [OF near(1)] by blast
    have "acp_mark d c x a = Some a'" 
    proof -
      have "ax_dirty a x = (\<not> d)" using False by blast
      from acp_mark_flip [OF l p this g] show ?thesis unfolding m u(1) .
    qed
    then show thesis by (rule that) (use u in \<open>simp_all add: flip_line_def\<close>)
  qed
qed

text \<open>
  C37. What is counted as dirty stays exact. In a state of the ACP policy in which every chunk counts the dirty lines it has and is in the bucket of its count,
  making a line hot marks that line and no other, purging a line unmarks it and no other, and the state is again such a state. Neither of them runs into an
  assertion: the counter of 16 bits does not overflow or go below 0, and a chunk of the last bucket is never to be moved up.
\<close>

theorem acp_hot_purge_exact:
  fixes c :: "'w::len wcache"
  assumes "acp_rep c a" and "acp_line c a x"
  shows "(\<exists>a'. cleaning_policy_acp_set_hot_cache_line c x a = Some a' \<and> acp_rep c a' \<and> ax_dirty a' = (ax_dirty a)(x := True)) \<and>
    (\<exists>a'. cleaning_policy_acp_purge_block c x a = Some a' \<and> acp_rep c a' \<and> ax_dirty a' = (ax_dirty a)(x := False))"
  using acp_mark_rep [OF assms, of True] acp_mark_rep [OF assms, of False] by (simp add: acp_mark_def) metis

subsection \<open>The chunk to clean\<close>

lemma find_chunk_spec:
  assumes "\<forall>p \<in> set ps. get_chunk a p \<noteq> None"
  shows "acp_find_chunk opened tick a ps = Some (find (\<lambda>p. acp_can_clean_chunk opened tick (the (get_chunk a p))) ps)"
  using assms by (induction ps) auto

definition can_clean :: "(core_id \<Rightarrow> bool) \<Rightarrow> u64 \<Rightarrow> acp_context \<Rightarrow> chunk_ptr \<Rightarrow> acp_chunk_info \<Rightarrow> bool" where
  "can_clean opened tick a p ck \<longleftrightarrow> get_chunk a p = Some ck \<and> acp_can_clean_chunk opened tick ck"

lemma candidate_loop:
  assumes rep: "acp_rep c a"
  shows "\<exists>r. acp_candidate_loop opened tick a n = Some r \<and> (case r of
      None \<Rightarrow> \<forall>q ck. can_clean opened tick a q ck \<longrightarrow> ck_bucket_id ck = 0 \<or> n < ck_bucket_id ck
    | Some p \<Rightarrow> \<exists>ck. can_clean opened tick a p ck \<and> ck_bucket_id ck \<noteq> 0 \<and> (\<forall>q ck'. can_clean opened tick a q ck' \<longrightarrow> ck_bucket_id ck' \<le> ck_bucket_id ck \<or> n < ck_bucket_id ck'))"
proof (induction n)
  case 0
  then show ?case by (auto simp: can_clean_def)
next
  case (Suc n)
  note D = acp_state_okD [OF rep]
  have l: "p \<in> set (ax_chunk_list a (Suc n)) \<longleftrightarrow> (\<exists>ck. get_chunk a p = Some ck \<and> ck_bucket_id ck = Suc n)" for p by (simp add: D(6))
  let ?r = "find (\<lambda>p. acp_can_clean_chunk opened tick (the (get_chunk a p))) (ax_chunk_list a (Suc n))"
  have r: "acp_find_chunk opened tick a (ax_chunk_list a (Suc n)) = Some ?r" by (rule find_chunk_spec) (auto simp: l)
  show ?case
  proof (cases ?r)
    case None
    have nc: "\<not> (can_clean opened tick a q ck \<and> ck_bucket_id ck = Suc n)" for q ck
    proof
      assume a: "can_clean opened tick a q ck \<and> ck_bucket_id ck = Suc n"
      then have "q \<in> set (ax_chunk_list a (Suc n))" by (simp add: l can_clean_def)
      moreover have "acp_can_clean_chunk opened tick (the (get_chunk a q))" using a by (simp add: can_clean_def)
      ultimately show False using None unfolding find_None_iff by blast
    qed
    then have "n < ck_bucket_id ck \<longleftrightarrow> Suc n < ck_bucket_id ck" if "can_clean opened tick a q ck" for q ck
      using nc [of q ck] that by linarith
    moreover have "acp_candidate_loop opened tick a (Suc n) = acp_candidate_loop opened tick a n" using None r by simp
    ultimately show ?thesis using Suc.IH by (simp cong: conj_cong option.case_cong)
  next
    case (Some p)
    then have "p \<in> set (ax_chunk_list a (Suc n))" and p: "acp_can_clean_chunk opened tick (the (get_chunk a p))" by (auto simp: find_Some_iff)
    then obtain ck where "get_chunk a p = Some ck" "ck_bucket_id ck = Suc n" unfolding l by blast
    with p show ?thesis using Some r by (auto simp: can_clean_def not_less)
  qed
qed

lemma cleanable_bucket:
  assumes rep: "acp_rep c a" and k: "can_clean opened tick a q ck"
  shows "ck_bucket_id ck < ACP_MAX_BUCKETS" "in_bucket c (ck_bucket_id ck) (ck_num_dirty ck)" "ck_num_dirty ck = card (chunk_dirty c a q)"
    "ck_bucket_id ck = 0 \<longleftrightarrow> chunk_dirty c a q = {}"
proof -
  note D = acp_state_okD [OF rep]
  have g: "get_chunk a q = Some ck" using k by (simp add: can_clean_def)
  show b: "ck_bucket_id ck < ACP_MAX_BUCKETS" "in_bucket c (ck_bucket_id ck) (ck_num_dirty ck)" "ck_num_dirty ck = card (chunk_dirty c a q)"
    using D(4) [OF g] by auto
  have "ck_bucket_id ck = 0 \<longleftrightarrow> ck_num_dirty ck = 0" using b(2) thr_values(1) [OF D(1)] by (auto simp: in_bucket_def)
  then show "ck_bucket_id ck = 0 \<longleftrightarrow> chunk_dirty c a q = {}" using chunk_dirty_bound(1) [OF D(1), of a q] by (simp add: b(3))
qed

lemma bucket_width:
  assumes geo: "acp_geo c" and b: "b < ACP_MAX_BUCKETS" "b \<noteq> 0" and n: "in_bucket c b n" "in_bucket c b' n'" "b' \<le> b"
  shows "n' < n + lpc c div 10"
proof -
  have mono: "thr c i \<le> thr c b" if "i \<le> b" for i
    using that
  proof (induction rule: inc_induct)
    case (step k)
    then show ?case using thr_values(2) [OF geo, of k] b(1) by (simp add: ACP_MAX_BUCKETS_def)
  qed simp
  have "thr c b \<le> thr c (b - 1) + lpc c div 10"
    using b geo_lpc(2) [OF geo] unfolding bucket_cases thr_def ACP_BUCKET_DEFAULTS_def by auto
  then show ?thesis using n mono [OF n(3)] b(2) by (simp add: in_bucket_def)
qed

lemma candidate_spec:
  fixes c :: "'w::len wcache"
  assumes rep: "acp_rep c a"
  shows "\<exists>r. acp_get_cleaning_candidate opened tick a = Some r \<and> (case r of
      None \<Rightarrow> \<forall>q ck. can_clean opened tick a q ck \<longrightarrow> chunk_dirty c a q = {}
    | Some p \<Rightarrow> (\<exists>ck. can_clean opened tick a p ck) \<and> chunk_dirty c a p \<noteq> {} \<and>
        (\<forall>q ck. can_clean opened tick a q ck \<longrightarrow> card (chunk_dirty c a q) < card (chunk_dirty c a p) + lpc c div 10))"
proof -
  obtain r where r: "acp_get_cleaning_candidate opened tick a = Some r" and
    s: "case r of None \<Rightarrow> \<forall>q ck. can_clean opened tick a q ck \<longrightarrow> ck_bucket_id ck = 0 \<or> ACP_MAX_BUCKETS - 1 < ck_bucket_id ck
      | Some p \<Rightarrow> \<exists>ck. can_clean opened tick a p ck \<and> ck_bucket_id ck \<noteq> 0 \<and>
          (\<forall>q ck'. can_clean opened tick a q ck' \<longrightarrow> ck_bucket_id ck' \<le> ck_bucket_id ck \<or> ACP_MAX_BUCKETS - 1 < ck_bucket_id ck')"
    using candidate_loop [OF rep, of opened tick "ACP_MAX_BUCKETS - 1"] by (auto simp: acp_get_cleaning_candidate_def)
  note K = cleanable_bucket [OF rep]
  have last: "\<not> ACP_MAX_BUCKETS - 1 < ck_bucket_id ck" if "can_clean opened tick a q ck" for q ck using K(1) [OF that] by linarith
  show ?thesis
  proof (cases r)
    case None
    have "chunk_dirty c a q = {}" if q: "can_clean opened tick a q ck" for q ck 
      using s None last [OF q] K(4) [OF q] q by (simp only: option.case) metis
    then show ?thesis using r None by auto
  next
    case (Some p)
    then obtain ck where ck: "can_clean opened tick a p ck" "ck_bucket_id ck \<noteq> 0" "\<And>q ck'. can_clean opened tick a q ck' \<Longrightarrow> ck_bucket_id ck' \<le> ck_bucket_id ck"
      using s last by auto
    have "card (chunk_dirty c a q) < card (chunk_dirty c a p) + lpc c div 10" if q: "can_clean opened tick a q ck'" for q ck'
      using bucket_width [OF acp_state_okD(1) [OF rep] K(1) [OF ck(1)] ck(2) K(2) [OF ck(1)] K(2) [OF q] ck(3) [OF q]] K(3) [OF q] K(3) [OF ck(1)] by simp
    then show ?thesis using r Some ck(1,2) K(4) [OF ck(1)] by auto
  qed
qed

text \<open>
  C38. The choice of the chunk to clean. A chunk whose flush failed carries the end of its back-off as a timestamp. With one reading of the clock for the whole
  search, a round of the ACP policy that looks for a chunk takes one of an open core that has a dirty line and carries no timestamp or one that is still in the
  future, that is, a chunk that never failed or is still backing off; no such chunk has more dirty lines than it by a tenth of a chunk or more. A chunk whose
  back-off is over is never taken, and the round finds nothing only when every chunk of an open core with a dirty line is one of these. This is what the
  comparison in \<^verbatim>\<open>_acp_can_clean_chunk\<close> does; the comment above it promises the opposite for chunks with a timestamp, namely that they may
  be cleaned again once the time is over. For a cache without failed flushes the two readings agree: the fullest open chunk up to a tenth of a chunk is taken.
\<close>

theorem acp_candidate_fullest:
  fixes c :: "'w::len wcache"
  assumes rep: "acp_rep c a"
  shows "\<exists>r. acp_get_cleaning_candidate opened tick a = Some r \<and> (case r of
      None \<Rightarrow> \<forall>q ck. get_chunk a q = Some ck \<and> opened (ck_core_id ck) \<and> chunk_dirty c a q \<noteq> {} \<longrightarrow>
        0 < ck_next_cleaning ck \<and> ck_next_cleaning ck \<le> tick
    | Some p \<Rightarrow> (\<exists>ck. get_chunk a p = Some ck \<and> opened (ck_core_id ck) \<and> \<not> (0 < ck_next_cleaning ck \<and> ck_next_cleaning ck \<le> tick)) \<and>
        chunk_dirty c a p \<noteq> {} \<and>
        (\<forall>q ck. get_chunk a q = Some ck \<and> opened (ck_core_id ck) \<and> (ck_next_cleaning ck = 0 \<or> tick < ck_next_cleaning ck) \<longrightarrow>
          card (chunk_dirty c a q) < card (chunk_dirty c a p) + lpc c div 10))"
proof -
  have c: "can_clean opened tick a q ck \<longleftrightarrow>
      get_chunk a q = Some ck \<and> opened (ck_core_id ck) \<and> \<not> (0 < ck_next_cleaning ck \<and> ck_next_cleaning ck \<le> tick)" for q ck
    by (auto simp: can_clean_def acp_can_clean_chunk_def)
  have e: "(n = 0 \<or> tick < n) \<longleftrightarrow> \<not> (0 < n \<and> n \<le> tick)" for n by auto
  obtain r where "acp_get_cleaning_candidate opened tick a = Some r" and "case r of
      None \<Rightarrow> \<forall>q ck. can_clean opened tick a q ck \<longrightarrow> chunk_dirty c a q = {}
    | Some p \<Rightarrow> (\<exists>ck. can_clean opened tick a p ck) \<and> chunk_dirty c a p \<noteq> {} \<and>
        (\<forall>q ck. can_clean opened tick a q ck \<longrightarrow> card (chunk_dirty c a q) < card (chunk_dirty c a p) + lpc c div 10)"
    using candidate_spec [OF rep] by blast
  then show ?thesis unfolding c e by (intro exI [of _ r] conjI; cases r) (simp_all only: option.case, blast+)
qed

subsection \<open>Starting the policy\<close>

abbreviation unmarked :: "acp_context \<Rightarrow> acp_context" where
  "unmarked a \<equiv> a\<lparr>ax_dirty := \<lambda>_. False\<rparr>"

definition fresh_chunk :: "core_id \<Rightarrow> nat \<Rightarrow> acp_chunk_info" where
  "fresh_chunk core i = acp_chunk_zero\<lparr>ck_core_id := core, ck_chunk_id := i\<rparr>"

lemma fold_opt_single: "fold_opt f [x] = f x"
proof
  show "fold_opt f [x] s = f x s" for s by (cases "f x s") simp_all
qed

lemma add_core_chunks:
  assumes "ax_chunk_info a core = Some (replicate n acp_chunk_zero)" "core < OCF_CORE_MAX" "i \<le> n"
  shows "fold_opt (add_core_chunk core) [0..<i] a =
    Some (a\<lparr>ax_chunk_info := (ax_chunk_info a)(core := Some (map (fresh_chunk core) [0..<i] @ replicate (n - i) acp_chunk_zero)),
            ax_chunk_list := (ax_chunk_list a)(0 := rev (map (Pair core) [0..<i]) @ ax_chunk_list a 0)\<rparr>)"
  using assms(3)
proof (induction i)
  case 0
  then show ?case using assms(1) by (simp add: fun_upd_idem)
next
  case (Suc i)
  let ?l = "map (fresh_chunk core) [0..<i] @ replicate (n - i) acp_chunk_zero"
  let ?st = "\<lambda>l j. a\<lparr>ax_chunk_info := (ax_chunk_info a)(core := Some l), ax_chunk_list := (ax_chunk_list a)(0 := rev (map (Pair core) [0..<j]) @ ax_chunk_list a 0)\<rparr>"
  have "?l ! i = acp_chunk_zero" using Suc.prems by (simp add: nth_append)
  then have "add_core_chunk core i (?st ?l i) = Some (?st (?l[i := fresh_chunk core i]) (Suc i))"
    using assms(2) Suc.prems by (simp add: add_core_chunk_def get_chunk_def set_chunk_def fresh_chunk_def)
  moreover have "?l[i := fresh_chunk core i] = map (fresh_chunk core) [0..<Suc i] @ replicate (n - Suc i) acp_chunk_zero"
    using Suc.prems by (simp add: list_update_append Suc_diff_Suc [symmetric] del: upt_Suc add: upt_Suc_append)
  moreover have "fold_opt (add_core_chunk core) [0..<Suc i] a = fold_opt (add_core_chunk core) [0..<i] a \<bind> add_core_chunk core i"
    using fold_opt_single [of "add_core_chunk core" i] by (simp add: fold_opt_append del: fold_opt.simps)
  moreover have "fold_opt (add_core_chunk core) [0..<i] a = Some (?st ?l i)" by (rule Suc.IH) (use Suc.prems in simp)
  ultimately show ?case by (simp only: bind.simps)
qed

text \<open>A core that is added to a policy with no dirty line has all its chunks in the lowest bucket.\<close>

lemma add_core_rep:
  assumes rep: "acp_rep c (unmarked a)" and core: "core < OCF_CORE_MAX" "ax_chunk_info a core = None"
  obtains a' where "cleaning_policy_acp_add_core sz True core a = Some (0, a')" "acp_rep c (unmarked a')" "ax_dirty a' = ax_dirty a"
    "\<And>k i. get_chunk a' (k, i) = (if k = core then if i < OCF_DIV_ROUND_UP_64 sz ACP_CHUNK_SIZE then Some (fresh_chunk core i) else None else get_chunk a (k, i))"
    "\<And>k. k \<noteq> core \<Longrightarrow> ax_chunk_info a' k = ax_chunk_info a k"
proof -
  let ?n = "OCF_DIV_ROUND_UP_64 sz ACP_CHUNK_SIZE"
  define a0 where "a0 = a\<lparr>ax_chunk_info := (ax_chunk_info a)(core := Some (replicate ?n acp_chunk_zero)),
    ax_num_chunks := (ax_num_chunks a)(core := ?n), ax_chunks_total := (ax_chunks_total a + ?n) mod U64_MOD\<rparr>"
  define a' where "a' = a0\<lparr>ax_chunk_info := (ax_chunk_info a0)(core := Some (map (fresh_chunk core) [0..<?n])),
    ax_chunk_list := (ax_chunk_list a0)(0 := rev (map (Pair core) [0..<?n]) @ ax_chunk_list a0 0)\<rparr>"
  note D = acp_state_okD [OF rep, simplified]
  have f: "fold_opt (add_core_chunk core) [0..<?n] a0 = Some a'" using add_core_chunks [of a0 core ?n ?n] core(1) by (simp add: a0_def a'_def)
  have g: "get_chunk a' (k, i) = (if k = core then if i < ?n then Some (fresh_chunk core i) else None else get_chunk a (k, i))" for k i
    using core(1) by (simp add: get_chunk_def a'_def a0_def)
  have old: "get_chunk a (core, i) = None" for i using core(2) by (cases "core \<ge> OCF_CORE_MAX") (simp_all add: get_chunk_def)
  have cd: "chunk_dirty c (unmarked b) p = {}" for b p by (simp add: chunk_dirty_def)
  have rep': "acp_rep c (unmarked a')" unfolding acp_state_ok_def
  proof (intro conjI allI ballI impI)
    show "acp_geo c" by (rule D(1))
    show "ax_threshold (unmarked a') i = thr c i" if "i < ACP_MAX_BUCKETS" for i using D(2) [OF that] by (simp add: a'_def a0_def)
    show "acp_line c (unmarked a') x" if "ax_dirty (unmarked a') x" for x using that by simp
    have no: "(core, i) \<notin> set (ax_chunk_list a b)" for i b by (simp add: D(6) old)
    show "distinct (ax_chunk_list (unmarked a') b)" for b using D(5) [of b] no by (auto simp: a'_def a0_def distinct_map inj_on_def)
    show "set (ax_chunk_list (unmarked a') b) = {p. \<exists>ck. get_chunk (unmarked a') p = Some ck \<and> ck_bucket_id ck = b}" for b
    proof -
      have "set (ax_chunk_list a' b) = (if b = 0 then Pair core ` {..<?n} else {}) \<union> set (ax_chunk_list a b)" by (auto simp: a'_def a0_def)
      also have "\<dots> = {p. \<exists>ck. get_chunk a' p = Some ck \<and> ck_bucket_id ck = b}"
        using old by (auto simp: D(6) g fresh_chunk_def acp_chunk_zero_def split: if_splits)
      finally show ?thesis by simp
    qed
    fix p ck assume "get_chunk (unmarked a') p = Some ck"
    then have k: "get_chunk a' p = Some ck" by simp
    consider "fst p = core" "ck = fresh_chunk core (snd p)" | "get_chunk a p = Some ck" using k by (cases p) (auto simp: g split: if_splits)
    then show "ck_core_id ck = fst p" "ck_chunk_id ck = snd p" "ck_num_dirty ck = card (chunk_dirty c (unmarked a') p)"
      "ck_bucket_id ck < ACP_MAX_BUCKETS" "in_bucket c (ck_bucket_id ck) (ck_num_dirty ck)"
      by (cases; use D(4) [of p ck] in \<open>simp add: cd fresh_chunk_def acp_chunk_zero_def ACP_MAX_BUCKETS_def in_bucket_def\<close>)+
  qed
  have "cleaning_policy_acp_add_core sz True core a = Some (0, a')"
    using f core(2) by (simp add: cleaning_policy_acp_add_core_def Let_def flip: a0_def)
  from this rep' _ g show thesis by (rule that) (simp_all add: a'_def a0_def)
qed

lemma load_loop_rep:
  assumes "acp_rep c (unmarked a)" "\<forall>(k, sz, ok) \<in> set cores. k < OCF_CORE_MAX \<and> ax_chunk_info a k = None \<and> ok" "distinct (map fst cores)"
  shows "\<exists>a'. acp_load_loop cores a = Some (0, a') \<and> acp_rep c (unmarked a') \<and>
    (\<forall>k i. get_chunk a' (k, i) = (case map_of cores k of
       Some (sz, _) \<Rightarrow> if i < OCF_DIV_ROUND_UP_64 sz ACP_CHUNK_SIZE then Some (fresh_chunk k i) else None | None \<Rightarrow> get_chunk a (k, i)))"
  using assms
proof (induction cores arbitrary: a)
  case Nil
  then show ?case by simp
next
  case (Cons e cores)
  obtain k sz ok where e: "e = (k, sz, ok)" by (cases e)
  have core: "k < OCF_CORE_MAX" "ax_chunk_info a k = None" and ok: "ok" using Cons.prems(2) by (auto simp: e)
  obtain a1 where a1: "cleaning_policy_acp_add_core sz True k a = Some (0, a1)" "acp_rep c (unmarked a1)"
    and g: "\<And>j i. get_chunk a1 (j, i) = (if j = k then if i < OCF_DIV_ROUND_UP_64 sz ACP_CHUNK_SIZE then Some (fresh_chunk k i) else None else get_chunk a (j, i))"
    and o: "\<And>j. j \<noteq> k \<Longrightarrow> ax_chunk_info a1 j = ax_chunk_info a j" using add_core_rep [OF Cons.prems(1) core] by metis
  have "k \<notin> fst ` set cores" using Cons.prems(3) by (simp add: e)
  then have "\<forall>(j, sz, ok) \<in> set cores. j < OCF_CORE_MAX \<and> ax_chunk_info a1 j = None \<and> ok" and k: "map_of cores k = None"
    using Cons.prems(2) o by (fastforce, simp add: map_of_eq_None_iff)
  moreover have "distinct (map fst cores)" using Cons.prems(3) by simp
  ultimately obtain a' where "acp_load_loop cores a1 = Some (0, a')" "acp_rep c (unmarked a')" and
    g': "\<And>j i. get_chunk a' (j, i) = (case map_of cores j of
       Some (sz, _) \<Rightarrow> if i < OCF_DIV_ROUND_UP_64 sz ACP_CHUNK_SIZE then Some (fresh_chunk j i) else None | None \<Rightarrow> get_chunk a1 (j, i))"
    using Cons.IH [OF a1(2)] by blast
  then show ?case using a1(1) ok by (intro exI [of _ a']) (auto simp: e g' g k split: option.splits)
qed

text \<open>The bits of the metadata matter only for lines that are mapped, and the operations look at the bit of their line only.\<close>

lemma acp_rep_bits:
  assumes rep: "acp_rep c (a\<lparr>ax_dirty := f\<rparr>)" and f: "\<And>x. x \<in> mapped_lines (ca_coll c) \<Longrightarrow> g x = f x"
  shows "acp_rep c (a\<lparr>ax_dirty := g\<rparr>)"
proof -
  have cd: "chunk_dirty c (a\<lparr>ax_dirty := g\<rparr>) = chunk_dirty c (a\<lparr>ax_dirty := f\<rparr>)" using f by (auto simp: chunk_dirty_def fun_eq_iff)
  have l: "acp_line c (a\<lparr>ax_dirty := g\<rparr>) = acp_line c (a\<lparr>ax_dirty := f\<rparr>)" by (simp add: acp_line_def fun_eq_iff)
  show ?thesis using rep f unfolding acp_state_ok_def cd l by (simp del: split_paired_All) metis
qed

lemma update_bucket_bits: "acp_update_bucket p (a\<lparr>ax_dirty := f\<rparr>) = map_option (\<lambda>b. b\<lparr>ax_dirty := f\<rparr>) (acp_update_bucket p a)"
  by (cases p; cases "get_chunk a p")
    (auto simp: acp_update_bucket_def Let_def list_move_def list_move_tail_def list_del_chunk_def set_chunk_def)

lemma update_bucket_chunks: "acp_update_bucket p a = Some a' \<Longrightarrow> (get_chunk a' q = None) = (get_chunk a q = None)"
  by (cases "get_chunk a p") (auto simp: acp_update_bucket_def Let_def get_set_chunk split: if_splits)

lemma acp_hot_bits:
  assumes x: "x < ca_entries c" "acp_get_chunk c x = Some p" "get_chunk a p = Some ck" and f: "\<not> f x"
  shows "cleaning_policy_acp_set_hot_cache_line c x (a\<lparr>ax_dirty := f\<rparr>) =
    map_option (\<lambda>b. b\<lparr>ax_dirty := f(x := True)\<rparr>) (acp_update_bucket p (set_chunk p (ck\<lparr>ck_num_dirty := (ck_num_dirty ck + 1) mod U16_MOD\<rparr>) a))"
proof -
  have s: "set_chunk p k (a\<lparr>ax_dirty := g\<rparr>) = (set_chunk p k a)\<lparr>ax_dirty := g\<rparr>" for k g by (cases p) (simp add: set_chunk_def)
  show ?thesis using x f by (simp add: cleaning_policy_acp_set_hot_cache_line_def acp_meta_get_def acp_meta_set_def s update_bucket_bits)
qed

text \<open>So a line whose bit is clear can be made hot with any bits for the other lines.\<close>

lemma acp_hot_masked:
  assumes rep: "acp_rep c (a\<lparr>ax_dirty := f\<rparr>)" and l: "acp_line c a n" and f: "\<not> f n" "\<not> g n"
  obtains u where "cleaning_policy_acp_set_hot_cache_line c n (a\<lparr>ax_dirty := g\<rparr>) = Some (u\<lparr>ax_dirty := g(n := True)\<rparr>)"
    "acp_rep c (u\<lparr>ax_dirty := f(n := True)\<rparr>)" "\<And>q. (get_chunk u q = None) = (get_chunk a q = None)"
proof -
  have l': "acp_line c (a\<lparr>ax_dirty := f\<rparr>) n" using l by (simp add: acp_line_def)
  have geo: "acp_geo c" using acp_state_okD(1) [OF rep] .
  note p = acp_get_chunk_of [OF geo l]
  obtain ck where ck: "get_chunk a (chunk_of c n) = Some ck" using l by (auto simp: acp_line_def)
  note hot = acp_hot_bits [OF acp_line_mapped [OF geo l] p ck]
  obtain b where b: "cleaning_policy_acp_set_hot_cache_line c n (a\<lparr>ax_dirty := f\<rparr>) = Some b" "acp_rep c b"
    using acp_mark_rep [OF rep l', of True] by (auto simp: acp_mark_def)
  obtain u where u: "acp_update_bucket (chunk_of c n) (set_chunk (chunk_of c n) (ck\<lparr>ck_num_dirty := (ck_num_dirty ck + 1) mod U16_MOD\<rparr>) a) = Some u"
    and ub: "b = u\<lparr>ax_dirty := f(n := True)\<rparr>" using hot [of f] b(1) f by (auto simp: map_option_case split: option.splits)
  show thesis
    by (rule that [of u]) (use hot [of g] f u b(2) ub update_bucket_chunks [OF u] ck in \<open>simp_all add: get_set_chunk\<close>)
qed

text \<open>Rebuilding: after the first \<open>n\<close> lines the bits of those that are mapped are exact, and the chunks count them alone.\<close>

definition rebuilt :: "'w::len wcache \<Rightarrow> acp_context \<Rightarrow> nat \<Rightarrow> acp_context \<Rightarrow> bool" where
  "rebuilt c a0 n a \<longleftrightarrow> acp_rep c (a\<lparr>ax_dirty := \<lambda>x. x < n \<and> ax_dirty a x\<rparr>) \<and>
     (\<forall>x \<in> mapped_lines (ca_coll c). x < n \<longrightarrow> ax_dirty a x = (sec_dirty c x \<noteq> {})) \<and> (\<forall>p. (get_chunk a p = None) = (get_chunk a0 p = None))"

lemma rebuild_line:
  assumes core: "cache_core c P L F" and ids: "\<forall>x < ca_entries c. coll_core_id (ca_coll c) x \<le> OCF_CORE_MAX"
    and lines: "\<forall>x \<in> mapped_lines (ca_coll c). acp_line c a0 x" and n: "n < ca_entries c" and r: "rebuilt c a0 n a"
  shows "\<exists>a'. acp_rebuild_line c n a = Some a' \<and> rebuilt c a0 (Suc n) a'"
proof -
  note C = cache_coreD [OF core]
  let ?k = "coll_core_id (ca_coll c) n"
  have info: "ocf_metadata_get_core_info (ca_coll c) n = Some (?k, coll_core_line (ca_coll c) n)" using n by (simp add: ocf_metadata_get_core_info_def)
  have rep: "acp_rep c (a\<lparr>ax_dirty := \<lambda>x. x < n \<and> ax_dirty a x\<rparr>)" and bits: "\<And>x. x \<in> mapped_lines (ca_coll c) \<Longrightarrow> x < n \<Longrightarrow> ax_dirty a x = (sec_dirty c x \<noteq> {})"
    and chunks: "\<And>p. (get_chunk a p = None) = (get_chunk a0 p = None)" using r by (auto simp: rebuilt_def)
  have dirty: "metadata_test_dirty (ca_status c) n = Some (sec_dirty c n \<noteq> {})"
    using metadata_test_any_sem(1) [OF C(2)] C(1) n by (simp add: cache_sizes_def)
  show ?thesis
  proof (cases "n \<in> mapped_lines (ca_coll c)")
    case False
    then have "?k = OCF_CORE_MAX" using C(11) [OF n] ids n by (meson le_neq_implies_less)
    moreover have "rebuilt c a0 (Suc n) a" unfolding rebuilt_def
    proof (intro conjI ballI impI allI chunks)
      show "acp_rep c (a\<lparr>ax_dirty := \<lambda>x. x < Suc n \<and> ax_dirty a x\<rparr>)" by (rule acp_rep_bits [OF rep]) (use False in \<open>auto simp: less_Suc_eq\<close>)
      show "ax_dirty a x = (sec_dirty c x \<noteq> {})" if "x \<in> mapped_lines (ca_coll c)" "x < Suc n" for x using bits [of x] that False by (auto simp: less_Suc_eq)
    qed
    ultimately show ?thesis using info by (simp add: acp_rebuild_line_def)
  next
    case True
    then have k: "?k \<noteq> OCF_CORE_MAX" using C(11) [OF n] by simp
    define a1 where "a1 = a\<lparr>ax_dirty := (ax_dirty a)(n := False)\<rparr>"
    have i: "cleaning_policy_acp_init_cache_block c n a = Some a1"
      using n by (simp add: cleaning_policy_acp_init_cache_block_def acp_meta_get_def acp_meta_set_def a1_def)
    let ?f = "\<lambda>x. x < n \<and> ax_dirty a x"
    show ?thesis
    proof (cases "sec_dirty c n = {}")
      case clean: True
      have "rebuilt c a0 (Suc n) a1" unfolding rebuilt_def
      proof (intro conjI ballI impI allI)
        have "acp_rep c (a\<lparr>ax_dirty := \<lambda>x. x < Suc n \<and> ax_dirty a1 x\<rparr>)" by (rule acp_rep_bits [OF rep]) (auto simp: a1_def less_Suc_eq)
        then show "acp_rep c (a1\<lparr>ax_dirty := \<lambda>x. x < Suc n \<and> ax_dirty a1 x\<rparr>)" by (simp add: a1_def)
        show "ax_dirty a1 x = (sec_dirty c x \<noteq> {})" if "x \<in> mapped_lines (ca_coll c)" "x < Suc n" for x
          using bits [of x] that clean by (auto simp: a1_def less_Suc_eq)
        show "(get_chunk a1 p = None) = (get_chunk a0 p = None)" for p by (simp add: a1_def chunks)
      qed
      then show ?thesis using info k i dirty clean by (simp add: acp_rebuild_line_def)
    next
      case dirt: False
      have l: "acp_line c a n" using lines True chunks by (simp add: acp_line_def)
      obtain u where u: "cleaning_policy_acp_set_hot_cache_line c n a1 = Some (u\<lparr>ax_dirty := (ax_dirty a)(n := True)\<rparr>)"
        "acp_rep c (u\<lparr>ax_dirty := ?f(n := True)\<rparr>)" "\<And>q. (get_chunk u q = None) = (get_chunk a q = None)"
        using acp_hot_masked [OF rep l, of "(ax_dirty a)(n := False)"] by (auto simp: a1_def)
      define a2 where "a2 = u\<lparr>ax_dirty := (ax_dirty a)(n := True)\<rparr>"
      have "rebuilt c a0 (Suc n) a2" unfolding rebuilt_def
      proof (intro conjI ballI impI allI)
        have "acp_rep c (u\<lparr>ax_dirty := \<lambda>x. x < Suc n \<and> ax_dirty a2 x\<rparr>)"
          by (rule acp_rep_bits [OF u(2)]) (auto simp: a2_def less_Suc_eq)
        then show "acp_rep c (a2\<lparr>ax_dirty := \<lambda>x. x < Suc n \<and> ax_dirty a2 x\<rparr>)" by (simp add: a2_def)
        show "ax_dirty a2 x = (sec_dirty c x \<noteq> {})" if "x \<in> mapped_lines (ca_coll c)" "x < Suc n" for x
          using bits [of x] that dirt by (auto simp: a2_def less_Suc_eq)
        show "(get_chunk a2 q = None) = (get_chunk a0 q = None)" for q using u(3) chunks by (simp add: a2_def)
      qed
      then show ?thesis using info k i dirty dirt u(1) by (simp add: acp_rebuild_line_def a2_def)
    qed
  qed
qed

lemma rebuild_rep:
  assumes core: "cache_core c P L F" and ids: "\<forall>x < ca_entries c. coll_core_id (ca_coll c) x \<le> OCF_CORE_MAX"
    and lines: "\<forall>x \<in> mapped_lines (ca_coll c). acp_line c a0 x" and rep: "acp_rep c (unmarked a0)"
  shows "\<exists>a. acp_rebuild c a0 = Some a \<and> acp_rep c a \<and> (\<forall>x \<in> mapped_lines (ca_coll c). ax_dirty a x = (sec_dirty c x \<noteq> {}))"
proof -
  have "\<exists>a. fold_opt (acp_rebuild_line c) [0..<n] a0 = Some a \<and> rebuilt c a0 n a" if "n \<le> ca_entries c" for n
    using that
  proof (induction n)
    case 0
    then show ?case using rep by (simp add: rebuilt_def)
  next
    case (Suc n)
    then show ?case using rebuild_line [OF core ids lines, of n] fold_opt_single [of "acp_rebuild_line c" n]
      by (fastforce simp: fold_opt_append simp del: fold_opt.simps)
  qed
  then obtain a where a: "acp_rebuild c a0 = Some a" "rebuilt c a0 (ca_entries c) a" by (auto simp: acp_rebuild_def)
  have m: "x < ca_entries c" if "x \<in> mapped_lines (ca_coll c)" for x using that mapped_less cache_coreD(3) [OF core] by blast
  have "acp_rep c (a\<lparr>ax_dirty := \<lambda>x. x < ca_entries c \<and> ax_dirty a x\<rparr>)" using a(2) unfolding rebuilt_def by blast
  then have "acp_rep c (a\<lparr>ax_dirty := ax_dirty a\<rparr>)" by (rule acp_rep_bits) (simp add: m)
  then have "acp_rep c a" by simp
  moreover have "\<forall>x \<in> mapped_lines (ca_coll c). ax_dirty a x = (sec_dirty c x \<noteq> {})" using a(2) m unfolding rebuilt_def by blast
  ultimately show ?thesis using a(1) by blast
qed

lemma init_buckets:
  assumes geo: "acp_geo c" and a_def: "a = fold (acp_init_bucket c) [0..<ACP_MAX_BUCKETS] (acp_context_zero bits)"
  shows "acp_rep c (unmarked a)" "ax_chunk_info a = (\<lambda>_. None)"
proof -
  have "ax_chunk_info (fold (acp_init_bucket c) l b) = ax_chunk_info b" for l b by (induction l arbitrary: b) (simp_all add: acp_init_bucket_def)
  then show i: "ax_chunk_info a = (\<lambda>_. None)" by (simp add: a_def acp_context_zero_def)
  have g: "get_chunk a p = None" for p by (cases p; cases "fst p \<ge> OCF_CORE_MAX") (simp_all add: get_chunk_def i)
  have l: "ax_chunk_list a b = []" for b
  proof -
    have "\<forall>b. ax_chunk_list d b = [] \<Longrightarrow> \<forall>b. ax_chunk_list (fold (acp_init_bucket c) l d) b = []" for l d
      by (induction l arbitrary: d) (simp_all add: acp_init_bucket_def)
    then show ?thesis by (simp add: a_def acp_context_zero_def)
  qed
  have t: "ax_threshold a b = thr c b" if "b < ACP_MAX_BUCKETS" for b
  proof -
    have "ax_threshold (fold (acp_init_bucket c) [0..<n] d) b = (if b < n then thr c b mod U16_MOD else ax_threshold d b)" for n d
      by (induction n) (auto simp: acp_init_bucket_def thr_def lpc_def less_Suc_eq)
    moreover have "thr c b < U16_MOD" using thr_values(5) [OF geo that] thr_values(4) [OF geo] by (rule le_less_trans)
    ultimately show ?thesis using that by (simp add: a_def)
  qed
  show "acp_rep c (unmarked a)" using geo by (simp add: acp_state_ok_def g l t)
qed

lemma chunks_cover:
  assumes "b < sz" "sz + ACP_CHUNK_SIZE < U64_MOD"
  shows "b div ACP_CHUNK_SIZE < OCF_DIV_ROUND_UP_64 sz ACP_CHUNK_SIZE"
proof -
  have "(sz + ACP_CHUNK_SIZE + U64_MOD - 1) mod U64_MOD = sz + ACP_CHUNK_SIZE - 1"
    using assms mod_pred [of "sz + ACP_CHUNK_SIZE" U64_MOD] by simp
  moreover have "(b + ACP_CHUNK_SIZE) div ACP_CHUNK_SIZE \<le> (sz + ACP_CHUNK_SIZE - 1) div ACP_CHUNK_SIZE" using assms(1) by (intro div_le_mono) simp
  ultimately show ?thesis by (simp add: OCF_DIV_ROUND_UP_64_def ACP_CHUNK_SIZE_def)
qed

text \<open>
  C36. Starting the ACP policy. For a cache in a consistent state and the cores it has, with memory for their chunks, \<^verbatim>\<open>cleaning_policy_acp_initialize\<close>
  succeeds whatever the bits of the metadata hold, and leaves a state in which every mapped line is marked exactly if it has a dirty sector, every chunk counts
  its marked lines and every chunk is in the bucket of its count. The cores are shorter than 2^64 bytes by a chunk at least and hold the mapped lines.
\<close>

theorem acp_initialize_exact:
  fixes c :: "'w::len wcache"
  assumes core: "cache_core c P L F" and geo: "ocf_line_size (ca_line c) \<in> {4096, 8192, 16384, 32768, 65536}"
    and ids: "\<forall>x < ca_entries c. coll_core_id (ca_coll c) x \<le> OCF_CORE_MAX"
    and cores: "\<forall>(k, sz, ok) \<in> set cores. k < OCF_CORE_MAX \<and> sz + ACP_CHUNK_SIZE < U64_MOD \<and> ok" "distinct (map fst cores)"
    and lines: "\<forall>x \<in> mapped_lines (ca_coll c). \<exists>sz ok. (coll_core_id (ca_coll c) x, sz, ok) \<in> set cores \<and> coll_core_line (ca_coll c) x * ocf_line_size (ca_line c) < sz"
  shows "\<exists>a. cleaning_policy_acp_initialize True 0 cores c bits None = Some (0, Some a) \<and> acp_rep c a \<and>
    (\<forall>x \<in> mapped_lines (ca_coll c). ax_dirty a x = (sec_dirty c x \<noteq> {}))"
proof -
  have g: "acp_geo c" using geo cache_coreD(3) [OF core] by (simp add: acp_geo_def)
  define a where "a = fold (acp_init_bucket c) [0..<ACP_MAX_BUCKETS] (acp_context_zero bits)"
  note A = init_buckets [OF g a_def]
  obtain a0 where a0: "acp_load_loop cores a = Some (0, a0)" "acp_rep c (unmarked a0)" and
    gc: "\<And>k i. get_chunk a0 (k, i) = (case map_of cores k of
       Some (sz, _) \<Rightarrow> if i < OCF_DIV_ROUND_UP_64 sz ACP_CHUNK_SIZE then Some (fresh_chunk k i) else None | None \<Rightarrow> get_chunk a (k, i))"
    using load_loop_rep [OF A(1) _ cores(2)] cores(1) A(2) by fastforce
  have "acp_line c a0 x" if x: "x \<in> mapped_lines (ca_coll c)" for x
  proof -
    let ?k = "coll_core_id (ca_coll c) x" and ?b = "coll_core_line (ca_coll c) x * ocf_line_size (ca_line c)"
    obtain sz ok where m: "(?k, sz, ok) \<in> set cores" and b: "?b < sz" using lines x by blast
    have sz: "sz + ACP_CHUNK_SIZE < U64_MOD" using cores(1) m by blast
    have "coll_core_line (ca_coll c) x div lpc c = ?b div ACP_CHUNK_SIZE" by (simp add: chunk_index [OF g])
    also have "\<dots> < OCF_DIV_ROUND_UP_64 sz ACP_CHUNK_SIZE" using b sz by (rule chunks_cover)
    finally have "get_chunk a0 (chunk_of c x) \<noteq> None" using m cores(2) by (simp add: chunk_of_def gc)
    then show ?thesis using x b sz by (simp add: acp_line_def)
  qed
  then obtain a1 where "acp_rebuild c a0 = Some a1" "acp_rep c a1" "\<forall>x \<in> mapped_lines (ca_coll c). ax_dirty a1 x = (sec_dirty c x \<noteq> {})"
    using rebuild_rep [OF core ids _ a0(2)] by blast
  moreover have "(if cores \<noteq> [] then acp_load_cores cores a else Some (0, a)) = Some (0, a0)" using a0(1) by (auto simp: acp_load_cores_def)
  ultimately show ?thesis by (simp add: cleaning_policy_acp_initialize_def ACP_CHUNK_SIZE_def Let_def flip: a_def)
qed

subsection \<open>Back-off after an error\<close>

text \<open>
  After an error of its flush a chunk of an open core may be cleaned only while the back-off of five seconds lasts, and never once it is over: the comparison of
  \<^verbatim>\<open>_acp_can_clean_chunk\<close> with the clock is the wrong way round.
\<close>

theorem acp_backoff_inverted:
  assumes "ax_flush_chunk a = Some p" "get_chunk a p = Some ck" "opened (ck_core_id ck)" "0 < t" "t + env_secs_to_ticks 5 < U64_MOD"
  shows "\<exists>a' ck'. acp_handle_flush_error t a = Some a' \<and> get_chunk a' p = Some ck' \<and>
    (\<forall>now. acp_can_clean_chunk opened now ck' \<longleftrightarrow> now < t + env_secs_to_ticks 5)"
  using assms by (auto simp: acp_handle_flush_error_def get_set_chunk acp_can_clean_chunk_def ACP_CHUNK_CLEANING_BACKOFF_TIME_def)

subsection \<open>Examples\<close>

text \<open>The policy for the cache of the examples: core 0 has one chunk, of which line 3 is dirty.\<close>

definition example_acp :: acp_context where
  "example_acp = (acp_context_zero (\<lambda>x. x = 3))\<lparr>ax_chunk_info := [0 \<mapsto> [(fresh_chunk 0 0)\<lparr>ck_num_dirty := 1, ck_bucket_id := 1\<rparr>]],
     ax_chunk_list := (\<lambda>b. if b = 1 then [(0, 0)] else []), ax_threshold := thr example_cache\<rparr>"

lemma example_geo: "ocf_line_size (ca_line example_cache) = 4096" "lpc example_cache = 25600" "acp_geo example_cache"
  using coll_rep_inv [OF example_coll_buckets] by (simp_all add: example_cache_def ocf_line_size_def lpc_def ACP_CHUNK_SIZE_def acp_geo_def)

lemma example_core_lines:
  "x \<in> {1, 2, 3} \<Longrightarrow> coll_core_id (ca_coll example_cache) x = 0 \<and> coll_core_line (ca_coll example_cache) x = x"
  by (auto simp: example_cache_def)

lemma example_chunk: "x \<in> {1, 2, 3} \<Longrightarrow> chunk_of example_cache x = (0, 0)"
  using example_core_lines [of x] by (auto simp: chunk_of_def example_geo)

lemma example_get_chunk: "get_chunk example_acp p = (if p = (0, 0) then Some ((fresh_chunk 0 0)\<lparr>ck_num_dirty := 1, ck_bucket_id := 1\<rparr>) else None)"
  by (cases p) (auto simp: get_chunk_def example_acp_def acp_context_zero_def OCF_CORE_MAX_def)

lemma example_chunk_dirty: "chunk_dirty example_cache example_acp p = (if p = (0, 0) then {3} else {})"
  using example_chunk by (auto simp: chunk_dirty_def example_mapped example_acp_def acp_context_zero_def)

lemma example_acp_line: "x \<in> {1, 2, 3} \<Longrightarrow> acp_line example_cache example_acp x"
  using example_core_lines [of x] example_chunk [of x] by (auto simp: acp_line_def example_mapped example_geo example_get_chunk)

lemma example_acp_lists: "ax_chunk_list example_acp b = (if b = 1 then [(0, 0)] else [])" "ax_threshold example_acp = thr example_cache"
  by (simp_all add: example_acp_def)

lemma example_acp_rep: "acp_rep example_cache example_acp"
  unfolding acp_state_ok_def
proof (intro conjI allI ballI impI)
  show "acp_geo example_cache" by (rule example_geo)
  show "acp_line example_cache example_acp x" if "x \<in> mapped_lines (ca_coll example_cache)" for x using that example_acp_line by (simp add: example_mapped)
qed (auto simp: example_get_chunk example_chunk_dirty fresh_chunk_def acp_chunk_zero_def ACP_MAX_BUCKETS_def in_bucket_def thr_def example_geo
  ACP_BUCKET_DEFAULTS_def example_acp_lists split: if_splits)

theorem acp_hot_purge_exact_witness:
  "(\<exists>a'. cleaning_policy_acp_set_hot_cache_line example_cache 2 example_acp = Some a' \<and> acp_rep example_cache a' \<and> ax_dirty a' = (ax_dirty example_acp)(2 := True)) \<and>
    (\<exists>a'. cleaning_policy_acp_purge_block example_cache 2 example_acp = Some a' \<and> acp_rep example_cache a' \<and> ax_dirty a' = (ax_dirty example_acp)(2 := False))"
  by (rule acp_hot_purge_exact [OF example_acp_rep example_acp_line]) simp

text \<open>The chunk of the example after a failed flush, backing off until tick 100.\<close>

definition example_failed :: acp_context where
  "example_failed = set_chunk (0, 0) ((fresh_chunk 0 0)\<lparr>ck_num_dirty := 1, ck_bucket_id := 1, ck_next_cleaning := 100\<rparr>) example_acp"

lemma example_failed_chunk: "get_chunk example_failed p =
    (if p = (0, 0) then Some ((fresh_chunk 0 0)\<lparr>ck_num_dirty := 1, ck_bucket_id := 1, ck_next_cleaning := 100\<rparr>) else None)"
  "chunk_dirty example_cache example_failed p = (if p = (0, 0) then {3} else {})"
  using get_set_chunk [of example_acp "(0, 0)", OF trans [OF example_get_chunk if_P [OF refl]]] example_chunk_dirty [of p]
  by (auto simp: example_failed_def example_get_chunk chunk_dirty_def)

lemma example_failed_lists: "ax_chunk_list example_failed b = (if b = 1 then [(0, 0)] else [])" "ax_threshold example_failed = thr example_cache"
  by (simp_all add: example_failed_def example_acp_lists)

lemma example_failed_rep: "acp_rep example_cache example_failed"
  unfolding acp_state_ok_def
proof (intro conjI allI ballI impI)
  show "acp_geo example_cache" by (rule example_geo)
  show "acp_line example_cache example_failed x" if "x \<in> mapped_lines (ca_coll example_cache)" for x
    using that example_acp_line [of x] by (auto simp: example_mapped acp_line_def example_get_chunk example_failed_chunk)
qed (auto simp: example_failed_chunk fresh_chunk_def acp_chunk_zero_def ACP_MAX_BUCKETS_def in_bucket_def thr_def example_geo
  ACP_BUCKET_DEFAULTS_def example_failed_lists split: if_splits)

theorem acp_candidate_fullest_witness:
  "acp_get_cleaning_candidate (\<lambda>_. True) 9 example_acp = Some (Some (0, 0)) \<and> chunk_dirty example_cache example_acp (0, 0) = {3} \<and>
   acp_get_cleaning_candidate (\<lambda>_. True) 99 example_failed = Some (Some (0, 0)) \<and> acp_get_cleaning_candidate (\<lambda>_. True) 100 example_failed = Some None"
proof (intro conjI)
  show "acp_get_cleaning_candidate (\<lambda>_. True) 9 example_acp = Some (Some (0, 0))"
    using acp_candidate_fullest [OF example_acp_rep, of "\<lambda>_. True" 9]
    by (auto simp: example_get_chunk example_chunk_dirty fresh_chunk_def acp_chunk_zero_def split: option.splits if_splits)
  show "chunk_dirty example_cache example_acp (0, 0) = {3}" by (simp add: example_chunk_dirty)
  show "acp_get_cleaning_candidate (\<lambda>_. True) 99 example_failed = Some (Some (0, 0))"
    using acp_candidate_fullest [OF example_failed_rep, of "\<lambda>_. True" 99]
    by (auto simp: example_failed_chunk fresh_chunk_def acp_chunk_zero_def split: option.splits if_splits)
  show "acp_get_cleaning_candidate (\<lambda>_. True) 100 example_failed = Some None"
    using acp_candidate_fullest [OF example_failed_rep, of "\<lambda>_. True" 100]
    by (force simp: example_failed_chunk fresh_chunk_def acp_chunk_zero_def split: option.splits if_splits)
qed

theorem acp_initialize_exact_witness:
  "\<exists>a. cleaning_policy_acp_initialize True 0 [(0, 65536, True)] example_cache (\<lambda>_. True) None = Some (0, Some a) \<and> acp_rep example_cache a \<and>
    ax_dirty a 3 \<and> \<not> ax_dirty a 1 \<and> \<not> ax_dirty a 2"
proof -
  have "\<exists>a. cleaning_policy_acp_initialize True 0 [(0, 65536, True)] example_cache (\<lambda>_. True) None = Some (0, Some a) \<and> acp_rep example_cache a \<and>
    (\<forall>x \<in> mapped_lines (ca_coll example_cache). ax_dirty a x = (sec_dirty example_cache x \<noteq> {}))"
  proof (rule acp_initialize_exact)
    show "cache_core example_cache example_P example_L example_F" using example_cache_rep by (simp add: cache_rep_def)
    show "\<forall>x < ca_entries example_cache. coll_core_id (ca_coll example_cache) x \<le> OCF_CORE_MAX" by (simp add: example_cache_def OCF_CORE_MAX_def)
    show "\<forall>x \<in> mapped_lines (ca_coll example_cache). \<exists>sz ok. (coll_core_id (ca_coll example_cache) x, sz, ok) \<in> set [(0, 65536, True)] \<and>
      coll_core_line (ca_coll example_cache) x * ocf_line_size (ca_line example_cache) < sz"
      using example_core_lines by (auto simp: example_mapped example_geo)
  qed (simp_all add: example_geo OCF_CORE_MAX_def ACP_CHUNK_SIZE_def)
  then show ?thesis by (auto simp: example_mapped example_bits)
qed

end
