(* ===== verification/RBTree.thy ===== *)
theory RBTree
  imports OCF_Prelude "HOL-Library.Tree"
begin

section \<open>Red-black trees\<close>

text \<open>
  \<^verbatim>\<open>src/utils/utils_rbtree.c\<close>: the tree of the sequential cut-off, with nodes that are embedded in the entries and linked by pointers to the children and
  to the parent. The model keeps the pointers: \<open>rt_node\<close> is the memory of the nodes, a null pointer is \<open>None\<close>, and following one is \<open>None\<close> for the
  whole operation. The theory shows that the pointer operations implement insertion into and removal from a sorted list, and that they keep the tree balanced.
\<close>

subsection \<open>Operations\<close>

record ocf_rb_node =
  nd_red :: bool
  nd_left :: "nat option"
  nd_right :: "nat option"
  nd_parent :: "nat option"

record ocf_rb_tree =
  rt_root :: "nat option"
  rt_node :: "nat \<Rightarrow> ocf_rb_node"

text \<open>Assignments to one field of a node.\<close>

definition upd_node :: "nat \<Rightarrow> (ocf_rb_node \<Rightarrow> ocf_rb_node) \<Rightarrow> ocf_rb_tree \<Rightarrow> ocf_rb_tree" where
  "upd_node x f t = t\<lparr>rt_node := (rt_node t)(x := f (rt_node t x))\<rparr>"

abbreviation set_red :: "nat \<Rightarrow> bool \<Rightarrow> ocf_rb_tree \<Rightarrow> ocf_rb_tree" where
  "set_red x c \<equiv> upd_node x (nd_red_update (\<lambda>_. c))"

abbreviation set_left :: "nat \<Rightarrow> nat option \<Rightarrow> ocf_rb_tree \<Rightarrow> ocf_rb_tree" where
  "set_left x p \<equiv> upd_node x (nd_left_update (\<lambda>_. p))"

abbreviation set_right :: "nat \<Rightarrow> nat option \<Rightarrow> ocf_rb_tree \<Rightarrow> ocf_rb_tree" where
  "set_right x p \<equiv> upd_node x (nd_right_update (\<lambda>_. p))"

abbreviation set_parent :: "nat \<Rightarrow> nat option \<Rightarrow> ocf_rb_tree \<Rightarrow> ocf_rb_tree" where
  "set_parent x p \<equiv> upd_node x (nd_parent_update (\<lambda>_. p))"

abbreviation rb_red :: "ocf_rb_tree \<Rightarrow> nat \<Rightarrow> bool" where "rb_red t x \<equiv> nd_red (rt_node t x)"
abbreviation rb_left :: "ocf_rb_tree \<Rightarrow> nat \<Rightarrow> nat option" where "rb_left t x \<equiv> nd_left (rt_node t x)"
abbreviation rb_right :: "ocf_rb_tree \<Rightarrow> nat \<Rightarrow> nat option" where "rb_right t x \<equiv> nd_right (rt_node t x)"
abbreviation rb_parent :: "ocf_rb_tree \<Rightarrow> nat \<Rightarrow> nat option" where "rb_parent t x \<equiv> nd_parent (rt_node t x)"

definition ocf_rb_tree_init :: "ocf_rb_tree \<Rightarrow> ocf_rb_tree" where
  "ocf_rb_tree_init t = t\<lparr>rt_root := None\<rparr>"

definition ocf_rb_tree_update_parent :: "nat \<Rightarrow> nat \<Rightarrow> nat option \<Rightarrow> ocf_rb_tree \<Rightarrow> ocf_rb_tree" where
  "ocf_rb_tree_update_parent node old_node new_node t = (case rb_parent t node of
     None \<Rightarrow> t\<lparr>rt_root := new_node\<rparr>
   | Some p \<Rightarrow>
       if rb_left t p = Some old_node then set_left p new_node t
       else if rb_right t p = Some old_node then set_right p new_node t
       else t)"

text \<open>\<open>link_parent\<close> sets the parent of a child that may be missing.\<close>

definition link_parent :: "nat option \<Rightarrow> nat \<Rightarrow> ocf_rb_tree \<Rightarrow> ocf_rb_tree" where
  "link_parent child node t = (case child of None \<Rightarrow> t | Some x \<Rightarrow> set_parent x (Some node) t)"

definition ocf_rb_tree_update_children :: "nat \<Rightarrow> ocf_rb_tree \<Rightarrow> ocf_rb_tree" where
  "ocf_rb_tree_update_children node t =
     (let t = link_parent (rb_left t node) node t
      in link_parent (rb_right t node) node t)"

definition ocf_rb_tree_rotate_left :: "nat \<Rightarrow> ocf_rb_tree \<Rightarrow> ocf_rb_tree option" where
  "ocf_rb_tree_rotate_left node t = do {
     right \<leftarrow> rb_right t node;
     let t = set_right node (rb_left t right) t;
     let t = link_parent (rb_right t node) node t;
     let t = set_parent right (rb_parent t node) t;
     let t = ocf_rb_tree_update_parent node node (Some right) t;
     let t = set_left right (Some node) t;
     Some (set_parent node (Some right) t) }"

definition ocf_rb_tree_rotate_right :: "nat \<Rightarrow> ocf_rb_tree \<Rightarrow> ocf_rb_tree option" where
  "ocf_rb_tree_rotate_right node t = do {
     left \<leftarrow> rb_left t node;
     let t = set_left node (rb_right t left) t;
     let t = link_parent (rb_left t node) node t;
     let t = set_parent left (rb_parent t node) t;
     let t = ocf_rb_tree_update_parent node node (Some left) t;
     let t = set_right left (Some node) t;
     Some (set_parent node (Some left) t) }"

definition is_red :: "ocf_rb_tree \<Rightarrow> nat option \<Rightarrow> bool" where
  "is_red t p = (case p of None \<Rightarrow> False | Some x \<Rightarrow> rb_red t x)"

text \<open>One round of the loop of \<^verbatim>\<open>ocf_rb_tree_fix_violation\<close>, for the node, its parent and its grandparent. The result is the node of the next round.\<close>

definition fix_violation_step :: "nat \<Rightarrow> nat \<Rightarrow> nat \<Rightarrow> ocf_rb_tree \<Rightarrow> (nat \<times> ocf_rb_tree) option" where
  "fix_violation_step node parent grandparent t =
     (let left = (rb_left t grandparent = Some parent);
          uncle = (if left then rb_right t grandparent else rb_left t grandparent)
      in if is_red t uncle then do {
           let t = set_red grandparent True t;
           let t = set_red parent False t;
           Some (grandparent, set_red (the uncle) False t) }
         else if (if left then rb_right t parent else rb_left t parent) = Some node then do {
           t \<leftarrow> (if left then ocf_rb_tree_rotate_left else ocf_rb_tree_rotate_right) parent t;
           Some (parent, t) }
         else do {
           t \<leftarrow> (if left then ocf_rb_tree_rotate_right else ocf_rb_tree_rotate_left) grandparent t;
           let tmp = rb_red t parent;
           let t = set_red parent (rb_red t grandparent) t;
           Some (parent, set_red grandparent tmp t) })"

partial_function (option) fix_violation_loop :: "nat \<Rightarrow> ocf_rb_tree \<Rightarrow> ocf_rb_tree option" where
  "fix_violation_loop node t =
     (if rb_red t node \<and> is_red t (rb_parent t node) then do {
        parent \<leftarrow> rb_parent t node;
        (case rb_parent t parent of
           None \<Rightarrow> Some t
         | Some grandparent \<Rightarrow> do {
             (node, t) \<leftarrow> fix_violation_step node parent grandparent t;
             fix_violation_loop node t }) }
      else Some t)"

definition ocf_rb_tree_fix_violation :: "nat \<Rightarrow> ocf_rb_tree \<Rightarrow> ocf_rb_tree option" where
  "ocf_rb_tree_fix_violation node t = do {
     t \<leftarrow> fix_violation_loop node t;
     root \<leftarrow> rt_root t;
     Some (set_red root False t) }"

text \<open>
  The comparison \<open>cmp\<close> of these functions is \<^verbatim>\<open>tree->cmp(node, _)\<close>, for the node they are called with. \<open>insert_walk\<close> ends at the node under which the
  new one goes.
\<close>

partial_function (option) insert_walk :: "(nat \<Rightarrow> int) \<Rightarrow> ocf_rb_tree \<Rightarrow> nat \<Rightarrow> nat option" where
  "insert_walk cmp t iter =
     (case (if cmp iter < 0 then rb_left t iter else rb_right t iter) of
        None \<Rightarrow> Some iter
      | Some new_iter \<Rightarrow> insert_walk cmp t new_iter)"

definition ocf_rb_tree_insert :: "(nat \<Rightarrow> int) \<Rightarrow> nat \<Rightarrow> ocf_rb_tree \<Rightarrow> ocf_rb_tree option" where
  "ocf_rb_tree_insert cmp node t =
     (let t = set_right node None (set_left node None t)
      in (case rt_root t of
            None \<Rightarrow> Some ((set_parent node None (set_red node False t))\<lparr>rt_root := Some node\<rparr>)
          | Some root \<Rightarrow> do {
              iter \<leftarrow> insert_walk cmp t root;
              let t = set_parent node (Some iter) (set_red node True t);
              let t = (if cmp iter < 0 then set_left iter (Some node) t else set_right iter (Some node) t);
              ocf_rb_tree_fix_violation node t }))"

definition ocf_rb_tree_swap :: "nat \<Rightarrow> nat \<Rightarrow> ocf_rb_tree \<Rightarrow> ocf_rb_tree" where
  "ocf_rb_tree_swap node1 node2 t =
     (let t = (if rb_left t node1 = Some node2 then set_left node1 (Some node1) t
               else if rb_right t node1 = Some node2 then set_right node1 (Some node1) t
               else if rb_parent t node1 = Some node2 then set_parent node1 (Some node1) t else t);
          t = (if rb_left t node2 = Some node1 then set_left node2 (Some node2) t
               else if rb_right t node2 = Some node1 then set_right node2 (Some node2) t
               else if rb_parent t node2 = Some node1 then set_parent node2 (Some node2) t else t);
          tmp = rt_node t node1;
          t = upd_node node1 (\<lambda>_. rt_node t node2) t;
          t = upd_node node2 (\<lambda>_. tmp) t;
          t = ocf_rb_tree_update_parent node1 node2 (Some node1) t;
          t = ocf_rb_tree_update_parent node2 node1 (Some node2) t;
          t = ocf_rb_tree_update_children node1 t
      in ocf_rb_tree_update_children node2 t)"

partial_function (option) leftmost_walk :: "ocf_rb_tree \<Rightarrow> nat \<Rightarrow> nat option" where
  "leftmost_walk t succ = (case rb_left t succ of None \<Rightarrow> Some succ | Some x \<Rightarrow> leftmost_walk t x)"

definition ocf_rb_tree_successor :: "ocf_rb_tree \<Rightarrow> nat \<Rightarrow> nat option option" where
  "ocf_rb_tree_successor t node = (case rb_right t node of
     None \<Rightarrow> Some None
   | Some succ \<Rightarrow> map_option Some (leftmost_walk t succ))"

partial_function (option) rightmost_walk :: "ocf_rb_tree \<Rightarrow> nat \<Rightarrow> nat option" where
  "rightmost_walk t pred = (case rb_right t pred of None \<Rightarrow> Some pred | Some x \<Rightarrow> rightmost_walk t x)"

definition ocf_rb_tree_predecessor :: "ocf_rb_tree \<Rightarrow> nat \<Rightarrow> nat option option" where
  "ocf_rb_tree_predecessor t node = (case rb_left t node of
     None \<Rightarrow> Some None
   | Some pred \<Rightarrow> map_option Some (rightmost_walk t pred))"

definition ocf_rb_tree_bst_replacement :: "ocf_rb_tree \<Rightarrow> nat \<Rightarrow> nat option option" where
  "ocf_rb_tree_bst_replacement t node =
     (if rb_left t node \<noteq> None \<and> rb_right t node \<noteq> None then ocf_rb_tree_successor t node
      else if rb_left t node \<noteq> None then Some (rb_left t node)
      else if rb_right t node \<noteq> None then Some (rb_right t node)
      else Some None)"

definition ocf_rb_tree_sibling :: "ocf_rb_tree \<Rightarrow> nat \<Rightarrow> nat option" where
  "ocf_rb_tree_sibling t node = (case rb_parent t node of
     None \<Rightarrow> None
   | Some p \<Rightarrow> if rb_left t p = Some node then rb_right t p else rb_left t p)"

text \<open>The two endings of \<^verbatim>\<open>ocf_rb_tree_fix_double_black\<close> in which the sibling has a red child; the parent is read again after the rotations.\<close>

definition parent_black :: "nat \<Rightarrow> ocf_rb_tree \<Rightarrow> ocf_rb_tree option" where
  "parent_black node t = do {
     parent \<leftarrow> rb_parent t node;
     Some (set_red parent False t) }"

definition red_left_child :: "nat \<Rightarrow> nat \<Rightarrow> nat \<Rightarrow> ocf_rb_tree \<Rightarrow> ocf_rb_tree option" where
  "red_left_child node parent sibling t = do {
     child \<leftarrow> rb_left t sibling;
     t \<leftarrow> (if rb_left t parent = Some sibling then do {
         let t = set_red child (rb_red t sibling) t;
         let t = set_red sibling (rb_red t parent) t;
         ocf_rb_tree_rotate_right parent t }
       else do {
         let t = set_red child (rb_red t parent) t;
         t \<leftarrow> ocf_rb_tree_rotate_right sibling t;
         ocf_rb_tree_rotate_left parent t });
     parent_black node t }"

definition red_right_child :: "nat \<Rightarrow> nat \<Rightarrow> nat \<Rightarrow> ocf_rb_tree \<Rightarrow> ocf_rb_tree option" where
  "red_right_child node parent sibling t = do {
     child \<leftarrow> rb_right t sibling;
     t \<leftarrow> (if rb_left t parent = Some sibling then do {
         let t = set_red child (rb_red t parent) t;
         t \<leftarrow> ocf_rb_tree_rotate_left sibling t;
         ocf_rb_tree_rotate_right parent t }
       else do {
         let t = set_red child (rb_red t sibling) t;
         let t = set_red sibling (rb_red t parent) t;
         ocf_rb_tree_rotate_left parent t });
     parent_black node t }"

partial_function (option) ocf_rb_tree_fix_double_black :: "nat \<Rightarrow> ocf_rb_tree \<Rightarrow> ocf_rb_tree option" where
  "ocf_rb_tree_fix_double_black node t = (case rb_parent t node of
     None \<Rightarrow> Some t
   | Some parent \<Rightarrow> (case ocf_rb_tree_sibling t node of
       None \<Rightarrow> ocf_rb_tree_fix_double_black parent t
     | Some sibling \<Rightarrow>
         if rb_red t sibling then do {
           let t = set_red sibling False (set_red parent True t);
           t \<leftarrow> (if rb_left t parent = Some sibling then ocf_rb_tree_rotate_right else ocf_rb_tree_rotate_left) parent t;
           ocf_rb_tree_fix_double_black node t }
         else if is_red t (rb_left t sibling) then red_left_child node parent sibling t
         else if is_red t (rb_right t sibling) then red_right_child node parent sibling t
         else do {
           let t = set_red sibling True t;
           if \<not> rb_red t parent then ocf_rb_tree_fix_double_black parent t
           else Some (set_red parent False t) }))"

text \<open>Taking a node without children out of the tree, once the tree is balanced without it.\<close>

definition detach_leaf :: "nat \<Rightarrow> ocf_rb_tree \<Rightarrow> ocf_rb_tree option" where
  "detach_leaf node t = do {
     t \<leftarrow> (if \<not> rb_red t node then ocf_rb_tree_fix_double_black node t else Some t);
     Some (ocf_rb_tree_update_parent node node None t) }"

definition remove_leaf :: "nat \<Rightarrow> nat option \<Rightarrow> ocf_rb_tree \<Rightarrow> ocf_rb_tree option" where
  "remove_leaf node sibling t =
     (if rt_root t = Some node then Some (t\<lparr>rt_root := None\<rparr>)
      else if \<not> rb_red t node then detach_leaf node t
      else detach_leaf node (case sibling of None \<Rightarrow> t | Some s \<Rightarrow> set_red s True t))"

partial_function (option) ocf_rb_tree_remove :: "nat \<Rightarrow> ocf_rb_tree \<Rightarrow> ocf_rb_tree option" where
  "ocf_rb_tree_remove node t = do {
     let sibling = ocf_rb_tree_sibling t node;
     rep \<leftarrow> ocf_rb_tree_bst_replacement t node;
     (case rep of
        None \<Rightarrow> remove_leaf node sibling t
      | Some r \<Rightarrow>
          if rb_left t r = None \<and> rb_right t r = None then detach_leaf node (ocf_rb_tree_swap node r t)
          else ocf_rb_tree_remove node (ocf_rb_tree_swap node r t)) }"

text \<open>The comparison of \<open>ocf_rb_tree_can_update\<close> is that of the new node, whose values the old node is to get.\<close>

partial_function (option) update_walk :: "(nat \<Rightarrow> int) \<Rightarrow> nat \<Rightarrow> ocf_rb_tree \<Rightarrow> nat option \<Rightarrow> bool option" where
  "update_walk cmp node t iter =
     (if iter = None then Some False
      else if iter = Some node then Some True
      else update_walk cmp node t (if cmp (the iter) < 0 then rb_left t (the iter) else rb_right t (the iter)))"

definition ocf_rb_tree_can_update :: "(nat \<Rightarrow> int) \<Rightarrow> nat \<Rightarrow> ocf_rb_tree \<Rightarrow> bool option" where
  "ocf_rb_tree_can_update cmp node t = do {
     found \<leftarrow> update_walk cmp node t (rt_root t);
     if \<not> found then Some False
     else if cmp node < 0 then do {
       pred \<leftarrow> ocf_rb_tree_predecessor t node;
       Some (case pred of None \<Rightarrow> True | Some x \<Rightarrow> cmp x > 0) }
     else if cmp node > 0 then do {
       succ \<leftarrow> ocf_rb_tree_successor t node;
       Some (case succ of None \<Rightarrow> True | Some x \<Rightarrow> cmp x < 0) }
     else Some True }"

partial_function (option) find_walk :: "(nat \<Rightarrow> int) \<Rightarrow> ocf_rb_tree \<Rightarrow> nat option \<Rightarrow> nat option option" where
  "find_walk cmp t iter =
     (if iter = None then Some None
      else if cmp (the iter) = 0 then Some iter
      else find_walk cmp t (if cmp (the iter) < 0 then rb_left t (the iter) else rb_right t (the iter)))"

definition ocf_rb_tree_find :: "(nat \<Rightarrow> int) \<Rightarrow> ocf_rb_tree \<Rightarrow> nat option option" where
  "ocf_rb_tree_find cmp t = find_walk cmp t (rt_root t)"

subsection \<open>The tree in memory\<close>

text \<open>
  \<open>tree_at h par T\<close> says that the nodes of \<open>T\<close> are in memory with their links, and that the parent of its root is \<open>par\<close>. A place in a
  tree is a list of frames, from the place up to the root; \<open>plug\<close> puts a tree there.
\<close>

type_synonym ntree = "(nat \<times> bool) tree"

fun root_of :: "ntree \<Rightarrow> nat option" where
  "root_of Leaf = None"
| "root_of (Node l (x, c) r) = Some x"

fun tree_at :: "(nat \<Rightarrow> ocf_rb_node) \<Rightarrow> nat option \<Rightarrow> ntree \<Rightarrow> bool" where
  "tree_at h par Leaf = True"
| "tree_at h par (Node l (x, c) r) \<longleftrightarrow>
     h x = \<lparr>nd_red = c, nd_left = root_of l, nd_right = root_of r, nd_parent = par\<rparr> \<and> tree_at h (Some x) l \<and> tree_at h (Some x) r"

definition ids :: "ntree \<Rightarrow> nat list" where
  "ids T = map fst (inorder T)"

definition tree_rep :: "ocf_rb_tree \<Rightarrow> ntree \<Rightarrow> bool" where
  "tree_rep t T \<longleftrightarrow> rt_root t = root_of T \<and> tree_at (rt_node t) None T \<and> distinct (ids T)"

text \<open>\<open>InL x c r\<close> is the left child of the node \<open>x\<close> with the right subtree \<open>r\<close>, \<open>InR x c l\<close> the right child of the node \<open>x\<close> with the left subtree \<open>l\<close>.\<close>

datatype frame = InL nat bool ntree | InR nat bool ntree

fun plug :: "ntree \<Rightarrow> frame list \<Rightarrow> ntree" where
  "plug T [] = T"
| "plug T (InL x c r # fs) = plug (Node T (x, c) r) fs"
| "plug T (InR x c l # fs) = plug (Node l (x, c) T) fs"

fun up :: "frame list \<Rightarrow> nat option" where
  "up [] = None"
| "up (InL x c r # fs) = Some x"
| "up (InR x c l # fs) = Some x"

fun frames_at :: "(nat \<Rightarrow> ocf_rb_node) \<Rightarrow> nat option \<Rightarrow> nat option \<Rightarrow> frame list \<Rightarrow> bool" where
  "frames_at h root p [] \<longleftrightarrow> root = p"
| "frames_at h root p (InL x c r # fs) \<longleftrightarrow>
     h x = \<lparr>nd_red = c, nd_left = p, nd_right = root_of r, nd_parent = up fs\<rparr> \<and> tree_at h (Some x) r \<and> frames_at h root (Some x) fs"
| "frames_at h root p (InR x c l # fs) \<longleftrightarrow>
     h x = \<lparr>nd_red = c, nd_left = root_of l, nd_right = p, nd_parent = up fs\<rparr> \<and> tree_at h (Some x) l \<and> frames_at h root (Some x) fs"

fun before :: "frame list \<Rightarrow> nat list" where
  "before [] = []"
| "before (InL x c r # fs) = before fs"
| "before (InR x c l # fs) = before fs @ ids l @ [x]"

fun after :: "frame list \<Rightarrow> nat list" where
  "after [] = []"
| "after (InL x c r # fs) = x # ids r @ after fs"
| "after (InR x c l # fs) = after fs"

lemma ids_simps [simp]: "ids Leaf = []" "ids (Node l (x, c) r) = ids l @ x # ids r"
  by (simp_all add: ids_def)

lemma ids_plug: "ids (plug T fs) = before fs @ ids T @ after fs"
  by (induction T fs rule: plug.induct) auto

lemma rep_plug:
  "tree_rep t (plug T fs) \<longleftrightarrow>
    tree_at (rt_node t) (up fs) T \<and> frames_at (rt_node t) (rt_root t) (root_of T) fs \<and> distinct (before fs @ ids T @ after fs)"
proof (induction T fs rule: plug.induct)
  case (1 T)
  then show ?case by (auto simp: tree_rep_def)
qed auto

lemma root_of_ids: "root_of T = Some x \<Longrightarrow> x \<in> set (ids T)"
  by (cases T) auto

lemma tree_at_upd [simp]: "x \<notin> set (ids T) \<Longrightarrow> tree_at (h(x := n)) p T = tree_at h p T"
  by (induction h p T rule: tree_at.induct) auto

lemma frames_at_upd [simp]: "x \<notin> set (before fs) \<Longrightarrow> x \<notin> set (after fs) \<Longrightarrow> frames_at (h(x := n)) root p fs = frames_at h root p fs"
  by (induction h root p fs rule: frames_at.induct) auto

lemma up_ids: "up fs = Some x \<Longrightarrow> x \<in> set (before fs) \<union> set (after fs)"
  by (cases fs rule: up.cases) auto

subsection \<open>Recolouring and rotation\<close>

lemma upd_node_simps [simp]:
  "rt_root (upd_node x f t) = rt_root t" "rt_node (upd_node x f t) = (rt_node t)(x := f (rt_node t x))"
  by (simp_all add: upd_node_def)

lemma rep_recolour:
  assumes "tree_rep t (plug (Node l (x, c) r) fs)"
  shows "tree_rep (set_red x d t) (plug (Node l (x, d) r) fs)"
  using assms by (simp add: rep_plug)

lemma link_parent_at:
  assumes "tree_at (rt_node t) p T" "distinct (ids T)"
  shows "tree_at (rt_node (link_parent (root_of T) x t)) (Some x) T" "rt_root (link_parent (root_of T) x t) = rt_root t"
    "y \<notin> set (ids T) \<Longrightarrow> rt_node (link_parent (root_of T) x t) y = rt_node t y"
  using assms by (cases T; auto simp: link_parent_def)+

lemma tree_at_cong: "(\<And>z. z \<in> set (ids T) \<Longrightarrow> h' z = h z) \<Longrightarrow> tree_at h' p T = tree_at h p T"
  by (induction h p T rule: tree_at.induct) auto

lemma tree_at_same: "tree_at h p T \<Longrightarrow> (\<And>z. z \<in> set (ids T) \<Longrightarrow> h' z = h z) \<Longrightarrow> tree_at h' p T"
  by (simp add: tree_at_cong [of T h' h])

lemma frames_at_cong:
  assumes "\<And>z. z \<in> set (before fs) \<union> set (after fs) \<Longrightarrow> h' z = h z"
  shows "frames_at h' root p fs = frames_at h root p fs"
  using assms
proof (induction fs arbitrary: p)
  case (Cons f fs)
  have "frames_at h' root q fs = frames_at h root q fs" for q by (rule Cons.IH) (use Cons.prems in \<open>cases f; auto\<close>)
  then show ?case using Cons.prems by (cases f) (auto simp: tree_at_cong [of _ h' h])
qed simp

text \<open>The link down to a place is changed to a new node.\<close>

lemma update_parent_frames:
  assumes "rb_parent t node = up fs" "frames_at (rt_node t) (rt_root t) (Some old) fs" "old \<notin> set (before fs) \<union> set (after fs)" "distinct (before fs @ after fs)"
  shows "frames_at (rt_node (ocf_rb_tree_update_parent node old new t)) (rt_root (ocf_rb_tree_update_parent node old new t)) new fs"
    "z \<notin> set (before fs) \<union> set (after fs) \<Longrightarrow> rt_node (ocf_rb_tree_update_parent node old new t) z = rt_node t z"
proof -
  note U = ocf_rb_tree_update_parent_def
  have r: "root_of l \<noteq> Some old" if "fs = InR x c l # fs'" for x c l fs' using root_of_ids [of l old] assms(3) that by auto
  then show "frames_at (rt_node (ocf_rb_tree_update_parent node old new t)) (rt_root (ocf_rb_tree_update_parent node old new t)) new fs"
    "z \<notin> set (before fs) \<union> set (after fs) \<Longrightarrow> rt_node (ocf_rb_tree_update_parent node old new t) z = rt_node t z"
    using assms by (cases fs rule: up.cases; auto simp: U)+
qed

lemma rep_rotate_left:
  assumes rep: "tree_rep t (plug (Node a (x, c) (Node b (y, d) e)) fs)"
  obtains t' where "ocf_rb_tree_rotate_left x t = Some t'" "tree_rep t' (plug (Node (Node a (x, c) b) (y, d) e) fs)"
proof -
  let ?F = "set (before fs) \<union> set (after fs)"
  have h: "rt_node t x = \<lparr>nd_red = c, nd_left = root_of a, nd_right = Some y, nd_parent = up fs\<rparr>"
    "rt_node t y = \<lparr>nd_red = d, nd_left = root_of b, nd_right = root_of e, nd_parent = Some x\<rparr>"
    and at: "tree_at (rt_node t) (Some x) a" "tree_at (rt_node t) (Some y) b" "tree_at (rt_node t) (Some y) e"
    and fr: "frames_at (rt_node t) (rt_root t) (Some x) fs" and dist: "distinct (before fs @ (ids a @ x # ids b @ y # ids e) @ after fs)"
    using rep by (auto simp: rep_plug)
  define t2 where "t2 = link_parent (root_of b) x (set_right x (root_of b) t)"
  define t3 where "t3 = set_parent y (up fs) t2"
  define t4 where "t4 = ocf_rb_tree_update_parent x x (Some y) t3"
  define t6 where "t6 = set_parent x (Some y) (set_left y (Some x) t4)"
  have b: "tree_at (rt_node (set_right x (root_of b) t)) (Some y) b" "distinct (ids b)" using at(2) dist by auto
  have t2: "tree_at (rt_node t2) (Some x) b" "rt_root t2 = rt_root t" "z \<notin> set (ids b) \<Longrightarrow> z \<noteq> x \<Longrightarrow> rt_node t2 z = rt_node t z"
    "rt_node t2 x = (rt_node t x)\<lparr>nd_right := root_of b\<rparr>" for z
    using link_parent_at(1,2) [OF b, of x] link_parent_at(3) [OF b, of z x] link_parent_at(3) [OF b, of x x] dist by (simp_all add: t2_def)
  have t3: "rt_node t3 z = rt_node t z" if "z \<notin> set (ids b) \<union> {x, y}" for z using t2(3) that by (simp add: t3_def)
  have p2: "rb_parent t2 x = up fs" using t2(4) h(1) by simp
  have p3: "rb_parent t3 x = up fs" using t2(4) h(1) dist by (auto simp: t3_def)
  have "frames_at (rt_node t3) (rt_root t) (Some x) fs = frames_at (rt_node t) (rt_root t) (Some x) fs"
    by (rule frames_at_cong, rule t3) (use dist in auto)
  moreover have "rt_root t3 = rt_root t" using t2(2) by (simp add: t3_def)
  ultimately have fr3: "frames_at (rt_node t3) (rt_root t3) (Some x) fs" using fr by simp
  have nF: "x \<notin> ?F" "distinct (before fs @ after fs)" using dist by auto
  note U = update_parent_frames [OF p3 fr3 nF, where new = "Some y", folded t4_def]
  have out: "rt_node t6 z = rt_node t3 z" if "z \<notin> ?F \<union> {x, y}" for z using U(2) [of z] that by (simp add: t6_def)
  have out': "rt_node t6 z = rt_node t z" if "z \<notin> ?F \<union> {x, y} \<union> set (ids b)" for z using out [of z] t3 [of z] that by simp
  have "rt_node t6 x = \<lparr>nd_red = c, nd_left = root_of a, nd_right = root_of b, nd_parent = Some y\<rparr>"
    using U(2) [of x] nF t2(4) h(1) dist by (auto simp: t6_def t3_def)
  moreover have "rt_node t6 y = \<lparr>nd_red = d, nd_left = Some x, nd_right = root_of e, nd_parent = up fs\<rparr>"
    using U(2) [of y] t2(3) [of y] h(2) dist by (auto simp: t6_def t3_def)
  moreover have "tree_at (rt_node t6) (Some x) a" by (rule tree_at_same [OF at(1) out']) (use dist in auto)
  moreover have "tree_at (rt_node t6) (Some y) e" by (rule tree_at_same [OF at(3) out']) (use dist in auto)
  moreover have "tree_at (rt_node t6) (Some x) b"
  proof (rule tree_at_same [OF t2(1)])
    fix z assume z: "z \<in> set (ids b)"
    have "rt_node t6 z = rt_node t3 z" by (rule out) (use dist z in auto)
    then show "rt_node t6 z = rt_node t2 z" using dist z by (auto simp: t3_def)
  qed
  moreover have "frames_at (rt_node t6) (rt_root t6) (Some y) fs" using U(1) dist by (simp add: t6_def)
  ultimately have "tree_rep t6 (plug (Node (Node a (x, c) b) (y, d) e) fs)" using dist by (simp add: rep_plug)
  moreover have "ocf_rb_tree_rotate_left x t = Some t6" using h dist p2
    by (auto simp: ocf_rb_tree_rotate_left_def t6_def t4_def t3_def t2_def Let_def)
  ultimately show thesis using that by blast
qed

lemma rep_rotate_right:
  assumes rep: "tree_rep t (plug (Node (Node e (y, d) b) (x, c) a) fs)"
  obtains t' where "ocf_rb_tree_rotate_right x t = Some t'" "tree_rep t' (plug (Node e (y, d) (Node b (x, c) a)) fs)"
proof -
  let ?F = "set (before fs) \<union> set (after fs)"
  have h: "rt_node t x = \<lparr>nd_red = c, nd_left = Some y, nd_right = root_of a, nd_parent = up fs\<rparr>"
    "rt_node t y = \<lparr>nd_red = d, nd_left = root_of e, nd_right = root_of b, nd_parent = Some x\<rparr>"
    and at: "tree_at (rt_node t) (Some x) a" "tree_at (rt_node t) (Some y) b" "tree_at (rt_node t) (Some y) e"
    and fr: "frames_at (rt_node t) (rt_root t) (Some x) fs" and dist: "distinct (before fs @ ((ids e @ y # ids b) @ x # ids a) @ after fs)"
    using rep by (auto simp: rep_plug)
  define t2 where "t2 = link_parent (root_of b) x (set_left x (root_of b) t)"
  define t3 where "t3 = set_parent y (up fs) t2"
  define t4 where "t4 = ocf_rb_tree_update_parent x x (Some y) t3"
  define t6 where "t6 = set_parent x (Some y) (set_right y (Some x) t4)"
  have b: "tree_at (rt_node (set_left x (root_of b) t)) (Some y) b" "distinct (ids b)" using at(2) dist by auto
  have t2: "tree_at (rt_node t2) (Some x) b" "rt_root t2 = rt_root t" "z \<notin> set (ids b) \<Longrightarrow> z \<noteq> x \<Longrightarrow> rt_node t2 z = rt_node t z"
    "rt_node t2 x = (rt_node t x)\<lparr>nd_left := root_of b\<rparr>" for z
    using link_parent_at(1,2) [OF b, of x] link_parent_at(3) [OF b, of z x] link_parent_at(3) [OF b, of x x] dist by (simp_all add: t2_def)
  have t3: "rt_node t3 z = rt_node t z" if "z \<notin> set (ids b) \<union> {x, y}" for z using t2(3) that by (simp add: t3_def)
  have p2: "rb_parent t2 x = up fs" using t2(4) h(1) by simp
  have p3: "rb_parent t3 x = up fs" using t2(4) h(1) dist by (auto simp: t3_def)
  have "frames_at (rt_node t3) (rt_root t) (Some x) fs = frames_at (rt_node t) (rt_root t) (Some x) fs"
    by (rule frames_at_cong, rule t3) (use dist in auto)
  moreover have "rt_root t3 = rt_root t" using t2(2) by (simp add: t3_def)
  ultimately have fr3: "frames_at (rt_node t3) (rt_root t3) (Some x) fs" using fr by simp
  have nF: "x \<notin> ?F" "distinct (before fs @ after fs)" using dist by auto
  note U = update_parent_frames [OF p3 fr3 nF, where new = "Some y", folded t4_def]
  have out: "rt_node t6 z = rt_node t3 z" if "z \<notin> ?F \<union> {x, y}" for z using U(2) [of z] that by (simp add: t6_def)
  have out': "rt_node t6 z = rt_node t z" if "z \<notin> ?F \<union> {x, y} \<union> set (ids b)" for z using out [of z] t3 [of z] that by simp
  have "rt_node t6 x = \<lparr>nd_red = c, nd_left = root_of b, nd_right = root_of a, nd_parent = Some y\<rparr>"
    using U(2) [of x] nF t2(4) h(1) dist by (auto simp: t6_def t3_def)
  moreover have "rt_node t6 y = \<lparr>nd_red = d, nd_left = root_of e, nd_right = Some x, nd_parent = up fs\<rparr>"
    using U(2) [of y] t2(3) [of y] h(2) dist by (auto simp: t6_def t3_def)
  moreover have "tree_at (rt_node t6) (Some x) a" by (rule tree_at_same [OF at(1) out']) (use dist in auto)
  moreover have "tree_at (rt_node t6) (Some y) e" by (rule tree_at_same [OF at(3) out']) (use dist in auto)
  moreover have "tree_at (rt_node t6) (Some x) b"
  proof (rule tree_at_same [OF t2(1)])
    fix z assume z: "z \<in> set (ids b)"
    have "rt_node t6 z = rt_node t3 z" by (rule out) (use dist z in auto)
    then show "rt_node t6 z = rt_node t2 z" using dist z by (auto simp: t3_def)
  qed
  moreover have "frames_at (rt_node t6) (rt_root t6) (Some y) fs" using U(1) dist by (simp add: t6_def)
  ultimately have "tree_rep t6 (plug (Node e (y, d) (Node b (x, c) a)) fs)" using dist by (simp add: rep_plug)
  moreover have "ocf_rb_tree_rotate_right x t = Some t6" using h dist p2
    by (auto simp: ocf_rb_tree_rotate_right_def t6_def t4_def t3_def t2_def Let_def)
  ultimately show thesis using that by blast
qed

text \<open>A change at a child of the place, and a change at a grandchild.\<close>

lemmas rotate_left_in_left = rep_rotate_left [where fs = "InL g c u # fs" for g c u fs, unfolded plug.simps]
lemmas rotate_right_in_right = rep_rotate_right [where fs = "InR g c u # fs" for g c u fs, unfolded plug.simps]
lemmas rotate_left_in_right = rep_rotate_left [where fs = "InR g c u # fs" for g c u fs, unfolded plug.simps]
lemmas rotate_right_in_left = rep_rotate_right [where fs = "InL g c u # fs" for g c u fs, unfolded plug.simps]
lemmas recolour_left = rep_recolour [where fs = "InL g c u # fs" for g c u fs, unfolded plug.simps]
lemmas recolour_right = rep_recolour [where fs = "InR g c u # fs" for g c u fs, unfolded plug.simps]

subsection \<open>Balance\<close>

text \<open>
  No red node has a red child, and all paths from a node down have the same number of black nodes. \<open>place_ok n fs\<close> says that a tree with a black root and
  \<open>n\<close> black nodes on each path can be put at the place \<open>fs\<close>.
\<close>

fun black :: "ntree \<Rightarrow> bool" where
  "black Leaf = True"
| "black (Node l (x, c) r) = (\<not> c)"

fun bh :: "ntree \<Rightarrow> nat" where
  "bh Leaf = 0"
| "bh (Node l (x, c) r) = bh l + (if c then 0 else 1)"

fun rb_ok :: "ntree \<Rightarrow> bool" where
  "rb_ok Leaf = True"
| "rb_ok (Node l (x, c) r) \<longleftrightarrow> rb_ok l \<and> rb_ok r \<and> bh l = bh r \<and> (c \<longrightarrow> black l \<and> black r)"

fun under_black :: "frame list \<Rightarrow> bool" where
  "under_black [] = False"
| "under_black (InL x c r # fs) = (\<not> c)"
| "under_black (InR x c l # fs) = (\<not> c)"

fun place_ok :: "nat \<Rightarrow> frame list \<Rightarrow> bool" where
  "place_ok n [] = True"
| "place_ok n (InL x c s # fs) \<longleftrightarrow> rb_ok s \<and> bh s = n \<and> (c \<longrightarrow> black s \<and> under_black fs) \<and> place_ok (n + (if c then 0 else 1)) fs"
| "place_ok n (InR x c s # fs) \<longleftrightarrow> rb_ok s \<and> bh s = n \<and> (c \<longrightarrow> black s \<and> under_black fs) \<and> place_ok (n + (if c then 0 else 1)) fs"

definition rb_tree :: "ntree \<Rightarrow> bool" where
  "rb_tree T \<longleftrightarrow> rb_ok T \<and> black T"

lemma place_plug: "rb_ok (plug T fs) \<and> black (plug T fs) \<longleftrightarrow> rb_ok T \<and> place_ok (bh T) fs \<and> (black T \<or> under_black fs)"
proof (induction T fs rule: plug.induct)
  case (2 T x c r fs)
  then show ?case by (cases fs rule: under_black.cases) auto
next
  case (3 T x c l fs)
  then show ?case by (cases fs rule: under_black.cases) auto
qed auto

lemma place_plug_any: "rb_ok T \<Longrightarrow> place_ok (bh T) fs \<Longrightarrow> black T \<or> fs = [] \<or> under_black fs \<Longrightarrow> rb_ok (plug T fs)"
  using place_plug [of T fs] by (cases "fs = []") auto

subsection \<open>Insertion\<close>

lemma is_red_root: "tree_at (rt_node t) p T \<Longrightarrow> is_red t (root_of T) = (\<not> black T)"
  by (cases T rule: black.cases) (auto simp: is_red_def)

lemma step_recolour_left:
  assumes "tree_rep t (plug (Node (Node A (p, True) B) (g, False) (Node l (w, True) r)) fs)"
  obtains t' where "fix_violation_step x p g t = Some (g, t')" "tree_rep t' (plug (Node (Node A (p, False) B) (g, True) (Node l (w, False) r)) fs)"
proof (rule that)
  show "fix_violation_step x p g t = Some (g, set_red w False (set_red p False (set_red g True t)))"
    using assms by (simp add: rep_plug fix_violation_step_def is_red_def)
  show "tree_rep (set_red w False (set_red p False (set_red g True t))) (plug (Node (Node A (p, False) B) (g, True) (Node l (w, False) r)) fs)"
    by (rule recolour_right, rule recolour_left, rule rep_recolour, rule assms)
qed

lemma step_recolour_right:
  assumes "tree_rep t (plug (Node (Node l (w, True) r) (g, False) (Node A (p, True) B)) fs)"
  obtains t' where "fix_violation_step x p g t = Some (g, t')" "tree_rep t' (plug (Node (Node l (w, False) r) (g, True) (Node A (p, False) B)) fs)"
proof (rule that)
  show "fix_violation_step x p g t = Some (g, set_red w False (set_red p False (set_red g True t)))"
    using assms by (simp add: rep_plug fix_violation_step_def is_red_def)
  show "tree_rep (set_red w False (set_red p False (set_red g True t))) (plug (Node (Node l (w, False) r) (g, True) (Node A (p, False) B)) fs)"
    by (rule recolour_left, rule recolour_right, rule rep_recolour, rule assms)
qed

lemma step_inner_left:
  assumes rep: "tree_rep t (plug (Node (Node s (p, True) (Node l (x, True) r)) (g, c) u) fs)" and u: "black u"
  obtains t' where "fix_violation_step x p g t = Some (p, t')" "tree_rep t' (plug (Node (Node (Node s (p, True) l) (x, True) r) (g, c) u) fs)"
proof -
  obtain t' where t': "ocf_rb_tree_rotate_left p t = Some t'" "tree_rep t' (plug (Node (Node (Node s (p, True) l) (x, True) r) (g, c) u) fs)"
    by (rule rotate_left_in_left [OF rep])
  show thesis by (rule that [OF _ t'(2)]) (use rep u t'(1) is_red_root [of t "Some g" u] in \<open>auto simp: rep_plug fix_violation_step_def Let_def\<close>)
qed

lemma step_inner_right:
  assumes rep: "tree_rep t (plug (Node u (g, c) (Node (Node l (x, True) r) (p, True) s)) fs)" and u: "black u"
  obtains t' where "fix_violation_step x p g t = Some (p, t')" "tree_rep t' (plug (Node u (g, c) (Node l (x, True) (Node r (p, True) s))) fs)"
proof -
  obtain t' where t': "ocf_rb_tree_rotate_right p t = Some t'" "tree_rep t' (plug (Node u (g, c) (Node l (x, True) (Node r (p, True) s))) fs)"
    by (rule rotate_right_in_right [OF rep])
  show thesis by (rule that [OF _ t'(2)]) (use rep u t'(1) is_red_root [of t "Some g" u] root_of_ids [of u p] in \<open>auto simp: rep_plug fix_violation_step_def Let_def\<close>)
qed

lemma step_outer_left:
  assumes rep: "tree_rep t (plug (Node (Node (Node l (x, True) r) (p, True) s) (g, False) u) fs)" and u: "black u"
  obtains t' where "fix_violation_step x p g t = Some (p, t')" "tree_rep t' (plug (Node (Node l (x, True) r) (p, False) (Node s (g, True) u)) fs)"
proof -
  obtain t1 where t1: "ocf_rb_tree_rotate_right g t = Some t1" "tree_rep t1 (plug (Node (Node l (x, True) r) (p, True) (Node s (g, False) u)) fs)"
    by (rule rep_rotate_right [OF rep])
  have "tree_rep (set_red g True (set_red p False t1)) (plug (Node (Node l (x, True) r) (p, False) (Node s (g, True) u)) fs)"
    by (rule recolour_right, rule rep_recolour, rule t1)
  moreover have "fix_violation_step x p g t = Some (p, set_red g True (set_red p False t1))"
    using rep u t1 is_red_root [of t "Some g" u] root_of_ids [of s x] by (auto simp: rep_plug fix_violation_step_def Let_def)
  ultimately show thesis using that by blast
qed

lemma step_outer_right:
  assumes rep: "tree_rep t (plug (Node u (g, False) (Node s (p, True) (Node l (x, True) r))) fs)" and u: "black u"
  obtains t' where "fix_violation_step x p g t = Some (p, t')" "tree_rep t' (plug (Node (Node u (g, True) s) (p, False) (Node l (x, True) r)) fs)"
proof -
  obtain t1 where t1: "ocf_rb_tree_rotate_left g t = Some t1" "tree_rep t1 (plug (Node (Node u (g, False) s) (p, True) (Node l (x, True) r)) fs)"
    by (rule rep_rotate_left [OF rep])
  have "tree_rep (set_red g True (set_red p False t1)) (plug (Node (Node u (g, True) s) (p, False) (Node l (x, True) r)) fs)"
    by (rule recolour_left, rule rep_recolour, rule t1)
  moreover have "fix_violation_step x p g t = Some (p, set_red g True (set_red p False t1))"
    using rep u t1 is_red_root [of t "Some g" u] root_of_ids [of s x] root_of_ids [of u p] by (auto simp: rep_plug fix_violation_step_def Let_def)
  ultimately show thesis using that by blast
qed

lemma up_red: "frames_at (rt_node t) root q fs \<Longrightarrow> is_red t (up fs) = (fs \<noteq> [] \<and> \<not> under_black fs)"
  by (cases fs rule: up.cases) (auto simp: is_red_def)

lemma violation_stop: "\<not> (rb_red t x \<and> is_red t (rb_parent t x)) \<Longrightarrow> fix_violation_loop x t = Some t"
  by (subst fix_violation_loop.simps) auto

lemma violation_next:
  assumes "rb_red t x" "rb_parent t x = Some p" "rb_red t p" "rb_parent t p = Some g" "fix_violation_step x p g t = Some (y, t')"
  shows "fix_violation_loop x t = fix_violation_loop y t'"
  using assms by (subst fix_violation_loop.simps) (simp add: is_red_def)

text \<open>What the loop leaves: a tree with the same nodes in order whose root may be red.\<close>

definition violation_fixed :: "nat \<Rightarrow> ocf_rb_tree \<Rightarrow> nat list \<Rightarrow> bool" where
  "violation_fixed x t xs \<longleftrightarrow> (\<exists>t' T. fix_violation_loop x t = Some t' \<and> tree_rep t' T \<and> rb_ok T \<and> ids T = xs)"

lemma violation_outer:
  assumes "tree_rep t (plug (Node l (p, False) r) fs)" "rb_ok (Node l (p, False) r)" "place_ok (bh l + 1) fs"
  shows "violation_fixed p t (ids (plug (Node l (p, False) r) fs))"
  unfolding violation_fixed_def
proof (intro exI conjI)
  show "fix_violation_loop p t = Some t" by (rule violation_stop) (use assms(1) in \<open>simp add: rep_plug\<close>)
  show "rb_ok (plug (Node l (p, False) r) fs)" using place_plug [of "Node l (p, False) r" fs] assms by simp
qed (use assms in auto)

lemma violation_outer_left:
  assumes rp: "tree_rep t (plug (Node (Node (Node l (x, True) r) (p, True) s) (g, False) u) fs)"
    and k: "rb_ok (Node l (x, True) r)" "rb_ok s" "bh s = bh l" "black s" "rb_ok u" "bh u = bh l" "black u" "place_ok (bh l + 1) fs"
  shows "violation_fixed x t (ids (plug (Node (Node (Node l (x, True) r) (p, True) s) (g, False) u) fs))"
proof -
  obtain t' where t': "fix_violation_step x p g t = Some (p, t')" "tree_rep t' (plug (Node (Node l (x, True) r) (p, False) (Node s (g, True) u)) fs)"
    by (rule step_outer_left [OF rp k(7)])
  have "violation_fixed p t' (ids (plug (Node (Node l (x, True) r) (p, False) (Node s (g, True) u)) fs))"
    by (rule violation_outer [OF t'(2)]) (use k in auto)
  then show ?thesis using violation_next [OF _ _ _ _ t'(1)] rp by (simp add: violation_fixed_def ids_plug rep_plug)
qed

lemma violation_loop_left:
  assumes rep: "tree_rep t (plug (Node P (g, False) u) fs)"
    and P: "P = Node (Node l (x, True) r) (p, True) s \<or> P = Node s (p, True) (Node l (x, True) r)"
    and ok: "rb_ok (Node l (x, True) r)" "rb_ok s" "bh s = bh l" "black s" "rb_ok u" "bh u = bh l" "place_ok (bh l + 1) fs"
    and IH: "\<And>l x r t. tree_rep t (plug (Node l (x, True) r) fs) \<Longrightarrow> rb_ok (Node l (x, True) r) \<Longrightarrow> place_ok (bh l) fs \<Longrightarrow>
      violation_fixed x t (ids (plug (Node l (x, True) r) fs))"
  shows "violation_fixed x t (ids (plug (Node P (g, False) u) fs))"
proof -
  have h: "rb_red t x" "rb_parent t x = Some p" "rb_red t p" "rb_parent t p = Some g" using rep P by (auto simp: rep_plug)
  note next_x = violation_next [OF h]
  consider (red) "\<not> black u" | (outer) "black u" "P = Node (Node l (x, True) r) (p, True) s"
    | (inner) "black u" "P = Node s (p, True) (Node l (x, True) r)" using P by blast
  then show ?thesis
  proof cases
    case red
    then obtain ul w ur where u: "u = Node ul (w, True) ur" by (cases u rule: black.cases) auto
    obtain A B where AB: "P = Node A (p, True) B" "rb_ok A" "rb_ok B" "bh A = bh l" "bh B = bh l" using P ok by fastforce
    obtain t' where t': "fix_violation_step x p g t = Some (g, t')" "tree_rep t' (plug (Node (Node A (p, False) B) (g, True) (Node ul (w, False) ur)) fs)"
      using step_recolour_left rep unfolding AB(1) u by blast
    have "violation_fixed g t' (ids (plug (Node (Node A (p, False) B) (g, True) (Node ul (w, False) ur)) fs))"
      by (rule IH [OF t'(2)]) (use ok AB u in auto)
    then show ?thesis using next_x [OF t'(1)] by (simp add: violation_fixed_def ids_plug AB(1) u)
  next
    case outer
    then show ?thesis using violation_outer_left rep ok by blast
  next
    case inner
    obtain t' where t': "fix_violation_step x p g t = Some (p, t')" "tree_rep t' (plug (Node (Node (Node s (p, True) l) (x, True) r) (g, False) u) fs)"
      by (rule step_inner_left [OF rep [unfolded inner(2)] inner(1)])
    have "violation_fixed p t' (ids (plug (Node (Node (Node s (p, True) l) (x, True) r) (g, False) u) fs))"
      by (rule violation_outer_left [OF t'(2)]) (use ok inner(1) in auto)
    then show ?thesis using next_x [OF t'(1)] by (simp add: violation_fixed_def ids_plug inner(2))
  qed
qed

lemma violation_outer_right:
  assumes rp: "tree_rep t (plug (Node u (g, False) (Node s (p, True) (Node l (x, True) r))) fs)"
    and k: "rb_ok (Node l (x, True) r)" "rb_ok s" "bh s = bh l" "black s" "rb_ok u" "bh u = bh l" "black u" "place_ok (bh l + 1) fs"
  shows "violation_fixed x t (ids (plug (Node u (g, False) (Node s (p, True) (Node l (x, True) r))) fs))"
proof -
  obtain t' where t': "fix_violation_step x p g t = Some (p, t')" "tree_rep t' (plug (Node (Node u (g, True) s) (p, False) (Node l (x, True) r)) fs)"
    by (rule step_outer_right [OF rp k(7)])
  have "violation_fixed p t' (ids (plug (Node (Node u (g, True) s) (p, False) (Node l (x, True) r)) fs))"
    by (rule violation_outer [OF t'(2)]) (use k in auto)
  then show ?thesis using violation_next [OF _ _ _ _ t'(1)] rp by (simp add: violation_fixed_def ids_plug rep_plug)
qed

lemma violation_loop_right:
  assumes rep: "tree_rep t (plug (Node u (g, False) P) fs)"
    and P: "P = Node s (p, True) (Node l (x, True) r) \<or> P = Node (Node l (x, True) r) (p, True) s"
    and ok: "rb_ok (Node l (x, True) r)" "rb_ok s" "bh s = bh l" "black s" "rb_ok u" "bh u = bh l" "place_ok (bh l + 1) fs"
    and IH: "\<And>l x r t. tree_rep t (plug (Node l (x, True) r) fs) \<Longrightarrow> rb_ok (Node l (x, True) r) \<Longrightarrow> place_ok (bh l) fs \<Longrightarrow>
      violation_fixed x t (ids (plug (Node l (x, True) r) fs))"
  shows "violation_fixed x t (ids (plug (Node u (g, False) P) fs))"
proof -
  have h: "rb_red t x" "rb_parent t x = Some p" "rb_red t p" "rb_parent t p = Some g" using rep P by (auto simp: rep_plug)
  note next_x = violation_next [OF h]
  consider (red) "\<not> black u" | (outer) "black u" "P = Node s (p, True) (Node l (x, True) r)"
    | (inner) "black u" "P = Node (Node l (x, True) r) (p, True) s" using P by blast
  then show ?thesis
  proof cases
    case red
    then obtain ul w ur where u: "u = Node ul (w, True) ur" by (cases u rule: black.cases) auto
    obtain A B where AB: "P = Node A (p, True) B" "rb_ok A" "rb_ok B" "bh A = bh l" "bh B = bh l" using P ok by fastforce
    obtain t' where t': "fix_violation_step x p g t = Some (g, t')" "tree_rep t' (plug (Node (Node ul (w, False) ur) (g, True) (Node A (p, False) B)) fs)"
      using step_recolour_right rep unfolding AB(1) u by blast
    have "violation_fixed g t' (ids (plug (Node (Node ul (w, False) ur) (g, True) (Node A (p, False) B)) fs))"
      by (rule IH [OF t'(2)]) (use ok AB u in auto)
    then show ?thesis using next_x [OF t'(1)] by (simp add: violation_fixed_def ids_plug AB(1) u)
  next
    case outer
    then show ?thesis using violation_outer_right rep ok by blast
  next
    case inner
    obtain t' where t': "fix_violation_step x p g t = Some (p, t')" "tree_rep t' (plug (Node u (g, False) (Node l (x, True) (Node r (p, True) s))) fs)"
      by (rule step_inner_right [OF rep [unfolded inner(2)] inner(1)])
    have "violation_fixed p t' (ids (plug (Node u (g, False) (Node l (x, True) (Node r (p, True) s))) fs))"
      by (rule violation_outer_right [OF t'(2)]) (use ok inner(1) in auto)
    then show ?thesis using next_x [OF t'(1)] by (simp add: violation_fixed_def ids_plug inner(2))
  qed
qed

lemma violation_loop:
  assumes "tree_rep t (plug (Node l (x, True) r) fs)" "rb_ok (Node l (x, True) r)" "place_ok (bh l) fs"
  shows "violation_fixed x t (ids (plug (Node l (x, True) r) fs))"
  using assms
proof (induction fs arbitrary: l x r t rule: length_induct)
  case (1 fs)
  note rep = "1.prems"(1) and ok = "1.prems"(2,3)
  show ?case
  proof (cases "fs = [] \<or> under_black fs")
    case True
    have "fix_violation_loop x t = Some t" by (rule violation_stop) (use rep True up_red [of t _ _ fs] in \<open>auto simp: rep_plug\<close>)
    moreover have "rb_ok (plug (Node l (x, True) r) fs)" by (rule place_plug_any) (use ok True in auto)
    ultimately show ?thesis using rep by (auto simp: violation_fixed_def)
  next
    case False
    then obtain f fs1 where f: "fs = f # fs1" by (cases fs) auto
    then have "under_black fs1" using ok(2) False by (cases f) auto
    then obtain f2 fs2 where f2: "fs1 = f2 # fs2" by (cases fs1) auto
    have IH: "violation_fixed x t (ids (plug (Node l (x, True) r) fs2))"
      if "tree_rep t (plug (Node l (x, True) r) fs2)" "rb_ok (Node l (x, True) r)" "place_ok (bh l) fs2" for l x r t
      using "1.IH" f f2 that by simp
    define P where "P = plug (Node l (x, True) r) [f]"
    obtain p s where P: "P = Node (Node l (x, True) r) (p, True) s \<or> P = Node s (p, True) (Node l (x, True) r)"
      and s: "rb_ok s" "bh s = bh l" "black s" "place_ok (bh l) fs1" using ok False by (cases f) (auto simp: P_def f)
    have pl: "plug (Node l (x, True) r) fs = plug P fs1" by (cases f) (simp_all add: P_def f)
    show ?thesis
    proof (cases f2)
      case (InL g c u)
      then have "\<not> c" "rb_ok u" "bh u = bh l" "place_ok (bh l + 1) fs2" and pl2: "plug P fs1 = plug (Node P (g, False) u) fs2"
        using \<open>under_black fs1\<close> s(4) by (auto simp: f2)
      then show ?thesis using violation_loop_left [OF _ P ok(1) s(1,2,3) _ _ _ IH] rep unfolding pl pl2 by blast
    next
      case (InR g c u)
      then have "\<not> c" "rb_ok u" "bh u = bh l" "place_ok (bh l + 1) fs2" and pl2: "plug P fs1 = plug (Node u (g, False) P) fs2"
        using \<open>under_black fs1\<close> s(4) by (auto simp: f2)
      then show ?thesis using violation_loop_right [OF _ P [THEN disj_comms(1) [THEN iffD1]] ok(1) s(1,2,3) _ _ _ IH] rep unfolding pl pl2 by blast
    qed
  qed
qed

lemma fix_violation_rep:
  assumes rep: "tree_rep t (plug (Node l (x, True) r) fs)" and ok: "rb_ok (Node l (x, True) r)" "place_ok (bh l) fs"
  obtains t' T where "ocf_rb_tree_fix_violation x t = Some t'" "tree_rep t' T" "rb_tree T" "ids T = ids (plug (Node l (x, True) r) fs)"
proof -
  obtain t1 T1 where t1: "fix_violation_loop x t = Some t1" "tree_rep t1 T1" "rb_ok T1" "ids T1 = ids (plug (Node l (x, True) r) fs)"
    using violation_loop [OF assms] by (auto simp: violation_fixed_def)
  obtain a y c b where T1: "T1 = Node a (y, c) b" using t1(4) by (cases T1) (auto simp: ids_plug)
  show thesis
  proof (rule that)
    show "ocf_rb_tree_fix_violation x t = Some (set_red y False t1)" using t1 by (simp add: ocf_rb_tree_fix_violation_def T1 tree_rep_def)
    show "tree_rep (set_red y False t1) (Node a (y, False) b)" using rep_recolour [where fs = "[]", of t1 a y c b False] t1(2) by (simp add: T1)
    show "rb_tree (Node a (y, False) b)" using t1(3) by (simp add: rb_tree_def T1)
    show "ids (Node a (y, False) b) = ids (plug (Node l (x, True) r) fs)" using t1(4) by (simp add: T1)
  qed
qed

text \<open>The place under which a new node goes; a node with an equal key goes to the right of those that are there.\<close>

fun leaf_place :: "(nat \<Rightarrow> int) \<Rightarrow> ntree \<Rightarrow> frame list \<Rightarrow> frame list" where
  "leaf_place cmp Leaf fs = fs"
| "leaf_place cmp (Node l (x, c) r) fs = (if cmp x < 0 then leaf_place cmp l (InL x c r # fs) else leaf_place cmp r (InR x c l # fs))"

lemma plug_leaf_place: "plug Leaf (leaf_place cmp T fs) = plug T fs"
  by (induction cmp T fs rule: leaf_place.induct) auto

definition cut :: "(nat \<Rightarrow> int) \<Rightarrow> nat \<Rightarrow> nat \<Rightarrow> bool" where
  "cut cmp a b \<longleftrightarrow> (cmp a < 0 \<longrightarrow> cmp b < 0)"

abbreviation cut_sorted :: "(nat \<Rightarrow> int) \<Rightarrow> nat list \<Rightarrow> bool" where
  "cut_sorted cmp \<equiv> sorted_wrt (cut cmp)"

lemma leaf_place_order:
  assumes "cut_sorted cmp (ids T)"
  shows "before (leaf_place cmp T fs) = before fs @ filter (\<lambda>x. \<not> cmp x < 0) (ids T) \<and>
    after (leaf_place cmp T fs) = filter (\<lambda>x. cmp x < 0) (ids T) @ after fs"
  using assms
proof (induction cmp T fs rule: leaf_place.induct)
  case (2 cmp l x c r fs)
  have s: "cut_sorted cmp (ids l)" "cut_sorted cmp (ids r)" "\<forall>y \<in> set (ids l). cut cmp y x" "\<forall>y \<in> set (ids r). cut cmp x y"
    using "2.prems" by (simp_all add: sorted_wrt_append)
  show ?case
  proof (cases "cmp x < 0")
    case True
    then have "filter (\<lambda>x. \<not> cmp x < 0) (ids r) = []" "filter (\<lambda>x. cmp x < 0) (ids r) = ids r" using s(4) by (auto simp: cut_def filter_empty_conv filter_id_conv)
    then show ?thesis using "2.IH"(1) [OF True s(1)] True by simp
  next
    case False
    then have "filter (\<lambda>x. cmp x < 0) (ids l) = []" "filter (\<lambda>x. \<not> cmp x < 0) (ids l) = ids l" using s(3) by (auto simp: cut_def filter_empty_conv filter_id_conv)
    then show ?thesis using "2.IH"(2) [OF False s(2)] False by simp
  qed
qed simp

lemma insert_walk_place:
  assumes "tree_at (rt_node t) p T" "root_of T = Some x"
  shows "\<exists>y. insert_walk cmp t x = Some y \<and> up (leaf_place cmp T fs) = Some y \<and> (cmp y < 0 \<longleftrightarrow> (\<exists>c r gs. leaf_place cmp T fs = InL y c r # gs))"
  using assms
proof (induction T arbitrary: p x fs)
  case (Node l v r)
  obtain c where v: "v = (x, c)" using Node.prems(2) by (cases v) auto
  let ?n = "if cmp x < 0 then l else r" and ?f = "if cmp x < 0 then InL x c r # fs else InR x c l # fs"
  have pl: "leaf_place cmp (Node l v r) fs = leaf_place cmp ?n ?f" by (simp add: v)
  have n: "(if cmp x < 0 then rb_left t x else rb_right t x) = root_of ?n" "tree_at (rt_node t) (Some x) ?n" using Node.prems(1) by (auto simp: v)
  show ?case
  proof (cases "root_of ?n")
    case None
    then have "?n = Leaf" by (cases ?n rule: root_of.cases) auto
    then show ?thesis unfolding pl using n None by (subst insert_walk.simps) auto
  next
    case (Some y)
    have "insert_walk cmp t x = insert_walk cmp t y" using n Some by (subst insert_walk.simps) simp
    then show ?thesis unfolding pl using Node.IH n(2) Some by (cases "cmp x < 0") auto
  qed
qed simp

lemma link_new_leaf:
  assumes rep: "tree_rep t (plug Leaf fs)" and up: "up fs = Some y" and side: "s \<longleftrightarrow> (\<exists>c r gs. fs = InL y c r # gs)" and new: "x \<notin> set (ids (plug Leaf fs))"
    and t': "t' = (if s then set_left y (Some x) else set_right y (Some x)) (set_parent x (Some y) (set_red x True (set_right x None (set_left x None t))))"
  shows "tree_rep t' (plug (Node Leaf (x, True) Leaf) fs)"
proof -
  have "y \<noteq> x" using up_ids [OF up] new by (auto simp: ids_plug)
  then show ?thesis using assms by (cases fs rule: up.cases) (auto simp: rep_plug ids_plug)
qed

lemma insert_rep:
  assumes rep: "tree_rep t T" and ok: "rb_tree T" and new: "x \<notin> set (ids T)" and cut: "cut_sorted cmp (ids T)"
  obtains t' T' where "ocf_rb_tree_insert cmp x t = Some t'" "tree_rep t' T'" "rb_tree T'"
    "ids T' = filter (\<lambda>y. \<not> cmp y < 0) (ids T) @ x # filter (\<lambda>y. cmp y < 0) (ids T)"
proof (cases "root_of T")
  case None
  then have T: "T = Leaf" by (cases T rule: root_of.cases) auto
  show thesis
    by (rule that [of _ "Node Leaf (x, False) Leaf"]) (use rep T in \<open>auto simp: ocf_rb_tree_insert_def tree_rep_def rb_tree_def\<close>)
next
  case (Some root)
  let ?t = "set_right x None (set_left x None t)" and ?fs = "leaf_place cmp T []"
  have T: "plug Leaf ?fs = T" by (simp add: plug_leaf_place)
  have at: "tree_at (rt_node ?t) None T" "rt_root ?t = Some root" using rep new Some by (simp_all add: tree_rep_def)
  obtain y where y: "insert_walk cmp ?t root = Some y" "up ?fs = Some y" "cmp y < 0 \<longleftrightarrow> (\<exists>c r gs. ?fs = InL y c r # gs)"
    using insert_walk_place [OF at(1) Some, of cmp "[]"] by blast
  define t1 where "t1 = (if cmp y < 0 then set_left y (Some x) else set_right y (Some x)) (set_parent x (Some y) (set_red x True ?t))"
  have rep1: "tree_rep t1 (plug (Node Leaf (x, True) Leaf) ?fs)" by (rule link_new_leaf [OF _ y(2,3) _ t1_def]) (use rep new in \<open>simp_all add: T\<close>)
  have "place_ok 0 ?fs" using place_plug [of Leaf ?fs] ok by (simp add: T rb_tree_def)
  then obtain t' T' where t': "ocf_rb_tree_fix_violation x t1 = Some t'" "tree_rep t' T'" "rb_tree T'" "ids T' = ids (plug (Node Leaf (x, True) Leaf) ?fs)"
    using fix_violation_rep [OF rep1] by auto
  have "ocf_rb_tree_insert cmp x t = Some t'" using t'(1) y(1) at(2) by (simp add: ocf_rb_tree_insert_def t1_def Let_def split: if_splits)
  then show thesis by (rule that [OF _ t'(2,3)]) (use t'(4) leaf_place_order [OF cut, of "[]"] in \<open>simp add: ids_plug\<close>)
qed

subsection \<open>Removal\<close>

text \<open>
  The node \<open>x\<close> is the root of a tree \<open>C\<close> that stands where one more black node is wanted. The endings for a sibling with a red child, first for a
  sibling on the right.
\<close>

lemmas recolour_right_left = rep_recolour [where fs = "InL a b d # InR g c u # fs" for a b d g c u fs, unfolded plug.simps]
lemmas recolour_right_right = rep_recolour [where fs = "InR a b d # InR g c u # fs" for a b d g c u fs, unfolded plug.simps]
lemmas recolour_left_left = rep_recolour [where fs = "InL a b d # InL g c u # fs" for a b d g c u fs, unfolded plug.simps]
lemmas recolour_left_right = rep_recolour [where fs = "InR a b d # InL g c u # fs" for a b d g c u fs, unfolded plug.simps]

lemma right_sibling_inner:
  assumes rep: "tree_rep t (plug (Node C (p, c) (Node (Node l (z, e) m) (y, d) r)) fs)" and x: "root_of C = Some x"
  obtains t' where "red_left_child x p y t = Some t'" "tree_rep t' (plug (Node (Node C (p, False) l) (z, c) (Node m (y, d) r)) fs)"
proof -
  let ?t = "set_red z c t"
  have "tree_rep ?t (plug (Node C (p, c) (Node (Node l (z, c) m) (y, d) r)) fs)" by (rule recolour_right_left [OF rep])
  then obtain t1 where t1: "ocf_rb_tree_rotate_right y ?t = Some t1" "tree_rep t1 (plug (Node C (p, c) (Node l (z, c) (Node m (y, d) r))) fs)"
    by (rule rotate_right_in_right)
  obtain t2 where t2: "ocf_rb_tree_rotate_left p t1 = Some t2" "tree_rep t2 (plug (Node (Node C (p, c) l) (z, c) (Node m (y, d) r)) fs)"
    by (rule rep_rotate_left [OF t1(2)])
  have p: "rb_parent t2 x = Some p" using t2(2) x by (cases C rule: root_of.cases) (auto simp: rep_plug)
  have "tree_rep (set_red p False t2) (plug (Node (Node C (p, False) l) (z, c) (Node m (y, d) r)) fs)" by (rule recolour_left [OF t2(2)])
  moreover have "red_left_child x p y t = Some (set_red p False t2)"
    using rep root_of_ids [OF x] t1(1) t2(1) p x by (auto simp: rep_plug red_left_child_def parent_black_def)
  ultimately show thesis using that by blast
qed

lemma right_sibling_outer:
  assumes rep: "tree_rep t (plug (Node C (p, c) (Node m (y, d) (Node l (z, e) r))) fs)" and x: "root_of C = Some x"
  obtains t' where "red_right_child x p y t = Some t'" "tree_rep t' (plug (Node (Node C (p, False) m) (y, c) (Node l (z, d) r)) fs)"
proof -
  let ?t = "set_red y c (set_red z d t)"
  have "tree_rep ?t (plug (Node C (p, c) (Node m (y, c) (Node l (z, d) r))) fs)" by (rule recolour_right, rule recolour_right_right, rule rep)
  then obtain t1 where t1: "ocf_rb_tree_rotate_left p ?t = Some t1" "tree_rep t1 (plug (Node (Node C (p, c) m) (y, c) (Node l (z, d) r)) fs)"
    by (rule rep_rotate_left)
  have p: "rb_parent t1 x = Some p" using t1(2) x by (cases C rule: root_of.cases) (auto simp: rep_plug)
  have "tree_rep (set_red p False t1) (plug (Node (Node C (p, False) m) (y, c) (Node l (z, d) r)) fs)" by (rule recolour_left [OF t1(2)])
  moreover have "red_right_child x p y t = Some (set_red p False t1)"
    using rep root_of_ids [OF x] t1(1) p x by (auto simp: rep_plug red_right_child_def parent_black_def)
  ultimately show thesis using that by blast
qed

lemma left_sibling_inner:
  assumes rep: "tree_rep t (plug (Node (Node r (y, d) (Node m (z, e) l)) (p, c) C) fs)" and x: "root_of C = Some x"
  obtains t' where "red_right_child x p y t = Some t'" "tree_rep t' (plug (Node (Node r (y, d) m) (z, c) (Node l (p, False) C)) fs)"
proof -
  let ?t = "set_red z c t"
  have "tree_rep ?t (plug (Node (Node r (y, d) (Node m (z, c) l)) (p, c) C) fs)" by (rule recolour_left_right [OF rep])
  then obtain t1 where t1: "ocf_rb_tree_rotate_left y ?t = Some t1" "tree_rep t1 (plug (Node (Node (Node r (y, d) m) (z, c) l) (p, c) C) fs)"
    by (rule rotate_left_in_left)
  obtain t2 where t2: "ocf_rb_tree_rotate_right p t1 = Some t2" "tree_rep t2 (plug (Node (Node r (y, d) m) (z, c) (Node l (p, c) C)) fs)"
    by (rule rep_rotate_right [OF t1(2)])
  have p: "rb_parent t2 x = Some p" using t2(2) x by (cases C rule: root_of.cases) (auto simp: rep_plug)
  have "tree_rep (set_red p False t2) (plug (Node (Node r (y, d) m) (z, c) (Node l (p, False) C)) fs)" by (rule recolour_right [OF t2(2)])
  moreover have "red_right_child x p y t = Some (set_red p False t2)"
    using rep root_of_ids [OF x] t1(1) t2(1) p x by (auto simp: rep_plug red_right_child_def parent_black_def)
  ultimately show thesis using that by blast
qed

lemma left_sibling_outer:
  assumes rep: "tree_rep t (plug (Node (Node (Node r (z, e) l) (y, d) m) (p, c) C) fs)" and x: "root_of C = Some x"
  obtains t' where "red_left_child x p y t = Some t'" "tree_rep t' (plug (Node (Node r (z, d) l) (y, c) (Node m (p, False) C)) fs)"
proof -
  let ?t = "set_red y c (set_red z d t)"
  have "tree_rep ?t (plug (Node (Node (Node r (z, d) l) (y, c) m) (p, c) C) fs)" by (rule recolour_left, rule recolour_left_left, rule rep)
  then obtain t1 where t1: "ocf_rb_tree_rotate_right p ?t = Some t1" "tree_rep t1 (plug (Node (Node r (z, d) l) (y, c) (Node m (p, c) C)) fs)"
    by (rule rep_rotate_right)
  have p: "rb_parent t1 x = Some p" using t1(2) x by (cases C rule: root_of.cases) (auto simp: rep_plug)
  have "tree_rep (set_red p False t1) (plug (Node (Node r (z, d) l) (y, c) (Node m (p, False) C)) fs)" by (rule recolour_right [OF t1(2)])
  moreover have "red_left_child x p y t = Some (set_red p False t1)"
    using rep root_of_ids [OF x] t1(1) p x by (auto simp: rep_plug red_left_child_def parent_black_def)
  ultimately show thesis using that by blast
qed

text \<open>The loop leaves \<open>C\<close> as it is and makes its place one that is content with \<open>n\<close> black nodes.\<close>

definition place_fixed :: "nat \<Rightarrow> ocf_rb_tree \<Rightarrow> ntree \<Rightarrow> nat \<Rightarrow> nat list \<Rightarrow> nat list \<Rightarrow> bool" where
  "place_fixed x t C n as bs \<longleftrightarrow> (\<exists>t' fs. ocf_rb_tree_fix_double_black x t = Some t' \<and> tree_rep t' (plug C fs) \<and> place_ok n fs \<and> before fs = as \<and> after fs = bs)"

lemma place_fixedI:
  "ocf_rb_tree_fix_double_black x t = Some t' \<Longrightarrow> tree_rep t' (plug C fs) \<Longrightarrow> place_ok n fs \<Longrightarrow> before fs = as \<Longrightarrow> after fs = bs \<Longrightarrow> place_fixed x t C n as bs"
  by (auto simp: place_fixed_def)

lemma double_black_unfold:
  assumes "rb_parent t x = Some p" "ocf_rb_tree_sibling t x = Some y" "\<not> rb_red t y"
  shows "ocf_rb_tree_fix_double_black x t =
    (if is_red t (rb_left t y) then red_left_child x p y t else if is_red t (rb_right t y) then red_right_child x p y t
     else let t = set_red y True t in if \<not> rb_red t p then ocf_rb_tree_fix_double_black p t else Some (set_red p False t))"
  using assms by (subst ocf_rb_tree_fix_double_black.simps) simp

text \<open>A black sibling on the right. The hypothesis about the rest of the way up is used only below a black parent.\<close>

lemma double_black_right_sibling:
  assumes rep: "tree_rep t (plug C (InL p c (Node l (y, False) r) # fs))" and x: "root_of C = Some x" and ok: "place_ok (n + 1) (InL p c (Node l (y, False) r) # fs)"
    and IH: "\<And>t. \<not> c \<Longrightarrow> tree_rep t (plug (Node C (p, False) (Node l (y, True) r)) fs) \<Longrightarrow> place_fixed p t (Node C (p, False) (Node l (y, True) r)) (n + 1) (before fs) (after fs)"
  shows "place_fixed x t C n (before fs) (p # ids (Node l (y, False) r) @ after fs)"
proof -
  have rep': "tree_rep t (plug (Node C (p, c) (Node l (y, False) r)) fs)" using rep by simp
  have h: "rb_parent t x = Some p" "ocf_rb_tree_sibling t x = Some y" "\<not> rb_red t y" "rb_red t p = c" "y \<noteq> p"
    using rep x by (cases C rule: root_of.cases; auto simp: rep_plug ocf_rb_tree_sibling_def)+
  have red: "is_red t (rb_left t y) = (\<not> black l)" "is_red t (rb_right t y) = (\<not> black r)"
    using rep' is_red_root [of t "Some y" l] is_red_root [of t "Some y" r] by (auto simp: rep_plug)
  note U = double_black_unfold [OF h(1-3), unfolded red]
  consider (inner) l1 z l2 where "l = Node l1 (z, True) l2" | (outer) r1 z r2 where "black l" "r = Node r1 (z, True) r2" | (both) "black l" "black r"
    by (cases l rule: black.cases; cases r rule: black.cases) auto
  then show ?thesis
  proof cases
    case inner
    obtain t' where t': "red_left_child x p y t = Some t'" "tree_rep t' (plug (Node (Node C (p, False) l1) (z, c) (Node l2 (y, False) r)) fs)"
      by (rule right_sibling_inner [OF rep' [unfolded inner] x])
    show ?thesis by (rule place_fixedI [where fs = "InL p False l1 # InL z c (Node l2 (y, False) r) # fs"]) (use U t' ok inner in auto)
  next
    case outer
    obtain t' where t': "red_right_child x p y t = Some t'" "tree_rep t' (plug (Node (Node C (p, False) l) (y, c) (Node r1 (z, False) r2)) fs)"
      by (rule right_sibling_outer [OF rep' [unfolded outer(2)] x])
    show ?thesis by (rule place_fixedI [where fs = "InL p False l # InL y c (Node r1 (z, False) r2) # fs"]) (use U t' ok outer in auto)
  next
    case both
    let ?t = "set_red y True t"
    have rep1: "tree_rep ?t (plug (Node C (p, c) (Node l (y, True) r)) fs)" by (rule recolour_right [OF rep'])
    show ?thesis
    proof (cases c)
      case True
      have "tree_rep (set_red p False ?t) (plug (Node C (p, False) (Node l (y, True) r)) fs)" by (rule rep_recolour [OF rep1])
      then show ?thesis using True U h(4,5) both ok by (intro place_fixedI [where fs = "InL p False (Node l (y, True) r) # fs"]) auto
    next
      case False
      then obtain t' fs' where t': "ocf_rb_tree_fix_double_black p ?t = Some t'" "tree_rep t' (plug (Node C (p, False) (Node l (y, True) r)) fs')"
        "place_ok (n + 1) fs'" "before fs' = before fs" "after fs' = after fs" using IH [OF False, of ?t] rep1 unfolding place_fixed_def by auto
      then show ?thesis using False U h(4,5) both ok by (intro place_fixedI [where fs = "InL p False (Node l (y, True) r) # fs'"]) auto
    qed
  qed
qed

lemma double_black_left_sibling:
  assumes rep: "tree_rep t (plug C (InR p c (Node r (y, False) l) # fs))" and x: "root_of C = Some x" and ok: "place_ok (n + 1) (InR p c (Node r (y, False) l) # fs)"
    and IH: "\<And>t. \<not> c \<Longrightarrow> tree_rep t (plug (Node (Node r (y, True) l) (p, False) C) fs) \<Longrightarrow> place_fixed p t (Node (Node r (y, True) l) (p, False) C) (n + 1) (before fs) (after fs)"
  shows "place_fixed x t C n (before fs @ ids (Node r (y, False) l) @ [p]) (after fs)"
proof -
  have rep': "tree_rep t (plug (Node (Node r (y, False) l) (p, c) C) fs)" using rep by simp
  have h: "rb_parent t x = Some p" "ocf_rb_tree_sibling t x = Some y" "\<not> rb_red t y" "rb_red t p = c" "y \<noteq> p"
    using rep x by (cases C rule: root_of.cases; auto simp: rep_plug ocf_rb_tree_sibling_def)+
  have red: "is_red t (rb_left t y) = (\<not> black r)" "is_red t (rb_right t y) = (\<not> black l)"
    using rep' is_red_root [of t "Some y" l] is_red_root [of t "Some y" r] by (auto simp: rep_plug)
  note U = double_black_unfold [OF h(1-3), unfolded red]
  consider (outer) r1 z r2 where "r = Node r1 (z, True) r2" | (inner) l1 z l2 where "black r" "l = Node l1 (z, True) l2" | (both) "black l" "black r"
    by (cases l rule: black.cases; cases r rule: black.cases) auto
  then show ?thesis
  proof cases
    case outer
    obtain t' where t': "red_left_child x p y t = Some t'" "tree_rep t' (plug (Node (Node r1 (z, False) r2) (y, c) (Node l (p, False) C)) fs)"
      by (rule left_sibling_outer [OF rep' [unfolded outer] x])
    show ?thesis by (rule place_fixedI [where fs = "InR p False l # InR y c (Node r1 (z, False) r2) # fs"]) (use U t' ok outer in auto)
  next
    case inner
    obtain t' where t': "red_right_child x p y t = Some t'" "tree_rep t' (plug (Node (Node r (y, False) l1) (z, c) (Node l2 (p, False) C)) fs)"
      by (rule left_sibling_inner [OF rep' [unfolded inner(2)] x])
    show ?thesis by (rule place_fixedI [where fs = "InR p False l2 # InR z c (Node r (y, False) l1) # fs"]) (use U t' ok inner in auto)
  next
    case both
    let ?t = "set_red y True t"
    have rep1: "tree_rep ?t (plug (Node (Node r (y, True) l) (p, c) C) fs)" by (rule recolour_left [OF rep'])
    show ?thesis
    proof (cases c)
      case True
      have "tree_rep (set_red p False ?t) (plug (Node (Node r (y, True) l) (p, False) C) fs)" by (rule rep_recolour [OF rep1])
      then show ?thesis using True U h(4,5) both ok by (intro place_fixedI [where fs = "InR p False (Node r (y, True) l) # fs"]) auto
    next
      case False
      then obtain t' fs' where t': "ocf_rb_tree_fix_double_black p ?t = Some t'" "tree_rep t' (plug (Node (Node r (y, True) l) (p, False) C) fs')"
        "place_ok (n + 1) fs'" "before fs' = before fs" "after fs' = after fs" using IH [OF False, of ?t] rep1 unfolding place_fixed_def by auto
      then show ?thesis using False U h(4,5) both ok by (intro place_fixedI [where fs = "InR p False (Node r (y, True) l) # fs'"]) auto
    qed
  qed
qed

lemma red_sibling_unfold:
  assumes "rb_parent t x = Some p" "ocf_rb_tree_sibling t x = Some y" "rb_red t y" "y \<noteq> p"
    and "(if rb_left t p = Some y then ocf_rb_tree_rotate_right else ocf_rb_tree_rotate_left) p (set_red y False (set_red p True t)) = Some t'"
  shows "ocf_rb_tree_fix_double_black x t = ocf_rb_tree_fix_double_black x t'"
  using assms by (subst (1) ocf_rb_tree_fix_double_black.simps) (simp add: Let_def split: if_splits)

lemma double_black_red_right:
  assumes rep: "tree_rep t (plug C (InL p False (Node l (y, True) r) # fs))" and x: "root_of C = Some x" and ok: "place_ok (n + 1) (InL p False (Node l (y, True) r) # fs)"
  shows "place_fixed x t C n (before fs) (p # ids (Node l (y, True) r) @ after fs)"
proof -
  have rep': "tree_rep t (plug (Node C (p, False) (Node l (y, True) r)) fs)" using rep by simp
  have h: "rb_parent t x = Some p" "ocf_rb_tree_sibling t x = Some y" "rb_red t y" "y \<noteq> p" "rb_left t p = Some x" "x \<noteq> y"
    using rep x by (cases C rule: root_of.cases; auto simp: rep_plug ocf_rb_tree_sibling_def)+
  have "tree_rep (set_red y False (set_red p True t)) (plug (Node C (p, True) (Node l (y, False) r)) fs)"
    by (rule recolour_right, rule rep_recolour, rule rep')
  then obtain t1 where t1: "ocf_rb_tree_rotate_left p (set_red y False (set_red p True t)) = Some t1"
    "tree_rep t1 (plug (Node (Node C (p, True) l) (y, False) r) fs)" by (rule rep_rotate_left)
  have eq: "ocf_rb_tree_fix_double_black x t = ocf_rb_tree_fix_double_black x t1" by (rule red_sibling_unfold [OF h(1-4)]) (use t1 h in auto)
  obtain l1 z l2 where l: "l = Node l1 (z, False) l2" using ok by (cases l rule: black.cases) auto
  have "place_fixed x t1 C n (before (InL y False r # fs)) (p # ids (Node l1 (z, False) l2) @ after (InL y False r # fs))"
    by (rule double_black_right_sibling [where c = True]) (use t1(2) x ok l in auto)
  then show ?thesis by (simp add: place_fixed_def eq l)
qed

lemma double_black_red_left:
  assumes rep: "tree_rep t (plug C (InR p False (Node r (y, True) l) # fs))" and x: "root_of C = Some x" and ok: "place_ok (n + 1) (InR p False (Node r (y, True) l) # fs)"
  shows "place_fixed x t C n (before fs @ ids (Node r (y, True) l) @ [p]) (after fs)"
proof -
  have rep': "tree_rep t (plug (Node (Node r (y, True) l) (p, False) C) fs)" using rep by simp
  have h: "rb_parent t x = Some p" "ocf_rb_tree_sibling t x = Some y" "rb_red t y" "y \<noteq> p" "rb_left t p = Some y"
    using rep x by (cases C rule: root_of.cases; auto simp: rep_plug ocf_rb_tree_sibling_def)+
  have "tree_rep (set_red y False (set_red p True t)) (plug (Node (Node r (y, False) l) (p, True) C) fs)"
    by (rule recolour_left, rule rep_recolour, rule rep')
  then obtain t1 where t1: "ocf_rb_tree_rotate_right p (set_red y False (set_red p True t)) = Some t1"
    "tree_rep t1 (plug (Node r (y, False) (Node l (p, True) C)) fs)" by (rule rep_rotate_right)
  have eq: "ocf_rb_tree_fix_double_black x t = ocf_rb_tree_fix_double_black x t1" by (rule red_sibling_unfold [OF h(1-4)]) (use t1 h in auto)
  obtain l1 z l2 where l: "l = Node l1 (z, False) l2" using ok by (cases l rule: black.cases) auto
  have "place_fixed x t1 C n (before (InR y False r # fs) @ ids (Node l1 (z, False) l2) @ [p]) (after (InR y False r # fs))"
    by (rule double_black_left_sibling [where c = True]) (use t1(2) x ok l in auto)
  then show ?thesis by (simp add: place_fixed_def eq l)
qed

lemma double_black:
  assumes "tree_rep t (plug C fs)" "root_of C = Some x" "place_ok (n + 1) fs"
  shows "place_fixed x t C n (before fs) (after fs)"
  using assms
proof (induction fs arbitrary: t C x n)
  case Nil
  have "rb_parent t x = None" using Nil.prems(1,2) by (cases C rule: root_of.cases) (auto simp: tree_rep_def)
  then show ?case using Nil.prems by (intro place_fixedI [where fs = "[]"]) (auto simp: ocf_rb_tree_fix_double_black.simps)
next
  case (Cons f fs)
  obtain p c l y d r where f: "f = InL p c (Node l (y, d) r) \<or> f = InR p c (Node l (y, d) r)"
    using Cons.prems(3) by (cases f; cases "case f of InL _ _ s \<Rightarrow> s | InR _ _ s \<Rightarrow> s" rule: black.cases) auto
  have red: "d \<Longrightarrow> \<not> c" using f Cons.prems(3) by auto
  have up: "place_ok (n + 1 + 1) fs" if "\<not> c" using f Cons.prems(3) that by auto
  from f show ?case
  proof
    assume f: "f = InL p c (Node l (y, d) r)"
    show ?thesis
    proof (cases d)
      case True
      then show ?thesis using double_black_red_right [of t C p l y r fs x n] Cons.prems red by (simp add: f)
    next
      case False
      then show ?thesis using double_black_right_sibling [of t C p c l y r fs x n] Cons.prems Cons.IH up by (simp add: f)
    qed
  next
    assume f: "f = InR p c (Node l (y, d) r)"
    show ?thesis
    proof (cases d)
      case True
      then show ?thesis using double_black_red_left [of t C p l y r fs x n] Cons.prems red by (simp add: f)
    next
      case False
      then show ?thesis using double_black_left_sibling [of t C p c l y r fs x n] Cons.prems Cons.IH up by (simp add: f)
    qed
  qed
qed

subsubsection \<open>Links\<close>

lemma split_at:
  assumes "x \<in> set (ids T)"
  obtains l c r fs where "T = plug (Node l (x, c) r) fs"
proof -
  have "\<exists>l c r gs. plug T fs = plug (Node l (x, c) r) gs" for fs
    using assms
  proof (induction T arbitrary: fs)
    case (Node l v r)
    obtain y d where v: "v = (y, d)" by (cases v)
    consider "x \<in> set (ids l)" | "x = y" | "x \<in> set (ids r)" using Node.prems by (auto simp: v)
    then show ?case
    proof cases
      case 1
      then show ?thesis using Node.IH(1) [of "InL y d r # fs"] by (simp add: v)
    next
      case 3
      then show ?thesis using Node.IH(2) [of "InR y d l # fs"] by (simp add: v)
    qed (auto simp: v)
  qed simp
  from this [of "[]"] show thesis using that by auto
qed

text \<open>The links of a tree in memory: children and parents agree, and there are no short cycles.\<close>

lemma rep_links:
  assumes rep: "tree_rep t T" and z: "z \<in> set (ids T)"
  shows "rb_left t z = Some w \<or> rb_right t z = Some w \<longleftrightarrow> w \<in> set (ids T) \<and> rb_parent t w = Some z"
    "rb_left t z = rb_right t z \<Longrightarrow> rb_left t z = None" "rt_root t = Some z \<longleftrightarrow> rb_parent t z = None"
    "rb_parent t z = Some w \<Longrightarrow> w \<in> set (ids T) \<and> w \<noteq> z \<and> rb_parent t w \<noteq> Some z"
proof -
  obtain l c r fs where T: "T = plug (Node l (z, c) r) fs" by (rule split_at [OF z])
  have h: "rt_node t z = \<lparr>nd_red = c, nd_left = root_of l, nd_right = root_of r, nd_parent = up fs\<rparr>" "tree_at (rt_node t) (Some z) l" "tree_at (rt_node t) (Some z) r"
    "frames_at (rt_node t) (rt_root t) (Some z) fs" and d: "distinct (before fs @ (ids l @ z # ids r) @ after fs)" using rep by (auto simp: T rep_plug)
  show "rb_left t z = rb_right t z \<Longrightarrow> rb_left t z = None" using h(1) d root_of_ids [of l] root_of_ids [of r] by (cases "root_of l") auto
  show p: "w \<in> set (ids T) \<and> w \<noteq> z \<and> rb_parent t w \<noteq> Some z" if "rb_parent t z = Some w" for w
  proof -
    have "up fs = Some w" using that h(1) by simp
    then have "w \<in> set (before fs) \<union> set (after fs)" "rb_parent t w = up (tl fs)" using h(4) up_ids by (cases fs rule: up.cases; fastforce)+
    then show ?thesis using d up_ids [of "tl fs" z] by (cases fs rule: up.cases) (auto simp: T ids_plug)
  qed
  show "rt_root t = Some z \<longleftrightarrow> rb_parent t z = None"
  proof
    assume "rt_root t = Some z"
    then have "root_of T = Some z" using rep by (simp add: tree_rep_def)
    then show "rb_parent t z = None" using rep by (cases T rule: root_of.cases) (auto simp: tree_rep_def)
  next
    assume "rb_parent t z = None"
    then show "rt_root t = Some z" using h(1,4) by (cases fs rule: up.cases) auto
  qed
  show "rb_left t z = Some w \<or> rb_right t z = Some w \<longleftrightarrow> w \<in> set (ids T) \<and> rb_parent t w = Some z"
  proof
    assume "rb_left t z = Some w \<or> rb_right t z = Some w"
    then consider "root_of l = Some w" | "root_of r = Some w" using h(1) by auto
    then show "w \<in> set (ids T) \<and> rb_parent t w = Some z"
      using h(2,3) by cases ((cases l rule: root_of.cases; cases r rule: root_of.cases; auto simp: T ids_plug)+)
  next
    assume w: "w \<in> set (ids T) \<and> rb_parent t w = Some z"
    obtain l' c' r' gs where T': "T = plug (Node l' (w, c') r') gs" using split_at w by blast
    have "frames_at (rt_node t) (rt_root t) (Some w) gs" "up gs = Some z" using rep w by (auto simp: T' rep_plug)
    then show "rb_left t z = Some w \<or> rb_right t z = Some w" by (cases gs rule: up.cases) auto
  qed
qed

subsubsection \<open>Exchanging two nodes\<close>

definition flip :: "nat \<Rightarrow> nat \<Rightarrow> nat \<Rightarrow> nat" where
  "flip x y z = (if z = x then y else if z = y then x else z)"

definition ren :: "(nat \<Rightarrow> nat) \<Rightarrow> ocf_rb_node \<Rightarrow> ocf_rb_node" where
  "ren f n = n\<lparr>nd_left := map_option f (nd_left n), nd_right := map_option f (nd_right n), nd_parent := map_option f (nd_parent n)\<rparr>"

definition ren_tree :: "(nat \<Rightarrow> nat) \<Rightarrow> ntree \<Rightarrow> ntree" where
  "ren_tree f = map_tree (\<lambda>(z, c). (f z, c))"

lemma ren_tree_simps [simp]: "ren_tree f Leaf = Leaf" "ren_tree f (Node l (x, c) r) = Node (ren_tree f l) (f x, c) (ren_tree f r)"
  by (simp_all add: ren_tree_def)

lemma ren_tree_facts [simp]: "root_of (ren_tree f T) = map_option f (root_of T)" "ids (ren_tree f T) = map f (ids T)" "black (ren_tree f T) = black T"
  "bh (ren_tree f T) = bh T" "rb_ok (ren_tree f T) = rb_ok T"
proof -
  show b: "black (ren_tree f T) = black T" for T by (cases T rule: black.cases) auto
  show "root_of (ren_tree f T) = map_option f (root_of T)" by (cases T rule: root_of.cases) auto
  show "ids (ren_tree f T) = map f (ids T)" by (induction T rule: rb_ok.induct) auto
  show h: "bh (ren_tree f T) = bh T" for T by (induction T rule: bh.induct) auto
  show "rb_ok (ren_tree f T) = rb_ok T" by (induction T rule: rb_ok.induct) (auto simp: b h)
qed

lemma ren_tree_at: "tree_at h p T \<Longrightarrow> (\<And>z. z \<in> set (ids T) \<Longrightarrow> h' (f z) = ren f (h z)) \<Longrightarrow> tree_at h' (map_option f p) (ren_tree f T)"
proof (induction h p T rule: tree_at.induct)
  case (2 h par l x c r)
  have "h' (f x) = ren f (h x)" using 2 by simp
  then show ?case using 2 by (auto simp: ren_def)
qed simp

lemma flip_option:
  "v \<noteq> Some x \<Longrightarrow> map_option (flip x y) v = (if v = Some y then Some x else v)"
  "v \<noteq> Some y \<Longrightarrow> map_option (flip x y) v = (if v = Some x then Some y else v)"
  "v \<noteq> Some x \<Longrightarrow> v \<noteq> Some y \<Longrightarrow> map_option (flip x y) v = v"
  by (cases v; auto simp: flip_def)+

text \<open>The contents of the two nodes are exchanged first, with the links between them turned round.\<close>

definition swap_nodes :: "nat \<Rightarrow> nat \<Rightarrow> ocf_rb_tree \<Rightarrow> ocf_rb_tree" where
  "swap_nodes x y t = t\<lparr>rt_node := (rt_node t)(x := ren (flip x y) (rt_node t y), y := ren (flip x y) (rt_node t x))\<rparr>"

lemma swap_eq:
  assumes rep: "tree_rep t T" and x: "x \<in> set (ids T)" and y: "y \<in> set (ids T)" and xy: "x \<noteq> y"
  shows "ocf_rb_tree_swap x y t = ocf_rb_tree_update_children y (ocf_rb_tree_update_children x
    (ocf_rb_tree_update_parent y x (Some y) (ocf_rb_tree_update_parent x y (Some x) (swap_nodes x y t))))"
proof -
  note X = rep_links [OF rep x] and Y = rep_links [OF rep y]
  have nx: "rb_left t x \<noteq> Some x" "rb_right t x \<noteq> Some x" "rb_parent t x \<noteq> Some x" using X(1,4) by blast+
  have ny: "rb_left t y \<noteq> Some y" "rb_right t y \<noteq> Some y" "rb_parent t y \<noteq> Some y" using Y(1,4) by blast+
  have one: "\<not> (rb_left t x = Some y \<and> rb_right t x = Some y)" "\<not> (rb_left t y = Some x \<and> rb_right t y = Some x)"
    "rb_left t x = Some y \<or> rb_right t x = Some y \<Longrightarrow> rb_parent t x \<noteq> Some y" "rb_left t y = Some x \<or> rb_right t y = Some x \<Longrightarrow> rb_parent t y \<noteq> Some x"
    using X(1,2,4) Y(1,2,4) x y by force+
  define tx where "tx = (if rb_left t x = Some y then set_left x (Some x) t else if rb_right t x = Some y then set_right x (Some x) t
    else if rb_parent t x = Some y then set_parent x (Some x) t else t)"
  define ty where "ty = (if rb_left tx y = Some x then set_left y (Some y) tx else if rb_right tx y = Some x then set_right y (Some y) tx
    else if rb_parent tx y = Some x then set_parent y (Some y) tx else tx)"
  have fx: "rt_node tx = (rt_node t)(x := ren (flip x y) (rt_node t x))" "rt_root tx = rt_root t"
    using one(1,3) by (auto simp: tx_def ren_def flip_option(1) [OF nx(1)] flip_option(1) [OF nx(2)] flip_option(1) [OF nx(3)])
  have fy: "rt_node ty = (rt_node tx)(y := ren (flip x y) (rt_node t y))" "rt_root ty = rt_root t"
    using one(2,4) xy fx by (auto simp: ty_def ren_def flip_option(2) [OF ny(1)] flip_option(2) [OF ny(2)] flip_option(2) [OF ny(3)])
  have "upd_node y (\<lambda>_. rt_node ty x) (upd_node x (\<lambda>_. rt_node ty y) ty) = swap_nodes x y t"
    using fx fy xy by (simp add: upd_node_def swap_nodes_def fun_eq_iff)
  then show ?thesis by (simp add: ocf_rb_tree_swap_def Let_def tx_def [symmetric] ty_def [symmetric])
qed

lemma update_parent_node:
  "rt_node (ocf_rb_tree_update_parent n old new t) z =
     (if rb_parent t n = Some z then
        (if rb_left t z = Some old then (rt_node t z)\<lparr>nd_left := new\<rparr> else if rb_right t z = Some old then (rt_node t z)\<lparr>nd_right := new\<rparr> else rt_node t z)
      else rt_node t z)"
  "rt_root (ocf_rb_tree_update_parent n old new t) = (if rb_parent t n = None then new else rt_root t)"
  by (auto simp: ocf_rb_tree_update_parent_def split: option.splits)

lemma update_children_node:
  assumes "rb_left t n \<noteq> Some n"
  shows "rt_node (ocf_rb_tree_update_children n t) z =
      (if rb_left t n = Some z \<or> rb_right t n = Some z then (rt_node t z)\<lparr>nd_parent := Some n\<rparr> else rt_node t z)"
    "rt_root (ocf_rb_tree_update_children n t) = rt_root t"
  using assms by (cases "rb_left t n"; cases "rb_right t n"; auto simp: ocf_rb_tree_update_children_def link_parent_def Let_def)+

text \<open>Then the links of the nodes above and below the two are set.\<close>

lemma swap_links_up:
  assumes rep: "tree_rep t T" and x: "x \<in> set (ids T)" and y: "y \<in> set (ids T)" and xy: "x \<noteq> y" and p: "rb_parent t x \<noteq> rb_parent t y"
    and t1: "t1 = ocf_rb_tree_update_parent y x (Some y) (ocf_rb_tree_update_parent x y (Some x) (swap_nodes x y t))"
  shows "rt_node t1 x = ren (flip x y) (rt_node t y)" "rt_node t1 y = ren (flip x y) (rt_node t x)" "rt_root t1 = map_option (flip x y) (rt_root t)"
    "z \<in> set (ids T) \<Longrightarrow> z \<noteq> x \<Longrightarrow> z \<noteq> y \<Longrightarrow>
      rt_node t1 z = (rt_node t z)\<lparr>nd_left := map_option (flip x y) (rb_left t z), nd_right := map_option (flip x y) (rb_right t z)\<rparr>"
proof -
  note X = rep_links [OF rep x] and Y = rep_links [OF rep y]
  let ?f = "map_option (flip x y)"
  have nx: "rb_parent t x \<noteq> Some x" "rb_left t x \<noteq> Some x" "rb_right t x \<noteq> Some x" and ny: "rb_parent t y \<noteq> Some y" "rb_left t y \<noteq> Some y" "rb_right t y \<noteq> Some y"
    using X(1,4) Y(1,4) by blast+
  have cyc: "rb_parent t x = Some y \<Longrightarrow> rb_parent t y \<noteq> Some x" using X(4) by blast
  define t0 where "t0 = ocf_rb_tree_update_parent x y (Some x) (swap_nodes x y t)"
  have s: "rt_node (swap_nodes x y t) x = ren (flip x y) (rt_node t y)" "rt_node (swap_nodes x y t) y = ren (flip x y) (rt_node t x)"
    "z \<noteq> x \<Longrightarrow> z \<noteq> y \<Longrightarrow> rt_node (swap_nodes x y t) z = rt_node t z" "rt_root (swap_nodes x y t) = rt_root t" for z using xy by (auto simp: swap_nodes_def)
  have fl: "?f (rb_left t x) \<noteq> Some y" "?f (rb_right t x) \<noteq> Some y" "?f (rb_left t y) \<noteq> Some x" "?f (rb_right t y) \<noteq> Some x"
    using nx ny xy by (auto simp: flip_def split: if_splits)
  have x0: "rt_node t0 x = ren (flip x y) (rt_node t y)" and y0: "rt_node t0 y = ren (flip x y) (rt_node t x)"
    using s(1,2) fl xy ny by (auto simp: t0_def update_parent_node ren_def flip_def split: if_splits)
  have z0: "rt_node t0 z = (if rb_parent t y = Some z then (if rb_left t z = Some y then (rt_node t z)\<lparr>nd_left := Some x\<rparr> else (rt_node t z)\<lparr>nd_right := Some x\<rparr>) else rt_node t z)"
    if "z \<in> set (ids T)" "z \<noteq> x" "z \<noteq> y" for z
    using s(1) s(3) [OF that(2,3)] rep_links(1) [OF rep that(1), of y] y that by (auto simp: t0_def update_parent_node ren_def flip_def split: if_splits)
  have r0: "rt_root t0 = (if rb_parent t y = None then Some x else rt_root t)" using s(1,4) by (simp add: t0_def update_parent_node ren_def)
  show "rt_node t1 x = ren (flip x y) (rt_node t y)" "rt_node t1 y = ren (flip x y) (rt_node t x)"
    using x0 y0 fl xy nx cyc by (auto simp: t1 t0_def [symmetric] update_parent_node ren_def flip_def split: if_splits)
  show "rt_root t1 = ?f (rt_root t)"
    using y0 r0 X(3) Y(3) p flip_option(3) [of "rt_root t" x y] by (auto simp: t1 t0_def [symmetric] update_parent_node ren_def flip_def)
  show "rt_node t1 z = (rt_node t z)\<lparr>nd_left := ?f (rb_left t z), nd_right := ?f (rb_right t z)\<rparr>" if "z \<in> set (ids T)" "z \<noteq> x" "z \<noteq> y"
  proof -
    have c: "rb_left t z = Some x \<or> rb_right t z = Some x \<longleftrightarrow> rb_parent t x = Some z" "rb_left t z = Some y \<or> rb_right t z = Some y \<longleftrightarrow> rb_parent t y = Some z"
      "rb_left t z = rb_right t z \<Longrightarrow> rb_left t z = None" using rep_links(1,2) [OF rep that(1)] x y by auto
    have px: "?f (rb_parent t x) = Some z \<longleftrightarrow> rb_parent t x = Some z" using that by (cases "rb_parent t x") (auto simp: flip_def)
    have t1z: "rt_node t1 z = (if rb_parent t x = Some z then (if rb_left t0 z = Some x then (rt_node t0 z)\<lparr>nd_left := Some y\<rparr>
        else if rb_right t0 z = Some x then (rt_node t0 z)\<lparr>nd_right := Some y\<rparr> else rt_node t0 z) else rt_node t0 z)"
      using y0 px by (simp add: t1 t0_def [symmetric] update_parent_node ren_def)
    consider "rb_parent t x = Some z" "rb_parent t y \<noteq> Some z" | "rb_parent t y = Some z" "rb_parent t x \<noteq> Some z"
      | "rb_parent t x \<noteq> Some z" "rb_parent t y \<noteq> Some z" using p by fastforce
    then show ?thesis using c z0 [OF that] t1z xy flip_option(1) [of "rb_left t z" x y] flip_option(1) [of "rb_right t z" x y]
        flip_option(2) [of "rb_left t z" y x] flip_option(2) [of "rb_right t z" y x]
      by cases (auto simp: flip_def)
  qed
qed

lemma swap_rep:
  assumes rep: "tree_rep t T" and x: "x \<in> set (ids T)" and y: "y \<in> set (ids T)" and xy: "x \<noteq> y" and p: "rb_parent t x \<noteq> rb_parent t y"
  shows "tree_rep (ocf_rb_tree_swap x y t) (ren_tree (flip x y) T)"
proof -
  note X = rep_links [OF rep x] and Y = rep_links [OF rep y]
  let ?f = "map_option (flip x y)"
  define t1 where "t1 = ocf_rb_tree_update_parent y x (Some y) (ocf_rb_tree_update_parent x y (Some x) (swap_nodes x y t))"
  define t2 where "t2 = ocf_rb_tree_update_children x t1"
  note U = swap_links_up [OF rep x y xy p t1_def]
  have nx: "rb_left t x \<noteq> Some x" "rb_right t x \<noteq> Some x" and ny: "rb_left t y \<noteq> Some y" "rb_right t y \<noteq> Some y" using X(1,4) Y(1,4) by blast+
  have l1: "rb_left t1 x \<noteq> Some x" using U(1) ny xy by (auto simp: ren_def flip_def split: if_splits)
  have t2: "rt_node t2 z = (if ?f (rb_left t y) = Some z \<or> ?f (rb_right t y) = Some z then (rt_node t1 z)\<lparr>nd_parent := Some x\<rparr> else rt_node t1 z)" "rt_root t2 = rt_root t1" for z
    using update_children_node [OF l1] U(1) by (simp_all add: t2_def ren_def)
  have l2: "rb_left t2 y = ?f (rb_left t x)" "rb_right t2 y = ?f (rb_right t x)" using t2(1) [of y] U(2) by (auto simp: ren_def)
  have "rb_left t2 y \<noteq> Some y" using l2 nx xy by (auto simp: flip_def split: if_splits)
  note t3 = update_children_node [OF this, unfolded l2]
  have sw: "ocf_rb_tree_swap x y t = ocf_rb_tree_update_children y t2" by (simp add: swap_eq [OF rep x y xy] t2_def t1_def)
  have node: "rt_node (ocf_rb_tree_swap x y t) (flip x y z) = ren (flip x y) (rt_node t z)" if z: "z \<in> set (ids T)" for z
  proof -
    have fz: "?f v = Some z \<longleftrightarrow> v = Some z" if "z \<noteq> x" "z \<noteq> y" for v using that by (cases v) (auto simp: flip_def)
    have fx: "?f v = Some y \<longleftrightarrow> v = Some x" "?f v = Some x \<longleftrightarrow> v = Some y" for v using xy by (cases v; auto simp: flip_def)+
    have px: "rb_left t y = Some x \<or> rb_right t y = Some x \<longleftrightarrow> rb_parent t x = Some y" "rb_left t x = Some y \<or> rb_right t x = Some y \<longleftrightarrow> rb_parent t y = Some x"
      using X(1) [of y] Y(1) [of x] x y by auto
    consider "z = x" | "z = y" | "z \<noteq> x" "z \<noteq> y" by blast
    then show ?thesis
    proof cases
      case 1
      then have "rt_node (ocf_rb_tree_swap x y t) (flip x y z) = rt_node t2 y" using t3(1) [of y] nx by (simp add: sw flip_def fx)
      also have "\<dots> = ren (flip x y) (rt_node t x)" using t2(1) [of y] U(2) px(1) xy by (auto simp: fx ren_def flip_def)
      finally show ?thesis using 1 by simp
    next
      case 2
      have "rt_node t2 x = ren (flip x y) (rt_node t y)" using t2(1) [of x, unfolded fx] U(1) ny by simp
      then show ?thesis using 2 t3(1) [of x] px(2) xy by (auto simp: sw fx ren_def flip_def)
    next
      case 3
      have c: "rb_left t x = Some z \<or> rb_right t x = Some z \<longleftrightarrow> rb_parent t z = Some x" "rb_left t y = Some z \<or> rb_right t y = Some z \<longleftrightarrow> rb_parent t z = Some y"
        using X(1) [of z] Y(1) [of z] z by auto
      have "rt_node t2 z = (if rb_parent t z = Some y then (rt_node t1 z)\<lparr>nd_parent := Some x\<rparr> else rt_node t1 z)" using t2(1) [of z] unfolding fz [OF 3] c .
      moreover have "rt_node (ocf_rb_tree_swap x y t) z = (if rb_parent t z = Some x then (rt_node t2 z)\<lparr>nd_parent := Some y\<rparr> else rt_node t2 z)"
        using t3(1) [of z] unfolding fz [OF 3] c sw .
      moreover have "?f (rb_parent t z) = (if rb_parent t z = Some x then Some y else if rb_parent t z = Some y then Some x else rb_parent t z)"
        by (cases "rb_parent t z") (auto simp: flip_def)
      moreover have "flip x y z = z" using 3 by (simp add: flip_def)
      ultimately show ?thesis using U(4) [OF z 3] xy by (auto simp: ren_def)
    qed
  qed
  have "inj (flip x y)" by (auto simp: inj_def flip_def)
  then have "distinct (map (flip x y) (ids T))" using rep by (auto simp: tree_rep_def distinct_map inj_on_def inj_def)
  then show ?thesis using rep ren_tree_at [of "rt_node t" None T "rt_node (ocf_rb_tree_swap x y t)" "flip x y"] node t3(2) t2(2) U(3)
    by (simp add: tree_rep_def sw)
qed

fun ren_frame :: "(nat \<Rightarrow> nat) \<Rightarrow> frame \<Rightarrow> frame" where
  "ren_frame f (InL x c r) = InL (f x) c (ren_tree f r)"
| "ren_frame f (InR x c l) = InR (f x) c (ren_tree f l)"

lemma ren_plug: "ren_tree f (plug T fs) = plug (ren_tree f T) (map (ren_frame f) fs)"
  by (induction T fs rule: plug.induct) auto

subsubsection \<open>Taking a node out\<close>

lemma detach_rep:
  assumes rep: "tree_rep t (plug (Node Leaf (x, c) Leaf) fs)" and ok: "rb_tree (plug (Node Leaf (x, c) Leaf) fs)"
  obtains t' T where "detach_leaf x t = Some t'" "tree_rep t' T" "rb_tree T" "ids T = filter (\<lambda>z. z \<noteq> x) (ids (plug (Node Leaf (x, c) Leaf) fs))"
proof -
  have f: "x \<notin> set zs \<Longrightarrow> filter (\<lambda>z. z \<noteq> x) zs = zs" for zs by (auto simp: filter_id_conv)
  have out: "filter (\<lambda>z. z \<noteq> x) (ids (plug (Node Leaf (x, c) Leaf) fs)) = before fs @ after fs" using rep by (simp add: rep_plug ids_plug f)
  have pl: "place_ok (if c then 0 else 0 + 1) fs" using ok place_plug [of "Node Leaf (x, c) Leaf" fs] by (cases c) (simp_all add: rb_tree_def)
  have col: "rb_red t x = c" using rep by (simp add: rep_plug)
  obtain t1 gs where t1: "(if \<not> rb_red t x then ocf_rb_tree_fix_double_black x t else Some t) = Some t1" "tree_rep t1 (plug (Node Leaf (x, c) Leaf) gs)"
    "place_ok 0 gs" "before gs = before fs" "after gs = after fs"
  proof (cases c)
    case True
    then show thesis using that [of t fs] rep pl col by simp
  next
    case False
    then show thesis using double_black [OF rep, of x 0] pl col that by (auto simp: place_fixed_def)
  qed
  have u: "rb_parent t1 x = up gs" "frames_at (rt_node t1) (rt_root t1) (Some x) gs" "x \<notin> set (before gs) \<union> set (after gs)" "distinct (before gs @ after gs)"
    using t1(2) by (auto simp: rep_plug)
  have "tree_rep (ocf_rb_tree_update_parent x x None t1) (plug Leaf gs)" using update_parent_frames(1) [OF u, of None] u(4) by (simp add: rep_plug)
  moreover have "detach_leaf x t = Some (ocf_rb_tree_update_parent x x None t1)" using t1(1) by (simp add: detach_leaf_def)
  moreover have "rb_tree (plug Leaf gs)" using place_plug [of Leaf gs] t1(3) by (simp add: rb_tree_def)
  ultimately show thesis using that t1(4,5) out by (simp add: ids_plug)
qed

definition removed :: "nat \<Rightarrow> ocf_rb_tree \<Rightarrow> nat list \<Rightarrow> bool" where
  "removed x t xs \<longleftrightarrow> (\<exists>t' T. ocf_rb_tree_remove x t = Some t' \<and> tree_rep t' T \<and> rb_tree T \<and> ids T = filter (\<lambda>z. z \<noteq> x) xs)"

lemma small_tree: "rb_ok T \<Longrightarrow> bh T = 0 \<Longrightarrow> T = Leaf \<or> (\<exists>y. T = Node Leaf (y, True) Leaf)"
proof (cases T rule: black.cases)
  case (2 l x c r)
  assume a: "rb_ok T" "bh T = 0"
  have "l = Leaf" using a 2 by (cases l rule: black.cases) (auto split: if_splits)
  moreover have "r = Leaf" using a 2 by (cases r rule: black.cases) (auto split: if_splits)
  ultimately show ?thesis using a 2 by (auto split: if_splits)
qed simp

lemma red_twice: "rb_red t y \<Longrightarrow> set_red y True t = t"
proof -
  assume "rb_red t y"
  then have "(rt_node t y)\<lparr>nd_red := True\<rparr> = rt_node t y" by (cases "rt_node t y") simp
  then show ?thesis by (simp add: upd_node_def)
qed

lemma red_sibling_kept:
  assumes rep: "tree_rep t (plug (Node Leaf (x, c) Leaf) fs)" and ok: "rb_ok (plug (Node Leaf (x, c) Leaf) fs) \<and> black (plug (Node Leaf (x, c) Leaf) fs)"
    and fs: "fs \<noteq> []" and c: c
  shows "(case ocf_rb_tree_sibling t x of None \<Rightarrow> t | Some s \<Rightarrow> set_red s True t) = t"
proof -
  have pl: "place_ok 0 fs" using ok place_plug [of "Node Leaf (x, c) Leaf" fs] c by simp
  obtain p d s gs where f: "fs = InL p d s # gs \<or> fs = InR p d s # gs" using fs by (cases fs rule: up.cases) auto
  have s: "s = Leaf \<or> (\<exists>y. s = Node Leaf (y, True) Leaf)" using small_tree [of s] pl f by auto
  show ?thesis using rep f s by (elim disjE exE) (auto simp: rep_plug ocf_rb_tree_sibling_def red_twice)
qed

lemma remove_no_child:
  assumes rep: "tree_rep t (plug (Node Leaf (x, c) Leaf) fs)" and ok: "rb_tree (plug (Node Leaf (x, c) Leaf) fs)"
  shows "removed x t (ids (plug (Node Leaf (x, c) Leaf) fs))"
proof -
  have h: "rb_left t x = None" "rb_right t x = None" "rb_red t x = c" "rb_parent t x = up fs" using rep by (simp_all add: rep_plug)
  have rm: "ocf_rb_tree_remove x t = remove_leaf x (ocf_rb_tree_sibling t x) t"
    by (subst ocf_rb_tree_remove.simps) (simp add: ocf_rb_tree_bst_replacement_def h)
  obtain t' T where d: "detach_leaf x t = Some t'" "tree_rep t' T" "rb_tree T" "ids T = filter (\<lambda>z. z \<noteq> x) (ids (plug (Node Leaf (x, c) Leaf) fs))"
    by (rule detach_rep [OF rep ok])
  show ?thesis
  proof (cases "fs = []")
    case True
    then have "remove_leaf x (ocf_rb_tree_sibling t x) t = Some (t\<lparr>rt_root := None\<rparr>)" using rep by (simp add: remove_leaf_def tree_rep_def)
    then show ?thesis using rm True by (auto simp: removed_def tree_rep_def rb_tree_def intro!: exI [of _ Leaf])
  next
    case False
    have root: "rt_root t \<noteq> Some x"
      using rep_links(3) [OF rep, of x] h(4) False by (cases fs rule: up.cases) (auto simp: ids_plug)
    have sib: "(case ocf_rb_tree_sibling t x of None \<Rightarrow> t | Some s \<Rightarrow> set_red s True t) = t" if c
      by (rule red_sibling_kept [OF rep ok [unfolded rb_tree_def] False]) (use that in simp)
    have "remove_leaf x (ocf_rb_tree_sibling t x) t = detach_leaf x t" using root h(3) sib by (simp add: remove_leaf_def)
    then show ?thesis using rm d by (auto simp: removed_def)
  qed
qed

text \<open>The replacement of a node is its neighbour in the order, and has at most one child.\<close>

definition replaces :: "ocf_rb_tree \<Rightarrow> ntree \<Rightarrow> nat \<Rightarrow> nat \<Rightarrow> bool" where
  "replaces t T x y \<longleftrightarrow> ocf_rb_tree_bst_replacement t x = Some (Some y) \<and> x \<in> set (ids T) \<and> y \<in> set (ids T) \<and> x \<noteq> y \<and>
     rb_parent t x \<noteq> rb_parent t y \<and> (\<exists>as bs. ids T = as @ x # y # bs \<or> ids T = as @ y # x # bs)"

lemma flip_order:
  assumes "\<exists>as bs. ids T = as @ x # y # bs \<or> ids T = as @ y # x # bs" "distinct (ids T)"
  shows "filter (\<lambda>z. z \<noteq> x) (map (flip x y) (ids T)) = filter (\<lambda>z. z \<noteq> x) (ids T)"
proof -
  have f: "map (flip x y) zs = zs" if "x \<notin> set zs" "y \<notin> set zs" for zs using that by (induction zs) (auto simp: flip_def)
  from assms show ?thesis by (auto simp: f) (auto simp: flip_def)
qed

lemma remove_swap:
  assumes rep: "tree_rep t T" and ok: "rb_tree T" and y: "replaces t T x y" and T: "T = plug (Node Leaf (y, d) b) hs"
    and again: "\<And>t. b \<noteq> Leaf \<Longrightarrow> tree_rep t (ren_tree (flip x y) T) \<Longrightarrow> removed x t (ids (ren_tree (flip x y) T))"
  shows "removed x t (ids T)"
proof -
  let ?T = "ren_tree (flip x y) T" and ?t = "ocf_rb_tree_swap x y t"
  have rep': "tree_rep ?t ?T" using swap_rep [OF rep] y by (auto simp: replaces_def)
  have ok': "rb_tree ?T" using ok by (simp add: rb_tree_def)
  have T': "?T = plug (Node Leaf (x, d) (ren_tree (flip x y) b)) (map (ren_frame (flip x y)) hs)" using y by (simp add: T ren_plug flip_def replaces_def)
  have ids: "filter (\<lambda>z. z \<noteq> x) (ids ?T) = filter (\<lambda>z. z \<noteq> x) (ids T)"
    using flip_order y rep by (simp add: replaces_def tree_rep_def)
  have yl: "rb_left t y = None" "rb_right t y = root_of b" using rep by (simp_all add: T rep_plug)
  have rm: "ocf_rb_tree_remove x t = (if root_of b = None then detach_leaf x ?t else ocf_rb_tree_remove x ?t)"
    using y yl by (subst ocf_rb_tree_remove.simps) (simp add: replaces_def)
  show ?thesis
  proof (cases b rule: root_of.cases)
    case 1
    then show ?thesis using detach_rep [of ?t x d "map (ren_frame (flip x y)) hs"] rep' ok' rm ids unfolding removed_def T' by (metis ren_tree_simps(1) root_of.simps(1))
  next
    case (2 l z e r)
    then show ?thesis using again [OF _ rep'] rm ids by (simp add: removed_def)
  qed
qed

lemma remove_one_child:
  assumes rep: "tree_rep t (plug (Node l (x, c) r) fs)" and ok: "rb_tree (plug (Node l (x, c) r) fs)" and one: "(l = Leaf) \<noteq> (r = Leaf)"
  shows "removed x t (ids (plug (Node l (x, c) r) fs))"
proof -
  have rb: "rb_ok (Node l (x, c) r)" using ok place_plug [of "Node l (x, c) r" fs] by (simp add: rb_tree_def)
  have x: "x \<in> set (ids (plug (Node l (x, c) r) fs))" by (simp add: ids_plug)
  show ?thesis
  proof (cases "l = Leaf")
    case True
    then obtain y where r: "r = Node Leaf (y, True) Leaf" using small_tree [of r] rb one by auto
    have "replaces t (plug (Node l (x, c) r) fs) x y"
      using rep up_ids [of fs x] by (auto simp: replaces_def True r rep_plug ids_plug ocf_rb_tree_bst_replacement_def)
    then show ?thesis by (rule remove_swap [OF rep ok, where d = True and b = Leaf and hs = "InR x c l # fs"]) (simp_all add: r)
  next
    case False
    then have rl: "r = Leaf" using one by blast
    then obtain y where l: "l = Node Leaf (y, True) Leaf" using small_tree [of l] rb False by auto
    have "replaces t (plug (Node l (x, c) r) fs) x y"
      using rep up_ids [of fs x] by (auto simp: replaces_def rl l rep_plug ids_plug ocf_rb_tree_bst_replacement_def)
    then show ?thesis by (rule remove_swap [OF rep ok, where d = True and b = Leaf and hs = "InL x c r # fs"]) (simp_all add: l)
  qed
qed

lemma leftmost:
  assumes "tree_at (rt_node t) p T" "root_of T = Some x"
  shows "\<exists>y d b gs. leftmost_walk t x = Some y \<and> plug T fs = plug (Node Leaf (y, d) b) gs \<and> before gs = before fs \<and> (gs = fs \<or> (\<exists>q \<in> set (ids T). up gs = Some q))"
  using assms
proof (induction T arbitrary: p x fs)
  case (Node l v r)
  obtain c where v: "v = (x, c)" using Node.prems(2) by (cases v) auto
  have n: "rb_left t x = root_of l" "tree_at (rt_node t) (Some x) l" using Node.prems(1) by (auto simp: v)
  show ?case
  proof (cases "root_of l")
    case None
    then have "l = Leaf" by (cases l rule: root_of.cases) auto
    moreover have "leftmost_walk t x = Some x" using n None by (subst leftmost_walk.simps) simp
    ultimately show ?thesis by (auto simp: v)
  next
    case (Some y)
    obtain z d b gs where g: "leftmost_walk t y = Some z" "plug l (InL x c r # fs) = plug (Node Leaf (z, d) b) gs" "before gs = before fs"
      "gs = InL x c r # fs \<or> (\<exists>q \<in> set (ids l). up gs = Some q)" using Node.IH(1) [OF n(2) Some, of "InL x c r # fs"] by auto
    have "leftmost_walk t x = Some z" using n Some g(1) by (subst leftmost_walk.simps) simp
    moreover have "plug (Node l v r) fs = plug (Node Leaf (z, d) b) gs" using g(2) by (simp add: v)
    moreover have "\<exists>q \<in> set (ids (Node l v r)). up gs = Some q" using g(4) by (auto simp: v)
    ultimately show ?thesis using g(3) by blast
  qed
qed simp

lemma remove_two_children:
  assumes rep: "tree_rep t (plug (Node l (x, c) r) fs)" and ok: "rb_tree (plug (Node l (x, c) r) fs)" and two: "l \<noteq> Leaf" "r \<noteq> Leaf"
  shows "removed x t (ids (plug (Node l (x, c) r) fs))"
proof -
  let ?T = "plug (Node l (x, c) r) fs"
  obtain s where s: "root_of r = Some s" using two(2) by (cases r rule: root_of.cases) auto
  have h: "rb_left t x \<noteq> None" "rb_right t x = Some s" "rb_parent t x = up fs" "tree_at (rt_node t) (Some x) r"
    and dist: "distinct (before fs @ (ids l @ x # ids r) @ after fs)" using rep two s by (cases l rule: root_of.cases; auto simp: rep_plug)+
  obtain y d b gs where g: "leftmost_walk t s = Some y" "plug r (InR x c l # fs) = plug (Node Leaf (y, d) b) gs" "before gs = before (InR x c l # fs)"
    "gs = InR x c l # fs \<or> (\<exists>q \<in> set (ids r). up gs = Some q)" using leftmost [OF h(4) s, of "InR x c l # fs"] by blast
  have T: "?T = plug (Node Leaf (y, d) b) gs" using g(2) by simp
  have ids: "ids ?T = (before fs @ ids l) @ x # y # ids b @ after gs" using g(3) by (simp add: T ids_plug)
  have py: "rb_parent t y = up gs" using rep by (simp add: T rep_plug)
  have up: "up fs \<noteq> up gs" using g(4) up_ids [of fs] dist by (auto simp: disjoint_iff)
  have "x \<noteq> y" using dist rep by (auto simp: tree_rep_def ids)
  moreover have "\<exists>as bs. ids ?T = as @ x # y # bs \<or> ids ?T = as @ y # x # bs" using ids by blast
  moreover have "ocf_rb_tree_bst_replacement t x = Some (Some y)" using h g(1) by (auto simp: ocf_rb_tree_bst_replacement_def ocf_rb_tree_successor_def)
  moreover have "x \<in> set (ids ?T)" "y \<in> set (ids ?T)" by (simp_all add: ids)
  ultimately have y: "replaces t ?T x y" using h(3) py up by (simp add: replaces_def)
  show ?thesis
  proof (rule remove_swap [OF rep ok y T])
    fix t' assume b: "b \<noteq> Leaf" and rep': "tree_rep t' (ren_tree (flip x y) ?T)"
    have T': "ren_tree (flip x y) ?T = plug (Node Leaf (x, d) (ren_tree (flip x y) b)) (map (ren_frame (flip x y)) gs)"
      using \<open>x \<noteq> y\<close> unfolding T by (simp add: ren_plug flip_def)
    have "rb_tree (ren_tree (flip x y) ?T)" using ok by (simp add: rb_tree_def)
    then show "removed x t' (ids (ren_tree (flip x y) ?T))" using remove_one_child rep' b unfolding T' by (metis ren_tree_def tree.map_disc_iff)
  qed
qed

lemma remove_rep:
  assumes rep: "tree_rep t T" and ok: "rb_tree T" and x: "x \<in> set (ids T)"
  obtains t' T' where "ocf_rb_tree_remove x t = Some t'" "tree_rep t' T'" "rb_tree T'" "ids T' = filter (\<lambda>z. z \<noteq> x) (ids T)"
proof -
  obtain l c r fs where T: "T = plug (Node l (x, c) r) fs" by (rule split_at [OF x])
  have "removed x t (ids T)"
    using remove_no_child [of t x c fs] remove_one_child [of t l x c r fs] remove_two_children [of t l x c r fs] rep ok
    by (cases "l = Leaf"; cases "r = Leaf") (simp_all add: T)
  then show thesis using that by (auto simp: removed_def)
qed

subsection \<open>Search and updates in place\<close>

text \<open>The list is in the order of the keys, as the comparison sees it: first the nodes below the key that is compared, then those equal to it.\<close>

definition sgn_le :: "(nat \<Rightarrow> int) \<Rightarrow> nat \<Rightarrow> nat \<Rightarrow> bool" where
  "sgn_le cmp a b \<longleftrightarrow> (cmp a < 0 \<longrightarrow> cmp b < 0) \<and> (cmp a \<le> 0 \<longrightarrow> cmp b \<le> 0)"

abbreviation sgn_sorted :: "(nat \<Rightarrow> int) \<Rightarrow> nat list \<Rightarrow> bool" where
  "sgn_sorted cmp \<equiv> sorted_wrt (sgn_le cmp)"

lemma sgn_cut: "sgn_sorted cmp xs \<Longrightarrow> cut_sorted cmp xs"
  by (rule sorted_wrt_mono_rel) (auto simp: sgn_le_def cut_def)

lemma find_walk_rep:
  assumes "tree_at (rt_node t) p T" "sgn_sorted cmp (ids T)"
  shows "\<exists>r. find_walk cmp t (root_of T) = Some r \<and> (case r of None \<Rightarrow> \<forall>x \<in> set (ids T). cmp x \<noteq> 0 | Some x \<Rightarrow> x \<in> set (ids T) \<and> cmp x = 0)"
  using assms
proof (induction T arbitrary: p)
  case Leaf
  then show ?case by (simp add: find_walk.simps)
next
  case (Node l v r)
  obtain x c where v: "v = (x, c)" by (cases v)
  let ?n = "if cmp x < 0 then l else r"
  have n: "rb_left t x = root_of l" "rb_right t x = root_of r" "tree_at (rt_node t) (Some x) l" "tree_at (rt_node t) (Some x) r" using Node.prems(1) by (auto simp: v)
  have s: "sgn_sorted cmp (ids l)" "sgn_sorted cmp (ids r)" "\<forall>y \<in> set (ids l). sgn_le cmp y x" "\<forall>y \<in> set (ids r). sgn_le cmp x y"
    using Node.prems(2) by (simp_all add: v sorted_wrt_append)
  show ?case
  proof (cases "cmp x = 0")
    case True
    then show ?thesis by (subst find_walk.simps) (simp add: v)
  next
    case False
    have w: "find_walk cmp t (root_of (Node l v r)) = find_walk cmp t (root_of ?n)" using False n by (subst find_walk.simps) (simp add: v)
    have "\<exists>q. find_walk cmp t (root_of ?n) = Some q \<and> (case q of None \<Rightarrow> \<forall>x \<in> set (ids ?n). cmp x \<noteq> 0 | Some x \<Rightarrow> x \<in> set (ids ?n) \<and> cmp x = 0)"
      using Node.IH(1) [OF n(3) s(1)] Node.IH(2) [OF n(4) s(2)] by (cases "cmp x < 0") simp_all
    then obtain q where q: "find_walk cmp t (root_of ?n) = Some q" "case q of None \<Rightarrow> \<forall>x \<in> set (ids ?n). cmp x \<noteq> 0 | Some x \<Rightarrow> x \<in> set (ids ?n) \<and> cmp x = 0"
      by blast
    have "\<forall>y \<in> set (ids (Node l v r)) - set (ids ?n). cmp y \<noteq> 0" using s(3,4) False by (auto simp: v sgn_le_def)
    then show ?thesis unfolding w using q by (cases q) (auto simp: v split: if_splits)
  qed
qed

lemma find_rep:
  assumes rep: "tree_rep t T" and sorted: "sgn_sorted cmp (ids T)"
  obtains r where "ocf_rb_tree_find cmp t = Some r" "case r of None \<Rightarrow> \<forall>x \<in> set (ids T). cmp x \<noteq> 0 | Some x \<Rightarrow> x \<in> set (ids T) \<and> cmp x = 0"
  using find_walk_rep [of t None T cmp] assms by (auto simp: ocf_rb_tree_find_def tree_rep_def)

lemma leftmost_hd: "tree_at (rt_node t) p T \<Longrightarrow> root_of T = Some x \<Longrightarrow> leftmost_walk t x = Some (hd (ids T))"
proof (induction T arbitrary: p x)
  case (Node l v r)
  obtain c where v: "v = (x, c)" using Node.prems(2) by (cases v) auto
  have n: "rb_left t x = root_of l" "tree_at (rt_node t) (Some x) l" using Node.prems(1) by (auto simp: v)
  show ?case
  proof (cases l rule: root_of.cases)
    case 1
    then show ?thesis using n by (subst leftmost_walk.simps) (simp add: v)
  next
    case (2 l1 y d l2)
    then show ?thesis using n Node.IH(1) [OF n(2), of y] by (subst leftmost_walk.simps) (simp add: v hd_append)
  qed
qed simp

lemma rightmost_last: "tree_at (rt_node t) p T \<Longrightarrow> root_of T = Some x \<Longrightarrow> rightmost_walk t x = Some (last (ids T))"
proof (induction T arbitrary: p x)
  case (Node l v r)
  obtain c where v: "v = (x, c)" using Node.prems(2) by (cases v) auto
  have n: "rb_right t x = root_of r" "tree_at (rt_node t) (Some x) r" using Node.prems(1) by (auto simp: v)
  show ?case
  proof (cases r rule: root_of.cases)
    case 1
    then show ?thesis using n by (subst rightmost_walk.simps) (simp add: v)
  next
    case (2 l1 y d l2)
    then show ?thesis using n Node.IH(2) [OF n(2), of y] by (subst rightmost_walk.simps) (simp add: v)
  qed
qed simp

text \<open>A node that the search for the new key reaches lies between the nodes that are smaller and those that are larger, but for its own subtrees.\<close>

definition reached :: "(nat \<Rightarrow> int) \<Rightarrow> nat \<Rightarrow> ntree \<Rightarrow> bool" where
  "reached cmp x T \<longleftrightarrow> (\<exists>l c r gs. T = plug (Node l (x, c) r) gs \<and> (\<forall>a \<in> set (before gs). \<not> cmp a < 0) \<and> (\<forall>a \<in> set (after gs). cmp a < 0))"

lemma update_walk_rep:
  assumes "tree_at (rt_node t) p T" "cut_sorted cmp (ids T)" "\<forall>a \<in> set (before fs). \<not> cmp a < 0" "\<forall>a \<in> set (after fs). cmp a < 0"
  shows "\<exists>b. update_walk cmp x t (root_of T) = Some b \<and> (b \<longrightarrow> reached cmp x (plug T fs))"
  using assms
proof (induction T arbitrary: p fs)
  case Leaf
  have "update_walk cmp x t (root_of Leaf) = Some False" by (simp add: update_walk.simps)
  then show ?case by blast
next
  case (Node l v r)
  obtain y c where v: "v = (y, c)" by (cases v)
  have n: "rb_left t y = root_of l" "rb_right t y = root_of r" "tree_at (rt_node t) (Some y) l" "tree_at (rt_node t) (Some y) r" using Node.prems(1) by (auto simp: v)
  have s: "cut_sorted cmp (ids l)" "cut_sorted cmp (ids r)" "\<forall>a \<in> set (ids l). cut cmp a y" "\<forall>a \<in> set (ids r). cut cmp y a"
    using Node.prems(2) by (simp_all add: v sorted_wrt_append)
  consider "y = x" | "y \<noteq> x" "cmp y < 0" | "y \<noteq> x" "\<not> cmp y < 0" by blast
  then show ?case
  proof cases
    case 1
    have "update_walk cmp x t (root_of (Node l v r)) = Some True" using 1 by (subst update_walk.simps) (simp add: v)
    moreover have "reached cmp x (plug (Node l v r) fs)" unfolding reached_def v 1 using Node.prems(3,4) by blast
    ultimately show ?thesis by blast
  next
    case 2
    have "update_walk cmp x t (root_of (Node l v r)) = update_walk cmp x t (root_of l)" using 2 n by (subst update_walk.simps) (simp add: v)
    moreover have "\<forall>a \<in> set (after (InL y c r # fs)). cmp a < 0" using 2 s(4) Node.prems(4) by (auto simp: cut_def)
    ultimately show ?thesis using Node.IH(1) [OF n(3) s(1), of "InL y c r # fs"] Node.prems(3) by (simp add: v)
  next
    case 3
    have "update_walk cmp x t (root_of (Node l v r)) = update_walk cmp x t (root_of r)" using 3 n by (subst update_walk.simps) (simp add: v)
    moreover have "\<forall>a \<in> set (before (InR y c l # fs)). \<not> cmp a < 0" using 3 s(3) Node.prems(3) by (auto simp: cut_def)
    ultimately show ?thesis using Node.IH(2) [OF n(4) s(2), of "InR y c l # fs"] Node.prems(4) by (simp add: v)
  qed
qed

lemma sgn_sorted_ends:
  assumes "sgn_sorted cmp xs" "a \<in> set xs"
  shows "sgn_le cmp a (last xs)" "sgn_le cmp (hd xs) a"
proof -
  have r: "sgn_le cmp z z" for z by (simp add: sgn_le_def)
  obtain ys y where xs: "xs = ys @ [y]" using assms(2) by (cases xs rule: rev_cases) auto
  show "sgn_le cmp a (last xs)" using assms r by (auto simp: xs sorted_wrt_append)
  show "sgn_le cmp (hd xs) a" using assms r by (cases xs) auto
qed

lemma pred_bound:
  assumes "rb_left t x = root_of l" "tree_at (rt_node t) (Some x) l" "sgn_sorted cmp (ids l)"
  shows "\<exists>q. ocf_rb_tree_predecessor t x = Some q \<and> ((case q of None \<Rightarrow> True | Some z \<Rightarrow> cmp z > 0) \<longrightarrow> (\<forall>a \<in> set (ids l). 0 \<le> cmp a))"
proof (cases l rule: root_of.cases)
  case 1
  then show ?thesis using assms by (simp add: ocf_rb_tree_predecessor_def)
next
  case (2 l1 y d l2)
  then have "ocf_rb_tree_predecessor t x = Some (Some (last (ids l)))" using assms rightmost_last [OF assms(2), of y] by (simp add: ocf_rb_tree_predecessor_def)
  then show ?thesis using sgn_sorted_ends(1) [OF assms(3)] by (fastforce simp: sgn_le_def)
qed

lemma succ_bound:
  assumes "rb_right t x = root_of r" "tree_at (rt_node t) (Some x) r" "sgn_sorted cmp (ids r)"
  shows "\<exists>q. ocf_rb_tree_successor t x = Some q \<and> ((case q of None \<Rightarrow> True | Some z \<Rightarrow> cmp z < 0) \<longrightarrow> (\<forall>a \<in> set (ids r). cmp a \<le> 0))"
proof (cases r rule: root_of.cases)
  case 1
  then show ?thesis using assms by (simp add: ocf_rb_tree_successor_def)
next
  case (2 l1 y d l2)
  then have "ocf_rb_tree_successor t x = Some (Some (hd (ids r)))" using assms leftmost_hd [OF assms(2), of y] by (simp add: ocf_rb_tree_successor_def)
  then show ?thesis using sgn_sorted_ends(2) [OF assms(3)] by (fastforce simp: sgn_le_def)
qed

text \<open>An update in place keeps the order, for a key that fits between the neighbours.\<close>

definition fits_at :: "(nat \<Rightarrow> int) \<Rightarrow> nat \<Rightarrow> nat list \<Rightarrow> bool" where
  "fits_at cmp x xs \<longleftrightarrow> (\<exists>as bs. xs = as @ x # bs \<and> (\<forall>a \<in> set as. 0 \<le> cmp a) \<and> (\<forall>a \<in> set bs. cmp a \<le> 0))"

lemma can_update_rep:
  assumes rep: "tree_rep t T" and sorted: "sgn_sorted cmp (ids T)"
  shows "\<exists>b. ocf_rb_tree_can_update cmp x t = Some b \<and> (b \<longrightarrow> fits_at cmp x (ids T))"
proof -
  obtain f where f: "update_walk cmp x t (rt_root t) = Some f" "f \<longrightarrow> reached cmp x T"
    using update_walk_rep [of t None T cmp "[]" x] rep sgn_cut [OF sorted] by (auto simp: tree_rep_def)
  show ?thesis
  proof (cases f)
    case False
    then have "ocf_rb_tree_can_update cmp x t = Some False" using f(1) by (simp add: ocf_rb_tree_can_update_def)
    then show ?thesis by blast
  next
    case True
    then obtain l c r gs where T: "T = plug (Node l (x, c) r) gs" and g: "\<forall>a \<in> set (before gs). \<not> cmp a < 0" "\<forall>a \<in> set (after gs). cmp a < 0"
      using f(2) unfolding reached_def by blast
    have h: "rb_left t x = root_of l" "tree_at (rt_node t) (Some x) l" "rb_right t x = root_of r" "tree_at (rt_node t) (Some x) r" using rep by (auto simp: T rep_plug)
    have s: "\<forall>a \<in> set (ids l). sgn_le cmp a x" "\<forall>a \<in> set (ids r). sgn_le cmp x a" "sgn_sorted cmp (ids l)" "sgn_sorted cmp (ids r)"
      using sorted by (simp_all add: T ids_plug sorted_wrt_append)
    have "fits_at cmp x (ids T)" if "\<forall>a \<in> set (ids l). 0 \<le> cmp a" "\<forall>a \<in> set (ids r). cmp a \<le> 0"
      using that g unfolding fits_at_def by (intro exI [of _ "before gs @ ids l"] exI [of _ "ids r @ after gs"]) (auto simp: T ids_plug)
    moreover have "\<forall>a \<in> set (ids r). cmp a \<le> 0" if "cmp x \<le> 0" using s(2) that by (auto simp: sgn_le_def)
    moreover have "\<forall>a \<in> set (ids l). 0 \<le> cmp a" if "0 \<le> cmp x" using s(1) that by (fastforce simp: sgn_le_def)
    ultimately show ?thesis using pred_bound [OF h(1,2) s(3)] succ_bound [OF h(3,4) s(4)] f(1) True
      by (auto simp: ocf_rb_tree_can_update_def)
  qed
qed

subsection \<open>The height\<close>

lemma rb_size: "rb_ok T \<Longrightarrow> 2 ^ bh T \<le> size1 T"
proof (induction T rule: rb_ok.induct)
  case (2 l x c r)
  have "2 ^ bh l \<le> size1 l" "2 ^ bh l \<le> size1 r" using 2 by auto
  then show ?case by auto
qed simp

lemma rb_height: "rb_ok T \<Longrightarrow> height T \<le> 2 * bh T + (if black T then 0 else 1)"
proof (induction T rule: rb_ok.induct)
  case (2 l x c r)
  then have "height l \<le> 2 * bh l + (if black l then 0 else 1)" "height r \<le> 2 * bh l + (if black r then 0 else 1)" by auto
  then show ?case using "2.prems" by (auto split: if_splits)
qed simp

lemma rb_tree_height: "rb_tree T \<Longrightarrow> 2 ^ height T \<le> size1 T ^ 2"
proof -
  assume T: "rb_tree T"
  then have "2 ^ height T \<le> (2 :: nat) ^ (2 * bh T)" using rb_height [of T] by (intro power_increasing) (auto simp: rb_tree_def)
  also have "\<dots> = (2 ^ bh T) ^ 2" by (simp add: power_mult mult.commute)
  also have "\<dots> \<le> size1 T ^ 2" using rb_size [of T] T by (intro power_mono) (auto simp: rb_tree_def)
  finally show ?thesis .
qed

subsection \<open>The tree as an index\<close>

text \<open>
  What a user of the tree relies on. \<open>index t xs\<close> says that \<open>t\<close> holds the nodes \<open>xs\<close> in this order. The comparisons are those of the key of the node
  that is inserted, sought or changed with the keys of the nodes of the list.
\<close>

locale ordered_index =
  fixes index :: "'t \<Rightarrow> nat list \<Rightarrow> bool"
    and ins :: "(nat \<Rightarrow> int) \<Rightarrow> nat \<Rightarrow> 't \<Rightarrow> 't option"
    and rem :: "nat \<Rightarrow> 't \<Rightarrow> 't option"
    and look :: "(nat \<Rightarrow> int) \<Rightarrow> 't \<Rightarrow> nat option option"
    and can_upd :: "(nat \<Rightarrow> int) \<Rightarrow> nat \<Rightarrow> 't \<Rightarrow> bool option"
  assumes ins_index: "index t xs \<Longrightarrow> x \<notin> set xs \<Longrightarrow> cut_sorted cmp xs \<Longrightarrow>
      \<exists>t'. ins cmp x t = Some t' \<and> index t' (filter (\<lambda>y. \<not> cmp y < 0) xs @ x # filter (\<lambda>y. cmp y < 0) xs)"
    and rem_index: "index t xs \<Longrightarrow> x \<in> set xs \<Longrightarrow> \<exists>t'. rem x t = Some t' \<and> index t' (filter (\<lambda>y. y \<noteq> x) xs)"
    and look_index: "index t xs \<Longrightarrow> sgn_sorted cmp xs \<Longrightarrow>
      \<exists>r. look cmp t = Some r \<and> (case r of None \<Rightarrow> \<forall>x \<in> set xs. cmp x \<noteq> 0 | Some x \<Rightarrow> x \<in> set xs \<and> cmp x = 0)"
    and can_upd_index: "index t xs \<Longrightarrow> sgn_sorted cmp xs \<Longrightarrow> \<exists>b. can_upd cmp x t = Some b \<and> (b \<longrightarrow> fits_at cmp x xs)"
begin

text \<open>Taking a node out and putting it back under a new key.\<close>

lemma move_index:
  assumes "index t xs" "x \<in> set xs" "cut_sorted cmp (filter (\<lambda>y. y \<noteq> x) xs)"
  shows "\<exists>t'. (do { t \<leftarrow> rem x t; ins cmp x t }) = Some t' \<and>
    index t' (filter (\<lambda>y. y \<noteq> x \<and> \<not> cmp y < 0) xs @ x # filter (\<lambda>y. y \<noteq> x \<and> cmp y < 0) xs)"
proof -
  obtain t1 where t1: "rem x t = Some t1" "index t1 (filter (\<lambda>y. y \<noteq> x) xs)" using rem_index [OF assms(1,2)] by blast
  obtain t2 where "ins cmp x t1 = Some t2" "index t2 (filter (\<lambda>y. \<not> cmp y < 0) (filter (\<lambda>y. y \<noteq> x) xs) @ x # filter (\<lambda>y. cmp y < 0) (filter (\<lambda>y. y \<noteq> x) xs))"
    using ins_index [OF t1(2) _ assms(3)] by auto
  then show ?thesis using t1(1) by (auto simp: conj_commute)
qed

end

definition rb_index :: "ocf_rb_tree \<Rightarrow> nat list \<Rightarrow> bool" where
  "rb_index t xs \<longleftrightarrow> (\<exists>T. tree_rep t T \<and> rb_tree T \<and> ids T = xs)"

interpretation rbi: ordered_index rb_index ocf_rb_tree_insert ocf_rb_tree_remove ocf_rb_tree_find ocf_rb_tree_can_update
proof
  fix t xs x and cmp :: "nat \<Rightarrow> int"
  assume i: "rb_index t xs"
  then obtain T where T: "tree_rep t T" "rb_tree T" "ids T = xs" by (auto simp: rb_index_def)
  show "\<exists>t'. ocf_rb_tree_insert cmp x t = Some t' \<and> rb_index t' (filter (\<lambda>y. \<not> cmp y < 0) xs @ x # filter (\<lambda>y. cmp y < 0) xs)"
    if "x \<notin> set xs" "cut_sorted cmp xs"
    using insert_rep [OF T(1,2), of x cmp] that unfolding T(3) rb_index_def by metis
  show "\<exists>t'. ocf_rb_tree_remove x t = Some t' \<and> rb_index t' (filter (\<lambda>y. y \<noteq> x) xs)" if "x \<in> set xs"
    using remove_rep [OF T(1,2), of x] that unfolding T(3) rb_index_def by metis
  show "\<exists>r. ocf_rb_tree_find cmp t = Some r \<and> (case r of None \<Rightarrow> \<forall>x \<in> set xs. cmp x \<noteq> 0 | Some x \<Rightarrow> x \<in> set xs \<and> cmp x = 0)" if "sgn_sorted cmp xs"
    using find_rep [OF T(1), of cmp] that unfolding T(3) by metis
  show "\<exists>b. ocf_rb_tree_can_update cmp x t = Some b \<and> (b \<longrightarrow> fits_at cmp x xs)" if "sgn_sorted cmp xs"
    using can_update_rep [OF T(1), of cmp x] that unfolding T(3) by metis
qed

subsection \<open>Properties\<close>

text \<open>
  C32. Insertion into the red-black tree. For a tree in memory that is balanced and holds other nodes, in an order that fits the comparison,
  \<^verbatim>\<open>ocf_rb_tree_insert\<close> never follows a null pointer and ends. Afterwards the tree in memory is again balanced, with a height logarithmic in its size. In order it
  holds the nodes that are not above the new one, then the new one, then the others, each group in its old order.
\<close>

theorem rb_insert_exact:
  assumes "tree_rep t T" and "rb_tree T" and "x \<notin> set (ids T)" and "cut_sorted cmp (ids T)"
  shows "\<exists>t' T'. ocf_rb_tree_insert cmp x t = Some t' \<and> tree_rep t' T' \<and> rb_tree T' \<and> 2 ^ height T' \<le> size1 T' ^ 2 \<and>
    ids T' = filter (\<lambda>y. \<not> cmp y < 0) (ids T) @ x # filter (\<lambda>y. cmp y < 0) (ids T)"
  using insert_rep [OF assms] rb_tree_height by metis

text \<open>
  C33. Removal from the red-black tree. For a balanced tree in memory, \<^verbatim>\<open>ocf_rb_tree_remove\<close> of a node that is in it never follows a null pointer and ends.
  Afterwards the tree in memory is again balanced and holds the other nodes in their old order.
\<close>

theorem rb_remove_exact:
  assumes "tree_rep t T" and "rb_tree T" and "x \<in> set (ids T)"
  shows "\<exists>t' T'. ocf_rb_tree_remove x t = Some t' \<and> tree_rep t' T' \<and> rb_tree T' \<and> 2 ^ height T' \<le> size1 T' ^ 2 \<and>
    ids T' = filter (\<lambda>y. y \<noteq> x) (ids T)"
  using remove_rep [OF assms] rb_tree_height by metis

subsection \<open>Examples\<close>

definition example_rb :: ntree where
  "example_rb = Node (Node Leaf (1, True) Leaf) (2, False) (Node Leaf (4, True) Leaf)"

definition example_rb_mem :: ocf_rb_tree where
  "example_rb_mem = \<lparr>rt_root = Some 2, rt_node = (\<lambda>x. if x = 2 then \<lparr>nd_red = False, nd_left = Some 1, nd_right = Some 4, nd_parent = None\<rparr>
     else \<lparr>nd_red = True, nd_left = None, nd_right = None, nd_parent = Some 2\<rparr>)\<rparr>"

lemma example_rb_rep: "tree_rep example_rb_mem example_rb" "rb_tree example_rb" "ids example_rb = [1, 2, 4]"
  by (simp_all add: tree_rep_def example_rb_def example_rb_mem_def rb_tree_def)

theorem rb_insert_exact_witness:
  "\<exists>t' T'. ocf_rb_tree_insert (\<lambda>y. 3 - int y) 3 example_rb_mem = Some t' \<and> tree_rep t' T' \<and> rb_tree T' \<and> 2 ^ height T' \<le> size1 T' ^ 2 \<and> ids T' = [1, 2, 3, 4]"
  using rb_insert_exact [OF example_rb_rep(1,2), of 3 "\<lambda>y. 3 - int y"] by (simp add: example_rb_rep cut_def)

theorem rb_remove_exact_witness:
  "\<exists>t' T'. ocf_rb_tree_remove 2 example_rb_mem = Some t' \<and> tree_rep t' T' \<and> rb_tree T' \<and> 2 ^ height T' \<le> size1 T' ^ 2 \<and> ids T' = [1, 4]"
  using rb_remove_exact [OF example_rb_rep(1,2), of 2] by (simp add: example_rb_rep)

end
