(* ===== verification/SeqCutoff.thy ===== *)
theory SeqCutoff
  imports RBTree Nhit CacheInv "HOL-Library.Product_Lexorder"
begin

section \<open>Sequential cut-off\<close>

text \<open>
  \<^verbatim>\<open>src/ocf_seq_cutoff.c\<close>: every core follows up to 256 streams of requests that continue each other. A stream is known by its direction and by the address at
  which it ends; the red-black tree finds it, and the list keeps the streams by the time of their last request. A request that makes a stream longer than the threshold
  goes past the cache. The setters of the threshold and the policy are in \<^verbatim>\<open>mngt/ocf_mngt_core.c\<close>.
\<close>

subsection \<open>State\<close>

definition OCF_SEQ_CUTOFF_MAX_STREAMS :: nat where "OCF_SEQ_CUTOFF_MAX_STREAMS = 256"

record ocf_seq_cutoff_stream =
  ss_last :: u64
  ss_bytes :: u64
  ss_rw :: nat

text \<open>A node of the tree and an entry of the list are the number of the stream they are in.\<close>

record ocf_seq_cutoff =
  sc_streams :: "nat \<Rightarrow> ocf_seq_cutoff_stream"
  sc_tree :: ocf_rb_tree
  sc_lru :: "nat list"

definition ocf_seq_cutoff_policy_always :: int where "ocf_seq_cutoff_policy_always = 0"
definition ocf_seq_cutoff_policy_full :: int where "ocf_seq_cutoff_policy_full = 1"
definition ocf_seq_cutoff_policy_never :: int where "ocf_seq_cutoff_policy_never = 2"
definition ocf_seq_cutoff_policy_max :: int where "ocf_seq_cutoff_policy_max = 3"
definition ocf_seq_cutoff_policy_default :: int where "ocf_seq_cutoff_policy_default = ocf_seq_cutoff_policy_full"

lemmas policy_defs = ocf_seq_cutoff_policy_always_def ocf_seq_cutoff_policy_full_def ocf_seq_cutoff_policy_never_def ocf_seq_cutoff_policy_max_def
  ocf_seq_cutoff_policy_default_def

text \<open>The settings of a core that the cut-off reads.\<close>

record seq_conf =
  sq_threshold :: nat
  sq_policy :: int

definition SEQ_CUTOFF_FULL_MARGIN :: nat where
  "SEQ_CUTOFF_FULL_MARGIN = OCF_TO_EVICTION_MIN + nat OCF_PENDING_EVICTION_LIMIT"

definition ocf_seq_cutoff_is_on :: "'w::len wcache \<Rightarrow> ocf_request \<Rightarrow> bool" where
  "ocf_seq_cutoff_is_on c req =
     (if \<not> device_attached (ca_parts c) then False
      else ocf_freelist_num_free (ca_free c) \<le> SEQ_CUTOFF_FULL_MARGIN + rq_core_line_count req)"

definition ocf_seq_cutoff_stream_cmp :: "ocf_seq_cutoff_stream \<Rightarrow> ocf_seq_cutoff_stream \<Rightarrow> int" where
  "ocf_seq_cutoff_stream_cmp stream1 stream2 =
     (if ss_rw stream1 < ss_rw stream2 then - 1
      else if ss_rw stream1 > ss_rw stream2 then 1
      else if ss_last stream1 < ss_last stream2 then - 1
      else if ss_last stream1 > ss_last stream2 then 1
      else 0)"

abbreviation cmp_with :: "ocf_seq_cutoff \<Rightarrow> ocf_seq_cutoff_stream \<Rightarrow> nat \<Rightarrow> int" where
  "cmp_with sc s \<equiv> (\<lambda>y. ocf_seq_cutoff_stream_cmp s (sc_streams sc y))"

subsection \<open>Operations\<close>

definition seq_init_stream :: "nat \<Rightarrow> ocf_seq_cutoff \<Rightarrow> ocf_seq_cutoff option" where
  "seq_init_stream i sc = do {
     let stream = \<lparr>ss_last = 0, ss_bytes = 0, ss_rw = 0\<rparr>;
     let sc = sc\<lparr>sc_streams := (sc_streams sc)(i := stream)\<rparr>;
     tree \<leftarrow> ocf_rb_tree_insert (cmp_with sc stream) i (sc_tree sc);
     Some (sc\<lparr>sc_tree := tree, sc_lru := sc_lru sc @ [i]\<rparr>) }"

definition ocf_core_seq_cutoff_init :: "ocf_seq_cutoff \<Rightarrow> ocf_seq_cutoff option" where
  "ocf_core_seq_cutoff_init sc =
     fold_opt seq_init_stream [0..<OCF_SEQ_CUTOFF_MAX_STREAMS] (sc\<lparr>sc_tree := ocf_rb_tree_init (sc_tree sc), sc_lru := []\<rparr>)"

text \<open>What the debug interface reports: the last address, the length, the direction and whether the stream is cut off.\<close>

definition ocf_dbg_get_seq_cutoff_status :: "seq_conf \<Rightarrow> ocf_seq_cutoff \<Rightarrow> (u64 \<times> u64 \<times> nat \<times> bool) list" where
  "ocf_dbg_get_seq_cutoff_status conf sc =
     map (\<lambda>i. let s = sc_streams sc i in (ss_last s, ss_bytes s, ss_rw s, ss_bytes s \<ge> sq_threshold conf)) (sc_lru sc)"

definition req_item :: "ocf_request \<Rightarrow> ocf_seq_cutoff_stream" where
  "req_item req = \<lparr>ss_last = rq_byte_position req, ss_bytes = 0, ss_rw = rq_rw req mod 2\<rparr>"

definition ocf_core_seq_cutoff_check :: "seq_conf \<Rightarrow> 'w::len wcache \<Rightarrow> ocf_seq_cutoff \<Rightarrow> ocf_request \<Rightarrow> bool option" where
  "ocf_core_seq_cutoff_check conf c sc req =
     (if sq_policy conf = ocf_seq_cutoff_policy_always \<or> sq_policy conf = ocf_seq_cutoff_policy_full \<and> ocf_seq_cutoff_is_on c req then do {
        node \<leftarrow> ocf_rb_tree_find (cmp_with sc (req_item req)) (sc_tree sc);
        Some (case node of None \<Rightarrow> False
              | Some x \<Rightarrow> (ss_bytes (sc_streams sc x) + rq_byte_length req) mod U64_MOD \<ge> sq_threshold conf) }
      else Some False)"

definition list_move_tail_lru :: "nat \<Rightarrow> ocf_seq_cutoff \<Rightarrow> ocf_seq_cutoff" where
  "list_move_tail_lru x sc = sc\<lparr>sc_lru := filter (\<lambda>y. y \<noteq> x) (sc_lru sc) @ [x]\<rparr>"

text \<open>A stream that is found gets its new end, in place where the tree allows it; otherwise the stream that was not used for the longest time starts anew.\<close>

definition seq_continue :: "nat \<Rightarrow> ocf_request \<Rightarrow> ocf_seq_cutoff \<Rightarrow> ocf_seq_cutoff option" where
  "seq_continue x req sc = do {
     let last = (rq_byte_position req + rq_byte_length req) mod U64_MOD;
     let stream = sc_streams sc x;
     can_update \<leftarrow> ocf_rb_tree_can_update (cmp_with sc ((req_item req)\<lparr>ss_last := last\<rparr>)) x (sc_tree sc);
     let stream = stream\<lparr>ss_last := last, ss_bytes := (ss_bytes stream + rq_byte_length req) mod U64_MOD\<rparr>;
     let sc = sc\<lparr>sc_streams := (sc_streams sc)(x := stream)\<rparr>;
     sc \<leftarrow> (if \<not> can_update then do {
         tree \<leftarrow> ocf_rb_tree_remove x (sc_tree sc);
         tree \<leftarrow> ocf_rb_tree_insert (cmp_with sc stream) x tree;
         Some (sc\<lparr>sc_tree := tree\<rparr>) }
       else Some sc);
     Some (list_move_tail_lru x sc) }"

definition seq_replace :: "ocf_request \<Rightarrow> ocf_seq_cutoff \<Rightarrow> ocf_seq_cutoff option" where
  "seq_replace req sc = do {
     x \<leftarrow> (case sc_lru sc of [] \<Rightarrow> None | x # _ \<Rightarrow> Some x);
     tree \<leftarrow> ocf_rb_tree_remove x (sc_tree sc);
     let stream = \<lparr>ss_last = (rq_byte_position req + rq_byte_length req) mod U64_MOD, ss_bytes = rq_byte_length req, ss_rw = rq_rw req mod 2\<rparr>;
     let sc = sc\<lparr>sc_streams := (sc_streams sc)(x := stream)\<rparr>;
     tree \<leftarrow> ocf_rb_tree_insert (cmp_with sc stream) x tree;
     Some (list_move_tail_lru x (sc\<lparr>sc_tree := tree\<rparr>)) }"

definition ocf_core_seq_cutoff_update :: "seq_conf \<Rightarrow> ocf_request \<Rightarrow> ocf_seq_cutoff \<Rightarrow> ocf_seq_cutoff option" where
  "ocf_core_seq_cutoff_update conf req sc =
     (if sq_policy conf = ocf_seq_cutoff_policy_never then Some sc
      else do {
        node \<leftarrow> ocf_rb_tree_find (cmp_with sc (req_item req)) (sc_tree sc);
        (case node of Some x \<Rightarrow> seq_continue x req sc | None \<Rightarrow> seq_replace req sc) })"

subsection \<open>Settings\<close>

definition cache_mngt_set_core_seq_cutoff_threshold :: "nat \<Rightarrow> seq_conf \<Rightarrow> int \<times> seq_conf" where
  "cache_mngt_set_core_seq_cutoff_threshold threshold conf =
     (if sq_threshold conf = threshold then (0, conf) else (0, conf\<lparr>sq_threshold := threshold\<rparr>))"

definition cache_mngt_set_core_seq_cutoff_policy :: "int \<Rightarrow> seq_conf \<Rightarrow> int \<times> seq_conf" where
  "cache_mngt_set_core_seq_cutoff_policy policy conf =
     (if sq_policy conf = policy then (0, conf)
      else if policy < 0 \<or> policy \<ge> ocf_seq_cutoff_policy_max then (- OCF_ERR_INVAL, conf)
      else (0, conf\<lparr>sq_policy := policy\<rparr>))"

definition cache_mngt_seq_cutoff_policy_get_name :: "int \<Rightarrow> string option" where
  "cache_mngt_seq_cutoff_policy_get_name policy =
     (if policy < 0 \<or> policy \<ge> ocf_seq_cutoff_policy_max then None
      else Some ([''always'', ''full'', ''never''] ! nat policy))"

text \<open>The visit of the open cores stops at the first error. \<open>opened\<close> tells which cores are there and open.\<close>

fun core_visit_loop :: "(core_id \<Rightarrow> bool) \<Rightarrow> (seq_conf \<Rightarrow> int \<times> seq_conf) \<Rightarrow> core_id list \<Rightarrow> (core_id \<Rightarrow> seq_conf) \<Rightarrow> int \<times> (core_id \<Rightarrow> seq_conf)" where
  "core_visit_loop opened visitor [] confs = (0, confs)"
| "core_visit_loop opened visitor (core # cores) confs =
     (if \<not> opened core then core_visit_loop opened visitor cores confs
      else let (result, conf) = visitor (confs core); confs = confs(core := conf)
           in if result \<noteq> 0 then (result, confs) else core_visit_loop opened visitor cores confs)"

definition ocf_core_visit :: "(core_id \<Rightarrow> bool) \<Rightarrow> (seq_conf \<Rightarrow> int \<times> seq_conf) \<Rightarrow> (core_id \<Rightarrow> seq_conf) \<Rightarrow> int \<times> (core_id \<Rightarrow> seq_conf)" where
  "ocf_core_visit opened visitor confs = core_visit_loop opened visitor [0..<OCF_CORE_MAX] confs"

definition ocf_mngt_core_set_seq_cutoff_threshold_all :: "(core_id \<Rightarrow> bool) \<Rightarrow> nat \<Rightarrow> (core_id \<Rightarrow> seq_conf) \<Rightarrow> int \<times> (core_id \<Rightarrow> seq_conf)" where
  "ocf_mngt_core_set_seq_cutoff_threshold_all opened thresh = ocf_core_visit opened (cache_mngt_set_core_seq_cutoff_threshold thresh)"

definition ocf_mngt_core_set_seq_cutoff_policy_all :: "(core_id \<Rightarrow> bool) \<Rightarrow> int \<Rightarrow> (core_id \<Rightarrow> seq_conf) \<Rightarrow> int \<times> (core_id \<Rightarrow> seq_conf)" where
  "ocf_mngt_core_set_seq_cutoff_policy_all opened policy = ocf_core_visit opened (cache_mngt_set_core_seq_cutoff_policy policy)"

subsection \<open>The streams in order\<close>

abbreviation skey :: "ocf_seq_cutoff_stream \<Rightarrow> nat \<times> u64" where
  "skey s \<equiv> (ss_rw s, ss_last s)"

abbreviation key :: "ocf_seq_cutoff \<Rightarrow> nat \<Rightarrow> nat \<times> u64" where
  "key sc x \<equiv> skey (sc_streams sc x)"

lemma cmp_key:
  "ocf_seq_cutoff_stream_cmp s1 s2 < 0 \<longleftrightarrow> skey s1 < skey s2" "ocf_seq_cutoff_stream_cmp s1 s2 = 0 \<longleftrightarrow> skey s1 = skey s2"
  "0 \<le> ocf_seq_cutoff_stream_cmp s1 s2 \<longleftrightarrow> skey s2 \<le> skey s1" "ocf_seq_cutoff_stream_cmp s1 s2 \<le> 0 \<longleftrightarrow> skey s1 \<le> skey s2"
  by (auto simp: ocf_seq_cutoff_stream_cmp_def)

lemma sorted_cmp:
  assumes "sorted (map (key sc) xs)"
  shows "sgn_sorted (cmp_with sc s) xs" "cut_sorted (cmp_with sc s) xs"
proof -
  have "sorted_wrt (\<lambda>x y. key sc x \<le> key sc y) xs" using assms by (simp only: sorted_map)
  then show "sgn_sorted (cmp_with sc s) xs"
    by (rule sorted_wrt_mono_rel [rotated]) (auto simp only: sgn_le_def cmp_key intro: less_le_trans order_trans)
  then show "cut_sorted (cmp_with sc s) xs" by (rule sgn_cut)
qed

lemma sorted_filter_key: "sorted (map (key sc) xs) \<Longrightarrow> sorted (map (key sc) (filter P xs))"
  by (simp only: sorted_map sorted_wrt_filter)

lemma insert_sorted_key:
  assumes "sorted (map (key sc) xs)" "sc_streams sc x = s"
  shows "sorted (map (key sc) (filter (\<lambda>y. \<not> cmp_with sc s y < 0) xs @ x # filter (\<lambda>y. cmp_with sc s y < 0) xs))"
proof -
  have "sorted_wrt (\<lambda>x y. key sc x \<le> key sc y) (filter (\<lambda>y. \<not> cmp_with sc s y < 0) xs @ x # filter (\<lambda>y. cmp_with sc s y < 0) xs)"
    using assms by (auto simp only: sorted_map sorted_wrt_append sorted_wrt.simps sorted_wrt_filter cmp_key not_less set_filter list.set)
  then show ?thesis by (simp only: sorted_map)
qed

text \<open>The tree holds the streams of a set in the order of their keys, the list has them by age.\<close>

definition seq_index :: "nat set \<Rightarrow> ocf_seq_cutoff \<Rightarrow> nat list \<Rightarrow> bool" where
  "seq_index S sc xs \<longleftrightarrow> rb_index (sc_tree sc) xs \<and> sorted (map (key sc) xs) \<and> set xs = S"

definition seq_rep :: "nat set \<Rightarrow> ocf_seq_cutoff \<Rightarrow> bool" where
  "seq_rep S sc \<longleftrightarrow> (\<exists>xs. seq_index S sc xs) \<and> distinct (sc_lru sc) \<and> set (sc_lru sc) = S"

abbreviation seq_ok :: "ocf_seq_cutoff \<Rightarrow> bool" where
  "seq_ok \<equiv> seq_rep {..<OCF_SEQ_CUTOFF_MAX_STREAMS}"

lemma find_stream:
  assumes "seq_index S sc xs"
  obtains r where "ocf_rb_tree_find (cmp_with sc s) (sc_tree sc) = Some r"
    "case r of None \<Rightarrow> \<forall>x \<in> S. key sc x \<noteq> skey s | Some x \<Rightarrow> x \<in> S \<and> key sc x = skey s"
proof -
  have i: "rb_index (sc_tree sc) xs" "sgn_sorted (cmp_with sc s) xs" and S: "set xs = S" using assms sorted_cmp(1) by (auto simp: seq_index_def)
  from rbi.look_index [OF i] obtain r where r: "ocf_rb_tree_find (cmp_with sc s) (sc_tree sc) = Some r"
    "case r of None \<Rightarrow> \<forall>x \<in> set xs. cmp_with sc s x \<noteq> 0 | Some x \<Rightarrow> x \<in> set xs \<and> cmp_with sc s x = 0" by blast
  show thesis by (rule that [OF r(1)]) (use r(2) S in \<open>cases r; auto simp only: cmp_key option.case\<close>)
qed

lemma seq_index_tree: "seq_index S (sc\<lparr>sc_tree := t\<rparr>) xs \<longleftrightarrow> rb_index t xs \<and> sorted (map (key sc) xs) \<and> set xs = S"
  by (simp add: seq_index_def)

lemma index_distinct: "rb_index t xs \<Longrightarrow> distinct xs"
  by (auto simp: rb_index_def tree_rep_def)

lemma keys_but_one:
  assumes "sorted (map (key sc) xs)"
  shows "sorted (map (key (sc\<lparr>sc_streams := (sc_streams sc)(x := s)\<rparr>)) (filter (\<lambda>y. y \<noteq> x) xs))"
proof -
  have "map (key (sc\<lparr>sc_streams := (sc_streams sc)(x := s)\<rparr>)) (filter (\<lambda>y. y \<noteq> x) xs) = map (key sc) (filter (\<lambda>y. y \<noteq> x) xs)"
    by (rule map_cong) auto
  then show ?thesis using sorted_filter_key [OF assms] by (simp only:)
qed

text \<open>A stream gets a new key and is put where it belongs.\<close>

lemma rekey:
  assumes i: "seq_index S sc xs" and x: "x \<in> S" and sc1: "sc1 = sc\<lparr>sc_streams := (sc_streams sc)(x := s)\<rparr>"
  obtains t1 t xs' where "ocf_rb_tree_remove x (sc_tree sc) = Some t1" "ocf_rb_tree_insert (cmp_with sc1 s) x t1 = Some t" "seq_index S (sc1\<lparr>sc_tree := t\<rparr>) xs'"
proof -
  let ?xs = "filter (\<lambda>y. y \<noteq> x) xs" and ?cmp = "cmp_with sc1 s"
  let ?xs' = "filter (\<lambda>y. \<not> ?cmp y < 0) ?xs @ x # filter (\<lambda>y. ?cmp y < 0) ?xs"
  have srt: "sorted (map (key sc1) ?xs)" using keys_but_one i by (simp only: seq_index_def sc1)
  have idx: "rb_index (sc_tree sc) xs" "x \<in> set xs" using i x by (simp_all add: seq_index_def)
  obtain t1 where t1: "ocf_rb_tree_remove x (sc_tree sc) = Some t1" "rb_index t1 ?xs" using rbi.rem_index [OF idx] by blast
  obtain t where t: "ocf_rb_tree_insert ?cmp x t1 = Some t" "rb_index t ?xs'" using rbi.ins_index [OF t1(2) _ sorted_cmp(2) [OF srt]] by auto
  have sorted': "sorted (map (key sc1) ?xs')" by (rule insert_sorted_key [OF srt]) (simp add: sc1)
  have set': "set ?xs' = S" using i x by (auto simp: seq_index_def)
  have "seq_index S (sc1\<lparr>sc_tree := t\<rparr>) ?xs'" unfolding seq_index_tree using t(2) sorted' set' by blast
  then show thesis by (rule that [OF t1(1) t(1)])
qed

lemma lru_moved:
  assumes "distinct (sc_lru sc)" "set (sc_lru sc) = S" "x \<in> S" "seq_index S sc xs"
  shows "seq_rep S (list_move_tail_lru x sc)"
proof -
  have "seq_index S (list_move_tail_lru x sc) xs" using assms(4) by (simp add: seq_index_def list_move_tail_lru_def)
  then show ?thesis using assms(1-3) by (auto simp: seq_rep_def list_move_tail_lru_def)
qed

lemma update_in_place:
  assumes i: "seq_index S sc xs" and sc1: "sc1 = sc\<lparr>sc_streams := (sc_streams sc)(x := s)\<rparr>" and fit: "fits_at (cmp_with sc s) x xs"
  shows "seq_index S sc1 xs"
proof -
  obtain as bs where xs: "xs = as @ x # bs" and le: "\<forall>a \<in> set as. key sc a \<le> skey s" "\<forall>a \<in> set bs. skey s \<le> key sc a"
    using fit unfolding fits_at_def cmp_key by blast
  have x: "x \<notin> set as" "x \<notin> set bs" using index_distinct [of "sc_tree sc" xs] i by (auto simp: seq_index_def xs)
  have same: "map (key sc1) zs = map (key sc) zs" if "x \<notin> set zs" for zs using that by (auto simp: sc1)
  have s: "sorted (map (key sc) as)" "sorted (map (key sc) bs)" "\<forall>a \<in> set as. \<forall>b \<in> set bs. key sc a \<le> key sc b"
    using i by (simp_all only: seq_index_def xs map_append list.map sorted_append sorted_simps list.set set_append set_map) blast+
  have "key sc1 x = skey s" by (simp add: sc1)
  then have "sorted (map (key sc1) xs)" unfolding xs map_append list.map same [OF x(1)] same [OF x(2)]
    using s le by (simp only: sorted_append sorted_simps list.set set_map ball_simps insert_iff) blast
  then show ?thesis using i by (simp add: seq_index_def sc1)
qed

subsection \<open>Following streams\<close>

text \<open>What the update does to the streams and to the list: \<open>x\<close> is the stream that the request continues or that it replaces.\<close>

definition followed :: "ocf_request \<Rightarrow> ocf_seq_cutoff \<Rightarrow> ocf_seq_cutoff \<Rightarrow> nat \<Rightarrow> bool" where
  "followed req sc sc' x \<longleftrightarrow> x \<in> set (sc_lru sc) \<and> sc_lru sc' = filter (\<lambda>y. y \<noteq> x) (sc_lru sc) @ [x] \<and>
     (let last = (rq_byte_position req + rq_byte_length req) mod U64_MOD; rw = rq_rw req mod 2 in
      if \<exists>y \<in> set (sc_lru sc). key sc y = (rw, rq_byte_position req)
      then key sc x = (rw, rq_byte_position req) \<and>
        sc_streams sc' = (sc_streams sc)(x := \<lparr>ss_last = last, ss_bytes = (ss_bytes (sc_streams sc x) + rq_byte_length req) mod U64_MOD, ss_rw = rw\<rparr>)
      else x = hd (sc_lru sc) \<and> sc_streams sc' = (sc_streams sc)(x := \<lparr>ss_last = last, ss_bytes = rq_byte_length req, ss_rw = rw\<rparr>))"

lemma continue_rep:
  assumes rep: "seq_rep S sc" and x: "x \<in> S" and k: "key sc x = skey (req_item req)"
  obtains sc' where "seq_continue x req sc = Some sc'" "seq_rep S sc'" "followed req sc sc' x"
proof -
  obtain xs where i: "seq_index S sc xs" and lru: "distinct (sc_lru sc)" "set (sc_lru sc) = S" using rep by (auto simp: seq_rep_def)
  let ?last = "(rq_byte_position req + rq_byte_length req) mod U64_MOD"
  define s where "s = (sc_streams sc x)\<lparr>ss_last := ?last, ss_bytes := (ss_bytes (sc_streams sc x) + rq_byte_length req) mod U64_MOD\<rparr>"
  define sc1 where "sc1 = sc\<lparr>sc_streams := (sc_streams sc)(x := s)\<rparr>"
  have cmp: "cmp_with sc ((req_item req)\<lparr>ss_last := ?last\<rparr>) = cmp_with sc s"
    using k by (simp add: ocf_seq_cutoff_stream_cmp_def s_def req_item_def fun_eq_iff)
  have ix: "rb_index (sc_tree sc) xs" "sgn_sorted (cmp_with sc s) xs" using i sorted_cmp(1) by (auto simp only: seq_index_def)
  obtain b where b: "ocf_rb_tree_can_update (cmp_with sc s) x (sc_tree sc) = Some b" "b \<longrightarrow> fits_at (cmp_with sc s) x xs"
    using rbi.can_upd_index [OF ix, of x] by blast
  obtain t1 t xs' where t: "ocf_rb_tree_remove x (sc_tree sc) = Some t1" "ocf_rb_tree_insert (cmp_with sc1 s) x t1 = Some t" "seq_index S (sc1\<lparr>sc_tree := t\<rparr>) xs'"
    by (rule rekey [OF i x sc1_def])
  define sc2 where "sc2 = (if b then sc1 else sc1\<lparr>sc_tree := t\<rparr>)"
  have i2: "\<exists>ys. seq_index S sc2 ys" using update_in_place [OF i sc1_def] b(2) t(3) by (auto simp: sc2_def)
  have l2: "sc_lru sc2 = sc_lru sc" "sc_streams sc2 = (sc_streams sc)(x := s)" by (simp_all add: sc2_def sc1_def)
  have "seq_continue x req sc = Some (list_move_tail_lru x sc2)"
    using b(1) t(1,2) by (simp add: seq_continue_def Let_def cmp s_def [symmetric] sc1_def [symmetric]) (simp add: sc2_def sc1_def)
  moreover have "seq_rep S (list_move_tail_lru x sc2)" using i2 lru_moved lru x by (metis l2(1))
  moreover have "followed req sc (list_move_tail_lru x sc2) x"
    using x k lru l2 by (auto simp: followed_def Let_def list_move_tail_lru_def s_def req_item_def)
  ultimately show thesis using that by blast
qed

lemma replace_rep:
  assumes rep: "seq_rep S sc" and ne: "S \<noteq> {}" and k: "\<forall>y \<in> S. key sc y \<noteq> skey (req_item req)"
  obtains sc' where "seq_replace req sc = Some sc'" "seq_rep S sc'" "followed req sc sc' (hd (sc_lru sc))"
proof -
  obtain xs where i: "seq_index S sc xs" and lru: "distinct (sc_lru sc)" "set (sc_lru sc) = S" using rep by (auto simp: seq_rep_def)
  obtain x l where x: "sc_lru sc = x # l" using lru(2) ne by (cases "sc_lru sc") auto
  define s where "s = \<lparr>ss_last = (rq_byte_position req + rq_byte_length req) mod U64_MOD, ss_bytes = rq_byte_length req, ss_rw = rq_rw req mod 2\<rparr>"
  define sc1 where "sc1 = sc\<lparr>sc_streams := (sc_streams sc)(x := s)\<rparr>"
  have xS: "x \<in> S" using lru x by auto
  obtain t1 t xs' where t: "ocf_rb_tree_remove x (sc_tree sc) = Some t1" "ocf_rb_tree_insert (cmp_with sc1 s) x t1 = Some t" "seq_index S (sc1\<lparr>sc_tree := t\<rparr>) xs'"
    by (rule rekey [OF i xS sc1_def])
  have "seq_replace req sc = Some (list_move_tail_lru x (sc1\<lparr>sc_tree := t\<rparr>))"
    using t(1,2) unfolding seq_replace_def s_def [symmetric] by (simp add: x Let_def sc1_def)
  moreover have "seq_rep S (list_move_tail_lru x (sc1\<lparr>sc_tree := t\<rparr>))" using lru_moved [OF _ _ xS t(3)] lru by (simp add: sc1_def)
  moreover have "followed req sc (list_move_tail_lru x (sc1\<lparr>sc_tree := t\<rparr>)) x"
    using k lru x by (auto simp: followed_def Let_def list_move_tail_lru_def s_def sc1_def req_item_def)
  ultimately show thesis using that x by simp
qed

lemma streams_nonempty: "{..<OCF_SEQ_CUTOFF_MAX_STREAMS} \<noteq> {}"
  by (simp add: OCF_SEQ_CUTOFF_MAX_STREAMS_def lessThan_empty_iff)

lemma update_rep:
  assumes rep: "seq_ok sc" and policy: "sq_policy conf \<noteq> ocf_seq_cutoff_policy_never"
  shows "\<exists>sc' x. ocf_core_seq_cutoff_update conf req sc = Some sc' \<and> seq_ok sc' \<and> followed req sc sc' x"
proof -
  obtain xs where i: "seq_index {..<OCF_SEQ_CUTOFF_MAX_STREAMS} sc xs" using rep by (auto simp: seq_rep_def)
  obtain r where r: "ocf_rb_tree_find (cmp_with sc (req_item req)) (sc_tree sc) = Some r"
    "case r of None \<Rightarrow> \<forall>x \<in> {..<OCF_SEQ_CUTOFF_MAX_STREAMS}. key sc x \<noteq> skey (req_item req) | Some x \<Rightarrow> x \<in> {..<OCF_SEQ_CUTOFF_MAX_STREAMS} \<and> key sc x = skey (req_item req)"
    by (rule find_stream [OF i])
  show ?thesis
  proof (cases r)
    case None
    then have none: "\<forall>y \<in> {..<OCF_SEQ_CUTOFF_MAX_STREAMS}. key sc y \<noteq> skey (req_item req)" using r(2) by (simp only: option.case)
    obtain sc' where "seq_replace req sc = Some sc'" "seq_ok sc'" "followed req sc sc' (hd (sc_lru sc))" by (rule replace_rep [OF rep streams_nonempty none])
    then show ?thesis using policy r(1) None by (auto simp: ocf_core_seq_cutoff_update_def)
  next
    case (Some x)
    then have x: "x \<in> {..<OCF_SEQ_CUTOFF_MAX_STREAMS}" "key sc x = skey (req_item req)" using r(2) by (simp_all only: option.case)
    obtain sc' where "seq_continue x req sc = Some sc'" "seq_ok sc'" "followed req sc sc' x" by (rule continue_rep [OF rep x])
    then show ?thesis using policy r(1) Some by (auto simp: ocf_core_seq_cutoff_update_def)
  qed
qed

text \<open>The answer for a request: it is cut off if a stream that it continues gets at least as long as the threshold.\<close>

lemma check_answer:
  assumes rep: "seq_ok sc"
    and on: "sq_policy conf = ocf_seq_cutoff_policy_always \<or> sq_policy conf = ocf_seq_cutoff_policy_full \<and> ocf_seq_cutoff_is_on c req"
  obtains b where "ocf_core_seq_cutoff_check conf c sc req = Some b"
    "if \<exists>x < OCF_SEQ_CUTOFF_MAX_STREAMS. key sc x = skey (req_item req)
     then \<exists>x < OCF_SEQ_CUTOFF_MAX_STREAMS. key sc x = skey (req_item req) \<and> b = (sq_threshold conf \<le> (ss_bytes (sc_streams sc x) + rq_byte_length req) mod U64_MOD)
     else \<not> b"
proof -
  obtain xs where i: "seq_index {..<OCF_SEQ_CUTOFF_MAX_STREAMS} sc xs" using rep by (auto simp: seq_rep_def)
  obtain r where r: "ocf_rb_tree_find (cmp_with sc (req_item req)) (sc_tree sc) = Some r"
    "case r of None \<Rightarrow> \<forall>x \<in> {..<OCF_SEQ_CUTOFF_MAX_STREAMS}. key sc x \<noteq> skey (req_item req) | Some x \<Rightarrow> x \<in> {..<OCF_SEQ_CUTOFF_MAX_STREAMS} \<and> key sc x = skey (req_item req)"
    by (rule find_stream [OF i])
  have c: "ocf_core_seq_cutoff_check conf c sc req = Some (case r of None \<Rightarrow> False
      | Some x \<Rightarrow> (ss_bytes (sc_streams sc x) + rq_byte_length req) mod U64_MOD \<ge> sq_threshold conf)" using on r(1) by (simp add: ocf_core_seq_cutoff_check_def)
  show thesis
  proof (cases r)
    case None
    then have "\<not> (\<exists>x < OCF_SEQ_CUTOFF_MAX_STREAMS. key sc x = skey (req_item req))" using r(2) by (simp only: option.case) blast
    then show thesis by (intro that [OF c]) (simp only: if_False None option.case not_False_eq_True)
  next
    case (Some x)
    then have "x < OCF_SEQ_CUTOFF_MAX_STREAMS \<and> key sc x = skey (req_item req)" using r(2) by (simp only: option.case lessThan_iff)
    then show thesis by (intro that [OF c]) (use Some in \<open>simp only: option.case; meson\<close>)
  qed
qed


subsection \<open>Start\<close>

lemma init_stream_rep:
  assumes rep: "seq_rep S sc" and i: "i \<notin> S"
  obtains sc' where "seq_init_stream i sc = Some sc'" "seq_rep (insert i S) sc'" "sc_streams sc' = (sc_streams sc)(i := \<lparr>ss_last = 0, ss_bytes = 0, ss_rw = 0\<rparr>)"
proof -
  obtain xs where ix: "seq_index S sc xs" and lru: "distinct (sc_lru sc)" "set (sc_lru sc) = S" using rep by (auto simp: seq_rep_def)
  define s :: ocf_seq_cutoff_stream where "s = \<lparr>ss_last = 0, ss_bytes = 0, ss_rw = 0\<rparr>"
  define sc1 where "sc1 = sc\<lparr>sc_streams := (sc_streams sc)(i := s)\<rparr>"
  let ?xs = "filter (\<lambda>y. \<not> cmp_with sc1 s y < 0) xs @ i # filter (\<lambda>y. cmp_with sc1 s y < 0) xs"
  have new: "i \<notin> set xs" and S: "set xs = S" and rb: "rb_index (sc_tree sc) xs" and srt0: "sorted (map (key sc) xs)" using ix i by (auto simp only: seq_index_def)
  have "map (key sc1) xs = map (key sc) xs" using new by (intro map_cong) (auto simp: sc1_def)
  with srt0 have srt: "sorted (map (key sc1) xs)" by (simp only:)
  obtain t where t: "ocf_rb_tree_insert (cmp_with sc1 s) i (sc_tree sc) = Some t" "rb_index t ?xs"
    using rbi.ins_index [OF rb new sorted_cmp(2) [OF srt]] by blast
  let ?sc = "sc1\<lparr>sc_tree := t, sc_lru := sc_lru sc1 @ [i]\<rparr>"
  have "seq_index (insert i S) (sc1\<lparr>sc_tree := t\<rparr>) ?xs" unfolding seq_index_tree
    using t(2) insert_sorted_key [OF srt, of i s] S by (auto simp: sc1_def)
  then have "seq_rep (insert i S) ?sc" using lru i unfolding seq_rep_def seq_index_def by (auto simp: sc1_def)
  moreover have "seq_init_stream i sc = Some ?sc" using t(1) by (simp add: seq_init_stream_def Let_def s_def [symmetric]) (simp add: sc1_def)
  ultimately show thesis using that by (simp add: sc1_def s_def)
qed

lemma init_rep:
  "\<exists>sc'. fold_opt seq_init_stream [0..<n] (sc\<lparr>sc_tree := ocf_rb_tree_init t, sc_lru := []\<rparr>) = Some sc' \<and> seq_rep {..<n} sc' \<and>
    (\<forall>i < n. sc_streams sc' i = \<lparr>ss_last = 0, ss_bytes = 0, ss_rw = 0\<rparr>)"
proof (induction n)
  case 0
  have "rb_index (ocf_rb_tree_init t) []" unfolding rb_index_def by (intro exI [of _ Leaf]) (simp add: tree_rep_def ocf_rb_tree_init_def rb_tree_def)
  then show ?case by (auto simp: seq_rep_def seq_index_def)
next
  case (Suc n)
  then obtain sc1 where sc1: "fold_opt seq_init_stream [0..<n] (sc\<lparr>sc_tree := ocf_rb_tree_init t, sc_lru := []\<rparr>) = Some sc1" "seq_rep {..<n} sc1"
    "\<forall>i < n. sc_streams sc1 i = \<lparr>ss_last = 0, ss_bytes = 0, ss_rw = 0\<rparr>" by blast
  obtain sc2 where sc2: "seq_init_stream n sc1 = Some sc2" "seq_rep (insert n {..<n}) sc2" "sc_streams sc2 = (sc_streams sc1)(n := \<lparr>ss_last = 0, ss_bytes = 0, ss_rw = 0\<rparr>)"
    by (rule init_stream_rep [OF sc1(2), of n]) auto
  show ?case by (rule exI [of _ sc2]) (use sc1 sc2 in \<open>auto simp: fold_opt_append lessThan_Suc less_Suc_eq\<close>)
qed

subsection \<open>Detecting a sequential stream\<close>

fun sequential :: "nat \<Rightarrow> u64 \<Rightarrow> ocf_request list \<Rightarrow> bool" where
  "sequential rw p [] = True"
| "sequential rw p (r # rs) \<longleftrightarrow> rq_rw r mod 2 = rw \<and> rq_byte_position r = p \<and> sequential rw (p + rq_byte_length r) rs"

abbreviation total :: "ocf_request list \<Rightarrow> nat" where
  "total rs \<equiv> sum_list (map rq_byte_length rs)"

text \<open>The stream \<open>x\<close> ends at \<open>p\<close> after \<open>n\<close> bytes, and no other of its direction ends between \<open>p\<close> and \<open>e\<close>.\<close>

definition tracked_by :: "nat \<Rightarrow> nat \<Rightarrow> u64 \<Rightarrow> u64 \<Rightarrow> nat \<Rightarrow> ocf_seq_cutoff \<Rightarrow> bool" where
  "tracked_by rw n p e x sc \<longleftrightarrow> x < OCF_SEQ_CUTOFF_MAX_STREAMS \<and> sc_streams sc x = \<lparr>ss_last = p, ss_bytes = n, ss_rw = rw\<rparr> \<and>
     (\<forall>y < OCF_SEQ_CUTOFF_MAX_STREAMS. y \<noteq> x \<longrightarrow> \<not> (ss_rw (sc_streams sc y) = rw \<and> p \<le> ss_last (sc_streams sc y) \<and> ss_last (sc_streams sc y) \<le> e))"

lemma lru_set: "seq_ok sc \<Longrightarrow> x \<in> set (sc_lru sc) \<longleftrightarrow> x < OCF_SEQ_CUTOFF_MAX_STREAMS"
  by (auto simp: seq_rep_def)

lemma tracked_step:
  assumes rep: "seq_ok sc" and policy: "sq_policy conf \<noteq> ocf_seq_cutoff_policy_never" and tr: "tracked_by rw n p e x sc"
    and r: "rq_rw r mod 2 = rw" "rq_byte_position r = p" and e: "p + rq_byte_length r \<le> e" "e < U64_MOD" and n: "n + rq_byte_length r < U64_MOD"
  obtains sc' where "ocf_core_seq_cutoff_update conf r sc = Some sc'" "seq_ok sc'" "tracked_by rw (n + rq_byte_length r) (p + rq_byte_length r) e x sc'"
proof -
  obtain sc' y where u: "ocf_core_seq_cutoff_update conf r sc = Some sc'" "seq_ok sc'" "followed r sc sc' y" using update_rep [OF rep policy] by blast
  have x: "x \<in> set (sc_lru sc)" "key sc x = (rw, p)" using tr lru_set [OF rep] by (simp_all add: tracked_by_def)
  then have ex: "\<exists>z \<in> set (sc_lru sc). key sc z = (rw, p)" by blast
  then have y: "y \<in> set (sc_lru sc)" "key sc y = (rw, p)"
    and st: "sc_streams sc' = (sc_streams sc)(y := \<lparr>ss_last = p + rq_byte_length r, ss_bytes = (ss_bytes (sc_streams sc y) + rq_byte_length r) mod U64_MOD, ss_rw = rw\<rparr>)"
    using u(3) r e by (auto simp only: followed_def Let_def r if_True mod_less)
  have "y = x" using tr y lru_set [OF rep] e unfolding tracked_by_def by fastforce
  then have "tracked_by rw (n + rq_byte_length r) (p + rq_byte_length r) e x sc'" using tr st n by (auto simp: tracked_by_def)
  then show thesis by (rule that [OF u(1,2)])
qed

lemma tracked_steps:
  assumes "seq_ok sc" "sq_policy conf \<noteq> ocf_seq_cutoff_policy_never" "tracked_by rw n p e x sc" "sequential rw p rs" "p + total rs \<le> e" "e < U64_MOD" "n + total rs < U64_MOD"
  shows "\<exists>sc'. fold_opt (ocf_core_seq_cutoff_update conf) rs sc = Some sc' \<and> seq_ok sc' \<and> tracked_by rw (n + total rs) (p + total rs) e x sc'"
  using assms
proof (induction rs arbitrary: n p sc)
  case (Cons r rs)
  have r: "rq_rw r mod 2 = rw" "rq_byte_position r = p" "sequential rw (p + rq_byte_length r) rs" using Cons.prems(4) by auto
  obtain sc1 where sc1: "ocf_core_seq_cutoff_update conf r sc = Some sc1" "seq_ok sc1" "tracked_by rw (n + rq_byte_length r) (p + rq_byte_length r) e x sc1"
    by (rule tracked_step [OF Cons.prems(1-3) r(1,2)]) (use Cons.prems in auto)
  show ?case using Cons.IH [OF sc1(2) Cons.prems(2) sc1(3) r(3)] Cons.prems sc1(1) by (simp add: add.assoc)
qed simp

subsection \<open>Properties\<close>

text \<open>The state after the start of a core is consistent, and all its streams are empty.\<close>

theorem seq_init_ok:
  "\<exists>sc'. ocf_core_seq_cutoff_init sc = Some sc' \<and> seq_ok sc' \<and> (\<forall>i < OCF_SEQ_CUTOFF_MAX_STREAMS. sc_streams sc' i = \<lparr>ss_last = 0, ss_bytes = 0, ss_rw = 0\<rparr>)"
  unfolding ocf_core_seq_cutoff_init_def by (rule init_rep)

text \<open>
  C34. Following the streams of requests. In a consistent state, and unless the policy is never, the update for a request ends without following a null
  pointer and leaves a consistent state, in which one stream has changed and is the youngest. If some stream of the direction of the request ends where the request starts,
  it is such a stream, and it is extended by the request. Otherwise it is the stream that was not used for the longest time, and it now consists of the request.
\<close>

theorem seq_update_follows:
  assumes rep: "seq_ok sc" and policy: "sq_policy conf \<noteq> ocf_seq_cutoff_policy_never"
  shows "\<exists>sc' x. ocf_core_seq_cutoff_update conf req sc = Some sc' \<and> seq_ok sc' \<and> followed req sc sc' x"
  by (rule update_rep [OF assms])

text \<open>
  C35. A sequential stream is detected. Requests of one direction follow each other without a gap, from an address \<open>p\<close> on, and no stream of that direction that is
  known before ends at one of their addresses. Then the updates for them end in a consistent state, in which a further request that continues them is cut off exactly if their
  bytes and its own reach the threshold, with the policy always.
\<close>

theorem seq_stream_detected:
  assumes rep: "seq_ok sc" and policy: "sq_policy conf = ocf_seq_cutoff_policy_always" and rs: "rs \<noteq> []" "sequential rw p rs"
    and free: "\<forall>y < OCF_SEQ_CUTOFF_MAX_STREAMS. \<not> (ss_rw (sc_streams sc y) = rw \<and> p \<le> ss_last (sc_streams sc y) \<and> ss_last (sc_streams sc y) \<le> p + total rs)"
    and req: "rq_rw req mod 2 = rw" "rq_byte_position req = p + total rs" and fits: "p + total rs + rq_byte_length req < U64_MOD"
  shows "\<exists>sc'. fold_opt (ocf_core_seq_cutoff_update conf) rs sc = Some sc' \<and> seq_ok sc' \<and>
    ocf_core_seq_cutoff_check conf c sc' req = Some (sq_threshold conf \<le> total rs + rq_byte_length req)"
proof -
  have np: "sq_policy conf \<noteq> ocf_seq_cutoff_policy_never" using policy by (simp add: policy_defs)
  obtain r rest where r: "rs = r # rest" using rs by (cases rs) auto
  let ?e = "p + total rs"
  obtain sc1 x where sc1: "ocf_core_seq_cutoff_update conf r sc = Some sc1" "seq_ok sc1" "followed r sc sc1 x" using update_rep [OF rep np] by blast
  have none: "\<not> (\<exists>y \<in> set (sc_lru sc). key sc y = (rw, p))" using free lru_set [OF rep] by (auto simp: r)
  have x: "x < OCF_SEQ_CUTOFF_MAX_STREAMS" and st: "sc_streams sc1 = (sc_streams sc)(x := \<lparr>ss_last = p + rq_byte_length r, ss_bytes = rq_byte_length r, ss_rw = rw\<rparr>)"
    using sc1(3) rs(2) none lru_set [OF rep, of x] fits by (auto simp: followed_def Let_def r)
  have "tracked_by rw (rq_byte_length r) (p + rq_byte_length r) ?e x sc1" using x st free by (auto simp: tracked_by_def r)
  then obtain sc2 where sc2: "fold_opt (ocf_core_seq_cutoff_update conf) rest sc1 = Some sc2" "seq_ok sc2" "tracked_by rw (total rs) ?e ?e x sc2"
    using tracked_steps [OF sc1(2) np, of rw "rq_byte_length r" "p + rq_byte_length r" ?e x rest] rs(2) fits by (auto simp: r add.assoc)
  have k: "skey (req_item req) = (rw, ?e)" using req by (simp add: req_item_def)
  have only: "y < OCF_SEQ_CUTOFF_MAX_STREAMS \<Longrightarrow> key sc2 y = (rw, ?e) \<Longrightarrow> y = x" for y using sc2(3) unfolding tracked_by_def by fastforce
  have x2: "x < OCF_SEQ_CUTOFF_MAX_STREAMS" "key sc2 x = (rw, ?e)" "ss_bytes (sc_streams sc2 x) = total rs" using sc2(3) by (auto simp: tracked_by_def)
  obtain b where b: "ocf_core_seq_cutoff_check conf c sc2 req = Some b"
    "if \<exists>x < OCF_SEQ_CUTOFF_MAX_STREAMS. key sc2 x = skey (req_item req)
     then \<exists>x < OCF_SEQ_CUTOFF_MAX_STREAMS. key sc2 x = skey (req_item req) \<and> b = (sq_threshold conf \<le> (ss_bytes (sc_streams sc2 x) + rq_byte_length req) mod U64_MOD)
     else \<not> b" by (rule check_answer [OF sc2(2), of conf c req]) (use policy in simp)
  have "b = (sq_threshold conf \<le> (total rs + rq_byte_length req) mod U64_MOD)" using b(2) x2 only unfolding k by (metis (no_types, lifting))
  then have "b = (sq_threshold conf \<le> total rs + rq_byte_length req)" using fits by simp
  then show ?thesis using sc1(1) sc2(1,2) b(1) by (simp add: r)
qed

subsection \<open>Examples\<close>

text \<open>A core that has just been added, with reads of 4 KiB one after the other.\<close>

definition seq_zero :: ocf_seq_cutoff where
  "seq_zero = \<lparr>sc_streams = (\<lambda>_. \<lparr>ss_last = 7, ss_bytes = 7, ss_rw = 1\<rparr>), sc_tree = example_rb_mem, sc_lru = []\<rparr>"

definition seq_read :: "nat \<Rightarrow> ocf_request" where
  "seq_read i = request_zero\<lparr>rq_byte_position := i * 4096, rq_byte_length := 4096\<rparr>"

lemma seq_read_simps [simp]: "rq_rw (seq_read i) = 0" "rq_byte_position (seq_read i) = i * 4096" "rq_byte_length (seq_read i) = 4096"
  by (simp_all add: seq_read_def request_zero_def)

theorem seq_update_follows_witness:
  "\<exists>sc sc' x. ocf_core_seq_cutoff_init seq_zero = Some sc \<and>
    ocf_core_seq_cutoff_update \<lparr>sq_threshold = 12288, sq_policy = 0\<rparr> (seq_read 1) sc = Some sc' \<and> seq_ok sc' \<and> followed (seq_read 1) sc sc' x"
proof -
  obtain sc where sc: "ocf_core_seq_cutoff_init seq_zero = Some sc" "seq_ok sc" using seq_init_ok by blast
  show ?thesis using seq_update_follows [OF sc(2), of "\<lparr>sq_threshold = 12288, sq_policy = 0\<rparr>" "seq_read 1"] sc(1) by (auto simp: policy_defs)
qed

theorem seq_stream_detected_witness:
  "\<exists>sc sc'. ocf_core_seq_cutoff_init seq_zero = Some sc \<and>
    fold_opt (ocf_core_seq_cutoff_update \<lparr>sq_threshold = 12288, sq_policy = 0\<rparr>) [seq_read 1, seq_read 2] sc = Some sc' \<and> seq_ok sc' \<and>
    ocf_core_seq_cutoff_check \<lparr>sq_threshold = 12288, sq_policy = 0\<rparr> example_cache sc' (seq_read 3) = Some True"
proof -
  obtain sc where sc: "ocf_core_seq_cutoff_init seq_zero = Some sc" "seq_ok sc"
    "\<forall>i < OCF_SEQ_CUTOFF_MAX_STREAMS. sc_streams sc i = \<lparr>ss_last = 0, ss_bytes = 0, ss_rw = 0\<rparr>" using seq_init_ok by blast
  have free: "\<forall>y < OCF_SEQ_CUTOFF_MAX_STREAMS. \<not> (ss_rw (sc_streams sc y) = 0 \<and> 4096 \<le> ss_last (sc_streams sc y) \<and>
    ss_last (sc_streams sc y) \<le> 4096 + total [seq_read 1, seq_read 2])" using sc(3) by auto
  show ?thesis using seq_stream_detected [OF sc(2) _ _ _ free, of "\<lparr>sq_threshold = 12288, sq_policy = 0\<rparr>" "seq_read 3" example_cache] sc(1)
    by (auto simp: policy_defs)
qed

end
