(* ===== verification/Stats.thy ===== *)
theory Stats
  imports OCF_Prelude
begin

section \<open>Statistics\<close>

text \<open>
  Model of \<^verbatim>\<open>src/ocf_stats.c\<close> and of the parts of \<^verbatim>\<open>src/ocf_stats_builder.c\<close> and \<^verbatim>\<open>src/utils/utils_stats.h\<close> that turn
  counters into reports. Every core keeps counters for each io class; the engines bump them, the reports add
  them up over the classes and derive hits, totals and fractions. The byte and request counters have 64 bits, the
  error counters 32.
\<close>

subsection \<open>Counters\<close>

record ocf_counters_block =
  read_bytes :: nat
  write_bytes :: nat

record ocf_counters_error =
  err_read :: nat
  err_write :: nat

record ocf_counters_req =
  partial_miss :: nat
  full_miss :: nat
  req_total :: nat
  pass_through :: nat

record ocf_counters_part =
  read_reqs :: ocf_counters_req
  write_reqs :: ocf_counters_req
  blocks :: ocf_counters_block
  core_blocks :: ocf_counters_block
  cache_blocks :: ocf_counters_block

record ocf_counters_core =
  core_errors :: ocf_counters_error
  cache_errors :: ocf_counters_error
  part_counters :: "part_id \<Rightarrow> ocf_counters_part"

definition ocf_stats_req_init :: ocf_counters_req where
  "ocf_stats_req_init = \<lparr>partial_miss = 0, full_miss = 0, req_total = 0, pass_through = 0\<rparr>"

definition ocf_stats_block_init :: ocf_counters_block where
  "ocf_stats_block_init = \<lparr>read_bytes = 0, write_bytes = 0\<rparr>"

definition ocf_stats_part_init :: ocf_counters_part where
  "ocf_stats_part_init = \<lparr>read_reqs = ocf_stats_req_init, write_reqs = ocf_stats_req_init, blocks = ocf_stats_block_init,
     core_blocks = ocf_stats_block_init, cache_blocks = ocf_stats_block_init\<rparr>"

definition ocf_stats_error_init :: ocf_counters_error where
  "ocf_stats_error_init = \<lparr>err_read = 0, err_write = 0\<rparr>"

definition ocf_core_stats_initialize :: "ocf_counters_core \<Rightarrow> ocf_counters_core" where
  "ocf_core_stats_initialize core = core\<lparr>cache_errors := ocf_stats_error_init, core_errors := ocf_stats_error_init,
     part_counters := (\<lambda>i. if i < OCF_IO_CLASS_MAX then ocf_stats_part_init else part_counters core i)\<rparr>"

text \<open>\<open>valid\<close> is the bitmap of the cores that exist.\<close>

definition ocf_core_stats_initialize_all ::
  "(core_id \<Rightarrow> bool) \<Rightarrow> (core_id \<Rightarrow> ocf_counters_core) \<Rightarrow> core_id \<Rightarrow> ocf_counters_core" where
  "ocf_core_stats_initialize_all valid cores =
     fold (\<lambda>id cores. if valid id then cores(id := ocf_core_stats_initialize (cores id)) else cores) [0..<OCF_CORE_MAX] cores"

subsection \<open>Updates\<close>

text \<open>Directions other than read (0) and write (1) are a bug.\<close>

definition ocf_stats_block_update :: "nat \<Rightarrow> u64 \<Rightarrow> ocf_counters_block \<Rightarrow> ocf_counters_block option" where
  "ocf_stats_block_update dir bytes counters =
     (if dir = 0 then Some (counters\<lparr>read_bytes := (read_bytes counters + bytes) mod U64_MOD\<rparr>)
      else if dir = 1 then Some (counters\<lparr>write_bytes := (write_bytes counters + bytes) mod U64_MOD\<rparr>)
      else None)"

definition upd_part :: "part_id \<Rightarrow> (ocf_counters_part \<Rightarrow> ocf_counters_part option) \<Rightarrow> ocf_counters_core \<Rightarrow> ocf_counters_core option" where
  "upd_part p f core = do {
     bug_on (p \<ge> OCF_IO_CLASS_MAX);
     c \<leftarrow> f (part_counters core p);
     Some (core\<lparr>part_counters := (part_counters core)(p := c)\<rparr>) }"

definition ocf_core_stats_vol_block_update :: "part_id \<Rightarrow> nat \<Rightarrow> u64 \<Rightarrow> ocf_counters_core \<Rightarrow> ocf_counters_core option" where
  "ocf_core_stats_vol_block_update part_id dir bytes = upd_part part_id (\<lambda>c. do {
     b \<leftarrow> ocf_stats_block_update dir bytes (blocks c);
     Some (c\<lparr>blocks := b\<rparr>) })"

definition ocf_core_stats_cache_block_update :: "part_id \<Rightarrow> nat \<Rightarrow> u64 \<Rightarrow> ocf_counters_core \<Rightarrow> ocf_counters_core option" where
  "ocf_core_stats_cache_block_update part_id dir bytes = upd_part part_id (\<lambda>c. do {
     b \<leftarrow> ocf_stats_block_update dir bytes (cache_blocks c);
     Some (c\<lparr>cache_blocks := b\<rparr>) })"

definition ocf_core_stats_core_block_update :: "part_id \<Rightarrow> nat \<Rightarrow> u64 \<Rightarrow> ocf_counters_core \<Rightarrow> ocf_counters_core option" where
  "ocf_core_stats_core_block_update part_id dir bytes = upd_part part_id (\<lambda>c. do {
     b \<leftarrow> ocf_stats_block_update dir bytes (core_blocks c);
     Some (c\<lparr>core_blocks := b\<rparr>) })"

definition upd_reqs :: "nat \<Rightarrow> (ocf_counters_req \<Rightarrow> ocf_counters_req) \<Rightarrow> ocf_counters_part \<Rightarrow> ocf_counters_part option" where
  "upd_reqs dir f c =
     (if dir = 0 then Some (c\<lparr>read_reqs := f (read_reqs c)\<rparr>)
      else if dir = 1 then Some (c\<lparr>write_reqs := f (write_reqs c)\<rparr>)
      else None)"

definition ocf_core_stats_request_update ::
  "part_id \<Rightarrow> nat \<Rightarrow> u64 \<Rightarrow> u64 \<Rightarrow> ocf_counters_core \<Rightarrow> ocf_counters_core option" where
  "ocf_core_stats_request_update part_id dir hit_no core_line_count = upd_part part_id (upd_reqs dir (\<lambda>r.
     let r = r\<lparr>req_total := (req_total r + 1) mod U64_MOD\<rparr>
     in if hit_no = 0 then r\<lparr>full_miss := (full_miss r + 1) mod U64_MOD\<rparr>
        else if hit_no < core_line_count then r\<lparr>partial_miss := (partial_miss r + 1) mod U64_MOD\<rparr>
        else r))"

definition ocf_core_stats_request_pt_update ::
  "part_id \<Rightarrow> nat \<Rightarrow> u64 \<Rightarrow> u64 \<Rightarrow> ocf_counters_core \<Rightarrow> ocf_counters_core option" where
  "ocf_core_stats_request_pt_update part_id dir hit_no core_line_count =
     upd_part part_id (upd_reqs dir (\<lambda>r. r\<lparr>pass_through := (pass_through r + 1) mod U64_MOD\<rparr>))"

definition ocf_core_stats_error_update :: "nat \<Rightarrow> ocf_counters_error \<Rightarrow> ocf_counters_error option" where
  "ocf_core_stats_error_update dir counters =
     (if dir = 0 then Some (counters\<lparr>err_read := (err_read counters + 1) mod U32_MOD\<rparr>)
      else if dir = 1 then Some (counters\<lparr>err_write := (err_write counters + 1) mod U32_MOD\<rparr>)
      else None)"

definition ocf_core_stats_core_error_update :: "nat \<Rightarrow> ocf_counters_core \<Rightarrow> ocf_counters_core option" where
  "ocf_core_stats_core_error_update dir core = do {
     e \<leftarrow> ocf_core_stats_error_update dir (core_errors core);
     Some (core\<lparr>core_errors := e\<rparr>) }"

definition ocf_core_stats_cache_error_update :: "nat \<Rightarrow> ocf_counters_core \<Rightarrow> ocf_counters_core option" where
  "ocf_core_stats_cache_error_update dir core = do {
     e \<leftarrow> ocf_core_stats_error_update dir (cache_errors core);
     Some (core\<lparr>cache_errors := e\<rparr>) }"

subsection \<open>Reports\<close>

record ocf_stats_core =
  sc_cache_occupancy :: nat
  sc_dirty :: nat
  sc_read_reqs :: ocf_counters_req
  sc_write_reqs :: ocf_counters_req
  sc_cache_volume :: ocf_counters_block
  sc_core_volume :: ocf_counters_block
  sc_core :: ocf_counters_block
  sc_cache_errors :: ocf_counters_error
  sc_core_errors :: ocf_counters_error

definition accum_req_stats :: "ocf_counters_req \<Rightarrow> ocf_counters_req \<Rightarrow> ocf_counters_req" where
  "accum_req_stats dest from = \<lparr>partial_miss = (partial_miss dest + partial_miss from) mod U64_MOD,
     full_miss = (full_miss dest + full_miss from) mod U64_MOD,
     req_total = (req_total dest + req_total from) mod U64_MOD,
     pass_through = (pass_through dest + pass_through from) mod U64_MOD\<rparr>"

definition accum_block_stats :: "ocf_counters_block \<Rightarrow> ocf_counters_block \<Rightarrow> ocf_counters_block" where
  "accum_block_stats dest from = \<lparr>read_bytes = (read_bytes dest + read_bytes from) mod U64_MOD,
     write_bytes = (write_bytes dest + write_bytes from) mod U64_MOD\<rparr>"

text \<open>
  \<open>clines p\<close> are the cached and the dirty lines of the core in class \<open>p\<close>, read from the run-time metadata.
\<close>

definition get_stats_step :: "(part_id \<Rightarrow> int \<times> int) \<Rightarrow> ocf_counters_core \<Rightarrow> part_id \<Rightarrow> ocf_stats_core \<Rightarrow> ocf_stats_core" where
  "get_stats_step clines core i s =
     (let curr = part_counters core i
      in s\<lparr>sc_read_reqs := accum_req_stats (sc_read_reqs s) (read_reqs curr),
           sc_write_reqs := accum_req_stats (sc_write_reqs s) (write_reqs curr),
           sc_core := accum_block_stats (sc_core s) (blocks curr),
           sc_core_volume := accum_block_stats (sc_core_volume s) (core_blocks curr),
           sc_cache_volume := accum_block_stats (sc_cache_volume s) (cache_blocks curr),
           sc_cache_occupancy := nat ((int (sc_cache_occupancy s) + fst (clines i)) mod int U32_MOD),
           sc_dirty := nat ((int (sc_dirty s) + snd (clines i)) mod int U32_MOD)\<rparr>)"

definition ocf_core_get_stats :: "(part_id \<Rightarrow> int \<times> int) \<Rightarrow> ocf_counters_core \<Rightarrow> ocf_stats_core" where
  "ocf_core_get_stats clines core = fold (get_stats_step clines core) [0..<OCF_IO_CLASS_MAX]
     \<lparr>sc_cache_occupancy = 0, sc_dirty = 0, sc_read_reqs = ocf_stats_req_init, sc_write_reqs = ocf_stats_req_init,
      sc_cache_volume = ocf_stats_block_init, sc_core_volume = ocf_stats_block_init, sc_core = ocf_stats_block_init,
      sc_cache_errors = cache_errors core, sc_core_errors = core_errors core\<rparr>"

text \<open>The sum of partial and full misses and of all reads of a core, for the miss ratio the multi-factor monitor reads.\<close>

definition miss_counts :: "ocf_counters_core \<Rightarrow> nat \<times> nat" where
  "miss_counts core = fold (\<lambda>i (misses, total).
     let curr = read_reqs (part_counters core i)
     in (((misses + partial_miss curr) mod U64_MOD + full_miss curr) mod U64_MOD, (total + req_total curr) mod U64_MOD))
     [0..<OCF_IO_CLASS_MAX] (0, 0)"

record ocf_stat =
  st_value :: nat
  st_fraction :: nat

definition fraction :: "u64 \<Rightarrow> u64 \<Rightarrow> u64" where
  "fraction numerator denominator =
     (if denominator \<noteq> 0 then (10000 * numerator mod U64_MOD) div denominator else 0)"

definition lines4k :: "u64 \<Rightarrow> nat \<Rightarrow> u64" where
  "lines4k size_lines cache_line_size = size_lines * (cache_line_size div 4096) mod U64_MOD"

definition bytes4k :: "u64 \<Rightarrow> u64" where
  "bytes4k bytes = ((bytes + 4095) mod U64_MOD) div 4096"

definition set_stat :: "u64 \<Rightarrow> u64 \<Rightarrow> ocf_stat" where
  "set_stat value denominator = \<lparr>st_value = value, st_fraction = fraction value denominator\<rparr>"

record ocf_stats_requests =
  rd_hits :: ocf_stat
  rd_partial_misses :: ocf_stat
  rd_full_misses :: ocf_stat
  rd_total :: ocf_stat
  wr_hits :: ocf_stat
  wr_partial_misses :: ocf_stat
  wr_full_misses :: ocf_stat
  wr_total :: ocf_stat
  rd_pt :: ocf_stat
  wr_pt :: ocf_stat
  serviced :: ocf_stat
  all_reqs :: ocf_stat

definition u64_sub :: "u64 \<Rightarrow> u64 \<Rightarrow> u64" where
  "u64_sub a b = (a + U64_MOD - b) mod U64_MOD"

definition fill_req :: "ocf_counters_req \<Rightarrow> ocf_counters_req \<Rightarrow> ocf_stats_requests" where
  "fill_req rd wr =
     (let serviced = (req_total rd + req_total wr) mod U64_MOD;
          total = ((serviced + pass_through rd) mod U64_MOD + pass_through wr) mod U64_MOD
      in \<lparr>rd_hits = set_stat (u64_sub (req_total rd) ((full_miss rd + partial_miss rd) mod U64_MOD)) total,
          rd_partial_misses = set_stat (partial_miss rd) total,
          rd_full_misses = set_stat (full_miss rd) total,
          rd_total = set_stat (req_total rd) total,
          wr_hits = set_stat (u64_sub (req_total wr) ((full_miss wr + partial_miss wr) mod U64_MOD)) total,
          wr_partial_misses = set_stat (partial_miss wr) total,
          wr_full_misses = set_stat (full_miss wr) total,
          wr_total = set_stat (req_total wr) total,
          rd_pt = set_stat (pass_through rd) total,
          wr_pt = set_stat (pass_through wr) total,
          serviced = set_stat serviced total,
          all_reqs = set_stat total total\<rparr>)"

record ocf_stats_blocks =
  core_volume_rd :: ocf_stat
  core_volume_wr :: ocf_stat
  core_volume_total :: ocf_stat
  cache_volume_rd :: ocf_stat
  cache_volume_wr :: ocf_stat
  cache_volume_total :: ocf_stat
  volume_rd :: ocf_stat
  volume_wr :: ocf_stat
  volume_total :: ocf_stat

definition fill_blocks :: "ocf_counters_block \<Rightarrow> ocf_counters_block \<Rightarrow> ocf_counters_block \<Rightarrow> ocf_stats_blocks" where
  "fill_blocks core_vol cache_vol vol =
     (let crd = bytes4k (read_bytes core_vol); cwr = bytes4k (write_bytes core_vol); ct = (crd + cwr) mod U64_MOD;
          hrd = bytes4k (read_bytes cache_vol); hwr = bytes4k (write_bytes cache_vol); ht = (hrd + hwr) mod U64_MOD;
          rd = bytes4k (read_bytes vol); wr = bytes4k (write_bytes vol); t = (rd + wr) mod U64_MOD
      in \<lparr>core_volume_rd = set_stat crd ct, core_volume_wr = set_stat cwr ct, core_volume_total = set_stat ct ct,
          cache_volume_rd = set_stat hrd ht, cache_volume_wr = set_stat hwr ht, cache_volume_total = set_stat ht ht,
          volume_rd = set_stat rd t, volume_wr = set_stat wr t, volume_total = set_stat t t\<rparr>)"

subsection \<open>Reports count the history exactly\<close>

text \<open>
  What the engines report: a request served by the cache with \<open>hit_no\<close> of its lines hit, a request passed through to the core,
  bytes moved, and errors.
\<close>

datatype stat_event =
    Served part_id nat nat nat
  | PassedThrough part_id nat nat nat
  | VolBytes part_id nat nat
  | CacheBytes part_id nat nat
  | CoreBytes part_id nat nat
  | CoreError nat
  | CacheError nat

primrec stat_update :: "stat_event \<Rightarrow> ocf_counters_core \<Rightarrow> ocf_counters_core option" where
  "stat_update (Served p dir hit n) = ocf_core_stats_request_update p dir hit n"
| "stat_update (PassedThrough p dir hit n) = ocf_core_stats_request_pt_update p dir hit n"
| "stat_update (VolBytes p dir b) = ocf_core_stats_vol_block_update p dir b"
| "stat_update (CacheBytes p dir b) = ocf_core_stats_cache_block_update p dir b"
| "stat_update (CoreBytes p dir b) = ocf_core_stats_core_block_update p dir b"
| "stat_update (CoreError dir) = ocf_core_stats_core_error_update dir"
| "stat_update (CacheError dir) = ocf_core_stats_cache_error_update dir"

fun event_ok :: "stat_event \<Rightarrow> bool" where
  "event_ok (Served p dir hit n) = (p < OCF_IO_CLASS_MAX \<and> dir < 2)"
| "event_ok (PassedThrough p dir hit n) = (p < OCF_IO_CLASS_MAX \<and> dir < 2)"
| "event_ok (VolBytes p dir b) = (p < OCF_IO_CLASS_MAX \<and> dir < 2)"
| "event_ok (CacheBytes p dir b) = (p < OCF_IO_CLASS_MAX \<and> dir < 2)"
| "event_ok (CoreBytes p dir b) = (p < OCF_IO_CLASS_MAX \<and> dir < 2)"
| "event_ok (CoreError dir) = (dir < 2)"
| "event_ok (CacheError dir) = (dir < 2)"

text \<open>The classes of events the request counters distinguish, for one io class and direction.\<close>

fun is_full :: "nat \<Rightarrow> part_id \<Rightarrow> stat_event \<Rightarrow> bool" where
  "is_full d p (Served q dir hit n) = (q = p \<and> dir = d \<and> hit = 0)"
| "is_full d p _ = False"

fun is_partial :: "nat \<Rightarrow> part_id \<Rightarrow> stat_event \<Rightarrow> bool" where
  "is_partial d p (Served q dir hit n) = (q = p \<and> dir = d \<and> 0 < hit \<and> hit < n)"
| "is_partial d p _ = False"

fun is_hit :: "nat \<Rightarrow> part_id \<Rightarrow> stat_event \<Rightarrow> bool" where
  "is_hit d p (Served q dir hit n) = (q = p \<and> dir = d \<and> 0 < hit \<and> n \<le> hit)"
| "is_hit d p _ = False"

fun is_pt :: "nat \<Rightarrow> part_id \<Rightarrow> stat_event \<Rightarrow> bool" where
  "is_pt d p (PassedThrough q dir hit n) = (q = p \<and> dir = d)"
| "is_pt d p _ = False"

definition count_in :: "(part_id \<Rightarrow> stat_event \<Rightarrow> bool) \<Rightarrow> stat_event list \<Rightarrow> part_id set \<Rightarrow> nat" where
  "count_in f es S = (\<Sum>p \<in> S. length (filter (f p) es))"

definition reqs_of :: "nat \<Rightarrow> ocf_counters_part \<Rightarrow> ocf_counters_req" where
  "reqs_of d c = (if d = 0 then read_reqs c else write_reqs c)"

definition req_counts :: "nat \<Rightarrow> stat_event list \<Rightarrow> part_id set \<Rightarrow> ocf_counters_req" where
  "req_counts d es S = \<lparr>partial_miss = count_in (is_partial d) es S mod U64_MOD,
     full_miss = count_in (is_full d) es S mod U64_MOD,
     req_total = (count_in (is_full d) es S + count_in (is_partial d) es S + count_in (is_hit d) es S) mod U64_MOD,
     pass_through = count_in (is_pt d) es S mod U64_MOD\<rparr>"

lemma count_in_single [simp]: "count_in f es {p} = length (filter (f p) es)"
  by (simp add: count_in_def)

lemma count_in_empty [simp]: "count_in f es {} = 0"
  by (simp add: count_in_def)

text \<open>One more event in the history changes the counts of its own class and direction, if it is about requests at all.\<close>

definition bump :: "stat_event \<Rightarrow> nat \<Rightarrow> part_id \<Rightarrow> ocf_counters_req \<Rightarrow> ocf_counters_req" where
  "bump e d p r = \<lparr>partial_miss = (partial_miss r + of_bool (is_partial d p e)) mod U64_MOD,
     full_miss = (full_miss r + of_bool (is_full d p e)) mod U64_MOD,
     req_total = (req_total r + of_bool (is_full d p e \<or> is_partial d p e \<or> is_hit d p e)) mod U64_MOD,
     pass_through = (pass_through r + of_bool (is_pt d p e)) mod U64_MOD\<rparr>"

lemma mod_step: "((a mod m) + b) mod m = (a + b) mod (m :: nat)"
  by (rule mod_add_left_eq)

lemma event_classes:
  "(of_bool (is_full d p e \<or> is_partial d p e \<or> is_hit d p e) :: nat) =
     of_bool (is_full d p e) + of_bool (is_partial d p e) + of_bool (is_hit d p e)"
  by (cases e) auto

lemma req_counts_snoc: "req_counts d (es @ [e]) {p} = bump e d p (req_counts d es {p})"
proof -
  have len: "length (filter f (es @ [e])) = length (filter f es) + of_bool (f e)" for f :: "stat_event \<Rightarrow> bool" by simp
  show ?thesis
    unfolding bump_def req_counts_def count_in_single len event_classes
    by (simp only: ocf_counters_req.simps mod_step) (simp only: ac_simps)
qed

lemma bump_id:
  assumes "\<not> is_full d p e" "\<not> is_partial d p e" "\<not> is_hit d p e" "\<not> is_pt d p e"
  shows "bump e d p (req_counts d es S) = req_counts d es S"
  unfolding bump_def req_counts_def using assms by (simp only: ocf_counters_req.simps of_bool_eq simp_thms add_0_right mod_mod_trivial)

lemma upd_part_reqs:
  assumes "q < OCF_IO_CLASS_MAX" and "f (part_counters c q) = Some c1"
  shows "upd_part q f c = Some (c\<lparr>part_counters := (part_counters c)(q := c1)\<rparr>)"
  using assms by (simp add: upd_part_def)

lemma upd_reqs_of:
  assumes "dir < 2" and "d < 2"
  shows "\<exists>c1. upd_reqs dir f c = Some c1 \<and> reqs_of d c1 = (if d = dir then f (reqs_of d c) else reqs_of d c)"
  using assms by (auto simp: upd_reqs_def reqs_of_def less_2_cases_iff)

lemma block_update_ok: "dir < 2 \<Longrightarrow> \<exists>b'. ocf_stats_block_update dir n b = Some b'"
  by (auto simp: ocf_stats_block_update_def less_2_cases_iff)

lemma stat_update_blocks:
  assumes "event_ok e" and "\<forall>q dir hit n. e \<noteq> Served q dir hit n \<and> e \<noteq> PassedThrough q dir hit n"
  shows "\<exists>c'. stat_update e c = Some c' \<and> (\<forall>d p. reqs_of d (part_counters c' p) = reqs_of d (part_counters c p))"
proof (cases e)
  case (VolBytes q dir n)
  then show ?thesis using assms block_update_ok [of dir n "blocks (part_counters c q)"]
    by (auto simp: ocf_core_stats_vol_block_update_def upd_part_def reqs_of_def)
next
  case (CacheBytes q dir n)
  then show ?thesis using assms block_update_ok [of dir n "cache_blocks (part_counters c q)"]
    by (auto simp: ocf_core_stats_cache_block_update_def upd_part_def reqs_of_def)
next
  case (CoreBytes q dir n)
  then show ?thesis using assms block_update_ok [of dir n "core_blocks (part_counters c q)"]
    by (auto simp: ocf_core_stats_core_block_update_def upd_part_def reqs_of_def)
qed (use assms in \<open>auto simp: ocf_core_stats_core_error_update_def ocf_core_stats_cache_error_update_def
      ocf_core_stats_error_update_def less_2_cases_iff\<close>)

text \<open>The two events about requests.\<close>

lemma stat_update_reqs:
  assumes ok: "event_ok e"
    and c: "\<forall>p < OCF_IO_CLASS_MAX. \<forall>d < 2. reqs_of d (part_counters c p) = req_counts d es {p}"
  shows "\<exists>c'. stat_update e c = Some c' \<and>
    (\<forall>p < OCF_IO_CLASS_MAX. \<forall>d < 2. reqs_of d (part_counters c' p) = bump e d p (req_counts d es {p}))"
proof -
  have pt: "\<exists>c'. upd_part q (upd_reqs dir f) c = Some c' \<and>
      (\<forall>p < OCF_IO_CLASS_MAX. \<forall>d < 2. reqs_of d (part_counters c' p) = (if p = q \<and> d = dir then f (req_counts d es {p}) else req_counts d es {p}))"
    if q: "q < OCF_IO_CLASS_MAX" "dir < 2" for q dir f
  proof -
    obtain c1 where c1: "upd_reqs dir f (part_counters c q) = Some c1" using upd_reqs_of [OF q(2), of 0 f] by auto
    have "reqs_of d c1 = (if d = dir then f (reqs_of d (part_counters c q)) else reqs_of d (part_counters c q))" if "d < 2" for d
      using upd_reqs_of [OF q(2) that, of f "part_counters c q"] c1 by auto
    then show ?thesis using upd_part_reqs [OF q(1), of "upd_reqs dir f" c] c1 c q(1) by auto
  qed
  show ?thesis
  proof (cases e)
    case (Served q dir hit n)
    define f where "f = (\<lambda>r. let r = r\<lparr>req_total := (req_total r + 1) mod U64_MOD\<rparr>
      in if hit = 0 then r\<lparr>full_miss := (full_miss r + 1) mod U64_MOD\<rparr>
         else if hit < n then r\<lparr>partial_miss := (partial_miss r + 1) mod U64_MOD\<rparr> else (r :: ocf_counters_req))"
    have f: "(if p = q \<and> d = dir then f (req_counts d es {p}) else req_counts d es {p}) = bump e d p (req_counts d es {p})" for d p
      unfolding Served f_def bump_def req_counts_def Let_def
      by (cases "hit = 0"; cases "hit < n"; cases "p = q \<and> d = dir") auto
    show ?thesis
      using pt [of q dir f] ok unfolding f by (simp add: Served ocf_core_stats_request_update_def f_def)
  next
    case (PassedThrough q dir hit n)
    define f where "f = (\<lambda>r :: ocf_counters_req. r\<lparr>pass_through := (pass_through r + 1) mod U64_MOD\<rparr>)"
    have f: "(if p = q \<and> d = dir then f (req_counts d es {p}) else req_counts d es {p}) = bump e d p (req_counts d es {p})" for d p
      unfolding PassedThrough f_def bump_def req_counts_def by (cases "p = q \<and> d = dir") auto
    show ?thesis
      using pt [of q dir f] ok unfolding f by (simp add: PassedThrough ocf_core_stats_request_pt_update_def f_def)
  qed (use stat_update_blocks [OF ok, of c] c in \<open>auto simp: bump_id\<close>)
qed

lemma stat_updates_reqs:
  assumes "\<forall>e \<in> set es. event_ok e"
  shows "\<exists>c'. fold_opt stat_update es (ocf_core_stats_initialize c) = Some c' \<and>
    (\<forall>p < OCF_IO_CLASS_MAX. \<forall>d < 2. reqs_of d (part_counters c' p) = req_counts d es {p})"
  using assms
proof (induction es rule: rev_induct)
  case Nil
  show ?case
    by (simp add: ocf_core_stats_initialize_def reqs_of_def ocf_stats_part_init_def ocf_stats_req_init_def req_counts_def)
next
  case (snoc e es)
  then obtain c1 where c1: "fold_opt stat_update es (ocf_core_stats_initialize c) = Some c1"
    "\<forall>p < OCF_IO_CLASS_MAX. \<forall>d < 2. reqs_of d (part_counters c1 p) = req_counts d es {p}" by auto
  have e: "event_ok e" using snoc.prems by simp
  obtain c2 where "stat_update e c1 = Some c2"
    "\<forall>p < OCF_IO_CLASS_MAX. \<forall>d < 2. reqs_of d (part_counters c2 p) = req_counts d (es @ [e]) {p}"
    using stat_update_reqs [OF e c1(2)] by (auto simp: req_counts_snoc)
  then show ?case using c1(1) by (simp add: fold_opt_append)
qed

lemma count_in_insert: "finite S \<Longrightarrow> p \<notin> S \<Longrightarrow> count_in f es (insert p S) = count_in f es S + count_in f es {p}"
  by (simp add: count_in_def)

lemma accum_counts:
  assumes "finite S" and "p \<notin> S"
  shows "accum_req_stats (req_counts d es S) (req_counts d es {p}) = req_counts d es (insert p S)"
  unfolding accum_req_stats_def req_counts_def count_in_insert [OF assms]
  by (simp only: ocf_counters_req.simps mod_add_left_eq mod_add_right_eq) (simp only: ac_simps)

lemma get_stats_reqs:
  assumes c: "\<forall>p < OCF_IO_CLASS_MAX. \<forall>d < 2. reqs_of d (part_counters c p) = req_counts d es {p}"
  shows "sc_read_reqs (ocf_core_get_stats cl c) = req_counts 0 es {..<OCF_IO_CLASS_MAX}"
    "sc_write_reqs (ocf_core_get_stats cl c) = req_counts 1 es {..<OCF_IO_CLASS_MAX}"
proof -
  define s0 where "s0 = \<lparr>sc_cache_occupancy = 0, sc_dirty = 0, sc_read_reqs = ocf_stats_req_init, sc_write_reqs = ocf_stats_req_init,
      sc_cache_volume = ocf_stats_block_init, sc_core_volume = ocf_stats_block_init, sc_core = ocf_stats_block_init,
      sc_cache_errors = cache_errors c, sc_core_errors = core_errors c\<rparr>"
  have "sc_read_reqs (fold (get_stats_step cl c) [0..<n] s0) = req_counts 0 es {..<n} \<and>
      sc_write_reqs (fold (get_stats_step cl c) [0..<n] s0) = req_counts 1 es {..<n}" if "n \<le> OCF_IO_CLASS_MAX" for n
    using that
  proof (induction n)
    case 0
    show ?case by (simp add: s0_def ocf_stats_req_init_def req_counts_def)
  next
    case (Suc n)
    have "reqs_of 0 (part_counters c n) = req_counts 0 es {n}" "reqs_of 1 (part_counters c n) = req_counts 1 es {n}"
      using c Suc.prems by auto
    then show ?case
      using Suc accum_counts [of "{..<n}" n _ es]
      by (simp add: get_stats_step_def Let_def reqs_of_def lessThan_Suc)
  qed
  from this [OF order_refl] show "sc_read_reqs (ocf_core_get_stats cl c) = req_counts 0 es {..<OCF_IO_CLASS_MAX}"
    "sc_write_reqs (ocf_core_get_stats cl c) = req_counts 1 es {..<OCF_IO_CLASS_MAX}"
    by (simp_all add: ocf_core_get_stats_def s0_def)
qed

definition happened :: "(part_id \<Rightarrow> stat_event \<Rightarrow> bool) \<Rightarrow> stat_event list \<Rightarrow> nat" where
  "happened f es = length (filter (\<lambda>e. \<exists>p < OCF_IO_CLASS_MAX. f p e) es)"

lemma sum_one:
  fixes n :: nat
  assumes "\<And>p q. P p \<Longrightarrow> P q \<Longrightarrow> p = q"
  shows "(\<Sum>p < n. of_bool (P p)) = (of_bool (\<exists>p < n. P p) :: nat)"
proof (cases "\<exists>p < n. P p")
  case True
  then obtain p where p: "p < n" "P p" by auto
  then have "(\<Sum>q < n. of_bool (P q)) = (\<Sum>q < n. if q = p then 1 else 0 :: nat)"
    using assms by (intro sum.cong) auto
  then show ?thesis using p by auto
qed auto

lemma count_in_all:
  assumes "\<And>e p q. f p e \<Longrightarrow> f q e \<Longrightarrow> p = q"
  shows "count_in f es {..<OCF_IO_CLASS_MAX} = happened f es"
proof (induction es)
  case (Cons e es)
  have "count_in f (e # es) {..<OCF_IO_CLASS_MAX} = (\<Sum>p < OCF_IO_CLASS_MAX. of_bool (f p e)) + count_in f es {..<OCF_IO_CLASS_MAX}"
    unfolding count_in_def by (subst sum.distrib [symmetric]) (rule sum.cong, auto)
  also have "(\<Sum>p < OCF_IO_CLASS_MAX. of_bool (f p e)) = (of_bool (\<exists>p < OCF_IO_CLASS_MAX. f p e) :: nat)"
    by (rule sum_one) (rule assms)
  finally show ?case using Cons.IH by (simp add: happened_def)
qed (simp add: count_in_def happened_def)

lemma is_uniq:
  "is_full d p e \<Longrightarrow> is_full d q e \<Longrightarrow> p = q" "is_partial d p e \<Longrightarrow> is_partial d q e \<Longrightarrow> p = q"
  "is_hit d p e \<Longrightarrow> is_hit d q e \<Longrightarrow> p = q" "is_pt d p e \<Longrightarrow> is_pt d q e \<Longrightarrow> p = q"
  by (cases e; simp)+

lemma int_mod_shift: "(x + m - y) mod m = (x - y) mod (m :: int)"
  using mod_add_self2 [of "x - y" m] by (simp add: algebra_simps)

lemma u64_sub_mod: "u64_sub ((a + b) mod U64_MOD) (b mod U64_MOD) = a mod U64_MOD"
proof -
  have lt: "b mod U64_MOD < U64_MOD" by simp
  have "int (u64_sub ((a + b) mod U64_MOD) (b mod U64_MOD)) = (int ((a + b) mod U64_MOD) + int U64_MOD - int (b mod U64_MOD)) mod int U64_MOD"
    unfolding u64_sub_def using lt by (simp add: zmod_int of_nat_diff)
  also have "\<dots> = ((int a + int b) mod int U64_MOD - int b mod int U64_MOD) mod int U64_MOD"
    by (simp only: zmod_int of_nat_add int_mod_shift)
  also have "\<dots> = int (a mod U64_MOD)" by (simp only: mod_diff_eq) (simp add: zmod_int)
  finally show ?thesis by simp
qed

lemma fill_req_values:
  assumes "rd = \<lparr>partial_miss = rp mod U64_MOD, full_miss = rf mod U64_MOD, req_total = (rf + rp + rh) mod U64_MOD, pass_through = rt mod U64_MOD\<rparr>"
    and "wr = \<lparr>partial_miss = wp mod U64_MOD, full_miss = wfm mod U64_MOD, req_total = (wfm + wp + wh) mod U64_MOD, pass_through = wt mod U64_MOD\<rparr>"
  shows "st_value (rd_hits (fill_req rd wr)) = rh mod U64_MOD" "st_value (wr_hits (fill_req rd wr)) = wh mod U64_MOD"
    "st_value (rd_partial_misses (fill_req rd wr)) = rp mod U64_MOD" "st_value (wr_partial_misses (fill_req rd wr)) = wp mod U64_MOD"
    "st_value (rd_full_misses (fill_req rd wr)) = rf mod U64_MOD" "st_value (wr_full_misses (fill_req rd wr)) = wfm mod U64_MOD"
    "st_value (all_reqs (fill_req rd wr)) = (rf + rp + rh + rt + (wfm + wp + wh + wt)) mod U64_MOD"
proof -
  have sub: "u64_sub ((f + p + h) mod U64_MOD) ((f mod U64_MOD + p mod U64_MOD) mod U64_MOD) = h mod U64_MOD" for f p h :: nat
    using u64_sub_mod [of h "f + p"] by (simp only: mod_add_eq ac_simps)
  show "st_value (rd_hits (fill_req rd wr)) = rh mod U64_MOD" "st_value (wr_hits (fill_req rd wr)) = wh mod U64_MOD"
    unfolding fill_req_def set_stat_def Let_def assms by (simp_all only: ocf_stats_requests.simps ocf_stat.simps ocf_counters_req.simps sub)
  show "st_value (rd_partial_misses (fill_req rd wr)) = rp mod U64_MOD" "st_value (wr_partial_misses (fill_req rd wr)) = wp mod U64_MOD"
    "st_value (rd_full_misses (fill_req rd wr)) = rf mod U64_MOD" "st_value (wr_full_misses (fill_req rd wr)) = wfm mod U64_MOD"
    unfolding fill_req_def set_stat_def Let_def assms by (simp_all only: ocf_stats_requests.simps ocf_stat.simps ocf_counters_req.simps)
  show "st_value (all_reqs (fill_req rd wr)) = (rf + rp + rh + rt + (wfm + wp + wh + wt)) mod U64_MOD"
    unfolding fill_req_def set_stat_def Let_def assms
    by (simp only: ocf_stats_requests.simps ocf_stat.simps ocf_counters_req.simps mod_add_left_eq mod_add_right_eq) (simp only: ac_simps)
qed

text \<open>
  C29. The request report of a core is a count over its history: whatever the engines reported since the
  counters were initialised, the report shows as hits exactly the requests all of whose lines were hit, as partial and full misses those with
  some or none, for reads and for writes, and its total is the number of all requests served or passed through. The counters wrap at 64 bits,
  and the subtraction that derives the hits wraps with them.
\<close>

theorem request_report_exact:
  assumes ok: "\<forall>e \<in> set es. event_ok e"
  shows "\<exists>c'. fold_opt stat_update es (ocf_core_stats_initialize c) = Some c' \<and>
    (let s = ocf_core_get_stats cl c'; r = fill_req (sc_read_reqs s) (sc_write_reqs s)
     in st_value (rd_hits r) = happened (is_hit 0) es mod U64_MOD \<and> st_value (wr_hits r) = happened (is_hit 1) es mod U64_MOD \<and>
        st_value (rd_partial_misses r) = happened (is_partial 0) es mod U64_MOD \<and> st_value (wr_partial_misses r) = happened (is_partial 1) es mod U64_MOD \<and>
        st_value (rd_full_misses r) = happened (is_full 0) es mod U64_MOD \<and> st_value (wr_full_misses r) = happened (is_full 1) es mod U64_MOD \<and>
        st_value (all_reqs r) =
          (happened (is_full 0) es + happened (is_partial 0) es + happened (is_hit 0) es + happened (is_pt 0) es +
           (happened (is_full 1) es + happened (is_partial 1) es + happened (is_hit 1) es + happened (is_pt 1) es)) mod U64_MOD)"
proof -
  obtain c' where run: "fold_opt stat_update es (ocf_core_stats_initialize c) = Some c'"
    and c': "\<forall>p < OCF_IO_CLASS_MAX. \<forall>d < 2. reqs_of d (part_counters c' p) = req_counts d es {p}"
    using stat_updates_reqs [OF ok] by blast
  have all: "req_counts d es {..<OCF_IO_CLASS_MAX} = \<lparr>partial_miss = happened (is_partial d) es mod U64_MOD,
     full_miss = happened (is_full d) es mod U64_MOD,
     req_total = (happened (is_full d) es + happened (is_partial d) es + happened (is_hit d) es) mod U64_MOD,
     pass_through = happened (is_pt d) es mod U64_MOD\<rparr>" for d
    unfolding req_counts_def using is_uniq by (subst (1 2 3 4 5 6) count_in_all; blast)
  show ?thesis
    unfolding Let_def
    by (intro exI [of _ c'] conjI run
        fill_req_values [OF get_stats_reqs(1) [OF c', unfolded all] get_stats_reqs(2) [OF c', unfolded all]])
qed

theorem request_report_exact_witness:
  "\<exists>c'. fold_opt stat_update [Served 0 0 0 2, Served 3 0 2 2, Served 0 0 1 2, Served 1 1 4 4, PassedThrough 2 1 0 1, CacheBytes 0 1 512, CoreError 0]
      (ocf_core_stats_initialize \<lparr>core_errors = ocf_stats_error_init, cache_errors = ocf_stats_error_init, part_counters = \<lambda>_. ocf_stats_part_init\<rparr>) = Some c' \<and>
    (let s = ocf_core_get_stats (\<lambda>_. (0, 0)) c'; r = fill_req (sc_read_reqs s) (sc_write_reqs s)
     in st_value (rd_hits r) = 1 \<and> st_value (wr_hits r) = 1 \<and> st_value (rd_partial_misses r) = 1 \<and> st_value (rd_full_misses r) = 1 \<and>
        st_value (all_reqs r) = 5)"
proof -
  let ?es = "[Served 0 0 0 2, Served 3 0 2 2, Served 0 0 1 2, Served 1 1 4 4, PassedThrough 2 1 0 1, CacheBytes 0 1 512, CoreError 0]"
  have "\<forall>e \<in> set ?es. event_ok e" by (simp add: OCF_IO_CLASS_MAX_def)
  from request_report_exact [OF this, of "\<lparr>core_errors = ocf_stats_error_init, cache_errors = ocf_stats_error_init,
      part_counters = \<lambda>_. ocf_stats_part_init\<rparr>" "\<lambda>_. (0, 0)"]
  show ?thesis by (auto simp: Let_def happened_def OCF_IO_CLASS_MAX_def)
qed

end
