(* ===== verification/DataIO.thy ===== *)
theory DataIO
  imports Engine Stats
begin

section \<open>I/O of a request\<close>

text \<open>
  Model of \<^verbatim>\<open>src/utils/utils_io.c\<close>: the I/Os that carry the data of a request between its buffer and the cache
  device, one per cache line or a single one for lines that are consecutive on the device, the I/O to the core
  device, and the splitting of long discards. \<^verbatim>\<open>ocf_io_new\<close> is taken from \<^verbatim>\<open>src/ocf_io.c\<close>.

  The volumes belong to the application. \<open>st_new_ok n\<close> tells whether the \<open>n\<close>th I/O can be allocated on an open volume and
  \<open>st_set_data n\<close> is what attaching the buffer to it returns. An I/O that was submitted is in \<open>st_ios\<close> until the volume
  completes it; it names its request, the offset of its data in the buffer of the request, and the callback of the
  completion. A failed submission calls the callback at once, so the functions below return the errors it is called
  with, in order.
\<close>

subsection \<open>State\<close>

datatype volume = CacheVolume | CoreVolume core_id
datatype io_kind = DataIO | FlushIO | DiscardIO

record 'cb io =
  d_kind :: io_kind
  d_vol :: volume
  d_addr :: u64
  d_bytes :: nat
  d_dir :: nat
  d_data :: nat
  d_req :: nat
  d_cb :: 'cb

record 'cb io_state =
  st_ios :: "'cb io list"
  st_made :: nat
  st_new_ok :: "nat \<Rightarrow> bool"
  st_set_data :: "nat \<Rightarrow> int"
  st_counters :: "core_id \<Rightarrow> ocf_counters_core"

text \<open>What the addresses depend on: the line size, the end of the metadata on the cache device, and the layout.\<close>

record io_cfg =
  cf_line :: line_settings
  cf_offset :: u64
  cf_lg2phy :: "cline \<Rightarrow> cline"

definition upd_counters ::
  "core_id \<Rightarrow> (ocf_counters_core \<Rightarrow> ocf_counters_core option) \<Rightarrow> 'cb io_state \<Rightarrow> 'cb io_state option" where
  "upd_counters core f s = do {
     c \<leftarrow> f (st_counters s core);
     Some (s\<lparr>st_counters := (st_counters s)(core := c)\<rparr>) }"

subsection \<open>Submitting the data of a request\<close>

definition ocf_io_new :: "'cb io_state \<Rightarrow> u64 \<Rightarrow> nat \<Rightarrow> bool \<times> 'cb io_state" where
  "ocf_io_new s addr bytes =
     (if addr mod 512 \<noteq> 0 \<or> bytes mod 512 \<noteq> 0 then (False, s)
      else (st_new_ok s (st_made s), s\<lparr>st_made := st_made s + 1\<rparr>))"

text \<open>
  The part both branches of \<^verbatim>\<open>ocf_submit_cache_reqs\<close> share: allocate the I/O, attach the data, count the bytes and submit. The
  result is \<open>Inl\<close> with the error for the callback, or \<open>Inr\<close> with the state. The length is cut to 32 bits by \<^verbatim>\<open>ocf_new_cache_io\<close>,
  not where it is counted.
\<close>

definition submit_cache_io ::
  "'cb io_state \<Rightarrow> nat \<Rightarrow> ocf_request \<Rightarrow> part_id \<Rightarrow> nat \<Rightarrow> u64 \<Rightarrow> u64 \<Rightarrow> u64 \<Rightarrow> 'cb \<Rightarrow> ((int \<times> 'cb io_state) + 'cb io_state) option" where
  "submit_cache_io s r req io_class dir addr bytes data_offset cb = do {
     let (ok, s) = ocf_io_new s addr (bytes mod U32_MOD);
     if \<not> ok then Some (Inl (- OCF_ERR_NO_MEM, s))
     else do {
       let err = st_set_data s (st_made s);
       if err \<noteq> 0 then Some (Inl (err, s))
       else do {
         s \<leftarrow> upd_counters (rq_core_id req) (ocf_core_stats_cache_block_update io_class dir bytes) s;
         Some (Inr (s\<lparr>st_ios := st_ios s @ [\<lparr>d_kind = DataIO, d_vol = CacheVolume, d_addr = addr, d_bytes = bytes mod U32_MOD,
                d_dir = dir, d_data = data_offset mod U32_MOD, d_req = r, d_cb = cb\<rparr>]\<rparr>)) } } }"

definition line_addr :: "io_cfg \<Rightarrow> cline \<Rightarrow> u64" where
  "line_addr cf coll_idx = (cf_lg2phy cf coll_idx * ocf_line_size (cf_line cf) mod U64_MOD + cf_offset cf) mod U64_MOD"

text \<open>
  The part of line \<open>i\<close> that the range covers: the first line is entered at the start of the range, the last one is left at its end. Then one round of
  the loop that issues an I/O per cache line; \<open>total\<close> is the number of bytes issued so far.
\<close>

definition line_part :: "nat \<Rightarrow> ocf_request \<Rightarrow> u64 \<Rightarrow> u64 \<Rightarrow> nat \<Rightarrow> nat \<Rightarrow> u64 \<Rightarrow> u64 \<times> u64" where
  "line_part ls req offset sz reqs i addr =
     (if i = 0 then
        (let seek = (rq_byte_position req + offset) mod U64_MOD mod ls in ((addr + seek) mod U64_MOD, ls - seek))
      else if i = reqs - 1 then
        (let skip = (ls - ((rq_byte_position req + offset) mod U64_MOD + sz) mod U64_MOD mod ls) mod ls in (addr, ls - skip))
      else (addr, ls))"

definition cache_req_step ::
  "io_cfg \<Rightarrow> nat \<Rightarrow> ocf_request \<Rightarrow> part_id \<Rightarrow> nat \<Rightarrow> u64 \<Rightarrow> u64 \<Rightarrow> nat \<Rightarrow> 'cb \<Rightarrow> nat \<Rightarrow> nat \<Rightarrow> u64 \<times> 'cb io_state \<Rightarrow>
   ((int \<times> 'cb io_state) + (u64 \<times> 'cb io_state)) option" where
  "cache_req_step cf r req io_class dir offset sz reqs cb first_cl i = (\<lambda>(total_bytes, s). do {
     e \<leftarrow> req_entry req (first_cl + i);
     let (addr, bytes) = line_part (ocf_line_size (cf_line cf)) req offset sz reqs i (line_addr cf (mi_coll_idx e));
     let bytes = min bytes ((sz + U64_MOD - total_bytes) mod U64_MOD);
     bug_on (bytes = 0);
     res \<leftarrow> submit_cache_io s r req io_class dir addr bytes (offset + total_bytes) cb;
     Some (map_sum id (\<lambda>s. ((total_bytes + bytes) mod U64_MOD, s)) res) })"

text \<open>The loop: on a failure the callback is called for this and every later line.\<close>

fun cache_reqs_loop ::
  "(nat \<Rightarrow> u64 \<times> 's \<Rightarrow> ((int \<times> 's) + (u64 \<times> 's)) option) \<Rightarrow> nat \<Rightarrow> nat list \<Rightarrow> u64 \<times> 's \<Rightarrow> (u64 \<times> 's \<times> int list) option" where
  "cache_reqs_loop step reqs [] ts = Some (fst ts, snd ts, [])"
| "cache_reqs_loop step reqs (i # is) ts = do {
     res \<leftarrow> step i ts;
     case res of
       Inl es \<Rightarrow> Some (fst ts, snd es, replicate (reqs - i) (fst es))
     | Inr ts \<Rightarrow> cache_reqs_loop step reqs is ts }"

definition ocf_submit_cache_reqs ::
  "io_cfg \<Rightarrow> 'cb io_state \<Rightarrow> nat \<Rightarrow> ocf_request \<Rightarrow> part_id \<Rightarrow> nat \<Rightarrow> u64 \<Rightarrow> u64 \<Rightarrow> nat \<Rightarrow> 'cb \<Rightarrow> ('cb io_state \<times> int list) option" where
  "ocf_submit_cache_reqs cf s r req io_class dir offset sz reqs cb = do {
     let first_cl = u32_sub (ocf_bytes_2_lines (cf_line cf) ((rq_byte_position req + offset) mod U64_MOD))
                            (ocf_bytes_2_lines (cf_line cf) (rq_byte_position req));
     bug_on (rq_byte_length req < (offset + sz) mod U64_MOD);
     bug_on ((first_cl + reqs) mod U32_MOD > rq_core_line_count req);
     if reqs = 1 then do {
       e \<leftarrow> req_entry req first_cl;
       let addr = (line_addr cf (mi_coll_idx e) +
                   (rq_byte_position req + offset) mod U64_MOD mod ocf_line_size (cf_line cf)) mod U64_MOD;
       res \<leftarrow> submit_cache_io s r req io_class dir addr sz offset cb;
       Some (case res of Inl (err, s) \<Rightarrow> (s, [err]) | Inr s \<Rightarrow> (s, [])) }
     else do {
       (total_bytes, s, errs) \<leftarrow> cache_reqs_loop (cache_req_step cf r req io_class dir offset sz reqs cb first_cl) reqs [0..<reqs] (0, s);
       if errs \<noteq> [] then Some (s, errs)
       else do { bug_on (total_bytes \<noteq> sz); Some (s, []) } } }"

definition ocf_submit_volume_req ::
  "'cb io_state \<Rightarrow> nat \<Rightarrow> ocf_request \<Rightarrow> part_id \<Rightarrow> 'cb \<Rightarrow> ('cb io_state \<times> int list) option" where
  "ocf_submit_volume_req s r req io_class cb = do {
     s \<leftarrow> upd_counters (rq_core_id req) (ocf_core_stats_core_block_update io_class (rq_rw req) (rq_byte_length req)) s;
     let (ok, s) = ocf_io_new s (rq_byte_position req) (rq_byte_length req);
     if \<not> ok then Some (s, [- OCF_ERR_NO_MEM])
     else do {
       let err = st_set_data s (st_made s);
       if err \<noteq> 0 then Some (s, [err])
       else Some (s\<lparr>st_ios := st_ios s @ [\<lparr>d_kind = DataIO, d_vol = CoreVolume (rq_core_id req), d_addr = rq_byte_position req,
              d_bytes = rq_byte_length req, d_dir = rq_rw req, d_data = 0, d_req = r, d_cb = cb\<rparr>]\<rparr>, []) } }"

subsection \<open>The I/Os carry every byte of the request once\<close>

text \<open>
  Where byte \<open>k\<close> of the buffer of a request lies on the cache device, by the layout of the lines: in the cache line of the entry of its core line, at
  the same offset as in the core line.
\<close>

definition line_of :: "ocf_request \<Rightarrow> nat \<Rightarrow> cline" where
  "line_of req i = mi_coll_idx (the (req_entry req i))"

definition byte_line :: "line_settings \<Rightarrow> ocf_request \<Rightarrow> nat \<Rightarrow> nat" where
  "byte_line st req k = (rq_byte_position req + k) div ocf_line_size st - rq_byte_position req div ocf_line_size st"

definition byte_addr :: "io_cfg \<Rightarrow> ocf_request \<Rightarrow> nat \<Rightarrow> nat" where
  "byte_addr cf req k = cf_lg2phy cf (line_of req (byte_line (cf_line cf) req k)) * ocf_line_size (cf_line cf) + cf_offset cf +
     (rq_byte_position req + k) mod ocf_line_size (cf_line cf)"

text \<open>A list of I/Os carries the bytes \<open>lo..<hi\<close> of the buffer to the addresses \<open>addr\<close>: each of them moves only such bytes, to their
  addresses, and each byte is moved by exactly one I/O.\<close>

definition moves :: "'cb io \<Rightarrow> nat \<Rightarrow> bool" where
  "moves io k \<longleftrightarrow> d_data io \<le> k \<and> k < d_data io + d_bytes io"

definition carries :: "(nat \<Rightarrow> nat) \<Rightarrow> nat \<Rightarrow> nat \<Rightarrow> 'cb io list \<Rightarrow> bool" where
  "carries addr lo hi ios \<longleftrightarrow>
     (\<forall>io \<in> set ios. \<forall>k. moves io k \<longrightarrow> lo \<le> k \<and> k < hi \<and> d_addr io + (k - d_data io) = addr k) \<and>
     (\<forall>k. lo \<le> k \<longrightarrow> k < hi \<longrightarrow> (\<exists>!i. i < length ios \<and> moves (ios ! i) k))"

text \<open>The environment can make every I/O, and the request fits into the address spaces.\<close>

definition io_ready :: "'cb io_state \<Rightarrow> bool" where
  "io_ready s \<longleftrightarrow> (\<forall>n. st_new_ok s n \<and> st_set_data s n = 0)"

definition req_fits :: "io_cfg \<Rightarrow> ocf_request \<Rightarrow> bool" where
  "req_fits cf req \<longleftrightarrow> (let ls = ocf_line_size (cf_line cf); n = rq_core_line_count req in
     ls \<le> 65536 \<and> 512 dvd ls \<and> 0 < ls \<and> 512 dvd cf_offset cf \<and> 512 dvd rq_byte_position req \<and> 512 dvd rq_byte_length req \<and>
     0 < rq_byte_length req \<and> rq_byte_length req < U32_MOD \<and> rq_byte_position req + rq_byte_length req < U64_MOD \<and> n < U32_MOD \<and>
     n = (rq_byte_position req + rq_byte_length req - 1) div ls - rq_byte_position req div ls + 1 \<and>
     (\<exists>m. rq_map req = Some m \<and> n \<le> length m) \<and>
     (\<forall>i < n. (cf_lg2phy cf (line_of req i) + 1) * ls + cf_offset cf \<le> U64_MOD))"

text \<open>The lines an I/O of \<open>sz\<close> bytes from \<open>offset\<close> on touches, and whether they follow each other on the device.\<close>

definition span :: "line_settings \<Rightarrow> ocf_request \<Rightarrow> nat \<Rightarrow> nat \<Rightarrow> nat" where
  "span st req offset sz = byte_line st req (offset + sz - 1) - byte_line st req offset + 1"

definition consecutive :: "io_cfg \<Rightarrow> ocf_request \<Rightarrow> nat \<Rightarrow> nat \<Rightarrow> bool" where
  "consecutive cf req first n \<longleftrightarrow> (\<forall>i < n. cf_lg2phy cf (line_of req (first + i)) = cf_lg2phy cf (line_of req first) + i)"

lemma io_new_ok:
  assumes "io_ready s" "512 dvd addr" "512 dvd bytes"
  shows "ocf_io_new s addr bytes = (True, s\<lparr>st_made := st_made s + 1\<rparr>)"
  using assms by (simp add: ocf_io_new_def io_ready_def mod_eq_0_iff_dvd)

lemma io_counts_ok:
  assumes "p < OCF_IO_CLASS_MAX" "dir < 2"
  shows "\<exists>c'. ocf_core_stats_cache_block_update p dir b c = Some c'" "\<exists>c'. ocf_core_stats_core_block_update p dir b c = Some c'"
proof -
  have "dir = 0 \<or> dir = 1" using assms(2) by auto
  then show "\<exists>c'. ocf_core_stats_cache_block_update p dir b c = Some c'" "\<exists>c'. ocf_core_stats_core_block_update p dir b c = Some c'"
    using assms(1) by (auto simp: ocf_core_stats_cache_block_update_def ocf_core_stats_core_block_update_def upd_part_def ocf_stats_block_update_def)
qed

text \<open>A submission that succeeds adds its I/O and counts it; the rest of the state stays.\<close>

definition submitted :: "'cb io_state \<Rightarrow> 'cb io list \<Rightarrow> 'cb io_state \<Rightarrow> bool" where
  "submitted s ios s' \<longleftrightarrow> st_ios s' = st_ios s @ ios \<and> st_new_ok s' = st_new_ok s \<and> st_set_data s' = st_set_data s"

lemma submitted_simps:
  "submitted s [] s" "submitted s xs t \<Longrightarrow> submitted t ys u \<Longrightarrow> submitted s (xs @ ys) u" "submitted s xs t \<Longrightarrow> io_ready t = io_ready s"
  by (auto simp: submitted_def io_ready_def)

definition cache_io :: "nat \<Rightarrow> nat \<Rightarrow> 'cb \<Rightarrow> nat \<Rightarrow> nat \<Rightarrow> nat \<Rightarrow> 'cb io" where
  "cache_io r dir cb addr bytes data = \<lparr>d_kind = DataIO, d_vol = CacheVolume, d_addr = addr, d_bytes = bytes, d_dir = dir,
     d_data = data, d_req = r, d_cb = cb\<rparr>"

lemma submit_cache_io_ok:
  assumes "io_ready s" "p < OCF_IO_CLASS_MAX" "dir < 2" "512 dvd addr" "512 dvd bytes" "bytes < U32_MOD" "data < U32_MOD"
  shows "\<exists>s'. submit_cache_io s r req p dir addr bytes data cb = Some (Inr s') \<and> submitted s [cache_io r dir cb addr bytes data] s'"
proof -
  obtain c where c: "ocf_core_stats_cache_block_update p dir bytes (st_counters s (rq_core_id req)) = Some c"
    using io_counts_ok(1) [OF assms(2,3)] by blast
  show ?thesis
    using assms c io_new_ok [OF assms(1,4,5)]
    by (auto simp: submit_cache_io_def upd_counters_def submitted_def io_ready_def cache_io_def)
qed

text \<open>The I/Os of the loop: \<open>line_cut\<close> is where in the range the part of line \<open>i\<close> starts.\<close>

definition line_cut :: "nat \<Rightarrow> nat \<Rightarrow> nat \<Rightarrow> nat \<Rightarrow> nat" where
  "line_cut ls a sz i = (if i = 0 then 0 else min sz (i * ls - a mod ls))"

lemma line_cut_bounds:
  assumes "0 < ls" "0 < sz" "n = (a + sz - 1) div ls - a div ls + 1"
  shows "i < n \<Longrightarrow> line_cut ls a sz i < line_cut ls a sz (Suc i)" "line_cut ls a sz n = sz"
    "i < n \<Longrightarrow> line_cut ls a sz i \<le> k \<Longrightarrow> k < line_cut ls a sz (Suc i) \<Longrightarrow> (a + k) div ls = a div ls + i"
proof -
  define q m where "q = a div ls" and "m = a mod ls"
  have a: "a = q * ls + m" "m < ls" using assms(1) by (simp_all add: q_def m_def)
  define e where "e = (m + sz - 1) div ls"
  have "(a + sz - 1) div ls = (q * ls + (m + sz - 1)) div ls" using a assms(2) by (simp add: add.assoc)
  also have "\<dots> = q + e" using assms(1) by (simp add: e_def)
  finally have n: "n = e + 1" using assms(3) q_def by simp
  have e: "e * ls \<le> m + sz - 1" "m + sz - 1 < (e + 1) * ls"
    using assms(1) unfolding e_def by (metis div_mult_mod_eq le_add1, metis dividend_less_div_times add.commute mult_Suc Suc_eq_plus1)
  have cut: "line_cut ls a sz i = (if i = 0 then 0 else i * ls - m)" if "i \<le> e" for i
  proof -
    have "i * ls \<le> e * ls" using that by simp
    then have "i * ls - m \<le> sz" using e(1) assms(2) by linarith
    then show ?thesis by (simp add: line_cut_def m_def)
  qed
  have last: "line_cut ls a sz (Suc e) = sz"
    using e(2) assms(2) by (simp add: line_cut_def m_def [symmetric])
  show "line_cut ls a sz n = sz" using last n by simp
  have lo: "m < i * ls" if "0 < i" for i
  proof -
    have "ls \<le> i * ls" using that by simp
    then show ?thesis using a(2) by linarith
  qed
  show "line_cut ls a sz i < line_cut ls a sz (Suc i)" if "i < n" for i
  proof (cases "i = e")
    case True
    have "e * ls - m < sz" using e(1) assms(2) by linarith
    then show ?thesis using True last cut [of e] assms(2) by auto
  next
    case False
    then have "Suc i \<le> e" using that n by simp
    then show ?thesis using cut [of i] cut [of "Suc i"] a(2) lo [of i] assms(1) by auto
  qed
  show "(a + k) div ls = a div ls + i" if "i < n" "line_cut ls a sz i \<le> k" "k < line_cut ls a sz (Suc i)" for i k
  proof -
    have "i \<le> e" using that(1) n by simp
    have "line_cut ls a sz (Suc i) \<le> Suc i * ls - m" by (simp add: line_cut_def m_def)
    then have "m + k < Suc i * ls" using that(3) lo [of "Suc i"] by linarith
    moreover have "i * ls \<le> m + k" using cut [OF \<open>i \<le> e\<close>] that(2) by (cases "i = 0") auto
    ultimately have "(m + k) div ls = i" by (simp add: div_nat_eqI mult.commute)
    moreover have "(a + k) div ls = q + (m + k) div ls" using a(1) assms(1) by (metis add.assoc div_mult_self3 not_gr_zero)
    ultimately show ?thesis by (simp add: q_def)
  qed
qed

lemma line_cut_step:
  assumes "0 < ls" "0 < sz" "n = (a + sz - 1) div ls - a div ls + 1" "i < n"
  shows "(a + line_cut ls a sz i) mod ls = (if i = 0 then a mod ls else 0)"
    "min (if i = 0 then ls - a mod ls else if i = n - 1 then ls - (ls - (a + sz) mod ls) mod ls else ls) (sz - line_cut ls a sz i) =
      line_cut ls a sz (Suc i) - line_cut ls a sz i"
    "line_cut ls a sz (Suc i) \<le> sz" "512 dvd ls \<Longrightarrow> 512 dvd a \<Longrightarrow> 512 dvd sz \<Longrightarrow> 512 dvd line_cut ls a sz i"
proof -
  note B = line_cut_bounds [OF assms(1-3)]
  define m where "m = a mod ls"
  have m: "m < ls" using assms(1) by (simp add: m_def)
  have lt: "line_cut ls a sz i < line_cut ls a sz (Suc i)" by (rule B(1) [OF assms(4)])
  have le: "line_cut ls a sz j \<le> sz" for j by (simp add: line_cut_def)
  show "line_cut ls a sz (Suc i) \<le> sz" by (rule le)
  have cut: "line_cut ls a sz i = i * ls - m \<and> m < i * ls" if "i \<noteq> 0"
  proof -
    have "ls \<le> i * ls" using that by simp
    then have "m < i * ls" using m by linarith
    moreover have "line_cut ls a sz i \<noteq> sz" using lt le [of "Suc i"] by linarith
    ultimately show ?thesis using that by (auto simp: line_cut_def m_def min_def)
  qed
  show M: "(a + line_cut ls a sz i) mod ls = (if i = 0 then a mod ls else 0)"
  proof (cases "i = 0")
    case False
    have "a + line_cut ls a sz i = (a div ls + i) * ls"
      using cut [OF False] div_mult_mod_eq [of a ls] unfolding m_def add_mult_distrib by linarith
    then show ?thesis using False by simp
  qed (simp add: line_cut_def)
  show "512 dvd line_cut ls a sz i" if "512 dvd ls" "512 dvd a" "512 dvd sz"
    using cut that by (cases "i = 0") (auto simp: line_cut_def m_def intro: dvd_diff_nat dvd_mod)
  have nxt: "line_cut ls a sz (Suc i) = min sz (Suc i * ls - m)" by (simp add: line_cut_def m_def)
  show "min (if i = 0 then ls - a mod ls else if i = n - 1 then ls - (ls - (a + sz) mod ls) mod ls else ls) (sz - line_cut ls a sz i) =
      line_cut ls a sz (Suc i) - line_cut ls a sz i"
  proof (cases "i = 0")
    case True
    then show ?thesis using nxt by (simp add: line_cut_def m_def min.commute)
  next
    case False
    note c = cut [OF False]
    have full: "Suc i * ls - m = line_cut ls a sz i + ls" using c by simp
    show ?thesis
    proof (cases "i = n - 1")
      case True
      then have end_cut: "line_cut ls a sz (Suc i) = sz" using B(2) assms(4) by simp
      define d where "d = sz - line_cut ls a sz i"
      have d: "0 < d" "d \<le> ls" "sz = line_cut ls a sz i + d" using lt end_cut nxt full by (auto simp: d_def)
      have "(a + sz) mod ls = d mod ls" using M False d(3) by (metis add.assoc mod_add_left_eq add_0)
      then have "ls - (ls - (a + sz) mod ls) mod ls = d" using d(1,2) by (cases "d = ls") auto
      then show ?thesis using False True end_cut by (simp add: d_def)
    next
      case nl: False
      have "line_cut ls a sz (Suc i) \<noteq> sz" using B(1) [of "Suc i"] le [of "Suc (Suc i)"] assms(4) nl by fastforce
      then have "line_cut ls a sz (Suc i) = line_cut ls a sz i + ls" using nxt full by (auto simp: min_def split: if_splits)
      then show ?thesis using False nl le [of "Suc i"] by simp
    qed
  qed
qed

lemma req_fitsD:
  assumes "req_fits cf req"
  defines "ls \<equiv> ocf_line_size (cf_line cf)"
  shows "0 < ls" "512 dvd ls" "ls \<le> 65536" "512 dvd cf_offset cf" "512 dvd rq_byte_position req"
    "rq_byte_length req < U32_MOD" "0 < rq_byte_length req" "rq_byte_position req + rq_byte_length req < U64_MOD" "rq_core_line_count req < U32_MOD"
    "rq_core_line_count req = (rq_byte_position req + rq_byte_length req - 1) div ls - rq_byte_position req div ls + 1"
    "i < rq_core_line_count req \<Longrightarrow> \<exists>e. req_entry req i = Some e"
    "i < rq_core_line_count req \<Longrightarrow> (cf_lg2phy cf (line_of req i) + 1) * ls + cf_offset cf \<le> U64_MOD" "512 dvd rq_byte_length req"
  using assms by (auto simp: req_fits_def Let_def req_entry_def)

lemma byte_line_less:
  assumes "req_fits cf req" "k < rq_byte_length req"
  shows "byte_line (cf_line cf) req k < rq_core_line_count req"
proof -
  have "(rq_byte_position req + k) div ocf_line_size (cf_line cf) \<le> (rq_byte_position req + rq_byte_length req - 1) div ocf_line_size (cf_line cf)"
    using assms(2) by (intro div_le_mono) simp
  then show ?thesis unfolding byte_line_def req_fitsD(10) [OF assms(1)] by simp
qed

lemma line_addr_fits:
  assumes "req_fits cf req" "i < rq_core_line_count req" "o' < ocf_line_size (cf_line cf)"
  shows "(line_addr cf (line_of req i) + o') mod U64_MOD = cf_lg2phy cf (line_of req i) * ocf_line_size (cf_line cf) + cf_offset cf + o'"
proof -
  have "cf_lg2phy cf (line_of req i) * ocf_line_size (cf_line cf) + cf_offset cf + o' < U64_MOD"
    using req_fitsD(12) [OF assms(1,2)] assms(3) unfolding add_mult_distrib by linarith
  then show ?thesis unfolding line_addr_def by (simp only: mod_add_left_eq mod_less)
qed

lemma byte_addr_dvd: "req_fits cf req \<Longrightarrow> 512 dvd k \<Longrightarrow> 512 dvd byte_addr cf req k"
  using req_fitsD(2,4,5) by (auto simp: byte_addr_def intro!: dvd_add dvd_mod dvd_mult)

lemma span_eq:
  fixes st :: line_settings and req :: ocf_request and offset :: nat
  assumes "0 < sz"
  defines "ls \<equiv> ocf_line_size st" and "a \<equiv> rq_byte_position req + offset"
  shows "span st req offset sz = (a + sz - 1) div ls - a div ls + 1"
proof -
  have "rq_byte_position req div ls \<le> a div ls" unfolding a_def by (intro div_le_mono) simp
  then show ?thesis using assms(1) by (simp add: span_def byte_line_def ls_def a_def add.assoc)
qed

lemma cache_req_step_ok:
  assumes fits: "req_fits cf req" and ready: "io_ready s" and p: "p < OCF_IO_CLASS_MAX" and dir: "dir < 2"
    and rng: "offset + sz \<le> rq_byte_length req" "0 < sz" and al: "512 dvd offset" "512 dvd sz"
    and n: "n = span (cf_line cf) req offset sz" and i: "i < n"
  defines "ct \<equiv> line_cut (ocf_line_size (cf_line cf)) (rq_byte_position req + offset) sz"
  shows "\<exists>s'. cache_req_step cf r req p dir offset sz n cb (byte_line (cf_line cf) req offset) i (ct i, s) = Some (Inr (ct (Suc i), s')) \<and>
    submitted s [cache_io r dir cb (byte_addr cf req (offset + ct i)) (ct (Suc i) - ct i) (offset + ct i)] s'"
proof -
  note F = req_fitsD [OF fits]
  define ls a where "ls = ocf_line_size (cf_line cf)" and "a = rq_byte_position req + offset"
  have ls: "0 < ls" "512 dvd ls" "512 dvd a" using F al(1) by (auto simp: ls_def a_def)
  have pd: "rq_byte_position req div ls \<le> a div ls" unfolding a_def by (intro div_le_mono) simp
  have n': "n = (a + sz - 1) div ls - a div ls + 1" using n span_eq [OF rng(2)] by (simp add: ls_def a_def)
  note B = line_cut_bounds [OF ls(1) rng(2) n'] and S = line_cut_step [OF ls(1) rng(2) n' i]
  have ct: "ct = line_cut ls a sz" by (simp add: ct_def ls_def a_def)
  have a64: "a < U64_MOD" "a + sz < U64_MOD" using F(8) rng by (auto simp: a_def)
  have lt: "ct i < ct (Suc i)" "ct (Suc i) \<le> sz" using B(1) [OF i] S(3) by (simp_all add: ct)
  have at: "byte_line (cf_line cf) req (offset + ct i) = byte_line (cf_line cf) req offset + i"
    using B(3) [OF i, of "ct i"] lt(1) pd unfolding byte_line_def ls_def [symmetric] a_def [symmetric] ct
    by (simp add: a_def [symmetric] add.assoc [symmetric])
  have less: "byte_line (cf_line cf) req offset + i < rq_core_line_count req"
    using byte_line_less [OF fits, of "offset + ct i"] at lt rng by simp
  obtain e where e: "req_entry req (byte_line (cf_line cf) req offset + i) = Some e" using F(11) [OF less] by blast
  have el: "mi_coll_idx e = line_of req (byte_line (cf_line cf) req offset + i)" by (simp add: line_of_def e)
  define o' where "o' = (a + ct i) mod ls"
  have o': "o' < ls" "o' = (if i = 0 then a mod ls else 0)" using ls(1) S(1) by (simp_all add: o'_def ct)
  have addr: "byte_addr cf req (offset + ct i) = (line_addr cf (mi_coll_idx e) + o') mod U64_MOD"
    unfolding el line_addr_fits [OF fits less o'(1) [unfolded ls_def]] byte_addr_def at by (simp add: o'_def a_def ls_def add.assoc)
  have la: "line_addr cf x mod U64_MOD = line_addr cf x" for x by (simp add: line_addr_def)
  have "sz + U64_MOD - ct i = sz - ct i + U64_MOD" "sz - ct i < U64_MOD" using a64(2) lt by linarith+
  then have rem: "(sz + U64_MOD - ct i) mod U64_MOD = sz - ct i" by (simp only: mod_add_self2 mod_less)
  have tot: "ct (Suc i) mod U64_MOD = ct (Suc i)" using a64(2) lt by simp
  have d: "512 dvd ct i" "512 dvd ct (Suc i)"
    using S(4) [OF ls(2,3) al(2)] line_cut_step(4) [OF ls(1) rng(2) n', of "Suc i"] B(2) ls(2,3) al(2) i unfolding ct
    by (simp, cases "Suc i = n") auto
  have "512 dvd ct (Suc i) - ct i" using d by (simp add: dvd_diff_nat)
  moreover have "512 dvd byte_addr cf req (offset + ct i)" using byte_addr_dvd [OF fits] al(1) d(1) by simp
  moreover have "ct (Suc i) - ct i < U32_MOD" "offset + ct i < U32_MOD" using F(6) rng lt by linarith+
  ultimately obtain s' where s': "submit_cache_io s r req p dir (byte_addr cf req (offset + ct i)) (ct (Suc i) - ct i) (offset + ct i) cb = Some (Inr s')"
    "submitted s [cache_io r dir cb (byte_addr cf req (offset + ct i)) (ct (Suc i) - ct i) (offset + ct i)] s'"
    using submit_cache_io_ok [OF ready p dir] by blast
  let ?bs = "if i = 0 then ls - a mod ls else if i = n - 1 then ls - (ls - (a + sz) mod ls) mod ls else ls"
  have m: "(rq_byte_position req + offset) mod U64_MOD = a" "(a + sz) mod U64_MOD = a + sz" using a64 by (simp_all add: a_def)
  have ab: "line_part ls req offset sz n i (line_addr cf (mi_coll_idx e)) = (byte_addr cf req (offset + ct i), ?bs)"
    unfolding line_part_def addr o'(2) m Let_def by (cases "i = 0"; cases "i = n - 1") (simp_all only: if_True if_False la add_0_right simp_thms)
  have bs: "min ?bs (sz - ct i) = ct (Suc i) - ct i" using S(2) by (simp only: ct)
  show ?thesis
    using s' lt(1) by (simp add: cache_req_step_def e ls_def [symmetric] ab rem bs tot del: One_nat_def)
qed

text \<open>The loop issues one I/O per line, in order.\<close>

definition line_io :: "io_cfg \<Rightarrow> nat \<Rightarrow> ocf_request \<Rightarrow> nat \<Rightarrow> nat \<Rightarrow> nat \<Rightarrow> 'cb \<Rightarrow> nat \<Rightarrow> 'cb io" where
  "line_io cf r req dir offset sz cb i =
     (let ct = line_cut (ocf_line_size (cf_line cf)) (rq_byte_position req + offset) sz
      in cache_io r dir cb (byte_addr cf req (offset + ct i)) (ct (Suc i) - ct i) (offset + ct i))"

lemma cache_reqs_loop_ok:
  assumes "\<And>i s. i < n \<Longrightarrow> io_ready s \<Longrightarrow> \<exists>s'. step i (ct i, s) = Some (Inr (ct (Suc i), s')) \<and> submitted s [io i] s'"
    and "io_ready s" "m \<le> n"
  shows "\<exists>s'. cache_reqs_loop step n [n - m..<n] (ct (n - m), s) = Some (ct n, s', []) \<and> submitted s (map io [n - m..<n]) s'"
  using assms(2,3)
proof (induction m arbitrary: s)
  case 0
  then show ?case by (simp add: submitted_simps)
next
  case (Suc m)
  let ?i = "n - Suc m"
  have i: "?i < n" "Suc ?i = n - m" using Suc.prems(2) by auto
  obtain s1 where s1: "step ?i (ct ?i, s) = Some (Inr (ct (n - m), s1))" "submitted s [io ?i] s1"
    using assms(1) [OF i(1) Suc.prems(1)] i(2) by auto
  have "io_ready s1" using submitted_simps(3) [OF s1(2)] Suc.prems(1) by simp
  then obtain s2 where s2: "cache_reqs_loop step n [n - m..<n] (ct (n - m), s1) = Some (ct n, s2, [])" "submitted s1 (map io [n - m..<n]) s2"
    using Suc.IH [of s1] Suc.prems(2) by auto
  have "[?i..<n] = ?i # [n - m..<n]" using i by (simp add: upt_conv_Cons)
  then show ?case using s1 s2 submitted_simps(2) [OF s1(2) s2(2)] by simp
qed

lemma line_ios_carry:
  assumes fits: "req_fits cf req" and rng: "offset + sz \<le> rq_byte_length req" "0 < sz" and n: "n = span (cf_line cf) req offset sz"
  shows "carries (byte_addr cf req) offset (offset + sz) (map (line_io cf r req dir offset sz cb) [0..<n])"
proof -
  note F = req_fitsD [OF fits]
  define ls a where "ls = ocf_line_size (cf_line cf)" and "a = rq_byte_position req + offset"
  define ct where "ct = line_cut ls a sz"
  have ls: "0 < ls" using F by (simp add: ls_def)
  have n': "n = (a + sz - 1) div ls - a div ls + 1" using n span_eq [OF rng(2)] by (simp add: ls_def a_def)
  note B = line_cut_bounds [OF ls rng(2) n', folded ct_def]
  have io: "line_io cf r req dir offset sz cb i = cache_io r dir cb (byte_addr cf req (offset + ct i)) (ct (Suc i) - ct i) (offset + ct i)" for i
    by (simp add: line_io_def Let_def ct_def ls_def a_def)
  have mv: "moves (line_io cf r req dir offset sz cb i) k \<longleftrightarrow> offset + ct i \<le> k \<and> k < offset + ct (Suc i)" if "i < n" for i k
    using B(1) [OF that] by (auto simp: moves_def io cache_io_def)
  have le: "ct i \<le> sz" for i by (simp add: ct_def line_cut_def)
  have part: "offset \<le> k \<and> k < offset + sz \<and> d_addr (line_io cf r req dir offset sz cb i) + (k - (offset + ct i)) = byte_addr cf req k"
    if i: "i < n" and k: "offset + ct i \<le> k" "k < offset + ct (Suc i)" for i k
  proof -
    have q: "(a + ct i) div ls = a div ls + i" "(a + (k - offset)) div ls = a div ls + i"
      using B(1) [OF i] B(3) [OF i, of "ct i"] B(3) [OF i, of "k - offset"] k by auto
    have e: "rq_byte_position req + (offset + ct i) = a + ct i" "rq_byte_position req + k = a + (k - offset)" using k by (auto simp: a_def)
    have "(a + (k - offset)) mod ls = (a + ct i) mod ls + (k - (offset + ct i))"
      using div_mult_mod_eq [of "a + (k - offset)" ls] div_mult_mod_eq [of "a + ct i" ls] k unfolding q by linarith
    then have "byte_addr cf req (offset + ct i) + (k - (offset + ct i)) = byte_addr cf req k"
      unfolding byte_addr_def byte_line_def ls_def [symmetric] e q by simp
    then show ?thesis using k le [of "Suc i"] by (auto simp: io cache_io_def)
  qed
  have ex: "\<exists>!i. i < n \<and> offset + ct i \<le> k \<and> k < offset + ct (Suc i)" if "offset \<le> k" "k < offset + sz" for k
  proof (rule ex_ex1I)
    have "ct 0 = 0" by (simp add: ct_def line_cut_def)
    then have "\<exists>i. \<not> k < offset + ct i \<and> k < offset + ct (Suc i) \<and> i < n"
      using ex_least_nat_less [of "\<lambda>i. k < offset + ct i" n] that B(2) by (metis Suc_le_eq add_0_right le_refl linorder_not_less less_Suc_eq_le)
    then show "\<exists>i. i < n \<and> offset + ct i \<le> k \<and> k < offset + ct (Suc i)" by (auto simp: not_less)
    show "i = j" if "i < n \<and> offset + ct i \<le> k \<and> k < offset + ct (Suc i)" "j < n \<and> offset + ct j \<le> k \<and> k < offset + ct (Suc j)" for i j
      using B(3) [of i "k - offset"] B(3) [of j "k - offset"] that by auto
  qed
  have "\<exists>!i. i < n \<and> moves (line_io cf r req dir offset sz cb i) k" if "offset \<le> k" "k < offset + sz" for k
    using ex [OF that] mv by (auto intro!: ex1I)
  then show ?thesis unfolding carries_def using mv part by (auto simp: io cache_io_def cong: conj_cong)
qed

lemma sub_mod:
  fixes a b M :: nat
  assumes "b \<le> a" "a - b < M"
  shows "(a + (M - b mod M)) mod M = a - b"
proof -
  have "b mod M < M" "b div M * M + b mod M = b" using assms(2) by simp_all
  then have "a + (M - b mod M) = a - b + (b div M * M + M)" using assms(1) by linarith
  also have "\<dots> = a - b + (b div M + 1) * M" by simp
  finally show ?thesis using assms(2) by (simp only: mod_mult_self1 mod_less)
qed

lemma u32_sub_diff: "b \<le> a \<Longrightarrow> a - b < U32_MOD \<Longrightarrow> u32_sub a b = a - b"
  unfolding u32_sub_def by (rule sub_mod)

lemma first_line:
  assumes fits: "req_fits cf req" and rng: "offset + sz \<le> rq_byte_length req" "0 < sz"
  shows "u32_sub (ocf_bytes_2_lines (cf_line cf) ((rq_byte_position req + offset) mod U64_MOD))
      (ocf_bytes_2_lines (cf_line cf) (rq_byte_position req)) = byte_line (cf_line cf) req offset"
    "byte_line (cf_line cf) req offset + span (cf_line cf) req offset sz \<le> rq_core_line_count req"
proof -
  note F = req_fitsD [OF fits]
  let ?ls = "ocf_line_size (cf_line cf)"
  have le: "rq_byte_position req div ?ls \<le> (rq_byte_position req + offset) div ?ls" by (intro div_le_mono) simp
  have le2: "byte_line (cf_line cf) req offset \<le> byte_line (cf_line cf) req (offset + sz - 1)"
    unfolding byte_line_def using rng by (intro diff_le_mono div_le_mono) simp
  have lt: "byte_line (cf_line cf) req (offset + sz - 1) < rq_core_line_count req" using byte_line_less [OF fits] rng by simp
  then show "byte_line (cf_line cf) req offset + span (cf_line cf) req offset sz \<le> rq_core_line_count req"
    using le2 by (simp add: span_def)
  have "(rq_byte_position req + offset) mod U64_MOD = rq_byte_position req + offset" using F(8) rng by simp
  moreover have "byte_line (cf_line cf) req offset < U32_MOD" using lt le2 F(9) by linarith
  ultimately show "u32_sub (ocf_bytes_2_lines (cf_line cf) ((rq_byte_position req + offset) mod U64_MOD))
      (ocf_bytes_2_lines (cf_line cf) (rq_byte_position req)) = byte_line (cf_line cf) req offset"
    using u32_sub_diff [OF le] by (simp add: ocf_bytes_2_lines_def byte_line_def)
qed

lemma byte_addr_consecutive:
  assumes "consecutive cf req (byte_line (cf_line cf) req offset) (span (cf_line cf) req offset sz)" "offset \<le> k" "k < offset + sz"
  shows "byte_addr cf req offset + (k - offset) = byte_addr cf req k"
proof -
  let ?ls = "ocf_line_size (cf_line cf)" and ?p = "rq_byte_position req"
  define j where "j = byte_line (cf_line cf) req k - byte_line (cf_line cf) req offset"
  have le: "?p div ?ls \<le> (?p + offset) div ?ls" "(?p + offset) div ?ls \<le> (?p + k) div ?ls" "(?p + k) div ?ls \<le> (?p + (offset + sz - 1)) div ?ls"
    using assms(2,3) by (auto intro!: div_le_mono)
  have bl: "byte_line (cf_line cf) req k = byte_line (cf_line cf) req offset + j" using le by (simp add: j_def byte_line_def)
  have "j < span (cf_line cf) req offset sz" using le by (simp add: j_def span_def byte_line_def)
  then have c: "cf_lg2phy cf (line_of req (byte_line (cf_line cf) req k)) = cf_lg2phy cf (line_of req (byte_line (cf_line cf) req offset)) + j"
    using assms(1) bl by (simp add: consecutive_def)
  have "(?p + k) div ?ls = (?p + offset) div ?ls + j" using le by (simp add: j_def byte_line_def)
  then have "j * ?ls + (?p + k) mod ?ls = (?p + offset) mod ?ls + (k - offset)"
    using div_mult_mod_eq [of "?p + k" ?ls] div_mult_mod_eq [of "?p + offset" ?ls] assms(2)
    by (simp only: add_mult_distrib)
  then show ?thesis unfolding byte_addr_def c by (simp add: algebra_simps)
qed

text \<open>A range that is submitted line by line, or in one piece.\<close>

lemma submit_cache_reqs_ok:
  assumes fits: "req_fits cf req" and ready: "io_ready s" and p: "p < OCF_IO_CLASS_MAX" and dir: "dir < 2"
    and rng: "offset + sz \<le> rq_byte_length req" "0 < sz" and al: "512 dvd offset" "512 dvd sz"
    and reqs: "reqs = span (cf_line cf) req offset sz \<or>
      reqs = 1 \<and> consecutive cf req (byte_line (cf_line cf) req offset) (span (cf_line cf) req offset sz)"
  shows "\<exists>s' ios. ocf_submit_cache_reqs cf s r req p dir offset sz reqs cb = Some (s', []) \<and> submitted s ios s' \<and> length ios = reqs \<and>
    carries (byte_addr cf req) offset (offset + sz) ios \<and>
    (\<forall>io \<in> set ios. d_kind io = DataIO \<and> d_vol io = CacheVolume \<and> d_dir io = dir \<and> d_req io = r \<and> d_cb io = cb)"
proof -
  note F = req_fitsD [OF fits] and L = first_line [OF fits rng]
  let ?st = "cf_line cf" and ?first = "byte_line (cf_line cf) req offset" and ?n = "span (cf_line cf) req offset sz"
  have le: "?first + reqs \<le> rq_core_line_count req" "0 < reqs" using L(2) reqs by (auto simp: span_def)
  have ok: "\<not> rq_byte_length req < (offset + sz) mod U64_MOD" "\<not> (?first + reqs) mod U32_MOD > rq_core_line_count req"
    using rng(1) le F(6,9) by auto
  show ?thesis
  proof (cases "reqs = 1")
    case True
    have con: "consecutive cf req ?first ?n" using reqs True by (auto simp: consecutive_def) (metis One_nat_def less_one add_0_right)
    obtain e where e: "req_entry req ?first = Some e" using F(11) [of ?first] le by auto
    have el: "mi_coll_idx e = line_of req ?first" by (simp add: line_of_def e)
    have a: "(rq_byte_position req + offset) mod U64_MOD = rq_byte_position req + offset" using F(8) rng by simp
    have addr: "(line_addr cf (mi_coll_idx e) + (rq_byte_position req + offset) mod ocf_line_size ?st) mod U64_MOD = byte_addr cf req offset"
      unfolding el byte_addr_def using F(1) le by (intro line_addr_fits [OF fits]) auto
    let ?io = "cache_io r dir cb (byte_addr cf req offset) sz offset"
    have "sz < U32_MOD" "offset < U32_MOD" using rng F(6) by auto
    then obtain s' where s': "submit_cache_io s r req p dir (byte_addr cf req offset) sz offset cb = Some (Inr s')" "submitted s [?io] s'"
      using submit_cache_io_ok [OF ready p dir byte_addr_dvd [OF fits al(1)] al(2)] by blast
    have "carries (byte_addr cf req) offset (offset + sz) [?io]"
      using byte_addr_consecutive [OF con] by (auto simp: carries_def moves_def cache_io_def)
    then show ?thesis
      using s' e True by (intro exI [of _ s'] exI [of _ "[?io]"])
        (use ok in \<open>simp add: ocf_submit_cache_reqs_def L(1) [unfolded a] a addr cache_io_def Let_def\<close>)
  next
    case False
    then have n: "reqs = ?n" using reqs by auto
    define ct where "ct = line_cut (ocf_line_size ?st) (rq_byte_position req + offset) sz"
    define io where "io = line_io cf r req dir offset sz cb"
    have step: "\<exists>s'. cache_req_step cf r req p dir offset sz reqs cb ?first i (ct i, s) = Some (Inr (ct (Suc i), s')) \<and> submitted s [io i] s'"
      if "i < reqs" "io_ready s" for i s
      using cache_req_step_ok [OF fits that(2) p dir rng al n that(1)] by (simp add: ct_def io_def line_io_def Let_def)
    obtain s' where s': "cache_reqs_loop (cache_req_step cf r req p dir offset sz reqs cb ?first) reqs [0..<reqs] (ct 0, s) = Some (ct reqs, s', [])"
      "submitted s (map io [0..<reqs]) s'"
      using cache_reqs_loop_ok [where ct = ct and io = io and m = reqs, OF step ready order_refl] by auto
    have ct: "ct 0 = 0" "ct reqs = sz"
      using line_cut_bounds(2) [OF F(1) rng(2) n [unfolded span_eq [OF rng(2)]]] by (simp_all add: ct_def line_cut_def)
    show ?thesis
      using s' ct line_ios_carry [OF fits rng n, of r dir cb] False ok
      by (intro exI [of _ s'] exI [of _ "map io [0..<reqs]"])
        (auto simp: ocf_submit_cache_reqs_def L(1) io_def line_io_def cache_io_def Let_def)
  qed
qed

text \<open>
  C5. The data path of a request is exact. When every I/O can be allocated and takes its buffer, submitting a non-empty, sector-aligned range of bytes
  \<open>offset..<offset + sz\<close> of a request to the cache device, with one I/O per cache line or with a single one for lines that follow each other on the device, trips no assertion and calls no error callback: it issues
  \<open>reqs\<close> I/Os, every byte of the range is moved by exactly one of them, between its place in the buffer and the place that the layout gives it in
  the cache line of its core line, and no other byte is touched.
\<close>

theorem submit_cache_reqs_exact:
  assumes fits: "req_fits cf req" and ready: "io_ready s" and p: "p < OCF_IO_CLASS_MAX" and dir: "dir < 2"
    and rng: "offset + sz \<le> rq_byte_length req" "0 < sz" and al: "512 dvd offset" "512 dvd sz"
    and reqs: "reqs = span (cf_line cf) req offset sz \<or>
      reqs = 1 \<and> consecutive cf req (byte_line (cf_line cf) req offset) (span (cf_line cf) req offset sz)"
  shows "\<exists>s' ios. ocf_submit_cache_reqs cf s r req p dir offset sz reqs cb = Some (s', []) \<and> submitted s ios s' \<and> length ios = reqs \<and>
    carries (byte_addr cf req) offset (offset + sz) ios \<and>
    (\<forall>io \<in> set ios. d_kind io = DataIO \<and> d_vol io = CacheVolume \<and> d_dir io = dir \<and> d_req io = r \<and> d_cb io = cb)"
  by (rule submit_cache_reqs_ok [OF assms])

definition example_io_cfg :: io_cfg where
  "example_io_cfg = \<lparr>cf_line = \<lparr>ls_size = 4096, ls_sector_count = 8, ls_sector_start = 0, ls_sector_end = 7\<rparr>, cf_offset = 8192, cf_lg2phy = (\<lambda>x. x)\<rparr>"

definition example_io_req :: ocf_request where
  "example_io_req = request_zero\<lparr>rq_byte_position := 3584, rq_byte_length := 1024, rq_core_line_first := 0, rq_core_line_last := 1,
     rq_core_line_count := 2, rq_map := Some [map_info_zero\<lparr>mi_coll_idx := 7\<rparr>, map_info_zero\<lparr>mi_coll_idx := 3\<rparr>]\<rparr>"

definition example_io_state :: "nat io_state" where
  "example_io_state = \<lparr>st_ios = [], st_made = 0, st_new_ok = \<lambda>_. True, st_set_data = \<lambda>_. 0,
     st_counters = \<lambda>_. \<lparr>core_errors = ocf_stats_error_init, cache_errors = ocf_stats_error_init, part_counters = \<lambda>_. ocf_stats_part_init\<rparr>\<rparr>"

lemma example_io_fits: "req_fits example_io_cfg example_io_req"
  by (auto simp: req_fits_def example_io_cfg_def example_io_req_def request_zero_def line_of_def req_entry_def ocf_line_size_def Let_def
      less_Suc_eq numeral_2_eq_2 map_info_zero_def)

theorem submit_cache_reqs_exact_witness:
  "\<exists>s' ios. ocf_submit_cache_reqs example_io_cfg example_io_state 0 example_io_req 0 OCF_READ 0 1024 2 (5 :: nat) = Some (s', []) \<and>
    submitted example_io_state ios s' \<and> length ios = 2 \<and> carries (byte_addr example_io_cfg example_io_req) 0 1024 ios \<and>
    (\<forall>io \<in> set ios. d_kind io = DataIO \<and> d_vol io = CacheVolume \<and> d_dir io = OCF_READ \<and> d_req io = 0 \<and> d_cb io = 5) \<and>
    byte_addr example_io_cfg example_io_req 511 = 40959 \<and> byte_addr example_io_cfg example_io_req 512 = 20480"
proof -
  have "io_ready example_io_state" by (simp add: io_ready_def example_io_state_def)
  moreover have "2 = span (cf_line example_io_cfg) example_io_req 0 1024"
    by (simp add: span_def byte_line_def example_io_cfg_def example_io_req_def ocf_line_size_def)
  ultimately show ?thesis
    using submit_cache_reqs_exact [OF example_io_fits, of example_io_state 0 OCF_READ 0 1024 2 0 "5 :: nat"]
    by (simp add: OCF_IO_CLASS_MAX_def OCF_READ_def)
      (simp add: byte_addr_def byte_line_def line_of_def req_entry_def example_io_cfg_def example_io_req_def ocf_line_size_def)
qed

end
