(* ===== verification/Engines.thy ===== *)
theory Engines
  imports DataIO Dispatch
begin

unbundle bit_operations_syntax

section \<open>The I/O engines\<close>

text \<open>
  The engines of \<^verbatim>\<open>src/engine/\<close>: generic reads, write-through, write-back, write-around, write-invalidate, pass-through, write-only, the
  multi-factor reads, the fast path, backfill, invalidation, direct I/O and operations, with the part of \<^verbatim>\<open>engine_common.c\<close> that
  prepares the lines of a request and resumes it.

  The state holds the metadata, the devices byte by byte, the buffers, the queue, and the I/Os and metadata flushes that are under way. Requests are
  kept in the request table of the line locks and named by their index. An engine function runs to its end; the completion of an I/O and the
  next request of the queue are separate steps, chosen in any order by the environment. A completion callback is a
  constructor of type \<open>cb\<close>, and \<open>run_cb\<close> dispatches to the function it names. Using a request after it was freed fails.
\<close>

subsection \<open>State\<close>

type_synonym byte = "8 word"

datatype cb = cb_read_hit | cb_read_miss | cb_wt_cache | cb_wt_core | cb_wb | cb_wb_flush_metadata | cb_wi_core | cb_wi_flush_metadata
  | cb_wa | cb_pt | cb_invalidate | cb_backfill | cb_d2c | cb_fast | cb_ops | cb_wo_cache | cb_wo_core
  | cb_discard_step | cb_discard_flush | cb_discard_core | cb_zero_flush_metadata
  | cb_mfwa_cache | cb_mfwa_promote | cb_mfwa_no_promote | cb_mfwb_cache | cb_mfwb_promote | cb_mfwb_no_promote

datatype resume_fn = RESUME_ocf_engine_on_resume | RESUME_ocf_write_wi_on_resume | RESUME_ocf_discard_on_resume

datatype ocf_engine_lock_type = ocf_engine_lock_none | ocf_engine_lock_write | ocf_engine_lock_read

text \<open>
  \<open>w_io_if\<close> and \<open>w_priv\<close> are the fields \<^verbatim>\<open>io_if\<close> and \<^verbatim>\<open>priv\<close> of the requests, \<open>w_data\<close> and \<open>w_cp_data\<close> their buffers. \<open>w_done\<close> lists the calls of
  \<^verbatim>\<open>req->complete\<close> with the error and what the buffer holds at that moment. \<open>w_flushes\<close> are metadata flushes under way, \<open>w_cleaning\<close> the requests handed to the
  cleaner. The environment answers whether waiters, copy buffers and their pinning can be had.
\<close>

record 's engine_world =
  w_cache :: "'s cache"
  w_cfg :: io_cfg
  w_io :: "cb io_state"
  w_cachedev :: "u64 \<Rightarrow> byte"
  w_coredev :: "core_id \<Rightarrow> u64 \<Rightarrow> byte"
  w_data :: "nat \<Rightarrow> (nat \<Rightarrow> byte) option"
  w_cp_data :: "nat \<Rightarrow> (nat \<Rightarrow> byte) option"
  w_io_class :: "nat \<Rightarrow> part_id"
  w_io_if :: "nat \<Rightarrow> ocf_io_if"
  w_priv :: "nat \<Rightarrow> ocf_io_if option"
  w_resume :: "nat \<Rightarrow> resume_fn"
  w_queue :: "nat list"
  w_flushes :: "(nat \<times> cb) list"
  w_cleaning :: "nat list"
  w_done :: "(nat \<times> int \<times> (nat \<Rightarrow> byte) option) list"
  w_freed :: "nat list"
  w_ctx :: req_ctx
  w_mode :: mode_ctx
  w_promo :: promotion_policy
  w_cachelines :: nat
  w_misses :: int
  w_blocked :: bool
  w_backfill_max :: nat
  w_backfill_unblock :: nat
  w_running :: bool
  w_metadata_error :: bool
  w_waiter_ok :: "nat \<Rightarrow> bool"
  w_cp_ok :: "nat \<Rightarrow> bool"
  w_mlock :: "nat \<Rightarrow> int"
  w_data_admit :: bool
  w_load_admit :: "nat \<Rightarrow> bool"

type_synonym 'w world = "'w word status_map engine_world"

subsection \<open>Access to requests\<close>

definition getr :: "nat \<Rightarrow> 'w::len world \<Rightarrow> ocf_request option" where
  "getr r w = (if r \<in> set (w_freed w) then None else Some (cl_reqs (ca_locks (w_cache w)) r))"

definition set_locks :: "clc \<Rightarrow> 'w::len world \<Rightarrow> 'w world" where
  "set_locks l w = w\<lparr>w_cache := (w_cache w)\<lparr>ca_locks := l\<rparr>\<rparr>"

definition putr :: "nat \<Rightarrow> ocf_request \<Rightarrow> 'w::len world \<Rightarrow> 'w world" where
  "putr r req w = set_locks ((ca_locks (w_cache w))\<lparr>cl_reqs := (cl_reqs (ca_locks (w_cache w)))(r := req)\<rparr>) w"

definition modr :: "nat \<Rightarrow> (ocf_request \<Rightarrow> ocf_request) \<Rightarrow> 'w::len world \<Rightarrow> 'w world option" where
  "modr r f w = do { req \<leftarrow> getr r w; Some (putr r (f req) w) }"

definition on_meta ::
  "nat \<Rightarrow> ('w::len wcache \<Rightarrow> ocf_request \<Rightarrow> ('w wcache \<times> ocf_request) option) \<Rightarrow> 'w world \<Rightarrow> 'w world option" where
  "on_meta r f w = do {
     req \<leftarrow> getr r w;
     (c, req) \<leftarrow> f (w_cache w) req;
     Some (putr r req (w\<lparr>w_cache := c\<rparr>)) }"

definition on_locks :: "nat \<Rightarrow> (nat \<Rightarrow> clc \<Rightarrow> clc option) \<Rightarrow> 'w::len world \<Rightarrow> 'w world option" where
  "on_locks r f w = do {
     _ \<leftarrow> getr r w;
     l \<leftarrow> f r (ca_locks (w_cache w));
     Some (set_locks l w) }"

definition req_get :: "nat \<Rightarrow> 'w::len world \<Rightarrow> 'w world option" where
  "req_get r = modr r ocf_req_get"

definition req_put :: "nat \<Rightarrow> 'w::len world \<Rightarrow> 'w world option" where
  "req_put r w = do {
     req \<leftarrow> getr r w;
     (res, x) \<leftarrow> ocf_req_put (w_ctx w) req;
     let w = w\<lparr>w_ctx := x\<rparr>;
     Some (case res of None \<Rightarrow> w\<lparr>w_freed := r # w_freed w\<rparr> | Some req \<Rightarrow> putr r req w) }"

definition req_complete :: "nat \<Rightarrow> int \<Rightarrow> 'w::len world \<Rightarrow> 'w world option" where
  "req_complete r err w = do {
     _ \<leftarrow> getr r w;
     Some (w\<lparr>w_done := w_done w @ [(r, err, w_data w r)]\<rparr>) }"

definition set_remaining :: "nat \<Rightarrow> int \<Rightarrow> 'w::len world \<Rightarrow> 'w world option" where
  "set_remaining r v = modr r (\<lambda>req. req\<lparr>rq_req_remaining := v\<rparr>)"

definition dec_remaining :: "nat \<Rightarrow> 'w::len world \<Rightarrow> (int \<times> 'w world) option" where
  "dec_remaining r w = do {
     req \<leftarrow> getr r w;
     let v = rq_req_remaining req - 1;
     Some (v, putr r (req\<lparr>rq_req_remaining := v\<rparr>) w) }"

definition set_error :: "nat \<Rightarrow> int \<Rightarrow> 'w::len world \<Rightarrow> 'w world option" where
  "set_error r err = modr r (\<lambda>req. req\<lparr>rq_error := err\<rparr>)"

definition or_error :: "nat \<Rightarrow> int \<Rightarrow> 'w::len world \<Rightarrow> 'w world option" where
  "or_error r err = modr r (\<lambda>req. req\<lparr>rq_error := rq_error req OR err\<rparr>)"

definition set_core_error :: "nat \<Rightarrow> 'w::len world \<Rightarrow> 'w world option" where
  "set_core_error r = modr r (upd_info (\<lambda>i. i\<lparr>ri_core_error := True\<rparr>))"

definition req_err :: "nat \<Rightarrow> 'w::len world \<Rightarrow> int option" where
  "req_err r w = map_option rq_error (getr r w)"

definition upd_stats :: "nat \<Rightarrow> (ocf_request \<Rightarrow> ocf_counters_core \<Rightarrow> ocf_counters_core option) \<Rightarrow> 'w::len world \<Rightarrow> 'w world option" where
  "upd_stats r f w = do {
     req \<leftarrow> getr r w;
     s \<leftarrow> upd_counters (rq_core_id req) (f req) (w_io w);
     Some (w\<lparr>w_io := s\<rparr>) }"

definition cache_error_update :: "nat \<Rightarrow> nat \<Rightarrow> 'w::len world \<Rightarrow> 'w world option" where
  "cache_error_update r dir = upd_stats r (\<lambda>req. ocf_core_stats_cache_error_update dir)"

definition core_error_update :: "nat \<Rightarrow> nat \<Rightarrow> 'w::len world \<Rightarrow> 'w world option" where
  "core_error_update r dir = upd_stats r (\<lambda>req. ocf_core_stats_core_error_update dir)"

definition inc_fallback :: "'w::len world \<Rightarrow> 'w world option" where
  "inc_fallback w = do { m \<leftarrow> inc_fallback_pt_error_counter (w_mode w); Some (w\<lparr>w_mode := m\<rparr>) }"

subsection \<open>Pushing a request to the front of its queue\<close>

definition req_if :: "engine_fn \<Rightarrow> ocf_io_if" where
  "req_if f = \<lparr>io_read = f, io_write = f, io_name = ''''\<rparr>"

definition push_req_front :: "nat \<Rightarrow> 'w::len world \<Rightarrow> 'w world option" where
  "push_req_front r w = do { _ \<leftarrow> getr r w; Some (w\<lparr>w_queue := r # w_queue w\<rparr>) }"

definition push_req_front_if :: "nat \<Rightarrow> ocf_io_if \<Rightarrow> 'w::len world \<Rightarrow> 'w world option" where
  "push_req_front_if r io_if w = do {
     w \<leftarrow> set_error r 0 w;
     push_req_front r (w\<lparr>w_io_if := (w_io_if w)(r := io_if)\<rparr>) }"

definition ocf_engine_push_req_front_pt :: "nat \<Rightarrow> 'w::len world \<Rightarrow> 'w world option" where
  "ocf_engine_push_req_front_pt r = push_req_front_if r (req_if FN_ocf_read_pt_do)"

definition ocf_engine_invalidate :: "nat \<Rightarrow> 'w::len world \<Rightarrow> 'w world option" where
  "ocf_engine_invalidate r = push_req_front_if r (req_if FN_ocf_invalidate_do)"

definition backfill_queue_inc_block :: "'w::len world \<Rightarrow> 'w world" where
  "backfill_queue_inc_block w =
     (let v = w_misses w + 1; w = w\<lparr>w_misses := v\<rparr>
      in if v mod int U32_MOD \<ge> int (w_backfill_max w) then w\<lparr>w_blocked := True\<rparr> else w)"

definition backfill_queue_dec_unblock :: "'w::len world \<Rightarrow> 'w world" where
  "backfill_queue_dec_unblock w =
     (let w = w\<lparr>w_misses := w_misses w - 1\<rparr>
      in if \<not> w_blocked w then w
         else if w_misses w mod int U32_MOD < int (w_backfill_unblock w) then w\<lparr>w_blocked := False\<rparr> else w)"

definition ocf_engine_backfill :: "nat \<Rightarrow> 'w::len world \<Rightarrow> 'w world option" where
  "ocf_engine_backfill r w = push_req_front_if r (req_if FN_ocf_backfill_do) (backfill_queue_inc_block w)"

subsection \<open>Completions\<close>

text \<open>
  Every completion counts the I/Os that are left down and goes on with the last one. They are listed in the order of the engines.
\<close>

definition ocf_read_generic_hit_complete :: "nat \<Rightarrow> int \<Rightarrow> 'w::len world \<Rightarrow> 'w world option" where
  "ocf_read_generic_hit_complete r err w = do {
     w \<leftarrow> (if err \<noteq> 0 then or_error r err w else Some w);
     e \<leftarrow> req_err r w;
     w \<leftarrow> (if e \<noteq> 0 then inc_fallback w else Some w);
     (left, w) \<leftarrow> dec_remaining r w;
     if left = 0 then
       if e \<noteq> 0 then do {
         w \<leftarrow> cache_error_update r OCF_READ w;
         ocf_engine_push_req_front_pt r w }
       else do {
         w \<leftarrow> on_locks r ocf_req_unlock w;
         w \<leftarrow> req_complete r e w;
         req_put r w }
     else Some w }"

text \<open>The failed miss and the failed promotion share their tail: complete, count the error, free the copy and invalidate the lines.\<close>

definition miss_failed :: "nat \<Rightarrow> int \<Rightarrow> 'w::len world \<Rightarrow> 'w world option" where
  "miss_failed r e w = do {
     w \<leftarrow> req_complete r e w;
     w \<leftarrow> set_core_error r w;
     w \<leftarrow> core_error_update r OCF_READ w;
     let w = w\<lparr>w_cp_data := (w_cp_data w)(r := None)\<rparr>;
     ocf_engine_invalidate r w }"

text \<open>Copying the buffer to the copy; there is no copy to copy to when it was never allocated.\<close>

definition copy_to_cp :: "nat \<Rightarrow> 'w::len world \<Rightarrow> 'w world option" where
  "copy_to_cp r w = do {
     req \<leftarrow> getr r w;
     d \<leftarrow> w_data w r;
     cp \<leftarrow> w_cp_data w r;
     Some (w\<lparr>w_cp_data := (w_cp_data w)(r := Some (\<lambda>k. if k < rq_byte_length req then d k else cp k))\<rparr>) }"

definition ocf_read_generic_miss_complete :: "nat \<Rightarrow> int \<Rightarrow> 'w::len world \<Rightarrow> 'w world option" where
  "ocf_read_generic_miss_complete r err w = do {
     w \<leftarrow> (if err \<noteq> 0 then set_error r err w else Some w);
     (left, w) \<leftarrow> dec_remaining r w;
     if left = 0 then do {
       e \<leftarrow> req_err r w;
       if e \<noteq> 0 then miss_failed r e w
       else do {
         w \<leftarrow> copy_to_cp r w;
         w \<leftarrow> req_complete r e w;
         ocf_engine_backfill r w } }
     else Some w }"

definition ocf_write_wt_req_complete :: "nat \<Rightarrow> 'w::len world \<Rightarrow> 'w world option" where
  "ocf_write_wt_req_complete r w = do {
     (left, w) \<leftarrow> dec_remaining r w;
     if left \<noteq> 0 then Some w
     else do {
       req \<leftarrow> getr r w;
       let res = (if ri_core_error (rq_info req) then rq_error req else 0);
       if rq_error req \<noteq> 0 then do {
         w \<leftarrow> req_complete r res w;
         ocf_engine_invalidate r w }
       else do {
         w \<leftarrow> on_locks r ocf_req_unlock_wr w;
         w \<leftarrow> req_complete r res w;
         req_put r w } } }"

definition ocf_write_wt_cache_complete :: "nat \<Rightarrow> int \<Rightarrow> 'w::len world \<Rightarrow> 'w world option" where
  "ocf_write_wt_cache_complete r err w = do {
     w \<leftarrow> (if err \<noteq> 0 then do {
         w \<leftarrow> modr r (\<lambda>req. req\<lparr>rq_error := if rq_error req \<noteq> 0 then rq_error req else err\<rparr>) w;
         w \<leftarrow> cache_error_update r OCF_WRITE w;
         e \<leftarrow> req_err r w;
         if e \<noteq> 0 then inc_fallback w else Some w }
       else Some w);
     ocf_write_wt_req_complete r w }"

definition ocf_write_wt_core_complete :: "nat \<Rightarrow> int \<Rightarrow> 'w::len world \<Rightarrow> 'w world option" where
  "ocf_write_wt_core_complete r err w = do {
     w \<leftarrow> (if err \<noteq> 0 then do {
         w \<leftarrow> set_error r err w;
         w \<leftarrow> set_core_error r w;
         core_error_update r OCF_WRITE w }
       else Some w);
     ocf_write_wt_req_complete r w }"

text \<open>\<^verbatim>\<open>ocf_engine_error\<close> stops the cache when asked to; the log message is left out.\<close>

definition ocf_engine_error :: "nat \<Rightarrow> bool \<Rightarrow> 'w::len world \<Rightarrow> 'w world option" where
  "ocf_engine_error r stop_cache w = do {
     _ \<leftarrow> getr r w;
     Some (if stop_cache then w\<lparr>w_running := False\<rparr> else w) }"

definition ocf_write_wb_io_flush_metadata :: "nat \<Rightarrow> int \<Rightarrow> 'w::len world \<Rightarrow> 'w world option" where
  "ocf_write_wb_io_flush_metadata r err w = do {
     w \<leftarrow> (if err \<noteq> 0 then set_error r err w else Some w);
     (left, w) \<leftarrow> dec_remaining r w;
     if left \<noteq> 0 then Some w
     else do {
       e \<leftarrow> req_err r w;
       w \<leftarrow> (if e \<noteq> 0 then ocf_engine_error r True w else Some w);
       w \<leftarrow> on_locks r ocf_req_unlock_wr w;
       w \<leftarrow> req_complete r e w;
       req_put r w } }"

definition ocf_write_wb_complete :: "nat \<Rightarrow> int \<Rightarrow> 'w::len world \<Rightarrow> 'w world option" where
  "ocf_write_wb_complete r err w = do {
     w \<leftarrow> (if err \<noteq> 0 then do {
         w \<leftarrow> cache_error_update r OCF_WRITE w;
         or_error r err w }
       else Some w);
     (left, w) \<leftarrow> dec_remaining r w;
     if left \<noteq> 0 then Some w
     else do {
       e \<leftarrow> req_err r w;
       if e \<noteq> 0 then do {
         w \<leftarrow> ocf_engine_error r True w;
         w \<leftarrow> req_complete r e w;
         ocf_engine_invalidate r w }
       else push_req_front_if r (req_if FN_ocf_write_wb_do_flush_metadata) w } }"

definition ocf_write_wi_io_flush_metadata :: "nat \<Rightarrow> int \<Rightarrow> 'w::len world \<Rightarrow> 'w world option" where
  "ocf_write_wi_io_flush_metadata r err w = do {
     w \<leftarrow> (if err \<noteq> 0 then do {
         w \<leftarrow> cache_error_update r OCF_WRITE w;
         or_error r err w }
       else Some w);
     (left, w) \<leftarrow> dec_remaining r w;
     if left \<noteq> 0 then Some w
     else do {
       e \<leftarrow> req_err r w;
       w \<leftarrow> (if e \<noteq> 0 then ocf_engine_error r True w else Some w);
       w \<leftarrow> on_locks r ocf_req_unlock_wr w;
       w \<leftarrow> req_complete r e w;
       req_put r w } }"

definition ocf_write_wi_core_complete :: "nat \<Rightarrow> int \<Rightarrow> 'w::len world \<Rightarrow> 'w world option" where
  "ocf_write_wi_core_complete r err w = do {
     w \<leftarrow> (if err \<noteq> 0 then do {
         w \<leftarrow> set_error r err w;
         w \<leftarrow> set_core_error r w;
         core_error_update r OCF_WRITE w }
       else Some w);
     (left, w) \<leftarrow> dec_remaining r w;
     if left \<noteq> 0 then Some w
     else do {
       e \<leftarrow> req_err r w;
       if e \<noteq> 0 then do {
         w \<leftarrow> on_locks r ocf_req_unlock_wr w;
         w \<leftarrow> req_complete r e w;
         req_put r w }
       else push_req_front_if r (req_if FN_ocf_write_wi_update_and_flush_metadata) w } }"

text \<open>The completion of a write that goes to the core only, named after reads in the source.\<close>

definition ocf_read_wa_complete :: "nat \<Rightarrow> int \<Rightarrow> 'w::len world \<Rightarrow> 'w world option" where
  "ocf_read_wa_complete r err w = do {
     w \<leftarrow> (if err \<noteq> 0 then or_error r err w else Some w);
     (left, w) \<leftarrow> dec_remaining r w;
     if left \<noteq> 0 then Some w
     else do {
       e \<leftarrow> req_err r w;
       w \<leftarrow> (if e \<noteq> 0 then do { w \<leftarrow> set_core_error r w; core_error_update r OCF_WRITE w } else Some w);
       w \<leftarrow> req_complete r e w;
       req_put r w } }"

definition ocf_read_pt_complete :: "nat \<Rightarrow> int \<Rightarrow> 'w::len world \<Rightarrow> 'w world option" where
  "ocf_read_pt_complete r err w = do {
     w \<leftarrow> (if err \<noteq> 0 then or_error r err w else Some w);
     (left, w) \<leftarrow> dec_remaining r w;
     if left \<noteq> 0 then Some w
     else do {
       e \<leftarrow> req_err r w;
       w \<leftarrow> (if e \<noteq> 0 then do { w \<leftarrow> set_core_error r w; core_error_update r OCF_READ w } else Some w);
       w \<leftarrow> req_complete r e w;
       w \<leftarrow> on_locks r ocf_req_unlock_rd w;
       req_put r w } }"

definition ocf_invalidate_req :: "nat \<Rightarrow> int \<Rightarrow> 'w::len world \<Rightarrow> 'w world option" where
  "ocf_invalidate_req r err w = do {
     w \<leftarrow> (if err \<noteq> 0 then do {
         w \<leftarrow> set_error r err w;
         cache_error_update r OCF_WRITE w }
       else Some w);
     (left, w) \<leftarrow> dec_remaining r w;
     if left \<noteq> 0 then Some w
     else do {
       e \<leftarrow> req_err r w;
       w \<leftarrow> (if e \<noteq> 0 then ocf_engine_error r True w else Some w);
       w \<leftarrow> on_locks r ocf_req_unlock w;
       req_put r w } }"

definition ocf_backfill_complete :: "nat \<Rightarrow> int \<Rightarrow> 'w::len world \<Rightarrow> 'w world option" where
  "ocf_backfill_complete r err w = do {
     w \<leftarrow> (if err \<noteq> 0 then set_error r err w else Some w);
     e \<leftarrow> req_err r w;
     w \<leftarrow> (if e \<noteq> 0 then inc_fallback w else Some w);
     (left, w) \<leftarrow> dec_remaining r w;
     if left \<noteq> 0 then Some w
     else do {
       let w = w\<lparr>w_data := (w_data w)(r := None)\<rparr>;
       if e \<noteq> 0 then do {
         w \<leftarrow> cache_error_update r OCF_WRITE w;
         ocf_engine_invalidate r w }
       else do {
         w \<leftarrow> on_locks r ocf_req_unlock w;
         req_put r w } } }"

definition ocf_d2c_completion :: "nat \<Rightarrow> int \<Rightarrow> 'w::len world \<Rightarrow> 'w world option" where
  "ocf_d2c_completion r err w = do {
     w \<leftarrow> set_error r err w;
     req \<leftarrow> getr r w;
     w \<leftarrow> (if rq_error req \<noteq> 0 then do { w \<leftarrow> set_core_error r w; core_error_update r (rq_rw req) w } else Some w);
     w \<leftarrow> req_complete r (rq_error req) w;
     req_put r w }"

definition ocf_read_fast_complete :: "nat \<Rightarrow> int \<Rightarrow> 'w::len world \<Rightarrow> 'w world option" where
  "ocf_read_fast_complete r err w = do {
     w \<leftarrow> (if err \<noteq> 0 then or_error r err w else Some w);
     (left, w) \<leftarrow> dec_remaining r w;
     if left \<noteq> 0 then Some w
     else do {
       e \<leftarrow> req_err r w;
       if e \<noteq> 0 then do {
         w \<leftarrow> cache_error_update r OCF_READ w;
         ocf_engine_push_req_front_pt r w }
       else do {
         w \<leftarrow> on_locks r ocf_req_unlock w;
         w \<leftarrow> req_complete r e w;
         req_put r w } } }"

definition ocf_engine_ops_complete :: "nat \<Rightarrow> int \<Rightarrow> 'w::len world \<Rightarrow> 'w world option" where
  "ocf_engine_ops_complete r err w = do {
     w \<leftarrow> (if err \<noteq> 0 then or_error r err w else Some w);
     (left, w) \<leftarrow> dec_remaining r w;
     if left \<noteq> 0 then Some w
     else do {
       e \<leftarrow> req_err r w;
       w \<leftarrow> (if e \<noteq> 0 then ocf_engine_error r False w else Some w);
       w \<leftarrow> req_complete r e w;
       req_put r w } }"

definition ocf_read_wo_cache_complete :: "nat \<Rightarrow> int \<Rightarrow> 'w::len world \<Rightarrow> 'w world option" where
  "ocf_read_wo_cache_complete r err w = do {
     w \<leftarrow> (if err \<noteq> 0 then do {
         w \<leftarrow> cache_error_update r OCF_READ w;
         or_error r err w }
       else Some w);
     (left, w) \<leftarrow> dec_remaining r w;
     if left \<noteq> 0 then Some w
     else do {
       e \<leftarrow> req_err r w;
       w \<leftarrow> (if e \<noteq> 0 then ocf_engine_error r True w else Some w);
       w \<leftarrow> on_locks r ocf_req_unlock_rd w;
       w \<leftarrow> req_complete r e w;
       req_put r w } }"

definition ocf_read_wo_core_complete :: "nat \<Rightarrow> int \<Rightarrow> 'w::len world \<Rightarrow> 'w world option" where
  "ocf_read_wo_core_complete r err w = do {
     w \<leftarrow> (if err \<noteq> 0 then do {
         w \<leftarrow> or_error r err w;
         w \<leftarrow> set_core_error r w;
         core_error_update r OCF_READ w }
       else Some w);
     req \<leftarrow> getr r w;
     if ri_dirty_any (rq_info req) = 0 \<or> rq_error req \<noteq> 0 then do {
       w \<leftarrow> req_complete r (rq_error req) w;
       w \<leftarrow> on_locks r ocf_req_unlock_rd w;
       req_put r w }
     else push_req_front r (w\<lparr>w_io_if := (w_io_if w)(r := req_if FN_ocf_read_wo_cache_do)\<rparr>) }"

definition ocf_read_mfwa_to_cache_cmpl :: "nat \<Rightarrow> int \<Rightarrow> 'w::len world \<Rightarrow> 'w world option" where
  "ocf_read_mfwa_to_cache_cmpl r err w = do {
     w \<leftarrow> (if err \<noteq> 0 then or_error r err w else Some w);
     e \<leftarrow> req_err r w;
     w \<leftarrow> (if e \<noteq> 0 then inc_fallback w else Some w);
     (left, w) \<leftarrow> dec_remaining r w;
     if left = 0 then
       if e \<noteq> 0 then do {
         w \<leftarrow> cache_error_update r OCF_READ w;
         ocf_engine_push_req_front_pt r w }
       else do {
         w \<leftarrow> on_locks r ocf_req_unlock w;
         w \<leftarrow> req_complete r e w;
         req_put r w }
     else Some w }"

definition ocf_read_mfwa_to_core_cmpl_do_promote :: "nat \<Rightarrow> int \<Rightarrow> 'w::len world \<Rightarrow> 'w world option" where
  "ocf_read_mfwa_to_core_cmpl_do_promote r err w = do {
     w \<leftarrow> (if err \<noteq> 0 then set_error r err w else Some w);
     (left, w) \<leftarrow> dec_remaining r w;
     if left = 0 then do {
       e \<leftarrow> req_err r w;
       if e \<noteq> 0 then miss_failed r e w
       else do {
         w \<leftarrow> copy_to_cp r w;
         w \<leftarrow> req_complete r e w;
         ocf_engine_backfill r w } }
     else Some w }"

definition ocf_read_mfwa_to_core_cmpl_no_promote :: "nat \<Rightarrow> int \<Rightarrow> 'w::len world \<Rightarrow> 'w world option" where
  "ocf_read_mfwa_to_core_cmpl_no_promote r err w = do {
     w \<leftarrow> (if err \<noteq> 0 then set_error r err w else Some w);
     (left, w) \<leftarrow> dec_remaining r w;
     if left = 0 then do {
       e \<leftarrow> req_err r w;
       if e \<noteq> 0 then miss_failed r e w
       else do {
         w \<leftarrow> req_complete r e w;
         req_put r w } }
     else Some w }"

definition ocf_read_mfwb_to_cache_cmpl :: "nat \<Rightarrow> int \<Rightarrow> 'w::len world \<Rightarrow> 'w world option" where
  "ocf_read_mfwb_to_cache_cmpl r err w = do {
     w \<leftarrow> (if err \<noteq> 0 then or_error r err w else Some w);
     e \<leftarrow> req_err r w;
     w \<leftarrow> (if e \<noteq> 0 then inc_fallback w else Some w);
     (left, w) \<leftarrow> dec_remaining r w;
     if left = 0 then
       if e \<noteq> 0 then do {
         w \<leftarrow> cache_error_update r OCF_READ w;
         ocf_engine_push_req_front_pt r w }
       else do {
         w \<leftarrow> on_locks r ocf_req_unlock w;
         w \<leftarrow> req_complete r e w;
         req_put r w }
     else Some w }"

definition ocf_read_mfwb_to_core_cmpl_do_promote :: "nat \<Rightarrow> int \<Rightarrow> 'w::len world \<Rightarrow> 'w world option" where
  "ocf_read_mfwb_to_core_cmpl_do_promote r err w = do {
     w \<leftarrow> (if err \<noteq> 0 then set_error r err w else Some w);
     (left, w) \<leftarrow> dec_remaining r w;
     if left = 0 then do {
       e \<leftarrow> req_err r w;
       if e \<noteq> 0 then miss_failed r e w
       else do {
         w \<leftarrow> copy_to_cp r w;
         w \<leftarrow> req_complete r e w;
         ocf_engine_backfill r w } }
     else Some w }"

definition ocf_read_mfwb_to_core_cmpl_no_promote :: "nat \<Rightarrow> int \<Rightarrow> 'w::len world \<Rightarrow> 'w world option" where
  "ocf_read_mfwb_to_core_cmpl_no_promote r err w = do {
     w \<leftarrow> (if err \<noteq> 0 then set_error r err w else Some w);
     (left, w) \<leftarrow> dec_remaining r w;
     if left = 0 then do {
       e \<leftarrow> req_err r w;
       if e \<noteq> 0 then miss_failed r e w
       else do {
         w \<leftarrow> req_complete r e w;
         req_put r w } }
     else Some w }"


subsubsection \<open>Discard and zeroing\<close>

definition ocf_metadata_error :: "'w::len world \<Rightarrow> 'w world" where
  "ocf_metadata_error w = w\<lparr>w_running := False, w_metadata_error := True\<rparr>"

definition ocf_discard_complete_req :: "nat \<Rightarrow> int \<Rightarrow> 'w::len world \<Rightarrow> 'w world option" where
  "ocf_discard_complete_req r err w = do {
     w \<leftarrow> req_complete r err w;
     req_put r w }"

definition ocf_discard_core_complete :: "nat \<Rightarrow> int \<Rightarrow> 'w::len world \<Rightarrow> 'w world option" where
  "ocf_discard_core_complete r err w = ocf_discard_complete_req r err w"

definition ocf_discard_cache_flush_complete :: "nat \<Rightarrow> int \<Rightarrow> 'w::len world \<Rightarrow> 'w world option" where
  "ocf_discard_cache_flush_complete r err w =
     (if err \<noteq> 0 then ocf_discard_complete_req r err (ocf_metadata_error w)
      else push_req_front r (w\<lparr>w_io_if := (w_io_if w)(r := req_if FN_ocf_discard_core)\<rparr>))"

definition ocf_discard_finish_step :: "nat \<Rightarrow> 'w::len world \<Rightarrow> 'w world option" where
  "ocf_discard_finish_step r w = do {
     w \<leftarrow> modr r (\<lambda>req. req\<lparr>rq_discard := (rq_discard req)\<lparr>dc_handled :=
            (dc_handled (rq_discard req) + BYTES_TO_SECTORS (rq_byte_length req)) mod U64_MOD\<rparr>\<rparr>) w;
     req \<leftarrow> getr r w;
     let f = (if dc_handled (rq_discard req) < dc_nr_sects (rq_discard req) then FN_ocf_discard_step
              else if ca_raw (w_cache w) \<noteq> metadata_raw_type_volatile then FN_ocf_discard_flush_cache
              else FN_ocf_discard_core);
     push_req_front r (w\<lparr>w_io_if := (w_io_if w)(r := req_if f)\<rparr>) }"

definition ocf_discard_step_complete :: "nat \<Rightarrow> int \<Rightarrow> 'w::len world \<Rightarrow> 'w world option" where
  "ocf_discard_step_complete r err w = do {
     w \<leftarrow> (if err \<noteq> 0 then or_error r err w else Some w);
     (left, w) \<leftarrow> dec_remaining r w;
     if left \<noteq> 0 then Some w
     else do {
       w \<leftarrow> on_locks r ocf_req_unlock_wr w;
       e \<leftarrow> req_err r w;
       if e \<noteq> 0 then ocf_discard_complete_req r e (ocf_metadata_error w)
       else ocf_discard_finish_step r w } }"

definition ocf_zero_io_flush_metadata :: "nat \<Rightarrow> int \<Rightarrow> 'w::len world \<Rightarrow> 'w world option" where
  "ocf_zero_io_flush_metadata r err w = do {
     w \<leftarrow> (if err \<noteq> 0 then do {
         w \<leftarrow> cache_error_update r OCF_WRITE w;
         set_error r err w }
       else Some w);
     (left, w) \<leftarrow> dec_remaining r w;
     if left \<noteq> 0 then Some w
     else push_req_front_if r (req_if FN_ocf_zero_purge) w }"

primrec run_cb :: "cb \<Rightarrow> nat \<Rightarrow> int \<Rightarrow> 'w::len world \<Rightarrow> 'w world option" where
  "run_cb cb_read_hit = ocf_read_generic_hit_complete"
| "run_cb cb_read_miss = ocf_read_generic_miss_complete"
| "run_cb cb_wt_cache = ocf_write_wt_cache_complete"
| "run_cb cb_wt_core = ocf_write_wt_core_complete"
| "run_cb cb_wb = ocf_write_wb_complete"
| "run_cb cb_wb_flush_metadata = ocf_write_wb_io_flush_metadata"
| "run_cb cb_wi_core = ocf_write_wi_core_complete"
| "run_cb cb_wi_flush_metadata = ocf_write_wi_io_flush_metadata"
| "run_cb cb_wa = ocf_read_wa_complete"
| "run_cb cb_pt = ocf_read_pt_complete"
| "run_cb cb_invalidate = ocf_invalidate_req"
| "run_cb cb_backfill = ocf_backfill_complete"
| "run_cb cb_d2c = ocf_d2c_completion"
| "run_cb cb_fast = ocf_read_fast_complete"
| "run_cb cb_ops = ocf_engine_ops_complete"
| "run_cb cb_wo_cache = ocf_read_wo_cache_complete"
| "run_cb cb_wo_core = ocf_read_wo_core_complete"
| "run_cb cb_discard_step = ocf_discard_step_complete"
| "run_cb cb_discard_flush = ocf_discard_cache_flush_complete"
| "run_cb cb_discard_core = ocf_discard_core_complete"
| "run_cb cb_zero_flush_metadata = ocf_zero_io_flush_metadata"
| "run_cb cb_mfwa_cache = ocf_read_mfwa_to_cache_cmpl"
| "run_cb cb_mfwa_promote = ocf_read_mfwa_to_core_cmpl_do_promote"
| "run_cb cb_mfwa_no_promote = ocf_read_mfwa_to_core_cmpl_no_promote"
| "run_cb cb_mfwb_cache = ocf_read_mfwb_to_cache_cmpl"
| "run_cb cb_mfwb_promote = ocf_read_mfwb_to_core_cmpl_do_promote"
| "run_cb cb_mfwb_no_promote = ocf_read_mfwb_to_core_cmpl_no_promote"

subsection \<open>Submitting\<close>

text \<open>A submission that fails runs the callback at once, for every I/O that is left.\<close>

definition submit_cache_reqs :: "nat \<Rightarrow> nat \<Rightarrow> u64 \<Rightarrow> u64 \<Rightarrow> nat \<Rightarrow> cb \<Rightarrow> 'w::len world \<Rightarrow> 'w world option" where
  "submit_cache_reqs r dir offset sz reqs cb w = do {
     req \<leftarrow> getr r w;
     (s, errs) \<leftarrow> ocf_submit_cache_reqs (w_cfg w) (w_io w) r req (w_io_class w r) dir offset sz reqs cb;
     fold_opt (run_cb cb r) errs (w\<lparr>w_io := s\<rparr>) }"

definition submit_volume_req :: "nat \<Rightarrow> cb \<Rightarrow> 'w::len world \<Rightarrow> 'w world option" where
  "submit_volume_req r cb w = do {
     req \<leftarrow> getr r w;
     (s, errs) \<leftarrow> ocf_submit_volume_req (w_io w) r req (w_io_class w r) cb;
     fold_opt (run_cb cb r) errs (w\<lparr>w_io := s\<rparr>) }"

text \<open>
  \<^verbatim>\<open>ocf_metadata_flush_do_asynch\<close>: the request waits for one completion more. A volatile cache has nothing to
  write and completes at once; otherwise the flush is under way until the environment completes it, with an error or without one. A flush
  that cannot be started, because its context or an I/O cannot be allocated, is left out: the code then also calls
  \<^verbatim>\<open>ocf_metadata_error\<close>, which stops the cache. Here a flush fails only later, through its completion.
\<close>

definition ocf_metadata_flush_do_asynch :: "nat \<Rightarrow> cb \<Rightarrow> 'w::len world \<Rightarrow> 'w world option" where
  "ocf_metadata_flush_do_asynch r cb w = do {
     w \<leftarrow> modr r (\<lambda>req. req\<lparr>rq_req_remaining := rq_req_remaining req + 1\<rparr>) w;
     req \<leftarrow> getr r w;
     if ca_raw (w_cache w) = metadata_raw_type_volatile \<or> \<not> ri_flush_metadata (rq_info req) then run_cb cb r 0 w
     else Some (w\<lparr>w_flushes := w_flushes w @ [(r, cb)]\<rparr>) }"

definition update_request_stats :: "nat \<Rightarrow> 'w::len world \<Rightarrow> 'w world option" where
  "update_request_stats r = upd_stats r (\<lambda>req.
     ocf_core_stats_request_update (rq_part_id req) (rq_rw req) (ri_hit_no (rq_info req)) (rq_core_line_count req))"

definition update_block_stats :: "nat \<Rightarrow> 'w::len world \<Rightarrow> 'w world option" where
  "update_block_stats r = upd_stats r (\<lambda>req. ocf_core_stats_vol_block_update (rq_part_id req) (rq_rw req) (rq_byte_length req))"

definition request_pt_update :: "nat \<Rightarrow> 'w::len world \<Rightarrow> 'w world option" where
  "request_pt_update r = upd_stats r (\<lambda>req.
     ocf_core_stats_request_pt_update (rq_part_id req) (rq_rw req) (ri_hit_no (rq_info req)) (rq_core_line_count req))"

subsection \<open>The common path\<close>

definition async_lock_rd :: "nat \<Rightarrow> resume_fn \<Rightarrow> 'w::len world \<Rightarrow> (int \<times> 'w world) option" where
  "async_lock_rd r resume w = do {
     _ \<leftarrow> getr r w;
     (lock, l) \<leftarrow> ocf_req_async_lock_rd (w_waiter_ok w) True r (ca_locks (w_cache w));
     Some (lock, set_locks l (w\<lparr>w_resume := (w_resume w)(r := resume)\<rparr>)) }"

definition async_lock_wr :: "nat \<Rightarrow> resume_fn \<Rightarrow> 'w::len world \<Rightarrow> (int \<times> 'w world) option" where
  "async_lock_wr r resume w = do {
     _ \<leftarrow> getr r w;
     (lock, l) \<leftarrow> ocf_req_async_lock_wr (w_waiter_ok w) True r (ca_locks (w_cache w));
     Some (lock, set_locks l (w\<lparr>w_resume := (w_resume w)(r := resume)\<rparr>)) }"

definition lock_clines :: "(ocf_request \<Rightarrow> ocf_engine_lock_type) \<Rightarrow> nat \<Rightarrow> 'w::len world \<Rightarrow> (int \<times> 'w world) option" where
  "lock_clines get_lock_type r w = do {
     req \<leftarrow> getr r w;
     case get_lock_type req of
       ocf_engine_lock_write \<Rightarrow> async_lock_wr r RESUME_ocf_engine_on_resume w
     | ocf_engine_lock_read \<Rightarrow> async_lock_rd r RESUME_ocf_engine_on_resume w
     | ocf_engine_lock_none \<Rightarrow> Some (OCF_LOCK_ACQUIRED, w) }"

definition req_hash_traverse :: "nat \<Rightarrow> 'w::len world \<Rightarrow> 'w world option" where
  "req_hash_traverse r w = on_meta r (\<lambda>c req. do {
     req \<leftarrow> ocf_req_hash (ca_coll c) req;
     ocf_engine_traverse (cf_lg2phy (w_cfg w)) c req }) w"

definition should_promote :: "nat \<Rightarrow> 'w::len world \<Rightarrow> (bool \<times> 'w world) option" where
  "should_promote r w = do {
     req \<leftarrow> getr r w;
     (p, pol) \<leftarrow> ocf_promotion_req_should_promote (w_cachelines w) (w_cache w) (w_promo w) req;
     Some (p, w\<lparr>w_promo := pol\<rparr>) }"

text \<open>Mapping the lines under the hash bucket locks, and again after an eviction under the exclusive lock.\<close>

definition map_clines :: "nat \<Rightarrow> 'w::len world \<Rightarrow> 'w world option" where
  "map_clines r w = on_meta r (ocf_engine_map (cf_lg2phy (w_cfg w))) w"

definition evict_clines :: "nat \<Rightarrow> 'w::len world \<Rightarrow> (lookup_status \<times> 'w world) option" where
  "evict_clines r w = do {
     req \<leftarrow> getr r w;
     (res, c, req) \<leftarrow> ocf_engine_evict (w_cache w) req;
     Some (res, putr r req (w\<lparr>w_cache := c\<rparr>)) }"

definition mapping_error :: "nat \<Rightarrow> 'w::len world \<Rightarrow> bool option" where
  "mapping_error r w = map_option (\<lambda>req. ri_mapping_error (rq_info req)) (getr r w)"

definition ENOENT :: int where "ENOENT = 2"

definition ocf_engine_prepare_clines ::
  "(ocf_request \<Rightarrow> ocf_engine_lock_type) \<Rightarrow> nat \<Rightarrow> 'w::len world \<Rightarrow> (int \<times> 'w world) option" where
  "ocf_engine_prepare_clines get_lock_type r w = do {
     w \<leftarrow> req_hash_traverse r w;
     req \<leftarrow> getr r w;
     if ocf_engine_is_mapped req then lock_clines get_lock_type r w
     else do {
       (promote, w) \<leftarrow> should_promote r w;
       if \<not> promote then do {
         w \<leftarrow> modr r (upd_info (\<lambda>i. i\<lparr>ri_mapping_error := True\<rparr>)) w;
         Some (- ENOENT, w) }
       else do {
         w \<leftarrow> map_clines r w;
         failed \<leftarrow> mapping_error r w;
         if \<not> failed then lock_clines get_lock_type r w
         else do {
           (res, w) \<leftarrow> evict_clines r w;
           w \<leftarrow> (if res = LOOKUP_MAPPED then map_clines r w else Some w);
           failed \<leftarrow> mapping_error r w;
           if \<not> failed then lock_clines get_lock_type r w else Some (- ENOENT, w) } } } }"

text \<open>Handing a request with dirty lines to the cleaner, and what the cleaner calls at its end.\<close>

definition ocf_engine_clean :: "nat \<Rightarrow> 'w::len world \<Rightarrow> 'w world option" where
  "ocf_engine_clean r w = do { _ \<leftarrow> getr r w; Some (w\<lparr>w_cleaning := w_cleaning w @ [r]\<rparr>) }"

definition ocf_engine_clean_end :: "nat \<Rightarrow> int \<Rightarrow> 'w::len world \<Rightarrow> 'w world option" where
  "ocf_engine_clean_end r err w =
     (if err \<noteq> 0 then do {
        w \<leftarrow> or_error r err w;
        w \<leftarrow> on_locks r ocf_req_unlock w;
        w \<leftarrow> req_complete r err w;
        req_put r w }
      else do {
        w \<leftarrow> modr r (upd_info (\<lambda>i. i\<lparr>ri_dirty_any := 0, ri_dirty_all := 0\<rparr>)) w;
        push_req_front r w })"

definition re_part :: "nat \<Rightarrow> 'w::len world \<Rightarrow> 'w world option" where
  "re_part r w = do {
     req \<leftarrow> getr r w;
     if ri_re_part (rq_info req) then on_meta r (\<lambda>c req. map_option (\<lambda>c. (c, req)) (ocf_part_move c req)) w
     else Some w }"

definition set_valid_map :: "nat \<Rightarrow> 'w::len world \<Rightarrow> 'w world option" where
  "set_valid_map r = on_meta r (\<lambda>c req. map_option (\<lambda>c. (c, req)) (ocf_set_valid_map_info c req))"

text \<open>The ways an engine goes on after it asked for the locks, and the fall back to pass-through when the lines could not be mapped.\<close>

definition after_lock :: "int \<Rightarrow> nat \<Rightarrow> ('w::len world \<Rightarrow> 'w world option) \<Rightarrow> 'w world \<Rightarrow> 'w world option" where
  "after_lock lock r go w =
     (if lock \<ge> 0 then if lock \<noteq> OCF_LOCK_ACQUIRED then Some w else go w
      else do { w \<leftarrow> req_complete r lock w; req_put r w })"

definition after_prepare ::
  "int \<Rightarrow> nat \<Rightarrow> ('w::len world \<Rightarrow> 'w world option) \<Rightarrow> ('w world \<Rightarrow> 'w world option) \<Rightarrow> 'w world \<Rightarrow> 'w world option" where
  "after_prepare lock r go pt w = do {
     failed \<leftarrow> mapping_error r w;
     if \<not> failed then after_lock lock r go w
     else do {
       w \<leftarrow> modr r ocf_req_clear w;
       pt w } }"

subsection \<open>Reads\<close>

definition ocf_read_pt_do :: "nat \<Rightarrow> 'w::len world \<Rightarrow> 'w world option" where
  "ocf_read_pt_do r w = do {
     w \<leftarrow> req_get r w;
     req \<leftarrow> getr r w;
     if ri_dirty_any (rq_info req) \<noteq> 0 then do {
       w \<leftarrow> ocf_engine_clean r w;
       req_put r w }
     else do {
       w \<leftarrow> re_part r w;
       w \<leftarrow> set_remaining r 1 w;
       w \<leftarrow> submit_volume_req r cb_pt w;
       w \<leftarrow> update_block_stats r w;
       w \<leftarrow> request_pt_update r w;
       req_put r w } }"

definition ocf_read_generic_submit_hit :: "nat \<Rightarrow> 'w::len world \<Rightarrow> 'w world option" where
  "ocf_read_generic_submit_hit r w = do {
     req \<leftarrow> getr r w;
     w \<leftarrow> set_remaining r (int (ocf_engine_io_count req)) w;
     submit_cache_reqs r OCF_READ 0 (rq_byte_length req) (ocf_engine_io_count req) cb_read_hit w }"

definition alloc_cp :: "nat \<Rightarrow> 'w::len world \<Rightarrow> bool \<times> 'w world" where
  "alloc_cp r w =
     (if \<not> w_cp_ok w r then (False, w\<lparr>w_cp_data := (w_cp_data w)(r := None)\<rparr>)
      else (w_mlock w r = 0, w\<lparr>w_cp_data := (w_cp_data w)(r := Some (\<lambda>_. 0))\<rparr>))"

definition ocf_read_generic_submit_miss :: "nat \<Rightarrow> 'w::len world \<Rightarrow> 'w world option" where
  "ocf_read_generic_submit_miss r w = do {
     w \<leftarrow> set_remaining r 1 w;
     let (ok, w) = alloc_cp r w;
     if \<not> ok then ocf_read_generic_miss_complete r (- OCF_ERR_NO_MEM) w
     else submit_volume_req r cb_read_miss w }"

definition first_rd_locked :: "ocf_request \<Rightarrow> bool option" where
  "first_rd_locked req = map_option mi_rd_locked (req_entry req 0)"

text \<open>The end of every read that was submitted: the statistics of the request and its bytes, and the reference of this function.\<close>

definition read_submitted :: "nat \<Rightarrow> 'w::len world \<Rightarrow> 'w world option" where
  "read_submitted r w = do {
     w \<leftarrow> update_request_stats r w;
     w \<leftarrow> update_block_stats r w;
     req_put r w }"

definition read_generic_submit :: "nat \<Rightarrow> 'w::len world \<Rightarrow> 'w world option" where
  "read_generic_submit r w = do {
     w \<leftarrow> re_part r w;
     req \<leftarrow> getr r w;
     w \<leftarrow> (if ocf_engine_is_hit req then ocf_read_generic_submit_hit r w else ocf_read_generic_submit_miss r w);
     read_submitted r w }"

definition ocf_read_generic_do :: "nat \<Rightarrow> 'w::len world \<Rightarrow> 'w world option" where
  "ocf_read_generic_do r w = do {
     req \<leftarrow> getr r w;
     rd_locked \<leftarrow> first_rd_locked req;
     if \<not> ocf_engine_is_hit req \<and> rd_locked then ocf_read_pt_do r w
     else do {
       w \<leftarrow> req_get r w;
       if \<not> ocf_engine_is_hit req then
         if ri_dirty_any (rq_info req) \<noteq> 0 then do {
           w \<leftarrow> ocf_engine_clean r w;
           req_put r w }
         else do {
           w \<leftarrow> set_valid_map r w;
           read_generic_submit r w }
       else read_generic_submit r w } }"

definition ocf_rd_get_lock_type :: "ocf_request \<Rightarrow> ocf_engine_lock_type" where
  "ocf_rd_get_lock_type req = (if ocf_engine_is_hit req then ocf_engine_lock_read else ocf_engine_lock_write)"

text \<open>
  A pass-through read of dirty lines during a sequential cut-off goes back to the generic read, which passes a request through while too many
  backfills wait. The two functions call each other; \<open>read_engine True\<close> is \<^verbatim>\<open>ocf_read_pt\<close> and \<open>read_engine False\<close> is
  \<^verbatim>\<open>ocf_read_generic\<close>. Not returning is the value \<^const>\<open>None\<close>. \<open>read_pt_start\<close> is the first half of the former, up to the release of
  the hash bucket locks; its result says whether the cache is to be used, and else the lock.
\<close>

definition read_pt_start :: "nat \<Rightarrow> 'w::len world \<Rightarrow> (bool \<times> int \<times> 'w world) option" where
  "read_pt_start r w = do {
     w \<leftarrow> req_get r w;
     let w = w\<lparr>w_io_if := (w_io_if w)(r := req_if FN_ocf_read_pt_do)\<rparr>;
     w \<leftarrow> req_hash_traverse r w;
     req \<leftarrow> getr r w;
     if rq_seq_cutoff req \<and> ocf_engine_is_dirty_all req then Some (True, OCF_LOCK_NOT_ACQUIRED, w)
     else if ocf_engine_mapped_count req \<noteq> 0 then do {
       (lock, w) \<leftarrow> async_lock_rd r RESUME_ocf_engine_on_resume w;
       Some (False, lock, w) }
     else Some (False, OCF_LOCK_ACQUIRED, w) }"

definition read_generic_start :: "nat \<Rightarrow> 'w::len world \<Rightarrow> (int \<times> 'w world) option" where
  "read_generic_start r w = do {
     w \<leftarrow> req_get r w;
     let w = w\<lparr>w_io_if := (w_io_if w)(r := req_if FN_ocf_read_generic_do)\<rparr>;
     ocf_engine_prepare_clines ocf_rd_get_lock_type r w }"

partial_function (option) read_engine :: "bool \<Rightarrow> nat \<Rightarrow> 'w::len world \<Rightarrow> 'w world option" where
  "read_engine pt r w =
     (if pt then do {
        (use_cache, lock, w) \<leftarrow> read_pt_start r w;
        w \<leftarrow> (if use_cache then do {
               w \<leftarrow> modr r ocf_req_clear w;
               read_engine False r w }
             else after_lock lock r (ocf_read_pt_do r) w);
        req_put r w }
      else if w_blocked w then read_engine True r w
      else do {
        (lock, w) \<leftarrow> read_generic_start r w;
        failed \<leftarrow> mapping_error r w;
        w \<leftarrow> (if \<not> failed then after_lock lock r (ocf_read_generic_do r) w
             else do {
               w \<leftarrow> modr r ocf_req_clear w;
               read_engine True r w });
        req_put r w })"

definition ocf_read_pt :: "nat \<Rightarrow> 'w::len world \<Rightarrow> 'w world option" where
  "ocf_read_pt r w = read_engine True r w"

definition ocf_read_generic :: "nat \<Rightarrow> 'w::len world \<Rightarrow> 'w world option" where
  "ocf_read_generic r w = read_engine False r w"

subsubsection \<open>Write-only mode\<close>

definition ocf_read_wo_cache_io :: "nat \<Rightarrow> u64 \<Rightarrow> u64 \<Rightarrow> 'w::len world \<Rightarrow> 'w world option" where
  "ocf_read_wo_cache_io r offset sz w = do {
     w \<leftarrow> modr r (\<lambda>req. req\<lparr>rq_req_remaining := rq_req_remaining req + 1\<rparr>) w;
     submit_cache_reqs r OCF_READ offset sz 1 cb_wo_cache w }"

text \<open>Runs of equal validity, with the bytes of each run.\<close>

fun wo_runs :: "bool list \<Rightarrow> (bool \<times> nat) list" where
  "wo_runs [] = []"
| "wo_runs (b # bs) =
     (case wo_runs bs of
        [] \<Rightarrow> [(b, 512)]
      | (v, n) # rest \<Rightarrow> if v = b then (v, n + 512) # rest else (b, 512) # (v, n) # rest)"

definition wo_line_segments :: "'w::len wcache \<Rightarrow> ocf_request \<Rightarrow> nat \<Rightarrow> (bool \<times> nat) list option" where
  "wo_line_segments c req line = do {
     entry \<leftarrow> req_entry req line;
     let s = ocf_map_line_start_sector (ca_line c) req line;
     let e = ocf_map_line_end_sector (ca_line c) req line;
     all \<leftarrow> ocf_engine_map_all_sec_valid c req line;
     if mi_status entry = LOOKUP_MISS then Some [(False, (e - s + 1) * 512)]
     else if all then Some [(True, (e - s + 1) * 512)]
     else do {
       vs \<leftarrow> those (map (metadata_test_valid_one (ca_status c) (mi_coll_idx entry)) [s..<e + 1]);
       Some (wo_runs vs) } }"

record wo_state =
  wo_io :: bool
  wo_phys :: nat
  wo_start :: nat
  wo_offset :: nat

definition wo_segment :: "nat \<Rightarrow> bool \<times> nat \<Rightarrow> wo_state \<times> 'w::len world \<Rightarrow> (wo_state \<times> 'w world) option" where
  "wo_segment r seg = (\<lambda>(t, w). do {
     let (valid, increment) = seg;
     (t, w) \<leftarrow> (if wo_io t \<and> \<not> valid then do {
         w \<leftarrow> ocf_read_wo_cache_io r (wo_start t) (wo_offset t - wo_start t) w;
         Some (t\<lparr>wo_io := False\<rparr>, w) }
       else Some (t, w));
     let t = (if \<not> wo_io t \<and> valid then t\<lparr>wo_io := True, wo_start := wo_offset t\<rparr> else t);
     Some (t\<lparr>wo_offset := wo_offset t + increment\<rparr>, w) })"

definition wo_line :: "nat \<Rightarrow> nat \<Rightarrow> wo_state \<times> 'w::len world \<Rightarrow> (wo_state \<times> 'w world) option" where
  "wo_line r line = (\<lambda>(t, w). do {
     req \<leftarrow> getr r w;
     entry \<leftarrow> req_entry req line;
     let phys_prev = wo_phys t;
     let t = (if mi_status entry \<noteq> LOOKUP_MISS then t\<lparr>wo_phys := cf_lg2phy (w_cfg w) (mi_coll_idx entry)\<rparr> else t);
     (t, w) \<leftarrow> (if wo_io t \<and> phys_prev + 1 \<noteq> wo_phys t then do {
         w \<leftarrow> ocf_read_wo_cache_io r (wo_start t) (wo_offset t - wo_start t) w;
         Some (t\<lparr>wo_io := False\<rparr>, w) }
       else Some (t, w));
     segs \<leftarrow> wo_line_segments (w_cache w) req line;
     fold_opt (wo_segment r) segs (t, w) })"

definition ocf_read_wo_cache_do :: "nat \<Rightarrow> 'w::len world \<Rightarrow> 'w world option" where
  "ocf_read_wo_cache_do r w = do {
     w \<leftarrow> set_remaining r 1 w;
     req \<leftarrow> getr r w;
     (t, w) \<leftarrow> fold_opt (wo_line r) [0..<rq_core_line_count req]
       (\<lparr>wo_io = False, wo_phys = 0, wo_start = 0, wo_offset = 0\<rparr>, w);
     w \<leftarrow> (if wo_io t then ocf_read_wo_cache_io r (wo_start t) (wo_offset t - wo_start t) w else Some w);
     ocf_read_wo_cache_complete r 0 w }"

definition ocf_read_wo_do :: "nat \<Rightarrow> 'w::len world \<Rightarrow> 'w world option" where
  "ocf_read_wo_do r w = do {
     w \<leftarrow> req_get r w;
     req \<leftarrow> getr r w;
     w \<leftarrow> (if ocf_engine_is_hit req then ocf_read_generic_submit_hit r w else submit_volume_req r cb_wo_core w);
     read_submitted r w }"

definition ocf_read_wo :: "nat \<Rightarrow> 'w::len world \<Rightarrow> 'w world option" where
  "ocf_read_wo r w = do {
     w \<leftarrow> req_get r w;
     let w = w\<lparr>w_io_if := (w_io_if w)(r := req_if FN_ocf_read_wo_do)\<rparr>;
     w \<leftarrow> req_hash_traverse r w;
     req \<leftarrow> getr r w;
     (lock, w) \<leftarrow> (if ocf_engine_mapped_count req \<noteq> 0 then async_lock_rd r RESUME_ocf_engine_on_resume w
                  else Some (OCF_LOCK_ACQUIRED, w));
     w \<leftarrow> after_lock lock r (ocf_read_wo_do r) w;
     req_put r w }"

subsubsection \<open>Multi-factor reads\<close>

definition ocf_read_mfwa_submit_to_cache :: "nat \<Rightarrow> 'w::len world \<Rightarrow> 'w world option" where
  "ocf_read_mfwa_submit_to_cache r w = do {
     req \<leftarrow> getr r w;
     w \<leftarrow> set_remaining r (int (ocf_engine_io_count req)) w;
     submit_cache_reqs r OCF_READ 0 (rq_byte_length req) (ocf_engine_io_count req) cb_mfwa_cache w }"

definition ocf_read_mfwa_submit_to_core :: "nat \<Rightarrow> bool \<Rightarrow> 'w::len world \<Rightarrow> 'w world option" where
  "ocf_read_mfwa_submit_to_core r promote w = do {
     w \<leftarrow> set_remaining r 1 w;
     if promote then do {
       let (ok, w) = alloc_cp r w;
       if \<not> ok then ocf_read_mfwa_to_core_cmpl_do_promote r (- OCF_ERR_NO_MEM) w
       else submit_volume_req r cb_mfwa_promote w }
     else submit_volume_req r cb_mfwa_no_promote w }"

text \<open>
  When a miss that may be promoted holds only read locks, or has dirty lines, the function returns early. In the former case it does not give back the
  reference it took.
\<close>

definition ocf_read_mfwa_do :: "nat \<Rightarrow> 'w::len world \<Rightarrow> 'w world option" where
  "ocf_read_mfwa_do r w = do {
     w \<leftarrow> req_get r w;
     w \<leftarrow> re_part r w;
     req \<leftarrow> getr r w;
     if ocf_engine_is_hit req then
       if rq_load_admit_allowed req then do {
         w \<leftarrow> ocf_read_mfwa_submit_to_cache r w;
         read_submitted r w }
       else do {
         w \<leftarrow> ocf_read_mfwa_submit_to_core r False w;
         read_submitted r w }
     else if rq_data_admit_allowed req then do {
       rd_locked \<leftarrow> first_rd_locked req;
       if rd_locked then ocf_read_pt_do r w
       else if ri_dirty_any (rq_info req) \<noteq> 0 then do {
         w \<leftarrow> ocf_engine_clean r w;
         req_put r w }
       else do {
         w \<leftarrow> set_valid_map r w;
         w \<leftarrow> ocf_read_mfwa_submit_to_core r True w;
         read_submitted r w } }
     else do {
       w \<leftarrow> ocf_read_mfwa_submit_to_core r False w;
       read_submitted r w } }"

definition ocf_read_mfwa_get_lock_type :: "ocf_request \<Rightarrow> ocf_engine_lock_type" where
  "ocf_read_mfwa_get_lock_type req =
     (if ocf_engine_is_hit req then if rq_load_admit_allowed req then ocf_engine_lock_read else ocf_engine_lock_none
      else if rq_data_admit_allowed req then ocf_engine_lock_write else ocf_engine_lock_none)"

definition ocf_read_mfwa :: "nat \<Rightarrow> 'w::len world \<Rightarrow> 'w world option" where
  "ocf_read_mfwa r w =
     (if w_blocked w then ocf_read_pt r w
      else do {
        w \<leftarrow> req_get r w;
        w \<leftarrow> modr r (\<lambda>req. req\<lparr>rq_data_admit_allowed := w_data_admit w, rq_load_admit_allowed := w_load_admit w r\<rparr>) w;
        let w = w\<lparr>w_io_if := (w_io_if w)(r := req_if FN_ocf_read_mfwa_do)\<rparr>;
        (lock, w) \<leftarrow> ocf_engine_prepare_clines ocf_read_mfwa_get_lock_type r w;
        w \<leftarrow> after_prepare lock r (ocf_read_mfwa_do r) (ocf_read_pt r) w;
        req_put r w })"

definition ocf_read_mfwb_submit_to_cache :: "nat \<Rightarrow> 'w::len world \<Rightarrow> 'w world option" where
  "ocf_read_mfwb_submit_to_cache r w = do {
     req \<leftarrow> getr r w;
     w \<leftarrow> set_remaining r (int (ocf_engine_io_count req)) w;
     submit_cache_reqs r OCF_READ 0 (rq_byte_length req) (ocf_engine_io_count req) cb_mfwb_cache w }"

definition ocf_read_mfwb_submit_to_core :: "nat \<Rightarrow> bool \<Rightarrow> 'w::len world \<Rightarrow> 'w world option" where
  "ocf_read_mfwb_submit_to_core r promote w = do {
     w \<leftarrow> set_remaining r 1 w;
     if promote then do {
       let (ok, w) = alloc_cp r w;
       if \<not> ok then ocf_read_mfwb_to_core_cmpl_do_promote r (- OCF_ERR_NO_MEM) w
       else submit_volume_req r cb_mfwb_promote w }
     else submit_volume_req r cb_mfwb_no_promote w }"

definition ocf_read_mfwb_do :: "nat \<Rightarrow> 'w::len world \<Rightarrow> 'w world option" where
  "ocf_read_mfwb_do r w = do {
     w \<leftarrow> req_get r w;
     w \<leftarrow> re_part r w;
     req \<leftarrow> getr r w;
     if ocf_engine_is_hit req then
       if ri_dirty_any (rq_info req) \<noteq> 0 then do {
         w \<leftarrow> ocf_read_mfwb_submit_to_cache r w;
         read_submitted r w }
       else if rq_load_admit_allowed req then do {
         w \<leftarrow> ocf_read_mfwb_submit_to_cache r w;
         read_submitted r w }
       else do {
         w \<leftarrow> ocf_read_mfwb_submit_to_core r False w;
         read_submitted r w }
     else if rq_data_admit_allowed req then do {
       rd_locked \<leftarrow> first_rd_locked req;
       if rd_locked then ocf_read_pt_do r w
       else if ri_dirty_any (rq_info req) \<noteq> 0 then do {
         w \<leftarrow> ocf_engine_clean r w;
         req_put r w }
       else do {
         w \<leftarrow> set_valid_map r w;
         w \<leftarrow> ocf_read_mfwb_submit_to_core r True w;
         read_submitted r w } }
     else do {
       w \<leftarrow> ocf_read_mfwb_submit_to_core r False w;
       read_submitted r w } }"

definition ocf_read_mfwb_get_lock_type :: "ocf_request \<Rightarrow> ocf_engine_lock_type" where
  "ocf_read_mfwb_get_lock_type req =
     (if ocf_engine_is_hit req then
        if ri_dirty_any (rq_info req) \<noteq> 0 then ocf_engine_lock_read
        else if rq_load_admit_allowed req then ocf_engine_lock_read else ocf_engine_lock_none
      else if rq_data_admit_allowed req then ocf_engine_lock_write else ocf_engine_lock_none)"

definition ocf_read_mfwb :: "nat \<Rightarrow> 'w::len world \<Rightarrow> 'w world option" where
  "ocf_read_mfwb r w =
     (if w_blocked w then ocf_read_pt r w
      else do {
        w \<leftarrow> req_get r w;
        w \<leftarrow> modr r (\<lambda>req. req\<lparr>rq_data_admit_allowed := w_data_admit w, rq_load_admit_allowed := w_load_admit w r\<rparr>) w;
        let w = w\<lparr>w_io_if := (w_io_if w)(r := req_if FN_ocf_read_mfwb_do)\<rparr>;
        (lock, w) \<leftarrow> ocf_engine_prepare_clines ocf_read_mfwb_get_lock_type r w;
        w \<leftarrow> after_prepare lock r (ocf_read_mfwb_do r) (ocf_read_pt r) w;
        req_put r w })"

subsection \<open>Writes\<close>

definition ocf_write_wt_submit :: "nat \<Rightarrow> 'w::len world \<Rightarrow> 'w world option" where
  "ocf_write_wt_submit r w = do {
     req \<leftarrow> getr r w;
     w \<leftarrow> set_remaining r (int (ocf_engine_io_count req) + 1) w;
     w \<leftarrow> (if ri_flush_metadata (rq_info req) then ocf_metadata_flush_do_asynch r cb_wt_cache w else Some w);
     w \<leftarrow> submit_cache_reqs r OCF_WRITE 0 (rq_byte_length req) (ocf_engine_io_count req) cb_wt_cache w;
     submit_volume_req r cb_wt_core w }"

definition ocf_write_wt_update_bits :: "nat \<Rightarrow> 'w::len world \<Rightarrow> 'w world option" where
  "ocf_write_wt_update_bits r w = do {
     req \<leftarrow> getr r w;
     w \<leftarrow> (if \<not> ocf_engine_is_hit req then set_valid_map r w else Some w);
     req \<leftarrow> getr r w;
     w \<leftarrow> (if ri_dirty_any (rq_info req) \<noteq> 0 then on_meta r ocf_set_clean_map_info w else Some w);
     re_part r w }"

definition ocf_write_wt_do :: "nat \<Rightarrow> 'w::len world \<Rightarrow> 'w world option" where
  "ocf_write_wt_do r w = do {
     w \<leftarrow> req_get r w;
     w \<leftarrow> ocf_write_wt_update_bits r w;
     w \<leftarrow> ocf_write_wt_submit r w;
     w \<leftarrow> update_request_stats r w;
     w \<leftarrow> update_block_stats r w;
     req_put r w }"

definition ocf_wt_get_lock_type :: "ocf_request \<Rightarrow> ocf_engine_lock_type" where
  "ocf_wt_get_lock_type req = ocf_engine_lock_write"

definition ocf_write_wi_update_and_flush_metadata :: "nat \<Rightarrow> 'w::len world \<Rightarrow> 'w world option" where
  "ocf_write_wi_update_and_flush_metadata r w = do {
     w \<leftarrow> set_remaining r 1 w;
     req \<leftarrow> getr r w;
     w \<leftarrow> (if ocf_engine_mapped_count req \<noteq> 0 then do {
         w \<leftarrow> on_meta r ocf_purge_map_info w;
         req \<leftarrow> getr r w;
         if ri_flush_metadata (rq_info req) then ocf_metadata_flush_do_asynch r cb_wi_flush_metadata w else Some w }
       else Some w);
     ocf_write_wi_io_flush_metadata r 0 w }"

definition ocf_write_wi_do :: "nat \<Rightarrow> 'w::len world \<Rightarrow> 'w world option" where
  "ocf_write_wi_do r w = do {
     w \<leftarrow> req_get r w;
     w \<leftarrow> set_remaining r 1 w;
     w \<leftarrow> submit_volume_req r cb_wi_core w;
     w \<leftarrow> update_block_stats r w;
     w \<leftarrow> request_pt_update r w;
     req_put r w }"

definition ocf_write_wi :: "nat \<Rightarrow> 'w::len world \<Rightarrow> 'w world option" where
  "ocf_write_wi r w = do {
     w \<leftarrow> req_get r w;
     let w = w\<lparr>w_io_if := (w_io_if w)(r := req_if FN_ocf_write_wi_do)\<rparr>;
     w \<leftarrow> req_hash_traverse r w;
     req \<leftarrow> getr r w;
     (lock, w) \<leftarrow> (if ocf_engine_mapped_count req \<noteq> 0 then async_lock_wr r RESUME_ocf_write_wi_on_resume w
                  else Some (OCF_LOCK_ACQUIRED, w));
     w \<leftarrow> after_lock lock r (ocf_write_wi_do r) w;
     req_put r w }"

definition ocf_write_wt :: "nat \<Rightarrow> 'w::len world \<Rightarrow> 'w world option" where
  "ocf_write_wt r w = do {
     w \<leftarrow> req_get r w;
     let w = w\<lparr>w_io_if := (w_io_if w)(r := req_if FN_ocf_write_wt_do)\<rparr>;
     (lock, w) \<leftarrow> ocf_engine_prepare_clines ocf_wt_get_lock_type r w;
     w \<leftarrow> after_prepare lock r (ocf_write_wt_do r) (ocf_write_wi r) w;
     req_put r w }"

definition ocf_write_wb_update_bits :: "nat \<Rightarrow> 'w::len world \<Rightarrow> 'w world option" where
  "ocf_write_wb_update_bits r w = do {
     req \<leftarrow> getr r w;
     w \<leftarrow> (if \<not> ocf_engine_is_hit req then set_valid_map r w else Some w);
     req \<leftarrow> getr r w;
     if \<not> ocf_engine_is_dirty_all req then on_meta r ocf_set_dirty_map_info w else Some w }"

definition ocf_write_wb_do_flush_metadata :: "nat \<Rightarrow> 'w::len world \<Rightarrow> 'w world option" where
  "ocf_write_wb_do_flush_metadata r w = do {
     w \<leftarrow> set_remaining r 1 w;
     req \<leftarrow> getr r w;
     w \<leftarrow> (if ri_flush_metadata (rq_info req) then ocf_metadata_flush_do_asynch r cb_wb_flush_metadata w else Some w);
     ocf_write_wb_io_flush_metadata r 0 w }"

definition ocf_write_wb_submit :: "nat \<Rightarrow> 'w::len world \<Rightarrow> 'w world option" where
  "ocf_write_wb_submit r w = do {
     req \<leftarrow> getr r w;
     w \<leftarrow> set_remaining r (int (ocf_engine_io_count req)) w;
     w \<leftarrow> re_part r w;
     submit_cache_reqs r OCF_WRITE 0 (rq_byte_length req) (ocf_engine_io_count req) cb_wb w }"

definition ocf_write_wb_do :: "nat \<Rightarrow> 'w::len world \<Rightarrow> 'w world option" where
  "ocf_write_wb_do r w = do {
     w \<leftarrow> req_get r w;
     w \<leftarrow> ocf_write_wb_update_bits r w;
     w \<leftarrow> ocf_write_wb_submit r w;
     w \<leftarrow> update_request_stats r w;
     w \<leftarrow> update_block_stats r w;
     req_put r w }"

definition ocf_wb_get_lock_type :: "ocf_request \<Rightarrow> ocf_engine_lock_type" where
  "ocf_wb_get_lock_type req = ocf_engine_lock_write"

definition ocf_write_wb :: "nat \<Rightarrow> 'w::len world \<Rightarrow> 'w world option" where
  "ocf_write_wb r w = do {
     w \<leftarrow> req_get r w;
     let w = w\<lparr>w_io_if := (w_io_if w)(r := req_if FN_ocf_write_wb_do)\<rparr>;
     (lock, w) \<leftarrow> ocf_engine_prepare_clines ocf_wb_get_lock_type r w;
     w \<leftarrow> after_prepare lock r (ocf_write_wb_do r) (ocf_write_wi r) w;
     req_put r w }"

definition ocf_write_wa :: "nat \<Rightarrow> 'w::len world \<Rightarrow> 'w world option" where
  "ocf_write_wa r w = do {
     w \<leftarrow> req_get r w;
     w \<leftarrow> req_hash_traverse r w;
     req \<leftarrow> getr r w;
     w \<leftarrow> (if ocf_engine_is_hit req then do {
         w \<leftarrow> modr r ocf_req_clear w;
         ocf_write_wt r w }
       else if ocf_engine_mapped_count req \<noteq> 0 then do {
         w \<leftarrow> modr r ocf_req_clear w;
         ocf_write_wi r w }
       else do {
         w \<leftarrow> set_remaining r 1 w;
         w \<leftarrow> submit_volume_req r cb_wa w;
         w \<leftarrow> update_block_stats r w;
         request_pt_update r w });
     req_put r w }"

subsection \<open>The fast path\<close>

definition ocf_read_fast_do :: "nat \<Rightarrow> 'w::len world \<Rightarrow> 'w world option" where
  "ocf_read_fast_do r w = do {
     req \<leftarrow> getr r w;
     if \<not> ocf_engine_is_hit req then ocf_read_pt_do r w
     else do {
       w \<leftarrow> req_get r w;
       w \<leftarrow> re_part r w;
       w \<leftarrow> set_remaining r (int (ocf_engine_io_count req)) w;
       w \<leftarrow> submit_cache_reqs r OCF_READ 0 (rq_byte_length req) (ocf_engine_io_count req) cb_fast w;
       read_submitted r w } }"

definition ocf_read_fast :: "nat \<Rightarrow> 'w::len world \<Rightarrow> (int \<times> 'w world) option" where
  "ocf_read_fast r w = do {
     w \<leftarrow> req_get r w;
     let w = w\<lparr>w_io_if := (w_io_if w)(r := req_if FN_ocf_read_fast_do)\<rparr>;
     w \<leftarrow> req_hash_traverse r w;
     req \<leftarrow> getr r w;
     if ocf_engine_is_hit req then do {
       (lock, w) \<leftarrow> async_lock_rd r RESUME_ocf_engine_on_resume w;
       w \<leftarrow> after_lock lock r (ocf_read_fast_do r) w;
       w \<leftarrow> req_put r w;
       Some (OCF_FAST_PATH_YES, w) }
     else do {
       w \<leftarrow> req_put r w;
       Some (OCF_FAST_PATH_NO, w) } }"

definition ocf_write_fast :: "nat \<Rightarrow> 'w::len world \<Rightarrow> (int \<times> 'w world) option" where
  "ocf_write_fast r w = do {
     w \<leftarrow> req_get r w;
     let w = w\<lparr>w_io_if := (w_io_if w)(r := req_if FN_ocf_write_wb_do)\<rparr>;
     w \<leftarrow> req_hash_traverse r w;
     req \<leftarrow> getr r w;
     if ocf_engine_is_mapped req then do {
       (lock, w) \<leftarrow> async_lock_wr r RESUME_ocf_engine_on_resume w;
       w \<leftarrow> after_lock lock r (ocf_write_wb_do r) w;
       w \<leftarrow> req_put r w;
       Some (OCF_FAST_PATH_YES, w) }
     else do {
       w \<leftarrow> req_put r w;
       Some (OCF_FAST_PATH_NO, w) } }"

subsection \<open>Invalidation, backfill, direct I/O and operations\<close>

definition ocf_invalidate_do :: "nat \<Rightarrow> 'w::len world \<Rightarrow> 'w world option" where
  "ocf_invalidate_do r w = do {
     req \<leftarrow> getr r w;
     bug_on (rq_req_remaining req \<noteq> 0);
     w \<leftarrow> on_meta r ocf_purge_map_info w;
     w \<leftarrow> set_remaining r 1 w;
     req \<leftarrow> getr r w;
     w \<leftarrow> (if ca_atomic (w_cache w) \<and> ri_flush_metadata (rq_info req)
          then ocf_metadata_flush_do_asynch r cb_invalidate w else Some w);
     ocf_invalidate_req r 0 w }"

definition ocf_backfill_do :: "nat \<Rightarrow> 'w::len world \<Rightarrow> 'w world option" where
  "ocf_backfill_do r w = do {
     let w = backfill_queue_dec_unblock w;
     req \<leftarrow> getr r w;
     w \<leftarrow> set_remaining r (int (ocf_engine_io_count req)) w;
     let w = w\<lparr>w_data := (w_data w)(r := w_cp_data w r)\<rparr>;
     submit_cache_reqs r OCF_WRITE 0 (rq_byte_length req) (ocf_engine_io_count req) cb_backfill w }"

definition ocf_io_d2c :: "nat \<Rightarrow> 'w::len world \<Rightarrow> 'w world option" where
  "ocf_io_d2c r w = do {
     w \<leftarrow> req_get r w;
     w \<leftarrow> submit_volume_req r cb_d2c w;
     w \<leftarrow> update_block_stats r w;
     w \<leftarrow> request_pt_update r w;
     req_put r w }"

definition ocf_engine_ops :: "nat \<Rightarrow> 'w::len world \<Rightarrow> 'w world option" where
  "ocf_engine_ops r w = do {
     w \<leftarrow> req_get r w;
     w \<leftarrow> set_remaining r 2 w;
     req \<leftarrow> getr r w;
     w \<leftarrow> submit_volume_req r cb_ops w;
     w \<leftarrow> submit_cache_reqs r (rq_rw req) 0 (rq_byte_length req) 1 cb_ops w;
     req_put r w }"

subsection \<open>Discard and zeroing\<close>

text \<open>Flushes and discards have no data to attach. The result tells whether the I/O could be made.\<close>

definition submit_special :: "io_kind \<Rightarrow> volume \<Rightarrow> u64 \<Rightarrow> nat \<Rightarrow> nat \<Rightarrow> cb \<Rightarrow> 'w::len world \<Rightarrow> bool \<times> 'w world" where
  "submit_special kind vol addr bytes r cb w =
     (let (ok, s) = ocf_io_new (w_io w) addr bytes
      in (ok, w\<lparr>w_io := if ok then s\<lparr>st_ios := st_ios s @ [\<lparr>d_kind = kind, d_vol = vol, d_addr = addr, d_bytes = bytes,
             d_dir = OCF_WRITE, d_data = 0, d_req = r, d_cb = cb\<rparr>]\<rparr> else s\<rparr>))"

text \<open>The buffer is attached to the discard although it carries no data; failing to do so ends the request.\<close>

definition ocf_discard_core :: "nat \<Rightarrow> 'w::len world \<Rightarrow> 'w world option" where
  "ocf_discard_core r w = do {
     req \<leftarrow> getr r w;
     let addr = dc_sector (rq_discard req) * 512 mod U64_MOD;
     let bytes = dc_nr_sects (rq_discard req) * 512 mod U32_MOD;
     let err = st_set_data (w_io w) (st_made (w_io w) + 1);
     let (ok, w') = submit_special DiscardIO (CoreVolume (rq_core_id req)) addr bytes r cb_discard_core w;
     if \<not> ok then ocf_discard_complete_req r (- OCF_ERR_NO_MEM) w'
     else if err \<noteq> 0 then ocf_discard_core_complete r err (w\<lparr>w_io := (w_io w')\<lparr>st_ios := st_ios (w_io w)\<rparr>\<rparr>)
     else Some w' }"

definition ocf_discard_flush_cache :: "nat \<Rightarrow> 'w::len world \<Rightarrow> 'w world option" where
  "ocf_discard_flush_cache r w = do {
     _ \<leftarrow> getr r w;
     let (ok, w) = submit_special FlushIO CacheVolume 0 0 r cb_discard_flush w;
     if \<not> ok then ocf_discard_complete_req r (- OCF_ERR_NO_MEM) (ocf_metadata_error w) else Some w }"

definition ocf_discard_step_do :: "nat \<Rightarrow> 'w::len world \<Rightarrow> 'w world option" where
  "ocf_discard_step_do r w = do {
     w \<leftarrow> req_get r w;
     w \<leftarrow> set_remaining r 1 w;
     req \<leftarrow> getr r w;
     w \<leftarrow> (if ocf_engine_mapped_count req \<noteq> 0 then do {
         w \<leftarrow> on_meta r ocf_purge_map_info w;
         req \<leftarrow> getr r w;
         if ri_flush_metadata (rq_info req) then ocf_metadata_flush_do_asynch r cb_discard_step w else Some w }
       else Some w);
     req \<leftarrow> getr r w;
     pol \<leftarrow> ocf_promotion_req_purge (w_promo w) req;
     w \<leftarrow> ocf_discard_step_complete r 0 (w\<lparr>w_promo := pol\<rparr>);
     req_put r w }"

definition discard_window :: "line_settings \<Rightarrow> ocf_request \<Rightarrow> ocf_request" where
  "discard_window st req =
     (let d = rq_discard req;
          pos = (dc_sector d + dc_handled d) mod U64_MOD * 512 mod U64_MOD;
          len = min ((dc_nr_sects d + U64_MOD - dc_handled d) mod U64_MOD * 512 mod U64_MOD) MAX_TRIM_RQ_SIZE;
          first = ocf_bytes_2_lines st pos;
          last = ocf_bytes_2_lines st ((pos + len + U64_MOD - 1) mod U64_MOD)
      in req\<lparr>rq_byte_position := pos, rq_byte_length := len, rq_core_line_first := first, rq_core_line_last := last,
             rq_core_line_count := (last + U64_MOD - first + 1) mod U32_MOD\<rparr>)"

text \<open>Only as many map entries are cleared as the new window has lines; more than the map holds is a bug.\<close>

definition ocf_discard_step :: "nat \<Rightarrow> 'w::len world \<Rightarrow> 'w world option" where
  "ocf_discard_step r w = do {
     w \<leftarrow> modr r (discard_window (ca_line (w_cache w))) w;
     let w = w\<lparr>w_io_if := (w_io_if w)(r := req_if FN_ocf_discard_step_do)\<rparr>;
     req \<leftarrow> getr r w;
     m \<leftarrow> rq_map req;
     bug_on (rq_core_line_count req > length m);
     w \<leftarrow> modr r ocf_req_clear_map w;
     w \<leftarrow> req_hash_traverse r w;
     req \<leftarrow> getr r w;
     (lock, w) \<leftarrow> (if ocf_engine_mapped_count req \<noteq> 0 then async_lock_wr r RESUME_ocf_discard_on_resume w
                  else Some (OCF_LOCK_ACQUIRED, w));
     if lock \<ge> 0 then if lock = OCF_LOCK_ACQUIRED then ocf_discard_step_do r w else Some w
     else do {
       w \<leftarrow> or_error r lock w;
       ocf_discard_finish_step r w } }"

definition ocf_discard :: "nat \<Rightarrow> 'w::len world \<Rightarrow> 'w world option" where
  "ocf_discard r w = do {
     req \<leftarrow> getr r w;
     if rq_rw req = OCF_READ then do {
       w \<leftarrow> req_complete r (- OCF_ERR_INVAL) w;
       req_put r w }
     else do {
       w \<leftarrow> req_get r w;
       w \<leftarrow> ocf_discard_step r w;
       req_put r w } }"

definition ocf_zero_purge :: "nat \<Rightarrow> 'w::len world \<Rightarrow> 'w world option" where
  "ocf_zero_purge r w = do {
     e \<leftarrow> req_err r w;
     w \<leftarrow> (if e \<noteq> 0 then ocf_engine_error r True w else on_meta r ocf_purge_map_info w);
     w \<leftarrow> on_locks r ocf_req_unlock_wr w;
     w \<leftarrow> req_complete r e w;
     req_put r w }"

definition ocf_zero_map_info :: "'w::len wcache \<Rightarrow> ocf_request \<Rightarrow> ocf_request option" where
  "ocf_zero_map_info c req = fold_opt (\<lambda>map_idx req. do {
     e \<leftarrow> req_entry req map_idx;
     if mi_status e = LOOKUP_MISS then Some req
     else do {
       let start_bit = (if map_idx = 0
         then (BYTES_TO_SECTORS (rq_byte_position req) mod ocf_line_sectors (ca_line c)) mod U8_MOD else 0);
       let end_bit = (if map_idx = (rq_core_line_count req + U32_MOD - 1) mod U32_MOD
         then (BYTES_TO_SECTORS ((rq_byte_position req + rq_byte_length req + U64_MOD - 1) mod U64_MOD)
                 mod ocf_line_sectors (ca_line c)) mod U8_MOD
         else ocf_line_end_sector (ca_line c) mod U8_MOD);
       Some (ocf_metadata_flush_mark c req map_idx INVALID start_bit end_bit) } }) [0..<rq_core_line_count req] req"

definition ocf_zero_do :: "nat \<Rightarrow> 'w::len world \<Rightarrow> 'w world option" where
  "ocf_zero_do r w = do {
     w \<leftarrow> req_get r w;
     w \<leftarrow> on_meta r (\<lambda>c req. map_option (\<lambda>req. (c, req)) (ocf_zero_map_info c req)) w;
     w \<leftarrow> set_remaining r 1 w;
     req \<leftarrow> getr r w;
     w \<leftarrow> (if ri_flush_metadata (rq_info req) then ocf_metadata_flush_do_asynch r cb_zero_flush_metadata w else Some w);
     w \<leftarrow> ocf_zero_io_flush_metadata r 0 w;
     req_put r w }"

definition ocf_engine_zero_line :: "nat \<Rightarrow> 'w::len world \<Rightarrow> 'w world option" where
  "ocf_engine_zero_line r w = do {
     req \<leftarrow> getr r w;
     bug_on (rq_core_line_count req \<noteq> 1);
     w \<leftarrow> on_meta r (ocf_engine_traverse (cf_lg2phy (w_cfg w))) w;
     req \<leftarrow> getr r w;
     bug_on (\<not> ocf_engine_is_mapped req);
     let w = w\<lparr>w_io_if := (w_io_if w)(r := req_if FN_ocf_zero_do)\<rparr>;
     (lock, w) \<leftarrow> async_lock_wr r RESUME_ocf_engine_on_resume w;
     if lock \<ge> 0 then do {
       bug_on (lock \<noteq> OCF_LOCK_ACQUIRED);
       push_req_front_if r (req_if FN_ocf_zero_do) w }
     else do {
       w \<leftarrow> req_complete r lock w;
       req_put r w } }"

subsection \<open>Resuming a request, and the steps of the system\<close>

definition ocf_engine_on_resume :: "nat \<Rightarrow> 'w::len world \<Rightarrow> 'w world option" where
  "ocf_engine_on_resume r w = do {
     bug_on (w_priv w r \<noteq> None);
     let w = w\<lparr>w_priv := (w_priv w)(r := Some (w_io_if w r))\<rparr>;
     push_req_front_if r (req_if FN_ocf_engine_refresh) w }"

primrec run_resume :: "resume_fn \<Rightarrow> nat \<Rightarrow> 'w::len world \<Rightarrow> 'w world option" where
  "run_resume RESUME_ocf_engine_on_resume r w = ocf_engine_on_resume r w"
| "run_resume RESUME_ocf_write_wi_on_resume r w = push_req_front r w"
| "run_resume RESUME_ocf_discard_on_resume r w = push_req_front r w"

text \<open>The functions of the interfaces, except the refresh, which calls the interface a request had before.\<close>

fun run_engine :: "engine_fn \<Rightarrow> nat \<Rightarrow> 'w::len world \<Rightarrow> 'w world option" where
  "run_engine FN_ocf_read_generic r w = ocf_read_generic r w"
| "run_engine FN_ocf_read_pt r w = ocf_read_pt r w"
| "run_engine FN_ocf_read_wo r w = ocf_read_wo r w"
| "run_engine FN_ocf_read_mfwa r w = ocf_read_mfwa r w"
| "run_engine FN_ocf_read_mfwb r w = ocf_read_mfwb r w"
| "run_engine FN_ocf_read_fast r w = map_option snd (ocf_read_fast r w)"
| "run_engine FN_ocf_write_wt r w = ocf_write_wt r w"
| "run_engine FN_ocf_write_wb r w = ocf_write_wb r w"
| "run_engine FN_ocf_write_wa r w = ocf_write_wa r w"
| "run_engine FN_ocf_write_wi r w = ocf_write_wi r w"
| "run_engine FN_ocf_write_fast r w = map_option snd (ocf_write_fast r w)"
| "run_engine FN_ocf_discard r w = ocf_discard r w"
| "run_engine FN_ocf_io_d2c r w = ocf_io_d2c r w"
| "run_engine FN_ocf_engine_ops r w = ocf_engine_ops r w"
| "run_engine FN_ocf_engine_refresh r w = None"
| "run_engine FN_ocf_read_generic_do r w = ocf_read_generic_do r w"
| "run_engine FN_ocf_read_pt_do r w = ocf_read_pt_do r w"
| "run_engine FN_ocf_read_fast_do r w = ocf_read_fast_do r w"
| "run_engine FN_ocf_read_wo_do r w = ocf_read_wo_do r w"
| "run_engine FN_ocf_read_wo_cache_do r w = ocf_read_wo_cache_do r w"
| "run_engine FN_ocf_read_mfwa_do r w = ocf_read_mfwa_do r w"
| "run_engine FN_ocf_read_mfwb_do r w = ocf_read_mfwb_do r w"
| "run_engine FN_ocf_write_wt_do r w = ocf_write_wt_do r w"
| "run_engine FN_ocf_write_wb_do r w = ocf_write_wb_do r w"
| "run_engine FN_ocf_write_wb_do_flush_metadata r w = ocf_write_wb_do_flush_metadata r w"
| "run_engine FN_ocf_write_wi_do r w = ocf_write_wi_do r w"
| "run_engine FN_ocf_write_wi_update_and_flush_metadata r w = ocf_write_wi_update_and_flush_metadata r w"
| "run_engine FN_ocf_invalidate_do r w = ocf_invalidate_do r w"
| "run_engine FN_ocf_backfill_do r w = ocf_backfill_do r w"
| "run_engine FN_ocf_discard_step r w = ocf_discard_step r w"
| "run_engine FN_ocf_discard_step_do r w = ocf_discard_step_do r w"
| "run_engine FN_ocf_discard_flush_cache r w = ocf_discard_flush_cache r w"
| "run_engine FN_ocf_discard_core r w = ocf_discard_core r w"
| "run_engine FN_ocf_zero_do r w = ocf_zero_do r w"
| "run_engine FN_ocf_zero_purge r w = ocf_zero_purge r w"

definition ocf_engine_refresh :: "nat \<Rightarrow> 'w::len world \<Rightarrow> 'w world option" where
  "ocf_engine_refresh r w = do {
     req \<leftarrow> getr r w;
     (res, req) \<leftarrow> ocf_engine_check (cf_lg2phy (w_cfg w)) (w_cache w) req;
     let w = putr r req w;
     if res = 0 then do {
       io_if \<leftarrow> w_priv w r;
       let w = w\<lparr>w_io_if := (w_io_if w)(r := io_if), w_priv := (w_priv w)(r := None)\<rparr>;
       if rq_rw req = OCF_READ then run_engine (io_read io_if) r w
       else if rq_rw req = OCF_WRITE then run_engine (io_write io_if) r w
       else None }
     else do {
       w \<leftarrow> set_error r (- OCF_ERR_INVAL) w;
       w \<leftarrow> req_complete r (- OCF_ERR_INVAL) w;
       w \<leftarrow> on_locks r ocf_req_unlock w;
       req_put r w } }"

definition run_fn :: "engine_fn \<Rightarrow> nat \<Rightarrow> 'w::len world \<Rightarrow> 'w world option" where
  "run_fn f r w = (if f = FN_ocf_engine_refresh then ocf_engine_refresh r w else run_engine f r w)"

text \<open>
  What a volume does with an I/O it completes. With an error it may have done the work in part, so the bytes it was to change
  are arbitrary then: \<open>junk\<close> says what they are. So are the bytes of a discarded range.
\<close>

definition dev :: "volume \<Rightarrow> 'w::len world \<Rightarrow> u64 \<Rightarrow> byte" where
  "dev vol w = (case vol of CacheVolume \<Rightarrow> w_cachedev w | CoreVolume core \<Rightarrow> w_coredev w core)"

definition set_dev :: "volume \<Rightarrow> (u64 \<Rightarrow> byte) \<Rightarrow> 'w::len world \<Rightarrow> 'w world" where
  "set_dev vol d w = (case vol of
     CacheVolume \<Rightarrow> w\<lparr>w_cachedev := d\<rparr>
   | CoreVolume core \<Rightarrow> w\<lparr>w_coredev := (w_coredev w)(core := d)\<rparr>)"

definition blit :: "(nat \<Rightarrow> byte) \<Rightarrow> nat \<Rightarrow> (nat \<Rightarrow> byte) \<Rightarrow> nat \<Rightarrow> nat \<Rightarrow> nat \<Rightarrow> byte" where
  "blit src s dst d n = (\<lambda>k. if d \<le> k \<and> k < d + n then src (s + (k - d)) else dst k)"

definition transfer :: "cb io \<Rightarrow> int \<Rightarrow> (nat \<Rightarrow> byte) \<Rightarrow> 'w::len world \<Rightarrow> 'w world option" where
  "transfer io err junk w = (case d_kind io of
     FlushIO \<Rightarrow> Some w
   | DiscardIO \<Rightarrow> Some (set_dev (d_vol io) (blit junk 0 (dev (d_vol io) w) (d_addr io) (d_bytes io)) w)
   | DataIO \<Rightarrow> do {
       d \<leftarrow> w_data w (d_req io);
       if d_dir io = OCF_WRITE then
         Some (set_dev (d_vol io) (if err = 0 then blit d (d_data io) (dev (d_vol io) w) (d_addr io) (d_bytes io)
                                   else blit junk 0 (dev (d_vol io) w) (d_addr io) (d_bytes io)) w)
       else
         Some (w\<lparr>w_data := (w_data w)(d_req io := Some
           (if err = 0 then blit (dev (d_vol io) w) (d_addr io) d (d_data io) (d_bytes io)
            else blit junk 0 d (d_data io) (d_bytes io)))\<rparr>) })"

text \<open>
  A step: the next request of the queue runs, a request whose locks came resumes, an I/O completes, or a metadata
  flush does. A flush adds its error to the request before it calls back.
\<close>

datatype choice = Run | Wake | Done nat int "nat \<Rightarrow> byte" | Flushed nat int

definition drop_nth :: "nat \<Rightarrow> 'a list \<Rightarrow> 'a list" where
  "drop_nth i xs = take i xs @ drop (Suc i) xs"

fun step :: "choice \<Rightarrow> 'w::len world \<Rightarrow> 'w world option" where
  "step Run w = (case w_queue w of
     [] \<Rightarrow> None
   | r # rest \<Rightarrow> do {
       req \<leftarrow> getr r w;
       let f = (if rq_rw req = OCF_WRITE then io_write (w_io_if w r) else io_read (w_io_if w r));
       run_fn f r (w\<lparr>w_queue := rest\<rparr>) })"
| "step Wake w = (case cl_resumed (ca_locks (w_cache w)) of
     [] \<Rightarrow> None
   | r # rest \<Rightarrow> run_resume (w_resume w r) r (set_locks ((ca_locks (w_cache w))\<lparr>cl_resumed := rest\<rparr>) w))"
| "step (Done i err junk) w =
     (if i < length (st_ios (w_io w)) then do {
        let io = st_ios (w_io w) ! i;
        w \<leftarrow> transfer io err junk (w\<lparr>w_io := (w_io w)\<lparr>st_ios := drop_nth i (st_ios (w_io w))\<rparr>\<rparr>);
        run_cb (d_cb io) (d_req io) err w }
      else None)"
| "step (Flushed i err) w =
     (if i < length (w_flushes w) then do {
        let (r, cb) = w_flushes w ! i;
        w \<leftarrow> or_error r err (w\<lparr>w_flushes := drop_nth i (w_flushes w)\<rparr>);
        run_cb cb r err w }
      else None)"

fun run_steps :: "choice list \<Rightarrow> 'w::len world \<Rightarrow> 'w world option" where
  "run_steps [] w = Some w"
| "run_steps (ch # chs) w = step ch w \<bind> run_steps chs"

end
