(* ===== verification/Runs.thy ===== *)
theory Runs
  imports Engines LineStatus
begin

section \<open>Runs of a single request\<close>

text \<open>
  What the engines have in common when they are run: the locks of a request on idle lines, the rules for reading and writing the
  state, and the notion of a run: \<open>settles P w\<close> says that from \<open>w\<close> on, whatever order the environment takes for the
  I/Os, the metadata flushes and the queue, as long as the devices report no error, no assertion
  fails, everything comes to an end, and then \<open>P\<close> holds.
\<close>

subsection \<open>Locking and unlocking idle lines\<close>

definition with_map :: "nat \<Rightarrow> ocf_map_info list \<Rightarrow> (cline \<Rightarrow> int) \<Rightarrow> clc \<Rightarrow> clc" where
  "with_map r m a c = c\<lparr>cl_reqs := (cl_reqs c)(r := (cl_reqs c r)\<lparr>rq_map := Some m\<rparr>), cl_access := a\<rparr>"

definition lines_of :: "ocf_map_info list \<Rightarrow> cline set" where
  "lines_of m = {mi_coll_idx e |e. e \<in> set m \<and> mi_status e \<noteq> LOOKUP_MISS}"

definition on_mapped :: "(ocf_map_info \<Rightarrow> ocf_map_info) \<Rightarrow> ocf_map_info \<Rightarrow> ocf_map_info" where
  "on_mapped g e = (if mi_status e = LOOKUP_MISS then e else g e)"

definition done_upto :: "(ocf_map_info \<Rightarrow> ocf_map_info) \<Rightarrow> nat \<Rightarrow> ocf_map_info list \<Rightarrow> ocf_map_info list" where
  "done_upto g n m = map (on_mapped g) (take n m) @ drop n m"

definition lines_distinct :: "nat \<Rightarrow> ocf_map_info list \<Rightarrow> bool" where
  "lines_distinct n m \<longleftrightarrow> n \<le> length m \<and> distinct (map mi_coll_idx (filter (\<lambda>e. mi_status e \<noteq> LOOKUP_MISS) (take n m)))"

lemma done_upto_simps [simp]:
  "done_upto g 0 m = m" "n \<le> length m \<Longrightarrow> length (done_upto g n m) = length m"
  "i < n \<Longrightarrow> n \<le> length m \<Longrightarrow> done_upto g n m ! i = on_mapped g (m ! i)"
  "n \<le> i \<Longrightarrow> i < length m \<Longrightarrow> done_upto g n m ! i = m ! i"
  by (auto simp: done_upto_def nth_append min_def)

lemma done_upto_Suc:
  assumes "n < length m"
  shows "(done_upto g n m)[n := on_mapped g (m ! n)] = done_upto g (Suc n) m"
  using assms by (simp add: done_upto_def take_Suc_conv_app_nth list_update_append Cons_nth_drop_Suc [symmetric])

lemma lines_of_simps [simp]:
  "lines_of [] = {}" "lines_of (e # m) = (if mi_status e = LOOKUP_MISS then lines_of m else insert (mi_coll_idx e) (lines_of m))"
  by (auto simp: lines_of_def)

lemma lines_of_take:
  assumes "n < length m"
  shows "lines_of (take (Suc n) m) = (if mi_status (m ! n) = LOOKUP_MISS then lines_of (take n m) else insert (mi_coll_idx (m ! n)) (lines_of (take n m)))"
  using assms by (auto simp: take_Suc_conv_app_nth lines_of_def)

lemma lines_distinct_next:
  assumes "lines_distinct k m" "n < k" "mi_status (m ! n) \<noteq> LOOKUP_MISS"
  shows "mi_coll_idx (m ! n) \<notin> lines_of (take n m)"
proof -
  have "take k m = take n m @ m ! n # drop (Suc n) (take k m)"
    using assms(1,2) id_take_nth_drop [of n "take k m"] by (simp add: lines_distinct_def min_def)
  then obtain rest where "take k m = take n m @ m ! n # rest" by blast
  moreover have "distinct (map mi_coll_idx (filter (\<lambda>e. mi_status e \<noteq> LOOKUP_MISS) (take k m)))" using assms(1) by (simp add: lines_distinct_def)
  ultimately have "distinct (map mi_coll_idx (filter (\<lambda>e. mi_status e \<noteq> LOOKUP_MISS) (take n m @ m ! n # rest)))" by (simp only:)
  then show ?thesis using assms(3) by (auto simp: lines_of_def)
qed

text \<open>A loop over the entries that sets the access word of every mapped line and changes its entry.\<close>

lemma lines_loop:
  assumes ld: "lines_distinct n m"
    and step: "\<And>i a m'. i < n \<Longrightarrow> length m' = length m \<Longrightarrow> m' ! i = m ! i \<Longrightarrow>
      (mi_status (m ! i) \<noteq> LOOKUP_MISS \<longrightarrow> a (mi_coll_idx (m ! i)) = a0 (mi_coll_idx (m ! i))) \<Longrightarrow>
      f i (with_map r m' a c) = Some (if mi_status (m ! i) = LOOKUP_MISS then with_map r m' a c
        else with_map r (m'[i := g (m ! i)]) (a(mi_coll_idx (m ! i) := v)) c)"
  shows "fold_opt f [0..<n] (with_map r m a0 c) =
    Some (with_map r (done_upto g n m) (\<lambda>l. if l \<in> lines_of (take n m) then v else a0 l) c)"
proof -
  have n: "n \<le> length m" using ld by (simp add: lines_distinct_def)
  let ?S = "\<lambda>i. with_map r (done_upto g i m) (\<lambda>l. if l \<in> lines_of (take i m) then v else a0 l) c"
  have "\<exists>s'. fold_opt f [0..<n] (?S 0) = Some s' \<and> s' = ?S n"
  proof (rule fold_opt_upt [where I = "\<lambda>i s. s = ?S i"])
    fix i s
    assume i: "i < n" and s: "s = ?S i"
    let ?a = "\<lambda>l. if l \<in> lines_of (take i m) then v else a0 l"
    have a: "(if mi_status (m ! i) = LOOKUP_MISS then ?a else ?a(mi_coll_idx (m ! i) := v)) =
      (\<lambda>l. if l \<in> lines_of (take (Suc i) m) then v else a0 l)"
      using lines_of_take [of i m] i n by (auto simp: fun_eq_iff)
    have m: "done_upto g (Suc i) m = (if mi_status (m ! i) = LOOKUP_MISS then done_upto g i m else (done_upto g i m)[i := g (m ! i)])"
      using done_upto_Suc [of i m g] list_update_id [of "done_upto g i m" i] i n by (auto simp: on_mapped_def)
    show "\<exists>s'. f i s = Some s' \<and> s' = ?S (Suc i)"
      unfolding s using step [OF i, of "done_upto g i m" ?a] i n lines_distinct_next [OF ld i] unfolding m a [symmetric]
      by (cases "mi_status (m ! i) = LOOKUP_MISS") simp_all
  qed simp
  then show ?thesis by (simp add: lines_of_def)
qed

definition lock_step :: "(clc \<Rightarrow> cline \<Rightarrow> (bool \<times> clc) option) \<Rightarrow> (ocf_map_info \<Rightarrow> ocf_map_info) \<Rightarrow> nat \<Rightarrow> nat \<Rightarrow> clc \<Rightarrow> clc option" where
  "lock_step lk mark r i c = do {
     e \<leftarrow> get_entry c r i;
     if mi_status e = LOOKUP_MISS then Some c
     else do {
       bug_on (mi_coll_idx e \<ge> cl_entries c \<or> mi_rd_locked e \<or> mi_wr_locked e);
       (ok, c) \<leftarrow> lk c (mi_coll_idx e);
       if ok then upd_entry r i mark c else None } }"

lemma trylock_fold: "fold_opt (lock_step lk mark r) is c = Some c' \<Longrightarrow> trylock_loop lk mark r is c = Some (None, c')"
  by (induction "is" arbitrary: c) (auto simp: lock_step_def bind_eq_Some_conv split: if_splits)

lemma with_map_simps [simp]:
  "get_entry (with_map r m a c) r i = (if i < length m then Some (m ! i) else None)"
  "i < length m \<Longrightarrow> upd_entry r i f (with_map r m a c) = Some (with_map r (m[i := f (m ! i)]) a c)"
  "cl_access (with_map r m a c) = a" "cl_entries (with_map r m a c) = cl_entries c" "cl_waiters (with_map r m a c) = cl_waiters c"
  "set_access l v (with_map r m a c) = with_map r m (a(l := v)) c"
  "cl_reqs (with_map r m a c) r = (cl_reqs c r)\<lparr>rq_map := Some m\<rparr>" "with_map r m' a' (with_map r m a c) = with_map r m' a' c"
  "cl_buckets (with_map r m a c) = cl_buckets c" "cl_lock (with_map r m a c) = cl_lock c" "cl_resumed (with_map r m a c) = cl_resumed c"
  by (simp_all add: with_map_def get_entry_def upd_entry_def set_access_def)

definition cl_idle :: "clc \<Rightarrow> bool" where
  "cl_idle c \<longleftrightarrow> (\<forall>l. cl_access c l = 0) \<and> (\<forall>b. cl_waiters c b = []) \<and> cl_lock c = rwsem_free"

definition lockable :: "clc \<Rightarrow> nat \<Rightarrow> ocf_map_info list \<Rightarrow> bool" where
  "lockable c n m \<longleftrightarrow> lines_distinct n m \<and>
     (\<forall>i < n. unlocked_entry (m ! i) \<and> (mi_status (m ! i) \<noteq> LOOKUP_MISS \<longrightarrow> mi_coll_idx (m ! i) < cl_entries c))"

definition held_by :: "nat \<Rightarrow> ocf_map_info list \<Rightarrow> int \<Rightarrow> cline \<Rightarrow> int" where
  "held_by n m v = (\<lambda>l. if l \<in> lines_of (take n m) then v else 0)"

lemma with_map_idle:
  assumes "\<forall>l. cl_access c l = 0" "rq_map (cl_reqs c r) = Some m"
  shows "with_map r m (\<lambda>_. 0) c = c"
proof -
  have a: "(\<lambda>_. 0) = cl_access c" using assms(1) by auto
  have "(cl_reqs c r)\<lparr>rq_map := Some m\<rparr> = cl_reqs c r" using assms(2) by simp
  then show ?thesis by (simp add: with_map_def a)
qed

lemma trylock_idle:
  assumes idle: "cl_idle c" and m: "rq_map (cl_reqs c r) = Some m" and n: "rq_core_line_count (cl_reqs c r) = n" and ok: "lockable c n m"
    and rem: "rq_lock_remaining (cl_reqs c r) = 0"
  shows "ocf_req_async_lock_rd got cb r c = Some (OCF_LOCK_ACQUIRED, with_map r (done_upto (set_rd_locked True) n m) (held_by n m 1) c)"
    "ocf_req_async_lock_wr got cb r c = Some (OCF_LOCK_ACQUIRED, with_map r (done_upto (set_wr_locked True) n m) (held_by n m OCF_CACHE_LINE_ACCESS_WR) c)"
proof -
  obtain l where l: "env_rwsem_down_read r rwsem_free = Some l" "env_rwsem_up_read r l = rwsem_free" using rwsem_down_up(1) by blast
  let ?c = "c\<lparr>cl_lock := l\<rparr>"
  have down: "down_read r c = Some (with_map r m (\<lambda>_. 0) ?c)"
    using idle m l(1) with_map_idle [of ?c r m] by (simp add: down_read_def cl_idle_def)
  have up: "up_read r (with_map r m' a ?c) = with_map r m' a c" for m' a
    using idle l(2) by (simp add: up_read_def with_map_def cl_idle_def)
  have ld: "lines_distinct n m" using ok by (simp add: lockable_def)
  have rd: "fold_opt (lock_step (\<lambda>c l. lock_cache_line_rd c l False False 0 0) (set_rd_locked True) r) [0..<n] (with_map r m (\<lambda>_. 0) ?c) =
      Some (with_map r (done_upto (set_rd_locked True) n m) (\<lambda>l. if l \<in> lines_of (take n m) then 1 else 0) ?c)"
    using ok by (intro lines_loop [OF ld])
      (auto simp: lock_step_def lockable_def lines_distinct_def unlocked_entry_def lock_rd_nocb)
  have wr: "fold_opt (lock_step (\<lambda>c l. lock_cache_line_wr c l False False 0 0) (set_wr_locked True) r) [0..<n] (with_map r m (\<lambda>_. 0) ?c) =
      Some (with_map r (done_upto (set_wr_locked True) n m) (\<lambda>l. if l \<in> lines_of (take n m) then OCF_CACHE_LINE_ACCESS_WR else 0) ?c)"
    using ok by (intro lines_loop [OF ld])
      (auto simp: lock_step_def lockable_def lines_distinct_def unlocked_entry_def lock_wr_nocb)
  show "ocf_req_async_lock_rd got cb r c = Some (OCF_LOCK_ACQUIRED, with_map r (done_upto (set_rd_locked True) n m) (held_by n m 1) c)"
    using trylock_fold [OF rd] rem n down up by (simp add: ocf_req_async_lock_rd_def ocf_req_trylock_rd_def held_by_def)
  show "ocf_req_async_lock_wr got cb r c = Some (OCF_LOCK_ACQUIRED, with_map r (done_upto (set_wr_locked True) n m) (held_by n m OCF_CACHE_LINE_ACCESS_WR) c)"
    using trylock_fold [OF wr] rem n down up by (simp add: ocf_req_async_lock_wr_def ocf_req_trylock_wr_def held_by_def)
qed

lemma unlock_no_waiters:
  assumes "\<forall>b. cl_waiters c b = []"
  shows "cl_access c l = 1 \<Longrightarrow> unlock_cache_line_rd c l = Some (set_access l 0 c)"
    "cl_access c l = OCF_CACHE_LINE_ACCESS_WR \<Longrightarrow> unlock_cache_line_wr c l = Some (set_access l 0 c)"
proof -
  have b: "set_bucket l [] c = c" using assms set_bucket_same [of l c] by simp
  show "cl_access c l = 1 \<Longrightarrow> unlock_cache_line_rd c l = Some (set_access l 0 c)"
    using assms b by (simp add: unlock_cache_line_rd_def unlock_cache_line_rd_common_def unlock_rd_def access_defs)
  show "cl_access c l = OCF_CACHE_LINE_ACCESS_WR \<Longrightarrow> unlock_cache_line_wr c l = Some (set_access l 0 c)"
    using assms b by (simp add: unlock_cache_line_wr_def unlock_cache_line_wr_common_def unlock_wr_def access_defs)
qed

lemma done_upto_twice:
  assumes "n \<le> length m" "\<And>i. i < n \<Longrightarrow> on_mapped h (on_mapped g (m ! i)) = m ! i"
  shows "done_upto h n (done_upto g n m) = m"
  using assms by (auto intro!: nth_equalityI simp: not_less) (metis done_upto_simps(2-4) not_less)

lemma locked_map:
  assumes "n \<le> length m" "g = set_rd_locked True \<or> g = set_wr_locked True"
  shows "lines_distinct n (done_upto g n m) = lines_distinct n m" "lines_of (take n (done_upto g n m)) = lines_of (take n m)"
    "i < length m \<Longrightarrow> mi_status (done_upto g n m ! i) = mi_status (m ! i)" "i < length m \<Longrightarrow> mi_coll_idx (done_upto g n m ! i) = mi_coll_idx (m ! i)"
proof -
  have e: "mi_status (on_mapped g e) = mi_status e" "mi_coll_idx (on_mapped g e) = mi_coll_idx e" for e
    using assms(2) by (auto simp: on_mapped_def set_rd_locked_def set_wr_locked_def)
  have t: "take n (done_upto g n m) = map (on_mapped g) (take n m)" using assms(1) by (simp add: done_upto_def)
  show "lines_distinct n (done_upto g n m) = lines_distinct n m" using assms(1) by (simp add: lines_distinct_def t filter_map comp_def e)
  show "lines_of (take n (done_upto g n m)) = lines_of (take n m)" 
  proof -
    have "lines_of (map (on_mapped g) xs) = lines_of xs" for xs by (induction xs) (auto simp: e)
    then show ?thesis by (simp add: t)
  qed
  show "i < length m \<Longrightarrow> mi_status (done_upto g n m ! i) = mi_status (m ! i)" "i < length m \<Longrightarrow> mi_coll_idx (done_upto g n m ! i) = mi_coll_idx (m ! i)"
    using assms(1) e by (cases "i < n"; simp)+
qed

text \<open>Unlocking gives back what locking took.\<close>

lemma unlock_held:
  assumes wt: "\<forall>b. cl_waiters c b = []" and n: "rq_core_line_count (cl_reqs c r) = n" and ok: "lockable c n m"
  shows "ocf_req_unlock_rd r (with_map r (done_upto (set_rd_locked True) n m) (held_by n m 1) c) = Some (with_map r m (\<lambda>_. 0) c)"
    "ocf_req_unlock r (with_map r (done_upto (set_rd_locked True) n m) (held_by n m 1) c) = Some (with_map r m (\<lambda>_. 0) c)"
    "ocf_req_unlock_wr r (with_map r (done_upto (set_wr_locked True) n m) (held_by n m OCF_CACHE_LINE_ACCESS_WR) c) = Some (with_map r m (\<lambda>_. 0) c)"
    "ocf_req_unlock r (with_map r (done_upto (set_wr_locked True) n m) (held_by n m OCF_CACHE_LINE_ACCESS_WR) c) = Some (with_map r m (\<lambda>_. 0) c)"
proof -
  have ld: "lines_distinct n m" "n \<le> length m" using ok by (auto simp: lockable_def lines_distinct_def)
  have un: "unlocked_entry (m ! i)" "mi_status (m ! i) \<noteq> LOOKUP_MISS \<Longrightarrow> \<not> cl_entries c \<le> mi_coll_idx (m ! i)" if "i < n" for i
    using ok that by (auto simp: lockable_def)
  have zero: "(\<lambda>l. if l \<in> lines_of (take n m) then 0 else held_by n m v l) = (\<lambda>_. 0)" for v by (auto simp: held_by_def)
  have in_lines: "mi_coll_idx (m ! i) \<in> lines_of (take n m)" if "i < n" "mi_status (m ! i) \<noteq> LOOKUP_MISS" for i
    using that ld(2) by (auto simp: lines_of_def in_set_conv_nth intro!: exI [of _ "m ! i"] exI [of _ i])
  have wt': "\<forall>b. cl_waiters (with_map r m' a c) b = []" for m' a using wt by simp
  note U = unlock_no_waiters [OF wt']
  have gen: "fold_opt f [0..<n] (with_map r (done_upto g n m) (held_by n m v) c) = Some (with_map r m (\<lambda>_. 0) c)"
    if g: "g = set_rd_locked True \<and> h = set_rd_locked False \<or> g = set_wr_locked True \<and> h = set_wr_locked False"
      and f: "\<And>i a m'. i < n \<Longrightarrow> i < length m' \<Longrightarrow> m' ! i = on_mapped g (m ! i) \<Longrightarrow>
        (mi_status (m ! i) \<noteq> LOOKUP_MISS \<longrightarrow> a (mi_coll_idx (m ! i)) = v) \<Longrightarrow> f i (with_map r m' a c) =
          Some (if mi_status (m ! i) = LOOKUP_MISS then with_map r m' a c else with_map r (m'[i := h (g (m ! i))]) (a(mi_coll_idx (m ! i) := 0)) c)"
    for f g h v
  proof -
    have g': "g = set_rd_locked True \<or> g = set_wr_locked True" using g by blast
    note R = locked_map [OF ld(2) g']
    have "done_upto h n (done_upto g n m) = m"
      using un(1) ld(2) g by (intro done_upto_twice) (auto simp: on_mapped_def set_rd_locked_def set_wr_locked_def unlocked_entry_def)
    moreover have "fold_opt f [0..<n] (with_map r (done_upto g n m) (held_by n m v) c) = Some (with_map r (done_upto h n (done_upto g n m))
      (\<lambda>l. if l \<in> lines_of (take n (done_upto g n m)) then 0 else held_by n m v l) c)"
    proof (rule lines_loop)
      show "lines_distinct n (done_upto g n m)" using R(1) ld(1) by simp
      fix i a m'
      assume i: "i < n" and m': "length m' = length (done_upto g n m)" "m' ! i = done_upto g n m ! i"
        and a: "mi_status (done_upto g n m ! i) \<noteq> LOOKUP_MISS \<longrightarrow> a (mi_coll_idx (done_upto g n m ! i)) = held_by n m v (mi_coll_idx (done_upto g n m ! i))"
      have il: "i < length m" using i ld(2) by simp
      have "mi_status (m ! i) \<noteq> LOOKUP_MISS \<longrightarrow> a (mi_coll_idx (m ! i)) = v" using a R(3,4) [OF il] in_lines [OF i] by (auto simp: held_by_def)
      with f [of i m' a] show "f i (with_map r m' a c) = Some (if mi_status (done_upto g n m ! i) = LOOKUP_MISS then with_map r m' a c
          else with_map r (m'[i := h (done_upto g n m ! i)]) (a(mi_coll_idx (done_upto g n m ! i) := 0)) c)"
        using i il ld(2) m' R(3,4) [OF il] by (auto simp: on_mapped_def)
    qed
    ultimately show ?thesis using R(2) zero by simp
  qed
  note E = unlock_rd_entry_def unlock_wr_entry_def unlock_entry_step_def unlock_any_def on_mapped_def set_rd_locked_def set_wr_locked_def unlocked_entry_def U
  have "fold_opt (unlock_rd_entry r) [0..<n] (with_map r (done_upto (set_rd_locked True) n m) (held_by n m 1) c) = Some (with_map r m (\<lambda>_. 0) c)"
    by (rule gen [where h = "set_rd_locked False"]) (use un in \<open>auto simp: E\<close>)
  then show "ocf_req_unlock_rd r (with_map r (done_upto (set_rd_locked True) n m) (held_by n m 1) c) = Some (with_map r m (\<lambda>_. 0) c)"
    using n by (simp add: ocf_req_unlock_rd_def)
  have "fold_opt (unlock_entry_step r) [0..<n] (with_map r (done_upto (set_rd_locked True) n m) (held_by n m 1) c) = Some (with_map r m (\<lambda>_. 0) c)"
    by (rule gen [where h = "set_rd_locked False"]) (use un in \<open>auto simp: E\<close>)
  then show "ocf_req_unlock r (with_map r (done_upto (set_rd_locked True) n m) (held_by n m 1) c) = Some (with_map r m (\<lambda>_. 0) c)"
    using n by (simp add: ocf_req_unlock_def)
  have "fold_opt (unlock_wr_entry r) [0..<n] (with_map r (done_upto (set_wr_locked True) n m) (held_by n m OCF_CACHE_LINE_ACCESS_WR) c) = Some (with_map r m (\<lambda>_. 0) c)"
    by (rule gen [where h = "set_wr_locked False"]) (use un in \<open>auto simp: E\<close>)
  then show "ocf_req_unlock_wr r (with_map r (done_upto (set_wr_locked True) n m) (held_by n m OCF_CACHE_LINE_ACCESS_WR) c) = Some (with_map r m (\<lambda>_. 0) c)"
    using n by (simp add: ocf_req_unlock_wr_def)
  have "fold_opt (unlock_entry_step r) [0..<n] (with_map r (done_upto (set_wr_locked True) n m) (held_by n m OCF_CACHE_LINE_ACCESS_WR) c) = Some (with_map r m (\<lambda>_. 0) c)"
    by (rule gen [where h = "set_wr_locked False"]) (use un in \<open>auto simp: E\<close>)
  then show "ocf_req_unlock r (with_map r (done_upto (set_wr_locked True) n m) (held_by n m OCF_CACHE_LINE_ACCESS_WR) c) = Some (with_map r m (\<lambda>_. 0) c)"
    using n by (simp add: ocf_req_unlock_def)
qed

subsection \<open>Reading and writing the state\<close>

text \<open>Rules that push the access to a request through the updates of the other fields.\<close>

definition cput :: "nat \<Rightarrow> ocf_request \<Rightarrow> 'w::len wcache \<Rightarrow> 'w wcache" where
  "cput r req c = c\<lparr>ca_locks := (ca_locks c)\<lparr>cl_reqs := (cl_reqs (ca_locks c))(r := req)\<rparr>\<rparr>"

lemma cput_simps [simp]:
  "cput r q (cput r p c) = cput r q c" "cl_reqs (ca_locks (cput r q c)) r = q" "ca_status (cput r q c) = ca_status c" "ca_coll (cput r q c) = ca_coll c"
  "ca_parts (cput r q c) = ca_parts c" "ca_lru (cput r q c) = ca_lru c" "ca_free (cput r q c) = ca_free c" "ca_line (cput r q c) = ca_line c"
  "ca_raw (cput r q c) = ca_raw c" "ca_atomic (cput r q c) = ca_atomic c"
  "cl_access (ca_locks (cput r q c)) = cl_access (ca_locks c)" "cl_waiters (ca_locks (cput r q c)) = cl_waiters (ca_locks c)"
  "cl_entries (ca_locks (cput r q c)) = cl_entries (ca_locks c)" "cl_lock (ca_locks (cput r q c)) = cl_lock (ca_locks c)" "cl_resumed (ca_locks (cput r q c)) = cl_resumed (ca_locks c)"
  "(cput r q c)\<lparr>ca_lru := ls\<rparr> = cput r q (c\<lparr>ca_lru := ls\<rparr>)"
  by (simp_all add: cput_def)

lemma putr_fields [simp]:
  "w_cfg (putr r q w) = w_cfg w" "w_io (putr r q w) = w_io w" "w_cachedev (putr r q w) = w_cachedev w"
  "w_coredev (putr r q w) = w_coredev w" "w_data (putr r q w) = w_data w" "w_cp_data (putr r q w) = w_cp_data w"
  "w_io_class (putr r q w) = w_io_class w" "w_io_if (putr r q w) = w_io_if w" "w_priv (putr r q w) = w_priv w"
  "w_resume (putr r q w) = w_resume w" "w_queue (putr r q w) = w_queue w" "w_flushes (putr r q w) = w_flushes w"
  "w_cleaning (putr r q w) = w_cleaning w" "w_done (putr r q w) = w_done w" "w_ctx (putr r q w) = w_ctx w"
  "w_mode (putr r q w) = w_mode w" "w_promo (putr r q w) = w_promo w" "w_cachelines (putr r q w) = w_cachelines w"
  "w_misses (putr r q w) = w_misses w" "w_blocked (putr r q w) = w_blocked w" "w_backfill_max (putr r q w) = w_backfill_max w"
  "w_backfill_unblock (putr r q w) = w_backfill_unblock w" "w_running (putr r q w) = w_running w" "w_metadata_error (putr r q w) = w_metadata_error w"
  "w_waiter_ok (putr r q w) = w_waiter_ok w" "w_cp_ok (putr r q w) = w_cp_ok w" "w_mlock (putr r q w) = w_mlock w"
  "w_data_admit (putr r q w) = w_data_admit w" "w_load_admit (putr r q w) = w_load_admit w"
  "w_freed (putr r q w) = w_freed w" "w_cache (putr r q w) = cput r q (w_cache w)"
  by (simp_all add: putr_def set_locks_def cput_def)

lemma putr_updates [simp]:
  "(putr r q w)\<lparr>w_io := v1\<rparr> = putr r q (w\<lparr>w_io := v1\<rparr>)" "(putr r q w)\<lparr>w_cachedev := v2\<rparr> = putr r q (w\<lparr>w_cachedev := v2\<rparr>)" "(putr r q w)\<lparr>w_coredev := v3\<rparr> = putr r q (w\<lparr>w_coredev := v3\<rparr>)"
  "(putr r q w)\<lparr>w_data := v4\<rparr> = putr r q (w\<lparr>w_data := v4\<rparr>)" "(putr r q w)\<lparr>w_cp_data := v5\<rparr> = putr r q (w\<lparr>w_cp_data := v5\<rparr>)" "(putr r q w)\<lparr>w_io_if := v6\<rparr> = putr r q (w\<lparr>w_io_if := v6\<rparr>)"
  "(putr r q w)\<lparr>w_priv := v7\<rparr> = putr r q (w\<lparr>w_priv := v7\<rparr>)" "(putr r q w)\<lparr>w_resume := v8\<rparr> = putr r q (w\<lparr>w_resume := v8\<rparr>)" "(putr r q w)\<lparr>w_queue := v9\<rparr> = putr r q (w\<lparr>w_queue := v9\<rparr>)"
  "(putr r q w)\<lparr>w_flushes := v10\<rparr> = putr r q (w\<lparr>w_flushes := v10\<rparr>)" "(putr r q w)\<lparr>w_cleaning := v11\<rparr> = putr r q (w\<lparr>w_cleaning := v11\<rparr>)" "(putr r q w)\<lparr>w_done := v12\<rparr> = putr r q (w\<lparr>w_done := v12\<rparr>)"
  "(putr r q w)\<lparr>w_ctx := v13\<rparr> = putr r q (w\<lparr>w_ctx := v13\<rparr>)" "(putr r q w)\<lparr>w_mode := v14\<rparr> = putr r q (w\<lparr>w_mode := v14\<rparr>)" "(putr r q w)\<lparr>w_promo := v15\<rparr> = putr r q (w\<lparr>w_promo := v15\<rparr>)"
  "(putr r q w)\<lparr>w_misses := v16\<rparr> = putr r q (w\<lparr>w_misses := v16\<rparr>)" "(putr r q w)\<lparr>w_blocked := v17\<rparr> = putr r q (w\<lparr>w_blocked := v17\<rparr>)" "(putr r q w)\<lparr>w_running := v18\<rparr> = putr r q (w\<lparr>w_running := v18\<rparr>)"
  "(putr r q w)\<lparr>w_metadata_error := v19\<rparr> = putr r q (w\<lparr>w_metadata_error := v19\<rparr>)"
  "(putr r q w)\<lparr>w_freed := v20\<rparr> = putr r q (w\<lparr>w_freed := v20\<rparr>)" "(putr r q w)\<lparr>w_cache := c\<rparr> = w\<lparr>w_cache := c\<rparr>" "putr r q (putr r p w) = putr r q w"
  by (simp_all add: putr_def set_locks_def)

lemma getr_simps [simp]:
  "getr r (w\<lparr>w_io := v1\<rparr>) = getr r w" "getr r (w\<lparr>w_cachedev := v2\<rparr>) = getr r w" "getr r (w\<lparr>w_coredev := v3\<rparr>) = getr r w"
  "getr r (w\<lparr>w_data := v4\<rparr>) = getr r w" "getr r (w\<lparr>w_cp_data := v5\<rparr>) = getr r w" "getr r (w\<lparr>w_io_if := v6\<rparr>) = getr r w"
  "getr r (w\<lparr>w_priv := v7\<rparr>) = getr r w" "getr r (w\<lparr>w_resume := v8\<rparr>) = getr r w" "getr r (w\<lparr>w_queue := v9\<rparr>) = getr r w"
  "getr r (w\<lparr>w_flushes := v10\<rparr>) = getr r w" "getr r (w\<lparr>w_cleaning := v11\<rparr>) = getr r w" "getr r (w\<lparr>w_done := v12\<rparr>) = getr r w"
  "getr r (w\<lparr>w_ctx := v13\<rparr>) = getr r w" "getr r (w\<lparr>w_mode := v14\<rparr>) = getr r w" "getr r (w\<lparr>w_promo := v15\<rparr>) = getr r w"
  "getr r (w\<lparr>w_misses := v16\<rparr>) = getr r w" "getr r (w\<lparr>w_blocked := v17\<rparr>) = getr r w" "getr r (w\<lparr>w_running := v18\<rparr>) = getr r w"
  "getr r (w\<lparr>w_metadata_error := v19\<rparr>) = getr r w"
  "getr r (putr r q w) = (if r \<in> set (w_freed w) then None else Some q)"
  "getr r (w\<lparr>w_cache := c\<rparr>) = (if r \<in> set (w_freed w) then None else Some (cl_reqs (ca_locks c) r))"
  by (simp_all add: getr_def putr_def set_locks_def)

lemma set_locks_simps [simp]:
  "w_cache (set_locks l w) = (w_cache w)\<lparr>ca_locks := l\<rparr>" "set_locks l (putr r q w) = set_locks l w"
  by (simp_all add: set_locks_def putr_def)

subsection \<open>Runs to the end\<close>

definition quiet :: "'w::len world \<Rightarrow> bool" where
  "quiet w \<longleftrightarrow> w_queue w = [] \<and> cl_resumed (ca_locks (w_cache w)) = [] \<and> st_ios (w_io w) = [] \<and> w_flushes w = [] \<and> w_cleaning w = []"

fun offered :: "choice \<Rightarrow> 'w::len world \<Rightarrow> bool" where
  "offered Run w = (w_queue w \<noteq> [])"
| "offered Wake w = (cl_resumed (ca_locks (w_cache w)) \<noteq> [])"
| "offered (Done i err junk) w = (err = 0 \<and> i < length (st_ios (w_io w)))"
| "offered (Flushed i err) w = (err = 0 \<and> i < length (w_flushes w))"

inductive settles :: "('w::len world \<Rightarrow> bool) \<Rightarrow> 'w world \<Rightarrow> bool" for P where
  settled: "quiet w \<Longrightarrow> P w \<Longrightarrow> settles P w"
| going: "offered ch0 w \<Longrightarrow> (\<And>ch. offered ch w \<Longrightarrow> \<exists>w'. step ch w = Some w' \<and> settles P w') \<Longrightarrow> settles P w"

text \<open>
  Nothing is left in the definition to chance: a run that settles can be carried out, step by step in any order, to its end.
\<close>

lemma settles_run:
  assumes "settles P w"
  shows "\<exists>chs w'. run_steps chs w = Some w' \<and> quiet w' \<and> P w'"
  using assms
proof induction
  case (settled w)
  then show ?case by (intro exI [of _ "[]"]) simp
next
  case (going ch0 w)
  then obtain w1 chs w' where "step ch0 w = Some w1" "run_steps chs w1 = Some w'" "quiet w'" "P w'" by blast
  then show ?case by (intro exI [of _ "ch0 # chs"]) auto
qed

lemma settles_mono:
  assumes "settles P w" "\<And>w. P w \<Longrightarrow> Q w"
  shows "settles Q w"
  using assms(1)
proof induction
  case (settled w)
  then show ?case using assms(2) by (intro settles.settled)
next
  case (going ch0 w)
  show ?case using going(1) by (rule settles.going) (use going(2) in blast)
qed

text \<open>
  A request waiting for its I/Os and metadata flushes: the counter of the request says how many are under way. \<open>mem\<close> is what they change: the buffer of
  the request, the cache device and the core devices.
\<close>

type_synonym mem = "(nat \<Rightarrow> byte) \<times> (u64 \<Rightarrow> byte) \<times> (core_id \<Rightarrow> u64 \<Rightarrow> byte)"

definition busy :: "'w::len world \<Rightarrow> nat \<Rightarrow> ocf_request \<Rightarrow> int \<Rightarrow> cb io list \<Rightarrow> (nat \<times> cb) list \<Rightarrow> mem \<Rightarrow> 'w world" where
  "busy w r q n ios fls m = putr r (q\<lparr>rq_req_remaining := n\<rparr>)
     (w\<lparr>w_io := (w_io w)\<lparr>st_ios := ios\<rparr>, w_flushes := fls, w_data := (w_data w)(r := Some (fst m)), w_cachedev := fst (snd m), w_coredev := snd (snd m)\<rparr>)"

definition io_act :: "'cb io \<Rightarrow> mem \<Rightarrow> mem" where
  "io_act io = (\<lambda>(d, cd, kd).
     if d_dir io = OCF_WRITE then
       (case d_vol io of
          CacheVolume \<Rightarrow> (d, blit d (d_data io) cd (d_addr io) (d_bytes io), kd)
        | CoreVolume k \<Rightarrow> (d, cd, kd(k := blit d (d_data io) (kd k) (d_addr io) (d_bytes io))))
     else (blit (case d_vol io of CacheVolume \<Rightarrow> cd | CoreVolume k \<Rightarrow> kd k) (d_addr io) d (d_data io) (d_bytes io), cd, kd))"

lemma transfer_busy:
  assumes "d_kind io = DataIO" "d_req io = r"
  shows "transfer io 0 junk (busy w r q n ios fls m) = Some (busy w r q n ios fls (io_act io m))"
  using assms by (cases m; cases "d_vol io") (simp_all add: transfer_def busy_def io_act_def dev_def set_dev_def)

lemma busy_simps [simp]:
  "w_queue (busy w r q n ios fls m) = w_queue w" "cl_resumed (ca_locks (w_cache (busy w r q n ios fls m))) = cl_resumed (ca_locks (w_cache w))"
  "st_ios (w_io (busy w r q n ios fls m)) = ios" "w_flushes (busy w r q n ios fls m) = fls" "w_cleaning (busy w r q n ios fls m) = w_cleaning w"
  "(busy w r q n ios fls m)\<lparr>w_io := (w_io (busy w r q n ios fls m))\<lparr>st_ios := ios'\<rparr>\<rparr> = busy w r q n ios' fls m"
  "(busy w r q n ios fls m)\<lparr>w_flushes := fls'\<rparr> = busy w r q n ios fls' m"
  by (simp_all add: busy_def)

lemma busy_req [simp]:
  assumes "r \<notin> set (w_freed w)"
  shows "dec_remaining r (busy w r q n ios fls m) = Some (n - 1, busy w r q (n - 1) ios fls m)"
    "req_err r (busy w r q n ios fls m) = Some (rq_error q)" "getr r (busy w r q n ios fls m) = Some (q\<lparr>rq_req_remaining := n\<rparr>)"
  using assms by (simp_all add: busy_def dec_remaining_def req_err_def Let_def)

text \<open>The callbacks that only count down while there is more to come.\<close>

definition counting :: "cb set" where
  "counting = {cb_read_hit, cb_read_miss, cb_wt_cache, cb_wt_core, cb_wb, cb_wb_flush_metadata, cb_wi_core, cb_wi_flush_metadata, cb_wa, cb_pt,
     cb_invalidate, cb_backfill, cb_fast, cb_ops}"

lemma run_cb_counts:
  assumes "cb \<in> counting" "r \<notin> set (w_freed w)" "rq_error q = 0" "n \<noteq> 1"
  shows "run_cb cb r 0 (busy w r q n ios fls m) = Some (busy w r q (n - 1) ios fls m)"
  using assms unfolding counting_def
  by (auto simp: ocf_read_generic_hit_complete_def ocf_read_generic_miss_complete_def ocf_write_wt_cache_complete_def ocf_write_wt_core_complete_def
      ocf_write_wt_req_complete_def ocf_write_wb_complete_def ocf_write_wb_io_flush_metadata_def ocf_write_wi_core_complete_def
      ocf_write_wi_io_flush_metadata_def ocf_read_wa_complete_def ocf_read_pt_complete_def ocf_invalidate_req_def ocf_backfill_complete_def
      ocf_read_fast_complete_def ocf_engine_ops_complete_def)

lemma or_error_zero:
  assumes "r \<notin> set (w_freed w)" "rq_error q = 0"
  shows "or_error r 0 (busy w r q n ios fls m) = Some (busy w r q n ios fls m)"
  using assms by (simp add: or_error_def modr_def busy_def)

lemma drop_nth_simps: "i < length xs \<Longrightarrow> length (drop_nth i xs) = length xs - 1" "i < length xs \<Longrightarrow> set (drop_nth i xs) \<subseteq> set xs"
  by (auto simp: drop_nth_def dest: in_set_takeD in_set_dropD)

lemma drain:
  assumes base: "r \<notin> set (w_freed w)" "w_queue w = []" "cl_resumed (ca_locks (w_cache w)) = []" "rq_error q = 0"
    and ios: "\<forall>io \<in> set ios. d_kind io = DataIO \<and> d_req io = r \<and> d_cb io \<in> CB" "\<forall>f \<in> set fls. fst f = r \<and> snd f \<in> CB" "CB \<subseteq> counting"
    and some: "0 < length ios + length fls"
    and inv: "I ios m" "\<And>ios m i. I ios m \<Longrightarrow> i < length ios \<Longrightarrow> I (drop_nth i ios) (io_act (ios ! i) m)"
    and last: "\<And>m cb. I [] m \<Longrightarrow> cb \<in> CB \<Longrightarrow> \<exists>w'. run_cb cb r 0 (busy w r q 1 [] [] m) = Some w' \<and> settles P w'"
  shows "settles P (busy w r q (int (length ios + length fls)) ios fls m)"
  using ios(1,2) some inv(1)
proof (induction "length ios + length fls" arbitrary: ios fls m)
  case 0
  then show ?case by simp
next
  case (Suc k)
  let ?n = "int (length ios + length fls)"
  have rest: "\<exists>w'. run_cb cb r 0 (busy w r q ?n ios' fls' m') = Some w' \<and> settles P w'"
    if "length ios' + length fls' = k" "set ios' \<subseteq> set ios" "set fls' \<subseteq> set fls" "I ios' m'" "cb \<in> CB" for cb ios' fls' m'
  proof (cases "k = 0")
    case True
    then have "?n = 1" using Suc.hyps(2) by simp
    then show ?thesis using that True last [of m' cb] by simp
  next
    case False
    have "settles P (busy w r q (int (length ios' + length fls')) ios' fls' m')"
      using Suc.hyps(1) [of ios' fls' m'] that False Suc.prems(1,2) by auto
    moreover have "cb \<in> counting" "?n \<noteq> 1" "?n - 1 = int (length ios' + length fls')" using that ios(3) False Suc.hyps(2) by auto
    ultimately show ?thesis using run_cb_counts [of cb r w q ?n ios' fls' m'] base by simp
  qed
  show ?case
  proof (rule settles.going)
    show "offered (if ios \<noteq> [] then Done 0 0 undefined else Flushed 0 0) (busy w r q ?n ios fls m)" using Suc.prems(3) by auto
    fix ch
    assume "offered ch (busy w r q ?n ios fls m)"
    then consider i junk where "ch = Done i 0 junk" "i < length ios" | i where "ch = Flushed i 0" "i < length fls"
      using base by (cases ch) auto
    then show "\<exists>w'. step ch (busy w r q ?n ios fls m) = Some w' \<and> settles P w'"
    proof cases
      case 1
      have io: "d_kind (ios ! i) = DataIO" "d_req (ios ! i) = r" "d_cb (ios ! i) \<in> CB" using 1(2) Suc.prems(1) nth_mem by blast+
      then show ?thesis
        using rest [of "drop_nth i ios" fls "io_act (ios ! i) m" "d_cb (ios ! i)"] 1 drop_nth_simps [OF 1(2)] inv(2) [OF Suc.prems(4) 1(2)] Suc.hyps(2)
          transfer_busy [OF io(1,2), of junk w q ?n "drop_nth i ios" fls m] io(2) by (auto simp: Let_def)
    next
      case 2
      have f: "fst (fls ! i) = r" "snd (fls ! i) \<in> CB" using 2(2) Suc.prems(2) nth_mem by blast+
      then show ?thesis
        using rest [of ios "drop_nth i fls" m "snd (fls ! i)"] 2 drop_nth_simps [OF 2(2)] Suc.prems(4) Suc.hyps(2) or_error_zero [OF base(1,4)]
        by (auto simp: case_prod_beta)
    qed
  qed
qed

subsection \<open>What the I/Os of a request do to buffer and devices\<close>

definition mdev :: "volume \<Rightarrow> mem \<Rightarrow> u64 \<Rightarrow> byte" where
  "mdev v m = (case v of CacheVolume \<Rightarrow> fst (snd m) | CoreVolume k \<Rightarrow> snd (snd m) k)"

definition good_ios :: "volume \<Rightarrow> (nat \<Rightarrow> nat) \<Rightarrow> nat \<Rightarrow> 'cb io list \<Rightarrow> bool" where
  "good_ios v addr len ios \<longleftrightarrow> (\<forall>io \<in> set ios. d_vol io = v \<longrightarrow> (\<forall>k. moves io k \<longrightarrow> k < len \<and> d_addr io + (k - d_data io) = addr k))"

text \<open>While reads are under way every byte of the buffer is to be moved by one of them, or it is what the device holds.\<close>

definition reading :: "volume \<Rightarrow> (nat \<Rightarrow> nat) \<Rightarrow> nat \<Rightarrow> mem \<Rightarrow> 'cb io list \<Rightarrow> mem \<Rightarrow> bool" where
  "reading v addr len m0 ios m \<longleftrightarrow> good_ios v addr len ios \<and> (\<forall>io \<in> set ios. d_vol io = v \<and> d_dir io = OCF_READ) \<and> snd m = snd m0 \<and>
     (\<forall>k < len. (\<exists>io \<in> set ios. moves io k) \<or> fst m k = mdev v m0 (addr k))"

text \<open>
  While writes are under way, for every volume: a byte of the range is to be moved by one of them or has reached the device,
  and the rest of the device is as it was.
\<close>

definition writing :: "volume \<Rightarrow> (nat \<Rightarrow> nat) \<Rightarrow> nat \<Rightarrow> mem \<Rightarrow> 'cb io list \<Rightarrow> mem \<Rightarrow> bool" where
  "writing v addr len m0 ios m \<longleftrightarrow> good_ios v addr len ios \<and> (\<forall>io \<in> set ios. d_dir io = OCF_WRITE) \<and> fst m = fst m0 \<and>
     (\<forall>k < len. (\<exists>io \<in> set ios. d_vol io = v \<and> moves io k) \<or> mdev v m (addr k) = fst m0 k) \<and>
     (\<forall>a. a \<notin> addr ` {..<len} \<longrightarrow> mdev v m a = mdev v m0 a)"

text \<open>A volume that no I/O goes to stays as it is.\<close>

definition untouched :: "volume \<Rightarrow> mem \<Rightarrow> 'cb io list \<Rightarrow> mem \<Rightarrow> bool" where
  "untouched v m0 ios m \<longleftrightarrow> (\<forall>io \<in> set ios. d_dir io = OCF_WRITE \<longrightarrow> d_vol io \<noteq> v) \<and> mdev v m = mdev v m0"

lemma drop_nth_set:
  assumes "i < length ios" "io \<in> set ios"
  shows "io = ios ! i \<or> io \<in> set (drop_nth i ios)"
proof -
  have "ios = take i ios @ ios ! i # drop (Suc i) ios" using assms(1) by (simp add: id_take_nth_drop)
  then have "io \<in> set (take i ios @ ios ! i # drop (Suc i) ios)" using assms(2) by metis
  then show ?thesis by (auto simp: drop_nth_def)
qed

lemma good_ios_drop: "good_ios v addr len ios \<Longrightarrow> i < length ios \<Longrightarrow> good_ios v addr len (drop_nth i ios)"
  using drop_nth_simps(2) by (auto simp: good_ios_def)

lemma blit_moves: "blit src (d_addr io) dst (d_data io) (d_bytes io) k = (if moves io k then src (d_addr io + (k - d_data io)) else dst k)"
  by (simp add: blit_def moves_def)

lemma reading_step:
  assumes "reading v addr len m0 ios m" "i < length ios"
  shows "reading v addr len m0 (drop_nth i ios) (io_act (ios ! i) m)"
proof -
  let ?io = "ios ! i"
  have io: "?io \<in> set ios" "d_vol ?io = v" "d_dir ?io = OCF_READ" using assms nth_mem by (auto simp: reading_def)
  have s: "snd m = snd m0" using assms(1) by (simp add: reading_def)
  have act: "snd (io_act ?io m) = snd m" "fst (io_act ?io m) k = (if moves ?io k then mdev v m0 (d_addr ?io + (k - d_data ?io)) else fst m k)" for k
    using io(2,3) s by (cases m; cases m0; cases v; simp add: io_act_def mdev_def OCF_READ_def OCF_WRITE_def blit_moves)+
  have mv: "mdev v m0 (d_addr ?io + (k - d_data ?io)) = mdev v m0 (addr k)" if "moves ?io k" for k
    using assms(1) io that by (auto simp: reading_def good_ios_def)
  have "(\<exists>io \<in> set (drop_nth i ios). moves io k) \<or> fst (io_act ?io m) k = mdev v m0 (addr k)" if "k < len" for k
  proof (cases "moves ?io k")
    case False
    have "(\<exists>io \<in> set ios. moves io k) \<or> fst m k = mdev v m0 (addr k)" using assms(1) that by (simp add: reading_def)
    then show ?thesis using False act(2) drop_nth_set [OF assms(2)] by metis
  qed (simp add: act mv)
  then show ?thesis
    using assms act(1) s good_ios_drop [of v addr len ios i] drop_nth_simps(2) [OF assms(2)] by (auto simp: reading_def)
qed

lemma mdev_write:
  assumes "d_dir io = OCF_WRITE"
  shows "fst (io_act io m) = fst m"
    "mdev v (io_act io m) a = (if d_vol io = v \<and> d_addr io \<le> a \<and> a < d_addr io + d_bytes io then fst m (d_data io + (a - d_addr io)) else mdev v m a)"
  using assms by (cases m; cases v; cases "d_vol io"; simp add: io_act_def mdev_def blit_def)+

lemma writing_step:
  assumes w: "writing v addr len m0 ios m" "i < length ios" and inj: "inj_on addr {..<len}"
  shows "writing v addr len m0 (drop_nth i ios) (io_act (ios ! i) m)"
proof -
  let ?io = "ios ! i"
  have io: "?io \<in> set ios" "d_dir ?io = OCF_WRITE" using w nth_mem by (auto simp: writing_def)
  note act = mdev_write [OF io(2), where m = m]
  have eq: "fst m = fst m0" using w(1) by (simp add: writing_def)
  have good: "k < len" "d_addr ?io + (k - d_data ?io) = addr k" if "moves ?io k" "d_vol ?io = v" for k
    using w(1) io(1) that by (auto simp: writing_def good_ios_def)
  have hit: "\<exists>k. moves ?io k \<and> a = addr k \<and> fst m0 (d_data ?io + (a - d_addr ?io)) = fst m0 k"
    if "d_vol ?io = v" "d_addr ?io \<le> a" "a < d_addr ?io + d_bytes ?io" for a
  proof -
    have mv: "moves ?io (d_data ?io + (a - d_addr ?io))" using that unfolding moves_def by linarith
    have "a = addr (d_data ?io + (a - d_addr ?io))" using good(2) [OF mv that(1)] that(2) by simp
    then show ?thesis using mv by blast
  qed
  have out: "mdev v (io_act ?io m) a = mdev v m0 a" if "a \<notin> addr ` {..<len}" for a
    using that w(1) act(2) [of v a] hit [of a] good by (auto simp: writing_def)
  have "(\<exists>io \<in> set (drop_nth i ios). d_vol io = v \<and> moves io k) \<or> mdev v (io_act ?io m) (addr k) = fst m0 k" if k: "k < len" for k
  proof (cases "d_vol ?io = v \<and> d_addr ?io \<le> addr k \<and> addr k < d_addr ?io + d_bytes ?io")
    case True
    then obtain k' where k': "moves ?io k'" "addr k = addr k'" "fst m0 (d_data ?io + (addr k - d_addr ?io)) = fst m0 k'" using hit by blast
    have "k' = k" using inj_onD [OF inj k'(2)] good(1) [OF k'(1)] True k by simp
    then show ?thesis using True act(2) [of v "addr k"] k'(3) eq by simp
  next
    case False
    then have "\<not> (d_vol ?io = v \<and> moves ?io k)" using good(2) [of k] by (auto simp: moves_def)
    moreover have "(\<exists>io \<in> set ios. d_vol io = v \<and> moves io k) \<or> mdev v m (addr k) = fst m0 k" using w(1) k by (simp add: writing_def)
    ultimately show ?thesis using False act(2) [of v "addr k"] drop_nth_set [OF w(2)] by metis
  qed
  then show ?thesis
    using w out act(1) eq good_ios_drop [of v addr len ios i] drop_nth_simps(2) [OF w(2)] by (auto simp: writing_def)
qed

lemma untouched_step:
  assumes "untouched v m0 ios m" "i < length ios"
  shows "untouched v m0 (drop_nth i ios) (io_act (ios ! i) m)"
proof -
  have "mdev v (io_act (ios ! i) m) = mdev v m"
  proof (cases "d_dir (ios ! i) = OCF_WRITE")
    case True
    then show ?thesis using assms nth_mem [OF assms(2)] mdev_write(2) [OF True] by (auto simp: untouched_def fun_eq_iff)
  qed (cases m; cases v; simp add: io_act_def mdev_def)
  then show ?thesis using assms drop_nth_simps(2) [OF assms(2)] by (auto simp: untouched_def)
qed

end
