(* ===== verification/ReqInfo.thy ===== *)
theory ReqInfo
  imports Engine LineStatus
begin

section \<open>What the lookup records of a request\<close>

text \<open>
  The engines decide by the info of a request: whether its lines follow each other on the device, whether any of them is dirty, whether a line belongs to
  another partition. This theory shows what the info means after \<^verbatim>\<open>ocf_engine_traverse\<close> and
  \<^verbatim>\<open>ocf_engine_map\<close>, and that these functions leave the rest of the request alone, the lock bits of its entries included.
\<close>

definition lockbits :: "ocf_map_info \<Rightarrow> bool \<times> bool" where
  "lockbits e = (mi_rd_locked e, mi_wr_locked e)"

definition kept :: "ocf_request \<Rightarrow> ocf_request \<Rightarrow> bool" where
  "kept req req' \<longleftrightarrow> (\<exists>m info. req' = req\<lparr>rq_map := m, rq_info := info\<rparr>) \<and>
     (\<forall>j. map_option lockbits (req_entry req' j) = map_option lockbits (req_entry req j))"

lemma keptI:
  assumes "r' = r\<lparr>rq_map := m, rq_info := i\<rparr>" "\<And>j. map_option lockbits (req_entry r' j) = map_option lockbits (req_entry r j)"
  shows "kept r r'"
  using assms unfolding kept_def by blast

lemma kept_refl [simp]: "kept r r"
  by (rule keptI [where m = "rq_map r" and i = "rq_info r"]) simp_all

lemma kept_trans:
  assumes "kept a b" "kept b c"
  shows "kept a c"
proof -
  obtain m i m' i' where "b = a\<lparr>rq_map := m, rq_info := i\<rparr>" "c = b\<lparr>rq_map := m', rq_info := i'\<rparr>" using assms unfolding kept_def by blast
  then show ?thesis by (intro keptI [where m = m' and i = i']) (use assms in \<open>simp_all add: kept_def\<close>)
qed

lemma kept_upd [simp]: "kept r (upd_info f r)" "kept r (ocf_req_clear_info r)"
  by (rule keptI [where m = "rq_map r" and i = "f (rq_info r)"]; simp add: upd_info_def req_entry_def)
    (rule keptI [where m = "rq_map r" and i = req_info_zero]; simp add: ocf_req_clear_info_def req_entry_def)

lemma kept_upd_entry [simp]:
  assumes "\<And>e. req_entry r i = Some e \<Longrightarrow> lockbits (g e) = lockbits e"
  shows "kept r (upd_req_entry i g r)"
proof (rule keptI [where m = "rq_map (upd_req_entry i g r)" and i = "rq_info r"])
  show "upd_req_entry i g r = r\<lparr>rq_map := rq_map (upd_req_entry i g r), rq_info := rq_info r\<rparr>" by (simp add: upd_req_entry_def)
  show "map_option lockbits (req_entry (upd_req_entry i g r) j) = map_option lockbits (req_entry r j)" for j
    by (cases "req_entry r i") (auto simp: req_entry_upd assms)
qed

lemma kept_fields:
  assumes "kept r r'"
  shows "rq_core_id r' = rq_core_id r" "rq_part_id r' = rq_part_id r" "rq_core_line_first r' = rq_core_line_first r" "rq_core_line_last r' = rq_core_line_last r"
    "rq_core_line_count r' = rq_core_line_count r" "rq_byte_position r' = rq_byte_position r" "rq_byte_length r' = rq_byte_length r" "rq_rw r' = rq_rw r"
    "rq_ref_count r' = rq_ref_count r" "rq_lock_remaining r' = rq_lock_remaining r" "rq_req_remaining r' = rq_req_remaining r" "rq_error r' = rq_error r"
    "rq_d2c r' = rq_d2c r" "rq_mngt r' = rq_mngt r" "rq_alloc_core_line_count r' = rq_alloc_core_line_count r" "rq_seq_cutoff r' = rq_seq_cutoff r"
    "rq_dirty r' = rq_dirty r"
  using assms by (auto simp: kept_def)

text \<open>The info after the first \<open>n\<close> entries.\<close>

definition entry_hits :: "ocf_request \<Rightarrow> nat \<Rightarrow> cline \<Rightarrow> bool" where
  "entry_hits req i x \<longleftrightarrow> (\<exists>e. req_entry req i = Some e \<and> mi_status e = LOOKUP_HIT \<and> mi_coll_idx e = x)"

definition seq_upto :: "(cline \<Rightarrow> cline) \<Rightarrow> ocf_request \<Rightarrow> nat \<Rightarrow> bool" where
  "seq_upto lg2phy req n \<longleftrightarrow> (\<forall>i < n. \<exists>e. req_entry req i = Some e \<and> mi_status e \<noteq> LOOKUP_MISS \<and>
     (i \<noteq> 0 \<longrightarrow> (\<exists>e'. req_entry req (i - 1) = Some e' \<and> (lg2phy (mi_coll_idx e') + 1) mod U32_MOD = lg2phy (mi_coll_idx e))))"

definition info_upto :: "(cline \<Rightarrow> cline) \<Rightarrow> 'w::len wcache \<Rightarrow> nat \<Rightarrow> ocf_request \<Rightarrow> bool" where
  "info_upto lg2phy c n req \<longleftrightarrow>
     (ri_seq_req (rq_info req) \<longrightarrow> seq_upto lg2phy req n) \<and>
     ri_dirty_any (rq_info req) = card {i. i < n \<and> (\<exists>x. entry_hits req i x \<and> metadata_test_dirty (ca_status c) x = Some True)} \<and>
     ri_dirty_all (rq_info req) = card {i. i < n \<and> (\<exists>x. entry_hits req i x \<and> metadata_test_dirty (ca_status c) x = Some True \<and>
       metadata_test_dirty_all_sec (ca_status c) x (ocf_map_line_start_sector (ca_line c) req i) (ocf_map_line_end_sector (ca_line c) req i) = Some True)} \<and>
     (ri_re_part (rq_info req) \<longrightarrow> (\<exists>i < n. \<exists>x. entry_hits req i x \<and> ocf_metadata_get_partition_id (ca_links c) x \<noteq> Some (rq_part_id req))) \<and>
     \<not> ri_flush_metadata (rq_info req) \<and> \<not> ri_core_error (rq_info req)"

lemma update_seq_info_result:
  assumes "update_seq_info lg2phy i x req = Some req'"
  shows "req' = req \<or> req' = upd_info (\<lambda>r. r\<lparr>ri_seq_req := False\<rparr>) req"
    "ri_seq_req (rq_info req') \<Longrightarrow> ri_seq_req (rq_info req) \<and> (i \<noteq> 0 \<longrightarrow> (\<exists>e'. req_entry req (i - 1) = Some e' \<and> (lg2phy (mi_coll_idx e') + 1) mod U32_MOD = lg2phy x))"
  using assms by (auto simp: update_seq_info_def bind_eq_Some_conv split: if_splits dest: arg_cong [where f = "\<lambda>r. ri_seq_req (rq_info r)"])

text \<open>One entry more: only the info changes, and the mark of an entry that is to move to another partition.\<close>

definition same_entries :: "ocf_request \<Rightarrow> ocf_request \<Rightarrow> bool" where
  "same_entries req req' \<longleftrightarrow> kept req req' \<and> (\<forall>j. map_option (\<lambda>e. (mi_status e, mi_coll_idx e, mi_core_line e)) (req_entry req' j) =
     map_option (\<lambda>e. (mi_status e, mi_coll_idx e, mi_core_line e)) (req_entry req j))"

lemma same_entries_upd:
  "same_entries r (upd_info f r)" "(\<And>e. lockbits (g e) = lockbits e \<and> mi_status (g e) = mi_status e \<and> mi_coll_idx (g e) = mi_coll_idx e \<and> mi_core_line (g e) = mi_core_line e) \<Longrightarrow>
    same_entries r (upd_req_entry i g r)" "same_entries r r" "same_entries a b \<Longrightarrow> same_entries b c \<Longrightarrow> same_entries a c"
  by (auto simp: same_entries_def req_entry_upd option.map_comp comp_def intro: kept_trans)

lemma same_entries_hits:
  assumes "same_entries r r'"
  shows "entry_hits r' i x = entry_hits r i x" "seq_upto lg2phy r' n = seq_upto lg2phy r n"
    "ocf_map_line_start_sector st r' i = ocf_map_line_start_sector st r i" "ocf_map_line_end_sector st r' i = ocf_map_line_end_sector st r i" "rq_part_id r' = rq_part_id r"
proof -
  have e: "map_option (\<lambda>e. (mi_status e, mi_coll_idx e, mi_core_line e)) (req_entry r' j) = map_option (\<lambda>e. (mi_status e, mi_coll_idx e, mi_core_line e)) (req_entry r j)" for j
    using assms by (simp add: same_entries_def)
  show "entry_hits r' i x = entry_hits r i x" using e [of i] by (cases "req_entry r i"; cases "req_entry r' i") (auto simp: entry_hits_def)
  have "(\<exists>e. req_entry r' i = Some e \<and> mi_status e \<noteq> LOOKUP_MISS \<and> (i \<noteq> 0 \<longrightarrow> (\<exists>e'. req_entry r' (i - 1) = Some e' \<and> (lg2phy (mi_coll_idx e') + 1) mod U32_MOD = lg2phy (mi_coll_idx e)))) =
     (\<exists>e. req_entry r i = Some e \<and> mi_status e \<noteq> LOOKUP_MISS \<and> (i \<noteq> 0 \<longrightarrow> (\<exists>e'. req_entry r (i - 1) = Some e' \<and> (lg2phy (mi_coll_idx e') + 1) mod U32_MOD = lg2phy (mi_coll_idx e))))" for i
    using e [of i] e [of "i - 1"] by (cases "req_entry r i"; cases "req_entry r' i"; cases "req_entry r (i - 1)"; cases "req_entry r' (i - 1)") simp_all
  then show "seq_upto lg2phy r' n = seq_upto lg2phy r n" unfolding seq_upto_def by simp
  show "ocf_map_line_start_sector st r' i = ocf_map_line_start_sector st r i" "ocf_map_line_end_sector st r' i = ocf_map_line_end_sector st r i" "rq_part_id r' = rq_part_id r"
    using assms kept_fields by (auto simp: same_entries_def ocf_map_line_start_sector_def ocf_map_line_end_sector_def)
qed

lemma card_less_Suc:
  "card {i. i < Suc n \<and> Q i} = card {i. i < n \<and> Q i} + (if Q n then 1 else 0)"
proof -
  have "{i. i < Suc n \<and> Q i} = (if Q n then insert n {i. i < n \<and> Q i} else {i. i < n \<and> Q i})" by (auto simp: less_Suc_eq)
  then show ?thesis by simp
qed

text \<open>The lookup of one more entry keeps the meaning of the info.\<close>

lemma hit_info_result:
  assumes "update_hit_info c i x start stop req = Some req'"
  shows "same_entries req req'" "ri_seq_req (rq_info req') = ri_seq_req (rq_info req)"
    "ri_dirty_any (rq_info req') = ri_dirty_any (rq_info req) + (if metadata_test_dirty (ca_status c) x = Some True then 1 else 0)"
    "ri_dirty_all (rq_info req') = ri_dirty_all (rq_info req) +
       (if metadata_test_dirty (ca_status c) x = Some True \<and> metadata_test_dirty_all_sec (ca_status c) x start stop = Some True then 1 else 0)"
    "ri_re_part (rq_info req') \<Longrightarrow> ri_re_part (rq_info req) \<or> ocf_metadata_get_partition_id (ca_links c) x \<noteq> Some (rq_part_id req)"
    "ri_flush_metadata (rq_info req') = ri_flush_metadata (rq_info req)" "ri_core_error (rq_info req') = ri_core_error (rq_info req)"
proof -
  let ?v = "metadata_test_valid_sec (ca_status c) x start stop" and ?d = "metadata_test_dirty (ca_status c) x"
    and ?a = "metadata_test_dirty_all_sec (ca_status c) x start stop" and ?p = "ocf_metadata_get_partition_id (ca_links c) x"
  obtain v where v: "?v = Some v" using assms by (cases ?v) (simp_all add: update_hit_info_def)
  obtain d where d: "?d = Some d" using assms by (cases ?d) (simp_all add: update_hit_info_def v Let_def)
  obtain a where a: "d \<Longrightarrow> ?a = Some a" using assms by (cases ?a; cases d) (simp_all add: update_hit_info_def v d Let_def)
  obtain p where p': "?p = Some p" using assms a by (cases ?p; cases d) (simp_all add: update_hit_info_def v d Let_def)
  note t = v d p'
  define r1 where "r1 = (if v then upd_info (\<lambda>r. r\<lparr>ri_hit_no := ri_hit_no r + 1\<rparr>) req else upd_info (\<lambda>r. r\<lparr>ri_invalid_no := ri_invalid_no r + 1\<rparr>) req)"
  define r2 where "r2 = (if d then upd_info (\<lambda>r. r\<lparr>ri_dirty_any := ri_dirty_any r + 1\<rparr>) r1 else r1)"
  define r3 where "r3 = (if d \<and> a then upd_info (\<lambda>r. r\<lparr>ri_dirty_all := ri_dirty_all r + 1\<rparr>) r2 else r2)"
  have p: "rq_part_id r3 = rq_part_id req" by (simp add: r3_def r2_def r1_def upd_info_def)
  have req': "req' = (if rq_part_id req \<noteq> p then upd_req_entry i (\<lambda>e. e\<lparr>mi_re_part := True\<rparr>) (upd_info (\<lambda>r. r\<lparr>ri_re_part := True\<rparr>) r3) else r3)"
  proof -
    have "update_hit_info c i x start stop req = Some (if rq_part_id r3 \<noteq> p then upd_req_entry i (\<lambda>e. e\<lparr>mi_re_part := True\<rparr>) (upd_info (\<lambda>r. r\<lparr>ri_re_part := True\<rparr>) r3) else r3)"
      unfolding update_hit_info_def t(1-3) bind.bind_lunit Let_def r1_def [symmetric]
      using a t(3) by (cases d) (simp_all add: r2_def r3_def Let_def)
    then show ?thesis using assms p by simp
  qed
  have "same_entries req r1" "same_entries r1 r2" "same_entries r2 r3" by (simp_all add: r1_def r2_def r3_def same_entries_upd(1,3))
  then have se: "same_entries req r3" using same_entries_upd(4) by blast
  have "same_entries r3 req'" unfolding req' by (auto intro!: same_entries_upd(3) same_entries_upd(4) [OF same_entries_upd(1) same_entries_upd(2)] simp: lockbits_def)
  then show "same_entries req req'" using se same_entries_upd(4) by blast
  show "ri_seq_req (rq_info req') = ri_seq_req (rq_info req)"
    "ri_dirty_any (rq_info req') = ri_dirty_any (rq_info req) + (if metadata_test_dirty (ca_status c) x = Some True then 1 else 0)"
    "ri_dirty_all (rq_info req') = ri_dirty_all (rq_info req) +
       (if metadata_test_dirty (ca_status c) x = Some True \<and> metadata_test_dirty_all_sec (ca_status c) x start stop = Some True then 1 else 0)"
    "ri_flush_metadata (rq_info req') = ri_flush_metadata (rq_info req)" "ri_core_error (rq_info req') = ri_core_error (rq_info req)"
    using t a by (auto simp: req' r1_def r2_def r3_def)
  show "ri_re_part (rq_info req') \<Longrightarrow> ri_re_part (rq_info req) \<or> ocf_metadata_get_partition_id (ca_links c) x \<noteq> Some (rq_part_id req)"
    using t by (auto simp: req' r1_def r2_def r3_def split: if_splits)
qed

lemma info_upto_cong:
  assumes "info_upto lg2phy c n r" "\<And>i. i < n \<Longrightarrow> map_option (\<lambda>e. (mi_status e, mi_coll_idx e)) (req_entry r' i) = map_option (\<lambda>e. (mi_status e, mi_coll_idx e)) (req_entry r i)"
    "rq_info r' = rq_info r" "kept r r'"
  shows "info_upto lg2phy c n r'"
proof -
  have h: "entry_hits r' i x = entry_hits r i x" if "i < n" for i x
    using assms(2) [OF that] by (cases "req_entry r i"; cases "req_entry r' i") (auto simp: entry_hits_def)
  have s: "seq_upto lg2phy r n \<Longrightarrow> seq_upto lg2phy r' n"
  proof -
    assume a: "seq_upto lg2phy r n"
    have "\<exists>e. req_entry r' i = Some e \<and> mi_status e \<noteq> LOOKUP_MISS \<and> (i \<noteq> 0 \<longrightarrow> (\<exists>e'. req_entry r' (i - 1) = Some e' \<and> (lg2phy (mi_coll_idx e') + 1) mod U32_MOD = lg2phy (mi_coll_idx e)))" if i: "i < n" for i
    proof -
      have "i - 1 < n" using i by simp
      then show ?thesis using a i assms(2) [OF i] assms(2) [of "i - 1"] unfolding seq_upto_def
        by (cases "req_entry r i"; cases "req_entry r' i"; cases "req_entry r (i - 1)"; cases "req_entry r' (i - 1)") (auto simp: Let_def)
    qed
    then show ?thesis by (simp add: seq_upto_def)
  qed
  have sec: "ocf_map_line_start_sector st r' i = ocf_map_line_start_sector st r i" "ocf_map_line_end_sector st r' i = ocf_map_line_end_sector st r i" "rq_part_id r' = rq_part_id r" for st i
    using kept_fields [OF assms(4)] by (simp_all add: ocf_map_line_start_sector_def ocf_map_line_end_sector_def)
  show ?thesis using assms(1) s h unfolding info_upto_def assms(3) sec by (auto cong: conj_cong)
qed

lemma entry_hits_fun: "entry_hits r n x \<Longrightarrow> req_entry r n = Some e \<Longrightarrow> mi_status e = LOOKUP_HIT \<and> x = mi_coll_idx e"
  by (auto simp: entry_hits_def)

lemma seq_upto_Suc:
  "seq_upto lg2phy r (Suc n) \<longleftrightarrow> seq_upto lg2phy r n \<and> (\<exists>e. req_entry r n = Some e \<and> mi_status e \<noteq> LOOKUP_MISS \<and>
     (n \<noteq> 0 \<longrightarrow> (\<exists>e'. req_entry r (n - 1) = Some e' \<and> (lg2phy (mi_coll_idx e') + 1) mod U32_MOD = lg2phy (mi_coll_idx e))))"
  by (auto simp: seq_upto_def less_Suc_eq)

lemma info_upto_next:
  assumes inv: "info_upto lg2phy c n r" and e: "req_entry r n = Some e" and u: "ocf_engine_update_req_info lg2phy c r n = Some r'"
  shows "info_upto lg2phy c (Suc n) r'" "same_entries r r'"
proof -
  let ?s = "ocf_map_line_start_sector (ca_line c) r n" and ?t = "ocf_map_line_end_sector (ca_line c) r n" and ?x = "mi_coll_idx e"
  obtain r1 where r1: "(case mi_status e of LOOKUP_HIT \<Rightarrow> update_hit_info c n ?x ?s ?t r
       | LOOKUP_MISS \<Rightarrow> Some (upd_info (\<lambda>r. r\<lparr>ri_seq_req := False\<rparr>) r) | LOOKUP_MAPPED \<Rightarrow> Some r | LOOKUP_NONE \<Rightarrow> None) = Some r1"
    "update_seq_info lg2phy n ?x r1 = Some r'"
    using u e by (auto simp: ocf_engine_update_req_info_def bind_eq_Some_conv)
  define h where "h = (mi_status e = LOOKUP_HIT)"
  have I: "same_entries r r1" "ri_seq_req (rq_info r1) \<Longrightarrow> ri_seq_req (rq_info r) \<and> mi_status e \<noteq> LOOKUP_MISS"
    "ri_dirty_any (rq_info r1) = ri_dirty_any (rq_info r) + (if h \<and> metadata_test_dirty (ca_status c) ?x = Some True then 1 else 0)"
    "ri_dirty_all (rq_info r1) = ri_dirty_all (rq_info r) +
       (if h \<and> metadata_test_dirty (ca_status c) ?x = Some True \<and> metadata_test_dirty_all_sec (ca_status c) ?x ?s ?t = Some True then 1 else 0)"
    "ri_re_part (rq_info r1) \<Longrightarrow> ri_re_part (rq_info r) \<or> h \<and> ocf_metadata_get_partition_id (ca_links c) ?x \<noteq> Some (rq_part_id r)"
    "ri_flush_metadata (rq_info r1) = ri_flush_metadata (rq_info r)" "ri_core_error (rq_info r1) = ri_core_error (rq_info r)"
    using r1(1) hit_info_result [of c n ?x ?s ?t r r1] same_entries_upd(1,3) by (auto simp: h_def split: lookup_status.splits)
  note S = update_seq_info_result [OF r1(2)]
  have se: "same_entries r1 r'" using S(1) same_entries_upd(1,3) by auto
  then show se': "same_entries r r'" using I(1) same_entries_upd(4) by blast
  note H = same_entries_hits [OF se']
  have info: "ri_dirty_any (rq_info r') = ri_dirty_any (rq_info r1)" "ri_dirty_all (rq_info r') = ri_dirty_all (rq_info r1)"
    "ri_re_part (rq_info r') = ri_re_part (rq_info r1)" "ri_flush_metadata (rq_info r') = ri_flush_metadata (rq_info r1)"
    "ri_core_error (rq_info r') = ri_core_error (rq_info r1)" using S(1) by auto
  have hits: "entry_hits r n x \<longleftrightarrow> h \<and> x = ?x" for x using e by (auto simp: entry_hits_def h_def)
  have prev: "req_entry r1 (n - 1) = Some e' \<Longrightarrow> \<exists>e2. req_entry r (n - 1) = Some e2 \<and> mi_coll_idx e2 = mi_coll_idx e'" for e'
    using I(1) unfolding same_entries_def by (metis (mono_tags, lifting) Pair_inject map_option_eq_Some)
  have "seq_upto lg2phy r' (Suc n)" if "ri_seq_req (rq_info r')"
  proof -
    note s = S(2) [OF that]
    have "ri_seq_req (rq_info r)" "mi_status e \<noteq> LOOKUP_MISS" using I(2) s by auto
    moreover have "n \<noteq> 0 \<longrightarrow> (\<exists>e'. req_entry r (n - 1) = Some e' \<and> (lg2phy (mi_coll_idx e') + 1) mod U32_MOD = lg2phy ?x)"
      using s prev by force
    moreover have "seq_upto lg2phy r n" using inv calculation(1) unfolding info_upto_def by blast
    ultimately have "seq_upto lg2phy r (Suc n)" using e unfolding seq_upto_Suc by blast
    then show ?thesis by (simp only: H(2))
  qed
  then show "info_upto lg2phy c (Suc n) r'"
    using inv I(3-7) hits unfolding info_upto_def info H card_less_Suc by (auto simp: less_Suc_eq)
qed

lemma hot_frame:
  assumes "ocf_eviction_set_hot_cache_line c x = Some c'"
  shows "\<exists>ls. c' = c\<lparr>ca_lru := ls\<rparr>"
  using assms by (auto simp: ocf_eviction_set_hot_cache_line_def evp_lru_hot_cline_def bind_eq_Some_conv Let_def)

lemma fold_opt_upt_partial:
  assumes "\<And>i s s'. i < n \<Longrightarrow> I i s \<Longrightarrow> f i s = Some s' \<Longrightarrow> I (Suc i) s'" "I 0 s" "fold_opt f [0..<n] s = Some s'"
  shows "I n s'"
  using assms
proof (induction n arbitrary: s')
  case 0
  then show ?case by simp
next
  case (Suc n)
  then obtain t where t: "fold_opt f [0..<n] s = Some t" "f n t = Some s'" by (auto simp: fold_opt_append bind_eq_Some_conv)
  have "I n t" by (rule Suc.IH [OF _ Suc.prems(2) t(1)]) (use Suc.prems(1) in auto)
  then show ?case using Suc.prems(1) [of n t s'] t(2) by simp
qed

lemma lookup_entry_frame:
  assumes "ocf_engine_lookup_map_entry coll e k l = Some e'"
  shows "lockbits e' = lockbits e"
  using assms by (auto simp: ocf_engine_lookup_map_entry_def bind_eq_Some_conv Let_def lockbits_def split: option.splits)

text \<open>After a traversal.\<close>

lemma traverse_info:
  fixes c :: "'w::len wcache"
  assumes run: "ocf_engine_traverse lg2phy c req = Some (c', req')" and ok: "req_ok c req"
  shows "kept req req'" "info_upto lg2phy c (rq_core_line_count req) req'"
proof -
  let ?I = "\<lambda>n (s :: 'w wcache \<times> ocf_request). (\<exists>ls. fst s = c\<lparr>ca_lru := ls\<rparr>) \<and> kept req (snd s) \<and> info_upto lg2phy c n (snd s)"
  let ?r = "upd_info (\<lambda>r. r\<lparr>ri_seq_req := True\<rparr>) (ocf_req_clear_info req)"
  have idx: "req_indices ?r = [0..<rq_core_line_count req]"
    using req_ok_indices [OF ok] by (simp add: req_indices_def upd_info_def ocf_req_clear_info_def)
  have "?I (rq_core_line_count req) (c', req')"
  proof (rule fold_opt_upt_partial [where I = ?I and f = "traverse_step lg2phy" and s = "(c, ?r)"])
    have "kept req ?r" by (rule kept_trans [OF kept_upd(2) kept_upd(1)])
    moreover have "\<exists>ls. c = c\<lparr>ca_lru := ls\<rparr>" by (rule exI [of _ "ca_lru c"]) simp
    moreover have "info_upto lg2phy c 0 ?r" by (simp add: info_upto_def seq_upto_def ocf_req_clear_info_def req_info_zero_def)
    ultimately show "?I 0 (c, ?r)" by simp
    show "fold_opt (traverse_step lg2phy) [0..<rq_core_line_count req] (c, ?r) = Some (c', req')"
      using run by (simp add: ocf_engine_traverse_def idx Let_def)
    fix n s s'
    assume inv: "?I n s" and st: "traverse_step lg2phy n s = Some s'"
    obtain ls r where s: "s = (c\<lparr>ca_lru := ls\<rparr>, r)" and k: "kept req r" and inf: "info_upto lg2phy c n r" using inv by (cases s) auto
    obtain e e' where e: "req_entry r n = Some e" "ocf_engine_lookup_map_entry (ca_coll c) e (rq_core_id r) (rq_core_line_first r + n) = Some e'"
      using st by (auto simp: s traverse_step_def bind_eq_Some_conv)
    let ?u = "upd_req_entry n (\<lambda>_. e') r"
    have ku: "kept r ?u" using lookup_entry_frame [OF e(2)] e(1) by (intro kept_upd_entry) auto
    have iu: "info_upto lg2phy c n ?u" by (rule info_upto_cong [OF inf]) (auto simp: req_entry_upd ku)
    have eu: "req_entry ?u n = Some e'" using e(1) by (simp add: req_entry_upd)
    show "?I (Suc n) s'"
    proof (cases "mi_status e' = LOOKUP_HIT")
      case False
      then have s': "s' = (c\<lparr>ca_lru := ls\<rparr>, upd_info (\<lambda>r. r\<lparr>ri_seq_req := False\<rparr>) ?u)" using st e by (simp add: s traverse_step_def Let_def)
      have nh: "\<not> entry_hits (upd_info (\<lambda>r. r\<lparr>ri_seq_req := False\<rparr>) ?u) n x" for x using False eu by (auto simp: entry_hits_def)
      have se: "same_entries ?u (upd_info (\<lambda>r. r\<lparr>ri_seq_req := False\<rparr>) ?u)" by (rule same_entries_upd)
      have "info_upto lg2phy c (Suc n) (upd_info (\<lambda>r. r\<lparr>ri_seq_req := False\<rparr>) ?u)"
        using iu nh unfolding info_upto_def card_less_Suc same_entries_hits [OF se] by (auto simp: less_Suc_eq)
      then show ?thesis using s' k kept_trans [OF kept_trans [OF k ku] kept_upd(1)] by auto
    next
      case True
      obtain c2 r2 where c2: "ocf_eviction_set_hot_cache_line (c\<lparr>ca_lru := ls\<rparr>) (mi_coll_idx e') = Some c2"
        "ocf_engine_update_req_info lg2phy c2 ?u n = Some r2" "s' = (c2, r2)"
        using st e True by (auto simp: s traverse_step_def Let_def bind_eq_Some_conv)
      obtain ls2 where ls2: "c2 = c\<lparr>ca_lru := ls2\<rparr>" using hot_frame [OF c2(1)] by auto
      have "info_upto lg2phy c2 n ?u" using iu unfolding info_upto_def ls2 by simp
      from info_upto_next [OF this eu c2(2)] have "info_upto lg2phy c2 (Suc n) r2" "kept ?u r2" by (auto simp: same_entries_def)
      then have "info_upto lg2phy c (Suc n) r2" "kept req r2" using kept_trans [OF kept_trans [OF k ku]] unfolding info_upto_def ls2 by simp_all
      then show ?thesis using c2(3) ls2 by auto
    qed
  qed
  then show "kept req req'" "info_upto lg2phy c (rq_core_line_count req) req'" by auto
qed

end
