(* ===== verification/Content.thy ===== *)
theory Content
  imports Runs ReqInfo
begin

section \<open>The content of a core\<close>

text \<open>
  What the cache promises its users: behind it, a core has a content, byte by byte. A byte whose sector is valid in a cache line is
  in the cache, every other byte on the core device. The theory ties the bytes of a request to the sectors of its map entries and to the addresses of
  its I/Os.
\<close>

subsection \<open>Geometry\<close>

definition req_geo :: "line_settings \<Rightarrow> ocf_request \<Rightarrow> bool" where
  "req_geo st req \<longleftrightarrow> (\<exists>sz. ocf_metadata_config_init sz = Some st) \<and> 512 dvd rq_byte_position req \<and> 512 dvd rq_byte_length req \<and>
     0 < rq_byte_length req \<and> rq_byte_length req < U32_MOD \<and> rq_byte_position req + rq_byte_length req < U64_MOD \<and>
     rq_core_line_first req = rq_byte_position req div ocf_line_size st \<and>
     rq_core_line_last req = (rq_byte_position req + rq_byte_length req - 1) div ocf_line_size st \<and>
     rq_core_line_count req = rq_core_line_last req - rq_core_line_first req + 1 \<and> rq_core_line_count req < U32_MOD"

text \<open>The lines fit on the cache device, each at a place of its own.\<close>

definition layout_fits :: "io_cfg \<Rightarrow> nat \<Rightarrow> bool" where
  "layout_fits cf entries \<longleftrightarrow> 512 dvd cf_offset cf \<and> inj_on (cf_lg2phy cf) {..<entries} \<and> entries < U32_MOD \<and>
     (\<forall>x < entries. cf_lg2phy cf x < entries \<and> (cf_lg2phy cf x + 1) * ocf_line_size (cf_line cf) + cf_offset cf \<le> U64_MOD)"

lemma geo_line:
  assumes "req_geo st req"
  obtains n where "0 < n" "n \<le> 128" "ocf_line_size st = 512 * n" "ocf_line_sectors st = n" "ocf_line_end_sector st = n - 1"
proof -
  obtain sz where "ocf_metadata_config_init sz = Some st" using assms by (auto simp: req_geo_def)
  from config_init_values [OF this] show thesis
    by (intro that [of "ocf_line_sectors st"]) (simp_all add: ocf_line_sectors_def ocf_line_end_sector_def ocf_line_size_def)
qed

lemma geo_sectors:
  assumes geo: "req_geo st req"
  defines "ls \<equiv> ocf_line_size st"
  shows "rq_byte_position req \<le> a \<and> a < rq_byte_position req + rq_byte_length req \<longleftrightarrow>
    (\<exists>i < rq_core_line_count req. a div ls = rq_core_line_first req + i \<and>
       ocf_map_line_start_sector st req i \<le> (a mod ls) div 512 \<and> (a mod ls) div 512 \<le> ocf_map_line_end_sector st req i)"
proof -
  obtain n where n: "0 < n" "n \<le> 128" "ocf_line_size st = 512 * n" "ocf_line_sectors st = n" "ocf_line_end_sector st = n - 1"
    using geo_line [OF geo] by blast
  let ?p = "rq_byte_position req" and ?l = "rq_byte_length req"
  define A B where "A = ?p div 512" and "B = (?p + ?l - 1) div 512"
  have g: "512 dvd ?p" "512 dvd ?l" "0 < ?l" "?p + ?l < U64_MOD" "rq_core_line_first req = ?p div ls" "rq_core_line_last req = (?p + ?l - 1) div ls"
    "rq_core_line_count req = rq_core_line_last req - rq_core_line_first req + 1" "rq_core_line_count req < U32_MOD"
    using geo by (auto simp: req_geo_def ls_def)
  have ab: "?p div ls = A div n" "(?p + ?l - 1) div ls = B div n" by (simp_all add: ls_def n A_def B_def div_mult2_eq)
  have le: "A div n \<le> B div n" unfolding A_def B_def using g(3) by (intro div_le_mono) simp
  have cnt: "rq_core_line_count req = B div n - A div n + 1" "rq_core_line_first req = A div n" using g ab by simp_all
  have u8: "m mod n mod U8_MOD = m mod n" for m by (rule mod_less) (use mod_less_divisor [OF n(1), of m] n(2) in linarith)
  have start: "ocf_map_line_start_sector st req i = (if i = 0 then A mod n else 0)" for i
    by (simp add: ocf_map_line_start_sector_def BYTES_TO_SECTORS_def A_def n u8)
  have "(rq_core_line_count req + U32_MOD - 1) mod U32_MOD = B div n - A div n" using cnt(1) g(8) by simp
  moreover have "(?p + ?l + U64_MOD - 1) mod U64_MOD = ?p + ?l - 1"
  proof -
    have "?p + ?l + U64_MOD - 1 = (?p + ?l - 1) + U64_MOD" using g(3) by simp
    then show ?thesis using g(3,4) by (simp only: mod_add_self2) simp
  qed
  moreover have "(n - 1) mod U8_MOD = n - 1" using n by simp
  ultimately have stop: "ocf_map_line_end_sector st req i = (if i = B div n - A div n then B mod n else n - 1)" for i
    by (simp add: ocf_map_line_end_sector_def BYTES_TO_SECTORS_def B_def n u8)
  have sec: "a div ls = a div 512 div n" "(a mod ls) div 512 = a div 512 mod n"
    by (simp_all add: ls_def n div_mult2_eq mod_mult2_eq)
  have "?p \<le> a \<and> a < ?p + ?l \<longleftrightarrow> a div 512 \<in> {A..B}"
  proof -
    obtain p' l' where pl: "?p = 512 * p'" "?l = 512 * l'" using g(1,2) by (auto elim!: dvdE)
    then have "?p + ?l - 1 = 511 + 512 * (p' + l' - 1)" using g(3) by simp
    then have "B = p' + l' - 1" unfolding B_def by simp
    then show ?thesis using pl g(3) by (auto simp: A_def)
  qed
  then show ?thesis
    using sector_split [OF n(1) le, of "a div 512"] unfolding start stop cnt sec by simp
qed

lemma geo_byte:
  assumes geo: "req_geo st req" and k: "k < rq_byte_length req"
  defines "a \<equiv> rq_byte_position req + k" and "i \<equiv> byte_line st req k"
  shows "i < rq_core_line_count req" "a div ocf_line_size st = rq_core_line_first req + i"
    "(a mod ocf_line_size st) div 512 \<in> {ocf_map_line_start_sector st req i..ocf_map_line_end_sector st req i}"
proof -
  have "rq_byte_position req \<le> a \<and> a < rq_byte_position req + rq_byte_length req" using k by (simp add: a_def)
  then obtain j where j: "j < rq_core_line_count req" "a div ocf_line_size st = rq_core_line_first req + j"
    "ocf_map_line_start_sector st req j \<le> (a mod ocf_line_size st) div 512" "(a mod ocf_line_size st) div 512 \<le> ocf_map_line_end_sector st req j"
    using geo_sectors [OF geo, of a] by blast
  have "i = j" using j(2) geo by (simp add: i_def byte_line_def a_def req_geo_def)
  then show "i < rq_core_line_count req" "a div ocf_line_size st = rq_core_line_first req + i"
    "(a mod ocf_line_size st) div 512 \<in> {ocf_map_line_start_sector st req i..ocf_map_line_end_sector st req i}" using j by simp_all
qed

text \<open>The request fits once all of its entries name lines of the cache.\<close>

lemma geo_fits:
  assumes geo: "req_geo (cf_line cf) req" and lay: "layout_fits cf entries" and m: "rq_map req = Some m" "rq_core_line_count req \<le> length m"
    and l: "\<And>i. i < rq_core_line_count req \<Longrightarrow> line_of req i < entries"
  shows "req_fits cf req"
proof -
  obtain n where "0 < n" "n \<le> 128" "ocf_line_size (cf_line cf) = 512 * n" using geo_line [OF geo] by blast
  then show ?thesis using geo lay m l by (auto simp: req_fits_def req_geo_def layout_fits_def Let_def)
qed

lemma kept_geo: "kept r r' \<Longrightarrow> req_geo st r' = req_geo st r"
  by (simp add: req_geo_def kept_fields)

lemma kept_byte_line: "kept r r' \<Longrightarrow> byte_line st r' k = byte_line st r k"
  by (simp add: byte_line_def kept_fields)

text \<open>Lines that follow each other by the test of the lookup do so on the device.\<close>

lemma seq_consecutive:
  assumes seq: "seq_upto (cf_lg2phy cf) req n" and lay: "layout_fits cf entries" and l: "\<And>i. i < n \<Longrightarrow> line_of req i < entries"
  shows "consecutive cf req 0 n"
proof -
  have "cf_lg2phy cf (line_of req i) = cf_lg2phy cf (line_of req 0) + i" if "i < n" for i
    using that
  proof (induction i)
    case (Suc i)
    obtain e where e1: "req_entry req (Suc i) = Some e \<and> mi_status e \<noteq> LOOKUP_MISS \<and> (Suc i \<noteq> 0 \<longrightarrow> (\<exists>e'. req_entry req (Suc i - 1) = Some e' \<and>
        (cf_lg2phy cf (mi_coll_idx e') + 1) mod U32_MOD = cf_lg2phy cf (mi_coll_idx e)))"
      using seq [unfolded seq_upto_def, rule_format, OF Suc.prems] ..
    obtain e' where e2: "req_entry req (Suc i - 1) = Some e' \<and> (cf_lg2phy cf (mi_coll_idx e') + 1) mod U32_MOD = cf_lg2phy cf (mi_coll_idx e)"
      using mp [OF conjunct2 [OF conjunct2 [OF e1]] nat.distinct(2)] ..
    note e = conjunct1 [OF e1] conjunct1 [OF e2, unfolded diff_Suc_1] conjunct2 [OF e2]
    have x: "line_of req i = mi_coll_idx e'" "line_of req (Suc i) = mi_coll_idx e" by (simp_all add: line_of_def e(1,2))
    have lt: "line_of req i < entries" using l Suc.prems by simp
    have "cf_lg2phy cf (mi_coll_idx e') < entries" "entries < U32_MOD" using lay lt unfolding layout_fits_def x by blast+
    then have "cf_lg2phy cf (mi_coll_idx e') + 1 < U32_MOD" by linarith
    from mod_less [OF this] have "cf_lg2phy cf (mi_coll_idx e) = cf_lg2phy cf (mi_coll_idx e') + 1" by (rule trans [OF e(3) [symmetric]])
    moreover have "cf_lg2phy cf (line_of req i) = cf_lg2phy cf (line_of req 0) + i" by (rule Suc.IH) (use Suc.prems in simp)
    ultimately show ?case unfolding x by simp
  qed simp
  then show ?thesis unfolding consecutive_def by (simp only: add_0) (intro allI impI)
qed

text \<open>Different bytes of a request lie at different places, and where a byte of a request lies, no byte of another line does.\<close>

lemma mult_add_inj:
  fixes a a' b b' ls :: nat
  assumes "b < ls" "b' < ls" "a * ls + b = a' * ls + b'"
  shows "a = a' \<and> b = b'"
proof -
  have "(a * ls + b) div ls = (a' * ls + b') div ls" using assms(3) by simp
  then have "a = a'" using assms(1,2) by simp
  then show ?thesis using assms(3) by simp
qed

lemma byte_addr_inj:
  assumes geo: "req_geo (cf_line cf) req" and lay: "layout_fits cf entries" and l: "\<And>i. i < rq_core_line_count req \<Longrightarrow> line_of req i < entries"
    and d: "\<And>i j. i < rq_core_line_count req \<Longrightarrow> j < rq_core_line_count req \<Longrightarrow> line_of req i = line_of req j \<Longrightarrow> i = j"
  shows "inj_on (byte_addr cf req) {..<rq_byte_length req}"
proof (rule inj_onI)
  fix k k'
  assume k: "k \<in> {..<rq_byte_length req}" "k' \<in> {..<rq_byte_length req}" and eq: "byte_addr cf req k = byte_addr cf req k'"
  let ?ls = "ocf_line_size (cf_line cf)" and ?p = "rq_byte_position req"
  have ls: "0 < ?ls" using geo_line [OF geo] by (metis mult_pos_pos zero_less_numeral)
  let ?x = "line_of req (byte_line (cf_line cf) req k)" and ?x' = "line_of req (byte_line (cf_line cf) req k')"
  have "cf_lg2phy cf ?x * ?ls + (?p + k) mod ?ls = cf_lg2phy cf ?x' * ?ls + (?p + k') mod ?ls" using eq by (simp add: byte_addr_def)
  then have q: "cf_lg2phy cf ?x = cf_lg2phy cf ?x'" "(?p + k) mod ?ls = (?p + k') mod ?ls"
    using mult_add_inj [of "(?p + k) mod ?ls" ?ls "(?p + k') mod ?ls"] ls by simp_all
  note b = geo_byte [OF geo, of k] geo_byte [OF geo, of k']
  have "?x = ?x'" using q(1) lay l b k by (auto simp: layout_fits_def dest: inj_onD)
  then have "byte_line (cf_line cf) req k = byte_line (cf_line cf) req k'" using d b k by blast
  then have "(?p + k) div ?ls = (?p + k') div ?ls" using b(2,5) k by simp
  then have "?p + k = ?p + k'" using q(2) by (metis div_mult_mod_eq)
  then show "k = k'" by simp
qed

subsection \<open>Content and coherence\<close>

definition line_byte :: "'w::len world \<Rightarrow> cline \<Rightarrow> nat \<Rightarrow> nat" where
  "line_byte w x a = cf_lg2phy (w_cfg w) x * ocf_line_size (cf_line (w_cfg w)) + cf_offset (w_cfg w) + a mod ocf_line_size (cf_line (w_cfg w))"

text \<open>The cache line that holds a byte of a core, if its sector is cached.\<close>

definition cached_at :: "'w::len world \<Rightarrow> core_id \<Rightarrow> nat \<Rightarrow> cline option" where
  "cached_at w core a = (case coll_map (ca_coll (w_cache w)) (core, a div ocf_line_size (cf_line (w_cfg w))) of
     None \<Rightarrow> None
   | Some x \<Rightarrow> if a mod ocf_line_size (cf_line (w_cfg w)) div 512 \<in> sec_valid (w_cache w) x then Some x else None)"

definition content :: "'w::len world \<Rightarrow> core_id \<Rightarrow> nat \<Rightarrow> byte" where
  "content w core a = (case cached_at w core a of None \<Rightarrow> w_coredev w core a | Some x \<Rightarrow> w_cachedev w (line_byte w x a))"

text \<open>A byte that is cached and not dirty is the same on the core.\<close>

definition coherent :: "'w::len world \<Rightarrow> bool" where
  "coherent w \<longleftrightarrow> (\<forall>core a x. cached_at w core a = Some x \<longrightarrow> a mod ocf_line_size (cf_line (w_cfg w)) div 512 \<notin> sec_dirty (w_cache w) x \<longrightarrow>
     w_cachedev w (line_byte w x a) = w_coredev w core a)"

lemma content_same:
  assumes "ca_coll (w_cache w') = ca_coll (w_cache w)" "ca_status (w_cache w') = ca_status (w_cache w)" "w_cfg w' = w_cfg w"
    "w_cachedev w' = w_cachedev w" "w_coredev w' = w_coredev w"
  shows "content w' = content w" "coherent w' = coherent w"
proof -
  have c: "cached_at w' = cached_at w" "line_byte w' = line_byte w" unfolding cached_at_def line_byte_def fun_eq_iff assms by simp_all
  show "content w' = content w" "coherent w' = coherent w" unfolding content_def coherent_def fun_eq_iff c assms by simp_all
qed

end
