(* ===== verification/Stages.thy ===== *)
theory Stages
  imports Content
begin

section \<open>The stages of a request\<close>

text \<open>
  A request alone in the system goes through stages: it is looked up, its lines are locked, its I/Os are submitted, its lines are unlocked, it is
  completed and freed. \<open>at_work\<close> says what holds of the world in between; every operation of the engines that the stages are
  made of is shown to run without a failing assertion, and to keep it.
\<close>

subsection \<open>What the stages leave alone\<close>

definition env_same :: "'w::len world \<Rightarrow> 'w world \<Rightarrow> bool" where
  "env_same w w' \<longleftrightarrow> w_cfg w' = w_cfg w \<and> w_cachedev w' = w_cachedev w \<and> w_coredev w' = w_coredev w \<and> w_data w' = w_data w \<and>
     w_cp_data w' = w_cp_data w \<and> w_io_class w' = w_io_class w \<and> w_queue w' = w_queue w \<and> w_flushes w' = w_flushes w \<and>
     w_cleaning w' = w_cleaning w \<and> w_done w' = w_done w \<and> w_freed w' = w_freed w \<and> w_ctx w' = w_ctx w \<and> w_blocked w' = w_blocked w \<and>
     w_cp_ok w' = w_cp_ok w \<and> w_mlock w' = w_mlock w \<and> w_backfill_max w' = w_backfill_max w \<and> w_misses w' = w_misses w"

definition meta_same :: "'w::len world \<Rightarrow> 'w world \<Rightarrow> bool" where
  "meta_same w w' \<longleftrightarrow> ca_coll (w_cache w') = ca_coll (w_cache w) \<and> ca_status (w_cache w') = ca_status (w_cache w)"

lemma env_same_refl [simp]: "env_same w w" "meta_same w w"
  by (simp_all add: env_same_def meta_same_def)

lemma env_same_trans: "env_same a b \<Longrightarrow> env_same b c \<Longrightarrow> env_same a c" "meta_same a b \<Longrightarrow> meta_same b c \<Longrightarrow> meta_same a c"
  by (simp_all add: env_same_def meta_same_def)

lemma same_simps [simp]:
  "env_same w (putr r q w) = True" "env_same w (w\<lparr>w_cache := c\<rparr>) = True" "env_same w (w\<lparr>w_io := s\<rparr>) = True" "env_same w (w\<lparr>w_io_if := f\<rparr>) = True"
  "env_same w (w\<lparr>w_resume := g\<rparr>) = True" "env_same w (set_locks l w) = True" "env_same w (w\<lparr>w_promo := p\<rparr>) = True"
  "meta_same w (putr r q w) = True" "meta_same w (w\<lparr>w_io := s\<rparr>) = True" "meta_same w (w\<lparr>w_io_if := f\<rparr>) = True" "meta_same w (w\<lparr>w_resume := g\<rparr>) = True"
  "meta_same w (set_locks l w) = True" "meta_same w (w\<lparr>w_promo := p\<rparr>) = True"
  by (simp_all add: env_same_def meta_same_def set_locks_def)

lemma cput_same: "cl_reqs (ca_locks c) r = q \<Longrightarrow> cput r q c = c"
  by (auto simp: cput_def)

lemma putr_same: "cl_reqs (ca_locks (w_cache w)) r = q \<Longrightarrow> putr r q w = w"
  by (auto simp: putr_def set_locks_def)

subsection \<open>A request at work\<close>

text \<open>The lock bits of the first \<open>n\<close> entries of a map whose lines are held with the access word \<open>v\<close>.\<close>

definition marked :: "int \<Rightarrow> nat \<Rightarrow> ocf_map_info list \<Rightarrow> ocf_map_info list" where
  "marked v n m = (if v = 0 then m else if v = 1 then done_upto (set_rd_locked True) n m else done_upto (set_wr_locked True) n m)"

text \<open>The request fits the cache: its geometry, and what the statistics need.\<close>

definition req_ready :: "'w::len world \<Rightarrow> nat \<Rightarrow> ocf_request \<Rightarrow> bool" where
  "req_ready w r q \<longleftrightarrow> req_ok (w_cache w) q \<and> req_geo (ca_line (w_cache w)) q \<and> cf_line (w_cfg w) = ca_line (w_cache w) \<and>
     layout_fits (w_cfg w) (ca_entries (w_cache w)) \<and> w_io_class w r < OCF_IO_CLASS_MAX \<and> rq_rw q < 2 \<and> rq_error q = 0 \<and> rq_lock_remaining q = 0"

definition at_work :: "'w::len world \<Rightarrow> nat \<Rightarrow> ocf_request \<Rightarrow> ocf_map_info list \<Rightarrow> int \<Rightarrow> bool" where
  "at_work w r q m v \<longleftrightarrow> getr r w = Some q \<and> req_ready w r q \<and> (\<exists>P L F. cache_rep (w_cache w) P L F) \<and>
     (\<forall>b. cl_waiters (ca_locks (w_cache w)) b = []) \<and> cl_lock (ca_locks (w_cache w)) = rwsem_free \<and> cl_resumed (ca_locks (w_cache w)) = [] \<and> io_ready (w_io w) \<and>
     rq_map q = Some (marked v (rq_core_line_count q) m) \<and> cl_access (ca_locks (w_cache w)) = held_by (rq_core_line_count q) m v \<and>
     (\<forall>e \<in> set m. unlocked_entry e)"

lemma at_workD:
  assumes "at_work w r q m v"
  shows "getr r w = Some q" "req_ready w r q" "r \<notin> set (w_freed w)" "rq_map q = Some (marked v (rq_core_line_count q) m)" "io_ready (w_io w)"
    "cl_reqs (ca_locks (w_cache w)) r = q" "req_ok (w_cache w) q" "cl_entries (ca_locks (w_cache w)) = ca_entries (w_cache w)"
  using assms by (auto simp: at_work_def getr_def req_ready_def cache_rep_def cache_core_def cache_sizes_def split: if_splits)

lemma held_zero [simp]: "held_by n m 0 = (\<lambda>_. 0)" "marked 0 n m = m"
  by (auto simp: held_by_def marked_def)

lemma sector_updates [simp]:
  "ocf_map_line_start_sector st (q\<lparr>rq_map := m\<rparr>) i = ocf_map_line_start_sector st q i" "ocf_map_line_end_sector st (q\<lparr>rq_map := m\<rparr>) i = ocf_map_line_end_sector st q i"
  "ocf_map_line_start_sector st (q\<lparr>rq_info := f\<rparr>) i = ocf_map_line_start_sector st q i" "ocf_map_line_end_sector st (q\<lparr>rq_info := f\<rparr>) i = ocf_map_line_end_sector st q i"
  "ocf_map_line_start_sector st (q\<lparr>rq_ref_count := n\<rparr>) i = ocf_map_line_start_sector st q i" "ocf_map_line_end_sector st (q\<lparr>rq_ref_count := n\<rparr>) i = ocf_map_line_end_sector st q i"
  "ocf_map_line_start_sector st (q\<lparr>rq_req_remaining := k\<rparr>) i = ocf_map_line_start_sector st q i" "ocf_map_line_end_sector st (q\<lparr>rq_req_remaining := k\<rparr>) i = ocf_map_line_end_sector st q i"
  by (simp_all add: ocf_map_line_start_sector_def ocf_map_line_end_sector_def)

lemma kept_sectors:
  assumes "kept q q'"
  shows "ocf_map_line_start_sector st q' i = ocf_map_line_start_sector st q i" "ocf_map_line_end_sector st q' i = ocf_map_line_end_sector st q i"
  using kept_fields [OF assms] by (simp_all add: ocf_map_line_start_sector_def ocf_map_line_end_sector_def)

lemma req_ok_kept:
  fixes c c' :: "'w::len wcache"
  assumes "kept q q'" "req_ok c q" "\<exists>m. rq_map q' = Some m \<and> rq_core_line_count q \<le> length m" "ca_line c' = ca_line c"
  shows "req_ok c' q'"
  using assms(2-4) unfolding req_ok_def kept_sectors [OF assms(1)] kept_fields [OF assms(1)] by simp

text \<open>Changes of the request that leave its place and its map alone.\<close>

definition aside :: "ocf_request \<Rightarrow> ocf_request \<Rightarrow> bool" where
  "aside q q' \<longleftrightarrow> (\<exists>info n k. q' = q\<lparr>rq_info := info, rq_ref_count := n, rq_req_remaining := k\<rparr>)"

lemma at_work_put:
  assumes w: "at_work w r q m v" and q: "aside q q'"
  shows "at_work (putr r q' w) r q' m v"
proof -
  obtain info n k where q': "q' = q\<lparr>rq_info := info, rq_ref_count := n, rq_req_remaining := k\<rparr>" using q by (auto simp: aside_def)
  have "req_ok (w_cache w) q' = req_ok (w_cache w) q" by (simp add: q' req_ok_def)
  moreover have "req_geo st q' = req_geo st q" for st by (simp add: q' req_geo_def)
  moreover have "req_ready w r q" using w by (rule at_workD)
  ultimately have "req_ready w r q'" unfolding req_ready_def by (simp add: q')
  then have "req_ready (putr r q' w) r q'" by (simp add: req_ready_def req_ok_def)
  moreover have "\<exists>P L F. cache_rep (w_cache (putr r q' w)) P L F"
  proof -
    obtain P L F where "cache_rep (w_cache w) P L F" using w by (auto simp: at_work_def)
    then have "cache_rep (cput r q' (w_cache w)) P L F"
      unfolding cache_rep_def cache_core_def cache_sizes_def by (simp add: cput_def)
    then show ?thesis by auto
  qed
  moreover have "rq_map q' = rq_map q" "rq_core_line_count q' = rq_core_line_count q" using q by (auto simp: aside_def)
  ultimately show ?thesis using w at_workD(3) [OF w] by (simp add: at_work_def)
qed

lemma modr_work:
  assumes "at_work w r q m v" "aside q (f q)"
  shows "modr r f w = Some (putr r (f q) w)" "at_work (putr r (f q) w) r (f q) m v"
  using at_work_put [OF assms] at_workD(1) [OF assms(1)] by (simp_all add: modr_def)

subsection \<open>Looking up\<close>

lemma req_hash_kept:
  assumes m: "rq_map q = Some m" "rq_core_line_count q \<le> length m"
  shows "\<exists>q'. ocf_req_hash coll q = Some q' \<and> kept q q' \<and> map_option length (rq_map q') = Some (length m)"
  unfolding ocf_req_hash_def
proof (rule fold_opt_upt [where I = "\<lambda>i r. kept q r \<and> map_option length (rq_map r) = Some (length m)"])
  fix i s
  assume i: "i < rq_core_line_count q" and inv: "kept q s \<and> map_option length (rq_map s) = Some (length m)"
  then obtain k where k: "rq_map s = Some k" "length k = length m" by auto
  define h where "h = ocf_metadata_hash_func coll ((rq_core_line_first s + i) mod U64_MOD) (rq_core_id s)"
  let ?s = "s\<lparr>rq_map := Some (k[i := (k ! i)\<lparr>mi_hash := h\<rparr>])\<rparr>"
  have "kept s ?s"
    by (rule keptI [where m = "Some (k[i := (k ! i)\<lparr>mi_hash := h\<rparr>])" and i = "rq_info s"])
      (use k i m(2) in \<open>auto simp: req_entry_def lockbits_def nth_list_update\<close>)
  then have "kept q ?s" using inv kept_trans by blast
  then show "\<exists>s'. (case rq_map s of None \<Rightarrow> None | Some m \<Rightarrow> if i < length m then Some (s\<lparr>rq_map := Some (m[i := (m ! i)\<lparr>mi_hash :=
      ocf_metadata_hash_func coll ((rq_core_line_first s + i) mod U64_MOD) (rq_core_id s)\<rparr>])\<rparr>) else None) = Some s' \<and>
      kept q s' \<and> map_option length (rq_map s') = Some (length m)"
    using k i m(2) by (simp add: h_def)
qed (use m in simp)

lemma kept_unlocked:
  assumes "kept q q'" "rq_map q = Some m" "\<forall>e \<in> set m. unlocked_entry e" "rq_map q' = Some m'" "length m' = length m"
  shows "\<forall>e \<in> set m'. unlocked_entry e"
proof
  fix e
  assume "e \<in> set m'"
  then obtain j where j: "j < length m'" "e = m' ! j" by (auto simp: in_set_conv_nth)
  have "map_option lockbits (req_entry q' j) = map_option lockbits (req_entry q j)" using assms(1) by (simp add: kept_def)
  then have "lockbits e = lockbits (m ! j)" using assms(2,4,5) j by (simp add: req_entry_def)
  moreover have "unlocked_entry (m ! j)" using assms(3,5) j by simp
  ultimately show "unlocked_entry e" by (simp add: unlocked_entry_def lockbits_def)
qed

lemma cput_rep [simp]: "cache_rep (cput r q c) = cache_rep c"
  by (intro ext) (simp add: cput_def cache_rep_def cache_core_def cache_sizes_def)

lemma req_ready_kept:
  fixes w w' :: "'w::len world"
  assumes "req_ready w r q" "kept q q'" "\<exists>m. rq_map q' = Some m \<and> rq_core_line_count q \<le> length m" "ca_line (w_cache w') = ca_line (w_cache w)"
    "ca_entries (w_cache w') = ca_entries (w_cache w)" "w_cfg w' = w_cfg w" "w_io_class w' = w_io_class w"
  shows "req_ready w' r q'"
  using assms(1) req_ok_kept [OF assms(2) _ assms(3,4)] unfolding req_ready_def assms(4-7) kept_geo [OF assms(2)] kept_fields [OF assms(2)] by simp

lemma lookup_work:
  assumes w: "at_work w r q m 0"
  obtains w' q' m' where "req_hash_traverse r w = Some w'" "at_work w' r q' m' 0" "env_same w w'" "meta_same w w'" "w_io w' = w_io w" "kept q q'"
    "info_upto (cf_lg2phy (w_cfg w)) (w_cache w) (rq_core_line_count q) q'"
    "\<forall>i < rq_core_line_count q. ent q' i = Some (lookup_of (w_cache w) q i)" "\<not> ri_mapping_error (rq_info q')"
    "ocf_engine_is_hit q' \<longleftrightarrow> (\<forall>i < rq_core_line_count q. \<exists>x. coll_map (ca_coll (w_cache w)) (rq_core_id q, rq_core_line_first q + i) = Some x \<and>
       all_valid (w_cache w) q i x)"
    "ocf_engine_is_mapped q' \<longleftrightarrow> (\<forall>i < rq_core_line_count q. coll_map (ca_coll (w_cache w)) (rq_core_id q, rq_core_line_first q + i) \<noteq> None)"
    "ocf_engine_mapped_count q' = 0 \<longrightarrow> (\<forall>i < rq_core_line_count q. coll_map (ca_coll (w_cache w)) (rq_core_id q, rq_core_line_first q + i) = None)"
proof -
  let ?c = "w_cache w" and ?n = "rq_core_line_count q"
  note D = at_workD [OF w]
  obtain P L F where rep: "cache_rep ?c P L F" using w by (auto simp: at_work_def)
  have m: "rq_map q = Some m" "?n \<le> length m" using D(4,7) by (auto simp: req_ok_def)
  obtain q1 where q1: "ocf_req_hash (ca_coll ?c) q = Some q1" "kept q q1" "map_option length (rq_map q1) = Some (length m)"
    using req_hash_kept [OF m] by blast
  have ok1: "req_ok ?c q1" by (rule req_ok_kept [OF q1(2) D(7)]) (use q1(3) m in auto)
  note K1 = kept_fields [OF q1(2)]
  obtain s where s: "ocf_engine_traverse (cf_lg2phy (w_cfg w)) ?c q1 = Some s" "trav_inv ?c P L F q1 ?n s" using traverse_run [OF rep ok1] K1(5) by metis
  then obtain ls L' q' where t: "s = (?c\<lparr>ca_lru := ls\<rparr>, q')" "cache_rep (?c\<lparr>ca_lru := ls\<rparr>) P L' F" "req_same q1 q'"
    "\<forall>j < ?n. ent q' j = Some (lookup_of ?c q1 j)" "counted q' = (card (hits ?c q1 ?n), card (partial_hits ?c q1 ?n), False)"
    by (auto simp: trav_inv_def)
  note I = traverse_info [OF s(1) [unfolded t(1)] ok1]
  have k: "kept q q'" by (rule kept_trans [OF q1(2) I(1)])
  obtain m' where m': "rq_map q' = Some m'" "length m' = length m" using t(3) q1(3) by (auto simp: req_same_def)
  let ?w = "putr r q' (w\<lparr>w_cache := ?c\<lparr>ca_lru := ls\<rparr>\<rparr>)"
  have run: "req_hash_traverse r w = Some ?w" using q1(1) s(1) t(1) D(1) by (simp add: req_hash_traverse_def on_meta_def)
  have rr: "req_ready ?w r q'" by (rule req_ready_kept [OF D(2) k]) (use m m' in simp_all)
  have "\<exists>P L F. cache_rep (w_cache ?w) P L F" using t(2) by (intro exI [of _ P] exI [of _ L'] exI [of _ F]) simp
  then have "at_work ?w r q' m' 0"
    using w rr D(3) m' kept_unlocked [OF k m(1) _ m'] unfolding at_work_def by auto
  moreover have n: "rq_core_line_count q' = ?n" "?n < U32_MOD" using kept_fields(5) [OF k] D(7) by (simp_all add: req_ok_def)
  moreover have "lookup_of ?c q1 = lookup_of ?c q" "all_valid ?c q1 = all_valid ?c q"
    by (simp_all add: lookup_of_def all_valid_def fun_eq_iff K1 kept_sectors [OF q1(2)] split: option.splits)
  moreover note counted_hit_mapped [OF t(5) n]
  moreover have "\<not> ri_mapping_error (rq_info q')" using t(5) by (simp add: counted_def)
  moreover have "env_same w ?w" "meta_same w ?w" by (simp_all add: env_same_def meta_same_def)
  ultimately show thesis using t(4) run I(2) k K1 by (intro that [of ?w q' m']) simp_all
qed

text \<open>Lines that are mapped for different core lines differ, so the request can lock each of them.\<close>

definition points :: "'w::len wcache \<Rightarrow> ocf_request \<Rightarrow> nat \<Rightarrow> bool" where
  "points c q i \<longleftrightarrow> (\<exists>st x l. ent q i = Some (st, x, l) \<and> (st \<noteq> LOOKUP_MISS \<longrightarrow> coll_map (ca_coll c) (rq_core_id q, rq_core_line_first q + i) = Some x))"

lemma lines_distinctI:
  assumes "n \<le> length m" "\<And>i j. i < n \<Longrightarrow> j < n \<Longrightarrow> mi_status (m ! i) \<noteq> LOOKUP_MISS \<Longrightarrow> mi_status (m ! j) \<noteq> LOOKUP_MISS \<Longrightarrow>
    mi_coll_idx (m ! i) = mi_coll_idx (m ! j) \<Longrightarrow> i = j"
  shows "lines_distinct n m"
  unfolding lines_distinct_def
proof (rule conjI [OF assms(1)])
  show "distinct (map mi_coll_idx (filter (\<lambda>e. mi_status e \<noteq> LOOKUP_MISS) (take n m)))"
    using assms
  proof (induction n)
    case (Suc n)
    have "mi_coll_idx (m ! n) \<notin> mi_coll_idx ` {e \<in> set (take n m). mi_status e \<noteq> LOOKUP_MISS}" if s: "mi_status (m ! n) \<noteq> LOOKUP_MISS"
    proof
      assume "mi_coll_idx (m ! n) \<in> mi_coll_idx ` {e \<in> set (take n m). mi_status e \<noteq> LOOKUP_MISS}"
      then obtain i where "i < n" "mi_status (m ! i) \<noteq> LOOKUP_MISS" "mi_coll_idx (m ! n) = mi_coll_idx (m ! i)"
        by (auto simp: in_set_conv_nth)
      then show False using Suc.prems(2) [of n i] s by simp
    qed
    then show ?case using Suc by (simp add: take_Suc_conv_app_nth)
  qed simp
qed

lemma points_lockable:
  assumes w: "at_work w r q m 0" and p: "\<And>i. i < rq_core_line_count q \<Longrightarrow> points (w_cache w) q i"
  shows "lockable (ca_locks (w_cache w)) (rq_core_line_count q) m"
proof -
  let ?c = "w_cache w" and ?n = "rq_core_line_count q"
  note D = at_workD [OF w]
  have m: "rq_map q = Some m" "?n \<le> length m" using D(4,7) by (auto simp: req_ok_def)
  obtain P L F where core: "cache_core ?c P L F" using w by (auto simp: at_work_def cache_rep_def)
  have x: "coll_map (ca_coll ?c) (rq_core_id q, rq_core_line_first q + i) = Some (mi_coll_idx (m ! i))" if "i < ?n" "mi_status (m ! i) \<noteq> LOOKUP_MISS" for i
    using p [OF that(1)] that m by (auto simp: points_def ent_def req_entry_def)
  have "lines_distinct ?n m"
  proof (rule lines_distinctI [OF m(2)])
    fix i j
    assume a: "i < ?n" "j < ?n" "mi_status (m ! i) \<noteq> LOOKUP_MISS" "mi_status (m ! j) \<noteq> LOOKUP_MISS" "mi_coll_idx (m ! i) = mi_coll_idx (m ! j)"
    have "(rq_core_id q, rq_core_line_first q + i) = (rq_core_id q, rq_core_line_first q + j)"
      using inj_onD [OF coll_map_inj [OF cache_coreD(3) [OF core]]] x [OF a(1,3)] x [OF a(2,4)] a(5) by (metis domI)
    then show "i = j" by simp
  qed
  moreover have "unlocked_entry (m ! i)" if "i < ?n" for i using w that m by (auto simp: at_work_def)
  moreover have "mi_coll_idx (m ! i) < ca_entries ?c" if "i < ?n" "mi_status (m ! i) \<noteq> LOOKUP_MISS" for i
    by (rule coll_map_range(2) [OF core x [OF that]])
  ultimately show ?thesis using D(8) by (simp add: lockable_def)
qed

subsection \<open>Locking, and unlocking\<close>

text \<open>The world with the lines of the request held with the access word \<open>v\<close>.\<close>

definition hold :: "nat \<Rightarrow> ocf_request \<Rightarrow> ocf_map_info list \<Rightarrow> int \<Rightarrow> 'w::len world \<Rightarrow> 'w world" where
  "hold r q m v w = set_locks (with_map r (marked v (rq_core_line_count q) m) (held_by (rq_core_line_count q) m v) (ca_locks (w_cache w))) w"

lemma marked_length [simp]: "length (marked v n m) = length m"
  by (auto simp: marked_def done_upto_def)

lemma set_locks_rep:
  assumes "cl_entries l = cl_entries (ca_locks c)"
  shows "cache_rep (c\<lparr>ca_locks := l\<rparr>) = cache_rep c"
  using assms by (intro ext) (simp add: cache_rep_def cache_core_def cache_sizes_def)

lemma hold_work:
  assumes w: "at_work w r q m v"
  shows "at_work (hold r q m v' w) r (q\<lparr>rq_map := Some (marked v' (rq_core_line_count q) m)\<rparr>) m v'" "env_same w (hold r q m v' w)"
    "meta_same w (hold r q m v' w)" "w_io (hold r q m v' w) = w_io w" "ca_raw (w_cache (hold r q m v' w)) = ca_raw (w_cache w)"
    "w_io_if (hold r q m v' w) = w_io_if w"
proof -
  note D = at_workD [OF w]
  let ?n = "rq_core_line_count q"
  let ?l = "with_map r (marked v' ?n m) (held_by ?n m v') (ca_locks (w_cache w))" and ?q = "q\<lparr>rq_map := Some (marked v' ?n m)\<rparr>"
  have n: "?n \<le> length m" using D(4,7) by (simp add: req_ok_def)
  have "req_ok (w_cache w) ?q"
    using D(7) n by (simp add: req_ok_def)
  moreover have "req_geo st ?q = req_geo st q" for st by (simp add: req_geo_def)
  ultimately have "req_ready w r ?q" using D(2) unfolding req_ready_def by simp
  then have "req_ready (hold r q m v' w) r ?q" unfolding req_ready_def hold_def set_locks_def by (simp add: req_ok_def)
  moreover have "cl_reqs ?l r = ?q" using D(6) by simp
  moreover have "cache_rep ((w_cache w)\<lparr>ca_locks := ?l\<rparr>) = cache_rep (w_cache w)" by (rule set_locks_rep) simp
  ultimately show "at_work (hold r q m v' w) r ?q m v'"
    using w D(3) unfolding at_work_def hold_def by (simp add: getr_def set_locks_def)
qed (simp_all add: hold_def set_locks_def env_same_def meta_same_def)

lemma at_work_idle:
  assumes "at_work w r q m 0"
  shows "cl_idle (ca_locks (w_cache w))"
  using assms by (simp add: at_work_def cl_idle_def)

lemma lock_work:
  assumes w: "at_work w r q m 0" and ok: "lockable (ca_locks (w_cache w)) (rq_core_line_count q) m"
  shows "async_lock_rd r f w = Some (OCF_LOCK_ACQUIRED, hold r q m 1 (w\<lparr>w_resume := (w_resume w)(r := f)\<rparr>))"
    "async_lock_wr r f w = Some (OCF_LOCK_ACQUIRED, hold r q m OCF_CACHE_LINE_ACCESS_WR (w\<lparr>w_resume := (w_resume w)(r := f)\<rparr>))"
proof -
  note D = at_workD [OF w]
  have m: "rq_map (cl_reqs (ca_locks (w_cache w)) r) = Some m" "rq_core_line_count (cl_reqs (ca_locks (w_cache w)) r) = rq_core_line_count q"
    "rq_lock_remaining (cl_reqs (ca_locks (w_cache w)) r) = 0"
    using D(2,4,6) by (simp_all add: req_ready_def)
  note T = trylock_idle [OF at_work_idle [OF w] m(1,2) ok m(3)]
  show "async_lock_rd r f w = Some (OCF_LOCK_ACQUIRED, hold r q m 1 (w\<lparr>w_resume := (w_resume w)(r := f)\<rparr>))"
    "async_lock_wr r f w = Some (OCF_LOCK_ACQUIRED, hold r q m OCF_CACHE_LINE_ACCESS_WR (w\<lparr>w_resume := (w_resume w)(r := f)\<rparr>))"
    using D(1) T by (simp_all add: async_lock_rd_def async_lock_wr_def hold_def marked_def OCF_CACHE_LINE_ACCESS_WR_def)
qed

lemma unlock_work:
  assumes w: "at_work w r q m v" and ok: "lockable (ca_locks (w_cache w)) (rq_core_line_count q) m" and v: "v \<in> {1, OCF_CACHE_LINE_ACCESS_WR}"
  shows "on_locks r ocf_req_unlock w = Some (hold r q m 0 w)" "v = 1 \<Longrightarrow> on_locks r ocf_req_unlock_rd w = Some (hold r q m 0 w)"
    "v = OCF_CACHE_LINE_ACCESS_WR \<Longrightarrow> on_locks r ocf_req_unlock_wr w = Some (hold r q m 0 w)"
proof -
  note D = at_workD [OF w]
  let ?n = "rq_core_line_count q" and ?c = "ca_locks (w_cache w)"
  have wt: "\<forall>b. cl_waiters ?c b = []" and n: "rq_core_line_count (cl_reqs ?c r) = ?n" using w D(6) by (simp_all add: at_work_def)
  have self: "?c = with_map r (marked v ?n m) (held_by ?n m v) ?c"
  proof -
    have a: "held_by ?n m v = cl_access ?c" using w by (simp add: at_work_def)
    have "(cl_reqs ?c r)\<lparr>rq_map := Some (marked v ?n m)\<rparr> = cl_reqs ?c r" using D(4,6) by simp
    then show ?thesis by (simp add: with_map_def a)
  qed
  note U = unlock_held [OF wt n ok]
  have "ocf_req_unlock r ?c = Some (with_map r m (\<lambda>_. 0) ?c)" "v = 1 \<Longrightarrow> ocf_req_unlock_rd r ?c = Some (with_map r m (\<lambda>_. 0) ?c)"
    "v = OCF_CACHE_LINE_ACCESS_WR \<Longrightarrow> ocf_req_unlock_wr r ?c = Some (with_map r m (\<lambda>_. 0) ?c)"
    using v U self by (auto simp: marked_def OCF_CACHE_LINE_ACCESS_WR_def)
  then show "on_locks r ocf_req_unlock w = Some (hold r q m 0 w)" "v = 1 \<Longrightarrow> on_locks r ocf_req_unlock_rd w = Some (hold r q m 0 w)"
    "v = OCF_CACHE_LINE_ACCESS_WR \<Longrightarrow> on_locks r ocf_req_unlock_wr w = Some (hold r q m 0 w)"
    using D(1) by (simp_all add: on_locks_def hold_def)
qed

subsection \<open>Partition, statistics and submission\<close>

definition some_rep :: "'w::len wcache \<Rightarrow> bool" where
  "some_rep c \<longleftrightarrow> (\<exists>P L F. cache_rep c P L F)"

lemma part_move_step:
  assumes rep: "some_rep c" and q: "rq_part_id q < OCF_IO_CLASS_MAX" and e: "req_entry q i = Some e"
    and x: "mi_status e = LOOKUP_HIT \<Longrightarrow> mi_coll_idx e \<in> mapped_lines (ca_coll c)"
  shows "\<exists>c'. part_move_entry q i c = Some c' \<and> some_rep c' \<and> ca_status c' = ca_status c \<and> ca_coll c' = ca_coll c \<and> ca_locks c' = ca_locks c \<and>
    ca_line c' = ca_line c"
proof (cases "mi_status e = LOOKUP_HIT \<and> mi_re_part e")
  case False
  then have "part_move_entry q i c = Some c" using e by (cases "mi_re_part e") (simp_all add: part_move_entry_def Let_def)
  then show ?thesis using rep by simp
next
  case True
  obtain P L F where c: "cache_rep c P L F" using rep by (auto simp: some_rep_def)
  then have core: "cache_core c P L F" by (simp add: cache_rep_def)
  obtain p where p: "p < OCF_IO_CLASS_MAX" "mi_coll_idx e \<in> set (P p)" using x True cache_coreD(7) [OF core] by (auto simp: part_lines_def)
  show ?thesis
  proof (cases "rq_part_id q = p")
    case eq: True
    have "part_move_entry q i c = Some c" using True e eq p(1) core_line_ok(2) [OF core p] by (simp add: part_move_entry_def Let_def)
    then show ?thesis using rep by simp
  next
    case False
    then show ?thesis using part_move_rep [OF c p(1) q False p(2) e] True unfolding some_rep_def by blast
  qed
qed

lemma re_part_work:
  assumes w: "at_work w r q m v" and p: "\<And>i. i < rq_core_line_count q \<Longrightarrow> points (w_cache w) q i"
  obtains w' where "re_part r w = Some w'" "at_work w' r q m v" "env_same w w'" "meta_same w w'" "w_io w' = w_io w"
    "ca_locks (w_cache w') = ca_locks (w_cache w)" "w_io_if w' = w_io_if w"
proof (cases "ri_re_part (rq_info q)")
  case False
  then show thesis using that [of w] w at_workD(1) [OF w] by (simp add: re_part_def)
next
  case True
  note D = at_workD [OF w]
  let ?c = "w_cache w" and ?n = "rq_core_line_count q"
  let ?I = "\<lambda>c. some_rep c \<and> ca_status c = ca_status ?c \<and> ca_coll c = ca_coll ?c \<and> ca_locks c = ca_locks ?c \<and> ca_line c = ca_line ?c"
  obtain P L F where core: "cache_core ?c P L F" using w by (auto simp: at_work_def cache_rep_def)
  have "\<exists>c'. fold_opt (part_move_entry q) [0..<?n] ?c = Some c' \<and> ?I c'"
  proof (rule fold_opt_upt [where I = "\<lambda>_. ?I"])
    fix i c
    assume i: "i < ?n" and inv: "?I c"
    obtain e where e: "req_entry q i = Some e" using req_ok_entry [OF D(7) i] by blast
    have "mi_coll_idx e \<in> mapped_lines (ca_coll c)" if "mi_status e = LOOKUP_HIT"
      using p [OF i] that e coll_map_iff [OF cache_coreD(3) [OF core]] inv by (auto simp: points_def ent_def)
    then show "\<exists>c'. part_move_entry q i c = Some c' \<and> ?I c'"
      using part_move_step [of c q i e] inv e D(7) by (auto simp: req_ok_def)
  qed (use w in \<open>auto simp: at_work_def some_rep_def\<close>)
  then obtain c' where c': "fold_opt (part_move_entry q) [0..<?n] ?c = Some c'" "?I c'" by blast
  let ?w = "putr r q (w\<lparr>w_cache := c'\<rparr>)"
  have eq: "?w = w\<lparr>w_cache := c'\<rparr>" by (rule putr_same) (use c'(2) D(6) in simp)
  have run: "re_part r w = Some ?w" using True D(1) c'(1) by (simp add: re_part_def on_meta_def ocf_part_move_def)
  have "req_ready ?w r q" using D(2) c'(2) unfolding req_ready_def eq by (simp add: req_ok_def)
  then have "at_work ?w r q m v"
    using w c'(2) D(3,6) unfolding at_work_def eq by (simp add: some_rep_def)
  then show thesis using that [of ?w] run c'(2) unfolding eq by (simp add: meta_same_def)
qed

text \<open>A change of the I/O state that keeps it ready is all that the statistics do.\<close>

lemma io_work:
  assumes "at_work w r q m v" "io_ready s"
  shows "at_work (w\<lparr>w_io := s\<rparr>) r q m v"
  using assms by (simp add: at_work_def req_ready_def)

definition counted_in :: "'w::len world \<Rightarrow> 'w world \<Rightarrow> bool" where
  "counted_in w w' \<longleftrightarrow> (\<exists>cs. w' = w\<lparr>w_io := (w_io w)\<lparr>st_counters := cs\<rparr>\<rparr>)"

lemma counted_in_work:
  assumes "counted_in w w'" "at_work w r q m v"
  shows "at_work w' r q m v" "env_same w w'" "meta_same w w'" "st_ios (w_io w') = st_ios (w_io w)"
  using assms io_work [OF assms(2)] at_workD(5) [OF assms(2)] by (auto simp: counted_in_def io_ready_def)

lemma upd_stats_work:
  assumes "at_work w r q m v" "\<And>c. \<exists>c'. f q c = Some c'"
  shows "\<exists>w'. upd_stats r f w = Some w' \<and> counted_in w w'"
proof -
  obtain c' where "f q (st_counters (w_io w) (rq_core_id q)) = Some c'" using assms(2) by blast
  then show ?thesis using at_workD(1) [OF assms(1)] by (auto simp: upd_stats_def upd_counters_def counted_in_def)
qed

lemma dir_cases: "d < 2 \<Longrightarrow> d = OCF_READ \<or> d = OCF_WRITE" for d :: nat
  by (auto simp: OCF_READ_def OCF_WRITE_def)

lemma stats_work:
  assumes w: "at_work w r q m v"
  shows "\<exists>w'. update_request_stats r w = Some w' \<and> counted_in w w'" "\<exists>w'. update_block_stats r w = Some w' \<and> counted_in w w'"
    "\<exists>w'. request_pt_update r w = Some w' \<and> counted_in w w'"
proof -
  have b: "rq_part_id q < OCF_IO_CLASS_MAX" "rq_rw q < 2" using at_workD(2,7) [OF w] by (auto simp: req_ready_def req_ok_def)
  then have d: "rq_rw q = 0 \<or> rq_rw q = 1" by linarith
  show "\<exists>w'. update_request_stats r w = Some w' \<and> counted_in w w'" "\<exists>w'. update_block_stats r w = Some w' \<and> counted_in w w'"
    "\<exists>w'. request_pt_update r w = Some w' \<and> counted_in w w'"
    unfolding update_request_stats_def update_block_stats_def request_pt_update_def
    by (rule upd_stats_work [OF w]; use b(1) d in \<open>auto simp: ocf_core_stats_request_update_def ocf_core_stats_vol_block_update_def
        ocf_core_stats_request_pt_update_def upd_part_def ocf_stats_block_update_def upd_reqs_def Let_def\<close>)+
qed

definition all_mapped :: "'w::len wcache \<Rightarrow> ocf_request \<Rightarrow> bool" where
  "all_mapped c q \<longleftrightarrow> (\<forall>i < rq_core_line_count q. coll_map (ca_coll c) (rq_core_id q, rq_core_line_first q + i) = Some (line_of q i))"

lemma all_mapped_lines:
  assumes w: "at_work w r q m v" and a: "all_mapped (w_cache w) q"
  shows "\<And>i. i < rq_core_line_count q \<Longrightarrow> line_of q i < ca_entries (w_cache w)"
    "\<And>i j. i < rq_core_line_count q \<Longrightarrow> j < rq_core_line_count q \<Longrightarrow> line_of q i = line_of q j \<Longrightarrow> i = j"
    "req_fits (w_cfg w) q" "inj_on (byte_addr (w_cfg w) q) {..<rq_byte_length q}"
proof -
  note D = at_workD [OF w]
  obtain P L F where core: "cache_core (w_cache w) P L F" using w by (auto simp: at_work_def cache_rep_def)
  show l: "line_of q i < ca_entries (w_cache w)" if "i < rq_core_line_count q" for i
    using coll_map_range(2) [OF core] a that by (auto simp: all_mapped_def)
  show d: "i = j" if "i < rq_core_line_count q" "j < rq_core_line_count q" "line_of q i = line_of q j" for i j
  proof -
    have "coll_map (ca_coll (w_cache w)) (rq_core_id q, rq_core_line_first q + i) = Some (line_of q i)"
      "coll_map (ca_coll (w_cache w)) (rq_core_id q, rq_core_line_first q + j) = Some (line_of q i)"
      using a that by (auto simp: all_mapped_def)
    then have "(rq_core_id q, rq_core_line_first q + i) = (rq_core_id q, rq_core_line_first q + j)"
      using inj_onD [OF coll_map_inj [OF cache_coreD(3) [OF core]]] by (metis domI)
    then show ?thesis by simp
  qed
  have geo: "req_geo (cf_line (w_cfg w)) q" "layout_fits (w_cfg w) (ca_entries (w_cache w))" using D(2) by (simp_all add: req_ready_def)
  obtain m' where m: "rq_map q = Some m'" "rq_core_line_count q \<le> length m'" using D(7) by (auto simp: req_ok_def)
  show "req_fits (w_cfg w) q" by (rule geo_fits [OF geo m l])
  show "inj_on (byte_addr (w_cfg w) q) {..<rq_byte_length q}" by (rule byte_addr_inj [OF geo l d])
qed

lemma whole_span:
  assumes "req_fits cf q"
  shows "byte_line (cf_line cf) q 0 = 0" "span (cf_line cf) q 0 (rq_byte_length q) = rq_core_line_count q"
proof -
  show "byte_line (cf_line cf) q 0 = 0" by (simp add: byte_line_def)
  have "rq_byte_position q + (0 + rq_byte_length q - 1) = rq_byte_position q + rq_byte_length q - 1" using assms by (simp add: req_fits_def Let_def)
  moreover have "rq_core_line_count q = (rq_byte_position q + rq_byte_length q - 1) div ocf_line_size (cf_line cf) -
      rq_byte_position q div ocf_line_size (cf_line cf) + 1"
    using assms unfolding req_fits_def Let_def by blast
  ultimately show "span (cf_line cf) q 0 (rq_byte_length q) = rq_core_line_count q"
    unfolding span_def byte_line_def by (simp only: add_0_right) simp
qed

definition data_ios :: "cb \<Rightarrow> nat \<Rightarrow> nat \<Rightarrow> volume \<Rightarrow> cb io list \<Rightarrow> bool" where
  "data_ios cb r dir vol ios \<longleftrightarrow> (\<forall>io \<in> set ios. d_kind io = DataIO \<and> d_vol io = vol \<and> d_dir io = dir \<and> d_req io = r \<and> d_cb io = cb)"

lemma submit_cache_work:
  assumes w: "at_work w r q m v" and a: "all_mapped (w_cache w) q" and dir: "dir < 2"
    and seq: "ri_seq_req (rq_info q) \<Longrightarrow> seq_upto (cf_lg2phy (w_cfg w)) q (rq_core_line_count q)"
  obtains s ios where "submit_cache_reqs r dir 0 (rq_byte_length q) (ocf_engine_io_count q) cb w = Some (w\<lparr>w_io := s\<rparr>)"
    "at_work (w\<lparr>w_io := s\<rparr>) r q m v" "submitted (w_io w) ios s" "length ios = ocf_engine_io_count q"
    "carries (byte_addr (w_cfg w) q) 0 (rq_byte_length q) ios" "data_ios cb r dir CacheVolume ios"
proof -
  note D = at_workD [OF w] and A = all_mapped_lines [OF w a]
  let ?n = "rq_core_line_count q" and ?len = "rq_byte_length q"
  have p: "w_io_class w r < OCF_IO_CLASS_MAX" and lay: "layout_fits (w_cfg w) (ca_entries (w_cache w))" using D(2) by (simp_all add: req_ready_def)
  note S = whole_span [OF A(3)]
  have f: "0 < ?len" "512 dvd ?len" using A(3) by (simp_all add: req_fits_def Let_def)
  have reqs: "ocf_engine_io_count q = span (cf_line (w_cfg w)) q 0 ?len \<or> ocf_engine_io_count q = 1 \<and>
      consecutive (w_cfg w) q (byte_line (cf_line (w_cfg w)) q 0) (span (cf_line (w_cfg w)) q 0 ?len)"
  proof (cases "ri_seq_req (rq_info q)")
    case True
    have "consecutive (w_cfg w) q 0 ?n" by (rule seq_consecutive [OF seq [OF True] lay A(1)])
    then show ?thesis using True by (simp add: ocf_engine_io_count_def S)
  qed (simp add: ocf_engine_io_count_def S)
  obtain s ios where s: "ocf_submit_cache_reqs (w_cfg w) (w_io w) r q (w_io_class w r) dir 0 ?len (ocf_engine_io_count q) cb = Some (s, [])"
    "submitted (w_io w) ios s" "length ios = ocf_engine_io_count q" "carries (byte_addr (w_cfg w) q) 0 (0 + ?len) ios"
    "\<forall>io \<in> set ios. d_kind io = DataIO \<and> d_vol io = CacheVolume \<and> d_dir io = dir \<and> d_req io = r \<and> d_cb io = cb"
    using submit_cache_reqs_ok [OF A(3) D(5) p dir _ f(1) _ f(2) reqs, of r cb] by auto
  have "io_ready s" using submitted_simps(3) [OF s(2)] D(5) by simp
  then show thesis using that [of s ios] s io_work [OF w] D(1) by (simp add: submit_cache_reqs_def data_ios_def)
qed

lemma submit_volume_work:
  assumes w: "at_work w r q m v"
  obtains s ios where "submit_volume_req r cb w = Some (w\<lparr>w_io := s\<rparr>)"
    "at_work (w\<lparr>w_io := s\<rparr>) r q m v" "submitted (w_io w) ios s" "length ios = 1"
    "carries (\<lambda>k. rq_byte_position q + k) 0 (rq_byte_length q) ios" "data_ios cb r (rq_rw q) (CoreVolume (rq_core_id q)) ios"
proof -
  note D = at_workD [OF w]
  have p: "w_io_class w r < OCF_IO_CLASS_MAX" "rq_rw q < 2" and al: "512 dvd rq_byte_position q" "512 dvd rq_byte_length q"
    using D(2) by (simp_all add: req_ready_def req_geo_def)
  obtain c where c: "ocf_core_stats_core_block_update (w_io_class w r) (rq_rw q) (rq_byte_length q) (st_counters (w_io w) (rq_core_id q)) = Some c"
    using io_counts_ok(2) [OF p] by blast
  let ?s = "(w_io w)\<lparr>st_counters := (st_counters (w_io w))(rq_core_id q := c)\<rparr>"
  let ?io = "\<lparr>d_kind = DataIO, d_vol = CoreVolume (rq_core_id q), d_addr = rq_byte_position q, d_bytes = rq_byte_length q, d_dir = rq_rw q, d_data = 0,
    d_req = r, d_cb = cb\<rparr>"
  let ?s' = "?s\<lparr>st_made := st_made (w_io w) + 1, st_ios := st_ios (w_io w) @ [?io]\<rparr>"
  have "io_ready ?s" "io_ready ?s'" using D(5) by (simp_all add: io_ready_def)
  then have "ocf_submit_volume_req (w_io w) r q (w_io_class w r) cb = Some (?s', [])"
    using c io_new_ok [of ?s, OF _ al] by (simp add: ocf_submit_volume_req_def upd_counters_def io_ready_def)
  moreover have "carries (\<lambda>k. rq_byte_position q + k) 0 (rq_byte_length q) [?io]" by (auto simp: carries_def moves_def)
  ultimately show thesis
    using that [of ?s' "[?io]"] D(1) io_work [OF w \<open>io_ready ?s'\<close>] by (simp add: submit_volume_req_def submitted_def data_ios_def)
qed

subsection \<open>References and the end of a request\<close>

lemma get_work:
  assumes "at_work w r q m v"
  shows "req_get r w = Some (putr r (q\<lparr>rq_ref_count := rq_ref_count q + 1\<rparr>) w)" "at_work (putr r (q\<lparr>rq_ref_count := rq_ref_count q + 1\<rparr>) w) r
    (q\<lparr>rq_ref_count := rq_ref_count q + 1\<rparr>) m v"
proof -
  have "aside q (q\<lparr>rq_ref_count := n\<rparr>)" for n unfolding aside_def by (intro exI [of _ "rq_info q"] exI [of _ n] exI [of _ "rq_req_remaining q"]) simp
  then show "at_work (putr r (q\<lparr>rq_ref_count := rq_ref_count q + 1\<rparr>) w) r (q\<lparr>rq_ref_count := rq_ref_count q + 1\<rparr>) m v"
    using at_work_put [OF assms] by blast
  show "req_get r w = Some (putr r (q\<lparr>rq_ref_count := rq_ref_count q + 1\<rparr>) w)"
    using at_workD(1) [OF assms] by (simp add: req_get_def modr_def ocf_req_get_def)
qed

lemma put_work:
  assumes "at_work w r q m v" "rq_ref_count q > 1"
  shows "req_put r w = Some (putr r (q\<lparr>rq_ref_count := rq_ref_count q - 1\<rparr>) w)" "at_work (putr r (q\<lparr>rq_ref_count := rq_ref_count q - 1\<rparr>) w) r
    (q\<lparr>rq_ref_count := rq_ref_count q - 1\<rparr>) m v"
proof -
  have "aside q (q\<lparr>rq_ref_count := n\<rparr>)" for n unfolding aside_def by (intro exI [of _ "rq_info q"] exI [of _ n] exI [of _ "rq_req_remaining q"]) simp
  then show "at_work (putr r (q\<lparr>rq_ref_count := rq_ref_count q - 1\<rparr>) w) r (q\<lparr>rq_ref_count := rq_ref_count q - 1\<rparr>) m v"
    using at_work_put [OF assms(1)] by blast
  show "req_put r w = Some (putr r (q\<lparr>rq_ref_count := rq_ref_count q - 1\<rparr>) w)"
    using at_workD(1) [OF assms(1)] assms(2) by (simp add: req_put_def ocf_req_put_def Let_def)
qed

lemma remaining_work:
  assumes "at_work w r q m v"
  shows "set_remaining r n w = Some (putr r (q\<lparr>rq_req_remaining := n\<rparr>) w)" "at_work (putr r (q\<lparr>rq_req_remaining := n\<rparr>) w) r (q\<lparr>rq_req_remaining := n\<rparr>) m v"
proof -
  have "aside q (q\<lparr>rq_req_remaining := n\<rparr>)"
    unfolding aside_def by (intro exI [of _ "rq_info q"] exI [of _ "rq_ref_count q"] exI [of _ n]) simp
  then show "at_work (putr r (q\<lparr>rq_req_remaining := n\<rparr>) w) r (q\<lparr>rq_req_remaining := n\<rparr>) m v" using at_work_put [OF assms] by blast
  show "set_remaining r n w = Some (putr r (q\<lparr>rq_req_remaining := n\<rparr>) w)" using at_workD(1) [OF assms] by (simp add: set_remaining_def modr_def)
qed

text \<open>Freeing gives the reference on the metadata back, so it must be there, and the request goes back to its allocator.\<close>

definition can_free :: "req_ctx \<Rightarrow> ocf_request \<Rightarrow> bool" where
  "can_free x q \<longleftrightarrow> (rq_d2c q \<or> rq_mngt q \<or> ocf_refcnt_dec (rx_metadata x) \<noteq> None) \<and> ocf_req_get_allocator (rq_alloc_core_line_count q) \<noteq> None"

lemma last_put:
  assumes "getr r w = Some q" "rq_ref_count q = 1" "can_free (w_ctx w) q"
  shows "\<exists>x. req_put r w = Some (w\<lparr>w_ctx := x, w_freed := r # w_freed w\<rparr>)"
proof -
  obtain a where "ocf_req_get_allocator (rq_alloc_core_line_count q) = Some a" using assms(3) by (auto simp: can_free_def)
  moreover have "\<exists>x. (if \<not> rq_d2c q \<and> \<not> rq_mngt q then do { (_, rc) \<leftarrow> ocf_refcnt_dec (rx_metadata (w_ctx w)); Some ((w_ctx w)\<lparr>rx_metadata := rc\<rparr>) }
      else Some (w_ctx w)) = Some x"
    using assms(3) by (cases "ocf_refcnt_dec (rx_metadata (w_ctx w))") (auto simp: can_free_def)
  then obtain x where "(if \<not> rq_d2c q \<and> \<not> rq_mngt q then do { (_, rc) \<leftarrow> ocf_refcnt_dec (rx_metadata (w_ctx w)); Some ((w_ctx w)\<lparr>rx_metadata := rc\<rparr>) }
      else Some (w_ctx w)) = Some x" ..
  ultimately show ?thesis using assms(1,2) by (simp add: req_put_def ocf_req_put_def Let_def) blast
qed

text \<open>How a request ends: it was completed once, without an error, it is freed, no line is locked, and the metadata is sound.\<close>

definition served :: "'w::len world \<Rightarrow> nat \<Rightarrow> (nat \<Rightarrow> byte) \<Rightarrow> 'w world \<Rightarrow> bool" where
  "served w r d w' \<longleftrightarrow> w_done w' = w_done w @ [(r, 0, Some d)] \<and> w_freed w' = r # w_freed w \<and> cl_idle (ca_locks (w_cache w')) \<and> some_rep (w_cache w') \<and>
     w_cfg w' = w_cfg w"

lemma at_work_rep: "at_work w r q m v \<Longrightarrow> some_rep (w_cache w)"
  by (simp add: at_work_def some_rep_def)

subsection \<open>Waiting for the I/Os\<close>

lemma as_busy:
  assumes "getr r w = Some q" "w_data w r = Some d"
  shows "busy w r q (rq_req_remaining q) (st_ios (w_io w)) (w_flushes w) (d, w_cachedev w, w_coredev w) = w"
proof -
  have "(w_data w)(r := Some d) = w_data w" using assms(2) by auto
  moreover have "q\<lparr>rq_req_remaining := rq_req_remaining q\<rparr> = q" by simp
  moreover have "putr r q w = w" by (rule putr_same) (use assms(1) in \<open>auto simp: getr_def split: if_splits\<close>)
  ultimately show ?thesis by (simp add: busy_def)
qed

lemma busy_work:
  assumes w: "at_work w r q m v"
  shows "at_work (busy w r q n ios fls mm) r (q\<lparr>rq_req_remaining := n\<rparr>) m v" "meta_same w (busy w r q n ios fls mm)"
    "ca_locks (w_cache (busy w r q n ios fls mm)) = (ca_locks (w_cache w))\<lparr>cl_reqs := (cl_reqs (ca_locks (w_cache w)))(r := q\<lparr>rq_req_remaining := n\<rparr>)\<rparr>"
    "w_done (busy w r q n ios fls mm) = w_done w" "w_freed (busy w r q n ios fls mm) = w_freed w" "w_ctx (busy w r q n ios fls mm) = w_ctx w"
    "w_cfg (busy w r q n ios fls mm) = w_cfg w" "w_data (busy w r q n ios fls mm) r = Some (fst mm)" "w_cachedev (busy w r q n ios fls mm) = fst (snd mm)"
    "w_coredev (busy w r q n ios fls mm) = snd (snd mm)"
proof -
  let ?w = "w\<lparr>w_io := (w_io w)\<lparr>st_ios := ios\<rparr>, w_flushes := fls, w_data := (w_data w)(r := Some (fst mm)), w_cachedev := fst (snd mm), w_coredev := snd (snd mm)\<rparr>"
  have "at_work ?w r q m v" using w by (simp add: at_work_def req_ready_def io_ready_def)
  from remaining_work(2) [OF this] show "at_work (busy w r q n ios fls mm) r (q\<lparr>rq_req_remaining := n\<rparr>) m v" by (simp add: busy_def)
qed (simp_all add: busy_def meta_same_def cput_def)

lemma wait_settles:
  assumes w: "at_work w r q m v" and d: "w_data w r = Some d" and q: "w_queue w = []" "w_flushes w = []"
    and ios: "data_ios cb r dir vol ios" "st_ios (w_io w) = ios" "rq_req_remaining q = int (length ios)" "ios \<noteq> []" "cb \<in> counting"
    and inv: "I ios (d, w_cachedev w, w_coredev w)" "\<And>ios m i. I ios m \<Longrightarrow> i < length ios \<Longrightarrow> I (drop_nth i ios) (io_act (ios ! i) m)"
    and last: "\<And>mm. I [] mm \<Longrightarrow> \<exists>w'. run_cb cb r 0 (busy w r q 1 [] [] mm) = Some w' \<and> settles P w'"
  shows "settles P w"
proof -
  note D = at_workD [OF w]
  have e: "cl_resumed (ca_locks (w_cache w)) = []" "rq_error q = 0" using w D(2) by (simp_all add: at_work_def req_ready_def)
  have "settles P (busy w r q (int (length ios + length ([] :: (nat \<times> cb) list))) ios [] (d, w_cachedev w, w_coredev w))"
    by (rule drain [where CB = "{cb}" and I = I, OF D(3) q(1) e]) (use ios inv last in \<open>auto simp: data_ios_def\<close>)
  then show ?thesis using as_busy [OF D(1) d] ios(2,3) q(2) by simp
qed

end
