(* ===== verification/ReadPath.thy ===== *)
theory ReadPath
  imports Stages
begin

section \<open>A read returns the content of the core\<close>

text \<open>
  A read that is alone in the system, from the call of its engine to the end, for every order in which its I/Os complete: a read hit, and a
  pass-through read.
\<close>

definition fresh :: "'w::len world \<Rightarrow> nat \<Rightarrow> ocf_request \<Rightarrow> bool" where
  "fresh w r q \<longleftrightarrow> quiet w \<and> getr r w = Some q \<and> req_ready w r q \<and> some_rep (w_cache w) \<and> cl_idle (ca_locks (w_cache w)) \<and> io_ready (w_io w) \<and>
     rq_ref_count q = 1 \<and> can_free (w_ctx w) q \<and> (\<exists>m. rq_map q = Some m \<and> (\<forall>e \<in> set m. unlocked_entry e)) \<and> \<not> w_blocked w \<and> w_data w r \<noteq> None"

lemma fresh_work:
  assumes "fresh w r q"
  obtains m d where "at_work w r q m 0" "w_data w r = Some d" "quiet w" "rq_ref_count q = 1" "can_free (w_ctx w) q" "\<not> w_blocked w"
proof -
  obtain m d where "rq_map q = Some m" "\<forall>e \<in> set m. unlocked_entry e" "w_data w r = Some d" using assms by (auto simp: fresh_def)
  then show thesis using assms that [of m d] by (auto simp: fresh_def at_work_def cl_idle_def some_rep_def quiet_def)
qed

subsection \<open>The lines a request points to\<close>

lemma ent_hold: "ent (q\<lparr>rq_map := Some (marked v n m)\<rparr>) i = ent (q\<lparr>rq_map := Some m\<rparr>) i"
proof -
  have "map (\<lambda>e. (mi_status e, mi_coll_idx e, mi_core_line e)) (marked v n m) = map (\<lambda>e. (mi_status e, mi_coll_idx e, mi_core_line e)) m"
  proof -
    have "map f (done_upto g n m) = map f m" if "\<And>e. f (on_mapped g e) = f e" for f :: "ocf_map_info \<Rightarrow> lookup_status \<times> cline \<times> core_line" and g
    proof -
      have "map f (done_upto g n m) = map f (take n m) @ map f (drop n m)" using that by (simp add: done_upto_def)
      also have "\<dots> = map f m" by (simp only: map_append [symmetric] append_take_drop_id)
      finally show ?thesis .
    qed
    then show ?thesis by (simp add: marked_def on_mapped_def set_rd_locked_def set_wr_locked_def)
  qed
  then have "i < length m \<Longrightarrow> (mi_status (marked v n m ! i), mi_coll_idx (marked v n m ! i), mi_core_line (marked v n m ! i)) =
      (mi_status (m ! i), mi_coll_idx (m ! i), mi_core_line (m ! i))"
    by (metis (no_types, lifting) marked_length nth_map)
  then show ?thesis by (simp add: ent_def req_entry_def)
qed

lemma ent_line:
  assumes "\<And>i. ent q' i = ent q i"
  shows "line_of q' = line_of q" "seq_upto lg q' n = seq_upto lg q n"
proof -
  have e: "map_option mi_coll_idx (req_entry q' i) = map_option mi_coll_idx (req_entry q i)" "map_option mi_status (req_entry q' i) = map_option mi_status (req_entry q i)"
    "(req_entry q' i = None) = (req_entry q i = None)" for i
    using assms [of i] by (cases "req_entry q' i"; cases "req_entry q i"; simp add: ent_def)+
  show "line_of q' = line_of q"
  proof
    show "line_of q' i = line_of q i" for i using e(1) [of i] by (cases "req_entry q' i"; cases "req_entry q i") (simp_all add: line_of_def)
  qed
  have "(\<exists>e. req_entry q' i = Some e \<and> mi_status e \<noteq> LOOKUP_MISS \<and> (i \<noteq> 0 \<longrightarrow> (\<exists>e'. req_entry q' (i - 1) = Some e' \<and> (lg (mi_coll_idx e') + 1) mod U32_MOD = lg (mi_coll_idx e)))) \<longleftrightarrow>
    (\<exists>e. req_entry q i = Some e \<and> mi_status e \<noteq> LOOKUP_MISS \<and> (i \<noteq> 0 \<longrightarrow> (\<exists>e'. req_entry q (i - 1) = Some e' \<and> (lg (mi_coll_idx e') + 1) mod U32_MOD = lg (mi_coll_idx e))))" for i
    using e(1,2) [of i] e(1) [of "i - 1"]
    by (cases "req_entry q' i"; cases "req_entry q i"; cases "req_entry q' (i - 1)"; cases "req_entry q (i - 1)") (simp_all del: One_nat_def)
  then show "seq_upto lg q' n = seq_upto lg q n" unfolding seq_upto_def by (simp only:)
qed

lemma lookup_points:
  assumes "ent q' i = Some (lookup_of c q i)" "rq_core_id q' = rq_core_id q" "rq_core_line_first q' = rq_core_line_first q"
  shows "points c q' i" "coll_map (ca_coll c) (rq_core_id q, rq_core_line_first q + i) = Some x \<Longrightarrow> line_of q' i = x"
  using assms by (auto simp: points_def lookup_of_def ent_def line_of_def split: option.splits)

text \<open>A request all of whose bytes are cached is a hit, and its bytes are where the layout puts them.\<close>

lemma cached_all_valid:
  assumes geo: "req_geo (ca_line (w_cache w)) q" "cf_line (w_cfg w) = ca_line (w_cache w)" and i: "i < rq_core_line_count q"
    and se: "ocf_map_line_start_sector (ca_line (w_cache w)) q i \<le> ocf_map_line_end_sector (ca_line (w_cache w)) q i"
      "ocf_map_line_end_sector (ca_line (w_cache w)) q i \<le> ocf_line_end_sector (ca_line (w_cache w))"
    and c: "\<And>k. k < rq_byte_length q \<Longrightarrow> cached_at w (rq_core_id q) (rq_byte_position q + k) \<noteq> None"
  shows "\<exists>x. coll_map (ca_coll (w_cache w)) (rq_core_id q, rq_core_line_first q + i) = Some x \<and> all_valid (w_cache w) q i x"
proof -
  let ?ls = "ocf_line_size (ca_line (w_cache w))" and ?key = "(rq_core_id q, rq_core_line_first q + i)"
  obtain n where n: "0 < n" "?ls = 512 * n" "ocf_line_end_sector (ca_line (w_cache w)) = n - 1" using geo_line [OF geo(1)] by metis
  have at: "\<exists>x. coll_map (ca_coll (w_cache w)) ?key = Some x \<and> s \<in> sec_valid (w_cache w) x"
    if s: "s \<in> {ocf_map_line_start_sector (ca_line (w_cache w)) q i..ocf_map_line_end_sector (ca_line (w_cache w)) q i}" for s
  proof -
    define a where "a = (rq_core_line_first q + i) * ?ls + s * 512"
    have lt: "s * 512 < ?ls" using s se n by auto
    have a: "a div ?ls = rq_core_line_first q + i" "a mod ?ls div 512 = s" using lt by (simp_all add: a_def)
    then have "rq_byte_position q \<le> a \<and> a < rq_byte_position q + rq_byte_length q"
      using geo_sectors [OF geo(1), of a] i s by auto
    then have "a - rq_byte_position q < rq_byte_length q" "rq_byte_position q + (a - rq_byte_position q) = a" by linarith+
    then have "cached_at w (rq_core_id q) a \<noteq> None" using c [of "a - rq_byte_position q"] by simp
    then show ?thesis using a by (auto simp: cached_at_def geo(2) split: option.splits if_splits)
  qed
  obtain x where "coll_map (ca_coll (w_cache w)) ?key = Some x" using at [of "ocf_map_line_start_sector (ca_line (w_cache w)) q i"] se by auto
  then show ?thesis using at by (auto simp: all_valid_def)
qed

lemma mapped_byte:
  assumes w: "at_work w r q m v" and a: "all_mapped (w_cache w) q" and k: "k < rq_byte_length q"
  shows "line_byte w (line_of q (byte_line (cf_line (w_cfg w)) q k)) (rq_byte_position q + k) = byte_addr (w_cfg w) q k"
    "coll_map (ca_coll (w_cache w)) (rq_core_id q, (rq_byte_position q + k) div ocf_line_size (cf_line (w_cfg w))) =
      Some (line_of q (byte_line (cf_line (w_cfg w)) q k))"
proof -
  have "req_geo (cf_line (w_cfg w)) q" using at_workD(2) [OF w] by (simp add: req_ready_def)
  note G = geo_byte [OF this k]
  show "line_byte w (line_of q (byte_line (cf_line (w_cfg w)) q k)) (rq_byte_position q + k) = byte_addr (w_cfg w) q k"
    by (simp add: line_byte_def byte_addr_def)
  show "coll_map (ca_coll (w_cache w)) (rq_core_id q, (rq_byte_position q + k) div ocf_line_size (cf_line (w_cfg w))) =
      Some (line_of q (byte_line (cf_line (w_cfg w)) q k))"
    using a G(1) unfolding all_mapped_def G(2) by blast
qed

subsection \<open>A read hit\<close>

text \<open>While the I/Os of a read hit are under way.\<close>

lemma carries_good:
  assumes "carries addr 0 len ios" "data_ios cb r dir vol ios"
  shows "good_ios vol addr len ios" "\<And>k. k < len \<Longrightarrow> \<exists>io \<in> set ios. moves io k"
proof -
  show "good_ios vol addr len ios" using assms(1) by (simp add: carries_def good_ios_def)
  show "\<exists>io \<in> set ios. moves io k" if "k < len" for k
    using assms(1) that unfolding carries_def by (metis le0 nth_mem)
qed

lemma hit_completes:
  assumes w: "at_work w r q m 1" and lk: "lockable (ca_locks (w_cache w)) (rq_core_line_count q) m" and ref: "rq_ref_count q = 1" "can_free (w_ctx w) q"
    and qu: "w_queue w = []" "w_cleaning w = []"
  shows "\<exists>w'. ocf_read_generic_hit_complete r 0 (busy w r q 1 [] [] mm) = Some w' \<and> quiet w' \<and> served w r (fst mm) w' \<and> meta_same w w' \<and>
    w_cachedev w' = fst (snd mm) \<and> w_coredev w' = snd (snd mm)"
proof -
  note D = at_workD [OF w]
  let ?w = "busy w r q 0 [] [] mm" and ?q = "q\<lparr>rq_req_remaining := 0\<rparr>"
  note B = busy_work [OF w, of 0 "[]" "[]" mm]
  have lk': "lockable (ca_locks (w_cache ?w)) (rq_core_line_count ?q) m" using lk unfolding B(3) by (simp add: lockable_def)
  let ?h = "hold r ?q m 0 ?w"
  note H = hold_work [OF B(1), of 0]
  have un: "on_locks r ocf_req_unlock ?w = Some ?h" by (rule unlock_work(1) [OF B(1) lk']) simp
  have e: "rq_error q = 0" using D(2) by (simp add: req_ready_def)
  let ?d = "?h\<lparr>w_done := w_done ?h @ [(r, 0, w_data ?h r)]\<rparr>"
  have comp: "req_complete r 0 ?h = Some ?d" using at_workD(1) [OF H(1)] by (simp add: req_complete_def)
  have "getr r ?d = Some (?q\<lparr>rq_map := Some (marked 0 (rq_core_line_count ?q) m)\<rparr>)" using at_workD(1) [OF H(1)] by simp
  moreover have "can_free (w_ctx ?d) (?q\<lparr>rq_map := Some (marked 0 (rq_core_line_count ?q) m)\<rparr>)" using ref(2) H(2) B(6) by (simp add: can_free_def env_same_def)
  ultimately obtain x where put: "req_put r ?d = Some (?d\<lparr>w_ctx := x, w_freed := r # w_freed ?d\<rparr>)" using last_put [of r ?d] ref(1) by auto
  let ?f = "?d\<lparr>w_ctx := x, w_freed := r # w_freed ?d\<rparr>"
  have run: "ocf_read_generic_hit_complete r 0 (busy w r q 1 [] [] mm) = Some ?f"
    using D(3) e un comp put by (simp add: ocf_read_generic_hit_complete_def)
  have idle: "cl_idle (ca_locks (w_cache ?h))" by (rule at_work_idle [OF H(1)])
  have res: "cl_resumed (ca_locks (w_cache ?h)) = []" using H(1) by (simp add: at_work_def)
  have "quiet ?f" using H(2,4) qu res by (simp add: quiet_def env_same_def)
  moreover have "served w r (fst mm) ?f" using H(2) B idle at_work_rep [OF H(1)] by (simp add: served_def env_same_def)
  moreover have "meta_same w ?f" using env_same_trans(2) [OF B(2) H(3)] by (simp add: meta_same_def)
  ultimately show ?thesis using run H(2) B by (intro exI [of _ ?f]) (simp add: env_same_def)
qed

lemma hit_settles:
  assumes w: "at_work w r q m 1" and lk: "lockable (ca_locks (w_cache w)) (rq_core_line_count q) m" and ref: "rq_ref_count q = 1" "can_free (w_ctx w) q"
    and qu: "w_queue w = []" "w_flushes w = []" "w_cleaning w = []" and d: "w_data w r = Some d"
    and ios: "carries addr 0 (rq_byte_length q) ios" "data_ios cb_read_hit r OCF_READ CacheVolume ios" "st_ios (w_io w) = ios"
      "rq_req_remaining q = int (length ios)" "ios \<noteq> []"
  shows "settles (\<lambda>w'. (\<exists>d. served w r d w' \<and> (\<forall>k < rq_byte_length q. d k = w_cachedev w (addr k))) \<and> meta_same w w' \<and>
    w_cachedev w' = w_cachedev w \<and> w_coredev w' = w_coredev w) w"
proof (rule wait_settles [OF w d qu(1,2) ios(2-5), where I = "reading CacheVolume addr (rq_byte_length q) (d, w_cachedev w, w_coredev w)"])
  let ?m0 = "(d, w_cachedev w, w_coredev w)"
  show "reading CacheVolume addr (rq_byte_length q) ?m0 ios ?m0"
    using carries_good [OF ios(1,2)] ios(2) by (simp add: reading_def data_ios_def)
  fix mm
  assume "reading CacheVolume addr (rq_byte_length q) ?m0 ([] :: cb io list) mm"
  then have "snd mm = snd ?m0" "\<forall>k < rq_byte_length q. fst mm k = w_cachedev w (addr k)" by (auto simp: reading_def mdev_def)
  then show "\<exists>w'. run_cb cb_read_hit r 0 (busy w r q 1 [] [] mm) = Some w' \<and> settles (\<lambda>w'. (\<exists>d. served w r d w' \<and> (\<forall>k < rq_byte_length q.
      d k = w_cachedev w (addr k))) \<and> meta_same w w' \<and> w_cachedev w' = w_cachedev w \<and> w_coredev w' = w_coredev w) w'"
    using hit_completes [OF w lk ref qu(1,3), of mm] by (auto intro!: settles.settled)
qed (simp_all add: reading_step counting_def)

lemma hit_submit:
  assumes w: "at_work w r q m v" and a: "all_mapped (w_cache w) q" and p: "\<And>i. i < rq_core_line_count q \<Longrightarrow> points (w_cache w) q i"
    and hit: "ocf_engine_is_hit q" and seq: "ri_seq_req (rq_info q) \<Longrightarrow> seq_upto (cf_lg2phy (w_cfg w)) q (rq_core_line_count q)"
    and ref: "rq_ref_count q > 1" and e: "st_ios (w_io w) = []"
  obtains w' q' ios where "read_generic_submit r w = Some w'" "at_work w' r q' m v" "env_same w w'" "meta_same w w'"
    "q' = q\<lparr>rq_ref_count := rq_ref_count q - 1, rq_req_remaining := int (length ios)\<rparr>" "st_ios (w_io w') = ios" "ios \<noteq> []"
    "carries (byte_addr (w_cfg w) q) 0 (rq_byte_length q) ios" "data_ios cb_read_hit r OCF_READ CacheVolume ios"
proof -
  obtain w1 where w1: "re_part r w = Some w1" "at_work w1 r q m v" "env_same w w1" "meta_same w w1" "w_io w1 = w_io w" "ca_locks (w_cache w1) = ca_locks (w_cache w)"
    using re_part_work [OF w p] by metis
  define q2 where "q2 = q\<lparr>rq_req_remaining := int (ocf_engine_io_count q)\<rparr>"
  define w2 where "w2 = putr r q2 w1"
  have w2: "set_remaining r (int (ocf_engine_io_count q)) w1 = Some w2" "at_work w2 r q2 m v"
    using remaining_work [OF w1(2)] by (simp_all add: w2_def q2_def)
  have e2: "env_same w w2" "meta_same w w2" "w_io w2 = w_io w"
    using env_same_trans(1) [OF w1(3)] env_same_trans(2) [OF w1(4)] w1(5) by (simp_all add: w2_def)
  have ent: "ent q2 i = ent q i" for i by (simp add: q2_def ent_def req_entry_def)
  have a2: "all_mapped (w_cache w2) q2" using a e2(2) ent_line(1) [OF ent] unfolding all_mapped_def meta_same_def by (simp add: q2_def)
  have s2: "ri_seq_req (rq_info q2) \<Longrightarrow> seq_upto (cf_lg2phy (w_cfg w2)) q2 (rq_core_line_count q2)"
    using seq e2(1) ent_line(2) [OF ent] by (simp add: q2_def env_same_def)
  have rd: "OCF_READ < 2" by (simp add: OCF_READ_def)
  obtain s ios where s: "submit_cache_reqs r OCF_READ 0 (rq_byte_length q2) (ocf_engine_io_count q2) cb_read_hit w2 = Some (w2\<lparr>w_io := s\<rparr>)"
    "at_work (w2\<lparr>w_io := s\<rparr>) r q2 m v" "submitted (w_io w2) ios s" "length ios = ocf_engine_io_count q2"
    "carries (byte_addr (w_cfg w2) q2) 0 (rq_byte_length q2) ios" "data_ios cb_read_hit r OCF_READ CacheVolume ios"
    by (rule submit_cache_work [OF w2(2) a2 rd s2])
  define w3 where "w3 = w2\<lparr>w_io := s\<rparr>"
  have w3: "at_work w3 r q2 m v" using s(2) by (simp add: w3_def)
  obtain w4 where w4: "update_request_stats r w3 = Some w4" "counted_in w3 w4" using stats_work(1) [OF w3] by blast
  note C4 = counted_in_work [OF w4(2) w3]
  obtain w5 where w5: "update_block_stats r w4 = Some w5" "counted_in w4 w5" using stats_work(2) [OF C4(1)] by blast
  note C5 = counted_in_work [OF w5(2) C4(1)]
  have ref2: "rq_ref_count q2 > 1" using ref by (simp add: q2_def)
  define q6 where "q6 = q2\<lparr>rq_ref_count := rq_ref_count q2 - 1\<rparr>"
  define w6 where "w6 = putr r q6 w5"
  note P6 = put_work [OF C5(1) ref2, folded q6_def w6_def]
  have hit2: "ocf_engine_is_hit q2" "ocf_engine_io_count q2 = ocf_engine_io_count q" "rq_byte_length q2 = rq_byte_length q"
    using hit by (simp_all add: q2_def ocf_engine_is_hit_def ocf_engine_io_count_def)
  have run: "read_generic_submit r w = Some w6"
    using w1(1) w2(1) s(1) w4(1) w5(1) P6(1) at_workD(1) [OF w1(2)] hit hit2
    by (simp add: read_generic_submit_def ocf_read_generic_submit_hit_def read_submitted_def w3_def)
  have s23: "env_same w2 w3" "meta_same w2 w3" "env_same w5 w6" "meta_same w5 w6" by (simp_all add: w3_def w6_def)
  have "env_same w w6" using e2(1) s23(1,3) C4(2) C5(2) env_same_trans(1) by blast
  moreover have "meta_same w w6" using e2(2) s23(2,4) C4(3) C5(3) env_same_trans(2) by blast
  moreover have "q6 = q\<lparr>rq_ref_count := rq_ref_count q - 1, rq_req_remaining := int (length ios)\<rparr>" using s(4) hit2 by (simp add: q6_def q2_def)
  moreover have "st_ios (w_io w6) = ios" using s(3) e e2(3) C4(4) C5(4) by (simp add: w6_def w3_def submitted_def)
  moreover have "ios \<noteq> []"
  proof -
    have "0 < rq_core_line_count q" using at_workD(7) [OF w] unfolding req_ok_def by blast
    then have "0 < length ios" unfolding s(4) hit2(2) by (simp add: ocf_engine_io_count_def)
    then show ?thesis by simp
  qed
  moreover have "byte_addr (w_cfg w2) q2 = byte_addr (w_cfg w) q"
    using e2(1) ent_line(1) [OF ent] by (simp add: fun_eq_iff byte_addr_def byte_line_def q2_def env_same_def)
  ultimately show thesis
    using that [OF run P6(2)] s(5,6) hit2(3) by simp
qed

lemma cached_same:
  assumes "meta_same w w'" "env_same w w'"
  shows "cached_at w' = cached_at w" "line_byte w' = line_byte w"
proof -
  have e: "ca_coll (w_cache w') = ca_coll (w_cache w)" "ca_status (w_cache w') = ca_status (w_cache w)" "w_cfg w' = w_cfg w"
    using assms by (simp_all add: meta_same_def env_same_def)
  show "cached_at w' = cached_at w" "line_byte w' = line_byte w" unfolding cached_at_def line_byte_def fun_eq_iff e by simp_all
qed

lemma io_if_work:
  assumes "at_work w r q m v"
  shows "at_work (w\<lparr>w_io_if := f\<rparr>) r q m v" "at_work (w\<lparr>w_resume := g\<rparr>) r q m v"
  using assms by (simp_all add: at_work_def req_ready_def)

lemma req_ok_sectors:
  fixes c :: "'w::len wcache"
  assumes "req_ok c q" "cache_sizes c" "i < rq_core_line_count q"
  shows "ocf_map_line_start_sector (ca_line c) q i \<le> ocf_map_line_end_sector (ca_line c) q i" "ocf_map_line_end_sector (ca_line c) q i \<le> ocf_line_end_sector (ca_line c)"
proof -
  have "ocf_map_line_start_sector (ca_line c) q i \<le> ocf_map_line_end_sector (ca_line c) q i" "ocf_map_line_end_sector (ca_line c) q i < LENGTH('w)"
    using assms(1,3) unfolding req_ok_def by blast+
  moreover have "ocf_line_end_sector (ca_line c) = LENGTH('w) - 1" using assms(2) unfolding cache_sizes_def by blast
  ultimately show "ocf_map_line_start_sector (ca_line c) q i \<le> ocf_map_line_end_sector (ca_line c) q i"
    "ocf_map_line_end_sector (ca_line c) q i \<le> ocf_line_end_sector (ca_line c)" by simp_all
qed

lemma at_work_sizes: "at_work w r q m v \<Longrightarrow> cache_sizes (w_cache w)"
  by (auto simp: at_work_def cache_rep_def cache_core_def)

text \<open>A request that was looked up and is a hit.\<close>

lemma hit_lookup:
  assumes w: "at_work w r q m 0" and c: "\<And>k. k < rq_byte_length q \<Longrightarrow> cached_at w (rq_core_id q) (rq_byte_position q + k) \<noteq> None"
  obtains w' q' m' where "req_hash_traverse r w = Some w'" "at_work w' r q' m' 0" "env_same w w'" "meta_same w w'" "w_io w' = w_io w" "kept q q'"
    "ocf_engine_is_hit q'" "ocf_engine_is_mapped q'" "\<not> ri_mapping_error (rq_info q')" "all_mapped (w_cache w') q'"
    "\<forall>i < rq_core_line_count q'. points (w_cache w') q' i"
    "ri_seq_req (rq_info q') \<longrightarrow> seq_upto (cf_lg2phy (w_cfg w')) q' (rq_core_line_count q')"
    "lockable (ca_locks (w_cache w')) (rq_core_line_count q') m'"
proof -
  note D = at_workD [OF w]
  obtain w' q' m' where t: "req_hash_traverse r w = Some w'" "at_work w' r q' m' 0" "env_same w w'" "meta_same w w'" "w_io w' = w_io w" "kept q q'"
    "info_upto (cf_lg2phy (w_cfg w)) (w_cache w) (rq_core_line_count q) q'"
    "\<forall>i < rq_core_line_count q. ent q' i = Some (lookup_of (w_cache w) q i)" "\<not> ri_mapping_error (rq_info q')"
    "ocf_engine_is_hit q' \<longleftrightarrow> (\<forall>i < rq_core_line_count q. \<exists>x. coll_map (ca_coll (w_cache w)) (rq_core_id q, rq_core_line_first q + i) = Some x \<and>
       all_valid (w_cache w) q i x)"
    "ocf_engine_is_mapped q' \<longleftrightarrow> (\<forall>i < rq_core_line_count q. coll_map (ca_coll (w_cache w)) (rq_core_id q, rq_core_line_first q + i) \<noteq> None)"
    by (rule lookup_work [OF w])
  note K = kept_fields [OF t(6)]
  have geo: "req_geo (ca_line (w_cache w)) q" "cf_line (w_cfg w) = ca_line (w_cache w)" using D(2) by (simp_all add: req_ready_def)
  have v: "\<exists>x. coll_map (ca_coll (w_cache w)) (rq_core_id q, rq_core_line_first q + i) = Some x \<and> all_valid (w_cache w) q i x"
    if "i < rq_core_line_count q" for i
    by (rule cached_all_valid [OF geo that req_ok_sectors [OF D(7) at_work_sizes [OF w] that] c])
  have p: "points (w_cache w') q' i" "coll_map (ca_coll (w_cache w')) (rq_core_id q', rq_core_line_first q' + i) = Some (line_of q' i)"
    if "i < rq_core_line_count q'" for i
  proof -
    have i: "i < rq_core_line_count q" using that K(5) by simp
    note e = t(8) [rule_format, OF i]
    show "points (w_cache w') q' i" using lookup_points(1) [OF e K(1,3)] t(4) by (simp add: points_def meta_same_def)
    obtain x where x: "coll_map (ca_coll (w_cache w)) (rq_core_id q, rq_core_line_first q + i) = Some x" using v [OF i] by blast
    show "coll_map (ca_coll (w_cache w')) (rq_core_id q', rq_core_line_first q' + i) = Some (line_of q' i)"
      using x lookup_points(2) [OF e K(1,3) x] t(4) K(1,3) by (simp add: meta_same_def)
  qed
  have "ri_seq_req (rq_info q') \<longrightarrow> seq_upto (cf_lg2phy (w_cfg w)) q' (rq_core_line_count q)" using t(7) unfolding info_upto_def by blast
  then have "ri_seq_req (rq_info q') \<longrightarrow> seq_upto (cf_lg2phy (w_cfg w')) q' (rq_core_line_count q')" using t(3) K(5) by (simp add: env_same_def)
  moreover have "ocf_engine_is_hit q'" using t(10) v by blast
  moreover have "ocf_engine_is_mapped q'" unfolding t(11) using v by fastforce
  ultimately show thesis
    using that [OF t(1-6)] t(9) p points_lockable [OF t(2) p(1)] unfolding all_mapped_def by blast
qed

lemma hold_all:
  fixes v :: int
  assumes w: "at_work w r q m 0" and a: "all_mapped (w_cache w) q" and p: "\<And>i. i < rq_core_line_count q \<Longrightarrow> points (w_cache w) q i"
    and lk: "lockable (ca_locks (w_cache w)) (rq_core_line_count q) m"
    and seq: "ri_seq_req (rq_info q) \<Longrightarrow> seq_upto (cf_lg2phy (w_cfg w)) q (rq_core_line_count q)"
  defines "w' \<equiv> hold r q m v w" and "q' \<equiv> q\<lparr>rq_map := Some (marked v (rq_core_line_count q) m)\<rparr>"
  shows "all_mapped (w_cache w') q'" "\<And>i. i < rq_core_line_count q' \<Longrightarrow> points (w_cache w') q' i"
    "lockable (ca_locks (w_cache w')) (rq_core_line_count q') m"
    "ri_seq_req (rq_info q') \<Longrightarrow> seq_upto (cf_lg2phy (w_cfg w')) q' (rq_core_line_count q')"
proof -
  note H = hold_work [OF w, of v, folded w'_def q'_def]
  have "q\<lparr>rq_map := Some m\<rparr> = q" using at_workD(4) [OF w] by simp
  then have e: "ent q' i = ent q i" for i unfolding q'_def ent_hold by simp
  note E = ent_line [of q' q, OF e]
  show "all_mapped (w_cache w') q'" using a H(3) E(1) unfolding all_mapped_def meta_same_def by (simp add: q'_def)
  show "points (w_cache w') q' i" if "i < rq_core_line_count q'" for i
    using p [of i] that H(3) e [of i] unfolding points_def meta_same_def by (simp add: q'_def)
  show "lockable (ca_locks (w_cache w')) (rq_core_line_count q') m" using lk by (simp add: w'_def hold_def lockable_def q'_def)
  show "ri_seq_req (rq_info q') \<Longrightarrow> seq_upto (cf_lg2phy (w_cfg w')) q' (rq_core_line_count q')"
    using seq H(2) E(2) by (simp add: q'_def env_same_def)
qed

lemma aside_all:
  assumes "aside q q'" "all_mapped c q" "\<And>i. i < rq_core_line_count q \<Longrightarrow> points c q i" "ca_coll c' = ca_coll c"
  shows "all_mapped c' q'" "\<And>i. i < rq_core_line_count q' \<Longrightarrow> points c' q' i" "ent q' = ent q"
proof -
  obtain info n k where q': "q' = q\<lparr>rq_info := info, rq_ref_count := n, rq_req_remaining := k\<rparr>" using assms(1) by (auto simp: aside_def)
  show e: "ent q' = ent q" by (simp add: q' ent_def req_entry_def fun_eq_iff)
  have "line_of q' = line_of q" by (rule ent_line(1)) (simp add: e)
  then show "all_mapped c' q'" using assms(2,4) by (simp add: all_mapped_def q')
  show "points c' q' i" if "i < rq_core_line_count q'" for i using assms(3) [of i] that assms(4) e by (simp add: points_def q')
qed

text \<open>The second half of the read: the lines are locked, the I/Os are submitted, and the references of the calls are given back.\<close>

lemma hit_do:
  assumes w: "at_work w r q m 1" and a: "all_mapped (w_cache w) q" and p: "\<And>i. i < rq_core_line_count q \<Longrightarrow> points (w_cache w) q i"
    and hit: "ocf_engine_is_hit q" and seq: "ri_seq_req (rq_info q) \<Longrightarrow> seq_upto (cf_lg2phy (w_cfg w)) q (rq_core_line_count q)"
    and ref: "rq_ref_count q = 2" and e: "st_ios (w_io w) = []"
  obtains w' q' ios where "(ocf_read_generic_do r w \<bind> req_put r) = Some w'" "at_work w' r q' m 1" "env_same w w'" "meta_same w w'"
    "q' = q\<lparr>rq_ref_count := 1, rq_req_remaining := int (length ios)\<rparr>" "st_ios (w_io w') = ios" "ios \<noteq> []"
    "carries (byte_addr (w_cfg w) q) 0 (rq_byte_length q) ios" "data_ios cb_read_hit r OCF_READ CacheVolume ios"
proof -
  define q1 where "q1 = q\<lparr>rq_ref_count := 3\<rparr>"
  define w1 where "w1 = putr r q1 w"
  have g: "req_get r w = Some w1" "at_work w1 r q1 m 1" using get_work [OF w] ref by (simp_all add: w1_def q1_def)
  have as: "aside q q1" unfolding aside_def q1_def by (intro exI [of _ "rq_info q"] exI [of _ 3] exI [of _ "rq_req_remaining q"]) simp
  have s1: "env_same w w1" "meta_same w w1" "w_io w1 = w_io w" "ca_coll (w_cache w1) = ca_coll (w_cache w)" by (simp_all add: w1_def)
  note A = aside_all [OF as a p s1(4)]
  have hit1: "ocf_engine_is_hit q1" using hit by (simp add: q1_def ocf_engine_is_hit_def)
  have seq1: "ri_seq_req (rq_info q1) \<Longrightarrow> seq_upto (cf_lg2phy (w_cfg w1)) q1 (rq_core_line_count q1)"
    using seq ent_line(2) [of q1 q] A(3) by (simp add: q1_def w1_def)
  obtain w2 q2 ios where w2: "read_generic_submit r w1 = Some w2" "at_work w2 r q2 m 1" "env_same w1 w2" "meta_same w1 w2"
    "q2 = q1\<lparr>rq_ref_count := rq_ref_count q1 - 1, rq_req_remaining := int (length ios)\<rparr>" "st_ios (w_io w2) = ios" "ios \<noteq> []"
    "carries (byte_addr (w_cfg w1) q1) 0 (rq_byte_length q1) ios" "data_ios cb_read_hit r OCF_READ CacheVolume ios"
    by (rule hit_submit [OF g(2) A(1,2) hit1 seq1]) (use e s1(3) in \<open>auto simp: q1_def\<close>)
  have "0 < rq_core_line_count q" using at_workD(7) [OF w] unfolding req_ok_def by blast
  then obtain e0 where e0: "req_entry q 0 = Some e0" using req_ok_entry [OF at_workD(7) [OF w]] by blast
  have "ocf_read_generic_do r w = Some w2"
    using at_workD(1) [OF w] e0 hit g(1) w2(1) by (simp add: ocf_read_generic_do_def first_rd_locked_def)
  moreover have r2: "rq_ref_count q2 = 2" by (simp add: w2(5) q1_def)
  note P = put_work [OF w2(2)]
  have P1: "req_put r w2 = Some (putr r (q2\<lparr>rq_ref_count := 1\<rparr>) w2)" "at_work (putr r (q2\<lparr>rq_ref_count := 1\<rparr>) w2) r (q2\<lparr>rq_ref_count := 1\<rparr>) m 1"
    using P r2 by simp_all
  ultimately have run: "(ocf_read_generic_do r w \<bind> req_put r) = Some (putr r (q2\<lparr>rq_ref_count := 1\<rparr>) w2)" by simp
  have "byte_addr (w_cfg w1) q1 = byte_addr (w_cfg w) q"
    using ent_line(1) [of q1 q] A(3) by (simp add: fun_eq_iff byte_addr_def byte_line_def q1_def w1_def)
  moreover have "env_same w (putr r (q2\<lparr>rq_ref_count := 1\<rparr>) w2)"
    by (rule env_same_trans(1) [OF s1(1) env_same_trans(1) [OF w2(3)]]) simp
  moreover have "meta_same w (putr r (q2\<lparr>rq_ref_count := 1\<rparr>) w2)"
    by (rule env_same_trans(2) [OF s1(2) env_same_trans(2) [OF w2(4)]]) simp
  ultimately show thesis using that [OF run P1(2)] w2(5-9) by (simp add: q1_def)
qed

text \<open>What the reads have in common: the reference taken at the start, and what the end says about the content.\<close>

lemma fresh_get:
  assumes new: "fresh w r q"
  defines "q1 \<equiv> q\<lparr>rq_ref_count := 2\<rparr>"
  obtains m where "req_get r w = Some (putr r q1 w)" "at_work ((putr r q1 w)\<lparr>w_io_if := (w_io_if w)(r := f)\<rparr>) r q1 m 0"
    "env_same w ((putr r q1 w)\<lparr>w_io_if := (w_io_if w)(r := f)\<rparr>)" "meta_same w ((putr r q1 w)\<lparr>w_io_if := (w_io_if w)(r := f)\<rparr>)"
proof -
  obtain m d where w: "at_work w r q m 0" "w_data w r = Some d" "quiet w" "rq_ref_count q = 1" "can_free (w_ctx w) q" "\<not> w_blocked w"
    by (rule fresh_work [OF new])
  have g: "req_get r w = Some (putr r q1 w)" "at_work (putr r q1 w) r q1 m 0" using get_work [OF w(1)] w(4) by (simp_all add: q1_def)
  show thesis by (rule that [OF g(1) io_if_work(1) [OF g(2)]]) (simp_all add: env_same_def meta_same_def)
qed

lemma read_result:
  assumes fin: "settles (\<lambda>w'. (\<exists>d. served w1 r d w' \<and> (\<forall>k < len. d k = f k)) \<and> meta_same w1 w' \<and> w_cachedev w' = w_cachedev w1 \<and> w_coredev w' = w_coredev w1) w1"
    and same: "env_same w w1" "meta_same w w1" and bytes: "\<And>k. k < len \<Longrightarrow> f k = content w core (p + k)"
  shows "settles (\<lambda>w'. (\<exists>d. served w r d w' \<and> (\<forall>k < len. d k = content w core (p + k))) \<and> content w' = content w) w1"
proof (rule settles_mono [OF fin])
  fix w'
  assume x: "(\<exists>d. served w1 r d w' \<and> (\<forall>k < len. d k = f k)) \<and> meta_same w1 w' \<and> w_cachedev w' = w_cachedev w1 \<and> w_coredev w' = w_coredev w1"
  then have "content w' = content w" using same by (intro content_same) (auto simp: env_same_def meta_same_def served_def)
  moreover have "served w1 r d' w' \<Longrightarrow> served w r d' w'" for d' using same(1) by (simp add: served_def env_same_def)
  ultimately show "(\<exists>d. served w r d w' \<and> (\<forall>k < len. d k = content w core (p + k))) \<and> content w' = content w"
    using x bytes by auto
qed

text \<open>The first half of a read hit: the lines are found and read-locked.\<close>

lemma hit_start:
  assumes new: "fresh w r q" and c: "\<And>k. k < rq_byte_length q \<Longrightarrow> cached_at w (rq_core_id q) (rq_byte_position q + k) \<noteq> None"
  obtains w3 q3 m3 where "read_generic_start r w = Some (OCF_LOCK_ACQUIRED, w3)" "at_work w3 r q3 m3 1" "env_same w w3" "meta_same w w3" "ocf_engine_is_hit q3"
    "all_mapped (w_cache w3) q3" "\<forall>i < rq_core_line_count q3. points (w_cache w3) q3 i" "lockable (ca_locks (w_cache w3)) (rq_core_line_count q3) m3"
    "ri_seq_req (rq_info q3) \<longrightarrow> seq_upto (cf_lg2phy (w_cfg w3)) q3 (rq_core_line_count q3)" "rq_ref_count q3 = 2" "st_ios (w_io w3) = []"
    "mapping_error r w3 = Some False" "kept (q\<lparr>rq_ref_count := 2, rq_map := rq_map q3\<rparr>) q3"
proof -
  define q1 where "q1 = q\<lparr>rq_ref_count := 2\<rparr>"
  define w1 where "w1 = (putr r q1 w)\<lparr>w_io_if := (w_io_if w)(r := req_if FN_ocf_read_generic_do)\<rparr>"
  obtain m where w1: "req_get r w = Some (putr r q1 w)" "at_work w1 r q1 m 0" "env_same w w1" "meta_same w w1"
    unfolding w1_def q1_def by (rule fresh_get [OF new])
  have c1: "cached_at w1 (rq_core_id q1) (rq_byte_position q1 + k) \<noteq> None" if "k < rq_byte_length q1" for k
    using c [of k] that cached_same(1) [OF w1(4,3)] by (simp add: q1_def)
  obtain w2 q2 m2 where t: "req_hash_traverse r w1 = Some w2" "at_work w2 r q2 m2 0" "env_same w1 w2" "meta_same w1 w2" "w_io w2 = w_io w1" "kept q1 q2"
    "ocf_engine_is_hit q2" "ocf_engine_is_mapped q2" "\<not> ri_mapping_error (rq_info q2)" "all_mapped (w_cache w2) q2"
    "\<forall>i < rq_core_line_count q2. points (w_cache w2) q2 i"
    "ri_seq_req (rq_info q2) \<longrightarrow> seq_upto (cf_lg2phy (w_cfg w2)) q2 (rq_core_line_count q2)"
    "lockable (ca_locks (w_cache w2)) (rq_core_line_count q2) m2"
    by (rule hit_lookup [OF w1(2) c1])
  note K = kept_fields [OF t(6)]
  define w2' where "w2' = w2\<lparr>w_resume := (w_resume w2)(r := RESUME_ocf_engine_on_resume)\<rparr>"
  have w2': "at_work w2' r q2 m2 0" "w_cache w2' = w_cache w2" "w_cfg w2' = w_cfg w2" "env_same w2 w2'" "meta_same w2 w2'" "w_io w2' = w_io w2"
    using io_if_work(2) [OF t(2)] by (simp_all add: w2'_def)
  define w3 q3 where "w3 = hold r q2 m2 1 w2'" and "q3 = q2\<lparr>rq_map := Some (marked 1 (rq_core_line_count q2) m2)\<rparr>"
  note H = hold_work [OF w2'(1), of 1, folded w3_def q3_def]
  note A = hold_all [OF w2'(1), where v = 1, unfolded w2'(2,3), OF t(10) t(11) [rule_format] t(13) t(12) [rule_format], folded w3_def q3_def]
  have lock: "lock_clines ocf_rd_get_lock_type r w2 = Some (OCF_LOCK_ACQUIRED, w3)"
    using at_workD(1) [OF t(2)] t(7) lock_work(1) [OF t(2,13)] by (simp add: lock_clines_def ocf_rd_get_lock_type_def w3_def w2'_def)
  have "ocf_engine_prepare_clines ocf_rd_get_lock_type r w1 = Some (OCF_LOCK_ACQUIRED, w3)"
    using t(1,8) at_workD(1) [OF t(2)] lock by (simp add: ocf_engine_prepare_clines_def)
  then have start: "read_generic_start r w = Some (OCF_LOCK_ACQUIRED, w3)" using w1(1) by (simp add: read_generic_start_def w1_def)
  have "w_io w1 = w_io w" by (simp add: w1_def)
  moreover have "quiet w" using new by (simp add: fresh_def)
  ultimately have q3: "ocf_engine_is_hit q3" "rq_ref_count q3 = 2" "st_ios (w_io w3) = []"
    using t(5,7) K(9) H(4) w2'(6) by (simp_all add: q3_def q1_def ocf_engine_is_hit_def quiet_def)
  have me: "mapping_error r w3 = Some False" using at_workD(1) [OF H(1)] t(9) by (simp add: mapping_error_def q3_def)
  have env: "env_same w w3" using w1(3) t(3) w2'(4) H(2) env_same_trans(1) by blast
  have meta: "meta_same w w3" using w1(4) t(4) w2'(5) H(3) env_same_trans(2) by blast
  have "\<exists>m' info. q2 = q1\<lparr>rq_map := m', rq_info := info\<rparr>" using t(6) unfolding kept_def by blast
  then have k3: "kept (q\<lparr>rq_ref_count := 2, rq_map := rq_map q3\<rparr>) q3"
    by (intro keptI [where m = "rq_map q3" and i = "rq_info q3"]) (auto simp: q3_def q1_def req_entry_def)
  show thesis
    by (rule that [OF start H(1) env meta q3(1) A(1) _ A(3) _ q3(2,3) me k3]) (use A(2,4) in blast)+
qed

text \<open>The bytes of a request whose lines are cached are where the layout puts them.\<close>

lemma cached_bytes:
  assumes w: "at_work w3 r q3 m v" and a: "all_mapped (w_cache w3) q3" and same: "env_same w w3" "meta_same w w3"
    and q: "rq_core_id q3 = rq_core_id q" "rq_byte_position q3 = rq_byte_position q" "rq_byte_length q3 = rq_byte_length q"
    and k: "k < rq_byte_length q" and c: "cached_at w (rq_core_id q) (rq_byte_position q + k) \<noteq> None"
  shows "w_cachedev w (byte_addr (w_cfg w3) q3 k) = content w (rq_core_id q) (rq_byte_position q + k)"
proof -
  note M = mapped_byte [OF w a, of k]
  have s: "w_cfg w3 = w_cfg w" "ca_coll (w_cache w3) = ca_coll (w_cache w)" using same by (simp_all add: env_same_def meta_same_def)
  have lb: "line_byte w3 = line_byte w" unfolding line_byte_def fun_eq_iff s by simp
  have "coll_map (ca_coll (w_cache w)) (rq_core_id q, (rq_byte_position q + k) div ocf_line_size (cf_line (w_cfg w))) =
      Some (line_of q3 (byte_line (cf_line (w_cfg w)) q3 k))" using M(2) k unfolding s q by simp
  then have "cached_at w (rq_core_id q) (rq_byte_position q + k) = Some (line_of q3 (byte_line (cf_line (w_cfg w)) q3 k))"
    using c by (simp add: cached_at_def split: if_splits)
  then show ?thesis using M(1) k unfolding s q lb by (simp add: content_def)
qed

text \<open>
  C2. A read of cached data returns the content of the core. Let the system be quiet, a new request be ready in it, and every byte of the request be
  cached. Then the read runs without a failing assertion up to the submission of its I/Os. Whatever order the device completes
  them in, the system comes to rest. The request has then been completed exactly once, without an error, with the content of the core in its buffer, and it has been
  freed. No line stays locked, the metadata is sound and the content of every core is what it was.
\<close>

theorem read_hit_returns_content:
  fixes w :: "'w::len world"
  assumes new: "fresh w r q" and c: "\<And>k. k < rq_byte_length q \<Longrightarrow> cached_at w (rq_core_id q) (rq_byte_position q + k) \<noteq> None"
  shows "\<exists>w1. ocf_read_generic r w = Some w1 \<and> settles (\<lambda>w'. (\<exists>d. served w r d w' \<and>
    (\<forall>k < rq_byte_length q. d k = content w (rq_core_id q) (rq_byte_position q + k))) \<and> content w' = content w) w1"
proof -
  obtain w3 q3 m3 where t: "read_generic_start r w = Some (OCF_LOCK_ACQUIRED, w3)" "at_work w3 r q3 m3 1" "env_same w w3" "meta_same w w3" "ocf_engine_is_hit q3"
    "all_mapped (w_cache w3) q3" "\<forall>i < rq_core_line_count q3. points (w_cache w3) q3 i" "lockable (ca_locks (w_cache w3)) (rq_core_line_count q3) m3"
    "ri_seq_req (rq_info q3) \<longrightarrow> seq_upto (cf_lg2phy (w_cfg w3)) q3 (rq_core_line_count q3)" "rq_ref_count q3 = 2" "st_ios (w_io w3) = []"
    "mapping_error r w3 = Some False" "kept (q\<lparr>rq_ref_count := 2, rq_map := rq_map q3\<rparr>) q3"
    by (rule hit_start [OF new c])
  note K = kept_fields [OF t(13)]
  obtain w4 q4 ios where f: "(ocf_read_generic_do r w3 \<bind> req_put r) = Some w4" "at_work w4 r q4 m3 1" "env_same w3 w4" "meta_same w3 w4"
    "q4 = q3\<lparr>rq_ref_count := 1, rq_req_remaining := int (length ios)\<rparr>" "st_ios (w_io w4) = ios" "ios \<noteq> []"
    "carries (byte_addr (w_cfg w3) q3) 0 (rq_byte_length q3) ios" "data_ios cb_read_hit r OCF_READ CacheVolume ios"
    by (rule hit_do [OF t(2,6) _ t(5) _ t(10,11)]) (use t(7,9) in blast)+
  obtain d where n: "w_data w r = Some d" "quiet w" "can_free (w_ctx w) q" "\<not> w_blocked w" using new by (auto simp: fresh_def)
  have run: "ocf_read_generic r w = Some w4"
    using n(4) t(1,12) f(1) by (simp add: ocf_read_generic_def read_engine.simps [of False] after_lock_def OCF_LOCK_ACQUIRED_def)
  have env: "env_same w w4" using t(3) f(3) env_same_trans(1) by blast
  have meta: "meta_same w w4" using t(4) f(4) env_same_trans(2) by blast
  have len: "rq_byte_length q4 = rq_byte_length q" "rq_byte_length q3 = rq_byte_length q" "rq_core_id q3 = rq_core_id q" "rq_byte_position q3 = rq_byte_position q"
    using K by (simp_all add: f(5))
  have lk: "lockable (ca_locks (w_cache w4)) (rq_core_line_count q4) m3"
    using t(8) at_workD(8) [OF f(2)] at_workD(8) [OF t(2)] f(4) by (simp add: lockable_def f(5) meta_same_def)
  have cf: "can_free (w_ctx w4) q4" using n(3) env K by (simp add: can_free_def f(5) env_same_def)
  have qu: "w_queue w4 = []" "w_flushes w4 = []" "w_cleaning w4 = []" "w_data w4 r = Some d" using n env by (simp_all add: quiet_def env_same_def)
  have "settles (\<lambda>w'. (\<exists>d. served w4 r d w' \<and> (\<forall>k < rq_byte_length q4. d k = w_cachedev w4 (byte_addr (w_cfg w3) q3 k))) \<and> meta_same w4 w' \<and>
      w_cachedev w' = w_cachedev w4 \<and> w_coredev w' = w_coredev w4) w4"
    by (rule hit_settles [OF f(2) lk _ cf qu]) (use f(5-9) len in simp_all)
  from read_result [OF this env meta, where core = "rq_core_id q" and p = "rq_byte_position q"]
  show ?thesis using run cached_bytes [OF t(2,6,3,4) len(3,4,2)] c env len(1) by (auto simp: env_same_def)
qed

subsection \<open>A pass-through read\<close>

definition clean_lines :: "'w::len world \<Rightarrow> ocf_request \<Rightarrow> bool" where
  "clean_lines w q \<longleftrightarrow> (\<forall>i < rq_core_line_count q. \<forall>x. coll_map (ca_coll (w_cache w)) (rq_core_id q, rq_core_line_first q + i) = Some x \<longrightarrow> sec_dirty (w_cache w) x = {})"

text \<open>The bytes of a request on clean lines are on the core, whether cached or not.\<close>

lemma clean_content:
  assumes geo: "req_geo (cf_line (w_cfg w)) q" and co: "coherent w" and cl: "clean_lines w q" and k: "k < rq_byte_length q"
  shows "content w (rq_core_id q) (rq_byte_position q + k) = w_coredev w (rq_core_id q) (rq_byte_position q + k)"
proof (cases "cached_at w (rq_core_id q) (rq_byte_position q + k)")
  case None
  then show ?thesis by (simp add: content_def)
next
  case (Some x)
  note G = geo_byte [OF geo k]
  have "coll_map (ca_coll (w_cache w)) (rq_core_id q, (rq_byte_position q + k) div ocf_line_size (cf_line (w_cfg w))) = Some x"
    using Some by (simp add: cached_at_def split: option.splits if_splits)
  then have "sec_dirty (w_cache w) x = {}" using cl G(1) unfolding clean_lines_def G(2) by blast
  then show ?thesis using co Some unfolding coherent_def by (simp add: content_def)
qed

text \<open>The lookup of clean lines finds nothing dirty.\<close>

lemma clean_info:
  assumes w: "at_work w r q m v" and cl: "clean_lines w q" and i: "info_upto lg (w_cache w) (rq_core_line_count q) q'"
    and e: "\<forall>i < rq_core_line_count q. ent q' i = Some (lookup_of (w_cache w) q i)"
  shows "ri_dirty_any (rq_info q') = 0" "ri_dirty_all (rq_info q') = 0"
proof -
  obtain P L F where core: "cache_core (w_cache w) P L F" using w by (auto simp: at_work_def cache_rep_def)
  have sz: "sm_entries (ca_status (w_cache w)) = ca_entries (w_cache w)" using at_work_sizes [OF w] by (simp add: cache_sizes_def)
  have no: "\<not> (entry_hits q' i x \<and> metadata_test_dirty (ca_status (w_cache w)) x = Some True)" if "i < rq_core_line_count q" for i x
  proof
    assume a: "entry_hits q' i x \<and> metadata_test_dirty (ca_status (w_cache w)) x = Some True"
    then have cm: "coll_map (ca_coll (w_cache w)) (rq_core_id q, rq_core_line_first q + i) = Some x"
      using e that by (auto simp: entry_hits_def ent_def lookup_of_def split: option.splits)
    then have "metadata_test_dirty (ca_status (w_cache w)) x = Some (sec_dirty (w_cache w) x \<noteq> {})"
      using metadata_test_any_sem(1) [OF cache_coreD(2) [OF core]] coll_map_range(2) [OF core cm] sz by simp
    then show False using a cl that cm by (auto simp: clean_lines_def)
  qed
  then have "{j. j < rq_core_line_count q \<and> (\<exists>x. entry_hits q' j x \<and> metadata_test_dirty (ca_status (w_cache w)) x = Some True)} = {}" by blast
  then show "ri_dirty_any (rq_info q') = 0" using i unfolding info_upto_def by simp
  have "{j. j < rq_core_line_count q \<and> (\<exists>x. entry_hits q' j x \<and> metadata_test_dirty (ca_status (w_cache w)) x = Some True \<and>
      metadata_test_dirty_all_sec (ca_status (w_cache w)) x (ocf_map_line_start_sector (ca_line (w_cache w)) q' j) (ocf_map_line_end_sector (ca_line (w_cache w)) q' j) = Some True)} = {}"
    using no by blast
  then show "ri_dirty_all (rq_info q') = 0" using i unfolding info_upto_def by simp
qed

text \<open>A request none of whose lines is cached holds, with no line at all, what a read lock would hold.\<close>

lemma nothing_held:
  assumes w: "at_work w r q m 0" and n: "\<forall>i < rq_core_line_count q. mi_status (m ! i) = LOOKUP_MISS"
  shows "at_work w r q m 1"
proof -
  let ?n = "rq_core_line_count q"
  have l: "?n \<le> length m" using at_workD(4,7) [OF w] by (auto simp: req_ok_def)
  have "lines_of (take ?n m) = {}" using n l by (auto simp: lines_of_def in_set_conv_nth)
  then have "held_by ?n m 1 = (\<lambda>_. 0)" by (simp add: held_by_def)
  moreover have "done_upto (set_rd_locked True) ?n m = m" using n l by (intro nth_equalityI) (auto simp: on_mapped_def not_less, metis done_upto_simps(3,4) not_less on_mapped_def)
  ultimately show ?thesis using w by (simp add: at_work_def marked_def)
qed

lemma done_work:
  assumes "at_work w r q m v"
  shows "at_work (w\<lparr>w_done := x\<rparr>) r q m v" "hold r q m v' (w\<lparr>w_done := x\<rparr>) = (hold r q m v' w)\<lparr>w_done := x\<rparr>"
  using assms by (simp_all add: at_work_def req_ready_def hold_def set_locks_def)

lemma pt_completes:
  assumes w: "at_work w r q m 1" and lk: "lockable (ca_locks (w_cache w)) (rq_core_line_count q) m" and ref: "rq_ref_count q = 1" "can_free (w_ctx w) q"
    and qu: "w_queue w = []" "w_cleaning w = []"
  shows "\<exists>w'. ocf_read_pt_complete r 0 (busy w r q 1 [] [] mm) = Some w' \<and> quiet w' \<and> served w r (fst mm) w' \<and> meta_same w w' \<and>
    w_cachedev w' = fst (snd mm) \<and> w_coredev w' = snd (snd mm)"
proof -
  note D = at_workD [OF w]
  let ?w = "busy w r q 0 [] [] mm" and ?q = "q\<lparr>rq_req_remaining := 0\<rparr>"
  note B = busy_work [OF w, of 0 "[]" "[]" mm]
  have lk': "lockable (ca_locks (w_cache ?w)) (rq_core_line_count ?q) m" using lk unfolding B(3) by (simp add: lockable_def)
  let ?d = "?w\<lparr>w_done := w_done ?w @ [(r, 0, w_data ?w r)]\<rparr>"
  note W = done_work [OF B(1), where x = "w_done ?w @ [(r, 0, w_data ?w r)]"]
  let ?h = "hold r ?q m 0 ?d"
  note H = hold_work [OF W(1), of 0]
  have comp: "req_complete r 0 ?w = Some ?d" using at_workD(1) [OF B(1)] by (simp add: req_complete_def)
  have un: "on_locks r ocf_req_unlock_rd ?d = Some ?h" by (rule unlock_work(2) [OF W(1)]) (use lk' in simp_all)
  have e: "rq_error q = 0" using D(2) by (simp add: req_ready_def)
  have "can_free (w_ctx ?h) (?q\<lparr>rq_map := Some (marked 0 (rq_core_line_count ?q) m)\<rparr>)" using ref(2) H(2) B(6) by (simp add: can_free_def env_same_def)
  then obtain x where put: "req_put r ?h = Some (?h\<lparr>w_ctx := x, w_freed := r # w_freed ?h\<rparr>)" using last_put [OF at_workD(1) [OF H(1)]] ref(1) by auto
  let ?f = "?h\<lparr>w_ctx := x, w_freed := r # w_freed ?h\<rparr>"
  have run: "ocf_read_pt_complete r 0 (busy w r q 1 [] [] mm) = Some ?f"
    using D(3) e un comp put by (simp add: ocf_read_pt_complete_def)
  have idle: "cl_idle (ca_locks (w_cache ?h))" by (rule at_work_idle [OF H(1)])
  have res: "cl_resumed (ca_locks (w_cache ?h)) = []" using H(1) by (simp add: at_work_def)
  have "quiet ?f" using H(2,4) qu res by (simp add: quiet_def env_same_def)
  moreover have "served w r (fst mm) ?f" using H(2) B idle at_work_rep [OF H(1)] by (simp add: served_def env_same_def)
  moreover have "meta_same w ?f" using H(3) B(2) by (simp add: meta_same_def)
  ultimately show ?thesis using run H(2) B by (intro exI [of _ ?f]) (simp add: env_same_def)
qed

lemma pt_settles:
  assumes w: "at_work w r q m 1" and lk: "lockable (ca_locks (w_cache w)) (rq_core_line_count q) m" and ref: "rq_ref_count q = 1" "can_free (w_ctx w) q"
    and qu: "w_queue w = []" "w_flushes w = []" "w_cleaning w = []" and d: "w_data w r = Some d"
    and ios: "carries addr 0 (rq_byte_length q) ios" "data_ios cb_pt r OCF_READ (CoreVolume core) ios" "st_ios (w_io w) = ios"
      "rq_req_remaining q = int (length ios)" "ios \<noteq> []"
  shows "settles (\<lambda>w'. (\<exists>d. served w r d w' \<and> (\<forall>k < rq_byte_length q. d k = w_coredev w core (addr k))) \<and> meta_same w w' \<and>
    w_cachedev w' = w_cachedev w \<and> w_coredev w' = w_coredev w) w"
proof (rule wait_settles [OF w d qu(1,2) ios(2-5), where I = "reading (CoreVolume core) addr (rq_byte_length q) (d, w_cachedev w, w_coredev w)"])
  let ?m0 = "(d, w_cachedev w, w_coredev w)"
  show "reading (CoreVolume core) addr (rq_byte_length q) ?m0 ios ?m0"
    using carries_good [OF ios(1,2)] ios(2) by (simp add: reading_def data_ios_def)
  fix mm
  assume "reading (CoreVolume core) addr (rq_byte_length q) ?m0 ([] :: cb io list) mm"
  then have "snd mm = snd ?m0" "\<forall>k < rq_byte_length q. fst mm k = w_coredev w core (addr k)" by (auto simp: reading_def mdev_def)
  then show "\<exists>w'. run_cb cb_pt r 0 (busy w r q 1 [] [] mm) = Some w' \<and> settles (\<lambda>w'. (\<exists>d. served w r d w' \<and> (\<forall>k < rq_byte_length q.
      d k = w_coredev w core (addr k))) \<and> meta_same w w' \<and> w_cachedev w' = w_cachedev w \<and> w_coredev w' = w_coredev w) w'"
    using pt_completes [OF w lk ref qu(1,3), of mm] by (auto intro!: settles.settled)
qed (simp_all add: reading_step counting_def)

lemma pt_do:
  assumes w: "at_work w r q m v" and p: "\<And>i. i < rq_core_line_count q \<Longrightarrow> points (w_cache w) q i"
    and cl: "ri_dirty_any (rq_info q) = 0" and ref: "rq_ref_count q = 2" and e: "st_ios (w_io w) = []"
  obtains w' q' ios where "(ocf_read_pt_do r w \<bind> req_put r) = Some w'" "at_work w' r q' m v" "env_same w w'" "meta_same w w'"
    "q' = q\<lparr>rq_ref_count := 1, rq_req_remaining := int (length ios)\<rparr>" "st_ios (w_io w') = ios" "ios \<noteq> []"
    "carries (\<lambda>k. rq_byte_position q + k) 0 (rq_byte_length q) ios" "data_ios cb_pt r (rq_rw q) (CoreVolume (rq_core_id q)) ios"
proof -
  define q1 where "q1 = q\<lparr>rq_ref_count := 3\<rparr>"
  define w1 where "w1 = putr r q1 w"
  have g: "req_get r w = Some w1" "at_work w1 r q1 m v" using get_work [OF w] ref by (simp_all add: w1_def q1_def)
  have p1: "points (w_cache w1) q1 i" if "i < rq_core_line_count q1" for i
    using p [of i] that by (simp add: points_def q1_def w1_def ent_def req_entry_def)
  obtain w2 where w2: "re_part r w1 = Some w2" "at_work w2 r q1 m v" "env_same w1 w2" "meta_same w1 w2" "w_io w2 = w_io w1"
    using re_part_work [OF g(2) p1] by metis
  define q3 where "q3 = q1\<lparr>rq_req_remaining := 1\<rparr>"
  define w3 where "w3 = putr r q3 w2"
  have w3: "set_remaining r 1 w2 = Some w3" "at_work w3 r q3 m v" using remaining_work [OF w2(2)] by (simp_all add: w3_def q3_def)
  obtain s ios where s: "submit_volume_req r cb_pt w3 = Some (w3\<lparr>w_io := s\<rparr>)"
    "at_work (w3\<lparr>w_io := s\<rparr>) r q3 m v" "submitted (w_io w3) ios s" "length ios = 1"
    "carries (\<lambda>k. rq_byte_position q3 + k) 0 (rq_byte_length q3) ios" "data_ios cb_pt r (rq_rw q3) (CoreVolume (rq_core_id q3)) ios"
    by (rule submit_volume_work [OF w3(2)])
  define w4 where "w4 = w3\<lparr>w_io := s\<rparr>"
  have w4: "at_work w4 r q3 m v" using s(2) by (simp add: w4_def)
  obtain w5 where w5: "update_block_stats r w4 = Some w5" "counted_in w4 w5" using stats_work(2) [OF w4] by blast
  note C5 = counted_in_work [OF w5(2) w4]
  obtain w6 where w6: "request_pt_update r w5 = Some w6" "counted_in w5 w6" using stats_work(3) [OF C5(1)] by blast
  note C6 = counted_in_work [OF w6(2) C5(1)]
  define q7 where "q7 = q3\<lparr>rq_ref_count := 2\<rparr>"
  define w7 where "w7 = putr r q7 w6"
  have w7: "req_put r w6 = Some w7" "at_work w7 r q7 m v" using put_work [OF C6(1)] by (simp_all add: w7_def q7_def q3_def q1_def)
  define q8 where "q8 = q7\<lparr>rq_ref_count := 1\<rparr>"
  have w8: "req_put r w7 = Some (putr r q8 w7)" "at_work (putr r q8 w7) r q8 m v" using put_work [OF w7(2)] by (simp_all add: q8_def q7_def)
  have cl1: "ri_dirty_any (rq_info q1) = 0" using cl by (simp add: q1_def)
  have run: "(ocf_read_pt_do r w \<bind> req_put r) = Some (putr r q8 w7)"
    using g(1) at_workD(1) [OF g(2)] cl1 w2(1) w3(1) s(1) w5(1) w6(1) w7(1) w8(1) by (simp add: ocf_read_pt_do_def w4_def)
  have s34: "env_same w3 w4" "meta_same w3 w4" by (simp_all add: w4_def)
  have s': "env_same w w1" "meta_same w w1" "env_same w2 w3" "meta_same w2 w3" "env_same w3 w4" "meta_same w3 w4" "env_same w6 w7" "meta_same w6 w7"
    using s34 by (simp_all add: w1_def w3_def w7_def)
  have "env_same w w7" using s'(1,3,5,7) w2(3) C5(2) C6(2) env_same_trans(1) by blast
  then have env: "env_same w (putr r q8 w7)" using env_same_trans(1) by fastforce
  have "meta_same w w7" using s'(2,4,6,8) w2(4) C5(3) C6(3) env_same_trans(2) by blast
  then have meta: "meta_same w (putr r q8 w7)" using env_same_trans(2) by fastforce
  have "st_ios (w_io w3) = []" using e w2(5) by (simp add: w3_def w1_def)
  then have io: "st_ios (w_io (putr r q8 w7)) = ios" using s(3) C5(4) C6(4) by (simp add: w7_def w4_def submitted_def)
  have q8: "q8 = q\<lparr>rq_ref_count := 1, rq_req_remaining := int (length ios)\<rparr>" by (simp add: q8_def q7_def q3_def q1_def s(4))
  show thesis by (rule that [OF run w8(2) env meta q8 io]) (use s(4-6) in \<open>auto simp: q3_def q1_def\<close>)
qed

text \<open>Locking what is cached: a request that found no line takes no lock, and holds what a read lock would hold.\<close>

lemma pt_lock:
  assumes w: "at_work w r q m 0" and lk: "lockable (ca_locks (w_cache w)) (rq_core_line_count q) m"
    and none: "ocf_engine_mapped_count q = 0 \<longrightarrow> (\<forall>i < rq_core_line_count q. mi_status (m ! i) = LOOKUP_MISS)"
  obtains w' q' where "(if ocf_engine_mapped_count q \<noteq> 0 then async_lock_rd r RESUME_ocf_engine_on_resume w else Some (OCF_LOCK_ACQUIRED, w)) = Some (OCF_LOCK_ACQUIRED, w')"
    "at_work w' r q' m 1" "env_same w w'" "meta_same w w'" "w_io w' = w_io w" "\<exists>k. q' = q\<lparr>rq_map := k\<rparr>" "\<forall>i. ent q' i = ent q i"
proof (cases "ocf_engine_mapped_count q = 0")
  case True
  have h: "at_work w r q m 1" using nothing_held [OF w] none True by blast
  have k: "\<exists>k. q = q\<lparr>rq_map := k\<rparr>" by (rule exI [of _ "rq_map q"]) simp
  show thesis by (rule that [OF _ h _ _ _ k]) (simp_all add: True)
next
  case False
  define w1 where "w1 = w\<lparr>w_resume := (w_resume w)(r := RESUME_ocf_engine_on_resume)\<rparr>"
  have w1: "at_work w1 r q m 0" "env_same w w1" "meta_same w w1" "w_io w1 = w_io w" using io_if_work(2) [OF w] by (simp_all add: w1_def)
  note H = hold_work [OF w1(1), of 1]
  have "q\<lparr>rq_map := Some m\<rparr> = q" using at_workD(4) [OF w] by simp
  then have e: "\<forall>i. ent (q\<lparr>rq_map := Some (marked 1 (rq_core_line_count q) m)\<rparr>) i = ent q i" unfolding ent_hold by simp
  have run: "(if ocf_engine_mapped_count q \<noteq> 0 then async_lock_rd r RESUME_ocf_engine_on_resume w else Some (OCF_LOCK_ACQUIRED, w)) =
      Some (OCF_LOCK_ACQUIRED, hold r q m 1 w1)" using False lock_work(1) [OF w lk] by (simp add: w1_def)
  have io: "w_io (hold r q m 1 w1) = w_io w" using H(4) w1(4) by simp
  have k: "\<exists>k. q\<lparr>rq_map := Some (marked 1 (rq_core_line_count q) m)\<rparr> = q\<lparr>rq_map := k\<rparr>" by blast
  show thesis by (rule that [OF run H(1) env_same_trans(1) [OF w1(2) H(2)] env_same_trans(2) [OF w1(3) H(3)] io k e])
qed

lemma pt_start:
  assumes new: "fresh w r q" and cl: "clean_lines w q"
  obtains w3 q3 m3 where "read_pt_start r w = Some (False, OCF_LOCK_ACQUIRED, w3)" "at_work w3 r q3 m3 1" "env_same w w3" "meta_same w w3"
    "\<forall>i < rq_core_line_count q3. points (w_cache w3) q3 i" "lockable (ca_locks (w_cache w3)) (rq_core_line_count q3) m3" "ri_dirty_any (rq_info q3) = 0" "rq_ref_count q3 = 2"
    "st_ios (w_io w3) = []" "kept (q\<lparr>rq_ref_count := 2, rq_map := rq_map q3\<rparr>) q3"
proof -
  define q1 where "q1 = q\<lparr>rq_ref_count := 2\<rparr>"
  define w1 where "w1 = (putr r q1 w)\<lparr>w_io_if := (w_io_if w)(r := req_if FN_ocf_read_pt_do)\<rparr>"
  obtain m where w1: "req_get r w = Some (putr r q1 w)" "at_work w1 r q1 m 0" "env_same w w1" "meta_same w w1"
    unfolding w1_def q1_def by (rule fresh_get [OF new])
  obtain w2 q2 m2 where t: "req_hash_traverse r w1 = Some w2" "at_work w2 r q2 m2 0" "env_same w1 w2" "meta_same w1 w2" "w_io w2 = w_io w1" "kept q1 q2"
    "info_upto (cf_lg2phy (w_cfg w1)) (w_cache w1) (rq_core_line_count q1) q2"
    "\<forall>i < rq_core_line_count q1. ent q2 i = Some (lookup_of (w_cache w1) q1 i)"
    "ocf_engine_mapped_count q2 = 0 \<longrightarrow> (\<forall>i < rq_core_line_count q1. coll_map (ca_coll (w_cache w1)) (rq_core_id q1, rq_core_line_first q1 + i) = None)"
    by (rule lookup_work [OF w1(2)])
  note K = kept_fields [OF t(6)]
  have cl1: "clean_lines w1 q1" using cl w1(4) by (simp add: clean_lines_def meta_same_def q1_def)
  note I = clean_info [OF w1(2) cl1 t(7,8)]
  have p: "points (w_cache w2) q2 i" if "i < rq_core_line_count q2" for i
    using lookup_points(1) [OF t(8) [rule_format] K(1,3), of i] that K(5) t(4) by (simp add: points_def meta_same_def)
  note lk = points_lockable [OF t(2) p]
  have "0 < rq_core_line_count q2" using at_workD(7) [OF t(2)] unfolding req_ok_def by blast
  then have nd: "\<not> ocf_engine_is_dirty_all q2" using I(2) by (simp add: ocf_engine_is_dirty_all_def)
  have "mi_status (m2 ! i) = LOOKUP_MISS" if "ocf_engine_mapped_count q2 = 0" "i < rq_core_line_count q2" for i
  proof -
    have "ent q2 i = Some (LOOKUP_MISS, ca_entries (w_cache w1), rq_core_line_first q1 + i)"
      using t(8,9) that K(5) by (simp add: lookup_of_def)
    then show ?thesis using at_workD(4) [OF t(2)] by (auto simp: ent_def req_entry_def split: if_splits)
  qed
  then have miss: "ocf_engine_mapped_count q2 = 0 \<longrightarrow> (\<forall>i < rq_core_line_count q2. mi_status (m2 ! i) = LOOKUP_MISS)" by blast
  obtain w3 q3 where w3: "(if ocf_engine_mapped_count q2 \<noteq> 0 then async_lock_rd r RESUME_ocf_engine_on_resume w2 else Some (OCF_LOCK_ACQUIRED, w2)) = Some (OCF_LOCK_ACQUIRED, w3)"
    "at_work w3 r q3 m2 1" "env_same w2 w3" "meta_same w2 w3" "w_io w3 = w_io w2" "\<exists>k. q3 = q2\<lparr>rq_map := k\<rparr>" "\<forall>i. ent q3 i = ent q2 i"
    by (rule pt_lock [OF t(2) lk miss])
  obtain m3 where m3: "q3 = q2\<lparr>rq_map := m3\<rparr>" using w3(6) by blast
  have start: "read_pt_start r w = Some (False, OCF_LOCK_ACQUIRED, w3)"
    using w1(1) t(1) at_workD(1) [OF t(2)] nd w3(1) by (auto simp: read_pt_start_def w1_def split: if_splits)
  have p3: "\<forall>i < rq_core_line_count q3. points (w_cache w3) q3 i" using p w3(4,7) by (simp add: points_def meta_same_def m3)
  have lk3: "lockable (ca_locks (w_cache w3)) (rq_core_line_count q3) m2"
    using lk at_workD(8) [OF w3(2)] at_workD(8) [OF t(2)] w3(4) by (simp add: lockable_def m3 meta_same_def)
  have env: "env_same w w3" using w1(3) t(3) w3(3) env_same_trans(1) by blast
  have meta: "meta_same w w3" using w1(4) t(4) w3(4) env_same_trans(2) by blast
  have "\<exists>m' info. q2 = q1\<lparr>rq_map := m', rq_info := info\<rparr>" using t(6) unfolding kept_def by blast
  then have k3: "kept (q\<lparr>rq_ref_count := 2, rq_map := rq_map q3\<rparr>) q3"
    by (intro keptI [where m = "rq_map q3" and i = "rq_info q3"]) (auto simp: m3 q1_def req_entry_def)
  have "st_ios (w_io w3) = []" using new w3(5) t(5) by (simp add: fresh_def quiet_def w1_def)
  then show thesis by (rule that [OF start w3(2) env meta p3 lk3 _ _ _ k3, rotated 2]) (use I(1) K(9) in \<open>simp_all add: m3 q1_def\<close>)
qed

text \<open>
  C4. A pass-through read of clean lines returns the content of the core. Let the system be quiet and coherent, and no line of a new read be dirty. Then the
  pass-through engine locks the lines that are cached and reads from the core; it runs without a failing assertion, and whatever the order of events the system comes to rest. The request has
  then been completed exactly once, without an error, with the content of the core, and it has been freed. No line stays locked, and the content of
  every core is what it was.
\<close>

theorem read_pt_returns_content:
  fixes w :: "'w::len world"
  assumes new: "fresh w r q" and rd: "rq_rw q = OCF_READ" and co: "coherent w" and cl: "clean_lines w q"
  shows "\<exists>w1. ocf_read_pt r w = Some w1 \<and> settles (\<lambda>w'. (\<exists>d. served w r d w' \<and>
    (\<forall>k < rq_byte_length q. d k = content w (rq_core_id q) (rq_byte_position q + k))) \<and> content w' = content w) w1"
proof -
  obtain w3 q3 m3 where t: "read_pt_start r w = Some (False, OCF_LOCK_ACQUIRED, w3)" "at_work w3 r q3 m3 1" "env_same w w3" "meta_same w w3"
    "\<forall>i < rq_core_line_count q3. points (w_cache w3) q3 i" "lockable (ca_locks (w_cache w3)) (rq_core_line_count q3) m3" "ri_dirty_any (rq_info q3) = 0" "rq_ref_count q3 = 2"
    "st_ios (w_io w3) = []" "kept (q\<lparr>rq_ref_count := 2, rq_map := rq_map q3\<rparr>) q3"
    by (rule pt_start [OF new cl])
  note K = kept_fields [OF t(10)]
  obtain w4 q4 ios where f: "(ocf_read_pt_do r w3 \<bind> req_put r) = Some w4" "at_work w4 r q4 m3 1" "env_same w3 w4" "meta_same w3 w4"
    "q4 = q3\<lparr>rq_ref_count := 1, rq_req_remaining := int (length ios)\<rparr>" "st_ios (w_io w4) = ios" "ios \<noteq> []"
    "carries (\<lambda>k. rq_byte_position q3 + k) 0 (rq_byte_length q3) ios" "data_ios cb_pt r (rq_rw q3) (CoreVolume (rq_core_id q3)) ios"
    by (rule pt_do [OF t(2) _ t(7-9)]) (use t(5) in blast)
  obtain d where n: "w_data w r = Some d" "quiet w" "can_free (w_ctx w) q" "req_ready w r q" using new by (auto simp: fresh_def)
  have run: "ocf_read_pt r w = Some w4"
    using t(1) f(1) by (simp add: ocf_read_pt_def read_engine.simps [of True] after_lock_def OCF_LOCK_ACQUIRED_def)
  have env: "env_same w w4" using t(3) f(3) env_same_trans(1) by blast
  have meta: "meta_same w w4" using t(4) f(4) env_same_trans(2) by blast
  have len: "rq_byte_length q4 = rq_byte_length q" "rq_byte_length q3 = rq_byte_length q" "rq_core_id q3 = rq_core_id q" "rq_byte_position q3 = rq_byte_position q"
    "rq_rw q3 = OCF_READ" using K rd by (simp_all add: f(5))
  have lk: "lockable (ca_locks (w_cache w4)) (rq_core_line_count q4) m3"
    using t(6) at_workD(8) [OF f(2)] at_workD(8) [OF t(2)] f(4) by (simp add: lockable_def f(5) meta_same_def)
  have cf: "can_free (w_ctx w4) q4" using n(3) env K by (simp add: can_free_def f(5) env_same_def)
  have qu: "w_queue w4 = []" "w_flushes w4 = []" "w_cleaning w4 = []" "w_data w4 r = Some d" using n env by (simp_all add: quiet_def env_same_def)
  have "settles (\<lambda>w'. (\<exists>d. served w4 r d w' \<and> (\<forall>k < rq_byte_length q4. d k = w_coredev w4 (rq_core_id q) (rq_byte_position q + k))) \<and> meta_same w4 w' \<and>
      w_cachedev w' = w_cachedev w4 \<and> w_coredev w' = w_coredev w4) w4"
    by (rule pt_settles [OF f(2) lk _ cf qu]) (use f(5-9) len in simp_all)
  from read_result [OF this env meta, where core = "rq_core_id q" and p = "rq_byte_position q"]
  show ?thesis using run clean_content [OF _ co cl] n(4) env len(1) by (auto simp: env_same_def req_ready_def)
qed

subsection \<open>An example\<close>

text \<open>
  The example cache of theory \<open>CacheInv\<close>, with a request for the bytes from 4096 on, two lines long. The two core lines are cached and clean. The cache device
  holds the number of the 4 KiB block in each byte, and the core the same numbers.
\<close>

definition sample_req :: "nat \<Rightarrow> ocf_request" where
  "sample_req rw = request_zero\<lparr>rq_ref_count := 1, rq_byte_position := 4608, rq_byte_length := 7168, rq_core_line_first := 1, rq_core_line_last := 2,
     rq_core_line_count := 2, rq_alloc_core_line_count := 2, rq_rw := rw, rq_map := Some [map_info_zero, map_info_zero]\<rparr>"

definition sample_cfg :: io_cfg where
  "sample_cfg = \<lparr>cf_line = ca_line example_cache, cf_offset = 4096, cf_lg2phy = (\<lambda>x. x)\<rparr>"

definition sample_world :: "nat \<Rightarrow> 8 world" where
  "sample_world rw = \<lparr>w_cache = cput 0 (sample_req rw) example_cache, w_cfg = sample_cfg,
     w_io = \<lparr>st_ios = [], st_made = 0, st_new_ok = \<lambda>_. True, st_set_data = \<lambda>_. 0,
       st_counters = \<lambda>_. \<lparr>core_errors = ocf_stats_error_init, cache_errors = ocf_stats_error_init, part_counters = \<lambda>_. ocf_stats_part_init\<rparr>\<rparr>,
     w_cachedev = (\<lambda>a. word_of_nat (a div 4096 - 1)), w_coredev = (\<lambda>_ a. word_of_nat (a div 4096)),
     w_data = (\<lambda>_. Some (\<lambda>_. 0)), w_cp_data = (\<lambda>_. None), w_io_class = (\<lambda>_. 0), w_io_if = (\<lambda>_. req_if FN_ocf_read_generic), w_priv = (\<lambda>_. None),
     w_resume = (\<lambda>_. RESUME_ocf_engine_on_resume), w_queue = [], w_flushes = [], w_cleaning = [], w_done = [], w_freed = [],
     w_ctx = \<lparr>rx_line = ca_line example_cache, rx_metadata = ocf_refcnt_init\<lparr>rc_counter := 1\<rparr>, rx_dirty = ocf_refcnt_init, rx_queue = 2,
       rx_pool = \<lambda>_. 1, rx_maps = 0\<rparr>,
     w_mode = sample_mode, w_promo = \<lparr>pp_type = ocf_promotion_always, pp_conf_type = ocf_promotion_always, pp_cfg = nhit_setup, pp_ctx = None\<rparr>,
     w_cachelines = 4, w_misses = 0, w_blocked = False, w_backfill_max = 2048, w_backfill_unblock = 1024, w_running = True, w_metadata_error = False,
     w_waiter_ok = (\<lambda>_. True), w_cp_ok = (\<lambda>_. True), w_mlock = (\<lambda>_. 0), w_data_admit = True, w_load_admit = (\<lambda>_. True)\<rparr>"

lemma sample_geo: "req_geo (ca_line example_cache) (sample_req rw)"
proof -
  have "ocf_metadata_config_init 4096 = Some (ca_line example_cache)"
    by (simp add: ocf_metadata_config_init_def ocf_cache_line_size_is_valid_def BYTES_TO_SECTORS_def example_cache_def)
  then show ?thesis
    unfolding req_geo_def by (intro conjI) (rule exI [of _ 4096], assumption, simp_all add: sample_req_def ocf_line_size_def example_cache_def)
qed

lemma sample_sectors:
  "ocf_map_line_start_sector (ca_line example_cache) (sample_req rw) i = (if i = 0 then 1 else 0)"
  "ocf_map_line_end_sector (ca_line example_cache) (sample_req rw) i = (if i = 1 then 6 else 7)"
  by (simp_all add: ocf_map_line_start_sector_def ocf_map_line_end_sector_def ocf_line_sectors_def ocf_line_end_sector_def
      BYTES_TO_SECTORS_def sample_req_def example_cache_def request_zero_def)

lemma sample_fresh:
  assumes "rw < 2"
  shows "fresh (sample_world rw) 0 (sample_req rw)"
proof -
  have ok: "req_ok example_cache (sample_req rw)"
    by (simp add: req_ok_def sample_sectors) (simp add: sample_req_def request_zero_def OCF_IO_CLASS_MAX_def OCF_CORE_MAX_def)
  have lay: "layout_fits sample_cfg 4" by (auto simp: layout_fits_def sample_cfg_def ocf_line_size_def example_cache_def)
  have "req_ready (sample_world rw) 0 (sample_req rw)"
    unfolding req_ready_def using ok lay sample_geo [of rw] assms
    by (simp add: sample_world_def req_ok_def OCF_IO_CLASS_MAX_def) (simp add: sample_cfg_def sample_req_def request_zero_def)
  moreover have "some_rep (w_cache (sample_world rw))" using example_cache_rep unfolding some_rep_def sample_world_def by auto
  moreover have "can_free (w_ctx (sample_world rw)) (sample_req rw)"
  proof -
    have "ocf_req_get_allocator 2 \<noteq> None" by code_simp
    then show ?thesis by (simp add: can_free_def sample_world_def sample_req_def ocf_refcnt_dec_def ocf_refcnt_init_def Let_def)
  qed
  moreover have "getr 0 (sample_world rw) = Some (sample_req rw)" by (simp add: getr_def sample_world_def)
  moreover have "cl_idle (ca_locks (w_cache (sample_world rw)))" by (simp add: cl_idle_def sample_world_def example_cache_def cput_def)
  moreover have "quiet (sample_world rw)" by (simp add: quiet_def sample_world_def example_cache_def cput_def)
  moreover have "io_ready (w_io (sample_world rw))" by (simp add: io_ready_def sample_world_def)
  moreover have "\<exists>m. rq_map (sample_req rw) = Some m \<and> (\<forall>e \<in> set m. unlocked_entry e)" "rq_ref_count (sample_req rw) = 1"
    by (simp_all add: sample_req_def unlocked_entry_def map_info_zero_def)
  ultimately show ?thesis unfolding fresh_def by (simp add: sample_world_def)
qed

lemma sample_coll: "1 \<le> l \<Longrightarrow> l \<le> 3 \<Longrightarrow> coll_map (ca_coll (w_cache (sample_world rw))) (0, l) = Some l"
proof -
  assume l: "1 \<le> l" "l \<le> 3"
  have inv: "coll_inv (ca_coll example_cache)" using example_cache_rep by (simp add: cache_rep_def cache_core_def)
  have "l \<in> mapped_lines (ca_coll example_cache)" unfolding example_mapped using l by auto
  moreover have "line_key (ca_coll example_cache) l = (0, l)" using l by (simp add: line_key_def example_cache_def)
  ultimately show ?thesis using coll_map_iff [OF inv] by (simp add: sample_world_def)
qed

lemma sample_cached:
  assumes "k < 7168"
  shows "cached_at (sample_world rw) 0 (4608 + k) = Some ((4608 + k) div 4096)"
proof -
  have ls: "ocf_line_size (cf_line (w_cfg (sample_world rw))) = 4096" by (simp add: sample_world_def sample_cfg_def ocf_line_size_def example_cache_def)
  have d: "1 \<le> (4608 + k) div 4096" "(4608 + k) div 4096 \<le> 3" using assms by auto
  have "(4608 + k) mod 4096 div 512 < 8" by simp
  then show ?thesis using sample_coll [OF d] d by (simp add: cached_at_def ls) (simp add: sample_world_def example_bits)
qed

theorem read_hit_returns_content_witness:
  "\<exists>w1. ocf_read_generic 0 (sample_world 0) = Some w1 \<and> settles (\<lambda>w'. (\<exists>d. served (sample_world 0) 0 d w' \<and>
    (\<forall>k < 7168. d k = content (sample_world 0) 0 (4608 + k))) \<and> content w' = content (sample_world 0)) w1 \<and>
    content (sample_world 0) 0 4608 = 1 \<and> content (sample_world 0) 0 8192 = 2"
proof -
  have s: "rq_byte_length (sample_req 0) = 7168" "rq_core_id (sample_req 0) = 0" "rq_byte_position (sample_req 0) = 4608"
    by (simp_all add: sample_req_def request_zero_def)
  have "content (sample_world 0) 0 4608 = 1" "content (sample_world 0) 0 8192 = 2"
    using sample_cached [of 0 0] sample_cached [of 3584 0]
    by (simp_all add: content_def line_byte_def) (simp_all add: sample_world_def sample_cfg_def ocf_line_size_def example_cache_def)
  moreover have "cached_at (sample_world 0) (rq_core_id (sample_req 0)) (rq_byte_position (sample_req 0) + k) \<noteq> None" if "k < rq_byte_length (sample_req 0)" for k
    using sample_cached [of k 0] that unfolding s by simp
  ultimately show ?thesis using read_hit_returns_content [OF sample_fresh, of 0] unfolding s by simp
qed

lemma sample_coll_only:
  assumes "coll_map (ca_coll (w_cache (sample_world rw))) (core, l) = Some x"
  shows "core = 0 \<and> l = x \<and> 1 \<le> x \<and> x \<le> 3"
proof -
  have inv: "coll_inv (ca_coll example_cache)" using example_cache_rep by (simp add: cache_rep_def cache_core_def)
  have "coll_map (ca_coll example_cache) (core, l) = Some x" using assms by (simp add: sample_world_def)
  then have x: "x \<in> mapped_lines (ca_coll example_cache)" "line_key (ca_coll example_cache) x = (core, l)" using coll_map_iff [OF inv] by auto
  then have "1 \<le> x \<and> x \<le> 3" unfolding example_mapped by auto
  then show ?thesis using x(2) by (simp add: line_key_def example_cache_def)
qed

lemma sample_coherent: "coherent (sample_world rw)"
  unfolding coherent_def
proof (intro allI impI)
  fix core a x
  assume "cached_at (sample_world rw) core a = Some x"
  then have "coll_map (ca_coll (w_cache (sample_world rw))) (core, a div ocf_line_size (cf_line (w_cfg (sample_world rw)))) = Some x"
    by (simp add: cached_at_def split: option.splits if_splits)
  moreover have ls: "ocf_line_size (cf_line (w_cfg (sample_world rw))) = 4096" by (simp add: sample_world_def sample_cfg_def ocf_line_size_def example_cache_def)
  ultimately have x: "a div 4096 = x" using sample_coll_only by simp
  have "line_byte (sample_world rw) x a div 4096 - 1 = x" unfolding line_byte_def ls by (simp add: sample_world_def sample_cfg_def)
  then show "w_cachedev (sample_world rw) (line_byte (sample_world rw) x a) = w_coredev (sample_world rw) core a"
    using x by (simp add: sample_world_def)
qed

lemma sample_clean: "clean_lines (sample_world rw) (sample_req rw)"
  unfolding clean_lines_def
proof (intro allI impI)
  fix i x
  assume i: "i < rq_core_line_count (sample_req rw)"
    and x: "coll_map (ca_coll (w_cache (sample_world rw))) (rq_core_id (sample_req rw), rq_core_line_first (sample_req rw) + i) = Some x"
  then have "x \<noteq> 3" using sample_coll_only [OF x] by (simp add: sample_req_def)
  then show "sec_dirty (w_cache (sample_world rw)) x = {}" by (simp add: sample_world_def example_bits)
qed

theorem read_pt_returns_content_witness:
  "\<exists>w1. ocf_read_pt 0 (sample_world 0) = Some w1 \<and> settles (\<lambda>w'. (\<exists>d. served (sample_world 0) 0 d w' \<and>
    (\<forall>k < 7168. d k = content (sample_world 0) 0 (4608 + k))) \<and> content w' = content (sample_world 0)) w1"
proof -
  have s: "rq_byte_length (sample_req 0) = 7168" "rq_core_id (sample_req 0) = 0" "rq_byte_position (sample_req 0) = 4608" "rq_rw (sample_req 0) = OCF_READ"
    by (simp_all add: sample_req_def request_zero_def OCF_READ_def)
  show ?thesis using read_pt_returns_content [OF sample_fresh s(4) sample_coherent sample_clean] unfolding s by simp
qed

end
