(* ===== verification/WritePath.thy ===== *)
theory WritePath
  imports ReadPath
begin

section \<open>A write stores the data of the request\<close>

text \<open>
  A write that is alone in the system, from the call of its engine to the end, for every order of events: write-back and write-through.
  Afterwards the content of the core is the data of the request where the request reaches, and what it was everywhere else.
\<close>

subsection \<open>Requests whose lines are ready\<close>

text \<open>All core lines of the request have a cache line, the entries of its map name it, and the info tells how its sectors are.\<close>

definition sect :: "'w::len wcache \<Rightarrow> ocf_request \<Rightarrow> nat \<Rightarrow> nat set" where
  "sect c q i = {ocf_map_line_start_sector (ca_line c) q i..ocf_map_line_end_sector (ca_line c) q i}"

definition touched :: "'w::len wcache \<Rightarrow> ocf_request \<Rightarrow> nat \<Rightarrow> cline \<Rightarrow> nat set" where
  "touched c q n x = {s. \<exists>i < n. line_of q i = x \<and> s \<in> sect c q i}"

definition prepared :: "'w::len world \<Rightarrow> ocf_request \<Rightarrow> bool" where
  "prepared w q \<longleftrightarrow> all_mapped (w_cache w) q \<and> (\<forall>i < rq_core_line_count q. points (w_cache w) q i \<and> (\<exists>st x l. ent q i = Some (st, x, l) \<and> st \<noteq> LOOKUP_MISS)) \<and>
     (ri_seq_req (rq_info q) \<longrightarrow> seq_upto (cf_lg2phy (w_cfg w)) q (rq_core_line_count q)) \<and>
     (ocf_engine_is_hit q \<longrightarrow> (\<forall>i < rq_core_line_count q. sect (w_cache w) q i \<subseteq> sec_valid (w_cache w) (line_of q i))) \<and>
     (ocf_engine_is_dirty_all q \<longrightarrow> (\<forall>i < rq_core_line_count q. sect (w_cache w) q i \<subseteq> sec_dirty (w_cache w) (line_of q i))) \<and>
     (ri_dirty_any (rq_info q) = 0 \<longrightarrow> (\<forall>i < rq_core_line_count q. sec_dirty (w_cache w) (line_of q i) = {})) \<and>
     \<not> ri_flush_metadata (rq_info q) \<and> \<not> ri_core_error (rq_info q)"

text \<open>A byte of a cached line lies in a sector the request touches exactly when it belongs to the request.\<close>

lemma touched_iff:
  assumes w: "at_work w r q m v" and a: "all_mapped (w_cache w) q"
    and x: "coll_map (ca_coll (w_cache w)) (core, a div ocf_line_size (cf_line (w_cfg w))) = Some x"
  shows "a mod ocf_line_size (cf_line (w_cfg w)) div 512 \<in> touched (w_cache w) q (rq_core_line_count q) x \<longleftrightarrow>
    core = rq_core_id q \<and> rq_byte_position q \<le> a \<and> a < rq_byte_position q + rq_byte_length q"
proof -
  let ?ls = "ocf_line_size (cf_line (w_cfg w))"
  have geo: "req_geo (ca_line (w_cache w)) q" "cf_line (w_cfg w) = ca_line (w_cache w)" using at_workD(2) [OF w] by (simp_all add: req_ready_def)
  obtain P L F where core: "cache_core (w_cache w) P L F" using w by (auto simp: at_work_def cache_rep_def)
  have key: "core = rq_core_id q \<and> a div ?ls = rq_core_line_first q + i" if "i < rq_core_line_count q" "line_of q i = x" for i
  proof -
    have "coll_map (ca_coll (w_cache w)) (rq_core_id q, rq_core_line_first q + i) = Some x" using a that by (auto simp: all_mapped_def)
    then have "(core, a div ?ls) = (rq_core_id q, rq_core_line_first q + i)"
      using inj_onD [OF coll_map_inj [OF cache_coreD(3) [OF core]]] x by (metis domI)
    then show ?thesis by simp
  qed
  have line: "line_of q i = x" if "i < rq_core_line_count q" "core = rq_core_id q" "a div ?ls = rq_core_line_first q + i" for i
    using a that x by (auto simp: all_mapped_def)
  show ?thesis
    using geo_sectors [OF geo(1), of a] key line unfolding touched_def sect_def geo(2) by auto
qed

text \<open>Different bytes of cores lie at different places of the cache device.\<close>

lemma line_byte_inj:
  assumes lay: "layout_fits (w_cfg w) n" and ls: "0 < ocf_line_size (cf_line (w_cfg w))" and x: "x < n" "y < n" and eq: "line_byte w x a = line_byte w y b"
  shows "x = y \<and> a mod ocf_line_size (cf_line (w_cfg w)) = b mod ocf_line_size (cf_line (w_cfg w))"
proof -
  let ?ls = "ocf_line_size (cf_line (w_cfg w))"
  have "cf_lg2phy (w_cfg w) x * ?ls + a mod ?ls = cf_lg2phy (w_cfg w) y * ?ls + b mod ?ls" using eq by (simp add: line_byte_def)
  then have "cf_lg2phy (w_cfg w) x = cf_lg2phy (w_cfg w) y \<and> a mod ?ls = b mod ?ls" using mult_add_inj [of "a mod ?ls" ?ls "b mod ?ls"] ls by simp
  then show ?thesis using lay x by (auto simp: layout_fits_def dest: inj_onD)
qed

lemma other_byte:
  assumes w: "at_work w r q m v" and a: "all_mapped (w_cache w) q"
    and x: "coll_map (ca_coll (w_cache w)) (core, a div ocf_line_size (cf_line (w_cfg w))) = Some x"
    and out: "\<not> (core = rq_core_id q \<and> rq_byte_position q \<le> a \<and> a < rq_byte_position q + rq_byte_length q)"
  shows "line_byte w x a \<notin> byte_addr (w_cfg w) q ` {..<rq_byte_length q}"
proof
  assume "line_byte w x a \<in> byte_addr (w_cfg w) q ` {..<rq_byte_length q}"
  then obtain k where k: "k < rq_byte_length q" "line_byte w x a = byte_addr (w_cfg w) q k" by auto
  let ?ls = "ocf_line_size (cf_line (w_cfg w))" and ?y = "line_of q (byte_line (cf_line (w_cfg w)) q k)"
  note M = mapped_byte [OF w a k(1)]
  obtain P L F where core: "cache_core (w_cache w) P L F" using w by (auto simp: at_work_def cache_rep_def)
  have lay: "layout_fits (w_cfg w) (ca_entries (w_cache w))" and geo: "req_geo (cf_line (w_cfg w)) q" using at_workD(2) [OF w] by (simp_all add: req_ready_def)
  have ls: "0 < ?ls" using geo_line [OF geo] by (metis mult_pos_pos zero_less_numeral)
  have "line_byte w x a = line_byte w ?y (rq_byte_position q + k)" using k(2) M(1) by simp
  from line_byte_inj [OF lay ls coll_map_range(2) [OF core x] coll_map_range(2) [OF core M(2)] this]
  have eq: "x = ?y" "a mod ?ls = (rq_byte_position q + k) mod ?ls" by simp_all
  then have "(core, a div ?ls) = (rq_core_id q, (rq_byte_position q + k) div ?ls)"
    using inj_onD [OF coll_map_inj [OF cache_coreD(3) [OF core]]] x M(2) by (metis domI)
  then have "core = rq_core_id q" "a = rq_byte_position q + k" using eq(2) by (auto, metis div_mult_mod_eq)
  then show False using out k(1) by simp
qed

subsection \<open>Setting the bits of the lines of a request\<close>

lemma touched_Suc: "touched c q (Suc n) x = touched c q n x \<union> (if line_of q n = x then sect c q n else {})"
  by (auto simp: touched_def less_Suc_eq)

lemma all_mapped_line:
  assumes rep: "cache_rep c P L F" and a: "all_mapped c q" and i: "i < rq_core_line_count q" and e: "req_entry q i = Some e"
  obtains p where "p < OCF_IO_CLASS_MAX" "line_of q i \<in> set (P p)" "req_line q i c (line_of q i)"
proof -
  have core: "cache_core c P L F" using rep by (simp add: cache_rep_def)
  have m: "coll_map (ca_coll c) (rq_core_id q, rq_core_line_first q + i) = Some (line_of q i)" using a i by (simp add: all_mapped_def)
  obtain p where p: "p < OCF_IO_CLASS_MAX" "line_of q i \<in> set (P p)" using coll_map_range(1) [OF core m] by (auto simp: part_lines_def)
  have "line_key (ca_coll c) (line_of q i) = (rq_core_id q, rq_core_line_first q + i)" using coll_map_iff [OF cache_coreD(3) [OF core]] m by simp
  then show thesis using that [OF p] e by (simp add: req_line_def line_key_def line_of_def)
qed

lemma valid_bits:
  fixes c :: "'w::len wcache"
  assumes rep: "some_rep c" and ok: "req_ok c q" and a: "all_mapped c q" and nm: "\<forall>i < rq_core_line_count q. \<exists>st x l. ent q i = Some (st, x, l) \<and> st \<noteq> LOOKUP_MISS"
  shows "\<exists>c'. ocf_set_valid_map_info c q = Some c' \<and> some_rep c' \<and> same_env c c' \<and> ca_coll c' = ca_coll c \<and>
    (\<forall>x. sec_valid c' x = sec_valid c x \<union> touched c q (rq_core_line_count q) x) \<and> (\<forall>x. sec_dirty c' x = sec_dirty c x)"
  unfolding ocf_set_valid_map_info_def
proof (rule fold_opt_upt [where I = "\<lambda>n c'. some_rep c' \<and> same_env c c' \<and> ca_coll c' = ca_coll c \<and>
    (\<forall>x. sec_valid c' x = sec_valid c x \<union> touched c q n x) \<and> (\<forall>x. sec_dirty c' x = sec_dirty c x)"])
  fix i c1
  assume i: "i < rq_core_line_count q" and inv: "some_rep c1 \<and> same_env c c1 \<and> ca_coll c1 = ca_coll c \<and>
    (\<forall>x. sec_valid c1 x = sec_valid c x \<union> touched c q i x) \<and> (\<forall>x. sec_dirty c1 x = sec_dirty c x)"
  obtain e where e: "req_entry q i = Some e" "mi_status e \<noteq> LOOKUP_MISS" using nm i by (fastforce simp: ent_def)
  obtain P L F where r1: "cache_rep c1 P L F" using inv by (auto simp: some_rep_def)
  have a1: "all_mapped c1 q" using a inv by (simp add: all_mapped_def)
  have ln: "ca_line c1 = ca_line c" using inv by (simp add: same_env_def)
  obtain p where p: "p < OCF_IO_CLASS_MAX" "line_of q i \<in> set (P p)" "req_line q i c1 (line_of q i)" by (rule all_mapped_line [OF r1 a1 i e(1)])
  have rng: "ocf_map_line_start_sector (ca_line c1) q i \<le> ocf_map_line_end_sector (ca_line c1) q i" "ocf_map_line_end_sector (ca_line c1) q i < LENGTH('w)"
    using ok i unfolding ln req_ok_def by blast+
  obtain c2 where c2: "set_cache_line_valid c1 (ocf_map_line_start_sector (ca_line c1) q i) (ocf_map_line_end_sector (ca_line c1) q i) q i = Some c2" "cache_rep c2 P L F"
    "sec_set Valid (ca_status c2) = (sec_set Valid (ca_status c1))(line_of q i := sec_valid c1 (line_of q i) \<union> sect c q i)"
    "sec_set Dirty (ca_status c2) = sec_set Dirty (ca_status c1)" "ca_coll c2 = ca_coll c1" "same_env c1 c2"
    by (rule set_valid_ok [OF r1 p rng]) (unfold sect_def ln, blast)
  have "sec_valid c2 x = sec_valid c x \<union> touched c q (Suc i) x" for x using inv unfolding c2(3) touched_Suc by auto
  then show "\<exists>c'. (do { e \<leftarrow> req_entry q i; bug_on (mi_status e = LOOKUP_MISS);
      set_cache_line_valid c1 (ocf_map_line_start_sector (ca_line c1) q i) (ocf_map_line_end_sector (ca_line c1) q i) q i }) = Some c' \<and>
      some_rep c' \<and> same_env c c' \<and> ca_coll c' = ca_coll c \<and> (\<forall>x. sec_valid c' x = sec_valid c x \<union> touched c q (Suc i) x) \<and> (\<forall>x. sec_dirty c' x = sec_dirty c x)"
    using c2 e inv same_env_trans [of c c1 c2] by (auto simp: some_rep_def)
qed (use rep in \<open>simp add: touched_def\<close>)

text \<open>Changing the dirty bits marks entries of the map for the flush of the metadata, and nothing else of the request.\<close>

definition marks :: "ocf_request \<Rightarrow> ocf_request \<Rightarrow> bool" where
  "marks q q' \<longleftrightarrow> kept q q' \<and> (\<forall>i. ent q' i = ent q i) \<and> map_option length (rq_map q') = map_option length (rq_map q) \<and> (\<exists>b. rq_info q' = (rq_info q)\<lparr>ri_flush_metadata := b\<rparr>)"

lemma marks_refl [simp]: "marks q q"
  unfolding marks_def by (simp, rule exI [of _ "ri_flush_metadata (rq_info q)"]) simp

lemma marks_trans: "marks a b \<Longrightarrow> marks b c \<Longrightarrow> marks a c"
  unfolding marks_def using kept_trans by fastforce

lemma marks_upd:
  assumes "\<And>e. lockbits (g e) = lockbits e \<and> mi_status (g e) = mi_status e \<and> mi_coll_idx (g e) = mi_coll_idx e \<and> mi_core_line (g e) = mi_core_line e"
  shows "marks q ((upd_req_entry i g q)\<lparr>rq_info := (rq_info q)\<lparr>ri_flush_metadata := True\<rparr>\<rparr>)"
proof -
  let ?q = "(upd_req_entry i g q)\<lparr>rq_info := (rq_info q)\<lparr>ri_flush_metadata := True\<rparr>\<rparr>"
  have k1: "kept q (upd_req_entry i g q)" by (rule kept_upd_entry) (simp add: assms)
  have k2: "?q = upd_info (\<lambda>f. f\<lparr>ri_flush_metadata := True\<rparr>) (upd_req_entry i g q)" by (simp add: upd_info_def upd_req_entry_def)
  have "kept q ?q" unfolding k2 by (rule kept_trans [OF k1 kept_upd(1)])
  moreover have "req_entry ?q j = req_entry (upd_req_entry i g q) j" for j by (simp add: req_entry_def)
  then have "ent ?q j = ent q j" for j using assms by (cases "req_entry q j") (auto simp: ent_def req_entry_upd)
  moreover have "rq_info ?q = (rq_info q)\<lparr>ri_flush_metadata := True\<rparr>" by (simp add: upd_req_entry_def)
  ultimately show ?thesis unfolding marks_def by (auto simp: upd_req_entry_def option.map_comp comp_def)
qed

lemma flush_mark_marks: "marks q (ocf_metadata_flush_mark c q i st s t)"
  by (cases "ca_raw c") (simp_all add: ocf_metadata_flush_mark_def raw_ram_flush_mark_def raw_atomic_flush_mark_def raw_volatile_flush_mark_def Let_def marks_upd lockbits_def)

lemma dirty_marks: "set_cache_line_dirty c s t q i = Some (c', q') \<Longrightarrow> marks q q'"
  by (auto simp: set_cache_line_dirty_def bind_eq_Some_conv Let_def flush_mark_marks split: if_splits)

lemma clean_marks: "set_cache_line_clean c s t q i = Some (c', q') \<Longrightarrow> marks q q'"
  by (auto simp: set_cache_line_clean_def bind_eq_Some_conv Let_def flush_mark_marks split: if_splits)

lemma marks_lines:
  assumes "marks q q'"
  shows "line_of q' = line_of q" "touched c q' n = touched c q n" "sect c q' i = sect c q i" "all_mapped c q' = all_mapped c q" "rq_core_line_count q' = rq_core_line_count q"
    "req_ok c q \<Longrightarrow> req_ok c q'"
proof -
  have k: "kept q q'" and e: "\<And>i. ent q' i = ent q i" using assms by (auto simp: marks_def)
  show l: "line_of q' = line_of q" by (rule ent_line(1) [OF e])
  show s: "sect c q' i = sect c q i" for i by (simp add: sect_def kept_sectors [OF k])
  show "touched c q' n = touched c q n" by (simp add: touched_def fun_eq_iff l s)
  show "all_mapped c q' = all_mapped c q" by (simp add: all_mapped_def l kept_fields [OF k])
  show "rq_core_line_count q' = rq_core_line_count q" by (rule kept_fields(5) [OF k])
  have "map_option length (rq_map q') = map_option length (rq_map q)" using assms by (simp add: marks_def)
  then show "req_ok c q \<Longrightarrow> req_ok c q'" by (intro req_ok_kept [OF k]) (auto simp: req_ok_def)
qed

text \<open>Setting and clearing the dirty bits of all lines of a request: \<open>g\<close> is union or difference.\<close>

lemma map_bits:
  fixes c :: "'w::len wcache"
  assumes rep: "some_rep c" and ok: "req_ok c q" and a: "all_mapped c q"
    and g: "\<And>A. g A {} = A" "\<And>A S T. g A (S \<union> T) = g (g A S) T"
    and step: "\<And>c P L F p x q i s t. cache_rep c P L F \<Longrightarrow> p < OCF_IO_CLASS_MAX \<Longrightarrow> x \<in> set (P p) \<Longrightarrow> req_line q i c x \<Longrightarrow> s \<le> t \<Longrightarrow> t < LENGTH('w) \<Longrightarrow>
      \<exists>c' q'. f (c :: 'w wcache) s t q i = Some (c', q') \<and> some_rep c' \<and> sec_set Dirty (ca_status c') = (sec_set Dirty (ca_status c))(x := g (sec_dirty c x) {s..t}) \<and>
        sec_set Valid (ca_status c') = sec_set Valid (ca_status c) \<and> ca_coll c' = ca_coll c \<and> same_env c c' \<and> marks q q'"
  shows "\<exists>s. fold_opt (\<lambda>i (c, q). f c (ocf_map_line_start_sector (ca_line c) q i) (ocf_map_line_end_sector (ca_line c) q i) q i) [0..<rq_core_line_count q] (c, q) = Some s \<and>
    some_rep (fst s) \<and> same_env c (fst s) \<and> ca_coll (fst s) = ca_coll c \<and> marks q (snd s) \<and>
    (\<forall>x. sec_dirty (fst s) x = g (sec_dirty c x) (touched c q (rq_core_line_count q) x)) \<and> (\<forall>x. sec_valid (fst s) x = sec_valid c x)"
proof (rule fold_opt_upt [where I = "\<lambda>n s. some_rep (fst s) \<and> same_env c (fst s) \<and> ca_coll (fst s) = ca_coll c \<and> marks q (snd s) \<and>
    (\<forall>x. sec_dirty (fst s) x = g (sec_dirty c x) (touched c q n x)) \<and> (\<forall>x. sec_valid (fst s) x = sec_valid c x)"])
  fix i and s :: "'w wcache \<times> ocf_request"
  assume i: "i < rq_core_line_count q" and inv: "some_rep (fst s) \<and> same_env c (fst s) \<and> ca_coll (fst s) = ca_coll c \<and> marks q (snd s) \<and>
    (\<forall>x. sec_dirty (fst s) x = g (sec_dirty c x) (touched c q i x)) \<and> (\<forall>x. sec_valid (fst s) x = sec_valid c x)"
  obtain c1 q1 where s: "s = (c1, q1)" by (cases s)
  have mk: "marks q q1" using inv s by simp
  note M = marks_lines [OF mk]
  obtain P L F where r1: "cache_rep c1 P L F" using inv s by (auto simp: some_rep_def)
  have "all_mapped c1 q" using a inv s by (simp add: all_mapped_def)
  then have a1: "all_mapped c1 q1" by (simp add: M(4))
  have ln: "ca_line c1 = ca_line c" using inv s by (simp add: same_env_def)
  have i1: "i < rq_core_line_count q1" using i M(5) by simp
  obtain e where e: "req_entry q1 i = Some e" using req_ok_entry [OF M(6) [OF ok] i1] by blast
  obtain p where p: "p < OCF_IO_CLASS_MAX" "line_of q1 i \<in> set (P p)" "req_line q1 i c1 (line_of q1 i)" by (rule all_mapped_line [OF r1 a1 i1 e])
  have rng: "ocf_map_line_start_sector (ca_line c1) q1 i \<le> ocf_map_line_end_sector (ca_line c1) q1 i" "ocf_map_line_end_sector (ca_line c1) q1 i < LENGTH('w)"
    using M(6) [OF ok] i1 unfolding ln req_ok_def by blast+
  obtain c2 q2 where c2: "f c1 (ocf_map_line_start_sector (ca_line c1) q1 i) (ocf_map_line_end_sector (ca_line c1) q1 i) q1 i = Some (c2, q2)" "some_rep c2"
    "sec_set Dirty (ca_status c2) = (sec_set Dirty (ca_status c1))(line_of q1 i := g (sec_dirty c1 (line_of q1 i)) (sect c q1 i))"
    "sec_set Valid (ca_status c2) = sec_set Valid (ca_status c1)" "ca_coll c2 = ca_coll c1" "same_env c1 c2" "marks q1 q2"
    using step [OF r1 p rng] unfolding sect_def ln by blast
  have "sec_dirty c2 x = g (sec_dirty c x) (touched c q (Suc i) x)" for x using inv s g unfolding c2(3) touched_Suc M(1,3) by auto
  moreover have "marks q q2" using marks_trans [OF mk c2(7)] .
  ultimately show "\<exists>s'. (case s of (c, q) \<Rightarrow> f c (ocf_map_line_start_sector (ca_line c) q i) (ocf_map_line_end_sector (ca_line c) q i) q i) = Some s' \<and>
      some_rep (fst s') \<and> same_env c (fst s') \<and> ca_coll (fst s') = ca_coll c \<and> marks q (snd s') \<and>
      (\<forall>x. sec_dirty (fst s') x = g (sec_dirty c x) (touched c q (Suc i) x)) \<and> (\<forall>x. sec_valid (fst s') x = sec_valid c x)"
    using c2(1,2,4-6) inv same_env_trans [of c c1 c2] unfolding s by (intro exI [of _ "(c2, q2)"]) simp
qed (use rep g in \<open>simp add: touched_def\<close>)

lemma dirty_bits:
  fixes c :: "'w::len wcache"
  assumes "some_rep c" "req_ok c q" "all_mapped c q"
  shows "\<exists>s. ocf_set_dirty_map_info c q = Some s \<and> some_rep (fst s) \<and> same_env c (fst s) \<and> ca_coll (fst s) = ca_coll c \<and> marks q (snd s) \<and>
    (\<forall>x. sec_dirty (fst s) x = sec_dirty c x \<union> touched c q (rq_core_line_count q) x) \<and> (\<forall>x. sec_valid (fst s) x = sec_valid c x)"
  unfolding ocf_set_dirty_map_info_def
proof (rule map_bits [OF assms, where g = "(\<union>)"])
  show "\<exists>c' q'. set_cache_line_dirty c s t q i = Some (c', q') \<and> some_rep c' \<and> sec_set Dirty (ca_status c') = (sec_set Dirty (ca_status c))(x := sec_dirty c x \<union> {s..t}) \<and>
        sec_set Valid (ca_status c') = sec_set Valid (ca_status c) \<and> ca_coll c' = ca_coll c \<and> same_env c c' \<and> marks q q'"
    if "cache_rep c P L F" "p < OCF_IO_CLASS_MAX" "x \<in> set (P p)" "req_line q i c x" "s \<le> t" "t < LENGTH('w)" for c :: "'w wcache" and P L F p x q i s t
    by (rule set_dirty_ok [OF that]) (use dirty_marks some_rep_def in blast)
qed auto

lemma clean_bits:
  fixes c :: "'w::len wcache"
  assumes "some_rep c" "req_ok c q" "all_mapped c q"
  shows "\<exists>s. ocf_set_clean_map_info c q = Some s \<and> some_rep (fst s) \<and> same_env c (fst s) \<and> ca_coll (fst s) = ca_coll c \<and> marks q (snd s) \<and>
    (\<forall>x. sec_dirty (fst s) x = sec_dirty c x - touched c q (rq_core_line_count q) x) \<and> (\<forall>x. sec_valid (fst s) x = sec_valid c x)"
  unfolding ocf_set_clean_map_info_def
proof (rule map_bits [OF assms, where g = "(-)"])
  show "\<exists>c' q'. set_cache_line_clean c s t q i = Some (c', q') \<and> some_rep c' \<and> sec_set Dirty (ca_status c') = (sec_set Dirty (ca_status c))(x := sec_dirty c x - {s..t}) \<and>
        sec_set Valid (ca_status c') = sec_set Valid (ca_status c) \<and> ca_coll c' = ca_coll c \<and> same_env c c' \<and> marks q q'"
    if "cache_rep c P L F" "p < OCF_IO_CLASS_MAX" "x \<in> set (P p)" "req_line q i c x" "s \<le> t" "t < LENGTH('w)" for c :: "'w wcache" and P L F p x q i s t
    by (rule set_clean_ok [OF that]) (use clean_marks some_rep_def in blast)
qed auto

subsection \<open>The bits of the world\<close>

text \<open>A change of the metadata that leaves the locks alone keeps a request at work, and so does one that marks it.\<close>

lemma cache_work:
  assumes w: "at_work w r q m v" and c: "some_rep c" "same_env (w_cache w) c"
  shows "at_work (w\<lparr>w_cache := c\<rparr>) r q m v"
proof -
  note D = at_workD [OF w]
  have "req_ready (w\<lparr>w_cache := c\<rparr>) r q" using D(2) c(2) unfolding req_ready_def by (simp add: same_env_def req_ok_def)
  then show ?thesis using w c D(3,6) unfolding at_work_def by (simp add: same_env_def some_rep_def)
qed

lemma on_mapped_lockbits:
  assumes "unlocked_entry e" "g = set_rd_locked True \<or> g = set_wr_locked True" "lockbits e' = lockbits (on_mapped g e)" "mi_status e' = mi_status e"
  shows "e' = on_mapped g (e'\<lparr>mi_rd_locked := False, mi_wr_locked := False\<rparr>)"
  using assms by (auto simp: on_mapped_def set_rd_locked_def set_wr_locked_def lockbits_def unlocked_entry_def split: if_splits)

lemma remark:
  assumes q: "rq_map q = Some (marked v n m)" "\<forall>e \<in> set m. unlocked_entry e" "n \<le> length m" and mk: "marks q q'"
  obtains m' where "rq_map q' = Some (marked v n m')" "\<forall>e \<in> set m'. unlocked_entry e" "length m' = length m"
    "\<And>i. i < length m \<Longrightarrow> mi_status (m' ! i) = mi_status (m ! i) \<and> mi_coll_idx (m' ! i) = mi_coll_idx (m ! i)"
proof -
  obtain k where k: "rq_map q' = Some k" "length k = length m" using mk q(1) by (auto simp: marks_def)
  define m' where "m' = map (\<lambda>e. e\<lparr>mi_rd_locked := False, mi_wr_locked := False\<rparr>) k"
  have bits: "lockbits (k ! i) = lockbits (marked v n m ! i)" if "i < length m" for i
  proof -
    have "map_option lockbits (req_entry q' i) = map_option lockbits (req_entry q i)" using mk by (simp add: marks_def kept_def)
    then show ?thesis using that k q(1) by (simp add: req_entry_def)
  qed
  have same: "mi_status (k ! i) = mi_status (m ! i) \<and> mi_coll_idx (k ! i) = mi_coll_idx (m ! i)" if "i < length m" for i
  proof -
    have "ent q' i = ent (q\<lparr>rq_map := Some (marked v n m)\<rparr>) i" using mk q(1) by (simp add: marks_def ent_def req_entry_def)
    then show ?thesis unfolding ent_hold using that k by (simp add: ent_def req_entry_def)
  qed
  have "k = marked v n m'"
  proof (rule nth_equalityI)
    show "length k = length (marked v n m')" by (simp add: m'_def)
    fix i
    assume "i < length k"
    then have i: "i < length m" "i < length m'" using k by (simp_all add: m'_def)
    have u: "unlocked_entry (m ! i)" using q(2) i by simp
    show "k ! i = marked v n m' ! i"
    proof (cases "v = 0 \<or> n \<le> i")
      case True
      then have "marked v n m ! i = m ! i" "marked v n m' ! i = m' ! i" using i by (auto simp: marked_def)
      then show ?thesis using bits [OF i(1)] u i k by (simp add: m'_def lockbits_def unlocked_entry_def)
    next
      case False
      define g where "g = (if v = 1 then set_rd_locked True else set_wr_locked True)"
      have mi: "marked v n m ! i = on_mapped g (m ! i)" "marked v n m' ! i = on_mapped g (m' ! i)"
        using False i q(3) k by (auto simp: marked_def g_def m'_def)
      have "k ! i = on_mapped g ((k ! i)\<lparr>mi_rd_locked := False, mi_wr_locked := False\<rparr>)"
        by (rule on_mapped_lockbits [OF u]) (use bits [OF i(1)] same [OF i(1)] mi in \<open>auto simp: g_def\<close>)
      then show ?thesis using mi(2) i k by (simp add: m'_def)
    qed
  qed
  then show thesis using that [of m'] k same by (auto simp: m'_def unlocked_entry_def)
qed

lemma marks_work:
  assumes w: "at_work w r q m v" and mk: "marks q q'" and lk: "lockable l (rq_core_line_count q) m"
  obtains m' where "at_work (putr r q' w) r q' m' v" "lockable l (rq_core_line_count q') m'"
proof -
  note D = at_workD [OF w]
  let ?n = "rq_core_line_count q"
  have n: "?n \<le> length m" using D(4,7) by (simp add: req_ok_def)
  have u: "\<forall>e \<in> set m. unlocked_entry e" using w by (simp add: at_work_def)
  obtain m' where m': "rq_map q' = Some (marked v ?n m')" "\<forall>e \<in> set m'. unlocked_entry e" "length m' = length m"
    "\<And>i. i < length m \<Longrightarrow> mi_status (m' ! i) = mi_status (m ! i) \<and> mi_coll_idx (m' ! i) = mi_coll_idx (m ! i)"
    by (rule remark [OF D(4) u n mk]) blast
  have k: "kept q q'" using mk by (simp add: marks_def)
  note K = kept_fields [OF k]
  have t: "map (\<lambda>e. (mi_status e, mi_coll_idx e)) (take ?n m') = map (\<lambda>e. (mi_status e, mi_coll_idx e)) (take ?n m)"
    using m'(3,4) by (intro nth_equalityI) auto
  have lo: "lines_of xs = {x. \<exists>p \<in> set (map (\<lambda>e. (mi_status e, mi_coll_idx e)) xs). fst p \<noteq> LOOKUP_MISS \<and> snd p = x}" for xs
    by (auto simp: lines_of_def)
  have held: "held_by ?n m' v = held_by ?n m v" unfolding held_by_def lo t ..
  have rr: "req_ready (putr r q' w) r q'" by (rule req_ready_kept [OF D(2) k]) (use m'(1,3) n in simp_all)
  have "at_work (putr r q' w) r q' m' v"
    using w rr D(3) m'(1,2) held K(5) unfolding at_work_def by simp
  moreover have "lines_distinct ?n m'"
  proof -
    have f: "map mi_coll_idx (filter (\<lambda>e. mi_status e \<noteq> LOOKUP_MISS) xs) = map snd (filter (\<lambda>p. fst p \<noteq> LOOKUP_MISS) (map (\<lambda>e. (mi_status e, mi_coll_idx e)) xs))" for xs
      by (simp add: filter_map comp_def)
    show ?thesis using lk n m'(3) unfolding lines_distinct_def lockable_def f t by simp
  qed
  then have "lockable l (rq_core_line_count q') m'"
    using lk m'(2-4) n K(5) unfolding lockable_def by (auto simp: lines_distinct_def)
  ultimately show thesis by (rule that)
qed

text \<open>What setting the bits does to the world.\<close>

definition bits_to :: "'w::len world \<Rightarrow> ocf_request \<Rightarrow> (nat set \<Rightarrow> nat set \<Rightarrow> nat set) \<Rightarrow> 'w world \<Rightarrow> bool" where
  "bits_to w q g w' \<longleftrightarrow> ca_coll (w_cache w') = ca_coll (w_cache w) \<and> w_cfg w' = w_cfg w \<and>
     (\<forall>x. sec_valid (w_cache w') x = sec_valid (w_cache w) x \<union> touched (w_cache w) q (rq_core_line_count q) x) \<and>
     (\<forall>x. sec_dirty (w_cache w') x = g (sec_dirty (w_cache w) x) (touched (w_cache w) q (rq_core_line_count q) x))"

lemma valid_step:
  assumes w: "at_work w r q m v" and pr: "prepared w q"
  obtains w' where "(if \<not> ocf_engine_is_hit q then set_valid_map r w else Some w) = Some w'" "at_work w' r q m v" "env_same w w'" "w_io w' = w_io w"
    "ca_coll (w_cache w') = ca_coll (w_cache w)" "ca_line (w_cache w') = ca_line (w_cache w)" "ca_locks (w_cache w') = ca_locks (w_cache w)"
    "\<forall>x. sec_valid (w_cache w') x = sec_valid (w_cache w) x \<union> touched (w_cache w) q (rq_core_line_count q) x"
    "\<forall>x. sec_dirty (w_cache w') x = sec_dirty (w_cache w) x"
proof (cases "ocf_engine_is_hit q")
  case True
  then have "touched (w_cache w) q (rq_core_line_count q) x \<subseteq> sec_valid (w_cache w) x" for x using pr by (auto simp: prepared_def touched_def)
  then show thesis using that [of w] w True by (simp add: Un_absorb2)
next
  case False
  note D = at_workD [OF w]
  have a: "all_mapped (w_cache w) q" and nm: "\<forall>i < rq_core_line_count q. \<exists>st x l. ent q i = Some (st, x, l) \<and> st \<noteq> LOOKUP_MISS"
    using pr by (simp_all add: prepared_def)
  obtain c where c: "ocf_set_valid_map_info (w_cache w) q = Some c" "some_rep c" "same_env (w_cache w) c" "ca_coll c = ca_coll (w_cache w)"
    "\<forall>x. sec_valid c x = sec_valid (w_cache w) x \<union> touched (w_cache w) q (rq_core_line_count q) x" "\<forall>x. sec_dirty c x = sec_dirty (w_cache w) x"
    using valid_bits [OF at_work_rep [OF w] D(7) a nm] by blast
  have eq: "putr r q (w\<lparr>w_cache := c\<rparr>) = w\<lparr>w_cache := c\<rparr>" by (rule putr_same) (use D(6) c(3) in \<open>simp add: same_env_def\<close>)
  have "set_valid_map r w = Some (w\<lparr>w_cache := c\<rparr>)" using D(1) c(1) eq by (simp add: set_valid_map_def on_meta_def)
  then show thesis using that [of "w\<lparr>w_cache := c\<rparr>"] cache_work [OF w c(2,3)] c(3-6) False by (simp add: same_env_def)
qed

lemma touched_line: "ca_line c' = ca_line c \<Longrightarrow> touched c' q n = touched c q n" for c c' :: "'w::len wcache"
  by (simp add: touched_def sect_def fun_eq_iff)

text \<open>The dirty bits, after the valid ones. \<open>upd\<close> is the function that sets or clears them, \<open>done\<close> says that there is nothing to do.\<close>

lemma dirty_step:
  assumes w: "at_work w r q m v" and lk: "lockable (ca_locks (w_cache w)) (rq_core_line_count q) m"
    and upd: "\<exists>s. upd (w_cache w) q = Some s \<and> some_rep (fst s) \<and> same_env (w_cache w) (fst s) \<and> ca_coll (fst s) = ca_coll (w_cache w) \<and> marks q (snd s) \<and>
      (\<forall>x. sec_dirty (fst s) x = g (sec_dirty (w_cache w) x) (touched (w_cache w) q (rq_core_line_count q) x)) \<and> (\<forall>x. sec_valid (fst s) x = sec_valid (w_cache w) x)"
    and idle: "\<And>x. \<not> b \<Longrightarrow> g (sec_dirty (w_cache w) x) (touched (w_cache w) q (rq_core_line_count q) x) = sec_dirty (w_cache w) x"
  obtains w' q' m' where "(if b then on_meta r upd w else Some w) = Some w'" "at_work w' r q' m' v" "marks q q'" "env_same w w'" "w_io w' = w_io w"
    "lockable (ca_locks (w_cache w')) (rq_core_line_count q') m'" "ca_coll (w_cache w') = ca_coll (w_cache w)" "ca_line (w_cache w') = ca_line (w_cache w)"
    "\<forall>x. sec_dirty (w_cache w') x = g (sec_dirty (w_cache w) x) (touched (w_cache w) q (rq_core_line_count q) x)" "\<forall>x. sec_valid (w_cache w') x = sec_valid (w_cache w) x"
proof (cases b)
  case False
  have id: "\<forall>x. sec_dirty (w_cache w) x = g (sec_dirty (w_cache w) x) (touched (w_cache w) q (rq_core_line_count q) x)" using idle [OF False] by simp
  show thesis by (rule that [of w q m, OF _ w _ _ _ lk _ _ id]) (use False in simp_all)
next
  case True
  note D = at_workD [OF w]
  obtain c q1 where c: "upd (w_cache w) q = Some (c, q1)" "some_rep c" "same_env (w_cache w) c" "ca_coll c = ca_coll (w_cache w)" "marks q q1"
    "\<forall>x. sec_dirty c x = g (sec_dirty (w_cache w) x) (touched (w_cache w) q (rq_core_line_count q) x)" "\<forall>x. sec_valid c x = sec_valid (w_cache w) x"
    using upd by auto
  have w1: "at_work (w\<lparr>w_cache := c\<rparr>) r q m v" by (rule cache_work [OF w c(2,3)])
  obtain m1 where m1: "at_work (putr r q1 (w\<lparr>w_cache := c\<rparr>)) r q1 m1 v" "lockable (ca_locks c) (rq_core_line_count q1) m1"
    by (rule marks_work [OF w1 c(5)]) (use lk c(3) in \<open>auto simp: same_env_def\<close>)
  have run: "(if b then on_meta r upd w else Some w) = Some (putr r q1 (w\<lparr>w_cache := c\<rparr>))" using True D(1) c(1) by (simp add: on_meta_def)
  have lk1: "lockable (ca_locks (w_cache (putr r q1 (w\<lparr>w_cache := c\<rparr>)))) (rq_core_line_count q1) m1" using m1(2) by (simp add: lockable_def)
  show thesis by (rule that [OF run m1(1) c(5) _ _ lk1]) (use c(3,4,6,7) in \<open>auto simp: same_env_def env_same_def\<close>)
qed

lemma wb_bits:
  assumes w: "at_work w r q m v" and pr: "prepared w q" and lk: "lockable (ca_locks (w_cache w)) (rq_core_line_count q) m"
  obtains w' q' m' where "ocf_write_wb_update_bits r w = Some w'" "at_work w' r q' m' v" "marks q q'" "env_same w w'" "w_io w' = w_io w"
    "lockable (ca_locks (w_cache w')) (rq_core_line_count q') m'" "bits_to w q (\<union>) w'"
proof -
  obtain w1 where w1: "(if \<not> ocf_engine_is_hit q then set_valid_map r w else Some w) = Some w1" "at_work w1 r q m v" "env_same w w1" "w_io w1 = w_io w"
    "ca_coll (w_cache w1) = ca_coll (w_cache w)" "ca_line (w_cache w1) = ca_line (w_cache w)" "ca_locks (w_cache w1) = ca_locks (w_cache w)"
    "\<forall>x. sec_valid (w_cache w1) x = sec_valid (w_cache w) x \<union> touched (w_cache w) q (rq_core_line_count q) x"
    "\<forall>x. sec_dirty (w_cache w1) x = sec_dirty (w_cache w) x"
    by (rule valid_step [OF w pr])
  have a: "all_mapped (w_cache w1) q" using pr w1(5) by (simp add: prepared_def all_mapped_def)
  have lk1: "lockable (ca_locks (w_cache w1)) (rq_core_line_count q) m" using lk w1(7) by simp
  have T: "touched (w_cache w1) q n = touched (w_cache w) q n" for n by (rule touched_line [OF w1(6)])
  have full: "sec_dirty (w_cache w1) x \<union> touched (w_cache w1) q (rq_core_line_count q) x = sec_dirty (w_cache w1) x" if "\<not> \<not> ocf_engine_is_dirty_all q" for x
  proof -
    have "sect (w_cache w) q i \<subseteq> sec_dirty (w_cache w) (line_of q i)" if "i < rq_core_line_count q" for i
      using pr \<open>\<not> \<not> ocf_engine_is_dirty_all q\<close> that unfolding prepared_def by blast
    then have "touched (w_cache w) q (rq_core_line_count q) x \<subseteq> sec_dirty (w_cache w) x" by (auto simp: touched_def)
    then show ?thesis unfolding T w1(9) [rule_format] by blast
  qed
  obtain w2 q2 m2 where w2: "(if \<not> ocf_engine_is_dirty_all q then on_meta r ocf_set_dirty_map_info w1 else Some w1) = Some w2" "at_work w2 r q2 m2 v" "marks q q2" "env_same w1 w2" "w_io w2 = w_io w1"
    "lockable (ca_locks (w_cache w2)) (rq_core_line_count q2) m2" "ca_coll (w_cache w2) = ca_coll (w_cache w1)" "ca_line (w_cache w2) = ca_line (w_cache w1)"
    "\<forall>x. sec_dirty (w_cache w2) x = sec_dirty (w_cache w1) x \<union> touched (w_cache w1) q (rq_core_line_count q) x" "\<forall>x. sec_valid (w_cache w2) x = sec_valid (w_cache w1) x"
    by (rule dirty_step [where g = "(\<union>)" and upd = ocf_set_dirty_map_info, OF w1(2) lk1 dirty_bits [OF at_work_rep [OF w1(2)] at_workD(7) [OF w1(2)] a] full])
  have run: "ocf_write_wb_update_bits r w = Some w2"
    using at_workD(1) [OF w] at_workD(1) [OF w1(2)] w1(1) w2(1) by (simp add: ocf_write_wb_update_bits_def)
  have "bits_to w q (\<union>) w2" using w1(3,5,8,9) w2(4,7,9,10) T by (simp add: bits_to_def env_same_def)
  then show thesis using that [OF run w2(2,3) env_same_trans(1) [OF w1(3) w2(4)] _ w2(6)] w1(4) w2(5) by simp
qed

lemma wt_bits:
  assumes w: "at_work w r q m v" and pr: "prepared w q" and lk: "lockable (ca_locks (w_cache w)) (rq_core_line_count q) m"
  obtains w' q' m' where "ocf_write_wt_update_bits r w = Some w'" "at_work w' r q' m' v" "marks q q'" "env_same w w'" "w_io w' = w_io w"
    "lockable (ca_locks (w_cache w')) (rq_core_line_count q') m'" "bits_to w q (-) w'"
proof -
  obtain w1 where w1: "(if \<not> ocf_engine_is_hit q then set_valid_map r w else Some w) = Some w1" "at_work w1 r q m v" "env_same w w1" "w_io w1 = w_io w"
    "ca_coll (w_cache w1) = ca_coll (w_cache w)" "ca_line (w_cache w1) = ca_line (w_cache w)" "ca_locks (w_cache w1) = ca_locks (w_cache w)"
    "\<forall>x. sec_valid (w_cache w1) x = sec_valid (w_cache w) x \<union> touched (w_cache w) q (rq_core_line_count q) x"
    "\<forall>x. sec_dirty (w_cache w1) x = sec_dirty (w_cache w) x"
    by (rule valid_step [OF w pr])
  have a: "all_mapped (w_cache w1) q" using pr w1(5) by (simp add: prepared_def all_mapped_def)
  have lk1: "lockable (ca_locks (w_cache w1)) (rq_core_line_count q) m" using lk w1(7) by simp
  have T: "touched (w_cache w1) q n = touched (w_cache w) q n" for n by (rule touched_line [OF w1(6)])
  have none: "sec_dirty (w_cache w1) x - touched (w_cache w1) q (rq_core_line_count q) x = sec_dirty (w_cache w1) x" if "\<not> ri_dirty_any (rq_info q) \<noteq> 0" for x
  proof -
    have "sec_dirty (w_cache w) (line_of q i) = {}" if "i < rq_core_line_count q" for i
      using pr \<open>\<not> ri_dirty_any (rq_info q) \<noteq> 0\<close> that unfolding prepared_def by blast
    then show ?thesis unfolding T w1(9) [rule_format] by (auto simp: touched_def)
  qed
  obtain w2 q2 m2 where w2: "(if ri_dirty_any (rq_info q) \<noteq> 0 then on_meta r ocf_set_clean_map_info w1 else Some w1) = Some w2" "at_work w2 r q2 m2 v" "marks q q2" "env_same w1 w2" "w_io w2 = w_io w1"
    "lockable (ca_locks (w_cache w2)) (rq_core_line_count q2) m2" "ca_coll (w_cache w2) = ca_coll (w_cache w1)" "ca_line (w_cache w2) = ca_line (w_cache w1)"
    "\<forall>x. sec_dirty (w_cache w2) x = sec_dirty (w_cache w1) x - touched (w_cache w1) q (rq_core_line_count q) x" "\<forall>x. sec_valid (w_cache w2) x = sec_valid (w_cache w1) x"
    by (rule dirty_step [where g = "(-)" and upd = ocf_set_clean_map_info, OF w1(2) lk1 clean_bits [OF at_work_rep [OF w1(2)] at_workD(7) [OF w1(2)] a] none])
  have p2: "points (w_cache w2) q2 i" if "i < rq_core_line_count q2" for i
  proof -
    have k: "kept q q2" "ent q2 i = ent q i" using w2(3) by (simp_all add: marks_def)
    then show ?thesis using pr that w1(5) w2(7) kept_fields [OF k(1)] by (simp add: prepared_def points_def)
  qed
  obtain w3 where w3: "re_part r w2 = Some w3" "at_work w3 r q2 m2 v" "env_same w2 w3" "meta_same w2 w3" "w_io w3 = w_io w2" "ca_locks (w_cache w3) = ca_locks (w_cache w2)"
    using re_part_work [OF w2(2) p2] by metis
  have run: "ocf_write_wt_update_bits r w = Some w3"
    using at_workD(1) [OF w] at_workD(1) [OF w1(2)] w1(1) w2(1) w3(1) by (simp add: ocf_write_wt_update_bits_def)
  have "bits_to w q (-) w3" using w1(3,5,8,9) w2(4,7,9,10) w3(3,4) T by (simp add: bits_to_def env_same_def meta_same_def)
  moreover have "env_same w w3" using w1(3) w2(4) w3(3) env_same_trans(1) by blast
  ultimately show thesis using that [OF run w3(2) w2(3)] w1(4) w2(5,6) w3(5,6) by simp
qed

subsection \<open>What the content is afterwards\<close>

lemma bits_to_same:
  assumes "bits_to w q g w1" "meta_same w1 w2" "w_cfg w2 = w_cfg w1"
  shows "bits_to w q g w2"
  using assms by (simp add: bits_to_def meta_same_def)

text \<open>The request is on its way to the devices: \<open>inside\<close> are its bytes. \<open>g\<close> adds its sectors to the dirty ones, or the core has the data too.\<close>

definition inside :: "ocf_request \<Rightarrow> core_id \<Rightarrow> nat \<Rightarrow> bool" where
  "inside q core a \<longleftrightarrow> core = rq_core_id q \<and> rq_byte_position q \<le> a \<and> a < rq_byte_position q + rq_byte_length q"

lemma stored:
  assumes w: "at_work w r q m v" and a: "all_mapped (w_cache w) q" and b: "bits_to w q g w'"
    and cd: "\<forall>k < rq_byte_length q. w_cachedev w' (byte_addr (w_cfg w) q k) = d k"
      "\<forall>x. x \<notin> byte_addr (w_cfg w) q ` {..<rq_byte_length q} \<longrightarrow> w_cachedev w' x = w_cachedev w x"
    and kd: "\<forall>core x. \<not> inside q core x \<longrightarrow> w_coredev w' core x = w_coredev w core x"
    and g: "g = (\<union>) \<or> g = (-) \<and> (\<forall>k < rq_byte_length q. w_coredev w' (rq_core_id q) (rq_byte_position q + k) = d k)"
  shows "content w' core x = (if inside q core x then d (x - rq_byte_position q) else content w core x)" "coherent w \<Longrightarrow> coherent w'"
proof -
  let ?ls = "ocf_line_size (cf_line (w_cfg w))"
  have B: "ca_coll (w_cache w') = ca_coll (w_cache w)" "w_cfg w' = w_cfg w"
    "\<And>x. sec_valid (w_cache w') x = sec_valid (w_cache w) x \<union> touched (w_cache w) q (rq_core_line_count q) x"
    "\<And>x. sec_dirty (w_cache w') x = g (sec_dirty (w_cache w) x) (touched (w_cache w) q (rq_core_line_count q) x)"
    using b by (simp_all add: bits_to_def)
  have lb: "line_byte w' = line_byte w" by (simp add: line_byte_def fun_eq_iff B(2))
  have T: "x mod ?ls div 512 \<in> touched (w_cache w) q (rq_core_line_count q) y \<longleftrightarrow> inside q core x"
    if "coll_map (ca_coll (w_cache w)) (core, x div ?ls) = Some y" for core x y
    using touched_iff [OF w a that] by (simp add: inside_def)
  have out: "cached_at w' core x = cached_at w core x" "w_cachedev w' (line_byte w y x) = w_cachedev w (line_byte w y x)"
    if "\<not> inside q core x" "coll_map (ca_coll (w_cache w)) (core, x div ?ls) = Some y" for core x y
    using T [OF that(2)] that cd(2) other_byte [OF w a that(2)] by (auto simp: cached_at_def B inside_def)
  have inn: "cached_at w' core x = Some y \<and> w_cachedev w' (line_byte w y x) = d (x - rq_byte_position q)"
    if i: "inside q core x" and y: "coll_map (ca_coll (w_cache w)) (core, x div ?ls) = Some y" for core x y
  proof -
    define k where "k = x - rq_byte_position q"
    have k: "k < rq_byte_length q" "x = rq_byte_position q + k" "core = rq_core_id q" using i by (auto simp: inside_def k_def)
    note M = mapped_byte [OF w a k(1)]
    have "y = line_of q (byte_line (cf_line (w_cfg w)) q k)" using M(2) y k(2,3) by simp
    then have "line_byte w y x = byte_addr (w_cfg w) q k" using M(1) k(2) by simp
    then show ?thesis using cd(1) k(1) T [OF y] i y by (simp add: cached_at_def B k_def)
  qed
  have some: "\<exists>y. coll_map (ca_coll (w_cache w)) (core, x div ?ls) = Some y" if "inside q core x" for core x
    using mapped_byte(2) [OF w a, of "x - rq_byte_position q"] that by (auto simp: inside_def)
  show "content w' core x = (if inside q core x then d (x - rq_byte_position q) else content w core x)"
  proof (cases "inside q core x")
    case True
    then show ?thesis using some [OF True] inn [OF True] by (auto simp: content_def lb)
  next
    case False
    show ?thesis
    proof (cases "coll_map (ca_coll (w_cache w)) (core, x div ?ls)")
      case None
      then show ?thesis using False kd by (simp add: content_def cached_at_def B)
    next
      case (Some y)
      note O = out [OF False Some]
      have "cached_at w core x = None \<or> cached_at w core x = Some y" using Some by (simp add: cached_at_def)
      then show ?thesis using O False kd by (auto simp: content_def lb)
    qed
  qed
  assume co: "coherent w"
  show "coherent w'"
    unfolding coherent_def
  proof (intro allI impI)
    fix core x y
    assume c: "cached_at w' core x = Some y" and nd: "x mod ocf_line_size (cf_line (w_cfg w')) div 512 \<notin> sec_dirty (w_cache w') y"
    have y: "coll_map (ca_coll (w_cache w)) (core, x div ?ls) = Some y" using c by (simp add: cached_at_def B split: option.splits if_splits)
    show "w_cachedev w' (line_byte w' y x) = w_coredev w' core x"
    proof (cases "inside q core x")
      case True
      then have "g \<noteq> (\<union>)" using nd T [OF y] by (auto simp: B)
      then have kd': "\<forall>k < rq_byte_length q. w_coredev w' (rq_core_id q) (rq_byte_position q + k) = d k" using g by blast
      have "w_coredev w' core x = d (x - rq_byte_position q)" using kd' [rule_format, of "x - rq_byte_position q"] True by (auto simp: inside_def)
      then show ?thesis using inn [OF True y] by (simp add: lb)
    next
      case False
      have "x mod ?ls div 512 \<notin> sec_dirty (w_cache w) y" using nd T [OF y] False g by (auto simp: B)
      moreover have "cached_at w core x = Some y" using c out(1) [OF False y] by simp
      ultimately have "w_cachedev w (line_byte w y x) = w_coredev w core x" using co by (simp add: coherent_def)
      then show ?thesis using out(2) [OF False y] kd False by (simp add: lb)
    qed
  qed
qed

lemma prepared_same:
  assumes pr: "prepared w q" and s: "meta_same w w'" "w_cfg w' = w_cfg w" "ca_line (w_cache w') = ca_line (w_cache w)"
    and q: "\<And>i. ent q' i = ent q i" "rq_info q' = rq_info q" "rq_core_id q' = rq_core_id q" "rq_core_line_first q' = rq_core_line_first q"
      "rq_core_line_count q' = rq_core_line_count q" "rq_byte_position q' = rq_byte_position q" "rq_byte_length q' = rq_byte_length q"
  shows "prepared w' q'"
proof -
  note E = ent_line [of q' q, OF q(1)]
  have c: "ca_coll (w_cache w') = ca_coll (w_cache w)" "ca_status (w_cache w') = ca_status (w_cache w)" using s(1) by (simp_all add: meta_same_def)
  have S: "sect (w_cache w') q' i = sect (w_cache w) q i" for i
    by (simp add: sect_def s(3) ocf_map_line_start_sector_def ocf_map_line_end_sector_def q)
  have "ocf_engine_is_hit q' = ocf_engine_is_hit q" "ocf_engine_is_dirty_all q' = ocf_engine_is_dirty_all q"
    by (simp_all add: ocf_engine_is_hit_def ocf_engine_is_dirty_all_def q)
  moreover have "all_mapped (w_cache w') q' = all_mapped (w_cache w) q" "\<And>i. points (w_cache w') q' i = points (w_cache w) q i"
    by (simp_all add: all_mapped_def points_def c q E(1))
  ultimately show ?thesis using pr unfolding prepared_def c S q E(1) by (simp add: s(2) E(2))
qed

subsection \<open>The end of a write\<close>

text \<open>Unlock, complete, give the last reference back: the end of both writes.\<close>

lemma finish:
  assumes w: "at_work w r q m v" and v: "v \<in> {1, OCF_CACHE_LINE_ACCESS_WR}" and lk: "lockable (ca_locks (w_cache w)) (rq_core_line_count q) m"
    and ref: "rq_ref_count q = 1" "can_free (w_ctx w) q" and d: "w_data w r = Some d"
    and qu: "w_queue w = []" "w_cleaning w = []" "w_flushes w = []" "st_ios (w_io w) = []"
  obtains h c f where "on_locks r ocf_req_unlock w = Some h" "v = OCF_CACHE_LINE_ACCESS_WR \<longrightarrow> on_locks r ocf_req_unlock_wr w = Some h" "req_complete r 0 h = Some c" "req_put r c = Some f"
    "quiet f" "served w r d f" "meta_same w f" "w_cachedev f = w_cachedev w" "w_coredev f = w_coredev w"
proof -
  let ?h = "hold r q m 0 w"
  note H = hold_work [OF w, of 0]
  let ?d = "?h\<lparr>w_done := w_done ?h @ [(r, 0, w_data ?h r)]\<rparr>" and ?q = "q\<lparr>rq_map := Some (marked 0 (rq_core_line_count q) m)\<rparr>"
  have comp: "req_complete r 0 ?h = Some ?d" using at_workD(1) [OF H(1)] by (simp add: req_complete_def)
  have g: "getr r ?d = Some ?q" using at_workD(1) [OF H(1)] by simp
  have "can_free (w_ctx ?d) ?q" using ref(2) H(2) by (simp add: can_free_def env_same_def)
  then obtain x where put: "req_put r ?d = Some (?d\<lparr>w_ctx := x, w_freed := r # w_freed ?d\<rparr>)" using last_put [OF g] ref(1) by auto
  let ?f = "?d\<lparr>w_ctx := x, w_freed := r # w_freed ?d\<rparr>"
  have idle: "cl_idle (ca_locks (w_cache ?h))" by (rule at_work_idle [OF H(1)])
  have res: "cl_resumed (ca_locks (w_cache ?h)) = []" using H(1) by (simp add: at_work_def)
  have "quiet ?f" using H(2,4) qu res by (simp add: quiet_def env_same_def)
  moreover have "served w r d ?f" using H(2) d idle at_work_rep [OF H(1)] by (simp add: served_def env_same_def)
  moreover have "meta_same w ?f" using H(3) by (simp add: meta_same_def)
  moreover have "w_cachedev ?f = w_cachedev w" "w_coredev ?f = w_coredev w" using H(2) by (simp_all add: env_same_def)
  ultimately show thesis using that [OF unlock_work(1) [OF w lk v] _ comp put] unlock_work(3) [OF w lk v] by blast
qed

subsection \<open>Write-back\<close>

text \<open>What is true at the end of a write: the request is served, the devices are as \<open>mm\<close> says.\<close>

definition ends :: "'w::len world \<Rightarrow> nat \<Rightarrow> mem \<Rightarrow> 'w world \<Rightarrow> bool" where
  "ends w r mm w' \<longleftrightarrow> served w r (fst mm) w' \<and> meta_same w w' \<and> w_cachedev w' = fst (snd mm) \<and> w_coredev w' = snd (snd mm)"

lemma busy_finish:
  assumes w: "at_work w r q m v" and v: "v \<in> {1, OCF_CACHE_LINE_ACCESS_WR}" and lk: "lockable (ca_locks (w_cache w)) (rq_core_line_count q) m"
    and ref: "rq_ref_count q = 1" "can_free (w_ctx w) q" and qu: "w_queue w = []" "w_cleaning w = []"
  obtains h c f where "on_locks r ocf_req_unlock (busy w r q 0 [] [] mm) = Some h"
    "v = OCF_CACHE_LINE_ACCESS_WR \<longrightarrow> on_locks r ocf_req_unlock_wr (busy w r q 0 [] [] mm) = Some h" "req_complete r 0 h = Some c" "req_put r c = Some f"
    "quiet f" "ends w r mm f"
proof -
  note B = busy_work [OF w, of 0 "[]" "[]" mm]
  have lk': "lockable (ca_locks (w_cache (busy w r q 0 [] [] mm))) (rq_core_line_count (q\<lparr>rq_req_remaining := 0\<rparr>)) m"
    using lk unfolding B(3) by (simp add: lockable_def)
  have cf: "can_free (w_ctx (busy w r q 0 [] [] mm)) (q\<lparr>rq_req_remaining := 0\<rparr>)" using ref(2) B(6) by (simp add: can_free_def)
  obtain h c f where F: "on_locks r ocf_req_unlock (busy w r q 0 [] [] mm) = Some h"
    "v = OCF_CACHE_LINE_ACCESS_WR \<longrightarrow> on_locks r ocf_req_unlock_wr (busy w r q 0 [] [] mm) = Some h" "req_complete r 0 h = Some c" "req_put r c = Some f"
    "quiet f" "served (busy w r q 0 [] [] mm) r (fst mm) f" "meta_same (busy w r q 0 [] [] mm) f"
    "w_cachedev f = w_cachedev (busy w r q 0 [] [] mm)" "w_coredev f = w_coredev (busy w r q 0 [] [] mm)"
    by (rule finish [OF B(1) v lk' _ cf B(8)]) (use ref qu in simp_all)
  have "ends w r mm f" using F(6-9) B env_same_trans(2) [OF B(2) F(7)] by (simp add: ends_def served_def)
  then show thesis by (rule that [OF F(1-5)])
qed

lemma wb_flushed:
  assumes w: "at_work w r q m OCF_CACHE_LINE_ACCESS_WR" and lk: "lockable (ca_locks (w_cache w)) (rq_core_line_count q) m"
    and ref: "rq_ref_count q = 1" "can_free (w_ctx w) q" and qu: "w_queue w = []" "w_cleaning w = []"
  shows "\<exists>w'. ocf_write_wb_io_flush_metadata r 0 (busy w r q 1 [] [] mm) = Some w' \<and> settles (ends w r mm) w'"
proof -
  obtain h c f where F: "on_locks r ocf_req_unlock (busy w r q 0 [] [] mm) = Some h"
    "OCF_CACHE_LINE_ACCESS_WR = OCF_CACHE_LINE_ACCESS_WR \<longrightarrow> on_locks r ocf_req_unlock_wr (busy w r q 0 [] [] mm) = Some h" "req_complete r 0 h = Some c" "req_put r c = Some f"
    "quiet f" "ends w r mm f"
    by (rule busy_finish [OF w _ lk ref qu, of mm]) simp
  have "rq_error q = 0" using at_workD(2) [OF w] by (simp add: req_ready_def)
  then have "ocf_write_wb_io_flush_metadata r 0 (busy w r q 1 [] [] mm) = Some f"
    using at_workD(3) [OF w] F by (simp add: ocf_write_wb_io_flush_metadata_def)
  then show ?thesis using F(5,6) by (blast intro: settles.settled)
qed

text \<open>The metadata is flushed once the data is written, if the dirty bits changed; only then the lines are unlocked and the request completes.\<close>

lemma wb_flush:
  assumes w: "at_work w r q m OCF_CACHE_LINE_ACCESS_WR" and lk: "lockable (ca_locks (w_cache w)) (rq_core_line_count q) m"
    and ref: "rq_ref_count q = 1" "can_free (w_ctx w) q" and qu: "w_queue w = []" "w_cleaning w = []"
  shows "\<exists>w'. ocf_write_wb_do_flush_metadata r (busy w r q n [] [] mm) = Some w' \<and> settles (ends w r mm) w'"
proof -
  note D = at_workD [OF w] and F = wb_flushed [OF assms, of mm]
  have e: "rq_error q = 0" "cl_resumed (ca_locks (w_cache w)) = []" using w D(2) by (simp_all add: at_work_def req_ready_def)
  have put: "putr r (q\<lparr>rq_req_remaining := k\<rparr>) (busy w r q n [] [] mm) = busy w r q k [] [] mm" for n k by (simp add: busy_def)
  have set: "set_remaining r 1 (busy w r q n [] [] mm) = Some (busy w r q 1 [] [] mm)" using D(3) put by (simp add: set_remaining_def modr_def)
  consider (no) "\<not> ri_flush_metadata (rq_info q)" | (now) "ri_flush_metadata (rq_info q)" "ca_raw (w_cache w) = metadata_raw_type_volatile"
    | (later) "ri_flush_metadata (rq_info q)" "ca_raw (w_cache w) \<noteq> metadata_raw_type_volatile" by blast
  then show ?thesis
  proof cases
    case no
    then show ?thesis using F D(3) set by (simp add: ocf_write_wb_do_flush_metadata_def)
  next
    case now
    have inc: "modr r (\<lambda>req. req\<lparr>rq_req_remaining := rq_req_remaining req + 1\<rparr>) (busy w r q 1 [] [] mm) = Some (busy w r q 2 [] [] mm)"
      using D(3) put by (simp add: modr_def)
    have "ca_raw (w_cache (busy w r q 2 [] [] mm)) = metadata_raw_type_volatile" using now(2) by (simp add: busy_def)
    then have "ocf_metadata_flush_do_asynch r cb_wb_flush_metadata (busy w r q 1 [] [] mm) = Some (busy w r q 1 [] [] mm)"
      using inc D(3) run_cb_counts [of cb_wb_flush_metadata r w q 2 "[]" "[]" mm] e(1) by (simp add: ocf_metadata_flush_do_asynch_def counting_def)
    then show ?thesis using F D(3) set now(1) by (simp add: ocf_write_wb_do_flush_metadata_def)
  next
    case later
    have inc: "modr r (\<lambda>req. req\<lparr>rq_req_remaining := rq_req_remaining req + 1\<rparr>) (busy w r q 1 [] [] mm) = Some (busy w r q 2 [] [] mm)"
      using D(3) put by (simp add: modr_def)
    have "ca_raw (w_cache (busy w r q 2 [] [] mm)) \<noteq> metadata_raw_type_volatile" using later(2) by (simp add: busy_def)
    then have "ocf_metadata_flush_do_asynch r cb_wb_flush_metadata (busy w r q 1 [] [] mm) = Some (busy w r q 2 [] [(r, cb_wb_flush_metadata)] mm)"
      using inc D(3) later(1) by (simp add: ocf_metadata_flush_do_asynch_def)
    moreover have "ocf_write_wb_io_flush_metadata r 0 (busy w r q 2 [] [(r, cb_wb_flush_metadata)] mm) = Some (busy w r q 1 [] [(r, cb_wb_flush_metadata)] mm)"
      using run_cb_counts [of cb_wb_flush_metadata r w q 2 "[]" "[(r, cb_wb_flush_metadata)]" mm] D(3) e(1) by (simp add: counting_def)
    ultimately have run: "ocf_write_wb_do_flush_metadata r (busy w r q n [] [] mm) = Some (busy w r q 1 [] [(r, cb_wb_flush_metadata)] mm)"
      using D(3) set later(1) by (simp add: ocf_write_wb_do_flush_metadata_def)
    have "settles (ends w r mm) (busy w r q (int (length ([] :: cb io list) + length [(r, cb_wb_flush_metadata)])) [] [(r, cb_wb_flush_metadata)] mm)"
      by (rule drain [where CB = "{cb_wb_flush_metadata}" and I = "\<lambda>ios m'. ios = [] \<and> m' = mm", OF D(3) qu(1) e(2,1)]) (use F in \<open>auto simp: counting_def\<close>)
    then show ?thesis using run by simp
  qed
qed

lemma wb_settles:
  assumes w: "at_work w r q m OCF_CACHE_LINE_ACCESS_WR" and lk: "lockable (ca_locks (w_cache w)) (rq_core_line_count q) m"
    and ref: "rq_ref_count q = 1" "can_free (w_ctx w) q" and qu: "w_queue w = []" "w_flushes w = []" "w_cleaning w = []" and d: "w_data w r = Some d"
    and wr: "rq_rw q = OCF_WRITE" and inj: "inj_on addr {..<rq_byte_length q}"
    and ios: "carries addr 0 (rq_byte_length q) ios" "data_ios cb_wb r OCF_WRITE CacheVolume ios" "st_ios (w_io w) = ios"
      "rq_req_remaining q = int (length ios)" "ios \<noteq> []"
  shows "settles (\<lambda>w'. \<exists>cd. ends w r (d, cd, w_coredev w) w' \<and> (\<forall>k < rq_byte_length q. cd (addr k) = d k) \<and>
    (\<forall>a. a \<notin> addr ` {..<rq_byte_length q} \<longrightarrow> cd a = w_cachedev w a)) w"
proof (rule wait_settles [OF w d qu(1,2) ios(2-5), where I = "\<lambda>ios mm. writing CacheVolume addr (rq_byte_length q) (d, w_cachedev w, w_coredev w) ios mm \<and>
    (\<forall>k. untouched (CoreVolume k) (d, w_cachedev w, w_coredev w) ios mm)"])
  let ?m0 = "(d, w_cachedev w, w_coredev w)" and ?len = "rq_byte_length q"
  show "writing CacheVolume addr ?len ?m0 ios ?m0 \<and> (\<forall>k. untouched (CoreVolume k) ?m0 ios ?m0)"
    using carries_good [OF ios(1,2)] ios(2) by (auto simp: writing_def untouched_def data_ios_def)
  fix mm
  assume I: "writing CacheVolume addr ?len ?m0 ([] :: cb io list) mm \<and> (\<forall>k. untouched (CoreVolume k) ?m0 ([] :: cb io list) mm)"
  obtain cd where mm: "mm = (d, cd, w_coredev w)" "\<forall>k < ?len. cd (addr k) = d k" "\<forall>a. a \<notin> addr ` {..<?len} \<longrightarrow> cd a = w_cachedev w a"
    using I by (cases mm) (auto simp: writing_def untouched_def mdev_def fun_eq_iff)
  note D = at_workD [OF w]
  define v where "v = w\<lparr>w_io_if := (w_io_if w)(r := req_if FN_ocf_write_wb_do_flush_metadata)\<rparr>"
  have v: "at_work v r q m OCF_CACHE_LINE_ACCESS_WR" "w_cache v = w_cache w" "w_queue v = []" "w_cleaning v = []" "w_ctx v = w_ctx w"
    using io_if_work(1) [OF w] qu by (simp_all add: v_def)
  have e: "rq_error q = 0" "cl_resumed (ca_locks (w_cache w)) = []" using w D(2) by (simp_all add: at_work_def req_ready_def)
  have same: "q\<lparr>rq_req_remaining := 0, rq_error := 0\<rparr> = q\<lparr>rq_req_remaining := 0\<rparr>" using e(1) by simp
  let ?v = "(busy v r q 0 [] [] mm)\<lparr>w_queue := [r]\<rparr>"
  have "run_cb cb_wb r 0 (busy w r q 1 [] [] mm) = push_req_front_if r (req_if FN_ocf_write_wb_do_flush_metadata) (busy w r q 0 [] [] mm)"
    using D(3) e(1) by (simp add: ocf_write_wb_complete_def)
  also have "\<dots> = Some ?v"
    using D(3) qu(1) same by (simp add: push_req_front_if_def push_req_front_def set_error_def modr_def v_def) (simp add: busy_def)
  finally have push: "run_cb cb_wb r 0 (busy w r q 1 [] [] mm) = Some ?v" .
  have unq: "(busy v r q 0 [] [] mm)\<lparr>w_queue := []\<rparr> = busy v r q 0 [] [] mm" using v(3) by (simp add: busy_def)
  have fn: "w_io_if (busy v r q 0 [] [] mm) r = req_if FN_ocf_write_wb_do_flush_metadata" by (simp add: busy_def v_def)
  have nf: "r \<notin> set (w_freed v)" using D(3) by (simp add: v_def)
  obtain x where x: "ocf_write_wb_do_flush_metadata r (busy v r q 0 [] [] mm) = Some x" "settles (ends v r mm) x"
    using wb_flush [OF v(1), of 0 mm] lk ref v by auto
  have st: "step Run ?v = Some x"
    using x(1) unq nf fn wr by (simp add: run_fn_def req_if_def)
  have "settles (ends v r mm) ?v"
  proof (rule settles.going [of Run])
    show "offered Run ?v" by simp
    fix ch
    assume "offered ch ?v"
    then have "ch = Run" using e(2) v(2) by (cases ch) simp_all
    then show "\<exists>w'. step ch ?v = Some w' \<and> settles (ends v r mm) w'" using st x(2) by blast
  qed
  then have "settles (\<lambda>w'. \<exists>cd. ends w r (d, cd, w_coredev w) w' \<and> (\<forall>k < ?len. cd (addr k) = d k) \<and> (\<forall>a. a \<notin> addr ` {..<?len} \<longrightarrow> cd a = w_cachedev w a)) ?v"
    by (rule settles_mono) (use mm in \<open>auto simp: ends_def served_def meta_same_def v_def\<close>)
  then show "\<exists>w'. run_cb cb_wb r 0 (busy w r q 1 [] [] mm) = Some w' \<and> settles (\<lambda>w'. \<exists>cd. ends w r (d, cd, w_coredev w) w' \<and> (\<forall>k < ?len. cd (addr k) = d k) \<and>
      (\<forall>a. a \<notin> addr ` {..<?len} \<longrightarrow> cd a = w_cachedev w a)) w'" using push by blast
qed (auto simp: counting_def intro: writing_step [OF _ _ inj] untouched_step)

subsection \<open>Looking up a write\<close>

lemma lookup_info:
  assumes w: "at_work w r q m v" and mapped: "\<forall>i < rq_core_line_count q. coll_map (ca_coll (w_cache w)) (rq_core_id q, rq_core_line_first q + i) \<noteq> None"
    and info: "info_upto lg (w_cache w) (rq_core_line_count q) q'" and e: "\<forall>i < rq_core_line_count q. ent q' i = Some (lookup_of (w_cache w) q i)" and k: "kept q q'"
    and i: "i < rq_core_line_count q"
  shows "coll_map (ca_coll (w_cache w)) (rq_core_id q, rq_core_line_first q + i) = Some (line_of q' i)"
    "\<exists>l. ent q' i = Some (LOOKUP_HIT, line_of q' i, l)"
    "ocf_engine_is_dirty_all q' \<Longrightarrow> sect (w_cache w) q' i \<subseteq> sec_dirty (w_cache w) (line_of q' i)"
    "ri_dirty_any (rq_info q') = 0 \<Longrightarrow> sec_dirty (w_cache w) (line_of q' i) = {}"
proof -
  let ?c = "w_cache w" and ?n = "rq_core_line_count q"
  obtain P L F where core: "cache_core ?c P L F" using w by (auto simp: at_work_def cache_rep_def)
  have sz: "sm_entries (ca_status ?c) = ca_entries ?c" using at_work_sizes [OF w] by (simp add: cache_sizes_def)
  note wf = cache_coreD(2) [OF core] and K = kept_fields [OF k]
  obtain x where x: "coll_map (ca_coll ?c) (rq_core_id q, rq_core_line_first q + i) = Some x" using mapped i by blast
  have ex: "ent q' i = Some (LOOKUP_HIT, x, rq_core_line_first q + i)" using e i x by (simp add: lookup_of_def)
  have lx: "line_of q' i = x" by (rule lookup_points(2) [OF e [rule_format, OF i] K(1,3) x])
  show "coll_map (ca_coll ?c) (rq_core_id q, rq_core_line_first q + i) = Some (line_of q' i)" "\<exists>l. ent q' i = Some (LOOKUP_HIT, line_of q' i, l)" using x ex lx by simp_all
  have xe: "x < ca_entries ?c" by (rule coll_map_range(2) [OF core x])
  have hit: "entry_hits q' i y \<longleftrightarrow> y = x" for y using ex by (auto simp: entry_hits_def ent_def)
  have any: "metadata_test_dirty (ca_status ?c) x = Some (sec_dirty ?c x \<noteq> {})" using metadata_test_any_sem(1) [OF wf] xe sz by simp
  have rng: "ocf_map_line_start_sector (ca_line ?c) q' i \<le> ocf_map_line_end_sector (ca_line ?c) q' i" "ocf_map_line_end_sector (ca_line ?c) q' i < LENGTH('a)"
    using at_workD(7) [OF w] i unfolding kept_sectors [OF k] req_ok_def by blast+
  have ok: "sec_ok (ca_status ?c) x (ocf_map_line_start_sector (ca_line ?c) q' i) (ocf_map_line_end_sector (ca_line ?c) q' i)"
    using wf xe sz rng by (simp add: sec_ok_def status_wf_def)
  show "sect ?c q' i \<subseteq> sec_dirty ?c (line_of q' i)" if all: "ocf_engine_is_dirty_all q'"
  proof -
    let ?A = "{i. i < ?n \<and> (\<exists>x. entry_hits q' i x \<and> metadata_test_dirty (ca_status ?c) x = Some True \<and>
      metadata_test_dirty_all_sec (ca_status ?c) x (ocf_map_line_start_sector (ca_line ?c) q' i) (ocf_map_line_end_sector (ca_line ?c) q' i) = Some True)}"
    have "ri_dirty_all (rq_info q') = card ?A" using info unfolding info_upto_def by blast
    then have "card ?A = card {..<?n}" using all K(5) by (simp add: ocf_engine_is_dirty_all_def)
    then have "?A = {..<?n}" by (intro card_subset_eq) auto
    then have "i \<in> ?A" using i by blast
    then show ?thesis using hit ocf_metadata_test_sem [OF ok, of Dirty True] unfolding lx by (auto simp: metadata_test_dirty_all_sec_def sect_def)
  qed
  show "sec_dirty ?c (line_of q' i) = {}" if "ri_dirty_any (rq_info q') = 0"
  proof -
    let ?A = "{i. i < ?n \<and> (\<exists>x. entry_hits q' i x \<and> metadata_test_dirty (ca_status ?c) x = Some True)}"
    have "card ?A = 0" using info that unfolding info_upto_def by simp
    then have "?A = {}" by simp
    then show ?thesis using i hit any unfolding lx by auto
  qed
qed

lemma wr_lookup:
  assumes w: "at_work w r q m 0" and mapped: "\<forall>i < rq_core_line_count q. coll_map (ca_coll (w_cache w)) (rq_core_id q, rq_core_line_first q + i) \<noteq> None"
  obtains w' q' m' where "req_hash_traverse r w = Some w'" "at_work w' r q' m' 0" "env_same w w'" "meta_same w w'" "w_io w' = w_io w" "kept q q'"
    "ocf_engine_is_mapped q'" "\<not> ri_mapping_error (rq_info q')" "prepared w' q'" "lockable (ca_locks (w_cache w')) (rq_core_line_count q') m'"
proof -
  obtain w' q' m' where t: "req_hash_traverse r w = Some w'" "at_work w' r q' m' 0" "env_same w w'" "meta_same w w'" "w_io w' = w_io w" "kept q q'"
    "info_upto (cf_lg2phy (w_cfg w)) (w_cache w) (rq_core_line_count q) q'"
    "\<forall>i < rq_core_line_count q. ent q' i = Some (lookup_of (w_cache w) q i)" "\<not> ri_mapping_error (rq_info q')"
    "ocf_engine_is_hit q' \<longleftrightarrow> (\<forall>i < rq_core_line_count q. \<exists>x. coll_map (ca_coll (w_cache w)) (rq_core_id q, rq_core_line_first q + i) = Some x \<and>
       all_valid (w_cache w) q i x)"
    "ocf_engine_is_mapped q' \<longleftrightarrow> (\<forall>i < rq_core_line_count q. coll_map (ca_coll (w_cache w)) (rq_core_id q, rq_core_line_first q + i) \<noteq> None)"
    by (rule lookup_work [OF w])
  note K = kept_fields [OF t(6)] and I = lookup_info [OF w mapped t(7,8,6)]
  have c: "ca_coll (w_cache w') = ca_coll (w_cache w)" "ca_status (w_cache w') = ca_status (w_cache w)" "ca_line (w_cache w') = ca_line (w_cache w)" "w_cfg w' = w_cfg w"
    using t(3,4) at_workD(2) [OF w] at_workD(2) [OF t(2)] by (simp_all add: meta_same_def env_same_def req_ready_def)
  have S: "sect (w_cache w') q' i = sect (w_cache w) q' i" for i by (simp add: sect_def c(3))
  have p: "points (w_cache w') q' i" if "i < rq_core_line_count q'" for i
    using lookup_points(1) [OF t(8) [rule_format] K(1,3), of i] that K(5) c(1) by (simp add: points_def)
  have am: "all_mapped (w_cache w') q'" using I(1) c(1) K by (simp add: all_mapped_def)
  have hit: "sect (w_cache w) q' i \<subseteq> sec_valid (w_cache w) (line_of q' i)" if h: "ocf_engine_is_hit q'" and "i < rq_core_line_count q'" for i
  proof -
    have i: "i < rq_core_line_count q" using that(2) K(5) by simp
    then obtain x where "coll_map (ca_coll (w_cache w)) (rq_core_id q, rq_core_line_first q + i) = Some x" "all_valid (w_cache w) q i x" using t(10) h by blast
    then show ?thesis using I(1) [OF i] by (simp add: all_valid_def sect_def kept_sectors [OF t(6)])
  qed
  have info: "ri_seq_req (rq_info q') \<longrightarrow> seq_upto (cf_lg2phy (w_cfg w)) q' (rq_core_line_count q)" "\<not> ri_flush_metadata (rq_info q') \<and> \<not> ri_core_error (rq_info q')"
    using t(7) unfolding info_upto_def by blast+
  have "prepared w' q'"
    unfolding prepared_def S c K(5)
    using am p [unfolded K(5)] I(2) hit [unfolded K(5)] I(3,4) info by (intro conjI) (blast | fastforce)+
  moreover have "ocf_engine_is_mapped q'" using t(11) mapped by blast
  ultimately show thesis using that [OF t(1-6)] t(9) points_lockable [OF t(2) p] by blast
qed

subsection \<open>Submitting a write\<close>

text \<open>Marks of entries and the counters of the request change neither the lines of the request nor what the lookup says of them.\<close>

lemma marks_aside:
  assumes mk: "marks q q2" and as: "aside q2 q3" and i: "rq_info q3 = rq_info q2" and a: "all_mapped c q" "\<forall>i < rq_core_line_count q. points c q i" and c: "ca_coll c' = ca_coll c"
    and s: "ri_seq_req (rq_info q) \<longrightarrow> seq_upto lg q (rq_core_line_count q)"
  shows "all_mapped c' q3" "\<And>i. i < rq_core_line_count q3 \<Longrightarrow> points c' q3 i" "byte_addr cf q3 = byte_addr cf q" "rq_byte_length q3 = rq_byte_length q"
    "ri_seq_req (rq_info q3) \<Longrightarrow> seq_upto lg q3 (rq_core_line_count q3)" "rq_core_line_count q3 = rq_core_line_count q" "rq_rw q3 = rq_rw q" "rq_core_id q3 = rq_core_id q" "rq_byte_position q3 = rq_byte_position q"
proof -
  obtain info n k where q3: "q3 = q2\<lparr>rq_info := info, rq_ref_count := n, rq_req_remaining := k\<rparr>" using as by (auto simp: aside_def)
  have kp: "kept q q2" and e2: "\<And>i. ent q2 i = ent q i" using mk by (simp_all add: marks_def)
  note K = kept_fields [OF kp]
  have e: "ent q3 i = ent q i" for i using e2 [of i] by (simp add: q3 ent_def req_entry_def)
  note E = ent_line [of q3 q, OF e]
  show "all_mapped c' q3" using a(1) c E(1) K by (simp add: all_mapped_def q3)
  show "points c' q3 i" if "i < rq_core_line_count q3" for i using a(2) that e [of i] c K by (simp add: points_def q3)
  show "byte_addr cf q3 = byte_addr cf q" using E(1) K by (simp add: fun_eq_iff byte_addr_def byte_line_def q3)
  show "rq_byte_length q3 = rq_byte_length q" "rq_core_line_count q3 = rq_core_line_count q" "rq_rw q3 = rq_rw q" "rq_core_id q3 = rq_core_id q"
    "rq_byte_position q3 = rq_byte_position q" using K by (simp_all add: q3)
  have "ri_seq_req (rq_info q2) = ri_seq_req (rq_info q)" using mk by (auto simp: marks_def)
  then show "seq_upto lg q3 (rq_core_line_count q3)" if "ri_seq_req (rq_info q3)" using s that i E(2) K(5) by (simp add: q3)
qed

lemma aside_upd: "aside q (q\<lparr>rq_ref_count := n\<rparr>)" "aside q (q\<lparr>rq_req_remaining := k\<rparr>)" "aside q (q\<lparr>rq_ref_count := n, rq_req_remaining := k\<rparr>)"
  unfolding aside_def
  by (rule exI [of _ "rq_info q"], rule exI [of _ n], rule exI [of _ "rq_req_remaining q"], simp)
    (rule exI [of _ "rq_info q"], rule exI [of _ "rq_ref_count q"], rule exI [of _ k], simp,
     rule exI [of _ "rq_info q"], rule exI [of _ n], rule exI [of _ k], simp)

lemma prepared_get:
  assumes "prepared w q"
  shows "prepared (putr r (q\<lparr>rq_ref_count := n\<rparr>) w) (q\<lparr>rq_ref_count := n\<rparr>)"
  by (rule prepared_same [OF assms]) (simp_all add: ent_def req_entry_def)

text \<open>The statistics and the two references that are given back at the end of a submission.\<close>

lemma stats_puts:
  assumes w: "at_work w r q m v" and ref: "rq_ref_count q = 3"
  obtains w' where "(update_request_stats r w \<bind> (\<lambda>w. update_block_stats r w \<bind> (\<lambda>w. req_put r w \<bind> req_put r))) = Some w'"
    "at_work w' r (q\<lparr>rq_ref_count := 1\<rparr>) m v" "env_same w w'" "meta_same w w'" "st_ios (w_io w') = st_ios (w_io w)"
proof -
  obtain w4 where w4: "update_request_stats r w = Some w4" "counted_in w w4" using stats_work(1) [OF w] by blast
  note C4 = counted_in_work [OF w4(2) w]
  obtain w5 where w5: "update_block_stats r w4 = Some w5" "counted_in w4 w5" using stats_work(2) [OF C4(1)] by blast
  note C5 = counted_in_work [OF w5(2) C4(1)]
  define w6 where "w6 = putr r (q\<lparr>rq_ref_count := 2\<rparr>) w5"
  have w6: "req_put r w5 = Some w6" "at_work w6 r (q\<lparr>rq_ref_count := 2\<rparr>) m v" using put_work [OF C5(1)] ref by (simp_all add: w6_def)
  have w7: "req_put r w6 = Some (putr r (q\<lparr>rq_ref_count := 1\<rparr>) w6)" "at_work (putr r (q\<lparr>rq_ref_count := 1\<rparr>) w6) r (q\<lparr>rq_ref_count := 1\<rparr>) m v"
    using put_work [OF w6(2)] by simp_all
  have s: "env_same w w5" "meta_same w w5" using env_same_trans(1) [OF C4(2) C5(2)] env_same_trans(2) [OF C4(3) C5(3)] .
  have "env_same w (putr r (q\<lparr>rq_ref_count := 1\<rparr>) w6)" "meta_same w (putr r (q\<lparr>rq_ref_count := 1\<rparr>) w6)"
    using s by (simp_all add: w6_def env_same_def meta_same_def)
  then show thesis using that [OF _ w7(2)] w4(1) w5(1) w6(1) w7(1) C4(4) C5(4) by (simp add: w6_def)
qed

lemma wb_do:
  assumes w: "at_work w r q m v" and pr: "prepared w q" and lk: "lockable (ca_locks (w_cache w)) (rq_core_line_count q) m"
    and ref: "rq_ref_count q = 2" and none: "st_ios (w_io w) = []"
  obtains w' q2 q' m' ios where "(ocf_write_wb_do r w \<bind> req_put r) = Some w'" "at_work w' r q' m' v" "env_same w w'" "bits_to w q (\<union>) w'"
    "lockable (ca_locks (w_cache w')) (rq_core_line_count q') m'" "q' = q2\<lparr>rq_ref_count := 1, rq_req_remaining := int (length ios)\<rparr>" "marks (q\<lparr>rq_ref_count := 3\<rparr>) q2"
    "st_ios (w_io w') = ios" "ios \<noteq> []" "carries (byte_addr (w_cfg w) q) 0 (rq_byte_length q) ios" "data_ios cb_wb r OCF_WRITE CacheVolume ios"
proof -
  define q1 w1 where "q1 = q\<lparr>rq_ref_count := 3\<rparr>" and "w1 = putr r q1 w"
  have g: "req_get r w = Some w1" "at_work w1 r q1 m v" using get_work [OF w] ref by (simp_all add: w1_def q1_def)
  have pr1: "prepared w1 q1" using prepared_get [OF pr] by (simp add: w1_def q1_def)
  have lk1: "lockable (ca_locks (w_cache w1)) (rq_core_line_count q1) m" using lk by (simp add: w1_def q1_def lockable_def)
  have s1: "env_same w w1" "w_io w1 = w_io w" by (simp_all add: w1_def)
  have T: "touched (w_cache w1) q1 n = touched (w_cache w) q n" for n
    by (simp add: touched_def sect_def fun_eq_iff w1_def q1_def line_of_def req_entry_def)
  obtain w2 q2 m2 where w2: "ocf_write_wb_update_bits r w1 = Some w2" "at_work w2 r q2 m2 v" "marks q1 q2" "env_same w1 w2" "w_io w2 = w_io w1"
    "lockable (ca_locks (w_cache w2)) (rq_core_line_count q2) m2" "bits_to w1 q1 (\<union>) w2"
    by (rule wb_bits [OF g(2) pr1 lk1])
  define q3 w3 where "q3 = q2\<lparr>rq_req_remaining := int (ocf_engine_io_count q2)\<rparr>" and "w3 = putr r q3 w2"
  have w3: "set_remaining r (int (ocf_engine_io_count q2)) w2 = Some w3" "at_work w3 r q3 m2 v" using remaining_work [OF w2(2)] by (simp_all add: w3_def q3_def)
  have as3: "aside q2 q3" "rq_info q3 = rq_info q2" unfolding q3_def by (rule aside_upd(2)) simp
  have c2: "ca_coll (w_cache w2) = ca_coll (w_cache w1)" "w_cfg w2 = w_cfg w1" using w2(7) by (simp_all add: bits_to_def)
  have pr1': "all_mapped (w_cache w1) q1" "\<forall>i < rq_core_line_count q1. points (w_cache w1) q1 i" "ri_seq_req (rq_info q1) \<longrightarrow> seq_upto (cf_lg2phy (w_cfg w1)) q1 (rq_core_line_count q1)"
    using pr1 unfolding prepared_def by blast+
  have c3: "ca_coll (w_cache w3) = ca_coll (w_cache w1)" using c2 by (simp add: w3_def)
  note A = marks_aside [OF w2(3) as3 pr1'(1,2) _ pr1'(3)]
  obtain w4 where w4: "re_part r w3 = Some w4" "at_work w4 r q3 m2 v" "env_same w3 w4" "meta_same w3 w4" "w_io w4 = w_io w3" "ca_locks (w_cache w4) = ca_locks (w_cache w3)"
    using re_part_work [OF w3(2) A(2) [OF c3]] by metis
  have c4: "ca_coll (w_cache w4) = ca_coll (w_cache w1)" "w_cfg w4 = w_cfg w1" using c2 c3 w4(3,4) by (simp_all add: meta_same_def env_same_def w3_def)
  have wr: "OCF_WRITE < 2" by (simp add: OCF_WRITE_def)
  obtain s ios where s: "submit_cache_reqs r OCF_WRITE 0 (rq_byte_length q3) (ocf_engine_io_count q3) cb_wb w4 = Some (w4\<lparr>w_io := s\<rparr>)"
    "at_work (w4\<lparr>w_io := s\<rparr>) r q3 m2 v" "submitted (w_io w4) ios s" "length ios = ocf_engine_io_count q3"
    "carries (byte_addr (w_cfg w4) q3) 0 (rq_byte_length q3) ios" "data_ios cb_wb r OCF_WRITE CacheVolume ios"
    by (rule submit_cache_work [OF w4(2) A(1) [OF c4(1)] wr]) (use A(5) [OF c3] c4(2) in auto)
  have q3s: "rq_byte_length q3 = rq_byte_length q2" "ocf_engine_io_count q3 = ocf_engine_io_count q2" "rq_ref_count q3 = 3"
    using kept_fields(9) [of q1 q2] w2(3) by (simp_all add: q3_def ocf_engine_io_count_def q1_def marks_def)
  obtain w5 where w5: "(update_request_stats r (w4\<lparr>w_io := s\<rparr>) \<bind> (\<lambda>w. update_block_stats r w \<bind> (\<lambda>w. req_put r w \<bind> req_put r))) = Some w5"
    "at_work w5 r (q3\<lparr>rq_ref_count := 1\<rparr>) m2 v" "env_same (w4\<lparr>w_io := s\<rparr>) w5" "meta_same (w4\<lparr>w_io := s\<rparr>) w5" "st_ios (w_io w5) = st_ios (w_io (w4\<lparr>w_io := s\<rparr>))"
    by (rule stats_puts [OF s(2) q3s(3)])
  have sub: "ocf_write_wb_submit r w2 = Some (w4\<lparr>w_io := s\<rparr>)"
    using at_workD(1) [OF w2(2)] w3(1) w4(1) s(1) q3s by (simp add: ocf_write_wb_submit_def)
  have run: "(ocf_write_wb_do r w \<bind> req_put r) = Some w5" using g(1) w2(1) sub w5(1) by (simp add: ocf_write_wb_do_def)
  have env: "env_same w w5" using s1(1) w2(4) w4(3) w5(3) by (simp add: env_same_def w3_def)
  have "meta_same w2 w5" using w4(4) w5(4) by (simp add: meta_same_def w3_def)
  then have "bits_to w1 q1 (\<union>) w5" by (rule bits_to_same [OF w2(7)]) (use w4(3) w5(3) in \<open>simp add: env_same_def w3_def\<close>)
  then have bits: "bits_to w q (\<union>) w5" unfolding bits_to_def T by (simp add: w1_def q1_def)
  have lk5: "lockable (ca_locks (w_cache w5)) (rq_core_line_count (q3\<lparr>rq_ref_count := 1\<rparr>)) m2"
    using w2(6) at_workD(8) [OF w5(2)] at_workD(8) [OF w2(2)] \<open>meta_same w2 w5\<close> by (simp add: lockable_def q3_def meta_same_def)
  have ios: "st_ios (w_io w5) = ios" using w5(5) s(3) w4(5) w2(5) s1(2) none by (simp add: w3_def submitted_def)
  have addr: "byte_addr (w_cfg w4) q3 = byte_addr (w_cfg w) q"
  proof -
    have "w_cfg w4 = w_cfg w" using c4(2) by (simp add: w1_def)
    moreover have "byte_addr cf q1 = byte_addr cf q" for cf by (simp add: fun_eq_iff byte_addr_def byte_line_def q1_def line_of_def req_entry_def)
    ultimately show ?thesis using A(3) [OF c3] by simp
  qed
  have car: "carries (byte_addr (w_cfg w) q) 0 (rq_byte_length q) ios" using s(5) addr A(4) [OF c3] by (simp add: q1_def)
  have "0 < length ios" using s(4) at_workD(7) [OF s(2)] by (simp add: ocf_engine_io_count_def req_ok_def)
  then have ne: "ios \<noteq> []" by simp
  have q': "q3\<lparr>rq_ref_count := 1\<rparr> = q2\<lparr>rq_ref_count := 1, rq_req_remaining := int (length ios)\<rparr>" using s(4) q3s(2) by (simp add: q3_def)
  show thesis by (rule that [OF run w5(2) env bits lk5 q' w2(3) [unfolded q1_def] ios ne car s(6)])
qed

subsection \<open>Storing the data\<close>

definition lines_mapped :: "'w::len world \<Rightarrow> ocf_request \<Rightarrow> bool" where
  "lines_mapped w q \<longleftrightarrow> (\<forall>i < rq_core_line_count q. coll_map (ca_coll (w_cache w)) (rq_core_id q, rq_core_line_first q + i) \<noteq> None)"

text \<open>The first half of both writes: the lines are found and write-locked.\<close>

lemma wr_start:
  assumes new: "fresh w r q" and mapped: "lines_mapped w q" and lt: "\<And>q. lock_type q = ocf_engine_lock_write"
  obtains w0 w3 q3 m3 where "req_get r w = Some w0" "ocf_engine_prepare_clines lock_type r (w0\<lparr>w_io_if := (w_io_if w0)(r := f)\<rparr>) = Some (OCF_LOCK_ACQUIRED, w3)"
    "at_work w3 r q3 m3 OCF_CACHE_LINE_ACCESS_WR" "env_same w w3" "meta_same w w3" "prepared w3 q3" "lockable (ca_locks (w_cache w3)) (rq_core_line_count q3) m3"
    "rq_ref_count q3 = 2" "st_ios (w_io w3) = []" "mapping_error r w3 = Some False" "can_free (w_ctx w) q3"
    "rq_core_id q3 = rq_core_id q" "rq_byte_position q3 = rq_byte_position q" "rq_byte_length q3 = rq_byte_length q" "rq_rw q3 = rq_rw q"
proof -
  define q1 where "q1 = q\<lparr>rq_ref_count := 2\<rparr>"
  define w1 where "w1 = (putr r q1 w)\<lparr>w_io_if := (w_io_if (putr r q1 w))(r := f)\<rparr>"
  obtain m where g: "req_get r w = Some (putr r q1 w)" and w1: "at_work w1 r q1 m 0" "env_same w w1" "meta_same w w1"
    unfolding w1_def q1_def putr_fields by (rule fresh_get [OF new])
  have n: "quiet w" "can_free (w_ctx w) q" and io1: "w_io w1 = w_io w" using new by (simp_all add: fresh_def w1_def)
  have mp: "\<forall>i < rq_core_line_count q1. coll_map (ca_coll (w_cache w1)) (rq_core_id q1, rq_core_line_first q1 + i) \<noteq> None"
    using mapped w1(3) unfolding lines_mapped_def meta_same_def by (simp add: q1_def)
  obtain w2 q2 m2 where t: "req_hash_traverse r w1 = Some w2" "at_work w2 r q2 m2 0" "env_same w1 w2" "meta_same w1 w2" "w_io w2 = w_io w1" "kept q1 q2"
    "ocf_engine_is_mapped q2" "\<not> ri_mapping_error (rq_info q2)" "prepared w2 q2" "lockable (ca_locks (w_cache w2)) (rq_core_line_count q2) m2"
    by (rule wr_lookup [OF w1(1) mp])
  note K = kept_fields [OF t(6)]
  define w2' where "w2' = w2\<lparr>w_resume := (w_resume w2)(r := RESUME_ocf_engine_on_resume)\<rparr>"
  have w2': "at_work w2' r q2 m2 0" "w_cache w2' = w_cache w2" "w_cfg w2' = w_cfg w2" "env_same w2 w2'" "meta_same w2 w2'" "w_io w2' = w_io w2"
    using io_if_work(2) [OF t(2)] by (simp_all add: w2'_def)
  define w3 q3 where "w3 = hold r q2 m2 OCF_CACHE_LINE_ACCESS_WR w2'" and "q3 = q2\<lparr>rq_map := Some (marked OCF_CACHE_LINE_ACCESS_WR (rq_core_line_count q2) m2)\<rparr>"
  note H = hold_work [OF w2'(1), of OCF_CACHE_LINE_ACCESS_WR, folded w3_def q3_def]
  have lock: "lock_clines lock_type r w2 = Some (OCF_LOCK_ACQUIRED, w3)"
    using at_workD(1) [OF t(2)] lock_work(2) [OF t(2,10)] lt by (simp add: lock_clines_def w3_def w2'_def)
  have prep: "ocf_engine_prepare_clines lock_type r w1 = Some (OCF_LOCK_ACQUIRED, w3)"
    using t(1,7) at_workD(1) [OF t(2)] lock by (simp add: ocf_engine_prepare_clines_def)
  have "q2\<lparr>rq_map := Some m2\<rparr> = q2" using at_workD(4) [OF t(2)] by simp
  then have e: "ent q3 i = ent q2 i" for i unfolding q3_def ent_hold by simp
  have env: "env_same w w3" using w1(2) t(3) w2'(4) H(2) env_same_trans(1) by blast
  have meta: "meta_same w w3" using w1(3) t(4) w2'(5) H(3) env_same_trans(2) by blast
  have m23: "meta_same w2 w3" using w2'(5) H(3) env_same_trans(2) by blast
  have c23: "w_cfg w3 = w_cfg w2" using w2'(4) H(2) by (simp add: env_same_def)
  have "ca_line (w_cache w3) = ca_line (w_cache w2)" using at_workD(2) [OF H(1)] at_workD(2) [OF t(2)] c23 by (simp add: req_ready_def)
  then have pr: "prepared w3 q3" by (rule prepared_same [OF t(9) m23 c23 _ e]) (simp_all add: q3_def)
  have lk: "lockable (ca_locks (w_cache w3)) (rq_core_line_count q3) m2" using t(10) w2'(2) by (simp add: w3_def hold_def lockable_def q3_def)
  have ios: "st_ios (w_io w3) = []" using H(4) w2'(6) t(5) io1 n(1) by (simp add: quiet_def)
  have me: "mapping_error r w3 = Some False" using at_workD(1) [OF H(1)] t(8) by (simp add: mapping_error_def q3_def)
  have cf: "can_free (w_ctx w) q3" using n(2) K by (simp add: can_free_def q3_def q1_def)
  show thesis
    by (rule that [OF g prep [unfolded w1_def] H(1) env meta pr lk _ ios me cf]) (use K in \<open>simp_all add: q3_def q1_def\<close>)
qed

text \<open>What both writes promise in the end.\<close>

definition wrote :: "'w::len world \<Rightarrow> nat \<Rightarrow> ocf_request \<Rightarrow> (nat \<Rightarrow> byte) \<Rightarrow> 'w world \<Rightarrow> bool" where
  "wrote w r q d w' \<longleftrightarrow> served w r d w' \<and> (\<forall>core a. content w' core a = (if inside q core a then d (a - rq_byte_position q) else content w core a)) \<and>
     (coherent w \<longrightarrow> coherent w')"

text \<open>
  C1. A write-back write stores its data in the cache. Let the system be quiet, a new write be ready in it, and a cache line be mapped for every core line of the request,
  cached in whole, in part or not at all. Then the write runs without a failing assertion up to the submission of its I/Os. Whatever order the device and the metadata flush
  complete in, the system comes to rest. The request has then been completed exactly once, without an error, and it has been freed. No line stays locked and the metadata is sound.
  The content of the core is the data of the request where the request reaches, and the content of every core is what it was everywhere else. No core device has changed. Cached
  bytes that are not dirty are the same as on the core, if they were before.
\<close>

theorem write_wb_stores:
  fixes w :: "'w::len world"
  assumes new: "fresh w r q" and wr: "rq_rw q = OCF_WRITE" and d: "w_data w r = Some d" and mapped: "lines_mapped w q"
  shows "\<exists>w1. ocf_write_wb r w = Some w1 \<and> settles (\<lambda>w'. wrote w r q d w' \<and> w_coredev w' = w_coredev w) w1"
proof -
  have lt: "ocf_wb_get_lock_type q = ocf_engine_lock_write" for q by (simp add: ocf_wb_get_lock_type_def)
  obtain w0 w3 q3 m3 where t: "req_get r w = Some w0"
    "ocf_engine_prepare_clines ocf_wb_get_lock_type r (w0\<lparr>w_io_if := (w_io_if w0)(r := req_if FN_ocf_write_wb_do)\<rparr>) = Some (OCF_LOCK_ACQUIRED, w3)"
    "at_work w3 r q3 m3 OCF_CACHE_LINE_ACCESS_WR" "env_same w w3" "meta_same w w3" "prepared w3 q3" "lockable (ca_locks (w_cache w3)) (rq_core_line_count q3) m3"
    "rq_ref_count q3 = 2" "st_ios (w_io w3) = []" "mapping_error r w3 = Some False" "can_free (w_ctx w) q3"
    "rq_core_id q3 = rq_core_id q" "rq_byte_position q3 = rq_byte_position q" "rq_byte_length q3 = rq_byte_length q" "rq_rw q3 = rq_rw q"
    by (rule wr_start [OF new mapped lt])
  obtain w4 q2 q4 m4 ios where f: "(ocf_write_wb_do r w3 \<bind> req_put r) = Some w4" "at_work w4 r q4 m4 OCF_CACHE_LINE_ACCESS_WR" "env_same w3 w4" "bits_to w3 q3 (\<union>) w4"
    "lockable (ca_locks (w_cache w4)) (rq_core_line_count q4) m4" "q4 = q2\<lparr>rq_ref_count := 1, rq_req_remaining := int (length ios)\<rparr>" "marks (q3\<lparr>rq_ref_count := 3\<rparr>) q2"
    "st_ios (w_io w4) = ios" "ios \<noteq> []" "carries (byte_addr (w_cfg w3) q3) 0 (rq_byte_length q3) ios" "data_ios cb_wb r OCF_WRITE CacheVolume ios"
    by (rule wb_do [OF t(3,6,7,8,9)])
  have run: "ocf_write_wb r w = Some w4"
    using t(1,2,10) f(1) by (simp add: ocf_write_wb_def after_prepare_def after_lock_def OCF_LOCK_ACQUIRED_def)
  note K = kept_fields [of "q3\<lparr>rq_ref_count := 3\<rparr>" q2]
  have k: "kept (q3\<lparr>rq_ref_count := 3\<rparr>) q2" using f(7) by (simp add: marks_def)
  have len: "rq_byte_length q4 = rq_byte_length q3" "rq_rw q4 = OCF_WRITE" using K [OF k] t(15) wr by (simp_all add: f(6))
  have env: "env_same w w4" using t(4) f(3) env_same_trans(1) by blast
  have cf: "can_free (w_ctx w4) q4" using t(11) env K [OF k] by (simp add: can_free_def f(6) env_same_def)
  have quiet: "quiet w" using new by (simp add: fresh_def)
  have qu: "w_queue w4 = []" "w_flushes w4 = []" "w_cleaning w4 = []" "w_data w4 r = Some d" using d quiet env by (simp_all add: quiet_def env_same_def)
  have am: "all_mapped (w_cache w3) q3" using t(6) by (simp add: prepared_def)
  have inj: "inj_on (byte_addr (w_cfg w3) q3) {..<rq_byte_length q4}" unfolding len by (rule all_mapped_lines(4) [OF t(3) am])
  have fin: "settles (\<lambda>w'. \<exists>cd. ends w4 r (d, cd, w_coredev w4) w' \<and> (\<forall>k < rq_byte_length q4. cd (byte_addr (w_cfg w3) q3 k) = d k) \<and>
      (\<forall>a. a \<notin> byte_addr (w_cfg w3) q3 ` {..<rq_byte_length q4} \<longrightarrow> cd a = w_cachedev w4 a)) w4"
    by (rule wb_settles [OF f(2,5) _ cf qu len(2) inj _ f(11,8)]) (use f(6,9,10) len in simp_all)
  have dev: "w_cachedev w4 = w_cachedev w3" "w_coredev w4 = w_coredev w3" using f(3) by (simp_all add: env_same_def)
  have con: "content w3 = content w" "coherent w3 = coherent w" using t(4,5) by (intro content_same; simp add: env_same_def meta_same_def)+
  have ins: "inside q3 = inside q" by (simp add: inside_def fun_eq_iff t(12-14))
  have "settles (\<lambda>w'. wrote w r q d w' \<and> w_coredev w' = w_coredev w) w4"
  proof (rule settles_mono [OF fin])
    fix w'
    assume "\<exists>cd. ends w4 r (d, cd, w_coredev w4) w' \<and> (\<forall>k < rq_byte_length q4. cd (byte_addr (w_cfg w3) q3 k) = d k) \<and>
      (\<forall>a. a \<notin> byte_addr (w_cfg w3) q3 ` {..<rq_byte_length q4} \<longrightarrow> cd a = w_cachedev w4 a)"
    then have x: "served w4 r d w'" "meta_same w4 w'" "w_coredev w' = w_coredev w3" "\<forall>k < rq_byte_length q3. w_cachedev w' (byte_addr (w_cfg w3) q3 k) = d k"
      "\<forall>a. a \<notin> byte_addr (w_cfg w3) q3 ` {..<rq_byte_length q3} \<longrightarrow> w_cachedev w' a = w_cachedev w3 a"
      by (auto simp: ends_def dev len)
    have b: "bits_to w3 q3 (\<union>) w'" by (rule bits_to_same [OF f(4) x(2)]) (use x(1) in \<open>simp add: served_def\<close>)
    have kd: "\<forall>core a. \<not> inside q3 core a \<longrightarrow> w_coredev w' core a = w_coredev w3 core a" using x(3) by simp
    note S = stored [OF t(3) am b x(4,5) kd disjI1 [OF refl]]
    have "served w r d w'" using x(1) env by (simp add: served_def env_same_def)
    moreover have "w_coredev w' = w_coredev w" using x(3) t(4) by (simp add: env_same_def)
    ultimately show "wrote w r q d w' \<and> w_coredev w' = w_coredev w" using S unfolding wrote_def con ins t(13) by blast
  qed
  then show ?thesis using run by blast
qed

lemma sample_mapped: "lines_mapped (sample_world rw) (sample_req rw)"
  unfolding lines_mapped_def using sample_coll by (simp add: sample_req_def request_zero_def)

lemma sample_write: "rq_rw (sample_req 1) = OCF_WRITE" "w_data (sample_world 1) 0 = Some (\<lambda>_. 0)" "\<not> inside (sample_req 1) 0 4607" "inside (sample_req 1) 0 4608"
  by (simp_all add: sample_req_def sample_world_def OCF_WRITE_def inside_def request_zero_def)

theorem write_wb_stores_witness:
  "\<exists>w1. ocf_write_wb 0 (sample_world 1) = Some w1 \<and> settles (\<lambda>w'. wrote (sample_world 1) 0 (sample_req 1) (\<lambda>_. 0) w' \<and> w_coredev w' = w_coredev (sample_world 1)) w1 \<and>
    content (sample_world 1) 0 4608 = 1 \<and> \<not> inside (sample_req 1) 0 4607 \<and> inside (sample_req 1) 0 4608"
proof -
  have "content (sample_world 1) 0 4608 = 1"
    using sample_cached [of 0 1] by (simp add: content_def line_byte_def) (simp add: sample_world_def sample_cfg_def ocf_line_size_def example_cache_def)
  then show ?thesis using write_wb_stores [OF sample_fresh sample_write(1,2) sample_mapped] sample_write(3,4) by simp
qed

subsection \<open>Write-through\<close>

text \<open>Both devices are being written: every byte is on its way to either, or has arrived.\<close>

lemma wt_settles:
  assumes w: "at_work w r q m OCF_CACHE_LINE_ACCESS_WR" and lk: "lockable (ca_locks (w_cache w)) (rq_core_line_count q) m"
    and ref: "rq_ref_count q = 1" "can_free (w_ctx w) q" and qu: "w_queue w = []" "w_cleaning w = []" and d: "w_data w r = Some d"
    and inj: "inj_on addr {..<rq_byte_length q}"
    and fls: "w_flushes w = fls" "\<forall>f \<in> set fls. f = (r, cb_wt_cache)"
    and ios: "carries addr 0 (rq_byte_length q) cios" "data_ios cb_wt_cache r OCF_WRITE CacheVolume cios"
      "carries ((+) p) 0 (rq_byte_length q) kios" "data_ios cb_wt_core r OCF_WRITE (CoreVolume core) kios" "st_ios (w_io w) = cios @ kios"
      "rq_req_remaining q = int (length (cios @ kios) + length fls)" "cios \<noteq> []"
  shows "settles (\<lambda>w'. \<exists>cd kd. ends w r (d, cd, kd) w' \<and> (\<forall>k < rq_byte_length q. cd (addr k) = d k \<and> kd core (p + k) = d k) \<and>
    (\<forall>a. a \<notin> addr ` {..<rq_byte_length q} \<longrightarrow> cd a = w_cachedev w a) \<and>
    (\<forall>k a. \<not> (k = core \<and> p \<le> a \<and> a < p + rq_byte_length q) \<longrightarrow> kd k a = w_coredev w k a)) w"
    (is "settles ?P w")
proof -
  let ?m0 = "(d, w_cachedev w, w_coredev w)" and ?len = "rq_byte_length q"
  let ?I = "\<lambda>(ios :: cb io list) mm. writing CacheVolume addr ?len ?m0 ios mm \<and> writing (CoreVolume core) ((+) p) ?len ?m0 ios mm \<and> (\<forall>k. k \<noteq> core \<longrightarrow> untouched (CoreVolume k) ?m0 ios mm)"
  note D = at_workD [OF w]
  have e: "rq_error q = 0" "cl_resumed (ca_locks (w_cache w)) = []" using w D(2) by (simp_all add: at_work_def req_ready_def)
  have start: "?I (cios @ kios) ?m0"
  proof -
    have wr: "\<forall>io \<in> set (cios @ kios). d_dir io = OCF_WRITE" using ios(2,4) by (auto simp: data_ios_def)
    have vol: "\<forall>io \<in> set cios. d_vol io = CacheVolume" "\<forall>io \<in> set kios. d_vol io = CoreVolume core" using ios(2,4) by (simp_all add: data_ios_def)
    note C = carries_good [OF ios(1,2)] and R = carries_good [OF ios(3,4)]
    have "good_ios CacheVolume addr ?len (cios @ kios)" "good_ios (CoreVolume core) ((+) p) ?len (cios @ kios)"
      using C(1) R(1) vol by (auto simp: good_ios_def)
    moreover have "\<exists>io \<in> set (cios @ kios). d_vol io = CacheVolume \<and> moves io k" if "k < ?len" for k using C(2) [OF that] vol by auto
    moreover have "\<exists>io \<in> set (cios @ kios). d_vol io = CoreVolume core \<and> moves io k" if "k < ?len" for k using R(2) [OF that] vol by auto
    ultimately show ?thesis using wr vol by (auto simp: writing_def untouched_def)
  qed
  have step: "?I (drop_nth i ios) (io_act (ios ! i) mm)" if "?I ios mm" "i < length ios" for ios mm i
    using that writing_step [OF _ that(2) inj] writing_step [OF _ that(2), where addr = "(+) p"] untouched_step [OF _ that(2)] by (auto intro: inj_onI)
  have last: "\<exists>w'. run_cb cb r 0 (busy w r q 1 [] [] mm) = Some w' \<and> settles ?P w'" if I: "?I [] mm" and cb: "cb \<in> {cb_wt_cache, cb_wt_core}" for mm cb
  proof -
    obtain h c f where F: "on_locks r ocf_req_unlock (busy w r q 0 [] [] mm) = Some h"
      "OCF_CACHE_LINE_ACCESS_WR = OCF_CACHE_LINE_ACCESS_WR \<longrightarrow> on_locks r ocf_req_unlock_wr (busy w r q 0 [] [] mm) = Some h" "req_complete r 0 h = Some c" "req_put r c = Some f"
      "quiet f" "ends w r mm f"
      by (rule busy_finish [OF w _ lk ref qu, of mm]) simp
    have "ocf_write_wt_req_complete r (busy w r q 1 [] [] mm) = Some f" using D(3) e(1) F by (simp add: ocf_write_wt_req_complete_def Let_def)
    then have "run_cb cb r 0 (busy w r q 1 [] [] mm) = Some f" using cb by (auto simp: ocf_write_wt_cache_complete_def ocf_write_wt_core_complete_def)
    moreover obtain cd kd where mm: "mm = (d, cd, kd)" using I by (cases mm) (simp add: writing_def)
    have "?P f"
    proof (intro exI [of _ cd] exI [of _ kd] conjI allI impI)
      show "ends w r (d, cd, kd) f" using F(6) mm by simp
      show "cd (addr k) = d k" "kd core (p + k) = d k" if "k < ?len" for k using I that by (auto simp: mm writing_def mdev_def)
      show "cd a = w_cachedev w a" if "a \<notin> addr ` {..<?len}" for a using I that by (auto simp: mm writing_def mdev_def)
      show "kd k a = w_coredev w k a" if "\<not> (k = core \<and> p \<le> a \<and> a < p + ?len)" for k a
      proof (cases "k = core")
        case True
        then have "a \<notin> (+) p ` {..<?len}" using that by auto
        then show ?thesis using I True by (simp add: mm writing_def mdev_def)
      next
        case False
        then show ?thesis using I by (simp add: mm untouched_def mdev_def)
      qed
    qed
    ultimately show ?thesis using F(5) by (blast intro: settles.settled)
  qed
  have "settles ?P (busy w r q (int (length (cios @ kios) + length fls)) (cios @ kios) fls ?m0)"
  proof (rule drain [where CB = "{cb_wt_cache, cb_wt_core}" and I = ?I, OF D(3) qu(1) e(2,1)])
    show "\<forall>io \<in> set (cios @ kios). d_kind io = DataIO \<and> d_req io = r \<and> d_cb io \<in> {cb_wt_cache, cb_wt_core}" using ios(2,4) by (auto simp: data_ios_def)
    show "\<forall>f \<in> set fls. fst f = r \<and> snd f \<in> {cb_wt_cache, cb_wt_core}" using fls(2) by auto
    show "{cb_wt_cache, cb_wt_core} \<subseteq> counting" by (simp add: counting_def)
    show "0 < length (cios @ kios) + length fls" using ios(7) by simp
    show "?I (cios @ kios) ?m0" by (rule start)
  qed (use step last in blast)+
  then show ?thesis using as_busy [OF D(1) d] ios(5,6) fls(1) by simp
qed

text \<open>The flush of the metadata goes along with the data.\<close>

lemma flushes_work: "at_work w r q m v \<Longrightarrow> at_work (w\<lparr>w_flushes := fls\<rparr>) r q m v"
  by (simp add: at_work_def req_ready_def)

lemma wt_flush:
  assumes w: "at_work w r q m v" and n: "rq_req_remaining q = int n" "0 < n" and none: "w_flushes w = []"
  obtains fls where "(if ri_flush_metadata (rq_info q) then ocf_metadata_flush_do_asynch r cb_wt_cache w else Some w) =
      Some (putr r (q\<lparr>rq_req_remaining := int (n + length fls)\<rparr>) (w\<lparr>w_flushes := fls\<rparr>))" "\<forall>f \<in> set fls. f = (r, cb_wt_cache)"
proof -
  note D = at_workD [OF w]
  have same: "putr r (q\<lparr>rq_req_remaining := int n\<rparr>) (w\<lparr>w_flushes := []\<rparr>) = w"
  proof -
    have "q\<lparr>rq_req_remaining := int n\<rparr> = q" "w\<lparr>w_flushes := []\<rparr> = w" using n(1) none by simp_all
    then show ?thesis using putr_same [OF D(6)] by simp
  qed
  consider (no) "\<not> ri_flush_metadata (rq_info q)" | (now) "ri_flush_metadata (rq_info q)" "ca_raw (w_cache w) = metadata_raw_type_volatile"
    | (later) "ri_flush_metadata (rq_info q)" "ca_raw (w_cache w) \<noteq> metadata_raw_type_volatile" by blast
  then show thesis
  proof cases
    case no
    then show thesis using that [of "[]"] same by simp
  next
    case now
    have "ocf_metadata_flush_do_asynch r cb_wt_cache w = Some (putr r (q\<lparr>rq_req_remaining := int n\<rparr>) w)"
      using now n D(1,3)
      by (simp add: ocf_metadata_flush_do_asynch_def modr_def ocf_write_wt_cache_complete_def ocf_write_wt_req_complete_def dec_remaining_def Let_def)
    then show thesis using that [of "[]"] none now(1) by simp
  next
    case later
    have "ocf_metadata_flush_do_asynch r cb_wt_cache w = Some (putr r (q\<lparr>rq_req_remaining := int (n + 1)\<rparr>) (w\<lparr>w_flushes := [(r, cb_wt_cache)]\<rparr>))"
      using later n(1) none D(1,3) by (simp add: ocf_metadata_flush_do_asynch_def modr_def add.commute)
    then show thesis using that [of "[(r, cb_wt_cache)]"] later(1) by simp
  qed
qed

lemma wt_do:
  assumes w: "at_work w r q m v" and pr: "prepared w q" and lk: "lockable (ca_locks (w_cache w)) (rq_core_line_count q) m"
    and ref: "rq_ref_count q = 2" and none: "st_ios (w_io w) = []" "w_flushes w = []"
  obtains w' q2 q' m' cios kios fls where "(ocf_write_wt_do r w \<bind> req_put r) = Some w'" "at_work w' r q' m' v" "env_same (w\<lparr>w_flushes := fls\<rparr>) w'" "bits_to w q (-) w'"
    "lockable (ca_locks (w_cache w')) (rq_core_line_count q') m'" "q' = q2\<lparr>rq_ref_count := 1, rq_req_remaining := int (length (cios @ kios) + length fls)\<rparr>"
    "marks (q\<lparr>rq_ref_count := 3\<rparr>) q2" "st_ios (w_io w') = cios @ kios" "cios \<noteq> []" "carries (byte_addr (w_cfg w) q) 0 (rq_byte_length q) cios"
    "data_ios cb_wt_cache r OCF_WRITE CacheVolume cios" "carries ((+) (rq_byte_position q)) 0 (rq_byte_length q) kios"
    "data_ios cb_wt_core r (rq_rw q) (CoreVolume (rq_core_id q)) kios" "\<forall>f \<in> set fls. f = (r, cb_wt_cache)"
proof -
  define q1 w1 where "q1 = q\<lparr>rq_ref_count := 3\<rparr>" and "w1 = putr r q1 w"
  have g: "req_get r w = Some w1" "at_work w1 r q1 m v" using get_work [OF w] ref by (simp_all add: w1_def q1_def)
  have pr1: "prepared w1 q1" using prepared_get [OF pr] by (simp add: w1_def q1_def)
  have lk1: "lockable (ca_locks (w_cache w1)) (rq_core_line_count q1) m" using lk by (simp add: w1_def q1_def lockable_def)
  have s1: "env_same w w1" "w_io w1 = w_io w" by (simp_all add: w1_def)
  have T: "touched (w_cache w1) q1 n = touched (w_cache w) q n" for n
    by (simp add: touched_def sect_def fun_eq_iff w1_def q1_def line_of_def req_entry_def)
  obtain w2 q2 m2 where w2: "ocf_write_wt_update_bits r w1 = Some w2" "at_work w2 r q2 m2 v" "marks q1 q2" "env_same w1 w2" "w_io w2 = w_io w1"
    "lockable (ca_locks (w_cache w2)) (rq_core_line_count q2) m2" "bits_to w1 q1 (-) w2"
    by (rule wt_bits [OF g(2) pr1 lk1])
  let ?n = "ocf_engine_io_count q2 + 1"
  define q3 w3 where "q3 = q2\<lparr>rq_req_remaining := int ?n\<rparr>" and "w3 = putr r q3 w2"
  have w3: "set_remaining r (int (ocf_engine_io_count q2) + 1) w2 = Some w3" "at_work w3 r q3 m2 v"
    using remaining_work [OF w2(2), of "int ?n"] by (simp_all add: w3_def q3_def add.commute)
  have none3: "w_flushes w3 = []" using none(2) s1(1) w2(4) by (simp add: env_same_def w3_def)
  obtain fls where fl: "(if ri_flush_metadata (rq_info q3) then ocf_metadata_flush_do_asynch r cb_wt_cache w3 else Some w3) =
      Some (putr r (q3\<lparr>rq_req_remaining := int (?n + length fls)\<rparr>) (w3\<lparr>w_flushes := fls\<rparr>))" "\<forall>f \<in> set fls. f = (r, cb_wt_cache)"
    by (rule wt_flush [OF w3(2) _ _ none3, of ?n]) (simp_all add: q3_def)
  define q4 w4 where "q4 = q2\<lparr>rq_req_remaining := int (?n + length fls)\<rparr>" and "w4 = putr r q4 (w3\<lparr>w_flushes := fls\<rparr>)"
  have fl4: "(if ri_flush_metadata (rq_info q2) then ocf_metadata_flush_do_asynch r cb_wt_cache w3 else Some w3) = Some w4"
    using fl(1) by (simp add: q3_def q4_def w4_def)
  have "at_work (putr r (q3\<lparr>rq_req_remaining := int (?n + length fls)\<rparr>) (w3\<lparr>w_flushes := fls\<rparr>)) r (q3\<lparr>rq_req_remaining := int (?n + length fls)\<rparr>) m2 v"
    by (rule remaining_work(2) [OF flushes_work [OF w3(2)]])
  then have w4: "at_work w4 r q4 m2 v" by (simp add: q3_def q4_def w4_def)
  have as4: "aside q2 q4" "rq_info q4 = rq_info q2" unfolding q4_def by (rule aside_upd(2)) simp
  have pr1': "all_mapped (w_cache w1) q1" "\<forall>i < rq_core_line_count q1. points (w_cache w1) q1 i" "ri_seq_req (rq_info q1) \<longrightarrow> seq_upto (cf_lg2phy (w_cfg w1)) q1 (rq_core_line_count q1)"
    using pr1 unfolding prepared_def by blast+
  have c4: "ca_coll (w_cache w4) = ca_coll (w_cache w1)" "w_cfg w4 = w_cfg w1" using w2(7) by (simp_all add: bits_to_def w4_def w3_def)
  note A = marks_aside [OF w2(3) as4 pr1'(1,2) c4(1) pr1'(3)]
  have wr: "OCF_WRITE < 2" by (simp add: OCF_WRITE_def)
  obtain s cios where s: "submit_cache_reqs r OCF_WRITE 0 (rq_byte_length q4) (ocf_engine_io_count q4) cb_wt_cache w4 = Some (w4\<lparr>w_io := s\<rparr>)"
    "at_work (w4\<lparr>w_io := s\<rparr>) r q4 m2 v" "submitted (w_io w4) cios s" "length cios = ocf_engine_io_count q4"
    "carries (byte_addr (w_cfg w4) q4) 0 (rq_byte_length q4) cios" "data_ios cb_wt_cache r OCF_WRITE CacheVolume cios"
    by (rule submit_cache_work [OF w4 A(1) wr]) (use A(5) c4(2) in auto)
  obtain t kios where t: "submit_volume_req r cb_wt_core (w4\<lparr>w_io := s\<rparr>) = Some (w4\<lparr>w_io := s\<rparr>\<lparr>w_io := t\<rparr>)"
    "at_work (w4\<lparr>w_io := s\<rparr>\<lparr>w_io := t\<rparr>) r q4 m2 v" "submitted (w_io (w4\<lparr>w_io := s\<rparr>)) kios t" "length kios = 1"
    "carries (\<lambda>k. rq_byte_position q4 + k) 0 (rq_byte_length q4) kios" "data_ios cb_wt_core r (rq_rw q4) (CoreVolume (rq_core_id q4)) kios"
    by (rule submit_volume_work [OF s(2)])
  have q4s: "rq_byte_length q4 = rq_byte_length q2" "ocf_engine_io_count q4 = ocf_engine_io_count q2" "rq_ref_count q4 = 3"
    using kept_fields(9) [of q1 q2] w2(3) by (simp_all add: q4_def ocf_engine_io_count_def q1_def marks_def)
  define w5 where "w5 = w4\<lparr>w_io := t\<rparr>"
  have w5: "submit_volume_req r cb_wt_core (w4\<lparr>w_io := s\<rparr>) = Some w5" "at_work w5 r q4 m2 v" using t(1,2) by (simp_all add: w5_def)
  obtain w6 where w6: "(update_request_stats r w5 \<bind> (\<lambda>w. update_block_stats r w \<bind> (\<lambda>w. req_put r w \<bind> req_put r))) = Some w6"
    "at_work w6 r (q4\<lparr>rq_ref_count := 1\<rparr>) m2 v" "env_same w5 w6" "meta_same w5 w6" "st_ios (w_io w6) = st_ios (w_io w5)"
    by (rule stats_puts [OF w5(2) q4s(3)])
  have sub: "ocf_write_wt_submit r w2 = Some w5"
    using at_workD(1) [OF w2(2)] w3(1) fl4 s(1) w5(1) q4s by (simp add: ocf_write_wt_submit_def)
  have run: "(ocf_write_wt_do r w \<bind> req_put r) = Some w6" using g(1) w2(1) sub w6(1) by (simp add: ocf_write_wt_do_def)
  have env: "env_same (w\<lparr>w_flushes := fls\<rparr>) w6" using s1(1) w2(4) w6(3) by (simp add: env_same_def w3_def w4_def w5_def)
  have m26: "meta_same w2 w6" using w6(4) by (simp add: meta_same_def w3_def w4_def w5_def)
  then have "bits_to w1 q1 (-) w6" by (rule bits_to_same [OF w2(7)]) (use w6(3) in \<open>simp add: env_same_def w3_def w4_def w5_def\<close>)
  then have bits: "bits_to w q (-) w6" unfolding bits_to_def T by (simp add: w1_def q1_def)
  have lk6: "lockable (ca_locks (w_cache w6)) (rq_core_line_count (q4\<lparr>rq_ref_count := 1\<rparr>)) m2"
    using w2(6) at_workD(8) [OF w6(2)] at_workD(8) [OF w2(2)] m26 by (simp add: lockable_def q4_def meta_same_def)
  have ios: "st_ios (w_io w6) = cios @ kios" using w6(5) s(3) t(3) w2(5) s1(2) none(1) by (simp add: w3_def w4_def w5_def submitted_def)
  have addr: "byte_addr (w_cfg w4) q4 = byte_addr (w_cfg w) q"
  proof -
    have "w_cfg w4 = w_cfg w" using c4(2) by (simp add: w1_def)
    moreover have "byte_addr cf q1 = byte_addr cf q" for cf by (simp add: fun_eq_iff byte_addr_def byte_line_def q1_def line_of_def req_entry_def)
    ultimately show ?thesis using A(3) by simp
  qed
  have car: "carries (byte_addr (w_cfg w) q) 0 (rq_byte_length q) cios" using s(5) addr A(4) by (simp add: q1_def)
  have kar: "carries ((+) (rq_byte_position q)) 0 (rq_byte_length q) kios" using t(5) A(4,9) by (simp add: q1_def)
  have kio: "data_ios cb_wt_core r (rq_rw q) (CoreVolume (rq_core_id q)) kios" using t(6) A(7,8) by (simp add: q1_def)
  have "0 < length cios" using s(4) at_workD(7) [OF s(2)] by (simp add: ocf_engine_io_count_def req_ok_def)
  then have ne: "cios \<noteq> []" by simp
  have q': "q4\<lparr>rq_ref_count := 1\<rparr> = q2\<lparr>rq_ref_count := 1, rq_req_remaining := int (length (cios @ kios) + length fls)\<rparr>" using s(4) t(4) q4s(2) by (simp add: q4_def)
  show thesis by (rule that [OF run w6(2) env bits lk6 q' w2(3) [unfolded q1_def] ios ne car s(6) kar kio fl(2)])
qed

lemma core_after:
  assumes "\<forall>k < rq_byte_length q. kd' (rq_core_id q) (rq_byte_position q + k) = d k" "\<forall>core a. \<not> inside q core a \<longrightarrow> kd' core a = kd core a"
  shows "kd' core a = (if inside q core a then d (a - rq_byte_position q) else kd core a)"
proof (cases "inside q core a")
  case True
  then have "a - rq_byte_position q < rq_byte_length q" "core = rq_core_id q" "rq_byte_position q + (a - rq_byte_position q) = a" by (auto simp: inside_def)
  then show ?thesis using True assms(1) by metis
qed (use assms(2) in simp)

text \<open>
  C3. A write-through write stores its data in the cache and on the core. Under the hypotheses of the write-back case the write runs without a failing assertion up to the submission
  of its I/Os, one to the core and those to the cache, with the flush of the metadata when lines get clean. Whatever order they complete in, the system comes to rest. The request has then
  been completed exactly once, without an error, and freed. No line stays locked and the metadata is sound. The content of the core is the data of the request where the
  request reaches and what it was everywhere else. The core device holds the data too, nothing else of a core device has changed, and cached bytes that are not dirty are the same as on the core,
  if they were before.
\<close>

theorem write_wt_stores:
  fixes w :: "'w::len world"
  assumes new: "fresh w r q" and wr: "rq_rw q = OCF_WRITE" and d: "w_data w r = Some d" and mapped: "lines_mapped w q"
  shows "\<exists>w1. ocf_write_wt r w = Some w1 \<and> settles (\<lambda>w'. wrote w r q d w' \<and>
    (\<forall>core a. w_coredev w' core a = (if inside q core a then d (a - rq_byte_position q) else w_coredev w core a))) w1"
proof -
  have lt: "ocf_wt_get_lock_type q = ocf_engine_lock_write" for q by (simp add: ocf_wt_get_lock_type_def)
  obtain w0 w3 q3 m3 where t: "req_get r w = Some w0"
    "ocf_engine_prepare_clines ocf_wt_get_lock_type r (w0\<lparr>w_io_if := (w_io_if w0)(r := req_if FN_ocf_write_wt_do)\<rparr>) = Some (OCF_LOCK_ACQUIRED, w3)"
    "at_work w3 r q3 m3 OCF_CACHE_LINE_ACCESS_WR" "env_same w w3" "meta_same w w3" "prepared w3 q3" "lockable (ca_locks (w_cache w3)) (rq_core_line_count q3) m3"
    "rq_ref_count q3 = 2" "st_ios (w_io w3) = []" "mapping_error r w3 = Some False" "can_free (w_ctx w) q3"
    "rq_core_id q3 = rq_core_id q" "rq_byte_position q3 = rq_byte_position q" "rq_byte_length q3 = rq_byte_length q" "rq_rw q3 = rq_rw q"
    by (rule wr_start [OF new mapped lt])
  have quiet: "quiet w" using new by (simp add: fresh_def)
  have none: "w_flushes w3 = []" using quiet t(4) by (simp add: quiet_def env_same_def)
  obtain w4 q2 q4 m4 cios kios fls where f: "(ocf_write_wt_do r w3 \<bind> req_put r) = Some w4" "at_work w4 r q4 m4 OCF_CACHE_LINE_ACCESS_WR" "env_same (w3\<lparr>w_flushes := fls\<rparr>) w4" "bits_to w3 q3 (-) w4"
    "lockable (ca_locks (w_cache w4)) (rq_core_line_count q4) m4" "q4 = q2\<lparr>rq_ref_count := 1, rq_req_remaining := int (length (cios @ kios) + length fls)\<rparr>"
    "marks (q3\<lparr>rq_ref_count := 3\<rparr>) q2" "st_ios (w_io w4) = cios @ kios" "cios \<noteq> []" "carries (byte_addr (w_cfg w3) q3) 0 (rq_byte_length q3) cios"
    "data_ios cb_wt_cache r OCF_WRITE CacheVolume cios" "carries ((+) (rq_byte_position q3)) 0 (rq_byte_length q3) kios"
    "data_ios cb_wt_core r (rq_rw q3) (CoreVolume (rq_core_id q3)) kios" "\<forall>f \<in> set fls. f = (r, cb_wt_cache)"
    by (rule wt_do [OF t(3,6,7,8,9) none])
  have run: "ocf_write_wt r w = Some w4"
    using t(1,2,10) f(1) by (simp add: ocf_write_wt_def after_prepare_def after_lock_def OCF_LOCK_ACQUIRED_def)
  have k: "kept (q3\<lparr>rq_ref_count := 3\<rparr>) q2" using f(7) by (simp add: marks_def)
  note K = kept_fields [OF k]
  have len: "rq_byte_length q4 = rq_byte_length q3" using K by (simp add: f(6))
  have cf: "can_free (w_ctx w4) q4" using t(4,11) f(3) K by (simp add: can_free_def f(6) env_same_def)
  have qu: "w_queue w4 = []" "w_cleaning w4 = []" "w_data w4 r = Some d" "w_flushes w4 = fls" using d quiet t(4) f(3) by (simp_all add: quiet_def env_same_def)
  have am: "all_mapped (w_cache w3) q3" using t(6) by (simp add: prepared_def)
  have inj: "inj_on (byte_addr (w_cfg w3) q3) {..<rq_byte_length q4}" unfolding len by (rule all_mapped_lines(4) [OF t(3) am])
  have dev: "w_cachedev w4 = w_cachedev w3" "w_coredev w4 = w_coredev w3" using f(3) by (simp_all add: env_same_def)
  have fin: "settles (\<lambda>w'. \<exists>cd kd. ends w4 r (d, cd, kd) w' \<and> (\<forall>k < rq_byte_length q4. cd (byte_addr (w_cfg w3) q3 k) = d k \<and> kd (rq_core_id q3) (rq_byte_position q3 + k) = d k) \<and>
      (\<forall>a. a \<notin> byte_addr (w_cfg w3) q3 ` {..<rq_byte_length q4} \<longrightarrow> cd a = w_cachedev w4 a) \<and>
      (\<forall>k a. \<not> (k = rq_core_id q3 \<and> rq_byte_position q3 \<le> a \<and> a < rq_byte_position q3 + rq_byte_length q4) \<longrightarrow> kd k a = w_coredev w4 k a)) w4"
    by (rule wt_settles [OF f(2,5) _ cf qu(1-3) inj qu(4) f(14) _ f(11)]) (use f(6,8-13) t(15) wr len in simp_all)
  have con: "content w3 = content w" "coherent w3 = coherent w" using t(4,5) by (intro content_same; simp add: env_same_def meta_same_def)+
  have ins: "inside q3 = inside q" by (simp add: inside_def fun_eq_iff t(12-14))
  have "settles (\<lambda>w'. wrote w r q d w' \<and> (\<forall>core a. w_coredev w' core a = (if inside q core a then d (a - rq_byte_position q) else w_coredev w core a))) w4"
  proof (rule settles_mono [OF fin])
    fix w'
    assume "\<exists>cd kd. ends w4 r (d, cd, kd) w' \<and> (\<forall>k < rq_byte_length q4. cd (byte_addr (w_cfg w3) q3 k) = d k \<and> kd (rq_core_id q3) (rq_byte_position q3 + k) = d k) \<and>
      (\<forall>a. a \<notin> byte_addr (w_cfg w3) q3 ` {..<rq_byte_length q4} \<longrightarrow> cd a = w_cachedev w4 a) \<and>
      (\<forall>k a. \<not> (k = rq_core_id q3 \<and> rq_byte_position q3 \<le> a \<and> a < rq_byte_position q3 + rq_byte_length q4) \<longrightarrow> kd k a = w_coredev w4 k a)"
    then have x: "served w4 r d w'" "meta_same w4 w'" "\<forall>k < rq_byte_length q3. w_cachedev w' (byte_addr (w_cfg w3) q3 k) = d k"
      "\<forall>k < rq_byte_length q3. w_coredev w' (rq_core_id q3) (rq_byte_position q3 + k) = d k"
      "\<forall>a. a \<notin> byte_addr (w_cfg w3) q3 ` {..<rq_byte_length q3} \<longrightarrow> w_cachedev w' a = w_cachedev w3 a"
      "\<forall>core a. \<not> inside q3 core a \<longrightarrow> w_coredev w' core a = w_coredev w3 core a"
      by (auto simp: ends_def dev len inside_def)
    have b: "bits_to w3 q3 (-) w'" by (rule bits_to_same [OF f(4) x(2)]) (use x(1) in \<open>simp add: served_def\<close>)
    note S = stored [OF t(3) am b x(3,5,6) disjI2 [OF conjI [OF refl x(4)]]]
    have "served w r d w'" using x(1) t(4) f(3) by (simp add: served_def env_same_def)
    moreover have "w_coredev w' core a = (if inside q core a then d (a - rq_byte_position q) else w_coredev w core a)" for core a
      by (rule core_after) (use x(4,6) t(4,12-14) ins in \<open>simp_all add: env_same_def\<close>)
    ultimately show "wrote w r q d w' \<and> (\<forall>core a. w_coredev w' core a = (if inside q core a then d (a - rq_byte_position q) else w_coredev w core a))"
      using S unfolding wrote_def con ins t(13) by blast
  qed
  then show ?thesis using run by blast
qed

theorem write_wt_stores_witness:
  "\<exists>w1. ocf_write_wt 0 (sample_world 1) = Some w1 \<and> settles (\<lambda>w'. wrote (sample_world 1) 0 (sample_req 1) (\<lambda>_. 0) w' \<and>
    (\<forall>core a. w_coredev w' core a = (if inside (sample_req 1) core a then 0 else w_coredev (sample_world 1) core a))) w1 \<and>
    inside (sample_req 1) 0 4608 \<and> w_coredev (sample_world 1) 0 4608 = 1"
  using write_wt_stores [OF sample_fresh sample_write(1,2) sample_mapped] sample_write(4) by (simp add: sample_world_def)

end
