(* ===== verification/Spec2Isabelle.thy ===== *)
theory Spec2Isabelle
  imports LineStatus Dispatch Monitor MetadataLocks Pipeline ALRU ACP SeqCutoff WritePath
begin

text \<open>
  A verification of the Open CAS Framework, a block storage caching library, with the Orthus (multi-factor) extension.

  \<^bold>\<open>The program.\<close> A user submits an I/O to a core (\<^verbatim>\<open>src/src/ocf_core.c\<close>). The library resolves the cache mode, makes a request
  (\<^verbatim>\<open>ocf_request.c\<close>) and queues it or serves it at once (\<^verbatim>\<open>engine/cache_engine.c\<close>, \<^verbatim>\<open>ocf_queue.c\<close>). The engine of the mode looks the core
  lines up in the collision table, maps missing ones to free or evicted cache lines, locks the lines, updates the valid and dirty bits, submits I/Os to the cache device and
  to the core, and ends the request from their completions. Around the engines are the promotion policy, the partitions with their eviction lists, the cleaning policies, the
  statistics, the monitor that tunes the admission of loads, and the pipelines of the management.

  \<^bold>\<open>Theories and sources\<close> (names without a directory are under \<^verbatim>\<open>src/src/\<close>; the operations keep the names of the C functions, with leading
  underscores dropped):
  \<^item> \<open>OCF_Prelude\<close>: the result monad on options, loops over lists, list and word facts; \<open>DList\<close>, \<open>LineLists\<close>: doubly linked lists in arrays.
  \<^item> \<open>MetadataBits\<close>: \<^verbatim>\<open>metadata/metadata_bit.h\<close>, \<^verbatim>\<open>metadata_status.h\<close>, the bits as words of any width; \<open>Collision\<close>: the hash table of \<^verbatim>\<open>metadata_collision.c\<close> and the lookup;
    \<open>PartLinks\<close>, \<open>OcfList\<close>, \<open>Partition\<close>: \<^verbatim>\<open>metadata_partition.c\<close>, \<^verbatim>\<open>utils_list\<close>, \<^verbatim>\<open>utils_part\<close>; \<open>Freelist\<close>: \<^verbatim>\<open>ocf_freelist.c\<close>; \<open>Layout\<close>: the maps between logical
    and physical lines of \<^verbatim>\<open>metadata_hash.c\<close>.
  \<^item> \<open>LRU\<close>, \<open>CacheLine\<close>, \<open>CacheInv\<close>, \<open>LineStatus\<close>, \<open>Eviction\<close>: \<^verbatim>\<open>eviction/\<close>, \<^verbatim>\<open>utils_cache_line.c\<close> and the metadata of the lines together. \<open>CacheInv\<close> holds the
    invariant \<open>cache_rep\<close> that ties the collision table, the partition lists, the eviction lists, the free lists and the bits together.
  \<^item> \<open>Refcnt\<close>, \<open>Request\<close>: \<^verbatim>\<open>utils_refcnt.c\<close>, \<^verbatim>\<open>ocf_request.c\<close>; \<open>RWSem\<close>: the read/write semaphores of the environment layer (\<^verbatim>\<open>src/env/posix/ocf_env.h\<close>); \<open>CLConcurrency\<close>: \<^verbatim>\<open>concurrency/ocf_cache_line_concurrency.c\<close>; \<open>MetadataLocks\<close>: \<^verbatim>\<open>ocf_metadata_concurrency.c\<close>;
    \<open>AsyncLock\<close>: \<^verbatim>\<open>utils_async_lock.c\<close>; \<open>Pipeline\<close>: \<^verbatim>\<open>utils_pipeline.c\<close>.
  \<^item> \<open>Nhit\<close>: \<^verbatim>\<open>promotion/\<close>; \<open>Monitor\<close>: \<^verbatim>\<open>engine/mf_monitor.c\<close>; \<open>ALRU\<close>, \<open>ACP\<close>: \<^verbatim>\<open>cleaning/alru.c\<close>, \<^verbatim>\<open>cleaning/acp.c\<close>; \<open>RBTree\<close>, \<open>SeqCutoff\<close>: \<^verbatim>\<open>utils_rbtree.c\<close>, \<^verbatim>\<open>ocf_seq_cutoff.c\<close>; \<open>Stats\<close>: \<^verbatim>\<open>ocf_stats.c\<close> and the report builder; \<open>DataIO\<close>: \<^verbatim>\<open>utils_io.c\<close>.
  \<^item> \<open>Engine\<close>: the common path of \<^verbatim>\<open>engine/engine_common.c\<close>; \<open>Dispatch\<close>: cache modes, queues and the core volume; \<open>Engines\<close>: every engine with its completions.
  \<^item> \<open>Runs\<close>, \<open>ReqInfo\<close>, \<open>Content\<close>, \<open>Stages\<close>, \<open>ReadPath\<close>, \<open>WritePath\<close>: whole requests, from the call of the engine to the end.

  \<^bold>\<open>State and effects.\<close> Structures are records, tables indexed by line are functions on numbers below the number of entries, and machine integers are numbers with the wrap-around of
  their width written out, or words in \<open>MetadataBits\<close>. An operation returns \<open>None\<close> where an assertion of the code fails or memory outside of a structure is read. So a
  theorem that an operation returns \<open>Some\<close> says that no assertion fails. Errors of the code are values. The engines work on a record \<open>world\<close>: the metadata, the devices as byte
  functions, the buffers, the queue, the I/Os and metadata flushes under way and the finished requests. \<open>step\<close> lets the environment choose what happens next: the next request of the queue runs, a
  request wakes up, an I/O or a flush completes, with or without an error. \<open>settles P w\<close> says that every run of successful completions from \<open>w\<close> comes to rest in a state with \<open>P\<close>.

  \<^bold>\<open>What is shown.\<close>
  \<^item> Whole requests (\<open>ReadPath\<close>, \<open>WritePath\<close>): \<open>content\<close> is what a core holds as its users see it, from the cache where a sector is valid and from the core
    otherwise; \<open>coherent\<close> says that clean cached bytes are on the core. A read hit and a pass-through read return the content, write-back and write-through writes change it to
    the data of the request and nowhere else, for every order of completions. Each request is completed once and freed, and leaves no lock behind.
  \<^item> The metadata: every change of bits, lists and table keeps \<open>cache_rep\<close> and does what the code means it to. Lookup and mapping agree with an abstract map from core lines to cache
    lines, mapping is all or nothing, a hit makes its lines the most recently used ones, and eviction takes the least recently used ones, or none in atomic mode and at the limit of
    pending evictions.
  \<^item> Concurrency: step relations over the operations of many requests with safety (exclusion), progress (no lost wake-up, no deadlock) and the order in which waiters are served. The steps of
    the cache line locks include those of the semaphore that keeps the fast path, with its rollback, apart from the slow path, which queues waiters. The lock words and the counters of readers wrap around at their
    width; the step relations let no more users in than they have room for.
  \<^item> The rest: termination and bounds of the monitor, promotion at the configured access of a line since it was last purged, the search of ACP for the fullest chunk as its code does it (which is not what a comment there says of chunks after an error), exact lists and counts of dirty lines in the cleaning policies, a pointer red-black tree that refines a sorted list and stays balanced, detection of
    sequential streams, queues in order, exact statistics, round trips of layout and requests.

  \<^bold>\<open>Loops.\<close> Loops over a known range are folds. Walks along links stop at a bound on the number of lines, and the invariants show that the bound is never reached. The searches
  of the slow path of the free lists, and the mutual recursion of the generic and the pass-through read, are \<open>partial_function\<close>s on options or carry a bound, and the theorems about them state that they return.

  \<^bold>\<open>Parameters.\<close> The layout of the lines, the answer of the sequential cut-off to a request that \<open>Dispatch\<close> resolves, the measurements of the monitor, the steps of a pipeline, the clock, allocation results and the answers of the devices
  are arguments or fields of the state; the theorems hold for all of their values that their hypotheses allow.

  \<^bold>\<open>Not modelled.\<close> The I/O state machine of the cleaner, the pages of the metadata on the device with recovery,
  the management operations (start, stop, attach, load), tracing and logging, and the environment layer apart from its semaphores. They are long sequences of asynchronous device operations over state that the models here
  do not have. Errors of devices are modelled in every completion of the engines, but a metadata flush that cannot even be started is not; the theorems about whole requests are about runs without them. They are also about a request that is alone in the system. The interplay of
  requests is covered by the theorems about locks.
\<close>

end
